(* ===== verification/Prelude.thy ===== *)
theory Prelude
  imports Main "HOL-Library.Word" "HOL-Library.Multiset"
begin

text \<open>
  Shared vocabulary of the development.

  \<^item> \<open>outcome\<close> is the result type of every modelled kernel routine that can fail: \<open>Ok\<close> and
    \<open>Err\<close> are the two constructors of Rust's \<^verbatim>\<open>Result\<close>, and \<open>Panic\<close> is a
    failed \<^verbatim>\<open>assert!\<close>, an \<^verbatim>\<open>unwrap\<close> on nothing, an index out of range, or an explicit
    \<^verbatim>\<open>panic!\<close> / \<^verbatim>\<open>unreachable!\<close>. A panic stops the kernel, so it carries no state.
  \<^item> The named collections \<open>kdefs\<close> (definitions that proofs unfold) and \<open>ksimps\<close>
    (simplification facts about the model) are extended by the component theories.
  \<^item> The generic lemmas on lists, division by powers of two and bits that several components use.
\<close>

named_theorems kdefs \<open>definitions that component proofs unfold\<close>

named_theorems ksimps \<open>simplification facts about the model\<close>

section \<open>Outcomes\<close>

datatype ('e, 'a) outcome = Ok 'a | Err 'e | Panic

fun obind :: "('e, 'a) outcome \<Rightarrow> ('a \<Rightarrow> ('e, 'b) outcome) \<Rightarrow> ('e, 'b) outcome" where
  "obind (Ok x) f = f x"
| "obind (Err e) f = Err e"
| "obind Panic f = Panic"

text \<open>\<open>assert\<close> of the source: the continuation runs only when the condition holds.\<close>

definition assert_then :: "bool \<Rightarrow> ('e, 'a) outcome \<Rightarrow> ('e, 'a) outcome" where
  "assert_then b k = (if b then k else Panic)"

lemma assert_then_simps [simp]:
  "assert_then True k = k" "assert_then False k = Panic"
  by (simp_all add: assert_then_def)

lemma assert_then_Ok [simp]: "assert_then b k = Ok x \<longleftrightarrow> b \<and> k = Ok x"
  by (simp add: assert_then_def)

lemma assert_then_Err [simp]: "assert_then b k = Err e \<longleftrightarrow> b \<and> k = Err e"
  by (simp add: assert_then_def)

lemma obind_Ok [simp]: "obind m f = Ok y \<longleftrightarrow> (\<exists>x. m = Ok x \<and> f x = Ok y)"
  by (cases m) simp_all

lemma obind_Err [simp]: "obind m f = Err e \<longleftrightarrow> m = Err e \<or> (\<exists>x. m = Ok x \<and> f x = Err e)"
  by (cases m) auto

lemma obind_assoc: "obind (obind m f) g = obind m (\<lambda>x. obind (f x) g)"
  by (cases m) simp_all

lemma obind_cong [fundef_cong]:
  "m = m' \<Longrightarrow> (\<And>x. m' = Ok x \<Longrightarrow> f x = f' x) \<Longrightarrow> obind m f = obind m' f'"
  by (cases m') auto

end
