(* ===== verification/Errors.thy ===== *)
theory Errors
  imports Prelude
begin

text \<open>
  The kernel's error type (\<^verbatim>\<open>crates/kernel/src/error.rs\<close>). The enum is
  \<^verbatim>\<open>repr(isize)\<close>: its discriminant is what a failing system call hands to user space, and
  \<^verbatim>\<open>from_isize\<close> is the user library's decoder. The lemmas show that no information is
  lost on the way and that the discriminants cannot be mistaken for a successful result.
\<close>

datatype error =
    Uncategorized
  | ResourceBusy
  | NotFound
  | OutOfMemory
  | BadVirtAddr
  | StorageFull
  | TooManyLinks
  | NoSuchProcess
  | WouldBlock
  | NoBufferSpace
  | NoChildProcesses
  | Interrupted
  | BadFileDescriptor
  | FileDescriptorTooLarge
  | FileTooLarge
  | AlreadyExists
  | IsADirectory
  | NotADirectory
  | CrossesDevices
  | PermissionDenied
  | DirectoryNotEmpty
  | FileTableOverflow
  | InvalidArgument
  | NoSuchNode
  | BrokenPipe
  | ExecFileFormatError
  | ArgumentListTooLong
  | Utf8Error
  | WriteZero
  | NotConnected

text \<open>The discriminants; \<open>Uncategorized\<close> has none written and is first, so it is 0.\<close>

fun discriminant :: "error \<Rightarrow> int" where
  "discriminant Uncategorized = 0"
| "discriminant ResourceBusy = - 2"
| "discriminant NotFound = - 3"
| "discriminant OutOfMemory = - 4"
| "discriminant BadVirtAddr = - 5"
| "discriminant StorageFull = - 6"
| "discriminant TooManyLinks = - 7"
| "discriminant NoSuchProcess = - 8"
| "discriminant WouldBlock = - 9"
| "discriminant NoBufferSpace = - 10"
| "discriminant NoChildProcesses = - 11"
| "discriminant Interrupted = - 12"
| "discriminant BadFileDescriptor = - 13"
| "discriminant FileDescriptorTooLarge = - 14"
| "discriminant FileTooLarge = - 15"
| "discriminant AlreadyExists = - 16"
| "discriminant IsADirectory = - 17"
| "discriminant NotADirectory = - 18"
| "discriminant CrossesDevices = - 19"
| "discriminant PermissionDenied = - 20"
| "discriminant DirectoryNotEmpty = - 21"
| "discriminant FileTableOverflow = - 22"
| "discriminant InvalidArgument = - 23"
| "discriminant NoSuchNode = - 24"
| "discriminant BrokenPipe = - 25"
| "discriminant ExecFileFormatError = - 26"
| "discriminant ArgumentListTooLong = - 27"
| "discriminant Utf8Error = - 28"
| "discriminant WriteZero = - 29"
| "discriminant NotConnected = - 30"

definition from_isize :: "int \<Rightarrow> error" where
  "from_isize code =
    (if code = - 2 then ResourceBusy
     else if code = - 3 then NotFound
     else if code = - 4 then OutOfMemory
     else if code = - 5 then BadVirtAddr
     else if code = - 6 then StorageFull
     else if code = - 7 then TooManyLinks
     else if code = - 8 then NoSuchProcess
     else if code = - 9 then WouldBlock
     else if code = - 10 then NoBufferSpace
     else if code = - 11 then NoChildProcesses
     else if code = - 12 then Interrupted
     else if code = - 13 then BadFileDescriptor
     else if code = - 14 then FileDescriptorTooLarge
     else if code = - 15 then FileTooLarge
     else if code = - 16 then AlreadyExists
     else if code = - 17 then IsADirectory
     else if code = - 18 then NotADirectory
     else if code = - 19 then CrossesDevices
     else if code = - 20 then PermissionDenied
     else if code = - 21 then DirectoryNotEmpty
     else if code = - 22 then FileTableOverflow
     else if code = - 23 then InvalidArgument
     else if code = - 24 then NoSuchNode
     else if code = - 25 then BrokenPipe
     else if code = - 26 then ExecFileFormatError
     else if code = - 27 then ArgumentListTooLong
     else if code = - 28 then Utf8Error
     else if code = - 29 then WriteZero
     else if code = - 30 then NotConnected
     else Uncategorized)"

fun as_str :: "error \<Rightarrow> string" where
  "as_str Uncategorized = ''uncategorized error''"
| "as_str ResourceBusy = ''resource busy''"
| "as_str NotFound = ''entry not found''"
| "as_str OutOfMemory = ''out of memory''"
| "as_str BadVirtAddr = ''bad virtual address''"
| "as_str StorageFull = ''no storage space''"
| "as_str TooManyLinks = ''too many links''"
| "as_str NoSuchProcess = ''no such process''"
| "as_str WouldBlock = ''operation would block''"
| "as_str NoBufferSpace = ''no buffer space available''"
| "as_str NoChildProcesses = ''no child processes''"
| "as_str Interrupted = ''operation interrupted''"
| "as_str BadFileDescriptor = ''bad file descriptor''"
| "as_str FileDescriptorTooLarge = ''file descriptor value too large''"
| "as_str FileTooLarge = ''file too large''"
| "as_str AlreadyExists = ''entity already exists''"
| "as_str IsADirectory = ''is a directory''"
| "as_str NotADirectory = ''not a directory''"
| "as_str CrossesDevices = ''cross-device link or rename''"
| "as_str PermissionDenied = ''permission denied''"
| "as_str DirectoryNotEmpty = ''directory not empty''"
| "as_str FileTableOverflow = ''inode or file table overflow in system''"
| "as_str InvalidArgument = ''invalid argument''"
| "as_str NoSuchNode = ''no such node or address''"
| "as_str BrokenPipe = ''broken pipe''"
| "as_str ExecFileFormatError = ''executable file format error''"
| "as_str ArgumentListTooLong = ''argument list too long''"
| "as_str Utf8Error = ''slice is not utf8''"
| "as_str WriteZero = ''write zero''"
| "as_str NotConnected = ''not connected''"

type_synonym 'a result = "(error, 'a) outcome"

text \<open>Operations that pass a state on: a failing one has a state as well.\<close>

definition kret :: "'a \<Rightarrow> 's \<Rightarrow> 'a result \<times> 's" where "kret x k = (Ok x, k)"

definition kfail :: "error \<Rightarrow> 's \<Rightarrow> 'a result \<times> 's" where "kfail e k = (Err e, k)"

definition kbind :: "('s \<Rightarrow> 'a result \<times> 's) \<Rightarrow> ('a \<Rightarrow> 's \<Rightarrow> 'b result \<times> 's) \<Rightarrow> 's \<Rightarrow> 'b result \<times> 's" where
  "kbind m f k =
     (case m k of
        (Ok x, k') \<Rightarrow> f x k'
      | (Err e, k') \<Rightarrow> (Err e, k')
      | (Panic, k') \<Rightarrow> (Panic, k'))"

lemma kbind_Ok: "kbind m f k = (Ok y, k') \<longleftrightarrow> (\<exists>x k1. m k = (Ok x, k1) \<and> f x k1 = (Ok y, k'))"
  by (auto simp: kbind_def split: prod.splits outcome.splits)

lemma from_isize_discriminant [simp]: "from_isize (discriminant e) = e"
  by (cases e) (simp_all add: from_isize_def)

lemma discriminant_inject [simp]: "discriminant a = discriminant b \<longleftrightarrow> a = b"
  by (metis from_isize_discriminant)

text \<open>Errors are ordered by the code user space sees, so that tables of errors can be sorted.\<close>

instantiation error :: linorder
begin

definition less_eq_error :: "error \<Rightarrow> error \<Rightarrow> bool" where
  "less_eq_error a b \<longleftrightarrow> discriminant a \<le> discriminant b"

definition less_error :: "error \<Rightarrow> error \<Rightarrow> bool" where
  "less_error a b \<longleftrightarrow> discriminant a < discriminant b"

instance
  by standard (auto simp: less_eq_error_def less_error_def)

end

lemma discriminant_range: "discriminant e = 0 \<or> (- 30 \<le> discriminant e \<and> discriminant e \<le> - 2)"
  by (cases e) simp_all

lemma decoded_codes: "list_all (\<lambda>c. discriminant (from_isize c) = c) [- 30..- 2]"
  by code_simp

lemma discriminant_from_isize:
  "discriminant (from_isize c) = (if - 30 \<le> c \<and> c \<le> - 2 then c else 0)"
proof (cases "- 30 \<le> c \<and> c \<le> - 2")
  case True
  then have "c \<in> set [- 30..- 2]" by (simp only: set_upto atLeastAtMost_iff)
  with decoded_codes True show ?thesis by (simp only: list_all_iff if_True simp_thms)
next
  case False
  then show ?thesis by (auto simp: from_isize_def)
qed

text \<open>
  A failing system call returns the discriminant of its error and the user library decodes it
  with \<^verbatim>\<open>from_isize\<close>: decoding inverts encoding for every error, encoding inverts
  decoding on exactly the codes \<open>-30..-2\<close>, and every other code decodes to
  \<open>Uncategorized\<close>, the only error whose code is not negative.
\<close>

lemma error_code_roundtrip:
  "from_isize (discriminant e) = e \<and>
   (discriminant (from_isize c) = c \<longleftrightarrow> (- 30 \<le> c \<and> c \<le> - 2) \<or> c = 0) \<and>
   (from_isize c = Uncategorized \<longleftrightarrow> \<not> (- 30 \<le> c \<and> c \<le> - 2)) \<and>
   (discriminant e < 0 \<longleftrightarrow> e \<noteq> Uncategorized)"
proof (intro conjI)
  show "from_isize c = Uncategorized \<longleftrightarrow> \<not> (- 30 \<le> c \<and> c \<le> - 2)"
    using discriminant_from_isize [of c] discriminant_inject [of "from_isize c" Uncategorized]
    by (auto simp del: discriminant_inject split: if_splits)
  show "discriminant e < 0 \<longleftrightarrow> e \<noteq> Uncategorized"
    by (cases e) simp_all
qed (auto simp: discriminant_from_isize)

lemma as_str_inject: "as_str a = as_str b \<longleftrightarrow> a = b"
  by (cases a; cases b) simp_all

end
