(* ===== verification/DList.thy ===== *)
theory DList
  imports Prelude
begin

text \<open>
  The intrusive, circular, doubly linked list of \<^verbatim>\<open>crates/kernel/src/list.rs\<close>. The
  nodes live inside the free memory blocks themselves, so the model is an explicit store: a map
  from addresses to \<open>lnode\<close>s. Reading a node that is not in the store is the value
  \<open>None\<close> (the source would follow a wild pointer).

  \<open>dlist h a xs\<close> says that the ring whose head node is at \<open>a\<close> links exactly the
  nodes \<open>xs\<close>, in order. The lemmas show that every operation does to \<open>xs\<close> what the
  corresponding operation on a plain list does, and leaves every other ring of the store alone; the
  locale \<open>free_list\<close> states that contract and is interpreted on these operations. It is
  what allows \<open>Buddy\<close> to carry its free lists as plain lists of addresses.
\<close>

section \<open>The source's operations\<close>

record lnode =
  next_ptr :: nat
  prev_ptr :: nat

type_synonym lheap = "nat \<rightharpoonup> lnode"

definition set_next :: "lheap \<Rightarrow> nat \<Rightarrow> nat \<Rightarrow> lheap option" where
  "set_next h p v = (case h p of None \<Rightarrow> None | Some n \<Rightarrow> Some (h(p \<mapsto> n\<lparr>next_ptr := v\<rparr>)))"

definition set_prev :: "lheap \<Rightarrow> nat \<Rightarrow> nat \<Rightarrow> lheap option" where
  "set_prev h p v = (case h p of None \<Rightarrow> None | Some n \<Rightarrow> Some (h(p \<mapsto> n\<lparr>prev_ptr := v\<rparr>)))"

definition list_init :: "lheap \<Rightarrow> nat \<Rightarrow> lheap" where
  "list_init h self = h(self \<mapsto> \<lparr>next_ptr = self, prev_ptr = self\<rparr>)"

definition list_is_empty :: "lheap \<Rightarrow> nat \<Rightarrow> bool option" where
  "list_is_empty h self = map_option (\<lambda>n. next_ptr n = self) (h self)"

text \<open>The counting loop of \<^verbatim>\<open>len\<close>; on a corrupt ring it may run for ever.\<close>

partial_function (option) len_loop :: "lheap \<Rightarrow> nat \<Rightarrow> nat \<Rightarrow> nat \<Rightarrow> nat option" where
  "len_loop h self p n =
     (if p = self then Some n
      else (case h p of None \<Rightarrow> None | Some nd \<Rightarrow> len_loop h self (next_ptr nd) (n + 1)))"

definition list_len :: "lheap \<Rightarrow> nat \<Rightarrow> nat option" where
  "list_len h self = (case h self of None \<Rightarrow> None | Some nd \<Rightarrow> len_loop h self (next_ptr nd) 0)"

text \<open>
  \<^verbatim>\<open>remove\<close>: two stores, each through pointers read from the node at the time of the
  store.
\<close>

definition list_remove :: "lheap \<Rightarrow> nat \<Rightarrow> lheap option" where
  "list_remove h e =
     (case h e of None \<Rightarrow> None
      | Some n \<Rightarrow>
          (case set_next h (prev_ptr n) (next_ptr n) of None \<Rightarrow> None
           | Some h1 \<Rightarrow>
               (case h1 e of None \<Rightarrow> None
                | Some n1 \<Rightarrow> set_prev h1 (next_ptr n1) (prev_ptr n1))))"

definition list_pop :: "lheap \<Rightarrow> nat \<Rightarrow> (nat option \<times> lheap) option" where
  "list_pop h self =
     (case h self of None \<Rightarrow> None
      | Some n \<Rightarrow>
          (if next_ptr n = self then Some (None, h)
           else (case list_remove h (next_ptr n) of None \<Rightarrow> None
                 | Some h' \<Rightarrow> Some (Some (next_ptr n), h'))))"

definition list_push :: "lheap \<Rightarrow> nat \<Rightarrow> nat \<Rightarrow> lheap option" where
  "list_push h self e =
     (case h self of None \<Rightarrow> None
      | Some n \<Rightarrow>
          (let h1 = h(e \<mapsto> \<lparr>next_ptr = next_ptr n, prev_ptr = self\<rparr>) in
           (case h1 self of None \<Rightarrow> None
            | Some n1 \<Rightarrow>
                (case set_prev h1 (next_ptr n1) e of None \<Rightarrow> None
                 | Some h2 \<Rightarrow> set_next h2 self e))))"

section \<open>The ring predicate\<close>

definition lnext :: "lheap \<Rightarrow> nat \<Rightarrow> nat \<Rightarrow> bool" where
  "lnext h a b \<longleftrightarrow> (\<exists>n. h a = Some n \<and> next_ptr n = b)"

definition lprev :: "lheap \<Rightarrow> nat \<Rightarrow> nat \<Rightarrow> bool" where
  "lprev h a b \<longleftrightarrow> (\<exists>n. h a = Some n \<and> prev_ptr n = b)"

fun chain :: "lheap \<Rightarrow> nat \<Rightarrow> nat list \<Rightarrow> nat \<Rightarrow> bool" where
  "chain h a [] b \<longleftrightarrow> lnext h a b \<and> lprev h b a"
| "chain h a (x # xs) b \<longleftrightarrow> lnext h a x \<and> lprev h x a \<and> chain h x xs b"

definition dlist :: "lheap \<Rightarrow> nat \<Rightarrow> nat list \<Rightarrow> bool" where
  "dlist h a xs \<longleftrightarrow> distinct (a # xs) \<and> chain h a xs a"

lemma chain_append: "chain h a (xs @ y # ys) b \<longleftrightarrow> chain h a xs y \<and> chain h y ys b"
  by (induction xs arbitrary: a) auto

text \<open>
  A chain reads the successor of every node but its end and the predecessor of every node but its
  start.
\<close>

lemma chain_cong:
  assumes "\<And>x b. x \<in> set (a # xs) \<Longrightarrow> lnext h' x b = lnext h x b"
    and "\<And>x b. x \<in> set (xs @ [e]) \<Longrightarrow> lprev h' x b = lprev h x b"
  shows "chain h' a xs e = chain h a xs e"
  using assms
proof (induction xs arbitrary: a)
  case Nil
  then show ?case by simp
next
  case (Cons x xs)
  from Cons.prems have "chain h' x xs e = chain h x xs e"
    by (intro Cons.IH) auto
  with Cons.prems show ?case by simp
qed

lemma chain_ends: "chain h a xs b \<Longrightarrow> lnext h a (hd (xs @ [b])) \<and> lprev h b (last (a # xs))"
  by (induction xs arbitrary: a) auto

lemma chain_dom: "chain h a xs b \<Longrightarrow> x \<in> set (a # xs @ [b]) \<Longrightarrow> h x \<noteq> None"
  by (induction xs arbitrary: a) (auto simp: lnext_def lprev_def)

lemma dlist_frame:
  assumes "dlist h a xs" and "\<And>x. x \<in> set (a # xs) \<Longrightarrow> h' x = h x"
  shows "dlist h' a xs"
proof -
  have "chain h' a xs a = chain h a xs a"
    by (rule chain_cong) (auto simp: lnext_def lprev_def assms(2))
  with assms(1) show ?thesis by (simp add: dlist_def)
qed

section \<open>Stores through next and prev\<close>

lemma set_next_Some: "lnext h p c \<Longrightarrow> \<exists>h'. set_next h p v = Some h'"
  by (auto simp: set_next_def lnext_def)

lemma set_prev_Some: "lprev h p c \<Longrightarrow> \<exists>h'. set_prev h p v = Some h'"
  by (auto simp: set_prev_def lprev_def)

lemma set_next_effect:
  assumes "set_next h p v = Some h'"
  shows "lnext h' x b \<longleftrightarrow> (if x = p then b = v else lnext h x b)"
    and "lprev h' x b \<longleftrightarrow> lprev h x b"
    and "x \<noteq> p \<Longrightarrow> h' x = h x"
  using assms by (auto simp: set_next_def lnext_def lprev_def split: option.splits if_splits)

lemma set_prev_effect:
  assumes "set_prev h p v = Some h'"
  shows "lprev h' x b \<longleftrightarrow> (if x = p then b = v else lprev h x b)"
    and "lnext h' x b \<longleftrightarrow> lnext h x b"
    and "x \<noteq> p \<Longrightarrow> h' x = h x"
  using assms by (auto simp: set_prev_def lnext_def lprev_def split: option.splits if_splits)

section \<open>What each operation does to the ring\<close>

lemma list_init_dlist: "dlist (list_init h a) a []"
  by (simp add: dlist_def list_init_def lnext_def lprev_def)

lemma list_is_empty_dlist: "dlist h a xs \<Longrightarrow> list_is_empty h a = Some (xs = [])"
  by (cases xs) (auto simp: dlist_def list_is_empty_def lnext_def)

lemma len_loop_chain:
  "chain h x xs a \<Longrightarrow> a \<notin> set (x # xs) \<Longrightarrow> len_loop h a x n = Some (n + Suc (length xs))"
proof (induction xs arbitrary: x n)
  case Nil
  then show ?case by (auto simp: len_loop.simps lnext_def)
next
  case (Cons y ys)
  then have "len_loop h a y (n + 1) = Some (n + 1 + Suc (length ys))" by auto
  with Cons.prems show ?case by (auto simp: len_loop.simps [of h a x] lnext_def)
qed

lemma list_len_dlist: "dlist h a xs \<Longrightarrow> list_len h a = Some (length xs)"
proof (cases xs)
  case Nil
  assume "dlist h a xs"
  with Nil show ?thesis by (auto simp: dlist_def list_len_def lnext_def len_loop.simps)
next
  case (Cons y ys)
  assume "dlist h a xs"
  with Cons have "len_loop h a y 0 = Some (0 + Suc (length ys))"
    by (intro len_loop_chain) (auto simp: dlist_def)
  with Cons \<open>dlist h a xs\<close> show ?thesis by (auto simp: dlist_def list_len_def lnext_def)
qed

text \<open>Replacing the end of a chain: its last node and the new end are linked to each other.\<close>

lemma chain_retarget:
  assumes "chain h a ys e" and "distinct (a # ys)" and "n \<notin> set ys"
    and "\<And>x b. lnext h' x b \<longleftrightarrow> (if x = last (a # ys) then b = n else lnext h x b)"
    and "\<And>x b. lprev h' x b \<longleftrightarrow> (if x = n then b = last (a # ys) else lprev h x b)"
  shows "chain h' a ys n"
  using assms
proof (induction ys arbitrary: a)
  case Nil
  then show ?case by simp
next
  case (Cons y ys)
  have "chain h' y ys n"
    using Cons.prems by (intro Cons.IH) auto
  moreover have "a \<noteq> last (y # ys)"
    using Cons.prems(2) last_in_set [of "y # ys"] by auto
  ultimately show ?case using Cons.prems by auto
qed

lemma list_remove_dlist:
  assumes "dlist h a (ys @ e # zs)"
  shows "\<exists>h'. list_remove h e = Some h' \<and> dlist h' a (ys @ zs) \<and>
           (\<forall>x. x \<notin> set (a # ys @ zs) \<longrightarrow> h' x = h x)"
proof -
  let ?p = "last (a # ys)" and ?n = "hd (zs @ [a])"
  have c1: "chain h a ys e" and c2: "chain h e zs a" and dist: "distinct (a # ys @ e # zs)"
    using assms by (auto simp: dlist_def chain_append)
  have nx: "lnext h e ?n" and pv: "lprev h e ?p"
    using chain_ends [OF c1] chain_ends [OF c2] by auto
  have pin: "?p \<in> set (a # ys)" and nin: "?n \<in> set (zs @ [a])"
    by (rule last_in_set, simp, rule hd_in_set, simp)
  have pe: "?p \<noteq> e" and ne: "?n \<noteq> e" using pin nin dist by auto
  from nx pv obtain nd where nd: "h e = Some nd" "next_ptr nd = ?n" "prev_ptr nd = ?p"
    by (auto simp: lnext_def lprev_def)
  obtain h1 where h1: "set_next h ?p ?n = Some h1"
    using chain_dom [OF c1, of ?p] pin by (auto simp: set_next_def)
  have h1e: "h1 e = Some nd" using set_next_effect(3) [OF h1] pe nd by metis
  have "h ?n \<noteq> None" using chain_dom [OF c2, of ?n] nin by auto
  then have "h1 ?n \<noteq> None" using h1 by (auto simp: set_next_def split: option.splits)
  then obtain h2 where h2: "set_prev h1 ?n ?p = Some h2"
    by (auto simp: set_prev_def)
  have res: "list_remove h e = Some h2"
    using nd h1 h1e h2 by (simp add: list_remove_def)
  have ln: "lnext h2 x b \<longleftrightarrow> (if x = ?p then b = ?n else lnext h x b)" for x b
    using set_prev_effect(2) [OF h2] set_next_effect(1) [OF h1] by simp
  have lp: "lprev h2 x b \<longleftrightarrow> (if x = ?n then b = ?p else lprev h x b)" for x b
    using set_prev_effect(1) [OF h2] set_next_effect(2) [OF h1] by simp
  have "?n \<notin> set ys" using nin dist by auto
  with c1 dist have left: "chain h2 a ys ?n"
    by (intro chain_retarget [OF _ _ _ ln lp]) auto
  have "chain h2 a (ys @ zs) a"
  proof (cases zs)
    case Nil
    with left show ?thesis by simp
  next
    case (Cons z zs')
    have "chain h2 z zs' a = chain h z zs' a"
      using dist Cons pin by (intro chain_cong) (auto simp: ln lp)
    with left c2 Cons show ?thesis by (simp add: chain_append)
  qed
  moreover have "h2 x = h x" if "x \<notin> set (a # ys @ zs)" for x
  proof -
    from that pin nin have "x \<noteq> ?p" "x \<noteq> ?n" by (metis Un_iff set_append list.set_intros(1) set_ConsD
        append_Cons empty_iff list.set(1))+
    then show ?thesis using set_prev_effect(3) [OF h2, of x] set_next_effect(3) [OF h1, of x] by simp
  qed
  ultimately show ?thesis using res dist by (auto simp: dlist_def)
qed

lemma list_push_dlist:
  assumes ring: "dlist h a xs" and fresh: "e \<notin> set (a # xs)"
  shows "\<exists>h'. list_push h a e = Some h' \<and> dlist h' a (e # xs) \<and>
           (\<forall>x. x \<notin> set (a # e # xs) \<longrightarrow> h' x = h x)"
proof -
  let ?n = "hd (xs @ [a])"
  have c: "chain h a xs a" and dist: "distinct (a # xs)" using ring by (auto simp: dlist_def)
  obtain nd where nd: "h a = Some nd" "next_ptr nd = ?n"
    using chain_ends [OF c] by (auto simp: lnext_def)
  have nin: "?n \<in> set (xs @ [a])" by (rule hd_in_set) simp
  let ?h1 = "h(e \<mapsto> \<lparr>next_ptr = ?n, prev_ptr = a\<rparr>)"
  have ea: "e \<noteq> a" "e \<noteq> ?n" using fresh nin by auto
  obtain h2 where h2: "set_prev ?h1 ?n e = Some h2"
    using chain_dom [OF c, of ?n] nin ea by (auto simp: set_prev_def)
  have "h2 a \<noteq> None" using h2 nd ea by (auto simp: set_prev_def split: option.splits if_splits)
  then obtain h3 where h3: "set_next h2 a e = Some h3" by (auto simp: set_next_def)
  have res: "list_push h a e = Some h3"
    using nd ea h2 h3 by (simp add: list_push_def Let_def)
  have ln: "lnext h3 x b \<longleftrightarrow> (if x = a then b = e else if x = e then b = ?n else lnext h x b)" for x b
    using set_next_effect(1) [OF h3] set_prev_effect(2) [OF h2] by (auto simp: lnext_def)
  have lp: "lprev h3 x b \<longleftrightarrow> (if x = ?n then b = e else if x = e then b = a else lprev h x b)" for x b
    using set_next_effect(2) [OF h3] set_prev_effect(1) [OF h2] by (auto simp: lprev_def)
  have "chain h3 a (e # xs) a"
  proof (cases xs)
    case Nil
    with ea show ?thesis by (simp add: ln lp)
  next
    case (Cons x xs')
    have "chain h3 x xs' a = chain h x xs' a"
      using dist fresh Cons by (intro chain_cong) (auto simp: ln lp)
    with c ea Cons dist show ?thesis by (auto simp: ln lp)
  qed
  moreover have "h3 x = h x" if "x \<notin> set (a # e # xs)" for x
    using that nin set_next_effect(3) [OF h3, of x] set_prev_effect(3) [OF h2, of x] by auto
  ultimately show ?thesis using res dist fresh by (auto simp: dlist_def)
qed

lemma list_pop_dlist:
  "dlist h a [] \<Longrightarrow> list_pop h a = Some (None, h)"
  "dlist h a (x # xs) \<Longrightarrow>
     \<exists>h'. list_pop h a = Some (Some x, h') \<and> dlist h' a xs \<and>
       (\<forall>y. y \<notin> set (a # xs) \<longrightarrow> h' y = h y)"
proof -
  show "dlist h a [] \<Longrightarrow> list_pop h a = Some (None, h)"
    by (auto simp: dlist_def list_pop_def lnext_def)
next
  assume ring: "dlist h a (x # xs)"
  then obtain nd where "h a = Some nd" "next_ptr nd = x" "x \<noteq> a"
    by (auto simp: dlist_def lnext_def)
  with list_remove_dlist [of h a "[]" x xs] ring
  show "\<exists>h'. list_pop h a = Some (Some x, h') \<and> dlist h' a xs \<and>
       (\<forall>y. y \<notin> set (a # xs) \<longrightarrow> h' y = h y)"
    by (auto simp: list_pop_def)
qed

section \<open>The contract of a family of free lists\<close>

text \<open>
  An allocator keeps many rings in one store, one per block size. The contract gives the effect of
  each operation on the ring it is applied to, and that it keeps every ring disjoint from it.
\<close>

locale free_list =
  fixes ring :: "'h \<Rightarrow> nat \<Rightarrow> nat list \<Rightarrow> bool"
    and is_empty :: "'h \<Rightarrow> nat \<Rightarrow> bool option"
    and len :: "'h \<Rightarrow> nat \<Rightarrow> nat option"
    and push :: "'h \<Rightarrow> nat \<Rightarrow> nat \<Rightarrow> 'h option"
    and pop :: "'h \<Rightarrow> nat \<Rightarrow> (nat option \<times> 'h) option"
    and remove :: "'h \<Rightarrow> nat \<Rightarrow> 'h option"
  assumes ring_distinct: "ring h a xs \<Longrightarrow> distinct (a # xs)"
    and is_empty_law: "ring h a xs \<Longrightarrow> is_empty h a = Some (xs = [])"
    and len_law: "ring h a xs \<Longrightarrow> len h a = Some (length xs)"
    and push_law: "ring h a xs \<Longrightarrow> e \<notin> set (a # xs) \<Longrightarrow>
      \<exists>h'. push h a e = Some h' \<and> ring h' a (e # xs) \<and>
        (\<forall>b ys. ring h b ys \<longrightarrow> set (b # ys) \<inter> set (a # e # xs) = {} \<longrightarrow> ring h' b ys)"
    and pop_empty_law: "ring h a [] \<Longrightarrow> pop h a = Some (None, h)"
    and pop_law: "ring h a (x # xs) \<Longrightarrow>
      \<exists>h'. pop h a = Some (Some x, h') \<and> ring h' a xs \<and>
        (\<forall>b ys. ring h b ys \<longrightarrow> set (b # ys) \<inter> set (a # x # xs) = {} \<longrightarrow> ring h' b ys)"
    and remove_law: "ring h a (ys @ e # zs) \<Longrightarrow>
      \<exists>h'. remove h e = Some h' \<and> ring h' a (ys @ zs) \<and>
        (\<forall>b us. ring h b us \<longrightarrow> set (b # us) \<inter> set (a # ys @ e # zs) = {} \<longrightarrow> ring h' b us)"
begin

text \<open>
  \<open>rings h hp ls\<close>: the ring with head \<open>hp k\<close> holds \<open>ls ! k\<close>, and no two rings
  share a node. Every operation on ring \<open>k\<close> is the list operation on \<open>ls ! k\<close>.
\<close>

definition rings :: "'h \<Rightarrow> (nat \<Rightarrow> nat) \<Rightarrow> nat list list \<Rightarrow> bool" where
  "rings h hp ls \<longleftrightarrow>
     (\<forall>k < length ls. ring h (hp k) (ls ! k)) \<and>
     (\<forall>j < length ls. \<forall>k < length ls. j \<noteq> k \<longrightarrow>
        set (hp j # ls ! j) \<inter> set (hp k # ls ! k) = {})"

lemma rings_apart:
  "rings h hp ls \<Longrightarrow> j < length ls \<Longrightarrow> k < length ls \<Longrightarrow> j \<noteq> k \<Longrightarrow>
     set (hp j # ls ! j) \<inter> set (hp k # ls ! k) = {}"
  unfolding rings_def by blast

lemma rings_update:
  assumes "rings h hp ls" and "k < length ls" and "ring h' (hp k) xs"
    and "set xs \<subseteq> insert e (set (ls ! k))"
    and "\<And>j. j < length ls \<Longrightarrow> e \<notin> set (hp j # ls ! j) \<or> (j = k \<and> e \<noteq> hp k)"
    and "\<And>j. j < length ls \<Longrightarrow> j \<noteq> k \<Longrightarrow> ring h' (hp j) (ls ! j)"
  shows "rings h' hp (ls[k := xs])"
  unfolding rings_def
proof (intro conjI allI impI)
  fix j
  assume "j < length (ls[k := xs])"
  with assms show "ring h' (hp j) (ls[k := xs] ! j)" by (cases "j = k") simp_all
next
  fix i j
  assume "i < length (ls[k := xs])" "j < length (ls[k := xs])" "i \<noteq> j"
  then have ij: "i < length ls" "j < length ls" "i \<noteq> j" by simp_all
  have old: "set (hp i # ls ! i) \<inter> set (hp j # ls ! j) = {}"
    using assms(1) ij by (simp add: rings_def)
  show "set (hp i # ls[k := xs] ! i) \<inter> set (hp j # ls[k := xs] ! j) = {}"
    using old assms(2,4) assms(5) [OF ij(1)] assms(5) [OF ij(2)] ij
    by (cases "i = k"; cases "j = k") auto
qed

lemma push_rings:
  assumes "rings h hp ls" and "k < length ls"
    and "\<And>j. j < length ls \<Longrightarrow> e \<notin> set (hp j # ls ! j)"
  shows "\<exists>h'. push h (hp k) e = Some h' \<and> rings h' hp (ls[k := e # ls ! k])"
proof -
  have "ring h (hp k) (ls ! k)" using assms(1,2) by (simp add: rings_def)
  from push_law [OF this] assms(2,3) obtain h' where
    h': "push h (hp k) e = Some h'" "ring h' (hp k) (e # ls ! k)" and
    frame: "\<And>b ys. ring h b ys \<Longrightarrow> set (b # ys) \<inter> set (hp k # e # ls ! k) = {} \<Longrightarrow> ring h' b ys"
    by blast
  have "rings h' hp (ls[k := e # ls ! k])"
  proof (rule rings_update [OF assms(1,2) h'(2)])
    fix j
    assume j: "j < length ls" "j \<noteq> k"
    with assms have "ring h (hp j) (ls ! j)" "set (hp j # ls ! j) \<inter> set (hp k # ls ! k) = {}"
      by (simp_all add: rings_def)
    with assms(3) [OF j(1)] show "ring h' (hp j) (ls ! j)" by (intro frame) auto
  qed (use assms(3) in auto)
  with h' show ?thesis by blast
qed

lemma pop_rings:
  assumes "rings h hp ls" and "k < length ls" and "ls ! k = x # xs"
  shows "\<exists>h'. pop h (hp k) = Some (Some x, h') \<and> rings h' hp (ls[k := xs])"
proof -
  have r: "ring h (hp k) (x # xs)" using assms by (auto simp: rings_def)
  from pop_law [OF r] obtain h' where
    h': "pop h (hp k) = Some (Some x, h')" "ring h' (hp k) xs" and
    frame: "\<And>b ys. ring h b ys \<Longrightarrow> set (b # ys) \<inter> set (hp k # x # xs) = {} \<Longrightarrow> ring h' b ys"
    by blast
  have apart: "set (hp j # ls ! j) \<inter> set (hp k # x # xs) = {}" if "j < length ls" "j \<noteq> k" for j
    using rings_apart [OF assms(1) that(1) assms(2) that(2)] assms(3) by simp
  have "rings h' hp (ls[k := xs])"
  proof (rule rings_update [OF assms(1,2) h'(2), of x])
    show "x \<notin> set (hp j # ls ! j) \<or> (j = k \<and> x \<noteq> hp k)" if "j < length ls" for j
      using apart [OF that] ring_distinct [OF r] by auto
    show "ring h' (hp j) (ls ! j)" if "j < length ls" "j \<noteq> k" for j
      using assms(1) that apart by (intro frame) (auto simp: rings_def)
  qed (use assms in auto)
  with h' show ?thesis by blast
qed

lemma remove_rings:
  assumes "rings h hp ls" and "k < length ls" and "e \<in> set (ls ! k)"
  shows "\<exists>h'. remove h e = Some h' \<and> rings h' hp (ls[k := remove1 e (ls ! k)])"
proof -
  from assms(3) obtain ys zs where split: "ls ! k = ys @ e # zs" "e \<notin> set ys"
    by (meson split_list_first)
  then have rem: "remove1 e (ls ! k) = ys @ zs" by (simp add: remove1_append)
  have r: "ring h (hp k) (ys @ e # zs)" using assms split by (auto simp: rings_def)
  from remove_law [OF r] obtain h' where
    h': "remove h e = Some h'" "ring h' (hp k) (ys @ zs)" and
    frame: "\<And>b us. ring h b us \<Longrightarrow> set (b # us) \<inter> set (hp k # ys @ e # zs) = {} \<Longrightarrow> ring h' b us"
    by blast
  have apart: "set (hp j # ls ! j) \<inter> set (hp k # ys @ e # zs) = {}"
    if "j < length ls" "j \<noteq> k" for j
    using rings_apart [OF assms(1) that(1) assms(2) that(2)] split(1) by simp
  have "rings h' hp (ls[k := ys @ zs])"
  proof (rule rings_update [OF assms(1,2) h'(2), of e])
    show "e \<notin> set (hp j # ls ! j) \<or> (j = k \<and> e \<noteq> hp k)" if "j < length ls" for j
      using apart [OF that] ring_distinct [OF r] by auto
    show "ring h' (hp j) (ls ! j)" if "j < length ls" "j \<noteq> k" for j
      using assms(1) that apart by (intro frame) (auto simp: rings_def)
  qed (use split in auto)
  with h' rem show ?thesis by metis
qed

end

interpretation kl: free_list dlist list_is_empty list_len list_push list_pop list_remove
proof unfold_locales
  show "distinct (a # xs)" if "dlist h a xs" for h a xs
    using that by (simp add: dlist_def)
  show "\<exists>h'. list_push h a e = Some h' \<and> dlist h' a (e # xs) \<and>
      (\<forall>b ys. dlist h b ys \<longrightarrow> set (b # ys) \<inter> set (a # e # xs) = {} \<longrightarrow> dlist h' b ys)"
    if "dlist h a xs" "e \<notin> set (a # xs)" for h a xs e
  proof -
    from list_push_dlist [OF that] obtain h' where
      h': "list_push h a e = Some h'" "dlist h' a (e # xs)"
        "\<And>x. x \<notin> set (a # e # xs) \<Longrightarrow> h' x = h x" by blast
    have "dlist h' b ys" if "dlist h b ys" "set (b # ys) \<inter> set (a # e # xs) = {}" for b ys
      using that(2) by (intro dlist_frame [OF that(1)] h'(3)) blast
    with h' show ?thesis by blast
  qed
  show "\<exists>h'. list_pop h a = Some (Some x, h') \<and> dlist h' a xs \<and>
      (\<forall>b ys. dlist h b ys \<longrightarrow> set (b # ys) \<inter> set (a # x # xs) = {} \<longrightarrow> dlist h' b ys)"
    if "dlist h a (x # xs)" for h a x xs
  proof -
    from list_pop_dlist(2) [OF that] obtain h' where
      h': "list_pop h a = Some (Some x, h')" "dlist h' a xs"
        "\<And>y. y \<notin> set (a # xs) \<Longrightarrow> h' y = h y" by blast
    have "dlist h' b ys" if "dlist h b ys" "set (b # ys) \<inter> set (a # x # xs) = {}" for b ys
      using that(2) by (intro dlist_frame [OF that(1)] h'(3)) auto
    with h' show ?thesis by blast
  qed
  show "\<exists>h'. list_remove h e = Some h' \<and> dlist h' a (ys @ zs) \<and>
      (\<forall>b us. dlist h b us \<longrightarrow> set (b # us) \<inter> set (a # ys @ e # zs) = {} \<longrightarrow> dlist h' b us)"
    if "dlist h a (ys @ e # zs)" for h a ys e zs
  proof -
    from list_remove_dlist [OF that] obtain h' where
      h': "list_remove h e = Some h'" "dlist h' a (ys @ zs)"
        "\<And>y. y \<notin> set (a # ys @ zs) \<Longrightarrow> h' y = h y" by blast
    have "dlist h' b us" if "dlist h b us" "set (b # us) \<inter> set (a # ys @ e # zs) = {}" for b us
      using that(2) by (intro dlist_frame [OF that(1)] h'(3)) auto
    with h' show ?thesis by blast
  qed
qed (simp_all add: list_is_empty_dlist list_len_dlist list_pop_dlist(1))

text \<open>
  C3. The intrusive lists refine plain lists. In a store that holds a family of disjoint rings, every
  operation on ring \<open>k\<close> returns what the list operation on the abstract list returns,
  leaves ring \<open>k\<close> holding the abstract result, and keeps all other rings: emptiness and
  length, pushing a node that is in no ring, popping, and removing a node by its address alone.
\<close>

theorem free_lists_simulate:
  assumes "kl.rings h hp ls" "k < length ls"
  shows "list_is_empty h (hp k) = Some (ls ! k = []) \<and>
    list_len h (hp k) = Some (length (ls ! k)) \<and>
    (\<forall>e. (\<forall>j < length ls. e \<notin> set (hp j # ls ! j)) \<longrightarrow>
       (\<exists>h'. list_push h (hp k) e = Some h' \<and> kl.rings h' hp (ls[k := e # ls ! k]))) \<and>
    (case ls ! k of
       [] \<Rightarrow> list_pop h (hp k) = Some (None, h)
     | x # xs \<Rightarrow> (\<exists>h'. list_pop h (hp k) = Some (Some x, h') \<and> kl.rings h' hp (ls[k := xs]))) \<and>
    (\<forall>e \<in> set (ls ! k). \<exists>h'. list_remove h e = Some h' \<and> kl.rings h' hp (ls[k := remove1 e (ls ! k)]))"
proof -
  have ring: "dlist h (hp k) (ls ! k)" using assms by (simp add: kl.rings_def)
  show ?thesis
    using assms kl.is_empty_law [OF ring] kl.len_law [OF ring] kl.push_rings [OF assms] kl.pop_rings [OF assms]
      kl.remove_rings [OF assms] kl.pop_empty_law ring
    by (auto split: list.split)
qed

text \<open>Two rings, one with the nodes 10 and 11 and one empty, in a store with heads at 1 and 2.\<close>

theorem free_lists_simulate_witness:
  "\<exists>h h'. list_len h 1 = Some 2 \<and> list_push h 1 12 = Some h' \<and> kl.rings h' (\<lambda>k. k + 1) [[12, 10, 11], []]"
proof -
  define h :: lheap where "h = [1 \<mapsto> \<lparr>next_ptr = 10, prev_ptr = 11\<rparr>, 10 \<mapsto> \<lparr>next_ptr = 11, prev_ptr = 1\<rparr>,
     11 \<mapsto> \<lparr>next_ptr = 1, prev_ptr = 10\<rparr>, 2 \<mapsto> \<lparr>next_ptr = 2, prev_ptr = 2\<rparr>]"
  have "kl.rings h (\<lambda>k. k + 1) [[10, 11], []]"
    by (auto simp: kl.rings_def dlist_def lnext_def lprev_def h_def less_Suc_eq)
  note sim = free_lists_simulate [OF this, of 0]
  have "list_len h 1 = Some 2" using sim by simp
  moreover have "\<exists>h'. list_push h 1 12 = Some h' \<and> kl.rings h' (\<lambda>k. k + 1) [[12, 10, 11], []]"
    using sim by (auto simp: less_Suc_eq dest: spec [of _ 12])
  ultimately show ?thesis by blast
qed

end
