(* ===== verification/Buddy_Tree.thy ===== *)
theory Buddy_Tree
  imports Prelude
begin

text \<open>
  The abstract state of a buddy allocator, independent of how bits and lists are stored: the
  predicates \<open>A k i\<close> (block \<open>i\<close> of size class \<open>k\<close> is allocated or split) and
  \<open>S k i\<close> (it is split), and the free list \<open>F k\<close> of each class. Blocks form a binary
  tree: the children of block \<open>i\<close> of class \<open>k + 1\<close> are the blocks \<open>2 i\<close> and
  \<open>2 i + 1\<close> of class \<open>k\<close>.

  \<open>buddy_tree\<close> is the invariant the allocator keeps, \<open>live\<close> the blocks handed out. The
  four elementary steps (take a free block, split a live block, merge a live block with its free
  buddy, put a live block on its free list) are shown to keep the invariant and to change
  \<open>live\<close> and the number of free bytes as they should. \<open>Buddy\<close> shows that the
  source's loops are sequences of these steps.
\<close>

definition LEAF_SIZE :: nat where
  "LEAF_SIZE = 16"

definition blk_size :: "nat \<Rightarrow> nat" where
  "blk_size k = 2 ^ k * LEAF_SIZE"

definition blk_addr :: "nat \<Rightarrow> nat \<Rightarrow> nat \<Rightarrow> nat" where
  "blk_addr base k i = base + i * blk_size k"

definition buddy_of :: "nat \<Rightarrow> nat" where
  "buddy_of i = (if even i then i + 1 else i - 1)"

type_synonym bits = "nat \<Rightarrow> nat \<Rightarrow> bool"

definition bit_upd :: "bits \<Rightarrow> nat \<Rightarrow> nat \<Rightarrow> bool \<Rightarrow> bits" where
  "bit_upd A k i b = (\<lambda>k' i'. if k' = k \<and> i' = i then b else A k' i')"

text \<open>A block exists in the tree when it is the root or its parent is split.\<close>

definition exists_blk :: "nat \<Rightarrow> bits \<Rightarrow> nat \<Rightarrow> nat \<Rightarrow> bool" where
  "exists_blk M S k i \<longleftrightarrow> k \<le> M \<and> i < 2 ^ (M - k) \<and> (k = M \<or> S (Suc k) (i div 2))"

definition free_blocks :: "nat \<Rightarrow> bits \<Rightarrow> bits \<Rightarrow> nat \<Rightarrow> nat set" where
  "free_blocks M A S k = {i. exists_blk M S k i \<and> \<not> A k i}"

definition buddy_tree :: "nat \<Rightarrow> nat \<Rightarrow> bits \<Rightarrow> bits \<Rightarrow> (nat \<Rightarrow> nat list) \<Rightarrow> bool" where
  "buddy_tree M base A S F \<longleftrightarrow>
     (\<forall>i. \<not> S 0 i) \<and>
     (\<forall>k i. k \<le> M \<longrightarrow> i < 2 ^ (M - k) \<longrightarrow> S k i \<longrightarrow> A k i) \<and>
     (\<forall>k i. k \<le> M \<longrightarrow> i < 2 ^ (M - k) \<longrightarrow> A k i \<longrightarrow> exists_blk M S k i) \<and>
     (\<forall>k \<le> M. distinct (F k) \<and> set (F k) = blk_addr base k ` free_blocks M A S k) \<and>
     (\<forall>k i. k < M \<longrightarrow> exists_blk M S k i \<longrightarrow> A k i \<or> A k (buddy_of i))"

text \<open>The blocks in the hands of clients: allocated and not split.\<close>

definition live :: "nat \<Rightarrow> bits \<Rightarrow> bits \<Rightarrow> (nat \<times> nat) set" where
  "live M A S = {(k, i). k \<le> M \<and> i < 2 ^ (M - k) \<and> A k i \<and> \<not> S k i}"

definition free_total :: "nat \<Rightarrow> (nat \<Rightarrow> nat list) \<Rightarrow> nat" where
  "free_total M F = (\<Sum>k \<le> M. length (F k) * blk_size k)"

definition blk_bytes :: "nat \<Rightarrow> nat \<Rightarrow> nat \<Rightarrow> nat set" where
  "blk_bytes base k i = {blk_addr base k i ..< blk_addr base k i + blk_size k}"

section \<open>Arithmetic of blocks\<close>

lemma blk_size_pos [simp]: "0 < blk_size k"
  by (simp add: blk_size_def LEAF_SIZE_def)

lemma blk_size_nonzero [simp]: "blk_size k \<noteq> 0" "0 \<noteq> blk_size k"
  using blk_size_pos [of k] by simp_all

lemma blk_size_Suc: "blk_size (Suc k) = 2 * blk_size k"
  by (simp add: blk_size_def)

lemma blk_addr_inject [simp]: "blk_addr base k i = blk_addr base k j \<longleftrightarrow> i = j"
  by (simp add: blk_addr_def)

lemma blk_addr_image [simp]: "blk_addr base k i \<in> blk_addr base k ` X \<longleftrightarrow> i \<in> X"
  by auto

lemma blk_addr_left: "blk_addr base k (2 * i) = blk_addr base (Suc k) i"
  by (simp add: blk_addr_def blk_size_Suc)

lemma blk_addr_right: "blk_addr base k (Suc (2 * i)) = blk_addr base (Suc k) i + blk_size k"
  by (simp add: blk_addr_def blk_size_Suc)

lemma buddy_of_div [simp]: "buddy_of i div 2 = i div 2"
  by (auto simp: buddy_of_def elim!: oddE)

lemma buddy_of_neq [simp]: "buddy_of i \<noteq> i" "i \<noteq> buddy_of i"
  by (auto simp: buddy_of_def elim!: oddE)

lemma buddy_of_invol [simp]: "buddy_of (buddy_of i) = i"
  by (auto simp: buddy_of_def elim!: oddE)

lemma same_parent: "i div 2 = j div 2 \<Longrightarrow> j = i \<or> j = buddy_of i"
  by (auto simp: buddy_of_def elim!: oddE evenE)

lemma parent_bound: "k < M \<Longrightarrow> i < 2 ^ (M - k) \<Longrightarrow> i div 2 < (2::nat) ^ (M - Suc k)"
proof -
  assume "k < M" "i < 2 ^ (M - k)"
  then have "2 ^ (M - k) = 2 * (2::nat) ^ (M - Suc k)"
    by (metis Suc_diff_Suc power_Suc)
  with \<open>i < 2 ^ (M - k)\<close> show ?thesis by simp
qed

lemma buddy_of_bound: "k < M \<Longrightarrow> i < 2 ^ (M - k) \<Longrightarrow> buddy_of i < (2::nat) ^ (M - k)"
proof -
  assume k: "k < M" and "i < 2 ^ (M - k)"
  have "2 ^ (M - k) = 2 * (2::nat) ^ (M - Suc k)"
    using k by (metis Suc_diff_Suc power_Suc)
  with \<open>i < 2 ^ (M - k)\<close> show ?thesis
    by (auto simp: buddy_of_def elim!: evenE)
qed

lemma child_bound:
  assumes "Suc k \<le> M" "i < 2 ^ (M - Suc k)"
  shows "2 * i < 2 ^ (M - k)" "Suc (2 * i) < (2::nat) ^ (M - k)"
proof -
  have "2 ^ (M - k) = 2 * (2::nat) ^ (M - Suc k)"
    using assms(1) by (metis Suc_diff_Suc Suc_le_eq power_Suc)
  with assms(2) show "2 * i < 2 ^ (M - k)" "Suc (2 * i) < (2::nat) ^ (M - k)" by simp_all
qed

lemma bit_upd_apply [simp]:
  "bit_upd A k i b k' i' = (if k' = k \<and> i' = i then b else A k' i')"
  by (simp add: bit_upd_def)

section \<open>Consequences of the invariant\<close>

lemma tree_leaf: "buddy_tree M base A S F \<Longrightarrow> \<not> S 0 i"
  by (simp add: buddy_tree_def)

lemma tree_split: "buddy_tree M base A S F \<Longrightarrow> k \<le> M \<Longrightarrow> i < 2 ^ (M - k) \<Longrightarrow> S k i \<Longrightarrow> A k i"
  by (simp add: buddy_tree_def)

lemma tree_exists:
  "buddy_tree M base A S F \<Longrightarrow> k \<le> M \<Longrightarrow> i < 2 ^ (M - k) \<Longrightarrow> A k i \<Longrightarrow> exists_blk M S k i"
  by (simp add: buddy_tree_def)

lemma tree_free:
  "buddy_tree M base A S F \<Longrightarrow> k \<le> M \<Longrightarrow> distinct (F k)"
  "buddy_tree M base A S F \<Longrightarrow> k \<le> M \<Longrightarrow> set (F k) = blk_addr base k ` free_blocks M A S k"
  by (simp_all add: buddy_tree_def)

lemma tree_pair:
  "buddy_tree M base A S F \<Longrightarrow> k < M \<Longrightarrow> exists_blk M S k i \<Longrightarrow> A k i \<or> A k (buddy_of i)"
  by (simp add: buddy_tree_def)

lemma buddy_treeI:
  assumes "\<And>i. \<not> S 0 i"
    and "\<And>k i. k \<le> M \<Longrightarrow> i < 2 ^ (M - k) \<Longrightarrow> S k i \<Longrightarrow> A k i"
    and "\<And>k i. k \<le> M \<Longrightarrow> i < 2 ^ (M - k) \<Longrightarrow> A k i \<Longrightarrow> exists_blk M S k i"
    and "\<And>k. k \<le> M \<Longrightarrow> distinct (F k)"
    and "\<And>k. k \<le> M \<Longrightarrow> set (F k) = blk_addr base k ` free_blocks M A S k"
    and "\<And>k i. k < M \<Longrightarrow> exists_blk M S k i \<Longrightarrow> A k i \<or> A k (buddy_of i)"
  shows "buddy_tree M base A S F"
  using assms by (simp add: buddy_tree_def)

lemma exists_blkD: "exists_blk M S k i \<Longrightarrow> k \<le> M \<and> i < 2 ^ (M - k)"
  by (simp add: exists_blk_def)

lemma exists_blk_parent: "exists_blk M S k i \<Longrightarrow> k \<noteq> M \<Longrightarrow> S (Suc k) (i div 2)"
  by (simp add: exists_blk_def)

lemma exists_blk_buddy: "k < M \<Longrightarrow> exists_blk M S k (buddy_of i) = exists_blk M S k i"
  using buddy_of_bound [of k M i] buddy_of_bound [of k M "buddy_of i"]
  by (auto simp: exists_blk_def)

text \<open>All proper ancestors of an existing block are split.\<close>

lemma ancestor_exists:
  assumes tree: "buddy_tree M base A S F" and "exists_blk M S k i"
  shows "k + d \<le> M \<Longrightarrow> exists_blk M S (k + d) (i div 2 ^ d) \<and> (0 < d \<longrightarrow> S (k + d) (i div 2 ^ d))"
proof (induction d)
  case 0
  with assms show ?case by simp
next
  case (Suc d)
  then have ih: "exists_blk M S (k + d) (i div 2 ^ d)" by simp
  have "S (Suc (k + d)) (i div 2 ^ d div 2)"
    using exists_blk_parent [OF ih] Suc.prems by simp
  moreover have "i div 2 ^ d div 2 = i div 2 ^ Suc d"
    by (simp add: div_mult2_eq [symmetric] mult.commute)
  moreover have "i div 2 ^ d div 2 < 2 ^ (M - Suc (k + d))"
    using exists_blkD [OF ih] Suc.prems by (intro parent_bound) simp_all
  ultimately show ?case
    using tree Suc.prems by (auto intro: tree_exists tree_split)
qed

lemma blk_bytes_iff: "x \<in> blk_bytes base k i \<longleftrightarrow> base \<le> x \<and> (x - base) div blk_size k = i"
proof
  assume "x \<in> blk_bytes base k i"
  then have *: "base + i * blk_size k \<le> x" "x < base + i * blk_size k + blk_size k"
    by (auto simp: blk_bytes_def blk_addr_def)
  then have "(x - base) div blk_size k = i"
    by (intro div_nat_eqI) (simp_all add: mult.commute)
  with * show "base \<le> x \<and> (x - base) div blk_size k = i" by simp
next
  assume *: "base \<le> x \<and> (x - base) div blk_size k = i"
  moreover have "i * blk_size k + (x - base) mod blk_size k = x - base"
    using * div_mult_mod_eq [of "x - base" "blk_size k"] by simp
  moreover have "(x - base) mod blk_size k < blk_size k" by simp
  ultimately show "x \<in> blk_bytes base k i"
    unfolding blk_bytes_def blk_addr_def atLeastLessThan_iff by linarith
qed

lemma blk_index_coarse: "n div blk_size (k + d) = n div blk_size k div 2 ^ d"
  by (simp add: blk_size_def power_add div_mult2_eq [symmetric] ac_simps)

text \<open>Two existing blocks that are not split are equal or share no byte.\<close>

lemma terminal_disjoint:
  assumes tree: "buddy_tree M base A S F"
    and "exists_blk M S k i" "\<not> S k i" "exists_blk M S k' i'" "\<not> S k' i'"
    and "x \<in> blk_bytes base k i" "x \<in> blk_bytes base k' i'"
  shows "k = k' \<and> i = i'"
proof -
  have up: "k = k' \<and> i = i'"
    if "k \<le> k'" "exists_blk M S k i" "exists_blk M S k' i'" "\<not> S k' i'"
      "x \<in> blk_bytes base k i" "x \<in> blk_bytes base k' i'" for k i k' i'
  proof -
    from that(1) obtain d where d: "k' = k + d" by (rule less_eqE)
    have "i' = i div 2 ^ d"
      using that(5,6) by (simp add: blk_bytes_iff d blk_index_coarse)
    moreover have "d = 0"
      using ancestor_exists [OF tree that(2), of d] exists_blkD [OF that(3)] that(4) d calculation
      by auto
    ultimately show ?thesis by (simp add: d)
  qed
  show ?thesis using up [of k k' i i'] up [of k' k i' i] assms by (cases "k \<le> k'") auto
qed

lemma free_blocksD:
  "buddy_tree M base A S F \<Longrightarrow> i \<in> free_blocks M A S k \<Longrightarrow>
     exists_blk M S k i \<and> \<not> A k i \<and> \<not> S k i"
  by (auto simp: free_blocks_def dest: tree_split exists_blkD)

lemma liveD:
  "buddy_tree M base A S F \<Longrightarrow> (k, i) \<in> live M A S \<Longrightarrow> exists_blk M S k i \<and> A k i \<and> \<not> S k i"
  by (auto simp: live_def dest: tree_exists)

lemma blk_addr_in_bytes: "blk_addr base k i \<in> blk_bytes base k i"
  by (simp add: blk_bytes_def)

text \<open>An address is on the free list of one class at most.\<close>

lemma tree_free_unique:
  assumes tree: "buddy_tree M base A S F" and "k \<le> M" "j \<le> M" "p \<in> set (F k)" "p \<in> set (F j)"
  shows "k = j"
proof -
  obtain i n where "p = blk_addr base k i" "i \<in> free_blocks M A S k"
    and "p = blk_addr base j n" "n \<in> free_blocks M A S j"
    using assms tree_free(2) [OF tree] by (metis imageE)
  then show ?thesis
    using terminal_disjoint [OF tree, of k i j n p] free_blocksD [OF tree]
      blk_addr_in_bytes [of base] by metis
qed

text \<open>The root is not live as long as some other block is.\<close>

lemma root_not_live:
  assumes tree: "buddy_tree M base A S F" and "(M, i) \<in> live M A S" "(0, j) \<in> live M A S"
  shows "(0, j) = (M, i)"
proof -
  have "j < 2 ^ M" "i = 0" using assms(2,3) by (simp_all add: live_def)
  then have "blk_addr base 0 j \<in> blk_bytes base M i"
    by (simp add: blk_bytes_iff blk_addr_def blk_size_def)
  then show ?thesis
    using terminal_disjoint [OF tree, of 0 j M i] liveD [OF tree] assms(2,3) blk_addr_in_bytes
    by blast
qed

section \<open>Elementary steps\<close>

lemma free_total_upd:
  assumes "k \<le> M"
  shows "free_total M (F(k := xs)) + length (F k) * blk_size k = free_total M F + length xs * blk_size k"
proof -
  have "free_total M G = length (G k) * blk_size k + (\<Sum>j \<in> {..M} - {k}. length (G j) * blk_size j)" for G
    using assms by (simp add: free_total_def sum.remove)
  from this [of F] this [of "F(k := xs)"] show ?thesis by simp
qed

lemma take_step:
  assumes tree: "buddy_tree M base A S F" and k: "k \<le> M" and F: "F k = p # rest"
  obtains i where "p = blk_addr base k i" "i < 2 ^ (M - k)" "i \<in> free_blocks M A S k"
    "buddy_tree M base (bit_upd A k i True) S (F(k := rest))"
    "live M (bit_upd A k i True) S = insert (k, i) (live M A S)"
proof -
  have "p \<in> blk_addr base k ` free_blocks M A S k"
    using tree_free(2) [OF tree k] F by auto
  then obtain i where p: "p = blk_addr base k i" and i: "i \<in> free_blocks M A S k" by blast
  note fb = free_blocksD [OF tree i]
  let ?A = "bit_upd A k i True"
  have eq: "free_blocks M ?A S j = free_blocks M A S j - (if j = k then {i} else {})" for j
    by (auto simp: free_blocks_def)
  have "buddy_tree M base ?A S (F(k := rest))"
  proof (rule buddy_treeI)
    fix j assume j: "j \<le> M"
    show "distinct ((F(k := rest)) j)" using tree_free(1) [OF tree k] tree_free(1) [OF tree j] F
      by (cases "j = k") auto
    show "set ((F(k := rest)) j) = blk_addr base j ` free_blocks M ?A S j"
    proof (cases "j = k")
      case True
      have "set rest = set (F k) - {p}" using tree_free(1) [OF tree k] F by auto
      with tree_free(2) [OF tree k] True p show ?thesis
        by (auto simp: eq)
    next
      case False
      with tree_free(2) [OF tree j] show ?thesis by (simp add: eq)
    qed
  next
    fix j n
    show "exists_blk M S j n" if "j \<le> M" "n < 2 ^ (M - j)" "?A j n"
      using that fb tree_exists [OF tree] by (auto split: if_splits)
    show "?A j n \<or> ?A j (buddy_of n)" if "j < M" "exists_blk M S j n"
      using tree_pair [OF tree that] by auto
  qed (use tree in \<open>auto simp: tree_leaf tree_split\<close>)
  moreover have "live M ?A S = insert (k, i) (live M A S)"
    using fb exists_blkD by (auto simp: live_def)
  ultimately show thesis using that p i fb exists_blkD by blast
qed

lemma split_step:
  assumes tree: "buddy_tree M base A S F" and k: "Suc k \<le> M" and i: "i < 2 ^ (M - Suc k)"
    and blk: "A (Suc k) i" "\<not> S (Suc k) i"
  defines "A' \<equiv> bit_upd A k (2 * i) True" and "S' \<equiv> bit_upd S (Suc k) i True"
    and "F' \<equiv> F(k := blk_addr base k (Suc (2 * i)) # F k)"
  shows "buddy_tree M base A' S' F'" and "\<not> S' k (2 * i)"
    and "live M A' S' = insert (k, 2 * i) (live M A S - {(Suc k, i)})"
    and "(k, 2 * i) \<notin> live M A S"
proof -
  note bounds = child_bound [OF k i]
  have none: "\<not> exists_blk M S k (2 * i)" "\<not> exists_blk M S k (Suc (2 * i))"
    using k blk by (auto simp: exists_blk_def)
  then have noA: "\<not> A k (2 * i)" "\<not> A k (Suc (2 * i))"
    using tree_exists [OF tree] k bounds by auto
  then show "(k, 2 * i) \<notin> live M A S" by (simp add: live_def)
  have noS: "\<not> S k (2 * i)" "\<not> S k (Suc (2 * i))"
    using tree_split [OF tree] k bounds noA by auto
  then show "\<not> S' k (2 * i)" by (simp add: S'_def)
  have ex: "exists_blk M S' j n \<longleftrightarrow> exists_blk M S j n \<or> j = k \<and> (n = 2 * i \<or> n = Suc (2 * i))" for j n
    using k bounds by (auto simp: exists_blk_def S'_def)
  have fb: "free_blocks M A' S' j = free_blocks M A S j \<union> (if j = k then {Suc (2 * i)} else {})" for j
    using none noA by (auto simp: free_blocks_def ex A'_def)
  show "buddy_tree M base A' S' F'"
  proof (rule buddy_treeI)
    fix j n
    show "\<not> S' 0 n" using tree_leaf [OF tree] by (simp add: S'_def)
    show "A' j n" if "j \<le> M" "n < 2 ^ (M - j)" "S' j n"
      using that tree_split [OF tree, of j n] blk by (auto simp: S'_def A'_def split: if_splits)
    show "exists_blk M S' j n" if "j \<le> M" "n < 2 ^ (M - j)" "A' j n"
      using that tree_exists [OF tree, of j n] by (auto simp: ex A'_def split: if_splits)
    show "A' j n \<or> A' j (buddy_of n)" if "j < M" "exists_blk M S' j n"
    proof (cases "exists_blk M S j n")
      case True
      then show ?thesis using tree_pair [OF tree that(1) True] by (auto simp: A'_def)
    next
      case False
      with that show ?thesis by (auto simp: ex A'_def buddy_of_def)
    qed
    assume j: "j \<le> M"
    show "set (F' j) = blk_addr base j ` free_blocks M A' S' j"
      using tree_free(2) [OF tree j] by (auto simp: fb F'_def)
    show "distinct (F' j)"
      using tree_free [OF tree j] none by (auto simp: F'_def free_blocks_def)
  qed
  show "live M A' S' = insert (k, 2 * i) (live M A S - {(Suc k, i)})"
    using bounds k noS by (auto simp: live_def A'_def S'_def)
qed

lemma merge_step:
  assumes tree: "buddy_tree M base A S F" and k: "k < M" and i: "i < 2 ^ (M - k)"
    and blk: "A k i" "\<not> S k i" and buddy: "\<not> A k (buddy_of i)"
  defines "A' \<equiv> bit_upd A k i False" and "S' \<equiv> bit_upd S (Suc k) (i div 2) False"
    and "F' \<equiv> F(k := remove1 (blk_addr base k (buddy_of i)) (F k))"
  shows "buddy_tree M base A' S' F'" and "A' (Suc k) (i div 2)" and "\<not> S' (Suc k) (i div 2)"
    and "live M A' S' = insert (Suc k, i div 2) (live M A S - {(k, i)})"
    and "blk_addr base k (buddy_of i) \<in> set (F k)"
    and "(Suc k, i div 2) \<notin> live M A S"
proof -
  note pb = parent_bound [OF k i] and bb = buddy_of_bound [OF k i]
  have ex_i: "exists_blk M S k i" using tree_exists [OF tree _ i blk(1)] k by simp
  have par: "S (Suc k) (i div 2)" using exists_blk_parent [OF ex_i] k by simp
  then show "(Suc k, i div 2) \<notin> live M A S" by (simp add: live_def)
  from par have parA: "A (Suc k) (i div 2)" using tree_split [OF tree _ pb] k by simp
  then show "A' (Suc k) (i div 2)" by (simp add: A'_def)
  show "\<not> S' (Suc k) (i div 2)" by (simp add: S'_def)
  have ex: "exists_blk M S' j n \<longleftrightarrow> exists_blk M S j n \<and> \<not> (j = k \<and> (n = i \<or> n = buddy_of i))" for j n
    using same_parent [of i n] k by (auto simp: exists_blk_def S'_def)
  have ex_b: "exists_blk M S k (buddy_of i)" using ex_i exists_blk_buddy [OF k] by simp
  have noS: "\<not> S k (buddy_of i)" using tree_split [OF tree _ bb] k buddy by auto
  have inF: "buddy_of i \<in> free_blocks M A S k" using ex_b buddy by (simp add: free_blocks_def)
  then show "blk_addr base k (buddy_of i) \<in> set (F k)"
    using tree_free(2) [OF tree, of k] k by simp
  have fb: "free_blocks M A' S' j = free_blocks M A S j - (if j = k then {buddy_of i} else {})" for j
    using blk by (auto simp: free_blocks_def ex A'_def)
  show "buddy_tree M base A' S' F'"
  proof (rule buddy_treeI)
    fix j n
    show "\<not> S' 0 n" using tree_leaf [OF tree] by (simp add: S'_def)
    show "A' j n" if "j \<le> M" "n < 2 ^ (M - j)" "S' j n"
      using that tree_split [OF tree, of j n] blk by (auto simp: S'_def A'_def split: if_splits)
    show "exists_blk M S' j n" if "j \<le> M" "n < 2 ^ (M - j)" "A' j n"
      using that tree_exists [OF tree, of j n] buddy by (auto simp: ex A'_def split: if_splits)
    show "A' j n \<or> A' j (buddy_of n)" if "j < M" "exists_blk M S' j n"
    proof -
      from that(2) have "exists_blk M S j n" and no: "\<not> (j = k \<and> (n = i \<or> n = buddy_of i))"
        by (simp_all add: ex)
      with tree_pair [OF tree that(1)] have "A j n \<or> A j (buddy_of n)" by blast
      moreover have "\<not> (j = k \<and> buddy_of n = i)" using no by auto
      ultimately show ?thesis using no by (auto simp: A'_def)
    qed
    assume j: "j \<le> M"
    show "set (F' j) = blk_addr base j ` free_blocks M A' S' j"
      using tree_free [OF tree j] by (auto simp: fb F'_def)
    show "distinct (F' j)"
      using tree_free(1) [OF tree j] tree_free(1) [OF tree, of k] k by (auto simp: F'_def)
  qed
  show "live M A' S' = insert (Suc k, i div 2) (live M A S - {(k, i)})"
    using pb k parA par noS buddy by (auto simp: live_def A'_def S'_def)
qed

lemma release_step:
  assumes tree: "buddy_tree M base A S F" and k: "k < M" and i: "i < 2 ^ (M - k)"
    and blk: "A k i" "\<not> S k i" and buddy: "A k (buddy_of i)"
  defines "A' \<equiv> bit_upd A k i False" and "F' \<equiv> F(k := blk_addr base k i # F k)"
  shows "buddy_tree M base A' S F'" and "live M A' S = live M A S - {(k, i)}"
proof -
  have ex_i: "exists_blk M S k i" using tree_exists [OF tree _ i blk(1)] k by simp
  have fb: "free_blocks M A' S j = free_blocks M A S j \<union> (if j = k then {i} else {})" for j
    using ex_i by (auto simp: free_blocks_def A'_def)
  show "buddy_tree M base A' S F'"
  proof (rule buddy_treeI)
    fix j n
    show "\<not> S 0 n" using tree_leaf [OF tree] by simp
    show "A' j n" if "j \<le> M" "n < 2 ^ (M - j)" "S j n"
      using that tree_split [OF tree, of j n] blk by (auto simp: A'_def)
    show "exists_blk M S j n" if "j \<le> M" "n < 2 ^ (M - j)" "A' j n"
      using that tree_exists [OF tree, of j n] by (auto simp: A'_def split: if_splits)
    show "A' j n \<or> A' j (buddy_of n)" if "j < M" "exists_blk M S j n"
    proof (cases "j = k \<and> (n = i \<or> n = buddy_of i)")
      case True
      with buddy show ?thesis by (auto simp: A'_def)
    next
      case False
      then have "\<not> (j = k \<and> buddy_of n = i)" by auto
      with False tree_pair [OF tree that] show ?thesis by (auto simp: A'_def)
    qed
    assume j: "j \<le> M"
    show "set (F' j) = blk_addr base j ` free_blocks M A' S j"
      using tree_free [OF tree j] by (auto simp: fb F'_def)
    show "distinct (F' j)"
      using tree_free [OF tree j] tree_free [OF tree, of k] k blk
      by (auto simp: F'_def free_blocks_def)
  qed
  show "live M A' S = live M A S - {(k, i)}"
    using blk by (auto simp: live_def A'_def)
qed

end
