(* ===== verification/Buddy.thy ===== *)
theory Buddy
  imports Buddy_Tree
begin

text \<open>
  The kernel's buddy allocator (\<^verbatim>\<open>crates/kernel/src/buddy.rs\<close>): its records, the bit
  arrays, and the operations \<open>alloc\<close>, \<open>dealloc\<close> and \<open>free_bytes\<close> with their
  loops. The operations of \<^verbatim>\<open>init\<close> are in \<open>Buddy_Init\<close>.

  A free list is a plain list of block addresses, in the order of the ring of \<open>DList\<close>: the
  ring is implemented inside the free blocks, and \<open>DList\<close> shows that push, pop, remove, len
  and the emptiness test of the ring are the list operations used here. Removing a node that is
  on no free list follows wild pointers in the source; here it is \<open>Panic\<close>, so a theorem that
  an operation returns \<open>Ok\<close> excludes it. Addresses are natural numbers (the arena lies far
  below \<open>2 ^ 64\<close>), and subtractions are only evaluated where the source's do not underflow.

  \<open>buddy_inv\<close> ties the bit arrays to the tree invariant of \<open>Buddy_Tree\<close>.
\<close>

unbundle bit_operations_syntax

section \<open>Records and constants\<close>

type_synonym u8 = "8 word"

type_synonym bitmap = "u8 list option"

record szinfo =
  free :: "nat list"
  alloc :: bitmap
  split :: bitmap

record buddy_allocator =
  initialized :: bool
  base :: nat
  end_addr :: nat
  nsize :: nat
  sizes :: "szinfo list option"

record layout =
  lsize :: nat
  lalign :: nat

type_synonym 'a bresult = "(string, 'a) outcome"

definition MAX_ALIGN :: nat where
  "MAX_ALIGN = 4096"

section \<open>Bit arrays\<close>

definition bit_mask :: "nat \<Rightarrow> u8" where
  "bit_mask index = push_bit (index mod 8) 1"

fun bit_set :: "bitmap \<Rightarrow> nat \<Rightarrow> bool \<Rightarrow> bitmap bresult" where
  "bit_set None index set_or_clear = Ok None"
| "bit_set (Some array) index set_or_clear =
     (if index div 8 < length array then
        Ok (Some (array[index div 8 :=
          (if set_or_clear then array ! (index div 8) OR bit_mask index
           else array ! (index div 8) AND NOT (bit_mask index))]))
      else Panic)"

fun bit_isset :: "bitmap \<Rightarrow> nat \<Rightarrow> bool" where
  "bit_isset None index = False"
| "bit_isset (Some array) index =
     (if index div 8 < length array
      then array ! (index div 8) AND bit_mask index = bit_mask index else False)"

lemma bit_bit_mask: "bit (bit_mask i) j \<longleftrightarrow> j = i mod 8"
  by (auto simp: bit_mask_def bit_exp_iff possible_bit_word)

lemma and_mask_iff: "b AND bit_mask i = bit_mask i \<longleftrightarrow> bit b (i mod 8)"
proof
  assume "b AND bit_mask i = bit_mask i"
  then have "bit (b AND bit_mask i) (i mod 8)" by (simp add: bit_bit_mask)
  then show "bit b (i mod 8)" by (simp add: bit_and_iff)
next
  assume "bit b (i mod 8)"
  then show "b AND bit_mask i = bit_mask i"
    by (intro bit_word_eqI) (auto simp: bit_and_iff bit_bit_mask)
qed

lemma bit_isset_Some: "bit_isset (Some a) i \<longleftrightarrow> i div 8 < length a \<and> bit (a ! (i div 8)) (i mod 8)"
  by (simp add: and_mask_iff)

lemma bit_set_in_range:
  assumes "i div 8 < length a"
  shows "\<exists>a'. bit_set (Some a) i b = Ok (Some a') \<and> length a' = length a \<and>
    (\<forall>j. bit_isset (Some a') j = (if j = i then b else bit_isset (Some a) j))"
proof -
  have eq: "j div 8 = i div 8 \<Longrightarrow> j mod 8 = i mod 8 \<Longrightarrow> j = i" for j
    by (metis mod_div_decomp)
  have "i mod 8 < 8" by simp
  with assms eq show ?thesis
    by (auto simp: bit_isset_Some nth_list_update bit_or_iff bit_and_iff bit_not_iff bit_bit_mask
        simp del: bit_isset.simps)
qed

section \<open>Geometry\<close>

definition max_size :: "buddy_allocator \<Rightarrow> nat" where
  "max_size self = nsize self - 1"

definition nblk :: "buddy_allocator \<Rightarrow> nat \<Rightarrow> nat" where
  "nblk self k = 2 ^ (max_size self - k)"

function next_pow2_from :: "nat \<Rightarrow> nat \<Rightarrow> nat" where
  "next_pow2_from p n = (if p = 0 \<or> n \<le> p then p else next_pow2_from (2 * p) n)"
  by pat_completeness auto
termination
  by (relation "measure (\<lambda>(p, n). n - p)") auto

declare next_pow2_from.simps [simp del]

definition next_power_of_two :: "nat \<Rightarrow> nat" where
  "next_power_of_two n = next_pow2_from 1 n"

text \<open>\<^verbatim>\<open>usize::trailing_zeros\<close>, which is the width at 0.\<close>

fun trailing_zeros :: "nat \<Rightarrow> nat" where
  "trailing_zeros n = (if n = 0 then 64 else if odd n then 0 else Suc (trailing_zeros (n div 2)))"

declare trailing_zeros.simps [simp del]

definition firstk :: "nat \<Rightarrow> nat" where
  "firstk n = (if n \<le> LEAF_SIZE then 0 else trailing_zeros (next_power_of_two n div LEAF_SIZE))"

definition blk_index :: "buddy_allocator \<Rightarrow> nat \<Rightarrow> nat \<Rightarrow> nat" where
  "blk_index self k p = (p - base self) div blk_size k"

definition addr :: "buddy_allocator \<Rightarrow> nat \<Rightarrow> nat \<Rightarrow> nat" where
  "addr self k bi = base self + bi * blk_size k"

definition buddy_new :: buddy_allocator where
  "buddy_new = \<lparr>initialized = False, base = 0, end_addr = 0, nsize = 0, sizes = None\<rparr>"

section \<open>Updates of one entry of the sizes array\<close>

definition alloc_bit_set :: "szinfo list \<Rightarrow> nat \<Rightarrow> nat \<Rightarrow> bool \<Rightarrow> szinfo list bresult" where
  "alloc_bit_set szs k bi b =
     (if k < length szs then
        obind (bit_set (alloc (szs ! k)) bi b) (\<lambda>a. Ok (szs[k := (szs ! k)\<lparr>alloc := a\<rparr>]))
      else Panic)"

definition split_bit_set :: "szinfo list \<Rightarrow> nat \<Rightarrow> nat \<Rightarrow> bool \<Rightarrow> szinfo list bresult" where
  "split_bit_set szs k bi b =
     (if k < length szs then
        obind (bit_set (split (szs ! k)) bi b) (\<lambda>a. Ok (szs[k := (szs ! k)\<lparr>split := a\<rparr>]))
      else Panic)"

definition free_push :: "szinfo list \<Rightarrow> nat \<Rightarrow> nat \<Rightarrow> szinfo list bresult" where
  "free_push szs k p =
     (if k < length szs then Ok (szs[k := (szs ! k)\<lparr>free := p # free (szs ! k)\<rparr>]) else Panic)"

definition free_remove :: "szinfo list \<Rightarrow> nat \<Rightarrow> szinfo list bresult" where
  "free_remove szs p =
     (if \<exists>s \<in> set szs. p \<in> set (free s)
      then Ok (map (\<lambda>s. s\<lparr>free := remove1 p (free s)\<rparr>) szs) else Panic)"

section \<open>alloc\<close>

fun first_nonempty :: "nat \<Rightarrow> szinfo list \<Rightarrow> nat" where
  "first_nonempty k [] = k"
| "first_nonempty k (s # ss) = (if free s \<noteq> [] then k else first_nonempty (k + 1) ss)"

fun split_loop :: "buddy_allocator \<Rightarrow> nat \<Rightarrow> nat \<Rightarrow> nat \<Rightarrow> szinfo list \<Rightarrow> szinfo list bresult" where
  "split_loop self p fk 0 szs = Ok szs"
| "split_loop self p fk (Suc k) szs =
     (if fk < Suc k then
        obind (split_bit_set szs (Suc k) (blk_index self (Suc k) p) True) (\<lambda>szs1.
        obind (alloc_bit_set szs1 k (blk_index self k p) True) (\<lambda>szs2.
        obind (free_push szs2 k (p + blk_size k)) (\<lambda>szs3.
        split_loop self p fk k szs3)))
      else Ok szs)"

definition buddy_alloc :: "buddy_allocator \<Rightarrow> layout \<Rightarrow> (nat option \<times> buddy_allocator) bresult" where
  "buddy_alloc self layout =
     (case sizes self of
        None \<Rightarrow> Ok (None, self)
      | Some szs \<Rightarrow>
          (if MAX_ALIGN < lalign layout then Ok (None, self)
           else let fk = firstk (lsize layout) in
             (if nsize self < fk \<or> length szs < nsize self then Ok (None, self)
              else let k = first_nonempty fk (take (nsize self - fk) (drop fk szs)) in
                (if nsize self \<le> k then Ok (None, self)
                 else (case free (szs ! k) of
                         [] \<Rightarrow> Ok (None, self)
                       | p # rest \<Rightarrow>
                           obind (alloc_bit_set (szs[k := (szs ! k)\<lparr>free := rest\<rparr>]) k (blk_index self k p) True)
                             (\<lambda>szs1. obind (split_loop self p fk k szs1)
                               (\<lambda>szs2. Ok (if p = 0 then None else Some p, self\<lparr>sizes := Some szs2\<rparr>))))))))"

definition free_bytes :: "buddy_allocator \<Rightarrow> nat" where
  "free_bytes self =
     (case sizes self of None \<Rightarrow> 0
      | Some szs \<Rightarrow> (\<Sum>(k, s) \<leftarrow> enumerate 0 szs. length (free s) * blk_size k))"

section \<open>dealloc\<close>

fun size_scan :: "buddy_allocator \<Rightarrow> nat \<Rightarrow> nat \<Rightarrow> szinfo list \<Rightarrow> nat" where
  "size_scan self p k [] = 0"
| "size_scan self p k (s # ss) =
     (if bit_isset (split s) (blk_index self (k + 1) p) then k else size_scan self p (k + 1) ss)"

definition buddy_size :: "buddy_allocator \<Rightarrow> nat \<Rightarrow> nat" where
  "buddy_size self p = (case sizes self of None \<Rightarrow> 0 | Some szs \<Rightarrow> size_scan self p 0 (tl szs))"

text \<open>
  The merge loop: \<open>n\<close> iterations remain, \<open>k\<close> is the loop variable, \<open>p\<close> and
  \<open>fk\<close> are the mutable locals of the source.
\<close>

fun merge_loop ::
  "buddy_allocator \<Rightarrow> nat \<Rightarrow> nat \<Rightarrow> nat \<Rightarrow> nat \<Rightarrow> szinfo list \<Rightarrow> (nat \<times> nat \<times> szinfo list) bresult" where
  "merge_loop self 0 k p fk szs = Ok (p, fk, szs)"
| "merge_loop self (Suc n) k p fk szs =
     (let bi = blk_index self k p;
          buddy = (if even bi then bi + 1 else bi - 1)
      in obind (alloc_bit_set szs k bi False) (\<lambda>szs1.
           if bit_isset (alloc (szs1 ! k)) buddy then Ok (p, fk, szs1)
           else let q = addr self k buddy in
             obind (free_remove szs1 q) (\<lambda>szs2.
               let p' = (if even buddy then q else p) in
               obind (split_bit_set szs2 (k + 1) (blk_index self (k + 1) p') False) (\<lambda>szs3.
               merge_loop self n (k + 1) p' (fk + 1) szs3))))"

definition buddy_dealloc :: "buddy_allocator \<Rightarrow> nat \<Rightarrow> buddy_allocator bresult" where
  "buddy_dealloc self p =
     (case sizes self of
        None \<Rightarrow> Ok self
      | Some szs \<Rightarrow>
          (let fk = buddy_size self p in
           obind (merge_loop self (max_size self - fk) fk p fk szs) (\<lambda>(p', fk', szs').
           obind (free_push szs' fk' p') (\<lambda>szs''. Ok (self\<lparr>sizes := Some szs''\<rparr>)))))"

section \<open>The bit arrays as a buddy tree\<close>

definition Abits :: "szinfo list \<Rightarrow> bits" where
  "Abits szs k i \<longleftrightarrow> k < length szs \<and> bit_isset (alloc (szs ! k)) i"

definition Sbits :: "szinfo list \<Rightarrow> bits" where
  "Sbits szs k i \<longleftrightarrow> k < length szs \<and> bit_isset (split (szs ! k)) i"

definition Flists :: "szinfo list \<Rightarrow> nat \<Rightarrow> nat list" where
  "Flists szs k = (if k < length szs then free (szs ! k) else [])"

definition holds_bits :: "bitmap \<Rightarrow> nat \<Rightarrow> bool" where
  "holds_bits m n \<longleftrightarrow> (case m of None \<Rightarrow> False | Some a \<Rightarrow> n \<le> 8 * length a)"

definition sizes_shape :: "nat \<Rightarrow> szinfo list \<Rightarrow> bool" where
  "sizes_shape M szs \<longleftrightarrow> length szs = Suc M \<and>
     (\<forall>k \<le> M. holds_bits (alloc (szs ! k)) (2 ^ (M - k))) \<and>
     split (szs ! 0) = None \<and>
     (\<forall>k \<le> M. 0 < k \<longrightarrow> holds_bits (split (szs ! k)) (2 ^ (M - k)))"

definition buddy_inv :: "buddy_allocator \<Rightarrow> bool" where
  "buddy_inv self \<longleftrightarrow> 0 < nsize self \<and> 0 < base self \<and> MAX_ALIGN dvd base self \<and>
     (case sizes self of None \<Rightarrow> False
      | Some szs \<Rightarrow> sizes_shape (max_size self) szs \<and>
          buddy_tree (max_size self) (base self) (Abits szs) (Sbits szs) (Flists szs))"

text \<open>The blocks clients hold, as pairs of a size class and an index.\<close>

definition live_blocks :: "buddy_allocator \<Rightarrow> (nat \<times> nat) set" where
  "live_blocks self =
     (case sizes self of None \<Rightarrow> {} | Some szs \<Rightarrow> live (max_size self) (Abits szs) (Sbits szs))"

lemma holds_bits_bit_set:
  assumes "holds_bits m n" "i < n"
  shows "\<exists>m'. bit_set m i b = Ok m' \<and> holds_bits m' n \<and>
    (\<forall>j. bit_isset m' j = (if j = i then b else bit_isset m j))"
proof -
  from assms(1) obtain a where a: "m = Some a" "n \<le> 8 * length a"
    by (auto simp: holds_bits_def split: option.splits)
  then have "i div 8 < length a" using assms(2) by linarith
  from bit_set_in_range [OF this, of b] a show ?thesis
    by (fastforce simp: holds_bits_def simp del: bit_set.simps bit_isset.simps)
qed

lemma alloc_bit_set_effect:
  assumes "sizes_shape M szs" "k \<le> M" "i < 2 ^ (M - k)"
  shows "\<exists>szs'. alloc_bit_set szs k i b = Ok szs' \<and> sizes_shape M szs' \<and>
    Abits szs' = bit_upd (Abits szs) k i b \<and> Sbits szs' = Sbits szs \<and> Flists szs' = Flists szs"
proof -
  have len: "length szs = Suc M" and hb: "holds_bits (alloc (szs ! k)) (2 ^ (M - k))"
    using assms by (simp_all add: sizes_shape_def)
  from holds_bits_bit_set [OF hb assms(3), of b] obtain a where
    a: "bit_set (alloc (szs ! k)) i b = Ok a" "holds_bits a (2 ^ (M - k))"
      "\<And>j. bit_isset a j = (if j = i then b else bit_isset (alloc (szs ! k)) j)" by blast
  let ?s = "szs[k := (szs ! k)\<lparr>alloc := a\<rparr>]"
  have "alloc_bit_set szs k i b = Ok ?s" using a(1) len assms(2) by (simp add: alloc_bit_set_def)
  moreover have "sizes_shape M ?s" using assms a(2) by (auto simp: sizes_shape_def nth_list_update)
  moreover have "Abits ?s = bit_upd (Abits szs) k i b"
    using len assms(2) by (auto simp: fun_eq_iff Abits_def nth_list_update a(3))
  moreover have "Sbits ?s = Sbits szs" "Flists ?s = Flists szs"
    using len assms(2) by (auto simp: fun_eq_iff Sbits_def Flists_def nth_list_update)
  ultimately show ?thesis by blast
qed

lemma split_bit_set_effect:
  assumes "sizes_shape M szs" "0 < k" "k \<le> M" "i < 2 ^ (M - k)"
  shows "\<exists>szs'. split_bit_set szs k i b = Ok szs' \<and> sizes_shape M szs' \<and>
    Sbits szs' = bit_upd (Sbits szs) k i b \<and> Abits szs' = Abits szs \<and> Flists szs' = Flists szs"
proof -
  have len: "length szs = Suc M" and hb: "holds_bits (split (szs ! k)) (2 ^ (M - k))"
    using assms by (simp_all add: sizes_shape_def)
  from holds_bits_bit_set [OF hb assms(4), of b] obtain a where
    a: "bit_set (split (szs ! k)) i b = Ok a" "holds_bits a (2 ^ (M - k))"
      "\<And>j. bit_isset a j = (if j = i then b else bit_isset (split (szs ! k)) j)" by blast
  let ?s = "szs[k := (szs ! k)\<lparr>split := a\<rparr>]"
  have "split_bit_set szs k i b = Ok ?s" using a(1) len assms(3) by (simp add: split_bit_set_def)
  moreover have "sizes_shape M ?s" using assms a(2) by (auto simp: sizes_shape_def nth_list_update)
  moreover have "Sbits ?s = bit_upd (Sbits szs) k i b"
    using len assms(3) by (auto simp: fun_eq_iff Sbits_def nth_list_update a(3))
  moreover have "Abits ?s = Abits szs" "Flists ?s = Flists szs"
    using len assms(3) by (auto simp: fun_eq_iff Abits_def Flists_def nth_list_update)
  ultimately show ?thesis by blast
qed

lemma free_update_effect:
  fixes xs :: "nat list"
  assumes "sizes_shape M szs" "k \<le> M"
  defines "szs' \<equiv> szs[k := (szs ! k)\<lparr>free := xs\<rparr>]"
  shows "sizes_shape M szs'" "Abits szs' = Abits szs" "Sbits szs' = Sbits szs"
    "Flists szs' = (Flists szs)(k := xs)"
  using assms
  by (auto simp: szs'_def sizes_shape_def Abits_def Sbits_def Flists_def fun_eq_iff nth_list_update)

lemma free_push_effect:
  assumes "sizes_shape M szs" "k \<le> M"
  shows "\<exists>szs'. free_push szs k p = Ok szs' \<and> sizes_shape M szs' \<and> Abits szs' = Abits szs \<and>
    Sbits szs' = Sbits szs \<and> Flists szs' = (Flists szs)(k := p # Flists szs k)"
proof -
  have "k < length szs" using assms by (simp add: sizes_shape_def)
  with free_update_effect [OF assms, of "p # free (szs ! k)"] show ?thesis
    by (simp add: free_push_def Flists_def)
qed

lemma free_remove_effect:
  assumes "sizes_shape M szs" "k \<le> M" "p \<in> set (Flists szs k)"
    and "\<And>j. j \<le> M \<Longrightarrow> p \<in> set (Flists szs j) \<Longrightarrow> j = k"
  shows "\<exists>szs'. free_remove szs p = Ok szs' \<and> sizes_shape M szs' \<and> Abits szs' = Abits szs \<and>
    Sbits szs' = Sbits szs \<and> Flists szs' = (Flists szs)(k := remove1 p (Flists szs k))"
proof -
  let ?s = "map (\<lambda>s. s\<lparr>free := remove1 p (free s)\<rparr>) szs"
  have len: "length szs = Suc M" using assms(1) by (simp add: sizes_shape_def)
  have "p \<in> set (free (szs ! k))" "szs ! k \<in> set szs"
    using assms(2,3) len by (simp_all add: Flists_def)
  then have "free_remove szs p = Ok ?s" by (auto simp: free_remove_def)
  moreover have "sizes_shape M ?s" using assms(1) by (auto simp: sizes_shape_def)
  moreover have "Abits ?s = Abits szs" "Sbits ?s = Sbits szs"
    by (auto simp: fun_eq_iff Abits_def Sbits_def)
  moreover have "Flists ?s j = ((Flists szs)(k := remove1 p (Flists szs k))) j" for j
  proof (cases "j = k \<or> M < j")
    case True
    then show ?thesis using len assms(2) by (auto simp: Flists_def)
  next
    case False
    then have "p \<notin> set (Flists szs j)" using assms(4) by auto
    with False len show ?thesis by (auto simp: Flists_def remove1_idem)
  qed
  ultimately show ?thesis by blast
qed

section \<open>Index and size computations\<close>

lemma blk_index_addr [simp]: "blk_index self k (blk_addr (base self) k i) = i"
  by (simp add: blk_index_def blk_addr_def)

lemma blk_index_addr_left [simp]: "blk_index self k (blk_addr (base self) (Suc k) i) = 2 * i"
  by (simp flip: blk_addr_left)

lemma addr_blk_addr: "addr self k i = blk_addr (base self) k i"
  by (simp add: addr_def blk_addr_def)

lemma next_pow2_from_spec:
  "0 < p \<Longrightarrow> \<exists>e. next_pow2_from p n = p * 2 ^ e \<and> n \<le> p * 2 ^ e \<and> (0 < e \<longrightarrow> p * 2 ^ (e - 1) < n)"
proof (induction p n rule: next_pow2_from.induct)
  case (1 p n)
  show ?case
  proof (cases "n \<le> p")
    case True
    then show ?thesis by (intro exI [of _ 0]) (simp add: next_pow2_from.simps [of p n])
  next
    case False
    with 1 obtain e where e: "next_pow2_from (2 * p) n = 2 * p * 2 ^ e" "n \<le> 2 * p * 2 ^ e"
      "0 < e \<longrightarrow> 2 * p * 2 ^ (e - 1) < n" by auto
    moreover have "p * 2 ^ e < n" using e(3) False by (cases e) auto
    ultimately show ?thesis using False "1.prems"
      by (intro exI [of _ "Suc e"]) (simp add: next_pow2_from.simps [of p n] ac_simps)
  qed
qed

lemma trailing_zeros_power: "trailing_zeros (2 ^ e) = e"
  by (induction e) (simp_all add: trailing_zeros.simps)

text \<open>\<open>firstk n\<close> is the least class whose blocks hold \<open>n\<close> bytes.\<close>

lemma firstk_spec: "n \<le> blk_size (firstk n)" "0 < firstk n \<Longrightarrow> blk_size (firstk n - 1) < n"
proof -
  have *: "\<exists>k. firstk n = k \<and> n \<le> blk_size k \<and> (0 < k \<longrightarrow> blk_size (k - 1) < n)"
  proof (cases "n \<le> LEAF_SIZE")
    case True
    then show ?thesis by (simp add: firstk_def blk_size_def)
  next
    case False
    obtain e where e: "next_power_of_two n = 2 ^ e" "n \<le> 2 ^ e" "0 < e \<longrightarrow> 2 ^ (e - 1) < n"
      using next_pow2_from_spec [of 1 n] by (auto simp: next_power_of_two_def)
    have "2 ^ 4 < (2::nat) ^ e" using False e(2) by (simp add: LEAF_SIZE_def)
    then have "4 < e" by (rule power_less_imp_less_exp [rotated]) simp
    then obtain d where d: "e = 4 + Suc d" by (metis add_Suc_right less_imp_Suc_add)
    then have "next_power_of_two n div LEAF_SIZE = 2 ^ Suc d"
      using e(1) by (simp add: LEAF_SIZE_def power_add)
    then have "firstk n = Suc d" using False by (simp only: firstk_def trailing_zeros_power if_False)
    with e d show ?thesis by (simp add: blk_size_def LEAF_SIZE_def power_add)
  qed
  then show "n \<le> blk_size (firstk n)" "0 < firstk n \<Longrightarrow> blk_size (firstk n - 1) < n" by blast+
qed

lemma first_nonempty_spec:
  "k \<le> first_nonempty k ss \<and> first_nonempty k ss \<le> k + length ss \<and>
   (\<forall>j < first_nonempty k ss - k. free (ss ! j) = []) \<and>
   (first_nonempty k ss < k + length ss \<longrightarrow> free (ss ! (first_nonempty k ss - k)) \<noteq> [])"
proof (induction ss arbitrary: k)
  case Nil
  then show ?case by simp
next
  case (Cons s ss)
  show ?case
  proof (cases "free s = []")
    case True
    let ?m = "first_nonempty (k + 1) ss"
    have "k + 1 \<le> ?m" using Cons.IH [of "k + 1"] by blast
    then have "?m - k = Suc (?m - (k + 1))" by linarith
    with Cons.IH [of "k + 1"] True show ?thesis
      by (auto simp: nth_Cons' less_Suc_eq_0_disj)
  qed simp
qed

lemma free_bytes_total:
  "sizes self = Some szs \<Longrightarrow> length szs = Suc M \<Longrightarrow> free_bytes self = free_total M (Flists szs)"
  by (simp add: free_bytes_def free_total_def Flists_def sum_list_sum_nth nth_enumerate_eq
      atLeast0LessThan lessThan_Suc_atMost)

section \<open>The loops\<close>

lemma split_loop_correct:
  assumes "sizes_shape M szs" and "buddy_tree M (base self) (Abits szs) (Sbits szs) (Flists szs)"
    and "k \<le> M" "i < 2 ^ (M - k)" "Abits szs k i" "\<not> Sbits szs k i" "fk \<le> k"
    and "p = blk_addr (base self) k i"
  shows "\<exists>szs' j. split_loop self p fk k szs = Ok szs' \<and> sizes_shape M szs' \<and>
    buddy_tree M (base self) (Abits szs') (Sbits szs') (Flists szs') \<and>
    p = blk_addr (base self) fk j \<and> j < 2 ^ (M - fk) \<and>
    live M (Abits szs') (Sbits szs') =
      insert (fk, j) (live M (Abits szs) (Sbits szs) - {(k, i)}) \<and>
    free_total M (Flists szs') + blk_size fk = free_total M (Flists szs) + blk_size k"
  using assms
proof (induction k arbitrary: szs i)
  case 0
  then have "(0, i) \<in> live M (Abits szs) (Sbits szs)" by (simp add: live_def)
  with 0 show ?case by (auto simp: insert_absorb)
next
  case (Suc k)
  show ?case
  proof (cases "fk = Suc k")
    case True
    then have "(fk, i) \<in> live M (Abits szs) (Sbits szs)" using Suc.prems by (simp add: live_def)
    with True Suc.prems show ?thesis by (auto simp: insert_absorb)
  next
    case False
    then have fk: "fk \<le> k" "fk < Suc k" using Suc.prems(7) by simp_all
    have k: "k \<le> M" "Suc k \<le> M" using Suc.prems(3) by simp_all
    note b = child_bound [OF Suc.prems(3,4)]
    obtain szs1 where 1: "split_bit_set szs (Suc k) i True = Ok szs1" "sizes_shape M szs1"
      "Sbits szs1 = bit_upd (Sbits szs) (Suc k) i True" "Abits szs1 = Abits szs"
      "Flists szs1 = Flists szs"
      using split_bit_set_effect [OF Suc.prems(1) _ Suc.prems(3,4)] by blast
    obtain szs2 where 2: "alloc_bit_set szs1 k (2 * i) True = Ok szs2" "sizes_shape M szs2"
      "Abits szs2 = bit_upd (Abits szs1) k (2 * i) True" "Sbits szs2 = Sbits szs1"
      "Flists szs2 = Flists szs1"
      using alloc_bit_set_effect [OF 1(2) k(1) b(1)] by blast
    obtain szs3 where 3: "free_push szs2 k (blk_addr (base self) k (Suc (2 * i))) = Ok szs3"
      "sizes_shape M szs3" "Abits szs3 = Abits szs2" "Sbits szs3 = Sbits szs2"
      "Flists szs3 = (Flists szs2)(k := blk_addr (base self) k (Suc (2 * i)) # Flists szs2 k)"
      using free_push_effect [OF 2(2) k(1)] by blast
    note st = split_step [OF Suc.prems(2) k(2) Suc.prems(4-6)]
    have A3: "Abits szs3 k (2 * i)" and S3: "\<not> Sbits szs3 k (2 * i)"
      using st(2) by (simp_all add: 1 2 3)
    have tree3: "buddy_tree M (base self) (Abits szs3) (Sbits szs3) (Flists szs3)"
      using st(1) by (simp only: 1 2 3)
    have p: "p = blk_addr (base self) k (2 * i)" using Suc.prems(8) by (simp add: blk_addr_left)
    note ih = Suc.IH [OF 3(2) tree3 k(1) b(1) A3 S3 fk(1) p]
    have run: "split_loop self p fk (Suc k) szs = split_loop self p fk k szs3"
      using 1(1) 2(1) 3(1) fk(2) Suc.prems(8) by (simp add: blk_addr_right)
    have lv: "live M (Abits szs3) (Sbits szs3) - {(k, 2 * i)}
        = live M (Abits szs) (Sbits szs) - {(Suc k, i)}"
      using st(3,4) by (simp only: 1 2 3) blast
    have ft: "free_total M (Flists szs3) + blk_size k = free_total M (Flists szs) + blk_size (Suc k)"
      using free_total_upd [OF k(1), of "Flists szs" "blk_addr (base self) k (Suc (2 * i)) # Flists szs k"]
        1 2 3 by (simp add: blk_size_Suc)
    show ?thesis using ih unfolding run lv ft .
  qed
qed

lemma size_scan_correct:
  assumes shape: "sizes_shape M szs"
    and tree: "buddy_tree M (base self) (Abits szs) (Sbits szs) (Flists szs)"
    and blk: "(k, i) \<in> live M (Abits szs) (Sbits szs)" and k: "k < M"
  shows "d \<le> k \<Longrightarrow> size_scan self (blk_addr (base self) k i) (k - d) (drop (Suc (k - d)) szs) = k"
proof (induction d)
  case 0
  have len: "length szs = Suc M" using shape by (simp add: sizes_shape_def)
  have "exists_blk M (Sbits szs) k i" using liveD [OF tree blk] by simp
  then have "Sbits szs (Suc k) (i div 2)" using exists_blk_parent k by blast
  then have "bit_isset (split (szs ! Suc k)) (i div 2)" by (simp add: Sbits_def)
  moreover have "blk_index self (Suc k) (blk_addr (base self) k i) = i div 2"
    by (simp add: blk_index_def blk_addr_def blk_size_Suc div_mult2_eq [symmetric] mult.commute [of i])
  ultimately show ?case using len k by (simp add: Cons_nth_drop_Suc [symmetric])
next
  case (Suc d)
  let ?j = "k - Suc d" and ?p = "blk_addr (base self) k i"
  have len: "length szs = Suc M" using shape by (simp add: sizes_shape_def)
  have j: "Suc ?j = k - d" "Suc ?j \<le> M" "k = Suc ?j + d" using Suc.prems k by simp_all
  have bi: "blk_index self (Suc ?j) ?p = i * 2 ^ d"
  proof -
    have "blk_size k = blk_size (Suc ?j) * 2 ^ d"
      using j(3) by (metis blk_size_def power_add mult.commute mult.left_commute)
    then show ?thesis by (simp add: blk_index_def blk_addr_def)
  qed
  have "\<not> Sbits szs (Suc ?j) (i * 2 ^ d)"
  proof
    assume s: "Sbits szs (Suc ?j) (i * 2 ^ d)"
    have "i < 2 ^ (M - k)" using blk by (simp add: live_def)
    then have "i * 2 ^ d < 2 ^ (M - k) * 2 ^ d" by simp
    also have "\<dots> = 2 ^ (M - Suc ?j)" using j k by (simp flip: power_add)
    finally have bnd: "i * 2 ^ d < 2 ^ (M - Suc ?j)" .
    have "exists_blk M (Sbits szs) (Suc ?j) (i * 2 ^ d)"
      using tree_exists [OF tree j(2) bnd] tree_split [OF tree j(2) bnd s] by blast
    from ancestor_exists [OF tree this, of d] have "Sbits szs k i"
      using j k s by (cases "d = 0") auto
    then show False using liveD [OF tree blk] by blast
  qed
  then have "\<not> bit_isset (split (szs ! Suc ?j)) (blk_index self (?j + 1) ?p)"
    using len j(2) bi by (simp add: Sbits_def)
  then have "size_scan self ?p ?j (drop (Suc ?j) szs) = size_scan self ?p (Suc ?j) (drop (Suc (Suc ?j)) szs)"
    using len j by (subst Cons_nth_drop_Suc [symmetric]) simp_all
  with Suc.IH Suc.prems j(1) show ?case by simp
qed

lemma merge_loop_correct:
  assumes "sizes_shape M szs" and "buddy_tree M (base self) (Abits szs) (Sbits szs) (Flists szs)"
    and "(k, i) \<in> live M (Abits szs) (Sbits szs)"
    and "(0, r) \<in> live M (Abits szs) (Sbits szs)" "(0, r) \<noteq> (k, i)"
    and "k + n = M"
  shows "\<exists>p' k' szs' szs''. merge_loop self n k (blk_addr (base self) k i) k szs = Ok (p', k', szs') \<and>
    free_push szs' k' p' = Ok szs'' \<and> sizes_shape M szs'' \<and>
    buddy_tree M (base self) (Abits szs'') (Sbits szs'') (Flists szs'') \<and>
    live M (Abits szs'') (Sbits szs'') = live M (Abits szs) (Sbits szs) - {(k, i)} \<and>
    free_total M (Flists szs'') = free_total M (Flists szs) + blk_size k"
  using assms
proof (induction n arbitrary: k i szs)
  case 0
  then show ?case using root_not_live [OF 0(2), of i r] by auto
next
  case (Suc n)
  let ?p = "blk_addr (base self) k i" and ?b = "buddy_of i"
  let ?A = "Abits szs" and ?S = "Sbits szs" and ?F = "Flists szs"
  note tree = Suc.prems(2)
  have k: "k < M" "k \<le> M" "Suc k \<le> M" using Suc.prems(6) by simp_all
  have blk: "?A k i" "\<not> ?S k i" "i < 2 ^ (M - k)" using Suc.prems(3) by (simp_all add: live_def)
  obtain szs1 where 1: "alloc_bit_set szs k i False = Ok szs1" "sizes_shape M szs1"
    "Abits szs1 = bit_upd ?A k i False" "Sbits szs1 = ?S" "Flists szs1 = ?F"
    using alloc_bit_set_effect [OF Suc.prems(1) k(2) blk(3)] by blast
  have len1: "k < length szs1" using 1(2) k by (simp add: sizes_shape_def)
  have bset: "bit_isset (alloc (szs1 ! k)) ?b = ?A k ?b"
    using fun_cong [OF fun_cong [OF 1(3)], of k ?b] len1 by (simp add: Abits_def)
  show ?case
  proof (cases "?A k ?b")
    case True
    have run: "merge_loop self (Suc n) k ?p k szs = Ok (?p, k, szs1)"
      using 1(1) True bset by (simp add: Let_def buddy_of_def [symmetric])
    obtain szs2 where 2: "free_push szs1 k ?p = Ok szs2" "sizes_shape M szs2"
      "Abits szs2 = Abits szs1" "Sbits szs2 = Sbits szs1" "Flists szs2 = (Flists szs1)(k := ?p # Flists szs1 k)"
      using free_push_effect [OF 1(2) k(2)] by blast
    note st = release_step [OF tree k(1) blk(3,1,2) True]
    have "free_total M (Flists szs2) = free_total M ?F + blk_size k"
      using free_total_upd [OF k(2), of ?F "?p # ?F k"] 1 2 by simp
    with run 1 2 st show ?thesis by auto
  next
    case False
    note st = merge_step [OF tree k(1) blk(3,1,2) False]
    let ?q = "blk_addr (base self) k ?b"
    have uniq: "j = k" if "j \<le> M" "?q \<in> set (Flists szs1 j)" for j
      using tree_free_unique [OF tree that(1) k(2)] that(2) st(5) 1(5) by simp
    obtain szs2 where 2: "free_remove szs1 ?q = Ok szs2" "sizes_shape M szs2"
      "Abits szs2 = Abits szs1" "Sbits szs2 = Sbits szs1"
      "Flists szs2 = (Flists szs1)(k := remove1 ?q (Flists szs1 k))"
      using free_remove_effect [OF 1(2) k(2), of ?q] uniq st(5) 1(5) by metis
    obtain szs3 where 3: "split_bit_set szs2 (Suc k) (i div 2) False = Ok szs3" "sizes_shape M szs3"
      "Sbits szs3 = bit_upd (Sbits szs2) (Suc k) (i div 2) False" "Abits szs3 = Abits szs2"
      "Flists szs3 = Flists szs2"
      using split_bit_set_effect [OF 2(2) _ k(3) parent_bound [OF k(1) blk(3)]] by blast
    have p': "(if even ?b then ?q else ?p) = blk_addr (base self) (Suc k) (i div 2)"
      by (auto simp: buddy_of_def simp flip: blk_addr_left elim!: oddE evenE)
    have run: "merge_loop self (Suc n) k ?p k szs =
        merge_loop self n (Suc k) (blk_addr (base self) (Suc k) (i div 2)) (Suc k) szs3"
      using 1(1) 2(1) 3(1) False bset p'
      by (simp add: Let_def buddy_of_def [symmetric] addr_blk_addr)
    have live3: "live M (Abits szs3) (Sbits szs3) = insert (Suc k, i div 2) (live M ?A ?S - {(k, i)})"
      using st(4) 1 2 3 by simp
    have ft: "free_total M (Flists szs3) + blk_size k = free_total M ?F"
    proof -
      have "length (remove1 ?q (?F k)) + 1 = length (?F k)"
        using st(5) length_pos_if_in_set [OF st(5)] by (simp add: length_remove1)
      then have "length (?F k) * blk_size k = length (remove1 ?q (?F k)) * blk_size k + blk_size k"
        by (metis add_mult_distrib mult_1)
      then show ?thesis
        using free_total_upd [OF k(2), of ?F "remove1 ?q (?F k)"] 1 2 3 by simp
    qed
    have "live M ?A ?S - {(k, i)} - {(Suc k, i div 2)} = live M ?A ?S - {(k, i)}"
      using st(6) by blast
    moreover have tree3: "buddy_tree M (base self) (Abits szs3) (Sbits szs3) (Flists szs3)"
      using st(1) by (simp only: 1 2 3)
    have "\<exists>p' k' szs' szs''. merge_loop self n (Suc k) (blk_addr (base self) (Suc k) (i div 2)) (Suc k) szs3
        = Ok (p', k', szs') \<and>
      free_push szs' k' p' = Ok szs'' \<and> sizes_shape M szs'' \<and>
      buddy_tree M (base self) (Abits szs'') (Sbits szs'') (Flists szs'') \<and>
      live M (Abits szs'') (Sbits szs'') = live M (Abits szs3) (Sbits szs3) - {(Suc k, i div 2)} \<and>
      free_total M (Flists szs'') = free_total M (Flists szs3) + blk_size (Suc k)"
      using Suc.prems(4-6) by (intro Suc.IH 3(2) tree3) (auto simp: live3)
    moreover have "free_total M (Flists szs3) + blk_size (Suc k) = free_total M ?F + blk_size k"
      using ft by (simp add: blk_size_Suc)
    ultimately show ?thesis unfolding run live3 insert_Diff_if by simp
  qed
qed

section \<open>The operations\<close>

lemma buddy_invE:
  assumes "buddy_inv self"
  obtains szs where "sizes self = Some szs" "sizes_shape (max_size self) szs"
    "buddy_tree (max_size self) (base self) (Abits szs) (Sbits szs) (Flists szs)"
    "nsize self = Suc (max_size self)" "length szs = nsize self" "0 < base self"
    "MAX_ALIGN dvd base self" "live_blocks self = live (max_size self) (Abits szs) (Sbits szs)"
    "free_bytes self = free_total (max_size self) (Flists szs)"
proof -
  from assms obtain szs where szs: "sizes self = Some szs"
    by (auto simp: buddy_inv_def split: option.splits)
  with assms have "sizes_shape (max_size self) szs" "nsize self = Suc (max_size self)"
    by (auto simp: buddy_inv_def max_size_def)
  then show thesis
    using assms szs that [of szs] free_bytes_total [of self szs "max_size self"]
    by (simp add: buddy_inv_def sizes_shape_def live_blocks_def)
qed

lemma buddy_inv_sizes:
  "buddy_inv self \<Longrightarrow> sizes_shape (max_size self) szs \<Longrightarrow>
   buddy_tree (max_size self) (base self) (Abits szs) (Sbits szs) (Flists szs) \<Longrightarrow>
   buddy_inv (self\<lparr>sizes := Some szs\<rparr>)"
  by (auto simp: buddy_inv_def max_size_def)

lemma live_blocks_sizes [simp]:
  "live_blocks (self\<lparr>sizes := Some szs\<rparr>) = live (max_size self) (Abits szs) (Sbits szs)"
  by (simp add: live_blocks_def max_size_def)

text \<open>A request is refused exactly when no class that could serve it has a free block.\<close>

definition can_serve :: "buddy_allocator \<Rightarrow> layout \<Rightarrow> bool" where
  "can_serve self layout \<longleftrightarrow> lalign layout \<le> MAX_ALIGN \<and>
     (case sizes self of None \<Rightarrow> False
      | Some szs \<Rightarrow> (\<exists>k. firstk (lsize layout) \<le> k \<and> k < nsize self \<and> free (szs ! k) \<noteq> []))"

lemma buddy_alloc_refused:
  assumes inv: "buddy_inv self" and "\<not> can_serve self layout"
  shows "buddy_alloc self layout = Ok (None, self)"
proof -
  from inv obtain szs where szs: "sizes self = Some szs" "length szs = nsize self"
    by (rule buddy_invE)
  let ?fk = "firstk (lsize layout)"
  let ?ss = "drop ?fk szs"
  have "nsize self \<le> first_nonempty ?fk ?ss" if "lalign layout \<le> MAX_ALIGN" "?fk \<le> nsize self"
  proof (rule ccontr)
    assume less: "\<not> nsize self \<le> first_nonempty ?fk ?ss"
    moreover have ge: "?fk \<le> first_nonempty ?fk ?ss" using first_nonempty_spec [of ?fk ?ss] by blast
    ultimately have "free (?ss ! (first_nonempty ?fk ?ss - ?fk)) \<noteq> []"
      using first_nonempty_spec [of ?fk ?ss] szs(2) that(2) by auto
    with ge have "free (szs ! first_nonempty ?fk ?ss) \<noteq> []" using less szs(2) by simp
    with less \<open>?fk \<le> first_nonempty ?fk ?ss\<close> have "can_serve self layout"
      using szs that(1) by (auto simp: can_serve_def not_le)
    with assms(2) show False by simp
  qed
  with szs show ?thesis by (simp add: buddy_alloc_def Let_def)
qed

lemma buddy_alloc_served:
  assumes inv: "buddy_inv self" and serve: "can_serve self layout"
  shows "\<exists>p j self'. buddy_alloc self layout = Ok (Some p, self') \<and> buddy_inv self' \<and>
    base self' = base self \<and> nsize self' = nsize self \<and>
    p = addr self (firstk (lsize layout)) j \<and> j < nblk self (firstk (lsize layout)) \<and>
    firstk (lsize layout) \<le> max_size self \<and>
    (firstk (lsize layout), j) \<notin> live_blocks self \<and>
    live_blocks self' = insert (firstk (lsize layout), j) (live_blocks self) \<and>
    free_bytes self' + blk_size (firstk (lsize layout)) = free_bytes self"
proof -
  let ?fk = "firstk (lsize layout)" and ?M = "max_size self"
  from inv obtain szs where szs: "sizes self = Some szs" and shape: "sizes_shape ?M szs"
    and tree: "buddy_tree ?M (base self) (Abits szs) (Sbits szs) (Flists szs)"
    and M: "nsize self = Suc ?M" "length szs = nsize self" and b: "0 < base self"
    and lv: "live_blocks self = live ?M (Abits szs) (Sbits szs)"
    and fb: "free_bytes self = free_total ?M (Flists szs)" by (rule buddy_invE)
  let ?ss = "drop ?fk szs"
  define k where "k = first_nonempty ?fk ?ss"
  from serve szs obtain m where m: "?fk \<le> m" "m < nsize self" "free (szs ! m) \<noteq> []"
    by (auto simp: can_serve_def)
  have fn: "?fk \<le> k" "\<forall>j < k - ?fk. free (?ss ! j) = []" "k < ?fk + length ?ss \<longrightarrow> free (?ss ! (k - ?fk)) \<noteq> []"
    using first_nonempty_spec [of ?fk ?ss] by (simp_all add: k_def)
  have len: "length ?ss = nsize self - ?fk" "take (nsize self - ?fk) ?ss = ?ss" using M m by simp_all
  have km: "k \<le> m"
  proof (rule ccontr)
    assume "\<not> k \<le> m"
    then have "m - ?fk < k - ?fk" using m(1) by simp
    then have "free (?ss ! (m - ?fk)) = []" using fn(2) by blast
    with m M show False by simp
  qed
  then have k: "k < nsize self" "k \<le> ?M" using m M by simp_all
  then have "free (?ss ! (k - ?fk)) \<noteq> []" using fn(1,3) len by simp
  then have "free (szs ! k) \<noteq> []" using fn(1) k M by simp
  then obtain p rest where fr: "free (szs ! k) = p # rest" by (cases "free (szs ! k)") auto
  then have F: "Flists szs k = p # rest" using k M by (simp add: Flists_def)
  obtain i where i: "p = blk_addr (base self) k i" "i < 2 ^ (?M - k)" "i \<in> free_blocks ?M (Abits szs) (Sbits szs) k"
    and tree1: "buddy_tree ?M (base self) (bit_upd (Abits szs) k i True) (Sbits szs) ((Flists szs)(k := rest))"
    and live1: "live ?M (bit_upd (Abits szs) k i True) (Sbits szs) = insert (k, i) (live ?M (Abits szs) (Sbits szs))"
    using take_step [of _ _ _ _ "Flists szs", OF tree k(2) F] by blast
  note fbi = free_blocksD [OF tree i(3)]
  let ?szs0 = "szs[k := (szs ! k)\<lparr>free := rest\<rparr>]"
  note eff0 = free_update_effect [OF shape k(2), of rest]
  obtain szs1 where 1: "alloc_bit_set ?szs0 k i True = Ok szs1" "sizes_shape ?M szs1"
    "Abits szs1 = bit_upd (Abits szs) k i True" "Sbits szs1 = Sbits szs"
    "Flists szs1 = (Flists szs)(k := rest)"
    using alloc_bit_set_effect [OF eff0(1) k(2) i(2)] eff0 by metis
  have tree1': "buddy_tree ?M (base self) (Abits szs1) (Sbits szs1) (Flists szs1)"
    using tree1 by (simp only: 1)
  have A1: "Abits szs1 k i" "\<not> Sbits szs1 k i" using fbi by (simp_all add: 1)
  from split_loop_correct [OF 1(2) tree1' k(2) i(2) A1 fn(1) i(1)] obtain szs2 j where
    2: "split_loop self p ?fk k szs1 = Ok szs2" "sizes_shape ?M szs2"
      "buddy_tree ?M (base self) (Abits szs2) (Sbits szs2) (Flists szs2)"
      "p = blk_addr (base self) ?fk j" "j < 2 ^ (?M - ?fk)"
      "live ?M (Abits szs2) (Sbits szs2) = insert (?fk, j) (live ?M (Abits szs1) (Sbits szs1) - {(k, i)})"
      "free_total ?M (Flists szs2) + blk_size ?fk = free_total ?M (Flists szs1) + blk_size k"
    by blast
  have notin: "(k, i) \<notin> live ?M (Abits szs) (Sbits szs)" using fbi by (simp add: live_def)
  have live2: "live ?M (Abits szs2) (Sbits szs2) = insert (?fk, j) (live ?M (Abits szs) (Sbits szs))"
    using 2(6) live1 notin by (simp add: 1)
  have "free_total ?M (Flists szs1) + blk_size k = free_total ?M (Flists szs)"
    using free_total_upd [OF k(2), of "Flists szs" rest] F by (simp add: 1)
  with 2(7) have ft: "free_total ?M (Flists szs2) + blk_size ?fk = free_total ?M (Flists szs)" by simp
  have fresh: "(?fk, j) \<notin> live ?M (Abits szs) (Sbits szs)"
  proof
    assume l: "(?fk, j) \<in> live ?M (Abits szs) (Sbits szs)"
    have "p \<in> blk_bytes (base self) k i" "p \<in> blk_bytes (base self) ?fk j"
      using blk_addr_in_bytes i(1) 2(4) by metis+
    from terminal_disjoint [OF tree _ _ _ _ this] fbi liveD [OF tree l] have "?fk = k \<and> j = i" by blast
    with l notin show False by simp
  qed
  have "buddy_alloc self layout = Ok (Some p, self\<lparr>sizes := Some szs2\<rparr>)"
  proof -
    have "\<not> MAX_ALIGN < lalign layout" using serve by (simp add: can_serve_def)
    moreover have "\<not> (nsize self < ?fk \<or> length szs < nsize self)" using m M by simp
    moreover have "p \<noteq> 0" using i(1) b by (simp add: blk_addr_def)
    moreover have "blk_index self k p = i" using i(1) by simp
    ultimately show ?thesis
      using szs k(1) fr 1(1) 2(1) by (simp add: buddy_alloc_def Let_def len k_def [symmetric])
  qed
  moreover have "buddy_inv (self\<lparr>sizes := Some szs2\<rparr>)" using inv 2(2,3) by (rule buddy_inv_sizes)
  moreover have "free_bytes (self\<lparr>sizes := Some szs2\<rparr>) = free_total ?M (Flists szs2)"
    using 2(2) by (intro free_bytes_total) (simp_all add: sizes_shape_def)
  ultimately show ?thesis
    using 2(4,5) live2 ft fresh lv fb fn(1) k(2) by (auto simp: addr_blk_addr nblk_def)
qed

text \<open>
  Freeing a live block. The leaf \<open>r\<close> stands for the allocator's own data structures, which
  are never freed: it keeps the merge loop from reaching the root.
\<close>

lemma buddy_dealloc_live:
  assumes inv: "buddy_inv self" and blk: "(k, i) \<in> live_blocks self"
    and keep: "(0, r) \<in> live_blocks self" "(0, r) \<noteq> (k, i)"
  shows "\<exists>self'. buddy_dealloc self (addr self k i) = Ok self' \<and> buddy_inv self' \<and>
    base self' = base self \<and> nsize self' = nsize self \<and>
    live_blocks self' = live_blocks self - {(k, i)} \<and>
    free_bytes self' = free_bytes self + blk_size k"
proof -
  let ?M = "max_size self"
  from inv obtain szs where szs: "sizes self = Some szs" and shape: "sizes_shape ?M szs"
    and tree: "buddy_tree ?M (base self) (Abits szs) (Sbits szs) (Flists szs)"
    and lv: "live_blocks self = live ?M (Abits szs) (Sbits szs)"
    and fb: "free_bytes self = free_total ?M (Flists szs)" by (rule buddy_invE)
  have "k \<le> ?M" using blk lv by (simp add: live_def)
  moreover have "k \<noteq> ?M" using root_not_live [OF tree, of i r] blk keep lv by auto
  ultimately have k: "k < ?M" "k + (?M - k) = ?M" by simp_all
  have "size_scan self (blk_addr (base self) k i) 0 (tl szs) = k"
    using size_scan_correct [OF shape tree blk [unfolded lv] k(1), of k] by (simp add: drop_Suc)
  then have size: "buddy_size self (addr self k i) = k"
    using szs by (simp add: buddy_size_def addr_blk_addr)
  from merge_loop_correct [OF shape tree blk [unfolded lv] keep(1) [unfolded lv] keep(2) k(2)]
  obtain p' k' szs' szs'' where
    m: "merge_loop self (?M - k) k (blk_addr (base self) k i) k szs = Ok (p', k', szs')"
      "free_push szs' k' p' = Ok szs''" "sizes_shape ?M szs''"
      "buddy_tree ?M (base self) (Abits szs'') (Sbits szs'') (Flists szs'')"
      "live ?M (Abits szs'') (Sbits szs'') = live ?M (Abits szs) (Sbits szs) - {(k, i)}"
      "free_total ?M (Flists szs'') = free_total ?M (Flists szs) + blk_size k" by blast
  have "buddy_dealloc self (addr self k i) = Ok (self\<lparr>sizes := Some szs''\<rparr>)"
    using szs size m(1,2) by (simp add: buddy_dealloc_def Let_def addr_blk_addr)
  moreover have "buddy_inv (self\<lparr>sizes := Some szs''\<rparr>)" using inv m(3,4) by (rule buddy_inv_sizes)
  moreover have "free_bytes (self\<lparr>sizes := Some szs''\<rparr>) = free_total ?M (Flists szs'')"
    using m(3) by (intro free_bytes_total) (simp_all add: sizes_shape_def)
  ultimately show ?thesis using m(5,6) lv fb by simp
qed

lemma live_blocks_disjoint:
  assumes inv: "buddy_inv self" and "(k, i) \<in> live_blocks self" "(k', i') \<in> live_blocks self"
    and "(k, i) \<noteq> (k', i')"
  shows "blk_bytes (base self) k i \<inter> blk_bytes (base self) k' i' = {}"
proof -
  from inv obtain szs where
    tree: "buddy_tree (max_size self) (base self) (Abits szs) (Sbits szs) (Flists szs)"
    and lv: "live_blocks self = live (max_size self) (Abits szs) (Sbits szs)" by (rule buddy_invE)
  show ?thesis
    using terminal_disjoint [OF tree] liveD [OF tree] assms(2-4) unfolding lv by blast
qed

lemma live_block_in_arena:
  assumes "buddy_inv self" "(k, i) \<in> live_blocks self"
  shows "blk_bytes (base self) k i \<subseteq> {base self ..< base self + blk_size (max_size self)}"
proof -
  from assms(1) obtain szs where "live_blocks self = live (max_size self) (Abits szs) (Sbits szs)"
    by (rule buddy_invE)
  with assms have k: "k \<le> max_size self" and i: "i < 2 ^ (max_size self - k)"
    by (simp_all add: live_def)
  have "Suc i * blk_size k \<le> 2 ^ (max_size self - k) * blk_size k"
    using i by (intro mult_le_mono1) simp
  also have "\<dots> = blk_size (max_size self)" using k by (simp add: blk_size_def flip: power_add)
  finally show ?thesis by (auto simp: blk_bytes_def blk_addr_def)
qed

lemma blk_size_dvd: "j \<le> k \<Longrightarrow> 2 ^ j dvd blk_size k"
  by (simp add: blk_size_def le_imp_power_dvd)

text \<open>
  An allocated block is aligned as the layout asks, if the layout's size is a non-zero multiple of
  its alignment, as the comment in \<^verbatim>\<open>alloc\<close> assumes.
\<close>

lemma buddy_alloc_aligned:
  assumes inv: "buddy_inv self" and al: "lalign layout = 2 ^ a" "lalign layout \<le> MAX_ALIGN"
    and size: "lalign layout dvd lsize layout" "0 < lsize layout"
  shows "lalign layout dvd addr self (firstk (lsize layout)) j"
proof -
  let ?fk = "firstk (lsize layout)"
  from inv have "MAX_ALIGN dvd base self" by (rule buddy_invE)
  moreover have a12: "a \<le> 12"
  proof -
    have "(2::nat) ^ a \<le> 2 ^ 12" using al by (simp add: MAX_ALIGN_def)
    then show ?thesis by (rule power_le_imp_le_exp [rotated]) simp
  qed
  then have "lalign layout dvd MAX_ALIGN"
    using al le_imp_power_dvd [of a 12 "2::nat"] by (simp add: MAX_ALIGN_def)
  ultimately have "lalign layout dvd base self" by (rule dvd_trans [rotated])
  moreover have "2 ^ a \<le> blk_size ?fk"
    using firstk_spec(1) [of "lsize layout"] dvd_imp_le [OF size] al by simp
  then have "(2::nat) ^ a \<le> 2 ^ (?fk + 4)" by (simp add: blk_size_def LEAF_SIZE_def power_add)
  then have "a \<le> ?fk + 4" by (rule power_le_imp_le_exp [rotated]) simp
  then have "2 ^ a dvd (2::nat) ^ (?fk + 4)" by (rule le_imp_power_dvd)
  then have "lalign layout dvd blk_size ?fk"
    using al by (simp add: blk_size_def LEAF_SIZE_def power_add)
  ultimately show ?thesis by (simp add: addr_def)
qed

end
