(* ===== verification/Buddy_Reserve.thy ===== *)
theory Buddy_Reserve
  imports Buddy_Tree
begin

text \<open>
  The geometry of the allocator's initial state: a buddy tree in which the bytes below offset
  \<open>m\<close> (the allocator's own arrays) and from offset \<open>e\<close> on (the part of the
  power-of-two arena beyond the end of memory) are taken, and everything between is on the free
  lists. A block is reserved as soon as it touches one of the two ranges; \<open>seed m e k\<close> are the
  free blocks of class \<open>k\<close> that this leaves. \<open>reserve_tree\<close> shows that the result
  satisfies the tree invariant, and \<open>seed_total\<close> that the free blocks cover exactly the
  \<open>e - m\<close> bytes between the two ranges.
\<close>

text \<open>The first block at or after offset \<open>m\<close>, and the block that contains offset \<open>e\<close>.\<close>

definition lblk :: "nat \<Rightarrow> nat \<Rightarrow> nat" where
  "lblk m k = (m + blk_size k - 1) div blk_size k"

definition rblk :: "nat \<Rightarrow> nat \<Rightarrow> nat" where
  "rblk e k = e div blk_size k"

definition reserved :: "nat \<Rightarrow> nat \<Rightarrow> nat \<Rightarrow> nat \<Rightarrow> bool" where
  "reserved m e k i \<longleftrightarrow> i < lblk m k \<or> rblk e k \<le> i"

text \<open>The classes at which \<open>lblk\<close> and \<open>rblk\<close> are computed grow by halving.\<close>

lemma lblk_less_iff: "i < lblk m k \<longleftrightarrow> i * blk_size k < m"
proof -
  have "i < lblk m k \<longleftrightarrow> Suc i * blk_size k \<le> m + blk_size k - 1"
    by (simp only: lblk_def less_eq_div_iff_mult_less_eq [OF blk_size_pos] flip: Suc_le_eq)
  also have "\<dots> \<longleftrightarrow> i * blk_size k < m" using blk_size_pos [of k] by (cases "blk_size k") auto
  finally show ?thesis .
qed

lemma rblk_le_iff: "rblk e k \<le> i \<longleftrightarrow> e < Suc i * blk_size k"
  by (simp only: rblk_def div_less_iff_less_mult [OF blk_size_pos] flip: less_Suc_eq_le)

lemma reserved_bytes: "reserved m e k i \<longleftrightarrow> i * blk_size k < m \<or> e < Suc i * blk_size k"
  by (simp only: reserved_def lblk_less_iff rblk_le_iff)

lemma lblk_Suc: "lblk m (Suc k) = (lblk m k + 1) div 2"
proof -
  have "i < lblk m (Suc k) \<longleftrightarrow> i < (lblk m k + 1) div 2" for i
  proof -
    have "i < lblk m (Suc k) \<longleftrightarrow> 2 * i < lblk m k"
      by (simp add: lblk_less_iff blk_size_Suc algebra_simps)
    then show ?thesis by linarith
  qed
  then show ?thesis by (meson linorder_neqE_nat nat_less_le)
qed

lemma rblk_Suc: "rblk e (Suc k) = rblk e k div 2"
  by (simp add: rblk_def blk_size_Suc div_mult2_eq mult.commute)

lemma reserved_parent: "reserved m e (Suc k) (i div 2) \<longleftrightarrow> reserved m e k i \<or> reserved m e k (buddy_of i)"
  by (auto simp: reserved_def lblk_Suc rblk_Suc buddy_of_def elim!: evenE oddE)

text \<open>The blocks put on the free list of class \<open>k\<close>.\<close>

definition seed :: "nat \<Rightarrow> nat \<Rightarrow> nat \<Rightarrow> nat list" where
  "seed m e k =
     (if lblk m k < rblk e k
      then (if odd (rblk e k) then [rblk e k - 1] else []) @ (if odd (lblk m k) then [lblk m k] else [])
      else [])"

text \<open>The range is non-trivial, leaves the arena's first quarter to the arrays and fills its first half.\<close>

definition proper_range :: "nat \<Rightarrow> nat \<Rightarrow> nat \<Rightarrow> bool" where
  "proper_range M m e \<longleftrightarrow> 0 < m \<and> LEAF_SIZE dvd m \<and> LEAF_SIZE dvd e \<and>
     4 * m \<le> blk_size M \<and> blk_size M < 2 * e \<and> e \<le> blk_size M"

lemma blk_size_split: "k \<le> M \<Longrightarrow> blk_size M = 2 ^ (M - k) * blk_size k"
  by (simp add: blk_size_def flip: power_add)

lemma proper_rangeD:
  assumes "proper_range M m e" "k \<le> M"
  shows "0 < lblk m k" "4 * lblk m k < 2 ^ (M - k) + 4" "2 ^ (M - k) < 2 * rblk e k + 2" "rblk e k \<le> 2 ^ (M - k)"
proof -
  let ?b = "blk_size k" and ?N = "2 ^ (M - k) :: nat"
  have T: "blk_size M = ?N * ?b" using assms(2) by (rule blk_size_split)
  show "0 < lblk m k" using assms(1) lblk_less_iff [of 0 m k] by (simp add: proper_range_def)
  then have "(lblk m k - 1) * ?b < m" using lblk_less_iff [of "lblk m k - 1" m k] by simp
  then have "4 * ((lblk m k - 1) * ?b) < ?N * ?b" using assms(1) T unfolding proper_range_def by linarith
  then have "4 * (lblk m k - 1) * ?b < ?N * ?b" by (simp only: mult.assoc)
  then have "4 * (lblk m k - 1) < ?N" by (simp only: mult_less_cancel2)
  then show "4 * lblk m k < ?N + 4" by simp
  have "e < Suc (rblk e k) * ?b" using rblk_le_iff [of e k "rblk e k"] by simp
  then have "?N * ?b < (2 * rblk e k + 2) * ?b"
    using assms(1) T by (simp add: proper_range_def algebra_simps)
  then show "?N < 2 * rblk e k + 2" by (simp only: mult_less_cancel2)
  have "e < Suc ?N * ?b" using assms(1) T by (simp add: proper_range_def) (use blk_size_pos [of k] in linarith)
  then show "rblk e k \<le> ?N" by (simp only: rblk_le_iff)
qed

lemma proper_range_root:
  assumes "proper_range M m e"
  shows "rblk e M \<le> lblk m M" "seed m e M = []"
  using proper_rangeD [OF assms, of M] by (simp_all add: seed_def)

text \<open>Below the root the reserved ranges never leave a single even block, which both ends would free.\<close>

lemma proper_range_gap:
  assumes "proper_range M m e" "k < M" "even (lblk m k)"
  shows "rblk e k \<noteq> lblk m k + 1"
proof
  assume eq: "rblk e k = lblk m k + 1"
  note b = proper_rangeD [OF assms(1) less_imp_le [OF assms(2)]]
  have "2 \<le> lblk m k" using assms(2,3) b(1) by (auto elim!: evenE)
  with b(2) assms(2) have "4 < (2::nat) ^ (M - k)" by simp
  then have "2 < M - k" using power_less_imp_less_exp [of 2 2 "M - k"] by simp
  then obtain i where "M - k = i + 3" using le_Suc_ex [of 3 "M - k"] by (auto simp: add.commute)
  then have N: "2 ^ (M - k) = 8 * (2::nat) ^ i" by (simp add: power_add)
  have "(1::nat) \<le> 2 ^ i" by simp
  moreover have "lblk m k \<le> 2 * 2 ^ i" using b(2) unfolding N by simp
  moreover have "8 * 2 ^ i < 2 * lblk m k + 4" using b(3) eq unfolding N by simp
  ultimately show False by linarith
qed

lemma seed_set: "set (seed m e k) = {i. \<not> reserved m e k i \<and> reserved m e k (buddy_of i)}"
proof -
  have "\<not> reserved m e k i \<and> reserved m e k (buddy_of i) \<longleftrightarrow> i \<in> set (seed m e k)" for i
  proof (cases "even i")
    case True
    then obtain c where "i = 2 * c" by (rule evenE)
    then show ?thesis by (auto simp: reserved_def seed_def buddy_of_def elim!: evenE oddE) presburger+
  next
    case False
    then obtain c where "i = 2 * c + 1" by (rule oddE)
    then show ?thesis by (auto simp: reserved_def seed_def buddy_of_def elim!: evenE oddE) presburger+
  qed
  then show ?thesis by blast
qed

lemma seed_distinct: "distinct (seed m e k)"
  by (auto simp: seed_def elim!: oddE)

text \<open>The bits after marking: nothing outside the arena, and no split bit for a leaf.\<close>

definition reserve_bits :: "nat \<Rightarrow> nat \<Rightarrow> nat \<Rightarrow> bits" where
  "reserve_bits M m e k i \<longleftrightarrow> k \<le> M \<and> i < 2 ^ (M - k) \<and> reserved m e k i"

lemma reserve_tree:
  assumes rng: "proper_range M m e"
    and A: "A = reserve_bits M m e" and S: "S = (\<lambda>k i. 0 < k \<and> reserve_bits M m e k i)"
    and F: "\<And>k. k \<le> M \<Longrightarrow> F k = map (blk_addr base k) (seed m e k)"
  shows "buddy_tree M base A S F"
proof (rule buddy_treeI)
  have ex: "exists_blk M S k i \<longleftrightarrow> k \<le> M \<and> i < 2 ^ (M - k) \<and>
      (k = M \<or> reserved m e k i \<or> reserved m e k (buddy_of i))" for k i
    using parent_bound [of k M i] by (auto simp: exists_blk_def S reserve_bits_def reserved_parent)
  show "exists_blk M S k i" if "k \<le> M" "i < 2 ^ (M - k)" "A k i" for k i
    using that by (simp add: ex A reserve_bits_def)
  show "A k i \<or> A k (buddy_of i)" if "k < M" "exists_blk M S k i" for k i
    using that buddy_of_bound by (auto simp: ex A reserve_bits_def)
  show "distinct (F k)" if "k \<le> M" for k
    using that by (simp add: F distinct_map seed_distinct inj_on_def)
  show "set (F k) = blk_addr base k ` free_blocks M A S k" if "k \<le> M" for k
  proof (cases "k = M")
    case True
    have "reserved m e M 0" using proper_rangeD(1) [OF rng, of M] by (simp add: reserved_def)
    then show ?thesis using proper_range_root [OF rng] True
      by (auto simp: F free_blocks_def ex A reserve_bits_def)
  next
    case False
    with that have k: "k < M" by simp
    have "i < 2 ^ (M - k)" if "\<not> reserved m e k i" for i
      using that proper_rangeD(4) [OF rng, of k] k by (simp add: reserved_def)
    then have "free_blocks M A S k = set (seed m e k)"
      using k buddy_of_bound [OF k] by (auto simp: seed_set free_blocks_def ex A reserve_bits_def)
    then show ?thesis using k by (simp add: F)
  qed
qed (auto simp: S A reserve_bits_def)

lemma reserve_live:
  "live M (reserve_bits M m e) (\<lambda>k i. 0 < k \<and> reserve_bits M m e k i) =
     {(k, i). k = 0 \<and> i < 2 ^ M \<and> reserved m e 0 i}"
  by (auto simp: live_def reserve_bits_def)

text \<open>The free blocks of the classes below \<open>k\<close> and the unreserved blocks of class \<open>k\<close> cover the range.\<close>

lemma seed_telescope:
  assumes "proper_range M m e" "k \<le> M"
  shows "(\<Sum>j < k. length (seed m e j) * blk_size j) + (rblk e k - lblk m k) * blk_size k = e - m"
  using assms(2)
proof (induction k)
  case 0
  from assms(1) obtain a b where "m = LEAF_SIZE * a" "e = LEAF_SIZE * b"
    by (auto simp: proper_range_def elim!: dvdE)
  moreover have "blk_size 0 = LEAF_SIZE" by (simp add: blk_size_def)
  moreover have "lblk (LEAF_SIZE * a) 0 = a"
    using lblk_less_iff [of _ "LEAF_SIZE * a" 0] \<open>blk_size 0 = LEAF_SIZE\<close>
    by (metis LEAF_SIZE_def linorder_neqE_nat mult.commute nat_less_le nat_mult_less_cancel1 zero_less_numeral)
  ultimately show ?case by (simp add: rblk_def LEAF_SIZE_def flip: diff_mult_distrib2)
next
  case (Suc k)
  have "rblk e k - lblk m k = length (seed m e k) + 2 * (rblk e (Suc k) - lblk m (Suc k))"
    by (auto simp: seed_def lblk_Suc rblk_Suc elim!: evenE oddE)
  then have "(rblk e k - lblk m k) * blk_size k =
      length (seed m e k) * blk_size k + (rblk e (Suc k) - lblk m (Suc k)) * blk_size (Suc k)"
    by (simp add: blk_size_Suc algebra_simps)
  with Suc show ?case by simp
qed

lemma seed_total:
  assumes "proper_range M m e"
  shows "(\<Sum>j < M. length (seed m e j) * blk_size j) = e - m"
  using seed_telescope [OF assms, of M] proper_range_root(1) [OF assms] by simp

end
