(* ===== verification/Buddy_Init.thy ===== *)
theory Buddy_Init
  imports Buddy Buddy_Reserve
begin

text \<open>
  Initialisation of the buddy allocator (\<^verbatim>\<open>init\<close> of
  \<^verbatim>\<open>crates/kernel/src/buddy.rs\<close> and the functions it calls). The allocator places its
  own arrays at the start of the arena, marks them and the part of the power-of-two arena that lies
  beyond the end of memory as allocated, and puts the remaining memory on the free lists.

  The main lemma \<open>buddy_init_correct\<close> says that on any range with at least one page this
  succeeds (the self-check on the number of free bytes included) and establishes
  \<open>buddy_inv\<close>, with exactly the leaves of the two reserved ranges live.
  \<open>Heap\<close> builds the reachable states of the allocator under its clients on it.
\<close>

section \<open>The source's operations\<close>

text \<open>Called with \<open>n > 0\<close> only, where the source's \<open>n - 1\<close> does not underflow.\<close>

definition round_up :: "nat \<Rightarrow> nat \<Rightarrow> nat" where
  "round_up n sz = (((n - 1) div sz) + 1) * sz"

definition round_down :: "nat \<Rightarrow> nat \<Rightarrow> nat" where
  "round_down n sz = (n div sz) * sz"

fun log2_loop :: "nat \<Rightarrow> nat \<Rightarrow> nat" where
  "log2_loop k n = (if 1 < n then log2_loop (k + 1) (n div 2) else k)"

declare log2_loop.simps [simp del]

definition log2 :: "nat \<Rightarrow> nat" where
  "log2 n = log2_loop 0 n"

definition blk_index_next :: "buddy_allocator \<Rightarrow> nat \<Rightarrow> nat \<Rightarrow> nat" where
  "blk_index_next self k p =
     (let n = (p - base self) div blk_size k
      in if (p - base self) mod blk_size k = 0 then n else n + 1)"

text \<open>The loop over \<open>bi ..< bj\<close> at one size class; \<open>n\<close> iterations remain.\<close>

fun mark_range :: "nat \<Rightarrow> nat \<Rightarrow> nat \<Rightarrow> szinfo \<Rightarrow> szinfo bresult" where
  "mark_range k 0 bi s = Ok s"
| "mark_range k (Suc n) bi s =
     obind (if 0 < k then obind (bit_set (split s) bi True) (\<lambda>a. Ok (s\<lparr>split := a\<rparr>)) else Ok s) (\<lambda>s1.
     obind (bit_set (alloc s1) bi True) (\<lambda>a.
     mark_range k n (bi + 1) (s1\<lparr>alloc := a\<rparr>)))"

fun mark_levels :: "buddy_allocator \<Rightarrow> nat \<Rightarrow> nat \<Rightarrow> nat \<Rightarrow> szinfo list \<Rightarrow> szinfo list bresult" where
  "mark_levels self start stop k [] = Ok []"
| "mark_levels self start stop k (s # ss) =
     (let bi = blk_index self k start; bj = blk_index_next self k stop in
      obind (mark_range k (bj - bi) bi s) (\<lambda>s'.
      obind (mark_levels self start stop (k + 1) ss) (\<lambda>ss'. Ok (s' # ss'))))"

definition mark :: "buddy_allocator \<Rightarrow> nat \<Rightarrow> nat \<Rightarrow> buddy_allocator bresult" where
  "mark self start stop =
     assert_then (start mod LEAF_SIZE = 0) (assert_then (stop mod LEAF_SIZE = 0)
       (case sizes self of
          None \<Rightarrow> Panic
        | Some szs \<Rightarrow>
            obind (mark_levels self start stop 0 szs) (\<lambda>szs'. Ok (self\<lparr>sizes := Some szs'\<rparr>))))"

definition initfree_pair :: "buddy_allocator \<Rightarrow> nat \<Rightarrow> nat \<Rightarrow> (nat \<times> buddy_allocator) bresult" where
  "initfree_pair self k bi =
     (let buddy = (if even bi then bi + 1 else bi - 1) in
      case sizes self of
        None \<Rightarrow> Ok (0, self)
      | Some szs \<Rightarrow>
          (if length szs \<le> k then Panic
           else if bit_isset (alloc (szs ! k)) bi \<noteq> bit_isset (alloc (szs ! k)) buddy then
             obind (free_push szs k (if bit_isset (alloc (szs ! k)) bi then addr self k buddy else addr self k bi))
               (\<lambda>szs'. Ok (blk_size k, self\<lparr>sizes := Some szs'\<rparr>))
           else Ok (0, self)))"

text \<open>The loop of \<^verbatim>\<open>initfree\<close> over \<open>k .. < k + n\<close>.\<close>

fun initfree_loop ::
  "nat \<Rightarrow> nat \<Rightarrow> nat \<Rightarrow> nat \<Rightarrow> nat \<Rightarrow> buddy_allocator \<Rightarrow> (nat \<times> buddy_allocator) bresult" where
  "initfree_loop bd_left bd_right 0 k acc self = Ok (acc, self)"
| "initfree_loop bd_left bd_right (Suc n) k acc self =
     (let left = blk_index_next self k bd_left; right = blk_index self k bd_right in
      obind (initfree_pair self k left) (\<lambda>(f1, self1).
      obind (if left < right then initfree_pair self1 k right else Ok (0, self1)) (\<lambda>(f2, self2).
      initfree_loop bd_left bd_right n (k + 1) (acc + f1 + f2) self2)))"

definition initfree :: "buddy_allocator \<Rightarrow> nat \<Rightarrow> (nat \<times> buddy_allocator) bresult" where
  "initfree self bd_left = initfree_loop bd_left (end_addr self) (max_size self) 0 0 self"

definition mark_data_structures :: "buddy_allocator \<Rightarrow> nat \<Rightarrow> (nat \<times> buddy_allocator) bresult" where
  "mark_data_structures self p = obind (mark self (base self) p) (\<lambda>self'. Ok (p - base self, self'))"

definition mark_unavailable :: "buddy_allocator \<Rightarrow> (nat \<times> buddy_allocator) bresult" where
  "mark_unavailable self =
     (let unavailable = blk_size (max_size self) - (end_addr self - base self);
          unavailable' = (if 0 < unavailable then round_up unavailable LEAF_SIZE else unavailable)
      in obind (mark self (end_addr self) (base self + blk_size (max_size self)))
           (\<lambda>self'. Ok (unavailable', self')))"

text \<open>
  Carving an array of \<open>len\<close> elements of \<open>sz\<close> bytes at \<open>p\<close>: a null pointer panics,
  the result is the address after the array. The array itself is zero-filled.
\<close>

definition init_nonnull_slice :: "nat \<Rightarrow> nat \<Rightarrow> nat \<Rightarrow> nat bresult" where
  "init_nonnull_slice p sz len = (if p = 0 then Panic else Ok (p + sz * len))"

text \<open>
  \<^verbatim>\<open>size_of::<SzInfo>()\<close> on a 64-bit target: a list node of two pointers and two fat
  pointers.
\<close>

definition SZINFO_SIZE :: nat where
  "SZINFO_SIZE = 48"

fun alloc_arrays :: "buddy_allocator \<Rightarrow> nat \<Rightarrow> nat \<Rightarrow> szinfo list \<Rightarrow> (nat \<times> szinfo list) bresult" where
  "alloc_arrays self k p [] = Ok (p, [])"
| "alloc_arrays self k p (s # ss) =
     (let sz = round_up (nblk self k) 8 div 8 in
      obind (init_nonnull_slice p 1 sz) (\<lambda>p1.
      obind (alloc_arrays self (k + 1) p1 ss) (\<lambda>(p2, ss').
      Ok (p2, s\<lparr>free := [], alloc := Some (replicate sz 0)\<rparr> # ss'))))"

fun split_arrays :: "buddy_allocator \<Rightarrow> nat \<Rightarrow> nat \<Rightarrow> szinfo list \<Rightarrow> (nat \<times> szinfo list) bresult" where
  "split_arrays self k p [] = Ok (p, [])"
| "split_arrays self k p (s # ss) =
     (let sz = round_up (nblk self k) 8 div 8 in
      obind (init_nonnull_slice p 1 sz) (\<lambda>p1.
      obind (split_arrays self (k + 1) p1 ss) (\<lambda>(p2, ss').
      Ok (p2, s\<lparr>split := Some (replicate sz 0)\<rparr> # ss'))))"

definition init_nsize :: "nat \<Rightarrow> nat" where
  "init_nsize len =
     (let n = log2 (len div LEAF_SIZE) + 1 in if blk_size (n - 1) < len then n + 1 else n)"

text \<open>The subtraction \<open>end - p\<close> underflows when the range has no whole page.\<close>

definition buddy_init :: "buddy_allocator \<Rightarrow> nat \<Rightarrow> nat \<Rightarrow> buddy_allocator bresult" where
  "buddy_init self b e =
     (if initialized self then Err ''allocator init called twice''
      else let p = round_up b (max LEAF_SIZE MAX_ALIGN);
               e' = round_down e (max LEAF_SIZE MAX_ALIGN) in
        if e' < p then Panic
        else let self1 = self\<lparr>base := p, end_addr := e', nsize := init_nsize (e' - p)\<rparr> in
          obind (init_nonnull_slice p SZINFO_SIZE (nsize self1)) (\<lambda>p1.
          let szs0 = replicate (nsize self1) \<lparr>free = [], alloc = None, split = None\<rparr> in
          obind (alloc_arrays self1 0 p1 szs0) (\<lambda>(p2, szs1).
          obind (split_arrays self1 1 p2 (tl szs1)) (\<lambda>(p3, szs2).
          let p4 = round_up p3 LEAF_SIZE;
              self2 = self1\<lparr>sizes := Some (take 1 szs1 @ szs2)\<rparr> in
          obind (mark_data_structures self2 p4) (\<lambda>(meta, self3).
          obind (mark_unavailable self3) (\<lambda>(unavailable, self4).
          let self5 = self4\<lparr>end_addr := base self4 + blk_size (max_size self4) - unavailable\<rparr> in
          obind (initfree self5 p4) (\<lambda>(fr, self6).
          if fr \<noteq> blk_size (max_size self6) - meta - unavailable
          then Err ''allocator bug: free != total - meta - unavailable''
          else Ok (self6\<lparr>initialized := True\<rparr>))))))))"

section \<open>Arithmetic\<close>

lemma round_up_bounds:
  assumes "0 < n" "0 < sz"
  shows "n \<le> round_up n sz" "round_up n sz < n + sz" "sz dvd round_up n sz"
proof -
  define q where "q = (n - 1) div sz * sz"
  have "q + (n - 1) mod sz = n - 1" "(n - 1) mod sz < sz" using assms by (simp_all add: q_def)
  moreover have "round_up n sz = q + sz" by (simp add: round_up_def q_def)
  ultimately show "n \<le> round_up n sz" "round_up n sz < n + sz" using assms by linarith+
  show "sz dvd round_up n sz" by (simp add: round_up_def)
qed

lemma round_up_multiple: "0 < n \<Longrightarrow> 0 < sz \<Longrightarrow> sz dvd n \<Longrightarrow> round_up n sz = n"
proof -
  assume n: "0 < n" "0 < sz" "sz dvd n"
  note b = round_up_bounds [OF n(1,2)]
  have "sz dvd round_up n sz - n" using b(3) n(3) by (rule dvd_diff_nat)
  moreover have "round_up n sz - n < sz" using b(1,2) by simp
  ultimately have "round_up n sz - n = 0" using nat_dvd_not_less by blast
  with b(1) show ?thesis by simp
qed

lemma log2_loop_spec:
  "0 < n \<Longrightarrow> \<exists>d. log2_loop k n = k + d \<and> 2 ^ d \<le> n \<and> n < 2 * 2 ^ d"
proof (induction k n rule: log2_loop.induct)
  case (1 k n)
  show ?case
  proof (cases "1 < n")
    case True
    with 1 obtain d where d: "log2_loop (k + 1) (n div 2) = k + 1 + d" "2 ^ d \<le> n div 2" "n div 2 < 2 * 2 ^ d"
      by auto
    moreover have "2 * 2 ^ d \<le> n" "n < 4 * 2 ^ d" using d(2,3) by linarith+
    ultimately show ?thesis using True
      by (intro exI [of _ "Suc d"]) (simp add: log2_loop.simps [of k n])
  next
    case False
    with "1.prems" show ?thesis by (intro exI [of _ 0]) (simp add: log2_loop.simps [of k n])
  qed
qed

text \<open>The arena is the smallest power-of-two number of leaves that covers the range.\<close>

lemma init_nsize_spec:
  assumes "LEAF_SIZE dvd len" "0 < len"
  shows "0 < init_nsize len" "len \<le> blk_size (init_nsize len - 1)" "blk_size (init_nsize len - 1) < 2 * len"
proof -
  obtain c where c: "len = LEAF_SIZE * c" "0 < c" using assms by (auto elim!: dvdE simp: LEAF_SIZE_def)
  obtain d where d: "log2 c = d" "2 ^ d \<le> c" "c < 2 * 2 ^ d"
    using log2_loop_spec [of c 0] c(2) by (auto simp: log2_def)
  have "len div LEAF_SIZE = c" using c by (simp add: LEAF_SIZE_def)
  then have n: "init_nsize len = (if 2 ^ d < c then d + 2 else d + 1)"
    using c d(1) by (simp add: init_nsize_def Let_def blk_size_def LEAF_SIZE_def mult.commute)
  then show "0 < init_nsize len" by simp
  show "len \<le> blk_size (init_nsize len - 1)" "blk_size (init_nsize len - 1) < 2 * len"
    using n d c by (auto simp: blk_size_def LEAF_SIZE_def)
qed

section \<open>Marking\<close>

definition marked :: "nat \<Rightarrow> nat \<Rightarrow> nat \<Rightarrow> szinfo \<Rightarrow> szinfo \<Rightarrow> nat \<Rightarrow> bool" where
  "marked k bi bj s s' N \<longleftrightarrow> free s' = free s \<and>
     holds_bits (alloc s') N \<and> (\<forall>j. bit_isset (alloc s') j \<longleftrightarrow> bit_isset (alloc s) j \<or> bi \<le> j \<and> j < bj) \<and>
     (if k = 0 then split s' = split s
      else holds_bits (split s') N \<and>
        (\<forall>j. bit_isset (split s') j \<longleftrightarrow> bit_isset (split s) j \<or> bi \<le> j \<and> j < bj))"

lemma mark_range_correct:
  assumes "holds_bits (alloc s) N" "0 < k \<Longrightarrow> holds_bits (split s) N" "bi + n \<le> N"
  shows "\<exists>s'. mark_range k n bi s = Ok s' \<and> marked k bi (bi + n) s s' N"
  using assms
proof (induction n arbitrary: bi s)
  case 0
  then show ?case by (auto simp: marked_def)
next
  case (Suc n)
  then have bi: "bi < N" by simp
  obtain s1 where s1: "(if 0 < k then obind (bit_set (split s) bi True) (\<lambda>a. Ok (s\<lparr>split := a\<rparr>)) else Ok s) = Ok s1"
    "free s1 = free s" "alloc s1 = alloc s" "k = 0 \<longrightarrow> split s1 = split s"
    "0 < k \<longrightarrow> holds_bits (split s1) N \<and> (\<forall>j. bit_isset (split s1) j = (if j = bi then True else bit_isset (split s) j))"
  proof (cases "0 < k")
    case True
    with holds_bits_bit_set [OF Suc.prems(2) bi, of True] that show thesis by auto
  qed (use that in simp)
  obtain a where a: "bit_set (alloc s1) bi True = Ok a" "holds_bits a N"
    "\<And>j. bit_isset a j = (if j = bi then True else bit_isset (alloc s1) j)"
    using holds_bits_bit_set [OF _ bi, of "alloc s1" True] Suc.prems(1) s1(3) by auto
  obtain s' where s': "mark_range k n (bi + 1) (s1\<lparr>alloc := a\<rparr>) = Ok s'"
    "marked k (bi + 1) (bi + 1 + n) (s1\<lparr>alloc := a\<rparr>) s' N"
    using Suc.IH [of "s1\<lparr>alloc := a\<rparr>" "bi + 1"] a(2) s1(5) Suc.prems(3) by auto
  have "mark_range k (Suc n) bi s = Ok s'" using s1(1) a(1) s'(1) by simp
  moreover have "marked k bi (bi + Suc n) s s' N"
    using s'(2) s1 a by (auto simp: marked_def)
  ultimately show ?case by blast
qed

lemma mark_levels_correct:
  assumes "\<And>n. n < length ss \<Longrightarrow> holds_bits (alloc (ss ! n)) (N (k + n))"
    and "\<And>n. n < length ss \<Longrightarrow> 0 < k + n \<Longrightarrow> holds_bits (split (ss ! n)) (N (k + n))"
    and "\<And>n. n < length ss \<Longrightarrow> blk_index_next self (k + n) stop \<le> N (k + n)"
    and "\<And>n. n < length ss \<Longrightarrow> blk_index self (k + n) start \<le> N (k + n)"
  shows "\<exists>ss'. mark_levels self start stop k ss = Ok ss' \<and> length ss' = length ss \<and>
    (\<forall>n < length ss. marked (k + n) (blk_index self (k + n) start) (blk_index_next self (k + n) stop)
       (ss ! n) (ss' ! n) (N (k + n)))"
  using assms
proof (induction ss arbitrary: k)
  case Nil
  then show ?case by simp
next
  case (Cons s ss)
  let ?bi = "blk_index self k start" and ?bj = "blk_index_next self k stop"
  have 0: "holds_bits (alloc s) (N k)" "0 < k \<Longrightarrow> holds_bits (split s) (N k)" "?bj \<le> N k" "?bi \<le> N k"
    using Cons.prems [of 0] by simp_all
  have "\<exists>s'. mark_range k (?bj - ?bi) ?bi s = Ok s' \<and> marked k ?bi (?bi + (?bj - ?bi)) s s' (N k)"
    using 0(3,4) by (intro mark_range_correct [OF 0(1,2)]) simp_all
  then obtain s' where s': "mark_range k (?bj - ?bi) ?bi s = Ok s'" "marked k ?bi (?bi + (?bj - ?bi)) s s' (N k)"
    by blast
  have "?bi \<le> j \<and> j < ?bi + (?bj - ?bi) \<longleftrightarrow> ?bi \<le> j \<and> j < ?bj" for j by linarith
  with s'(2) have ms: "marked k ?bi ?bj s s' (N k)" unfolding marked_def by presburger
  have "\<exists>ss'. mark_levels self start stop (Suc k) ss = Ok ss' \<and> length ss' = length ss \<and>
    (\<forall>n < length ss. marked (Suc k + n) (blk_index self (Suc k + n) start) (blk_index_next self (Suc k + n) stop)
       (ss ! n) (ss' ! n) (N (Suc k + n)))"
    using Cons.prems [of "Suc _"] by (intro Cons.IH) auto
  then obtain ss' where ss': "mark_levels self start stop (Suc k) ss = Ok ss'" "length ss' = length ss"
    "\<And>n. n < length ss \<Longrightarrow> marked (Suc k + n) (blk_index self (Suc k + n) start)
       (blk_index_next self (Suc k + n) stop) (ss ! n) (ss' ! n) (N (Suc k + n))" by blast
  have "marked (k + n) (blk_index self (k + n) start) (blk_index_next self (k + n) stop)
      ((s # ss) ! n) ((s' # ss') ! n) (N (k + n))" if "n < length (s # ss)" for n
    using that ms ss'(3) [of "n - 1"] by (cases n) simp_all
  then show ?case using s'(1) ss'(1,2) by (intro exI [of _ "s' # ss'"]) (simp add: Let_def)
qed

text \<open>The range \<open>[start, stop)\<close> of the arena becomes marked at every size class.\<close>

lemma mark_correct:
  assumes szs: "sizes self = Some szs" "sizes_shape M szs"
    and al: "start mod LEAF_SIZE = 0" "stop mod LEAF_SIZE = 0"
    and bnd: "\<And>k. k \<le> M \<Longrightarrow> blk_index_next self k stop \<le> 2 ^ (M - k)"
      "\<And>k. k \<le> M \<Longrightarrow> blk_index self k start \<le> 2 ^ (M - k)"
  shows "\<exists>szs'. mark self start stop = Ok (self\<lparr>sizes := Some szs'\<rparr>) \<and> sizes_shape M szs' \<and>
    Flists szs' = Flists szs \<and>
    (\<forall>k i. Abits szs' k i \<longleftrightarrow> Abits szs k i \<or> k \<le> M \<and> blk_index self k start \<le> i \<and> i < blk_index_next self k stop) \<and>
    (\<forall>k i. Sbits szs' k i \<longleftrightarrow> Sbits szs k i \<or>
       0 < k \<and> k \<le> M \<and> blk_index self k start \<le> i \<and> i < blk_index_next self k stop)"
proof -
  have len: "length szs = Suc M" using szs by (simp add: sizes_shape_def)
  have "\<exists>ss'. mark_levels self start stop 0 szs = Ok ss' \<and> length ss' = length szs \<and>
    (\<forall>n < length szs. marked (0 + n) (blk_index self (0 + n) start) (blk_index_next self (0 + n) stop)
       (szs ! n) (ss' ! n) (2 ^ (M - (0 + n))))"
    using szs(2) bnd by (intro mark_levels_correct) (auto simp: sizes_shape_def)
  then obtain szs' where m: "mark_levels self start stop 0 szs = Ok szs'" "length szs' = length szs"
    "\<And>k. k \<le> M \<Longrightarrow> marked k (blk_index self k start) (blk_index_next self k stop) (szs ! k) (szs' ! k) (2 ^ (M - k))"
    using len by auto
  have "mark self start stop = Ok (self\<lparr>sizes := Some szs'\<rparr>)" using szs al m by (simp add: mark_def)
  moreover have "sizes_shape M szs'"
    using szs(2) m(2,3) len m(3) [of 0] unfolding sizes_shape_def marked_def by auto
  moreover have "Flists szs' = Flists szs"
    using m(2,3) len by (auto simp: Flists_def marked_def fun_eq_iff)
  moreover have "Abits szs' k i \<longleftrightarrow> Abits szs k i \<or> k \<le> M \<and> blk_index self k start \<le> i \<and> i < blk_index_next self k stop" for k i
    using m(2) m(3) [of k] len by (auto simp: Abits_def marked_def)
  moreover have "Sbits szs' k i \<longleftrightarrow> Sbits szs k i \<or>
       0 < k \<and> k \<le> M \<and> blk_index self k start \<le> i \<and> i < blk_index_next self k stop" for k i
    using m(2) m(3) [of k] len by (cases "k = 0") (auto simp: Sbits_def marked_def)
  ultimately show ?thesis by blast
qed

lemma blk_index_rblk: "blk_index self k p = rblk (p - base self) k"
  by (simp add: blk_index_def rblk_def)

lemma blk_index_next_lblk: "blk_index_next self k p = lblk (p - base self) k"
proof -
  let ?d = "p - base self" and ?b = "blk_size k"
  have "i < blk_index_next self k p \<longleftrightarrow> i * ?b < ?d" for i
  proof -
    have "i < ?d div ?b \<longleftrightarrow> Suc i * ?b \<le> ?d"
      by (simp only: less_eq_div_iff_mult_less_eq [OF blk_size_pos] flip: Suc_le_eq)
    moreover have "i < ?d div ?b + 1 \<longleftrightarrow> i * ?b \<le> ?d"
      by (simp only: less_eq_div_iff_mult_less_eq [OF blk_size_pos] Suc_eq_plus1 [symmetric] less_Suc_eq_le)
    moreover have "i * ?b \<noteq> ?d" if "?d mod ?b \<noteq> 0" using that by (metis mod_mult_self2_is_0)
    moreover have "Suc i * ?b \<le> ?d \<longleftrightarrow> i * ?b < ?d" if "?d mod ?b = 0"
    proof -
      from that obtain c where "?d = ?b * c" by (metis mod_0_imp_dvd dvdE)
      moreover have "Suc i * ?b \<le> ?b * c \<longleftrightarrow> Suc i \<le> c" "i * ?b < ?b * c \<longleftrightarrow> i < c"
        by (simp_all only: mult.commute [of _ ?b] mult_le_cancel1 mult_less_cancel1) simp_all
      ultimately show ?thesis by (simp only: Suc_le_eq)
    qed
    ultimately show ?thesis by (simp add: blk_index_next_def Let_def le_less)
  qed
  then have "i < blk_index_next self k p \<longleftrightarrow> i < lblk ?d k" for i by (simp add: lblk_less_iff)
  then show ?thesis by (meson linorder_neqE_nat nat_less_le)
qed

section \<open>The free lists\<close>

text \<open>What one call of \<^verbatim>\<open>initfree_pair\<close> pushes, from the allocation bits of the pair.\<close>

definition pair_free :: "bits \<Rightarrow> nat \<Rightarrow> nat \<Rightarrow> nat list" where
  "pair_free A k bi =
     (if A k bi \<noteq> A k (buddy_of bi) then [if A k bi then buddy_of bi else bi] else [])"

lemma initfree_pair_correct:
  assumes szs: "sizes self = Some szs" "sizes_shape M szs" and k: "k \<le> M"
  shows "\<exists>szs'. initfree_pair self k bi =
      Ok (length (pair_free (Abits szs) k bi) * blk_size k, self\<lparr>sizes := Some szs'\<rparr>) \<and>
    sizes_shape M szs' \<and> Abits szs' = Abits szs \<and> Sbits szs' = Sbits szs \<and>
    Flists szs' = (Flists szs)(k := map (blk_addr (base self) k) (pair_free (Abits szs) k bi) @ Flists szs k)"
proof -
  have len: "length szs = Suc M" using szs(2) by (simp add: sizes_shape_def)
  have A: "Abits szs k j \<longleftrightarrow> bit_isset (alloc (szs ! k)) j" for j using len k by (simp add: Abits_def)
  let ?x = "if Abits szs k bi then buddy_of bi else bi"
  show ?thesis
  proof (cases "Abits szs k bi = Abits szs k (buddy_of bi)")
    case True
    then have "initfree_pair self k bi = Ok (0, self\<lparr>sizes := Some szs\<rparr>)"
      using szs(1) len k by (simp add: initfree_pair_def Let_def A flip: buddy_of_def)
    with True show ?thesis using szs(2) by (intro exI [of _ szs]) (simp add: pair_free_def)
  next
    case False
    from free_push_effect [OF szs(2) k, of "addr self k ?x"] obtain szs' where
      s: "free_push szs k (addr self k ?x) = Ok szs'" "sizes_shape M szs'" "Abits szs' = Abits szs"
        "Sbits szs' = Sbits szs" "Flists szs' = (Flists szs)(k := addr self k ?x # Flists szs k)" by blast
    have "initfree_pair self k bi =
        obind (free_push szs k (addr self k ?x)) (\<lambda>szs'. Ok (blk_size k, self\<lparr>sizes := Some szs'\<rparr>))"
      using szs(1) len k False by (simp add: initfree_pair_def Let_def A if_distrib flip: buddy_of_def)
    with s False show ?thesis by (intro exI [of _ szs']) (simp add: pair_free_def addr_blk_addr)
  qed
qed

lemma pair_free_seed:
  assumes rng: "proper_range M m e" and k: "k < M"
  defines "A \<equiv> reserve_bits M m e"
  shows "(if lblk m k < rblk e k then pair_free A k (rblk e k) else []) @ pair_free A k (lblk m k) = seed m e k"
proof -
  note b = proper_rangeD [OF rng less_imp_le [OF k]]
  obtain c where c: "2 ^ (M - k) = 2 * (c::nat)" "0 < c"
    using k by (metis Suc_diff_Suc power_Suc zero_less_numeral zero_less_power)
  have l: "lblk m k < 2 * c" using b(2) c by linarith
  have r: "rblk e k \<le> 2 * c" using b(4) c by simp
  have A: "A k i \<longleftrightarrow> i < 2 * c \<and> (i < lblk m k \<or> rblk e k \<le> i)" for i
    using k c by (simp add: A_def reserve_bits_def reserved_def)
  have "pair_free A k (rblk e k) = (if odd (rblk e k) then [rblk e k - 1] else [])" if "lblk m k < rblk e k"
    using that r
    by ((cases "even (rblk e k)"; auto simp: pair_free_def buddy_of_def A elim!: evenE oddE), presburger)
  moreover have "pair_free A k (lblk m k) = (if lblk m k < rblk e k \<and> odd (lblk m k) then [lblk m k] else [])"
    using l b(1) proper_range_gap [OF rng k]
    by (cases "even (lblk m k)") (auto simp: pair_free_def buddy_of_def A elim!: evenE oddE)
  ultimately show ?thesis by (simp add: seed_def)
qed

text \<open>The loop over the size classes fills every class below the root.\<close>

lemma initfree_loop_correct:
  assumes "sizes self = Some szs" "sizes_shape M szs" "Abits szs = reserve_bits M m e"
    and rng: "proper_range M m e" and "k + n \<le> M" "bd_left - base self = m" "bd_right - base self = e"
    and "\<And>j. k \<le> j \<Longrightarrow> Flists szs j = []"
  shows "\<exists>szs'. initfree_loop bd_left bd_right n k acc self =
      Ok (acc + (\<Sum>j = k..<k + n. length (seed m e j) * blk_size j), self\<lparr>sizes := Some szs'\<rparr>) \<and>
    sizes_shape M szs' \<and> Abits szs' = Abits szs \<and> Sbits szs' = Sbits szs \<and>
    (\<forall>j. Flists szs' j = (if k \<le> j \<and> j < k + n then map (blk_addr (base self) j) (seed m e j) else Flists szs j))"
  using assms
proof (induction n arbitrary: k acc self szs)
  case 0
  then show ?case by (intro exI [of _ szs]) auto
next
  case (Suc n)
  let ?A = "Abits szs" and ?l = "lblk m k" and ?r = "rblk e k"
  let ?right = "if ?l < ?r then pair_free ?A k ?r else []"
  have k: "k \<le> M" "k < M" using Suc.prems(5) by simp_all
  from initfree_pair_correct [OF Suc.prems(1,2) k(1), of ?l] obtain szs1 where
    s1: "initfree_pair self k ?l = Ok (length (pair_free ?A k ?l) * blk_size k, self\<lparr>sizes := Some szs1\<rparr>)"
      "sizes_shape M szs1" "Abits szs1 = ?A" "Sbits szs1 = Sbits szs"
      "Flists szs1 = (Flists szs)(k := map (blk_addr (base self) k) (pair_free ?A k ?l))"
    using Suc.prems(8) [of k] by auto
  let ?self1 = "self\<lparr>sizes := Some szs1\<rparr>"
  obtain szs2 where
    s2: "(if ?l < ?r then initfree_pair ?self1 k ?r else Ok (0, ?self1)) =
        Ok (length ?right * blk_size k, self\<lparr>sizes := Some szs2\<rparr>)"
      "sizes_shape M szs2" "Abits szs2 = ?A" "Sbits szs2 = Sbits szs"
      "Flists szs2 = (Flists szs1)(k := map (blk_addr (base self) k) ?right @ Flists szs1 k)"
  proof (cases "?l < ?r")
    case True
    with initfree_pair_correct [of ?self1 szs1 M k ?r] s1 k that show thesis by auto
  next
    case False
    with s1 that [of szs1] show thesis by auto
  qed
  have seed: "?right @ pair_free ?A k ?l = seed m e k"
    using pair_free_seed [OF rng k(2)] unfolding Suc.prems(3) .
  then have F: "Flists szs2 = (Flists szs)(k := map (blk_addr (base self) k) (seed m e k))"
    using s1(5) s2(5) by (simp flip: map_append)
  let ?self2 = "self\<lparr>sizes := Some szs2\<rparr>"
  let ?acc = "acc + length (seed m e k) * blk_size k"
  have "\<exists>szs'. initfree_loop bd_left bd_right n (Suc k) ?acc ?self2 =
      Ok (?acc + (\<Sum>j = Suc k..<Suc k + n. length (seed m e j) * blk_size j), ?self2\<lparr>sizes := Some szs'\<rparr>) \<and>
    sizes_shape M szs' \<and> Abits szs' = Abits szs2 \<and> Sbits szs' = Sbits szs2 \<and>
    (\<forall>j. Flists szs' j = (if Suc k \<le> j \<and> j < Suc k + n
       then map (blk_addr (base ?self2) j) (seed m e j) else Flists szs2 j))"
    using Suc.prems s2(2,3) by (intro Suc.IH) (simp_all add: F)
  then obtain szs' where
    s3: "initfree_loop bd_left bd_right n (Suc k) ?acc ?self2 =
        Ok (?acc + (\<Sum>j = Suc k..<Suc k + n. length (seed m e j) * blk_size j), self\<lparr>sizes := Some szs'\<rparr>)"
      "sizes_shape M szs'" "Abits szs' = Abits szs2" "Sbits szs' = Sbits szs2"
      "\<And>j. Flists szs' j = (if Suc k \<le> j \<and> j < Suc k + n
         then map (blk_addr (base self) j) (seed m e j) else Flists szs2 j)" by auto
  have "length (pair_free ?A k ?l) * blk_size k + length ?right * blk_size k = length (seed m e k) * blk_size k"
    by (simp flip: seed add: algebra_simps)
  then have "initfree_loop bd_left bd_right (Suc n) k acc self =
      initfree_loop bd_left bd_right n (Suc k) ?acc ?self2"
    using s1(1) s2(1) Suc.prems(6,7) by (simp add: blk_index_next_lblk blk_index_rblk Let_def add.assoc)
  moreover have "(\<Sum>j = k..<k + Suc n. length (seed m e j) * blk_size j) =
      length (seed m e k) * blk_size k + (\<Sum>j = Suc k..<Suc k + n. length (seed m e j) * blk_size j)"
    by (simp add: sum.atLeast_Suc_lessThan)
  ultimately show ?case using s3 s2(3,4) F by (intro exI [of _ szs']) (auto simp: add.assoc)
qed

section \<open>The arrays\<close>

text \<open>The number of bytes of a bit array of class \<open>k\<close>, and of all arrays together.\<close>

definition array_bytes :: "buddy_allocator \<Rightarrow> nat \<Rightarrow> nat" where
  "array_bytes self k = round_up (nblk self k) 8 div 8"

lemma alloc_arrays_correct:
  "0 < p \<Longrightarrow> alloc_arrays self k p ss =
     Ok (p + sum_list (map (array_bytes self) [k..<k + length ss]),
         map (\<lambda>(j, s). s\<lparr>free := [], alloc := Some (replicate (array_bytes self j) 0)\<rparr>) (enumerate k ss))"
proof (induction ss arbitrary: k p)
  case (Cons s ss)
  then show ?case
    by (simp add: init_nonnull_slice_def upt_conv_Cons Let_def flip: array_bytes_def del: upt.simps)
qed simp

lemma split_arrays_correct:
  "0 < p \<Longrightarrow> split_arrays self k p ss =
     Ok (p + sum_list (map (array_bytes self) [k..<k + length ss]),
         map (\<lambda>(j, s). s\<lparr>split := Some (replicate (array_bytes self j) 0)\<rparr>) (enumerate k ss))"
proof (induction ss arbitrary: k p)
  case (Cons s ss)
  then show ?case
    by (simp add: init_nonnull_slice_def upt_conv_Cons Let_def flip: array_bytes_def del: upt.simps)
qed simp

lemma array_bytes_bounds:
  "nblk self k \<le> 8 * array_bytes self k" "8 * array_bytes self k \<le> nblk self k + 7"
proof -
  have "0 < nblk self k" by (simp add: nblk_def)
  note b = round_up_bounds [OF this, of 8]
  then have "8 * array_bytes self k = round_up (nblk self k) 8" by (simp add: array_bytes_def)
  with b show "nblk self k \<le> 8 * array_bytes self k" "8 * array_bytes self k \<le> nblk self k + 7" by simp_all
qed

lemma sum_halves: "k \<le> Suc M \<Longrightarrow> (\<Sum>j = k..<Suc M. (2::nat) ^ (M - j)) < 2 ^ (Suc M - k)"
proof (induction rule: inc_induct)
  case (step n)
  then have "Suc M - n = Suc (M - n)" by simp
  moreover have "(\<Sum>j = n..<Suc M. (2::nat) ^ (M - j)) = 2 ^ (M - n) + (\<Sum>j = Suc n..<Suc M. 2 ^ (M - j))"
    using step by (intro sum.atLeast_Suc_lessThan) simp
  ultimately show ?case using step by simp
qed simp

lemma arrays_bound:
  assumes "max_size self = M" "k \<le> Suc M"
  shows "8 * sum_list (map (array_bytes self) [k..<Suc M]) \<le> 2 ^ (Suc M - k) + 7 * (Suc M - k)"
proof -
  have "8 * sum_list (map (array_bytes self) [k..<Suc M]) = (\<Sum>j = k..<Suc M. 8 * array_bytes self j)"
    by (simp only: interv_sum_list_conv_sum_set_nat sum_distrib_left set_upt)
  also have "\<dots> \<le> (\<Sum>j = k..<Suc M. 2 ^ (M - j) + 7)"
    using array_bytes_bounds(2) [of self] assms(1) by (intro sum_mono) (simp add: nblk_def)
  also have "\<dots> = (\<Sum>j = k..<Suc M. 2 ^ (M - j)) + 7 * (Suc M - k)" by (simp add: sum.distrib)
  also have "\<dots> \<le> 2 ^ (Suc M - k) + 7 * (Suc M - k)" using sum_halves [OF assms(2)] by simp
  finally show ?thesis .
qed

lemma linear_below_power: "8 \<le> M \<Longrightarrow> 400 * M + 640 \<le> 29 * (2::nat) ^ M"
proof (induction rule: dec_induct)
  case (step n)
  then have "256 \<le> (2::nat) ^ n" using power_increasing [of 8 n "2::nat"] by simp
  with step show ?case by simp
qed simp

text \<open>The arrays take less than a quarter of the arena.\<close>

lemma metadata_bound:
  assumes "max_size self = M" "8 \<le> M"
    and sz: "sz = SZINFO_SIZE * Suc M + sum_list (map (array_bytes self) [0..<Suc M])
                + sum_list (map (array_bytes self) [1..<Suc M])"
  shows "4 * (sz + LEAF_SIZE) \<le> blk_size M"
proof -
  define a b where "a = sum_list (map (array_bytes self) [0..<Suc M])"
    and "b = sum_list (map (array_bytes self) [1..<Suc M])"
  define X where "X = (2::nat) ^ M"
  have "8 * a \<le> 2 * X + 7 * M + 7"
    using arrays_bound [OF assms(1), of 0] by (simp add: a_def X_def del: upt_Suc)
  moreover have "8 * b \<le> X + 7 * M"
    using arrays_bound [OF assms(1), of 1] by (simp add: b_def X_def del: upt_Suc)
  moreover have "400 * M + 640 \<le> 29 * X" using linear_below_power [OF assms(2)] by (simp add: X_def)
  moreover have "sz = 48 * M + 48 + a + b" unfolding sz a_def b_def SZINFO_SIZE_def by (simp del: upt_Suc)
  ultimately have "4 * (sz + 16) \<le> X * 16" by simp
  then show ?thesis by (simp only: LEAF_SIZE_def blk_size_def X_def)
qed

text \<open>The arrays as \<^verbatim>\<open>init\<close> leaves them, every bit clear and every list empty.\<close>

lemma arrays_clear:
  assumes "max_size self = M"
  defines "szs1 \<equiv> map (\<lambda>(j, s). s\<lparr>free := [], alloc := Some (replicate (array_bytes self j) 0)\<rparr>)
             (enumerate 0 (replicate (Suc M) \<lparr>free = [], alloc = None, split = None\<rparr>))"
  defines "szs \<equiv> take 1 szs1 @
             map (\<lambda>(j, s). s\<lparr>split := Some (replicate (array_bytes self j) 0)\<rparr>) (enumerate 1 (tl szs1))"
  shows "sizes_shape M szs" "\<not> Abits szs k i" "\<not> Sbits szs k i" "Flists szs k = []"
proof -
  have len: "length szs1 = Suc M" "length szs = Suc M" by (simp_all add: szs_def szs1_def)
  have 1: "szs1 ! j = \<lparr>free = [], alloc = Some (replicate (array_bytes self j) 0), split = None\<rparr>"
    if "j \<le> M" for j
    using that by (simp add: szs1_def nth_enumerate_eq del: replicate.simps)
  have hd: "take 1 szs1 = [szs1 ! 0]" using len(1) by (cases szs1) simp_all
  have 2: "szs ! j = \<lparr>free = [], alloc = Some (replicate (array_bytes self j) 0),
      split = (if j = 0 then None else Some (replicate (array_bytes self j) 0))\<rparr>" if "j \<le> M" for j
    using that len 1 [of j] unfolding szs_def hd by (cases j) (simp_all add: nth_enumerate_eq nth_tl)
  show "sizes_shape M szs"
    using len 2 array_bytes_bounds(1) [of self] assms(1) by (auto simp: sizes_shape_def holds_bits_def nblk_def)
  show "\<not> Abits szs k i" "\<not> Sbits szs k i" "Flists szs k = []"
    using len 2 [of k] by (auto simp: Abits_def Sbits_def Flists_def bit_isset_Some simp del: bit_isset.simps(2) split: if_splits)
qed

section \<open>init\<close>

text \<open>Where the allocator's own arrays end.\<close>

definition data_end :: "buddy_allocator \<Rightarrow> nat" where
  "data_end self = round_up (base self + SZINFO_SIZE * nsize self
     + sum_list (map (array_bytes self) [0..<nsize self])
     + sum_list (map (array_bytes self) [1..<nsize self])) LEAF_SIZE"

lemma data_end_bounds:
  assumes "nsize self = Suc M" "8 \<le> M" "LEAF_SIZE dvd base self" "0 < base self"
  shows "base self < data_end self" "LEAF_SIZE dvd data_end self"
    "4 * (data_end self - base self) \<le> blk_size M"
proof -
  have M: "max_size self = M" using assms(1) by (simp add: max_size_def)
  define sz where "sz = SZINFO_SIZE * Suc M + sum_list (map (array_bytes self) [0..<Suc M])
                + sum_list (map (array_bytes self) [1..<Suc M])"
  have d: "data_end self = round_up (base self + sz) LEAF_SIZE"
    unfolding data_end_def sz_def assms(1) by (simp only: add.assoc)
  have "0 < base self + sz" "0 < LEAF_SIZE" using assms(4) by (simp_all add: LEAF_SIZE_def)
  note r = round_up_bounds [OF this, folded d]
  have "0 < sz" by (simp add: sz_def SZINFO_SIZE_def)
  with r show "base self < data_end self" "LEAF_SIZE dvd data_end self" by simp_all
  show "4 * (data_end self - base self) \<le> blk_size M"
    using r(1,2) metadata_bound [OF M assms(2) sz_def] by arith
qed

text \<open>The state after the arrays are carved out, before anything is marked.\<close>

lemma arrays_init:
  assumes "0 < base self" "nsize self = Suc M"
  shows "\<exists>p1 p2 p3 szs1 szs2.
    init_nonnull_slice (base self) SZINFO_SIZE (nsize self) = Ok p1 \<and>
    alloc_arrays self 0 p1 (replicate (nsize self) \<lparr>free = [], alloc = None, split = None\<rparr>) = Ok (p2, szs1) \<and>
    split_arrays self 1 p2 (tl szs1) = Ok (p3, szs2) \<and> round_up p3 LEAF_SIZE = data_end self \<and>
    sizes_shape M (take 1 szs1 @ szs2) \<and>
    (\<forall>k i. \<not> Abits (take 1 szs1 @ szs2) k i \<and> \<not> Sbits (take 1 szs1 @ szs2) k i) \<and>
    (\<forall>k. Flists (take 1 szs1 @ szs2) k = [])"
proof -
  have M: "max_size self = M" using assms(2) by (simp add: max_size_def)
  let ?s0 = "replicate (Suc M) \<lparr>free = [], alloc = None, split = None\<rparr>"
  define szs1 where "szs1 = map (\<lambda>(j, s). s\<lparr>free := [], alloc := Some (replicate (array_bytes self j) 0)\<rparr>)
    (enumerate 0 ?s0)"
  have len: "length szs1 = Suc M" by (simp add: szs1_def)
  note c = arrays_clear [OF M, folded szs1_def]
  show ?thesis
    using assms(1) c
    by (simp add: assms(2) init_nonnull_slice_def alloc_arrays_correct split_arrays_correct len data_end_def
        del: replicate.simps upt_Suc flip: szs1_def)
qed

lemma lblk_arena: "k \<le> M \<Longrightarrow> lblk (blk_size M) k = 2 ^ (M - k)"
proof -
  assume k: "k \<le> M"
  have "i < lblk (blk_size M) k \<longleftrightarrow> i < 2 ^ (M - k)" for i
    by (simp add: lblk_less_iff blk_size_split [OF k])
  then show ?thesis by (meson linorder_neqE_nat nat_less_le)
qed

text \<open>Marking the two reserved ranges of an arena with clear bits.\<close>

lemma mark_reserved:
  assumes szs: "sizes self = Some szs" "sizes_shape M szs" "\<And>k i. \<not> Abits szs k i \<and> \<not> Sbits szs k i"
    and M: "max_size self = M" and rng: "proper_range M (p - base self) (end_addr self - base self)"
    and al: "LEAF_SIZE dvd base self" "base self \<le> p" "base self \<le> end_addr self"
  defines "m \<equiv> p - base self" and "e \<equiv> end_addr self - base self"
  shows "\<exists>szs1 szs2. mark_data_structures self p = Ok (m, self\<lparr>sizes := Some szs1\<rparr>) \<and>
    mark_unavailable (self\<lparr>sizes := Some szs1\<rparr>) = Ok (blk_size M - e, self\<lparr>sizes := Some szs2\<rparr>) \<and>
    sizes_shape M szs2 \<and> Flists szs2 = Flists szs \<and> Abits szs2 = reserve_bits M m e \<and>
    Sbits szs2 = (\<lambda>k i. 0 < k \<and> reserve_bits M m e k i)"
proof -
  note rng = rng [folded m_def e_def]
  have b: "lblk m k \<le> 2 ^ (M - k)" "rblk e k \<le> 2 ^ (M - k)" if "k \<le> M" for k
    using proper_rangeD(2,4) [OF rng that] one_le_power [of "2::nat" "M - k"] by linarith+
  have "LEAF_SIZE dvd m" "LEAF_SIZE dvd e" "LEAF_SIZE dvd blk_size M" "e \<le> blk_size M"
    using rng by (simp_all add: proper_range_def blk_size_def)
  moreover have "p = base self + m" "end_addr self = base self + e" using al by (simp_all add: m_def e_def)
  ultimately have md: "base self mod LEAF_SIZE = 0" "p mod LEAF_SIZE = 0" "end_addr self mod LEAF_SIZE = 0"
    "(base self + blk_size M) mod LEAF_SIZE = 0" using al(1) by (simp_all add: dvd_imp_mod_0)
  have un: "0 < blk_size M - e \<Longrightarrow> round_up (blk_size M - e) LEAF_SIZE = blk_size M - e"
    using \<open>LEAF_SIZE dvd e\<close> \<open>LEAF_SIZE dvd blk_size M\<close>
    by (auto intro!: round_up_multiple dvd_diff_nat simp: LEAF_SIZE_def)
  have "\<exists>szs1. mark self (base self) p = Ok (self\<lparr>sizes := Some szs1\<rparr>) \<and> sizes_shape M szs1 \<and>
    Flists szs1 = Flists szs \<and>
    (\<forall>k i. Abits szs1 k i \<longleftrightarrow> Abits szs k i \<or> k \<le> M \<and> blk_index self k (base self) \<le> i \<and> i < blk_index_next self k p) \<and>
    (\<forall>k i. Sbits szs1 k i \<longleftrightarrow> Sbits szs k i \<or>
       0 < k \<and> k \<le> M \<and> blk_index self k (base self) \<le> i \<and> i < blk_index_next self k p)"
    using b md by (intro mark_correct [OF szs(1,2)]) (simp_all add: blk_index_next_lblk blk_index_def flip: m_def)
  then obtain szs1 where s1: "mark self (base self) p = Ok (self\<lparr>sizes := Some szs1\<rparr>)" "sizes_shape M szs1"
    "Flists szs1 = Flists szs" "\<And>k i. Abits szs1 k i \<longleftrightarrow> k \<le> M \<and> i < lblk m k"
    "\<And>k i. Sbits szs1 k i \<longleftrightarrow> 0 < k \<and> k \<le> M \<and> i < lblk m k"
    using szs(3) by (auto simp: blk_index_next_lblk blk_index_def m_def)
  let ?self = "self\<lparr>sizes := Some szs1\<rparr>" and ?stop = "base self + blk_size M"
  have ix: "blk_index ?self k (end_addr self) = rblk e k" "blk_index_next ?self k ?stop = lblk (blk_size M) k" for k
    by (simp_all add: blk_index_rblk blk_index_next_lblk e_def)
  have "\<exists>szs2. mark ?self (end_addr self) ?stop = Ok (?self\<lparr>sizes := Some szs2\<rparr>) \<and> sizes_shape M szs2 \<and>
    Flists szs2 = Flists szs1 \<and>
    (\<forall>k i. Abits szs2 k i \<longleftrightarrow> Abits szs1 k i \<or>
       k \<le> M \<and> blk_index ?self k (end_addr self) \<le> i \<and> i < blk_index_next ?self k ?stop) \<and>
    (\<forall>k i. Sbits szs2 k i \<longleftrightarrow> Sbits szs1 k i \<or>
       0 < k \<and> k \<le> M \<and> blk_index ?self k (end_addr self) \<le> i \<and> i < blk_index_next ?self k ?stop)"
    using s1(2) md b by (intro mark_correct) (simp_all add: ix lblk_arena)
  then obtain szs2 where s2: "mark ?self (end_addr self) ?stop = Ok (self\<lparr>sizes := Some szs2\<rparr>)" "sizes_shape M szs2"
    "Flists szs2 = Flists szs"
    "\<And>k i. Abits szs2 k i \<longleftrightarrow> k \<le> M \<and> i < lblk m k \<or> k \<le> M \<and> rblk e k \<le> i \<and> i < lblk (blk_size M) k"
    "\<And>k i. Sbits szs2 k i \<longleftrightarrow>
       0 < k \<and> k \<le> M \<and> i < lblk m k \<or> 0 < k \<and> k \<le> M \<and> rblk e k \<le> i \<and> i < lblk (blk_size M) k"
    unfolding s1(3,4,5) ix by auto
  have "i < lblk m k \<or> rblk e k \<le> i \<and> i < lblk (blk_size M) k \<longleftrightarrow> i < 2 ^ (M - k) \<and> reserved m e k i"
    if "k \<le> M" for k i
    using b(1) [OF that] that by (auto simp: reserved_def lblk_arena)
  then have "Abits szs2 = reserve_bits M m e" "Sbits szs2 = (\<lambda>k i. 0 < k \<and> reserve_bits M m e k i)"
    using s2(4,5) by (auto simp: fun_eq_iff reserve_bits_def)
  moreover have "mark_data_structures self p = Ok (m, ?self)" using s1(1) by (simp add: mark_data_structures_def m_def)
  moreover have "mark_unavailable ?self = Ok (blk_size M - e, self\<lparr>sizes := Some szs2\<rparr>)"
    using s2(1) M un by (simp add: mark_unavailable_def max_size_def Let_def flip: e_def)
  ultimately show ?thesis using s2(2,3) by blast
qed

lemma buddy_init_correct:
  assumes new: "\<not> initialized self" and b: "0 < b"
    and rng: "round_up b MAX_ALIGN + MAX_ALIGN \<le> round_down e MAX_ALIGN"
  shows "\<exists>self'. buddy_init self b e = Ok self' \<and> buddy_inv self' \<and> initialized self' \<and>
    base self' = round_up b MAX_ALIGN \<and> end_addr self' = round_down e MAX_ALIGN \<and>
    base self' < data_end self' \<and> data_end self' < end_addr self' \<and>
    end_addr self' \<le> base self' + blk_size (max_size self') \<and>
    live_blocks self' = {(k, i). k = 0 \<and> i < nblk self' 0 \<and>
      \<not> blk_bytes (base self') 0 i \<subseteq> {data_end self' ..< end_addr self'}} \<and>
    free_bytes self' = end_addr self' - data_end self'"
proof -
  define p len where "p = round_up b MAX_ALIGN" and "len = round_down e MAX_ALIGN - p"
  define M where "M = init_nsize len - 1"
  define self1 where "self1 = self\<lparr>base := p, end_addr := p + len, nsize := Suc M\<rparr>"
  have p: "0 < p" "MAX_ALIGN dvd p" "LEAF_SIZE dvd p" "round_down e MAX_ALIGN = p + len" "MAX_ALIGN \<le> len"
    using round_up_bounds [OF b, of MAX_ALIGN] b rng
    by (auto simp: p_def len_def MAX_ALIGN_def LEAF_SIZE_def intro: dvd_trans [of 16 4096])
  have "MAX_ALIGN dvd p + len" using p(4) by (metis round_down_def dvd_triv_right)
  then have "MAX_ALIGN dvd len" using p(2) by (simp add: dvd_add_right_iff)
  then have len: "LEAF_SIZE dvd len" "0 < len"
    using p(5) by (auto simp: MAX_ALIGN_def LEAF_SIZE_def intro: dvd_trans [of 16 4096])
  note n = init_nsize_spec [OF len, folded M_def]
  have nsz: "init_nsize len = Suc M" using n(1) by (simp add: M_def)
  have "(2::nat) ^ 8 \<le> 2 ^ M" using n(2) p(5) by (simp add: blk_size_def LEAF_SIZE_def MAX_ALIGN_def)
  then have M8: "8 \<le> M" by (rule power_le_imp_le_exp [rotated]) simp
  have f1: "base self1 = p" "nsize self1 = Suc M" "max_size self1 = M" "end_addr self1 = p + len"
    by (simp_all add: self1_def max_size_def)
  note d = data_end_bounds [of self1 M, unfolded f1, OF refl M8 p(3,1)]
  define m where "m = data_end self1 - p"
  have de: "data_end self1 = p + m" using d(1) by (simp add: m_def)
  have mm: "0 < m" "LEAF_SIZE dvd m" "4 * m \<le> blk_size M"
    using d p(3) by (simp_all add: m_def dvd_diff_nat)
  have rng: "proper_range M m len" using mm len n by (simp add: proper_range_def)
  obtain p1 p2 p3 szs1 szs2 where
    a: "init_nonnull_slice p SZINFO_SIZE (Suc M) = Ok p1"
      "alloc_arrays self1 0 p1 (replicate (Suc M) \<lparr>free = [], alloc = None, split = None\<rparr>) = Ok (p2, szs1)"
      "split_arrays self1 1 p2 (tl szs1) = Ok (p3, szs2)" "round_up p3 LEAF_SIZE = p + m"
      "sizes_shape M (take 1 szs1 @ szs2)"
      "\<And>k i. \<not> Abits (take 1 szs1 @ szs2) k i \<and> \<not> Sbits (take 1 szs1 @ szs2) k i"
      "\<And>k. Flists (take 1 szs1 @ szs2) k = []"
    using arrays_init [of self1 M, unfolded f1, OF p(1) refl] unfolding de by blast
  let ?s = "\<lambda>szs. self1\<lparr>sizes := Some szs\<rparr>"
  obtain szs3 szs4 where
    k: "mark_data_structures (?s (take 1 szs1 @ szs2)) (p + m) = Ok (m, ?s szs3)"
      "mark_unavailable (?s szs3) = Ok (blk_size M - len, ?s szs4)" "sizes_shape M szs4"
      "\<And>k. Flists szs4 k = []" "Abits szs4 = reserve_bits M m len"
      "Sbits szs4 = (\<lambda>k i. 0 < k \<and> reserve_bits M m len k i)"
    using mark_reserved [of "?s (take 1 szs1 @ szs2)" "take 1 szs1 @ szs2" M "p + m"] a(5-7) f1 rng p(3)
    by (auto simp: max_size_def)
  obtain szs5 where
    l: "initfree_loop (p + m) (p + len) M 0 0 (?s szs4) = Ok (len - m, ?s szs5)" "sizes_shape M szs5"
      "Abits szs5 = Abits szs4" "Sbits szs5 = Sbits szs4"
      "\<And>j. Flists szs5 j = (if j < M then map (blk_addr p j) (seed m len j) else [])"
    using initfree_loop_correct [OF _ k(3,5) rng, of "?s szs4" 0 M "p + m" "p + len" 0] k(4) f1
      seed_total [OF rng] by (auto simp: atLeast0LessThan)
  have ends: "p + blk_size M - (blk_size M - len) = p + len" using n(2) by simp
  have fr: "blk_size M - m - (blk_size M - len) = len - m" using n(2) by simp
  let ?r = "(?s szs5)\<lparr>initialized := True\<rparr>"
  have mx: "max LEAF_SIZE MAX_ALIGN = MAX_ALIGN" by (simp add: LEAF_SIZE_def MAX_ALIGN_def)
  have upd: "self\<lparr>base := p, end_addr := p + len, nsize := Suc M\<rparr> = self1"
    "(?s szs)\<lparr>end_addr := p + len\<rparr> = ?s szs" for szs by (simp_all add: self1_def)
  have run: "buddy_init self b e = Ok ?r"
    using new l(1) ends fr
    by (simp add: buddy_init_def Let_def nsz initfree_def mx p(4) upd f1 a(1-4) [unfolded One_nat_def] k(1,2) [unfolded One_nat_def]
        max_size_def del: replicate.simps alloc_arrays.simps split_arrays.simps flip: p_def)
  have tree: "buddy_tree M p (Abits szs5) (Sbits szs5) (Flists szs5)"
    using l(3,4) k(5,6) l(5) proper_range_root(2) [OF rng]
    by (intro reserve_tree [OF rng]) (auto simp: le_less)
  have "data_end ?r = p + m" unfolding de [symmetric] by (simp add: data_end_def array_bytes_def [abs_def] nblk_def max_size_def)
  moreover have "buddy_inv ?r" using tree l(2) p by (simp add: buddy_inv_def f1 max_size_def)
  moreover have "live_blocks ?r = {(k, i). k = 0 \<and> i < 2 ^ M \<and> \<not> blk_bytes p 0 i \<subseteq> {p + m ..< p + len}}"
    using l(3,4) k(5,6) by (auto simp: live_blocks_def max_size_def f1 reserve_live reserved_bytes blk_bytes_def blk_addr_def)
  moreover have "free_bytes ?r = len - m"
    using free_bytes_total [of ?r szs5 M] l(2,5) seed_total [OF rng]
    by (simp add: sizes_shape_def free_total_def flip: lessThan_Suc_atMost)
  moreover have "m < len" using rng by (simp add: proper_range_def)
  ultimately show ?thesis using run mm(1) n(2) p(4)
    by (intro exI [of _ ?r]) (simp add: f1 nblk_def max_size_def flip: p_def)
qed

end
