(* ===== verification/Heap.thy ===== *)
theory Heap
  imports Buddy_Init
begin

text \<open>
  The kernel heap as its clients see it: the states the buddy allocator of
  \<^verbatim>\<open>crates/kernel/src/buddy.rs\<close> reaches from \<^verbatim>\<open>init\<close> under any
  sequence of \<^verbatim>\<open>alloc\<close> and \<^verbatim>\<open>dealloc\<close> in which clients free
  only what they were given. \<open>heap_inv\<close> ties the outstanding allocations to the live blocks
  of the tree; the safety and accounting properties of the heap follow from it.
\<close>

section \<open>Runs of the heap\<close>

text \<open>
  The states the allocator reaches from \<^verbatim>\<open>init\<close> on the range
  \<open>[b, e)\<close> while clients allocate and free what they were given. \<open>H\<close> records the
  outstanding allocations: the address returned and the size asked for.
\<close>

inductive heap_run :: "nat \<Rightarrow> nat \<Rightarrow> buddy_allocator \<Rightarrow> (nat \<times> nat) set \<Rightarrow> bool" for b e where
  heap_init: "buddy_init buddy_new b e = Ok self \<Longrightarrow> heap_run b e self {}"
| heap_alloc: "heap_run b e self H \<Longrightarrow> buddy_alloc self layout = Ok (Some p, self') \<Longrightarrow>
    heap_run b e self' (insert (p, lsize layout) H)"
| heap_refuse: "heap_run b e self H \<Longrightarrow> buddy_alloc self layout = Ok (None, self') \<Longrightarrow> heap_run b e self' H"
| heap_free: "heap_run b e self H \<Longrightarrow> (p, n) \<in> H \<Longrightarrow> buddy_dealloc self p = Ok self' \<Longrightarrow>
    heap_run b e self' (H - {(p, n)})"

text \<open>The block that serves an allocation, and the bytes the two reserved ranges take.\<close>

definition blk_of :: "buddy_allocator \<Rightarrow> nat \<times> nat \<Rightarrow> nat \<times> nat" where
  "blk_of self = (\<lambda>(p, n). (firstk n, blk_index self (firstk n) p))"

definition reserved_blocks :: "buddy_allocator \<Rightarrow> (nat \<times> nat) set" where
  "reserved_blocks self = {(k, i). k = 0 \<and> i < nblk self 0 \<and>
     \<not> blk_bytes (base self) 0 i \<subseteq> {data_end self ..< end_addr self}}"

definition heap_inv :: "nat \<Rightarrow> nat \<Rightarrow> buddy_allocator \<Rightarrow> (nat \<times> nat) set \<Rightarrow> bool" where
  "heap_inv b e self H \<longleftrightarrow> buddy_inv self \<and>
     base self = round_up b MAX_ALIGN \<and> end_addr self = round_down e MAX_ALIGN \<and>
     base self < data_end self \<and> data_end self < end_addr self \<and>
     end_addr self \<le> base self + blk_size (max_size self) \<and>
     finite H \<and> inj_on (blk_of self) H \<and> reserved_blocks self \<inter> blk_of self ` H = {} \<and>
     live_blocks self = reserved_blocks self \<union> blk_of self ` H \<and>
     (\<forall>(p, n) \<in> H. p = addr self (firstk n) (blk_index self (firstk n) p)) \<and>
     free_bytes self + (\<Sum>(p, n) \<in> H. blk_size (firstk n)) = end_addr self - data_end self"

lemma heap_invD:
  assumes "heap_inv b e self H"
  shows "buddy_inv self" "inj_on (blk_of self) H" "reserved_blocks self \<inter> blk_of self ` H = {}"
    "live_blocks self = reserved_blocks self \<union> blk_of self ` H"
    "(p, n) \<in> H \<Longrightarrow> p = addr self (firstk n) (blk_index self (firstk n) p)"
  using assms unfolding heap_inv_def by auto

text \<open>Nothing but the size array changes after initialisation.\<close>

lemma frame_fields:
  assumes "base self' = base self" "nsize self' = nsize self" "end_addr self' = end_addr self"
  shows "max_size self' = max_size self" "data_end self' = data_end self"
    "reserved_blocks self' = reserved_blocks self" "blk_of self' = blk_of self"
    "addr self' = addr self" "blk_index self' = blk_index self"
proof -
  show m: "max_size self' = max_size self" "addr self' = addr self" "blk_index self' = blk_index self"
    using assms by (simp_all add: max_size_def addr_def [abs_def] blk_index_def [abs_def])
  then have n: "nblk self' = nblk self" by (simp add: nblk_def [abs_def])
  then show d: "data_end self' = data_end self" using assms by (simp add: data_end_def array_bytes_def [abs_def])
  show "blk_of self' = blk_of self" using m by (simp add: blk_of_def)
  show "reserved_blocks self' = reserved_blocks self" using assms n d by (simp add: reserved_blocks_def)
qed

lemma buddy_alloc_end: "buddy_alloc self layout = Ok (r, self') \<Longrightarrow> end_addr self' = end_addr self"
  by (auto simp: buddy_alloc_def Let_def split: option.splits if_splits list.splits)

lemma buddy_dealloc_geometry:
  "buddy_dealloc self p = Ok self' \<Longrightarrow> base self' = base self"
  "buddy_dealloc self p = Ok self' \<Longrightarrow> nsize self' = nsize self"
  by (auto simp: buddy_dealloc_def Let_def split: option.splits if_splits)

lemma buddy_dealloc_end: "buddy_dealloc self p = Ok self' \<Longrightarrow> end_addr self' = end_addr self"
  by (auto simp: buddy_dealloc_def Let_def split: option.splits if_splits)

lemma heap_inv_alloc:
  assumes inv: "heap_inv b e self H" and run: "buddy_alloc self layout = Ok (Some p, self')"
  shows "heap_inv b e self' (insert (p, lsize layout) H)"
proof -
  let ?k = "firstk (lsize layout)"
  have bi: "buddy_inv self" using inv by (simp add: heap_inv_def)
  have "can_serve self layout" using buddy_alloc_refused [OF bi, of layout] run by auto
  from buddy_alloc_served [OF bi this] run obtain j where
    s: "buddy_inv self'" "base self' = base self" "nsize self' = nsize self" "p = addr self ?k j"
      "(?k, j) \<notin> live_blocks self" "live_blocks self' = insert (?k, j) (live_blocks self)"
      "free_bytes self' + blk_size ?k = free_bytes self" by auto
  note fr = frame_fields [OF s(2,3) buddy_alloc_end [OF run]]
  have ix: "blk_index self ?k p = j" using s(4) by (simp add: addr_blk_addr)
  then have blk: "blk_of self (p, lsize layout) = (?k, j)" by (simp add: blk_of_def)
  then have new: "(p, lsize layout) \<notin> H" using inv s(5) by (force simp: heap_inv_def)
  show ?thesis
    using inv s ix fr blk new buddy_alloc_end [OF run] by (auto simp: heap_inv_def)
qed

lemma heap_inv_free:
  assumes inv: "heap_inv b e self H" and pn: "(p, n) \<in> H"
  shows "\<exists>self'. buddy_dealloc self p = Ok self' \<and> heap_inv b e self' (H - {(p, n)})"
proof -
  let ?k = "firstk n" and ?i = "blk_index self (firstk n) p"
  from inv have bi: "buddy_inv self" and inj: "inj_on (blk_of self) H" and fin: "finite H"
    and dj: "reserved_blocks self \<inter> blk_of self ` H = {}"
    and lv: "live_blocks self = reserved_blocks self \<union> blk_of self ` H"
    and ad: "p = addr self ?k ?i" using pn by (auto simp: heap_inv_def)
  have blk: "blk_of self (p, n) = (?k, ?i)" by (simp add: blk_of_def)
  then have mem: "(?k, ?i) \<in> blk_of self ` H" using pn by (metis imageI)
  have r: "(0, 0) \<in> reserved_blocks self"
    using inv by (auto simp: heap_inv_def reserved_blocks_def blk_bytes_def blk_addr_def nblk_def)
  with dj mem have "(0, 0) \<noteq> (?k, ?i)" by force
  from buddy_dealloc_live [OF bi _ _ this] mem r lv obtain self' where
    s: "buddy_dealloc self p = Ok self'" "buddy_inv self'" "base self' = base self" "nsize self' = nsize self"
      "live_blocks self' = live_blocks self - {(?k, ?i)}" "free_bytes self' = free_bytes self + blk_size ?k"
    using ad by auto
  note fr = frame_fields [OF s(3,4) buddy_dealloc_end [OF s(1)]]
  have img: "blk_of self ` (H - {(p, n)}) = blk_of self ` H - {(?k, ?i)}"
    using inj pn blk inj_on_image_set_diff [OF inj, of H "{(p, n)}"] by auto
  have sum: "(\<Sum>(p, n) \<in> H. blk_size (firstk n)) = blk_size ?k + (\<Sum>(p, n) \<in> H - {(p, n)}. blk_size (firstk n))"
    using sum.remove [OF fin pn, of "\<lambda>(p, n). blk_size (firstk n)"] by simp
  have "heap_inv b e self' (H - {(p, n)})"
    unfolding heap_inv_def fr s(3,5,6) buddy_dealloc_end [OF s(1)] img
    using inv s(2) lv dj mem sum inj_on_diff [OF inj] by (auto simp: heap_inv_def)
  with s(1) show ?thesis by blast
qed

lemma heap_run_inv:
  assumes "0 < b" "round_up b MAX_ALIGN + MAX_ALIGN \<le> round_down e MAX_ALIGN" "heap_run b e self H"
  shows "heap_inv b e self H"
  using assms(3)
proof induction
  case (heap_init self)
  with buddy_init_correct [OF _ assms(1,2), of buddy_new] show ?case
    by (auto simp: heap_inv_def buddy_new_def reserved_blocks_def)
next
  case (heap_alloc self H layout p self')
  then show ?case by (blast intro: heap_inv_alloc)
next
  case (heap_refuse self H layout self')
  then have "\<not> can_serve self layout" using buddy_alloc_served [of self layout] by (auto simp: heap_inv_def)
  with heap_refuse have "self' = self" using buddy_alloc_refused [of self layout] by (auto simp: heap_inv_def)
  with heap_refuse show ?case by simp
next
  case (heap_free self H p n self')
  with heap_inv_free [of b e self H p n] show ?case by auto
qed

text \<open>The bytes a client asked for lie in the block that serves it.\<close>

lemma request_in_block:
  assumes "heap_inv b e self H" "(p, n) \<in> H" "blk_of self (p, n) = (k, i)"
  shows "{p ..< p + n} \<subseteq> blk_bytes (base self) k i"
proof -
  have "k = firstk n" "p = addr self k i" using heap_invD(5) [OF assms(1,2)] assms(3) by (auto simp: blk_of_def)
  then show ?thesis using firstk_spec(1) [of n] by (auto simp: blk_bytes_def addr_blk_addr)
qed

lemma heap_inv_disjoint:
  assumes inv: "heap_inv b e self H" and "(p, n) \<in> H" "(q, l) \<in> H" "(p, n) \<noteq> (q, l)"
  shows "{p ..< p + n} \<inter> {q ..< q + l} = {}"
proof -
  obtain k i k' i' where blk: "blk_of self (p, n) = (k, i)" "blk_of self (q, l) = (k', i')"
    by (metis surj_pair)
  have ne: "(k, i) \<noteq> (k', i')" using inj_onD [OF heap_invD(2) [OF inv] _ assms(2,3)] assms(4) blk by auto
  have "(k, i) \<in> blk_of self ` H" "(k', i') \<in> blk_of self ` H"
    using assms(2,3) blk by (metis imageI)+
  then have "(k, i) \<in> live_blocks self" "(k', i') \<in> live_blocks self"
    using heap_invD(4) [OF inv] by auto
  from live_blocks_disjoint [OF heap_invD(1) [OF inv] this ne]
    request_in_block [OF inv assms(2) blk(1)] request_in_block [OF inv assms(3) blk(2)]
  show ?thesis by blast
qed

lemma heap_inv_inside:
  assumes inv: "heap_inv b e self H" and pn: "(p, n) \<in> H"
  shows "{p ..< p + n} \<subseteq> {data_end self ..< end_addr self}"
proof
  fix x assume x: "x \<in> {p ..< p + n}"
  obtain k i where blk: "blk_of self (p, n) = (k, i)" by (metis surj_pair)
  have xb: "x \<in> blk_bytes (base self) k i" using request_in_block [OF inv pn blk] x by blast
  note bi = heap_invD(1) [OF inv]
  have mem: "(k, i) \<in> blk_of self ` H" using pn blk by (metis imageI)
  then have lv: "(k, i) \<in> live_blocks self" using heap_invD(4) [OF inv] by simp
  define j where "j = (x - base self) div blk_size 0"
  have "x \<in> {base self ..< base self + blk_size (max_size self)}" using live_block_in_arena [OF bi lv] xb by blast
  then have j: "x \<in> blk_bytes (base self) 0 j" "j < nblk self 0"
    by (auto simp: j_def blk_bytes_iff nblk_def blk_size_def [of "max_size self"] blk_size_def [of 0]
        div_less_iff_less_mult LEAF_SIZE_def)
  have "(0, j) \<notin> reserved_blocks self"
  proof
    assume r: "(0, j) \<in> reserved_blocks self"
    then have "(0, j) \<in> live_blocks self" "(0, j) \<noteq> (k, i)" using heap_invD(3,4) [OF inv] mem by auto
    from live_blocks_disjoint [OF bi this(1) lv this(2)] j(1) xb show False by blast
  qed
  with j show "x \<in> {data_end self ..< end_addr self}" by (auto simp: reserved_blocks_def)
qed

lemma alloc_total:
  assumes "buddy_inv self"
  shows "\<exists>r self'. buddy_alloc self layout = Ok (r, self')"
  using buddy_alloc_served [OF assms, of layout] buddy_alloc_refused [OF assms, of layout] by blast

text \<open>A request for at most a leaf is served as long as any byte is free.\<close>

lemma can_serve_leaf:
  assumes inv: "buddy_inv self" and free: "0 < free_bytes self"
    and lay: "lsize layout \<le> LEAF_SIZE" "lalign layout \<le> MAX_ALIGN"
  shows "can_serve self layout"
proof -
  from inv obtain szs where szs: "sizes self = Some szs" "nsize self = Suc (max_size self)" "length szs = nsize self"
    "free_bytes self = free_total (max_size self) (Flists szs)" by (rule buddy_invE)
  have "\<exists>k \<le> max_size self. Flists szs k \<noteq> []"
  proof (rule ccontr)
    assume "\<not> ?thesis"
    then have "free_total (max_size self) (Flists szs) = 0" by (simp add: free_total_def)
    with free szs(4) show False by simp
  qed
  then obtain k where "k < nsize self" "free (szs ! k) \<noteq> []" using szs(2,3) by (auto simp: Flists_def less_Suc_eq_le)
  with szs lay show ?thesis unfolding can_serve_def firstk_def by auto
qed

lemma fresh_heap:
  assumes "0 < b" "round_up b MAX_ALIGN + MAX_ALIGN \<le> round_down e MAX_ALIGN"
  shows "\<exists>self. heap_run b e self {} \<and> 0 < free_bytes self"
  using buddy_init_correct [OF _ assms, of buddy_new] by (auto simp: buddy_new_def intro!: heap_init)

text \<open>A one-page heap with one outstanding allocation, for the witnesses below.\<close>

lemma page_range: "0 < (4096::nat)" "round_up 4096 MAX_ALIGN + MAX_ALIGN \<le> round_down 8192 MAX_ALIGN"
  by (simp_all add: round_up_def round_down_def MAX_ALIGN_def)

lemma page_heap: "\<exists>self p. heap_run 4096 8192 self {(p, 8)}"
proof -
  obtain self where self: "heap_run 4096 8192 self {}" "0 < free_bytes self" using fresh_heap [OF page_range] by blast
  note inv = heap_invD(1) [OF heap_run_inv [OF page_range self(1)]]
  let ?l = "\<lparr>lsize = 8, lalign = 8\<rparr>"
  have "can_serve self ?l" using can_serve_leaf [OF inv self(2)] by (simp add: LEAF_SIZE_def MAX_ALIGN_def)
  from buddy_alloc_served [OF inv this] obtain p self' where "buddy_alloc self ?l = Ok (Some p, self')" by blast
  from heap_alloc [OF self(1) this] show ?thesis by auto
qed

section \<open>Properties\<close>

text \<open>
  C1. Heap safety. In every state the allocator reaches from \<^verbatim>\<open>init\<close> on a range with
  at least one page, every outstanding allocation lies between the end of the allocator's own arrays
  and the end of memory, and no two outstanding allocations share a byte.
\<close>

theorem heap_safety:
  assumes "0 < b" "round_up b MAX_ALIGN + MAX_ALIGN \<le> round_down e MAX_ALIGN"
    and "heap_run b e self H" "(p, n) \<in> H"
  shows "{p ..< p + n} \<subseteq> {data_end self ..< round_down e MAX_ALIGN} \<and>
    (\<forall>(q, l) \<in> H - {(p, n)}. {p ..< p + n} \<inter> {q ..< q + l} = {})"
proof -
  note inv = heap_run_inv [OF assms(1-3)]
  have "end_addr self = round_down e MAX_ALIGN" using inv by (simp add: heap_inv_def)
  with heap_inv_inside [OF inv assms(4)] heap_inv_disjoint [OF inv assms(4)] show ?thesis by fastforce
qed

theorem heap_safety_witness:
  "\<exists>self p. heap_run 4096 8192 self {(p, 8)} \<and> {p ..< p + 8} \<subseteq> {data_end self ..< round_down 8192 MAX_ALIGN}"
proof -
  obtain self p where run: "heap_run 4096 8192 self {(p, 8)}" using page_heap by blast
  with heap_safety [OF page_range run, of p 8] show ?thesis by blast
qed

text \<open>
  C2. Heap progress. In every reachable state \<^verbatim>\<open>alloc\<close> returns for every layout, never
  panicking, and \<^verbatim>\<open>dealloc\<close> of any outstanding allocation returns and gives exactly the
  bytes of its block back to the free lists.
\<close>

theorem heap_progress:
  assumes "0 < b" "round_up b MAX_ALIGN + MAX_ALIGN \<le> round_down e MAX_ALIGN" "heap_run b e self H"
  shows "(\<forall>layout. \<exists>r self'. buddy_alloc self layout = Ok (r, self')) \<and>
    (\<forall>(p, n) \<in> H. \<exists>self'. buddy_dealloc self p = Ok self' \<and> heap_run b e self' (H - {(p, n)}) \<and>
       free_bytes self' = free_bytes self + blk_size (firstk n))"
proof -
  note inv = heap_run_inv [OF assms]
  have "\<exists>self'. buddy_dealloc self p = Ok self' \<and> heap_run b e self' (H - {(p, n)}) \<and>
       free_bytes self' = free_bytes self + blk_size (firstk n)" if pn: "(p, n) \<in> H" for p n
  proof -
    obtain self' where self': "buddy_dealloc self p = Ok self'" "heap_inv b e self' (H - {(p, n)})"
      using heap_inv_free [OF inv pn] by blast
    have "finite H" "data_end self' = data_end self"
      using inv self' frame_fields(2) [OF _ _ buddy_dealloc_end [OF self'(1)]]
      by (auto simp: heap_inv_def dest: buddy_dealloc_geometry)
    then have "free_bytes self' = free_bytes self + blk_size (firstk n)"
      using inv self'(2) sum.remove [OF _ pn, of "\<lambda>(p, n). blk_size (firstk n)"] by (auto simp: heap_inv_def)
    with heap_free [OF assms(3) pn self'(1)] self'(1) show ?thesis by blast
  qed
  with alloc_total [OF heap_invD(1) [OF inv]] show ?thesis by blast
qed

theorem heap_progress_witness:
  "\<exists>self p self'. heap_run 4096 8192 self {(p, 8)} \<and> buddy_dealloc self p = Ok self' \<and> heap_run 4096 8192 self' {}"
proof -
  obtain self p where run: "heap_run 4096 8192 self {(p, 8)}" using page_heap by blast
  with heap_progress [OF page_range run] show ?thesis by force
qed

text \<open>
  Heap accounting. In every reachable state the free bytes and the blocks behind the outstanding
  allocations add up to the memory that is neither the allocator's own nor beyond the end: nothing
  leaks and nothing is counted twice.
\<close>

lemma heap_accounting:
  assumes "0 < b" "round_up b MAX_ALIGN + MAX_ALIGN \<le> round_down e MAX_ALIGN" "heap_run b e self H"
  shows "free_bytes self + (\<Sum>(p, n) \<in> H. blk_size (firstk n)) = round_down e MAX_ALIGN - data_end self"
  using heap_run_inv [OF assms] by (simp add: heap_inv_def)

text \<open>
  Initialisation. On any non-null range with at least one page \<^verbatim>\<open>init\<close> succeeds, its
  self-check included. It establishes the allocator's invariant, reserves exactly the leaves that
  touch the allocator's arrays or lie beyond the end, and frees every byte between.
\<close>

lemma buddy_init_establishes:
  assumes "\<not> initialized self" "0 < b" "round_up b MAX_ALIGN + MAX_ALIGN \<le> round_down e MAX_ALIGN"
  shows "\<exists>self'. buddy_init self b e = Ok self' \<and> buddy_inv self' \<and>
    base self' = round_up b MAX_ALIGN \<and> end_addr self' = round_down e MAX_ALIGN \<and>
    live_blocks self' = {(k, i). k = 0 \<and> i < nblk self' 0 \<and>
      \<not> blk_bytes (base self') 0 i \<subseteq> {data_end self' ..< end_addr self'}} \<and>
    0 < free_bytes self' \<and> free_bytes self' = end_addr self' - data_end self'"
  using buddy_init_correct [OF assms] by auto

text \<open>
  Allocation. In a state that satisfies the invariant \<^verbatim>\<open>alloc\<close> either returns a block
  of the smallest class that holds the request, until then not live, disjoint from every live block,
  aligned as asked when the size is a multiple of the alignment, and takes exactly its bytes from the
  free lists; or, precisely when no class that could serve the request has a free block or the
  alignment is too large, refuses and changes nothing.
\<close>

lemma buddy_alloc_exact:
  assumes "buddy_inv self"
  shows "if can_serve self layout
    then \<exists>p j self'. buddy_alloc self layout = Ok (Some p, self') \<and> buddy_inv self' \<and>
      p = addr self (firstk (lsize layout)) j \<and> lsize layout \<le> blk_size (firstk (lsize layout)) \<and>
      live_blocks self' = insert (firstk (lsize layout), j) (live_blocks self) \<and>
      (\<forall>(k, i) \<in> live_blocks self.
         blk_bytes (base self) (firstk (lsize layout)) j \<inter> blk_bytes (base self) k i = {}) \<and>
      (\<forall>a. lalign layout = 2 ^ a \<longrightarrow> 0 < lsize layout \<longrightarrow> lalign layout dvd lsize layout \<longrightarrow> lalign layout dvd p) \<and>
      free_bytes self' + blk_size (firstk (lsize layout)) = free_bytes self
    else buddy_alloc self layout = Ok (None, self)"
proof (cases "can_serve self layout")
  case True
  then have al: "lalign layout \<le> MAX_ALIGN" by (simp add: can_serve_def)
  let ?k = "firstk (lsize layout)"
  from buddy_alloc_served [OF assms True] obtain p j self' where
    s: "buddy_alloc self layout = Ok (Some p, self')" "buddy_inv self'" "base self' = base self"
      "p = addr self ?k j" "(?k, j) \<notin> live_blocks self" "live_blocks self' = insert (?k, j) (live_blocks self)"
      "free_bytes self' + blk_size ?k = free_bytes self" by blast
  have "blk_bytes (base self) ?k j \<inter> blk_bytes (base self) k i = {}" if "(k, i) \<in> live_blocks self" for k i
    using live_blocks_disjoint [OF s(2), of ?k j k i] that s(3,5,6) by auto
  then have dj: "\<forall>(k, i) \<in> live_blocks self. blk_bytes (base self) ?k j \<inter> blk_bytes (base self) k i = {}" by blast
  have "\<forall>a. lalign layout = 2 ^ a \<longrightarrow> 0 < lsize layout \<longrightarrow> lalign layout dvd lsize layout \<longrightarrow> lalign layout dvd p"
    using buddy_alloc_aligned [OF assms _ al] s(4) by blast
  with dj have "buddy_alloc self layout = Ok (Some p, self') \<and> buddy_inv self' \<and>
      p = addr self ?k j \<and> lsize layout \<le> blk_size ?k \<and>
      live_blocks self' = insert (?k, j) (live_blocks self) \<and>
      (\<forall>(k, i) \<in> live_blocks self. blk_bytes (base self) ?k j \<inter> blk_bytes (base self) k i = {}) \<and>
      (\<forall>a. lalign layout = 2 ^ a \<longrightarrow> 0 < lsize layout \<longrightarrow> lalign layout dvd lsize layout \<longrightarrow> lalign layout dvd p) \<and>
      free_bytes self' + blk_size ?k = free_bytes self"
    using s firstk_spec(1) [of "lsize layout"] by (intro conjI)
  then show ?thesis unfolding if_P [OF True] by (intro exI)
qed (use buddy_alloc_refused [OF assms] in simp)

text \<open>
  Allocating and freeing again is the identity on what clients can observe: the same blocks are
  live and the same number of bytes is free.
\<close>

lemma alloc_dealloc_roundtrip:
  assumes "0 < b" "round_up b MAX_ALIGN + MAX_ALIGN \<le> round_down e MAX_ALIGN" "heap_run b e self H"
    and "buddy_alloc self layout = Ok (Some p, self')"
  shows "\<exists>self''. buddy_dealloc self' p = Ok self'' \<and> heap_run b e self'' H \<and>
    live_blocks self'' = live_blocks self \<and> free_bytes self'' = free_bytes self"
proof -
  note inv = heap_run_inv [OF assms(1-3)]
  have can: "can_serve self layout" using buddy_alloc_refused [OF heap_invD(1) [OF inv], of layout] assms(4) by auto
  let ?k = "firstk (lsize layout)" and ?x = "(p, lsize layout)"
  from buddy_alloc_served [OF heap_invD(1) [OF inv] can] assms(4) obtain j where
    s: "base self' = base self" "nsize self' = nsize self" "p = addr self ?k j" "(?k, j) \<notin> live_blocks self"
      "free_bytes self' + blk_size ?k = free_bytes self" by auto
  have "blk_of self ?x = (?k, j)" using s(3) by (simp add: blk_of_def addr_blk_addr)
  then have new: "?x \<notin> H" using s(4) heap_invD(4) [OF inv] by (metis UnI2 imageI)
  note inv' = heap_inv_alloc [OF inv assms(4)]
  obtain self'' where r: "buddy_dealloc self' p = Ok self''" "heap_inv b e self'' (insert ?x H - {?x})"
    using heap_inv_free [OF inv', of p "lsize layout"] by blast
  have H: "insert ?x H - {?x} = H" using new by simp
  note fr = frame_fields [OF _ _ trans [OF buddy_dealloc_end [OF r(1)] buddy_alloc_end [OF assms(4)]]]
  have g: "base self'' = base self" "nsize self'' = nsize self" using buddy_dealloc_geometry [OF r(1)] s(1,2) by simp_all
  have "live_blocks self'' = live_blocks self"
    using heap_invD(4) [OF inv] heap_invD(4) [OF r(2)] fr(3,4) [OF g] unfolding H by simp
  moreover have "free_bytes self'' = free_bytes self"
    using inv r(2) fr(2) [OF g] unfolding H heap_inv_def by arith
  moreover have "heap_run b e self'' H"
    using heap_free [OF heap_alloc [OF assms(3,4)] insertI1 r(1)] unfolding H .
  ultimately show ?thesis using r(1) by blast
qed

end
