(* ===== verification/Params.thy ===== *)
theory Params
  imports Errors
begin

unbundle bit_operations_syntax

text \<open>
  The kernel's constants (\<^verbatim>\<open>crates/kernel/src/param.rs\<close>), its address space layout
  (\<^verbatim>\<open>crates/kernel/src/memlayout.rs\<close>) and the page rounding functions of
  \<^verbatim>\<open>crates/kernel/src/riscv.rs\<close>. The lemmas show that the kernel stacks, the trapframe
  slots and user memory are pairwise disjoint, and what the bit tricks of page rounding compute.
\<close>

section \<open>Parameters\<close>

definition NCPU :: nat where "NCPU = 8"
definition NPROC :: nat where "NPROC = 16"
definition NOFILE :: nat where "NOFILE = 16"
definition NFILE :: nat where "NFILE = 100"
definition NINODE :: nat where "NINODE = 50"
definition NDEV :: nat where "NDEV = 10"
definition ROOTDEV :: "32 word" where "ROOTDEV = 1"
definition MAXARG :: nat where "MAXARG = 32"
definition MAXOPBLOCKS :: nat where "MAXOPBLOCKS = 10"
definition LOGSIZE :: nat where "LOGSIZE = MAXOPBLOCKS * 3"
definition NBUF :: nat where "NBUF = MAXOPBLOCKS * 3"
definition FSSIZE :: nat where "FSSIZE = 200000"
definition MAXPATH :: nat where "MAXPATH = 128"
definition NSHM :: nat where "NSHM = 32"
definition NSEM :: nat where "NSEM = 64"

section \<open>Pages\<close>

definition PGSIZE :: nat where "PGSIZE = 4096"

definition PGSHIFT :: nat where "PGSHIFT = 12"

type_synonym usize = "64 word"

definition pgroundup :: "usize \<Rightarrow> usize" where
  "pgroundup sz = (sz + 4096 - 1) AND NOT (4096 - 1)"

definition pgrounddown :: "usize \<Rightarrow> usize" where
  "pgrounddown sz = sz AND NOT (4096 - 1)"

section \<open>Memory layout\<close>

definition KERNBASE :: nat where "KERNBASE = 0x80000000"

definition PHYSTOP :: nat where "PHYSTOP = KERNBASE + 512 * 1024 * 1024"

definition MAXVA :: nat where "MAXVA = 2 ^ (9 + 9 + 9 + 12 - 1)"

definition TRAMPOLINE :: nat where "TRAMPOLINE = MAXVA - PGSIZE"

definition STACK_PAGE_NUM :: nat where "STACK_PAGE_NUM = 25"

definition kstack :: "nat \<Rightarrow> nat" where
  "kstack p = TRAMPOLINE - ((p + 1) * (STACK_PAGE_NUM + 1) * PGSIZE)"

definition TRAPFRAME :: nat where "TRAPFRAME = TRAMPOLINE - PGSIZE"

definition trapframe_va :: "nat \<Rightarrow> nat" where
  "trapframe_va proc_idx = TRAPFRAME - proc_idx * PGSIZE"

definition user_mem_top :: "nat \<Rightarrow> nat" where
  "user_mem_top nproc = TRAMPOLINE - nproc * PGSIZE"

lemmas layout_defs = kstack_def trapframe_va_def user_mem_top_def TRAPFRAME_def TRAMPOLINE_def MAXVA_def
  STACK_PAGE_NUM_def PGSIZE_def NPROC_def

section \<open>Page rounding\<close>

lemma unat_usize: "unat (w :: usize) < 2 ^ 64"
  using unsigned_less [of w] by simp

lemma pgrounddown_shift: "pgrounddown w = push_bit 12 (drop_bit 12 w)"
proof (rule bit_word_eqI)
  fix n assume "n < LENGTH(64)"
  moreover have e: "(4096 - 1 :: usize) = mask 12" by (simp add: mask_eq_exp_minus_1)
  ultimately show "bit (pgrounddown w) n = bit (push_bit 12 (drop_bit 12 w)) n"
    unfolding pgrounddown_def e by (auto simp: bit_simps)
qed

lemma unat_pgrounddown: "unat (pgrounddown w) = unat w div PGSIZE * PGSIZE"
proof -
  have "unat w div 4096 * 4096 \<le> unat w" by simp
  then have "unat w div 4096 * 4096 < 2 ^ 64" using unat_usize [of w] by (rule le_less_trans)
  moreover have "unat (pgrounddown w) = take_bit 64 (push_bit 12 (drop_bit 12 (unat w)))"
    by (simp only: pgrounddown_shift unsigned_push_bit_eq unsigned_drop_bit_eq)
      (simp add: take_bit_nat_eq_self [OF unat_usize])
  ultimately show ?thesis by (simp add: push_bit_eq_mult drop_bit_eq_div take_bit_eq_mod PGSIZE_def)
qed

lemma pgroundup_down: "pgroundup w = pgrounddown (w + 4095)"
proof -
  have "w + 4096 - 1 = w + 4095" by simp
  then show ?thesis by (simp only: pgroundup_def pgrounddown_def)
qed

lemma unat_pgroundup:
  assumes "unat w + 4095 < 2 ^ 64"
  shows "unat (pgroundup w) = (unat w + (PGSIZE - 1)) div PGSIZE * PGSIZE"
proof -
  have "unat (w + 4095) = unat w + 4095" using assms by (subst unat_add_lem [THEN iffD1]) simp_all
  then show ?thesis by (simp add: pgroundup_down unat_pgrounddown PGSIZE_def)
qed

text \<open>
  Page rounding. \<^verbatim>\<open>pgrounddown\<close> is the last page boundary at or below its argument;
  \<^verbatim>\<open>pgroundup\<close> is the first one at or above it as long as that boundary is
  representable, and wraps to 0 for the last, partial page of the address space.
\<close>

lemma page_rounding:
  shows "unat (pgrounddown w) = unat w div PGSIZE * PGSIZE \<and>
    unat (pgroundup w) = (if unat w \<le> 2 ^ 64 - PGSIZE then (unat w + PGSIZE - 1) div PGSIZE * PGSIZE else 0)"
proof (cases "unat w \<le> 2 ^ 64 - PGSIZE")
  case True
  then have "unat w + 4095 < 2 ^ 64" by (simp add: PGSIZE_def)
  with unat_pgroundup [OF this] True show ?thesis by (simp add: unat_pgrounddown PGSIZE_def)
next
  case False
  then have "2 ^ 64 - 4096 < unat w" by (simp add: PGSIZE_def)
  then have "unat (w + 4095) = unat w + 4095 - 2 ^ 64"
    using unat_usize [of w] by (subst unat_word_ariths) (simp add: le_mod_geq)
  then have "unat (w + 4095) div 4096 = 0" using unat_usize [of w] by simp
  then have "unat (pgroundup w) = 0" by (simp add: pgroundup_down unat_pgrounddown PGSIZE_def)
  with False show ?thesis by (simp add: unat_pgrounddown)
qed

text \<open>
  The address space layout keeps its regions apart. The stacks of different processes are
  separated by at least an unmapped guard page and lie below the trampoline; the trapframe slots of
  different processes are different pages between the top of user memory and the trampoline.
\<close>

lemma layout_disjoint:
  assumes "p < NPROC" "q < NPROC" "p < q"
  shows "kstack q + STACK_PAGE_NUM * PGSIZE + PGSIZE \<le> kstack p \<and>
    kstack p + STACK_PAGE_NUM * PGSIZE + PGSIZE \<le> TRAMPOLINE \<and> PGSIZE dvd kstack p \<and>
    trapframe_va q + PGSIZE \<le> trapframe_va p \<and> trapframe_va p + PGSIZE \<le> TRAMPOLINE \<and>
    user_mem_top NPROC \<le> trapframe_va q \<and> PGSIZE dvd trapframe_va p"
  using assms by (auto simp: layout_defs intro!: dvd_diff_nat)

end
