(* ===== verification/Kalloc.thy ===== *)
theory Kalloc
  imports Heap Params
begin

text \<open>
  The physical memory allocator of \<^verbatim>\<open>crates/kernel/src/kalloc.rs\<close>: the kernel's global
  allocator on top of the buddy allocator, and the reference counts of physical pages that
  copy-on-write sharing needs. The counts are 16-bit; a failing \<^verbatim>\<open>assert!\<close> and an
  \<^verbatim>\<open>unwrap\<close> of an error are \<open>Panic\<close>. The address of the first byte after the
  kernel image, which the linker provides, is an argument.
\<close>

section \<open>The global allocator\<close>

definition kmem_init :: "nat \<Rightarrow> buddy_allocator result" where
  "kmem_init end_ptr = (case buddy_init buddy_new end_ptr PHYSTOP of Ok s \<Rightarrow> Ok s | _ \<Rightarrow> Panic)"

text \<open>The null pointer is 0.\<close>

definition kmem_alloc :: "buddy_allocator \<Rightarrow> layout \<Rightarrow> (nat \<times> buddy_allocator) result" where
  "kmem_alloc s lay =
     (case buddy_alloc s lay of
        Ok (None, s') \<Rightarrow> Ok (0, s')
      | Ok (Some p, s') \<Rightarrow> Ok (p, s')
      | _ \<Rightarrow> Panic)"

definition kmem_dealloc :: "buddy_allocator \<Rightarrow> nat \<Rightarrow> buddy_allocator result" where
  "kmem_dealloc s ptr = (case buddy_dealloc s ptr of Ok s' \<Rightarrow> Ok s' | _ \<Rightarrow> Panic)"

definition free_pages :: "buddy_allocator \<Rightarrow> nat" where
  "free_pages s = free_bytes s div PGSIZE"

section \<open>Page reference counts\<close>

type_synonym u16 = "16 word"

definition NPAGE :: nat where
  "NPAGE = (PHYSTOP - KERNBASE) div PGSIZE"

definition pa2idx :: "nat \<Rightarrow> nat result" where
  "pa2idx pa =
     assert_then (KERNBASE \<le> pa \<and> pa < PHYSTOP) (assert_then (pa mod PGSIZE = 0)
       (Ok ((pa - KERNBASE) div PGSIZE)))"

definition page_ref_init :: "u16 list \<Rightarrow> nat \<Rightarrow> u16 list result" where
  "page_ref_init refs pa =
     obind (pa2idx pa) (\<lambda>idx.
     if idx < length refs then assert_then (refs ! idx = 0) (Ok (refs[idx := 1])) else Panic)"

definition page_ref_inc :: "u16 list \<Rightarrow> nat \<Rightarrow> u16 list result" where
  "page_ref_inc refs pa =
     obind (pa2idx pa) (\<lambda>idx.
     if idx < length refs then
       (let v = refs ! idx in assert_then (v \<noteq> 65535) (Ok (refs[idx := v + 1])))
     else Panic)"

definition page_ref_dec :: "u16 list \<Rightarrow> nat \<Rightarrow> (u16 \<times> u16 list) result" where
  "page_ref_dec refs pa =
     obind (pa2idx pa) (\<lambda>idx.
     if idx < length refs then
       (let v = refs ! idx in assert_then (v \<noteq> 0) (Ok (v - 1, refs[idx := v - 1])))
     else Panic)"

definition page_ref_get :: "u16 list \<Rightarrow> nat \<Rightarrow> u16 result" where
  "page_ref_get refs pa =
     obind (pa2idx pa) (\<lambda>idx. if idx < length refs then Ok (refs ! idx) else Panic)"

text \<open>The pages the table covers, and the counts it stands for.\<close>

definition is_page :: "nat \<Rightarrow> bool" where
  "is_page pa \<longleftrightarrow> KERNBASE \<le> pa \<and> pa < PHYSTOP \<and> PGSIZE dvd pa"

definition ref_count :: "u16 list \<Rightarrow> nat \<Rightarrow> nat" where
  "ref_count refs pa = unat (refs ! ((pa - KERNBASE) div PGSIZE))"

lemma pa2idx_page: "is_page pa \<Longrightarrow> pa2idx pa = Ok ((pa - KERNBASE) div PGSIZE)"
  by (auto simp: pa2idx_def is_page_def dvd_imp_mod_0)

lemma pa2idx_not_page: "\<not> is_page pa \<Longrightarrow> pa2idx pa = Panic"
  by (auto simp: pa2idx_def is_page_def assert_then_def mod_eq_0_iff_dvd)

lemma page_index_less: "is_page pa \<Longrightarrow> (pa - KERNBASE) div PGSIZE < NPAGE"
  by (auto simp: is_page_def NPAGE_def PHYSTOP_def KERNBASE_def PGSIZE_def)

lemma page_index_inject:
  assumes "is_page pa" "is_page pb"
  shows "(pa - KERNBASE) div PGSIZE = (pb - KERNBASE) div PGSIZE \<longleftrightarrow> pa = pb"
proof -
  have "PGSIZE dvd pa - KERNBASE" "PGSIZE dvd pb - KERNBASE"
    using assms by (auto simp: is_page_def KERNBASE_def PGSIZE_def intro!: dvd_diff_nat)
  then have "(pa - KERNBASE) div PGSIZE = (pb - KERNBASE) div PGSIZE \<longleftrightarrow> pa - KERNBASE = pb - KERNBASE"
    by (metis dvd_mult_div_cancel)
  then show ?thesis using assms by (auto simp: is_page_def)
qed

lemma unat_u16_inc: "v \<noteq> 65535 \<Longrightarrow> unat (v + 1 :: u16) = unat v + 1"
proof -
  assume "v \<noteq> 65535"
  then have "unat v \<noteq> 65535" by (simp add: word_unat_eq_iff)
  moreover have "unat v < 65536" using unsigned_less [of v] by simp
  ultimately show ?thesis by (simp add: unat_word_ariths)
qed

lemma u16_max_iff: "v = 65535 \<longleftrightarrow> unat (v :: u16) = 65535"
  by (auto simp: word_unat_eq_iff)

lemma ref_count_update:
  assumes "length refs = NPAGE" "is_page pa" "is_page pb"
  shows "ref_count (refs[(pa - KERNBASE) div PGSIZE := v]) pb = (if pb = pa then unat v else ref_count refs pb)"
  using assms page_index_less page_index_inject by (auto simp: ref_count_def nth_list_update)

text \<open>The operations on a page of physical memory, as counts.\<close>

lemma page_ref_get_ok:
  assumes "length refs = NPAGE" "is_page pa"
  shows "\<exists>v. page_ref_get refs pa = Ok v \<and> unat v = ref_count refs pa"
  using assms page_index_less [OF assms(2)] by (simp add: page_ref_get_def ref_count_def pa2idx_page)

lemma page_ref_init_ok:
  assumes "length refs = NPAGE" "is_page pa" "ref_count refs pa = 0"
  shows "\<exists>refs'. page_ref_init refs pa = Ok refs' \<and> length refs' = NPAGE \<and>
    (\<forall>pb. is_page pb \<longrightarrow> ref_count refs' pb = (if pb = pa then 1 else ref_count refs pb))"
  using assms page_index_less [OF assms(2)] ref_count_update [OF assms(1,2)]
  by (auto simp: page_ref_init_def ref_count_def [of refs] pa2idx_page unat_eq_0)

lemma page_ref_inc_ok:
  assumes "length refs = NPAGE" "is_page pa"
  shows "if ref_count refs pa = 65535 then page_ref_inc refs pa = Panic
    else \<exists>refs'. page_ref_inc refs pa = Ok refs' \<and> length refs' = NPAGE \<and>
      (\<forall>pb. is_page pb \<longrightarrow> ref_count refs' pb = (if pb = pa then ref_count refs pa + 1 else ref_count refs pb))"
proof -
  let ?v = "refs ! ((pa - KERNBASE) div PGSIZE)"
  have "page_ref_inc refs pa = (if ?v = 65535 then Panic else Ok (refs[(pa - KERNBASE) div PGSIZE := ?v + 1]))"
    using assms page_index_less [OF assms(2)] by (simp add: page_ref_inc_def pa2idx_page Let_def)
  then show ?thesis using assms ref_count_update [OF assms] unat_u16_inc [of ?v]
    by (simp add: ref_count_def [of refs pa] u16_max_iff)
qed

lemma page_ref_dec_ok:
  assumes "length refs = NPAGE" "is_page pa"
  shows "if ref_count refs pa = 0 then page_ref_dec refs pa = Panic
    else \<exists>v refs'. page_ref_dec refs pa = Ok (v, refs') \<and> length refs' = NPAGE \<and> unat v = ref_count refs pa - 1 \<and>
      (\<forall>pb. is_page pb \<longrightarrow> ref_count refs' pb = (if pb = pa then ref_count refs pa - 1 else ref_count refs pb))"
proof -
  let ?v = "refs ! ((pa - KERNBASE) div PGSIZE)"
  have "page_ref_dec refs pa = (if ?v = 0 then Panic else Ok (?v - 1, refs[(pa - KERNBASE) div PGSIZE := ?v - 1]))"
    using assms page_index_less [OF assms(2)] by (simp add: page_ref_dec_def pa2idx_page Let_def)
  then show ?thesis using assms ref_count_update [OF assms] unat_minus_one [of ?v]
    by (simp add: ref_count_def [of refs pa] unat_eq_0)
qed

section \<open>Properties\<close>

text \<open>
  Booting the heap. If at least two pages of memory follow the kernel image then
  \<^verbatim>\<open>kalloc::init\<close> does not panic and the heap manages the whole pages up to the end of
  physical memory.
\<close>

lemma kmem_init_ok:
  assumes "0 < end_ptr" "end_ptr + 2 * PGSIZE \<le> PHYSTOP"
  shows "\<exists>s. kmem_init end_ptr = Ok s \<and> heap_run end_ptr PHYSTOP s {} \<and>
    free_bytes s = PHYSTOP - data_end s \<and> end_ptr < data_end s"
proof -
  have top: "round_down PHYSTOP MAX_ALIGN = PHYSTOP" by (simp add: round_down_def MAX_ALIGN_def PHYSTOP_def KERNBASE_def)
  have b: "end_ptr \<le> round_up end_ptr MAX_ALIGN" "round_up end_ptr MAX_ALIGN < end_ptr + MAX_ALIGN"
    using round_up_bounds [OF assms(1), of MAX_ALIGN] by (simp_all add: MAX_ALIGN_def)
  have "round_up end_ptr MAX_ALIGN + MAX_ALIGN \<le> round_down PHYSTOP MAX_ALIGN"
    using b(2) assms(2) unfolding top by (simp add: MAX_ALIGN_def PGSIZE_def)
  from buddy_init_correct [OF _ assms(1) this, of buddy_new] obtain s where
    s: "buddy_init buddy_new end_ptr PHYSTOP = Ok s" "base s = round_up end_ptr MAX_ALIGN" "base s < data_end s"
      "end_addr s = PHYSTOP" "free_bytes s = end_addr s - data_end s"
    by (auto simp: buddy_new_def top)
  then show ?thesis using heap_init [OF s(1)] b(1) by (intro exI [of _ s]) (simp add: kmem_init_def)
qed

text \<open>
  C6. Page reference counts. For every page of physical memory the operations act on that page's
  count alone: they add or subtract exactly one, \<^verbatim>\<open>page_ref_dec\<close> returns the new
  count, an increment panics instead of wrapping around at 65535 and a decrement at 0. An address that
  is not a page of physical memory panics.
\<close>

theorem page_refs_exact:
  assumes len: "length refs = NPAGE" and pb: "is_page pb"
  shows "(\<not> is_page pa \<longrightarrow> page_ref_inc refs pa = Panic \<and> page_ref_dec refs pa = Panic \<and> page_ref_get refs pa = Panic) \<and>
    (is_page pa \<longrightarrow>
      (if ref_count refs pa = 65535 then page_ref_inc refs pa = Panic
       else \<exists>refs'. page_ref_inc refs pa = Ok refs' \<and> length refs' = NPAGE \<and>
         ref_count refs' pb = (if pb = pa then ref_count refs pa + 1 else ref_count refs pb)) \<and>
      (if ref_count refs pa = 0 then page_ref_dec refs pa = Panic
       else \<exists>r refs'. page_ref_dec refs pa = Ok (r, refs') \<and> length refs' = NPAGE \<and> unat r = ref_count refs pa - 1 \<and>
         ref_count refs' pb = (if pb = pa then ref_count refs pa - 1 else ref_count refs pb)) \<and>
      (\<exists>v. page_ref_get refs pa = Ok v \<and> unat v = ref_count refs pa))"
proof (cases "is_page pa")
  case True
  then show ?thesis using page_ref_inc_ok [OF len True] page_ref_dec_ok [OF len True] page_ref_get_ok [OF len True] pb
    by (auto split: if_splits)
qed (simp add: page_ref_inc_def page_ref_dec_def page_ref_get_def pa2idx_not_page)

theorem page_refs_exact_witness:
  "\<exists>refs'. page_ref_inc (replicate NPAGE 0) KERNBASE = Ok refs' \<and> ref_count refs' KERNBASE = 1"
proof -
  have "is_page KERNBASE" by (simp add: is_page_def PHYSTOP_def KERNBASE_def PGSIZE_def)
  moreover from page_index_less [OF this] have "ref_count (replicate NPAGE 0) KERNBASE = 0" by (simp add: ref_count_def)
  ultimately show ?thesis using page_refs_exact [of "replicate NPAGE 0" KERNBASE KERNBASE] by auto
qed

end
