(* ===== verification/Fifo.thy ===== *)
theory Fifo
  imports Params
begin

text \<open>
  The contract of a bounded first-in first-out queue, as the scheduler's run queues and the
  kernel's channels offer it: an element that is accepted goes to the back, and the front is what
  comes out. The client lemma, proved once, is about arbitrary sequences of operations: what was in
  the queue followed by what was accepted is what came out followed by what is left.
\<close>

datatype 'a qop = Enq 'a | Deq

fun accepted :: "('q \<Rightarrow> 'a \<Rightarrow> 'q option) \<Rightarrow> ('q \<Rightarrow> 'a option \<times> 'q) \<Rightarrow> 'a qop list \<Rightarrow> 'q \<Rightarrow> 'a list" where
  "accepted enq deq [] q = []"
| "accepted enq deq (Enq x # ops) q =
     (case enq q x of None \<Rightarrow> accepted enq deq ops q | Some q' \<Rightarrow> x # accepted enq deq ops q')"
| "accepted enq deq (Deq # ops) q = accepted enq deq ops (snd (deq q))"

fun delivered :: "('q \<Rightarrow> 'a \<Rightarrow> 'q option) \<Rightarrow> ('q \<Rightarrow> 'a option \<times> 'q) \<Rightarrow> 'a qop list \<Rightarrow> 'q \<Rightarrow> 'a list" where
  "delivered enq deq [] q = []"
| "delivered enq deq (Enq x # ops) q =
     (case enq q x of None \<Rightarrow> delivered enq deq ops q | Some q' \<Rightarrow> delivered enq deq ops q')"
| "delivered enq deq (Deq # ops) q =
     (case deq q of (None, q') \<Rightarrow> delivered enq deq ops q' | (Some x, q') \<Rightarrow> x # delivered enq deq ops q')"

fun final :: "('q \<Rightarrow> 'a \<Rightarrow> 'q option) \<Rightarrow> ('q \<Rightarrow> 'a option \<times> 'q) \<Rightarrow> 'a qop list \<Rightarrow> 'q \<Rightarrow> 'q" where
  "final enq deq [] q = q"
| "final enq deq (Enq x # ops) q = (case enq q x of None \<Rightarrow> final enq deq ops q | Some q' \<Rightarrow> final enq deq ops q')"
| "final enq deq (Deq # ops) q = final enq deq ops (snd (deq q))"

locale bounded_fifo =
  fixes inv :: "'q \<Rightarrow> bool" and view :: "'q \<Rightarrow> 'a list" and cap :: "'q \<Rightarrow> nat" and ok :: "'a \<Rightarrow> bool"
    and enq :: "'q \<Rightarrow> 'a \<Rightarrow> 'q option" and deq :: "'q \<Rightarrow> 'a option \<times> 'q"
  assumes view_bound: "inv q \<Longrightarrow> length (view q) \<le> cap q"
    and enq_room: "inv q \<Longrightarrow> ok x \<Longrightarrow> length (view q) < cap q \<Longrightarrow>
      \<exists>q'. enq q x = Some q' \<and> inv q' \<and> view q' = view q @ [x] \<and> cap q' = cap q"
    and enq_full: "inv q \<Longrightarrow> length (view q) = cap q \<Longrightarrow> enq q x = None"
    and deq_empty: "inv q \<Longrightarrow> view q = [] \<Longrightarrow> deq q = (None, q)"
    and deq_front: "inv q \<Longrightarrow> view q = x # xs \<Longrightarrow>
      \<exists>q'. deq q = (Some x, q') \<and> inv q' \<and> view q' = xs \<and> cap q' = cap q"
begin

text \<open>A sequence of operations, all on elements the queue takes.\<close>

definition sound_ops :: "'a qop list \<Rightarrow> bool" where
  "sound_ops ops \<longleftrightarrow> (\<forall>x. Enq x \<in> set ops \<longrightarrow> ok x)"

lemma fifo_order:
  "inv q \<Longrightarrow> sound_ops ops \<Longrightarrow>
   inv (final enq deq ops q) \<and> cap (final enq deq ops q) = cap q \<and>
   view q @ accepted enq deq ops q = delivered enq deq ops q @ view (final enq deq ops q)"
proof (induction ops arbitrary: q)
  case Nil
  then show ?case by simp
next
  case (Cons op ops)
  have ops: "sound_ops ops" using Cons.prems(2) by (simp add: sound_ops_def)
  show ?case
  proof (cases op)
    case (Enq x)
    with Cons.prems have "ok x" by (simp add: sound_ops_def)
    show ?thesis
    proof (cases "length (view q) < cap q")
      case True
      with enq_room [OF Cons.prems(1) \<open>ok x\<close>] obtain q' where
        "enq q x = Some q'" "inv q'" "view q' = view q @ [x]" "cap q' = cap q" by blast
      with Cons.IH [of q'] ops Enq show ?thesis by simp
    next
      case False
      with view_bound [OF Cons.prems(1)] have "enq q x = None"
        by (intro enq_full [OF Cons.prems(1)]) simp
      with Cons.IH [of q] Cons.prems(1) ops Enq show ?thesis by simp
    qed
  next
    case Deq
    show ?thesis
    proof (cases "view q")
      case Nil
      with deq_empty [OF Cons.prems(1)] Cons.IH [of q] Cons.prems(1) ops Deq show ?thesis by simp
    next
      case (Cons x xs)
      with deq_front [OF Cons.prems(1)] obtain q' where
        "deq q = (Some x, q')" "inv q'" "view q' = xs" "cap q' = cap q" by blast
      with Cons.IH [of q'] ops Deq Cons show ?thesis by simp
    qed
  qed
qed

end

end
