(* ===== verification/Runq.thy ===== *)
theory Runq
  imports Fifo
begin

text \<open>
  The scheduler's run queues (\<^verbatim>\<open>crates/kernel/src/runq.rs\<close>): one ring buffer of
  process indices per CPU, and the idle CPU's search for work in the queues of the others. A
  failing \<^verbatim>\<open>assert!\<close> or an index out of bounds is \<open>Panic\<close>.

  \<open>rq_view\<close> is the list a ring buffer stands for. The ring buffer is shown to be a bounded
  queue on it (the interpretation \<open>rq\<close>); stealing takes the front of some other queue, keeps
  every other one, and finds work whenever there is any.
\<close>

section \<open>The source's operations\<close>

record run_queue =
  rq_buf :: "nat list"
  rq_head :: nat
  rq_tail :: nat
  rq_len :: nat

definition runq_new :: run_queue where
  "runq_new = \<lparr>rq_buf = replicate NPROC 0, rq_head = 0, rq_tail = 0, rq_len = 0\<rparr>"

definition rq_is_empty :: "run_queue \<Rightarrow> bool" where
  "rq_is_empty q \<longleftrightarrow> rq_len q = 0"

definition rq_push :: "run_queue \<Rightarrow> nat \<Rightarrow> run_queue result" where
  "rq_push q idx =
     assert_then (idx < NPROC) (assert_then (rq_len q < NPROC)
       (if rq_tail q < length (rq_buf q)
        then Ok (q\<lparr>rq_buf := (rq_buf q)[rq_tail q := idx], rq_tail := (rq_tail q + 1) mod NPROC,
                  rq_len := rq_len q + 1\<rparr>)
        else Panic))"

definition rq_pop :: "run_queue \<Rightarrow> (nat option \<times> run_queue) result" where
  "rq_pop q =
     (if rq_len q = 0 then Ok (None, q)
      else if rq_head q < length (rq_buf q)
      then Ok (Some (rq_buf q ! rq_head q),
               q\<lparr>rq_head := (rq_head q + 1) mod NPROC, rq_len := rq_len q - 1\<rparr>)
      else Panic)"

text \<open>
  The statics \<^verbatim>\<open>RUNQS\<close> and \<^verbatim>\<open>STEAL_START\<close>; the latter is an atomic
  \<^verbatim>\<open>usize\<close>, whose \<^verbatim>\<open>fetch_add\<close> wraps.
\<close>

record run_queues =
  RUNQS :: "run_queue list"
  STEAL_START :: usize

definition runqs_new :: run_queues where
  "runqs_new = \<lparr>RUNQS = replicate NCPU runq_new, STEAL_START = 0\<rparr>"

text \<open>The CPU running the code is an argument where the source reads it from the hart.\<close>

definition runq_push_cpu :: "run_queues \<Rightarrow> nat \<Rightarrow> nat \<Rightarrow> run_queues result" where
  "runq_push_cpu s cpu idx =
     assert_then (cpu < NCPU)
       (if cpu < length (RUNQS s)
        then obind (rq_push (RUNQS s ! cpu) idx) (\<lambda>q. Ok (s\<lparr>RUNQS := (RUNQS s)[cpu := q]\<rparr>))
        else Panic)"

definition runq_push :: "run_queues \<Rightarrow> nat \<Rightarrow> nat \<Rightarrow> run_queues result" where
  "runq_push s this_cpu idx = runq_push_cpu s this_cpu idx"

definition runq_is_empty :: "run_queues \<Rightarrow> nat \<Rightarrow> bool result" where
  "runq_is_empty s this_cpu =
     (if this_cpu < length (RUNQS s) then Ok (rq_is_empty (RUNQS s ! this_cpu)) else Panic)"

definition runq_pop_local :: "run_queues \<Rightarrow> nat \<Rightarrow> (nat option \<times> run_queues) result" where
  "runq_pop_local s cpu =
     assert_then (cpu < NCPU)
       (if cpu < length (RUNQS s)
        then obind (rq_pop (RUNQS s ! cpu)) (\<lambda>(r, q). Ok (r, s\<lparr>RUNQS := (RUNQS s)[cpu := q]\<rparr>))
        else Panic)"

text \<open>The loop over the victims \<open>(start + off) % NCPU\<close>, \<open>n\<close> of them left.\<close>

fun steal_loop :: "run_queues \<Rightarrow> nat \<Rightarrow> nat \<Rightarrow> nat \<Rightarrow> nat \<Rightarrow> (nat option \<times> run_queues) result" where
  "steal_loop s cpu start off 0 = Ok (None, s)"
| "steal_loop s cpu start off (Suc n) =
     (let victim = (start + off) mod NCPU in
      if victim = cpu then steal_loop s cpu start (off + 1) n
      else obind (runq_pop_local s victim) (\<lambda>(r, s').
        (case r of Some idx \<Rightarrow> Ok (Some idx, s') | None \<Rightarrow> steal_loop s' cpu start (off + 1) n)))"

definition runq_pop_or_steal :: "run_queues \<Rightarrow> nat \<Rightarrow> (nat option \<times> run_queues) result" where
  "runq_pop_or_steal s cpu =
     obind (runq_pop_local s cpu) (\<lambda>(r, s').
       (case r of
          Some idx \<Rightarrow> Ok (Some idx, s')
        | None \<Rightarrow>
            (let start = unat (STEAL_START s') mod NCPU
             in steal_loop (s'\<lparr>STEAL_START := STEAL_START s' + 1\<rparr>) cpu start 0 NCPU)))"

definition runq_pop :: "run_queues \<Rightarrow> nat \<Rightarrow> (nat option \<times> run_queues) result" where
  "runq_pop s this_cpu = runq_pop_or_steal s this_cpu"

section \<open>One ring buffer\<close>

definition rq_view :: "run_queue \<Rightarrow> nat list" where
  "rq_view q = map (\<lambda>i. rq_buf q ! ((rq_head q + i) mod NPROC)) [0..<rq_len q]"

definition rq_inv :: "run_queue \<Rightarrow> bool" where
  "rq_inv q \<longleftrightarrow> length (rq_buf q) = NPROC \<and> rq_head q < NPROC \<and> rq_len q \<le> NPROC \<and>
     rq_tail q = (rq_head q + rq_len q) mod NPROC \<and> (\<forall>x \<in> set (rq_view q). x < NPROC)"

lemma NPROC_pos [simp]: "0 < NPROC"
  by (simp add: NPROC_def)

lemma length_rq_view [simp]: "length (rq_view q) = rq_len q"
  by (simp add: rq_view_def)

lemma rq_new_inv: "rq_inv runq_new" "rq_view runq_new = []"
  by (simp_all add: rq_inv_def runq_new_def rq_view_def)

text \<open>The slot after the last element is not one of the occupied ones.\<close>

lemma ring_slot_free: "i < n \<Longrightarrow> n < NPROC \<Longrightarrow> (h + i) mod NPROC \<noteq> (h + n) mod NPROC"
proof
  assume i: "i < n" "n < NPROC" and eq: "(h + i) mod NPROC = (h + n) mod NPROC"
  then have "NPROC dvd (h + n) - (h + i)" using mod_eq_dvd_iff_nat [of "h + i" "h + n" NPROC] by simp
  with i show False using nat_dvd_not_less [of "n - i" NPROC] by simp
qed

lemma rq_push_room:
  assumes inv: "rq_inv q" and idx: "idx < NPROC" and room: "rq_len q < NPROC"
  shows "\<exists>q'. rq_push q idx = Ok q' \<and> rq_inv q' \<and> rq_view q' = rq_view q @ [idx]"
proof -
  let ?t = "rq_tail q"
  let ?q = "q\<lparr>rq_buf := (rq_buf q)[?t := idx], rq_tail := (?t + 1) mod NPROC, rq_len := rq_len q + 1\<rparr>"
  have t: "?t = (rq_head q + rq_len q) mod NPROC" "?t < length (rq_buf q)" using inv by (auto simp: rq_inv_def)
  have "?t \<noteq> (rq_head q + i) mod NPROC" if "i < rq_len q" for i
    using ring_slot_free [OF that room, of "rq_head q"] t(1) by simp
  then have "rq_view ?q = rq_view q @ [idx]" using t(2) by (simp add: rq_view_def t(1) [symmetric])
  moreover from this have "rq_inv ?q"
    using inv idx room t by (auto simp: rq_inv_def mod_Suc_eq)
  moreover have "rq_push q idx = Ok ?q" using idx room t by (simp add: rq_push_def)
  ultimately show ?thesis by blast
qed

lemma rq_push_panics: "rq_push q idx = Panic \<longleftrightarrow> NPROC \<le> idx \<or> NPROC \<le> rq_len q \<or> length (rq_buf q) \<le> rq_tail q"
  by (auto simp: rq_push_def assert_then_def)

lemma rq_pop_empty: "rq_inv q \<Longrightarrow> rq_view q = [] \<Longrightarrow> rq_pop q = Ok (None, q)"
  using length_rq_view [of q] by (simp add: rq_pop_def)

lemma rq_pop_front:
  assumes inv: "rq_inv q" and view: "rq_view q = x # xs"
  shows "\<exists>q'. rq_pop q = Ok (Some x, q') \<and> rq_inv q' \<and> rq_view q' = xs"
proof -
  let ?q = "q\<lparr>rq_head := (rq_head q + 1) mod NPROC, rq_len := rq_len q - 1\<rparr>"
  have len: "rq_len q = Suc (length xs)" using view length_rq_view [of q] by simp
  have hd: "rq_head q < length (rq_buf q)" "rq_head q mod NPROC = rq_head q" using inv by (simp_all add: rq_inv_def)
  have "rq_view q = rq_buf q ! rq_head q # rq_view ?q"
    using len hd(2) by (simp add: rq_view_def upt_conv_Cons map_Suc_upt [symmetric] mod_add_left_eq del: upt_Suc)
  with view have v: "rq_buf q ! rq_head q = x" "rq_view ?q = xs" by simp_all
  moreover have "rq_inv ?q" using inv view v(2) len by (auto simp: rq_inv_def mod_add_left_eq)
  moreover have "rq_pop q = Ok (Some (rq_buf q ! rq_head q), ?q)" using len hd by (simp add: rq_pop_def)
  ultimately show ?thesis by blast
qed

definition rq_enq :: "run_queue \<Rightarrow> nat \<Rightarrow> run_queue option" where
  "rq_enq q x = (case rq_push q x of Ok q' \<Rightarrow> Some q' | _ \<Rightarrow> None)"

definition rq_deq :: "run_queue \<Rightarrow> nat option \<times> run_queue" where
  "rq_deq q = (case rq_pop q of Ok r \<Rightarrow> r | _ \<Rightarrow> (None, q))"

interpretation rq: bounded_fifo rq_inv rq_view "\<lambda>_. NPROC" "\<lambda>x. x < NPROC" rq_enq rq_deq
proof unfold_locales
  show "length (rq_view q) \<le> NPROC" if "rq_inv q" for q using that by (simp add: rq_inv_def)
  show "\<exists>q'. rq_enq q x = Some q' \<and> rq_inv q' \<and> rq_view q' = rq_view q @ [x] \<and> NPROC = NPROC"
    if "rq_inv q" "x < NPROC" "length (rq_view q) < NPROC" for q x
    using rq_push_room [of q x] that by (auto simp: rq_enq_def)
  show "rq_enq q x = None" if "rq_inv q" "length (rq_view q) = NPROC" for q x
    using rq_push_panics [of q x] that by (simp add: rq_enq_def)
  show "rq_deq q = (None, q)" if "rq_inv q" "rq_view q = []" for q
    using rq_pop_empty [OF that] by (simp add: rq_deq_def)
  show "\<exists>q'. rq_deq q = (Some x, q') \<and> rq_inv q' \<and> rq_view q' = xs \<and> NPROC = NPROC"
    if "rq_inv q" "rq_view q = x # xs" for q x xs
    using rq_pop_front [OF that] by (auto simp: rq_deq_def)
qed

section \<open>All queues\<close>

definition runqs_inv :: "run_queues \<Rightarrow> bool" where
  "runqs_inv s \<longleftrightarrow> length (RUNQS s) = NCPU \<and> (\<forall>q \<in> set (RUNQS s). rq_inv q)"

definition runqs_view :: "run_queues \<Rightarrow> nat list list" where
  "runqs_view s = map rq_view (RUNQS s)"

lemma runqs_new_inv: "runqs_inv runqs_new" "runqs_view runqs_new = replicate NCPU []"
  by (simp_all add: runqs_inv_def runqs_view_def runqs_new_def rq_new_inv)

lemma runqs_view_nth: "runqs_inv s \<Longrightarrow> c < NCPU \<Longrightarrow> runqs_view s ! c = rq_view (RUNQS s ! c)"
  by (simp add: runqs_view_def runqs_inv_def)

lemma length_runqs_view [simp]: "runqs_inv s \<Longrightarrow> length (runqs_view s) = NCPU"
  by (simp add: runqs_view_def runqs_inv_def)

lemma runq_push_cpu_room:
  assumes "runqs_inv s" "cpu < NCPU" "idx < NPROC" "length (runqs_view s ! cpu) < NPROC"
  shows "\<exists>s'. runq_push_cpu s cpu idx = Ok s' \<and> runqs_inv s' \<and> STEAL_START s' = STEAL_START s \<and>
    runqs_view s' = (runqs_view s)[cpu := runqs_view s ! cpu @ [idx]]"
proof -
  have q: "rq_inv (RUNQS s ! cpu)" "cpu < length (RUNQS s)" using assms(1,2) by (simp_all add: runqs_inv_def)
  have room: "rq_len (RUNQS s ! cpu) < NPROC" using assms(4) runqs_view_nth [OF assms(1,2)] by simp
  from rq_push_room [OF q(1) assms(3) room] obtain q' where
    "rq_push (RUNQS s ! cpu) idx = Ok q'" "rq_inv q'" "rq_view q' = rq_view (RUNQS s ! cpu) @ [idx]" by blast
  with q assms(1,2) show ?thesis
    by (intro exI [of _ "s\<lparr>RUNQS := (RUNQS s)[cpu := q']\<rparr>"])
      (auto simp: runq_push_cpu_def runqs_inv_def runqs_view_def map_update dest: set_update_subset_insert [THEN subsetD])
qed

lemma runq_pop_local_spec:
  assumes "runqs_inv s" "cpu < NCPU"
  shows "case runqs_view s ! cpu of
      [] \<Rightarrow> runq_pop_local s cpu = Ok (None, s)
    | x # xs \<Rightarrow> (\<exists>s'. runq_pop_local s cpu = Ok (Some x, s') \<and> runqs_inv s' \<and>
        STEAL_START s' = STEAL_START s \<and> runqs_view s' = (runqs_view s)[cpu := xs])"
proof -
  have q: "rq_inv (RUNQS s ! cpu)" "cpu < length (RUNQS s)" using assms by (simp_all add: runqs_inv_def)
  note v = runqs_view_nth [OF assms]
  show ?thesis
  proof (cases "runqs_view s ! cpu")
    case Nil
    then show ?thesis using rq_pop_empty [OF q(1)] q(2) assms(2) v by (simp add: runq_pop_local_def)
  next
    case (Cons x xs)
    from rq_pop_front [OF q(1)] Cons v obtain q' where
      "rq_pop (RUNQS s ! cpu) = Ok (Some x, q')" "rq_inv q'" "rq_view q' = xs" by auto
    with Cons q assms show ?thesis
      by (auto simp: runq_pop_local_def runqs_inv_def runqs_view_def map_update dest: set_update_subset_insert [THEN subsetD])
  qed
qed

text \<open>The victims a search visits, in order: every CPU but the searching one, from \<open>start\<close> on.\<close>

definition victims :: "nat \<Rightarrow> nat \<Rightarrow> nat \<Rightarrow> nat \<Rightarrow> nat list" where
  "victims cpu start off n = filter (\<lambda>v. v \<noteq> cpu) (map (\<lambda>i. (start + i) mod NCPU) [off..<off + n])"

text \<open>The first queue with work among some CPUs gives up its front.\<close>

fun take_first :: "nat list \<Rightarrow> nat list list \<Rightarrow> (nat \<times> nat list list) option" where
  "take_first [] qs = None"
| "take_first (v # vs) qs = (case qs ! v of [] \<Rightarrow> take_first vs qs | x # xs \<Rightarrow> Some (x, qs[v := xs]))"

lemma steal_loop_spec:
  assumes "runqs_inv s"
  shows "\<exists>s'. runqs_inv s' \<and> STEAL_START s' = STEAL_START s \<and>
    (case take_first (victims cpu start off n) (runqs_view s) of
       None \<Rightarrow> steal_loop s cpu start off n = Ok (None, s') \<and> runqs_view s' = runqs_view s
     | Some (x, qs) \<Rightarrow> steal_loop s cpu start off n = Ok (Some x, s') \<and> runqs_view s' = qs)"
proof (induction n arbitrary: off)
  case 0
  show ?case using assms by (intro exI [of _ s]) (simp add: victims_def)
next
  case (Suc n)
  let ?v = "(start + off) mod NCPU"
  have vs: "victims cpu start off (Suc n) = (if ?v = cpu then [] else [?v]) @ victims cpu start (Suc off) n"
    by (simp add: victims_def upt_conv_Cons del: upt_Suc)
  have v: "?v < NCPU" by (simp add: NCPU_def)
  show ?case
  proof (cases "?v = cpu \<or> runqs_view s ! ?v = []")
    case True
    then have "steal_loop s cpu start off (Suc n) = steal_loop s cpu start (Suc off) n"
      using runq_pop_local_spec [OF assms v] by (cases "?v = cpu") (simp_all add: Let_def)
    moreover have "take_first (victims cpu start off (Suc n)) (runqs_view s) =
        take_first (victims cpu start (Suc off) n) (runqs_view s)"
      using True by (auto simp: vs)
    ultimately show ?thesis using Suc.IH [of "Suc off"] by (simp only:)
  next
    case False
    then obtain x xs where x: "runqs_view s ! ?v = x # xs" "?v \<noteq> cpu" by (auto simp: neq_Nil_conv)
    with runq_pop_local_spec [OF assms v] show ?thesis by (auto simp: vs Let_def)
  qed
qed

text \<open>A search starting anywhere visits every CPU.\<close>

lemma victims_all: "set (victims cpu start 0 NCPU) = {..<NCPU} - {cpu}"
proof -
  have "v \<in> (\<lambda>i. (start + i) mod NCPU) ` {0..<NCPU}" if "v < NCPU" for v
  proof -
    let ?i = "(v + (NCPU - start mod NCPU)) mod NCPU"
    have "(start + ?i) mod NCPU = (start mod NCPU + (v + (NCPU - start mod NCPU))) mod NCPU"
      by (simp only: mod_add_right_eq mod_add_left_eq)
    also have "start mod NCPU + (v + (NCPU - start mod NCPU)) = v + NCPU"
      using mod_less_divisor [of NCPU start] by (simp add: NCPU_def)
    also have "(v + NCPU) mod NCPU = v" using that by simp
    finally have "v = (start + ?i) mod NCPU" by simp
    moreover have "?i < NCPU" by (simp add: NCPU_def)
    ultimately show ?thesis by (intro image_eqI [of _ _ ?i]) simp_all
  qed
  then show ?thesis by (auto simp: victims_def NCPU_def)
qed

lemma take_first_None: "take_first vs qs = None \<longleftrightarrow> (\<forall>v \<in> set vs. qs ! v = [])"
  by (induction vs) (auto split: list.splits)

lemma take_first_Some:
  "take_first vs qs = Some (x, qs') \<Longrightarrow> \<exists>v xs. v \<in> set vs \<and> qs ! v = x # xs \<and> qs' = qs[v := xs]"
  by (induction vs) (auto split: list.splits)

lemma pop_or_steal_spec:
  assumes inv: "runqs_inv s" and cpu: "cpu < NCPU"
  defines "vs \<equiv> cpu # victims cpu (unat (STEAL_START s) mod NCPU) 0 NCPU"
  shows "\<exists>s'. runqs_inv s' \<and>
    (case take_first vs (runqs_view s) of
       None \<Rightarrow> runq_pop_or_steal s cpu = Ok (None, s') \<and> runqs_view s' = runqs_view s
     | Some (x, qs) \<Rightarrow> runq_pop_or_steal s cpu = Ok (Some x, s') \<and> runqs_view s' = qs)"
proof (cases "runqs_view s ! cpu")
  case Nil
  let ?s = "s\<lparr>STEAL_START := STEAL_START s + 1\<rparr>" and ?start = "unat (STEAL_START s) mod NCPU"
  have inv': "runqs_inv ?s" using inv by (simp add: runqs_inv_def)
  have v: "runqs_view ?s = runqs_view s" by (simp add: runqs_view_def)
  have t: "take_first vs (runqs_view s) = take_first (victims cpu ?start 0 NCPU) (runqs_view s)"
    using Nil by (simp add: vs_def)
  have r: "runq_pop_or_steal s cpu = steal_loop ?s cpu ?start 0 NCPU"
    using runq_pop_local_spec [OF assms(1,2)] Nil by (simp add: runq_pop_or_steal_def)
  show ?thesis using steal_loop_spec [OF inv', of cpu ?start 0 NCPU] unfolding v t r by blast
next
  case (Cons x xs)
  with runq_pop_local_spec [OF assms(1,2)] show ?thesis
    by (auto simp: runq_pop_or_steal_def vs_def)
qed

text \<open>Every operation keeps the queued processes, up to the one it adds or takes.\<close>

definition queued :: "run_queues \<Rightarrow> nat multiset" where
  "queued s = (\<Sum>q \<leftarrow> runqs_view s. mset q)"

lemma sum_mset_update:
  "k < length qs \<Longrightarrow> qs ! k = x # xs \<Longrightarrow> (\<Sum>q \<leftarrow> qs. mset q) = add_mset x (\<Sum>q \<leftarrow> qs[k := xs]. mset q)"
proof (induction qs arbitrary: k)
  case (Cons q qs)
  then show ?case by (cases k) auto
qed simp

section \<open>Properties\<close>

text \<open>
  The ring buffer is a bounded queue. Over any sequence of pushes of process indices and pops, the
  contents at the start followed by the accepted pushes equal the popped indices followed by the
  contents at the end, and the ring's invariant holds at the end.
\<close>

lemma runq_fifo:
  assumes "rq_inv q" "\<forall>x. Enq x \<in> set ops \<longrightarrow> x < NPROC"
  shows "rq_inv (final rq_enq rq_deq ops q) \<and>
    rq_view q @ accepted rq_enq rq_deq ops q = delivered rq_enq rq_deq ops q @ rq_view (final rq_enq rq_deq ops q)"
  using rq.fifo_order [of q ops] assms by (simp add: rq.sound_ops_def)

text \<open>
  Work stealing. \<^verbatim>\<open>runq_pop_or_steal\<close> never panics. It returns nothing, and changes
  no queue, exactly when every queue is empty. Otherwise it takes the front of the searching CPU's
  own queue if that has one and of some other queue if not, and keeps every other queue; no process
  is lost or run twice.
\<close>

lemma pop_or_steal_work_conserving:
  assumes "runqs_inv s" "cpu < NCPU"
  shows "\<exists>r s'. runq_pop_or_steal s cpu = Ok (r, s') \<and> runqs_inv s' \<and>
    (case r of
       None \<Rightarrow> (\<forall>c < NCPU. runqs_view s ! c = []) \<and> runqs_view s' = runqs_view s
     | Some x \<Rightarrow> (\<exists>v xs. v < NCPU \<and> runqs_view s ! v = x # xs \<and> runqs_view s' = (runqs_view s)[v := xs] \<and>
         (runqs_view s ! cpu \<noteq> [] \<longrightarrow> v = cpu)) \<and> queued s = add_mset x (queued s'))"
proof -
  let ?vs = "cpu # victims cpu (unat (STEAL_START s) mod NCPU) 0 NCPU"
  have vs: "set ?vs = {..<NCPU}" using assms(2) by (auto simp: victims_all)
  from pop_or_steal_spec [OF assms] obtain s' where s': "runqs_inv s'"
    "case take_first ?vs (runqs_view s) of
       None \<Rightarrow> runq_pop_or_steal s cpu = Ok (None, s') \<and> runqs_view s' = runqs_view s
     | Some (x, qs) \<Rightarrow> runq_pop_or_steal s cpu = Ok (Some x, s') \<and> runqs_view s' = qs" by blast
  show ?thesis
  proof (cases "take_first ?vs (runqs_view s)")
    case None
    then have "\<forall>c < NCPU. runqs_view s ! c = []" using vs unfolding take_first_None by blast
    with s' None show ?thesis by (intro exI [of _ None] exI [of _ s']) simp
  next
    case (Some p)
    obtain x qs where p: "p = (x, qs)" by (cases p)
    with Some take_first_Some [of ?vs "runqs_view s" x qs] vs obtain v xs where
      v: "v < NCPU" "runqs_view s ! v = x # xs" "qs = (runqs_view s)[v := xs]" by auto
    have run: "runq_pop_or_steal s cpu = Ok (Some x, s')" "runqs_view s' = qs" using s'(2) Some p by simp_all
    show ?thesis
    proof (cases "runqs_view s ! cpu")
      case Nil
      have "queued s = add_mset x (queued s')"
        unfolding queued_def run(2) v(3) by (rule sum_mset_update) (use v assms in simp_all)
      with Nil v s'(1) run show ?thesis
        by (intro exI [of _ "Some x"] exI [of _ s']) auto
    next
      case (Cons y ys)
      with Some p have "x = y" "qs = (runqs_view s)[cpu := ys]" by simp_all
      moreover have "(\<Sum>q \<leftarrow> runqs_view s. mset q) = add_mset y (\<Sum>q \<leftarrow> (runqs_view s)[cpu := ys]. mset q)"
        using Cons assms by (intro sum_mset_update) simp_all
      ultimately show ?thesis using Cons s'(1) run assms(2)
        by (intro exI [of _ "Some x"] exI [of _ s']) (auto simp: queued_def)
    qed
  qed
qed

end
