(* ===== verification/Bytes.thy ===== *)
theory Bytes
  imports Params
begin

text \<open>
  Little-endian encoding of machine integers, as the kernel's on-disk and in-memory structures use
  it: \<open>le_bytes n w\<close> are the \<open>n\<close> low bytes of a word, least significant first, and
  \<open>of_le\<close> reads a word back. Both are inverse to each other on words and byte lists of the
  matching size. \<open>slice\<close> and \<open>patch\<close> read and replace a part of a list.
\<close>

type_synonym byte = "8 word"
type_synonym u32 = "32 word"
type_synonym u64 = "64 word"

fun le_bytes :: "nat \<Rightarrow> 'a::len word \<Rightarrow> byte list" where
  "le_bytes 0 w = []"
| "le_bytes (Suc n) w = ucast w # le_bytes n (drop_bit 8 w)"

fun of_le :: "byte list \<Rightarrow> 'a::len word" where
  "of_le [] = 0"
| "of_le (b # bs) = ucast b OR push_bit 8 (of_le bs)"

lemma length_le_bytes [simp]: "length (le_bytes n w) = n"
  by (induction n arbitrary: w) simp_all

lemma nth_le_bytes: "k < n \<Longrightarrow> le_bytes n w ! k = ucast (drop_bit (8 * k) w)"
proof (induction n arbitrary: w k)
  case (Suc n)
  then show ?case by (cases k) (simp_all add: add.commute)
qed simp

lemma bit_of_le:
  "bit (of_le bs :: 'a::len word) i \<longleftrightarrow> i < LENGTH('a) \<and> i div 8 < length bs \<and> bit (bs ! (i div 8)) (i mod 8)"
proof (induction bs arbitrary: i)
  case Nil
  then show ?case by simp
next
  case (Cons b bs)
  show ?case
  proof (cases "i < 8")
    case True
    then show ?thesis by (auto simp: bit_simps)
  next
    case False
    then have "i div 8 = Suc ((i - 8) div 8)" "i mod 8 = (i - 8) mod 8" by (simp_all add: le_div_geq le_mod_geq)
    moreover have "\<not> bit b i" using False bit_imp_le_length [of b i] by auto
    ultimately show ?thesis using False by (auto simp: bit_simps Cons.IH dest: bit_imp_le_length)
  qed
qed

lemma of_le_le_bytes [simp]:
  assumes "LENGTH('a::len) = 8 * n"
  shows "of_le (le_bytes n w) = (w :: 'a word)"
proof (rule bit_word_eqI)
  fix i assume i: "i < LENGTH('a)"
  then have k: "i div 8 < n" "8 * (i div 8) + i mod 8 = i" using assms by (simp_all add: less_mult_imp_div_less mult.commute)
  with i show "bit (of_le (le_bytes n w) :: 'a word) i = bit w i"
    by (auto simp: bit_of_le nth_le_bytes bit_simps)
qed

lemma le_bytes_of_le [simp]:
  assumes "8 * length bs \<le> LENGTH('a::len)"
  shows "le_bytes (length bs) (of_le bs :: 'a word) = bs"
proof (rule nth_equalityI)
  fix k assume "k < length (le_bytes (length bs) (of_le bs :: 'a word))"
  then have k: "k < length bs" by simp
  show "le_bytes (length bs) (of_le bs :: 'a word) ! k = bs ! k"
  proof (rule bit_word_eqI)
    fix i assume i: "i < LENGTH(8)"
    then have "8 * k + i < LENGTH('a)" using k assms by simp
    moreover have "(8 * k + i) div 8 = k" "(8 * k + i) mod 8 = i" using i by simp_all
    ultimately show "bit (le_bytes (length bs) (of_le bs :: 'a word) ! k) i = bit (bs ! k) i"
      using k i by (simp add: nth_le_bytes bit_simps bit_of_le)
  qed
qed simp

lemma of_le_u32 [simp]: "of_le (le_bytes 4 w) = (w :: u32)"
  by (rule of_le_le_bytes) simp

lemma of_le_u16 [simp]: "of_le (le_bytes 2 w) = (w :: 16 word)"
  by (rule of_le_le_bytes) simp

lemma of_le_u64 [simp]: "of_le (le_bytes 8 w) = (w :: u64)"
  by (rule of_le_le_bytes) simp

text \<open>Arrays of 32-bit integers.\<close>

definition enc_u32s :: "u32 list \<Rightarrow> byte list" where
  "enc_u32s ws = concat (map (le_bytes 4) ws)"

definition dec_u32s :: "nat \<Rightarrow> byte list \<Rightarrow> u32 list" where
  "dec_u32s n bs = map (\<lambda>i. of_le (take 4 (drop (4 * i) bs))) [0..<n]"

lemma enc_u32s_simps [simp]: "enc_u32s [] = []" "enc_u32s (w # ws) = le_bytes 4 w @ enc_u32s ws"
  by (simp_all add: enc_u32s_def)

lemma length_enc_u32s [simp]: "length (enc_u32s ws) = 4 * length ws"
  by (induction ws) simp_all

lemma length_dec_u32s [simp]: "length (dec_u32s n bs) = n"
  by (simp add: dec_u32s_def)

lemma drop_enc_u32s: "i \<le> length ws \<Longrightarrow> drop (4 * i) (enc_u32s ws @ bs) = enc_u32s (drop i ws) @ bs"
proof (induction ws arbitrary: i)
  case (Cons w ws)
  then show ?case by (cases i) simp_all
qed simp

lemma dec_enc_u32s [simp]: "n = length ws \<Longrightarrow> dec_u32s n (enc_u32s ws @ bs) = ws"
proof (rule nth_equalityI)
  fix i assume n: "n = length ws" and "i < length (dec_u32s n (enc_u32s ws @ bs))"
  then have i: "i < length ws" by simp
  then have "drop (4 * i) (enc_u32s ws @ bs) = le_bytes 4 (ws ! i) @ enc_u32s (drop (Suc i) ws) @ bs"
    using drop_enc_u32s [of i ws bs] Cons_nth_drop_Suc [OF i] by (metis append_assoc enc_u32s_simps(2) less_imp_le)
  with i n show "dec_u32s n (enc_u32s ws @ bs) ! i = ws ! i" by (simp add: dec_u32s_def)
qed simp

section \<open>Parts of lists\<close>

definition slice :: "nat \<Rightarrow> nat \<Rightarrow> 'a list \<Rightarrow> 'a list" where
  "slice off n xs = take n (drop off xs)"

definition patch :: "nat \<Rightarrow> 'a list \<Rightarrow> 'a list \<Rightarrow> 'a list" where
  "patch off ys xs = take off xs @ ys @ drop (off + length ys) xs"

lemma length_slice [simp]: "off + n \<le> length xs \<Longrightarrow> length (slice off n xs) = n"
  by (simp add: slice_def)

lemma length_patch [simp]: "off + length ys \<le> length xs \<Longrightarrow> length (patch off ys xs) = length xs"
  by (simp add: patch_def)

lemma nth_slice: "i < n \<Longrightarrow> off + n \<le> length xs \<Longrightarrow> slice off n xs ! i = xs ! (off + i)"
  by (simp add: slice_def)

lemma nth_patch:
  assumes "off + length ys \<le> length xs" "i < length xs"
  shows "patch off ys xs ! i = (if off \<le> i \<and> i < off + length ys then ys ! (i - off) else xs ! i)"
  using assms by (auto simp: patch_def nth_append min_def)

lemma slice_patch_same [simp]: "off + length ys \<le> length xs \<Longrightarrow> n = length ys \<Longrightarrow> slice off n (patch off ys xs) = ys"
  by (simp add: slice_def patch_def)

lemma slice_patch_other:
  assumes "off + length ys \<le> length xs" "off' + n \<le> length xs" "off' + n \<le> off \<or> off + length ys \<le> off'"
  shows "slice off' n (patch off ys xs) = slice off' n xs"
  by (rule nth_equalityI) (use assms in \<open>auto simp: nth_slice nth_patch\<close>)

lemma slice_slice: "off' + n' \<le> n \<Longrightarrow> slice off' n' (slice off n xs) = slice (off + off') n' xs"
  by (simp add: slice_def drop_take take_take add.commute min_def)

lemma slice_all [simp]: "slice 0 (length xs) xs = xs"
  by (simp add: slice_def)

lemma slice_replicate: "off + n \<le> m \<Longrightarrow> slice off n (replicate m x) = replicate n x"
  by (simp add: slice_def min_def)

end
