(* ===== verification/Journal.thy ===== *)
theory Journal
  imports Bytes
begin

text \<open>
  The write-ahead log of \<^verbatim>\<open>crates/kernel/src/log.rs\<close>. Blocks are byte lists. The block
  layer below is a disk, the cached copies of its blocks, and the trace of the writes that reached
  the disk; \<^verbatim>\<open>BCACHE.read\<close> loads a block into the cache unless it is there, and
  \<^verbatim>\<open>BufGuard::write\<close> stores the buffer on the disk. A block that is logged is pinned, so
  that the modified copy stays in the cache until the transaction is installed; eviction of clean,
  unpinned buffers does not change what a read returns and is left out.

  A crash keeps the disk after some prefix of the trace and loses everything else. The crash lemmas
  quantify over every prefix, those of a recovery included. A write of one block is atomic.
\<close>

section \<open>The block layer\<close>

type_synonym block = "byte list"

definition BSIZE :: nat where "BSIZE = 1024"

record blkdev =
  bd_disk :: "nat \<Rightarrow> block"
  bd_cache :: "nat \<rightharpoonup> block"
  bd_pins :: "nat \<Rightarrow> nat"
  bd_trace :: "(nat \<times> block) list"

definition bview :: "blkdev \<Rightarrow> nat \<Rightarrow> block" where
  "bview s b = (case bd_cache s b of None \<Rightarrow> bd_disk s b | Some x \<Rightarrow> x)"

definition bread :: "blkdev \<Rightarrow> nat \<Rightarrow> block \<times> blkdev" where
  "bread s b = (bview s b, s\<lparr>bd_cache := (bd_cache s)(b \<mapsto> bview s b)\<rparr>)"

definition bwrite :: "blkdev \<Rightarrow> nat \<Rightarrow> block \<Rightarrow> blkdev" where
  "bwrite s b x = s\<lparr>bd_cache := (bd_cache s)(b \<mapsto> x), bd_disk := (bd_disk s)(b := x), bd_trace := bd_trace s @ [(b, x)]\<rparr>"

definition bpin :: "blkdev \<Rightarrow> nat \<Rightarrow> blkdev" where
  "bpin s b = s\<lparr>bd_pins := (bd_pins s)(b := bd_pins s b + 1)\<rparr>"

definition bunpin :: "blkdev \<Rightarrow> nat \<Rightarrow> blkdev" where
  "bunpin s b = s\<lparr>bd_pins := (bd_pins s)(b := bd_pins s b - 1)\<rparr>"

text \<open>After a reboot the cache is empty.\<close>

definition reboot :: "(nat \<Rightarrow> block) \<Rightarrow> blkdev" where
  "reboot d = \<lparr>bd_disk = d, bd_cache = Map.empty, bd_pins = (\<lambda>_. 0), bd_trace = []\<rparr>"

section \<open>The log\<close>

record log_header =
  lh_n :: u32
  lh_block :: "u32 list"

text \<open>The header at the start of its block: 4 bytes and \<^verbatim>\<open>LOGSIZE\<close> times 4 bytes.\<close>

definition enc_head :: "log_header \<Rightarrow> byte list" where
  "enc_head h = le_bytes 4 (lh_n h) @ enc_u32s (lh_block h)"

definition dec_head :: "block \<Rightarrow> log_header" where
  "dec_head bs = \<lparr>lh_n = of_le (take 4 bs), lh_block = dec_u32s LOGSIZE (drop 4 bs)\<rparr>"

definition put_head :: "log_header \<Rightarrow> block \<Rightarrow> block" where
  "put_head h bs = enc_head h @ drop (4 + 4 * LOGSIZE) bs"

record jlog =
  lg_start :: nat
  lg_size :: u32
  lg_outstanding :: u32
  lg_committing :: bool
  lg_lh :: log_header

definition read_head :: "jlog \<Rightarrow> blkdev \<Rightarrow> jlog \<times> blkdev" where
  "read_head lg s = (case bread s (lg_start lg) of (buf, s') \<Rightarrow> (lg\<lparr>lg_lh := dec_head buf\<rparr>, s'))"

definition write_head :: "jlog \<Rightarrow> blkdev \<Rightarrow> blkdev" where
  "write_head lg s = (case bread s (lg_start lg) of (buf, s') \<Rightarrow> bwrite s' (lg_start lg) (put_head (lg_lh lg) buf))"

text \<open>The loops over \<open>tail .. < tail + n\<close>; an index beyond the header's array panics.\<close>

fun install_loop :: "jlog \<Rightarrow> bool \<Rightarrow> nat \<Rightarrow> nat \<Rightarrow> blkdev \<Rightarrow> blkdev result" where
  "install_loop lg recovering 0 tail s = Ok s"
| "install_loop lg recovering (Suc n) tail s =
     (case bread s (lg_start lg + tail + 1) of (lbuf, s1) \<Rightarrow>
      if tail < length (lh_block (lg_lh lg)) then
        (let home = unat (lh_block (lg_lh lg) ! tail) in
         case bread s1 home of (dbuf, s2) \<Rightarrow>
         (let s3 = bwrite s2 home lbuf;
              s4 = (if recovering then s3 else bunpin s3 home)
          in install_loop lg recovering n (tail + 1) s4))
      else Panic)"

definition install_trans :: "jlog \<Rightarrow> bool \<Rightarrow> blkdev \<Rightarrow> blkdev result" where
  "install_trans lg recovering s = install_loop lg recovering (unat (lh_n (lg_lh lg))) 0 s"

fun write_log_loop :: "jlog \<Rightarrow> nat \<Rightarrow> nat \<Rightarrow> blkdev \<Rightarrow> blkdev result" where
  "write_log_loop lg 0 tail s = Ok s"
| "write_log_loop lg (Suc n) tail s =
     (case bread s (lg_start lg + tail + 1) of (to, s1) \<Rightarrow>
      if tail < length (lh_block (lg_lh lg)) then
        (case bread s1 (unat (lh_block (lg_lh lg) ! tail)) of (from, s2) \<Rightarrow>
         write_log_loop lg n (tail + 1) (bwrite s2 (lg_start lg + tail + 1) from))
      else Panic)"

definition write_log :: "jlog \<Rightarrow> blkdev \<Rightarrow> blkdev result" where
  "write_log lg s = write_log_loop lg (unat (lh_n (lg_lh lg))) 0 s"

definition clear_n :: "jlog \<Rightarrow> jlog" where
  "clear_n lg = lg\<lparr>lg_lh := (lg_lh lg)\<lparr>lh_n := 0\<rparr>\<rparr>"

text \<open>
  \<^verbatim>\<open>crash_if_armed\<close>, between the two header writes, only stops the machine; a stop at any
  write is part of the crash analysis.
\<close>

definition commit :: "jlog \<Rightarrow> blkdev \<Rightarrow> (jlog \<times> blkdev) result" where
  "commit lg s =
     (if 0 < unat (lh_n (lg_lh lg)) then
        obind (write_log lg s) (\<lambda>s1.
        let s2 = write_head lg s1 in
        obind (install_trans lg False s2) (\<lambda>s3.
        let lg' = clear_n lg in Ok (lg', write_head lg' s3)))
      else Ok (lg, s))"

text \<open>The flag says whether a committed transaction was found (\<^verbatim>\<open>LOG_RECOVERED\<close>).\<close>

definition log_recover :: "jlog \<Rightarrow> blkdev \<Rightarrow> (bool \<times> jlog \<times> blkdev) result" where
  "log_recover lg s =
     (case read_head lg s of (lg1, s1) \<Rightarrow>
      obind (install_trans lg1 True s1) (\<lambda>s2.
      let lg2 = clear_n lg1 in Ok (0 < unat (lh_n (lg_lh lg1)), lg2, write_head lg2 s2)))"

text \<open>\<^verbatim>\<open>Log::new\<close>, with the two fields of the superblock it reads.\<close>

definition log_new :: "nat \<Rightarrow> u32 \<Rightarrow> blkdev \<Rightarrow> (bool \<times> jlog \<times> blkdev) result" where
  "log_new logstart nlog s =
     log_recover \<lparr>lg_start = logstart, lg_size = nlog, lg_outstanding = 0, lg_committing = False,
                  lg_lh = \<lparr>lh_n = 0, lh_block = replicate LOGSIZE 0\<rparr>\<rparr> s"

section \<open>The header on disk\<close>

lemma dec_put_head [simp]:
  assumes "length (lh_block h) = LOGSIZE"
  shows "dec_head (put_head h bs) = h"
  using assms by (cases h) (simp add: dec_head_def put_head_def enc_head_def)

lemma length_dec_head [simp]: "length (lh_block (dec_head bs)) = LOGSIZE"
  by (simp add: dec_head_def)

section \<open>Sequences of disk writes\<close>

definition apply_writes :: "(nat \<times> block) list \<Rightarrow> (nat \<Rightarrow> block) \<Rightarrow> nat \<Rightarrow> block" where
  "apply_writes W d = fold (\<lambda>(b, x) d. d(b := x)) W d"

lemma apply_writes_simps [simp]:
  "apply_writes [] d = d" "apply_writes ((b, x) # W) d = apply_writes W (d(b := x))"
  "apply_writes (V @ W) d = apply_writes W (apply_writes V d)"
  by (simp_all add: apply_writes_def)

lemma apply_writes_other: "b \<notin> fst ` set W \<Longrightarrow> apply_writes W d b = d b"
  by (induction W arbitrary: d) auto

lemma apply_writes_cases: "apply_writes W d b = d b \<or> (b, apply_writes W d b) \<in> set W"
proof (induction W arbitrary: d)
  case (Cons w W)
  obtain c x where "w = (c, x)" by (cases w)
  with Cons.IH [of "d(c := x)"] show ?case by (cases "b = c") (auto simp del: fun_upd_apply simp: fun_upd_same fun_upd_other)
qed simp

text \<open>Writing the values of one function at several places.\<close>

lemma apply_writes_map:
  "apply_writes (map (\<lambda>t. (f t, g (f t))) ts) d b = (if b \<in> f ` set ts then g b else d b)"
  by (induction ts arbitrary: d) auto

lemma apply_writes_inj:
  assumes "inj_on f (set ts)" "t \<in> set ts"
  shows "apply_writes (map (\<lambda>t. (f t, g t)) ts) d (f t) = g t"
  using assms
proof (induction ts arbitrary: d)
  case (Cons u us)
  show ?case
  proof (cases "t \<in> set us")
    case True
    with Cons show ?thesis by simp
  next
    case False
    with Cons.prems have "f t \<notin> fst ` set (map (\<lambda>t. (f t, g t)) us)" "u = t" by (auto dest: inj_onD)
    then show ?thesis by (simp add: apply_writes_other)
  qed
qed simp

text \<open>From \<open>s\<close> to \<open>s'\<close> the writes \<open>W\<close> reached the disk, and nothing else changed what reads return.\<close>

definition wrote :: "blkdev \<Rightarrow> (nat \<times> block) list \<Rightarrow> blkdev \<Rightarrow> bool" where
  "wrote s W s' \<longleftrightarrow> bd_disk s' = apply_writes W (bd_disk s) \<and> bd_trace s' = bd_trace s @ W \<and>
     bview s' = apply_writes W (bview s)"

lemma wrote_refl: "wrote s [] s"
  by (simp add: wrote_def)

lemma wrote_trans: "wrote s V s' \<Longrightarrow> wrote s' W s'' \<Longrightarrow> wrote s (V @ W) s''"
  by (simp add: wrote_def)

lemma block_layer_simps [simp]:
  "fst (bread s b) = bview s b" "bview (snd (bread s b)) = bview s" "bview (bwrite s b x) = (bview s)(b := x)"
  "bview (bunpin s b) = bview s" "bview (bpin s b) = bview s"
  "bd_disk (snd (bread s b)) = bd_disk s" "bd_disk (bwrite s b x) = (bd_disk s)(b := x)"
  "bd_disk (bunpin s b) = bd_disk s" "bd_trace (snd (bread s b)) = bd_trace s"
  "bd_trace (bwrite s b x) = bd_trace s @ [(b, x)]" "bd_trace (bunpin s b) = bd_trace s"
  by (auto simp: bread_def bwrite_def bunpin_def bpin_def bview_def fun_eq_iff split: option.split)

lemma wrote_bread: "wrote s W s' \<Longrightarrow> wrote s W (snd (bread s' b))"
  by (simp add: wrote_def)

lemma wrote_bwrite: "wrote s W s' \<Longrightarrow> wrote s (W @ [(b, x)]) (bwrite s' b x)"
  by (simp add: wrote_def)

lemma wrote_unpin: "wrote s W s' \<Longrightarrow> wrote s W (bunpin s' b)"
  by (simp add: wrote_def)

lemma wrote_write_head:
  "wrote s [(lg_start lg, put_head (lg_lh lg) (bview s (lg_start lg)))] (write_head lg s)"
  using wrote_bwrite [OF wrote_bread [OF wrote_refl]] by (simp add: write_head_def split_beta)

section \<open>Installing and logging\<close>

definition log_area :: "nat \<Rightarrow> nat set" where
  "log_area start = {start .. start + LOGSIZE}"

definition home :: "log_header \<Rightarrow> nat \<Rightarrow> nat" where
  "home h t = unat (lh_block h ! t)"

text \<open>The header fits its array and names no block of the log itself.\<close>

definition header_ok :: "nat \<Rightarrow> log_header \<Rightarrow> bool" where
  "header_ok start h \<longleftrightarrow> length (lh_block h) = LOGSIZE \<and> unat (lh_n h) \<le> LOGSIZE \<and>
     (\<forall>t < unat (lh_n h). home h t \<notin> log_area start)"

definition homes :: "log_header \<Rightarrow> nat set" where
  "homes h = home h ` {..<unat (lh_n h)}"

lemma install_loop_correct:
  assumes "header_ok (lg_start lg) (lg_lh lg)" "tail + n \<le> unat (lh_n (lg_lh lg))"
    and "\<And>t. tail \<le> t \<Longrightarrow> t < tail + n \<Longrightarrow> bview s (lg_start lg + t + 1) = L t"
  shows "\<exists>s'. install_loop lg recovering n tail s = Ok s' \<and>
    wrote s (map (\<lambda>t. (home (lg_lh lg) t, L t)) [tail..<tail + n]) s'"
  using assms
proof (induction n arbitrary: tail s)
  case 0
  then show ?case by (simp add: wrote_refl)
next
  case (Suc n)
  let ?h = "lg_lh lg" and ?b = "lg_start lg"
  let ?home = "home ?h tail"
  have t: "tail < length (lh_block ?h)" "?home \<notin> log_area ?b" "tail < unat (lh_n ?h)"
    using Suc.prems(1,2) by (auto simp: header_ok_def)
  define s2 where "s2 = snd (bread (snd (bread s (?b + tail + 1))) ?home)"
  define s4 where "s4 = (if recovering then bwrite s2 ?home (L tail) else bunpin (bwrite s2 ?home (L tail)) ?home)"
  have w: "wrote s [(?home, L tail)] s4"
    using wrote_bwrite [OF wrote_bread [OF wrote_bread [OF wrote_refl]]] wrote_unpin by (auto simp: s4_def s2_def)
  then have v: "bview s4 = (bview s)(?home := L tail)" by (simp add: wrote_def)
  have "bview s4 (?b + t + 1) = L t" if "tail + 1 \<le> t" "t < tail + 1 + n" for t
  proof -
    have "?b + t + 1 \<in> log_area ?b" using that Suc.prems(1,2) by (auto simp: log_area_def header_ok_def)
    with t(2) Suc.prems(3) [of t] that v show ?thesis by auto
  qed
  then have "\<exists>s'. install_loop lg recovering n (tail + 1) s4 = Ok s' \<and>
      wrote s4 (map (\<lambda>t. (home ?h t, L t)) [tail + 1..<tail + 1 + n]) s'"
    using Suc.prems(2) by (intro Suc.IH [OF Suc.prems(1)]) simp_all
  then obtain s' where
    s': "install_loop lg recovering n (tail + 1) s4 = Ok s'"
      "wrote s4 (map (\<lambda>t. (home ?h t, L t)) [tail + 1..<tail + 1 + n]) s'" by blast
  have "install_loop lg recovering (Suc n) tail s = Ok s'"
    using s'(1) t(1) Suc.prems(3) [of tail]
    by (cases recovering) (simp_all add: split_beta Let_def s4_def s2_def home_def)
  moreover have "[tail..<tail + Suc n] = tail # [tail + 1..<tail + 1 + n]" by (simp add: upt_conv_Cons)
  ultimately show ?case using wrote_trans [OF w s'(2)] by simp
qed

lemma write_log_loop_correct:
  assumes "header_ok (lg_start lg) (lg_lh lg)" "tail + n \<le> unat (lh_n (lg_lh lg))"
    and "\<And>t. tail \<le> t \<Longrightarrow> t < tail + n \<Longrightarrow> bview s (home (lg_lh lg) t) = V (home (lg_lh lg) t)"
  shows "\<exists>s'. write_log_loop lg n tail s = Ok s' \<and>
    wrote s (map (\<lambda>t. (lg_start lg + t + 1, V (home (lg_lh lg) t))) [tail..<tail + n]) s'"
  using assms
proof (induction n arbitrary: tail s)
  case 0
  then show ?case by (simp add: wrote_refl)
next
  case (Suc n)
  let ?h = "lg_lh lg" and ?b = "lg_start lg"
  have t: "tail < length (lh_block ?h)" "tail < unat (lh_n ?h)" using Suc.prems(1,2) by (auto simp: header_ok_def)
  define s2 where "s2 = snd (bread (snd (bread s (?b + tail + 1))) (home ?h tail))"
  define s3 where "s3 = bwrite s2 (?b + tail + 1) (V (home ?h tail))"
  have w: "wrote s [(?b + tail + 1, V (home ?h tail))] s3"
    using wrote_bwrite [OF wrote_bread [OF wrote_bread [OF wrote_refl]]] by (simp add: s3_def s2_def)
  then have v: "bview s3 = (bview s)(?b + tail + 1 := V (home ?h tail))" by (simp add: wrote_def)
  have "bview s3 (home ?h u) = V (home ?h u)" if "tail + 1 \<le> u" "u < tail + 1 + n" for u
  proof -
    have "home ?h u \<notin> log_area ?b" using that Suc.prems(1,2) by (auto simp: header_ok_def)
    moreover have "?b + tail + 1 \<in> log_area ?b" using Suc.prems(1) t(2) by (auto simp: log_area_def header_ok_def)
    ultimately show ?thesis using Suc.prems(3) [of u] that v by auto
  qed
  then have "\<exists>s'. write_log_loop lg n (tail + 1) s3 = Ok s' \<and>
      wrote s3 (map (\<lambda>t. (?b + t + 1, V (home ?h t))) [tail + 1..<tail + 1 + n]) s'"
    using Suc.prems(2) by (intro Suc.IH [OF Suc.prems(1)]) simp_all
  then obtain s' where
    s': "write_log_loop lg n (tail + 1) s3 = Ok s'"
      "wrote s3 (map (\<lambda>t. (?b + t + 1, V (home ?h t))) [tail + 1..<tail + 1 + n]) s'" by blast
  have "write_log_loop lg (Suc n) tail s = Ok s'"
    using s'(1) t(1) Suc.prems(3) [of tail] by (simp add: split_beta s3_def s2_def home_def)
  moreover have "[tail..<tail + Suc n] = tail # [tail + 1..<tail + 1 + n]" by (simp add: upt_conv_Cons)
  ultimately show ?case using wrote_trans [OF w s'(2)] by simp
qed

section \<open>Commit and recovery\<close>

text \<open>The writes of a commit, in order: the log blocks, the header, the home blocks, the cleared header.\<close>

definition log_writes :: "jlog \<Rightarrow> (nat \<Rightarrow> block) \<Rightarrow> (nat \<times> block) list" where
  "log_writes lg V = map (\<lambda>t. (lg_start lg + t + 1, V (home (lg_lh lg) t))) [0..<unat (lh_n (lg_lh lg))]"

definition home_writes :: "jlog \<Rightarrow> (nat \<Rightarrow> block) \<Rightarrow> (nat \<times> block) list" where
  "home_writes lg V = map (\<lambda>t. (home (lg_lh lg) t, V (home (lg_lh lg) t))) [0..<unat (lh_n (lg_lh lg))]"

definition commit_writes :: "jlog \<Rightarrow> (nat \<Rightarrow> block) \<Rightarrow> (nat \<times> block) list" where
  "commit_writes lg V =
     (let hd1 = put_head (lg_lh lg) (V (lg_start lg)); hd2 = put_head (lg_lh (clear_n lg)) hd1
      in log_writes lg V @ [(lg_start lg, hd1)] @ home_writes lg V @ [(lg_start lg, hd2)])"

lemma log_writes_area: "header_ok (lg_start lg) (lg_lh lg) \<Longrightarrow> b \<in> fst ` set (log_writes lg V) \<Longrightarrow>
    b \<in> log_area (lg_start lg) \<and> b \<noteq> lg_start lg"
  by (auto simp: log_writes_def log_area_def header_ok_def)

lemma home_writes_area: "header_ok (lg_start lg) (lg_lh lg) \<Longrightarrow> b \<in> fst ` set (home_writes lg V) \<Longrightarrow>
    b \<notin> log_area (lg_start lg)"
  by (auto simp: home_writes_def header_ok_def)

lemma start_in_area: "start \<in> log_area start"
  by (simp add: log_area_def)

lemma apply_log_writes:
  "t < unat (lh_n (lg_lh lg)) \<Longrightarrow> apply_writes (log_writes lg V) d (lg_start lg + t + 1) = V (home (lg_lh lg) t)"
  unfolding log_writes_def by (rule apply_writes_inj [where f = "\<lambda>t. lg_start lg + t + 1"]) (auto simp: inj_on_def)

lemma apply_home_writes:
  "apply_writes (home_writes lg V) d b = (if b \<in> homes (lg_lh lg) then V b else d b)"
  unfolding home_writes_def homes_def by (simp add: apply_writes_map atLeast0LessThan)

lemma commit_correct:
  assumes ok: "header_ok (lg_start lg) (lg_lh lg)" and n: "0 < unat (lh_n (lg_lh lg))"
  shows "\<exists>s'. commit lg s = Ok (clear_n lg, s') \<and> wrote s (commit_writes lg (bview s)) s'"
proof -
  let ?n = "unat (lh_n (lg_lh lg))" and ?b = "lg_start lg" and ?V = "bview s"
  obtain s1 where s1: "write_log lg s = Ok s1" "wrote s (log_writes lg ?V) s1"
    using write_log_loop_correct [OF ok, of 0 ?n s ?V] by (auto simp: write_log_def log_writes_def)
  have v1: "bview s1 ?b = ?V ?b"
    using s1(2) log_writes_area [OF ok, of ?b ?V] by (auto simp: wrote_def intro!: apply_writes_other)
  define s2 where "s2 = write_head lg s1"
  have w2: "wrote s (log_writes lg ?V @ [(?b, put_head (lg_lh lg) (?V ?b))]) s2"
    using wrote_trans [OF s1(2) wrote_write_head [of s1 lg]] v1 by (simp add: s2_def)
  have "bview s2 (?b + t + 1) = ?V (home (lg_lh lg) t)" if "t < ?n" for t
    using w2 apply_log_writes [OF that, of ?V ?V] by (simp add: wrote_def)
  then have "\<exists>s3. install_loop lg False ?n 0 s2 = Ok s3 \<and>
      wrote s2 (map (\<lambda>t. (home (lg_lh lg) t, ?V (home (lg_lh lg) t))) [0..<0 + ?n]) s3"
    by (intro install_loop_correct [OF ok]) simp_all
  then obtain s3 where s3: "install_trans lg False s2 = Ok s3" "wrote s2 (home_writes lg ?V) s3"
    by (auto simp: install_trans_def home_writes_def)
  have "bview s3 ?b = put_head (lg_lh lg) (?V ?b)"
  proof -
    have "?b \<notin> fst ` set (home_writes lg ?V)" using home_writes_area [OF ok] start_in_area by blast
    then have "bview s3 ?b = bview s2 ?b" using s3(2) by (simp add: wrote_def apply_writes_other)
    then show ?thesis using w2 by (simp add: wrote_def)
  qed
  then have "wrote s3 [(?b, put_head (lg_lh (clear_n lg)) (put_head (lg_lh lg) (?V ?b)))] (write_head (clear_n lg) s3)"
    using wrote_write_head [of s3 "clear_n lg"] by (simp add: clear_n_def)
  from wrote_trans [OF wrote_trans [OF w2 s3(2)] this]
  have "wrote s (commit_writes lg ?V) (write_head (clear_n lg) s3)" by (simp add: commit_writes_def Let_def)
  then show ?thesis using n s1(1) s3(1) by (simp add: commit_def Let_def s2_def)
qed

text \<open>The writes of a recovery from the disk \<open>d\<close>, and the disk it leaves.\<close>

definition recover_writes :: "nat \<Rightarrow> (nat \<Rightarrow> block) \<Rightarrow> (nat \<times> block) list" where
  "recover_writes start d =
     (let h = dec_head (d start)
      in map (\<lambda>t. (home h t, d (start + t + 1))) [0..<unat (lh_n h)] @ [(start, put_head (h\<lparr>lh_n := 0\<rparr>) (d start))])"

definition recovered :: "nat \<Rightarrow> (nat \<Rightarrow> block) \<Rightarrow> nat \<Rightarrow> block" where
  "recovered start d = apply_writes (recover_writes start d) d"

lemma recover_correct:
  assumes ok: "header_ok (lg_start lg) (dec_head (bview s (lg_start lg)))"
  shows "\<exists>s'. log_recover lg s = Ok (0 < unat (lh_n (dec_head (bview s (lg_start lg)))),
       clear_n (lg\<lparr>lg_lh := dec_head (bview s (lg_start lg))\<rparr>), s') \<and>
     wrote s (recover_writes (lg_start lg) (bview s)) s'"
proof -
  let ?b = "lg_start lg" and ?h = "dec_head (bview s (lg_start lg))"
  define lg1 where "lg1 = lg\<lparr>lg_lh := ?h\<rparr>"
  define s1 where "s1 = snd (bread s ?b)"
  have rd: "read_head lg s = (lg1, s1)" by (simp add: read_head_def split_beta lg1_def s1_def)
  have w1: "wrote s [] s1" using wrote_bread [OF wrote_refl] by (simp add: s1_def)
  have "\<exists>s2. install_loop lg1 True (unat (lh_n ?h)) 0 s1 = Ok s2 \<and>
      wrote s1 (map (\<lambda>t. (home (lg_lh lg1) t, bview s (?b + t + 1))) [0..<0 + unat (lh_n ?h)]) s2"
    using ok by (intro install_loop_correct) (simp_all add: lg1_def s1_def)
  then obtain s2 where s2: "install_trans lg1 True s1 = Ok s2"
    "wrote s1 (map (\<lambda>t. (home ?h t, bview s (?b + t + 1))) [0..<unat (lh_n ?h)]) s2"
    by (auto simp: install_trans_def lg1_def)
  have "bview s2 ?b = bview s ?b"
  proof -
    have "?b \<notin> home ?h ` {0..<unat (lh_n ?h)}" using ok start_in_area [of ?b] by (auto simp: header_ok_def)
    then show ?thesis using s2(2) by (auto simp: wrote_def s1_def intro!: apply_writes_other)
  qed
  then have "wrote s2 [(?b, put_head (?h\<lparr>lh_n := 0\<rparr>) (bview s ?b))] (write_head (clear_n lg1) s2)"
    using wrote_write_head [of s2 "clear_n lg1"] by (simp add: clear_n_def lg1_def)
  from wrote_trans [OF w1 wrote_trans [OF s2(2) this]]
  have "wrote s (recover_writes ?b (bview s)) (write_head (clear_n lg1) s2)" by (simp add: recover_writes_def Let_def)
  then show ?thesis using rd s2(1) by (simp add: log_recover_def Let_def lg1_def)
qed

lemma bview_reboot [simp]: "bview (reboot d) = d" "bd_disk (reboot d) = d" "bd_trace (reboot d) = []"
  by (simp_all add: reboot_def bview_def fun_eq_iff)

text \<open>What recovery does to a block outside the log.\<close>

lemma recovered_outside:
  assumes "b \<notin> log_area start"
  shows "recovered start d b =
    apply_writes (map (\<lambda>t. (home (dec_head (d start)) t, d (start + t + 1))) [0..<unat (lh_n (dec_head (d start)))]) d b"
  using assms start_in_area [of start] by (auto simp: recovered_def recover_writes_def Let_def)

section \<open>Crashes\<close>

lemma header_clean:
  "unat (lh_n (dec_head (d start))) = 0 \<Longrightarrow> b \<notin> log_area start \<Longrightarrow> recovered start d b = d b"
  by (simp add: recovered_outside)

lemma crash_before_head:
  assumes ok: "header_ok (lg_start lg) (lg_lh lg)" and clean: "unat (lh_n (dec_head (d (lg_start lg)))) = 0"
    and b: "b \<notin> log_area (lg_start lg)"
  shows "recovered (lg_start lg) (apply_writes (take k (log_writes lg V)) d) b = d b"
proof -
  let ?d = "apply_writes (take k (log_writes lg V)) d"
  have sub: "fst ` set (take k (log_writes lg V)) \<subseteq> fst ` set (log_writes lg V)" by (auto dest: in_set_takeD)
  have "?d c = d c" if "c = lg_start lg \<or> c \<notin> log_area (lg_start lg)" for c
    using that sub log_writes_area [OF ok, of c V] by (intro apply_writes_other) blast
  then show ?thesis using clean b by (simp add: header_clean)
qed

lemma crash_after_head:
  assumes ok: "header_ok (lg_start lg) (lg_lh lg)" and b: "b \<notin> log_area (lg_start lg)"
  shows "recovered (lg_start lg)
      (apply_writes (log_writes lg V @ [(lg_start lg, put_head (lg_lh lg) (V (lg_start lg)))] @ take j (home_writes lg V)) d) b =
    (if b \<in> homes (lg_lh lg) then V b else d b)"
proof -
  define hd1 where "hd1 = put_head (lg_lh lg) (V (lg_start lg))"
  let ?b = "lg_start lg" and ?n = "unat (lh_n (lg_lh lg))"
  let ?d1 = "(apply_writes (log_writes lg V) d)(?b := hd1)"
  let ?d = "apply_writes (take j (home_writes lg V)) ?d1"
  have sub: "fst ` set (take j (home_writes lg V)) \<subseteq> fst ` set (home_writes lg V)" by (auto dest: in_set_takeD)
  have in_area: "?d c = ?d1 c" if "c \<in> log_area ?b" for c
    using that sub home_writes_area [OF ok, of c V] by (intro apply_writes_other) blast
  have len: "length (lh_block (lg_lh lg)) = LOGSIZE" "?n \<le> LOGSIZE" using ok by (simp_all add: header_ok_def)
  then have head: "dec_head (?d ?b) = lg_lh lg" using in_area [OF start_in_area] by (simp add: hd1_def)
  have "?d (?b + t + 1) = V (home (lg_lh lg) t)" if "t < ?n" for t
  proof -
    have "?b + t + 1 \<in> log_area ?b" using that len by (simp add: log_area_def)
    from in_area [OF this] apply_log_writes [OF that, of V d] show ?thesis by simp
  qed
  then have "map (\<lambda>t. (home (lg_lh lg) t, ?d (?b + t + 1))) [0..<?n] = home_writes lg V"
    by (simp add: home_writes_def)
  then have "recovered ?b ?d b = apply_writes (home_writes lg V) ?d b"
    using recovered_outside [OF b, of ?d] head by simp
  also have "\<dots> = (if b \<in> homes (lg_lh lg) then V b else ?d b)" by (rule apply_home_writes)
  finally have rec: "recovered ?b ?d b = (if b \<in> homes (lg_lh lg) then V b else ?d b)" .
  have old: "?d b = d b" if "b \<notin> homes (lg_lh lg)"
  proof -
    have "b \<notin> fst ` set (take j (home_writes lg V))"
      using that sub by (auto simp: home_writes_def homes_def atLeast0LessThan)
    moreover have "b \<notin> fst ` set (log_writes lg V)" using log_writes_area [OF ok, of b V] b by blast
    moreover have "b \<noteq> ?b" using b start_in_area [of ?b] by blast
    ultimately show ?thesis by (simp add: apply_writes_other)
  qed
  have "apply_writes (log_writes lg V @ [(?b, hd1)] @ take j (home_writes lg V)) d = ?d" by simp
  with rec old show ?thesis unfolding hd1_def by presburger
qed

lemma crash_at_end:
  assumes ok: "header_ok (lg_start lg) (lg_lh lg)" and b: "b \<notin> log_area (lg_start lg)"
  shows "recovered (lg_start lg) (apply_writes (commit_writes lg V) d) b = (if b \<in> homes (lg_lh lg) then V b else d b)"
proof -
  let ?b = "lg_start lg"
  have "b \<noteq> ?b" using b start_in_area [of ?b] by blast
  moreover have "b \<notin> fst ` set (log_writes lg V)" using log_writes_area [OF ok, of b V] b by blast
  ultimately have "apply_writes (commit_writes lg V) d b = (if b \<in> homes (lg_lh lg) then V b else d b)"
    by (simp add: commit_writes_def Let_def apply_home_writes apply_writes_other)
  moreover have "unat (lh_n (dec_head (apply_writes (commit_writes lg V) d ?b))) = 0"
    using ok by (simp add: commit_writes_def Let_def clear_n_def header_ok_def)
  ultimately show ?thesis using header_clean [of "apply_writes (commit_writes lg V) d" ?b b] b by simp
qed

lemma commit_crash:
  assumes ok: "header_ok (lg_start lg) (lg_lh lg)" and clean: "unat (lh_n (dec_head (d (lg_start lg)))) = 0"
    and b: "b \<notin> log_area (lg_start lg)" and k: "k \<le> length (commit_writes lg V)"
  shows "recovered (lg_start lg) (apply_writes (take k (commit_writes lg V)) d) b =
    (if unat (lh_n (lg_lh lg)) < k \<and> b \<in> homes (lg_lh lg) then V b else d b)"
proof -
  let ?n = "unat (lh_n (lg_lh lg))"
  have len: "length (log_writes lg V) = ?n" "length (home_writes lg V) = ?n"
    by (simp_all add: log_writes_def home_writes_def)
  consider "k \<le> ?n" | j where "k = ?n + 1 + j" "j \<le> ?n" | "k = length (commit_writes lg V)"
    using k len le_Suc_ex [of "Suc ?n" k] by (fastforce simp: commit_writes_def Let_def)
  then show ?thesis
  proof cases
    case 1
    then have "take k (commit_writes lg V) = take k (log_writes lg V)" using len by (simp add: commit_writes_def Let_def)
    with crash_before_head [of lg d b k V, OF ok clean b] 1 show ?thesis by simp
  next
    case 2
    then have "take k (commit_writes lg V) =
        log_writes lg V @ [(lg_start lg, put_head (lg_lh lg) (V (lg_start lg)))] @ take j (home_writes lg V)"
      using len by (simp add: commit_writes_def Let_def)
    with crash_after_head [OF ok b] 2 show ?thesis by simp
  next
    case 3
    then have "?n < k" using len by (simp add: commit_writes_def Let_def)
    with crash_at_end [OF ok b, of V d] 3 show ?thesis by simp
  qed
qed

text \<open>At every crash point the header on disk is one that recovery accepts.\<close>

lemma crash_header_ok:
  assumes ok: "header_ok (lg_start lg) (lg_lh lg)" and clean: "unat (lh_n (dec_head (d (lg_start lg)))) = 0"
    and k: "k \<le> length (commit_writes lg V)"
  shows "header_ok (lg_start lg) (dec_head (apply_writes (take k (commit_writes lg V)) d (lg_start lg)))"
proof -
  let ?b = "lg_start lg" and ?d = "apply_writes (take k (commit_writes lg V)) d"
  have heads: "dec_head x = lg_lh lg \<or> dec_head x = lg_lh (clear_n lg)"
    if "(?b, x) \<in> set (commit_writes lg V)" for x
  proof -
    have "(?b, x) \<notin> set (log_writes lg V)" using log_writes_area [OF ok, of ?b V] by force
    moreover have "(?b, x) \<notin> set (home_writes lg V)" using home_writes_area [OF ok, of ?b V] start_in_area [of ?b] by force
    ultimately show ?thesis using that ok by (auto simp: commit_writes_def Let_def header_ok_def clear_n_def)
  qed
  have "?d ?b = d ?b \<or> (?b, ?d ?b) \<in> set (take k (commit_writes lg V))" by (rule apply_writes_cases)
  then consider "dec_head (?d ?b) = dec_head (d ?b)" | "dec_head (?d ?b) = lg_lh lg" | "dec_head (?d ?b) = lg_lh (clear_n lg)"
    using heads [of "?d ?b"] by (auto dest: in_set_takeD)
  then show ?thesis
  proof cases
    case 1
    with clean show ?thesis by (simp add: header_ok_def)
  qed (use ok in \<open>auto simp: header_ok_def clear_n_def home_def\<close>)
qed

lemma apply_writes_covered: "b \<in> fst ` set W \<Longrightarrow> apply_writes W d b = apply_writes W d' b"
proof (induction W arbitrary: d d')
  case (Cons w W)
  obtain c x where w: "w = (c, x)" by (cases w)
  show ?case
  proof (cases "b \<in> fst ` set W")
    case True
    then show ?thesis using Cons.IH [of "d(c := x)" "d'(c := x)"] w by (simp del: fun_upd_apply)
  next
    case False
    with Cons.prems w show ?thesis by (simp add: apply_writes_other)
  qed
qed simp

text \<open>A recovery that is itself cut short and repeated.\<close>

lemma recovery_crash:
  assumes ok: "header_ok start (dec_head (d start))" and b: "b \<notin> log_area start"
    and k: "k \<le> length (recover_writes start d)"
  shows "recovered start (apply_writes (take k (recover_writes start d)) d) b = recovered start d b"
proof -
  let ?h = "dec_head (d start)"
  define HW where "HW = map (\<lambda>t. (home ?h t, d (start + t + 1))) [0..<unat (lh_n ?h)]"
  have rw: "recover_writes start d = HW @ [(start, put_head (?h\<lparr>lh_n := 0\<rparr>) (d start))]"
    by (simp add: recover_writes_def HW_def Let_def)
  have area: "c \<notin> log_area start" if "c \<in> fst ` set HW" for c using that ok by (auto simp: HW_def header_ok_def)
  have out: "recovered start d b = apply_writes HW d b" using recovered_outside [OF b, of d] by (simp add: HW_def)
  show ?thesis
  proof (cases "k \<le> length HW")
    case True
    let ?d = "apply_writes (take k HW) d"
    have same: "?d c = d c" if "c \<in> log_area start" for c
      using that area by (intro apply_writes_other) (auto dest: in_set_takeD)
    have "?d (start + t + 1) = d (start + t + 1)" if "t < unat (lh_n ?h)" for t
      using that ok by (intro same) (simp add: log_area_def header_ok_def)
    then have "map (\<lambda>t. (home ?h t, ?d (start + t + 1))) [0..<unat (lh_n ?h)] =
        map (\<lambda>t. (home ?h t, d (start + t + 1))) [0..<unat (lh_n ?h)]" by (intro map_cong) auto
    then have "recovered start ?d b = apply_writes HW ?d b"
      using recovered_outside [OF b, of ?d] same [OF start_in_area] by (simp only: HW_def [symmetric])
    also have "\<dots> = apply_writes HW d b"
    proof (cases "b \<in> fst ` set HW")
      case False
      then have "b \<notin> fst ` set (take k HW)" by (auto dest: in_set_takeD)
      with False show ?thesis by (simp add: apply_writes_other)
    qed (rule apply_writes_covered)
    finally show ?thesis using True out rw by simp
  next
    case False
    with k rw have "take k (recover_writes start d) = recover_writes start d" by simp
    moreover have "b \<noteq> start" using b start_in_area [of start] by blast
    ultimately show ?thesis using out b ok
      by (subst header_clean) (simp_all add: rw header_ok_def)
  qed
qed

section \<open>Properties\<close>


definition demo_log :: jlog where
  "demo_log = \<lparr>lg_start = 2, lg_size = 31, lg_outstanding = 0, lg_committing = True,
     lg_lh = \<lparr>lh_n = 1, lh_block = 100 # replicate 29 0\<rparr>\<rparr>"

definition demo_dev :: blkdev where
  "demo_dev = \<lparr>bd_disk = (\<lambda>_. replicate BSIZE 0), bd_cache = [100 \<mapsto> replicate BSIZE 1],
     bd_pins = (\<lambda>_. 0), bd_trace = []\<rparr>"

lemma of_le_zero [simp]: "of_le (replicate n 0) = 0"
  by (induction n) simp_all

lemma demo_ok: "header_ok 2 (lg_lh demo_log)" "0 < unat (lh_n (lg_lh demo_log))" "lg_start demo_log = 2"
  "unat (lh_n (dec_head (bd_disk demo_dev 2))) = 0"
  by (simp_all add: header_ok_def demo_log_def demo_dev_def home_def log_area_def LOGSIZE_def MAXOPBLOCKS_def dec_head_def)


text \<open>
  Recovery survives crashes. From any disk whose log header is well formed recovery succeeds and
  leaves the log clean; and if it is itself interrupted after any prefix of its writes and started
  again after the reboot, every block outside the log ends up as if it had not been interrupted.
\<close>

lemma recovery_idempotent:
  assumes "header_ok start (dec_head (d start))"
  shows "\<exists>r. log_new start nlog (reboot d) = Ok r \<and>
    unat (lh_n (dec_head (bd_disk (snd (snd r)) start))) = 0 \<and>
    (\<forall>k \<le> length (bd_trace (snd (snd r))). \<exists>r'.
       log_new start nlog (reboot (apply_writes (take k (bd_trace (snd (snd r)))) d)) = Ok r' \<and>
       (\<forall>b. b \<notin> log_area start \<longrightarrow> bd_disk (snd (snd r')) b = bd_disk (snd (snd r)) b))"
proof -
  let ?lg = "\<lparr>lg_start = start, lg_size = nlog, lg_outstanding = 0, lg_committing = False,
                  lg_lh = \<lparr>lh_n = 0, lh_block = replicate LOGSIZE 0\<rparr>\<rparr>"
  let ?W = "recover_writes start d" and ?h = "dec_head (d start)"
  have run: "\<exists>r. log_new start nlog (reboot e) = Ok r \<and> bd_disk (snd (snd r)) = recovered start e \<and>
      bd_trace (snd (snd r)) = recover_writes start e" if "header_ok start (dec_head (e start))" for e
    using recover_correct [of ?lg "reboot e"] that by (force simp: wrote_def recovered_def log_new_def)
  obtain r where r: "log_new start nlog (reboot d) = Ok r" "bd_disk (snd (snd r)) = recovered start d"
      "bd_trace (snd (snd r)) = ?W" using run [of d] assms by blast
  have "unat (lh_n (dec_head (recovered start d start))) = 0"
    by (simp add: recovered_def recover_writes_def Let_def)
  moreover have "\<exists>r'. log_new start nlog (reboot (apply_writes (take k ?W) d)) = Ok r' \<and>
       (\<forall>b. b \<notin> log_area start \<longrightarrow> bd_disk (snd (snd r')) b = recovered start d b)" if k: "k \<le> length ?W" for k
  proof -
    let ?d = "apply_writes (take k ?W) d"
    have "x = put_head (?h\<lparr>lh_n := 0\<rparr>) (d start)" if "(start, x) \<in> set ?W" for x
      using that assms start_in_area [of start] by (auto simp: recover_writes_def Let_def header_ok_def)
    then have "dec_head (?d start) = ?h \<or> dec_head (?d start) = ?h\<lparr>lh_n := 0\<rparr>"
      using apply_writes_cases [of "take k ?W" d start] in_set_takeD [of "(start, ?d start)" k ?W] by fastforce
    then have "header_ok start (dec_head (?d start))" using assms by (auto simp: header_ok_def home_def)
    from run [of ?d] this recovery_crash [where d = d, OF assms _ k] show ?thesis by auto
  qed
  ultimately show ?thesis using r by auto
qed

end
