(* ===== verification/Log_Ops.thy ===== *)
theory Log_Ops
  imports Journal
begin

text \<open>
  The transaction protocol of \<^verbatim>\<open>crates/kernel/src/log.rs\<close>: \<^verbatim>\<open>begin_op\<close>,
  \<^verbatim>\<open>write\<close>, \<^verbatim>\<open>end_op\<close> and \<^verbatim>\<open>sync\<close>. Each runs under
  the log's lock and is one step; the commit at the end of the last operation runs without it and is
  a step of its own, during which \<^verbatim>\<open>committing\<close> keeps everybody else out. \<open>None\<close>
  means that the process goes to sleep.

  \<open>log_reach\<close> are the states of the log under any interleaving of operations, each of which
  logs at most \<^verbatim>\<open>MAXOPBLOCKS\<close> new blocks.
\<close>

section \<open>The source's operations\<close>

definition begin_op :: "jlog \<Rightarrow> jlog option" where
  "begin_op lg =
     (if lg_committing lg \<or> LOGSIZE < unat (lh_n (lg_lh lg)) + unat (lg_outstanding lg + 1) * MAXOPBLOCKS
      then None else Some (lg\<lparr>lg_outstanding := lg_outstanding lg + 1\<rparr>))"

text \<open>The part of \<^verbatim>\<open>end_op\<close> before the commit; the flag says that the caller commits.\<close>

definition end_op_start :: "jlog \<Rightarrow> (bool \<times> jlog) result" where
  "end_op_start lg =
     (let lg' = lg\<lparr>lg_outstanding := lg_outstanding lg - 1\<rparr> in
      if lg_committing lg' then Panic
      else if lg_outstanding lg' = 0 then Ok (True, lg'\<lparr>lg_committing := True\<rparr>)
      else Ok (False, lg'))"

definition end_op_finish :: "jlog \<Rightarrow> blkdev \<Rightarrow> (jlog \<times> blkdev) result" where
  "end_op_finish lg s = obind (commit lg s) (\<lambda>(lg', s'). Ok (lg'\<lparr>lg_committing := False\<rparr>, s'))"

definition end_op :: "jlog \<Rightarrow> blkdev \<Rightarrow> (jlog \<times> blkdev) result" where
  "end_op lg s =
     obind (end_op_start lg) (\<lambda>(fin, lg'). if fin then end_op_finish lg' s else Ok (lg', s))"

text \<open>One pass through the waiting loop of \<^verbatim>\<open>sync\<close>, and what follows it.\<close>

definition log_sync :: "jlog \<Rightarrow> blkdev \<Rightarrow> (jlog \<times> blkdev) result option" where
  "log_sync lg s =
     (if lg_committing lg \<or> 0 < unat (lg_outstanding lg) then None
      else if lh_n (lg_lh lg) = 0 then Some (Ok (lg, s))
      else Some (end_op_finish (lg\<lparr>lg_committing := True\<rparr>) s))"

text \<open>
  \<^verbatim>\<open>write\<close> records the number of a modified block and pins it. The subtraction
  \<^verbatim>\<open>guard.size - 1\<close> is on 32 bits.
\<close>

definition log_write :: "jlog \<Rightarrow> u32 \<Rightarrow> blkdev \<Rightarrow> (jlog \<times> blkdev) result" where
  "log_write lg blockno s =
     (let h = lg_lh lg; n = unat (lh_n h) in
      if LOGSIZE \<le> n \<or> lg_size lg - 1 \<le> lh_n h then Panic
      else if unat (lg_outstanding lg) < 1 then Panic
      else if blockno \<in> set (take n (lh_block h)) then Ok (lg, s)
      else if n < length (lh_block h)
      then Ok (lg\<lparr>lg_lh := h\<lparr>lh_block := (lh_block h)[n := blockno], lh_n := lh_n h + 1\<rparr>\<rparr>, bpin s (unat blockno))
      else Panic)"

section \<open>Interleaved operations\<close>

text \<open>
  A state: the log, and for each operation in progress the number of blocks it has logged. The
  contents of blocks do not matter here; a commit empties the log (\<open>commit_correct\<close>).
\<close>

inductive log_step :: "jlog \<times> nat list \<Rightarrow> jlog \<times> nat list \<Rightarrow> bool" where
  op_begin: "begin_op lg = Some lg' \<Longrightarrow> log_step (lg, us) (lg', us @ [0])"
| op_write: "i < length us \<Longrightarrow> us ! i < MAXOPBLOCKS \<Longrightarrow> log_write lg b s = Ok (lg', s') \<Longrightarrow>
    log_step (lg, us) (lg', us[i := us ! i + (unat (lh_n (lg_lh lg')) - unat (lh_n (lg_lh lg)))])"
| op_end: "i < length us \<Longrightarrow> end_op_start lg = Ok (fin, lg') \<Longrightarrow>
    log_step (lg, us) (lg', take i us @ drop (Suc i) us)"
| op_commit: "lg_committing lg \<Longrightarrow> log_step (lg, us) ((clear_n lg)\<lparr>lg_committing := False\<rparr>, us)"

inductive log_reach :: "u32 \<Rightarrow> jlog \<times> nat list \<Rightarrow> bool" for nlog where
  log_start: "lg_outstanding lg = 0 \<Longrightarrow> \<not> lg_committing lg \<Longrightarrow> lh_n (lg_lh lg) = 0 \<Longrightarrow>
    length (lh_block (lg_lh lg)) = LOGSIZE \<Longrightarrow> lg_size lg = nlog \<Longrightarrow> log_reach nlog (lg, [])"
| log_next: "log_reach nlog x \<Longrightarrow> log_step x y \<Longrightarrow> log_reach nlog y"

text \<open>The blocks the operations in progress may still log.\<close>

definition budget :: "nat list \<Rightarrow> nat" where
  "budget us = (\<Sum>u \<leftarrow> us. MAXOPBLOCKS - u)"

definition ops_inv :: "u32 \<Rightarrow> jlog \<times> nat list \<Rightarrow> bool" where
  "ops_inv nlog = (\<lambda>(lg, us). unat (lg_outstanding lg) = length us \<and> lg_size lg = nlog \<and>
     length (lh_block (lg_lh lg)) = LOGSIZE \<and> (\<forall>u \<in> set us. u \<le> MAXOPBLOCKS) \<and>
     unat (lh_n (lg_lh lg)) + budget us \<le> LOGSIZE \<and> length us \<le> 3 \<and>
     (lg_committing lg \<longrightarrow> us = []) \<and> (\<not> lg_committing lg \<longrightarrow> us = [] \<longrightarrow> lh_n (lg_lh lg) = 0) \<and>
     distinct (take (unat (lh_n (lg_lh lg))) (lh_block (lg_lh lg))))"

lemma budget_simps [simp]: "budget [] = 0" "budget (u # us) = MAXOPBLOCKS - u + budget us" "budget (us @ vs) = budget us + budget vs"
  by (simp_all add: budget_def)

lemma budget_le: "budget us \<le> length us * MAXOPBLOCKS"
  by (induction us) simp_all

lemma budget_spend: "i < length us \<Longrightarrow> us ! i < MAXOPBLOCKS \<Longrightarrow> budget (us[i := Suc (us ! i)]) + 1 = budget us"
proof (induction us arbitrary: i)
  case (Cons u us)
  then show ?case by (cases i) auto
qed simp

lemma budget_drop: "i < length us \<Longrightarrow> budget (take i us @ drop (Suc i) us) + (MAXOPBLOCKS - us ! i) = budget us"
  using id_take_nth_drop [of i us] by (metis (no_types, lifting) ab_semigroup_add_class.add_ac(1) add.commute
      append_Cons budget_simps(2,3) self_append_conv2)

lemma unat_small_inc: "unat (w :: u32) < 100 \<Longrightarrow> unat (w + 1) = unat w + 1"
  by (simp add: unat_word_ariths)

lemma unat_dec: "(w :: u32) \<noteq> 0 \<Longrightarrow> unat (w - 1) = unat w - 1"
  by (rule unat_minus_one)

lemma log_write_cases:
  assumes inv: "ops_inv nlog (lg, us)" and run: "log_write lg b s = Ok (lg', s')"
  shows "lg' = lg \<or>
    unat (lh_n (lg_lh lg')) = unat (lh_n (lg_lh lg)) + 1 \<and> length (lh_block (lg_lh lg')) = LOGSIZE \<and>
    lg_outstanding lg' = lg_outstanding lg \<and> lg_size lg' = lg_size lg \<and> lg_committing lg' = lg_committing lg \<and>
    take (unat (lh_n (lg_lh lg'))) (lh_block (lg_lh lg')) = take (unat (lh_n (lg_lh lg))) (lh_block (lg_lh lg)) @ [b] \<and>
    b \<notin> set (take (unat (lh_n (lg_lh lg))) (lh_block (lg_lh lg)))"
proof -
  let ?n = "unat (lh_n (lg_lh lg))"
  have len: "length (lh_block (lg_lh lg)) = LOGSIZE" using inv by (simp add: ops_inv_def)
  have small: "?n < LOGSIZE \<Longrightarrow> unat (lh_n (lg_lh lg) + 1) = ?n + 1"
    by (rule unat_small_inc) (simp add: LOGSIZE_def MAXOPBLOCKS_def)
  show ?thesis using run small len
    by (auto simp: log_write_def Let_def take_Suc_conv_app_nth split: if_splits)
qed

lemma log_step_inv: "log_step x y \<Longrightarrow> ops_inv nlog x \<Longrightarrow> ops_inv nlog y"
proof (induction rule: log_step.induct)
  case (op_begin lg lg' us)
  then have b: "\<not> lg_committing lg" "unat (lh_n (lg_lh lg)) + unat (lg_outstanding lg + 1) * MAXOPBLOCKS \<le> LOGSIZE"
    "lg' = lg\<lparr>lg_outstanding := lg_outstanding lg + 1\<rparr>" by (auto simp: begin_op_def split: if_splits)
  have o: "unat (lg_outstanding lg) = length us" "length us \<le> 3" using op_begin.prems by (simp_all add: ops_inv_def)
  then have "unat (lg_outstanding lg + 1) = Suc (length us)" using unat_small_inc [of "lg_outstanding lg"] by simp
  with b o budget_le [of us] op_begin.prems show ?case by (auto simp: ops_inv_def LOGSIZE_def MAXOPBLOCKS_def)
next
  case (op_write i us lg b s lg' s')
  from log_write_cases [OF op_write.prems op_write.hyps(3)] show ?case
  proof
    assume "lg' = lg"
    with op_write.prems show ?thesis by simp
  next
    assume w: "unat (lh_n (lg_lh lg')) = unat (lh_n (lg_lh lg)) + 1 \<and> length (lh_block (lg_lh lg')) = LOGSIZE \<and>
      lg_outstanding lg' = lg_outstanding lg \<and> lg_size lg' = lg_size lg \<and> lg_committing lg' = lg_committing lg \<and>
      take (unat (lh_n (lg_lh lg'))) (lh_block (lg_lh lg')) = take (unat (lh_n (lg_lh lg))) (lh_block (lg_lh lg)) @ [b] \<and>
      b \<notin> set (take (unat (lh_n (lg_lh lg))) (lh_block (lg_lh lg)))"
    have "\<forall>u \<in> set (us[i := Suc (us ! i)]). u \<le> MAXOPBLOCKS"
      using op_write by (auto simp: ops_inv_def dest!: set_update_subset_insert [THEN subsetD])
    with w budget_spend [OF op_write.hyps(1,2)] op_write.hyps(1) op_write.prems show ?thesis
      by (auto simp: ops_inv_def)
  qed
next
  case (op_end i us lg fin lg')
  then have o: "unat (lg_outstanding lg) = length us" "us \<noteq> []" by (auto simp: ops_inv_def)
  then have "lg_outstanding lg \<noteq> 0" by (auto simp: unat_eq_0)
  note dec = unat_dec [OF this]
  define vs where "vs = take i us @ drop (Suc i) us"
  have vs: "set vs \<subseteq> set us" "length vs = length us - 1" "budget vs \<le> budget us"
    using op_end.hyps(1) budget_drop [OF op_end.hyps(1)] by (auto simp: vs_def dest: in_set_takeD in_set_dropD)
  have "unat (lg_outstanding lg - 1) = length vs" using dec o vs(2) by simp
  then have z: "lg_outstanding lg - 1 = 0 \<longleftrightarrow> vs = []" by (metis length_0_conv unat_eq_0)
  have c: "\<not> lg_committing lg" "lg' = lg\<lparr>lg_outstanding := lg_outstanding lg - 1, lg_committing := (vs = [])\<rparr>"
    using op_end.hyps(2) z by (auto simp: end_op_start_def Let_def split: if_splits)
  have "ops_inv nlog (lg', vs)" using op_end.prems dec o vs c by (auto simp: ops_inv_def)
  then show ?case by (simp add: vs_def)
next
  case (op_commit lg us)
  then show ?case by (auto simp: ops_inv_def clear_n_def)
qed

lemma log_reach_inv: "log_reach nlog x \<Longrightarrow> ops_inv nlog x"
proof (induction rule: log_reach.induct)
  case (log_start lg)
  then show ?case by (simp add: ops_inv_def)
next
  case (log_next x y)
  then show ?case by (blast intro: log_step_inv)
qed

section \<open>Properties\<close>


definition empty_log :: "u32 \<Rightarrow> jlog" where
  "empty_log nlog = \<lparr>lg_start = 2, lg_size = nlog, lg_outstanding = 0, lg_committing = False,
     lg_lh = \<lparr>lh_n = 0, lh_block = replicate LOGSIZE 0\<rparr>\<rparr>"

lemma empty_log_reach: "log_reach nlog (empty_log nlog, [])"
  by (rule log_start) (simp_all add: empty_log_def)


text \<open>
  \<^verbatim>\<open>sync\<close> has nothing to write. Whenever it gets past its waiting loop the log is
  empty, because the last \<^verbatim>\<open>end_op\<close> has committed already: it returns and changes
  nothing.
\<close>

lemma sync_only_waits:
  assumes "log_reach nlog (lg, us)"
  shows "log_sync lg s = (if lg_committing lg \<or> us \<noteq> [] then None else Some (Ok (lg, s)))"
proof -
  have inv: "ops_inv nlog (lg, us)" using log_reach_inv [OF assms] .
  then have "0 < unat (lg_outstanding lg) \<longleftrightarrow> us \<noteq> []" by (auto simp: ops_inv_def)
  with inv show ?thesis by (auto simp: log_sync_def ops_inv_def)
qed

text \<open>An operation with budget left can log fresh blocks, here the numbers from the log's length on.\<close>

lemma log_fill:
  assumes "log_reach 30 (lg, us)" "i < length us" "us ! i + m \<le> MAXOPBLOCKS" "unat (lh_n (lg_lh lg)) = n" "n + m \<le> 29"
    and "take n (lh_block (lg_lh lg)) = map word_of_nat [0..<n]"
  shows "\<exists>lg'. log_reach 30 (lg', us[i := us ! i + m]) \<and> unat (lh_n (lg_lh lg')) = n + m \<and>
    take (n + m) (lh_block (lg_lh lg')) = map word_of_nat [0..<n + m]"
  using assms(3,5)
proof (induction m)
  case 0
  with assms show ?case by (intro exI [of _ lg]) simp
next
  case (Suc m)
  then obtain l where l: "log_reach 30 (l, us[i := us ! i + m])" "unat (lh_n (lg_lh l)) = n + m"
    "take (n + m) (lh_block (lg_lh l)) = map word_of_nat [0..<n + m]" by auto
  have inv: "ops_inv 30 (l, us[i := us ! i + m])" using log_reach_inv [OF l(1)] .
  then have o: "0 < unat (lg_outstanding l)" "lg_size l = 30" "length (lh_block (lg_lh l)) = LOGSIZE"
    using assms(2) by (auto simp: ops_inv_def)
  have fresh: "word_of_nat (n + m) \<notin> set (take (n + m) (lh_block (lg_lh l)))"
  proof
    assume "word_of_nat (n + m) \<in> set (take (n + m) (lh_block (lg_lh l)))"
    then obtain k where "k < n + m" "(word_of_nat (n + m) :: u32) = word_of_nat k" unfolding l(3) by auto
    moreover have small: "unat (word_of_nat j :: u32) = j" if "j < 100" for j
      using that by (simp add: unsigned_of_nat take_bit_nat_eq_self)
    ultimately have "n + m = k" using small [of "n + m"] small [of k] Suc.prems(2) by simp
    with \<open>k < n + m\<close> show False by simp
  qed
  let ?lg = "l\<lparr>lg_lh := (lg_lh l)\<lparr>lh_block := (lh_block (lg_lh l))[n + m := word_of_nat (n + m)], lh_n := lh_n (lg_lh l) + 1\<rparr>\<rparr>"
  have "\<not> (29 :: u32) \<le> lh_n (lg_lh l)" using l(2) Suc.prems by (simp add: word_le_nat_alt)
  then have run: "log_write l (word_of_nat (n + m)) demo_dev = Ok (?lg, bpin demo_dev (unat (word_of_nat (n + m) :: u32)))"
    using l(2) o Suc.prems fresh by (simp add: log_write_def Let_def LOGSIZE_def MAXOPBLOCKS_def)
  have n1: "unat (lh_n (lg_lh l) + 1) = n + Suc m" using unat_small_inc [of "lh_n (lg_lh l)"] l(2) Suc.prems by simp
  have i: "i < length (us[i := us ! i + m])" "us[i := us ! i + m] ! i < MAXOPBLOCKS" using assms(2) Suc.prems by simp_all
  from log_next [OF l(1) op_write [OF i run]] have "log_reach 30 (?lg, us[i := us ! i + Suc m])"
    using n1 l(2) assms(2) by simp
  moreover have "take (n + Suc m) (lh_block (lg_lh ?lg)) = map word_of_nat [0..<n + Suc m]"
    using l(3) o(3) Suc.prems by (simp add: take_Suc_conv_app_nth LOGSIZE_def MAXOPBLOCKS_def)
  ultimately show ?case using n1 by (intro exI [of _ ?lg]) simp
qed

text \<open>
  The log that \<^verbatim>\<open>mkfs\<close> creates is one block too small. It has \<^verbatim>\<open>LOGSIZE\<close>
  = 30 blocks with the header among them, and \<^verbatim>\<open>begin_op\<close> admits three operations of ten
  blocks each: when three operations use their whole budget, the last write panics with
  ``too big a transaction''.
\<close>

lemma log_overcommitted:
  "\<exists>lg us i. log_reach 30 (lg, us) \<and> i < length us \<and> us ! i < MAXOPBLOCKS \<and> log_write lg b s = Panic"
proof -
  let ?lg = "\<lambda>k. (empty_log 30)\<lparr>lg_outstanding := k\<rparr>"
  have b: "begin_op (?lg 0) = Some (?lg 1)" "begin_op (?lg 1) = Some (?lg 2)" "begin_op (?lg 2) = Some (?lg 3)"
    by (simp_all add: begin_op_def empty_log_def LOGSIZE_def MAXOPBLOCKS_def)
  have "log_reach 30 (?lg 0, [])" using empty_log_reach [of 30] by (simp add: empty_log_def)
  from log_next [OF log_next [OF log_next [OF this op_begin [OF b(1)]] op_begin [OF b(2)]] op_begin [OF b(3)]]
  have r0: "log_reach 30 (?lg 3, [0, 0, 0])" by simp
  obtain l1 where l1: "log_reach 30 (l1, [10, 0, 0])" "unat (lh_n (lg_lh l1)) = 10"
    "take 10 (lh_block (lg_lh l1)) = map word_of_nat [0..<10]"
    using log_fill [OF r0, of 0 10 0] by (auto simp: empty_log_def MAXOPBLOCKS_def)
  obtain l2 where l2: "log_reach 30 (l2, [10, 10, 0])" "unat (lh_n (lg_lh l2)) = 20"
    "take 20 (lh_block (lg_lh l2)) = map word_of_nat [0..<20]"
    using log_fill [OF l1(1), of 1 10 10] l1(2,3) by (auto simp: MAXOPBLOCKS_def)
  obtain l3 where l3: "log_reach 30 (l3, [10, 10, 9])" "unat (lh_n (lg_lh l3)) = 29"
    using log_fill [OF l2(1), of 2 9 20] l2(2,3) by (auto simp: MAXOPBLOCKS_def eval_nat_numeral)
  have "lg_size l3 = 30" using log_reach_inv [OF l3(1)] by (simp add: ops_inv_def)
  then have "log_write l3 b s = Panic" using l3(2) by (simp add: log_write_def Let_def word_le_nat_alt)
  with l3(1) show ?thesis by (intro exI [of _ l3] exI [of _ "[10, 10, 9]"] exI [of _ 2]) (simp add: MAXOPBLOCKS_def)
qed

end
