(* ===== verification/Sleeplock.thy ===== *)
theory Sleeplock
  imports Params
begin

text \<open>
  Sleeping locks (\<^verbatim>\<open>crates/kernel/src/sleeplock.rs\<close>). The two fields are protected
  by a spin lock, so that every operation is one step. \<open>sl_lock\<close> is one pass through the loop
  of \<^verbatim>\<open>lock\<close>; the result \<open>None\<close> means that the process goes to sleep.
\<close>

record sleeplock =
  sl_locked :: bool
  sl_pid :: nat

definition sl_new :: sleeplock where
  "sl_new = \<lparr>sl_locked = False, sl_pid = 0\<rparr>"

definition sl_lock :: "nat \<Rightarrow> sleeplock \<Rightarrow> sleeplock option" where
  "sl_lock pid l = (if sl_locked l then None else Some (l\<lparr>sl_locked := True, sl_pid := pid\<rparr>))"

definition sl_holding :: "nat \<Rightarrow> sleeplock \<Rightarrow> bool" where
  "sl_holding pid l \<longleftrightarrow> sl_locked l \<and> sl_pid l = pid"

definition sl_release :: "nat \<Rightarrow> sleeplock \<Rightarrow> sleeplock result" where
  "sl_release pid l = assert_then (sl_holding pid l) (Ok (l\<lparr>sl_locked := False, sl_pid := 0\<rparr>))"

lemma sl_lock_Some: "sl_lock pid l = Some l' \<Longrightarrow> \<not> sl_locked l \<and> sl_holding pid l'"
  by (auto simp: sl_lock_def sl_holding_def split: if_splits)

text \<open>Between a successful \<open>sl_lock\<close> and the release by its holder nobody else gets the lock or can release it.\<close>

lemma sl_exclusive: "sl_holding pid l \<Longrightarrow> sl_lock pid' l = None \<and> (pid' \<noteq> pid \<longrightarrow> sl_release pid' l = Panic)"
  by (auto simp: sl_lock_def sl_holding_def sl_release_def)

lemma sl_release_holding: "sl_holding pid l \<Longrightarrow> \<exists>l'. sl_release pid l = Ok l' \<and> \<not> sl_locked l'"
  by (simp add: sl_release_def)

end
