(* ===== verification/Bio.thy ===== *)
theory Bio
  imports Sleeplock Journal
begin

text \<open>
  The buffer cache of \<^verbatim>\<open>crates/kernel/src/bio.rs\<close>. A buffer is a number below
  \<^verbatim>\<open>NBUF\<close>; its metadata (\<^verbatim>\<open>Meta\<close>), its contents (\<^verbatim>\<open>Data\<close>), the
  strong count of its \<^verbatim>\<open>Arc\<close> and its sleeping lock are components of the state. The list of
  buffers in the order of their use is kept, as in the source, by the \<^verbatim>\<open>next\<close> and
  \<^verbatim>\<open>prev\<close> links of the metadata. The nodes of the list are never freed, so that upgrading a
  weak link always succeeds.

  \<^verbatim>\<open>BCache::get\<close> holds the list's lock only while it looks the block up: \<open>get_start\<close> is
  this part and \<open>get_finish\<close> the rest, from acquiring the buffer's lock. Runs in which the two
  parts follow each other satisfy the specification: a read returns what was last written. Runs in
  which another process gets in between do not.
\<close>

section \<open>State\<close>

record bmeta =
  m_dev :: u32
  m_blockno :: u32
  m_next :: "nat option"
  m_prev :: "nat option"

record bdata =
  d_data :: block
  d_disk :: bool
  d_blockno :: u32
  d_dev :: u32
  d_valid :: bool

record bcache =
  bc_buf :: "nat \<Rightarrow> bdata"
  bc_lock :: "nat \<Rightarrow> sleeplock"
  bc_refs :: "nat \<Rightarrow> nat"
  bc_meta :: "nat \<Rightarrow> bmeta"
  bc_head :: "nat option"
  bc_tail :: "nat option"
  bc_index :: "u32 \<times> u32 \<rightharpoonup> nat"
  bc_n :: nat
  bc_dev :: "u32 \<Rightarrow> block"

definition data_new :: bdata where
  "data_new = \<lparr>d_data = replicate BSIZE 0, d_disk = False, d_blockno = 0, d_dev = 0, d_valid = False\<rparr>"

definition meta_new :: bmeta where
  "meta_new = \<lparr>m_dev = 0, m_blockno = 0, m_next = None, m_prev = None\<rparr>"

text \<open>The static cache before \<^verbatim>\<open>init\<close>, over a disk with the given contents.\<close>

definition bcache_new :: "(u32 \<Rightarrow> block) \<Rightarrow> bcache" where
  "bcache_new dsk =
     \<lparr>bc_buf = (\<lambda>_. data_new), bc_lock = (\<lambda>_. sl_new), bc_refs = (\<lambda>_. 0), bc_meta = (\<lambda>_. meta_new),
      bc_head = None, bc_tail = None, bc_index = Map.empty, bc_n = 0, bc_dev = dsk\<rparr>"

definition bset_next :: "nat \<Rightarrow> nat option \<Rightarrow> bcache \<Rightarrow> bcache" where
  "bset_next i v s = s\<lparr>bc_meta := (bc_meta s)(i := (bc_meta s i)\<lparr>m_next := v\<rparr>)\<rparr>"

definition bset_prev :: "nat \<Rightarrow> nat option \<Rightarrow> bcache \<Rightarrow> bcache" where
  "bset_prev i v s = s\<lparr>bc_meta := (bc_meta s)(i := (bc_meta s i)\<lparr>m_prev := v\<rparr>)\<rparr>"

section \<open>The list\<close>

definition lru_add :: "nat \<Rightarrow> bcache \<Rightarrow> bcache" where
  "lru_add i s =
     (let s0 = s\<lparr>bc_refs := (bc_refs s)(i := 1), bc_meta := (bc_meta s)(i := meta_new)\<rparr>;
          s1 = (case bc_tail s0 of
                  Some t \<Rightarrow> bset_prev i (Some t) (bset_next t (Some i) s0)
                | None \<Rightarrow> s0\<lparr>bc_head := Some i\<rparr>)
      in s1\<lparr>bc_tail := Some i, bc_n := bc_n s1 + 1\<rparr>)"

text \<open>The search from the tail; the counter is the one of \<^verbatim>\<open>enumerate\<close>.\<close>

function lru_scan :: "bcache \<Rightarrow> nat option \<Rightarrow> nat \<Rightarrow> nat result" where
  "lru_scan s None i = Panic"
| "lru_scan s (Some b) i =
     (if i < 30 then
        (if bc_refs s b = 1 then Ok b else lru_scan s (m_prev (bc_meta s b)) (i + 1))
      else Panic)"
  by pat_completeness auto
termination
  by (relation "measure (\<lambda>(s, b, i). 30 - i)") auto

definition lru_get :: "u32 \<Rightarrow> u32 \<Rightarrow> bcache \<Rightarrow> (bool \<times> nat) result" where
  "lru_get dev blockno s =
     (case bc_index s (dev, blockno) of
        Some b \<Rightarrow>
          if m_dev (bc_meta s b) = dev \<and> m_blockno (bc_meta s b) = blockno then Ok (False, b)
          else obind (lru_scan s (bc_tail s) 0) (\<lambda>b. Ok (True, b))
      | None \<Rightarrow> obind (lru_scan s (bc_tail s) 0) (\<lambda>b. Ok (True, b)))"

definition relse :: "nat \<Rightarrow> bcache \<Rightarrow> bcache" where
  "relse b s =
     (if bc_refs s b = 1 then
        (if m_prev (bc_meta s b) = None then s
         else
           (let dnext = m_next (bc_meta s b);
                dprev = m_prev (bc_meta s b);
                s1 = bset_prev b None (bset_next b None s);
                s2 = (case dnext of Some n \<Rightarrow> bset_prev n dprev s1 | None \<Rightarrow> s1);
                s3 = (case dprev of Some p \<Rightarrow> bset_next p dnext s2 | None \<Rightarrow> s2);
                s4 = (case bc_head s3 of
                        Some h \<Rightarrow> bset_next b (Some h) (bset_prev h (Some b) s3)
                      | None \<Rightarrow> s3\<lparr>bc_tail := Some b\<rparr>);
                s5 = s4\<lparr>bc_head := Some b\<rparr>
            in if dnext = None then s5\<lparr>bc_tail := dprev\<rparr> else s5))
      else s)"

section \<open>The cache\<close>

definition get_start :: "u32 \<Rightarrow> u32 \<Rightarrow> bcache \<Rightarrow> (bool \<times> nat \<times> bcache) result" where
  "get_start dev blockno s =
     obind (lru_get dev blockno s) (\<lambda>(recycle, b).
       if recycle then
         (let old = (m_dev (bc_meta s b), m_blockno (bc_meta s b));
              idx = (if old \<noteq> (0, 0) then (bc_index s)(old := None) else bc_index s)
          in Ok (True, b,
               s\<lparr>bc_index := idx((dev, blockno) \<mapsto> b),
                 bc_meta := (bc_meta s)(b := (bc_meta s b)\<lparr>m_dev := dev, m_blockno := blockno\<rparr>)\<rparr>))
       else Ok (False, b, s))"

definition get_finish :: "nat \<Rightarrow> u32 \<Rightarrow> u32 \<Rightarrow> bool \<Rightarrow> nat \<Rightarrow> bcache \<Rightarrow> bcache option" where
  "get_finish pid dev blockno recycle b s =
     (case sl_lock pid (bc_lock s b) of
        None \<Rightarrow> None
      | Some l \<Rightarrow>
          (let d = bc_buf s b;
               d' = (if recycle then d\<lparr>d_valid := False, d_blockno := blockno, d_dev := dev\<rparr> else d)
           in Some (s\<lparr>bc_lock := (bc_lock s)(b := l), bc_buf := (bc_buf s)(b := d'),
                      bc_refs := (bc_refs s)(b := bc_refs s b + 1)\<rparr>)))"

text \<open>The effect of \<^verbatim>\<open>DISK.rw\<close>: the transfer of one block at the buffer's block number.\<close>

definition disk_rw :: "nat \<Rightarrow> bool \<Rightarrow> bcache \<Rightarrow> bcache" where
  "disk_rw b wr s =
     (if wr then s\<lparr>bc_dev := (bc_dev s)(d_blockno (bc_buf s b) := d_data (bc_buf s b))\<rparr>
      else s\<lparr>bc_buf := (bc_buf s)(b := (bc_buf s b)\<lparr>d_data := bc_dev s (d_blockno (bc_buf s b))\<rparr>)\<rparr>)"

definition read_fill :: "nat \<Rightarrow> bcache \<Rightarrow> bcache" where
  "read_fill b s =
     (if d_valid (bc_buf s b) then s
      else let s1 = disk_rw b False s in s1\<lparr>bc_buf := (bc_buf s1)(b := (bc_buf s1 b)\<lparr>d_valid := True\<rparr>)\<rparr>)"

text \<open>
  \<^verbatim>\<open>BCache::read\<close> without interruption. The first component is the buffer of the guard, or
  \<open>None\<close> when the process sleeps waiting for the buffer's lock.
\<close>

definition bcache_read :: "nat \<Rightarrow> u32 \<Rightarrow> u32 \<Rightarrow> bcache \<Rightarrow> (nat option \<times> bcache) result" where
  "bcache_read pid dev blockno s =
     obind (get_start dev blockno s) (\<lambda>(recycle, b, s1).
       case get_finish pid dev blockno recycle b s1 of
         None \<Rightarrow> Ok (None, s1)
       | Some s2 \<Rightarrow> Ok (Some b, read_fill b s2))"

definition guard_write :: "nat \<Rightarrow> nat \<Rightarrow> bcache \<Rightarrow> bcache result" where
  "guard_write pid b s = assert_then (sl_holding pid (bc_lock s b)) (Ok (disk_rw b True s))"

definition guard_pin :: "nat \<Rightarrow> bcache \<Rightarrow> bcache" where
  "guard_pin b s = s\<lparr>bc_refs := (bc_refs s)(b := bc_refs s b + 1)\<rparr>"

definition guard_unpin :: "nat \<Rightarrow> bcache \<Rightarrow> bcache" where
  "guard_unpin b s = s\<lparr>bc_refs := (bc_refs s)(b := bc_refs s b - 1)\<rparr>"

text \<open>An assignment to the contents through the guard.\<close>

definition guard_set :: "nat \<Rightarrow> block \<Rightarrow> bcache \<Rightarrow> bcache" where
  "guard_set b x s = s\<lparr>bc_buf := (bc_buf s)(b := (bc_buf s b)\<lparr>d_data := x\<rparr>)\<rparr>"

definition guard_drop :: "nat \<Rightarrow> nat \<Rightarrow> bcache \<Rightarrow> bcache result" where
  "guard_drop pid b s =
     obind (sl_release pid (bc_lock s b)) (\<lambda>l.
       Ok (relse b (s\<lparr>bc_lock := (bc_lock s)(b := l), bc_refs := (bc_refs s)(b := bc_refs s b - 1)\<rparr>)))"

definition bcache_init :: "(u32 \<Rightarrow> block) \<Rightarrow> bcache" where
  "bcache_init dsk = fold lru_add [0..<NBUF] (bcache_new dsk)"

section \<open>The links represent a list\<close>

fun dll :: "(nat \<Rightarrow> bmeta) \<Rightarrow> nat option \<Rightarrow> nat list \<Rightarrow> nat option \<Rightarrow> bool" where
  "dll m p [] q \<longleftrightarrow> True"
| "dll m p (x # xs) q \<longleftrightarrow>
     m_prev (m x) = p \<and> m_next (m x) = (case xs of [] \<Rightarrow> q | y # _ \<Rightarrow> Some y) \<and> dll m (Some x) xs q"

definition first_of :: "nat list \<Rightarrow> nat option \<Rightarrow> nat option" where
  "first_of xs q = (case xs of [] \<Rightarrow> q | x # _ \<Rightarrow> Some x)"

definition last_of :: "nat option \<Rightarrow> nat list \<Rightarrow> nat option" where
  "last_of p xs = (if xs = [] then p else Some (last xs))"

lemma ends_simps [simp]:
  "first_of [] q = q" "first_of (x # xs) q = Some x" "last_of p [] = p" "last_of p (xs @ [x]) = Some x"
  "last_of p (x # xs) = last_of (Some x) xs"
  by (simp_all add: first_of_def last_of_def)

lemma last_of_append [simp]: "last_of p (xs @ ys) = last_of (last_of p xs) ys"
  by (simp add: last_of_def)

lemma first_of_append [simp]: "first_of (xs @ ys) q = first_of xs (first_of ys q)"
  by (simp add: first_of_def split: list.split)

lemma dll_Cons: "dll m p (x # xs) q \<longleftrightarrow> m_prev (m x) = p \<and> m_next (m x) = first_of xs q \<and> dll m (Some x) xs q"
  by (simp add: first_of_def)

lemma dll_append: "dll m p (xs @ ys) q \<longleftrightarrow> dll m p xs (first_of ys q) \<and> dll m (last_of p xs) ys q"
  by (induction xs arbitrary: p) (auto simp: dll_Cons simp del: dll.simps(2))

lemma dll_last_next: "dll m p xs q \<Longrightarrow> xs \<noteq> [] \<Longrightarrow> m_next (m (last xs)) = q"
  by (induction xs arbitrary: p) (auto split: list.splits)

lemma dll_cong: "(\<And>x. x \<in> set xs \<Longrightarrow> m_prev (m' x) = m_prev (m x) \<and> m_next (m' x) = m_next (m x)) \<Longrightarrow>
    dll m' p xs q = dll m p xs q"
  by (induction xs arbitrary: p) auto

text \<open>Changing the two links that leave a segment.\<close>

lemma dll_relink:
  assumes "dll m p xs q" "distinct xs"
    and "\<And>x. x \<in> set xs \<Longrightarrow> m_prev (m' x) = (if x = hd xs then p' else m_prev (m x)) \<and>
      m_next (m' x) = (if x = last xs then q' else m_next (m x))"
  shows "dll m' p' xs q'"
  using assms
proof (induction xs arbitrary: p p')
  case (Cons x xs)
  have "dll m' (Some x) xs q'"
  proof (rule Cons.IH)
    show "dll m (Some x) xs q" "distinct xs" using Cons.prems by simp_all
    fix y assume y: "y \<in> set xs"
    then have "m_prev (m (hd xs)) = Some x" "y \<noteq> x" "last (x # xs) = last xs"
      using Cons.prems by (cases xs; force)+
    with y Cons.prems(3) [of y] show "m_prev (m' y) = (if y = hd xs then Some x else m_prev (m y)) \<and>
        m_next (m' y) = (if y = last xs then q' else m_next (m y))" by auto
  qed
  moreover have "x \<noteq> last (x # xs)" if "xs \<noteq> []" using that Cons.prems(2) by auto
  ultimately show ?case using Cons.prems(1) Cons.prems(3) [of x] by (cases xs) simp_all
qed simp

definition lru_rep :: "bcache \<Rightarrow> nat list \<Rightarrow> bool" where
  "lru_rep s xs \<longleftrightarrow> distinct xs \<and> dll (bc_meta s) None xs None \<and>
     bc_head s = first_of xs None \<and> bc_tail s = last_of None xs"

lemma bset_simps [simp]:
  "m_next (bc_meta (bset_next i v s) j) = (if j = i then v else m_next (bc_meta s j))"
  "m_prev (bc_meta (bset_next i v s) j) = m_prev (bc_meta s j)"
  "m_prev (bc_meta (bset_prev i v s) j) = (if j = i then v else m_prev (bc_meta s j))"
  "m_next (bc_meta (bset_prev i v s) j) = m_next (bc_meta s j)"
  "m_dev (bc_meta (bset_next i v s) j) = m_dev (bc_meta s j)"
  "m_dev (bc_meta (bset_prev i v s) j) = m_dev (bc_meta s j)"
  "m_blockno (bc_meta (bset_next i v s) j) = m_blockno (bc_meta s j)"
  "m_blockno (bc_meta (bset_prev i v s) j) = m_blockno (bc_meta s j)"
  "bc_head (bset_next i v s) = bc_head s" "bc_head (bset_prev i v s) = bc_head s"
  "bc_tail (bset_next i v s) = bc_tail s" "bc_tail (bset_prev i v s) = bc_tail s"
  by (simp_all add: bset_next_def bset_prev_def)

text \<open>What the list operations leave alone.\<close>

definition same_store :: "bcache \<Rightarrow> bcache \<Rightarrow> bool" where
  "same_store s s' \<longleftrightarrow> bc_buf s' = bc_buf s \<and> bc_lock s' = bc_lock s \<and> bc_refs s' = bc_refs s \<and>
     bc_index s' = bc_index s \<and> bc_dev s' = bc_dev s \<and>
     (\<forall>i. m_dev (bc_meta s' i) = m_dev (bc_meta s i) \<and> m_blockno (bc_meta s' i) = m_blockno (bc_meta s i))"

lemma same_store_simps [simp]:
  "same_store s s" "same_store s (bset_next i v s') = same_store s s'" "same_store s (bset_prev i v s') = same_store s s'"
  "same_store s (s'\<lparr>bc_head := h\<rparr>) = same_store s s'" "same_store s (s'\<lparr>bc_tail := t\<rparr>) = same_store s s'"
  by (auto simp: same_store_def bset_next_def bset_prev_def)

lemma relse_same_store: "same_store s (relse b s)"
  by (simp add: relse_def Let_def split: option.split)

lemma relse_moves_to_front:
  assumes "lru_rep s xs" "b \<in> set xs" "bc_refs s b = 1"
  shows "lru_rep (relse b s) (b # remove1 b xs)"
proof -
  obtain us vs where xs: "xs = us @ b # vs" and "b \<notin> set us" using split_list_first [OF assms(2)] by blast
  have d: "distinct xs" "dll (bc_meta s) None us (Some b)" "m_prev (bc_meta s b) = last_of None us"
      "m_next (bc_meta s b) = first_of vs None" "dll (bc_meta s) (Some b) vs None"
      "bc_head s = first_of us (Some b)" "bc_tail s = last_of (Some b) vs"
    using assms(1) by (simp_all add: lru_rep_def xs dll_append dll_Cons del: dll.simps(2))
  have rem: "remove1 b xs = us @ vs" using \<open>b \<notin> set us\<close> by (simp add: xs remove1_append)
  show ?thesis
  proof (cases us)
    case Nil
    then have "relse b s = s" using d(3) by (simp add: relse_def)
    then show ?thesis using assms(1) rem Nil by (simp add: xs)
  next
    case (Cons h us')
    define p where "p = last us"
    have ends: "last_of q us = Some p" "first_of us q = Some h" for q by (simp_all add: Cons p_def last_of_def)
    have hp: "h = hd us" "p = last us" "h \<in> set us" "p \<in> set us" using Cons by (simp_all add: p_def)
    have fresh: "b \<notin> set us" "b \<notin> set vs" "set us \<inter> set vs = {}" "vs \<noteq> [] \<Longrightarrow> hd vs \<notin> set us"
      using d(1) xs by (auto simp: disjoint_iff dest: hd_in_set)
    have r: "relse b s = (let s4 = bset_next b (Some h) (bset_prev h (Some b) (bset_next p (first_of vs None)
        ((case vs of [] \<Rightarrow> id | n # _ \<Rightarrow> bset_prev n (Some p)) (bset_prev b None (bset_next b None s)))))
        in if vs = [] then s4\<lparr>bc_head := Some b, bc_tail := Some p\<rparr> else s4\<lparr>bc_head := Some b\<rparr>)"
      using assms(3) d(3,4,6) ends by (cases vs) (simp_all add: relse_def Let_def)
    have m: "m_prev (bc_meta (relse b s) x) =
          (if x = b then None else if x = h then Some b else if vs \<noteq> [] \<and> x = hd vs then Some p else m_prev (bc_meta s x)) \<and>
        m_next (bc_meta (relse b s) x) =
          (if x = b then Some h else if x = p then first_of vs None else m_next (bc_meta s x))" for x
      using fresh hp by (cases vs) (auto simp: r Let_def)
    have "dll (bc_meta (relse b s)) (Some b) us (first_of vs None)"
      by (rule dll_relink [OF d(2)]) (use d(1) fresh hp in \<open>auto simp: m xs disjoint_iff\<close>)
    moreover have "dll (bc_meta (relse b s)) (Some p) vs None"
      by (rule dll_relink [OF d(5)])
        (use d(1,5) fresh hp in \<open>auto simp: m xs disjoint_iff dll_last_next\<close>)
    ultimately have "dll (bc_meta (relse b s)) None (b # us @ vs) None"
      using ends by (simp add: m dll_append dll_Cons del: dll.simps(2))
    moreover have "bc_head (relse b s) = Some b" "bc_tail (relse b s) = last_of (Some p) vs"
      using d(7) by (cases vs; simp add: r Let_def last_of_def)+
    ultimately have "lru_rep (relse b s) (b # us @ vs)"
      using d(1) [unfolded xs] ends by (simp add: lru_rep_def del: dll.simps(2))
    then show ?thesis by (simp only: rem)
  qed
qed

lemma lru_add_fields:
  "bc_buf (lru_add i s) = bc_buf s" "bc_lock (lru_add i s) = bc_lock s" "bc_index (lru_add i s) = bc_index s"
  "bc_dev (lru_add i s) = bc_dev s" "bc_refs (lru_add i s) = (bc_refs s)(i := 1)" "bc_tail (lru_add i s) = Some i"
  "bc_head (lru_add i s) = (if bc_tail s = None then Some i else bc_head s)"
  "m_dev (bc_meta (lru_add i s) x) = (if x = i then 0 else m_dev (bc_meta s x))"
  "m_blockno (bc_meta (lru_add i s) x) = (if x = i then 0 else m_blockno (bc_meta s x))"
  "bc_tail s = Some t \<Longrightarrow> t \<noteq> i \<Longrightarrow> m_prev (bc_meta (lru_add i s) x) = (if x = i then Some t else m_prev (bc_meta s x)) \<and>
      m_next (bc_meta (lru_add i s) x) = (if x = t then Some i else if x = i then None else m_next (bc_meta s x))"
  by (auto simp: lru_add_def Let_def bset_next_def bset_prev_def meta_new_def split: option.split)

lemma lru_add_appends:
  assumes "lru_rep s xs" "i \<notin> set xs"
  shows "lru_rep (lru_add i s) (xs @ [i])"
proof (cases "xs = []")
  case True
  then show ?thesis using assms by (simp add: lru_rep_def lru_add_def meta_new_def)
next
  case False
  then have tail: "bc_tail s = Some (last xs)" "last xs \<in> set xs" using assms(1) by (simp_all add: lru_rep_def last_of_def)
  let ?s = "lru_add i s"
  have m: "m_prev (bc_meta ?s x) = (if x = i then Some (last xs) else m_prev (bc_meta s x)) \<and>
      m_next (bc_meta ?s x) = (if x = last xs then Some i else if x = i then None else m_next (bc_meta s x))" for x
    using lru_add_fields(10) [OF tail(1), of i x] tail(2) assms(2) by metis
  have d: "dll (bc_meta s) None xs None" "distinct xs" using assms(1) by (simp_all add: lru_rep_def)
  have h: "m_prev (bc_meta s (hd xs)) = None" using d(1) False by (cases xs) simp_all
  have "dll (bc_meta ?s) None xs (Some i)"
    by (rule dll_relink [OF d]) (use assms(2) tail h in \<open>auto simp: m\<close>)
  then have "dll (bc_meta ?s) None (xs @ [i]) None" using tail assms(2) False
    by (auto simp: dll_append m last_of_def)
  moreover have "bc_head ?s = first_of (xs @ [i]) None" "bc_tail ?s = Some i"
    using assms(1) tail False by (auto simp: lru_rep_def lru_add_fields first_of_def split: list.split)
  ultimately show ?thesis using assms(2) d(2) by (simp add: lru_rep_def)
qed

text \<open>The scan finds the least recently used buffer that nobody refers to; the limit of 30 is not reached.\<close>

lemma lru_scan_spec:
  assumes "dll (bc_meta s) None xs q" "i + length xs \<le> 30"
  shows "lru_scan s (last_of None xs) i =
    (case find (\<lambda>b. bc_refs s b = 1) (rev xs) of Some b \<Rightarrow> Ok b | None \<Rightarrow> Panic)"
  using assms
proof (induction xs arbitrary: i q rule: rev_induct)
  case (snoc x xs)
  then have "lru_scan s (last_of None xs) (Suc i) =
      (case find (\<lambda>b. bc_refs s b = 1) (rev xs) of Some b \<Rightarrow> Ok b | None \<Rightarrow> Panic)"
    by (intro snoc.IH [where q = "Some x"]) (simp_all add: dll_append)
  with snoc.prems show ?case by (simp add: dll_append)
qed simp

section \<open>Invariant\<close>

definition buf_ok :: "bcache \<Rightarrow> nat \<Rightarrow> bool" where
  "buf_ok s i \<longleftrightarrow> 1 \<le> bc_refs s i \<and> (sl_locked (bc_lock s i) \<longrightarrow> 2 \<le> bc_refs s i) \<and>
     d_dev (bc_buf s i) = m_dev (bc_meta s i) \<and> d_blockno (bc_buf s i) = m_blockno (bc_meta s i) \<and>
     (d_valid (bc_buf s i) \<longleftrightarrow> m_dev (bc_meta s i) = ROOTDEV) \<and>
     (m_dev (bc_meta s i) \<noteq> ROOTDEV \<longrightarrow> m_dev (bc_meta s i) = 0 \<and> m_blockno (bc_meta s i) = 0 \<and> \<not> sl_locked (bc_lock s i)) \<and>
     (bc_refs s i = 1 \<and> d_valid (bc_buf s i) \<longrightarrow> d_data (bc_buf s i) = bc_dev s (d_blockno (bc_buf s i)))"

definition bc_inv :: "bcache \<Rightarrow> nat list \<Rightarrow> bool" where
  "bc_inv s xs \<longleftrightarrow> lru_rep s xs \<and> set xs = {..<NBUF} \<and> (\<forall>i < NBUF. buf_ok s i) \<and>
     (\<forall>i. NBUF \<le> i \<longrightarrow> \<not> sl_locked (bc_lock s i)) \<and>
     (\<forall>b i. bc_index s (ROOTDEV, b) = Some i \<longleftrightarrow> i < NBUF \<and> m_dev (bc_meta s i) = ROOTDEV \<and> m_blockno (bc_meta s i) = b) \<and>
     (\<forall>d b. d \<noteq> ROOTDEV \<longrightarrow> bc_index s (d, b) = None)"

lemma bc_invD:
  assumes "bc_inv s xs"
  shows "lru_rep s xs" "set xs = {..<NBUF}" "i < NBUF \<Longrightarrow> buf_ok s i" "NBUF \<le> i \<Longrightarrow> \<not> sl_locked (bc_lock s i)"
    "bc_index s (ROOTDEV, b) = Some i \<longleftrightarrow> i < NBUF \<and> m_dev (bc_meta s i) = ROOTDEV \<and> m_blockno (bc_meta s i) = b"
    "d \<noteq> ROOTDEV \<Longrightarrow> bc_index s (d, b) = None"
  using assms unfolding bc_inv_def by blast+

text \<open>What a block contains: its buffer if it has one, else the disk.\<close>

definition cview :: "bcache \<Rightarrow> u32 \<Rightarrow> block" where
  "cview s b = (case bc_index s (ROOTDEV, b) of Some i \<Rightarrow> d_data (bc_buf s i) | None \<Rightarrow> bc_dev s b)"

lemma cview_cong:
  "bc_index s' = bc_index s \<Longrightarrow> bc_dev s' = bc_dev s \<Longrightarrow> bc_buf s' = bc_buf s \<Longrightarrow> cview s' = cview s"
  by (rule ext) (simp add: cview_def split: option.split)

definition buf_clean :: "bcache \<Rightarrow> nat \<Rightarrow> bool" where
  "buf_clean s i \<longleftrightarrow> d_data (bc_buf s i) = bc_dev s (d_blockno (bc_buf s i))"

lemma init_fields:
  fixes dsk n
  defines "s \<equiv> fold lru_add [0..<n] (bcache_new dsk)"
  shows "lru_rep s [0..<n] \<and> bc_buf s = (\<lambda>_. data_new) \<and> bc_lock s = (\<lambda>_. sl_new) \<and> bc_index s = Map.empty \<and>
    bc_dev s = dsk \<and> (\<forall>i < n. bc_refs s i = 1) \<and> (\<forall>i. m_dev (bc_meta s i) = 0 \<and> m_blockno (bc_meta s i) = 0)"
  unfolding s_def
proof (induction n)
  case 0
  then show ?case by (simp add: bcache_new_def lru_rep_def meta_new_def)
next
  case (Suc n)
  let ?s = "fold lru_add [0..<n] (bcache_new dsk)"
  have "lru_rep (lru_add n ?s) ([0..<n] @ [n])" using Suc by (intro lru_add_appends) simp_all
  with Suc show ?case by (simp add: lru_add_fields)
qed

lemma bcache_init_inv: "bc_inv (bcache_init dsk) [0..<NBUF]" "cview (bcache_init dsk) = dsk"
  using init_fields [of NBUF dsk]
  by (auto simp: bc_inv_def buf_ok_def bcache_init_def data_new_def sl_new_def ROOTDEV_def cview_def fun_eq_iff)

section \<open>Runs\<close>

text \<open>
  Runs of the cache in which \<^verbatim>\<open>get\<close> is not interrupted, together with the contents
  that the blocks have. A holder of a buffer may change, write and pin it. It drops it only when its
  contents are on the disk or when it is pinned, and takes a pin back only when the contents are on
  the disk; this is what \<^verbatim>\<open>log.rs\<close> does.
\<close>

inductive bio_reach :: "(u32 \<Rightarrow> block) \<Rightarrow> bcache \<Rightarrow> (u32 \<Rightarrow> block) \<Rightarrow> bool" for dsk where
  bio_init: "bio_reach dsk (bcache_init dsk) dsk"
| bio_read: "bio_reach dsk s V \<Longrightarrow> bcache_read pid ROOTDEV blk s = Ok (r, s') \<Longrightarrow> bio_reach dsk s' V"
| bio_set: "bio_reach dsk s V \<Longrightarrow> sl_holding pid (bc_lock s b) \<Longrightarrow>
    bio_reach dsk (guard_set b x s) (V(d_blockno (bc_buf s b) := x))"
| bio_write: "bio_reach dsk s V \<Longrightarrow> guard_write pid b s = Ok s' \<Longrightarrow> bio_reach dsk s' V"
| bio_pin: "bio_reach dsk s V \<Longrightarrow> sl_holding pid (bc_lock s b) \<Longrightarrow> bio_reach dsk (guard_pin b s) V"
| bio_unpin: "bio_reach dsk s V \<Longrightarrow> sl_holding pid (bc_lock s b) \<Longrightarrow> 2 < bc_refs s b \<Longrightarrow> buf_clean s b \<Longrightarrow>
    bio_reach dsk (guard_unpin b s) V"
| bio_drop: "bio_reach dsk s V \<Longrightarrow> 2 < bc_refs s b \<or> buf_clean s b \<Longrightarrow> guard_drop pid b s = Ok s' \<Longrightarrow> bio_reach dsk s' V"

lemma NBUF_30: "NBUF = 30"
  by (simp add: NBUF_def MAXOPBLOCKS_def)

lemma held_buf:
  assumes "bc_inv s xs" "sl_holding pid (bc_lock s b)"
  shows "b < NBUF" "buf_ok s b" "2 \<le> bc_refs s b" "d_valid (bc_buf s b)" "bc_index s (ROOTDEV, d_blockno (bc_buf s b)) = Some b"
proof -
  have l: "sl_locked (bc_lock s b)" using assms(2) by (simp add: sl_holding_def)
  then show b: "b < NBUF" using bc_invD(4) [OF assms(1), of b] not_less by blast
  then show ok: "buf_ok s b" by (rule bc_invD(3) [OF assms(1)])
  then show "2 \<le> bc_refs s b" "d_valid (bc_buf s b)" using l by (auto simp: buf_ok_def)
  then show "bc_index s (ROOTDEV, d_blockno (bc_buf s b)) = Some b"
    using b ok by (simp add: bc_invD(5) [OF assms(1)] buf_ok_def)
qed

lemma lru_rep_cong:
  "lru_rep s xs \<Longrightarrow> bc_head s' = bc_head s \<Longrightarrow> bc_tail s' = bc_tail s \<Longrightarrow>
    (\<And>i. m_prev (bc_meta s' i) = m_prev (bc_meta s i) \<and> m_next (bc_meta s' i) = m_next (bc_meta s i)) \<Longrightarrow> lru_rep s' xs"
  using dll_cong [of xs "bc_meta s'" "bc_meta s"] by (simp add: lru_rep_def)

text \<open>Steps that change one buffer and neither the list nor the index.\<close>

lemma bc_inv_local:
  assumes "bc_inv s xs" "b < NBUF" "buf_ok s' b"
    and "bc_head s' = bc_head s" "bc_tail s' = bc_tail s" "bc_meta s' = bc_meta s" "bc_index s' = bc_index s"
    and "\<And>i. i \<noteq> b \<Longrightarrow> bc_buf s' i = bc_buf s i \<and> bc_lock s' i = bc_lock s i \<and> bc_refs s' i = bc_refs s i"
    and "\<And>i. i \<noteq> b \<Longrightarrow> i < NBUF \<Longrightarrow> d_valid (bc_buf s i) \<Longrightarrow> bc_dev s' (d_blockno (bc_buf s i)) = bc_dev s (d_blockno (bc_buf s i))"
  shows "bc_inv s' xs"
proof -
  have "buf_ok s' i" if "i < NBUF" for i
  proof (cases "i = b")
    case False
    then show ?thesis using bc_invD(3) [OF assms(1) that] assms(6) assms(8,9) [OF False] that by (auto simp: buf_ok_def)
  qed (use assms(3) in simp)
  moreover have "lru_rep s' xs" using assms(4-6) by (intro lru_rep_cong [OF bc_invD(1) [OF assms(1)]]) simp_all
  moreover have "\<not> sl_locked (bc_lock s' i)" if "NBUF \<le> i" for i
    using bc_invD(4) [OF assms(1) that] assms(2) assms(8) [of i] that by auto
  ultimately show ?thesis using assms(1,6,7) by (simp add: bc_inv_def)
qed

text \<open>Two buffers of the device hold different blocks.\<close>

lemma bufs_distinct:
  assumes "bc_inv s xs" "i < NBUF" "j < NBUF" "d_valid (bc_buf s i)" "d_valid (bc_buf s j)"
    "d_blockno (bc_buf s i) = d_blockno (bc_buf s j)"
  shows "i = j"
proof -
  have "bc_index s (ROOTDEV, d_blockno (bc_buf s i)) = Some i" "bc_index s (ROOTDEV, d_blockno (bc_buf s j)) = Some j"
    using assms(2-5) bc_invD(3) [OF assms(1)] by (simp_all add: bc_invD(5) [OF assms(1)] buf_ok_def)
  then show ?thesis by (metis assms(6) option.inject)
qed

lemma guard_set_inv:
  assumes "bc_inv s xs" "sl_holding pid (bc_lock s b)"
  shows "bc_inv (guard_set b x s) xs" "cview (guard_set b x s) = (cview s)(d_blockno (bc_buf s b) := x)"
proof -
  note h = held_buf [OF assms]
  show "bc_inv (guard_set b x s) xs"
    by (rule bc_inv_local [OF assms(1) h(1)]) (use h(2,3) in \<open>auto simp: guard_set_def buf_ok_def\<close>)
  have "bc_index s (ROOTDEV, c) = Some b \<longleftrightarrow> c = d_blockno (bc_buf s b)" for c
    using h(1,2,4) by (auto simp: bc_invD(5) [OF assms(1)] buf_ok_def)
  note idx = this
  show "cview (guard_set b x s) = (cview s)(d_blockno (bc_buf s b) := x)"
  proof
    fix c
    show "cview (guard_set b x s) c = ((cview s)(d_blockno (bc_buf s b) := x)) c"
      using idx [of c] h(5) by (auto simp: cview_def guard_set_def split: option.split)
  qed
qed

lemma guard_write_inv:
  assumes "bc_inv s xs" "guard_write pid b s = Ok s'"
  shows "bc_inv s' xs" "cview s' = cview s"
proof -
  have hd: "sl_holding pid (bc_lock s b)" and s': "s' = disk_rw b True s" using assms(2) by (simp_all add: guard_write_def)
  note h = held_buf [OF assms(1) hd]
  show "bc_inv s' xs"
  proof (rule bc_inv_local [OF assms(1) h(1)])
    fix i assume "i \<noteq> b" "i < NBUF" "d_valid (bc_buf s i)"
    then have "d_blockno (bc_buf s i) \<noteq> d_blockno (bc_buf s b)" using bufs_distinct [OF assms(1) _ h(1) _ h(4)] by blast
    then show "bc_dev s' (d_blockno (bc_buf s i)) = bc_dev s (d_blockno (bc_buf s i))" by (simp add: s' disk_rw_def)
  qed (use h(2,3) in \<open>auto simp: s' disk_rw_def buf_ok_def\<close>)
  show "cview s' = cview s" using h(5) by (auto simp: cview_def s' disk_rw_def fun_eq_iff split: option.split)
qed

lemma guard_pin_inv:
  assumes "bc_inv s xs" "sl_holding pid (bc_lock s b)"
  shows "bc_inv (guard_pin b s) xs" "cview (guard_pin b s) = cview s"
    "2 < bc_refs s b \<Longrightarrow> bc_inv (guard_unpin b s) xs" "cview (guard_unpin b s) = cview s"
proof -
  note h = held_buf [OF assms]
  show "bc_inv (guard_pin b s) xs"
    by (rule bc_inv_local [OF assms(1) h(1)]) (use h(2,3) in \<open>auto simp: guard_pin_def buf_ok_def\<close>)
  show "bc_inv (guard_unpin b s) xs" if "2 < bc_refs s b"
    by (rule bc_inv_local [OF assms(1) h(1)]) (use h(2,3) that in \<open>auto simp: guard_unpin_def buf_ok_def\<close>)
qed (auto intro!: cview_cong simp: guard_pin_def guard_unpin_def)

lemma guard_drop_inv:
  assumes "bc_inv s xs" "2 < bc_refs s b \<or> buf_clean s b" "guard_drop pid b s = Ok s'"
  shows "\<exists>ys. bc_inv s' ys \<and> cview s' = cview s"
proof -
  obtain l where l: "sl_release pid (bc_lock s b) = Ok l" and
      s': "s' = relse b (s\<lparr>bc_lock := (bc_lock s)(b := l), bc_refs := (bc_refs s)(b := bc_refs s b - 1)\<rparr>)"
    using assms(3) by (auto simp: guard_drop_def)
  then have hd: "sl_holding pid (bc_lock s b)" and "\<not> sl_locked l" by (auto simp: sl_release_def)
  note h = held_buf [OF assms(1) hd]
  define t where "t = s\<lparr>bc_lock := (bc_lock s)(b := l), bc_refs := (bc_refs s)(b := bc_refs s b - 1)\<rparr>"
  have t: "bc_inv t xs"
    by (rule bc_inv_local [OF assms(1) h(1)])
      (use h(2,3) assms(2) \<open>\<not> sl_locked l\<close> in \<open>auto simp: t_def buf_ok_def buf_clean_def\<close>)
  have st: "same_store t s'" using relse_same_store [of t b] by (simp add: s' t_def)
  have "cview s' = cview t" using st by (intro cview_cong) (simp_all add: same_store_def)
  moreover have "cview t = cview s" by (rule cview_cong) (simp_all add: t_def)
  moreover have "\<exists>ys. lru_rep s' ys \<and> set ys = {..<NBUF}"
  proof (cases "bc_refs t b = 1")
    case True
    have "lru_rep t xs" "b \<in> set xs" "set xs = {..<NBUF}" "distinct xs" using t h(1) by (auto simp: bc_inv_def lru_rep_def)
    then have "lru_rep s' (b # remove1 b xs)" "set (b # remove1 b xs) = {..<NBUF}"
      using relse_moves_to_front [OF _ _ True] by (auto simp: s' t_def)
    then show ?thesis by blast
  next
    case False
    then have "s' = t" by (simp add: s' t_def relse_def)
    then show ?thesis using t by (auto simp: bc_inv_def)
  qed
  then obtain ys where "lru_rep s' ys" "set ys = {..<NBUF}" by blast
  then have "bc_inv s' ys" using st t by (auto simp: bc_inv_def same_store_def buf_ok_def)
  ultimately show ?thesis by auto
qed

section \<open>Reading\<close>

lemma read_cached:
  assumes "bc_inv s xs" "bc_index s (ROOTDEV, blk) = Some i"
  shows "bcache_read pid ROOTDEV blk s = Ok (if sl_locked (bc_lock s i) then (None, s)
      else (Some i, s\<lparr>bc_lock := (bc_lock s)(i := (bc_lock s i)\<lparr>sl_locked := True, sl_pid := pid\<rparr>),
                     bc_buf := (bc_buf s)(i := bc_buf s i), bc_refs := (bc_refs s)(i := bc_refs s i + 1)\<rparr>))"
proof -
  have i: "i < NBUF" "m_dev (bc_meta s i) = ROOTDEV" "m_blockno (bc_meta s i) = blk"
    using assms(2) by (simp_all add: bc_invD(5) [OF assms(1)])
  then have "d_valid (bc_buf s i)" using bc_invD(3) [OF assms(1) i(1)] by (simp add: buf_ok_def)
  with i assms(2) show ?thesis
    by (simp add: bcache_read_def get_start_def lru_get_def get_finish_def read_fill_def sl_lock_def)
qed

lemma read_cached_inv:
  assumes "bc_inv s xs" "bc_index s (ROOTDEV, blk) = Some i" "bcache_read pid ROOTDEV blk s = Ok (Some j, s')"
  shows "bc_inv s' xs" "cview s' = cview s" "d_data (bc_buf s' j) = cview s blk"
    "d_blockno (bc_buf s' j) = blk" "sl_holding pid (bc_lock s' j)"
proof -
  have i: "i < NBUF" "m_blockno (bc_meta s i) = blk" "m_dev (bc_meta s i) = ROOTDEV"
    using assms(2) by (simp_all add: bc_invD(5) [OF assms(1)])
  note ok = bc_invD(3) [OF assms(1) i(1)]
  have s': "s' = s\<lparr>bc_lock := (bc_lock s)(i := (bc_lock s i)\<lparr>sl_locked := True, sl_pid := pid\<rparr>),
      bc_buf := (bc_buf s)(i := bc_buf s i), bc_refs := (bc_refs s)(i := bc_refs s i + 1)\<rparr>" and j: "j = i"
    using assms(3) read_cached [OF assms(1,2), of pid] by (auto split: if_splits)
  show "bc_inv s' xs"
    by (rule bc_inv_local [OF assms(1) i(1)]) (use ok i in \<open>auto simp: s' buf_ok_def\<close>)
  show "cview s' = cview s" by (rule cview_cong) (simp_all add: s')
  show "d_data (bc_buf s' j) = cview s blk" using assms(2) by (simp add: s' j cview_def)
  show "d_blockno (bc_buf s' j) = blk" using ok i by (simp add: s' j buf_ok_def)
  show "sl_holding pid (bc_lock s' j)" by (simp add: s' j sl_holding_def)
qed

text \<open>The state after a block that is not cached was loaded into the buffer \<open>b\<close>.\<close>

definition loaded :: "nat \<Rightarrow> u32 \<Rightarrow> nat \<Rightarrow> bcache \<Rightarrow> bcache" where
  "loaded pid blk b s =
     (let old = (m_dev (bc_meta s b), m_blockno (bc_meta s b));
          idx = (if old \<noteq> (0, 0) then (bc_index s)(old := None) else bc_index s)
      in s\<lparr>bc_index := idx((ROOTDEV, blk) \<mapsto> b),
           bc_meta := (bc_meta s)(b := (bc_meta s b)\<lparr>m_dev := ROOTDEV, m_blockno := blk\<rparr>),
           bc_lock := (bc_lock s)(b := (bc_lock s b)\<lparr>sl_locked := True, sl_pid := pid\<rparr>),
           bc_refs := (bc_refs s)(b := bc_refs s b + 1),
           bc_buf := (bc_buf s)(b := (bc_buf s b)\<lparr>d_blockno := blk, d_dev := ROOTDEV, d_data := bc_dev s blk, d_valid := True\<rparr>)\<rparr>)"

lemma find_in: "find P xs = Some x \<Longrightarrow> P x \<and> x \<in> set xs"
  by (induction xs) (auto split: if_splits)

lemma read_missing:
  assumes "bc_inv s xs" "bc_index s (ROOTDEV, blk) = None"
  shows "bcache_read pid ROOTDEV blk s =
    (case find (\<lambda>b. bc_refs s b = 1) (rev xs) of None \<Rightarrow> Panic | Some b \<Rightarrow> Ok (Some b, loaded pid blk b s))"
proof -
  have "distinct xs" "dll (bc_meta s) None xs None" and tail: "bc_tail s = last_of None xs"
    using bc_invD(1) [OF assms(1)] by (simp_all add: lru_rep_def)
  moreover have "length xs = NBUF" using bc_invD(2) [OF assms(1)] distinct_card [OF \<open>distinct xs\<close>] by simp
  ultimately have scan: "lru_scan s (bc_tail s) 0 =
      (case find (\<lambda>b. bc_refs s b = 1) (rev xs) of None \<Rightarrow> Panic | Some b \<Rightarrow> Ok b)"
    using lru_scan_spec [of s xs None 0] by (simp add: NBUF_30)
  show ?thesis
  proof (cases "find (\<lambda>b. bc_refs s b = 1) (rev xs)")
    case None
    then show ?thesis using assms(2) by (simp add: bcache_read_def get_start_def lru_get_def scan)
  next
    case (Some b)
    from find_in [OF Some] have "bc_refs s b = 1" "b \<in> set xs" by simp_all
    then have "\<not> sl_locked (bc_lock s b)"
      using bc_invD(2) [OF assms(1)] bc_invD(3) [OF assms(1), of b] by (auto simp: buf_ok_def)
    then show ?thesis using Some assms(2)
      by (simp add: bcache_read_def get_start_def lru_get_def scan get_finish_def sl_lock_def read_fill_def
          disk_rw_def loaded_def Let_def)
  qed
qed

lemma loaded_inv:
  assumes "bc_inv s xs" "bc_index s (ROOTDEV, blk) = None" "b < NBUF" "bc_refs s b = 1"
  shows "bc_inv (loaded pid blk b s) xs" "cview (loaded pid blk b s) = cview s"
    "d_data (bc_buf (loaded pid blk b s) b) = cview s blk" "d_blockno (bc_buf (loaded pid blk b s) b) = blk"
    "sl_holding pid (bc_lock (loaded pid blk b s) b)"
proof -
  let ?s = "loaded pid blk b s"
  note idx = bc_invD(5) [OF assms(1)]
  note ok = bc_invD(3) [OF assms(1)]
  have b: "buf_ok s b" using ok assms(3) .
  have i': "bc_index ?s (ROOTDEV, c) =
      (if c = blk then Some b else if m_dev (bc_meta s b) = ROOTDEV \<and> m_blockno (bc_meta s b) = c then None
       else bc_index s (ROOTDEV, c))" for c
    using b by (auto simp: loaded_def Let_def buf_ok_def ROOTDEV_def)
  have m': "bc_meta ?s = (bc_meta s)(b := (bc_meta s b)\<lparr>m_dev := ROOTDEV, m_blockno := blk\<rparr>)"
    by (simp add: loaded_def)
  have f': "bc_head ?s = bc_head s" "bc_tail ?s = bc_tail s" "bc_dev ?s = bc_dev s" "bc_refs ?s b = 2"
      "\<And>i. i \<noteq> b \<Longrightarrow> bc_buf ?s i = bc_buf s i \<and> bc_lock ?s i = bc_lock s i \<and> bc_refs ?s i = bc_refs s i"
      "bc_buf ?s b = (bc_buf s b)\<lparr>d_blockno := blk, d_dev := ROOTDEV, d_data := bc_dev s blk, d_valid := True\<rparr>"
    using assms(4) by (simp_all add: loaded_def)
  have "lru_rep ?s xs" by (rule lru_rep_cong [OF bc_invD(1) [OF assms(1)]]) (simp_all add: f' m')
  moreover have "buf_ok ?s i" if "i < NBUF" for i
    using ok [OF that] f' m' by (cases "i = b") (auto simp: buf_ok_def)
  moreover have "\<not> sl_locked (bc_lock ?s i)" if "NBUF \<le> i" for i
    using bc_invD(4) [OF assms(1) that] f'(5) [of i] that assms(3) by auto
  moreover have "bc_index ?s (ROOTDEV, c) = Some i \<longleftrightarrow>
      i < NBUF \<and> m_dev (bc_meta ?s i) = ROOTDEV \<and> m_blockno (bc_meta ?s i) = c" for c i
  proof (cases "i = b")
    case True
    then show ?thesis using assms(3) idx [of c b] by (auto simp: i' m')
  next
    case False
    then show ?thesis using assms(2,3) idx [of c i] idx [of c b] by (auto simp: i' m')
  qed
  moreover have "bc_index ?s (d, c) = None" if "d \<noteq> ROOTDEV" for d c
    using bc_invD(6) [OF assms(1) that] that by (auto simp: loaded_def Let_def)
  ultimately show "bc_inv ?s xs" using bc_invD(2) [OF assms(1)] unfolding bc_inv_def by blast
  show "cview ?s = cview s"
  proof
    fix c
    show "cview ?s c = cview s c"
    proof (cases "c = blk")
      case True
      then show ?thesis using assms(2) by (simp add: cview_def i' f'(6))
    next
      case c: False
      show ?thesis
      proof (cases "bc_index s (ROOTDEV, c) = Some b")
        case True
        then have "m_dev (bc_meta s b) = ROOTDEV" "m_blockno (bc_meta s b) = c" using idx [of c b] by simp_all
        then show ?thesis using b True c assms(4) by (auto simp: cview_def i' f'(3) buf_ok_def)
      next
        case False
        then have "bc_index ?s (ROOTDEV, c) = bc_index s (ROOTDEV, c)" using c idx [of c b] assms(3) by (auto simp: i')
        then show ?thesis using False f'(5) by (auto simp: cview_def f'(3) split: option.split)
      qed
    qed
  qed
  show "d_data (bc_buf ?s b) = cview s blk" using assms(2) by (simp add: f'(6) cview_def)
  show "d_blockno (bc_buf ?s b) = blk" by (simp add: f'(6))
  show "sl_holding pid (bc_lock ?s b)" by (simp add: loaded_def sl_holding_def)
qed

lemma read_spec:
  assumes "bc_inv s xs"
  shows "bcache_read pid ROOTDEV blk s = Panic \<and> bc_index s (ROOTDEV, blk) = None \<and> (\<forall>i < NBUF. bc_refs s i \<noteq> 1) \<or>
    bcache_read pid ROOTDEV blk s = Ok (None, s) \<and> (\<exists>i. bc_index s (ROOTDEV, blk) = Some i \<and> sl_locked (bc_lock s i)) \<or>
    (\<exists>i s'. bcache_read pid ROOTDEV blk s = Ok (Some i, s') \<and> bc_inv s' xs \<and> cview s' = cview s \<and>
       d_data (bc_buf s' i) = cview s blk \<and> d_blockno (bc_buf s' i) = blk \<and> sl_holding pid (bc_lock s' i))"
proof (cases "bc_index s (ROOTDEV, blk)")
  case (Some i)
  show ?thesis
  proof (cases "sl_locked (bc_lock s i)")
    case True
    then show ?thesis using read_cached [OF assms Some, of pid] Some by auto
  next
    case False
    then obtain s' where "bcache_read pid ROOTDEV blk s = Ok (Some i, s')" using read_cached [OF assms Some, of pid] by simp
    with read_cached_inv [OF assms Some this] show ?thesis by blast
  qed
next
  case None
  show ?thesis
  proof (cases "find (\<lambda>b. bc_refs s b = 1) (rev xs)")
    case n: None
    then have "\<forall>i < NBUF. bc_refs s i \<noteq> 1" using bc_invD(2) [OF assms] by (auto simp: find_None_iff)
    then show ?thesis using read_missing [OF assms None, of pid] n None by simp
  next
    case (Some b)
    with find_in [OF Some] bc_invD(2) [OF assms] have b: "b < NBUF" "bc_refs s b = 1" by auto
    show ?thesis using read_missing [OF assms None, of pid] loaded_inv [OF assms None b, of pid] Some by auto
  qed
qed

lemma bio_reach_inv: "bio_reach dsk s V \<Longrightarrow> \<exists>xs. bc_inv s xs \<and> cview s = V"
proof (induction rule: bio_reach.induct)
  case bio_init
  then show ?case using bcache_init_inv by blast
next
  case (bio_read s V pid blk r s')
  then obtain xs where "bc_inv s xs" "cview s = V" by blast
  with read_spec [OF this(1), of pid blk] bio_read.hyps(2) show ?case by auto
next
  case (bio_set s V pid b x)
  then show ?case using guard_set_inv by blast
next
  case (bio_write s V pid b s')
  then show ?case using guard_write_inv by blast
next
  case (bio_pin s V pid b)
  then show ?case using guard_pin_inv by blast
next
  case (bio_unpin s V pid b)
  then show ?case using guard_pin_inv by blast
next
  case (bio_drop s V b pid s')
  then show ?case using guard_drop_inv by blast
qed

text \<open>
  C10. The buffer cache is coherent. In every run in which \<^verbatim>\<open>get\<close> is not interrupted
  between its two locks, a read returns a locked buffer with the last contents given to the block by
  any process, however often the block was evicted and loaded again; it sleeps, without effect, only
  while another process holds the block, and it panics only when all buffers are referred to.
\<close>

theorem cache_coherent:
  assumes "bio_reach dsk s V"
  shows "case bcache_read pid ROOTDEV blk s of
      Ok (Some i, s') \<Rightarrow> d_data (bc_buf s' i) = V blk \<and> d_blockno (bc_buf s' i) = blk \<and> sl_holding pid (bc_lock s' i)
    | Ok (None, s') \<Rightarrow> s' = s \<and> (\<exists>i < NBUF. sl_locked (bc_lock s i) \<and> d_blockno (bc_buf s i) = blk)
    | Err e \<Rightarrow> False
    | Panic \<Rightarrow> \<forall>i < NBUF. bc_refs s i \<noteq> 1"
proof -
  obtain xs where inv: "bc_inv s xs" "cview s = V" using bio_reach_inv [OF assms] by blast
  have "i < NBUF \<and> d_blockno (bc_buf s i) = blk" if "bc_index s (ROOTDEV, blk) = Some i" for i
    using that bc_invD(3) [OF inv(1), of i] by (auto simp: bc_invD(5) [OF inv(1)] buf_ok_def)
  with read_spec [OF inv(1), of pid blk] inv(2) show ?thesis by fastforce
qed

theorem cache_coherent_witness:
  "\<exists>i s'. bcache_read 1 ROOTDEV 5 (bcache_init (\<lambda>_. [7])) = Ok (Some i, s') \<and> d_data (bc_buf s' i) = [7]"
proof -
  have "bc_refs (bcache_init (\<lambda>_. [7])) 0 = 1" "\<not> sl_locked (bc_lock (bcache_init (\<lambda>_. [7])) i)" for i
    using init_fields [of NBUF "\<lambda>_. [7]"] by (simp_all add: bcache_init_def sl_new_def NBUF_30)
  with cache_coherent [OF bio_init [of "\<lambda>_. [7]"], of 5 1] show ?thesis
    by (auto simp: NBUF_30 split: outcome.splits option.splits)
qed

lemma drop_fields:
  assumes "sl_holding pid (bc_lock s b)"
  shows "\<exists>s'. guard_drop pid b s = Ok s' \<and> bc_index s' = bc_index s \<and> \<not> sl_locked (bc_lock s' b) \<and>
    bc_buf s' = bc_buf s \<and> bc_dev s' = bc_dev s \<and>
    (\<forall>i. m_dev (bc_meta s' i) = m_dev (bc_meta s i) \<and> m_blockno (bc_meta s' i) = m_blockno (bc_meta s i))"
  using sl_release_holding [OF assms]
    relse_same_store [of "s\<lparr>bc_lock := (bc_lock s)(b := l), bc_refs := (bc_refs s)(b := bc_refs s b - 1)\<rparr>" b for l]
  by (fastforce simp: guard_drop_def same_store_def)

text \<open>
  Without that proviso the cache is not coherent. \<^verbatim>\<open>get\<close> takes its reference to the
  buffer only after it has given up the lock of the list. If a second process looks up another block
  at that moment it gets the same buffer, and both processes then fill it in turn; the index goes on
  naming the second block while the buffer has the contents of the first. A third process that reads
  block 6 is given the contents of block 5, whatever the disk contains, and writing its buffer would
  overwrite block 5.
\<close>

lemma get_race:
  "\<exists>r1 b1 s1 b2 s2 s3 s4 s5 b3 s6.
     get_start ROOTDEV 5 (bcache_init dsk) = Ok (r1, b1, s1) \<and>
     bcache_read 2 ROOTDEV 6 s1 = Ok (Some b2, s2) \<and> d_data (bc_buf s2 b2) = dsk 6 \<and>
     guard_drop 2 b2 s2 = Ok s3 \<and>
     get_finish 1 ROOTDEV 5 r1 b1 s3 = Some s4 \<and> guard_drop 1 b1 (read_fill b1 s4) = Ok s5 \<and>
     bcache_read 3 ROOTDEV 6 s5 = Ok (Some b3, s6) \<and> d_data (bc_buf s6 b3) = dsk 5 \<and> d_blockno (bc_buf s6 b3) = 5"
proof -
  define s where "s = bcache_init dsk"
  note f = init_fields [of 30 dsk, folded NBUF_30, folded bcache_init_def, folded s_def]
  have s: "bc_tail s = Some 29" "bc_refs s 29 = 1" "m_dev (bc_meta s 29) = 0" "m_blockno (bc_meta s 29) = 0"
      "bc_index s = Map.empty" "bc_lock s = (\<lambda>_. sl_new)" "bc_dev s = dsk" "bc_buf s = (\<lambda>_. data_new)"
      "bc_head s = Some 0"
    using f by (simp_all add: lru_rep_def NBUF_30 last_of_def first_of_def upt_conv_Cons)
  define s1 where "s1 = s\<lparr>bc_index := [(ROOTDEV, 5) \<mapsto> 29],
      bc_meta := (bc_meta s)(29 := (bc_meta s 29)\<lparr>m_dev := ROOTDEV, m_blockno := 5\<rparr>)\<rparr>"
  have 1: "get_start ROOTDEV 5 s = Ok (True, 29, s1)"
    using s by (simp add: get_start_def lru_get_def s1_def)
  define s2 where "s2 = loaded 2 6 29 s1"
  have 2: "bcache_read 2 ROOTDEV 6 s1 = Ok (Some 29, s2)"
    using s by (simp add: bcache_read_def get_start_def lru_get_def s1_def s2_def loaded_def get_finish_def sl_lock_def
        sl_new_def data_new_def read_fill_def disk_rw_def Let_def)
  have s2: "bc_index s2 = [(ROOTDEV, 6) \<mapsto> 29]" "bc_lock s2 29 = \<lparr>sl_locked = True, sl_pid = 2\<rparr>"
      "d_data (bc_buf s2 29) = dsk 6" "bc_dev s2 = dsk" "m_dev (bc_meta s2 29) = ROOTDEV" "m_blockno (bc_meta s2 29) = 6"
    using s by (simp_all add: s2_def loaded_def s1_def Let_def sl_new_def ROOTDEV_def)
  obtain s3 where 3: "guard_drop 2 29 s2 = Ok s3" and s3: "bc_index s3 = [(ROOTDEV, 6) \<mapsto> 29]" "\<not> sl_locked (bc_lock s3 29)"
      "bc_dev s3 = dsk" "m_dev (bc_meta s3 29) = ROOTDEV" "m_blockno (bc_meta s3 29) = 6"
    using drop_fields [of 2 s2 29] s2 by (auto simp: sl_holding_def)
  define s4 where "s4 = s3\<lparr>bc_lock := (bc_lock s3)(29 := (bc_lock s3 29)\<lparr>sl_locked := True, sl_pid := 1\<rparr>),
      bc_buf := (bc_buf s3)(29 := (bc_buf s3 29)\<lparr>d_valid := False, d_blockno := 5, d_dev := ROOTDEV\<rparr>),
      bc_refs := (bc_refs s3)(29 := bc_refs s3 29 + 1)\<rparr>"
  have 4: "get_finish 1 ROOTDEV 5 True 29 s3 = Some s4"
    using s3(2) by (simp add: get_finish_def sl_lock_def s4_def)
  have s4: "bc_index (read_fill 29 s4) = [(ROOTDEV, 6) \<mapsto> 29]" "sl_holding 1 (bc_lock (read_fill 29 s4) 29)"
      "d_data (bc_buf (read_fill 29 s4) 29) = dsk 5" "d_blockno (bc_buf (read_fill 29 s4) 29) = 5" "d_valid (bc_buf (read_fill 29 s4) 29)"
      "m_dev (bc_meta (read_fill 29 s4) 29) = ROOTDEV" "m_blockno (bc_meta (read_fill 29 s4) 29) = 6"
    using s3 by (simp_all add: s4_def read_fill_def disk_rw_def sl_holding_def)
  obtain s5 where 5: "guard_drop 1 29 (read_fill 29 s4) = Ok s5" and s5: "bc_index s5 = [(ROOTDEV, 6) \<mapsto> 29]"
      "\<not> sl_locked (bc_lock s5 29)" "bc_buf s5 = bc_buf (read_fill 29 s4)" "m_dev (bc_meta s5 29) = ROOTDEV" "m_blockno (bc_meta s5 29) = 6"
    using drop_fields [OF s4(2)] s4 by auto
  have "\<exists>s6. bcache_read 3 ROOTDEV 6 s5 = Ok (Some 29, s6) \<and> d_data (bc_buf s6 29) = dsk 5 \<and> d_blockno (bc_buf s6 29) = 5"
    using s5 s4(3-5) by (simp add: bcache_read_def get_start_def lru_get_def get_finish_def sl_lock_def read_fill_def)
  with 1 2 3 4 5 s2(3) show ?thesis unfolding s_def by blast
qed

end
