(* ===== verification/Fs_Layout.thy ===== *)
theory Fs_Layout
  imports Journal
begin

text \<open>
  The on-disk structures of \<^verbatim>\<open>crates/kernel/src/fs.rs\<close> and
  \<^verbatim>\<open>stat.rs\<close>: superblock, inode and directory entry, with their byte layout
  (\<^verbatim>\<open>repr(C)\<close>, little endian). Blocks are byte lists of length \<^verbatim>\<open>BSIZE\<close>.
\<close>

unbundle bit_operations_syntax

section \<open>Constants\<close>

definition ROOTINO :: u32 where "ROOTINO = 1"
definition FSMAGIC :: u32 where "FSMAGIC = 0x10203040"
definition NDIRECT :: nat where "NDIRECT = 11"
definition NINDIRECT :: nat where "NINDIRECT = BSIZE div 4"
definition NDINDIRECT :: nat where "NDINDIRECT = NINDIRECT * NINDIRECT"
definition MAXFILE :: nat where "MAXFILE = NDIRECT + NINDIRECT + NDINDIRECT"
definition DINODE_SIZE :: nat where "DINODE_SIZE = 128"
definition IPB :: nat where "IPB = BSIZE div DINODE_SIZE"
definition BPB :: nat where "BPB = BSIZE * 8"
definition DIRSIZ :: nat where "DIRSIZ = 14"
definition DIRENT_SIZE :: nat where "DIRENT_SIZE = 16"
definition SYMLINK_MAX_DEPTH :: nat where "SYMLINK_MAX_DEPTH = 10"

lemmas fs_consts = BSIZE_def NDIRECT_def NINDIRECT_def NDINDIRECT_def MAXFILE_def DINODE_SIZE_def IPB_def BPB_def
  DIRSIZ_def DIRENT_SIZE_def

section \<open>Superblock\<close>

record superblock =
  sb_magic :: u32
  sb_size :: u32
  sb_nblocks :: u32
  sb_ninodes :: u32
  sb_nlog :: u32
  sb_logstart :: u32
  sb_inodestart :: u32
  sb_bmapstart :: u32

definition enc_superblock :: "superblock \<Rightarrow> byte list" where
  "enc_superblock sb = enc_u32s [sb_magic sb, sb_size sb, sb_nblocks sb, sb_ninodes sb, sb_nlog sb,
     sb_logstart sb, sb_inodestart sb, sb_bmapstart sb]"

definition dec_superblock :: "block \<Rightarrow> superblock" where
  "dec_superblock bs =
     (let w = dec_u32s 8 bs in
      \<lparr>sb_magic = w ! 0, sb_size = w ! 1, sb_nblocks = w ! 2, sb_ninodes = w ! 3, sb_nlog = w ! 4,
       sb_logstart = w ! 5, sb_inodestart = w ! 6, sb_bmapstart = w ! 7\<rparr>)"

definition iblock :: "superblock \<Rightarrow> u32 \<Rightarrow> u32" where
  "iblock sb i = i div of_nat IPB + sb_inodestart sb"

definition bblock :: "superblock \<Rightarrow> u32 \<Rightarrow> u32" where
  "bblock sb b = b div of_nat BPB + sb_bmapstart sb"

lemma dec_enc_superblock [simp]: "dec_superblock (enc_superblock sb @ bs) = sb"
proof -
  have "dec_u32s 8 (enc_superblock sb @ bs) = [sb_magic sb, sb_size sb, sb_nblocks sb, sb_ninodes sb, sb_nlog sb,
     sb_logstart sb, sb_inodestart sb, sb_bmapstart sb]"
    unfolding enc_superblock_def by (rule dec_enc_u32s) simp
  then show ?thesis by (cases sb) (simp add: dec_superblock_def)
qed

section \<open>Inodes\<close>

datatype file_type = FEmpty | FDir | FFile | FDevice | FSymlink | FSocket

fun ft_code :: "file_type \<Rightarrow> 16 word" where
  "ft_code FEmpty = 0"
| "ft_code FDir = 1"
| "ft_code FFile = 2"
| "ft_code FDevice = 3"
| "ft_code FSymlink = 4"
| "ft_code FSocket = 5"

text \<open>A discriminant that no variant has is undefined behaviour of the source.\<close>

definition ft_decode :: "16 word \<Rightarrow> file_type option" where
  "ft_decode w = (if w = 0 then Some FEmpty else if w = 1 then Some FDir else if w = 2 then Some FFile
     else if w = 3 then Some FDevice else if w = 4 then Some FSymlink else if w = 5 then Some FSocket else None)"

lemma ft_decode_code [simp]: "ft_decode (ft_code t) = Some t"
  by (cases t) (simp_all add: ft_decode_def)

lemma ft_code_inject [simp]: "ft_code s = ft_code t \<longleftrightarrow> s = t"
  by (cases s; cases t) simp_all

record dinode =
  di_type :: "16 word"
  di_major :: "16 word"
  di_minor :: "16 word"
  di_nlink :: "16 word"
  di_size :: u32
  di_addrs :: "u32 list"
  di_atime :: u64
  di_mtime :: u64
  di_ctime :: u64

text \<open>The 88 bytes before the padding.\<close>

definition enc_dinode :: "dinode \<Rightarrow> byte list" where
  "enc_dinode d = le_bytes 2 (di_type d) @ le_bytes 2 (di_major d) @ le_bytes 2 (di_minor d) @ le_bytes 2 (di_nlink d) @
     le_bytes 4 (di_size d) @ enc_u32s (di_addrs d) @ le_bytes 8 (di_atime d) @ le_bytes 8 (di_mtime d) @ le_bytes 8 (di_ctime d)"

definition dec_dinode :: "byte list \<Rightarrow> dinode" where
  "dec_dinode bs =
     \<lparr>di_type = of_le (slice 0 2 bs), di_major = of_le (slice 2 2 bs), di_minor = of_le (slice 4 2 bs),
      di_nlink = of_le (slice 6 2 bs), di_size = of_le (slice 8 4 bs), di_addrs = dec_u32s (NDIRECT + 2) (drop 12 bs),
      di_atime = of_le (slice 64 8 bs), di_mtime = of_le (slice 72 8 bs), di_ctime = of_le (slice 80 8 bs)\<rparr>"

text \<open>The default of the device number is \<^verbatim>\<open>Major::Invalid\<close>, which is 3.\<close>

definition dinode_default :: dinode where
  "dinode_default = \<lparr>di_type = 0, di_major = 3, di_minor = 0, di_nlink = 0, di_size = 0,
     di_addrs = replicate (NDIRECT + 2) 0, di_atime = 0, di_mtime = 0, di_ctime = 0\<rparr>"

lemma length_enc_dinode [simp]: "length (di_addrs d) = NDIRECT + 2 \<Longrightarrow> length (enc_dinode d) = 88"
  by (simp add: enc_dinode_def NDIRECT_def)

lemma dec_enc_dinode [simp]:
  assumes "length (di_addrs d) = NDIRECT + 2"
  shows "dec_dinode (enc_dinode d @ bs) = d"
proof -
  have "drop 12 (enc_dinode d @ bs) = enc_u32s (di_addrs d) @
      le_bytes 8 (di_atime d) @ le_bytes 8 (di_mtime d) @ le_bytes 8 (di_ctime d) @ bs"
    by (simp add: enc_dinode_def)
  then have "dec_u32s (NDIRECT + 2) (drop 12 (enc_dinode d @ bs)) = di_addrs d" using assms by simp
  then show ?thesis using assms
    by (cases d) (simp add: dec_dinode_def enc_dinode_def slice_def NDIRECT_def)
qed

section \<open>Directory entries\<close>

record dirent =
  de_inum :: "16 word"
  de_name :: "byte list"

definition dirent_default :: dirent where
  "dirent_default = \<lparr>de_inum = 0, de_name = replicate DIRSIZ 0\<rparr>"

definition enc_dirent :: "dirent \<Rightarrow> byte list" where
  "enc_dirent de = le_bytes 2 (de_inum de) @ de_name de"

definition dec_dirent :: "byte list \<Rightarrow> dirent" where
  "dec_dirent bs = \<lparr>de_inum = of_le (slice 0 2 bs), de_name = slice 2 DIRSIZ bs\<rparr>"

lemma length_enc_dirent [simp]: "length (de_name de) = DIRSIZ \<Longrightarrow> length (enc_dirent de) = DIRENT_SIZE"
  by (simp add: enc_dirent_def DIRSIZ_def DIRENT_SIZE_def)

lemma dec_enc_dirent [simp]: "length (de_name de) = DIRSIZ \<Longrightarrow> dec_dirent (enc_dirent de) = de"
  by (cases de) (simp add: dec_dirent_def enc_dirent_def slice_def DIRSIZ_def)

end
