(* ===== verification/Fs_Block.thy ===== *)
theory Fs_Block
  imports Fs_Layout
begin

text \<open>
  The block allocator of \<^verbatim>\<open>crates/kernel/src/fs.rs\<close>. The state of the file system is what
  reads through the buffer cache return, the list of blocks that the current transaction has logged,
  the superblock and the clock. \<^verbatim>\<open>LOG.write\<close> makes a buffer part of the transaction; its
  commit and its capacity are the subject of the theories of the log.

  The free bitmap is a set of blocks: \<open>balloc\<close> adds the least block that is not in it and clears
  that block, \<open>bfree\<close> removes one.
\<close>

unbundle bit_operations_syntax

section \<open>State\<close>

record fsys =
  fs_blk :: "nat \<Rightarrow> block"
  fs_log :: "nat list"
  fs_sb :: superblock
  fs_ticks :: u64

definition fs_log_write :: "nat \<Rightarrow> block \<Rightarrow> fsys \<Rightarrow> fsys" where
  "fs_log_write b x s = s\<lparr>fs_blk := (fs_blk s)(b := x), fs_log := (if b \<in> set (fs_log s) then fs_log s else fs_log s @ [b])\<rparr>"

lemma fs_log_write_simps [simp]:
  "fs_blk (fs_log_write b x s) = (fs_blk s)(b := x)" "fs_sb (fs_log_write b x s) = fs_sb s"
  "fs_ticks (fs_log_write b x s) = fs_ticks s"
  by (simp_all add: fs_log_write_def)

section \<open>Operations\<close>

definition sb_read :: "(nat \<Rightarrow> block) \<Rightarrow> superblock" where
  "sb_read blk = dec_superblock (blk 1)"

text \<open>\<^verbatim>\<open>init\<close>; the recovery of the log that it starts is \<^verbatim>\<open>Log::new\<close>.\<close>

definition fs_init :: "(nat \<Rightarrow> block) \<Rightarrow> u64 \<Rightarrow> fsys result" where
  "fs_init blk ticks = assert_then (sb_magic (sb_read blk) = FSMAGIC)
     (Ok \<lparr>fs_blk = blk, fs_log = [], fs_sb = sb_read blk, fs_ticks = ticks\<rparr>)"

definition bzero :: "nat \<Rightarrow> fsys \<Rightarrow> fsys" where
  "bzero b s = fs_log_write b (replicate BSIZE 0) s"

function scan_bits :: "nat \<Rightarrow> block \<Rightarrow> nat \<Rightarrow> nat \<Rightarrow> nat option" where
  "scan_bits sz bp b bi =
     (if bi < BPB \<and> b + bi < sz then
        (if (bp ! (bi div 8)) AND push_bit (bi mod 8) 1 = 0 then Some bi else scan_bits sz bp b (bi + 1))
      else None)"
  by pat_completeness auto
termination
  by (relation "measure (\<lambda>(sz, bp, b, bi). BPB - bi)") auto

function balloc_loop :: "fsys \<Rightarrow> nat \<Rightarrow> (nat \<times> fsys) result" where
  "balloc_loop s b =
     (if b < unat (sb_size (fs_sb s)) then
        (let bb = unat (bblock (fs_sb s) (of_nat b)); bp = fs_blk s bb in
         case scan_bits (unat (sb_size (fs_sb s))) bp b 0 of
           Some bi \<Rightarrow>
             (let m = push_bit (bi mod 8) 1; bp' = bp[bi div 8 := (bp ! (bi div 8)) OR m]
              in Ok (b + bi, bzero (b + bi) (fs_log_write bb bp' s)))
         | None \<Rightarrow> balloc_loop s (b + BPB))
      else Panic)"
  by pat_completeness auto
termination
  by (relation "measure (\<lambda>(s, b). unat (sb_size (fs_sb s)) - b)") (auto simp: BPB_def BSIZE_def)

definition balloc :: "fsys \<Rightarrow> (nat \<times> fsys) result" where
  "balloc s = balloc_loop s 0"

definition bfree :: "nat \<Rightarrow> fsys \<Rightarrow> fsys result" where
  "bfree b s =
     (let bb = unat (bblock (fs_sb s) (of_nat b)); bp = fs_blk s bb; bi = b mod BPB; m = push_bit (bi mod 8) 1 in
      if (bp ! (bi div 8)) AND m = 0 then Panic
      else Ok (fs_log_write bb (bp[bi div 8 := (bp ! (bi div 8)) AND NOT m]) s))"

declare scan_bits.simps [simp del] balloc_loop.simps [simp del]

section \<open>The bitmap as a set\<close>

definition nbits :: "fsys \<Rightarrow> nat" where
  "nbits s = unat (sb_size (fs_sb s))"

definition bmap_blk :: "fsys \<Rightarrow> nat \<Rightarrow> nat" where
  "bmap_blk s b = b div BPB + unat (sb_bmapstart (fs_sb s))"

definition used :: "fsys \<Rightarrow> nat set" where
  "used s = {b. b < nbits s \<and> bit (fs_blk s (bmap_blk s b) ! (b mod BPB div 8)) (b mod 8)}"

text \<open>The blocks before the data blocks: the bitmap is the last part of them.\<close>

definition nmeta :: "fsys \<Rightarrow> nat" where
  "nmeta s = unat (sb_bmapstart (fs_sb s)) + (nbits s + BPB - 1) div BPB"

definition inode_area :: "fsys \<Rightarrow> nat set" where
  "inode_area s = {unat (sb_inodestart (fs_sb s))..<unat (sb_bmapstart (fs_sb s))}"

definition bitmap_area :: "fsys \<Rightarrow> nat set" where
  "bitmap_area s = {unat (sb_bmapstart (fs_sb s))..<nmeta s}"

definition geom_ok :: "fsys \<Rightarrow> bool" where
  "geom_ok s \<longleftrightarrow> 2 \<le> unat (sb_inodestart (fs_sb s)) \<and>
     unat (sb_inodestart (fs_sb s)) + unat (sb_ninodes (fs_sb s)) div IPB < unat (sb_bmapstart (fs_sb s)) \<and>
     nmeta s \<le> nbits s \<and> (\<forall>b. length (fs_blk s b) = BSIZE) \<and> {..<nmeta s} \<subseteq> used s"

lemma geometry_simps [simp]:
  "nbits (fs_log_write b x s) = nbits s" "bmap_blk (fs_log_write b x s) = bmap_blk s" "nmeta (fs_log_write b x s) = nmeta s"
  "inode_area (fs_log_write b x s) = inode_area s" "bitmap_area (fs_log_write b x s) = bitmap_area s"
  by (simp_all add: nbits_def bmap_blk_def nmeta_def inode_area_def bitmap_area_def fun_eq_iff)

lemma and_bit_zero: "(w AND push_bit i 1 = 0) \<longleftrightarrow> \<not> bit w i" for w :: byte
  by (simp add: push_bit_eq_mult and_exp_eq_0_iff_not_bit)

lemma bblock_nat:
  assumes "geom_ok s" "b < nbits s"
  shows "unat (bblock (fs_sb s) (of_nat b)) = bmap_blk s b" "bmap_blk s b \<in> bitmap_area s" "bmap_blk s b < nbits s"
proof -
  have b: "b < 2 ^ 32" using assms(2) unsigned_less [of "sb_size (fs_sb s)", where ?'a = nat] by (simp add: nbits_def)
  have "b div BPB \<le> (nbits s - 1) div BPB" using assms(2) by (intro div_le_mono) simp
  also have "\<dots> < (nbits s + BPB - 1) div BPB" using assms(2) by (simp add: BPB_def BSIZE_def)
  finally have lt: "b div BPB < (nbits s + BPB - 1) div BPB" .
  then show "bmap_blk s b \<in> bitmap_area s" by (simp add: bmap_blk_def bitmap_area_def nmeta_def)
  then show m: "bmap_blk s b < nbits s" using assms(1) by (auto simp: bitmap_area_def geom_ok_def)
  have "unat (of_nat b div of_nat BPB :: u32) = b div BPB"
    using b by (simp add: unat_div BPB_def BSIZE_def unat_of_nat take_bit_eq_mod)
  moreover have "bmap_blk s b < 2 ^ 32" using m unsigned_less [of "sb_size (fs_sb s)", where ?'a = nat] by (simp add: nbits_def)
  ultimately show "unat (bblock (fs_sb s) (of_nat b)) = bmap_blk s b"
    by (simp add: bblock_def bmap_blk_def unat_word_ariths)
qed

lemma same_bit:
  assumes "c div BPB = b div BPB" "c mod BPB div 8 = b mod BPB div 8" "c mod 8 = b mod 8"
  shows "c = b"
proof -
  have "c mod BPB mod 8 = c mod 8" "b mod BPB mod 8 = b mod 8" by (simp_all add: BPB_def BSIZE_def mod_mod_cancel)
  then have "c mod BPB = b mod BPB" using assms(2,3) by (metis div_mult_mod_eq)
  then show ?thesis using assms(1) by (metis div_mult_mod_eq)
qed

text \<open>Changing one bit of the bitmap.\<close>

lemma used_update:
  assumes "geom_ok s" "b < nbits s"
    and w: "\<And>k. k < 8 \<Longrightarrow> bit w k = (if k = b mod 8 then v else bit (fs_blk s (bmap_blk s b) ! (b mod BPB div 8)) k)"
  defines "t \<equiv> fs_log_write (bmap_blk s b) ((fs_blk s (bmap_blk s b))[b mod BPB div 8 := w]) s"
  shows "used t = (if v then insert b (used s) else used s - {b})" "geom_ok t \<longleftrightarrow> v \<or> nmeta s \<le> b"
proof -
  have len: "length (fs_blk s x) = BSIZE" for x using assms(1) by (simp add: geom_ok_def)
  have i: "b mod BPB div 8 < BSIZE" by (simp add: BPB_def less_mult_imp_div_less BSIZE_def)
  have same: "nbits t = nbits s" "bmap_blk t = bmap_blk s" "nmeta t = nmeta s" "fs_sb t = fs_sb s"
    and blk: "fs_blk t = (fs_blk s)(bmap_blk s b := (fs_blk s (bmap_blk s b))[b mod BPB div 8 := w])"
    by (simp_all add: t_def)
  have "bit (fs_blk t (bmap_blk s c) ! (c mod BPB div 8)) (c mod 8) =
      (if c = b then v else bit (fs_blk s (bmap_blk s c) ! (c mod BPB div 8)) (c mod 8))" for c
  proof (cases "bmap_blk s c = bmap_blk s b \<and> c mod BPB div 8 = b mod BPB div 8")
    case True
    then have "c div BPB = b div BPB" by (simp add: bmap_blk_def)
    then have "c mod 8 = b mod 8 \<longleftrightarrow> c = b" using same_bit [of c b] True by auto
    moreover have "fs_blk t (bmap_blk s c) ! (c mod BPB div 8) = w" using True i len by (simp add: blk)
    ultimately show ?thesis using True w [of "c mod 8"] by simp
  next
    case False
    then have "fs_blk t (bmap_blk s c) ! (c mod BPB div 8) = fs_blk s (bmap_blk s c) ! (c mod BPB div 8)" "c \<noteq> b"
      by (auto simp: blk)
    then show ?thesis by simp
  qed
  then show u: "used t = (if v then insert b (used s) else used s - {b})"
    using assms(2) by (auto simp: used_def same split: if_splits)
  have "{..<nmeta s} \<subseteq> used t \<longleftrightarrow> v \<or> nmeta s \<le> b"
    using assms(1) u by (auto simp: geom_ok_def subset_iff not_less)
  moreover have "length (fs_blk t x) = BSIZE" for x using len by (simp add: blk)
  ultimately show "geom_ok t \<longleftrightarrow> v \<or> nmeta s \<le> b" using assms(1) by (simp add: geom_ok_def same)
qed

lemma scan_bits_Some:
  "scan_bits sz bp b bi = Some k \<Longrightarrow> bi \<le> k \<and> k < BPB \<and> b + k < sz \<and> \<not> bit (bp ! (k div 8)) (k mod 8) \<and>
     (\<forall>j. bi \<le> j \<longrightarrow> j < k \<longrightarrow> bit (bp ! (j div 8)) (j mod 8))"
proof (induction sz bp b bi rule: scan_bits.induct)
  case (1 sz bp b bi)
  show ?case
  proof (cases "bit (bp ! (bi div 8)) (bi mod 8)")
    case False
    with "1.prems" show ?thesis unfolding scan_bits.simps [of sz bp b bi] and_bit_zero by (auto split: if_splits)
  next
    case True
    with "1.prems" have c: "bi < BPB \<and> b + bi < sz" "scan_bits sz bp b (bi + 1) = Some k"
      unfolding scan_bits.simps [of sz bp b bi] and_bit_zero by (auto split: if_splits)
    from "1.IH" [OF c(1) _ c(2)] True show ?thesis
      unfolding and_bit_zero by (metis Suc_eq_plus1 Suc_leD le_neq_implies_less not_less_eq_eq not_le)
  qed
qed

lemma scan_bits_None:
  "scan_bits sz bp b bi = None \<Longrightarrow> \<forall>j. bi \<le> j \<longrightarrow> j < BPB \<longrightarrow> b + j < sz \<longrightarrow> bit (bp ! (j div 8)) (j mod 8)"
proof (induction sz bp b bi rule: scan_bits.induct)
  case (1 sz bp b bi)
  show ?case
  proof (intro allI impI)
    fix j assume j: "bi \<le> j" "j < BPB" "b + j < sz"
    with "1.prems" have c: "bit (bp ! (bi div 8)) (bi mod 8)" "scan_bits sz bp b (bi + 1) = None"
      unfolding scan_bits.simps [of sz bp b bi] and_bit_zero by (auto split: if_splits)
    then show "bit (bp ! (j div 8)) (j mod 8)"
      using "1.IH" [unfolded and_bit_zero] j by (cases "j = bi") auto
  qed
qed

lemma bmap_blk_shift: "bi < BPB \<Longrightarrow> bmap_blk s (BPB * k + bi) = bmap_blk s (BPB * k)"
  by (simp add: bmap_blk_def)

lemma mod8_shift: "(BPB * k + bi) mod 8 = bi mod 8"
proof -
  have "BPB * k + bi = 8 * (BSIZE * k) + bi" by (simp add: BPB_def)
  then show ?thesis by (simp only: mod_mult_self4)
qed

lemma balloc_loop_spec:
  assumes "geom_ok s" "\<And>c. c < BPB * k \<Longrightarrow> c < nbits s \<Longrightarrow> c \<in> used s"
  shows "balloc_loop s (BPB * k) = Panic \<and> {..<nbits s} \<subseteq> used s \<or>
    (\<exists>b. b < nbits s \<and> b \<notin> used s \<and> (\<forall>c < b. c \<in> used s) \<and> balloc_loop s (BPB * k) = Ok (b, bzero b (fs_log_write (bmap_blk s b)
       ((fs_blk s (bmap_blk s b))[b mod BPB div 8 := (fs_blk s (bmap_blk s b) ! (b mod BPB div 8)) OR push_bit (b mod 8) 1]) s)))"
  using assms(2)
proof (induction "nbits s - BPB * k" arbitrary: k rule: less_induct)
  case less
  show ?case
  proof (cases "BPB * k < nbits s")
    case False
    then have "balloc_loop s (BPB * k) = Panic" by (simp add: balloc_loop.simps [of s "BPB * k"] nbits_def)
    moreover have "{..<nbits s} \<subseteq> used s" using False less.prems by auto
    ultimately show ?thesis by blast
  next
    case True
    let ?bp = "fs_blk s (bmap_blk s (BPB * k))"
    have bb: "unat (bblock (fs_sb s) (of_nat (BPB * k))) = bmap_blk s (BPB * k)" using bblock_nat(1) [OF assms(1) True] .
    have step: "balloc_loop s (BPB * k) = (case scan_bits (nbits s) ?bp (BPB * k) 0 of
        Some bi \<Rightarrow> Ok (BPB * k + bi, bzero (BPB * k + bi) (fs_log_write (bmap_blk s (BPB * k))
          (?bp[bi div 8 := (?bp ! (bi div 8)) OR push_bit (bi mod 8) 1]) s))
      | None \<Rightarrow> balloc_loop s (BPB * Suc k))"
      using True bb
      by (simp add: balloc_loop.simps [of s "BPB * k"] nbits_def Let_def add.commute cong: option.case_cong del: of_nat_mult)
    have mem: "BPB * k + j \<in> used s \<longleftrightarrow> bit (?bp ! (j div 8)) (j mod 8)" if "j < BPB" "BPB * k + j < nbits s" for j
      using that by (simp add: used_def bmap_blk_shift mod8_shift)
    show ?thesis
    proof (cases "scan_bits (nbits s) ?bp (BPB * k) 0")
      case (Some bi)
      note sc = scan_bits_Some [OF Some]
      let ?b = "BPB * k + bi"
      have "?b < nbits s" "?b \<notin> used s" using sc mem [of bi] by auto
      moreover have "c \<in> used s" if "c < ?b" for c
      proof (cases "c < BPB * k")
        case True
        then show ?thesis using less.prems \<open>?b < nbits s\<close> by simp
      next
        case False
        then obtain j where "c = BPB * k + j" using le_Suc_ex not_less by blast
        then show ?thesis using sc mem [of j] that by simp
      qed
      ultimately show ?thesis using step Some sc by (auto simp: bmap_blk_shift mod8_shift intro!: exI [of _ ?b])
    next
      case None
      note sc = scan_bits_None [OF None]
      have "c \<in> used s" if c: "c < BPB * Suc k" "c < nbits s" for c
      proof (cases "c < BPB * k")
        case False
        then obtain j where "c = BPB * k + j" using le_Suc_ex not_less by blast
        then show ?thesis using sc mem [of j] c by simp
      qed (use less.prems c in simp)
      moreover have "nbits s - BPB * Suc k < nbits s - BPB * k" using True by (simp add: BPB_def BSIZE_def)
      ultimately show ?thesis using less.hyps [of "Suc k"] step None by simp
    qed
  qed
qed

section \<open>Allocation and release\<close>

text \<open>From \<open>s\<close> to \<open>s'\<close> the block \<open>b\<close> was taken out of the free blocks and cleared.\<close>

definition taken :: "fsys \<Rightarrow> nat \<Rightarrow> fsys \<Rightarrow> bool" where
  "taken s b s' \<longleftrightarrow> geom_ok s' \<and> fs_sb s' = fs_sb s \<and> fs_ticks s' = fs_ticks s \<and> b \<notin> used s \<and> nmeta s \<le> b \<and> b < nbits s \<and>
     used s' = insert b (used s) \<and> fs_blk s' b = replicate BSIZE 0 \<and>
     (\<forall>c. c \<noteq> b \<longrightarrow> c \<notin> bitmap_area s \<longrightarrow> fs_blk s' c = fs_blk s c)"

text \<open>Writing a block outside the bitmap does not change what is allocated.\<close>

lemma used_data_write:
  assumes "geom_ok s" "b \<notin> bitmap_area s" "length x = BSIZE"
  shows "used (fs_log_write b x s) = used s" "geom_ok (fs_log_write b x s)"
proof -
  show u: "used (fs_log_write b x s) = used s"
    using bblock_nat(2) [OF assms(1)] assms(2) by (auto simp: used_def)
  show "geom_ok (fs_log_write b x s)" using assms u by (simp add: geom_ok_def)
qed

lemma balloc_cases:
  assumes "geom_ok s"
  shows "balloc s = Panic \<and> {..<nbits s} \<subseteq> used s \<or> (\<exists>b s'. balloc s = Ok (b, s') \<and> taken s b s' \<and> (\<forall>c < b. c \<in> used s))"
proof -
  consider "balloc s = Panic" "{..<nbits s} \<subseteq> used s"
    | b where "b < nbits s" "b \<notin> used s" "\<forall>c < b. c \<in> used s"
      "balloc s = Ok (b, bzero b (fs_log_write (bmap_blk s b) ((fs_blk s (bmap_blk s b))
         [b mod BPB div 8 := (fs_blk s (bmap_blk s b) ! (b mod BPB div 8)) OR push_bit (b mod 8) 1]) s))"
    using balloc_loop_spec [OF assms, of 0] unfolding balloc_def by auto
  then show ?thesis
  proof cases
    case 2
    let ?w = "(fs_blk s (bmap_blk s b) ! (b mod BPB div 8)) OR push_bit (b mod 8) 1"
    let ?t = "fs_log_write (bmap_blk s b) ((fs_blk s (bmap_blk s b))[b mod BPB div 8 := ?w]) s"
    have "bit ?w k = (if k = b mod 8 then True else bit (fs_blk s (bmap_blk s b) ! (b mod BPB div 8)) k)" if "k < 8" for k
      using that by (auto simp: bit_simps)
    note t = used_update [OF assms 2(1) this, simplified]
    have n: "nmeta s \<le> b" using assms 2(2) by (auto simp: geom_ok_def not_less [symmetric])
    then have nb: "b \<notin> bitmap_area ?t" by (auto simp: bitmap_area_def)
    have "taken s b (bzero b ?t)"
      using used_data_write [OF _ nb, of "replicate BSIZE 0"] t 2(1,2) n bblock_nat(2) [OF assms 2(1)]
      by (auto simp: taken_def bzero_def)
    then show ?thesis using 2(3,4) by blast
  qed blast
qed

lemma bfree_cases:
  assumes "geom_ok s" "b < nbits s"
  shows "b \<notin> used s \<Longrightarrow> bfree b s = Panic"
    and "b \<in> used s \<Longrightarrow> \<exists>s'. bfree b s = Ok s' \<and> used s' = used s - {b} \<and> fs_sb s' = fs_sb s \<and> fs_ticks s' = fs_ticks s \<and>
      (nmeta s \<le> b \<longrightarrow> geom_ok s') \<and> (\<forall>c. c \<notin> bitmap_area s \<longrightarrow> fs_blk s' c = fs_blk s c)"
proof -
  have b8: "b mod BPB mod 8 = b mod 8" by (simp add: BPB_def BSIZE_def mod_mod_cancel)
  show "bfree b s = Panic" if "b \<notin> used s"
    using that assms(2) by (simp add: bfree_def bblock_nat(1) [OF assms] Let_def and_bit_zero b8 used_def del: push_bit_of_1)
  let ?w = "(fs_blk s (bmap_blk s b) ! (b mod BPB div 8)) AND NOT (push_bit (b mod 8) 1)"
  have "bit ?w k = (if k = b mod 8 then False else bit (fs_blk s (bmap_blk s b) ! (b mod BPB div 8)) k)" if "k < 8" for k
    using that by (auto simp: bit_simps)
  note t' = used_update [OF assms this, simplified if_False]
  show "\<exists>s'. bfree b s = Ok s' \<and> used s' = used s - {b} \<and> fs_sb s' = fs_sb s \<and> fs_ticks s' = fs_ticks s \<and>
      (nmeta s \<le> b \<longrightarrow> geom_ok s') \<and> (\<forall>c. c \<notin> bitmap_area s \<longrightarrow> fs_blk s' c = fs_blk s c)" if "b \<in> used s"
  proof -
    let ?t = "fs_log_write (bmap_blk s b) ((fs_blk s (bmap_blk s b))[b mod BPB div 8 := ?w]) s"
    have "bfree b s = Ok ?t"
      using that by (simp add: bfree_def bblock_nat(1) [OF assms] Let_def and_bit_zero b8 used_def del: push_bit_of_1)
    moreover have "fs_blk ?t c = fs_blk s c" if "c \<notin> bitmap_area s" for c
      using that bblock_nat(2) [OF assms] by auto
    ultimately show ?thesis using t' by auto
  qed
qed

end
