(* ===== verification/Fs_Inode.thy ===== *)
theory Fs_Inode
  imports Fs_Block
begin

text \<open>
  Inodes of \<^verbatim>\<open>crates/kernel/src/fs.rs\<close>: the in-memory inode (\<^verbatim>\<open>IData\<close>) and its write
  through to the disk, the block map with its direct, indirect and doubly indirect blocks, truncation,
  reading and writing. The copy routines between kernel and user memory are parameters: an input
  routine returns the bytes it copied before it stopped and a status, an output routine transforms
  the memory it writes to.
\<close>

unbundle bit_operations_syntax

section \<open>In-memory inodes\<close>

record idata =
  id_dev :: u32
  id_inum :: u32
  id_valid :: bool
  id_type :: file_type
  id_major :: "16 word"
  id_minor :: "16 word"
  id_nlink :: "16 word"
  id_size :: u32
  id_addrs :: "u32 list"
  id_atime :: u64
  id_mtime :: u64
  id_ctime :: u64

definition idata_new :: "u32 \<Rightarrow> u32 \<Rightarrow> idata" where
  "idata_new dev inum = \<lparr>id_dev = dev, id_inum = inum, id_valid = False, id_type = FEmpty, id_major = 3, id_minor = 0,
     id_nlink = 0, id_size = 0, id_addrs = replicate (NDIRECT + 2) 0, id_atime = 0, id_mtime = 0, id_ctime = 0\<rparr>"

definition to_dinode :: "idata \<Rightarrow> dinode" where
  "to_dinode ip = \<lparr>di_type = ft_code (id_type ip), di_major = id_major ip, di_minor = id_minor ip, di_nlink = id_nlink ip,
     di_size = id_size ip, di_addrs = id_addrs ip, di_atime = id_atime ip, di_mtime = id_mtime ip, di_ctime = id_ctime ip\<rparr>"

definition iupdate :: "idata \<Rightarrow> fsys \<Rightarrow> fsys" where
  "iupdate ip s =
     (let bb = unat (iblock (fs_sb s) (id_inum ip)); k = unat (id_inum ip) mod IPB
      in fs_log_write bb (patch (DINODE_SIZE * k) (enc_dinode (to_dinode ip)) (fs_blk s bb)) s)"

type_synonym inode_state = "idata \<times> fsys"

definition init_times :: "inode_state \<Rightarrow> inode_state" where
  "init_times = (\<lambda>(ip, s). let ip' = ip\<lparr>id_atime := fs_ticks s, id_mtime := fs_ticks s, id_ctime := fs_ticks s\<rparr> in (ip', iupdate ip' s))"

definition touch_atime :: "inode_state \<Rightarrow> inode_state" where
  "touch_atime = (\<lambda>(ip, s). let ip' = ip\<lparr>id_atime := fs_ticks s\<rparr> in (ip', iupdate ip' s))"

definition touch_mtime_ctime :: "inode_state \<Rightarrow> inode_state" where
  "touch_mtime_ctime = (\<lambda>(ip, s). let ip' = ip\<lparr>id_mtime := fs_ticks s, id_ctime := fs_ticks s\<rparr> in (ip', iupdate ip' s))"

definition touch_ctime :: "inode_state \<Rightarrow> inode_state" where
  "touch_ctime = (\<lambda>(ip, s). let ip' = ip\<lparr>id_ctime := fs_ticks s\<rparr> in (ip', iupdate ip' s))"

definition set_type :: "file_type \<Rightarrow> inode_state \<Rightarrow> inode_state" where
  "set_type t = (\<lambda>(ip, s). let ip' = ip\<lparr>id_type := t\<rparr> in (ip', iupdate ip' s))"

definition set_major_minor :: "16 word \<Rightarrow> 16 word \<Rightarrow> inode_state \<Rightarrow> inode_state" where
  "set_major_minor major minor = (\<lambda>(ip, s). let ip' = ip\<lparr>id_major := major, id_minor := minor\<rparr> in (ip', iupdate ip' s))"

definition set_size :: "u32 \<Rightarrow> inode_state \<Rightarrow> inode_state" where
  "set_size sz = (\<lambda>(ip, s). let ip' = ip\<lparr>id_size := sz\<rparr> in (ip', iupdate ip' s))"

definition set_addrs :: "nat \<Rightarrow> u32 \<Rightarrow> inode_state \<Rightarrow> inode_state" where
  "set_addrs bn addr = (\<lambda>(ip, s). let ip' = ip\<lparr>id_addrs := (id_addrs ip)[bn := addr]\<rparr> in (ip', iupdate ip' s))"

datatype link_op = LinkPlus | LinkMinus | LinkInit "16 word"

fun new_nlink :: "link_op \<Rightarrow> 16 word \<Rightarrow> 16 word" where
  "new_nlink LinkPlus n = n + 1"
| "new_nlink LinkMinus n = n - 1"
| "new_nlink (LinkInit num) n = num"

definition set_nlink :: "link_op \<Rightarrow> inode_state \<Rightarrow> inode_state" where
  "set_nlink op = (\<lambda>(ip, s). let ip' = ip\<lparr>id_nlink := new_nlink op (id_nlink ip), id_ctime := fs_ticks s\<rparr> in (ip', iupdate ip' s))"

text \<open>
  \<^verbatim>\<open>MInode::lock\<close>, once the sleeping lock is held: an inode that is not valid is read from
  the disk. A type that no variant has, and an inode that is not allocated, stop the kernel.
\<close>

definition ilock :: "inode_state \<Rightarrow> idata result" where
  "ilock = (\<lambda>(ip, s).
     if id_valid ip then Ok ip
     else
       (let d = dec_dinode (slice (DINODE_SIZE * (unat (id_inum ip) mod IPB)) DINODE_SIZE (fs_blk s (unat (iblock (fs_sb s) (id_inum ip))))) in
        case ft_decode (di_type d) of
          None \<Rightarrow> Panic
        | Some t \<Rightarrow>
            if t = FEmpty then Panic
            else Ok (ip\<lparr>id_type := t, id_major := di_major d, id_minor := di_minor d, id_nlink := di_nlink d, id_size := di_size d,
                       id_addrs := di_addrs d, id_atime := di_atime d, id_mtime := di_mtime d, id_ctime := di_ctime d, id_valid := True\<rparr>)))"

record stat =
  st_dev :: u32
  st_ino :: u32
  st_ftype :: file_type
  st_nlink :: "16 word"
  st_size :: nat
  st_atime :: u64
  st_mtime :: u64
  st_ctime :: u64

definition inode_stat :: "idata \<Rightarrow> stat" where
  "inode_stat ip = \<lparr>st_dev = id_dev ip, st_ino = id_inum ip, st_ftype = id_type ip, st_nlink = id_nlink ip,
     st_size = unat (id_size ip), st_atime = id_atime ip, st_mtime = id_mtime ip, st_ctime = id_ctime ip\<rparr>"

section \<open>The block map\<close>

definition slot :: "block \<Rightarrow> nat \<Rightarrow> u32" where
  "slot bp k = of_le (slice (4 * k) 4 bp)"

definition set_slot :: "nat \<Rightarrow> u32 \<Rightarrow> block \<Rightarrow> block" where
  "set_slot k w bp = patch (4 * k) (le_bytes 4 w) bp"

text \<open>An entry of the inode's table, or of an indirect block, allocated if it is missing.\<close>

definition ensure_root :: "nat \<Rightarrow> bool \<Rightarrow> inode_state \<Rightarrow> (u32 \<times> inode_state) result" where
  "ensure_root i alloc = (\<lambda>(ip, s).
     let addr = id_addrs ip ! i in
     if addr = 0 \<and> alloc then
       obind (balloc s) (\<lambda>(b, s1). Ok (of_nat b, set_addrs i (of_nat b) (ip, s1)))
     else Ok (addr, ip, s))"

definition ensure_slot :: "u32 \<Rightarrow> nat \<Rightarrow> bool \<Rightarrow> inode_state \<Rightarrow> (u32 \<times> inode_state) result" where
  "ensure_slot blk k alloc = (\<lambda>(ip, s).
     let bp = fs_blk s (unat blk); addr = slot bp k in
     if addr = 0 \<and> alloc then
       obind (balloc s) (\<lambda>(b, s1). Ok (of_nat b, ip, fs_log_write (unat blk) (set_slot k (of_nat b) bp) s1))
     else Ok (addr, ip, s))"

definition bmap :: "nat \<Rightarrow> bool \<Rightarrow> inode_state \<Rightarrow> (u32 \<times> inode_state) result" where
  "bmap bn alloc st =
     (if bn < NDIRECT then ensure_root bn alloc st
      else if bn - NDIRECT < NINDIRECT then
        obind (ensure_root NDIRECT alloc st) (\<lambda>(addr, st1). ensure_slot addr (bn - NDIRECT) alloc st1)
      else if bn - NDIRECT - NINDIRECT < NDINDIRECT then
        obind (ensure_root (NDIRECT + 1) alloc st) (\<lambda>(addr, st1).
        obind (ensure_slot addr ((bn - NDIRECT - NINDIRECT) div NINDIRECT) alloc st1) (\<lambda>(addr, st2).
        ensure_slot addr ((bn - NDIRECT - NINDIRECT) mod NINDIRECT) alloc st2))
      else Err StorageFull)"

section \<open>Truncation\<close>

fun free_addrs :: "u32 list \<Rightarrow> fsys \<Rightarrow> fsys result" where
  "free_addrs [] s = Ok s"
| "free_addrs (a # as) s = (if 0 < a then obind (bfree (unat a) s) (free_addrs as) else free_addrs as s)"

definition slots :: "block \<Rightarrow> u32 list" where
  "slots bp = map (slot bp) [0..<NINDIRECT]"

definition free_indirect :: "u32 \<Rightarrow> fsys \<Rightarrow> fsys result" where
  "free_indirect a s =
     (if 0 < a then obind (free_addrs (slots (fs_blk s (unat a))) s) (bfree (unat a)) else Ok s)"

fun free_indirects :: "u32 list \<Rightarrow> fsys \<Rightarrow> fsys result" where
  "free_indirects [] s = Ok s"
| "free_indirects (a # as) s = obind (free_indirect a s) (free_indirects as)"

definition free_double :: "u32 \<Rightarrow> fsys \<Rightarrow> fsys result" where
  "free_double a s =
     (if 0 < a then obind (free_indirects (slots (fs_blk s (unat a))) s) (bfree (unat a)) else Ok s)"

definition trunc :: "inode_state \<Rightarrow> inode_state result" where
  "trunc = (\<lambda>(ip, s).
     obind (free_addrs (take NDIRECT (id_addrs ip)) s) (\<lambda>s1.
     obind (free_indirect (id_addrs ip ! NDIRECT) s1) (\<lambda>s2.
     obind (free_double (id_addrs ip ! (NDIRECT + 1)) s2) (\<lambda>s3.
     let ip' = ip\<lparr>id_addrs := replicate (NDIRECT + 2) 0, id_size := 0, id_mtime := fs_ticks s3, id_ctime := fs_ticks s3\<rparr>
     in Ok (ip', iupdate ip' s3)))))"

section \<open>Reading and writing\<close>

type_synonym copyin = "nat \<Rightarrow> nat \<Rightarrow> byte list \<times> unit result"

type_synonym 'm copyout = "nat \<Rightarrow> byte list \<Rightarrow> 'm \<Rightarrow> 'm \<times> unit result"

function read_loop :: "'m copyout \<Rightarrow> nat \<Rightarrow> nat \<Rightarrow> nat \<Rightarrow> nat \<Rightarrow> inode_state \<Rightarrow> 'm \<Rightarrow> nat result \<times> 'm" where
  "read_loop out dst off tot n st mem =
     (if tot < n then
        (case bmap (off div BSIZE mod 2 ^ 32) False st of
           Err e \<Rightarrow> (Err e, mem)
         | Panic \<Rightarrow> (Panic, mem)
         | Ok (addr, _) \<Rightarrow>
             (let m = min (n - tot) (BSIZE - off mod BSIZE);
                  bs = slice (off mod BSIZE) m (fs_blk (snd st) (unat addr))
              in case out dst bs mem of
                   (mem', Ok _) \<Rightarrow> read_loop out (dst + m) (off + m) (tot + m) n st mem'
                 | (mem', Err e) \<Rightarrow> (Err e, mem')
                 | (mem', Panic) \<Rightarrow> (Panic, mem')))
      else (Ok tot, mem))"
  by pat_completeness auto
termination
  by (relation "measure (\<lambda>(out, dst, off, tot, n, st, mem). n - tot)") (auto simp: BSIZE_def)

text \<open>The sum of offset and length is computed at the width of \<^verbatim>\<open>usize\<close>.\<close>

definition inode_read :: "'m copyout \<Rightarrow> nat \<Rightarrow> u32 \<Rightarrow> nat \<Rightarrow> inode_state \<Rightarrow> 'm \<Rightarrow> nat result \<times> 'm" where
  "inode_read out dst off n st mem =
     (let sz = unat (id_size (fst st)) in
      if sz < unat off then (Ok 0, mem)
      else
        (let n' = (if sz < (unat off + n) mod 2 ^ 64 then sz - unat off else n)
         in read_loop out dst (unat off) 0 n' st mem))"

function write_loop :: "copyin \<Rightarrow> nat \<Rightarrow> nat \<Rightarrow> nat \<Rightarrow> nat \<Rightarrow> inode_state \<Rightarrow> (nat \<times> nat) result \<times> inode_state" where
  "write_loop inp src off tot n st =
     (if tot < n then
        (case bmap (off div BSIZE mod 2 ^ 32) True st of
           Err e \<Rightarrow> (Err e, st)
         | Panic \<Rightarrow> (Panic, st)
         | Ok (addr, ip1, s1) \<Rightarrow>
             (let m = min (n - tot) (BSIZE - off mod BSIZE);
                  bp = fs_blk s1 (unat addr)
              in case inp src m of
                   (bs, Ok _) \<Rightarrow> write_loop inp (src + m) (off + m) (tot + m) n (ip1, fs_log_write (unat addr) (patch (off mod BSIZE) bs bp) s1)
                 | (bs, Err e) \<Rightarrow> (Err e, ip1, s1\<lparr>fs_blk := (fs_blk s1)(unat addr := patch (off mod BSIZE) bs bp)\<rparr>)
                 | (bs, Panic) \<Rightarrow> (Panic, ip1, s1)))
      else (Ok (off, tot), st))"
  by pat_completeness auto
termination
  by (relation "measure (\<lambda>(inp, src, off, tot, n, st). n - tot)") (auto simp: BSIZE_def)

definition inode_write :: "copyin \<Rightarrow> nat \<Rightarrow> u32 \<Rightarrow> nat \<Rightarrow> inode_state \<Rightarrow> nat result \<times> inode_state" where
  "inode_write inp src off n st =
     (if unat (id_size (fst st)) < unat off \<or> MAXFILE * BSIZE < (unat off + n) mod 2 ^ 64 then (Err FileTooLarge, st)
      else
        (case write_loop inp src (unat off) 0 n st of
           (Ok (off', tot), st') \<Rightarrow>
             (Ok tot, if unat (id_size (fst st')) < off' then set_size (of_nat off') st' else st')
         | (Err e, st') \<Rightarrow> (Err e, st')
         | (Panic, st') \<Rightarrow> (Panic, st')))"

declare read_loop.simps [simp del] write_loop.simps [simp del]

end
