(* ===== verification/Fs_Map.thy ===== *)
theory Fs_Map
  imports Fs_Inode
begin

text \<open>
  The block map of an inode as a function. Every address an inode has is at a position: one of the 13
  entries of the inode, an entry of the indirect block, an entry of the doubly indirect block, or an
  entry of one of its indirect blocks. \<open>addr_at\<close> is the address at a position. The invariant says
  that the addresses other than 0 are different for different positions and name allocated data blocks.
  Making sure that a block exists changes the address of at most the positions on the way to it.
\<close>

section \<open>Positions\<close>

datatype pos = PRoot nat | PInd nat | PDbl nat | PLeaf nat nat

fun valid_pos :: "pos \<Rightarrow> bool" where
  "valid_pos (PRoot i) \<longleftrightarrow> i < NDIRECT + 2"
| "valid_pos (PInd k) \<longleftrightarrow> k < NINDIRECT"
| "valid_pos (PDbl k) \<longleftrightarrow> k < NINDIRECT"
| "valid_pos (PLeaf k j) \<longleftrightarrow> k < NINDIRECT \<and> j < NINDIRECT"

definition slot_in :: "(nat \<Rightarrow> block) \<Rightarrow> nat \<Rightarrow> nat \<Rightarrow> nat" where
  "slot_in blk a k = (if a = 0 then 0 else unat (slot (blk a) k))"

fun addr_at :: "(nat \<Rightarrow> block) \<Rightarrow> u32 list \<Rightarrow> pos \<Rightarrow> nat" where
  "addr_at blk A (PRoot i) = unat (A ! i)"
| "addr_at blk A (PInd k) = slot_in blk (unat (A ! NDIRECT)) k"
| "addr_at blk A (PDbl k) = slot_in blk (unat (A ! (NDIRECT + 1))) k"
| "addr_at blk A (PLeaf k j) = slot_in blk (slot_in blk (unat (A ! (NDIRECT + 1))) k) j"

text \<open>The position of the \<open>bn\<close>-th block of the contents.\<close>

definition dpos :: "nat \<Rightarrow> pos" where
  "dpos bn =
     (if bn < NDIRECT then PRoot bn
      else if bn - NDIRECT < NINDIRECT then PInd (bn - NDIRECT)
      else PLeaf ((bn - NDIRECT - NINDIRECT) div NINDIRECT) ((bn - NDIRECT - NINDIRECT) mod NINDIRECT))"

lemma NINDIRECT_256: "NINDIRECT = 256"
  by (simp add: NINDIRECT_def BSIZE_def)

lemma dpos_valid: "bn < MAXFILE \<Longrightarrow> valid_pos (dpos bn)"
  by (auto simp: dpos_def MAXFILE_def NDINDIRECT_def NDIRECT_def NINDIRECT_256 less_mult_imp_div_less)

lemma dpos_inject: "dpos a = dpos b \<longleftrightarrow> a = b"
proof
  assume eq: "dpos a = dpos b"
  show "a = b"
  proof (cases "a < NDIRECT \<or> a - NDIRECT < NINDIRECT")
    case True
    with eq show ?thesis by (auto simp: dpos_def split: if_splits)
  next
    case False
    with eq have "\<not> (b < NDIRECT \<or> b - NDIRECT < NINDIRECT)"
      "(a - NDIRECT - NINDIRECT) div NINDIRECT = (b - NDIRECT - NINDIRECT) div NINDIRECT"
      "(a - NDIRECT - NINDIRECT) mod NINDIRECT = (b - NDIRECT - NINDIRECT) mod NINDIRECT"
      by (auto simp: dpos_def split: if_splits)
    then have "a - NDIRECT - NINDIRECT = b - NDIRECT - NINDIRECT" by (metis div_mult_mod_eq)
    with False \<open>\<not> (b < NDIRECT \<or> b - NDIRECT < NINDIRECT)\<close> show ?thesis by linarith
  qed
qed simp

section \<open>Entries of indirect blocks\<close>

lemma slot_set_slot:
  assumes "length bp = BSIZE" "k < NINDIRECT" "j < NINDIRECT"
  shows "slot (set_slot k w bp) j = (if j = k then w else slot bp j)"
proof (cases "j = k")
  case True
  then show ?thesis using assms by (simp add: slot_def set_slot_def NINDIRECT_256 BSIZE_def)
next
  case False
  then have "4 * j + 4 \<le> 4 * k \<or> 4 * k + 4 \<le> 4 * j" by arith
  then have "slice (4 * j) 4 (patch (4 * k) (le_bytes 4 w) bp) = slice (4 * j) 4 bp"
    using assms by (intro slice_patch_other) (simp_all add: NINDIRECT_256 BSIZE_def)
  with False show ?thesis by (simp add: slot_def set_slot_def)
qed

lemma length_set_slot [simp]: "length bp = BSIZE \<Longrightarrow> k < NINDIRECT \<Longrightarrow> length (set_slot k w bp) = BSIZE"
  by (simp add: set_slot_def NINDIRECT_256 BSIZE_def)

lemma of_le_zeros: "of_le (replicate n 0) = 0"
  by (induction n) simp_all

lemma slot_zeros: "k < NINDIRECT \<Longrightarrow> slot (replicate BSIZE 0) k = 0"
  by (simp add: slot_def slice_replicate NINDIRECT_256 BSIZE_def of_le_zeros)

section \<open>The invariant\<close>

definition own :: "(nat \<Rightarrow> block) \<Rightarrow> u32 list \<Rightarrow> nat set" where
  "own blk A = {addr_at blk A p | p. valid_pos p \<and> addr_at blk A p \<noteq> 0}"

text \<open>
  \<open>R\<close> are the blocks of other inodes: they are allocated data blocks, disjoint from those of this one.
  Block 0 is empty, so that following an address 0 finds nothing.
\<close>

definition map_ok :: "nat set \<Rightarrow> u32 list \<Rightarrow> fsys \<Rightarrow> bool" where
  "map_ok R A s \<longleftrightarrow> geom_ok s \<and> length A = NDIRECT + 2 \<and> fs_blk s 0 = replicate BSIZE 0 \<and>
     R \<subseteq> used s \<and> R \<subseteq> {nmeta s..} \<and> own (fs_blk s) A \<subseteq> used s \<and> own (fs_blk s) A \<subseteq> {nmeta s..} \<and>
     own (fs_blk s) A \<inter> R = {} \<and>
     (\<forall>p q. valid_pos p \<longrightarrow> valid_pos q \<longrightarrow> addr_at (fs_blk s) A p = addr_at (fs_blk s) A q \<longrightarrow>
        addr_at (fs_blk s) A p \<noteq> 0 \<longrightarrow> p = q)"

lemma map_okD:
  assumes "map_ok R A s"
  shows "geom_ok s" "length A = NDIRECT + 2" "fs_blk s 0 = replicate BSIZE 0" "R \<subseteq> used s" "R \<subseteq> {nmeta s..}"
    "own (fs_blk s) A \<inter> R = {}" "length (fs_blk s b) = BSIZE"
    and "valid_pos p \<Longrightarrow> addr_at (fs_blk s) A p \<noteq> 0 \<Longrightarrow>
      addr_at (fs_blk s) A p \<in> used s \<and> nmeta s \<le> addr_at (fs_blk s) A p \<and> addr_at (fs_blk s) A p \<notin> R"
    and "valid_pos p \<Longrightarrow> valid_pos q \<Longrightarrow> addr_at (fs_blk s) A p = addr_at (fs_blk s) A q \<Longrightarrow>
      addr_at (fs_blk s) A p \<noteq> 0 \<Longrightarrow> p = q"
  using assms by (auto simp: map_ok_def own_def geom_ok_def)

lemma used_less: "b \<in> used s \<Longrightarrow> b < nbits s"
  by (simp add: used_def)

lemma nbits_u32: "b < nbits s \<Longrightarrow> unat (of_nat b :: u32) = b"
  using unsigned_less [of "sb_size (fs_sb s)", where ?'a = nat]
  by (simp add: nbits_def unat_of_nat take_bit_eq_mod)

text \<open>Two stores with the same contents of the blocks of an inode give the same addresses.\<close>

lemma addr_at_cong:
  assumes "\<And>a. a \<in> own blk A \<Longrightarrow> blk' a = blk a" "length A = NDIRECT + 2" "valid_pos p"
  shows "addr_at blk' A p = addr_at blk A p"
proof -
  have root: "i < NDIRECT + 2 \<Longrightarrow> unat (A ! i) \<noteq> 0 \<Longrightarrow> blk' (unat (A ! i)) = blk (unat (A ! i))" for i
    by (rule assms(1)) (auto simp: own_def intro!: exI [of _ "PRoot i"])
  have dbl: "k < NINDIRECT \<Longrightarrow> slot_in blk (unat (A ! (NDIRECT + 1))) k \<noteq> 0 \<Longrightarrow>
      blk' (slot_in blk (unat (A ! (NDIRECT + 1))) k) = blk (slot_in blk (unat (A ! (NDIRECT + 1))) k)" for k
    by (rule assms(1)) (auto simp: own_def intro!: exI [of _ "PDbl k"])
  have "slot_in blk' (unat (A ! i)) k = slot_in blk (unat (A ! i)) k" if "i < NDIRECT + 2" for i k
    using root [OF that] by (simp add: slot_in_def)
  note one = this
  show ?thesis
  proof (cases p)
    case (PLeaf k j)
    then show ?thesis using assms(3) dbl [of k] one [of "NDIRECT + 1" k] by (simp add: slot_in_def)
  qed (simp_all add: one)
qed

lemma own_cong:
  assumes "\<And>a. a \<in> own blk A \<Longrightarrow> blk' a = blk a" "length A = NDIRECT + 2"
  shows "own blk' A = own blk A"
proof -
  have "valid_pos p \<Longrightarrow> addr_at blk' A p = addr_at blk A p" for p
    using addr_at_cong [of blk A blk' p] assms by blast
  then show ?thesis unfolding own_def by (intro Collect_cong) metis
qed

section \<open>Inodes on disk\<close>

definition inode_blk :: "fsys \<Rightarrow> nat \<Rightarrow> nat" where
  "inode_blk s j = j div IPB + unat (sb_inodestart (fs_sb s))"

definition raw_inode :: "fsys \<Rightarrow> nat \<Rightarrow> byte list" where
  "raw_inode s j = slice (DINODE_SIZE * (j mod IPB)) DINODE_SIZE (fs_blk s (inode_blk s j))"

lemma iblock_nat:
  assumes "geom_ok s" "unat inum < unat (sb_ninodes (fs_sb s))"
  shows "unat (iblock (fs_sb s) inum) = inode_blk s (unat inum)" "inode_blk s (unat inum) \<in> inode_area s"
proof -
  have "unat inum div IPB \<le> unat (sb_ninodes (fs_sb s)) div IPB" using assms(2) by (intro div_le_mono) simp
  then have m: "inode_blk s (unat inum) < unat (sb_bmapstart (fs_sb s))"
    using assms(1) by (simp add: geom_ok_def inode_blk_def)
  then show "inode_blk s (unat inum) \<in> inode_area s" by (simp add: inode_area_def inode_blk_def)
  have "unat (of_nat IPB :: u32) = IPB" by (simp add: IPB_def BSIZE_def DINODE_SIZE_def)
  then have "unat (inum div of_nat IPB) = unat inum div IPB" by (simp add: unat_div)
  moreover have "inode_blk s (unat inum) < 2 ^ 32"
    using m unsigned_less [of "sb_bmapstart (fs_sb s)", where ?'a = nat] by simp
  ultimately show "unat (iblock (fs_sb s) inum) = inode_blk s (unat inum)"
    by (simp add: iblock_def inode_blk_def unat_word_ariths)
qed

lemma inode_area_meta: "geom_ok s \<Longrightarrow> b \<in> inode_area s \<Longrightarrow> b < nmeta s \<and> b \<notin> bitmap_area s \<and> 2 \<le> b"
  by (auto simp: inode_area_def geom_ok_def bitmap_area_def nmeta_def)

lemma bitmap_area_meta: "geom_ok s \<Longrightarrow> b \<in> bitmap_area s \<Longrightarrow> b < nmeta s \<and> b \<notin> inode_area s \<and> 2 \<le> b"
  by (auto simp: inode_area_def geom_ok_def bitmap_area_def nmeta_def)

text \<open>Two inodes have different places.\<close>

lemma raw_inode_patch:
  assumes "geom_ok s" "length e = 88"
    and "fs_blk s' = (fs_blk s)(inode_blk s i := patch (DINODE_SIZE * (i mod IPB)) e (fs_blk s (inode_blk s i)))" "fs_sb s' = fs_sb s"
  shows "raw_inode s' j = (if j = i then e @ drop 88 (raw_inode s i) else raw_inode s j)"
proof -
  have len: "length (fs_blk s b) = 1024" for b using assms(1) by (simp add: geom_ok_def BSIZE_def)
  have ipb: "IPB = 8" "DINODE_SIZE = 128" by (simp_all add: IPB_def BSIZE_def DINODE_SIZE_def)
  have m8: "i mod 8 < 8" "j mod 8 < 8" by simp_all
  have blk: "inode_blk s' = inode_blk s" by (simp add: inode_blk_def assms(4) fun_eq_iff)
  show ?thesis
  proof (cases "inode_blk s j = inode_blk s i")
    case False
    then show ?thesis by (auto simp: raw_inode_def assms(3) blk)
  next
    case True
    then have d: "j div 8 = i div 8" by (simp add: inode_blk_def ipb)
    show ?thesis
    proof (cases "j = i")
      case True
      have "128 * (i mod 8) + 128 \<le> 1024" using m8 by arith
      then have "slice (128 * (i mod 8)) 128 (patch (128 * (i mod 8)) e (fs_blk s (inode_blk s i))) =
          e @ drop 88 (slice (128 * (i mod 8)) 128 (fs_blk s (inode_blk s i)))"
        using assms(2) len by (simp add: slice_def patch_def drop_take add.commute)
      then show ?thesis using True by (simp add: raw_inode_def blk assms(3) ipb)
    next
      case False
      then have "j mod 8 \<noteq> i mod 8" using d by (metis div_mult_mod_eq)
      then have "128 * (j mod 8) + 128 \<le> 128 * (i mod 8) \<or> 128 * (i mod 8) + 88 \<le> 128 * (j mod 8)"
        by linarith
      then have "slice (128 * (j mod 8)) 128 (patch (128 * (i mod 8)) e (fs_blk s (inode_blk s i))) =
          slice (128 * (j mod 8)) 128 (fs_blk s (inode_blk s i))"
        using assms(2) len m8 by (intro slice_patch_other) (simp_all add: assms(2))
      then show ?thesis using True False by (simp add: raw_inode_def blk assms(3) ipb)
    qed
  qed
qed

lemma length_raw_inode: "geom_ok s \<Longrightarrow> length (raw_inode s j) = DINODE_SIZE"
proof -
  assume "geom_ok s"
  moreover have "DINODE_SIZE * (j mod IPB) + DINODE_SIZE \<le> BSIZE"
    using mod_less_divisor [of 8 j] by (simp add: IPB_def BSIZE_def DINODE_SIZE_def)
  ultimately show ?thesis by (simp add: raw_inode_def geom_ok_def)
qed

section \<open>Adding a block\<close>

text \<open>The positions whose block is an index block, and the positions below them.\<close>

fun is_index :: "pos \<Rightarrow> bool" where
  "is_index (PRoot i) \<longleftrightarrow> i = NDIRECT \<or> i = NDIRECT + 1"
| "is_index (PDbl k) \<longleftrightarrow> k < NINDIRECT"
| "is_index _ \<longleftrightarrow> False"

fun child :: "pos \<Rightarrow> nat \<Rightarrow> pos" where
  "child (PRoot i) k = (if i = NDIRECT then PInd k else PDbl k)"
| "child (PDbl m) k = PLeaf m k"
| "child p k = p"

lemma child_simps: "NDIRECT + 1 \<noteq> NDIRECT" "child (PRoot NDIRECT) k = PInd k" "child (PRoot (NDIRECT + 1)) k = PDbl k"
  by simp_all

lemma is_index_valid: "is_index p \<Longrightarrow> valid_pos p"
  by (cases p) auto

lemma child_valid: "is_index p \<Longrightarrow> k < NINDIRECT \<Longrightarrow> valid_pos (child p k)"
  by (cases p) auto

lemma addr_at_child: "is_index p \<Longrightarrow> addr_at blk A (child p k) = slot_in blk (addr_at blk A p) k"
  by (cases p) auto

lemma child_inject: "is_index p \<Longrightarrow> is_index q \<Longrightarrow> child p k = child q j \<longleftrightarrow> p = q \<and> k = j"
  by (cases p; cases q) auto

lemma pos_cases:
  assumes "valid_pos q"
  obtains i where "q = PRoot i" "i < NDIRECT + 2" | p k where "is_index p" "k < NINDIRECT" "q = child p k"
proof (cases q)
  case (PRoot i)
  then show ?thesis using assms that(1) by simp
next
  case (PInd k)
  then show ?thesis using assms that(2) [of "PRoot NDIRECT" k] by simp
next
  case (PDbl k)
  then show ?thesis using assms that(2) [of "PRoot (NDIRECT + 1)" k] by simp
next
  case (PLeaf m k)
  then show ?thesis using assms that(2) [of "PDbl m" k] by simp
qed

lemma child_not_root: "is_index p \<Longrightarrow> child p k \<noteq> PRoot i"
  by (cases p) auto

lemma child_index: "is_index p \<Longrightarrow> is_index (child p k) \<Longrightarrow> p = PRoot (NDIRECT + 1)"
  by (cases p) (auto split: if_splits)

lemma own_memI: "valid_pos p \<Longrightarrow> addr_at blk A p \<noteq> 0 \<Longrightarrow> addr_at blk A p \<in> own blk A"
  by (auto simp: own_def)

text \<open>A new block \<open>b\<close> in an entry of the inode, and in an entry of an index block.\<close>

lemma addr_at_root:
  assumes "length A = NDIRECT + 2" "i < NDIRECT + 2" "A ! i = 0" "unat w = b"
    and "blk' b = replicate BSIZE 0" "\<And>c. c \<in> own blk A \<Longrightarrow> blk' c = blk c" "valid_pos q"
  shows "addr_at blk' (A[i := w]) q = (if q = PRoot i then b else addr_at blk A q)"
proof -
  let ?A = "A[i := w]"
  have entry: "slot_in blk' (unat (?A ! j)) k = slot_in blk (unat (A ! j)) k" if "j < NDIRECT + 2" "k < NINDIRECT" for j k
  proof (cases "j = i")
    case True
    then show ?thesis using assms that by (simp add: slot_in_def slot_zeros)
  next
    case False
    then show ?thesis using assms(1,6) that own_memI [of "PRoot j" blk A] by (auto simp: slot_in_def)
  qed
  show ?thesis
  proof (cases q)
    case (PLeaf m j)
    then have "m < NINDIRECT" "j < NINDIRECT" using assms(7) by simp_all
    then show ?thesis using PLeaf entry [of "NDIRECT + 1" m] own_memI [of "PDbl m" blk A] assms(6)
      by (auto simp: slot_in_def [of _ "slot_in blk _ _"])
  qed (use assms(1,2,4,7) entry in auto)
qed

lemma addr_at_slot:
  assumes "length A = NDIRECT + 2" "is_index p" "k < NINDIRECT" "addr_at blk A p \<noteq> 0" "addr_at blk A (child p k) = 0"
    and inj: "\<And>q. valid_pos q \<Longrightarrow> addr_at blk A q = addr_at blk A p \<Longrightarrow> q = p"
    and "length (blk (addr_at blk A p)) = BSIZE" "unat w = b"
    and "blk' (addr_at blk A p) = set_slot k w (blk (addr_at blk A p))"
    and "blk' b = replicate BSIZE 0" "\<And>c. c \<in> own blk A \<Longrightarrow> c \<noteq> addr_at blk A p \<Longrightarrow> blk' c = blk c"
  shows "valid_pos q \<Longrightarrow> addr_at blk' A q = (if q = child p k then b else addr_at blk A q)"
proof -
  have entry: "slot_in blk' (addr_at blk A r) j = (if r = p \<and> j = k then b else slot_in blk (addr_at blk A r) j)"
    if "valid_pos r" "j < NINDIRECT" for r j
  proof (cases "addr_at blk A r = 0")
    case True
    then show ?thesis using assms(4) by (auto simp: slot_in_def)
  next
    case False
    show ?thesis
    proof (cases "r = p")
      case True
      then show ?thesis using assms that by (simp add: slot_in_def slot_set_slot)
    next
      case r: False
      then have "blk' (addr_at blk A r) = blk (addr_at blk A r)"
        using inj [OF that(1)] own_memI [OF that(1) False] assms(11) by blast
      then show ?thesis using r by (simp add: slot_in_def)
    qed
  qed
  have roots: "addr_at blk' A (PRoot i) = addr_at blk A (PRoot i)" for i by simp
  have one: "addr_at blk' A q = (if q = child p k then b else addr_at blk A q)"
    if q: "q = child r j" "is_index r" "j < NINDIRECT" and same: "addr_at blk' A r = addr_at blk A r" for q r j
    using entry [OF is_index_valid [OF q(2)] q(3)] addr_at_child [OF q(2), of blk' A j] addr_at_child [OF q(2), of blk A j]
      child_inject [OF q(2) assms(2), of j k] same q(1) by auto
  show "valid_pos q \<Longrightarrow> addr_at blk' A q = (if q = child p k then b else addr_at blk A q)"
  proof (erule pos_cases)
    fix i assume "q = PRoot i"
    moreover from this have "q \<noteq> child p k" using child_not_root [OF assms(2)] by metis
    ultimately show ?thesis by simp
  next
    fix r j assume r: "is_index r" "j < NINDIRECT" "q = child r j"
    show ?thesis
    proof (cases r)
      case (PRoot i)
      then show ?thesis using one [OF r(3,1,2)] roots by simp
    next
      case (PDbl m)
      then have m: "m < NINDIRECT" using r(1) by simp
      have d: "addr_at blk' A (PDbl m) = (if PDbl m = child p k then b else addr_at blk A (PDbl m))"
        using one [of "PDbl m" "PRoot (NDIRECT + 1)" m] m roots by simp
      show ?thesis
      proof (cases "PDbl m = child p k")
        case False
        then show ?thesis using one [OF r(3,1,2)] d PDbl by simp
      next
        case True
        then have "addr_at blk A (PDbl m) = 0" using assms(5) by simp
        moreover have "q \<noteq> child p k" using r(3) PDbl True by (metis child.simps(2) pos.distinct(11))
        moreover have "addr_at blk' A q = 0"
          using addr_at_child [OF r(1), of blk' A j] d True PDbl r(2,3) assms(10) by (simp add: slot_in_def slot_zeros)
        moreover have "addr_at blk A q = 0"
          using addr_at_child [OF r(1), of blk A j] PDbl r(3) calculation(1) by (simp add: slot_in_def)
        ultimately show ?thesis by simp
      qed
    qed (use r in simp_all)
  qed
qed

text \<open>With the new block the invariant still holds.\<close>

lemma map_ok_insert:
  assumes "map_ok R A s" "taken s b s1" "valid_pos p" "addr_at (fs_blk s) A p = 0"
    and "geom_ok s2" "fs_sb s2 = fs_sb s" "used s2 = insert b (used s)" "length A' = NDIRECT + 2" "fs_blk s2 0 = replicate BSIZE 0"
    and addr: "\<And>q. valid_pos q \<Longrightarrow> addr_at (fs_blk s2) A' q = (if q = p then b else addr_at (fs_blk s) A q)"
  shows "map_ok R A' s2"
proof -
  have b: "b \<notin> used s" "nmeta s \<le> b" using assms(2) by (simp_all add: taken_def)
  have n: "nmeta s2 = nmeta s" using assms(6) by (simp add: nmeta_def nbits_def)
  note m = map_okD [OF assms(1)]
  have own: "own (fs_blk s2) A' \<subseteq> insert b (own (fs_blk s) A)"
    using addr by (auto simp: own_def split: if_splits)
  have sub: "own (fs_blk s) A \<subseteq> used s" "own (fs_blk s) A \<subseteq> {nmeta s..}" using m(8) by (auto simp: own_def)
  have "p' = q'" if "valid_pos p'" "valid_pos q'" "addr_at (fs_blk s2) A' p' = addr_at (fs_blk s2) A' q'"
    "addr_at (fs_blk s2) A' p' \<noteq> 0" for p' q'
    using that addr [OF that(1)] addr [OF that(2)] b(1) m(8) [OF that(1)] m(8) [OF that(2)] m(9) [OF that(1,2)]
    by (auto split: if_splits)
  moreover have "own (fs_blk s2) A' \<subseteq> used s2" "own (fs_blk s2) A' \<subseteq> {nmeta s..}" "own (fs_blk s2) A' \<inter> R = {}"
    using own sub b m(4,6) assms(7) by auto
  moreover have "R \<subseteq> used s2" using m(4) assms(7) by auto
  ultimately show ?thesis using m(5) assms(5,8,9) n unfolding map_ok_def by simp
qed

section \<open>Growth of a block map\<close>

fun is_data :: "pos \<Rightarrow> bool" where
  "is_data (PRoot i) \<longleftrightarrow> i < NDIRECT"
| "is_data (PDbl k) \<longleftrightarrow> False"
| "is_data _ \<longleftrightarrow> True"

lemma dpos_data: "is_data (dpos bn)"
  by (simp add: dpos_def)

lemma data_not_index: "is_data p \<Longrightarrow> \<not> is_index p"
  by (cases p) auto

text \<open>
  From \<open>s\<close> to \<open>s'\<close> the inode \<open>i\<close> got more blocks: the addresses it had are
  the same, the contents of its data blocks are the same (a new one is empty, as was the block that
  a missing address denotes), and nothing of the other inodes has changed.
\<close>

definition grown :: "nat set \<Rightarrow> nat \<Rightarrow> u32 list \<Rightarrow> fsys \<Rightarrow> u32 list \<Rightarrow> fsys \<Rightarrow> bool" where
  "grown R i A s A' s' \<longleftrightarrow> map_ok R A' s' \<and> fs_sb s' = fs_sb s \<and> fs_ticks s' = fs_ticks s \<and>
     (\<forall>p. valid_pos p \<longrightarrow> addr_at (fs_blk s) A p \<noteq> 0 \<longrightarrow> addr_at (fs_blk s') A' p = addr_at (fs_blk s) A p) \<and>
     (\<forall>p. valid_pos p \<longrightarrow> is_data p \<longrightarrow> fs_blk s' (addr_at (fs_blk s') A' p) = fs_blk s (addr_at (fs_blk s) A p)) \<and>
     (\<forall>b \<in> R. fs_blk s' b = fs_blk s b) \<and>
     (\<forall>j. j \<noteq> i \<longrightarrow> j < unat (sb_ninodes (fs_sb s)) \<longrightarrow> raw_inode s' j = raw_inode s j)"

lemma grown_refl: "map_ok R A s \<Longrightarrow> grown R i A s A s"
  by (simp add: grown_def)

lemma grown_trans: "grown R i A s A' s' \<Longrightarrow> grown R i A' s' A'' s'' \<Longrightarrow> grown R i A s A'' s''"
  unfolding grown_def by metis

definition nfree :: "fsys \<Rightarrow> nat" where
  "nfree s = card ({..<nbits s} - used s)"

lemma nfree_taken: "taken s b s' \<Longrightarrow> used s2 = used s' \<Longrightarrow> fs_sb s2 = fs_sb s \<Longrightarrow> nfree s = Suc (nfree s2)"
proof -
  assume t: "taken s b s'" and u: "used s2 = used s'" "fs_sb s2 = fs_sb s"
  have n: "nbits s2 = nbits s" using u(2) by (simp add: nbits_def)
  have "{..<nbits s} - used s = insert b ({..<nbits s2} - used s2)" "b \<notin> {..<nbits s2} - used s2"
    using t u(1) n by (auto simp: taken_def)
  then show ?thesis by (simp add: nfree_def)
qed

lemma balloc_free: "geom_ok s \<Longrightarrow> 0 < nfree s \<Longrightarrow> \<exists>b s'. balloc s = Ok (b, s') \<and> taken s b s'"
  using balloc_cases [of s] by (auto simp: nfree_def Diff_eq_empty_iff [THEN iffD2])

lemma same_other_inodes:
  assumes "geom_ok s" "fs_sb s' = fs_sb s" "\<And>c. c \<in> inode_area s \<Longrightarrow> fs_blk s' c = fs_blk s c" "j < unat (sb_ninodes (fs_sb s))"
  shows "raw_inode s' j = raw_inode s j"
proof -
  have "j < 2 ^ 32" using assms(4) unsigned_less [of "sb_ninodes (fs_sb s)", where ?'a = nat] by simp
  then have "unat (of_nat j :: u32) = j" by (simp add: unat_of_nat take_bit_eq_mod)
  then have "inode_blk s j \<in> inode_area s" using iblock_nat(2) [OF assms(1), of "of_nat j"] assms(4) by simp
  then show ?thesis using assms(2,3) by (simp add: raw_inode_def inode_blk_def)
qed

end
