(* ===== verification/Fs_File.thy ===== *)
theory Fs_File
  imports Fs_Map
begin

text \<open>
  Files as sequences of bytes. The lemmas on \<open>bmap\<close> show that it returns the block at the
  position of its argument and lets the block map only grow. Over it, reading returns a part of the
  contents and writing replaces one, and neither changes another inode. Running out of blocks stops
  the kernel, so that the statements assume enough free blocks.
\<close>

section \<open>Writing through an inode\<close>

definition inum_ok :: "idata \<Rightarrow> fsys \<Rightarrow> bool" where
  "inum_ok ip s \<longleftrightarrow> unat (id_inum ip) < unat (sb_ninodes (fs_sb s))"

lemma iupdate_effect:
  assumes "geom_ok s" "inum_ok ip s" "length (id_addrs ip) = NDIRECT + 2"
  shows "fs_sb (iupdate ip s) = fs_sb s" "fs_ticks (iupdate ip s) = fs_ticks s" "used (iupdate ip s) = used s"
    "geom_ok (iupdate ip s)" "c \<notin> inode_area s \<Longrightarrow> fs_blk (iupdate ip s) c = fs_blk s c"
    "j \<noteq> unat (id_inum ip) \<Longrightarrow> raw_inode (iupdate ip s) j = raw_inode s j"
    "dec_dinode (raw_inode (iupdate ip s) (unat (id_inum ip))) = to_dinode ip"
proof -
  let ?i = "unat (id_inum ip)"
  let ?b = "inode_blk s ?i"
  let ?x = "patch (DINODE_SIZE * (?i mod IPB)) (enc_dinode (to_dinode ip)) (fs_blk s ?b)"
  note ib = iblock_nat [OF assms(1), of "id_inum ip", OF assms(2) [unfolded inum_ok_def]]
  have u: "iupdate ip s = fs_log_write ?b ?x s" by (simp add: iupdate_def ib(1) Let_def)
  have len: "length (enc_dinode (to_dinode ip)) = 88" "length (di_addrs (to_dinode ip)) = NDIRECT + 2"
    using assms(3) by (simp_all add: to_dinode_def)
  have "DINODE_SIZE * (?i mod IPB) + 88 \<le> BSIZE"
    using mod_less_divisor [of 8 ?i] by (simp add: IPB_def BSIZE_def DINODE_SIZE_def)
  then have lx: "length ?x = BSIZE" using assms(1) len(1) by (simp add: geom_ok_def)
  have nb: "?b \<notin> bitmap_area s" using inode_area_meta [OF assms(1) ib(2)] by simp
  show "fs_sb (iupdate ip s) = fs_sb s" "fs_ticks (iupdate ip s) = fs_ticks s" by (simp_all add: u)
  show "used (iupdate ip s) = used s" "geom_ok (iupdate ip s)" using used_data_write [OF assms(1) nb lx] by (simp_all add: u)
  show "fs_blk (iupdate ip s) c = fs_blk s c" if "c \<notin> inode_area s" using that ib(2) by (auto simp: u)
  note raw = raw_inode_patch [OF assms(1) len(1), of "iupdate ip s" ?i]
  show "raw_inode (iupdate ip s) j = raw_inode s j" if "j \<noteq> ?i" using raw [of j] that by (simp add: u)
  show "dec_dinode (raw_inode (iupdate ip s) ?i) = to_dinode ip" using raw [of ?i] len(2) by (simp add: u)
qed

text \<open>A step that changes only inode blocks keeps every block map.\<close>

lemma map_ok_meta:
  assumes "map_ok R A s" "geom_ok s'" "fs_sb s' = fs_sb s" "used s' = used s" "\<And>c. c \<notin> inode_area s \<Longrightarrow> fs_blk s' c = fs_blk s c"
  shows "map_ok R A s'" "valid_pos p \<Longrightarrow> addr_at (fs_blk s') A p = addr_at (fs_blk s) A p"
    "valid_pos p \<Longrightarrow> fs_blk s' (addr_at (fs_blk s) A p) = fs_blk s (addr_at (fs_blk s) A p)"
    "b \<in> R \<Longrightarrow> fs_blk s' b = fs_blk s b"
proof -
  note m = map_okD [OF assms(1)]
  have data: "fs_blk s' c = fs_blk s c" if "nmeta s \<le> c \<or> c < 2" for c
    using assms(5) [of c] inode_area_meta [OF m(1), of c] that by fastforce
  have own: "c \<in> own (fs_blk s) A \<Longrightarrow> fs_blk s' c = fs_blk s c" for c
    using m(8) by (auto simp: own_def intro!: data)
  have addr: "addr_at (fs_blk s') A p = addr_at (fs_blk s) A p" if "valid_pos p" for p
    by (rule addr_at_cong [where blk = "fs_blk s"]) (use own m(2) that in auto)
  then show "valid_pos p \<Longrightarrow> addr_at (fs_blk s') A p = addr_at (fs_blk s) A p" .
  show "valid_pos p \<Longrightarrow> fs_blk s' (addr_at (fs_blk s) A p) = fs_blk s (addr_at (fs_blk s) A p)"
    using m(8) [of p] by (cases "addr_at (fs_blk s) A p = 0") (auto intro!: data)
  show "b \<in> R \<Longrightarrow> fs_blk s' b = fs_blk s b" using m(5) by (auto intro!: data)
  have o: "own (fs_blk s') A = own (fs_blk s) A" by (rule own_cong [OF own m(2)])
  have "nmeta s' = nmeta s" using assms(3) by (simp add: nmeta_def nbits_def)
  then show "map_ok R A s'" using assms(1,2,4) addr o data [of 0] unfolding map_ok_def by auto
qed

lemma map_ok_iupdate:
  assumes "map_ok R (id_addrs ip) s" "inum_ok ip s"
  shows "map_ok R (id_addrs ip) (iupdate ip s)"
  using iupdate_effect [OF map_okD(1) [OF assms(1)] assms(2) map_okD(2) [OF assms(1)]]
  by (intro map_ok_meta(1) [OF assms(1)]) auto

section \<open>The block map\<close>

lemma taken_other_blocks:
  assumes "map_ok R A s" "taken s b s1"
  shows "c \<in> own (fs_blk s) A \<Longrightarrow> fs_blk s1 c = fs_blk s c" "c \<in> R \<Longrightarrow> fs_blk s1 c = fs_blk s c"
    "c \<in> inode_area s \<Longrightarrow> fs_blk s1 c = fs_blk s c" "fs_blk s1 0 = replicate BSIZE 0" "0 < b" "unat (of_nat b :: u32) = b"
proof -
  note m = map_okD [OF assms(1)]
  have t: "b \<notin> used s" "nmeta s \<le> b" "b < nbits s" "\<And>c. c \<noteq> b \<Longrightarrow> c \<notin> bitmap_area s \<Longrightarrow> fs_blk s1 c = fs_blk s c"
    using assms(2) by (auto simp: taken_def)
  have "2 \<le> nmeta s" using m(1) by (auto simp: geom_ok_def nmeta_def)
  then show "0 < b" using t(2) by simp
  have nb: "c \<notin> bitmap_area s" if "nmeta s \<le> c \<or> c < 2" for c using bitmap_area_meta [OF m(1), of c] that by fastforce
  show "fs_blk s1 c = fs_blk s c" if "c \<in> own (fs_blk s) A"
    using that m(8) t(1) by (auto simp: own_def intro!: t(4) nb)
  show "fs_blk s1 c = fs_blk s c" if "c \<in> R" using that m(4,5) t(1) by (auto intro!: t(4) nb)
  show "fs_blk s1 c = fs_blk s c" if "c \<in> inode_area s"
    using inode_area_meta [OF m(1) that] t(2) by (intro t(4)) auto
  show "fs_blk s1 0 = replicate BSIZE 0" using t(4) [of 0] nb [of 0] \<open>0 < b\<close> m(3) by simp
  show "unat (of_nat b :: u32) = b" by (rule nbits_u32 [OF t(3)])
qed

text \<open>What an allocating step on an inode's map promises.\<close>

definition ensured :: "nat set \<Rightarrow> pos \<Rightarrow> inode_state \<Rightarrow> (u32 \<times> inode_state) result \<Rightarrow> bool" where
  "ensured R p st r \<longleftrightarrow> (case st of (ip, s) \<Rightarrow> \<exists>a ip' s'. r = Ok (a, ip', s') \<and> a \<noteq> 0 \<and> ip' = ip\<lparr>id_addrs := id_addrs ip'\<rparr> \<and>
     grown R (unat (id_inum ip)) (id_addrs ip) s (id_addrs ip') s' \<and>
     addr_at (fs_blk s') (id_addrs ip') p = unat a \<and> nfree s \<le> Suc (nfree s'))"

lemma ensure_root_ok:
  assumes "map_ok R (id_addrs ip) s" "inum_ok ip s" "i < NDIRECT + 2" "0 < nfree s"
  shows "ensured R (PRoot i) (ip, s) (ensure_root i True (ip, s))"
proof (cases "id_addrs ip ! i = 0")
  case False
  then show ?thesis using grown_refl [OF assms(1)] by (simp add: ensured_def ensure_root_def)
next
  case True
  let ?A = "id_addrs ip"
  note m = map_okD [OF assms(1)]
  obtain b s1 where b: "balloc s = Ok (b, s1)" and t: "taken s b s1" using balloc_free [OF m(1) assms(4)] by blast
  note o = taken_other_blocks [OF assms(1) t]
  define ip' where "ip' = ip\<lparr>id_addrs := ?A[i := of_nat b]\<rparr>"
  define s2 where "s2 = iupdate ip' s1"
  have t1: "geom_ok s1" "fs_sb s1 = fs_sb s" "used s1 = insert b (used s)" "fs_blk s1 b = replicate BSIZE 0"
      "fs_ticks s1 = fs_ticks s" "nmeta s \<le> b"
    using t by (simp_all add: taken_def)
  have area: "inode_area s1 = inode_area s" using t1(2) by (simp add: inode_area_def)
  have eff: "geom_ok s2" "fs_sb s2 = fs_sb s" "used s2 = insert b (used s)" "fs_ticks s2 = fs_ticks s"
      "\<And>c. c \<notin> inode_area s \<Longrightarrow> fs_blk s2 c = fs_blk s1 c" "\<And>j. j \<noteq> unat (id_inum ip) \<Longrightarrow> raw_inode s2 j = raw_inode s1 j"
    using iupdate_effect [of s1 ip'] t1 assms(2) m(2) area by (simp_all add: s2_def ip'_def inum_ok_def)
  have data: "fs_blk s2 c = fs_blk s1 c" if "nmeta s \<le> c \<or> c < 2" for c
    using eff(5) [of c] inode_area_meta [OF m(1), of c] that by fastforce
  have own: "fs_blk s2 c = fs_blk s c" if "c \<in> own (fs_blk s) ?A" for c
    using data [of c] o(1) [OF that] that m(8) by (auto simp: own_def)
  have b2: "fs_blk s2 b = replicate BSIZE 0" using data [of b] t1(4,6) by simp
  have z2: "fs_blk s2 0 = replicate BSIZE 0" using data [of 0] o(4) by simp
  have addr: "addr_at (fs_blk s2) (?A[i := of_nat b]) q = (if q = PRoot i then b else addr_at (fs_blk s) ?A q)" if "valid_pos q" for q
    by (rule addr_at_root [where blk = "fs_blk s" and A = ?A]) (use m(2) assms(3) True o(6) b2 own that in auto)
  have ok: "map_ok R (?A[i := of_nat b]) s2"
    by (rule map_ok_insert [OF assms(1) t, of "PRoot i"]) (use assms(3) True eff m(2) z2 addr in simp_all)
  have "fs_blk s2 (addr_at (fs_blk s2) (?A[i := of_nat b]) p) = fs_blk s (addr_at (fs_blk s) ?A p)" if "valid_pos p" for p
    using addr [OF that] b2 z2 m(3) True own [OF own_memI [OF that]] by (cases "addr_at (fs_blk s) ?A p = 0") auto
  moreover have "fs_blk s2 c = fs_blk s c" if "c \<in> R" for c using data [of c] o(2) [OF that] that m(5) by auto
  moreover have "raw_inode s2 j = raw_inode s j" if "j \<noteq> unat (id_inum ip)" "j < unat (sb_ninodes (fs_sb s))" for j
    using eff(6) [OF that(1)] same_other_inodes [OF m(1) t1(2) o(3) that(2)] by simp
  moreover have "addr_at (fs_blk s2) (?A[i := of_nat b]) p = addr_at (fs_blk s) ?A p" if "valid_pos p" "addr_at (fs_blk s) ?A p \<noteq> 0" for p
    using addr [OF that(1)] that(2) True by auto
  ultimately have "grown R (unat (id_inum ip)) ?A s (?A[i := of_nat b]) s2" using ok eff unfolding grown_def by simp
  moreover have "ensure_root i True (ip, s) = Ok (of_nat b, ip', s2)"
    using True b by (simp add: ensure_root_def set_addrs_def ip'_def s2_def Let_def)
  moreover have "nfree s = Suc (nfree s2)" by (rule nfree_taken [OF t]) (simp_all add: eff t1)
  moreover have "(of_nat b :: u32) \<noteq> 0" using o(5,6) by (metis unat_0 less_irrefl)
  ultimately show ?thesis using addr [of "PRoot i"] assms(3) o(6) by (simp add: ensured_def ip'_def)
qed

lemma ensure_slot_ok:
  assumes "map_ok R (id_addrs ip) s" "inum_ok ip s" "is_index p" "k < NINDIRECT" "0 < nfree s"
    and "addr_at (fs_blk s) (id_addrs ip) p = unat blk" "blk \<noteq> 0"
  shows "ensured R (child p k) (ip, s) (ensure_slot blk k True (ip, s))"
proof (cases "slot (fs_blk s (unat blk)) k = 0")
  case False
  then have "addr_at (fs_blk s) (id_addrs ip) (child p k) = unat (slot (fs_blk s (unat blk)) k)"
    using assms(6,7) by (simp add: addr_at_child [OF assms(3)] slot_in_def unat_eq_zero)
  with False show ?thesis using grown_refl [OF assms(1)] by (simp add: ensured_def ensure_slot_def)
next
  case True
  let ?A = "id_addrs ip" and ?a = "unat blk"
  note m = map_okD [OF assms(1)]
  obtain b s1 where b: "balloc s = Ok (b, s1)" and t: "taken s b s1" using balloc_free [OF m(1) assms(5)] by blast
  note o = taken_other_blocks [OF assms(1) t]
  have a: "?a \<noteq> 0" "?a \<in> used s" "nmeta s \<le> ?a" "?a \<in> own (fs_blk s) ?A" "?a \<notin> R"
    using m(8) [OF is_index_valid [OF assms(3)]] own_memI [OF is_index_valid [OF assms(3)], of "fs_blk s" ?A] assms(6,7)
    by (simp_all add: unat_eq_zero)
  have c0: "addr_at (fs_blk s) ?A (child p k) = 0"
    using True assms(6) by (simp add: addr_at_child [OF assms(3)] slot_in_def)
  define x where "x = set_slot k (of_nat b) (fs_blk s ?a)"
  define s2 where "s2 = fs_log_write ?a x s1"
  have t1: "geom_ok s1" "fs_sb s1 = fs_sb s" "used s1 = insert b (used s)" "fs_blk s1 b = replicate BSIZE 0"
      "fs_ticks s1 = fs_ticks s" "b \<notin> used s"
    using t by (simp_all add: taken_def)
  have na: "?a \<notin> bitmap_area s1" "?a \<notin> inode_area s" "?a \<noteq> b"
    using bitmap_area_meta [OF m(1), of ?a] inode_area_meta [OF m(1), of ?a] a t1(2,6)
    by (auto simp: bitmap_area_def nmeta_def nbits_def)
  have lx: "length x = BSIZE" using m(7) assms(4) by (simp add: x_def)
  have eff: "geom_ok s2" "fs_sb s2 = fs_sb s" "used s2 = insert b (used s)" "fs_ticks s2 = fs_ticks s"
      "\<And>c. c \<noteq> ?a \<Longrightarrow> fs_blk s2 c = fs_blk s1 c" "fs_blk s2 ?a = x"
    using used_data_write [OF t1(1) na(1) lx] t1 by (simp_all add: s2_def)
  have own: "fs_blk s2 c = fs_blk s c" if "c \<in> own (fs_blk s) ?A" "c \<noteq> ?a" for c
    using eff(5) [OF that(2)] o(1) [OF that(1)] by simp
  have b2: "fs_blk s2 b = replicate BSIZE 0" using eff(5) [of b] na(3) t1(4) by simp
  have z2: "fs_blk s2 0 = replicate BSIZE 0" using eff(5) [of 0] a(1) o(4) by simp
  have inj: "q = p" if "valid_pos q" "addr_at (fs_blk s) ?A q = addr_at (fs_blk s) ?A p" for q
    using m(9) [OF that(1) is_index_valid [OF assms(3)] that(2)] that(2) assms(6) a(1) by simp
  have addr: "addr_at (fs_blk s2) ?A q = (if q = child p k then b else addr_at (fs_blk s) ?A q)" if "valid_pos q" for q
    by (rule addr_at_slot [where blk = "fs_blk s" and w = "of_nat b"])
      (use m(2,7) assms(3,4,6) a(1) c0 inj o(6) eff(6) b2 own that in \<open>auto simp: x_def\<close>)
  have ok: "map_ok R ?A s2"
    by (rule map_ok_insert [OF assms(1) t child_valid [OF assms(3,4)] c0]) (use eff m(2) z2 addr in simp_all)
  have "fs_blk s2 (addr_at (fs_blk s2) ?A q) = fs_blk s (addr_at (fs_blk s) ?A q)" if "valid_pos q" "is_data q" for q
  proof (cases "addr_at (fs_blk s) ?A q = 0")
    case True
    then show ?thesis using addr [OF that(1)] b2 z2 m(3) by auto
  next
    case False
    then have "addr_at (fs_blk s) ?A q \<noteq> ?a" using inj [OF that(1)] data_not_index [OF that(2)] assms(3,6) by auto
    then show ?thesis using addr [OF that(1)] own [OF own_memI [OF that(1) False]] False c0 by auto
  qed
  moreover have "fs_blk s2 c = fs_blk s c" if "c \<in> R" for c using eff(5) [of c] o(2) [OF that] that a(5) by auto
  moreover have "raw_inode s2 j = raw_inode s j" if "j < unat (sb_ninodes (fs_sb s))" for j
  proof (rule same_other_inodes [OF m(1) eff(2) _ that])
    fix c assume "c \<in> inode_area s"
    then show "fs_blk s2 c = fs_blk s c" using eff(5) [of c] o(3) na(2) by auto
  qed
  moreover have "addr_at (fs_blk s2) ?A q = addr_at (fs_blk s) ?A q" if "valid_pos q" "addr_at (fs_blk s) ?A q \<noteq> 0" for q
    using addr [OF that(1)] that(2) c0 by auto
  ultimately have "grown R (unat (id_inum ip)) ?A s ?A s2" using ok eff unfolding grown_def by simp
  moreover have "ensure_slot blk k True (ip, s) = Ok (of_nat b, ip, s2)"
    using True b by (simp add: ensure_slot_def s2_def x_def Let_def)
  moreover have "nfree s = Suc (nfree s2)" by (rule nfree_taken [OF t]) (simp_all add: eff t1)
  moreover have "(of_nat b :: u32) \<noteq> 0" using o(5,6) by (metis unat_0 less_irrefl)
  ultimately show ?thesis using addr [OF child_valid [OF assms(3,4)]] o(6) by (simp add: ensured_def)
qed

lemma grown_okD: "grown R i A s A' s' \<Longrightarrow> map_ok R A' s' \<and> fs_sb s' = fs_sb s"
  by (simp add: grown_def)

lemma bmap_ok:
  assumes "map_ok R (id_addrs ip) s" "inum_ok ip s" "bn < MAXFILE" "3 \<le> nfree s"
  shows "\<exists>a ip' s'. bmap bn True (ip, s) = Ok (a, ip', s') \<and> a \<noteq> 0 \<and> ip' = ip\<lparr>id_addrs := id_addrs ip'\<rparr> \<and>
    grown R (unat (id_inum ip)) (id_addrs ip) s (id_addrs ip') s' \<and>
    addr_at (fs_blk s') (id_addrs ip') (dpos bn) = unat a \<and> nfree s \<le> nfree s' + 3"
proof -
  have root: "\<exists>a ip' s'. ensure_root i True (ip, s) = Ok (a, ip', s') \<and> a \<noteq> 0 \<and> ip' = ip\<lparr>id_addrs := id_addrs ip'\<rparr> \<and>
      grown R (unat (id_inum ip)) (id_addrs ip) s (id_addrs ip') s' \<and> addr_at (fs_blk s') (id_addrs ip') (PRoot i) = unat a \<and>
      nfree s \<le> Suc (nfree s')" if "i < NDIRECT + 2" for i
    using ensure_root_ok [OF assms(1,2) that] assms(4) by (simp add: ensured_def)
  have below: "\<exists>a' ip'' s''. ensure_slot a k True (ip', s') = Ok (a', ip'', s'') \<and> a' \<noteq> 0 \<and> ip'' = ip\<lparr>id_addrs := id_addrs ip''\<rparr> \<and>
      grown R (unat (id_inum ip)) (id_addrs ip) s (id_addrs ip'') s'' \<and>
      addr_at (fs_blk s'') (id_addrs ip'') (child p k) = unat a' \<and> nfree s' \<le> Suc (nfree s'')"
    if "a \<noteq> 0" "ip' = ip\<lparr>id_addrs := id_addrs ip'\<rparr>" "grown R (unat (id_inum ip)) (id_addrs ip) s (id_addrs ip') s'"
      "addr_at (fs_blk s') (id_addrs ip') p = unat a" "is_index p" "k < NINDIRECT" "0 < nfree s'" for a ip' s' p k
  proof -
    have i: "id_inum ip' = id_inum ip" "ip'\<lparr>id_addrs := y\<rparr> = ip\<lparr>id_addrs := y\<rparr>" for y
      by (subst that(2), simp)+
    have "map_ok R (id_addrs ip') s'" "inum_ok ip' s'" using grown_okD [OF that(3)] assms(2) i(1) by (simp_all add: inum_ok_def)
    from ensure_slot_ok [OF this that(5-7,4,1)] show ?thesis
      using grown_trans [OF that(3)] i by (fastforce simp: ensured_def)
  qed
  consider "bn < NDIRECT" | "\<not> bn < NDIRECT" "bn - NDIRECT < NINDIRECT"
    | "\<not> bn < NDIRECT" "\<not> bn - NDIRECT < NINDIRECT" "bn - NDIRECT - NINDIRECT < NDINDIRECT"
    using assms(3) by (force simp: MAXFILE_def)
  then show ?thesis
  proof cases
    case 1
    then show ?thesis using root [of bn] by (fastforce simp: bmap_def dpos_def)
  next
    case 2
    obtain a ip' s' where r: "ensure_root NDIRECT True (ip, s) = Ok (a, ip', s')" "a \<noteq> 0" "ip' = ip\<lparr>id_addrs := id_addrs ip'\<rparr>"
        "grown R (unat (id_inum ip)) (id_addrs ip) s (id_addrs ip') s'" "addr_at (fs_blk s') (id_addrs ip') (PRoot NDIRECT) = unat a"
        "nfree s \<le> Suc (nfree s')" using root [of NDIRECT] by auto
    have "0 < nfree s'" using r(6) assms(4) by simp
    from below [OF r(2-5) _ 2(2) this] 2 r(1,6) show ?thesis by (fastforce simp: bmap_def dpos_def)
  next
    case 3
    let ?n = "bn - NDIRECT - NINDIRECT"
    have k: "?n div NINDIRECT < NINDIRECT" "?n mod NINDIRECT < NINDIRECT"
      using 3(3) by (simp_all add: NDINDIRECT_def less_mult_imp_div_less NINDIRECT_256)
    obtain a ip' s' where r: "ensure_root (NDIRECT + 1) True (ip, s) = Ok (a, ip', s')" "a \<noteq> 0" "ip' = ip\<lparr>id_addrs := id_addrs ip'\<rparr>"
        "grown R (unat (id_inum ip)) (id_addrs ip) s (id_addrs ip') s'" "addr_at (fs_blk s') (id_addrs ip') (PRoot (NDIRECT + 1)) = unat a"
        "nfree s \<le> Suc (nfree s')" using root [of "NDIRECT + 1"] by auto
    have "0 < nfree s'" using r(6) assms(4) by simp
    from below [OF r(2-5) _ k(1) this] obtain a2 ip2 s2 where r2: "ensure_slot a (?n div NINDIRECT) True (ip', s') = Ok (a2, ip2, s2)"
        "a2 \<noteq> 0" "ip2 = ip\<lparr>id_addrs := id_addrs ip2\<rparr>" "grown R (unat (id_inum ip)) (id_addrs ip) s (id_addrs ip2) s2"
        "addr_at (fs_blk s2) (id_addrs ip2) (PDbl (?n div NINDIRECT)) = unat a2" "nfree s' \<le> Suc (nfree s2)" by auto
    have "0 < nfree s2" using r(6) r2(6) assms(4) by simp
    from below [OF r2(2-5) _ k(2) this] k(1) 3 r(1,6) r2(1,6) show ?thesis
      by (fastforce simp: bmap_def dpos_def)
  qed
qed

lemma bmap_lookup:
  assumes "map_ok R (id_addrs ip) s" "bn < MAXFILE"
  shows "\<exists>a. bmap bn False (ip, s) = Ok (a, ip, s) \<and> unat a = addr_at (fs_blk s) (id_addrs ip) (dpos bn)"
proof -
  have z: "fs_blk s 0 = replicate BSIZE 0" using map_okD(3) [OF assms(1)] .
  have slot: "unat (slot (fs_blk s (unat a)) k) = slot_in (fs_blk s) (unat a) k" if "k < NINDIRECT" for a :: u32 and k
    using z slot_zeros [OF that] by (simp add: slot_in_def)
  have k: "(bn - NDIRECT - NINDIRECT) div NINDIRECT < NINDIRECT" "(bn - NDIRECT - NINDIRECT) mod NINDIRECT < NINDIRECT"
    using assms(2) by (simp_all add: MAXFILE_def NDINDIRECT_def less_mult_imp_div_less NINDIRECT_256 NDIRECT_def)
  show ?thesis
    using slot k assms(2)
    by (auto simp: bmap_def ensure_root_def ensure_slot_def dpos_def Let_def MAXFILE_def simp flip: slot)
qed

section \<open>Contents\<close>

definition cbyte :: "fsys \<Rightarrow> u32 list \<Rightarrow> nat \<Rightarrow> byte" where
  "cbyte s A i = fs_blk s (addr_at (fs_blk s) A (dpos (i div BSIZE))) ! (i mod BSIZE)"

definition contents :: "idata \<Rightarrow> fsys \<Rightarrow> byte list" where
  "contents ip s = map (cbyte s (id_addrs ip)) [0..<unat (id_size ip)]"

definition file_ok :: "nat set \<Rightarrow> idata \<Rightarrow> fsys \<Rightarrow> bool" where
  "file_ok R ip s \<longleftrightarrow> map_ok R (id_addrs ip) s \<and> inum_ok ip s \<and> unat (id_size ip) \<le> MAXFILE * BSIZE"

lemma length_contents [simp]: "length (contents ip s) = unat (id_size ip)"
  by (simp add: contents_def)

lemma block_of_byte: "i < MAXFILE * BSIZE \<Longrightarrow> i div BSIZE < MAXFILE"
  by (simp add: less_mult_imp_div_less)

lemma grown_cbyte: "grown R j A s A' s' \<Longrightarrow> i < MAXFILE * BSIZE \<Longrightarrow> cbyte s' A' i = cbyte s A i"
  using dpos_valid [OF block_of_byte, of i] dpos_data by (simp add: grown_def cbyte_def)

text \<open>Nothing outside the inode has changed.\<close>

definition others_kept :: "nat set \<Rightarrow> nat \<Rightarrow> fsys \<Rightarrow> fsys \<Rightarrow> bool" where
  "others_kept R i s s' \<longleftrightarrow> fs_sb s' = fs_sb s \<and> fs_ticks s' = fs_ticks s \<and> (\<forall>b \<in> R. fs_blk s' b = fs_blk s b) \<and>
     (\<forall>j. j \<noteq> i \<longrightarrow> j < unat (sb_ninodes (fs_sb s)) \<longrightarrow> raw_inode s' j = raw_inode s j)"

lemma others_kept_refl: "others_kept R i s s"
  by (simp add: others_kept_def)

lemma others_kept_trans: "others_kept R i s s' \<Longrightarrow> others_kept R i s' s'' \<Longrightarrow> others_kept R i s s''"
  unfolding others_kept_def by metis

lemma grown_kept: "grown R i A s A' s' \<Longrightarrow> others_kept R i s s'"
  by (simp add: grown_def others_kept_def)

section \<open>Writing into a data block\<close>

text \<open>Only index blocks matter for the addresses.\<close>

lemma addr_at_index_cong:
  assumes "\<And>p. is_index p \<Longrightarrow> addr_at blk A p \<noteq> 0 \<Longrightarrow> blk' (addr_at blk A p) = blk (addr_at blk A p)" "valid_pos q"
  shows "addr_at blk' A q = addr_at blk A q"
proof -
  have entry: "slot_in blk' (addr_at blk A p) k = slot_in blk (addr_at blk A p) k" if "is_index p" for p k
    using assms(1) [OF that] by (simp add: slot_in_def)
  have "addr_at blk' A (PDbl k) = addr_at blk A (PDbl k)" for k using entry [of "PRoot (NDIRECT + 1)" k] by simp
  note dbl = this
  show ?thesis
  proof (cases q)
    case (PLeaf k j)
    then show ?thesis using assms(2) dbl [of k] entry [of "PDbl k" j] by simp
  qed (use entry [of "PRoot NDIRECT"] dbl in simp_all)
qed

lemma put_data:
  assumes "map_ok R A s" "bn < MAXFILE" "a = addr_at (fs_blk s) A (dpos bn)" "a \<noteq> 0" "off + length bs \<le> BSIZE"
  defines "s' \<equiv> fs_log_write a (patch off bs (fs_blk s a)) s"
  shows "map_ok R A s'" "others_kept R i s s'" "used s' = used s"
    "j < MAXFILE * BSIZE \<Longrightarrow> cbyte s' A j =
       (if j div BSIZE = bn \<and> off \<le> j mod BSIZE \<and> j mod BSIZE < off + length bs then bs ! (j mod BSIZE - off) else cbyte s A j)"
proof -
  note m = map_okD [OF assms(1)]
  have v: "valid_pos (dpos bn)" by (rule dpos_valid [OF assms(2)])
  have a: "a \<in> used s" "nmeta s \<le> a" "a \<notin> R" using m(8) [OF v] assms(3,4) by auto
  have na: "a \<notin> bitmap_area s" "a \<notin> inode_area s"
    using bitmap_area_meta [OF m(1), of a] inode_area_meta [OF m(1), of a] a(2) by auto
  have lx: "length (patch off bs (fs_blk s a)) = BSIZE" using m(7) assms(5) by simp
  show u: "used s' = used s" using used_data_write [OF m(1) na(1) lx] by (simp add: s'_def)
  have g: "geom_ok s'" using used_data_write [OF m(1) na(1) lx] by (simp add: s'_def)
  have blk: "fs_blk s' c = (if c = a then patch off bs (fs_blk s a) else fs_blk s c)" for c by (simp add: s'_def)
  have ne: "addr_at (fs_blk s) A p \<noteq> a" if "valid_pos p" "p \<noteq> dpos bn" for p
    using m(9) [OF that(1) v] that(2) assms(3,4) by auto
  have addr: "addr_at (fs_blk s') A q = addr_at (fs_blk s) A q" if "valid_pos q" for q
  proof (rule addr_at_index_cong [OF _ that])
    fix p assume p: "is_index p" "addr_at (fs_blk s) A p \<noteq> 0"
    then have "p \<noteq> dpos bn" using data_not_index [OF dpos_data] by auto
    then show "fs_blk s' (addr_at (fs_blk s) A p) = fs_blk s (addr_at (fs_blk s) A p)"
      using ne [OF is_index_valid [OF p(1)]] by (simp add: blk)
  qed
  have o: "own (fs_blk s') A = own (fs_blk s) A" unfolding own_def using addr by (intro Collect_cong) metis
  have n: "nmeta s' = nmeta s" by (simp add: s'_def)
  show "map_ok R A s'" using assms(1) g u o n addr blk [of 0] assms(4) unfolding map_ok_def by auto
  have "raw_inode s' j = raw_inode s j" if "j < unat (sb_ninodes (fs_sb s))" for j
    by (rule same_other_inodes [OF m(1) _ _ that]) (use na(2) in \<open>auto simp: s'_def\<close>)
  then show "others_kept R i s s'" using a(3) by (auto simp: others_kept_def blk) (simp_all add: s'_def)
  assume j: "j < MAXFILE * BSIZE"
  have vj: "valid_pos (dpos (j div BSIZE))" by (rule dpos_valid [OF block_of_byte [OF j]])
  show "cbyte s' A j = (if j div BSIZE = bn \<and> off \<le> j mod BSIZE \<and> j mod BSIZE < off + length bs
      then bs ! (j mod BSIZE - off) else cbyte s A j)"
  proof (cases "j div BSIZE = bn")
    case True
    moreover have "j mod BSIZE < BSIZE" by (simp add: BSIZE_def)
    ultimately show ?thesis using addr [OF vj] assms(3,5) m(7) by (simp add: cbyte_def blk nth_patch)
  next
    case False
    then show ?thesis using addr [OF vj] ne [OF vj] by (simp add: cbyte_def blk dpos_inject)
  qed
qed

section \<open>The write loop\<close>

definition blocks_of :: "nat \<Rightarrow> nat \<Rightarrow> nat" where
  "blocks_of off r = (if r = 0 then 0 else (off + r - 1) div BSIZE - off div BSIZE + 1)"

lemma blocks_of_step:
  assumes "0 < r" "m = min r (BSIZE - off mod BSIZE)"
  shows "blocks_of off r = Suc (blocks_of (off + m) (r - m))" "0 < m" "off mod BSIZE + m \<le> BSIZE" "m \<le> r"
proof -
  have B: "0 < BSIZE" by (simp add: BSIZE_def)
  have lt: "off mod BSIZE < BSIZE" using B by simp
  then show "0 < m" "off mod BSIZE + m \<le> BSIZE" "m \<le> r" using assms by auto
  show "blocks_of off r = Suc (blocks_of (off + m) (r - m))"
  proof (cases "r \<le> BSIZE - off mod BSIZE")
    case True
    then have "(off + r - 1) div BSIZE = off div BSIZE"
      using assms(1) lt B by (intro div_nat_eqI) (simp_all add: mult.commute minus_mod_eq_mult_div [symmetric])
    then show ?thesis using True assms by (simp add: blocks_of_def)
  next
    case False
    then have m: "m = BSIZE - off mod BSIZE" "m < r" using assms(2) by simp_all
    then have "off + m = BSIZE * (off div BSIZE + 1)" using lt by (simp add: minus_mod_eq_mult_div [symmetric] add.commute)
    then have d: "(off + m) div BSIZE = off div BSIZE + 1" using B by (metis nonzero_mult_div_cancel_left less_irrefl)
    have "(off + m) div BSIZE \<le> (off + r - 1) div BSIZE" using m(2) by (intro div_le_mono) simp
    moreover have "off + m + (r - m) - 1 = off + r - 1" using m(2) by simp
    ultimately show ?thesis using m(2) d by (simp add: blocks_of_def)
  qed
qed

lemma div_block: "l < BSIZE \<Longrightarrow> (BSIZE * q + l) div BSIZE = q" "l < BSIZE \<Longrightarrow> (BSIZE * q + l) mod BSIZE = l"
  by simp_all

lemma in_block_add:
  assumes "off mod BSIZE + m \<le> BSIZE" "d < m"
  shows "(off + d) div BSIZE = off div BSIZE" "(off + d) mod BSIZE = off mod BSIZE + d"
proof -
  have l: "off mod BSIZE + d < BSIZE" using assms by simp
  have e: "BSIZE * (off div BSIZE) + (off mod BSIZE + d) = off + d" by (simp add: add.assoc [symmetric])
  show "(off + d) div BSIZE = off div BSIZE" "(off + d) mod BSIZE = off mod BSIZE + d"
    using div_block [OF l, of "off div BSIZE"] unfolding e by simp_all
qed

lemma in_block:
  assumes "off mod BSIZE + m \<le> BSIZE"
  shows "i div BSIZE = off div BSIZE \<and> off mod BSIZE \<le> i mod BSIZE \<and> i mod BSIZE < off mod BSIZE + m \<longleftrightarrow>
    off \<le> i \<and> i < off + m"
proof
  assume "off \<le> i \<and> i < off + m"
  then obtain d where "i = off + d" "d < m" using le_Suc_ex by fastforce
  then show "i div BSIZE = off div BSIZE \<and> off mod BSIZE \<le> i mod BSIZE \<and> i mod BSIZE < off mod BSIZE + m"
    using in_block_add [OF assms] by simp
next
  assume a: "i div BSIZE = off div BSIZE \<and> off mod BSIZE \<le> i mod BSIZE \<and> i mod BSIZE < off mod BSIZE + m"
  have "off = BSIZE * (off div BSIZE) + off mod BSIZE" "i = BSIZE * (i div BSIZE) + i mod BSIZE" by simp_all
  with a show "off \<le> i \<and> i < off + m" by (metis add_le_cancel_left nat_add_left_cancel_less add.assoc)
qed

text \<open>An input routine that delivers the given bytes.\<close>

definition delivers :: "copyin \<Rightarrow> nat \<Rightarrow> byte list \<Rightarrow> bool" where
  "delivers inp src bs \<longleftrightarrow> (\<forall>k m. k + m \<le> length bs \<longrightarrow> inp (src + k) m = (slice k m bs, Ok ()))"

lemma write_loop_ok:
  assumes "map_ok R (id_addrs ip) s" "inum_ok ip s" "delivers inp src bs" "tot \<le> length bs"
    and "off + (length bs - tot) \<le> MAXFILE * BSIZE" "3 * blocks_of off (length bs - tot) \<le> nfree s"
  shows "\<exists>ip' s'. write_loop inp (src + tot) off tot (length bs) (ip, s) = (Ok (off + (length bs - tot), length bs), ip', s') \<and>
    ip' = ip\<lparr>id_addrs := id_addrs ip'\<rparr> \<and> map_ok R (id_addrs ip') s' \<and> others_kept R (unat (id_inum ip)) s s' \<and>
    (\<forall>i < MAXFILE * BSIZE. cbyte s' (id_addrs ip') i =
       (if off \<le> i \<and> i < off + (length bs - tot) then bs ! (tot + (i - off)) else cbyte s (id_addrs ip) i)) \<and>
    nfree s \<le> nfree s' + 3 * blocks_of off (length bs - tot)"
  using assms
proof (induction "length bs - tot" arbitrary: tot off ip s rule: less_induct)
  case less
  show ?case
  proof (cases "tot < length bs")
    case False
    then show ?thesis using less.prems by (auto simp: write_loop.simps others_kept_refl)
  next
    case True
    define m where "m = min (length bs - tot) (BSIZE - off mod BSIZE)"
    have r: "0 < length bs - tot" using True by simp
    note st = blocks_of_step [OF r m_def]
    have bn: "off div BSIZE < MAXFILE" using less.prems(5) r by (intro block_of_byte) simp
    have small: "off div BSIZE mod 2 ^ 32 = off div BSIZE" using bn by (simp add: fs_consts)
    obtain a ip1 s1 where b: "bmap (off div BSIZE) True (ip, s) = Ok (a, ip1, s1)" "a \<noteq> 0" "ip1 = ip\<lparr>id_addrs := id_addrs ip1\<rparr>"
        "grown R (unat (id_inum ip)) (id_addrs ip) s (id_addrs ip1) s1"
        "addr_at (fs_blk s1) (id_addrs ip1) (dpos (off div BSIZE)) = unat a" "nfree s \<le> nfree s1 + 3"
      using bmap_ok [OF less.prems(1,2) bn] less.prems(6) st(1) by auto
    have i1: "id_inum ip1 = id_inum ip" "ip1\<lparr>id_addrs := y\<rparr> = ip\<lparr>id_addrs := y\<rparr>" for y by (subst b(3), simp)+
    have inp: "inp (src + tot) m = (slice tot m bs, Ok ())" using less.prems(3) st(4) True by (simp add: delivers_def)
    have len: "length (slice tot m bs) = m" using st(4) True by simp
    define s2 where "s2 = fs_log_write (unat a) (patch (off mod BSIZE) (slice tot m bs) (fs_blk s1 (unat a))) s1"
    have ok1: "map_ok R (id_addrs ip1) s1" using grown_okD [OF b(4)] by simp
    have a0: "unat a \<noteq> 0" using b(2) by (simp add: unat_eq_zero)
    note p = put_data [OF ok1 bn b(5) [symmetric] a0, of "off mod BSIZE" "slice tot m bs", folded s2_def, unfolded len, OF st(3)]
    have sb2: "fs_sb s2 = fs_sb s" using p(2) b(4) by (simp add: others_kept_def grown_def)
    have nf: "nfree s1 = nfree s2" using p(3) by (simp add: nfree_def s2_def)
    have "\<exists>ip' s'. write_loop inp (src + (tot + m)) (off + m) (tot + m) (length bs) (ip1, s2) =
        (Ok (off + m + (length bs - (tot + m)), length bs), ip', s') \<and>
      ip' = ip1\<lparr>id_addrs := id_addrs ip'\<rparr> \<and> map_ok R (id_addrs ip') s' \<and> others_kept R (unat (id_inum ip1)) s2 s' \<and>
      (\<forall>i < MAXFILE * BSIZE. cbyte s' (id_addrs ip') i =
         (if off + m \<le> i \<and> i < off + m + (length bs - (tot + m)) then bs ! (tot + m + (i - (off + m))) else cbyte s2 (id_addrs ip1) i)) \<and>
      nfree s2 \<le> nfree s' + 3 * blocks_of (off + m) (length bs - (tot + m))"
    proof (rule less.hyps)
      show "length bs - (tot + m) < length bs - tot" using st(2) r by simp
      show "map_ok R (id_addrs ip1) s2" by (rule p(1))
      show "inum_ok ip1 s2" using less.prems(2) i1(1) sb2 by (simp add: inum_ok_def)
      show "delivers inp src bs" by (rule less.prems(3))
      show "tot + m \<le> length bs" using st(4) True by simp
      show "off + m + (length bs - (tot + m)) \<le> MAXFILE * BSIZE" using less.prems(5) st(4) True by simp
      show "3 * blocks_of (off + m) (length bs - (tot + m)) \<le> nfree s2"
        using less.prems(6) st(1) b(6) nf by (simp add: diff_diff_left)
    qed
    then obtain ip' s' where w: "write_loop inp (src + (tot + m)) (off + m) (tot + m) (length bs) (ip1, s2) =
        (Ok (off + (length bs - tot), length bs), ip', s')"
      "ip' = ip1\<lparr>id_addrs := id_addrs ip'\<rparr>" "map_ok R (id_addrs ip') s'" "others_kept R (unat (id_inum ip)) s2 s'"
      "\<And>i. i < MAXFILE * BSIZE \<Longrightarrow> cbyte s' (id_addrs ip') i =
         (if off + m \<le> i \<and> i < off + (length bs - tot) then bs ! (tot + m + (i - (off + m))) else cbyte s2 (id_addrs ip1) i)"
      "nfree s2 \<le> nfree s' + 3 * blocks_of (off + m) (length bs - tot - m)"
      using st(4) True i1(1) by auto
    have "write_loop inp (src + tot) off tot (length bs) (ip, s) = (Ok (off + (length bs - tot), length bs), ip', s')"
      using w(1) b(1) True inp small by (simp add: write_loop.simps [of _ "src + tot"] m_def [symmetric] s2_def Let_def add.assoc)
    moreover have "ip' = ip\<lparr>id_addrs := id_addrs ip'\<rparr>" using w(2) i1(2) by metis
    moreover have "others_kept R (unat (id_inum ip)) s s'"
      using others_kept_trans [OF grown_kept [OF b(4)]] others_kept_trans [OF p(2) w(4)] by blast
    moreover have "cbyte s' (id_addrs ip') i =
        (if off \<le> i \<and> i < off + (length bs - tot) then bs ! (tot + (i - off)) else cbyte s (id_addrs ip) i)"
      if i: "i < MAXFILE * BSIZE" for i
    proof (cases "off \<le> i \<and> i < off + m")
      case True
      then obtain d where d: "i = off + d" "d < m" using le_Suc_ex by fastforce
      moreover from this have "off + d < off + (length bs - tot)" using st(4) by linarith
      ultimately show ?thesis using w(5) [OF i] p(4) [OF i] in_block_add [OF st(3) d(2)] st(4) \<open>tot < length bs\<close>
        by (simp add: nth_slice)
    next
      case False
      then have "cbyte s2 (id_addrs ip1) i = cbyte s (id_addrs ip) i"
        using p(4) [OF i] grown_cbyte [OF b(4) i] unfolding in_block [OF st(3)] by auto
      then show ?thesis using False w(5) [OF i] by auto
    qed
    moreover have "nfree s \<le> nfree s' + 3 * blocks_of off (length bs - tot)" using w(6) st(1) b(6) nf by simp
    ultimately show ?thesis using w(3) by blast
  qed
qed

section \<open>Reading\<close>

text \<open>An output routine that stores bytes one after the other.\<close>

definition stores :: "'m copyout \<Rightarrow> (nat \<Rightarrow> byte list \<Rightarrow> 'm \<Rightarrow> 'm) \<Rightarrow> bool" where
  "stores out wr \<longleftrightarrow> (\<forall>d bs mem. out d bs mem = (wr d bs mem, Ok ())) \<and> (\<forall>d mem. wr d [] mem = mem) \<and>
     (\<forall>d xs ys mem. wr (d + length xs) ys (wr d xs mem) = wr d (xs @ ys) mem)"

lemma slice_cbytes:
  assumes "map_ok R A s" "off mod BSIZE + m \<le> BSIZE"
  shows "slice (off mod BSIZE) m (fs_blk s (addr_at (fs_blk s) A (dpos (off div BSIZE)))) = map (cbyte s A) [off..<off + m]"
proof (rule nth_equalityI)
  have len: "length (fs_blk s b) = BSIZE" for b using map_okD(7) [OF assms(1)] .
  then show "length (slice (off mod BSIZE) m (fs_blk s (addr_at (fs_blk s) A (dpos (off div BSIZE))))) =
      length (map (cbyte s A) [off..<off + m])" using assms(2) by simp
  fix k assume "k < length (slice (off mod BSIZE) m (fs_blk s (addr_at (fs_blk s) A (dpos (off div BSIZE)))))"
  then have k: "k < m" using assms(2) len by simp
  then have "(off + k) div BSIZE = off div BSIZE" "(off + k) mod BSIZE = off mod BSIZE + k"
    using in_block_add [OF assms(2)] by simp_all
  then show "slice (off mod BSIZE) m (fs_blk s (addr_at (fs_blk s) A (dpos (off div BSIZE)))) ! k = map (cbyte s A) [off..<off + m] ! k"
    using k len assms(2) by (simp add: nth_slice cbyte_def)
qed

lemma read_loop_ok:
  assumes "map_ok R (id_addrs ip) s" "stores out wr" "tot \<le> n" "off + (n - tot) \<le> MAXFILE * BSIZE"
  shows "read_loop out dst off tot n (ip, s) mem = (Ok n, wr dst (map (cbyte s (id_addrs ip)) [off..<off + (n - tot)]) mem)"
  using assms(3,4)
proof (induction "n - tot" arbitrary: tot off dst mem rule: less_induct)
  case less
  show ?case
  proof (cases "tot < n")
    case False
    then show ?thesis using less.prems assms(2) by (simp add: read_loop.simps stores_def)
  next
    case True
    define m where "m = min (n - tot) (BSIZE - off mod BSIZE)"
    have r: "0 < n - tot" using True by simp
    note st = blocks_of_step [OF r m_def]
    have bn: "off div BSIZE < MAXFILE" using less.prems(2) r by (intro block_of_byte) simp
    have small: "off div BSIZE mod 2 ^ 32 = off div BSIZE" using bn by (simp add: fs_consts)
    obtain a where a: "bmap (off div BSIZE) False (ip, s) = Ok (a, ip, s)"
        "unat a = addr_at (fs_blk s) (id_addrs ip) (dpos (off div BSIZE))"
      using bmap_lookup [OF assms(1) bn] by blast
    let ?bs = "map (cbyte s (id_addrs ip)) [off..<off + m]"
    have sl: "slice (off mod BSIZE) m (fs_blk s (unat a)) = ?bs" using slice_cbytes [OF assms(1) st(3)] a(2) by simp
    have "read_loop out dst off tot n (ip, s) mem = read_loop out (dst + m) (off + m) (tot + m) n (ip, s) (wr dst ?bs mem)"
      using True a(1) small sl assms(2) by (simp add: read_loop.simps [of out dst] m_def [symmetric] Let_def stores_def)
    also have "\<dots> = (Ok n, wr (dst + m) (map (cbyte s (id_addrs ip)) [off + m..<off + m + (n - (tot + m))]) (wr dst ?bs mem))"
      using st(2,4) r less.prems by (intro less.hyps) simp_all
    also have "wr (dst + m) (map (cbyte s (id_addrs ip)) [off + m..<off + m + (n - (tot + m))]) (wr dst ?bs mem) =
        wr dst (?bs @ map (cbyte s (id_addrs ip)) [off + m..<off + m + (n - (tot + m))]) mem"
      using assms(2) by (simp add: stores_def) (metis add_diff_cancel_left' length_map length_upt)
    also have "?bs @ map (cbyte s (id_addrs ip)) [off + m..<off + m + (n - (tot + m))] = map (cbyte s (id_addrs ip)) [off..<off + (n - tot)]"
      using st(4) True upt_add_eq_append [of off "off + m" "n - (tot + m)"] by (simp flip: map_append)
    finally show ?thesis .
  qed
qed

section \<open>Reading and writing files\<close>

lemma iupdate_keeps:
  assumes "map_ok R (id_addrs ip) s" "inum_ok ip s"
  shows "map_ok R (id_addrs ip) (iupdate ip s)" "others_kept R (unat (id_inum ip)) s (iupdate ip s)"
    "inum_ok ip (iupdate ip s)" "i < MAXFILE * BSIZE \<Longrightarrow> cbyte (iupdate ip s) (id_addrs ip) i = cbyte s (id_addrs ip) i"
    "nfree (iupdate ip s) = nfree s"
proof -
  note e = iupdate_effect [OF map_okD(1) [OF assms(1)] assms(2) map_okD(2) [OF assms(1)]]
  note k = map_ok_meta [OF assms(1) e(4,1,3) e(5)]
  show "map_ok R (id_addrs ip) (iupdate ip s)" using k(1) by blast
  show "others_kept R (unat (id_inum ip)) s (iupdate ip s)" using e k(4) by (simp add: others_kept_def)
  show "inum_ok ip (iupdate ip s)" using assms(2) e(1) by (simp add: inum_ok_def)
  show "i < MAXFILE * BSIZE \<Longrightarrow> cbyte (iupdate ip s) (id_addrs ip) i = cbyte s (id_addrs ip) i"
    using k(2,3) dpos_valid [OF block_of_byte, of i] by (simp add: cbyte_def)
  show "nfree (iupdate ip s) = nfree s" using e(1,3) by (simp add: nfree_def nbits_def)
qed

lemma size_u32: "n \<le> MAXFILE * BSIZE \<Longrightarrow> unat (of_nat n :: u32) = n"
  by (simp add: fs_consts unat_of_nat take_bit_eq_mod)

lemma nth_contents: "i < unat (id_size ip) \<Longrightarrow> contents ip s ! i = cbyte s (id_addrs ip) i"
  by (simp add: contents_def)

lemma inode_write_ok:
  assumes "file_ok R ip s" "delivers inp src bs" "unat off \<le> unat (id_size ip)" "unat off + length bs \<le> MAXFILE * BSIZE"
    and "3 * blocks_of (unat off) (length bs) \<le> nfree s"
  shows "\<exists>ip' s'. inode_write inp src off (length bs) (ip, s) = (Ok (length bs), ip', s') \<and> file_ok R ip' s' \<and>
    ip' = ip\<lparr>id_addrs := id_addrs ip', id_size := id_size ip'\<rparr> \<and> others_kept R (unat (id_inum ip)) s s' \<and>
    contents ip' s' = take (unat off) (contents ip s) @ bs @ drop (unat off + length bs) (contents ip s) \<and>
    nfree s \<le> nfree s' + 3 * blocks_of (unat off) (length bs)"
proof -
  let ?o = "unat off" and ?n = "length bs" and ?sz = "unat (id_size ip)"
  have f: "map_ok R (id_addrs ip) s" "inum_ok ip s" "?sz \<le> MAXFILE * BSIZE" using assms(1) by (simp_all add: file_ok_def)
  obtain ip1 s1 where w: "write_loop inp src ?o 0 ?n (ip, s) = (Ok (?o + ?n, ?n), ip1, s1)" "ip1 = ip\<lparr>id_addrs := id_addrs ip1\<rparr>"
      "map_ok R (id_addrs ip1) s1" "others_kept R (unat (id_inum ip)) s s1"
      "\<And>i. i < MAXFILE * BSIZE \<Longrightarrow> cbyte s1 (id_addrs ip1) i = (if ?o \<le> i \<and> i < ?o + ?n then bs ! (i - ?o) else cbyte s (id_addrs ip) i)"
      "nfree s \<le> nfree s1 + 3 * blocks_of ?o ?n"
    using write_loop_ok [OF f(1,2) assms(2), of 0 ?o] assms(4,5) by auto
  have i1: "id_inum ip1 = id_inum ip" "id_size ip1 = id_size ip" by (subst w(2), simp)+
  have small: "(?o + ?n) mod 2 ^ 64 = ?o + ?n" using assms(4) by (simp add: fs_consts)
  define st where "st = (if ?sz < ?o + ?n then set_size (of_nat (?o + ?n)) (ip1, s1) else (ip1, s1))"
  have res: "inode_write inp src off ?n (ip, s) = (Ok ?n, st)"
    using assms(3,4) w(1) small i1(2) by (simp add: inode_write_def st_def)
  define ip' s' where "ip' = fst st" and "s' = snd st"
  have inum: "inum_ok ip1 s1" using f(2) i1(1) w(4) by (simp add: inum_ok_def others_kept_def)
  have szo: "unat (of_nat (?o + ?n) :: u32) = ?o + ?n" by (rule size_u32 [OF assms(4)])
  have ip': "ip' = ip\<lparr>id_addrs := id_addrs ip1, id_size := id_size ip'\<rparr>" "id_addrs ip' = id_addrs ip1"
      "unat (id_size ip') = max ?sz (?o + ?n)"
    using w(2) szo i1(2) by (auto simp: ip'_def st_def set_size_def Let_def max_def)
  have s': "map_ok R (id_addrs ip1) s' \<and> others_kept R (unat (id_inum ip)) s s' \<and> inum_ok ip' s' \<and>
      (\<forall>i < MAXFILE * BSIZE. cbyte s' (id_addrs ip1) i = cbyte s1 (id_addrs ip1) i) \<and> nfree s' = nfree s1"
  proof (cases "?sz < ?o + ?n")
    case True
    let ?ip = "ip1\<lparr>id_size := of_nat (?o + ?n)\<rparr>"
    have "st = (?ip, iupdate ?ip s1)" using True by (simp add: st_def set_size_def Let_def)
    moreover note iupdate_keeps [of R ?ip s1]
    ultimately show ?thesis using w(3,4) inum i1(1) others_kept_trans [OF w(4)] by (simp add: ip'_def s'_def inum_ok_def)
  next
    case False
    then show ?thesis using w(3,4) inum by (simp add: ip'_def s'_def st_def)
  qed
  have "contents ip' s' = take ?o (contents ip s) @ bs @ drop (?o + ?n) (contents ip s)"
  proof (rule nth_equalityI)
    show "length (contents ip' s') = length (take ?o (contents ip s) @ bs @ drop (?o + ?n) (contents ip s))"
      using ip'(3) assms(3) by simp
    fix i assume "i < length (contents ip' s')"
    then have i: "i < max ?sz (?o + ?n)" "i < MAXFILE * BSIZE" using ip'(3) f(3) assms(4) by auto
    then have l: "contents ip' s' ! i = (if ?o \<le> i \<and> i < ?o + ?n then bs ! (i - ?o) else cbyte s (id_addrs ip) i)"
      using s' w(5) ip'(2,3) by (simp add: nth_contents)
    consider "i < ?o" | "?o \<le> i" "i < ?o + ?n" | "?o + ?n \<le> i" by linarith
    then show "contents ip' s' ! i = (take ?o (contents ip s) @ bs @ drop (?o + ?n) (contents ip s)) ! i"
    proof cases
      case 1
      then show ?thesis using l assms(3) by (simp add: nth_append nth_contents)
    next
      case 2
      then obtain d where "i = ?o + d" "d < ?n" using le_Suc_ex by fastforce
      then show ?thesis using l assms(3) by (simp add: nth_append)
    next
      case 3
      then have "i < ?sz" using i(1) by simp
      moreover obtain d where "i = ?o + ?n + d" using 3 le_Suc_ex by blast
      ultimately show ?thesis using l assms(3) by (simp add: nth_append nth_contents add.assoc)
    qed
  qed
  moreover have "file_ok R ip' s'" using s' ip'(2,3) f(3) assms(4) by (simp add: file_ok_def)
  ultimately show ?thesis using res s' ip'(1,2) w(6) by (intro exI [of _ ip'] exI [of _ s']) (simp add: ip'_def s'_def)
qed

text \<open>The contents depend on the inode's own blocks only.\<close>

lemma contents_cong:
  assumes "\<And>b. b \<in> own (fs_blk s) (id_addrs ip) \<Longrightarrow> fs_blk s' b = fs_blk s b" "length (id_addrs ip) = NDIRECT + 2"
    "unat (id_size ip) \<le> MAXFILE * BSIZE" "fs_blk s 0 = replicate BSIZE 0" "fs_blk s' 0 = replicate BSIZE 0"
  shows "contents ip s' = contents ip s"
proof -
  have "cbyte s' (id_addrs ip) i = cbyte s (id_addrs ip) i" if "i < MAXFILE * BSIZE" for i
  proof -
    let ?p = "dpos (i div BSIZE)"
    have v: "valid_pos ?p" by (rule dpos_valid [OF block_of_byte [OF that]])
    have "addr_at (fs_blk s') (id_addrs ip) ?p = addr_at (fs_blk s) (id_addrs ip) ?p"
      by (rule addr_at_cong [where blk = "fs_blk s"]) (use assms(1,2) v in auto)
    moreover have "fs_blk s' (addr_at (fs_blk s) (id_addrs ip) ?p) = fs_blk s (addr_at (fs_blk s) (id_addrs ip) ?p)"
      using assms(1) [OF own_memI [OF v]] assms(4,5) by (cases "addr_at (fs_blk s) (id_addrs ip) ?p = 0") auto
    ultimately show ?thesis by (simp add: cbyte_def)
  qed
  then show ?thesis using assms(3) by (auto simp: contents_def)
qed

lemma inode_write_refused:
  assumes "unat (id_size ip) < unat off \<or> MAXFILE * BSIZE < unat off + n" "unat off + n < 2 ^ 64"
  shows "inode_write inp src off n (ip, s) = (Err FileTooLarge, ip, s)"
  using assms by (auto simp: inode_write_def)

lemma inode_read_ok:
  assumes "file_ok R ip s" "stores out wr" "unat off + n < 2 ^ 64"
  shows "inode_read out dst off n (ip, s) mem =
    (Ok (length (slice (unat off) n (contents ip s))), wr dst (slice (unat off) n (contents ip s)) mem)"
proof (cases "unat (id_size ip) < unat off")
  case True
  then show ?thesis using assms(2) by (simp add: inode_read_def slice_def stores_def)
next
  case False
  define n' where "n' = min n (unat (id_size ip) - unat off)"
  have f: "map_ok R (id_addrs ip) s" "unat off + n' \<le> MAXFILE * BSIZE" using assms(1) False by (auto simp: file_ok_def n'_def)
  have "slice (unat off) n (contents ip s) = map (cbyte s (id_addrs ip)) [unat off..<unat off + n']"
    using False by (intro nth_equalityI) (auto simp: slice_def contents_def n'_def)
  moreover have "(if unat (id_size ip) < (unat off + n) mod 2 ^ 64 then unat (id_size ip) - unat off else n) = n'"
    using assms(3) False by (auto simp: n'_def)
  ultimately show ?thesis using False read_loop_ok [OF f(1) assms(2), of 0 n' "unat off" dst mem] f(2)
    by (simp add: inode_read_def Let_def)
qed

end
