(* ===== verification/Fs_Trunc.thy ===== *)
theory Fs_Trunc
  imports Fs_File
begin

text \<open>
  Truncation frees exactly the blocks of an inode: every address that its map reaches, index blocks
  included, each one once. The steps are lemmas about sets of positions that have been freed.
\<close>

section \<open>Freed positions\<close>

definition addrs_of :: "u32 list \<Rightarrow> fsys \<Rightarrow> pos set \<Rightarrow> nat set" where
  "addrs_of A s P = addr_at (fs_blk s) A ` P - {0}"

definition freed :: "fsys \<Rightarrow> nat set \<Rightarrow> fsys \<Rightarrow> bool" where
  "freed s X s' \<longleftrightarrow> geom_ok s' \<and> fs_sb s' = fs_sb s \<and> fs_ticks s' = fs_ticks s \<and> used s' = used s - X \<and>
     (\<forall>c. c \<notin> bitmap_area s \<longrightarrow> fs_blk s' c = fs_blk s c)"

lemma freed_refl: "geom_ok s \<Longrightarrow> freed s {} s"
  by (simp add: freed_def)

lemma freed_one:
  assumes "map_ok R A s" "freed s (addrs_of A s P) s1" "valid_pos q" "q \<notin> P" "P \<subseteq> Collect valid_pos"
    and "addr_at (fs_blk s) A q = a" "a \<noteq> 0"
  shows "\<exists>s2. bfree a s1 = Ok s2 \<and> freed s (addrs_of A s (insert q P)) s2"
proof -
  note m = map_okD [OF assms(1)]
  have s1: "geom_ok s1" "fs_sb s1 = fs_sb s" "used s1 = used s - addrs_of A s P" using assms(2) by (simp_all add: freed_def)
  have same: "nbits s1 = nbits s" "nmeta s1 = nmeta s" "bitmap_area s1 = bitmap_area s"
    using s1(2) by (simp_all add: nbits_def nmeta_def bitmap_area_def)
  have a: "a \<in> used s" "nmeta s \<le> a" using m(8) [OF assms(3)] assms(6,7) by auto
  have "a \<notin> addrs_of A s P"
  proof
    assume "a \<in> addrs_of A s P"
    then obtain p where "p \<in> P" "addr_at (fs_blk s) A p = a" by (auto simp: addrs_of_def)
    then show False using m(9) [of p q] assms(3-7) by auto
  qed
  then have "a \<in> used s1" using a(1) s1(3) by simp
  then obtain s2 where "bfree a s1 = Ok s2" "used s2 = used s1 - {a}" "fs_sb s2 = fs_sb s1" "fs_ticks s2 = fs_ticks s1"
      "geom_ok s2" "\<forall>c. c \<notin> bitmap_area s1 \<longrightarrow> fs_blk s2 c = fs_blk s1 c"
    using bfree_cases(2) [OF s1(1) used_less] a(2) same(2) by metis
  moreover have "addrs_of A s (insert q P) = insert a (addrs_of A s P)" using assms(6,7) by (auto simp: addrs_of_def)
  ultimately show ?thesis using assms(2) same s1 by (auto simp: freed_def)
qed

lemma free_addrs_pos:
  assumes "map_ok R A s" "freed s (addrs_of A s P) s1" "set qs \<subseteq> Collect valid_pos" "distinct qs" "set qs \<inter> P = {}"
    "P \<subseteq> Collect valid_pos" "map unat ws = map (addr_at (fs_blk s) A) qs"
  shows "\<exists>s2. free_addrs ws s1 = Ok s2 \<and> freed s (addrs_of A s (P \<union> set qs)) s2"
  using assms(2-)
proof (induction qs arbitrary: ws P s1)
  case Nil
  then show ?case by simp
next
  case (Cons q qs)
  obtain w ws' where ws: "ws = w # ws'" "unat w = addr_at (fs_blk s) A q" "map unat ws' = map (addr_at (fs_blk s) A) qs"
    using Cons.prems(6) by (cases ws) auto
  show ?case
  proof (cases "w = 0")
    case True
    then have "addrs_of A s (insert q P) = addrs_of A s P" using ws(2) by (auto simp: addrs_of_def)
    then have "\<exists>s2. free_addrs ws' s1 = Ok s2 \<and> freed s (addrs_of A s (insert q P \<union> set qs)) s2"
      using Cons.prems ws(3) by (intro Cons.IH) auto
    then show ?thesis using True ws(1) by simp
  next
    case False
    then have a: "unat w \<noteq> 0" by (simp add: unat_eq_zero)
    obtain s2 where s2: "bfree (unat w) s1 = Ok s2" "freed s (addrs_of A s (insert q P)) s2"
      using freed_one [OF assms(1) Cons.prems(1) _ _ Cons.prems(5) ws(2) [symmetric] a] Cons.prems(2,4) by auto
    have "\<exists>s3. free_addrs ws' s2 = Ok s3 \<and> freed s (addrs_of A s (insert q P \<union> set qs)) s3"
      using Cons.prems s2(2) ws(3) by (intro Cons.IH) auto
    then show ?thesis using False s2(1) ws(1) by (simp add: word_greater_zero_iff)
  qed
qed

text \<open>The positions of an index block and of the entries below it.\<close>

definition family :: "pos \<Rightarrow> pos set" where
  "family p = insert p (child p ` {..<NINDIRECT})"

lemma data_block_kept:
  assumes "map_ok R A s" "freed s X s1" "valid_pos p"
  shows "fs_blk s1 (addr_at (fs_blk s) A p) = fs_blk s (addr_at (fs_blk s) A p)"
proof -
  have "addr_at (fs_blk s) A p \<notin> bitmap_area s"
    using map_okD(8) [OF assms(1,3)] bitmap_area_meta [OF map_okD(1) [OF assms(1)], of "addr_at (fs_blk s) A p"]
    by (cases "addr_at (fs_blk s) A p = 0") auto
  then show ?thesis using assms(2) by (simp add: freed_def)
qed

lemma map_slots: "map unat (slots bp) = map (\<lambda>k. unat (slot bp k)) [0..<NINDIRECT]"
  by (simp add: slots_def)

lemma free_indirect_pos:
  assumes "map_ok R A s" "freed s (addrs_of A s P) s1" "is_index p" "family p \<inter> P = {}" "P \<subseteq> Collect valid_pos"
    and "unat w = addr_at (fs_blk s) A p"
  shows "\<exists>s2. free_indirect w s1 = Ok s2 \<and> freed s (addrs_of A s (P \<union> family p)) s2"
proof (cases "w = 0")
  case True
  then have "addr_at (fs_blk s) A q = 0" if "q \<in> family p" for q
    using that assms(6) by (auto simp: family_def addr_at_child [OF assms(3)] slot_in_def)
  then have "addrs_of A s (P \<union> family p) = addrs_of A s P" by (auto simp: addrs_of_def)
  then show ?thesis using True assms(2) by (simp add: free_indirect_def)
next
  case False
  let ?qs = "map (child p) [0..<NINDIRECT]"
  have a: "unat w \<noteq> 0" using False by (simp add: unat_eq_zero)
  have blk: "fs_blk s1 (unat w) = fs_blk s (unat w)"
    using data_block_kept [OF assms(1,2) is_index_valid [OF assms(3)]] assms(6) by simp
  have ws: "map unat (slots (fs_blk s1 (unat w))) = map (addr_at (fs_blk s) A) ?qs"
    using a by (simp add: map_slots blk addr_at_child [OF assms(3)] slot_in_def assms(6) [symmetric])
  have set: "set ?qs \<subseteq> family p" by (auto simp: family_def)
  have "distinct ?qs" using child_inject [OF assms(3,3)] by (auto simp: distinct_map inj_on_def)
  moreover have v: "set ?qs \<subseteq> Collect valid_pos" using child_valid [OF assms(3)] by auto
  moreover have "set ?qs \<inter> P = {}" using set assms(4) by blast
  ultimately obtain s2 where s2: "free_addrs (slots (fs_blk s1 (unat w))) s1 = Ok s2" "freed s (addrs_of A s (P \<union> set ?qs)) s2"
    using free_addrs_pos [OF assms(1,2) v _ _ assms(5) ws] by blast
  have "p \<notin> set ?qs" using child_not_root [OF assms(3)] assms(3) by (cases p) auto
  then have "p \<notin> P \<union> set ?qs" using assms(4) by (auto simp: family_def)
  moreover have "P \<union> set ?qs \<subseteq> Collect valid_pos" using assms(5) v by blast
  ultimately obtain s3 where s3: "bfree (unat w) s2 = Ok s3" "freed s (addrs_of A s (insert p (P \<union> set ?qs))) s3"
    using freed_one [OF assms(1) s2(2) is_index_valid [OF assms(3)] _ _ assms(6) [symmetric] a] by blast
  moreover have "insert p (P \<union> set ?qs) = P \<union> family p" by (auto simp: family_def)
  ultimately show ?thesis using s2(1) False by (simp add: free_indirect_def word_greater_zero_iff)
qed

lemma free_indirects_pos:
  assumes "map_ok R A s" "freed s (addrs_of A s P) s1" "\<forall>p \<in> set ps. is_index p" "\<forall>p \<in> set ps. family p \<inter> P = {}"
    "P \<subseteq> Collect valid_pos" "map unat ws = map (addr_at (fs_blk s) A) ps" "distinct ps"
    "\<forall>p \<in> set ps. \<forall>q \<in> set ps. p \<noteq> q \<longrightarrow> family p \<inter> family q = {}"
  shows "\<exists>s2. free_indirects ws s1 = Ok s2 \<and> freed s (addrs_of A s (P \<union> \<Union> (family ` set ps))) s2"
  using assms(2-)
proof (induction ps arbitrary: ws P s1)
  case Nil
  then show ?case by simp
next
  case (Cons p ps)
  obtain w ws' where ws: "ws = w # ws'" "unat w = addr_at (fs_blk s) A p" "map unat ws' = map (addr_at (fs_blk s) A) ps"
    using Cons.prems(5) by (cases ws) auto
  obtain s2 where s2: "free_indirect w s1 = Ok s2" "freed s (addrs_of A s (P \<union> family p)) s2"
    using free_indirect_pos [OF assms(1) Cons.prems(1) _ _ Cons.prems(4) ws(2)] Cons.prems(2,3) by auto
  have "family p \<subseteq> Collect valid_pos" using Cons.prems(2) is_index_valid child_valid by (auto simp: family_def)
  moreover have "family q \<inter> (P \<union> family p) = {}" if "q \<in> set ps" for q
  proof -
    have "q \<noteq> p" using that Cons.prems(6) by auto
    then have "family q \<inter> family p = {}" "family q \<inter> P = {}" using that Cons.prems(3,7) by auto
    then show ?thesis by blast
  qed
  ultimately have "\<exists>s3. free_indirects ws' s2 = Ok s3 \<and> freed s (addrs_of A s (P \<union> family p \<union> \<Union> (family ` set ps))) s3"
    using Cons.prems s2(2) ws(3) by (intro Cons.IH) auto
  then show ?case using s2(1) ws(1) by (simp add: Un_assoc)
qed

section \<open>The whole map\<close>

definition doubles :: "pos set" where
  "doubles = insert (PRoot (NDIRECT + 1)) (\<Union> (family ` PDbl ` {..<NINDIRECT}))"

lemma valid_positions:
  "Collect valid_pos = PRoot ` {..<NDIRECT} \<union> family (PRoot NDIRECT) \<union> doubles"
proof (rule set_eqI)
  fix p
  show "p \<in> Collect valid_pos \<longleftrightarrow> p \<in> PRoot ` {..<NDIRECT} \<union> family (PRoot NDIRECT) \<union> doubles"
    by (cases p) (auto simp: family_def doubles_def)
qed

lemma free_double_pos:
  assumes "map_ok R A s" "freed s (addrs_of A s P) s1" "doubles \<inter> P = {}" "P \<subseteq> Collect valid_pos"
    and w: "unat w = addr_at (fs_blk s) A (PRoot (NDIRECT + 1))"
  shows "\<exists>s2. free_double w s1 = Ok s2 \<and> freed s (addrs_of A s (P \<union> doubles)) s2"
proof (cases "w = 0")
  case True
  then have "addr_at (fs_blk s) A q = 0" if "q \<in> doubles" for q
    using that w by (auto simp: doubles_def family_def slot_in_def)
  then have "addrs_of A s (P \<union> doubles) = addrs_of A s P" by (auto simp: addrs_of_def)
  then show ?thesis using True assms(2) by (simp add: free_double_def)
next
  case False
  let ?r = "PRoot (NDIRECT + 1)" and ?ps = "map PDbl [0..<NINDIRECT]"
  have a: "unat w \<noteq> 0" using False by (simp add: unat_eq_zero)
  have "fs_blk s1 (unat w) = fs_blk s (unat w)" using data_block_kept [OF assms(1,2), of ?r] w by simp
  then have ws: "map unat (slots (fs_blk s1 (unat w))) = map (addr_at (fs_blk s) A) ?ps"
    using a w by (simp add: map_slots slot_in_def)
  have f: "\<Union> (family ` set ?ps) = doubles - {?r}" by (auto simp: doubles_def family_def)
  have "\<forall>p \<in> set ?ps. family p \<inter> P = {}" using assms(3) f by blast
  moreover have "distinct ?ps" "\<forall>p \<in> set ?ps. is_index p" by (auto simp: distinct_map inj_on_def)
  moreover have "\<forall>p \<in> set ?ps. \<forall>q \<in> set ?ps. p \<noteq> q \<longrightarrow> family p \<inter> family q = {}" by (auto simp: family_def)
  ultimately obtain s2 where s2: "free_indirects (slots (fs_blk s1 (unat w))) s1 = Ok s2"
      "freed s (addrs_of A s (P \<union> (doubles - {?r}))) s2"
    using free_indirects_pos [OF assms(1,2) _ _ assms(4) ws] f by auto
  have "?r \<in> doubles" by (simp add: doubles_def)
  then have "?r \<notin> P \<union> (doubles - {?r})" "insert ?r (P \<union> (doubles - {?r})) = P \<union> doubles"
      "P \<union> (doubles - {?r}) \<subseteq> Collect valid_pos"
    using assms(3,4) valid_positions by auto
  then obtain s3 where "bfree (unat w) s2 = Ok s3" "freed s (addrs_of A s (P \<union> doubles)) s3"
    using freed_one [OF assms(1) s2(2) _ _ _ w [symmetric] a] by auto
  then show ?thesis using s2(1) False by (simp add: free_double_def word_greater_zero_iff)
qed

lemma trunc_ok:
  assumes "file_ok R ip s"
  shows "\<exists>ip' s'. trunc (ip, s) = Ok (ip', s') \<and> file_ok R ip' s' \<and> contents ip' s' = [] \<and>
    used s' = used s - own (fs_blk s) (id_addrs ip) \<and> own (fs_blk s') (id_addrs ip') = {} \<and>
    others_kept R (unat (id_inum ip)) s s' \<and> id_inum ip' = id_inum ip \<and> id_dev ip' = id_dev ip"
proof -
  let ?A = "id_addrs ip" and ?D = "PRoot ` {..<NDIRECT}" and ?I = "family (PRoot NDIRECT)"
  have f: "map_ok R ?A s" "inum_ok ip s" using assms by (simp_all add: file_ok_def)
  note m = map_okD [OF f(1)]
  have ws: "map unat (take NDIRECT ?A) = map (addr_at (fs_blk s) ?A) (map PRoot [0..<NDIRECT])"
    using m(2) by (intro nth_equalityI) auto
  have v: "?D \<subseteq> Collect valid_pos" "?D \<union> ?I \<subseteq> Collect valid_pos" unfolding valid_positions by auto
  have "freed s (addrs_of ?A s {}) s" using freed_refl [OF m(1)] by (simp add: addrs_of_def)
  then obtain s1 where s1: "free_addrs (take NDIRECT ?A) s = Ok s1" "freed s (addrs_of ?A s ?D) s1"
    using free_addrs_pos [OF f(1) _ _ _ _ _ ws, of "{}" s] v(1) by (auto simp: distinct_map inj_on_def lessThan_atLeast0)
  have "?I \<inter> ?D = {}" by (auto simp: family_def)
  then obtain s2 where s2: "free_indirect (?A ! NDIRECT) s1 = Ok s2" "freed s (addrs_of ?A s (?D \<union> ?I)) s2"
    using free_indirect_pos [OF f(1) s1(2), of "PRoot NDIRECT" "?A ! NDIRECT"] v(1) by auto
  have "doubles \<inter> (?D \<union> ?I) = {}" by (auto simp: family_def doubles_def)
  then obtain s3 where s3: "free_double (?A ! (NDIRECT + 1)) s2 = Ok s3" "freed s (addrs_of ?A s (Collect valid_pos)) s3"
    using free_double_pos [OF f(1) s2(2) _ v(2), of "?A ! (NDIRECT + 1)"] unfolding valid_positions by auto
  have own: "addrs_of ?A s (Collect valid_pos) = own (fs_blk s) ?A" by (auto simp: addrs_of_def own_def)
  have g: "geom_ok s3" "fs_sb s3 = fs_sb s" "fs_ticks s3 = fs_ticks s" "used s3 = used s - own (fs_blk s) ?A"
      "\<And>c. c \<notin> bitmap_area s \<Longrightarrow> fs_blk s3 c = fs_blk s c"
    using s3(2) own by (simp_all add: freed_def)
  define ip' where "ip' = ip\<lparr>id_addrs := replicate (NDIRECT + 2) 0, id_size := 0, id_mtime := fs_ticks s3, id_ctime := fs_ticks s3\<rparr>"
  have res: "trunc (ip, s) = Ok (ip', iupdate ip' s3)"
    using s1(1) s2(1) s3(1) by (simp add: trunc_def ip'_def Let_def)
  have none: "addr_at blk (replicate (NDIRECT + 2) 0) p = 0" if "valid_pos p" for p blk
    using that by (cases p) (simp_all add: slot_in_def nth_append del: replicate_Suc)
  have nb: "b \<notin> bitmap_area s" if "b \<in> R \<or> b = 0 \<or> b \<in> inode_area s" for b
    using that m(5) bitmap_area_meta [OF m(1), of b] by auto
  have ok3: "map_ok R (id_addrs ip') s3"
    using g m(1-6) nb none by (auto simp: map_ok_def ip'_def own_def nmeta_def nbits_def simp del: replicate_Suc replicate_add)
  have i3: "inum_ok ip' s3" using f(2) g(2) by (simp add: inum_ok_def ip'_def)
  note k = iupdate_keeps [OF ok3 i3]
  have "others_kept R (unat (id_inum ip)) s s3"
    using g nb same_other_inodes [OF m(1) g(2)] by (auto simp: others_kept_def)
  moreover have "used (iupdate ip' s3) = used s3" using iupdate_effect(3) [OF g(1) i3 map_okD(2) [OF ok3]] .
  moreover have "own (fs_blk (iupdate ip' s3)) (id_addrs ip') = {}" using none by (auto simp: own_def ip'_def)
  ultimately show ?thesis using res k others_kept_trans [OF _ k(2)] g(4)
    by (auto simp: file_ok_def contents_def ip'_def)
qed

end
