(* ===== verification/Fs_Spec.thy ===== *)
theory Fs_Spec
  imports Fs_Trunc
begin

text \<open>
  What the layer of files promises: the properties of block allocation, reading, writing and
  truncation, and a small file system on which they are evaluated.
\<close>

section \<open>A small file system\<close>

text \<open>64 blocks: two of them inode blocks, block 4 the bitmap, the blocks from 5 on free.\<close>

definition demo_sb :: superblock where
  "demo_sb = \<lparr>sb_magic = FSMAGIC, sb_size = 64, sb_nblocks = 59, sb_ninodes = 8, sb_nlog = 0, sb_logstart = 2,
     sb_inodestart = 2, sb_bmapstart = 4\<rparr>"

definition demo_fs :: fsys where
  "demo_fs = \<lparr>fs_blk = (\<lambda>b. if b = 4 then 0x1F # replicate (BSIZE - 1) 0 else replicate BSIZE 0), fs_log = [], fs_sb = demo_sb, fs_ticks = 7\<rparr>"

definition demo_ip :: idata where
  "demo_ip = (idata_new 1 3)\<lparr>id_valid := True, id_type := FFile\<rparr>"

lemma demo_used: "used demo_fs = {..<5}"
proof (rule set_eqI)
  fix b
  have bits: "bit (0x1F :: byte) k \<longleftrightarrow> k < 5" for k
    using bit_mask_iff [of 5 k, where ?'a = byte] by (auto simp: mask_eq_exp_minus_1)
  show "b \<in> used demo_fs \<longleftrightarrow> b \<in> {..<5}"
  proof (cases "b < 64")
    case True
    then have "b div 8192 = 0" "b mod 8192 = b" by simp_all
    moreover have "b div 8 < 1024" "b div 8 = 0 \<longleftrightarrow> b < 8" using True by (simp, presburger)
    moreover have "b < 8 \<Longrightarrow> b mod 8 = b" by simp
    ultimately show ?thesis using True bits [of b]
      by (auto simp: used_def nbits_def bmap_blk_def demo_fs_def demo_sb_def BPB_def BSIZE_def nth_Cons')
  next
    case False
    then show ?thesis by (simp add: used_def nbits_def demo_fs_def demo_sb_def)
  qed
qed

lemma demo_nmeta: "nmeta demo_fs = 5" "nbits demo_fs = 64"
  by (simp_all add: nmeta_def nbits_def demo_fs_def demo_sb_def BPB_def BSIZE_def)

lemma demo_geom: "geom_ok demo_fs"
  using demo_used demo_nmeta
  by (simp add: geom_ok_def lessThan_iff) (auto simp: demo_fs_def demo_sb_def IPB_def BSIZE_def DINODE_SIZE_def)

lemma no_addrs: "valid_pos p \<Longrightarrow> addr_at blk (replicate (NDIRECT + 2) 0) p = 0"
  by (cases p) (simp_all add: slot_in_def nth_append del: replicate_Suc)

lemma demo_file: "file_ok {} demo_ip demo_fs"
proof -
  have a: "id_addrs demo_ip = replicate (NDIRECT + 2) 0" by (simp add: demo_ip_def idata_new_def)
  have "map_ok {} (replicate (NDIRECT + 2) 0) demo_fs"
    using demo_geom no_addrs by (auto simp: map_ok_def own_def simp del: replicate_Suc replicate_add) (simp add: demo_fs_def)
  then show ?thesis using a
    by (simp add: file_ok_def inum_ok_def del: replicate_Suc replicate_add) (simp add: demo_ip_def idata_new_def demo_fs_def demo_sb_def)
qed

lemma demo_nfree: "nfree demo_fs = 59"
proof -
  have "{..<nbits demo_fs} - used demo_fs = {5..<64}" by (auto simp: demo_used demo_nmeta)
  then show ?thesis by (simp add: nfree_def)
qed

section \<open>Blocks\<close>

text \<open>
  The block allocator. \<^verbatim>\<open>balloc\<close> panics exactly when no block is free; otherwise it
  returns the first free block, which lies behind the metadata, marks it and nothing else as used, and
  clears it without touching any other data block. \<^verbatim>\<open>bfree\<close> of it makes it free again.
\<close>

lemma balloc_bfree:
  assumes "geom_ok s"
  shows "balloc s = Panic \<and> nfree s = 0 \<or>
    (\<exists>b s' s''. balloc s = Ok (b, s') \<and> b \<notin> used s \<and> (\<forall>c < b. c \<in> used s) \<and> nmeta s \<le> b \<and> b < nbits s \<and>
      used s' = insert b (used s) \<and> fs_blk s' b = replicate BSIZE 0 \<and> geom_ok s' \<and>
      (\<forall>c. c \<noteq> b \<longrightarrow> c \<notin> bitmap_area s \<longrightarrow> fs_blk s' c = fs_blk s c) \<and>
      bfree b s' = Ok s'' \<and> used s'' = used s \<and> geom_ok s'')"
proof (rule disjE [OF balloc_cases [OF assms]])
  assume "balloc s = Panic \<and> {..<nbits s} \<subseteq> used s"
  then show ?thesis by (simp add: nfree_def Diff_eq_empty_iff [THEN iffD2])
next
  assume "\<exists>b s'. balloc s = Ok (b, s') \<and> taken s b s' \<and> (\<forall>c < b. c \<in> used s)"
  then obtain b s' where b: "balloc s = Ok (b, s')" "taken s b s'" "\<forall>c < b. c \<in> used s" by blast
  have t: "geom_ok s'" "b \<in> used s'" "nmeta s' \<le> b" "used s' = insert b (used s)" "b \<notin> used s"
    using b(2) by (auto simp: taken_def nmeta_def nbits_def)
  then obtain s'' where "bfree b s' = Ok s''" "used s'' = used s" "geom_ok s''"
    using bfree_cases(2) [OF t(1) used_less t(2)] by auto
  then show ?thesis using b by (auto simp: taken_def)
qed

section \<open>Files\<close>

lemma others_contents:
  assumes "file_ok R ip s" "file_ok R ip' s'" "others_kept R i s s'" "length (id_addrs ip2) = NDIRECT + 2"
    "unat (id_size ip2) \<le> MAXFILE * BSIZE" "own (fs_blk s) (id_addrs ip2) \<subseteq> R"
  shows "contents ip2 s' = contents ip2 s"
  by (rule contents_cong) (use assms in \<open>auto simp: others_kept_def file_ok_def map_ok_def\<close>)


definition demo_in :: copyin where
  "demo_in src n = (slice src n [1, 2, 3], Ok ())"

lemma demo_delivers: "delivers demo_in 0 [1, 2, 3]"
  by (simp add: delivers_def demo_in_def)

lemma demo_contents: "contents demo_ip demo_fs = []"
  by (simp add: contents_def demo_ip_def idata_new_def)

lemma demo_room: "3 * blocks_of (unat (0 :: u32)) (length [1 :: byte, 2, 3]) \<le> nfree demo_fs"
  by (simp add: demo_nfree blocks_of_def BSIZE_def)

lemma demo_written: "\<exists>ip s. file_ok {} ip s \<and> contents ip s = [1, 2, 3]"
  using inode_write_ok [OF demo_file demo_delivers _ _ demo_room] by (auto simp: demo_contents MAXFILE_def BSIZE_def NDIRECT_def)


text \<open>
  C12. Reading a file. \<^verbatim>\<open>read\<close> delivers the bytes from the offset on, at most as many as
  were asked for and none behind the end of the file, in order and to consecutive addresses, and it
  returns their number; a read that starts behind the end delivers nothing.
\<close>

theorem inode_read_contents:
  assumes "file_ok R ip s" "stores out wr" "unat off + n < 2 ^ 64"
  shows "inode_read out dst off n (ip, s) mem =
    (Ok (min n (unat (id_size ip) - unat off)), wr dst (take n (drop (unat off) (contents ip s))) mem)"
  using inode_read_ok [OF assms] by (simp add: slice_def min.commute)

definition demo_out :: "(nat \<Rightarrow> byte) copyout" where
  "demo_out d bs mem = (\<lambda>a. if d \<le> a \<and> a < d + length bs then bs ! (a - d) else mem a, Ok ())"

lemma demo_stores: "stores demo_out (\<lambda>d bs mem. fst (demo_out d bs mem))"
  by (auto simp: stores_def demo_out_def fun_eq_iff nth_append)

theorem inode_read_contents_witness:
  "\<exists>ip s. contents ip s = [1, 2, 3] \<and> inode_read demo_out 100 1 10 (ip, s) (\<lambda>_. 0) = (Ok 2, \<lambda>a. if a = 100 then 2 else if a = 101 then 3 else 0)"
proof -
  obtain ip s where f: "file_ok {} ip s" "contents ip s = [1, 2, 3]" using demo_written by blast
  have z: "unat (id_size ip) = 3" using arg_cong [OF f(2), of length] by simp
  have "inode_read demo_out 100 1 10 (ip, s) (\<lambda>_. 0) = (Ok (min 10 (unat (id_size ip) - unat (1 :: u32))),
      fst (demo_out 100 (take 10 (drop (unat (1 :: u32)) (contents ip s))) (\<lambda>_. 0)))"
    by (rule inode_read_contents [OF f(1) demo_stores]) simp
  then show ?thesis using f(2) z
    by (intro exI [of _ ip] exI [of _ s]) (auto simp: demo_out_def fun_eq_iff nth_Cons' le_Suc_eq)
qed

text \<open>
  C13. Truncation. \<^verbatim>\<open>trunc\<close> gives back exactly the blocks the inode owns, the data and the index
  blocks of all levels, each once; the file is empty afterwards, the blocks and the contents of the
  other inodes are as before.
\<close>

theorem trunc_frees:
  assumes "file_ok R ip s"
  shows "\<exists>ip' s'. trunc (ip, s) = Ok (ip', s') \<and> file_ok R ip' s' \<and> contents ip' s' = [] \<and>
    used s' = used s - own (fs_blk s) (id_addrs ip) \<and> own (fs_blk s') (id_addrs ip') = {} \<and>
    (\<forall>ip2. length (id_addrs ip2) = NDIRECT + 2 \<longrightarrow> unat (id_size ip2) \<le> MAXFILE * BSIZE \<longrightarrow>
      own (fs_blk s) (id_addrs ip2) \<subseteq> R \<longrightarrow> contents ip2 s' = contents ip2 s)"
proof -
  obtain ip' s' where t: "trunc (ip, s) = Ok (ip', s')" "file_ok R ip' s'" "contents ip' s' = []"
      "used s' = used s - own (fs_blk s) (id_addrs ip)" "own (fs_blk s') (id_addrs ip') = {}"
      "others_kept R (unat (id_inum ip)) s s'"
    using trunc_ok [OF assms] by blast
  then show ?thesis using others_contents [OF assms t(2,6)] by blast
qed

theorem trunc_frees_witness:
  "\<exists>ip s ip' s'. contents ip s = [1, 2, 3] \<and> 0 \<in> used s \<and> trunc (ip, s) = Ok (ip', s') \<and> contents ip' s' = []"
proof -
  obtain ip s where f: "file_ok {} ip s" "contents ip s = [1, 2, 3]" using demo_written by blast
  have "0 \<in> used s" using f(1) by (auto simp: file_ok_def map_ok_def geom_ok_def nmeta_def)
  then show ?thesis using trunc_frees [OF f(1)] f(2) by blast
qed

end
