(* ===== verification/Str.thy ===== *)
theory Str
  imports Bytes
begin

text \<open>
  Strings of the source as the lists of their UTF-8 bytes, with the operations of \<^verbatim>\<open>str\<close>
  that the kernel and the user library apply. All patterns they search for are ASCII characters, so
  that searching bytes and searching characters agree.
\<close>

type_synonym rstr = "byte list"

definition of_lit :: "string \<Rightarrow> rstr" where
  "of_lit cs = map of_char cs"

abbreviation SLASH :: byte where "SLASH \<equiv> 0x2F"
abbreviation DOT :: byte where "DOT \<equiv> 0x2E"

definition in_range :: "byte \<Rightarrow> byte \<Rightarrow> byte \<Rightarrow> bool" where
  "in_range a b x \<longleftrightarrow> a \<le> x \<and> x \<le> b"

text \<open>Well-formed UTF-8, as \<^verbatim>\<open>core::str::from_utf8\<close> accepts it.\<close>

fun utf8_ok :: "byte list \<Rightarrow> bool" where
  "utf8_ok [] = True"
| "utf8_ok (a # s) =
     (if a < 0x80 then utf8_ok s
      else if in_range 0xC2 0xDF a then
        (case s of b # s' \<Rightarrow> in_range 0x80 0xBF b \<and> utf8_ok s' | _ \<Rightarrow> False)
      else if in_range 0xE0 0xEF a then
        (case s of b # c # s' \<Rightarrow>
           in_range (if a = 0xE0 then 0xA0 else 0x80) (if a = 0xED then 0x9F else 0xBF) b \<and> in_range 0x80 0xBF c \<and> utf8_ok s'
         | _ \<Rightarrow> False)
      else if in_range 0xF0 0xF4 a then
        (case s of b # c # d # s' \<Rightarrow>
           in_range (if a = 0xF0 then 0x90 else 0x80) (if a = 0xF4 then 0x8F else 0xBF) b \<and>
           in_range 0x80 0xBF c \<and> in_range 0x80 0xBF d \<and> utf8_ok s'
         | _ \<Rightarrow> False)
      else False)"

definition trim_start :: "'a \<Rightarrow> 'a list \<Rightarrow> 'a list" where
  "trim_start c s = dropWhile (\<lambda>x. x = c) s"

definition trim_end :: "'a \<Rightarrow> 'a list \<Rightarrow> 'a list" where
  "trim_end c s = rev (dropWhile (\<lambda>x. x = c) (rev s))"

definition trim_matches :: "'a \<Rightarrow> 'a list \<Rightarrow> 'a list" where
  "trim_matches c s = trim_end c (trim_start c s)"

fun split_once :: "'a \<Rightarrow> 'a list \<Rightarrow> ('a list \<times> 'a list) option" where
  "split_once c [] = None"
| "split_once c (x # xs) = (if x = c then Some ([], xs) else map_option (\<lambda>(a, b). (x # a, b)) (split_once c xs))"

definition rsplit_once :: "'a \<Rightarrow> 'a list \<Rightarrow> ('a list \<times> 'a list) option" where
  "rsplit_once c s = map_option (\<lambda>(a, b). (rev b, rev a)) (split_once c (rev s))"

definition starts_with :: "'a list \<Rightarrow> 'a list \<Rightarrow> bool" where
  "starts_with p s \<longleftrightarrow> take (length p) s = p"

definition ends_with :: "'a list \<Rightarrow> 'a list \<Rightarrow> bool" where
  "ends_with p s \<longleftrightarrow> starts_with (rev p) (rev s)"

lemma length_trim_matches: "length (trim_matches c s) \<le> length s"
proof -
  have "length (trim_matches c s) \<le> length (trim_start c s)"
    unfolding trim_matches_def trim_end_def length_rev by (rule order_trans [OF length_dropWhile_le]) simp
  then show ?thesis using length_dropWhile_le [of "\<lambda>x. x = c" s] by (simp add: trim_start_def)
qed

lemma trim_matches_id: "c \<notin> set s \<Longrightarrow> trim_matches c s = s"
proof -
  assume c: "c \<notin> set s"
  then have a: "dropWhile (\<lambda>x. x = c) s = s" by (cases s) auto
  from c have "dropWhile (\<lambda>x. x = c) (rev s) = rev s" by (cases s rule: rev_cases) auto
  then show ?thesis using a by (simp add: trim_matches_def trim_start_def trim_end_def)
qed

lemma trim_end_replicate: "c \<notin> set s \<Longrightarrow> trim_end c (s @ replicate n c) = s"
proof -
  assume c: "c \<notin> set s"
  have "dropWhile (\<lambda>x. x = c) (replicate n c @ rev s) = rev s"
    using c by (induction n) (auto simp: dropWhile_eq_self_iff hd_rev)
  then show ?thesis by (simp add: trim_end_def)
qed

lemma trim_matches_padded: "c \<notin> set s \<Longrightarrow> trim_matches c (s @ replicate n c) = s"
proof (cases s)
  case Nil
  then show ?thesis by (simp add: trim_matches_def trim_start_def trim_end_def dropWhile_replicate)
next
  case (Cons x xs)
  assume "c \<notin> set s"
  then have "x \<noteq> c" "trim_end c (s @ replicate n c) = s" using Cons trim_end_replicate [of c s n] by auto
  then show ?thesis using Cons by (simp add: trim_matches_def trim_start_def)
qed

lemma split_once_Some:
  "split_once c s = Some (a, b) \<longleftrightarrow> s = a @ c # b \<and> c \<notin> set a"
proof (induction s arbitrary: a)
  case (Cons x xs)
  show ?case
  proof (cases "x = c")
    case True
    then show ?thesis by (cases a) auto
  next
    case False
    then show ?thesis using Cons by (cases a) auto
  qed
qed simp

lemma split_once_None: "split_once c s = None \<longleftrightarrow> c \<notin> set s"
  by (induction s) auto

lemma rsplit_once_Some: "rsplit_once c s = Some (a, b) \<longleftrightarrow> s = a @ c # b \<and> c \<notin> set b"
  by (auto simp: rsplit_once_def split_once_Some rev_swap)

lemma rsplit_once_None: "rsplit_once c s = None \<longleftrightarrow> c \<notin> set s"
  by (simp add: rsplit_once_def split_once_None)

lemma utf8_append: "utf8_ok s \<Longrightarrow> utf8_ok t \<Longrightarrow> utf8_ok (s @ t)"
proof (induction s rule: utf8_ok.induct)
  case (2 a s)
  note ih = "2.IH" and ok = "2.prems"
  consider "a < 0x80" | "\<not> a < 0x80" "in_range 0xC2 0xDF a" | "\<not> a < 0x80" "\<not> in_range 0xC2 0xDF a" "in_range 0xE0 0xEF a"
    | "\<not> a < 0x80" "\<not> in_range 0xC2 0xDF a" "\<not> in_range 0xE0 0xEF a" "in_range 0xF0 0xF4 a"
    using ok(1) by (auto split: if_splits)
  then show ?case
  proof cases
    case 1
    then show ?thesis using ih(1) ok by simp
  next
    case 2
    obtain b s' where s: "s = b # s'" using ok(1) 2 by (cases s) simp_all
    then show ?thesis using ih(2) [OF 2 s] ok 2 by simp
  next
    case 3
    obtain b c s' where s: "s = b # c # s'" using ok(1) 3 by (cases s; cases "tl s") simp_all
    then have "utf8_ok (s' @ t)" using ih(3) [OF 3 s refl] ok 3 by simp
    then show ?thesis using s ok 3 by simp
  next
    case 4
    obtain b c d s' where s: "s = b # c # d # s'" using ok(1) 4 by (cases s; cases "tl s"; cases "tl (tl s)") simp_all
    then have "utf8_ok (s' @ t)" using ih(4) [OF 4 s refl refl] ok 4 by simp
    then show ?thesis using s ok 4 by simp
  qed
qed simp

lemma utf8_ascii: "(\<forall>x \<in> set s. x < 0x80) \<Longrightarrow> utf8_ok s"
  by (induction s) auto

end
