(* ===== verification/Fs_Dir.thy ===== *)
theory Fs_Dir
  imports Fs_Spec Str
begin

text \<open>
  Directories (\<^verbatim>\<open>crates/kernel/src/fs.rs\<close>): the scans over the entries of a locked
  directory. \<open>dir_scan\<close> is the loop of \<^verbatim>\<open>dirlookup\<close>, \<open>dir_slot\<close> the search for a
  free entry in \<^verbatim>\<open>dirlink\<close> and \<open>is_dir_empty\<close> the test before a directory is removed.
  The entry buffer is kept from one turn to the next as in the source. Sizes of files are at most
  \<^verbatim>\<open>MAXFILE * BSIZE\<close>, so that the offsets do not wrap.
\<close>

section \<open>Operations\<close>

definition kern_out :: "byte list copyout" where
  "kern_out d bs mem = (patch d bs mem, Ok ())"

definition kern_in :: "byte list \<Rightarrow> copyin" where
  "kern_in mem src n = (slice src n mem, Ok ())"

definition read_entry :: "nat \<Rightarrow> inode_state \<Rightarrow> byte list \<Rightarrow> nat result \<times> byte list" where
  "read_entry off st de = inode_read kern_out 0 (of_nat off) DIRENT_SIZE st de"

function dir_scan :: "rstr \<Rightarrow> inode_state \<Rightarrow> nat \<Rightarrow> byte list \<Rightarrow> (nat \<times> 16 word) result" where
  "dir_scan name st off de =
     (if off < unat (id_size (fst st)) then
        (case read_entry off st de of
           (Err e, _) \<Rightarrow> Err e
         | (Panic, _) \<Rightarrow> Panic
         | (Ok _, de') \<Rightarrow>
             (let d = dec_dirent de' in
              if de_inum d = 0 then dir_scan name st (off + DIRENT_SIZE) de'
              else if \<not> utf8_ok (de_name d) then Panic
              else if name = trim_matches 0 (de_name d) then Ok (off, de_inum d)
              else dir_scan name st (off + DIRENT_SIZE) de'))
      else Err NotFound)"
  by pat_completeness auto
termination
  by (relation "measure (\<lambda>(name, st, off, de). unat (id_size (fst st)) - off)") (auto simp: DIRENT_SIZE_def)

definition dir_find :: "rstr \<Rightarrow> inode_state \<Rightarrow> (nat \<times> 16 word) result" where
  "dir_find name st =
     (if id_type (fst st) \<noteq> FDir then Err NotADirectory
      else dir_scan name st 0 (enc_dirent dirent_default))"

function dir_slot :: "inode_state \<Rightarrow> nat \<Rightarrow> byte list \<Rightarrow> (nat \<times> byte list) result" where
  "dir_slot st off de =
     (if off < unat (id_size (fst st)) then
        (case read_entry off st de of
           (Err e, _) \<Rightarrow> Err e
         | (Panic, _) \<Rightarrow> Panic
         | (Ok _, de') \<Rightarrow> if de_inum (dec_dirent de') = 0 then Ok (off, de') else dir_slot st (off + DIRENT_SIZE) de')
      else Ok (off, de))"
  by pat_completeness auto
termination
  by (relation "measure (\<lambda>(st, off, de). unat (id_size (fst st)) - off)") (auto simp: DIRENT_SIZE_def)

definition new_entry :: "rstr \<Rightarrow> u32 \<Rightarrow> dirent" where
  "new_entry name inum = \<lparr>de_inum = ucast inum, de_name = patch 0 (take (min (length name) DIRSIZ) name) (replicate DIRSIZ 0)\<rparr>"

text \<open>The part of \<^verbatim>\<open>dirlink\<close> that follows the check for the name.\<close>

definition dir_add :: "rstr \<Rightarrow> u32 \<Rightarrow> inode_state \<Rightarrow> unit result \<times> inode_state" where
  "dir_add name inum st =
     (case dir_slot st 0 (enc_dirent dirent_default) of
        Err e \<Rightarrow> (Err e, st)
      | Panic \<Rightarrow> (Panic, st)
      | Ok (off, _) \<Rightarrow>
          (case inode_write (kern_in (enc_dirent (new_entry name inum))) 0 (of_nat off) DIRENT_SIZE st of
             (Ok _, st') \<Rightarrow> (Ok (), touch_mtime_ctime st')
           | (Err e, st') \<Rightarrow> (Err e, st')
           | (Panic, st') \<Rightarrow> (Panic, st')))"

function empty_scan :: "inode_state \<Rightarrow> nat \<Rightarrow> byte list \<Rightarrow> bool result" where
  "empty_scan st off de =
     (if off < unat (id_size (fst st)) then
        (case read_entry off st de of
           (Err e, _) \<Rightarrow> Panic
         | (Panic, _) \<Rightarrow> Panic
         | (Ok _, de') \<Rightarrow> if de_inum (dec_dirent de') \<noteq> 0 then Ok False else empty_scan st (off + DIRENT_SIZE) de')
      else Ok True)"
  by pat_completeness auto
termination
  by (relation "measure (\<lambda>(st, off, de). unat (id_size (fst st)) - off)") (auto simp: DIRENT_SIZE_def)

definition is_dir_empty :: "inode_state \<Rightarrow> bool result" where
  "is_dir_empty st = empty_scan st (2 * DIRENT_SIZE) (enc_dirent dirent_default)"

text \<open>The part of \<^verbatim>\<open>unlink\<close> that clears the entry at an offset.\<close>

definition dir_clear :: "nat \<Rightarrow> inode_state \<Rightarrow> unit result \<times> inode_state" where
  "dir_clear off st =
     (case inode_write (kern_in (enc_dirent dirent_default)) 0 (of_nat off) DIRENT_SIZE st of
        (Ok _, st') \<Rightarrow> (Ok (), st')
      | (Err e, st') \<Rightarrow> (Err e, st')
      | (Panic, st') \<Rightarrow> (Panic, st'))"

declare dir_scan.simps [simp del] dir_slot.simps [simp del] empty_scan.simps [simp del]


section \<open>Directories as lists of entries\<close>

definition entry :: "nat \<Rightarrow> inode_state \<Rightarrow> dirent" where
  "entry i st = dec_dirent (slice (DIRENT_SIZE * i) DIRENT_SIZE (contents (fst st) (snd st)))"

definition nentries :: "inode_state \<Rightarrow> nat" where
  "nentries st = unat (id_size (fst st)) div DIRENT_SIZE"

definition dname :: "dirent \<Rightarrow> rstr" where
  "dname d = trim_matches 0 (de_name d)"

definition dir_ok :: "nat set \<Rightarrow> inode_state \<Rightarrow> bool" where
  "dir_ok R st \<longleftrightarrow> file_ok R (fst st) (snd st) \<and> id_type (fst st) = FDir \<and> DIRENT_SIZE dvd unat (id_size (fst st)) \<and>
     (\<forall>i < nentries st. de_inum (entry i st) \<noteq> 0 \<longrightarrow> utf8_ok (de_name (entry i st)))"

text \<open>The abstract lookup: the first entry in use with the name.\<close>

definition hit :: "rstr \<Rightarrow> inode_state \<Rightarrow> nat \<Rightarrow> bool" where
  "hit name st i \<longleftrightarrow> de_inum (entry i st) \<noteq> 0 \<and> dname (entry i st) = name"

definition lookup_from :: "rstr \<Rightarrow> inode_state \<Rightarrow> nat \<Rightarrow> nat option" where
  "lookup_from name st i = find (hit name st) [i..<nentries st]"

lemma kern_out_stores: "stores kern_out patch"
proof -
  have "patch (d + length xs) ys (patch d xs mem) = patch d (xs @ ys) mem" for d and xs ys mem :: "byte list"
    by (cases "d \<le> length mem") (simp_all add: patch_def ac_simps)
  then show ?thesis by (simp add: stores_def kern_out_def patch_def)
qed

lemma dir_okD:
  assumes "dir_ok R st"
  shows "unat (id_size (fst st)) = DIRENT_SIZE * nentries st" "unat (id_size (fst st)) \<le> MAXFILE * BSIZE" "file_ok R (fst st) (snd st)"
  using assms by (auto simp: dir_ok_def nentries_def file_ok_def)

lemma read_entry_ok:
  assumes "dir_ok R st" "i < nentries st" "length de = DIRENT_SIZE"
  shows "read_entry (DIRENT_SIZE * i) st de = (Ok DIRENT_SIZE, slice (DIRENT_SIZE * i) DIRENT_SIZE (contents (fst st) (snd st)))"
proof -
  note d = dir_okD [OF assms(1)]
  have le: "DIRENT_SIZE * i + DIRENT_SIZE \<le> unat (id_size (fst st))" using d(1) assms(2) by (simp add: DIRENT_SIZE_def)
  then have "DIRENT_SIZE * i < 2 ^ 32" using unsigned_less [of "id_size (fst st)", where ?'a = nat] by simp
  then have u: "unat (of_nat (DIRENT_SIZE * i) :: u32) = DIRENT_SIZE * i" by (simp add: unat_of_nat del: of_nat_mult)
  have l: "length (slice (DIRENT_SIZE * i) DIRENT_SIZE (contents (fst st) (snd st))) = DIRENT_SIZE" using le by simp
  have "inode_read kern_out 0 (of_nat (DIRENT_SIZE * i)) DIRENT_SIZE (fst st, snd st) de =
    (Ok (length (slice (DIRENT_SIZE * i) DIRENT_SIZE (contents (fst st) (snd st)))), patch 0 (slice (DIRENT_SIZE * i) DIRENT_SIZE (contents (fst st) (snd st))) de)"
    using inode_read_ok [OF d(3) kern_out_stores, of "of_nat (DIRENT_SIZE * i)" DIRENT_SIZE 0 de] u le
      unsigned_less [of "id_size (fst st)", where ?'a = nat] by simp
  then show ?thesis using l assms(3) by (simp add: read_entry_def patch_def)
qed

lemma dir_scan_ok:
  assumes "dir_ok R st" "i \<le> nentries st" "length de = DIRENT_SIZE"
  shows "dir_scan name st (DIRENT_SIZE * i) de =
    (case lookup_from name st i of None \<Rightarrow> Err NotFound | Some j \<Rightarrow> Ok (DIRENT_SIZE * j, de_inum (entry j st)))"
  using assms(2,3)
proof (induction "nentries st - i" arbitrary: i de)
  case 0
  then show ?case using dir_okD(1) [OF assms(1)] by (simp add: lookup_from_def dir_scan.simps)
next
  case (Suc n)
  then have i: "i < nentries st" by simp
  let ?b = "slice (DIRENT_SIZE * i) DIRENT_SIZE (contents (fst st) (snd st))"
  have lt: "DIRENT_SIZE * i < unat (id_size (fst st))" using i dir_okD(1) [OF assms(1)] by (simp add: DIRENT_SIZE_def)
  have lb: "length ?b = DIRENT_SIZE" using i dir_okD(1) [OF assms(1)] by (simp add: DIRENT_SIZE_def)
  have ih: "dir_scan name st (DIRENT_SIZE * Suc i) ?b =
      (case lookup_from name st (Suc i) of None \<Rightarrow> Err NotFound | Some j \<Rightarrow> Ok (DIRENT_SIZE * j, de_inum (entry j st)))"
    by (rule Suc.hyps(1)) (use Suc.hyps(2) i lb in auto)
  have l: "lookup_from name st i = (if hit name st i then Some i else lookup_from name st (Suc i))"
    using i by (simp add: lookup_from_def upt_conv_Cons)
  have u: "de_inum (entry i st) \<noteq> 0 \<Longrightarrow> utf8_ok (de_name (entry i st))" using assms(1) i by (simp add: dir_ok_def)
  show ?case
    using lt u read_entry_ok [OF assms(1) i Suc.prems(2)] ih
    by (subst dir_scan.simps) (auto simp: l hit_def dname_def Let_def entry_def add.commute)
qed

lemma length_entry_buffer [simp]: "length (enc_dirent dirent_default) = DIRENT_SIZE"
  by (simp add: dirent_default_def)

lemma dir_find_ok:
  assumes "dir_ok R st"
  shows "dir_find name st =
    (case lookup_from name st 0 of None \<Rightarrow> Err NotFound | Some j \<Rightarrow> Ok (DIRENT_SIZE * j, de_inum (entry j st)))"
  using dir_scan_ok [OF assms le0 length_entry_buffer, of name] assms by (simp add: dir_find_def dir_ok_def)

lemma dir_slot_ok:
  assumes "dir_ok R st" "i \<le> nentries st" "length de = DIRENT_SIZE" "\<forall>j < i. de_inum (entry j st) \<noteq> 0"
  shows "\<exists>j de'. dir_slot st (DIRENT_SIZE * i) de = Ok (DIRENT_SIZE * j, de') \<and> j \<le> nentries st \<and>
    (\<forall>i < j. de_inum (entry i st) \<noteq> 0) \<and> (j < nentries st \<longrightarrow> de_inum (entry j st) = 0)"
  using assms(2,3,4)
proof (induction "nentries st - i" arbitrary: i de)
  case 0
  then show ?case using dir_okD(1) [OF assms(1)] by (auto simp: dir_slot.simps intro: exI [of _ i])
next
  case (Suc n)
  then have i: "i < nentries st" by simp
  let ?b = "slice (DIRENT_SIZE * i) DIRENT_SIZE (contents (fst st) (snd st))"
  have lt: "DIRENT_SIZE * i < unat (id_size (fst st))" using i dir_okD(1) [OF assms(1)] by (simp add: DIRENT_SIZE_def)
  have lb: "length ?b = DIRENT_SIZE" using i dir_okD(1) [OF assms(1)] by (simp add: DIRENT_SIZE_def)
  show ?case
  proof (cases "de_inum (entry i st) = 0")
    case True
    then show ?thesis using lt i Suc.prems(3) read_entry_ok [OF assms(1) i Suc.prems(2)]
      by (subst dir_slot.simps) (auto simp: entry_def intro!: exI [of _ i])
  next
    case False
    have "\<exists>j de'. dir_slot st (DIRENT_SIZE * Suc i) ?b = Ok (DIRENT_SIZE * j, de') \<and> j \<le> nentries st \<and>
        (\<forall>i < j. de_inum (entry i st) \<noteq> 0) \<and> (j < nentries st \<longrightarrow> de_inum (entry j st) = 0)"
      by (rule Suc.hyps(1)) (use Suc.hyps(2) Suc.prems(3) False i lb in \<open>auto simp: less_Suc_eq\<close>)
    then show ?thesis using False lt read_entry_ok [OF assms(1) i Suc.prems(2)]
      by (subst dir_slot.simps) (auto simp: entry_def add.commute)
  qed
qed


text \<open>Writing one entry, in place of another one or behind the last.\<close>

lemma block_of_entry: "blocks_of (DIRENT_SIZE * j) DIRENT_SIZE = 1"
proof -
  have "(16 * j + r) div 1024 = (16 * j + r) div 16 div 64" for r by (simp flip: div_mult2_eq)
  from this [of 15] this [of 0] have "(16 * j + 15) div 1024 = (16 * j) div 1024" by simp
  then show ?thesis by (simp add: blocks_of_def DIRENT_SIZE_def BSIZE_def)
qed

lemma write_entry_ok:
  assumes "dir_ok R st" "j \<le> nentries st" "length bs = DIRENT_SIZE" "DIRENT_SIZE * j + DIRENT_SIZE \<le> MAXFILE * BSIZE" "3 \<le> nfree (snd st)"
  shows "\<exists>st'. inode_write (kern_in bs) 0 (of_nat (DIRENT_SIZE * j)) DIRENT_SIZE st = (Ok DIRENT_SIZE, st') \<and>
    file_ok R (fst st') (snd st') \<and> id_type (fst st') = FDir \<and> id_inum (fst st') = id_inum (fst st) \<and>
    others_kept R (unat (id_inum (fst st))) (snd st) (snd st') \<and>
    unat (id_size (fst st')) = DIRENT_SIZE * max (nentries st) (j + 1) \<and>
    entry j st' = dec_dirent bs \<and> (\<forall>i. i \<noteq> j \<longrightarrow> entry i st' = entry i st)"
proof -
  let ?c = "contents (fst st) (snd st)" and ?o = "DIRENT_SIZE * j"
  note d = dir_okD [OF assms(1)]
  have "delivers (kern_in bs) 0 bs" by (simp add: delivers_def kern_in_def)
  moreover have u: "unat (of_nat ?o :: u32) = ?o" by (rule size_u32) (use assms(4) in simp)
  have jc: "?o \<le> length ?c" using d(1) assms(2) by simp
  moreover have "3 * blocks_of (unat (of_nat ?o :: u32)) (length bs) \<le> nfree (snd st)"
    using assms(3,5) by (simp add: u block_of_entry del: of_nat_mult)
  ultimately obtain ip' s' where w: "inode_write (kern_in bs) 0 (of_nat ?o) (length bs) (fst st, snd st) = (Ok (length bs), ip', s')"
      "file_ok R ip' s'" "ip' = (fst st)\<lparr>id_addrs := id_addrs ip', id_size := id_size ip'\<rparr>"
      "others_kept R (unat (id_inum (fst st))) (snd st) s'" "contents ip' s' = patch ?o bs ?c"
    using inode_write_ok [OF d(3), of "kern_in bs" 0 bs "of_nat ?o"] assms(3,4) unfolding u patch_def by auto
  have len: "unat (id_size ip') = length (patch ?o bs ?c)" using arg_cong [OF w(5), of length] by simp
  also have "\<dots> = DIRENT_SIZE * max (nentries st) (j + 1)" using assms(2,3) d(1)
    by (cases "j < nentries st") (simp_all add: patch_def DIRENT_SIZE_def max_def)
  finally have size: "unat (id_size ip') = DIRENT_SIZE * max (nentries st) (j + 1)" .
  have same: "slice ?o DIRENT_SIZE (patch ?o bs ?c) = bs" using jc assms(3) by (simp add: slice_def patch_def)
  have other: "slice (DIRENT_SIZE * i) DIRENT_SIZE (patch ?o bs ?c) = slice (DIRENT_SIZE * i) DIRENT_SIZE ?c" if "i \<noteq> j" for i
  proof (cases "i < j")
    case True
    then have "DIRENT_SIZE * i + DIRENT_SIZE \<le> ?o" by (simp add: DIRENT_SIZE_def)
    then show ?thesis using jc by (simp add: slice_def patch_def drop_take take_take)
  next
    case False
    then have "j < i" using that by simp
    then have "?o + DIRENT_SIZE \<le> DIRENT_SIZE * i" by (simp add: DIRENT_SIZE_def)
    then obtain q where q: "DIRENT_SIZE * i = ?o + DIRENT_SIZE + q" by (auto simp: le_iff_add)
    show ?thesis using jc assms(3) by (simp add: q slice_def patch_def ac_simps)
  qed
  have t: "id_type ip' = FDir" "id_inum ip' = id_inum (fst st)"
    using arg_cong [OF w(3), of id_type] arg_cong [OF w(3), of id_inum] assms(1) by (simp_all add: dir_ok_def)
  show ?thesis
    using w(1-4) size same other assms(1,3)
    by (intro exI [of _ "(ip', s')"]) (simp add: entry_def w(5) t)
qed


section \<open>Entering and clearing a name\<close>

definition unique_names :: "inode_state \<Rightarrow> bool" where
  "unique_names st \<longleftrightarrow> (\<forall>n i j. i < nentries st \<longrightarrow> j < nentries st \<longrightarrow> hit n st i \<longrightarrow> hit n st j \<longrightarrow> i = j)"

definition name_ok :: "rstr \<Rightarrow> bool" where
  "name_ok name \<longleftrightarrow> 0 \<notin> set name \<and> length name \<le> DIRSIZ \<and> utf8_ok name"

lemma find_upt_cong: "(\<And>i. i < a \<and> P i \<longleftrightarrow> i < b \<and> Q i) \<Longrightarrow> find P [0..<a] = find Q [0..<b]"
proof -
  assume e: "\<And>i. i < a \<and> P i \<longleftrightarrow> i < b \<and> Q i"
  have *: "find R [0..<c] = Some i \<longleftrightarrow> i < c \<and> R i \<and> (\<forall>j < i. \<not> (j < c \<and> R j))" for R i c
    by (auto simp: find_Some_iff)
  have "find P [0..<a] = Some i \<longleftrightarrow> find Q [0..<b] = Some i" for i using e by (simp add: *) blast
  then show ?thesis by (metis option.exhaust)
qed

lemma lookup_None: "lookup_from name st 0 = None \<longleftrightarrow> (\<forall>i < nentries st. \<not> hit name st i)"
  by (auto simp: lookup_from_def find_None_iff)

lemma lookup_unique: "unique_names st \<Longrightarrow> i < nentries st \<Longrightarrow> hit name st i \<Longrightarrow> lookup_from name st 0 = Some i"
  by (cases "lookup_from name st 0") (auto simp: lookup_None, auto simp: lookup_from_def find_Some_iff unique_names_def)

lemma new_entry_name:
  assumes "name_ok name"
  shows "length (de_name (new_entry name i)) = DIRSIZ" "dname (new_entry name i) = name" "utf8_ok (de_name (new_entry name i))"
    "de_inum (new_entry name i) = ucast i"
proof -
  have n: "de_name (new_entry name i) = name @ replicate (DIRSIZ - length name) 0"
    using assms by (simp add: new_entry_def patch_def name_ok_def)
  show "length (de_name (new_entry name i)) = DIRSIZ" "de_inum (new_entry name i) = ucast i"
    using assms by (simp_all add: n name_ok_def) (simp add: new_entry_def)
  show "dname (new_entry name i) = name" using assms by (simp add: dname_def n trim_matches_padded name_ok_def)
  show "utf8_ok (de_name (new_entry name i))" using assms by (simp add: n name_ok_def utf8_append utf8_ascii)
qed

lemma touch_keeps:
  assumes "file_ok R ip s"
  shows "\<exists>ip' s'. touch_mtime_ctime (ip, s) = (ip', s') \<and> file_ok R ip' s' \<and> contents ip' s' = contents ip s \<and>
    id_type ip' = id_type ip \<and> id_inum ip' = id_inum ip \<and> id_size ip' = id_size ip \<and> others_kept R (unat (id_inum ip)) s s'"
proof -
  let ?ip = "ip\<lparr>id_mtime := fs_ticks s, id_ctime := fs_ticks s\<rparr>"
  have m: "map_ok R (id_addrs ?ip) s" "inum_ok ?ip s" using assms by (simp_all add: file_ok_def inum_ok_def)
  note k = iupdate_keeps [OF m]
  have sz: "unat (id_size ip) \<le> MAXFILE * BSIZE" using assms by (simp add: file_ok_def)
  have "contents ?ip (iupdate ?ip s) = contents ip s"
    unfolding contents_def by (rule map_cong) (use k(4) sz in auto)
  then show ?thesis using k(1-3) sz by (simp add: touch_mtime_ctime_def Let_def file_ok_def)
qed

lemma entry_change:
  assumes "dir_ok R st" "unique_names st" "j \<le> nentries st"
    and "file_ok R (fst st') (snd st')" "id_type (fst st') = FDir" "unat (id_size (fst st')) = DIRENT_SIZE * max (nentries st) (j + 1)"
    and "\<forall>i. i \<noteq> j \<longrightarrow> entry i st' = entry i st"
    and "de_inum (entry j st') \<noteq> 0 \<Longrightarrow> utf8_ok (de_name (entry j st'))"
    and "de_inum (entry j st') \<noteq> 0 \<Longrightarrow> lookup_from (dname (entry j st')) st 0 = None"
  shows "dir_ok R st'" "unique_names st'" "nentries st' = max (nentries st) (j + 1)"
    "\<not> hit n st' j \<Longrightarrow> j < nentries st \<longrightarrow> \<not> hit n st j \<Longrightarrow> dir_find n st' = dir_find n st"
proof -
  show N: "nentries st' = max (nentries st) (j + 1)" using assms(6) by (simp add: nentries_def DIRENT_SIZE_def)
  have e: "i < nentries st' \<and> i \<noteq> j \<Longrightarrow> i < nentries st" for i using N assms(3) by auto
  have h: "hit n st' i \<longleftrightarrow> hit n st i" if "i \<noteq> j" for i n using assms(7) that by (simp add: hit_def)
  show ok: "dir_ok R st'"
    unfolding dir_ok_def
  proof (intro conjI allI impI)
    fix i assume "i < nentries st'" "de_inum (entry i st') \<noteq> 0"
    then show "utf8_ok (de_name (entry i st'))"
      using assms(1,7,8) e [of i] by (cases "i = j") (auto simp: dir_ok_def)
  qed (use assms(4,5,6) in auto)
  show "unique_names st'"
    unfolding unique_names_def
  proof (intro allI impI)
    fix n i k assume a: "i < nentries st'" "k < nentries st'" "hit n st' i" "hit n st' k"
    have j: "\<not> hit n st l" if "hit n st' j" "l < nentries st" for l
      using that assms(9) by (auto simp: hit_def lookup_None)
    show "i = k" using a e h j assms(2) unfolding unique_names_def by metis
  qed
  assume n: "\<not> hit n st' j" "j < nentries st \<longrightarrow> \<not> hit n st j"
  have "lookup_from n st' 0 = lookup_from n st 0"
    unfolding lookup_from_def
  proof (rule find_upt_cong)
    fix i
    show "(i < nentries st' \<and> hit n st' i) = (i < nentries st \<and> hit n st i)"
      using n h e [of i] N by (cases "i = j") auto
  qed
  moreover have "entry k st' = entry k st" if "lookup_from n st 0 = Some k" for k
    using that n assms(7) by (cases "k = j") (auto simp: lookup_from_def find_Some_iff)
  ultimately show "dir_find n st' = dir_find n st"
    using dir_find_ok [OF ok] dir_find_ok [OF assms(1)] by (auto split: option.splits)
qed


lemma entry_room:
  assumes "dir_ok R st" "unat (id_size (fst st)) + DIRENT_SIZE \<le> MAXFILE * BSIZE" "j \<le> nentries st"
  shows "DIRENT_SIZE * j + DIRENT_SIZE \<le> MAXFILE * BSIZE"
  using assms(3) dir_okD(1) [OF assms(1)] assms(2) by (simp add: DIRENT_SIZE_def)

lemma dir_add_ok:
  assumes "dir_ok R st" "unique_names st" "3 \<le> nfree (snd st)" "unat (id_size (fst st)) + DIRENT_SIZE \<le> MAXFILE * BSIZE"
    and n: "name_ok name" "(ucast inum :: 16 word) \<noteq> 0" "dir_find name st = Err NotFound"
  shows "\<exists>st' off. dir_add name inum st = (Ok (), st') \<and> dir_ok R st' \<and> unique_names st' \<and>
    others_kept R (unat (id_inum (fst st))) (snd st) (snd st') \<and>
    dir_find name st' = Ok (off, ucast inum) \<and> (\<forall>n. n \<noteq> name \<longrightarrow> dir_find n st' = dir_find n st)"
proof -
  note room = entry_room [OF assms(1,4)]
  note e = new_entry_name [OF n(1), of inum]
  have none: "lookup_from name st 0 = None" using n(3) dir_find_ok [OF assms(1)] by (auto split: option.splits)
  obtain j de where j: "dir_slot st 0 (enc_dirent dirent_default) = Ok (DIRENT_SIZE * j, de)" "j \<le> nentries st"
      "j < nentries st \<longrightarrow> de_inum (entry j st) = 0"
    using dir_slot_ok [OF assms(1) le0 length_entry_buffer] by auto
  obtain st1 where w: "inode_write (kern_in (enc_dirent (new_entry name inum))) 0 (of_nat (DIRENT_SIZE * j)) DIRENT_SIZE st = (Ok DIRENT_SIZE, st1)"
      "file_ok R (fst st1) (snd st1)" "id_type (fst st1) = FDir" "id_inum (fst st1) = id_inum (fst st)"
      "others_kept R (unat (id_inum (fst st))) (snd st) (snd st1)" "unat (id_size (fst st1)) = DIRENT_SIZE * max (nentries st) (j + 1)"
      "entry j st1 = new_entry name inum" "\<forall>i. i \<noteq> j \<longrightarrow> entry i st1 = entry i st"
    using write_entry_ok [OF assms(1) j(2) _ room [OF j(2)] assms(3), of "enc_dirent (new_entry name inum)"] e(1) by auto
  obtain ip' s' where t: "touch_mtime_ctime st1 = (ip', s')" "file_ok R ip' s'" "contents ip' s' = contents (fst st1) (snd st1)"
      "id_type ip' = FDir" "id_size ip' = id_size (fst st1)" "others_kept R (unat (id_inum (fst st))) (snd st1) s'"
    using touch_keeps [OF w(2)] w(3,4) by auto
  have en: "entry i (ip', s') = entry i st1" for i using t(3) by (simp add: entry_def)
  note ch = entry_change [OF assms(1,2) j(2), of "(ip', s')"]
  have pre: "de_inum (entry j (ip', s')) \<noteq> 0 \<Longrightarrow> utf8_ok (de_name (entry j (ip', s')))"
      "de_inum (entry j (ip', s')) \<noteq> 0 \<Longrightarrow> lookup_from (dname (entry j (ip', s'))) st 0 = None"
      "\<forall>i. i \<noteq> j \<longrightarrow> entry i (ip', s') = entry i st" "unat (id_size (fst (ip', s'))) = DIRENT_SIZE * max (nentries st) (j + 1)"
      "file_ok R (fst (ip', s')) (snd (ip', s'))" "id_type (fst (ip', s')) = FDir"
    using en w(6-8) e none t(2,4,5) by simp_all
  note ch = ch [OF pre(5,6,4,3,1,2)]
  have hit: "hit n (ip', s') j \<longleftrightarrow> n = name" for n using en w(7) e n(2) by (auto simp: hit_def)
  have "j < nentries (ip', s')" using ch(3) by simp
  then have "dir_find name (ip', s') = Ok (DIRENT_SIZE * j, ucast inum)"
    using lookup_unique [OF ch(2), of j name] hit dir_find_ok [OF ch(1), of name] en w(7) e(4) by simp
  moreover have "dir_find n (ip', s') = dir_find n st" if "n \<noteq> name" for n
    by (rule ch(4)) (use hit that j(3) in \<open>auto simp: hit_def\<close>)
  ultimately show ?thesis
    using ch(1,2) w(1) t(1) others_kept_trans [OF w(5) t(6)] j(1)
    by (intro exI [of _ "(ip', s')"] exI [of _ "DIRENT_SIZE * j"]) (simp add: dir_add_def)
qed

lemma dir_clear_ok:
  assumes "dir_ok R st" "unique_names st" "3 \<le> nfree (snd st)" "unat (id_size (fst st)) + DIRENT_SIZE \<le> MAXFILE * BSIZE"
    and n: "dir_find name st = Ok (off, i)"
  shows "\<exists>st'. dir_clear off st = (Ok (), st') \<and> dir_ok R st' \<and> unique_names st' \<and>
    others_kept R (unat (id_inum (fst st))) (snd st) (snd st') \<and>
    dir_find name st' = Err NotFound \<and> (\<forall>n. n \<noteq> name \<longrightarrow> dir_find n st' = dir_find n st)"
proof -
  obtain j where j: "lookup_from name st 0 = Some j" "off = DIRENT_SIZE * j"
    using n dir_find_ok [OF assms(1), of name] by (auto split: option.splits)
  then have jl: "j < nentries st" "hit name st j" by (auto simp: lookup_from_def find_Some_iff)
  let ?e = "enc_dirent dirent_default"
  obtain st' where w: "inode_write (kern_in ?e) 0 (of_nat (DIRENT_SIZE * j)) DIRENT_SIZE st = (Ok DIRENT_SIZE, st')"
      "file_ok R (fst st') (snd st')" "id_type (fst st') = FDir" "others_kept R (unat (id_inum (fst st))) (snd st) (snd st')"
      "unat (id_size (fst st')) = DIRENT_SIZE * max (nentries st) (j + 1)" "entry j st' = dec_dirent ?e" "\<forall>i. i \<noteq> j \<longrightarrow> entry i st' = entry i st"
    using write_entry_ok [OF assms(1) less_imp_le [OF jl(1)] length_entry_buffer entry_room [OF assms(1,4) less_imp_le [OF jl(1)]] assms(3)] by blast
  have z: "de_inum (entry j st') = 0" using w(6) by (simp add: dirent_default_def)
  note ch = entry_change [OF assms(1,2) less_imp_le [OF jl(1)] w(2,3,5,7)]
  have ok: "dir_ok R st'" "unique_names st'" "nentries st' = nentries st" using ch(1-3) z jl(1) by simp_all
  have "\<not> hit name st' k" if "k < nentries st" for k
    using that z w(7) jl assms(2) by (cases "k = j") (auto simp: hit_def unique_names_def)
  then have "dir_find name st' = Err NotFound"
    using dir_find_ok [OF ok(1), of name] ok(3) lookup_None [of name st'] by simp
  moreover have "dir_find n st' = dir_find n st" if "n \<noteq> name" for n
    by (rule ch(4)) (use z that jl(2) in \<open>auto simp: hit_def\<close>)
  ultimately show ?thesis using w(1,4) ok j(2) by (intro exI [of _ st']) (simp add: dir_clear_def)
qed

text \<open>
  C14. The entries of a directory. If a name is not found, \<^verbatim>\<open>dirlink\<close> enters it: it is found
  afterwards, with the inode number it was entered with, and every other name is found or not found as
  before; no other inode changes. Clearing the entry found for a name, as \<^verbatim>\<open>unlink\<close> does,
  makes exactly this name disappear.
\<close>

theorem dir_entries:
  assumes "dir_ok R st" "unique_names st" "3 \<le> nfree (snd st)" "unat (id_size (fst st)) + DIRENT_SIZE \<le> MAXFILE * BSIZE"
  shows "(name_ok name \<and> (ucast inum :: 16 word) \<noteq> 0 \<and> dir_find name st = Err NotFound \<longrightarrow>
      (\<exists>st' off. dir_add name inum st = (Ok (), st') \<and> dir_ok R st' \<and> unique_names st' \<and>
        others_kept R (unat (id_inum (fst st))) (snd st) (snd st') \<and>
        dir_find name st' = Ok (off, ucast inum) \<and> (\<forall>n. n \<noteq> name \<longrightarrow> dir_find n st' = dir_find n st))) \<and>
    (dir_find name st = Ok (off, i) \<longrightarrow>
      (\<exists>st'. dir_clear off st = (Ok (), st') \<and> dir_ok R st' \<and> unique_names st' \<and>
        others_kept R (unat (id_inum (fst st))) (snd st) (snd st') \<and>
        dir_find name st' = Err NotFound \<and> (\<forall>n. n \<noteq> name \<longrightarrow> dir_find n st' = dir_find n st)))"
  using dir_add_ok [OF assms] dir_clear_ok [OF assms] by blast

definition demo_dir :: inode_state where
  "demo_dir = (demo_ip\<lparr>id_type := FDir\<rparr>, demo_fs)"

lemma demo_dir_ok: "dir_ok {} demo_dir" "unique_names demo_dir" "dir_find name demo_dir = Err NotFound"
proof -
  have z: "nentries demo_dir = 0" "id_size (fst demo_dir) = 0" by (simp_all add: demo_dir_def demo_ip_def idata_new_def nentries_def)
  have "file_ok {} (fst demo_dir) (snd demo_dir)" using demo_file by (simp add: demo_dir_def file_ok_def inum_ok_def)
  then show ok: "dir_ok {} demo_dir" using z by (simp add: dir_ok_def) (simp add: demo_dir_def)
  show "unique_names demo_dir" using z by (simp add: unique_names_def)
  show "dir_find name demo_dir = Err NotFound" using dir_find_ok [OF ok] z by (simp add: lookup_from_def)
qed

theorem dir_entries_witness:
  "\<exists>st' off. dir_add (of_lit ''etc'') 5 demo_dir = (Ok (), st') \<and> dir_find (of_lit ''etc'') st' = Ok (off, 5)"
proof -
  have "name_ok (of_lit ''etc'')" by (simp add: name_ok_def of_lit_def DIRSIZ_def)
  moreover have "3 \<le> nfree (snd demo_dir)" using demo_nfree by (simp add: demo_dir_def)
  moreover have "unat (id_size (fst demo_dir)) + DIRENT_SIZE \<le> MAXFILE * BSIZE"
    by (simp add: demo_dir_def demo_ip_def idata_new_def DIRENT_SIZE_def MAXFILE_def NDIRECT_def BSIZE_def)
  ultimately show ?thesis using dir_entries [OF demo_dir_ok(1,2), of "of_lit ''etc''" 5] demo_dir_ok(3) by auto
qed

end
