(* ===== verification/Fs_Itable.thy ===== *)
theory Fs_Itable
  imports Fs_Dir
begin

text \<open>
  The table of in-memory inodes and the references to it (\<^verbatim>\<open>ITABLE\<close>, \<^verbatim>\<open>MInode\<close> and
  \<^verbatim>\<open>Inode\<close> of \<^verbatim>\<open>crates/kernel/src/fs.rs\<close>).

  An \<^verbatim>\<open>Arc<MInode>\<close> is a handle into the store \<open>k_node\<close>; the table holds handles. The
  strong count of an \<^verbatim>\<open>Arc\<close> is the number \<open>mi_refs\<close> of references outside the table plus the
  one of the table. Dropping an \<^verbatim>\<open>Inode\<close> is \<open>iput\<close>; \<open>with_ref\<close> drops one at the end of a
  scope on every path that does not panic, which is what the early returns of the source do.
  Operations run one after the other, so that the sleeping locks are never contended.
\<close>

section \<open>State\<close>

record minode =
  mi_dev :: u32
  mi_inum :: u32
  mi_data :: idata
  mi_refs :: nat

record kfs =
  k_fs :: fsys
  k_tab :: "nat option list"
  k_node :: "nat \<Rightarrow> minode"
  k_next :: nat
  k_cwd :: nat

type_synonym 'a kop = "kfs \<Rightarrow> 'a result \<times> kfs"

definition set_node :: "nat \<Rightarrow> minode \<Rightarrow> kfs \<Rightarrow> kfs" where
  "set_node h n k = k\<lparr>k_node := (k_node k)(h := n)\<rparr>"

text \<open>An operation on the data of an inode whose lock is held.\<close>

definition on_inode :: "nat \<Rightarrow> (inode_state \<Rightarrow> 'a result \<times> inode_state) \<Rightarrow> 'a kop" where
  "on_inode h f k =
     (case f (mi_data (k_node k h), k_fs k) of
        (r, ip, s) \<Rightarrow> (r, set_node h ((k_node k h)\<lparr>mi_data := ip\<rparr>) (k\<lparr>k_fs := s\<rparr>)))"

definition stateful :: "(inode_state \<Rightarrow> inode_state result) \<Rightarrow> inode_state \<Rightarrow> unit result \<times> inode_state" where
  "stateful f st = (case f st of Ok st' \<Rightarrow> (Ok (), st') | Err e \<Rightarrow> (Err e, st) | Panic \<Rightarrow> (Panic, st))"

definition pure :: "(inode_state \<Rightarrow> 'a result) \<Rightarrow> inode_state \<Rightarrow> 'a result \<times> inode_state" where
  "pure f st = (f st, st)"

text \<open>\<^verbatim>\<open>MInode::lock\<close>: loads the inode on first use.\<close>

definition ilock_h :: "nat \<Rightarrow> unit kop" where
  "ilock_h h = on_inode h (stateful (\<lambda>(ip, s). obind (ilock (ip, s)) (\<lambda>ip'. Ok (ip', s))))"

definition itype_h :: "nat \<Rightarrow> kfs \<Rightarrow> file_type" where
  "itype_h h k = id_type (mi_data (k_node k h))"

section \<open>Operations\<close>

definition minode_new :: "u32 \<Rightarrow> u32 \<Rightarrow> minode" where
  "minode_new dev inum = \<lparr>mi_dev = dev, mi_inum = inum, mi_data = idata_new dev inum, mi_refs = 1\<rparr>"

definition idup :: "nat \<Rightarrow> kfs \<Rightarrow> kfs" where
  "idup h k = set_node h ((k_node k h)\<lparr>mi_refs := mi_refs (k_node k h) + 1\<rparr>) k"

text \<open>The scan of the table: the first entry for the inode, else the first free one.\<close>

fun tab_scan :: "(nat \<Rightarrow> minode) \<Rightarrow> u32 \<Rightarrow> u32 \<Rightarrow> nat option list \<Rightarrow> nat \<Rightarrow> nat option \<Rightarrow> nat + nat option" where
  "tab_scan node dev inum [] i free = Inr free"
| "tab_scan node dev inum (e # es) i free =
     (case e of
        Some h \<Rightarrow>
          if mi_dev (node h) = dev \<and> mi_inum (node h) = inum then Inl h
          else tab_scan node dev inum es (i + 1) free
      | None \<Rightarrow> tab_scan node dev inum es (i + 1) (if free = None then Some i else free))"

definition iget :: "u32 \<Rightarrow> u32 \<Rightarrow> nat kop" where
  "iget dev inum k =
     (case tab_scan (k_node k) dev inum (k_tab k) 0 None of
        Inl h \<Rightarrow> (Ok h, idup h k)
      | Inr None \<Rightarrow> (Err FileTableOverflow, k)
      | Inr (Some i) \<Rightarrow>
          (let h = k_next k in
           (Ok h, set_node h (minode_new dev inum) (k\<lparr>k_tab := (k_tab k)[i := Some h], k_next := h + 1\<rparr>))))"

definition strong_count :: "nat \<Rightarrow> kfs \<Rightarrow> nat" where
  "strong_count h k = mi_refs (k_node k h) + count_list (k_tab k) (Some h)"

text \<open>The three parts of \<^verbatim>\<open>put\<close>: releasing an unlinked inode, leaving the table, and the end of
  the reference.\<close>

definition put_free :: "inode_state \<Rightarrow> inode_state result" where
  "put_free st =
     (if id_valid (fst st) \<and> id_nlink (fst st) = 0 then
        obind (trunc st) (\<lambda>st1. let (ip, s) = set_type FEmpty st1 in Ok (ip\<lparr>id_valid := False\<rparr>, s))
      else Ok st)"

definition tab_leave :: "nat \<Rightarrow> kfs \<Rightarrow> kfs" where
  "tab_leave h k = k\<lparr>k_tab := map (\<lambda>e. if e = Some h then None else e) (k_tab k)\<rparr>"

definition unref :: "nat \<Rightarrow> kfs \<Rightarrow> kfs" where
  "unref h k = set_node h ((k_node k h)\<lparr>mi_refs := mi_refs (k_node k h) - 1\<rparr>) k"

text \<open>The table is locked for the test, released while the inode is freed, and locked again for the
  rest; \<open>put_start\<close> is the part up to the second acquisition and returns whether the reference was
  the last one.\<close>

definition put_start :: "nat \<Rightarrow> bool kop" where
  "put_start h k =
     (if strong_count h k = 2 then kbind (on_inode h (stateful put_free)) (\<lambda>_. kret True) k
      else (Ok False, k))"

definition put_finish :: "nat \<Rightarrow> bool \<Rightarrow> kfs \<Rightarrow> kfs" where
  "put_finish h final k = unref h (if final then tab_leave h k else k)"

definition iput :: "nat \<Rightarrow> unit kop" where
  "iput h = kbind (put_start h) (\<lambda>final k. (Ok (), put_finish h final k))"

definition with_ref :: "nat \<Rightarrow> 'a kop \<Rightarrow> 'a kop" where
  "with_ref h m k =
     (case m k of
        (Panic, k') \<Rightarrow> (Panic, k')
      | (r, k') \<Rightarrow> (case iput h k' of (Panic, k'') \<Rightarrow> (Panic, k'') | (_, k'') \<Rightarrow> (r, k'')))"

text \<open>Allocation of an inode on disk.\<close>

fun ialloc_loop :: "u32 \<Rightarrow> file_type \<Rightarrow> nat list \<Rightarrow> nat kop" where
  "ialloc_loop dev t [] k = (Err StorageFull, k)"
| "ialloc_loop dev t (i # is) k =
     (let s = k_fs k; b = unat (iblock (fs_sb s) (of_nat i)); off = i mod IPB * DINODE_SIZE; bp = fs_blk s b in
      if di_type (dec_dinode (slice off DINODE_SIZE bp)) = ft_code FEmpty then
        iget dev (of_nat i)
          (k\<lparr>k_fs := fs_log_write b (patch off (enc_dinode (dinode_default\<lparr>di_type := ft_code t\<rparr>) @ replicate 40 0) bp) s\<rparr>)
      else ialloc_loop dev t is k)"

definition ialloc :: "u32 \<Rightarrow> file_type \<Rightarrow> nat kop" where
  "ialloc dev t k = ialloc_loop dev t [1..<unat (sb_ninodes (fs_sb (k_fs k)))] k"

section \<open>Directory operations on handles\<close>

text \<open>\<open>dirlookup\<close> also returns the offset of the entry, which the source stores through
  \<^verbatim>\<open>poff\<close>.\<close>

definition dirlookup :: "nat \<Rightarrow> rstr \<Rightarrow> (nat \<times> nat) kop" where
  "dirlookup dp name =
     kbind (on_inode dp (pure (dir_find name))) (\<lambda>(off, inum) k.
     kbind (iget (id_dev (mi_data (k_node k dp))) (ucast inum)) (\<lambda>h. kret (off, h)) k)"

definition dirlink :: "nat \<Rightarrow> rstr \<Rightarrow> u32 \<Rightarrow> unit kop" where
  "dirlink dp name inum k =
     (case dirlookup dp name k of
        (Ok (_, h), k') \<Rightarrow> with_ref h (kfail AlreadyExists) k'
      | (Panic, k') \<Rightarrow> (Panic, k')
      | (Err e, k') \<Rightarrow> if e = NotFound then on_inode dp (dir_add name inum) k' else (Err e, k'))"

end
