(* ===== verification/Fs_Path.thy ===== *)
theory Fs_Path
  imports Fs_Itable
begin

text \<open>
  Path names (\<^verbatim>\<open>Path\<close> of \<^verbatim>\<open>crates/kernel/src/fs.rs\<close>): taking a path apart, and the walk
  \<^verbatim>\<open>namex\<close> from the root or the working directory through directories and symbolic links.
  \<open>namex_step\<close> is one turn of its loop. The number of turns is bounded by the length of the path and
  the limit on symbolic links, which is also the termination proof of \<open>namex_loop\<close>.
\<close>

section \<open>Taking paths apart\<close>

definition file_name :: "rstr \<Rightarrow> rstr option" where
  "file_name p =
     (if ends_with [DOT, DOT] p then None
      else case rsplit_once SLASH p of Some (_, f) \<Rightarrow> Some f | None \<Rightarrow> Some p)"

definition skip_elem :: "rstr \<Rightarrow> rstr option \<times> rstr option" where
  "skip_elem p =
     (let t = trim_matches SLASH p in
      case split_once SLASH t of
        Some (name, path) \<Rightarrow> if length name \<le> DIRSIZ then (Some name, Some path) else (None, None)
      | None \<Rightarrow> if t \<noteq> [] \<and> length t < DIRSIZ then (Some t, None) else (None, None))"

definition orig_name :: "rstr \<Rightarrow> rstr" where
  "orig_name p =
     (let t = trim_matches SLASH p in
      if t = [] then [SLASH]
      else case rsplit_once SLASH t of Some (_, name) \<Rightarrow> name | None \<Rightarrow> t)"

section \<open>The walk\<close>

datatype walk = Done rstr nat | Walk rstr nat nat

text \<open>An early return drops the reference that is in scope; success keeps it.\<close>

definition drop_on_err :: "nat \<Rightarrow> 'a kop \<Rightarrow> 'a kop" where
  "drop_on_err h m k =
     (case m k of
        (Err e, k') \<Rightarrow> kbind (iput h) (\<lambda>_. kfail e) k'
      | r \<Rightarrow> r)"

definition link_target :: "inode_state \<Rightarrow> rstr result" where
  "link_target st =
     (let n = unat (id_size (fst st)) in
      if n = 0 \<or> MAXPATH < n then Err InvalidArgument
      else
        (case inode_read kern_out 0 0 n st (replicate MAXPATH 0) of
           (Ok m, buf) \<Rightarrow> if utf8_ok (take m buf) then Ok (take m buf) else Err Utf8Error
         | (Err e, _) \<Rightarrow> Err e
         | (Panic, _) \<Rightarrow> Panic))"

definition joined :: "rstr \<Rightarrow> rstr option \<Rightarrow> rstr" where
  "joined target rest =
     (case rest of
        None \<Rightarrow> target
      | Some npath \<Rightarrow> target @ (if ends_with [SLASH] target then [] else [SLASH]) @ npath)"

text \<open>A symbolic link: \<open>nip\<close> is the link, \<open>ip\<close> the directory it was found in.\<close>

definition follow :: "nat \<Rightarrow> nat \<Rightarrow> nat \<Rightarrow> rstr option \<Rightarrow> walk kop" where
  "follow depth ip nip rest =
     (if SYMLINK_MAX_DEPTH \<le> depth then kfail TooManyLinks
      else
        kbind (on_inode nip (pure link_target)) (\<lambda>target.
        let path = joined target rest in
        if starts_with [SLASH] path then
          kbind (iget ROOTDEV ROOTINO) (\<lambda>root. kbind (iput ip) (\<lambda>_. kret (Walk path (depth + 1) root)))
        else kret (Walk path (depth + 1) ip)))"

definition enter :: "rstr \<Rightarrow> nat \<Rightarrow> nat \<Rightarrow> rstr \<Rightarrow> rstr option \<Rightarrow> walk kop" where
  "enter orig depth ip name rest =
     kbind (dirlookup ip name) (\<lambda>(_, nip).
     drop_on_err nip
       (kbind (ilock_h nip) (\<lambda>_ k.
        if itype_h nip k = FSymlink then
          kbind (follow depth ip nip rest) (\<lambda>w. kbind (iput nip) (\<lambda>_. kret w)) k
        else
          kbind (iput ip) (\<lambda>_. kret (case rest of Some npath \<Rightarrow> Walk npath depth nip | None \<Rightarrow> Done orig nip)) k)))"

definition namex_step :: "bool \<Rightarrow> rstr \<Rightarrow> rstr \<Rightarrow> nat \<Rightarrow> nat \<Rightarrow> walk kop" where
  "namex_step parent orig path depth ip =
     drop_on_err ip
       (kbind (ilock_h ip) (\<lambda>_ k.
        if itype_h ip k \<noteq> FDir then (Err NotADirectory, k)
        else
          (case skip_elem path of
             (Some name, Some npath) \<Rightarrow> enter orig depth ip name (Some npath) k
           | (Some name, None) \<Rightarrow> if parent then (Ok (Done orig ip), k) else enter orig depth ip name None k
           | _ \<Rightarrow> if path = [SLASH] then (Ok (Done [SLASH] ip), k) else (Err NotFound, k))))"


section \<open>The number of turns\<close>

lemma drop_on_err_Ok: "drop_on_err h m k = (Ok y, k') \<longleftrightarrow> m k = (Ok y, k')"
  by (auto simp: drop_on_err_def kbind_def kfail_def split: prod.splits outcome.splits)

lemma read_loop_total: "read_loop out dst off tot n st mem = (Ok r, mem') \<Longrightarrow> tot \<le> n \<Longrightarrow> r = n"
proof (induction out dst off tot n st mem arbitrary: mem' rule: read_loop.induct)
  case (1 out dst off tot n st mem)
  show ?case
  proof (cases "tot < n")
    case True
    from "1.prems"(1) obtain addr st1 where b: "bmap (off div BSIZE mod 2 ^ 32) False st = Ok (addr, st1)"
      using True by (subst (asm) read_loop.simps) (auto split: outcome.splits)
    define m bs where "m = min (n - tot) (BSIZE - off mod BSIZE)" and "bs = slice (off mod BSIZE) m (fs_blk (snd st) (unat addr))"
    obtain mem1 where o: "out dst bs mem = (mem1, Ok ())"
      and r: "read_loop out (dst + m) (off + m) (tot + m) n st mem1 = (Ok r, mem')"
      using "1.prems"(1) True b
      by (subst (asm) read_loop.simps) (auto simp: Let_def m_def [symmetric] bs_def [symmetric] split: prod.splits outcome.splits)
    show ?thesis
      by (rule "1.IH" [OF True b refl m_def bs_def o [symmetric] refl r]) (use True in \<open>simp add: m_def\<close>)
  next
    case False
    then show ?thesis using "1.prems" by (subst (asm) read_loop.simps) auto
  qed
qed

lemma link_target_length: "link_target st = Ok t \<Longrightarrow> length t \<le> MAXPATH"
  by (auto simp: link_target_def inode_read_def Let_def min_le_iff_disj dest!: read_loop_total split: if_splits prod.splits outcome.splits)

lemma skip_elem_rest: "skip_elem p = (Some name, Some rest) \<Longrightarrow> length rest + 2 \<le> length p"
proof -
  assume "skip_elem p = (Some name, Some rest)"
  then have t: "trim_matches SLASH p = name @ SLASH # rest"
    by (auto simp: skip_elem_def Let_def split_once_Some split: option.splits if_splits)
  have "hd (trim_matches SLASH p) \<noteq> SLASH"
  proof -
    have "\<exists>ys. trim_start SLASH p = trim_matches SLASH p @ ys"
      unfolding trim_matches_def trim_end_def
      by (rule exI [of _ "rev (takeWhile (\<lambda>x. x = SLASH) (rev (trim_start SLASH p)))"]) (simp flip: rev_append)
    then have "hd (trim_start SLASH p) = hd (trim_matches SLASH p)" "trim_start SLASH p \<noteq> []" using t by (cases name; auto)+
    then show ?thesis using hd_dropWhile [of "\<lambda>x. x = SLASH" p] by (auto simp: trim_start_def)
  qed
  then have "name \<noteq> []" using t by auto
  then have "1 \<le> length name" by (cases name) auto
  then show ?thesis using t length_trim_matches [of SLASH p] by simp
qed

lemma joined_length: "length (joined t rest) \<le> length t + (case rest of None \<Rightarrow> 0 | Some r \<Rightarrow> length r + 1)"
  by (auto simp: joined_def split: option.splits)

lemma follow_Ok:
  assumes "follow depth ip nip rest k = (Ok w, k')"
  shows "\<exists>path ip'. w = Walk path (depth + 1) ip' \<and> depth < SYMLINK_MAX_DEPTH \<and>
    length path \<le> MAXPATH + (case rest of None \<Rightarrow> 0 | Some r \<Rightarrow> length r + 1)"
proof -
  from assms obtain t k1 where t: "on_inode nip (pure link_target) k = (Ok t, k1)" and d: "depth < SYMLINK_MAX_DEPTH"
    and w: "\<exists>ip'. w = Walk (joined t rest) (depth + 1) ip'"
    by (auto simp: follow_def kfail_def kbind_Ok kret_def Let_def split: if_splits)
  from t have "length t \<le> MAXPATH" by (auto simp: on_inode_def pure_def dest: link_target_length split: prod.splits)
  then show ?thesis using w d joined_length [of t rest] by fastforce
qed

text \<open>What a turn spends: a step on the path, or one of the symbolic links.\<close>

definition walk_fuel :: "rstr \<Rightarrow> nat \<Rightarrow> nat" where
  "walk_fuel path depth = length path + (SYMLINK_MAX_DEPTH - depth) * (MAXPATH + 1)"

lemma enter_Ok:
  assumes "enter orig depth ip name rest k = (Ok (Walk path' depth' ip'), k')" "(case rest of None \<Rightarrow> 0 | Some r \<Rightarrow> length r + 1) < n"
  shows "length path' + (SYMLINK_MAX_DEPTH - depth') * (MAXPATH + 1) < n + (SYMLINK_MAX_DEPTH - depth) * (MAXPATH + 1)"
proof -
  from assms(1) consider (link) nip k1 k2 where "follow depth ip nip rest k1 = (Ok (Walk path' depth' ip'), k2)"
    | (plain) "rest = Some path'" "depth' = depth"
    by (auto simp: enter_def kbind_Ok drop_on_err_Ok kret_def split: if_splits option.splits)
  then show ?thesis
  proof cases
    case link
    then have "depth' = depth + 1" "depth < SYMLINK_MAX_DEPTH" "length path' < n + MAXPATH + 1"
      using follow_Ok [OF link] assms(2) by auto
    moreover have "SYMLINK_MAX_DEPTH - depth = Suc (SYMLINK_MAX_DEPTH - (depth + 1))" using \<open>depth < SYMLINK_MAX_DEPTH\<close> by simp
    ultimately show ?thesis by simp
  next
    case plain
    then show ?thesis using assms(2) by simp
  qed
qed

lemma namex_step_fuel:
  assumes "namex_step parent orig path depth ip k = (Ok (Walk path' depth' ip'), k')"
  shows "walk_fuel path' depth' < walk_fuel path depth"
proof -
  have ne: "0 < length path" if "skip_elem path = (Some n, None)" for n
  proof (rule ccontr)
    assume "\<not> 0 < length path"
    then have "path = []" by simp
    then show False using that by (simp add: skip_elem_def trim_matches_def trim_start_def trim_end_def)
  qed
  from assms obtain k1 name rest where e: "enter orig depth ip name rest k1 = (Ok (Walk path' depth' ip'), k')"
    and s: "skip_elem path = (Some name, rest)"
    by (auto simp: namex_step_def drop_on_err_Ok kbind_Ok split: if_splits prod.splits option.splits)
  have "(case rest of None \<Rightarrow> 0 | Some r \<Rightarrow> length r + 1) < length path"
    using s ne skip_elem_rest [of path name] by (cases rest) auto
  then show ?thesis using enter_Ok [OF e] by (simp add: walk_fuel_def)
qed

function namex_loop :: "bool \<Rightarrow> rstr \<Rightarrow> rstr \<Rightarrow> nat \<Rightarrow> nat \<Rightarrow> (rstr \<times> nat) kop" where
  "namex_loop parent orig path depth ip k =
     (case namex_step parent orig path depth ip k of
        (Ok (Done name h), k') \<Rightarrow> (Ok (name, h), k')
      | (Ok (Walk path' depth' ip'), k') \<Rightarrow> namex_loop parent orig path' depth' ip' k'
      | (Err e, k') \<Rightarrow> (Err e, k')
      | (Panic, k') \<Rightarrow> (Panic, k'))"
  by pat_completeness auto
termination
  by (relation "measure (\<lambda>(parent, orig, path, depth, ip, k). walk_fuel path depth)") (auto dest: sym intro: namex_step_fuel)

declare namex_loop.simps [simp del]

definition namex :: "rstr \<Rightarrow> bool \<Rightarrow> (rstr \<times> nat) kop" where
  "namex path parent =
     (if starts_with [SLASH] path then
        kbind (iget ROOTDEV ROOTINO) (namex_loop parent (orig_name path) path 0)
      else (\<lambda>k. namex_loop parent (orig_name path) path 0 (k_cwd k) (idup (k_cwd k) k)))"

definition namei :: "rstr \<Rightarrow> (rstr \<times> nat) kop" where "namei p = namex p False"

definition nameiparent :: "rstr \<Rightarrow> (rstr \<times> nat) kop" where "nameiparent p = namex p True"


section \<open>The walk ends\<close>

text \<open>The loop cut off after a number of turns: \<open>None\<close> if it is still running then.\<close>

fun namex_turns :: "nat \<Rightarrow> bool \<Rightarrow> rstr \<Rightarrow> rstr \<Rightarrow> nat \<Rightarrow> nat \<Rightarrow> kfs \<Rightarrow> ((rstr \<times> nat) result \<times> kfs) option" where
  "namex_turns 0 parent orig path depth ip k = None"
| "namex_turns (Suc n) parent orig path depth ip k =
     (case namex_step parent orig path depth ip k of
        (Ok (Done name h), k') \<Rightarrow> Some (Ok (name, h), k')
      | (Ok (Walk path' depth' ip'), k') \<Rightarrow> namex_turns n parent orig path' depth' ip' k'
      | (Err e, k') \<Rightarrow> Some (Err e, k')
      | (Panic, k') \<Rightarrow> Some (Panic, k'))"

lemma namex_turns_fuel:
  "walk_fuel path depth < n \<Longrightarrow> namex_turns n parent orig path depth ip k = Some (namex_loop parent orig path depth ip k)"
proof (induction n arbitrary: path depth ip k)
  case (Suc n)
  then show ?case
    using namex_step_fuel [of parent orig path depth ip k]
    by (subst namex_loop.simps) (fastforce split: prod.split outcome.split walk.split)
qed simp

text \<open>
  C16. Looking up a path always ends, whatever directories and symbolic links are on the disk, cycles of
  links included: after at most as many turns as the path has bytes, plus the length of the longest
  link for each of the links that may be followed.
\<close>

theorem namex_terminates:
  "namex_turns (length path + SYMLINK_MAX_DEPTH * (MAXPATH + 1) + 1) parent orig path 0 ip k = Some (namex_loop parent orig path 0 ip k)"
  by (rule namex_turns_fuel) (simp add: walk_fuel_def)

end
