(* ===== verification/Fs_Ops.thy ===== *)
theory Fs_Ops
  imports Fs_Path
begin

text \<open>
  The operations on names (\<^verbatim>\<open>create\<close>, \<^verbatim>\<open>link\<close>, \<^verbatim>\<open>symlink\<close> and \<^verbatim>\<open>unlink\<close> of
  \<^verbatim>\<open>crates/kernel/src/fs.rs\<close>). They run inside a transaction that the system call begins and
  ends. References go out of scope in the reverse order of their declaration, after the locks.
\<close>

abbreviation dotname :: rstr where "dotname \<equiv> [DOT]"
abbreviation dotdotname :: rstr where "dotdotname \<equiv> [DOT, DOT]"

definition on_st :: "nat \<Rightarrow> (inode_state \<Rightarrow> inode_state) \<Rightarrow> unit kop" where
  "on_st h f = on_inode h (\<lambda>st. (Ok (), f st))"

definition major_from_u16 :: "16 word \<Rightarrow> 16 word" where
  "major_from_u16 b = (if b = 0 then 0 else if b = 1 then 1 else if b = 2 then 2 else 3)"

definition create_dots :: "nat \<Rightarrow> nat \<Rightarrow> unit kop" where
  "create_dots ip dp k =
     kbind (dirlink ip dotname (mi_inum (k_node k ip))) (\<lambda>_ k1. dirlink ip dotdotname (mi_inum (k_node k1 dp)) k1) k"

definition create_new :: "nat \<Rightarrow> rstr \<Rightarrow> file_type \<Rightarrow> 16 word \<Rightarrow> 16 word \<Rightarrow> nat \<Rightarrow> nat kop" where
  "create_new dp name t major minor ip =
     kbind (ilock_h ip) (\<lambda>_.
     kbind (if t = FDir then create_dots ip dp else kret ()) (\<lambda>_ k.
     kbind (dirlink dp name (mi_inum (k_node k ip))) (\<lambda>_.
     kbind (if t = FDir then on_st dp (set_nlink LinkPlus) else kret ()) (\<lambda>_.
     kbind (on_st ip (\<lambda>st. init_times (set_nlink (LinkInit 1) (set_major_minor (major_from_u16 major) minor st)))) (\<lambda>_.
     kret ip))) k))"

definition create :: "rstr \<Rightarrow> file_type \<Rightarrow> 16 word \<Rightarrow> 16 word \<Rightarrow> nat kop" where
  "create path t major minor =
     kbind (nameiparent path) (\<lambda>(name, dp).
     with_ref dp
       (kbind (ilock_h dp) (\<lambda>_ k.
        case dirlookup dp name k of
          (Ok (_, ip), k1) \<Rightarrow>
            drop_on_err ip
              (kbind (ilock_h ip) (\<lambda>_ k2.
               if t = FFile \<and> (itype_h ip k2 = FFile \<or> itype_h ip k2 = FDevice) then (Ok ip, k2)
               else (Err AlreadyExists, k2))) k1
        | (Panic, k1) \<Rightarrow> (Panic, k1)
        | (Err _, k1) \<Rightarrow>
            kbind (ialloc (mi_dev (k_node k1 dp)) t) (\<lambda>ip. drop_on_err ip (create_new dp name t major minor ip)) k1)))"

definition link :: "rstr \<Rightarrow> rstr \<Rightarrow> unit kop" where
  "link old new =
     kbind (namei old) (\<lambda>(_, ip).
     with_ref ip
       (kbind (ilock_h ip) (\<lambda>_ k.
        if itype_h ip k = FDir then (Err IsADirectory, k)
        else
          kbind (nameiparent new) (\<lambda>(name, dp).
          with_ref dp
            (kbind (ilock_h dp) (\<lambda>_ k1.
             if mi_dev (k_node k1 dp) \<noteq> mi_dev (k_node k1 ip) then (Err CrossesDevices, k1)
             else
               kbind (dirlink dp name (mi_inum (k_node k1 ip))) (\<lambda>_.
               kbind (ilock_h ip) (\<lambda>_.
               on_st ip (\<lambda>(d, s). let d' = d\<lparr>id_nlink := id_nlink d + 1\<rparr> in (d', iupdate d' s)))) k1))) k)))"

definition symlink :: "rstr \<Rightarrow> rstr \<Rightarrow> unit kop" where
  "symlink target linkpath =
     kbind (create linkpath FSymlink 0 0) (\<lambda>ip.
     with_ref ip
       (kbind (ilock_h ip) (\<lambda>_.
        if target = [] \<or> MAXPATH < length target then kfail InvalidArgument
        else
          kbind (on_inode ip (inode_write (kern_in target) 0 0 (length target))) (\<lambda>_.
          on_st ip touch_mtime_ctime))))"

definition unlink :: "rstr \<Rightarrow> unit kop" where
  "unlink path =
     kbind (nameiparent path) (\<lambda>(name, dp).
     with_ref dp
       (kbind (ilock_h dp) (\<lambda>_.
        if name = dotname \<or> name = dotdotname then kfail PermissionDenied
        else
          kbind (dirlookup dp name) (\<lambda>(off, ip).
          with_ref ip
            (kbind (ilock_h ip) (\<lambda>_ k.
             if id_nlink (mi_data (k_node k ip)) < 1 then (Panic, k)
             else
               kbind (if itype_h ip k = FDir then on_inode ip (pure is_dir_empty) else kret True) (\<lambda>removable.
               if \<not> removable then kfail DirectoryNotEmpty
               else
                 kbind (on_inode dp (dir_clear off)) (\<lambda>_ k1.
                 kbind (if itype_h ip k1 = FDir then on_st dp (set_nlink LinkMinus) else kret ()) (\<lambda>_.
                 kbind (on_st dp touch_mtime_ctime) (\<lambda>_.
                 on_st ip (set_nlink LinkMinus))) k1)) k))))))"

end
