(* ===== verification/Fs_Refs.thy ===== *)
theory Fs_Refs
  imports Fs_Ops
begin

text \<open>
  References to inodes. The invariant \<open>kinv\<close> of the inode table: an inode is in the table, once,
  exactly while there are references to it, and there is one in-memory copy per inode. The triples
  \<open>owns P m Q E\<close> account for references: an operation that starts with the references \<open>P\<close> of the
  caller ends with \<open>Q x\<close> if it succeeds with \<open>x\<close> and with \<open>E\<close> if it fails, and it leaves the
  references \<open>F\<close> of everybody else alone. One of those is the reference of the process to its working
  directory.
\<close>

section \<open>The invariant\<close>

abbreviation refs :: "kfs \<Rightarrow> nat \<Rightarrow> nat" where
  "refs k h \<equiv> mi_refs (k_node k h)"

definition kinv :: "kfs \<Rightarrow> bool" where
  "kinv k \<longleftrightarrow> (\<forall>h. count_list (k_tab k) (Some h) = (if 0 < refs k h then 1 else 0)) \<and>
     (\<forall>h \<ge> k_next k. refs k h = 0) \<and>
     (\<forall>h h'. 0 < refs k h \<longrightarrow> 0 < refs k h' \<longrightarrow> mi_dev (k_node k h) = mi_dev (k_node k h') \<longrightarrow>
        mi_inum (k_node k h) = mi_inum (k_node k h') \<longrightarrow> h = h')"

lemma kinv_mem: "kinv k \<Longrightarrow> Some h \<in> set (k_tab k) \<longleftrightarrow> 0 < refs k h"
proof -
  assume "kinv k"
  then have "count_list (k_tab k) (Some h) = (if 0 < refs k h then 1 else 0)" by (simp add: kinv_def)
  then show ?thesis using count_list_0_iff [of "k_tab k" "Some h"] by (cases "0 < refs k h") auto
qed

lemma tab_scan_cases:
  "case tab_scan node dev inum es i free of
     Inl h \<Rightarrow> Some h \<in> set es \<and> mi_dev (node h) = dev \<and> mi_inum (node h) = inum
   | Inr e \<Rightarrow> (\<forall>h. Some h \<in> set es \<longrightarrow> \<not> (mi_dev (node h) = dev \<and> mi_inum (node h) = inum)) \<and>
       (e = free \<or> (\<exists>j < length es. e = Some (i + j) \<and> es ! j = None \<and> free = None))"
proof (induction es arbitrary: i free)
  case (Cons e es)
  note ih = Cons.IH [of free "i + 1"] Cons.IH [of "if free = None then Some i else free" "i + 1"]
  show ?case
  proof (cases e)
    case None
    then show ?thesis using ih(2)
      by (cases "tab_scan node dev inum es (i + 1) (if free = None then Some i else free)") (auto split: if_splits)
  next
    case (Some h)
    show ?thesis
    proof (cases "mi_dev (node h) = dev \<and> mi_inum (node h) = inum")
      case True
      then show ?thesis using Some by simp
    next
      case False
      then have ts: "tab_scan node dev inum (e # es) i free = tab_scan node dev inum es (i + 1) free" using Some by auto
      show ?thesis
      proof (cases "tab_scan node dev inum es (i + 1) free")
        case (Inl h')
        then show ?thesis using ih(1) ts by auto
      next
        case (Inr r)
        then have r: "r = free \<or> (\<exists>j < length es. r = Some (i + 1 + j) \<and> es ! j = None \<and> free = None)"
          and n: "\<forall>h. Some h \<in> set es \<longrightarrow> \<not> (mi_dev (node h) = dev \<and> mi_inum (node h) = inum)" using ih(1) by simp_all
        have "r = free \<or> (\<exists>j < length (e # es). r = Some (i + j) \<and> (e # es) ! j = None \<and> free = None)"
          using r by (metis One_nat_def Suc_less_eq add.assoc length_Cons nth_Cons_Suc plus_1_eq_Suc)
        then show ?thesis using n False Some ts Inr by auto
      qed
    qed
  qed
qed simp

lemma count_list_update: "i < length xs \<Longrightarrow> xs ! i \<noteq> x \<Longrightarrow> count_list (xs[i := y]) x = count_list xs x + (if y = x then 1 else 0)"
proof -
  assume i: "i < length xs" "xs ! i \<noteq> x"
  have "xs = take i xs @ xs ! i # drop (Suc i) xs" using i(1) by (rule id_take_nth_drop)
  then have "count_list xs x = count_list (take i xs) x + count_list (drop (Suc i) xs) x"
    using i(2) by (metis count_list.simps(2) count_list_append)
  then show ?thesis using i(1) by (simp add: upd_conv_take_nth_drop)
qed

lemma count_list_leave:
  "count_list (map (\<lambda>e. if e = Some h then None else e) xs) (Some h') = (if h' = h then 0 else count_list xs (Some h'))"
  by (induction xs) auto

section \<open>Accounting\<close>

definition held :: "nat \<Rightarrow> nat multiset \<Rightarrow> (nat \<Rightarrow> nat) \<Rightarrow> kfs \<Rightarrow> bool" where
  "held c P F k \<longleftrightarrow> kinv k \<and> k_cwd k = c \<and> (\<forall>h. refs k h = count P h + F h)"

fun outcome_held :: "nat \<Rightarrow> ('a \<Rightarrow> nat multiset) \<Rightarrow> nat multiset \<Rightarrow> (nat \<Rightarrow> nat) \<Rightarrow> 'a result \<times> kfs \<Rightarrow> bool" where
  "outcome_held c Q E F (Ok x, k) = held c (Q x) F k"
| "outcome_held c Q E F (Err e, k) = held c E F k"
| "outcome_held c Q E F (Panic, k) = True"

definition owns :: "nat multiset \<Rightarrow> 'a kop \<Rightarrow> ('a \<Rightarrow> nat multiset) \<Rightarrow> nat multiset \<Rightarrow> bool" where
  "owns P m Q E \<longleftrightarrow> (\<forall>k c F. held c P F k \<longrightarrow> 0 < F c \<longrightarrow> outcome_held c Q E F (m k))"

lemma ownsI: "(\<And>k c F. held c P F k \<Longrightarrow> 0 < F c \<Longrightarrow> outcome_held c Q E F (m k)) \<Longrightarrow> owns P m Q E"
  by (simp add: owns_def)

lemma ownsD: "owns P m Q E \<Longrightarrow> held c P F k \<Longrightarrow> 0 < F c \<Longrightarrow> outcome_held c Q E F (m k)"
  by (simp add: owns_def)

lemma owns_ret: "owns (Q x) (kret x) Q E"
  by (simp add: owns_def kret_def)

lemma owns_fail: "owns E (kfail e) Q E"
  by (simp add: owns_def kfail_def)

lemma owns_bind:
  assumes "owns P m Q E" "\<And>x. owns (Q x) (f x) R E"
  shows "owns P (kbind m f) R E"
proof (rule ownsI)
  fix k c F assume a: "held c P F k" "0 < F c"
  obtain r k1 where m: "m k = (r, k1)" by (cases "m k")
  have "outcome_held c Q E F (r, k1)" using ownsD [OF assms(1) a] m by simp
  then show "outcome_held c R E F (kbind m f k)"
    using m a(2) ownsD [OF assms(2)] by (cases r) (simp_all add: kbind_def)
qed

lemma owns_if: "owns P a Q E \<Longrightarrow> owns P b Q E \<Longrightarrow> owns P (\<lambda>k. if c k then a k else b k) Q E"
  by (simp add: owns_def)

lemma owns_try:
  assumes "owns P m Q E'" "\<And>x. owns (Q x) (f x) R E" "\<And>e. owns E' (g e) R E"
  shows "owns P (\<lambda>k. case m k of (Ok x, k1) \<Rightarrow> f x k1 | (Err e, k1) \<Rightarrow> g e k1 | (Panic, k1) \<Rightarrow> (Panic, k1)) R E"
proof (rule ownsI)
  fix k c F assume a: "held c P F k" "0 < F c"
  obtain r k1 where m: "m k = (r, k1)" by (cases "m k")
  have "outcome_held c Q E' F (r, k1)" using ownsD [OF assms(1) a] m by simp
  then show "outcome_held c R E F (case m k of (Ok x, k1) \<Rightarrow> f x k1 | (Err e, k1) \<Rightarrow> g e k1 | (Panic, k1) \<Rightarrow> (Panic, k1))"
    using m a(2) ownsD [OF assms(2)] ownsD [OF assms(3)] by (cases r) simp_all
qed

lemma owns_state: "(\<And>k. owns P (m k) Q E) \<Longrightarrow> owns P (\<lambda>k. m k k) Q E"
  by (simp add: owns_def)

lemma owns_on_inode: "owns P (on_inode h f) (\<lambda>_. P) P"
proof (rule ownsI)
  fix k c F assume a: "held c P F k"
  obtain r ip s where f: "f (mi_data (k_node k h), k_fs k) = (r, ip, s)" by (cases "f (mi_data (k_node k h), k_fs k)")
  let ?k = "set_node h ((k_node k h)\<lparr>mi_data := ip\<rparr>) (k\<lparr>k_fs := s\<rparr>)"
  have same: "refs ?k g = refs k g" "mi_dev (k_node ?k g) = mi_dev (k_node k g)" "mi_inum (k_node ?k g) = mi_inum (k_node k g)" for g
    by (simp_all add: set_node_def)
  have t: "k_tab ?k = k_tab k" "k_next ?k = k_next k" "k_cwd ?k = k_cwd k" by (simp_all add: set_node_def)
  have "held c P F ?k" using a unfolding held_def kinv_def same t .
  then show "outcome_held c (\<lambda>_. P) P F (on_inode h f k)" by (cases r) (simp_all add: on_inode_def f)
qed

lemma idup_inv:
  assumes "kinv k" "0 < refs k h"
  shows "kinv (idup h k)" "refs (idup h k) g = refs k g + (if g = h then 1 else 0)" "k_cwd (idup h k) = k_cwd k"
proof -
  show "refs (idup h k) g = refs k g + (if g = h then 1 else 0)" "k_cwd (idup h k) = k_cwd k" for g
    by (simp_all add: idup_def set_node_def)
  have r: "0 < refs (idup h k) g \<longleftrightarrow> 0 < refs k g" "mi_dev (k_node (idup h k) g) = mi_dev (k_node k g)"
      "mi_inum (k_node (idup h k) g) = mi_inum (k_node k g)" for g
    using assms(2) by (simp_all add: idup_def set_node_def)
  have z: "refs (idup h k) g = 0 \<longleftrightarrow> refs k g = 0" for g using r(1) [of g] by auto
  have t: "k_tab (idup h k) = k_tab k" "k_next (idup h k) = k_next k" by (simp_all add: idup_def set_node_def)
  show "kinv (idup h k)" using assms(1) unfolding kinv_def r t z .
qed


lemma iget_new_inv:
  assumes "kinv k" "i < length (k_tab k)" "k_tab k ! i = None"
    and "\<forall>h. Some h \<in> set (k_tab k) \<longrightarrow> \<not> (mi_dev (k_node k h) = dev \<and> mi_inum (k_node k h) = inum)"
  defines "k' \<equiv> set_node (k_next k) (minode_new dev inum) (k\<lparr>k_tab := (k_tab k)[i := Some (k_next k)], k_next := k_next k + 1\<rparr>)"
  shows "kinv k'" "refs k' h = refs k h + (if h = k_next k then 1 else 0)" "k_cwd k' = k_cwd k"
proof -
  have z: "refs k h = 0" if "k_next k \<le> h" for h using assms(1) that by (simp add: kinv_def)
  show r: "refs k' h = refs k h + (if h = k_next k then 1 else 0)" for h
    using z [of "k_next k"] by (simp add: k'_def set_node_def minode_new_def)
  show "k_cwd k' = k_cwd k" by (simp add: k'_def set_node_def)
  have n: "k_node k' h = (if h = k_next k then minode_new dev inum else k_node k h)" "k_next k' = k_next k + 1"
      "k_tab k' = (k_tab k)[i := Some (k_next k)]" for h
    by (simp_all add: k'_def set_node_def)
  have c: "count_list (k_tab k') (Some h) = (if 0 < refs k' h then 1 else 0)" for h
  proof -
    have "count_list (k_tab k) (Some h) = (if 0 < refs k h then 1 else 0)" using assms(1) by (simp add: kinv_def)
    moreover have "count_list (k_tab k') (Some h) = count_list (k_tab k) (Some h) + (if k_next k = h then 1 else 0)"
      using count_list_update [OF assms(2), of "Some h" "Some (k_next k)"] assms(3) by (simp add: n(3))
    ultimately show ?thesis using r [of h] z [of h] by (cases "h = k_next k") simp_all
  qed
  moreover have "refs k' h = 0" if "k_next k' \<le> h" for h using that z [of h] r [of h] n(2) by simp
  moreover have "h = h'" if d: "0 < refs k' h" "0 < refs k' h'" "mi_dev (k_node k' h) = mi_dev (k_node k' h')" "mi_inum (k_node k' h) = mi_inum (k_node k' h')" for h h'
  proof (cases "h = k_next k \<or> h' = k_next k")
    case True
    have "\<not> (mi_dev (k_node k g) = dev \<and> mi_inum (k_node k g) = inum)" if "0 < refs k g" for g
      using assms(4) kinv_mem [OF assms(1)] that by blast
    then show ?thesis using True d r [of h] r [of h'] by (auto simp: n(1) minode_new_def split: if_splits)
  next
    case False
    then have "0 < refs k h" "0 < refs k h'" "mi_dev (k_node k h) = mi_dev (k_node k h')" "mi_inum (k_node k h) = mi_inum (k_node k h')"
      using d r [of h] r [of h'] by (simp_all add: n(1))
    then show ?thesis using assms(1) unfolding kinv_def by blast
  qed
  ultimately show "kinv k'" unfolding kinv_def by blast
qed

lemma owns_iget: "owns P (iget dev inum) (\<lambda>h. add_mset h P) P"
proof (rule ownsI)
  fix k c F assume a: "held c P F k"
  then have k: "kinv k" "k_cwd k = c" "\<And>h. refs k h = count P h + F h" by (auto simp: held_def)
  note sc = tab_scan_cases [where node = "k_node k" and dev = dev and inum = inum and es = "k_tab k" and i = 0 and free = None]
  show "outcome_held c (\<lambda>h. add_mset h P) P F (iget dev inum k)"
  proof (cases "tab_scan (k_node k) dev inum (k_tab k) 0 None")
    case (Inl h)
    then have "0 < refs k h" using sc kinv_mem [OF k(1)] by simp
    note d = idup_inv [OF k(1) this]
    have "held c (add_mset h P) F (idup h k)" using d k(2,3) unfolding held_def by simp
    then show ?thesis using Inl by (simp add: iget_def)
  next
    case (Inr e)
    show ?thesis
    proof (cases e)
      case None
      then show ?thesis using Inr a by (simp add: iget_def)
    next
      case (Some i)
      then have "i < length (k_tab k)" "k_tab k ! i = None"
          "\<forall>h. Some h \<in> set (k_tab k) \<longrightarrow> \<not> (mi_dev (k_node k h) = dev \<and> mi_inum (k_node k h) = inum)"
        using sc Inr by auto
      note n = iget_new_inv [OF k(1) this]
      show ?thesis using Inr Some n k(2,3) by (simp add: iget_def Let_def held_def)
    qed
  qed
qed

lemma bfree_no_err: "bfree b s \<noteq> Err e"
  by (simp add: bfree_def Let_def)

lemma free_addrs_no_err: "free_addrs as s \<noteq> Err e"
  by (induction as arbitrary: s) (auto simp: bfree_no_err)

lemma free_indirect_no_err: "free_indirect a s \<noteq> Err e" "free_indirects as s \<noteq> Err e"
proof -
  show i: "free_indirect a s \<noteq> Err e" for a s by (auto simp: free_indirect_def bfree_no_err free_addrs_no_err)
  show "free_indirects as s \<noteq> Err e" by (induction as arbitrary: s) (auto simp: i)
qed

lemma put_free_no_err: "put_free st \<noteq> Err e"
  by (cases st) (auto simp: put_free_def trunc_def free_double_def free_addrs_no_err free_indirect_no_err bfree_no_err Let_def split: prod.splits)

lemma unref_inv:
  assumes "kinv k" "1 < refs k h"
  shows "kinv (unref h k)"
proof -
  have r: "0 < refs (unref h k) g \<longleftrightarrow> 0 < refs k g" "mi_dev (k_node (unref h k) g) = mi_dev (k_node k g)"
      "mi_inum (k_node (unref h k) g) = mi_inum (k_node k g)" for g
    using assms(2) by (auto simp: unref_def set_node_def)
  have z: "refs (unref h k) g = 0 \<longleftrightarrow> refs k g = 0" for g using r(1) [of g] by auto
  have t: "k_tab (unref h k) = k_tab k" "k_next (unref h k) = k_next k" by (simp_all add: unref_def set_node_def)
  show ?thesis using assms(1) unfolding kinv_def r t z .
qed

lemma leave_inv:
  assumes "kinv k" "refs k h = 1"
  shows "kinv (unref h (tab_leave h k))"
proof -
  let ?k = "unref h (tab_leave h k)"
  have r: "refs ?k g = (if g = h then 0 else refs k g)" "mi_dev (k_node ?k g) = mi_dev (k_node k g)"
      "mi_inum (k_node ?k g) = mi_inum (k_node k g)" for g
    using assms(2) by (auto simp: unref_def tab_leave_def set_node_def)
  have "count_list (k_tab ?k) (Some g) = (if g = h then 0 else count_list (k_tab k) (Some g))" for g
    using count_list_leave [of h "k_tab k" g] by (simp add: unref_def tab_leave_def set_node_def)
  moreover have "k_next ?k = k_next k" by (simp add: unref_def tab_leave_def set_node_def)
  ultimately show ?thesis using assms(1) unfolding kinv_def r by auto
qed

lemma owns_iput: "owns (add_mset h P) (iput h) (\<lambda>_. P) E"
proof (rule ownsI)
  fix k c F assume a: "held c (add_mset h P) F k" "0 < F c"
  then have k: "kinv k" "k_cwd k = c" "\<And>g. refs k g = count (add_mset h P) g + F g" by (auto simp: held_def)
  have pos: "0 < refs k h" using k(3) [of h] by simp
  then have sc: "strong_count h k = refs k h + 1" using k(1) by (simp add: strong_count_def kinv_def)
  have un: "refs (unref h k') g = refs k' g - (if g = h then 1 else 0)" "k_cwd (unref h k') = k_cwd k'"
     "refs (unref h (tab_leave h k')) g = refs k' g - (if g = h then 1 else 0)" "k_cwd (unref h (tab_leave h k')) = k_cwd k'" for k' g
    by (simp_all add: unref_def set_node_def tab_leave_def)
  show "outcome_held c (\<lambda>_. P) E F (iput h k)"
  proof (cases "refs k h = 1")
    case True
    obtain r k1 where o: "on_inode h (stateful put_free) k = (r, k1)" by (cases "on_inode h (stateful put_free) k")
    have h1: "outcome_held c (\<lambda>_. add_mset h P) (add_mset h P) F (r, k1)" using ownsD [OF owns_on_inode a, of h "stateful put_free"] o by simp
    have ne: "r \<noteq> Err e" for e using o put_free_no_err by (auto simp: on_inode_def stateful_def split: outcome.splits prod.splits)
    show ?thesis
    proof (cases r)
      case (Ok x)
      then have k1: "kinv k1" "k_cwd k1 = c" "\<And>g. refs k1 g = count (add_mset h P) g + F g" using h1 by (auto simp: held_def)
      then have "refs k1 h = 1" using True k(3) [of h] by simp
      note l = leave_inv [OF k1(1) this]
      have "held c P F (unref h (tab_leave h k1))" using l un(3,4) k1(2,3) unfolding held_def by auto
      then show ?thesis using True sc o Ok by (simp add: iput_def put_start_def put_finish_def kbind_def kret_def)
    qed (use ne True sc o in \<open>simp_all add: iput_def put_start_def kbind_def\<close>)
  next
    case False
    then have "1 < refs k h" using pos by simp
    note u = unref_inv [OF k(1) this]
    have "held c P F (unref h k)" using u un(1,2) k(2,3) unfolding held_def by auto
    then show ?thesis using False pos sc by (simp add: iput_def put_start_def put_finish_def kbind_def)
  qed
qed

lemma owns_with_ref:
  assumes "owns P m (\<lambda>x. add_mset h (Q x)) (add_mset h E)"
  shows "owns P (with_ref h m) Q E"
proof (rule ownsI)
  fix k c F assume a: "held c P F k" "0 < F c"
  obtain r k1 where m: "m k = (r, k1)" by (cases "m k")
  have o: "outcome_held c (\<lambda>x. add_mset h (Q x)) (add_mset h E) F (r, k1)" using ownsD [OF assms a] m by simp
  obtain r' k2 where p: "iput h k1 = (r', k2)" by (cases "iput h k1")
  have "outcome_held c (\<lambda>_. P') P' F (r', k2)" if "held c (add_mset h P') F k1" for P'
    using ownsD [OF owns_iput that a(2), of P'] p by simp
  then show "outcome_held c Q E F (with_ref h m k)"
    using o m p by (cases r; cases r') (fastforce simp: with_ref_def)+
qed

lemma owns_drop_on_err:
  assumes "owns P m Q (add_mset h E)"
  shows "owns P (drop_on_err h m) Q E"
proof (rule ownsI)
  fix k c F assume a: "held c P F k" "0 < F c"
  obtain r k1 where m: "m k = (r, k1)" by (cases "m k")
  have o: "outcome_held c Q (add_mset h E) F (r, k1)" using ownsD [OF assms a] m by simp
  have "owns (add_mset h E) (kbind (iput h) (\<lambda>_. kfail e)) Q E" for e
    by (rule owns_bind [OF owns_iput owns_fail])
  then show "outcome_held c Q E F (drop_on_err h m k)"
    using o m a(2) by (cases r) (auto simp: drop_on_err_def owns_def)
qed


section \<open>The operations\<close>

lemma owns_ilock: "owns P (ilock_h h) (\<lambda>_. P) P"
  unfolding ilock_h_def by (rule owns_on_inode)

lemma owns_on_st: "owns P (on_st h f) (\<lambda>_. P) P"
  unfolding on_st_def by (rule owns_on_inode)

lemma owns_retI: "P = Q x \<Longrightarrow> owns P (kret x) Q E"
  by (simp add: owns_ret)

lemma owns_failI: "P = E \<Longrightarrow> owns P (kfail e) Q E"
  by (simp add: owns_fail)

lemma owns_const: "P = Q x \<Longrightarrow> owns P (\<lambda>k. (Ok x, k)) Q E" "P = E \<Longrightarrow> owns P (\<lambda>k. (Err e, k)) Q E" "owns P (\<lambda>k. (Panic, k)) Q E"
  by (simp_all add: owns_def)

lemma owns_dirlookup: "owns P (dirlookup dp name) (\<lambda>(off, h). add_mset h P) P"
  unfolding dirlookup_def
proof (rule owns_bind [OF owns_on_inode])
  fix x
  show "owns P (case x of (off, inum) \<Rightarrow> \<lambda>k. kbind (iget (id_dev (mi_data (k_node k dp))) (ucast inum)) (\<lambda>h. kret (off, h)) k)
      (\<lambda>(off, h). add_mset h P) P"
  proof (cases x)
    case (Pair off inum)
    have "owns P (kbind (iget d i) (\<lambda>h. kret (off, h))) (\<lambda>(off, h). add_mset h P) P" for d i
      by (rule owns_bind [OF owns_iget owns_retI]) simp
    then show ?thesis unfolding Pair prod.case by (rule owns_state [of P "\<lambda>k. kbind (iget (id_dev (mi_data (k_node k dp))) (ucast inum)) (\<lambda>h. kret (off, h))"])
  qed
qed

lemma owns_dirlink: "owns P (dirlink dp name inum) (\<lambda>_. P) P"
proof -
  have "owns P (\<lambda>k. case dirlookup dp name k of
      (Ok x, k1) \<Rightarrow> with_ref (snd x) (kfail AlreadyExists) k1
    | (Err e, k1) \<Rightarrow> (if e = NotFound then on_inode dp (dir_add name inum) else kfail e) k1
    | (Panic, k1) \<Rightarrow> (Panic, k1)) (\<lambda>_. P) P"
    by (rule owns_try [OF owns_dirlookup]) (auto intro: owns_with_ref [OF owns_fail] owns_fail owns_on_inode)
  moreover have "dirlink dp name inum = (\<lambda>k. case dirlookup dp name k of
      (Ok x, k1) \<Rightarrow> with_ref (snd x) (kfail AlreadyExists) k1
    | (Err e, k1) \<Rightarrow> (if e = NotFound then on_inode dp (dir_add name inum) else kfail e) k1
    | (Panic, k1) \<Rightarrow> (Panic, k1))"
    by (auto simp: dirlink_def fun_eq_iff kfail_def split: prod.splits outcome.splits)
  ultimately show ?thesis by simp
qed

fun walk_end :: "walk \<Rightarrow> nat" where
  "walk_end (Done _ h) = h"
| "walk_end (Walk _ _ h) = h"

lemma owns_follow: "owns (add_mset ip P) (follow depth ip nip rest) (\<lambda>w. add_mset (walk_end w) P) (add_mset ip P)"
proof -
  have "owns (add_mset ip P)
      (if starts_with [SLASH] path then kbind (iget ROOTDEV ROOTINO) (\<lambda>root. kbind (iput ip) (\<lambda>_. kret (Walk path (depth + 1) root)))
       else kret (Walk path (depth + 1) ip)) (\<lambda>w. add_mset (walk_end w) P) (add_mset ip P)" for path
  proof (cases "starts_with [SLASH] path")
    case True
    have "owns (add_mset root (add_mset ip P)) (kbind (iput ip) (\<lambda>_. kret (Walk path (depth + 1) root))) (\<lambda>w. add_mset (walk_end w) P) (add_mset ip P)" for root
      by (subst add_mset_commute, rule owns_bind [OF owns_iput owns_retI]) simp
    from owns_bind [OF owns_iget this] show ?thesis using True by simp
  qed (simp add: owns_retI)
  then show ?thesis
    unfolding follow_def Let_def by (cases "SYMLINK_MAX_DEPTH \<le> depth") (auto intro!: owns_failI owns_bind [OF owns_on_inode])
qed

lemma owns_enter: "owns (add_mset ip P) (enter orig depth ip name rest) (\<lambda>w. add_mset (walk_end w) P) (add_mset ip P)"
proof -
  let ?w = "\<lambda>nip. case rest of Some npath \<Rightarrow> Walk npath depth nip | None \<Rightarrow> Done orig nip"
  have we: "walk_end (?w nip) = nip" for nip by (cases rest) simp_all
  have link: "owns (add_mset nip (add_mset ip P)) (kbind (follow depth ip nip rest) (\<lambda>w. kbind (iput nip) (\<lambda>_. kret w)))
      (\<lambda>w. add_mset (walk_end w) P) (add_mset nip (add_mset ip P))" for nip
  proof (rule owns_bind)
    show "owns (add_mset nip (add_mset ip P)) (follow depth ip nip rest) (\<lambda>w. add_mset nip (add_mset (walk_end w) P)) (add_mset nip (add_mset ip P))"
      using owns_follow [of ip "add_mset nip P" depth nip rest] by (simp add: add_mset_commute)
  qed (rule owns_bind [OF owns_iput owns_retI], simp)
  have plain: "owns (add_mset nip (add_mset ip P)) (kbind (iput ip) (\<lambda>_. kret (?w nip))) (\<lambda>w. add_mset (walk_end w) P) (add_mset nip (add_mset ip P))" for nip
    by (subst add_mset_commute, rule owns_bind [OF owns_iput owns_retI]) (simp add: we)
  show ?thesis
    unfolding enter_def
  proof (rule owns_bind [OF owns_dirlookup])
    fix x :: "nat \<times> nat"
    obtain off nip where x: "x = (off, nip)" by (cases x)
    have "owns (add_mset nip (add_mset ip P))
        (drop_on_err nip (kbind (ilock_h nip) (\<lambda>_ k. if itype_h nip k = FSymlink then kbind (follow depth ip nip rest) (\<lambda>w. kbind (iput nip) (\<lambda>_. kret w)) k
          else kbind (iput ip) (\<lambda>_. kret (?w nip)) k))) (\<lambda>w. add_mset (walk_end w) P) (add_mset ip P)"
      by (rule owns_drop_on_err, rule owns_bind [OF owns_ilock], rule owns_if [OF link plain])
    then show "owns (case x of (off, h) \<Rightarrow> add_mset h (add_mset ip P))
        (case x of (_, nip) \<Rightarrow> drop_on_err nip (kbind (ilock_h nip) (\<lambda>_ k. if itype_h nip k = FSymlink then kbind (follow depth ip nip rest) (\<lambda>w. kbind (iput nip) (\<lambda>_. kret w)) k
          else kbind (iput ip) (\<lambda>_. kret (?w nip)) k))) (\<lambda>w. add_mset (walk_end w) P) (add_mset ip P)"
      by (simp add: x)
  qed
qed

lemma owns_namex_step: "owns (add_mset ip P) (namex_step parent orig path depth ip) (\<lambda>w. add_mset (walk_end w) P) P"
proof -
  have "owns (add_mset ip P)
     (\<lambda>k. case skip_elem path of
        (Some name, Some npath) \<Rightarrow> enter orig depth ip name (Some npath) k
      | (Some name, None) \<Rightarrow> if parent then (Ok (Done orig ip), k) else enter orig depth ip name None k
      | _ \<Rightarrow> if path = [SLASH] then (Ok (Done [SLASH] ip), k) else (Err NotFound, k))
     (\<lambda>w. add_mset (walk_end w) P) (add_mset ip P)"
    by (cases "fst (skip_elem path)"; cases "snd (skip_elem path)"; cases "skip_elem path")
      (auto intro!: owns_if owns_const owns_enter)
  from owns_if [OF owns_const(2) this] show ?thesis
    unfolding namex_step_def by (intro owns_drop_on_err owns_bind [OF owns_ilock]) simp
qed

lemma owns_namex_loop: "owns (add_mset ip P) (namex_loop parent orig path depth ip) (\<lambda>(_, h). add_mset h P) P"
proof (rule ownsI)
  fix k c F assume "held c (add_mset ip P) F k" "0 < F c"
  then show "outcome_held c (\<lambda>(_, h). add_mset h P) P F (namex_loop parent orig path depth ip k)"
  proof (induction parent orig path depth ip k rule: namex_loop.induct)
    case (1 parent orig path depth ip k)
    obtain r k1 where m: "namex_step parent orig path depth ip k = (r, k1)" by (cases "namex_step parent orig path depth ip k")
    have o: "outcome_held c (\<lambda>w. add_mset (walk_end w) P) P F (r, k1)"
      using ownsD [OF owns_namex_step "1.prems", of parent orig path depth] m by simp
    show ?case
    proof (cases r)
      case (Ok w)
      then show ?thesis using o m "1.IH" [OF m [symmetric]] "1.prems"(2) by (cases w) (simp_all add: namex_loop.simps)
    qed (use o m in \<open>simp_all add: namex_loop.simps\<close>)
  qed
qed


lemma owns_namex: "owns P (namex path parent) (\<lambda>(_, h). add_mset h P) P"
proof (cases "starts_with [SLASH] path")
  case True
  then show ?thesis using owns_bind [OF owns_iget owns_namex_loop] by (simp add: namex_def)
next
  case False
  show ?thesis
  proof (rule ownsI)
    fix k c F assume a: "held c P F k" "0 < F c"
    then have k: "kinv k" "k_cwd k = c" "\<And>h. refs k h = count P h + F h" by (auto simp: held_def)
    then have "0 < refs k c" using a(2) by simp
    note d = idup_inv [OF k(1) this]
    have "held c (add_mset c P) F (idup c k)" using d k unfolding held_def by simp
    from ownsD [OF owns_namex_loop this a(2)] show "outcome_held c (\<lambda>(_, h). add_mset h P) P F (namex path parent k)"
      using False k(2) by (simp add: namex_def)
  qed
qed

lemma held_fs: "held c P F (k\<lparr>k_fs := s\<rparr>) \<longleftrightarrow> held c P F k"
  by (simp add: held_def kinv_def)

lemma owns_ialloc: "owns P (ialloc dev t) (\<lambda>h. add_mset h P) P"
proof -
  have "owns P (ialloc_loop dev t is) (\<lambda>h. add_mset h P) P" for "is"
  proof (induction "is")
    case Nil
    then show ?case by (simp add: owns_def)
  next
    case (Cons i "is")
    show ?case
    proof (rule ownsI)
      fix k c F assume a: "held c P F k" "0 < F c"
      have "held c P F (k\<lparr>k_fs := s\<rparr>)" for s using a(1) by (simp add: held_fs)
      from ownsD [OF owns_iget this a(2)] ownsD [OF Cons.IH a]
      show "outcome_held c (\<lambda>h. add_mset h P) P F (ialloc_loop dev t (i # is) k)" by (simp add: Let_def)
    qed
  qed
  then show ?thesis by (simp add: owns_def ialloc_def)
qed

lemma owns_create_dots: "owns A (create_dots ip dp) (\<lambda>_. A) A"
proof -
  have "owns A (kbind (dirlink ip dotname i) (\<lambda>_ k1. dirlink ip dotdotname (mi_inum (k_node k1 dp)) k1)) (\<lambda>_. A) A" for i
    by (rule owns_bind [OF owns_dirlink], rule owns_state) (rule owns_dirlink)
  then show ?thesis by (simp add: owns_def create_dots_def)
qed

lemma owns_create_new:
  assumes "A = Q ip"
  shows "owns A (create_new dp name t major minor ip) Q A"
proof -
  let ?g = "\<lambda>st. init_times (set_nlink (LinkInit 1) (set_major_minor (major_from_u16 major) minor st))"
  have 1: "owns A (if t = FDir then on_st dp (set_nlink LinkPlus) else kret ()) (\<lambda>_. A) A"
      "owns A (if t = FDir then create_dots ip dp else kret ()) (\<lambda>_. A) A"
    by (simp_all add: owns_on_st owns_retI owns_create_dots)
  have 2: "owns A (kbind (on_st ip ?g) (\<lambda>_. kret ip)) Q A"
    by (rule owns_bind [OF owns_on_st], rule owns_retI, rule assms)
  have 3: "owns A (kbind (dirlink dp name i) (\<lambda>_. kbind (if t = FDir then on_st dp (set_nlink LinkPlus) else kret ()) (\<lambda>_.
      kbind (on_st ip ?g) (\<lambda>_. kret ip)))) Q A" for i
    by (rule owns_bind [OF owns_dirlink owns_bind [OF 1(1) 2]])
  show ?thesis
    unfolding create_new_def
    by (rule owns_bind [OF owns_ilock owns_bind [OF 1(2)]],
      rule owns_state [where m = "\<lambda>k. kbind (dirlink dp name (mi_inum (k_node k ip))) (\<lambda>_. kbind (if t = FDir then on_st dp (set_nlink LinkPlus) else kret ()) (\<lambda>_.
        kbind (on_st ip ?g) (\<lambda>_. kret ip)))", OF 3])
qed

lemma owns_create: "owns P (create path t major minor) (\<lambda>h. add_mset h P) P"
proof -
  have old: "owns (add_mset ip (add_mset dp P))
      (drop_on_err ip (kbind (ilock_h ip) (\<lambda>_ k2.
         if t = FFile \<and> (itype_h ip k2 = FFile \<or> itype_h ip k2 = FDevice) then (Ok ip, k2) else (Err AlreadyExists, k2))))
      (\<lambda>h. add_mset dp (add_mset h P)) (add_mset dp P)" for ip dp
    by (rule owns_drop_on_err, rule owns_bind [OF owns_ilock], rule owns_if)
      (auto intro!: owns_const simp: add_mset_commute)
  have new: "owns (add_mset dp P) (kbind (ialloc d t) (\<lambda>ip. drop_on_err ip (create_new dp name t major minor ip)))
      (\<lambda>h. add_mset dp (add_mset h P)) (add_mset dp P)" for d dp name
  proof (rule owns_bind [OF owns_ialloc])
    fix ip
    have "owns (add_mset ip (add_mset dp P)) (create_new dp name t major minor ip) (\<lambda>h. add_mset dp (add_mset h P)) (add_mset ip (add_mset dp P))"
      by (rule owns_create_new) simp
    then show "owns (add_mset ip (add_mset dp P)) (drop_on_err ip (create_new dp name t major minor ip))
        (\<lambda>h. add_mset dp (add_mset h P)) (add_mset dp P)" by (rule owns_drop_on_err)
  qed
  show ?thesis
    unfolding create_def nameiparent_def
  proof (rule owns_bind [OF owns_namex])
    fix x :: "rstr \<times> nat"
    obtain name dp where x: "x = (name, dp)" by (cases x)
    show "owns (case x of (_, h) \<Rightarrow> add_mset h P) (case x of (name, dp) \<Rightarrow> with_ref dp
       (kbind (ilock_h dp) (\<lambda>_ k.
        case dirlookup dp name k of
          (Ok (_, ip), k1) \<Rightarrow>
            drop_on_err ip
              (kbind (ilock_h ip) (\<lambda>_ k2.
               if t = FFile \<and> (itype_h ip k2 = FFile \<or> itype_h ip k2 = FDevice) then (Ok ip, k2)
               else (Err AlreadyExists, k2))) k1
        | (Panic, k1) \<Rightarrow> (Panic, k1)
        | (Err _, k1) \<Rightarrow>
            kbind (ialloc (mi_dev (k_node k1 dp)) t) (\<lambda>ip. drop_on_err ip (create_new dp name t major minor ip)) k1)))
      (\<lambda>h. add_mset h P) P"
      unfolding x prod.case
      apply (rule owns_with_ref, rule owns_bind [OF owns_ilock], rule owns_try [OF owns_dirlookup])
       apply (simp split: prod.split add: old)
      apply (rule owns_state [where m = "\<lambda>k. kbind (ialloc (mi_dev (k_node k dp)) t) (\<lambda>ip. drop_on_err ip (create_new dp name t major minor ip))", OF new])
      done
  qed
qed


lemma owns_link: "owns P (link old new) (\<lambda>_. P) P"
proof -
  let ?up = "\<lambda>(d, s). let d' = d\<lparr>id_nlink := id_nlink d + 1\<rparr> in (d', iupdate d' s)"
  have 1: "owns A (kbind (dirlink dp name i) (\<lambda>_. kbind (ilock_h ip) (\<lambda>_. on_st ip ?up))) (\<lambda>_. A) A" for A dp name ip i
    by (rule owns_bind [OF owns_dirlink owns_bind [OF owns_ilock owns_on_st]])
  have 2: "owns (add_mset dp A) (with_ref dp (kbind (ilock_h dp) (\<lambda>_ k1.
             if mi_dev (k_node k1 dp) \<noteq> mi_dev (k_node k1 ip) then (Err CrossesDevices, k1)
             else kbind (dirlink dp name (mi_inum (k_node k1 ip))) (\<lambda>_. kbind (ilock_h ip) (\<lambda>_. on_st ip ?up)) k1))) (\<lambda>_. A) A"
    for A dp name ip
    by (intro owns_with_ref owns_bind [OF owns_ilock] owns_if owns_const(2) refl
        owns_state [where m = "\<lambda>k1. kbind (dirlink dp name (mi_inum (k_node k1 ip))) (\<lambda>_. kbind (ilock_h ip) (\<lambda>_. on_st ip ?up))"] 1)
  have 3: "owns (case x of (_, dp) \<Rightarrow> add_mset dp A) (case x of (name, dp) \<Rightarrow> with_ref dp (kbind (ilock_h dp) (\<lambda>_ k1.
             if mi_dev (k_node k1 dp) \<noteq> mi_dev (k_node k1 ip) then (Err CrossesDevices, k1)
             else kbind (dirlink dp name (mi_inum (k_node k1 ip))) (\<lambda>_. kbind (ilock_h ip) (\<lambda>_. on_st ip ?up)) k1))) (\<lambda>_. A) A"
    for A ip and x :: "rstr \<times> nat"
    using 2 by (cases x) simp
  have 4: "owns (add_mset ip P) (with_ref ip (kbind (ilock_h ip) (\<lambda>_ k. if itype_h ip k = FDir then (Err IsADirectory, k)
        else kbind (nameiparent new) (\<lambda>(name, dp). with_ref dp (kbind (ilock_h dp) (\<lambda>_ k1.
             if mi_dev (k_node k1 dp) \<noteq> mi_dev (k_node k1 ip) then (Err CrossesDevices, k1)
             else kbind (dirlink dp name (mi_inum (k_node k1 ip))) (\<lambda>_. kbind (ilock_h ip) (\<lambda>_. on_st ip ?up)) k1))) k))) (\<lambda>_. P) P" for ip
    unfolding nameiparent_def
    by (intro owns_with_ref owns_bind [OF owns_ilock] owns_if owns_const(2) refl owns_bind [OF owns_namex 3])
  show ?thesis
    unfolding link_def namei_def by (rule owns_bind [OF owns_namex]) (use 4 in \<open>simp split: prod.split\<close>)
qed

lemma owns_symlink: "owns P (symlink target linkpath) (\<lambda>_. P) P"
proof -
  have "owns A (kbind (on_inode ip f) (\<lambda>_. on_st ip touch_mtime_ctime)) (\<lambda>_. A) A" for A ip and f :: "inode_state \<Rightarrow> nat result \<times> inode_state"
    by (rule owns_bind [OF owns_on_inode owns_on_st])
  then have "owns (add_mset ip P) (if target = [] \<or> MAXPATH < length target then kfail InvalidArgument
      else kbind (on_inode ip (inode_write (kern_in target) 0 0 (length target))) (\<lambda>_. on_st ip touch_mtime_ctime))
      (\<lambda>_. add_mset ip P) (add_mset ip P)" for ip
    by (simp add: owns_failI)
  then show ?thesis
    unfolding symlink_def by (intro owns_bind [OF owns_create] owns_with_ref owns_bind [OF owns_ilock])
qed

lemma owns_unlink: "owns P (unlink path) (\<lambda>_. P) P"
proof -
  have 1: "owns A (\<lambda>k1. kbind (if itype_h ip k1 = FDir then on_st dp (set_nlink LinkMinus) else kret ()) (\<lambda>_.
                 kbind (on_st dp touch_mtime_ctime) (\<lambda>_. on_st ip (set_nlink LinkMinus))) k1) (\<lambda>_. A) A" for A ip dp
  proof -
    have "owns A (if b then on_st dp (set_nlink LinkMinus) else kret ()) (\<lambda>_. A) A" for b by (simp add: owns_on_st owns_retI)
    then have "owns A (kbind (if b then on_st dp (set_nlink LinkMinus) else kret ()) (\<lambda>_.
        kbind (on_st dp touch_mtime_ctime) (\<lambda>_. on_st ip (set_nlink LinkMinus)))) (\<lambda>_. A) A" for b
      by (rule owns_bind) (rule owns_bind [OF owns_on_st owns_on_st])
    then show ?thesis by (rule owns_state [where m = "\<lambda>k1. kbind (if itype_h ip k1 = FDir then on_st dp (set_nlink LinkMinus) else kret ()) (\<lambda>_.
        kbind (on_st dp touch_mtime_ctime) (\<lambda>_. on_st ip (set_nlink LinkMinus)))"])
  qed
  have 2: "owns A (if \<not> removable then kfail DirectoryNotEmpty else
        kbind (on_inode dp (dir_clear off)) (\<lambda>_ k1.
          kbind (if itype_h ip k1 = FDir then on_st dp (set_nlink LinkMinus) else kret ()) (\<lambda>_.
          kbind (on_st dp touch_mtime_ctime) (\<lambda>_. on_st ip (set_nlink LinkMinus))) k1)) (\<lambda>_. A) A" for A ip dp off removable
  proof (cases removable)
    case True
    have "owns A (kbind (on_inode dp (dir_clear off)) (\<lambda>_ k1.
          kbind (if itype_h ip k1 = FDir then on_st dp (set_nlink LinkMinus) else kret ()) (\<lambda>_.
          kbind (on_st dp touch_mtime_ctime) (\<lambda>_. on_st ip (set_nlink LinkMinus))) k1)) (\<lambda>_. A) A"
      by (rule owns_bind [OF owns_on_inode]) (rule 1)
    then show ?thesis using True by simp
  qed (simp add: owns_failI)
  have 3: "owns A (if d then on_inode ip (pure is_dir_empty) else kret True) (\<lambda>_. A) A" for A ip d
    by (simp add: owns_on_inode owns_retI)
  show ?thesis
    unfolding unlink_def nameiparent_def
    apply (rule owns_bind [OF owns_namex])
    subgoal for x
      apply (cases x, simp only: prod.case)
      apply (rule owns_with_ref, rule owns_bind [OF owns_ilock])
      subgoal for name dp u
        apply (cases "name = dotname \<or> name = dotdotname", simp add: owns_failI)
        apply (simp only: if_False, rule owns_bind [OF owns_dirlookup])
        subgoal for y
          apply (cases y, simp only: prod.case)
          apply (rule owns_with_ref, rule owns_bind [OF owns_ilock], rule owns_if [OF owns_const(3)])
          apply (rule owns_state, rule owns_bind [OF 3 2])
          done
        done
      done
    done
qed


section \<open>Properties\<close>

fun balanced :: "('a \<Rightarrow> nat \<Rightarrow> nat) \<Rightarrow> kfs \<Rightarrow> 'a result \<times> kfs \<Rightarrow> bool" where
  "balanced gain k (Ok x, k') \<longleftrightarrow> kinv k' \<and> k_cwd k' = k_cwd k \<and> (\<forall>h. refs k' h = refs k h + gain x h)"
| "balanced gain k (Err e, k') \<longleftrightarrow> kinv k' \<and> k_cwd k' = k_cwd k \<and> (\<forall>h. refs k' h = refs k h)"
| "balanced gain k (Panic, k') \<longleftrightarrow> True"

lemma owns_balanced:
  assumes "owns {#} m Q {#}" "kinv k" "0 < refs k (k_cwd k)"
  shows "balanced (\<lambda>x. count (Q x)) k (m k)"
proof -
  have "outcome_held (k_cwd k) Q {#} (refs k) (m k)"
    by (rule ownsD [OF assms(1)]) (use assms(2,3) in \<open>simp_all add: held_def\<close>)
  then show ?thesis by (cases "m k"; cases "fst (m k)") (auto simp: held_def)
qed

text \<open>
  C15. References to inodes. If the inode table is consistent (an inode is in it exactly while it is
  referred to, and once), it stays so under every operation on names, whatever they find on the disk and
  on every error path. Looking up and creating a file return one new reference; no other reference is
  leaked or dropped twice.
\<close>

theorem inode_refs_balanced:
  assumes "kinv k" "0 < refs k (k_cwd k)"
  shows "balanced (\<lambda>(_, h) g. of_bool (g = h)) k (namex path parent k) \<and>
    balanced (\<lambda>h g. of_bool (g = h)) k (create path t major minor k) \<and>
    balanced (\<lambda>_ _. 0) k (link path path2 k) \<and> balanced (\<lambda>_ _. 0) k (symlink path path2 k) \<and> balanced (\<lambda>_ _. 0) k (unlink path k)"
proof -
  note b = owns_balanced [OF _ assms]
  have 1: "(\<lambda>x. count (case x of (_, h) \<Rightarrow> add_mset h {#})) = (\<lambda>(_ :: rstr, h) g. of_bool (g = h))"
      "(\<lambda>h. count (add_mset h {#})) = (\<lambda>h g. of_bool (g = h))" "(\<lambda>x :: unit. count {#}) = (\<lambda>_ _ :: nat. 0)"
    by (auto simp: fun_eq_iff)
  show ?thesis
    using b [OF owns_namex, of path parent] b [OF owns_create, of path t major minor] b [OF owns_link, of path path2]
      b [OF owns_symlink, of path path2] b [OF owns_unlink, of path]
    unfolding 1 by blast
qed

definition demo_kfs :: kfs where
  "demo_kfs = \<lparr>k_fs = demo_fs, k_tab = Some 0 # replicate (NINODE - 1) None,
     k_node = (\<lambda>h. if h = 0 then (minode_new 1 3)\<lparr>mi_data := (fst demo_dir)\<lparr>id_nlink := 1\<rparr>\<rparr> else (minode_new 1 0)\<lparr>mi_refs := 0\<rparr>),
     k_next = 1, k_cwd = 0\<rparr>"

lemma count_list_replicate: "count_list (replicate n a) b = (if a = b then n else 0)"
  by (induction n) auto

lemma demo_kinv: "kinv demo_kfs"
  by (auto simp: kinv_def demo_kfs_def minode_new_def count_list_replicate split: if_splits)

lemma demo_lookup: "dir_find name ((fst demo_dir)\<lparr>id_nlink := n\<rparr>, demo_fs) = Err NotFound"
  using demo_dir_ok(3) [of name] by (simp add: dir_find_def dir_scan.simps demo_dir_def demo_ip_def idata_new_def)

lemma demo_node: "k_node demo_kfs 0 = (minode_new 1 3)\<lparr>mi_data := (fst demo_dir)\<lparr>id_nlink := 1\<rparr>\<rparr>"
    "k_tab demo_kfs = Some 0 # replicate (NINODE - 1) None" "k_cwd demo_kfs = 0" "k_fs demo_kfs = demo_fs"
  by (simp_all add: demo_kfs_def)

lemma node_same: "set_node h (k_node k h) k = k"
  by (simp add: set_node_def)

lemma ilock_valid: "id_valid (mi_data (k_node k h)) \<Longrightarrow> ilock_h h k = (Ok (), k)"
  by (simp add: ilock_h_def on_inode_def stateful_def ilock_def node_same)

lemma on_inode_pure: "on_inode h (pure f) k = (f (mi_data (k_node k h), k_fs k), k)"
  by (simp add: on_inode_def pure_def node_same)

lemma demo_idup: "k_node (idup 0 demo_kfs) 0 = (k_node demo_kfs 0)\<lparr>mi_refs := 2\<rparr>" "k_fs (idup 0 demo_kfs) = demo_fs"
    "k_tab (idup 0 demo_kfs) = k_tab demo_kfs"
  by (simp_all add: idup_def set_node_def demo_node minode_new_def)

lemma demo_parent: "nameiparent (of_lit ''x'') demo_kfs = (Ok (of_lit ''x'', 0), idup 0 demo_kfs)"
proof -
  have x: "trim_matches SLASH (of_lit ''x'') = of_lit ''x''" by (rule trim_matches_id) (simp add: of_lit_def)
  have "skip_elem (of_lit ''x'') = (Some (of_lit ''x''), None)" "orig_name (of_lit ''x'') = of_lit ''x''" "\<not> starts_with [SLASH] (of_lit ''x'')"
    by (simp_all add: skip_elem_def orig_name_def x) (simp_all add: of_lit_def DIRSIZ_def rsplit_once_def starts_with_def)
  then show ?thesis
    by (simp add: nameiparent_def namex_def demo_node namex_loop.simps namex_step_def drop_on_err_def kbind_def ilock_valid demo_idup
        demo_dir_def demo_ip_def itype_h_def)
qed

lemma demo_unlink: "fst (unlink (of_lit ''x'') demo_kfs) = Err NotFound"
proof -
  have "ilock_h 0 (idup 0 demo_kfs) = (Ok (), idup 0 demo_kfs)" by (rule ilock_valid) (simp add: demo_idup demo_node demo_dir_def demo_ip_def)
  moreover have "dirlookup 0 (of_lit ''x'') (idup 0 demo_kfs) = (Err NotFound, idup 0 demo_kfs)"
    by (simp add: dirlookup_def kbind_def on_inode_pure demo_idup demo_node demo_lookup)
  moreover have "strong_count 0 (idup 0 demo_kfs) = 3" by (simp add: strong_count_def demo_idup demo_node count_list_replicate)
  moreover have "of_lit ''x'' \<noteq> dotname" "of_lit ''x'' \<noteq> dotdotname" by (simp_all add: of_lit_def)
  ultimately show ?thesis
    by (simp add: unlink_def kbind_def demo_parent with_ref_def iput_def put_start_def)
qed

theorem inode_refs_balanced_witness: "\<exists>k'. unlink (of_lit ''x'') demo_kfs = (Err NotFound, k') \<and> kinv k' \<and> (\<forall>h. refs k' h = of_bool (h = 0))"
proof -
  have "balanced (\<lambda>_ _. 0) demo_kfs (unlink (of_lit ''x'') demo_kfs)"
    using inode_refs_balanced [OF demo_kinv] by (simp add: demo_node minode_new_def)
  then show ?thesis using demo_unlink by (cases "unlink (of_lit ''x'') demo_kfs") (auto simp: demo_kfs_def minode_new_def)
qed

lemma demo_fs_same: "demo_kfs\<lparr>k_fs := demo_fs\<rparr> = demo_kfs"
  by (simp add: demo_kfs_def)

lemma tab_scan_free: "tab_scan node dev inum (replicate n None) i (Some j) = Inr (Some j)"
  by (induction n arbitrary: i) simp_all

text \<open>
  The end of a reference races with a lookup. \<^verbatim>\<open>put\<close> finds that it drops the last reference,
  releases the table while it holds the inode, and then removes the inode from the table without looking
  again. A lookup in between returns a reference to the same in-memory inode; after the removal the next
  lookup makes a second in-memory copy, so that one inode has two copies in use, each with its own lock.
\<close>

lemma put_race:
  "\<exists>k h k1 k2 h' k3. kinv k \<and> put_start h k = (Ok True, k1) \<and> iget 1 3 k1 = (Ok h, k2) \<and>
     iget 1 3 (put_finish h True k2) = (Ok h', k3) \<and> h' \<noteq> h \<and> 0 < refs k3 h \<and> 0 < refs k3 h' \<and>
     mi_dev (k_node k3 h) = mi_dev (k_node k3 h') \<and> mi_inum (k_node k3 h) = mi_inum (k_node k3 h')"
proof -
  have "put_free (mi_data (k_node demo_kfs 0), demo_fs) = Ok (mi_data (k_node demo_kfs 0), demo_fs)"
    by (simp add: put_free_def demo_node)
  then have s: "put_start 0 demo_kfs = (Ok True, demo_kfs)"
    using node_same [of 0 demo_kfs]
    by (simp add: demo_fs_same put_start_def strong_count_def demo_node count_list_replicate minode_new_def kbind_def on_inode_def stateful_def kret_def)
  let ?k2 = "put_finish 0 True (idup 0 demo_kfs)"
  let ?k3 = "set_node 1 (minode_new 1 3) (?k2\<lparr>k_tab := (k_tab ?k2)[0 := Some 1], k_next := Suc 1\<rparr>)"
  have g: "iget 1 3 demo_kfs = (Ok 0, idup 0 demo_kfs)" by (simp add: iget_def demo_kfs_def minode_new_def)
  have t: "k_tab ?k2 = None # replicate (NINODE - 1) None" "k_node ?k2 = (k_node demo_kfs)(0 := k_node demo_kfs 0)" "k_next ?k2 = 1"
    by (simp_all add: put_finish_def unref_def tab_leave_def idup_def set_node_def demo_node map_replicate_const minode_new_def)
      (simp add: demo_kfs_def)
  then have "iget 1 3 ?k2 = (Ok 1, ?k3)"
    by (simp add: iget_def tab_scan_free Let_def)
  moreover have "refs ?k3 0 = 1" "refs ?k3 1 = 1" "mi_dev (k_node ?k3 0) = mi_dev (k_node ?k3 1)" "mi_inum (k_node ?k3 0) = mi_inum (k_node ?k3 1)"
    using t(2) by (simp_all add: set_node_def demo_node minode_new_def)
  ultimately show ?thesis using demo_kinv s g zero_neq_one zero_less_one by metis
qed

end
