(* ===== verification/Fcntl.thy ===== *)
theory Fcntl
  imports Bytes
begin

text \<open>
  Open modes, commands and file locks of \<^verbatim>\<open>crates/kernel/src/fcntl.rs\<close>. The lock
  table is a list of entries in the order of their insertion; every operation runs under its lock.
\<close>

unbundle bit_operations_syntax

section \<open>Open modes\<close>

definition omode_RDONLY :: usize where "omode_RDONLY = 0x000"
definition omode_WRONLY :: usize where "omode_WRONLY = 0x001"
definition omode_RDWR :: usize where "omode_RDWR = 0x002"
definition omode_CREATE :: usize where "omode_CREATE = 0x200"
definition omode_TRUNC :: usize where "omode_TRUNC = 0x400"
definition omode_APPEND :: usize where "omode_APPEND = 0x800"
definition omode_CLOEXEC :: usize where "omode_CLOEXEC = 0x1000"
definition omode_NONBLOCK :: usize where "omode_NONBLOCK = 0x2000"
definition fd_CLOEXEC :: usize where "fd_CLOEXEC = 0x1"

lemmas omode_bits = omode_RDONLY_def omode_WRONLY_def omode_RDWR_def omode_CREATE_def omode_TRUNC_def
  omode_APPEND_def omode_CLOEXEC_def omode_NONBLOCK_def

record omode =
  om_read :: bool
  om_write :: bool
  om_truncate :: bool
  om_create :: bool
  om_append :: bool
  om_cloexec :: bool
  om_nonblock :: bool

definition omode_new :: omode where
  "omode_new = \<lparr>om_read = False, om_write = False, om_truncate = False, om_create = False,
     om_append = False, om_cloexec = False, om_nonblock = False\<rparr>"

definition omode_from_usize :: "usize \<Rightarrow> omode" where
  "omode_from_usize bits = omode_new
     \<lparr>om_read := bits AND omode_WRONLY = 0,
      om_write := bits AND omode_WRONLY \<noteq> 0 \<or> bits AND omode_RDWR \<noteq> 0,
      om_create := bits AND omode_CREATE \<noteq> 0,
      om_truncate := bits AND omode_TRUNC \<noteq> 0,
      om_append := bits AND omode_APPEND \<noteq> 0,
      om_cloexec := bits AND omode_CLOEXEC \<noteq> 0,
      om_nonblock := bits AND omode_NONBLOCK \<noteq> 0\<rparr>"

definition is_rdonly :: "omode \<Rightarrow> bool" where
  "is_rdonly m \<longleftrightarrow> om_read m \<and> \<not> om_write m"

text \<open>Every mode grants some access, and reading alone is what neither access bit gives.\<close>

lemma omode_access:
  "om_read (omode_from_usize bits) \<or> om_write (omode_from_usize bits)"
  "is_rdonly (omode_from_usize bits) \<longleftrightarrow> bits AND omode_WRONLY = 0 \<and> bits AND omode_RDWR = 0"
  by (auto simp: omode_from_usize_def is_rdonly_def omode_new_def)

section \<open>Commands\<close>

datatype fcntl_cmd = GetFl | SetFl | GetFd | SetFd | SetCloexec | SetNonblock | ClearNonblock | GetLk | SetLk | InvalidCmd

definition fcntl_cmd_from_usize :: "usize \<Rightarrow> fcntl_cmd" where
  "fcntl_cmd_from_usize bits =
     (if bits = 1 then GetFl else if bits = 2 then SetFl else if bits = 3 then GetFd else if bits = 4 then SetFd
      else if bits = 5 then SetCloexec else if bits = 6 then SetNonblock else if bits = 7 then ClearNonblock
      else if bits = 8 then GetLk else if bits = 9 then SetLk else InvalidCmd)"

section \<open>File locks\<close>

definition flock_UNLCK :: usize where "flock_UNLCK = 0"
definition flock_RDLCK :: usize where "flock_RDLCK = 1"
definition flock_WRLCK :: usize where "flock_WRLCK = 2"

lemmas flock_types = flock_UNLCK_def flock_RDLCK_def flock_WRLCK_def

record flock =
  l_type :: usize
  l_whence :: usize
  l_start :: usize
  l_len :: usize
  l_pid :: usize

datatype lock_kind = ReadLock | WriteLock

record lock_entry =
  le_dev :: u32
  le_inum :: u32
  le_kind :: lock_kind
  le_pid :: usize

type_synonym lock_table = "lock_entry list"

fun conflicting :: "lock_kind \<Rightarrow> lock_kind \<Rightarrow> bool" where
  "conflicting ReadLock WriteLock \<longleftrightarrow> True"
| "conflicting WriteLock _ \<longleftrightarrow> True"
| "conflicting _ _ \<longleftrightarrow> False"

fun lock_conflict :: "lock_table \<Rightarrow> u32 \<Rightarrow> u32 \<Rightarrow> usize \<Rightarrow> lock_kind \<Rightarrow> lock_entry option" where
  "lock_conflict [] dev inum pid kind = None"
| "lock_conflict (e # es) dev inum pid kind =
     (if le_dev e \<noteq> dev \<or> le_inum e \<noteq> inum \<or> le_pid e = pid then lock_conflict es dev inum pid kind
      else if conflicting kind (le_kind e) then Some e
      else lock_conflict es dev inum pid kind)"

definition clear_pid :: "lock_table \<Rightarrow> u32 \<Rightarrow> u32 \<Rightarrow> usize \<Rightarrow> lock_table" where
  "clear_pid t dev inum pid = filter (\<lambda>e. \<not> (le_dev e = dev \<and> le_inum e = inum \<and> le_pid e = pid)) t"

definition lock_kind_of :: "usize \<Rightarrow> lock_kind option result" where
  "lock_kind_of ty =
     (if ty = flock_UNLCK then Ok None
      else if ty = flock_RDLCK then Ok (Some ReadLock)
      else if ty = flock_WRLCK then Ok (Some WriteLock)
      else Err InvalidArgument)"

definition validate_flock :: "flock \<Rightarrow> unit result" where
  "validate_flock lk =
     (if l_whence lk \<noteq> 0 \<or> l_start lk \<noteq> 0 \<or> l_len lk \<noteq> 0 then Err InvalidArgument
      else obind (lock_kind_of (l_type lk)) (\<lambda>_. Ok ()))"

definition set_lock :: "lock_table \<Rightarrow> u32 \<Rightarrow> u32 \<Rightarrow> usize \<Rightarrow> flock \<Rightarrow> unit result \<times> lock_table" where
  "set_lock t dev inum pid lk =
     (case obind (validate_flock lk) (\<lambda>_. lock_kind_of (l_type lk)) of
        Err e \<Rightarrow> (Err e, t)
      | Panic \<Rightarrow> (Panic, t)
      | Ok kind \<Rightarrow>
          (let t1 = clear_pid t dev inum pid in
           case kind of
             None \<Rightarrow> (Ok (), t1)
           | Some k \<Rightarrow>
               if lock_conflict t1 dev inum pid k \<noteq> None then (Err ResourceBusy, t1)
               else (Ok (), t1 @ [\<lparr>le_dev = dev, le_inum = inum, le_kind = k, le_pid = pid\<rparr>])))"

definition get_lock :: "lock_table \<Rightarrow> u32 \<Rightarrow> u32 \<Rightarrow> usize \<Rightarrow> flock \<Rightarrow> flock result" where
  "get_lock t dev inum pid lk =
     obind (validate_flock lk) (\<lambda>_.
     obind (lock_kind_of (l_type lk)) (\<lambda>kind.
     case kind of
       None \<Rightarrow> Ok (lk\<lparr>l_type := flock_UNLCK, l_pid := 0\<rparr>)
     | Some k \<Rightarrow>
         (case lock_conflict t dev inum pid k of
            Some e \<Rightarrow> Ok (lk\<lparr>l_type := (case le_kind e of ReadLock \<Rightarrow> flock_RDLCK | WriteLock \<Rightarrow> flock_WRLCK),
                              l_pid := le_pid e\<rparr>)
          | None \<Rightarrow> Ok (lk\<lparr>l_type := flock_UNLCK, l_pid := 0\<rparr>))))"

definition clear_locks :: "lock_table \<Rightarrow> u32 \<Rightarrow> u32 \<Rightarrow> usize \<Rightarrow> lock_table" where
  "clear_locks t dev inum pid = clear_pid t dev inum pid"

section \<open>Mutual exclusion\<close>

text \<open>
  The locks that are held, as a set: two of different processes on one file are both for reading, and
  a process has at most one lock on a file.
\<close>

definition compatible :: "lock_entry \<Rightarrow> lock_entry \<Rightarrow> bool" where
  "compatible a b \<longleftrightarrow> (le_dev a = le_dev b \<and> le_inum a = le_inum b \<longrightarrow>
     le_pid a \<noteq> le_pid b \<and> le_kind a = ReadLock \<and> le_kind b = ReadLock)"

definition locks_ok :: "lock_table \<Rightarrow> bool" where
  "locks_ok t \<longleftrightarrow> sorted_wrt compatible t"

lemma lock_conflict_None:
  "lock_conflict t dev inum pid k = None \<longleftrightarrow>
     (\<forall>e \<in> set t. le_dev e = dev \<and> le_inum e = inum \<and> le_pid e \<noteq> pid \<longrightarrow> \<not> conflicting k (le_kind e))"
  by (induction t) auto

lemma lock_conflict_Some:
  "lock_conflict t dev inum pid k = Some e \<Longrightarrow>
     e \<in> set t \<and> le_dev e = dev \<and> le_inum e = inum \<and> le_pid e \<noteq> pid \<and> conflicting k (le_kind e)"
  by (induction t) (auto split: if_splits)

lemma conflicting_iff: "conflicting k k' \<longleftrightarrow> k = WriteLock \<or> k' = WriteLock"
  by (cases k; cases k') simp_all

lemma lock_conflict_clear: "lock_conflict (clear_pid t dev inum pid) dev inum pid k = lock_conflict t dev inum pid k"
  by (induction t) (auto simp: clear_pid_def)

lemma clear_pid_ok: "locks_ok t \<Longrightarrow> locks_ok (clear_pid t dev inum pid)"
  by (simp add: locks_ok_def clear_pid_def sorted_wrt_filter)

lemma lock_kind_not_Panic: "lock_kind_of ty \<noteq> Panic" "validate_flock lk \<noteq> Panic"
  by (auto simp: lock_kind_of_def validate_flock_def)

lemma set_lock_ok:
  assumes "locks_ok t"
  shows "locks_ok (snd (set_lock t dev inum pid lk))"
proof -
  let ?t = "clear_pid t dev inum pid"
  have own: "le_dev e = dev \<Longrightarrow> le_inum e = inum \<Longrightarrow> le_pid e \<noteq> pid" if "e \<in> set ?t" for e
    using that by (auto simp: clear_pid_def)
  have "locks_ok (?t @ [\<lparr>le_dev = dev, le_inum = inum, le_kind = k, le_pid = pid\<rparr>])"
    if "lock_conflict ?t dev inum pid k = None" for k
  proof -
    have "compatible e \<lparr>le_dev = dev, le_inum = inum, le_kind = k, le_pid = pid\<rparr>" if "e \<in> set ?t" for e
      using that own [OF that] \<open>lock_conflict ?t dev inum pid k = None\<close> lock_kind.exhaust [of k] lock_kind.exhaust [of "le_kind e"]
      by (auto simp: lock_conflict_None compatible_def conflicting_iff)
    then show ?thesis using clear_pid_ok [OF assms] by (simp add: locks_ok_def sorted_wrt_append)
  qed
  then show ?thesis using assms clear_pid_ok [OF assms]
    by (auto simp: set_lock_def Let_def split: outcome.split option.split)
qed

datatype lock_op = OSet u32 u32 usize flock | OClear u32 u32 usize

fun lock_run :: "lock_op \<Rightarrow> lock_table \<Rightarrow> lock_table" where
  "lock_run (OSet dev inum pid lk) t = snd (set_lock t dev inum pid lk)"
| "lock_run (OClear dev inum pid) t = clear_locks t dev inum pid"

lemma lock_run_ok: "locks_ok t \<Longrightarrow> locks_ok (fold lock_run ops t)"
proof (induction ops arbitrary: t)
  case (Cons op ops)
  have "locks_ok (lock_run op t)"
    using set_lock_ok [OF Cons.prems] clear_pid_ok [OF Cons.prems] by (cases op) (simp_all add: clear_locks_def)
  with Cons.IH show ?case by simp
qed simp

text \<open>
  C9. File locks exclude each other. After any sequence of \<^verbatim>\<open>set_lock\<close> and
  \<^verbatim>\<open>clear_locks\<close> from the empty table, two locks of different positions on the same file
  belong to different processes and are both read locks. A valid request to lock then succeeds
  exactly when \<^verbatim>\<open>get_lock\<close> reports the file as unlocked for it, and is refused with
  \<^verbatim>\<open>ResourceBusy\<close> otherwise.
\<close>

theorem file_locks_exclusive:
  fixes ops
  defines "t \<equiv> fold lock_run ops []"
  assumes "lock_kind_of (l_type lk) = Ok (Some k)" "validate_flock lk = Ok ()"
  shows "(\<forall>i j. i < j \<longrightarrow> j < length t \<longrightarrow> compatible (t ! i) (t ! j)) \<and>
    (\<exists>lk'. get_lock t dev inum pid lk = Ok lk' \<and>
       fst (set_lock t dev inum pid lk) = (if l_type lk' = flock_UNLCK then Ok () else Err ResourceBusy) \<and>
       (l_type lk' \<noteq> flock_UNLCK \<longrightarrow>
          (\<exists>e \<in> set t. le_dev e = dev \<and> le_inum e = inum \<and> le_pid e = l_pid lk' \<and> le_pid e \<noteq> pid)))"
proof
  have "locks_ok t" unfolding t_def by (rule lock_run_ok) (simp add: locks_ok_def)
  then show "\<forall>i j. i < j \<longrightarrow> j < length t \<longrightarrow> compatible (t ! i) (t ! j)"
    by (simp add: locks_ok_def sorted_wrt_iff_nth_less)
next
  show "\<exists>lk'. get_lock t dev inum pid lk = Ok lk' \<and>
       fst (set_lock t dev inum pid lk) = (if l_type lk' = flock_UNLCK then Ok () else Err ResourceBusy) \<and>
       (l_type lk' \<noteq> flock_UNLCK \<longrightarrow>
          (\<exists>e \<in> set t. le_dev e = dev \<and> le_inum e = inum \<and> le_pid e = l_pid lk' \<and> le_pid e \<noteq> pid))"
  proof (cases "lock_conflict t dev inum pid k")
    case None
    with assms show ?thesis by (simp add: get_lock_def set_lock_def lock_conflict_clear)
  next
    case (Some e)
    with lock_conflict_Some [OF Some] assms show ?thesis
      by (cases "le_kind e") (auto simp: get_lock_def set_lock_def lock_conflict_clear flock_types)
  qed
qed

theorem file_locks_exclusive_witness:
  "fst (set_lock (fold lock_run [OSet 1 7 10 \<lparr>l_type = 1, l_whence = 0, l_start = 0, l_len = 0, l_pid = 0\<rparr>] []) 1 7 11
     \<lparr>l_type = 2, l_whence = 0, l_start = 0, l_len = 0, l_pid = 0\<rparr>) = Err ResourceBusy"
  using file_locks_exclusive [of "\<lparr>l_type = 2, l_whence = 0, l_start = 0, l_len = 0, l_pid = 0\<rparr>" WriteLock
     "[OSet 1 7 10 \<lparr>l_type = 1, l_whence = 0, l_start = 0, l_len = 0, l_pid = 0\<rparr>]" 1 7 11]
  by (simp add: lock_kind_of_def validate_flock_def flock_types set_lock_def get_lock_def clear_pid_def)

end
