(* ===== verification/File.thy ===== *)
theory File
  imports Fs_Refs Fcntl
begin

text \<open>
  Open files (\<^verbatim>\<open>crates/kernel/src/file.rs\<close>): reading and writing an open inode or device at its
  offset inside log transactions, the table of open files with the reference counts of its entries,
  opening and dropping a file, status flags, \<^verbatim>\<open>fcntl\<close> and polling.

  The log is seen through the number of transactions that have begun and not ended
  (\<^verbatim>\<open>LOG.begin_op\<close>, \<^verbatim>\<open>LOG.end_op\<close>). Device drivers are parameters. Sockets, pipes and remote
  files are opaque objects of the table: their own operations are not part of this component.
\<close>

section \<open>Inode nodes\<close>

record fio =
  io_k :: kfs
  io_ops :: nat

definition begin_tx :: "fio \<Rightarrow> fio" where "begin_tx io = io\<lparr>io_ops := io_ops io + 1\<rparr>"

definition end_tx :: "fio \<Rightarrow> fio" where "end_tx io = io\<lparr>io_ops := io_ops io - 1\<rparr>"

text \<open>\<open>fnod_read\<close> returns the new offset with the result. The question mark after the read of the
  inode leaves the function, past the end of the transaction.\<close>

definition fnod_read :: "'m copyout \<Rightarrow> nat \<Rightarrow> nat \<Rightarrow> nat \<Rightarrow> u32 \<Rightarrow> fio \<Rightarrow> 'm \<Rightarrow> nat result \<times> u32 \<times> fio \<times> 'm" where
  "fnod_read out dst n ip off io mem =
     (let io1 = begin_tx io in
      case ilock_h ip (io_k io1) of
        (Ok _, k1) \<Rightarrow>
          (case inode_read out dst off n (mi_data (k_node k1 ip), k_fs k1) mem of
             (Ok r, mem') \<Rightarrow>
               (Ok r, off + of_nat r,
                end_tx (io1\<lparr>io_k := if 0 < r then snd (on_st ip touch_atime k1) else k1\<rparr>), mem')
           | (Err e, mem') \<Rightarrow> (Err e, off, io1\<lparr>io_k := k1\<rparr>, mem')
           | (Panic, mem') \<Rightarrow> (Panic, off, io1\<lparr>io_k := k1\<rparr>, mem'))
      | (Err e, k1) \<Rightarrow> (Err e, off, io1\<lparr>io_k := k1\<rparr>, mem)
      | (Panic, k1) \<Rightarrow> (Panic, off, io1\<lparr>io_k := k1\<rparr>, mem))"

definition MAXWRITE :: nat where
  "MAXWRITE = (MAXOPBLOCKS - 1 - 1 - 2) div 2 * BSIZE"

text \<open>One chunk of a write: the body of the loop between \<^verbatim>\<open>begin_op\<close> and \<^verbatim>\<open>end_op\<close>.\<close>

definition fnod_chunk :: "copyin \<Rightarrow> nat \<Rightarrow> nat \<Rightarrow> bool \<Rightarrow> nat \<Rightarrow> u32 \<Rightarrow> kfs \<Rightarrow> nat result \<times> u32 \<times> kfs" where
  "fnod_chunk inp src n1 app ip off k =
     (case ilock_h ip k of
        (Ok _, k1) \<Rightarrow>
          (let off1 = (if app then id_size (mi_data (k_node k1 ip)) else off) in
           case on_inode ip (inode_write inp src off1 n1) k1 of
             (Ok r, k2) \<Rightarrow> (Ok r, off1 + of_nat r, snd (on_st ip touch_mtime_ctime k2))
           | (Err e, k2) \<Rightarrow> (Err e, off1, k2)
           | (Panic, k2) \<Rightarrow> (Panic, off1, k2))
      | (Err e, k1) \<Rightarrow> (Err e, off, k1)
      | (Panic, k1) \<Rightarrow> (Panic, off, k1))"

lemma write_loop_total: "write_loop inp src off tot n st = (Ok (off', r), st') \<Longrightarrow> tot \<le> n \<Longrightarrow> r = n"
proof (induction inp src off tot n st arbitrary: st' off' r rule: write_loop.induct)
  case (1 inp src off tot n st)
  show ?case
  proof (cases "tot < n")
    case True
    from "1.prems"(1) obtain addr ip1 s1 where b: "bmap (off div BSIZE mod 2 ^ 32) True st = Ok (addr, ip1, s1)"
      using True by (subst (asm) write_loop.simps) (auto split: outcome.splits)
    define m bp where "m = min (n - tot) (BSIZE - off mod BSIZE)" and "bp = fs_blk s1 (unat addr)"
    obtain bs where o: "inp src m = (bs, Ok ())"
      and r: "write_loop inp (src + m) (off + m) (tot + m) n (ip1, fs_log_write (unat addr) (patch (off mod BSIZE) bs bp) s1) = (Ok (off', r), st')"
      using "1.prems"(1) True b
      by (subst (asm) write_loop.simps) (auto simp: Let_def m_def [symmetric] bp_def [symmetric] split: prod.splits outcome.splits)
    show ?thesis
      by (rule "1.IH" [OF True b refl refl m_def bp_def o [symmetric] refl r]) (use True in \<open>simp add: m_def\<close>)
  next
    case False
    then show ?thesis using "1.prems" by (subst (asm) write_loop.simps) auto
  qed
qed

lemma inode_write_total: "inode_write inp src off n st = (Ok r, st') \<Longrightarrow> r = n"
  by (auto simp: inode_write_def dest: write_loop_total split: if_splits prod.splits outcome.splits)

lemma fnod_chunk_total: "fnod_chunk inp src n1 app ip off k = (Ok r, off', k') \<Longrightarrow> r = n1"
  by (auto simp: fnod_chunk_def on_inode_def Let_def dest: inode_write_total split: prod.splits outcome.splits)

text \<open>The loop of \<^verbatim>\<open>FNod::write\<close>. Every chunk is read from the same address \<open>src\<close>.\<close>

function fnod_write_loop :: "copyin \<Rightarrow> nat \<Rightarrow> nat \<Rightarrow> bool \<Rightarrow> nat \<Rightarrow> nat \<Rightarrow> u32 \<Rightarrow> fio \<Rightarrow> nat result \<times> u32 \<times> fio" where
  "fnod_write_loop inp src n app ip i off io =
     (if i < n then
        (let n1 = (if MAXWRITE < n - i then MAXWRITE else n - i); io1 = begin_tx io in
         case fnod_chunk inp src n1 app ip off (io_k io1) of
           (Ok r, off', k') \<Rightarrow> fnod_write_loop inp src n app ip (i + r) off' (end_tx (io1\<lparr>io_k := k'\<rparr>))
         | (Err e, off', k') \<Rightarrow> (Err e, off', end_tx (io1\<lparr>io_k := k'\<rparr>))
         | (Panic, off', k') \<Rightarrow> (Panic, off', io1\<lparr>io_k := k'\<rparr>))
      else (Ok i, off, io))"
  by pat_completeness auto
termination
  by (relation "measure (\<lambda>(inp, src, n, app, ip, i, off, io). n - i)")
    (auto dest!: fnod_chunk_total [OF sym] simp: MAXWRITE_def MAXOPBLOCKS_def BSIZE_def split: if_splits)

declare fnod_write_loop.simps [simp del]

definition fnod_write :: "copyin \<Rightarrow> nat \<Rightarrow> nat \<Rightarrow> bool \<Rightarrow> nat \<Rightarrow> u32 \<Rightarrow> fio \<Rightarrow> nat result \<times> u32 \<times> fio" where
  "fnod_write inp src n app ip off io = fnod_write_loop inp src n app ip 0 off io"


section \<open>Device nodes\<close>

text \<open>A driver is given the address, the length and the offset; the offset moves on by the result.\<close>

definition dnod_io :: "(nat \<Rightarrow> nat \<Rightarrow> nat \<Rightarrow> 'd \<Rightarrow> nat result \<times> 'd) \<Rightarrow> nat \<Rightarrow> nat \<Rightarrow> nat \<Rightarrow> 'd \<Rightarrow> nat result \<times> nat \<times> 'd" where
  "dnod_io drv a n off d =
     (case drv a n off d of
        (Ok r, d') \<Rightarrow> (Ok r, (off + r) mod 2 ^ 64, d')
      | (Err e, d') \<Rightarrow> (Err e, off, d')
      | (Panic, d') \<Rightarrow> (Panic, off, d'))"

text \<open>The table of drivers: each entry is set at most once.\<close>

definition devsw_new :: "'d option list" where
  "devsw_new = replicate NDEV None"

definition devsw_set :: "nat \<Rightarrow> 'd \<Rightarrow> 'd option list \<Rightarrow> ('d, 'd option list) outcome" where
  "devsw_set i d t =
     (if i < length t then (case t ! i of None \<Rightarrow> Ok (t[i := Some d]) | Some _ \<Rightarrow> Err d) else Panic)"

definition devsw_get :: "nat \<Rightarrow> 'd option list \<Rightarrow> 'd option result" where
  "devsw_get i t = (if i < length t then Ok (t ! i) else Panic)"

section \<open>The table of open files\<close>

datatype vfile =
    VDevice "16 word" nat nat
  | VInode u32 nat
  | VPipe nat
  | VSocket nat
  | VInetSocket nat
  | VRemote u32
  | VNone

record kfile =
  f_h :: nat
  f_readable :: bool
  f_writable :: bool
  f_cloexec :: bool
  f_nonblock :: bool
  f_append :: bool

record ftable =
  ft_io :: fio
  ft_tab :: "nat option list"
  ft_vf :: "nat \<Rightarrow> vfile"
  ft_refs :: "nat \<Rightarrow> nat"
  ft_next :: nat

fun vf_inode :: "vfile \<Rightarrow> nat option" where
  "vf_inode (VDevice _ _ ip) = Some ip"
| "vf_inode (VInode _ ip) = Some ip"
| "vf_inode _ = None"

datatype ftype = TNode rstr | TPipe nat | TSocket nat | TInetSocket nat | TRemote u32

definition MAJOR_INVALID :: "16 word" where "MAJOR_INVALID = 3"

text \<open>The kind of an opened inode; \<open>devs\<close> is the table of drivers.\<close>

definition node_kind :: "'d option list \<Rightarrow> omode \<Rightarrow> nat \<Rightarrow> vfile kop" where
  "node_kind devs opts ip k =
     (let d = mi_data (k_node k ip) in
      if id_type d = FDevice \<and> id_major d \<noteq> MAJOR_INVALID then
        (case devsw_get (unat (id_major d)) devs of
           Ok (Some _) \<Rightarrow> (Ok (VDevice (id_major d) 0 ip), k)
         | _ \<Rightarrow> (Panic, k))
      else if id_type d = FDir \<or> id_type d = FFile then
        (if om_truncate opts \<and> id_type d = FFile then
           kbind (on_inode ip (stateful trunc)) (\<lambda>_. kret (VInode 0 ip)) k
         else (Ok (VInode (if om_append opts \<and> id_type d = FFile then id_size d else 0) ip), k))
      else (Err NoSuchNode, k))"

definition open_node :: "'d option list \<Rightarrow> omode \<Rightarrow> rstr \<Rightarrow> vfile kop" where
  "open_node devs opts path =
     (if om_create opts then
        kbind (create path FFile 0 0) (\<lambda>ip.
        drop_on_err ip (kbind (ilock_h ip) (\<lambda>_. node_kind devs opts ip)))
      else
        kbind (namei path) (\<lambda>(_, ip).
        drop_on_err ip (kbind (ilock_h ip) (\<lambda>_ k.
          if itype_h ip k = FDir \<and> \<not> is_rdonly opts then (Err IsADirectory, k)
          else node_kind devs opts ip k))))"

fun open_obj :: "'d option list \<Rightarrow> omode \<Rightarrow> ftype \<Rightarrow> vfile kop" where
  "open_obj devs opts (TNode path) k = open_node devs opts path k"
| "open_obj devs opts (TPipe p) k = (Ok (VPipe p), k)"
| "open_obj devs opts (TSocket s) k = (Ok (VSocket s), k)"
| "open_obj devs opts (TInetSocket s) k = (Ok (VInetSocket s), k)"
| "open_obj devs opts (TRemote r) k = (Ok (VRemote r), k)"

text \<open>The first free slot of the table.\<close>

fun free_slot :: "nat option list \<Rightarrow> nat \<Rightarrow> nat option" where
  "free_slot [] i = None"
| "free_slot (e # es) i = (if e = None then Some i else free_slot es (i + 1))"

definition on_k :: "'a kop \<Rightarrow> ftable \<Rightarrow> 'a result \<times> ftable" where
  "on_k m t = (case m (io_k (ft_io t)) of (r, k') \<Rightarrow> (r, t\<lparr>ft_io := (ft_io t)\<lparr>io_k := k'\<rparr>\<rparr>))"

text \<open>\<open>FTABLE.alloc\<close>: if the table is full the new object, and with it its inode, is dropped.\<close>

definition file_alloc :: "'d option list \<Rightarrow> omode \<Rightarrow> ftype \<Rightarrow> ftable \<Rightarrow> kfile result \<times> ftable" where
  "file_alloc devs opts ft t =
     (case on_k (open_obj devs opts ft) t of
        (Err e, t1) \<Rightarrow> (Err e, t1)
      | (Panic, t1) \<Rightarrow> (Panic, t1)
      | (Ok v, t1) \<Rightarrow>
          (case free_slot (ft_tab t1) 0 of
             None \<Rightarrow>
               (case vf_inode v of
                  None \<Rightarrow> (Err FileTableOverflow, t1)
                | Some ip \<Rightarrow> (case on_k (iput ip) t1 of (Panic, t2) \<Rightarrow> (Panic, t2) | (_, t2) \<Rightarrow> (Err FileTableOverflow, t2)))
           | Some i \<Rightarrow>
               (let h = ft_next t1 in
                (Ok \<lparr>f_h = h, f_readable = om_read opts, f_writable = om_write opts, f_cloexec = om_cloexec opts,
                      f_nonblock = om_nonblock opts, f_append = om_append opts\<rparr>,
                 t1\<lparr>ft_tab := (ft_tab t1)[i := Some h], ft_vf := (ft_vf t1)(h := v), ft_refs := (ft_refs t1)(h := 1),
                    ft_next := h + 1\<rparr>))))"

definition file_clone :: "kfile \<Rightarrow> ftable \<Rightarrow> kfile \<times> ftable" where
  "file_clone f t = (f, t\<lparr>ft_refs := (ft_refs t)(f_h f := ft_refs t (f_h f) + 1)\<rparr>)"

definition vf_count :: "nat \<Rightarrow> ftable \<Rightarrow> nat" where
  "vf_count h t = ft_refs t h + count_list (ft_tab t) (Some h)"

text \<open>Dropping a file: the test of the count and the removal from the table (\<open>drop_check\<close>), then the
  end of the reference (\<open>drop_rest\<close>), which drops the inode in a transaction if it was the last.\<close>

definition drop_check :: "nat \<Rightarrow> ftable \<Rightarrow> ftable result" where
  "drop_check h t =
     (if vf_count h t < 2 then Panic
      else if vf_count h t = 2 then Ok (t\<lparr>ft_tab := map (\<lambda>e. if e = Some h then None else e) (ft_tab t)\<rparr>)
      else Ok t)"

definition drop_rest :: "nat \<Rightarrow> ftable \<Rightarrow> unit result \<times> ftable" where
  "drop_rest h t =
     (let t1 = t\<lparr>ft_refs := (ft_refs t)(h := ft_refs t h - 1)\<rparr> in
      if vf_count h t = 1 then
        (case vf_inode (ft_vf t h) of
           Some ip \<Rightarrow>
             (case on_k (iput ip) (t1\<lparr>ft_io := begin_tx (ft_io t1)\<rparr>) of
                (Panic, t2) \<Rightarrow> (Panic, t2)
              | (_, t2) \<Rightarrow> (Ok (), t2\<lparr>ft_io := end_tx (ft_io t2)\<rparr>))
         | None \<Rightarrow> (Ok (), t1))
      else (Ok (), t1))"

definition file_drop :: "kfile \<Rightarrow> ftable \<Rightarrow> unit result \<times> ftable" where
  "file_drop f t =
     (case drop_check (f_h f) t of
        Ok t1 \<Rightarrow> drop_rest (f_h f) t1
      | Err e \<Rightarrow> (Err e, t)
      | Panic \<Rightarrow> (Panic, t))"


section \<open>What reading and writing do\<close>

definition node_ok :: "nat set \<Rightarrow> nat \<Rightarrow> kfs \<Rightarrow> bool" where
  "node_ok R ip k \<longleftrightarrow> id_valid (mi_data (k_node k ip)) \<and> file_ok R (mi_data (k_node k ip)) (k_fs k)"

abbreviation node_contents :: "nat \<Rightarrow> kfs \<Rightarrow> byte list" where
  "node_contents ip k \<equiv> contents (mi_data (k_node k ip)) (k_fs k)"

lemma touch_nfree: "file_ok R ip s \<Longrightarrow> nfree (snd (touch_mtime_ctime (ip, s))) = nfree s \<and> id_valid (fst (touch_mtime_ctime (ip, s))) = id_valid ip"
  using iupdate_keeps(5) [of R "ip\<lparr>id_mtime := fs_ticks s, id_ctime := fs_ticks s\<rparr>" s]
  by (simp add: touch_mtime_ctime_def Let_def file_ok_def inum_ok_def)

lemma fnod_chunk_ok:
  assumes "node_ok R ip k" "delivers inp src bs" "unat off \<le> unat (id_size (mi_data (k_node k ip)))"
    and "unat off + length bs \<le> MAXFILE * BSIZE" "3 * blocks_of (unat off) (length bs) \<le> nfree (k_fs k)"
  shows "\<exists>k'. fnod_chunk inp src (length bs) False ip off k = (Ok (length bs), off + of_nat (length bs), k') \<and> node_ok R ip k' \<and>
    node_contents ip k' = patch (unat off) bs (node_contents ip k) \<and> nfree (k_fs k) \<le> nfree (k_fs k') + 3 * blocks_of (unat off) (length bs)"
proof -
  have n: "id_valid (mi_data (k_node k ip))" "file_ok R (mi_data (k_node k ip)) (k_fs k)" using assms(1) by (simp_all add: node_ok_def)
  let ?d = "mi_data (k_node k ip)"
  obtain d' s' where w: "inode_write inp src off (length bs) (?d, k_fs k) = (Ok (length bs), d', s')" "file_ok R d' s'"
      "d' = ?d\<lparr>id_addrs := id_addrs d', id_size := id_size d'\<rparr>"
      "contents d' s' = patch (unat off) bs (contents ?d (k_fs k))" "nfree (k_fs k) \<le> nfree s' + 3 * blocks_of (unat off) (length bs)"
    using inode_write_ok [OF n(2) assms(2-5)] unfolding patch_def by blast
  have v: "id_valid d'" using arg_cong [OF w(3), of id_valid] n(1) by simp
  let ?k1 = "set_node ip ((k_node k ip)\<lparr>mi_data := d'\<rparr>) (k\<lparr>k_fs := s'\<rparr>)"
  let ?k2 = "snd (on_st ip touch_mtime_ctime ?k1)"
  obtain d2 s2 where t: "touch_mtime_ctime (d', s') = (d2, s2)" "file_ok R d2 s2" "contents d2 s2 = contents d' s'"
    using touch_keeps [OF w(2)] by blast
  then have "nfree s2 = nfree s'" "id_valid d2" using touch_nfree [OF w(2)] v by simp_all
  moreover have "mi_data (k_node ?k2 ip) = d2" "k_fs ?k2 = s2" using t(1) by (simp_all add: on_st_def on_inode_def set_node_def)
  moreover have "fnod_chunk inp src (length bs) False ip off k = (Ok (length bs), off + of_nat (length bs), ?k2)"
    using w(1) by (simp add: fnod_chunk_def ilock_valid n(1) on_inode_def)
  ultimately show ?thesis using t(2,3) w(4,5) by (intro exI [of _ ?k2]) (simp add: node_ok_def)
qed

text \<open>What a write of \<open>n\<close> bytes stores: its first \<open>MAXWRITE\<close> bytes for every full chunk.\<close>

function repeated :: "nat \<Rightarrow> byte list \<Rightarrow> byte list" where
  "repeated n bs = (if n \<le> MAXWRITE then take n bs else take MAXWRITE bs @ repeated (n - MAXWRITE) bs)"
  by pat_completeness auto
termination
  by (relation "measure fst") (auto simp: MAXWRITE_def MAXOPBLOCKS_def BSIZE_def)

declare repeated.simps [simp del]

lemma MAXWRITE_3072: "MAXWRITE = 3072"
  by (simp add: MAXWRITE_def MAXOPBLOCKS_def BSIZE_def)

lemma chunk_blocks: "n \<le> MAXWRITE \<Longrightarrow> blocks_of off n \<le> 4"
proof -
  assume "n \<le> MAXWRITE"
  then have "(off + n - 1) div 1024 \<le> off div 1024 + 3" by (simp add: MAXWRITE_3072)
  then show ?thesis by (simp add: blocks_of_def BSIZE_def le_diff_conv)
qed

lemma length_repeated: "n \<le> length bs \<Longrightarrow> length (repeated n bs) = n"
proof (induction n bs rule: repeated.induct)
  case (1 n bs)
  then show ?case by (subst repeated.simps) auto
qed

lemma repeated_head: "0 < n \<Longrightarrow> n \<le> length bs \<Longrightarrow> repeated n bs ! 0 = bs ! 0"
  by (subst repeated.simps) (simp add: nth_append MAXWRITE_3072)

lemma patch_patch: "a \<le> length c \<Longrightarrow> patch (a + length xs) ys (patch a xs c) = patch a (xs @ ys) c"
  by (simp add: patch_def ac_simps)

lemma delivers_take: "delivers inp src bs \<Longrightarrow> delivers inp src (take n bs)"
  by (auto simp: delivers_def slice_def drop_take take_take min_def)

lemma fnod_loop_ok:
  assumes "node_ok R ip (io_k io)" "delivers inp src bs" "i \<le> length bs" "unat off \<le> unat (id_size (mi_data (k_node (io_k io) ip)))"
    and "unat off + (length bs - i) \<le> MAXFILE * BSIZE" "12 * ((length bs - i + MAXWRITE - 1) div MAXWRITE) \<le> nfree (k_fs (io_k io))"
  shows "\<exists>io'. fnod_write_loop inp src (length bs) False ip i off io = (Ok (length bs), off + of_nat (length bs - i), io') \<and>
    io_ops io' = io_ops io \<and> node_ok R ip (io_k io') \<and>
    node_contents ip (io_k io') = patch (unat off) (repeated (length bs - i) bs) (node_contents ip (io_k io))"
  using assms
proof (induction "length bs - i" arbitrary: i off io rule: less_induct)
  case less
  show ?case
  proof (cases "i < length bs")
    case False
    then show ?thesis using less.prems by (simp add: fnod_write_loop.simps repeated.simps patch_def)
  next
    case True
    define n1 where "n1 = min MAXWRITE (length bs - i)"
    have n1: "0 < n1" "n1 \<le> length bs - i" "n1 \<le> MAXWRITE" "length (take n1 bs) = n1" using True by (auto simp: n1_def MAXWRITE_3072)
    let ?q = "(length bs - i + MAXWRITE - 1) div MAXWRITE"
    have q: "?q = Suc ((length bs - (i + n1) + MAXWRITE - 1) div MAXWRITE)"
      using True by (cases "length bs - i \<le> MAXWRITE") (auto simp: n1_def MAXWRITE_3072 div_if le_div_geq)
    obtain k' where c: "fnod_chunk inp src n1 False ip off (io_k io) = (Ok n1, off + of_nat n1, k')" "node_ok R ip k'"
        "node_contents ip k' = patch (unat off) (take n1 bs) (node_contents ip (io_k io))" "nfree (k_fs (io_k io)) \<le> nfree (k_fs k') + 12"
      using fnod_chunk_ok [OF less.prems(1) delivers_take [OF less.prems(2), of n1] less.prems(4), unfolded n1(4)]
        less.prems(5,6) chunk_blocks [OF n1(3), of "unat off"] n1(2) q by fastforce
    let ?io = "end_tx ((begin_tx io)\<lparr>io_k := k'\<rparr>)"
    have io: "io_k ?io = k'" "io_ops ?io = io_ops io" by (simp_all add: end_tx_def begin_tx_def)
    have u: "unat (off + of_nat n1) = unat off + n1"
      using size_u32 [of "unat off + n1"] less.prems(5) n1(2) by simp
    have sz: "unat (id_size (mi_data (k_node k' ip))) = max (unat (id_size (mi_data (k_node (io_k io) ip)))) (unat off + n1)"
      using arg_cong [OF c(3), of length] less.prems(4) n1(4) by (simp add: patch_def max_def)
    have "\<exists>io'. fnod_write_loop inp src (length bs) False ip (i + n1) (off + of_nat n1) ?io = (Ok (length bs), off + of_nat n1 + of_nat (length bs - (i + n1)), io') \<and>
        io_ops io' = io_ops ?io \<and> node_ok R ip (io_k io') \<and>
        node_contents ip (io_k io') = patch (unat (off + of_nat n1)) (repeated (length bs - (i + n1)) bs) (node_contents ip (io_k ?io))"
    proof (rule less.hyps)
      show "length bs - (i + n1) < length bs - i" "i + n1 \<le> length bs" using n1(1,2) True by simp_all
      show "node_ok R ip (io_k ?io)" "delivers inp src bs" using io c(2) less.prems(2) by simp_all
      show "unat (off + of_nat n1) \<le> unat (id_size (mi_data (k_node (io_k ?io) ip)))" using io u sz by simp
      show "unat (off + of_nat n1) + (length bs - (i + n1)) \<le> MAXFILE * BSIZE" using u less.prems(5) n1(2) by simp
      show "12 * ((length bs - (i + n1) + MAXWRITE - 1) div MAXWRITE) \<le> nfree (k_fs (io_k ?io))"
        using less.prems(6) q c(4) io(1) by simp
    qed
    then obtain io' where w: "fnod_write_loop inp src (length bs) False ip (i + n1) (off + of_nat n1) ?io =
        (Ok (length bs), off + of_nat n1 + of_nat (length bs - (i + n1)), io')" "io_ops io' = io_ops io" "node_ok R ip (io_k io')"
        "node_contents ip (io_k io') = patch (unat off + n1) (repeated (length bs - (i + n1)) bs) (node_contents ip k')"
      using u io by auto
    have o: "off + of_nat n1 + of_nat (length bs - (i + n1)) = off + of_nat (length bs - i)"
    proof -
      have "n1 + (length bs - (i + n1)) = length bs - i" using n1(2) by simp
      then show ?thesis by (simp flip: of_nat_add add: add.assoc)
    qed
    have r: "repeated (length bs - i) bs = take n1 bs @ repeated (length bs - (i + n1)) bs"
      by (cases "length bs - i \<le> MAXWRITE") (simp_all add: repeated.simps [of "length bs - i"] n1_def repeated.simps [of 0])
    have "unat off \<le> length (node_contents ip (io_k io))" using less.prems(4) by simp
    from patch_patch [OF this, of "take n1 bs"] have "node_contents ip (io_k io') = patch (unat off) (repeated (length bs - i) bs) (node_contents ip (io_k io))"
      using w(4) c(3) n1(4) r by simp
    moreover have "(if MAXWRITE < length bs - i then MAXWRITE else length bs - i) = n1" by (simp add: n1_def)
    ultimately show ?thesis using w(1-3) o c(1) True
      by (subst fnod_write_loop.simps) (simp add: Let_def begin_tx_def)
  qed
qed


text \<open>
  C17. Writing an open file. A write of at most 3072 bytes (\<open>MAXWRITE\<close>) stores them at the offset. A
  longer write is cut into chunks so that each fits into a log transaction, but every chunk is copied
  from the beginning of the caller's buffer: what is stored is \<open>repeated\<close>, the first 3072 bytes over and
  over, while the call reports success. All transactions it begins are ended.
\<close>

theorem fnod_write_repeats:
  assumes "node_ok R ip (io_k io)" "delivers inp src bs" "unat off \<le> unat (id_size (mi_data (k_node (io_k io) ip)))"
    and "unat off + length bs \<le> MAXFILE * BSIZE" "12 * ((length bs + MAXWRITE - 1) div MAXWRITE) \<le> nfree (k_fs (io_k io))"
  shows "\<exists>io'. fnod_write inp src (length bs) False ip off io = (Ok (length bs), off + of_nat (length bs), io') \<and>
    io_ops io' = io_ops io \<and> node_ok R ip (io_k io') \<and>
    node_contents ip (io_k io') = take (unat off) (node_contents ip (io_k io)) @ repeated (length bs) bs @ drop (unat off + length bs) (node_contents ip (io_k io)) \<and>
    (length bs \<le> MAXWRITE \<longrightarrow> repeated (length bs) bs = bs) \<and>
    (MAXWRITE < length bs \<longrightarrow> repeated (length bs) bs ! MAXWRITE = bs ! 0)"
proof -
  have "repeated (length bs) bs ! MAXWRITE = bs ! 0" if "MAXWRITE < length bs"
    using that repeated_head [of "length bs - MAXWRITE" bs] by (simp add: repeated.simps [of "length bs"] nth_append)
  moreover have "repeated (length bs) bs = bs" if "length bs \<le> MAXWRITE" using that by (simp add: repeated.simps)
  ultimately show ?thesis
    using fnod_loop_ok [OF assms(1,2) le0 assms(3)] assms(4,5) length_repeated [of "length bs" bs]
    by (simp add: fnod_write_def patch_def)
qed


definition demo_bytes :: "byte list" where
  "demo_bytes = 7 # replicate MAXWRITE 1"

definition demo_io :: fio where
  "demo_io = \<lparr>io_k = demo_kfs, io_ops = 0\<rparr>"

lemma demo_node_ok: "node_ok {} 0 demo_kfs"
  using demo_dir_ok(1) by (simp add: node_ok_def demo_node dir_ok_def file_ok_def inum_ok_def) (simp add: demo_dir_def demo_ip_def)

theorem fnod_write_repeats_witness:
  "\<exists>io'. fnod_write (\<lambda>a n. (slice a n demo_bytes, Ok ())) 0 3073 False 0 0 demo_io = (Ok 3073, 3073, io') \<and>
     node_contents 0 (io_k io') = 7 # replicate 3071 1 @ [7]"
proof -
  have l: "length demo_bytes = 3073" by (simp add: demo_bytes_def MAXWRITE_3072)
  have z: "node_contents 0 (io_k demo_io) = []" by (simp add: contents_def demo_io_def demo_node demo_dir_def demo_ip_def idata_new_def)
  have r: "repeated 3073 demo_bytes = 7 # replicate 3071 1 @ [7]"
    by (simp add: repeated.simps [of 3073] repeated.simps [of "Suc 0"] MAXWRITE_3072 demo_bytes_def min_def take_Cons')
  have "\<exists>io'. fnod_write (\<lambda>a n. (slice a n demo_bytes, Ok ())) 0 (length demo_bytes) False 0 0 demo_io = (Ok (length demo_bytes), 0 + of_nat (length demo_bytes), io') \<and>
      io_ops io' = io_ops demo_io \<and> node_ok {} 0 (io_k io') \<and>
      node_contents 0 (io_k io') = take (unat (0 :: u32)) (node_contents 0 (io_k demo_io)) @ repeated (length demo_bytes) demo_bytes @ drop (unat (0 :: u32) + length demo_bytes) (node_contents 0 (io_k demo_io)) \<and>
      (length demo_bytes \<le> MAXWRITE \<longrightarrow> repeated (length demo_bytes) demo_bytes = demo_bytes) \<and>
      (MAXWRITE < length demo_bytes \<longrightarrow> repeated (length demo_bytes) demo_bytes ! MAXWRITE = demo_bytes ! 0)"
    by (rule fnod_write_repeats)
      (use demo_node_ok demo_nfree in \<open>simp_all add: demo_io_def delivers_def l MAXFILE_def NDIRECT_def BSIZE_def MAXWRITE_3072 demo_node\<close>)
  then show ?thesis using z r by (auto simp: l)
qed


text \<open>
  Reading an open file and the log. A read that succeeds ends the transaction it began and moves
  the offset by what it read. A read whose copy to the caller fails, for instance to an invalid address,
  returns with the transaction still open: the log counts one operation more for ever, and never commits
  again.
\<close>

lemma fnod_read_transaction:
  "(case fnod_read out dst n ip off io mem of
      (Ok r, off', io', mem') \<Rightarrow> io_ops io' = io_ops io \<and> off' = off + of_nat r
    | (Err e, off', io', mem') \<Rightarrow> io_ops io' = io_ops io + 1 \<and> off' = off
    | (Panic, off', io', mem') \<Rightarrow> True) \<and>
   (\<exists>io ip io'. fnod_read (\<lambda>d bs m. (m, Err BadVirtAddr)) 0 1 ip 0 io () = (Err BadVirtAddr, 0, io', ()))"
proof -
  have "case fnod_read out dst n ip off io mem of
      (Ok r, off', io', mem') \<Rightarrow> io_ops io' = io_ops io \<and> off' = off + of_nat r
    | (Err e, off', io', mem') \<Rightarrow> io_ops io' = io_ops io + 1 \<and> off' = off
    | (Panic, off', io', mem') \<Rightarrow> True"
    by (auto simp: fnod_read_def begin_tx_def end_tx_def Let_def split: prod.splits outcome.splits)
  moreover have "\<exists>io ip io'. fnod_read (\<lambda>d bs m. (m, Err BadVirtAddr)) 0 1 ip 0 io () = (Err BadVirtAddr, 0, io', ())"
  proof -
    let ?k = "set_node 0 ((k_node demo_kfs 0)\<lparr>mi_data := (mi_data (k_node demo_kfs 0))\<lparr>id_size := 1, id_addrs := replicate (NDIRECT + 2) 5\<rparr>\<rparr>) demo_kfs"
    have "ilock_h 0 ?k = (Ok (), ?k)" by (rule ilock_valid) (simp add: set_node_def demo_node demo_dir_def demo_ip_def)
    then have "\<exists>io'. fnod_read (\<lambda>d bs m. (m, Err BadVirtAddr)) 0 1 0 0 \<lparr>io_k = ?k, io_ops = 0\<rparr> () = (Err BadVirtAddr, 0, io', ())"
      by (simp add: fnod_read_def begin_tx_def inode_read_def Let_def set_node_def read_loop.simps bmap_def ensure_root_def NDIRECT_def)
    then show ?thesis by blast
  qed
  ultimately show ?thesis by blast
qed

text \<open>
  Two processes that close the two references to one open file at the same time can both find that
  it is not the last one, because the count is read before the table is locked and lowered after it is
  released. Then the file stays in the table without any reference and is never closed. One after the
  other, the same two drops empty the slot.
\<close>

lemma file_drop_race:
  "\<exists>f t t1 t2 u1 u2. ft_refs t (f_h f) = 2 \<and> ft_tab t = [Some (f_h f)] \<and>
     drop_check (f_h f) t = Ok t \<and> drop_rest (f_h f) t = (Ok (), t1) \<and> drop_rest (f_h f) t1 = (Ok (), t2) \<and>
     ft_refs t2 (f_h f) = 0 \<and> ft_tab t2 = [Some (f_h f)] \<and>
     file_drop f t = (Ok (), u1) \<and> file_drop f u1 = (Ok (), u2) \<and> ft_tab u2 = [None]"
proof -
  define f where "f = \<lparr>f_h = 0, f_readable = True, f_writable = False, f_cloexec = False, f_nonblock = False, f_append = False\<rparr>"
  define T where "T n tab = \<lparr>ft_io = demo_io, ft_tab = tab, ft_vf = (\<lambda>_. VPipe 0), ft_refs = (\<lambda>_. 0)(0 := n), ft_next = 1\<rparr>"
    for n :: nat and tab :: "nat option list"
  have r: "drop_rest 0 (T n tab) = (Ok (), T (n - 1) tab)" for n tab
    by (simp add: drop_rest_def T_def Let_def fun_eq_iff)
  have c: "drop_check 0 (T 2 [Some 0]) = Ok (T 2 [Some 0])" "drop_check 0 (T 1 [Some 0]) = Ok (T 1 [None])"
    by (simp_all add: drop_check_def vf_count_def T_def)
  have "file_drop f (T 2 [Some 0]) = (Ok (), T 1 [Some 0])" "file_drop f (T 1 [Some 0]) = (Ok (), T 0 [None])"
    using c r [of 2 "[Some 0]"] r [of 1 "[None]"] by (simp_all add: file_drop_def f_def)
  moreover have "f_h f = 0" "ft_refs (T n tab) 0 = n" "ft_tab (T n tab) = tab" for n tab by (simp_all add: f_def T_def)
  ultimately show ?thesis using c(1) r [of 2 "[Some 0]"] r [of 1 "[Some 0]"]
    by (intro exI [of _ f] exI [of _ "T 2 [Some 0]"] exI [of _ "T 1 [Some 0]"] exI [of _ "T 0 [Some 0]"] exI [of _ "T 0 [None]"]) simp
qed

end
