(* ===== verification/Semaphore.thy ===== *)
theory Semaphore
  imports Fifo
begin

text \<open>
  The counting semaphore of \<^verbatim>\<open>crates/kernel/src/semaphore.rs\<close>. Every operation runs
  under the semaphore's lock and is one step. \<^verbatim>\<open>wait\<close> may sleep on the condition
  variable: \<open>sem_wait\<close> is one pass through its loop, and the result \<open>None\<close> means that
  the process goes to sleep; after a wakeup it takes the next pass.
\<close>

record semaphore =
  sem_count :: int
  sem_closed :: bool
  sem_max :: int

definition sem_new :: "int \<Rightarrow> semaphore result" where
  "sem_new mx = assert_then (0 \<le> mx) (Ok \<lparr>sem_count = mx, sem_closed = False, sem_max = mx\<rparr>)"

definition sem_new_with_count :: "int \<Rightarrow> int \<Rightarrow> semaphore result" where
  "sem_new_with_count cnt mx =
     (if mx < 0 \<or> cnt < 0 \<or> mx < cnt then Err InvalidArgument
      else Ok \<lparr>sem_count = cnt, sem_closed = False, sem_max = mx\<rparr>)"

definition sem_wait :: "bool \<Rightarrow> semaphore \<Rightarrow> unit result option \<times> semaphore" where
  "sem_wait killed s =
     (if killed then (Some (Err Interrupted), s)
      else if sem_closed s then (Some (Err InvalidArgument), s)
      else if sem_count s = 0 then (None, s)
      else (Some (Ok ()), s\<lparr>sem_count := sem_count s - 1\<rparr>))"

definition sem_try_wait :: "semaphore \<Rightarrow> bool result \<times> semaphore" where
  "sem_try_wait s =
     (if sem_closed s then (Err InvalidArgument, s)
      else if sem_count s = 0 then (Ok False, s)
      else (Ok True, s\<lparr>sem_count := sem_count s - 1\<rparr>))"

definition sem_can_wait :: "semaphore \<Rightarrow> bool result" where
  "sem_can_wait s = (if sem_closed s then Err InvalidArgument else Ok (0 < sem_count s))"

definition sem_post :: "semaphore \<Rightarrow> unit result \<times> semaphore" where
  "sem_post s =
     (if sem_closed s then (Err InvalidArgument, s)
      else if sem_count s = sem_max s then (Err InvalidArgument, s)
      else (Ok (), s\<lparr>sem_count := sem_count s + 1\<rparr>))"

definition sem_close :: "semaphore \<Rightarrow> semaphore" where
  "sem_close s = s\<lparr>sem_closed := True\<rparr>"

definition sem_inv :: "semaphore \<Rightarrow> bool" where
  "sem_inv s \<longleftrightarrow> 0 \<le> sem_count s \<and> sem_count s \<le> sem_max s"

lemma sem_new_inv:
  "sem_new mx = Ok s \<Longrightarrow> sem_inv s" "sem_new_with_count cnt mx = Ok s \<Longrightarrow> sem_inv s"
  by (auto simp: sem_new_def sem_new_with_count_def sem_inv_def split: if_splits)

text \<open>The operations of a semaphore, and the state after one of them.\<close>

datatype sem_op = SWait bool | STryWait | SPost | SClose

fun sem_step :: "sem_op \<Rightarrow> semaphore \<Rightarrow> semaphore" where
  "sem_step (SWait killed) s = snd (sem_wait killed s)"
| "sem_step STryWait s = snd (sem_try_wait s)"
| "sem_step SPost s = snd (sem_post s)"
| "sem_step SClose s = sem_close s"

text \<open>Whether an operation takes a permit or gives one back.\<close>

fun sem_takes :: "sem_op \<Rightarrow> semaphore \<Rightarrow> bool" where
  "sem_takes (SWait killed) s \<longleftrightarrow> fst (sem_wait killed s) = Some (Ok ())"
| "sem_takes STryWait s \<longleftrightarrow> fst (sem_try_wait s) = Ok True"
| "sem_takes _ s \<longleftrightarrow> False"

fun sem_gives :: "sem_op \<Rightarrow> semaphore \<Rightarrow> bool" where
  "sem_gives SPost s \<longleftrightarrow> fst (sem_post s) = Ok ()"
| "sem_gives _ s \<longleftrightarrow> False"

fun permits_out :: "sem_op list \<Rightarrow> semaphore \<Rightarrow> int" where
  "permits_out [] s = 0"
| "permits_out (op # ops) s =
     of_bool (sem_takes op s) - of_bool (sem_gives op s) + permits_out ops (sem_step op s)"

lemmas sem_op_defs = sem_wait_def sem_try_wait_def sem_post_def sem_close_def sem_inv_def

lemma sem_step_inv: "sem_inv s \<Longrightarrow> sem_inv (sem_step op s) \<and> sem_max (sem_step op s) = sem_max s"
  by (cases op) (auto simp: sem_op_defs)

lemma sem_step_count:
  "sem_count (sem_step op s) = sem_count s - of_bool (sem_takes op s) + of_bool (sem_gives op s)"
  by (cases op) (auto simp: sem_op_defs)

lemma sem_closed_stays: "sem_closed s \<Longrightarrow> sem_closed (sem_step op s)"
  by (cases op) (auto simp: sem_op_defs)

text \<open>
  The semaphore counts permits. After any sequence of operations the count is the initial count
  minus the permits taken plus those given back, and stays between 0 and the maximum; in particular a
  \<^verbatim>\<open>post\<close> beyond the maximum and any operation after \<^verbatim>\<open>close\<close> have no
  effect on it.
\<close>

lemma semaphore_permits:
  assumes "sem_inv s"
  shows "sem_count (fold sem_step ops s) = sem_count s - permits_out ops s \<and>
    0 \<le> sem_count (fold sem_step ops s) \<and> sem_count (fold sem_step ops s) \<le> sem_max s \<and>
    (sem_closed s \<longrightarrow> sem_count (fold sem_step ops s) = sem_count s)"
  using assms
proof (induction ops arbitrary: s)
  case Nil
  then show ?case by (simp add: sem_inv_def)
next
  case (Cons op ops)
  from Cons.IH [of "sem_step op s"] sem_step_inv [OF Cons.prems, of op] sem_step_count [of op s]
    sem_closed_stays [of s op]
  show ?case by (cases op) (auto simp: sem_op_defs split: if_splits)
qed

end
