(* ===== verification/Channel.thy ===== *)
theory Channel
  imports Semaphore
begin

text \<open>
  The bounded channel of \<^verbatim>\<open>crates/kernel/src/mpmc.rs\<close>: a buffer whose free slots are
  the permits of a semaphore. A sender takes a permit and then, under the buffer's lock, appends; a
  receiver takes the front and gives the permit back while it holds the lock. Between the two halves
  of a send other threads run, so the channel is studied as a step relation in which senders can be
  in flight: \<open>chan_reach\<close>. \<open>None\<close> as the result of a blocking operation means that
  the process goes to sleep.

  The reference counts are the numbers of live handles; a handle is dropped only while it exists.
\<close>

section \<open>The source's operations\<close>

record 'a channel =
  ch_sem :: semaphore
  ch_buf :: "'a list"
  ch_scnt :: nat
  ch_rcnt :: nat

definition sync_channel :: "int \<Rightarrow> 'a channel result" where
  "sync_channel mx =
     obind (sem_new mx) (\<lambda>s. Ok \<lparr>ch_sem = s, ch_buf = [], ch_scnt = 1, ch_rcnt = 1\<rparr>)"

definition clone_sender :: "'a channel \<Rightarrow> 'a channel" where
  "clone_sender c = c\<lparr>ch_scnt := ch_scnt c + 1\<rparr>"

definition clone_receiver :: "'a channel \<Rightarrow> 'a channel" where
  "clone_receiver c = c\<lparr>ch_rcnt := ch_rcnt c + 1\<rparr>"

text \<open>The second half of both kinds of send, under the buffer's lock.\<close>

definition push_back :: "'a channel \<Rightarrow> 'a \<Rightarrow> 'a channel" where
  "push_back c x = c\<lparr>ch_buf := ch_buf c @ [x]\<rparr>"

definition chan_send :: "bool \<Rightarrow> 'a channel \<Rightarrow> 'a \<Rightarrow> unit result option \<times> 'a channel" where
  "chan_send killed c x =
     (case sem_wait killed (ch_sem c) of
        (Some (Ok _), s) \<Rightarrow> (Some (Ok ()), push_back (c\<lparr>ch_sem := s\<rparr>) x)
      | (r, s) \<Rightarrow> (r, c\<lparr>ch_sem := s\<rparr>))"

definition chan_try_send :: "'a channel \<Rightarrow> 'a \<Rightarrow> unit result \<times> 'a channel" where
  "chan_try_send c x =
     (case sem_try_wait (ch_sem c) of
        (Ok True, s) \<Rightarrow> (Ok (), push_back (c\<lparr>ch_sem := s\<rparr>) x)
      | (Ok False, s) \<Rightarrow> (Err WouldBlock, c\<lparr>ch_sem := s\<rparr>)
      | (Err e, s) \<Rightarrow> (Err e, c\<lparr>ch_sem := s\<rparr>)
      | (Panic, s) \<Rightarrow> (Panic, c\<lparr>ch_sem := s\<rparr>))"

definition can_send :: "'a channel \<Rightarrow> bool result" where
  "can_send c = sem_can_wait (ch_sem c)"

definition sender_is_closed :: "'a channel \<Rightarrow> bool" where
  "sender_is_closed c \<longleftrightarrow> ch_rcnt c = 0"

text \<open>The front of the buffer with the permit given back; a failing \<^verbatim>\<open>post\<close> loses the datum.\<close>

definition pop_and_post :: "'a channel \<Rightarrow> 'a \<Rightarrow> 'a list \<Rightarrow> 'a result \<times> 'a channel" where
  "pop_and_post c x xs =
     (case sem_post (ch_sem c) of
        (Ok _, s) \<Rightarrow> (Ok x, c\<lparr>ch_sem := s, ch_buf := xs\<rparr>)
      | (Err e, s) \<Rightarrow> (Err e, c\<lparr>ch_sem := s, ch_buf := xs\<rparr>)
      | (Panic, s) \<Rightarrow> (Panic, c\<lparr>ch_sem := s, ch_buf := xs\<rparr>))"

definition chan_recv :: "'a channel \<Rightarrow> 'a result option \<times> 'a channel" where
  "chan_recv c =
     (case ch_buf c of
        x # xs \<Rightarrow> (case pop_and_post c x xs of (r, c') \<Rightarrow> (Some r, c'))
      | [] \<Rightarrow> (if 0 < ch_scnt c then (None, c) else (Some (Err NotConnected), c)))"

definition chan_try_recv :: "'a channel \<Rightarrow> 'a result \<times> 'a channel" where
  "chan_try_recv c =
     (case ch_buf c of
        x # xs \<Rightarrow> pop_and_post c x xs
      | [] \<Rightarrow> (if 0 < ch_scnt c then (Err WouldBlock, c) else (Err NotConnected, c)))"

definition has_data :: "'a channel \<Rightarrow> bool" where
  "has_data c \<longleftrightarrow> ch_buf c \<noteq> []"

definition receiver_is_closed :: "'a channel \<Rightarrow> bool" where
  "receiver_is_closed c \<longleftrightarrow> ch_scnt c = 0"

definition drop_sender :: "'a channel \<Rightarrow> 'a channel" where
  "drop_sender c = c\<lparr>ch_scnt := ch_scnt c - 1\<rparr>"

definition drop_receiver :: "'a channel \<Rightarrow> 'a channel" where
  "drop_receiver c =
     (let c' = c\<lparr>ch_rcnt := ch_rcnt c - 1\<rparr>
      in if ch_rcnt c = 1 then c'\<lparr>ch_sem := sem_close (ch_sem c')\<rparr> else c')"

section \<open>Interleaved executions\<close>

text \<open>
  A state of the system: the channel, the data of the senders that hold a permit and have not yet
  appended, and the histories of what was appended and what was received.
\<close>

record 'a chan_sys =
  cs_chan :: "'a channel"
  cs_flight :: "'a multiset"
  cs_in :: "'a list"
  cs_out :: "'a list"

inductive chan_step :: "'a chan_sys \<Rightarrow> 'a chan_sys \<Rightarrow> bool" where
  step_acquire: "sem_wait killed (ch_sem (cs_chan s)) = (Some (Ok ()), m) \<Longrightarrow>
    chan_step s (s\<lparr>cs_chan := (cs_chan s)\<lparr>ch_sem := m\<rparr>, cs_flight := add_mset x (cs_flight s)\<rparr>)"
| step_try_acquire: "sem_try_wait (ch_sem (cs_chan s)) = (Ok True, m) \<Longrightarrow>
    chan_step s (s\<lparr>cs_chan := (cs_chan s)\<lparr>ch_sem := m\<rparr>, cs_flight := add_mset x (cs_flight s)\<rparr>)"
| step_append: "x \<in># cs_flight s \<Longrightarrow>
    chan_step s (s\<lparr>cs_chan := push_back (cs_chan s) x, cs_flight := cs_flight s - {#x#}, cs_in := cs_in s @ [x]\<rparr>)"
| step_recv: "0 < ch_rcnt (cs_chan s) \<Longrightarrow> chan_try_recv (cs_chan s) = (Ok x, c) \<Longrightarrow>
    chan_step s (s\<lparr>cs_chan := c, cs_out := cs_out s @ [x]\<rparr>)"
| step_recv_fails: "0 < ch_rcnt (cs_chan s) \<Longrightarrow> chan_try_recv (cs_chan s) = (Err e, c) \<Longrightarrow>
    chan_step s (s\<lparr>cs_chan := c\<rparr>)"
| step_clone_sender: "0 < ch_scnt (cs_chan s) \<Longrightarrow> chan_step s (s\<lparr>cs_chan := clone_sender (cs_chan s)\<rparr>)"
| step_clone_receiver: "0 < ch_rcnt (cs_chan s) \<Longrightarrow> chan_step s (s\<lparr>cs_chan := clone_receiver (cs_chan s)\<rparr>)"
| step_drop_sender: "0 < ch_scnt (cs_chan s) \<Longrightarrow> chan_step s (s\<lparr>cs_chan := drop_sender (cs_chan s)\<rparr>)"
| step_drop_receiver: "0 < ch_rcnt (cs_chan s) \<Longrightarrow> chan_step s (s\<lparr>cs_chan := drop_receiver (cs_chan s)\<rparr>)"

inductive chan_reach :: "int \<Rightarrow> 'a chan_sys \<Rightarrow> bool" for mx where
  reach_new: "sync_channel mx = Ok c \<Longrightarrow> chan_reach mx \<lparr>cs_chan = c, cs_flight = {#}, cs_in = [], cs_out = []\<rparr>"
| reach_step: "chan_reach mx s \<Longrightarrow> chan_step s t \<Longrightarrow> chan_reach mx t"

definition chan_inv :: "int \<Rightarrow> 'a chan_sys \<Rightarrow> bool" where
  "chan_inv mx s \<longleftrightarrow>
     sem_max (ch_sem (cs_chan s)) = mx \<and> 0 \<le> sem_count (ch_sem (cs_chan s)) \<and>
     sem_count (ch_sem (cs_chan s)) + int (size (cs_flight s)) + int (length (ch_buf (cs_chan s))) = mx \<and>
     (sem_closed (ch_sem (cs_chan s)) \<longleftrightarrow> ch_rcnt (cs_chan s) = 0) \<and>
     cs_in s = cs_out s @ ch_buf (cs_chan s)"

text \<open>A receiver that finds data always succeeds in giving the permit back.\<close>

lemma try_recv_data:
  assumes "chan_inv mx s" "0 < ch_rcnt (cs_chan s)" "ch_buf (cs_chan s) = x # xs"
  shows "chan_try_recv (cs_chan s) =
    (Ok x, (cs_chan s)\<lparr>ch_sem := (ch_sem (cs_chan s))\<lparr>sem_count := sem_count (ch_sem (cs_chan s)) + 1\<rparr>, ch_buf := xs\<rparr>)"
  using assms by (auto simp: chan_inv_def chan_try_recv_def pop_and_post_def sem_post_def)

lemma try_recv_empty:
  "ch_buf c = [] \<Longrightarrow> chan_try_recv c = (Err (if 0 < ch_scnt c then WouldBlock else NotConnected), c)"
  by (simp add: chan_try_recv_def)

lemma chan_step_inv: "chan_step s t \<Longrightarrow> chan_inv mx s \<Longrightarrow> chan_inv mx t"
proof (induction rule: chan_step.induct)
  case (step_recv s x c)
  then show ?case
    by (cases "ch_buf (cs_chan s)") (auto simp: try_recv_data try_recv_empty chan_inv_def)
next
  case (step_recv_fails s e c)
  then show ?case
    by (cases "ch_buf (cs_chan s)") (auto simp: try_recv_data try_recv_empty chan_inv_def)
next
  case (step_append x s)
  then show ?case by (auto simp: chan_inv_def push_back_def size_Diff_singleton dest: multi_member_split)
qed (auto simp: chan_inv_def sem_op_defs clone_sender_def clone_receiver_def drop_sender_def drop_receiver_def Let_def
    split: if_splits)

lemma chan_reach_inv: "chan_reach mx s \<Longrightarrow> chan_inv mx s"
proof (induction rule: chan_reach.induct)
  case (reach_new c)
  then show ?case by (auto simp: chan_inv_def sync_channel_def sem_new_def)
next
  case (reach_step s t)
  then show ?case by (blast intro: chan_step_inv)
qed

section \<open>The channel as a queue\<close>

text \<open>A channel with both ends alive and no sender in flight, and its non-blocking operations.\<close>

definition chan_quiet :: "'a channel \<Rightarrow> bool" where
  "chan_quiet c \<longleftrightarrow> \<not> sem_closed (ch_sem c) \<and> 0 < ch_scnt c \<and> 0 \<le> sem_count (ch_sem c) \<and>
     sem_count (ch_sem c) + int (length (ch_buf c)) = sem_max (ch_sem c)"

definition chan_enq :: "'a channel \<Rightarrow> 'a \<Rightarrow> 'a channel option" where
  "chan_enq c x = (case chan_try_send c x of (Ok _, c') \<Rightarrow> Some c' | _ \<Rightarrow> None)"

definition chan_deq :: "'a channel \<Rightarrow> 'a option \<times> 'a channel" where
  "chan_deq c = (case chan_try_recv c of (Ok x, c') \<Rightarrow> (Some x, c') | (_, c') \<Rightarrow> (None, c'))"

lemma try_send_quiet:
  assumes "chan_quiet c"
  shows "chan_try_send c x =
    (if int (length (ch_buf c)) = sem_max (ch_sem c) then (Err WouldBlock, c)
     else (Ok (), push_back (c\<lparr>ch_sem := (ch_sem c)\<lparr>sem_count := sem_count (ch_sem c) - 1\<rparr>\<rparr>) x))"
  using assms by (auto simp: chan_quiet_def chan_try_send_def sem_try_wait_def)

lemma try_recv_quiet:
  assumes "chan_quiet c"
  shows "chan_try_recv c =
    (case ch_buf c of
       [] \<Rightarrow> (Err WouldBlock, c)
     | x # xs \<Rightarrow> (Ok x, c\<lparr>ch_sem := (ch_sem c)\<lparr>sem_count := sem_count (ch_sem c) + 1\<rparr>, ch_buf := xs\<rparr>))"
  using assms by (auto simp: chan_quiet_def chan_try_recv_def pop_and_post_def sem_post_def split: list.split)

lemma chan_quiet_max: "chan_quiet c \<Longrightarrow> int (length (ch_buf c)) \<le> sem_max (ch_sem c)"
  unfolding chan_quiet_def by arith

interpretation cq: bounded_fifo chan_quiet ch_buf "\<lambda>c. nat (sem_max (ch_sem c))" "\<lambda>_. True" chan_enq chan_deq
proof unfold_locales
  show "length (ch_buf c) \<le> nat (sem_max (ch_sem c))" if "chan_quiet c" for c :: "'a channel"
    using chan_quiet_max [OF that] by arith
  show "\<exists>c'. chan_enq c x = Some c' \<and> chan_quiet c' \<and> ch_buf c' = ch_buf c @ [x] \<and>
      nat (sem_max (ch_sem c')) = nat (sem_max (ch_sem c))"
    if "chan_quiet c" "length (ch_buf c) < nat (sem_max (ch_sem c))" for c and x :: 'a
    using that by (auto simp: chan_enq_def try_send_quiet push_back_def) (auto simp: chan_quiet_def)
  show "chan_enq c x = None" if "chan_quiet c" "length (ch_buf c) = nat (sem_max (ch_sem c))" for c and x :: 'a
    using that chan_quiet_max [OF that(1)] by (auto simp: chan_enq_def try_send_quiet split: if_splits)
  show "chan_deq c = (None, c)" if "chan_quiet c" "ch_buf c = []" for c :: "'a channel"
    using that by (simp add: chan_deq_def try_recv_quiet)
  show "\<exists>c'. chan_deq c = (Some x, c') \<and> chan_quiet c' \<and> ch_buf c' = xs \<and>
      nat (sem_max (ch_sem c')) = nat (sem_max (ch_sem c))"
    if "chan_quiet c" "ch_buf c = x # xs" for c and x :: 'a and xs
    using that by (auto simp: chan_deq_def try_recv_quiet) (auto simp: chan_quiet_def)
qed

section \<open>A receiver that goes to sleep\<close>

text \<open>
  One receiver in the loop of \<^verbatim>\<open>recv\<close>, with the moment between its decision to sleep
  and its sleeping made explicit. In that moment (\<open>Committed\<close>) it holds the buffer's lock,
  which keeps senders from appending; dropping a sender takes no lock. \<^verbatim>\<open>notify_all\<close>
  wakes the receiver only if it is asleep already.
\<close>

datatype rphase = Running | Committed | Asleep

definition notify_all :: "rphase \<Rightarrow> rphase" where
  "notify_all p = (if p = Asleep then Running else p)"

inductive recv_step :: "'a channel \<times> rphase \<Rightarrow> 'a channel \<times> rphase \<Rightarrow> bool" where
  recv_decides: "chan_recv c = (None, c') \<Longrightarrow> recv_step (c, Running) (c', Committed)"
| recv_sleeps: "recv_step (c, Committed) (c, Asleep)"
| send_appends: "0 < ch_scnt c \<Longrightarrow> p \<noteq> Committed \<Longrightarrow> chan_send False c x = (Some (Ok ()), c') \<Longrightarrow>
    recv_step (c, p) (c', notify_all p)"
| sender_dropped: "0 < ch_scnt c \<Longrightarrow> recv_step (c, p) (drop_sender c, notify_all p)"

inductive_simps recv_step_asleep: "recv_step (c, Asleep) t"

section \<open>Properties\<close>


text \<open>Channels of capacity two, after one sender took a permit and after its datum arrived.\<close>

lemma channel_run:
  "\<exists>s. chan_reach 2 s \<and> cs_in s = [7 :: nat] \<and> cs_out s = [] \<and> 0 < ch_rcnt (cs_chan s)"
proof -
  let ?m = "\<lparr>sem_count = 2, sem_closed = False, sem_max = 2\<rparr>"
  let ?c = "\<lparr>ch_sem = ?m, ch_buf = [], ch_scnt = 1, ch_rcnt = 1\<rparr>"
  let ?s = "\<lparr>cs_chan = ?c, cs_flight = {#}, cs_in = [], cs_out = []\<rparr>"
  have "chan_reach 2 ?s" by (rule reach_new) (simp add: sync_channel_def sem_new_def)
  moreover have "chan_step ?s (?s\<lparr>cs_chan := ?c\<lparr>ch_sem := ?m\<lparr>sem_count := 1\<rparr>\<rparr>, cs_flight := {#7#}\<rparr>)"
    using step_acquire [of False ?s "?m\<lparr>sem_count := 1\<rparr>" 7] by (simp add: sem_wait_def)
  ultimately have r: "chan_reach 2 (?s\<lparr>cs_chan := ?c\<lparr>ch_sem := ?m\<lparr>sem_count := 1\<rparr>\<rparr>, cs_flight := {#7#}\<rparr>)"
    by (rule reach_step)
  show ?thesis by (rule exI, rule conjI, rule reach_step [OF r step_append [of 7]]) (simp_all add: push_back_def)
qed


text \<open>
  No datum is lost and the channel does not jam. In every reachable state with a receiver left, a
  receive on a non-empty buffer returns its front (the permit it gives back is always accepted), a
  receive on an empty buffer changes nothing, and if the capacity is positive then a sender can take
  a permit, or a sender in flight can append, or a receiver has data.
\<close>

lemma channel_no_loss:
  assumes "chan_reach mx s" "0 < ch_rcnt (cs_chan s)"
  shows "(case ch_buf (cs_chan s) of
      [] \<Rightarrow> snd (chan_try_recv (cs_chan s)) = cs_chan s
    | x # xs \<Rightarrow> fst (chan_try_recv (cs_chan s)) = Ok x \<and> ch_buf (snd (chan_try_recv (cs_chan s))) = xs) \<and>
    (0 < mx \<longrightarrow> fst (sem_wait False (ch_sem (cs_chan s))) = Some (Ok ()) \<or> cs_flight s \<noteq> {#} \<or> has_data (cs_chan s))"
proof -
  note inv = chan_reach_inv [OF assms(1)]
  have "case ch_buf (cs_chan s) of
      [] \<Rightarrow> snd (chan_try_recv (cs_chan s)) = cs_chan s
    | x # xs \<Rightarrow> fst (chan_try_recv (cs_chan s)) = Ok x \<and> ch_buf (snd (chan_try_recv (cs_chan s))) = xs"
    using try_recv_data [OF inv assms(2)] by (auto simp: try_recv_empty split: list.split)
  moreover have "fst (sem_wait False (ch_sem (cs_chan s))) = Some (Ok ())"
    if "0 < mx" "cs_flight s = {#}" "\<not> has_data (cs_chan s)"
    using inv assms(2) that by (auto simp: chan_inv_def has_data_def sem_wait_def)
  ultimately show ?thesis by blast
qed

text \<open>
  A lost wakeup. \<^verbatim>\<open>Drop for SyncSender\<close> decrements the sender count and notifies
  without the buffer's lock. A receiver that has just seen a live sender can therefore miss the
  notification of the last sender's drop and go to sleep on an empty channel without senders, where
  no step of the system can wake it.
\<close>

lemma recv_lost_wakeup:
  "\<exists>c :: 'a channel. sync_channel 1 = Ok c \<and>
     (\<exists>c'. recv_step\<^sup>*\<^sup>* (c, Running) (c', Asleep) \<and> ch_buf c' = [] \<and> ch_scnt c' = 0 \<and>
        (\<forall>t. \<not> recv_step (c', Asleep) t))"
proof -
  let ?c = "\<lparr>ch_sem = \<lparr>sem_count = 1, sem_closed = False, sem_max = 1\<rparr>, ch_buf = [], ch_scnt = 1, ch_rcnt = 1\<rparr> :: 'a channel"
  have "recv_step (?c, Running) (?c, Committed)" by (rule recv_decides) (simp add: chan_recv_def)
  moreover have "recv_step (?c, Committed) (drop_sender ?c, Committed)"
    using sender_dropped [of ?c Committed] by (simp add: notify_all_def)
  moreover have "recv_step (drop_sender ?c, Committed) (drop_sender ?c, Asleep)" by (rule recv_sleeps)
  ultimately have "recv_step\<^sup>*\<^sup>* (?c, Running) (drop_sender ?c, Asleep)"
    by (meson converse_rtranclp_into_rtranclp rtranclp.rtrancl_refl)
  moreover have "\<not> recv_step (drop_sender ?c, Asleep) t" for t
    by (simp add: recv_step_asleep drop_sender_def)
  ultimately show ?thesis
    by (intro exI [of _ ?c] conjI exI [of _ "drop_sender ?c"]) (simp_all add: sync_channel_def sem_new_def drop_sender_def)
qed

end
