(* ===== verification/Pipe.thy ===== *)
theory Pipe
  imports Channel Bytes
begin

text \<open>
  Pipes (\<^verbatim>\<open>crates/kernel/src/pipe.rs\<close>): a byte channel of capacity 512 with one end
  per file. The copies between kernel and user memory (\<^verbatim>\<open>either_copyin\<close> and
  \<^verbatim>\<open>either_copyout\<close>) are arguments: \<open>copyin\<close> reads a byte of the caller's
  memory, \<open>copyout\<close> stores one; both can fail. A blocking call either returns or goes to
  sleep with a number of bytes already transferred; it is resumed from that number. The loops are
  modelled as they run between two such points.
\<close>

section \<open>The source's operations\<close>

record pipe =
  pipe_rx :: bool
  pipe_tx :: bool

definition PIPESIZE :: int where
  "PIPESIZE = 512"

definition pipe_channel :: "byte channel result" where
  "pipe_channel = sync_channel PIPESIZE"

text \<open>A call that returned, or one that sleeps with the given number of bytes transferred.\<close>

datatype progress = Returned "nat result" | Sleeping nat

fun pipe_write_loop ::
  "(nat \<Rightarrow> byte result) \<Rightarrow> bool \<Rightarrow> nat \<Rightarrow> nat \<Rightarrow> nat \<Rightarrow> byte channel \<Rightarrow> progress \<times> byte channel" where
  "pipe_write_loop copyin killed 0 i src c = (Returned (Ok i), c)"
| "pipe_write_loop copyin killed (Suc n) i src c =
     (case copyin src of
        Err e \<Rightarrow> (Returned (Err e), c)
      | Panic \<Rightarrow> (Returned Panic, c)
      | Ok ch \<Rightarrow>
          (case chan_send killed c ch of
             (None, c') \<Rightarrow> (Sleeping i, c')
           | (Some (Ok _), c') \<Rightarrow> pipe_write_loop copyin killed n (i + 1) (src + 1) c'
           | (Some (Err _), c') \<Rightarrow> (Returned (Ok i), c')
           | (Some Panic, c') \<Rightarrow> (Returned Panic, c')))"

definition pipe_write ::
  "(nat \<Rightarrow> byte result) \<Rightarrow> bool \<Rightarrow> pipe \<Rightarrow> nat \<Rightarrow> nat \<Rightarrow> byte channel \<Rightarrow> progress \<times> byte channel" where
  "pipe_write copyin killed p src n c =
     (if pipe_tx p then pipe_write_loop copyin killed n 0 src c else (Returned (Err BrokenPipe), c))"

fun write_nonblock_loop ::
  "(nat \<Rightarrow> byte result) \<Rightarrow> nat \<Rightarrow> nat \<Rightarrow> nat \<Rightarrow> byte channel \<Rightarrow> nat result \<times> byte channel" where
  "write_nonblock_loop copyin 0 i src c = (Ok i, c)"
| "write_nonblock_loop copyin (Suc n) i src c =
     (case copyin src of
        Err e \<Rightarrow> (Err e, c)
      | Panic \<Rightarrow> (Panic, c)
      | Ok ch \<Rightarrow>
          (case chan_try_send c ch of
             (Ok _, c') \<Rightarrow> write_nonblock_loop copyin n (i + 1) (src + 1) c'
           | (Err e, c') \<Rightarrow>
               (if e = WouldBlock then (if i = 0 then Err WouldBlock else Ok i, c') else (Ok i, c'))
           | (Panic, c') \<Rightarrow> (Panic, c')))"

definition pipe_write_nonblock ::
  "(nat \<Rightarrow> byte result) \<Rightarrow> pipe \<Rightarrow> nat \<Rightarrow> nat \<Rightarrow> byte channel \<Rightarrow> nat result \<times> byte channel" where
  "pipe_write_nonblock copyin p src n c =
     (if pipe_tx p then write_nonblock_loop copyin n 0 src c else (Err BrokenPipe, c))"

fun pipe_read_loop ::
  "('m \<Rightarrow> nat \<Rightarrow> byte \<Rightarrow> 'm result) \<Rightarrow> nat \<Rightarrow> nat \<Rightarrow> nat \<Rightarrow> 'm \<Rightarrow> byte channel \<Rightarrow> progress \<times> 'm \<times> byte channel" where
  "pipe_read_loop copyout 0 i dst m c = (Returned (Ok i), m, c)"
| "pipe_read_loop copyout (Suc n) i dst m c =
     (case chan_recv c of
        (None, c') \<Rightarrow> (Sleeping i, m, c')
      | (Some (Err _), c') \<Rightarrow> (Returned (Ok i), m, c')
      | (Some Panic, c') \<Rightarrow> (Returned Panic, m, c')
      | (Some (Ok ch), c') \<Rightarrow>
          (case copyout m dst ch of
             Err e \<Rightarrow> (Returned (Err e), m, c')
           | Panic \<Rightarrow> (Returned Panic, m, c')
           | Ok m' \<Rightarrow> pipe_read_loop copyout n (i + 1) (dst + 1) m' c'))"

definition pipe_read ::
  "('m \<Rightarrow> nat \<Rightarrow> byte \<Rightarrow> 'm result) \<Rightarrow> pipe \<Rightarrow> nat \<Rightarrow> nat \<Rightarrow> 'm \<Rightarrow> byte channel \<Rightarrow> progress \<times> 'm \<times> byte channel" where
  "pipe_read copyout p dst n m c =
     (if pipe_rx p then pipe_read_loop copyout n 0 dst m c else (Returned (Err BrokenPipe), m, c))"

fun read_nonblock_loop ::
  "('m \<Rightarrow> nat \<Rightarrow> byte \<Rightarrow> 'm result) \<Rightarrow> nat \<Rightarrow> nat \<Rightarrow> nat \<Rightarrow> 'm \<Rightarrow> byte channel \<Rightarrow> nat result \<times> 'm \<times> byte channel" where
  "read_nonblock_loop copyout 0 i dst m c = (Ok i, m, c)"
| "read_nonblock_loop copyout (Suc n) i dst m c =
     (case chan_try_recv c of
        (Ok ch, c') \<Rightarrow>
          (case copyout m dst ch of
             Err e \<Rightarrow> (Err e, m, c')
           | Panic \<Rightarrow> (Panic, m, c')
           | Ok m' \<Rightarrow> read_nonblock_loop copyout n (i + 1) (dst + 1) m' c')
      | (Err e, c') \<Rightarrow>
          (if e = WouldBlock then (if i = 0 then Err WouldBlock else Ok i, m, c') else (Ok i, m, c'))
      | (Panic, c') \<Rightarrow> (Panic, m, c'))"

definition pipe_read_nonblock ::
  "('m \<Rightarrow> nat \<Rightarrow> byte \<Rightarrow> 'm result) \<Rightarrow> pipe \<Rightarrow> nat \<Rightarrow> nat \<Rightarrow> 'm \<Rightarrow> byte channel \<Rightarrow> nat result \<times> 'm \<times> byte channel" where
  "pipe_read_nonblock copyout p dst n m c =
     (if pipe_rx p then read_nonblock_loop copyout n 0 dst m c else (Err BrokenPipe, m, c))"

definition pipe_poll_readable :: "pipe \<Rightarrow> byte channel \<Rightarrow> bool result" where
  "pipe_poll_readable p c =
     (if pipe_rx p then (if has_data c then Ok True else Ok (receiver_is_closed c)) else Err BrokenPipe)"

definition pipe_poll_writable :: "pipe \<Rightarrow> byte channel \<Rightarrow> bool result" where
  "pipe_poll_writable p c =
     (if pipe_tx p
      then (if sender_is_closed c then Ok False
            else (case can_send c of Ok b \<Rightarrow> Ok b | Err _ \<Rightarrow> Ok False | Panic \<Rightarrow> Panic))
      else Err BrokenPipe)"

definition pipe_poll_read_hup :: "pipe \<Rightarrow> byte channel \<Rightarrow> bool result" where
  "pipe_poll_read_hup p c = (if pipe_rx p then Ok (receiver_is_closed c) else Err BrokenPipe)"

definition pipe_poll_write_hup :: "pipe \<Rightarrow> byte channel \<Rightarrow> bool result" where
  "pipe_poll_write_hup p c = (if pipe_tx p then Ok (sender_is_closed c) else Err BrokenPipe)"

section \<open>What the loops transfer\<close>

text \<open>The free slots of a channel, and the channel after bytes went in or out.\<close>

definition room :: "byte channel \<Rightarrow> nat" where
  "room c = nat (sem_count (ch_sem c))"

definition fed :: "byte channel \<Rightarrow> byte list \<Rightarrow> byte channel" where
  "fed c bs = c\<lparr>ch_sem := (ch_sem c)\<lparr>sem_count := sem_count (ch_sem c) - int (length bs)\<rparr>, ch_buf := ch_buf c @ bs\<rparr>"

definition drained :: "byte channel \<Rightarrow> nat \<Rightarrow> byte channel" where
  "drained c k = c\<lparr>ch_sem := (ch_sem c)\<lparr>sem_count := sem_count (ch_sem c) + int k\<rparr>, ch_buf := drop k (ch_buf c)\<rparr>"

text \<open>The bytes at consecutive addresses of the caller's memory.\<close>

definition readable :: "(nat \<Rightarrow> byte result) \<Rightarrow> nat \<Rightarrow> byte list \<Rightarrow> bool" where
  "readable copyin src bs \<longleftrightarrow> (\<forall>j < length bs. copyin (src + j) = Ok (bs ! j))"

lemma readable_Cons: "readable copyin src (b # bs) \<longleftrightarrow> copyin src = Ok b \<and> readable copyin (src + 1) bs"
proof -
  have "(\<forall>j < Suc (length bs). copyin (src + j) = Ok ((b # bs) ! j)) \<longleftrightarrow>
      copyin src = Ok b \<and> (\<forall>j < length bs. copyin (src + Suc j) = Ok (bs ! j))"
    by (simp add: All_less_Suc2)
  then show ?thesis by (simp add: readable_def)
qed

lemma fed_quiet: "chan_quiet c \<Longrightarrow> length bs \<le> room c \<Longrightarrow> chan_quiet (fed c bs)"
  by (auto simp: chan_quiet_def fed_def room_def)

lemma drained_quiet: "chan_quiet c \<Longrightarrow> k \<le> length (ch_buf c) \<Longrightarrow> chan_quiet (drained c k)"
  by (auto simp: chan_quiet_def drained_def)

lemma fed_simps [simp]:
  "fed c [] = c" "room (fed c bs) = room c - length bs" "fed (fed c bs) bs' = fed c (bs @ bs')"
  by (auto simp: fed_def room_def)

lemma drained_simps [simp]: "drained c 0 = c" "drained (drained c j) k = drained c (j + k)"
  by (auto simp: drained_def add.commute add.assoc)

text \<open>Sending a byte on a channel with both ends open, and receiving one.\<close>

lemma send_quiet:
  assumes "chan_quiet c"
  shows "chan_send False c b = (if room c = 0 then (None, c) else (Some (Ok ()), fed c [b]))"
  using assms by (auto simp: chan_quiet_def chan_send_def sem_wait_def room_def fed_def push_back_def)

lemma try_send_room:
  assumes "chan_quiet c"
  shows "chan_try_send c b = (if room c = 0 then (Err WouldBlock, c) else (Ok (), fed c [b]))"
  using assms by (auto simp: chan_quiet_def chan_try_send_def sem_try_wait_def room_def fed_def push_back_def)

lemma recv_front:
  assumes "chan_quiet c" "ch_buf c = b # bs"
  shows "chan_recv c = (Some (Ok b), drained c 1)" "chan_try_recv c = (Ok b, drained c 1)"
  using assms by (auto simp: chan_quiet_def chan_recv_def chan_try_recv_def pop_and_post_def sem_post_def drained_def)

lemma write_loop_quiet:
  "chan_quiet c \<Longrightarrow> readable copyin src bs \<Longrightarrow>
   pipe_write_loop copyin False (length bs) i src c =
     (if length bs \<le> room c then (Returned (Ok (i + length bs)), fed c bs)
      else (Sleeping (i + room c), fed c (take (room c) bs)))"
proof (induction bs arbitrary: i src c)
  case (Cons b bs)
  then have b: "copyin src = Ok b" "readable copyin (src + 1) bs" by (simp_all add: readable_Cons)
  show ?case
  proof (cases "room c = 0")
    case False
    then have "chan_quiet (fed c [b])" using fed_quiet [OF Cons.prems(1), of "[b]"] by simp
    from Cons.IH [OF this b(2), of "i + 1"] False show ?thesis
      by (auto simp: b(1) send_quiet [OF Cons.prems(1)] take_Cons' Suc_le_eq)
  qed (simp add: b(1) send_quiet [OF Cons.prems(1)])
qed simp

lemma write_nonblock_loop_quiet:
  "chan_quiet c \<Longrightarrow> readable copyin src bs \<Longrightarrow>
   write_nonblock_loop copyin (length bs) i src c =
     (if bs \<noteq> [] \<and> room c = 0 \<and> i = 0 then Err WouldBlock else Ok (i + min (length bs) (room c)),
      fed c (take (room c) bs))"
proof (induction bs arbitrary: i src c)
  case (Cons b bs)
  then have b: "copyin src = Ok b" "readable copyin (src + 1) bs" by (simp_all add: readable_Cons)
  show ?case
  proof (cases "room c = 0")
    case False
    then have "chan_quiet (fed c [b])" using fed_quiet [OF Cons.prems(1), of "[b]"] by simp
    from Cons.IH [OF this b(2), of "i + 1"] False show ?thesis
      by (auto simp: b(1) try_send_room [OF Cons.prems(1)] take_Cons' min_def)
  qed (simp add: b(1) try_send_room [OF Cons.prems(1)])
qed simp

text \<open>A channel as a reader sees it: the writers may be gone.\<close>

definition rx_ready :: "byte channel \<Rightarrow> bool" where
  "rx_ready c \<longleftrightarrow> \<not> sem_closed (ch_sem c) \<and> 0 \<le> sem_count (ch_sem c) \<and>
     sem_count (ch_sem c) + int (length (ch_buf c)) = sem_max (ch_sem c)"

lemma quiet_rx_ready: "chan_quiet c \<longleftrightarrow> rx_ready c \<and> 0 < ch_scnt c"
  by (auto simp: chan_quiet_def rx_ready_def)

lemma drained_rx_ready: "rx_ready c \<Longrightarrow> k \<le> length (ch_buf c) \<Longrightarrow> rx_ready (drained c k)"
  by (auto simp: rx_ready_def drained_def)

lemma drained_fields [simp]: "ch_buf (drained c k) = drop k (ch_buf c)" "ch_scnt (drained c k) = ch_scnt c"
  by (simp_all add: drained_def)

lemma rx_recv_front:
  assumes "rx_ready c" "ch_buf c = b # bs"
  shows "chan_recv c = (Some (Ok b), drained c 1)" "chan_try_recv c = (Ok b, drained c 1)"
  using assms by (auto simp: rx_ready_def chan_recv_def chan_try_recv_def pop_and_post_def sem_post_def drained_def)

text \<open>Storing bytes at consecutive addresses with the caller's \<open>copyout\<close>.\<close>

fun store_all :: "('m \<Rightarrow> nat \<Rightarrow> byte \<Rightarrow> 'm result) \<Rightarrow> 'm \<Rightarrow> nat \<Rightarrow> byte list \<Rightarrow> 'm result" where
  "store_all copyout m dst [] = Ok m"
| "store_all copyout m dst (b # bs) = obind (copyout m dst b) (\<lambda>m'. store_all copyout m' (dst + 1) bs)"

lemma read_loop_ready:
  "rx_ready c \<Longrightarrow> store_all copyout m dst (take n (ch_buf c)) = Ok m' \<Longrightarrow>
   pipe_read_loop copyout n i dst m c =
     (if n \<le> length (ch_buf c) then Returned (Ok (i + n))
      else if 0 < ch_scnt c then Sleeping (i + length (ch_buf c)) else Returned (Ok (i + length (ch_buf c))),
      m', drained c (min n (length (ch_buf c))))"
proof (induction n arbitrary: i dst m c)
  case (Suc n)
  show ?case
  proof (cases "ch_buf c")
    case Nil
    with Suc.prems show ?thesis by (simp add: chan_recv_def)
  next
    case (Cons b bs)
    with Suc.prems obtain m1 where m1: "copyout m dst b = Ok m1" "store_all copyout m1 (dst + 1) (take n bs) = Ok m'"
      by auto
    have "rx_ready (drained c 1)" using drained_rx_ready [OF Suc.prems(1), of 1] Cons by simp
    from Suc.IH [OF this, of m1 "dst + 1" "i + 1"] m1 Cons show ?thesis
      by (simp add: rx_recv_front [OF Suc.prems(1) Cons])
  qed
qed simp

lemma read_nonblock_loop_ready:
  "rx_ready c \<Longrightarrow> store_all copyout m dst (take n (ch_buf c)) = Ok m' \<Longrightarrow>
   read_nonblock_loop copyout n i dst m c =
     (if 0 < n \<and> ch_buf c = [] \<and> i = 0 \<and> 0 < ch_scnt c then Err WouldBlock
      else Ok (i + min n (length (ch_buf c))),
      m', drained c (min n (length (ch_buf c))))"
proof (induction n arbitrary: i dst m c)
  case (Suc n)
  show ?case
  proof (cases "ch_buf c")
    case Nil
    with Suc.prems show ?thesis by (simp add: chan_try_recv_def)
  next
    case (Cons b bs)
    with Suc.prems obtain m1 where m1: "copyout m dst b = Ok m1" "store_all copyout m1 (dst + 1) (take n bs) = Ok m'"
      by auto
    have "rx_ready (drained c 1)" using drained_rx_ready [OF Suc.prems(1), of 1] Cons by simp
    from Suc.IH [OF this, of m1 "dst + 1" "i + 1"] m1 Cons show ?thesis
      by (simp add: rx_recv_front [OF Suc.prems(1) Cons])
  qed
qed simp

lemma fed_drained: "chan_quiet c \<Longrightarrow> ch_buf c = [] \<Longrightarrow> drained (fed c bs) (length bs) = c"
  by (simp add: fed_def drained_def)

section \<open>Properties\<close>

text \<open>
  Writing to a pipe whose ends are open. A non-blocking write transfers as many bytes as fit, in
  order, and reports that number, or that it would block if nothing fits; a blocking write transfers
  all bytes if they fit and otherwise goes to sleep with the buffer full, having transferred exactly
  the bytes that fit.
\<close>

lemma pipe_write_transfers:
  assumes "pipe_tx p" "chan_quiet c" "readable copyin src bs"
  shows "pipe_write_nonblock copyin p src (length bs) c =
      (if bs \<noteq> [] \<and> room c = 0 then Err WouldBlock else Ok (min (length bs) (room c)), fed c (take (room c) bs)) \<and>
    pipe_write copyin False p src (length bs) c =
      (if length bs \<le> room c then Returned (Ok (length bs)) else Sleeping (room c), fed c (take (room c) bs))"
  using assms write_nonblock_loop_quiet [OF assms(2,3), of 0] write_loop_quiet [OF assms(2,3), of 0]
  by (simp add: pipe_write_nonblock_def pipe_write_def)

definition demo_pipe :: "byte channel" where
  "demo_pipe = \<lparr>ch_sem = \<lparr>sem_count = 3, sem_closed = False, sem_max = 3\<rparr>, ch_buf = [], ch_scnt = 1, ch_rcnt = 1\<rparr>"

text \<open>
  Reading from a pipe. As long as the caller's memory takes the bytes, a read stores the front of
  the buffer at the destination and removes it. When the buffer runs out, a blocking read sleeps if a
  writer is left and otherwise returns what it got (end of file); a non-blocking read that got
  nothing reports that it would block if a writer is left.
\<close>

lemma pipe_read_transfers:
  assumes "pipe_rx p" "rx_ready c" "store_all copyout m dst (take n (ch_buf c)) = Ok m'"
  shows "pipe_read_nonblock copyout p dst n m c =
      (if 0 < n \<and> ch_buf c = [] \<and> 0 < ch_scnt c then Err WouldBlock else Ok (min n (length (ch_buf c))),
       m', drained c (min n (length (ch_buf c)))) \<and>
    pipe_read copyout p dst n m c =
      (if length (ch_buf c) < n \<and> 0 < ch_scnt c then Sleeping (length (ch_buf c))
       else Returned (Ok (min n (length (ch_buf c)))),
       m', drained c (min n (length (ch_buf c))))"
  using assms read_nonblock_loop_ready [OF assms(2,3), of 0] read_loop_ready [OF assms(2,3), of 0]
  by (auto simp: pipe_read_nonblock_def pipe_read_def)

text \<open>
  C5. A pipe round trip. Bytes that fit into an empty pipe and are written to it come back unchanged
  from a read of the same length, which leaves the pipe as it was.
\<close>

theorem pipe_roundtrip:
  assumes "pipe_tx w" "pipe_rx r" "chan_quiet c" "ch_buf c = []" "readable copyin src bs" "length bs \<le> room c"
    and "store_all copyout m dst bs = Ok m'"
  shows "pipe_write copyin False w src (length bs) c = (Returned (Ok (length bs)), fed c bs) \<and>
    pipe_read copyout r dst (length bs) m (fed c bs) = (Returned (Ok (length bs)), m', c)"
proof -
  have buf: "ch_buf (fed c bs) = bs" using assms(4) by (simp add: fed_def)
  have "rx_ready (fed c bs)" using fed_quiet [OF assms(3,6)] by (simp add: quiet_rx_ready)
  from read_loop_ready [OF this, of copyout m dst "length bs" m' 0] assms buf
  have "pipe_read copyout r dst (length bs) m (fed c bs) = (Returned (Ok (length bs)), m', c)"
    by (simp add: pipe_read_def fed_drained)
  with assms write_loop_quiet [OF assms(3,5), of 0] show ?thesis by (simp add: pipe_write_def)
qed

theorem pipe_roundtrip_witness:
  "pipe_read (\<lambda>m a b. Ok (m(a := b))) \<lparr>pipe_rx = True, pipe_tx = False\<rparr> 5 2 (\<lambda>_. 0) (fed demo_pipe [10, 11]) =
     (Returned (Ok 2), (\<lambda>_. 0)(5 := 10, 6 := 11), demo_pipe)"
proof -
  have "readable (\<lambda>a. Ok (word_of_nat a)) 10 [10, 11]" by (simp add: readable_Cons) (simp add: readable_def)
  moreover have "chan_quiet demo_pipe" "room demo_pipe = 3" "ch_buf demo_pipe = []"
    by (simp_all add: demo_pipe_def chan_quiet_def room_def)
  ultimately show ?thesis
    using pipe_roundtrip [of "\<lparr>pipe_rx = False, pipe_tx = True\<rparr>" "\<lparr>pipe_rx = True, pipe_tx = False\<rparr>" demo_pipe
        _ 10 "[10, 11]" "\<lambda>m a b. Ok (m(a := b))" "\<lambda>_. 0" 5] by (simp add: eval_nat_numeral)
qed

text \<open>
  Polling predicts the non-blocking operations. On a pipe whose reader is alive,
  \<^verbatim>\<open>poll_readable\<close> answers yes exactly when a non-blocking read of at least one byte does
  not report that it would block, and \<^verbatim>\<open>poll_writable\<close> exactly when a non-blocking write
  of one byte transfers it.
\<close>

lemma poll_predicts:
  assumes "rx_ready c" "0 < ch_rcnt c"
  shows "(pipe_rx p \<longrightarrow> 0 < n \<longrightarrow>
      (pipe_poll_readable p c = Ok True \<longleftrightarrow> fst (pipe_read_nonblock (\<lambda>m a b. Ok m) p dst n m c) \<noteq> Err WouldBlock)) \<and>
    (pipe_tx p \<longrightarrow>
      (pipe_poll_writable p c = Ok True \<longleftrightarrow> fst (pipe_write_nonblock (\<lambda>a. Ok b) p src 1 c) = Ok 1))"
proof -
  have all: "store_all (\<lambda>m a b. Ok m) m dst bs = Ok m" for bs :: "byte list" by (induction bs arbitrary: dst) simp_all
  have "pipe_poll_readable p c = Ok True \<longleftrightarrow> fst (pipe_read_nonblock (\<lambda>m a b. Ok m) p dst n m c) \<noteq> Err WouldBlock"
    if "pipe_rx p" "0 < n"
    using read_nonblock_loop_ready [OF assms(1) all, of n 0] that
    by (auto simp: pipe_read_nonblock_def pipe_poll_readable_def has_data_def receiver_is_closed_def)
  moreover have "pipe_poll_writable p c = Ok True \<longleftrightarrow> fst (pipe_write_nonblock (\<lambda>a. Ok b) p src 1 c) = Ok 1" if "pipe_tx p"
    using assms that by (auto simp: pipe_poll_writable_def sender_is_closed_def can_send_def sem_can_wait_def
        pipe_write_nonblock_def chan_try_send_def sem_try_wait_def rx_ready_def)
  ultimately show ?thesis by blast
qed

end
