(* ===== verification/File_Ops.thy ===== *)
theory File_Ops
  imports File Pipe
begin

text \<open>
  The operations on an open file beside reading and writing (\<^verbatim>\<open>File\<close> in
  \<^verbatim>\<open>crates/kernel/src/file.rs\<close>): status flags, \<^verbatim>\<open>fcntl\<close>, polling, and which kinds of file an
  operation is for. A pipe is given by its two ends and its channel, the console by whether it has
  input, and the answer of a socket to a poll is a parameter.
\<close>

section \<open>Flags\<close>

definition access_mode_bits :: "kfile \<Rightarrow> usize" where
  "access_mode_bits f =
     (case (f_readable f, f_writable f) of
        (True, False) \<Rightarrow> omode_RDONLY
      | (False, True) \<Rightarrow> omode_WRONLY
      | (True, True) \<Rightarrow> omode_RDWR
      | (False, False) \<Rightarrow> omode_RDONLY)"

definition status_flags :: "kfile \<Rightarrow> usize" where
  "status_flags f =
     (let a = access_mode_bits f; b = (if f_append f then a OR omode_APPEND else a)
      in if f_nonblock f then b OR omode_NONBLOCK else b)"

definition set_status_flags :: "usize \<Rightarrow> kfile \<Rightarrow> kfile result" where
  "set_status_flags flags f =
     (if flags AND NOT (omode_APPEND OR omode_NONBLOCK OR omode_WRONLY OR omode_RDWR) \<noteq> 0 then Err InvalidArgument
      else Ok (f\<lparr>f_append := flags AND omode_APPEND \<noteq> 0, f_nonblock := flags AND omode_NONBLOCK \<noteq> 0\<rparr>))"

definition lock_key :: "(nat \<Rightarrow> vfile) \<Rightarrow> kfs \<Rightarrow> kfile \<Rightarrow> (u32 \<times> u32) option" where
  "lock_key vf k f = map_option (\<lambda>ip. (mi_dev (k_node k ip), mi_inum (k_node k ip))) (vf_inode (vf (f_h f)))"

text \<open>\<^verbatim>\<open>fcntl\<close>: \<open>getl\<close> and \<open>putl\<close> copy a lock description from and to the caller.\<close>

definition do_fcntl ::
  "(usize \<Rightarrow> flock result) \<Rightarrow> (usize \<Rightarrow> flock \<Rightarrow> unit result) \<Rightarrow> (u32 \<times> u32) option \<Rightarrow> usize \<Rightarrow> fcntl_cmd \<Rightarrow> usize \<Rightarrow>
   kfile \<times> lock_table \<Rightarrow> usize result \<times> kfile \<times> lock_table" where
  "do_fcntl getl putl key pid cmd arg = (\<lambda>(f, t).
     case cmd of
       GetFl \<Rightarrow> (Ok (status_flags f), f, t)
     | SetFl \<Rightarrow> (case set_status_flags arg f of Ok f' \<Rightarrow> (Ok 0, f', t) | Err e \<Rightarrow> (Err e, f, t) | Panic \<Rightarrow> (Panic, f, t))
     | GetFd \<Rightarrow> (Ok (if f_cloexec f then fd_CLOEXEC else 0), f, t)
     | SetFd \<Rightarrow>
         if arg AND NOT fd_CLOEXEC \<noteq> 0 then (Err InvalidArgument, f, t)
         else (Ok 0, f\<lparr>f_cloexec := arg AND fd_CLOEXEC \<noteq> 0\<rparr>, t)
     | GetLk \<Rightarrow>
         if arg = 0 then (Err InvalidArgument, f, t)
         else
           (case obind (getl arg) (\<lambda>lk.
              case key of None \<Rightarrow> Err InvalidArgument
              | Some (dev, inum) \<Rightarrow> obind (get_lock t dev inum pid lk) (putl arg)) of
              Ok _ \<Rightarrow> (Ok 0, f, t) | Err e \<Rightarrow> (Err e, f, t) | Panic \<Rightarrow> (Panic, f, t))
     | SetLk \<Rightarrow>
         if arg = 0 then (Err InvalidArgument, f, t)
         else
           (case getl arg of
              Err e \<Rightarrow> (Err e, f, t)
            | Panic \<Rightarrow> (Panic, f, t)
            | Ok lk \<Rightarrow>
                if l_type lk = flock_RDLCK \<and> \<not> f_readable f then (Err InvalidArgument, f, t)
                else if l_type lk = flock_WRLCK \<and> \<not> f_writable f then (Err InvalidArgument, f, t)
                else
                  (case key of
                     None \<Rightarrow> (Err InvalidArgument, f, t)
                   | Some (dev, inum) \<Rightarrow>
                       (case set_lock t dev inum pid lk of
                          (Ok _, t') \<Rightarrow> (Ok 0, f, t') | (Err e, t') \<Rightarrow> (Err e, f, t') | (Panic, t') \<Rightarrow> (Panic, f, t'))))
     | SetCloexec \<Rightarrow> (Ok 0, f\<lparr>f_cloexec := True\<rparr>, t)
     | SetNonblock \<Rightarrow> (Ok 0, f\<lparr>f_nonblock := True\<rparr>, t)
     | ClearNonblock \<Rightarrow> (Ok 0, f\<lparr>f_nonblock := False\<rparr>, t)
     | InvalidCmd \<Rightarrow> (Err InvalidArgument, f, t))"

section \<open>Polling\<close>

definition POLL_IN :: usize where "POLL_IN = 0x001"
definition POLL_OUT :: usize where "POLL_OUT = 0x002"
definition POLL_ERR :: usize where "POLL_ERR = 0x004"
definition POLL_HUP :: usize where "POLL_HUP = 0x008"
definition POLL_NVAL :: usize where "POLL_NVAL = 0x010"

definition MAJOR_CONSOLE :: "16 word" where "MAJOR_CONSOLE = 1"

definition ok_true :: "bool result \<Rightarrow> bool" where
  "ok_true r = (case r of Ok b \<Rightarrow> b | _ \<Rightarrow> False)"

definition flag :: "bool \<Rightarrow> usize \<Rightarrow> usize" where
  "flag b w = (if b then w else 0)"

definition poll_node :: "kfile \<Rightarrow> usize \<Rightarrow> bool \<Rightarrow> usize" where
  "poll_node f events ready =
     flag (f_readable f \<and> events AND POLL_IN \<noteq> 0 \<and> ready) POLL_IN OR
     flag (f_writable f \<and> events AND POLL_OUT \<noteq> 0) POLL_OUT"

definition poll_pipe :: "kfile \<Rightarrow> usize \<Rightarrow> pipe \<Rightarrow> byte channel \<Rightarrow> usize" where
  "poll_pipe f events p c =
     flag (f_readable f \<and> events AND POLL_IN \<noteq> 0 \<and> ok_true (pipe_poll_readable p c)) POLL_IN OR
     flag (f_writable f \<and> events AND POLL_OUT \<noteq> 0 \<and> ok_true (pipe_poll_writable p c)) POLL_OUT OR
     flag (f_readable f \<and> ok_true (pipe_poll_read_hup p c)) POLL_HUP OR
     flag (f_writable f \<and> ok_true (pipe_poll_write_hup p c)) POLL_HUP"

definition file_poll ::
  "(nat \<Rightarrow> pipe \<times> byte channel) \<Rightarrow> bool \<Rightarrow> (vfile \<Rightarrow> usize \<Rightarrow> bool \<Rightarrow> bool \<Rightarrow> usize) \<Rightarrow> vfile \<Rightarrow> usize \<Rightarrow> kfile \<Rightarrow> usize" where
  "file_poll pipes console sock v events f =
     (case v of
        VPipe p \<Rightarrow> (case pipes p of (e, c) \<Rightarrow> poll_pipe f events e c)
      | VDevice major _ _ \<Rightarrow> poll_node f events (if major = MAJOR_CONSOLE then console else True)
      | VInode _ _ \<Rightarrow> poll_node f events True
      | VRemote _ \<Rightarrow> poll_node f events True
      | VSocket _ \<Rightarrow> sock v events (f_readable f) (f_writable f)
      | VInetSocket _ \<Rightarrow> sock v events (f_readable f) (f_writable f)
      | VNone \<Rightarrow> 0)"

text \<open>\<^verbatim>\<open>File::sync\<close>: which files wait for the log, and what a remote one does.\<close>

fun file_sync :: "('s \<Rightarrow> 's) \<Rightarrow> (u32 \<Rightarrow> 's \<Rightarrow> unit result \<times> 's) \<Rightarrow> vfile \<Rightarrow> 's \<Rightarrow> unit result \<times> 's" where
  "file_sync log_sync remote (VInode _ _) s = (Ok (), log_sync s)"
| "file_sync log_sync remote (VDevice _ _ _) s = (Ok (), log_sync s)"
| "file_sync log_sync remote (VPipe _) s = (Err InvalidArgument, s)"
| "file_sync log_sync remote (VSocket _) s = (Err InvalidArgument, s)"
| "file_sync log_sync remote (VInetSocket _) s = (Err InvalidArgument, s)"
| "file_sync log_sync remote (VRemote r) s = remote r s"
| "file_sync log_sync remote VNone s = (Err BadFileDescriptor, s)"

definition is_console :: "vfile option \<Rightarrow> bool" where
  "is_console v = (case v of Some (VDevice major _ _) \<Rightarrow> major = MAJOR_CONSOLE | _ \<Rightarrow> False)"

section \<open>What the flags keep\<close>

text \<open>Setting the flags and reading them back: the access mode stays, the other flags are those given.\<close>

lemma status_flags_set:
  "set_status_flags flags f = Ok f' \<Longrightarrow>
     status_flags f' = access_mode_bits f OR (flags AND (omode_APPEND OR omode_NONBLOCK)) \<and>
     f_readable f' = f_readable f \<and> f_writable f' = f_writable f \<and> f_h f' = f_h f"
proof -
  assume "set_status_flags flags f = Ok f'"
  then have f': "f' = f\<lparr>f_append := flags AND omode_APPEND \<noteq> 0, f_nonblock := flags AND omode_NONBLOCK \<noteq> 0\<rparr>"
    by (simp add: set_status_flags_def split: if_splits)
  have one: "w AND 2 ^ n = (if bit w n then 2 ^ n else 0)" for w :: usize and n
    by (rule bit_eqI) (auto simp: bit_simps)
  have "access_mode_bits f' = access_mode_bits f" by (simp add: access_mode_bits_def f')
  moreover have "flags AND omode_APPEND = (if bit flags 11 then omode_APPEND else 0)" "flags AND omode_NONBLOCK = (if bit flags 13 then omode_NONBLOCK else 0)"
    using one [of flags 11] one [of flags 13] by (simp_all add: omode_bits)
  moreover have "omode_APPEND \<noteq> 0" "omode_NONBLOCK \<noteq> 0" by (simp_all add: omode_bits)
  ultimately show ?thesis by (simp add: status_flags_def f' Let_def bit.conj_disj_distrib or.assoc)
qed

end
