(* ===== verification/Vm.thy ===== *)
theory Vm
  imports Kalloc Bytes
begin

text \<open>
  Virtual memory (\<^verbatim>\<open>crates/kernel/src/vm.rs\<close>): Sv39 page tables of three levels, mapping,
  unmapping, growing and shrinking a user address space, copy-on-write sharing at fork, and copies
  between kernel and user memory.

  Physical memory is seen page by page. \<open>vm_pte\<close> holds the entries of the pages that are page tables
  and \<open>vm_page\<close> the bytes of the pages that hold data; \<open>vm_free\<close> lists the pages the allocator hands
  out, in its order. Addresses are natural numbers, entries are 64-bit words. A user address space is
  the address of its top-level table.
\<close>

unbundle bit_operations_syntax

section \<open>Page table entries\<close>

definition PTE_V :: usize where "PTE_V = 0x1"
definition PTE_R :: usize where "PTE_R = 0x2"
definition PTE_W :: usize where "PTE_W = 0x4"
definition PTE_X :: usize where "PTE_X = 0x8"
definition PTE_U :: usize where "PTE_U = 0x10"
definition PTE_COW :: usize where "PTE_COW = 0x100"

lemmas pte_bits = PTE_V_def PTE_R_def PTE_W_def PTE_X_def PTE_U_def PTE_COW_def

definition pte_is_v :: "usize \<Rightarrow> bool" where "pte_is_v w \<longleftrightarrow> w AND PTE_V \<noteq> 0"

definition pte_is_u :: "usize \<Rightarrow> bool" where "pte_is_u w \<longleftrightarrow> w AND PTE_U \<noteq> 0"

definition pte_rm_u :: "usize \<Rightarrow> usize" where "pte_rm_u w = w AND NOT PTE_U"

definition pte_is_leaf :: "usize \<Rightarrow> bool" where "pte_is_leaf w \<longleftrightarrow> w AND (PTE_R OR PTE_W OR PTE_X) \<noteq> 0"

definition pte_flags :: "usize \<Rightarrow> usize" where "pte_flags w = w AND 0x3FF"

definition pte_to_pa :: "usize \<Rightarrow> nat" where "pte_to_pa w = unat (push_bit 12 (drop_bit 10 w))"

definition pte_set :: "nat \<Rightarrow> usize \<Rightarrow> usize" where
  "pte_set pa attr = push_bit 10 (drop_bit 12 (of_nat pa)) OR attr"

section \<open>Memory\<close>

record vmem =
  vm_pte :: "nat \<Rightarrow> nat \<Rightarrow> usize"
  vm_page :: "nat \<Rightarrow> byte list"
  vm_refs :: "u16 list"
  vm_free :: "nat list"

type_synonym 'a vop = "vmem \<Rightarrow> 'a result \<times> vmem"

definition set_pte :: "nat \<times> nat \<Rightarrow> usize \<Rightarrow> vmem \<Rightarrow> vmem" where
  "set_pte loc w s = s\<lparr>vm_pte := (vm_pte s)(fst loc := (vm_pte s (fst loc))(snd loc := w))\<rparr>"

definition get_pte :: "nat \<times> nat \<Rightarrow> vmem \<Rightarrow> usize" where
  "get_pte loc s = vm_pte s (fst loc) (snd loc)"

definition table_new :: "vmem \<Rightarrow> (nat \<times> vmem) option" where
  "table_new s = (case vm_free s of [] \<Rightarrow> None | p # ps \<Rightarrow> Some (p, s\<lparr>vm_free := ps, vm_pte := (vm_pte s)(p := \<lambda>_. 0)\<rparr>))"

definition page_new :: "vmem \<Rightarrow> (nat \<times> vmem) option" where
  "page_new s = (case vm_free s of [] \<Rightarrow> None | p # ps \<Rightarrow> Some (p, s\<lparr>vm_free := ps, vm_page := (vm_page s)(p := replicate PGSIZE 0)\<rparr>))"

definition page_free :: "nat \<Rightarrow> vmem \<Rightarrow> vmem" where
  "page_free p s = s\<lparr>vm_free := p # vm_free s\<rparr>"

definition page_down :: "nat \<Rightarrow> nat" where "page_down a = a div PGSIZE * PGSIZE"

definition page_up :: "nat \<Rightarrow> nat" where "page_up a = (a + PGSIZE - 1) div PGSIZE * PGSIZE"

section \<open>Page tables\<close>

definition px :: "nat \<Rightarrow> nat \<Rightarrow> nat" where
  "px level va = va div 2 ^ (PGSHIFT + 9 * level) mod 512"

text \<open>One level of the walk: the table below an entry, made if it is missing.\<close>

definition walk_down :: "bool \<Rightarrow> nat \<times> nat \<Rightarrow> vmem \<Rightarrow> nat option \<times> vmem" where
  "walk_down create loc s =
     (let pte = get_pte loc s in
      if pte_is_v pte then (Some (pte_to_pa pte), s)
      else if \<not> create then (None, s)
      else
        (case table_new s of
           None \<Rightarrow> (None, s)
         | Some (p, s1) \<Rightarrow> (Some p, set_pte loc (pte_set p PTE_V) s1)))"

definition walk :: "nat \<Rightarrow> nat \<Rightarrow> bool \<Rightarrow> (nat \<times> nat) option vop" where
  "walk root va create s =
     (if MAXVA \<le> va then (Panic, s)
      else
        (case walk_down create (root, px 2 va) s of
           (None, s1) \<Rightarrow> (Ok None, s1)
         | (Some t1, s1) \<Rightarrow>
             (case walk_down create (t1, px 1 va) s1 of
                (None, s2) \<Rightarrow> (Ok None, s2)
              | (Some t0, s2) \<Rightarrow> (Ok (Some (t0, px 0 va)), s2))))"

definition walkaddr :: "nat \<Rightarrow> nat \<Rightarrow> vmem \<Rightarrow> nat result" where
  "walkaddr root va s =
     (if MAXVA \<le> va then Err BadVirtAddr
      else
        (case fst (walk root va False s) of
           Ok (Some loc) \<Rightarrow>
             (let pte = get_pte loc s in
              if \<not> pte_is_v pte then Err BadVirtAddr
              else if \<not> pte_is_u pte then Err BadVirtAddr
              else Ok (pte_to_pa pte))
         | Panic \<Rightarrow> Panic
         | _ \<Rightarrow> Err BadVirtAddr))"

function map_loop :: "nat \<Rightarrow> nat \<Rightarrow> nat \<Rightarrow> nat \<Rightarrow> usize \<Rightarrow> unit vop" where
  "map_loop root va end_va pa perm s =
     (if MAXVA \<le> va then (Panic, s)
      else
        (case walk root va True s of
           (Ok None, s1) \<Rightarrow> (Err OutOfMemory, s1)
         | (Ok (Some loc), s1) \<Rightarrow>
             if pte_is_v (get_pte loc s1) then (Panic, s1)
             else
               (let s2 = set_pte loc (pte_set pa (perm OR PTE_V)) s1 in
                if va = end_va then (Ok (), s2)
                else map_loop root (va + PGSIZE) end_va (pa + PGSIZE) perm s2)
         | (Err e, s1) \<Rightarrow> (Err e, s1)
         | (Panic, s1) \<Rightarrow> (Panic, s1)))"
  by pat_completeness auto
termination
  by (relation "measure (\<lambda>(root, va, end_va, pa, perm, s). MAXVA - va)") (auto simp: PGSIZE_def)

declare map_loop.simps [simp del]

definition mappages :: "nat \<Rightarrow> nat \<Rightarrow> nat \<Rightarrow> nat \<Rightarrow> usize \<Rightarrow> unit vop" where
  "mappages root va pa n perm s =
     (if n = 0 then (Panic, s)
      else map_loop root (page_down va) (page_down ((va + n - 1) mod 2 ^ 64)) pa perm s)"

text \<open>Freeing the tables of an address space. The depth bounds the recursion: a proper table has three
  levels; deeper ones exhaust the kernel stack.\<close>

fun freewalk :: "nat \<Rightarrow> nat \<Rightarrow> unit vop"
  and free_entries :: "nat \<Rightarrow> nat \<Rightarrow> nat list \<Rightarrow> unit vop" where
  "freewalk 0 t s = (Panic, s)"
| "freewalk (Suc depth) t s =
     (case free_entries depth t [0..<512] s of
        (Ok _, s1) \<Rightarrow> (Ok (), page_free t s1)
      | (Err e, s1) \<Rightarrow> (Err e, s1)
      | (Panic, s1) \<Rightarrow> (Panic, s1))"
| "free_entries depth t [] s = (Ok (), s)"
| "free_entries depth t (i # is) s =
     (let pte = get_pte (t, i) s in
      if pte_is_v pte \<and> \<not> pte_is_leaf pte then
        (case freewalk depth (pte_to_pa pte) s of
           (Ok _, s1) \<Rightarrow> free_entries depth t is (set_pte (t, i) 0 s1)
         | (Err e, s1) \<Rightarrow> (Err e, s1)
         | (Panic, s1) \<Rightarrow> (Panic, s1))
      else if pte_is_v pte then (Panic, s)
      else free_entries depth t is s)"

end
