(* ===== verification/Uvm.thy ===== *)
theory Uvm
  imports Vm
begin

text \<open>
  User address spaces (\<^verbatim>\<open>Uvm\<close> in \<^verbatim>\<open>crates/kernel/src/vm.rs\<close>): unmapping, growing and
  shrinking, freeing, the copy-on-write copy of fork and its resolution on the first write, and copies
  between the kernel and user memory.
\<close>

unbundle bit_operations_syntax

section \<open>Mapping and unmapping\<close>

text \<open>Dropping a mapping of a data page: the page is freed with its last reference.\<close>

definition drop_page :: "nat \<Rightarrow> unit vop" where
  "drop_page pa s =
     (case page_ref_dec (vm_refs s) pa of
        Ok (new, refs) \<Rightarrow>
          (let s1 = s\<lparr>vm_refs := refs\<rparr> in (Ok (), if new = 0 then page_free pa s1 else s1))
      | Err e \<Rightarrow> (Err e, s)
      | Panic \<Rightarrow> (Panic, s))"

fun unmap_loop :: "nat \<Rightarrow> nat \<Rightarrow> nat \<Rightarrow> bool \<Rightarrow> unit vop" where
  "unmap_loop root a 0 do_free s = (Ok (), s)"
| "unmap_loop root a (Suc n) do_free s =
     (case walk root a False s of
        (Ok (Some loc), s1) \<Rightarrow>
          (let pte = get_pte loc s1 in
           if \<not> pte_is_v pte \<or> \<not> pte_is_leaf pte then (Panic, s1)
           else
             (case (if do_free then drop_page (pte_to_pa pte) s1 else (Ok (), s1)) of
                (Ok _, s2) \<Rightarrow> unmap_loop root (a + PGSIZE) n do_free (set_pte loc 0 s2)
              | (Err e, s2) \<Rightarrow> (Err e, s2)
              | (Panic, s2) \<Rightarrow> (Panic, s2)))
      | (_, s1) \<Rightarrow> (Panic, s1))"

definition unmap :: "nat \<Rightarrow> nat \<Rightarrow> nat \<Rightarrow> bool \<Rightarrow> unit vop" where
  "unmap root va npages do_free s =
     (if \<not> PGSIZE dvd va then (Panic, s) else unmap_loop root va npages do_free s)"

definition uvm_create :: "nat vop" where
  "uvm_create s = (case table_new s of None \<Rightarrow> (Err OutOfMemory, s) | Some (p, s1) \<Rightarrow> (Ok p, s1))"

definition uvm_dealloc :: "nat \<Rightarrow> nat \<Rightarrow> nat \<Rightarrow> nat vop" where
  "uvm_dealloc root oldsz newsz s =
     (if oldsz \<le> newsz then (Ok oldsz, s)
      else if page_up newsz < page_up oldsz then
        (case unmap root (page_up newsz) ((page_up oldsz - page_up newsz) div PGSIZE) True s of
           (Ok _, s1) \<Rightarrow> (Ok newsz, s1)
         | (Err e, s1) \<Rightarrow> (Err e, s1)
         | (Panic, s1) \<Rightarrow> (Panic, s1))
      else (Ok newsz, s))"

function uvm_alloc_loop :: "nat \<Rightarrow> nat \<Rightarrow> nat \<Rightarrow> nat \<Rightarrow> usize \<Rightarrow> nat vop" where
  "uvm_alloc_loop root start a newsz xperm s =
     (if a < newsz then
        (case page_new s of
           None \<Rightarrow>
             (case uvm_dealloc root a start s of (Panic, s1) \<Rightarrow> (Panic, s1) | (_, s1) \<Rightarrow> (Err OutOfMemory, s1))
         | Some (p, s1) \<Rightarrow>
             (case mappages root a p PGSIZE (PTE_R OR PTE_U OR xperm) s1 of
                (Ok _, s2) \<Rightarrow>
                  (case page_ref_init (vm_refs s2) p of
                     Ok refs \<Rightarrow> uvm_alloc_loop root start (a + PGSIZE) newsz xperm (s2\<lparr>vm_refs := refs\<rparr>)
                   | _ \<Rightarrow> (Panic, s2))
              | (Err e, s2) \<Rightarrow>
                  (case uvm_dealloc root a start (page_free p s2) of (Panic, s3) \<Rightarrow> (Panic, s3) | (_, s3) \<Rightarrow> (Err e, s3))
              | (Panic, s2) \<Rightarrow> (Panic, s2)))
      else (Ok newsz, s))"
  by pat_completeness auto
termination
  by (relation "measure (\<lambda>(root, start, a, newsz, xperm, s). newsz - a)") (auto simp: PGSIZE_def)

declare uvm_alloc_loop.simps [simp del]

definition uvm_alloc :: "nat \<Rightarrow> nat \<Rightarrow> nat \<Rightarrow> usize \<Rightarrow> nat vop" where
  "uvm_alloc root oldsz newsz xperm s =
     (if newsz < oldsz then (Ok oldsz, s)
      else if user_mem_top NPROC \<le> newsz then (Err BadVirtAddr, s)
      else uvm_alloc_loop root (page_up oldsz) (page_up oldsz) newsz xperm s)"

definition uvm_free :: "nat \<Rightarrow> nat \<Rightarrow> unit vop" where
  "uvm_free root n s =
     (case (if 0 < n then unmap root 0 (page_up n div PGSIZE) True s else (Ok (), s)) of
        (Ok _, s1) \<Rightarrow> freewalk 3 root s1
      | (Err e, s1) \<Rightarrow> (Err e, s1)
      | (Panic, s1) \<Rightarrow> (Panic, s1))"

section \<open>Copy on write\<close>

text \<open>The copy of fork, one page: a writable page becomes read-only and copy-on-write in both.\<close>

function uvm_copy_loop :: "nat \<Rightarrow> nat \<Rightarrow> nat \<Rightarrow> nat \<Rightarrow> unit vop" where
  "uvm_copy_loop root new va n s =
     (if va < n then
        (case walk root va False s of
           (Ok (Some loc), s1) \<Rightarrow>
             (let pte = get_pte loc s1; pa = pte_to_pa pte; flags = pte_flags pte in
              if \<not> pte_is_v pte then (Panic, s1)
              else
                (let cow = flags AND PTE_W \<noteq> 0;
                     flags' = (if cow then (flags AND NOT PTE_W) OR PTE_COW else flags);
                     s2 = (if cow then set_pte loc (pte_set pa flags') s1 else s1)
                 in case mappages new va pa PGSIZE flags' s2 of
                      (Err e, s3) \<Rightarrow>
                        (case unmap new 0 (va div PGSIZE) True s3 of (Panic, s4) \<Rightarrow> (Panic, s4) | (_, s4) \<Rightarrow> (Err e, s4))
                    | (Panic, s3) \<Rightarrow> (Panic, s3)
                    | (Ok _, s3) \<Rightarrow>
                        (case page_ref_inc (vm_refs s3) pa of
                           Ok refs \<Rightarrow> uvm_copy_loop root new (va + PGSIZE) n (s3\<lparr>vm_refs := refs\<rparr>)
                         | _ \<Rightarrow> (Panic, s3))))
         | (_, s1) \<Rightarrow> (Panic, s1))
      else (Ok (), s))"
  by pat_completeness auto
termination
  by (relation "measure (\<lambda>(root, new, va, n, s). n - va)") (auto simp: PGSIZE_def)

declare uvm_copy_loop.simps [simp del]

definition uvm_copy :: "nat \<Rightarrow> nat \<Rightarrow> nat \<Rightarrow> unit vop" where
  "uvm_copy root new n s = uvm_copy_loop root new 0 n s"

definition cow_flags :: "usize \<Rightarrow> usize" where
  "cow_flags flags = (flags OR PTE_W) AND NOT PTE_COW"

definition resolve_cow :: "nat \<Rightarrow> nat \<Rightarrow> unit vop" where
  "resolve_cow root va0 s =
     (let va = page_down va0 in
      case walk root va False s of
        (Panic, s1) \<Rightarrow> (Panic, s1)
      | (Ok (Some loc), s1) \<Rightarrow>
          (let pte = get_pte loc s1; pa = pte_to_pa pte; flags = pte_flags pte in
           if \<not> pte_is_v pte \<or> \<not> pte_is_u pte \<or> \<not> pte_is_leaf pte then (Err BadVirtAddr, s1)
           else if flags AND PTE_COW = 0 \<or> flags AND PTE_W \<noteq> 0 then (Err BadVirtAddr, s1)
           else
             (case page_ref_get (vm_refs s1) pa of
                Ok n \<Rightarrow>
                  if n = 1 then (Ok (), set_pte loc (pte_set pa (cow_flags flags)) s1)
                  else
                    (case page_new s1 of
                       None \<Rightarrow> (Err OutOfMemory, s1)
                     | Some (p, s2) \<Rightarrow>
                         (let s3 = s2\<lparr>vm_page := (vm_page s2)(p := vm_page s2 pa)\<rparr> in
                          case page_ref_init (vm_refs s3) p of
                            Ok refs \<Rightarrow> drop_page pa (set_pte loc (pte_set p (cow_flags flags)) (s3\<lparr>vm_refs := refs\<rparr>))
                          | _ \<Rightarrow> (Panic, s3)))
              | _ \<Rightarrow> (Panic, s1)))
      | (_, s1) \<Rightarrow> (Err BadVirtAddr, s1))"

definition uvm_clear :: "nat \<Rightarrow> nat \<Rightarrow> unit vop" where
  "uvm_clear root va s =
     (case walk root va False s of
        (Ok (Some loc), s1) \<Rightarrow> (Ok (), set_pte loc (pte_rm_u (get_pte loc s1)) s1)
      | (_, s1) \<Rightarrow> (Panic, s1))"


section \<open>Copies between kernel and user memory\<close>

function copyout :: "nat \<Rightarrow> nat \<Rightarrow> byte list \<Rightarrow> unit vop" where
  "copyout root dstva src s =
     (if src = [] then (Ok (), s)
      else
        (let va0 = page_down dstva; n = min (PGSIZE - (dstva - va0)) (length src) in
         case walk root va0 False s of
           (Panic, s1) \<Rightarrow> (Panic, s1)
         | (Ok (Some loc), s1) \<Rightarrow>
             (let pte = get_pte loc s1; flags = pte_flags pte in
              if \<not> pte_is_v pte \<or> \<not> pte_is_u pte \<or> \<not> pte_is_leaf pte then (Err BadVirtAddr, s1)
              else if flags AND PTE_W = 0 \<and> flags AND PTE_COW = 0 then (Err BadVirtAddr, s1)
              else
                (case (if flags AND PTE_W = 0 then resolve_cow root va0 s1 else (Ok (), s1)) of
                   (Ok _, s2) \<Rightarrow>
                     if pte_flags (get_pte loc s2) AND PTE_W = 0 then (Err BadVirtAddr, s2)
                     else
                       (case walkaddr root va0 s2 of
                          Ok pa0 \<Rightarrow>
                            copyout root (va0 + PGSIZE) (drop n src)
                              (s2\<lparr>vm_page := (vm_page s2)(pa0 := patch (dstva - va0) (take n src) (vm_page s2 pa0))\<rparr>)
                        | Err e \<Rightarrow> (Err e, s2)
                        | Panic \<Rightarrow> (Panic, s2))
                 | (Err e, s2) \<Rightarrow> (Err e, s2)
                 | (Panic, s2) \<Rightarrow> (Panic, s2)))
         | (_, s1) \<Rightarrow> (Err BadVirtAddr, s1)))"
  by pat_completeness auto
termination
proof (relation "measure (\<lambda>(root, dstva, src, s). length src)", goal_cases)
  case (2 root dstva src)
  then have "0 < length src" "dstva - page_down dstva < PGSIZE"
    using mod_less_divisor [of PGSIZE dstva] by (simp_all add: page_down_def minus_div_mult_eq_mod PGSIZE_def)
  then show ?case using 2 by simp
qed simp

function copyin :: "nat \<Rightarrow> nat \<Rightarrow> nat \<Rightarrow> vmem \<Rightarrow> byte list result" where
  "copyin root srcva len s =
     (if len = 0 then Ok []
      else
        (let va0 = page_down srcva; n = min (PGSIZE - (srcva - va0)) len in
         obind (walkaddr root va0 s) (\<lambda>pa0.
         obind (copyin root (va0 + PGSIZE) (len - n) s) (\<lambda>rest.
         Ok (slice (srcva - va0) n (vm_page s pa0) @ rest)))))"
  by pat_completeness auto
termination
proof (relation "measure (\<lambda>(root, srcva, len, s). len)", goal_cases)
  case (2 root srcva len)
  then have "0 < len" "srcva - page_down srcva < PGSIZE"
    using mod_less_divisor [of PGSIZE srcva] by (simp_all add: page_down_def minus_div_mult_eq_mod PGSIZE_def)
  then show ?case using 2 by simp
qed simp

declare copyout.simps [simp del] copyin.simps [simp del]

section \<open>The end of an address space\<close>

fun try_unmap_loop :: "nat \<Rightarrow> nat \<Rightarrow> nat \<Rightarrow> bool \<Rightarrow> bool \<Rightarrow> bool vop" where
  "try_unmap_loop root a 0 do_free did s = (Ok did, s)"
| "try_unmap_loop root a (Suc n) do_free did s =
     (case walk root a False s of
        (Panic, s1) \<Rightarrow> (Panic, s1)
      | (Ok (Some loc), s1) \<Rightarrow>
          (let pte = get_pte loc s1 in
           if pte_is_v pte \<and> pte_is_leaf pte then
             try_unmap_loop root (a + PGSIZE) n do_free True
               (set_pte loc 0 (if do_free then page_free (pte_to_pa pte) s1 else s1))
           else try_unmap_loop root (a + PGSIZE) n do_free did s1)
      | (_, s1) \<Rightarrow> try_unmap_loop root (a + PGSIZE) n do_free did s1)"

definition try_unmap :: "nat \<Rightarrow> nat \<Rightarrow> nat \<Rightarrow> bool \<Rightarrow> bool vop" where
  "try_unmap root va npages do_free s =
     (if \<not> PGSIZE dvd va then (Err BadVirtAddr, s) else try_unmap_loop root va npages do_free False s)"

fun unmap_frames :: "nat \<Rightarrow> nat list \<Rightarrow> unit vop" where
  "unmap_frames root [] s = (Ok (), s)"
| "unmap_frames root (va # vas) s =
     (case try_unmap root va 1 False s of (Panic, s1) \<Rightarrow> (Panic, s1) | (_, s1) \<Rightarrow> unmap_frames root vas s1)"

definition proc_uvmfree :: "nat \<Rightarrow> nat \<Rightarrow> unit vop" where
  "proc_uvmfree root n =
     kbind (unmap root TRAMPOLINE 1 False) (\<lambda>_.
     kbind (unmap_frames root (TRAPFRAME # map trapframe_va [0..<NPROC])) (\<lambda>_.
     uvm_free root n))"

end
