(* ===== verification/Vm_Map.thy ===== *)
theory Vm_Map
  imports Uvm
begin

text \<open>
  What page tables mean. \<open>xlate s r va\<close> is the entry for an address in the address space with top-level
  table \<open>r\<close>, 0 if there is none. \<open>tables_ok\<close> says that the tables of a set of address spaces are a
  forest of distinct pages that are not free. Under it a walk does not change any translation, and
  setting an entry changes the translation of one page in one address space.
\<close>

unbundle bit_operations_syntax

section \<open>Entries\<close>

definition flags_ok :: "usize \<Rightarrow> bool" where
  "flags_ok f \<longleftrightarrow> take_bit 10 f = f"

definition page_addr :: "nat \<Rightarrow> bool" where
  "page_addr p \<longleftrightarrow> PGSIZE dvd p \<and> p < 2 ^ 64"

lemma pte_flags_take: "pte_flags w = take_bit 10 w"
  by (simp add: pte_flags_def take_bit_eq_mask mask_eq_exp_minus_1)

lemma flags_ok_bits: "flags_ok f \<Longrightarrow> bit f n \<Longrightarrow> n < 10"
  unfolding flags_ok_def by (metis bit_take_bit_iff)

lemma page_addr_bits: "page_addr p \<Longrightarrow> n < 12 \<Longrightarrow> \<not> bit (of_nat p :: usize) n"
proof -
  assume "page_addr p" "n < 12"
  then have "p mod 2 ^ 12 = 0" by (simp add: page_addr_def PGSIZE_def)
  then have "take_bit 12 p = 0" by (simp add: take_bit_eq_mod)
  then have "\<not> bit (take_bit 12 p) n" by simp
  then show ?thesis using \<open>n < 12\<close> by (simp add: bit_simps)
qed

lemma pte_to_pa_set [simp]: "page_addr p \<Longrightarrow> flags_ok f \<Longrightarrow> pte_to_pa (pte_set p f) = p"
proof -
  assume a: "page_addr p" "flags_ok f"
  have "push_bit 12 (drop_bit 10 (pte_set p f)) = (of_nat p :: usize)"
  proof (rule bit_word_eqI)
    fix n assume "n < LENGTH(64)"
    then show "bit (push_bit 12 (drop_bit 10 (pte_set p f))) n = bit (of_nat p :: usize) n"
      using page_addr_bits [OF a(1), of n] flags_ok_bits [OF a(2), of "10 + (n - 12)"]
      by (cases "n < 12") (auto simp: pte_set_def bit_simps)
  qed
  then show ?thesis using a(1) by (simp add: pte_to_pa_def page_addr_def unat_of_nat)
qed

lemma pte_flags_set [simp]: "flags_ok f \<Longrightarrow> pte_flags (pte_set p f) = f"
proof (rule bit_word_eqI)
  fix n assume f: "flags_ok f" "n < LENGTH(64)"
  then show "bit (pte_flags (pte_set p f)) n = bit f n"
    using flags_ok_bits [OF f(1), of n] by (auto simp: pte_flags_take pte_set_def bit_simps)
qed

lemma flags_ok_flags [simp]: "flags_ok (pte_flags w)"
  by (simp add: flags_ok_def pte_flags_take)

lemma flags_ok_or [simp]: "flags_ok a \<Longrightarrow> flags_ok b \<Longrightarrow> flags_ok (a OR b)"
  by (simp add: flags_ok_def)

lemma flags_ok_and [simp]: "flags_ok a \<Longrightarrow> flags_ok (a AND b)"
  by (auto simp: flags_ok_def bit_eq_iff bit_simps)

lemma flags_ok_bits_ok [simp]: "flags_ok 0" "flags_ok PTE_V" "flags_ok PTE_R" "flags_ok PTE_W" "flags_ok PTE_X" "flags_ok PTE_U" "flags_ok PTE_COW"
  by (simp_all add: flags_ok_def pte_bits)

text \<open>The tests look at the flags only.\<close>

lemma pte_tests:
  "pte_is_v w \<longleftrightarrow> pte_flags w AND PTE_V \<noteq> 0" "pte_is_u w \<longleftrightarrow> pte_flags w AND PTE_U \<noteq> 0"
  "pte_is_leaf w \<longleftrightarrow> pte_flags w AND (PTE_R OR PTE_W OR PTE_X) \<noteq> 0"
  by (simp_all add: pte_is_v_def pte_is_u_def pte_is_leaf_def pte_flags_def pte_bits and.assoc)

lemma pte_v_set [simp]: "flags_ok f \<Longrightarrow> pte_is_v (pte_set p (f OR PTE_V))"
  by (simp add: pte_tests) (simp add: bit.conj_disj_distrib2 pte_bits bit_eq_iff bit_simps exI [of _ 0])

section \<open>Tables\<close>

datatype tpos = TRoot | T1 nat | T0 nat nat

definition below :: "vmem \<Rightarrow> nat \<times> nat \<Rightarrow> nat option" where
  "below s loc = (if pte_is_v (get_pte loc s) then Some (pte_to_pa (get_pte loc s)) else None)"

fun table_at :: "vmem \<Rightarrow> nat \<Rightarrow> tpos \<Rightarrow> nat option" where
  "table_at s r TRoot = Some r"
| "table_at s r (T1 i) = below s (r, i)"
| "table_at s r (T0 i j) = (case below s (r, i) of None \<Rightarrow> None | Some t \<Rightarrow> below s (t, j))"

definition leaf_at :: "nat \<Rightarrow> tpos" where
  "leaf_at va = T0 (px 2 va) (px 1 va)"

definition xlate :: "vmem \<Rightarrow> nat \<Rightarrow> nat \<Rightarrow> usize" where
  "xlate s r va = (case table_at s r (leaf_at va) of None \<Rightarrow> 0 | Some t \<Rightarrow> get_pte (t, px 0 va) s)"

definition tables :: "vmem \<Rightarrow> nat set \<Rightarrow> nat set" where
  "tables s Rs = {t. \<exists>r \<in> Rs. \<exists>p. table_at s r p = Some t}"

definition tables_ok :: "vmem \<Rightarrow> nat set \<Rightarrow> bool" where
  "tables_ok s Rs \<longleftrightarrow>
     (\<forall>r \<in> Rs. \<forall>r' \<in> Rs. \<forall>p p' t. table_at s r p = Some t \<longrightarrow> table_at s r' p' = Some t \<longrightarrow> r = r' \<and> p = p') \<and>
     tables s Rs \<inter> set (vm_free s) = {} \<and> distinct (vm_free s) \<and> (\<forall>p \<in> set (vm_free s). page_addr p)"

lemma walk_lookup:
  "va < MAXVA \<Longrightarrow> walk r va False s = (Ok (map_option (\<lambda>t. (t, px 0 va)) (table_at s r (leaf_at va))), s)"
  by (auto simp: walk_def walk_down_def below_def leaf_at_def Let_def split: option.split)


fun child :: "tpos \<Rightarrow> nat \<Rightarrow> tpos" where
  "child TRoot i = T1 i"
| "child (T1 a) i = T0 a i"
| "child (T0 a b) i = T0 a b"

fun is_dir :: "tpos \<Rightarrow> bool" where
  "is_dir (T0 _ _) = False"
| "is_dir _ = True"

lemma tables_okD:
  assumes "tables_ok s Rs"
  shows "r \<in> Rs \<Longrightarrow> r' \<in> Rs \<Longrightarrow> table_at s r p = Some t \<Longrightarrow> table_at s r' p' = Some t \<Longrightarrow> r = r' \<and> p = p'"
    and "r \<in> Rs \<Longrightarrow> table_at s r p = Some t \<Longrightarrow> t \<notin> set (vm_free s)"
    and "distinct (vm_free s)" "f \<in> set (vm_free s) \<Longrightarrow> page_addr f"
  using assms unfolding tables_ok_def tables_def by blast+

lemma get_set_pte: "get_pte loc' (set_pte loc w s) = (if loc' = loc then w else get_pte loc' s)"
  by (cases loc; cases loc') (auto simp: get_pte_def set_pte_def)

lemma grow_tables:
  assumes ok: "tables_ok s Rs" "r \<in> Rs" and q: "table_at s r q = Some t" "is_dir q" "\<not> pte_is_v (get_pte (t, i) s)"
    and f: "vm_free s = f # fs" and r': "r' \<in> Rs"
  defines "s' \<equiv> set_pte (t, i) (pte_set f PTE_V) (s\<lparr>vm_free := fs, vm_pte := (vm_pte s)(f := \<lambda>_. 0)\<rparr>)"
  shows "table_at s' r' q' = (if r' = r \<and> q' = child q i then Some f else table_at s r' q')"
    and "table_at s r' q' = Some u \<Longrightarrow> get_pte (u, j) s' = (if r' = r \<and> q' = q \<and> j = i then pte_set f PTE_V else get_pte (u, j) s)"
    and "get_pte (f, j) s' = 0"
proof -
  note inj = tables_okD(1) [OF ok(1)] and nf = tables_okD(2) [OF ok(1)]
  have pf: "page_addr f" using tables_okD(4) [OF ok(1), of f] f by simp
  have g: "get_pte (u, j) s' = (if u = t \<and> j = i then pte_set f PTE_V else if u = f then 0 else get_pte (u, j) s)" for u j
    unfolding s'_def get_set_pte by (simp add: get_pte_def)
  have old: "get_pte (u, j) s' = (if r0 = r \<and> p0 = q \<and> j = i then pte_set f PTE_V else get_pte (u, j) s)"
    if "r0 \<in> Rs" "table_at s r0 p0 = Some u" for r0 p0 u j
  proof -
    have "u \<noteq> f" using nf [OF that] f by auto
    moreover have "u = t \<Longrightarrow> r0 = r \<and> p0 = q" using inj [OF that(1) ok(2) that(2)] q(1) by blast
    moreover have "r0 = r \<and> p0 = q \<Longrightarrow> u = t" using q(1) that(2) by simp
    ultimately have "u \<noteq> f" "u = t \<longleftrightarrow> r0 = r \<and> p0 = q" by blast+
    then show ?thesis by (simp add: g)
  qed
  show "get_pte (u, j) s' = (if r' = r \<and> q' = q \<and> j = i then pte_set f PTE_V else get_pte (u, j) s)" if "table_at s r' q' = Some u"
    by (rule old [OF r' that])
  have tf: "t \<noteq> f" using nf [OF ok(2) q(1)] f by auto
  then show new: "get_pte (f, j) s' = 0" for j by (simp add: g)
  have v: "pte_is_v (pte_set f PTE_V)" "pte_to_pa (pte_set f PTE_V) = f" using pte_v_set [of 0 f] pf by simp_all
  have z: "\<not> pte_is_v 0" by (simp add: pte_is_v_def)
  have b: "below s' (u, j) = (if r0 = r \<and> p0 = q \<and> j = i then Some f else below s (u, j))"
    if "r0 \<in> Rs" "table_at s r0 p0 = Some u" for r0 p0 u j
    using v by (simp add: below_def old [OF that])
  show "table_at s' r' q' = (if r' = r \<and> q' = child q i then Some f else table_at s r' q')"
  proof (cases q')
    case TRoot
    then show ?thesis using q(2) by (cases q) auto
  next
    case (T1 a)
    then show ?thesis using b [OF r', of TRoot r' a] q(2) by (cases q) auto
  next
    case (T0 a c)
    show ?thesis
    proof (cases "r' = r \<and> TRoot = q \<and> a = i")
      case True
      then have "below s' (r', a) = Some f" using b [OF r', of TRoot r' a] by simp
      moreover have "below s (r', a) = None" using True q(1,3) by (auto simp: below_def)
      moreover have "below s' (f, c) = None" using new z by (simp add: below_def)
      ultimately show ?thesis using T0 True by auto
    next
      case False
      then have same: "below s' (r', a) = below s (r', a)" using b [OF r', of TRoot r' a] by auto
      show ?thesis
      proof (cases "below s (r', a)")
        case None
        then have "q \<noteq> T1 a \<or> r' \<noteq> r" using q(1) by auto
        then show ?thesis using T0 same None False q(2) by (cases q) auto
      next
        case (Some u)
        then have "below s' (u, c) = (if r' = r \<and> T1 a = q \<and> c = i then Some f else below s (u, c))" using b [OF r', of "T1 a" u c] by simp
        then show ?thesis using T0 same Some False q(2) by (cases q) auto
      qed
    qed
  qed
qed

lemma walk_down_create:
  assumes ok: "tables_ok s Rs" "r \<in> Rs" and q: "table_at s r q = Some t" "is_dir q" and w: "walk_down True (t, i) s = (o', s')"
  shows "tables_ok s' Rs" "r' \<in> Rs \<Longrightarrow> xlate s' r' va = xlate s r' va" "vm_page s' = vm_page s" "vm_refs s' = vm_refs s"
    "\<exists>k \<le> 1. vm_free s' = drop k (vm_free s)" "o' = None \<Longrightarrow> vm_free s = []" "o' = Some u \<Longrightarrow> table_at s' r (child q i) = Some u"
    "r' \<in> Rs \<Longrightarrow> table_at s r' p = Some v \<Longrightarrow> table_at s' r' p = Some v" "tables s' Rs \<subseteq> tables s Rs \<union> (set (vm_free s) - set (vm_free s'))"
proof -
  have "tables_ok s' Rs \<and> (\<forall>r' \<in> Rs. \<forall>va. xlate s' r' va = xlate s r' va) \<and> vm_page s' = vm_page s \<and> vm_refs s' = vm_refs s \<and>
    (\<exists>k \<le> 1. vm_free s' = drop k (vm_free s)) \<and> (o' = None \<longrightarrow> vm_free s = []) \<and> (\<forall>u. o' = Some u \<longrightarrow> table_at s' r (child q i) = Some u) \<and>
    (\<forall>r' \<in> Rs. \<forall>p v. table_at s r' p = Some v \<longrightarrow> table_at s' r' p = Some v) \<and> tables s' Rs \<subseteq> tables s Rs \<union> (set (vm_free s) - set (vm_free s'))"
  proof (cases "pte_is_v (get_pte (t, i) s)")
    case True
    then have s': "s' = s" "o' = Some (pte_to_pa (get_pte (t, i) s))" using w by (auto simp: walk_down_def Let_def)
    have "table_at s r (child q i) = below s (t, i)" using q by (cases q) auto
    then show ?thesis using ok(1) s' True by (auto simp: below_def intro: exI [of _ 0])
  next
    case False
    show ?thesis
    proof (cases "vm_free s")
      case Nil
      then show ?thesis using w False ok(1) by (auto simp: walk_down_def Let_def table_new_def intro: exI [of _ 0])
    next
      case (Cons f fs)
      have s': "s' = set_pte (t, i) (pte_set f PTE_V) (s\<lparr>vm_free := fs, vm_pte := (vm_pte s)(f := \<lambda>_. 0)\<rparr>)" "o' = Some f"
        using w False Cons by (auto simp: walk_down_def Let_def table_new_def)
      note g = grow_tables [OF ok q False Cons, folded s'(1)]
      have pr: "vm_page s' = vm_page s" "vm_refs s' = vm_refs s" "vm_free s' = fs" by (simp_all add: s'(1) set_pte_def)
      have new: "table_at s r (child q i) = None" using q False by (cases q) (auto simp: below_def)
      have ff: "f \<notin> tables s Rs" using tables_okD(2) [OF ok(1)] Cons by (auto simp: tables_def)
      have keep: "table_at s' r' p = Some v" if "r' \<in> Rs" "table_at s r' p = Some v" for r' p v
        using g(1) [OF that(1)] that(2) new by auto
      have T: "tables s' Rs = insert f (tables s Rs)"
      proof (rule set_eqI)
        fix u
        have "table_at s' r (child q i) = Some f" using g(1) [OF ok(2)] by simp
        moreover have "u \<in> tables s' Rs \<Longrightarrow> u = f \<or> u \<in> tables s Rs" using g(1) by (fastforce simp: tables_def split: if_splits)
        ultimately show "u \<in> tables s' Rs \<longleftrightarrow> u \<in> insert f (tables s Rs)" using keep ok(2) unfolding tables_def by blast
      qed
      have "tables_ok s' Rs"
        unfolding tables_ok_def
      proof (intro conjI ballI allI impI)
        fix r1 r2 p1 p2 u assume a: "r1 \<in> Rs" "r2 \<in> Rs" "table_at s' r1 p1 = Some u" "table_at s' r2 p2 = Some u"
        have at_f: "r0 = r \<and> p0 = child q i" if "r0 \<in> Rs" "table_at s' r0 p0 = Some f" for r0 p0
          using g(1) [OF that(1)] that ff unfolding tables_def by (auto split: if_splits)
        have at_u: "table_at s r0 p0 = Some u" if "r0 \<in> Rs" "table_at s' r0 p0 = Some u" "u \<noteq> f" for r0 p0
          using g(1) [OF that(1)] that by (auto split: if_splits)
        have "r1 = r2 \<and> p1 = p2"
        proof (cases "u = f")
          case True
          then show ?thesis using at_f [OF a(1)] at_f [OF a(2)] a(3,4) by simp
        next
          case False
          then show ?thesis using tables_okD(1) [OF ok(1) a(1,2) at_u [OF a(1,3) False] at_u [OF a(2,4) False]] by simp
        qed
        then show "r1 = r2" "p1 = p2" by simp_all
      next
        show "tables s' Rs \<inter> set (vm_free s') = {}" using T pr(3) ok(1) Cons by (auto simp: tables_ok_def)
      qed (use pr(3) ok(1) Cons in \<open>auto simp: tables_ok_def\<close>)
      moreover have "xlate s' r' va = xlate s r' va" if r': "r' \<in> Rs" for r' va
      proof (cases "table_at s r' (leaf_at va)")
        case None
        then have "table_at s' r' (leaf_at va) = None \<or> table_at s' r' (leaf_at va) = Some f" using g(1) [OF r'] by auto
        then show ?thesis using None g(3) [OF r'] by (auto simp: xlate_def)
      next
        case (Some u)
        then have "table_at s' r' (leaf_at va) = Some u" using g(1) [OF r'] new by auto
        moreover have "q \<noteq> leaf_at va" using q(2) by (auto simp: leaf_at_def)
        ultimately show ?thesis using Some g(2) [OF r' Some] by (simp add: xlate_def)
      qed
      moreover have "\<exists>k \<le> 1. vm_free s' = drop k (vm_free s)" using Cons pr(3) by (intro exI [of _ 1]) simp
      moreover have "table_at s' r (child q i) = Some f" using g(1) [OF ok(2)] by simp
      moreover have "f \<notin> set fs" using tables_okD(3) [OF ok(1)] Cons by simp
      ultimately show ?thesis using pr T s'(2) keep Cons by auto
    qed
  qed
  then show "tables_ok s' Rs" "r' \<in> Rs \<Longrightarrow> xlate s' r' va = xlate s r' va" "vm_page s' = vm_page s" "vm_refs s' = vm_refs s"
    "\<exists>k \<le> 1. vm_free s' = drop k (vm_free s)" "o' = None \<Longrightarrow> vm_free s = []" "o' = Some u \<Longrightarrow> table_at s' r (child q i) = Some u"
    "r' \<in> Rs \<Longrightarrow> table_at s r' p = Some v \<Longrightarrow> table_at s' r' p = Some v" "tables s' Rs \<subseteq> tables s Rs \<union> (set (vm_free s) - set (vm_free s'))"
    by blast+
qed

text \<open>Walking with creation changes nothing but the tables: no translation, no data page, no count.
  The pages it uses come from the free list.\<close>

definition grown :: "nat set \<Rightarrow> vmem \<Rightarrow> vmem \<Rightarrow> bool" where
  "grown Rs s s' \<longleftrightarrow>
     tables_ok s' Rs \<and> (\<forall>r \<in> Rs. \<forall>va. xlate s' r va = xlate s r va) \<and> vm_page s' = vm_page s \<and> vm_refs s' = vm_refs s \<and>
     (\<exists>k \<le> 2. vm_free s' = drop k (vm_free s)) \<and> tables s' Rs \<subseteq> tables s Rs \<union> (set (vm_free s) - set (vm_free s'))"

lemma grownD:
  assumes "grown Rs s s'"
  shows "tables_ok s' Rs" "r \<in> Rs \<Longrightarrow> xlate s' r va = xlate s r va" "vm_page s' = vm_page s" "vm_refs s' = vm_refs s"
    "tables s' Rs \<subseteq> tables s Rs \<union> (set (vm_free s) - set (vm_free s'))" "set (vm_free s') \<subseteq> set (vm_free s)"
    "length (vm_free s) \<le> length (vm_free s') + 2"
  using assms set_drop_subset unfolding grown_def by fastforce+

lemma tables_trans:
  "A2 \<subseteq> A1 \<union> (F1 - F2) \<Longrightarrow> A1 \<subseteq> A0 \<union> (F0 - F1) \<Longrightarrow> F2 \<subseteq> F1 \<Longrightarrow> F1 \<subseteq> F0 \<Longrightarrow> A2 \<subseteq> A0 \<union> (F0 - F2)"
  by blast

lemma walk_create:
  assumes ok: "tables_ok s Rs" "r \<in> Rs" and va: "va < MAXVA" and w: "walk r va True s = (res, s')"
  shows "grown Rs s s'" "\<exists>loc. res = Ok loc" "res = Ok None \<Longrightarrow> length (vm_free s) < 2"
    "res = Ok (Some loc) \<Longrightarrow> \<exists>t. loc = (t, px 0 va) \<and> table_at s' r (leaf_at va) = Some t"
proof -
  obtain o1 s1 where d1: "walk_down True (r, px 2 va) s = (o1, s1)" by fastforce
  have q1: "table_at s r TRoot = Some r" "is_dir TRoot" by simp_all
  note w1 = walk_down_create [OF ok q1 d1]
  have "grown Rs s s' \<and> (\<exists>loc. res = Ok loc) \<and> (res = Ok None \<longrightarrow> length (vm_free s) < 2) \<and>
    (\<forall>loc. res = Ok (Some loc) \<longrightarrow> (\<exists>t. loc = (t, px 0 va) \<and> table_at s' r (leaf_at va) = Some t))"
  proof (cases o1)
    case None
    then have "res = Ok None" "s' = s1" using w d1 va by (auto simp: walk_def)
    then show ?thesis using w1 None unfolding grown_def by (auto intro: le_trans)
  next
    case (Some t1)
    obtain o2 s2 where d2: "walk_down True (t1, px 1 va) s1 = (o2, s2)" by fastforce
    have q2: "table_at s1 r (T1 (px 2 va)) = Some t1" "is_dir (T1 (px 2 va))" using w1(7) [OF Some] by simp_all
    note w2 = walk_down_create [OF w1(1) ok(2) q2 d2]
    obtain k1 k2 where k: "k1 \<le> 1" "vm_free s1 = drop k1 (vm_free s)" "k2 \<le> 1" "vm_free s2 = drop k2 (vm_free s1)" using w1(5) w2(5) by auto
    then have "\<exists>k \<le> 2. vm_free s2 = drop k (vm_free s)" by (intro exI [of _ "k2 + k1"]) simp
    moreover have "set (vm_free s2) \<subseteq> set (vm_free s1)" "set (vm_free s1) \<subseteq> set (vm_free s)"
      using set_drop_subset [of k2 "vm_free s1"] set_drop_subset [of k1 "vm_free s"] by (simp_all only: k)
    then have "tables s2 Rs \<subseteq> tables s Rs \<union> (set (vm_free s) - set (vm_free s2))" by (rule tables_trans [OF w2(9) w1(9)])
    ultimately have g: "grown Rs s s2" using w1(2-4) w2(1-4) unfolding grown_def by simp
    have "o2 = None \<Longrightarrow> length (vm_free s) < 2" using w2(6) k(1,2) by (auto simp: drop_eq_Nil2)
    then show ?thesis using g w d1 d2 va Some w2(7) by (cases o2) (auto simp: walk_def leaf_at_def)
  qed
  then show "grown Rs s s'" "\<exists>loc. res = Ok loc" "res = Ok None \<Longrightarrow> length (vm_free s) < 2"
    "res = Ok (Some loc) \<Longrightarrow> \<exists>t. loc = (t, px 0 va) \<and> table_at s' r (leaf_at va) = Some t" by blast+
qed

text \<open>The three indices determine the page.\<close>

lemma px_page:
  assumes "a < MAXVA" "b < MAXVA"
  shows "leaf_at a = leaf_at b \<and> px 0 a = px 0 b \<longleftrightarrow> a div PGSIZE = b div PGSIZE"
proof -
  have split: "n = 262144 * (n div 262144) + 512 * (n div 512 mod 512) + n mod 512" for n :: nat
  proof -
    have "n div 512 div 512 = n div 262144" by (simp add: div_mult2_eq [symmetric])
    then have "n div 512 = 512 * (n div 262144) + n div 512 mod 512" using mult_div_mod_eq [of 512 "n div 512"] by simp
    then show ?thesis using mult_div_mod_eq [of 512 n] by linarith
  qed
  have px: "px 0 a = a div PGSIZE mod 512" "px 1 a = a div PGSIZE div 512 mod 512" "px 2 a = a div PGSIZE div 262144" if "a < MAXVA" for a
  proof -
    have "a div PGSIZE div 262144 < 512" using that by (simp add: div_mult2_eq [symmetric] MAXVA_def PGSIZE_def less_mult_imp_div_less)
    then show "px 0 a = a div PGSIZE mod 512" "px 1 a = a div PGSIZE div 512 mod 512" "px 2 a = a div PGSIZE div 262144"
      by (simp_all add: px_def PGSHIFT_def PGSIZE_def div_mult2_eq [symmetric])
  qed
  have "leaf_at a = leaf_at b \<and> px 0 a = px 0 b \<Longrightarrow> a div PGSIZE = b div PGSIZE"
    unfolding leaf_at_def using split [of "a div PGSIZE"] split [of "b div PGSIZE"] px [OF assms(1)] px [OF assms(2)] by simp
  moreover have "a div PGSIZE = b div PGSIZE \<Longrightarrow> leaf_at a = leaf_at b \<and> px 0 a = px 0 b"
    using px [OF assms(1)] px [OF assms(2)] by (simp add: leaf_at_def)
  ultimately show ?thesis by blast
qed

text \<open>Setting an entry of a last-level table changes the translation of one page of one address space.\<close>

lemma set_leaf:
  assumes ok: "tables_ok s Rs" "r \<in> Rs" and va: "va < MAXVA" and t: "table_at s r (leaf_at va) = Some t"
    and s'_def: "s' = set_pte (t, px 0 va) w s"
  shows "r' \<in> Rs \<Longrightarrow> table_at s' r' p = table_at s r' p" "tables_ok s' Rs" "tables s' Rs = tables s Rs"
    "r' \<in> Rs \<Longrightarrow> a < MAXVA \<Longrightarrow> xlate s' r' a = (if r' = r \<and> a div PGSIZE = va div PGSIZE then w else xlate s r' a)"
proof -
  note inj = tables_okD(1) [OF ok(1)]
  have b: "below s' (u, j) = below s (u, j)" if "r' \<in> Rs" "table_at s r' q = Some u" "is_dir q" for r' q u j
  proof -
    have "u \<noteq> t" using inj [OF that(1) ok(2) that(2), of "leaf_at va"] t that(3) by (auto simp: leaf_at_def)
    then show ?thesis by (simp add: below_def s'_def get_set_pte)
  qed
  have T: "table_at s' r' p = table_at s r' p" if "r' \<in> Rs" for r' p
    using b [OF that, of TRoot r'] b [OF that, of "T1 _"] by (cases p) (auto split: option.splits)
  then show "r' \<in> Rs \<Longrightarrow> table_at s' r' p = table_at s r' p" .
  show ts: "tables s' Rs = tables s Rs" using T by (auto simp: tables_def)
  show "tables_ok s' Rs" using ok(1) T unfolding tables_ok_def ts by (simp add: s'_def set_pte_def)
  assume r': "r' \<in> Rs" and a: "a < MAXVA"
  show "xlate s' r' a = (if r' = r \<and> a div PGSIZE = va div PGSIZE then w else xlate s r' a)"
  proof (cases "table_at s r' (leaf_at a)")
    case None
    then show ?thesis using T [OF r'] t px_page [OF a va] by (auto simp: xlate_def)
  next
    case (Some u)
    have "u = t \<longleftrightarrow> r' = r \<and> leaf_at a = leaf_at va" using inj [OF r' ok(2) Some, of "leaf_at va"] Some t by auto
    then show ?thesis using T [OF r'] Some px_page [OF a va] by (auto simp: xlate_def s'_def get_set_pte)
  qed
qed

end
