(* ===== verification/Cow.thy ===== *)
theory Cow
  imports Vm_Map
begin

text \<open>
  Copy-on-write sharing. A page of user memory is named by its address space and its page number.
  \<open>space_ok s Rs D\<close> is the invariant the operations keep for the private pages \<open>D\<close> of the address
  spaces \<open>Rs\<close>: they are mapped, the reference count of a frame is the number of private pages mapped to
  it, and a writable page has its frame for itself.
\<close>

unbundle bit_operations_syntax

section \<open>Flags, bit by bit\<close>

definition writable :: "usize \<Rightarrow> bool" where
  "writable w \<longleftrightarrow> pte_flags w AND PTE_W \<noteq> 0"

definition readable :: "usize \<Rightarrow> bool" where
  "readable w \<longleftrightarrow> pte_flags w AND PTE_R \<noteq> 0"

lemma flag_bits:
  "w AND PTE_V = 0 \<longleftrightarrow> \<not> bit w 0" "w AND PTE_R = 0 \<longleftrightarrow> \<not> bit w 1" "w AND PTE_W = 0 \<longleftrightarrow> \<not> bit w 2"
  "w AND PTE_X = 0 \<longleftrightarrow> \<not> bit w 3" "w AND PTE_U = 0 \<longleftrightarrow> \<not> bit w 4" "w AND PTE_COW = 0 \<longleftrightarrow> \<not> bit w 8"
  using and_exp_eq_0_iff_not_bit [of w 0] and_exp_eq_0_iff_not_bit [of w 1] and_exp_eq_0_iff_not_bit [of w 2]
    and_exp_eq_0_iff_not_bit [of w 3] and_exp_eq_0_iff_not_bit [of w 4] and_exp_eq_0_iff_not_bit [of w 8]
  by (simp_all add: pte_bits)

lemma bit_flags [simp]:
  "bit PTE_V n \<longleftrightarrow> n = 0" "bit PTE_W n \<longleftrightarrow> n = 2" "bit PTE_COW n \<longleftrightarrow> n = 8"
  using bit_exp_iff [where 'a = "64 word", of 0 n] bit_exp_iff [where 'a = "64 word", of 2 n] bit_exp_iff [where 'a = "64 word", of 8 n]
  by (auto simp: pte_bits)

lemma pte_is_bits: "pte_is_v w \<longleftrightarrow> bit w 0" "pte_is_u w \<longleftrightarrow> bit w 4" "pte_is_leaf w \<longleftrightarrow> bit w 1 \<or> bit w 2 \<or> bit w 3" "writable w \<longleftrightarrow> bit w 2"
  "readable w \<longleftrightarrow> bit w 1"
  using flag_bits [of w] flag_bits(2,3) [of "pte_flags w"]
  by (simp_all add: pte_is_v_def pte_is_u_def pte_is_leaf_def bit.conj_disj_distrib or_eq_0_iff writable_def readable_def pte_flags_take bit_take_bit_iff)

lemma bit_pte_flags: "n < 10 \<Longrightarrow> bit (pte_flags w) n \<longleftrightarrow> bit w n"
  by (simp add: pte_flags_take bit_take_bit_iff)

lemma bit_pte_set: "n < 10 \<Longrightarrow> bit (pte_set p f) n \<longleftrightarrow> bit f n"
  by (simp add: pte_set_def bit_or_iff bit_push_bit_iff)

lemma bit_cow_flags: "n < 10 \<Longrightarrow> bit (cow_flags f) n \<longleftrightarrow> (bit f n \<or> n = 2) \<and> n \<noteq> 8"
  by (auto simp: cow_flags_def bit_simps)

lemmas pte_bit_simps = flag_bits pte_is_bits bit_pte_flags bit_pte_set bit_cow_flags

lemma flags_ok_cow [simp]: "flags_ok f \<Longrightarrow> flags_ok (cow_flags f)"
  by (simp add: cow_flags_def)

text \<open>The rights of the user on a page: to read it, and to write it, perhaps after a copy.\<close>

definition uperm :: "usize \<Rightarrow> bool \<times> bool" where
  "uperm w = (pte_is_u w, writable w \<or> pte_flags w AND PTE_COW \<noteq> 0)"

lemma uperm_bits: "uperm w = (bit w 4, bit w 2 \<or> bit w 8)"
  by (simp add: uperm_def pte_bit_simps)

lemma readable_leaf: "readable w \<Longrightarrow> pte_is_leaf w"
  by (simp add: pte_is_bits)

section \<open>The invariant\<close>

type_synonym upage = "nat \<times> nat"

definition ent :: "vmem \<Rightarrow> upage \<Rightarrow> usize" where
  "ent s m = xlate s (fst m) (snd m * PGSIZE)"

definition frame_of :: "vmem \<Rightarrow> upage \<Rightarrow> nat" where
  "frame_of s m = pte_to_pa (ent s m)"

definition owners :: "vmem \<Rightarrow> upage set \<Rightarrow> nat \<Rightarrow> upage set" where
  "owners s D pa = {m \<in> D. frame_of s m = pa}"

definition frame_ok :: "vmem \<Rightarrow> nat set \<Rightarrow> upage set \<Rightarrow> nat \<Rightarrow> bool" where
  "frame_ok s Rs D pa \<longleftrightarrow>
     is_page pa \<and> pa \<notin> tables s Rs \<and> pa \<notin> set (vm_free s) \<and> length (vm_page s pa) = PGSIZE \<and>
     ref_count (vm_refs s) pa = card (owners s D pa)"

definition entry_ok :: "vmem \<Rightarrow> nat set \<Rightarrow> upage set \<Rightarrow> upage \<Rightarrow> bool" where
  "entry_ok s Rs D m \<longleftrightarrow>
     fst m \<in> Rs \<and> snd m * PGSIZE < MAXVA \<and> pte_is_v (ent s m) \<and> readable (ent s m) \<and> frame_ok s Rs D (frame_of s m) \<and>
     (writable (ent s m) \<longrightarrow> owners s D (frame_of s m) = {m})"

definition space_ok :: "vmem \<Rightarrow> nat set \<Rightarrow> upage set \<Rightarrow> bool" where
  "space_ok s Rs D \<longleftrightarrow>
     tables_ok s Rs \<and> finite D \<and> length (vm_refs s) = NPAGE \<and> (\<forall>m \<in> D. entry_ok s Rs D m) \<and>
     (\<forall>p \<in> set (vm_free s). is_page p \<and> ref_count (vm_refs s) p = 0)"

definition page_of :: "vmem \<Rightarrow> upage \<Rightarrow> byte list" where
  "page_of s m = vm_page s (frame_of s m)"

lemma is_page_addr: "is_page p \<Longrightarrow> page_addr p"
  by (simp add: is_page_def page_addr_def PHYSTOP_def KERNBASE_def)

lemma space_okD:
  assumes "space_ok s Rs D"
  shows "tables_ok s Rs" "finite D" "length (vm_refs s) = NPAGE" "p \<in> set (vm_free s) \<Longrightarrow> is_page p"
    "p \<in> set (vm_free s) \<Longrightarrow> ref_count (vm_refs s) p = 0" "m \<in> D \<Longrightarrow> entry_ok s Rs D m"
  using assms by (auto simp: space_ok_def)

lemma entryD:
  assumes "space_ok s Rs D" "m \<in> D"
  shows "fst m \<in> Rs" "snd m * PGSIZE < MAXVA" "pte_is_v (ent s m)" "pte_is_leaf (ent s m)" "writable (ent s m) \<Longrightarrow> owners s D (frame_of s m) = {m}"
    "is_page (frame_of s m)" "frame_of s m \<notin> tables s Rs" "frame_of s m \<notin> set (vm_free s)" "length (vm_page s (frame_of s m)) = PGSIZE"
    "ref_count (vm_refs s) (frame_of s m) = card (owners s D (frame_of s m))" "readable (ent s m)"
  using space_okD(6) [OF assms] by (auto simp: entry_ok_def frame_ok_def readable_leaf)

lemma owners_fin: "space_ok s Rs D \<Longrightarrow> finite (owners s D pa)"
  using space_okD(2) by (simp add: owners_def)

lemma owners_self: "m \<in> D \<Longrightarrow> m \<in> owners s D (frame_of s m)"
  by (simp add: owners_def)

lemma owners_one: "m \<in> D \<Longrightarrow> card (owners s D (frame_of s m)) = 1 \<longleftrightarrow> owners s D (frame_of s m) = {m}"
  using owners_self [of m D s] by (auto simp: card_1_singleton_iff)

lemma owners_pos: "space_ok s Rs D \<Longrightarrow> m \<in> D \<Longrightarrow> 0 < card (owners s D (frame_of s m))"
  using owners_fin owners_self card_gt_0_iff by blast

lemma entry_at: "space_ok s Rs D \<Longrightarrow> m \<in> D \<Longrightarrow> \<exists>t. table_at s (fst m) (leaf_at (snd m * PGSIZE)) = Some t \<and> get_pte (t, px 0 (snd m * PGSIZE)) s = ent s m"
  using entryD(3) [of s Rs D m] by (auto simp: ent_def xlate_def pte_is_v_def split: option.splits)

lemma space_grown: "space_ok s Rs D \<Longrightarrow> grown Rs s s' \<Longrightarrow> space_ok s' Rs D"
proof -
  assume ok: "space_ok s Rs D" and g: "grown Rs s s'"
  have ent: "ent s' m = ent s m" if "m \<in> D" for m using grownD(2) [OF g entryD(1) [OF ok that]] by (simp add: ent_def)
  have ow: "owners s' D pa = owners s D pa" for pa using ent by (auto simp: owners_def frame_of_def)
  have "entry_ok s' Rs D m" if "m \<in> D" for m
    using entryD [OF ok that] ent [OF that] ow grownD(3-6) [OF g] by (auto simp: entry_ok_def frame_ok_def frame_of_def)
  then show ?thesis using ok grownD(1,4,6) [OF g] by (auto simp: space_ok_def)
qed

section \<open>Changing one entry\<close>

text \<open>Setting the entry of a page, as a map from pages to entries.\<close>

lemma set_entry:
  assumes ok: "tables_ok s Rs" "fst m \<in> Rs" "snd m * PGSIZE < MAXVA" and t: "table_at s (fst m) (leaf_at (snd m * PGSIZE)) = Some t"
    and s': "s' = set_pte (t, px 0 (snd m * PGSIZE)) w s"
  shows "tables_ok s' Rs" "tables s' Rs = tables s Rs" "fst m' \<in> Rs \<Longrightarrow> snd m' * PGSIZE < MAXVA \<Longrightarrow> ent s' m' = (if m' = m then w else ent s m')"
    "vm_page s' = vm_page s" "vm_refs s' = vm_refs s" "vm_free s' = vm_free s" "r \<in> Rs \<Longrightarrow> table_at s' r p = table_at s r p"
proof -
  note l = set_leaf [OF ok t s']
  show "tables_ok s' Rs" "tables s' Rs = tables s Rs" "r \<in> Rs \<Longrightarrow> table_at s' r p = table_at s r p" using l(1-3) by auto
  show "fst m' \<in> Rs \<Longrightarrow> snd m' * PGSIZE < MAXVA \<Longrightarrow> ent s' m' = (if m' = m then w else ent s m')"
    using l(4) by (cases m; cases m') (auto simp: ent_def PGSIZE_def)
qed (simp_all add: s' set_pte_def)

text \<open>New flags for a page that keeps its frame.\<close>

lemma space_retag:
  assumes ok: "space_ok s Rs D" "m \<in> D" and t: "table_at s (fst m) (leaf_at (snd m * PGSIZE)) = Some t"
    and f: "flags_ok f" "pte_is_v (pte_set (frame_of s m) f)" "readable (pte_set (frame_of s m) f)"
    and w: "f AND PTE_W \<noteq> 0 \<Longrightarrow> owners s D (frame_of s m) = {m}"
    and s': "s' = set_pte (t, px 0 (snd m * PGSIZE)) (pte_set (frame_of s m) f) s"
  shows "space_ok s' Rs D" "m' \<in> D \<Longrightarrow> frame_of s' m' = frame_of s m'"
proof -
  note e = entryD [OF ok] and se = set_entry [OF space_okD(1) [OF ok(1)] entryD(1,2) [OF ok] t s']
  have ent: "ent s' m' = (if m' = m then pte_set (frame_of s m) f else ent s m')" if "m' \<in> D" for m'
    using se(3) [OF entryD(1,2) [OF ok(1) that]] .
  show fr: "frame_of s' m' = frame_of s m'" if "m' \<in> D" for m'
    using ent [OF that] is_page_addr [OF e(6)] f(1) by (auto simp: frame_of_def)
  have ow: "owners s' D pa = owners s D pa" for pa using fr by (auto simp: owners_def)
  have "entry_ok s' Rs D m'" if m': "m' \<in> D" for m'
    using entryD [OF ok(1) m'] ent [OF m'] fr [OF m'] f w
    by (auto simp: entry_ok_def frame_ok_def ow se writable_def)
  then show "space_ok s' Rs D" using ok(1) se by (simp add: space_ok_def)
qed

text \<open>Parts of the state the translation does not read.\<close>

lemma below_cong: "vm_pte s' = vm_pte s \<Longrightarrow> below s' = below s"
  by (simp add: below_def get_pte_def fun_eq_iff)

lemma table_at_cong: "vm_pte s' = vm_pte s \<Longrightarrow> table_at s' r p = table_at s r p"
  by (cases p) (simp_all add: below_cong [of s' s] split: option.split)

lemma ent_cong: "vm_pte s' = vm_pte s \<Longrightarrow> ent s' m = ent s m"
  by (simp add: ent_def xlate_def table_at_cong [of s' s] get_pte_def split: option.split)

lemma tables_cong: "vm_pte s' = vm_pte s \<Longrightarrow> tables s' Rs = tables s Rs"
  by (simp add: tables_def table_at_cong [of s' s])

lemma tables_ok_cong:
  assumes "tables_ok s Rs" "vm_pte s' = vm_pte s" "distinct (vm_free s')" "set (vm_free s') \<subseteq> set (vm_free s) \<union> F"
    "\<And>p. p \<in> F \<Longrightarrow> page_addr p \<and> p \<notin> tables s Rs"
  shows "tables_ok s' Rs"
  using assms(1,3-) unfolding tables_ok_def tables_cong [OF assms(2)] table_at_cong [OF assms(2)] by blast

text \<open>A page moves to a frame of its own; its old frame is still in use.\<close>

lemma space_swap:
  assumes ok: "space_ok s Rs D" "m \<in> D" and f: "vm_free s = p # ps" and many: "owners s D (frame_of s m) \<noteq> {m}"
    and ent': "\<And>m'. m' \<in> D \<Longrightarrow> ent s' m' = (if m' = m then pte_set p fl else ent s m')"
    and tab: "tables_ok s' Rs" "tables s' Rs = tables s Rs"
    and fl: "flags_ok fl" "pte_is_v (pte_set p fl)" "readable (pte_set p fl)"
    and pg: "vm_free s' = ps" "vm_page s' = (vm_page s)(p := bs)" "length bs = PGSIZE"
    and refs: "length (vm_refs s') = NPAGE" "\<And>pb. is_page pb \<Longrightarrow> ref_count (vm_refs s') pb =
      (if pb = p then 1 else if pb = frame_of s m then ref_count (vm_refs s) pb - 1 else ref_count (vm_refs s) pb)"
  shows "space_ok s' Rs D" "m' \<in> D \<Longrightarrow> frame_of s' m' = (if m' = m then p else frame_of s m')" "frame_of s m \<noteq> p"
proof -
  have p: "is_page p" "ref_count (vm_refs s) p = 0" "p \<notin> set ps" "p \<notin> tables s Rs"
    using space_okD(4,5) [OF ok(1), of p] tables_okD(3) [OF space_okD(1) [OF ok(1)]] space_okD(1) [OF ok(1)] f by (auto simp: tables_ok_def)
  have nf: "frame_of s m' \<noteq> p" if "m' \<in> D" for m' using entryD(8) [OF ok(1) that] f by auto
  then show "frame_of s m \<noteq> p" using ok(2) .
  show fr: "frame_of s' m' = (if m' = m then p else frame_of s m')" if "m' \<in> D" for m'
    using ent' [OF that] is_page_addr [OF p(1)] fl(1) by (auto simp: frame_of_def)
  have ow: "owners s' D pa = (if pa = p then {m} else if pa = frame_of s m then owners s D pa - {m} else owners s D pa)" for pa
  proof (rule set_eqI)
    show "x \<in> owners s' D pa \<longleftrightarrow> x \<in> (if pa = p then {m} else if pa = frame_of s m then owners s D pa - {m} else owners s D pa)" for x
      using fr [of x] nf [of x] ok(2) by (cases "x = m") (auto simp: owners_def)
  qed
  have "entry_ok s' Rs D m'" if m': "m' \<in> D" for m'
  proof (cases "m' = m")
    case True
    then show ?thesis using entryD(1,2) [OF ok] fr [OF ok(2)] ent' [OF ok(2)] ow [of p] p fl pg refs(2) [OF p(1)] tab(2)
      by (simp add: entry_ok_def frame_ok_def)
  next
    case False
    note e = entryD [OF ok(1) m']
    have eq: "ent s' m' = ent s m'" "frame_of s' m' = frame_of s m'" using False ent' [OF m'] fr [OF m'] by simp_all
    have c: "ref_count (vm_refs s') (frame_of s m') = card (owners s' D (frame_of s m'))"
      using refs(2) [OF e(6)] ow [of "frame_of s m'"] nf [OF m'] e(10) owners_self [OF ok(2), of s] owners_fin [OF ok(1)]
      by (cases "frame_of s m' = frame_of s m") simp_all
    have "owners s' D (frame_of s m') = {m'}" if "writable (ent s m')"
      using e(5) [OF that] ow [of "frame_of s m'"] nf [OF m'] False ok(2) by (auto simp: owners_def)
    then show ?thesis using e eq c nf [OF m'] tab(2) pg f by (simp add: entry_ok_def frame_ok_def)
  qed
  moreover have "is_page x \<and> ref_count (vm_refs s') x = 0" if "x \<in> set ps" for x
    using that space_okD(4,5) [OF ok(1), of x] refs(2) [of x] entryD(8) [OF ok] f p(3) by auto
  ultimately show "space_ok s' Rs D" using tab(1) refs(1) pg(1) space_okD(2) [OF ok(1)] by (simp add: space_ok_def)
qed

text \<open>A page more on a frame that no page may write.\<close>

lemma space_add:
  assumes ok: "space_ok s Rs D" "m \<in> D" and n: "n \<notin> D" "fst n \<in> Rs" "snd n * PGSIZE < MAXVA"
    and ro: "\<not> writable (ent s m)"
    and ent': "\<And>m'. m' \<in> D \<Longrightarrow> ent s' m' = ent s m'" "ent s' n = pte_set (frame_of s m) fl"
    and tab: "tables_ok s' Rs" "tables s' Rs = tables s Rs"
    and fl: "flags_ok fl" "fl AND PTE_W = 0" "pte_is_v (ent s' n)" "readable (ent s' n)"
    and pg: "vm_free s' = vm_free s" "vm_page s' = vm_page s"
    and refs: "length (vm_refs s') = NPAGE" "\<And>pb. is_page pb \<Longrightarrow> ref_count (vm_refs s') pb =
      (if pb = frame_of s m then ref_count (vm_refs s) pb + 1 else ref_count (vm_refs s) pb)"
  shows "space_ok s' Rs (insert n D)" "m' \<in> D \<Longrightarrow> frame_of s' m' = frame_of s m'" "frame_of s' n = frame_of s m"
proof -
  note e = entryD [OF ok]
  show fr: "frame_of s' m' = frame_of s m'" if "m' \<in> D" for m' using ent'(1) [OF that] by (simp add: frame_of_def)
  show fn: "frame_of s' n = frame_of s m" using ent'(2) fl(1) is_page_addr [OF e(6)] by (simp add: frame_of_def)
  have ow: "owners s' (insert n D) pa = (if pa = frame_of s m then insert n (owners s D pa) else owners s D pa)" for pa
    using fr fn by (auto simp: owners_def)
  have nn: "n \<notin> owners s D pa" for pa using n(1) by (simp add: owners_def)
  have fo: "frame_ok s' Rs (insert n D) (frame_of s m')" if "m' \<in> D" for m'
    using entryD(6-10) [OF ok(1) that] refs(2) [OF entryD(6) [OF ok(1) that]] ow [of "frame_of s m'"] owners_fin [OF ok(1)] nn tab(2) pg
    by (cases "frame_of s m' = frame_of s m") (simp_all add: frame_ok_def)
  have "entry_ok s' Rs (insert n D) m'" if m': "m' \<in> D" for m'
  proof -
    have "owners s' (insert n D) (frame_of s m') = {m'}" if w: "writable (ent s m')"
    proof -
      have "owners s D (frame_of s m') = {m'}" using entryD(5) [OF ok(1) m' w] .
      moreover have "frame_of s m' \<noteq> frame_of s m" using calculation ok(2) ro w by (auto simp: owners_def)
      ultimately show ?thesis using ow by simp
    qed
    then show ?thesis using entryD(1-3,11) [OF ok(1) m'] ent'(1) [OF m'] fr [OF m'] fo [OF m'] by (simp add: entry_ok_def)
  qed
  moreover have "entry_ok s' Rs (insert n D) n"
    using n fn fl fo [OF ok(2)] ent'(2) by (simp add: entry_ok_def writable_def)
  moreover have "is_page x \<and> ref_count (vm_refs s') x = 0" if "x \<in> set (vm_free s)" for x
    using that space_okD(4,5) [OF ok(1), of x] refs(2) [of x] e(8) by auto
  ultimately show "space_ok s' Rs (insert n D)" using tab(1) refs(1) pg(1) space_okD(2) [OF ok(1)] by (simp add: space_ok_def)
qed

text \<open>A page less on its frame, which is free when it was the last one.\<close>

lemma space_remove:
  assumes ok: "space_ok s Rs D" "m \<in> D"
    and ent': "\<And>m'. m' \<in> D \<Longrightarrow> m' \<noteq> m \<Longrightarrow> ent s' m' = ent s m'"
    and tab: "tables_ok s' Rs" "tables s' Rs = tables s Rs"
    and pg: "vm_free s' = (if ref_count (vm_refs s) (frame_of s m) = 1 then [frame_of s m] else []) @ vm_free s" "vm_page s' = vm_page s"
    and refs: "length (vm_refs s') = NPAGE" "\<And>pb. is_page pb \<Longrightarrow> ref_count (vm_refs s') pb =
      (if pb = frame_of s m then ref_count (vm_refs s) pb - 1 else ref_count (vm_refs s) pb)"
  shows "space_ok s' Rs (D - {m})" "m' \<in> D \<Longrightarrow> m' \<noteq> m \<Longrightarrow> frame_of s' m' = frame_of s m'"
proof -
  note e = entryD [OF ok]
  show fr: "frame_of s' m' = frame_of s m'" if "m' \<in> D" "m' \<noteq> m" for m' using ent' [OF that] by (simp add: frame_of_def)
  have ow: "owners s' (D - {m}) pa = owners s D pa - {m}" for pa using fr by (auto simp: owners_def)
  have "entry_ok s' Rs (D - {m}) m'" if m': "m' \<in> D" "m' \<noteq> m" for m'
  proof -
    note e' = entryD [OF ok(1) m'(1)]
    have "ref_count (vm_refs s) (frame_of s m) \<noteq> 1" if "frame_of s m' = frame_of s m"
      using that e(10) m' ok(2) owners_self [OF m'(1), of s] owners_self [OF ok(2), of s] by (auto simp: card_1_singleton_iff)
    then have free: "frame_of s m' \<notin> set (vm_free s')" using e'(8) pg(1) by auto
    have "m \<in> owners s D (frame_of s m') \<longleftrightarrow> frame_of s m' = frame_of s m" using ok(2) by (auto simp: owners_def)
    then have "card (owners s D (frame_of s m') - {m}) = ref_count (vm_refs s') (frame_of s m')"
      using refs(2) [OF e'(6)] e'(10) e(10) owners_fin [OF ok(1)] by (simp add: card_Diff_singleton_if)
    then show ?thesis using e' free ent' [OF m'] fr [OF m'] ow [of "frame_of s m'"] m'(2) tab(2) pg(2)
      by (auto simp: entry_ok_def frame_ok_def)
  qed
  moreover have "is_page x \<and> ref_count (vm_refs s') x = 0" if "x \<in> set (vm_free s')" for x
    using that space_okD(4,5) [OF ok(1), of x] refs(2) [of x] e(6,8) pg(1) by (auto split: if_splits)
  ultimately show "space_ok s' Rs (D - {m})" using tab(1) refs(1) space_okD(2) [OF ok(1)] by (simp add: space_ok_def)
qed

section \<open>The operations\<close>

text \<open>Dropping a frame.\<close>

lemma drop_page_ok:
  assumes "length (vm_refs s) = NPAGE" "is_page pa" "ref_count (vm_refs s) pa \<noteq> 0"
  shows "\<exists>refs. drop_page pa s = (Ok (), s\<lparr>vm_refs := refs,
      vm_free := (if ref_count (vm_refs s) pa = 1 then [pa] else []) @ vm_free s\<rparr>) \<and> length refs = NPAGE \<and>
    (\<forall>pb. is_page pb \<longrightarrow> ref_count refs pb = (if pb = pa then ref_count (vm_refs s) pa - 1 else ref_count (vm_refs s) pb))"
proof -
  obtain v refs where d: "page_ref_dec (vm_refs s) pa = Ok (v, refs)" "length refs = NPAGE" "unat v = ref_count (vm_refs s) pa - 1"
    "\<forall>pb. is_page pb \<longrightarrow> ref_count refs pb = (if pb = pa then ref_count (vm_refs s) pa - 1 else ref_count (vm_refs s) pb)"
    using page_ref_dec_ok [OF assms(1,2)] assms(3) by auto
  have "v = 0 \<longleftrightarrow> ref_count (vm_refs s) pa = 1" using d(3) assms(3) unat_eq_0 [of v] by auto
  then show ?thesis using d by (intro exI [of _ refs]) (simp add: drop_page_def page_free_def)
qed

text \<open>What every operation keeps: the private pages keep their contents and the rights on them.\<close>

definition same_pages :: "upage set \<Rightarrow> vmem \<Rightarrow> vmem \<Rightarrow> bool" where
  "same_pages D s s' \<longleftrightarrow> (\<forall>m \<in> D. page_of s' m = page_of s m \<and> uperm (ent s' m) = uperm (ent s m))"

lemma walk_entry:
  assumes "space_ok s Rs D" "(r, v) \<in> D"
  shows "\<exists>t. walk r (v * PGSIZE) False s = (Ok (Some (t, px 0 (v * PGSIZE))), s) \<and> get_pte (t, px 0 (v * PGSIZE)) s = ent s (r, v) \<and>
    table_at s r (leaf_at (v * PGSIZE)) = Some t"
  using entry_at [OF assms] entryD(2) [OF assms] by (auto simp: walk_lookup)

text \<open>Resolving copy-on-write keeps all contents and gives the page a writable frame of its own.\<close>

lemma resolve_cow_ok:
  assumes ok: "space_ok s Rs D" "(r, v) \<in> D" and va: "page_down va = v * PGSIZE" and res: "resolve_cow r va s = (res, s')"
  shows "space_ok s' Rs D \<and> same_pages D s s' \<and> res \<noteq> Panic \<and> (res = Ok () \<longrightarrow> writable (ent s' (r, v))) \<and>
    (\<forall>e. res = Err e \<longrightarrow> e = BadVirtAddr \<and> (writable (ent s (r, v)) \<or> uperm (ent s (r, v)) \<noteq> (True, True)) \<or> e = OutOfMemory \<and> vm_free s = []) \<and>
    length (vm_free s) \<le> length (vm_free s') + 1 \<and> (\<forall>r \<in> Rs. \<forall>p. table_at s' r p = table_at s r p)"
proof -
  let ?m = "(r, v)"
  let ?pa = "frame_of s ?m" and ?f = "cow_flags (pte_flags (ent s ?m))"
  note e = entryD [OF ok]
  obtain t where t: "walk r (v * PGSIZE) False s = (Ok (Some (t, px 0 (v * PGSIZE))), s)" "get_pte (t, px 0 (v * PGSIZE)) s = ent s ?m"
    "table_at s r (leaf_at (v * PGSIZE)) = Some t"
    using walk_entry [OF ok] by auto
  note R = res [unfolded resolve_cow_def va Let_def t(1) prod.case outcome.case option.case t(2), folded frame_of_def]
  have same_refl: "same_pages D s s" by (simp add: same_pages_def)
  let ?bad = "\<not> pte_is_u (ent s ?m) \<or> pte_flags (ent s ?m) AND PTE_COW = 0 \<or> pte_flags (ent s ?m) AND PTE_W \<noteq> 0"
  show ?thesis
  proof (cases ?bad)
    case True
    then have "res = Err BadVirtAddr" "s' = s" using R e(3,4) by (auto split: if_splits)
    then show ?thesis using ok(1) same_refl True by (auto simp: uperm_def writable_def)
  next
    case False
    obtain n where n: "page_ref_get (vm_refs s) ?pa = Ok n" "unat n = card (owners s D ?pa)"
      using page_ref_get_ok [OF space_okD(3) [OF ok(1)] e(6)] e(10) by auto
    have fl: "flags_ok ?f" "pte_is_v (pte_set p ?f)" "readable (pte_set p ?f)" "writable (pte_set p ?f)" "uperm (pte_set p ?f) = uperm (ent s ?m)" for p
      using e(3,11) False by (simp_all add: pte_bit_simps uperm_bits)
    show ?thesis
    proof (cases "n = 1")
      case True
      then have s': "res = Ok ()" "s' = set_pte (t, px 0 (v * PGSIZE)) (pte_set ?pa ?f) s"
        using R e(3,4) n(1) False by simp_all
      have one: "owners s D ?pa = {?m}" using n(2) True owners_one [OF ok(2), of s] by simp
      note rt = space_retag [OF ok, simplified, OF t(3) fl(1-3) one s'(2)]
      note se = set_entry [OF space_okD(1) [OF ok(1)] e(1,2), simplified, OF t(3) s'(2)]
      have "same_pages D s s'"
        using rt(2) se(3,4) entryD(1,2) [OF ok(1)] fl(5) False by (auto simp: same_pages_def page_of_def)
      then show ?thesis using rt(1) se(3,6,7) e(1,2) fl(4) s'(1) by auto
    next
      case many: False
      show ?thesis
      proof (cases "vm_free s")
        case Nil
        then have "res = Err OutOfMemory" "s' = s" using R e(3,4) n(1) False many by (simp_all add: page_new_def)
        then show ?thesis using ok(1) same_refl Nil by simp
      next
        case (Cons p ps)
        then obtain refs where refs: "page_ref_init (vm_refs s) p = Ok refs" "length refs = NPAGE"
          "\<And>pb. is_page pb \<Longrightarrow> ref_count refs pb = (if pb = p then 1 else ref_count (vm_refs s) pb)"
          using page_ref_init_ok [OF space_okD(3-5) [OF ok(1)], of p] by auto
        let ?s1 = "s\<lparr>vm_free := ps, vm_page := (vm_page s)(p := vm_page s ?pa), vm_refs := refs\<rparr>"
        let ?s2 = "set_pte (t, px 0 (v * PGSIZE)) (pte_set p ?f) ?s1"
        have np: "?pa \<noteq> p" using e(8) Cons by auto
        have r': "(res, s') = drop_page ?pa ?s2" using R e(3,4) n(1) False many Cons refs(1) np by (simp add: page_new_def)
        have tok: "tables_ok ?s1 Rs" using tables_okD(3) [OF space_okD(1) [OF ok(1)]] Cons by (intro tables_ok_cong [OF space_okD(1) [OF ok(1)], of _ "{}"]) auto
        have t1: "table_at ?s1 r (leaf_at (v * PGSIZE)) = Some t" using t(3) by (simp add: table_at_cong [of ?s1 s])
        note se = set_entry [OF tok e(1,2), simplified, OF t1 refl]
        have len: "length (vm_refs ?s2) = NPAGE" "vm_refs ?s2 = refs" using refs(2) by (simp_all add: se)
        have n1: "card (owners s D ?pa) \<noteq> 1" "card (owners s D ?pa) \<noteq> 0"
          using n(2) many owners_pos [OF ok] by (auto simp: word_unat_eq_iff)
        then have c: "ref_count refs ?pa \<noteq> 0" "ref_count refs ?pa \<noteq> 1" "ref_count refs ?pa = ref_count (vm_refs s) ?pa"
          using refs(3) [OF e(6)] np e(10) by auto
        obtain refs' where d: "s' = ?s2\<lparr>vm_refs := refs', vm_free := ps\<rparr>" "res = Ok ()" "length refs' = NPAGE"
          "\<And>pb. is_page pb \<Longrightarrow> ref_count refs' pb = (if pb = ?pa then ref_count refs ?pa - 1 else ref_count refs pb)"
          using drop_page_ok [OF len(1) e(6)] r' c len(2) se(6) by auto
        have pt: "vm_pte s' = vm_pte ?s2" "vm_free s' = ps" "vm_page s' = (vm_page s)(p := vm_page s ?pa)" "vm_refs s' = refs'"
          using se(4) by (simp_all add: d(1))
        have ent': "ent s' m' = (if m' = ?m then pte_set p ?f else ent s m')" if "m' \<in> D" for m'
          using se(3) [OF entryD(1,2) [OF ok(1) that]] ent_cong [OF pt(1)] ent_cong [of ?s1 s] by simp
        have tab: "tables_ok s' Rs" "tables s' Rs = tables s Rs" "\<And>r p. r \<in> Rs \<Longrightarrow> table_at s' r p = table_at s r p"
          using tables_ok_cong [OF se(1) pt(1), of "{}"] tables_okD(3) [OF tok] se(2,6,7) tables_cong [OF pt(1)] table_at_cong [OF pt(1)]
            tables_cong [of ?s1 s] table_at_cong [of ?s1 s] pt(2) by auto
        have many': "owners s D ?pa \<noteq> {?m}" using n1(1) owners_one [OF ok(2)] by simp
        have refs': "ref_count (vm_refs s') pb = (if pb = p then 1 else if pb = ?pa then ref_count (vm_refs s) pb - 1 else ref_count (vm_refs s) pb)"
          if "is_page pb" for pb using d(4) [OF that] refs(3) [OF that] c(3) np pt(4) by auto
        note sw = space_swap [OF ok Cons many' ent' tab(1,2) fl(1-3) pt(2,3) e(9) _ refs']
        have ok': "space_ok s' Rs D" using sw(1) d(3) pt(4) by simp
        have "same_pages D s s'" using sw(2) d(3) pt(3,4) ent' fl(5) False entryD(8) [OF ok(1)] Cons
          by (auto simp: same_pages_def page_of_def)
        then show ?thesis using ok' tab(3) d(2) ent' [OF ok(2)] fl(4) pt(2) Cons by simp
      qed
    qed
  qed
qed

section \<open>User memory\<close>

text \<open>The number of pages of a size.\<close>

definition npg :: "nat \<Rightarrow> nat" where
  "npg n = page_up n div PGSIZE"

lemma npg: "v * PGSIZE < n \<longleftrightarrow> v < npg n" "page_up n = npg n * PGSIZE" "npg (v * PGSIZE) = v"
proof -
  have u: "page_up n = npg n * PGSIZE" "npg n = (n + 4095) div 4096" for n by (simp_all add: npg_def page_up_def PGSIZE_def)
  then show "page_up n = npg n * PGSIZE" by simp
  show "npg (v * PGSIZE) = v" using u(2) [of "v * PGSIZE"] by (simp add: PGSIZE_def)
  have "v * 4096 < n \<longleftrightarrow> Suc v * 4096 \<le> n + 4095" by (simp add: Suc_le_eq)
  also have "\<dots> \<longleftrightarrow> Suc v \<le> (n + 4095) div 4096" by (rule less_eq_div_iff_mult_less_eq [symmetric]) simp
  finally show "v * PGSIZE < n \<longleftrightarrow> v < npg n" by (simp add: u(2) PGSIZE_def Suc_le_eq)
qed

definition umem :: "vmem \<Rightarrow> nat \<Rightarrow> nat \<Rightarrow> byte" where
  "umem s r a = page_of s (r, a div PGSIZE) ! (a mod PGSIZE)"

lemma space_write:
  assumes ok: "space_ok s Rs D" "m \<in> D" and w: "writable (ent s m)" and bs: "length bs = PGSIZE"
    and s': "s' = s\<lparr>vm_page := (vm_page s)(frame_of s m := bs)\<rparr>"
  shows "space_ok s' Rs D" "m' \<in> D \<Longrightarrow> page_of s' m' = (if m' = m then bs else page_of s m')" "ent s' m' = ent s m'"
proof -
  have pt: "vm_pte s' = vm_pte s" "vm_free s' = vm_free s" "vm_refs s' = vm_refs s" by (simp_all add: s')
  show ent: "ent s' m' = ent s m'" for m' using ent_cong [OF pt(1)] .
  then have fr: "frame_of s' m' = frame_of s m'" for m' by (simp add: frame_of_def)
  have ow: "owners s' D pa = owners s D pa" for pa using fr by (simp add: owners_def)
  have "tables_ok s' Rs" using tables_ok_cong [OF space_okD(1) [OF ok(1)] pt(1), of "{}"] tables_okD(3) [OF space_okD(1) [OF ok(1)]] pt(2) by simp
  moreover have "entry_ok s' Rs D m'" if "m' \<in> D" for m'
    using entryD [OF ok(1) that] ent fr ow pt(2,3) tables_cong [OF pt(1)] bs by (auto simp: entry_ok_def frame_ok_def s')
  ultimately show "space_ok s' Rs D" using ok(1) pt(2,3) by (simp add: space_ok_def)
  assume m': "m' \<in> D"
  have "frame_of s m' = frame_of s m \<longleftrightarrow> m' = m" using entryD(5) [OF ok w] m' by (auto simp: owners_def)
  then show "page_of s' m' = (if m' = m then bs else page_of s m')" using fr by (simp add: page_of_def s')
qed

lemma walkaddr_ok:
  assumes "space_ok s Rs D" "(r, v) \<in> D"
  shows "walkaddr r (v * PGSIZE) s = (if pte_is_u (ent s (r, v)) then Ok (frame_of s (r, v)) else Err BadVirtAddr)"
proof -
  obtain t where "walk r (v * PGSIZE) False s = (Ok (Some (t, px 0 (v * PGSIZE))), s)" "get_pte (t, px 0 (v * PGSIZE)) s = ent s (r, v)"
    using walk_entry [OF assms] by auto
  then show ?thesis using entryD(2,3) [OF assms] by (simp add: walkaddr_def frame_of_def)
qed

text \<open>One page of \<^verbatim>\<open>copyout\<close>: it fails and keeps all contents, or the page gets a writable frame
  of its own, is written and the copy goes on.\<close>

lemma copyout_step:
  assumes ok: "space_ok s Rs D" "(r, dst div PGSIZE) \<in> D" and src: "src \<noteq> []"
  defines "v \<equiv> dst div PGSIZE" and "n \<equiv> min (PGSIZE - dst mod PGSIZE) (length src)"
  shows "\<exists>s2. space_ok s2 Rs D \<and> same_pages D s s2 \<and>
    ((\<exists>e. copyout r dst src s = (Err e, s2) \<and> (e = BadVirtAddr \<and> uperm (ent s (r, v)) \<noteq> (True, True) \<or> e = OutOfMemory \<and> vm_free s = [])) \<or>
     length (vm_free s) \<le> length (vm_free s2) + 1 \<and> writable (ent s2 (r, v)) \<and> pte_is_u (ent s2 (r, v)) \<and>
     copyout r dst src s = copyout r (v * PGSIZE + PGSIZE) (drop n src)
       (s2\<lparr>vm_page := (vm_page s2)(frame_of s2 (r, v) := patch (dst mod PGSIZE) (take n src) (page_of s2 (r, v)))\<rparr>))"
proof -
  have v: "page_down dst = v * PGSIZE" "dst - v * PGSIZE = dst mod PGSIZE" "page_down (v * PGSIZE) = v * PGSIZE"
    by (simp_all add: page_down_def v_def minus_div_mult_eq_mod PGSIZE_def)
  have m: "(r, v) \<in> D" using ok(2) by (simp add: v_def)
  note e = entryD [OF ok(1) m]
  obtain t where t: "walk r (v * PGSIZE) False s = (Ok (Some (t, px 0 (v * PGSIZE))), s)" "get_pte (t, px 0 (v * PGSIZE)) s = ent s (r, v)"
    "table_at s r (leaf_at (v * PGSIZE)) = Some t"
    using walk_entry [OF ok(1) m] by auto
  define go where "go s2 = copyout r (v * PGSIZE + PGSIZE) (drop n src)
       (s2\<lparr>vm_page := (vm_page s2)(frame_of s2 (r, v) := patch (dst mod PGSIZE) (take n src) (page_of s2 (r, v)))\<rparr>)" for s2
  note C = copyout.simps [of r dst src s, unfolded Let_def v(1,2) n_def [symmetric] t(1) prod.case outcome.case option.case t(2)]
  have same: "same_pages D s s" by (simp add: same_pages_def)
  have ready: "(if pte_flags (get_pte (t, px 0 (v * PGSIZE)) s2) AND PTE_W = 0 then (Err BadVirtAddr, s2)
      else case walkaddr r (v * PGSIZE) s2 of
          Ok pa0 \<Rightarrow> copyout r (v * PGSIZE + PGSIZE) (drop n src)
            (s2\<lparr>vm_page := (vm_page s2)(pa0 := patch (dst mod PGSIZE) (take n src) (vm_page s2 pa0))\<rparr>)
        | Err e \<Rightarrow> (Err e, s2) | Panic \<Rightarrow> (Panic, s2)) = go s2"
    if "space_ok s2 Rs D" "table_at s2 r (leaf_at (v * PGSIZE)) = Some t" "writable (ent s2 (r, v))" "pte_is_u (ent s2 (r, v))" for s2
    using that walkaddr_ok [OF that(1) m] by (simp add: go_def ent_def xlate_def writable_def page_of_def)
  show ?thesis
  proof (cases "\<not> pte_is_u (ent s (r, v)) \<or> (pte_flags (ent s (r, v)) AND PTE_W = 0 \<and> pte_flags (ent s (r, v)) AND PTE_COW = 0)")
    case True
    then have "copyout r dst src s = (Err BadVirtAddr, s)" using C src e(3,4) by auto
    then show ?thesis using ok(1) same True by (auto simp: uperm_def writable_def)
  next
    case F: False
    show ?thesis
    proof (cases "writable (ent s (r, v))")
      case True
      then have "copyout r dst src s = go s" using C src e(3,4) F ready [OF ok(1) t(3) True] t(2) by (simp add: writable_def)
      then show ?thesis using ok(1) same True F by (auto simp: go_def)
    next
      case False
      obtain res s2 where r2: "resolve_cow r (v * PGSIZE) s = (res, s2)" by fastforce
      note rc = resolve_cow_ok [OF ok(1) m v(3) r2]
      have u2: "pte_is_u (ent s2 (r, v))" using rc F m by (auto simp: same_pages_def uperm_def)
      have C': "copyout r dst src s = (case (res, s2) of (Ok _, s2) \<Rightarrow> go s2 | (Err e, s2) \<Rightarrow> (Err e, s2) | (Panic, s2) \<Rightarrow> (Panic, s2))"
        using C src e(1,3,4) F False r2 ready [of s2] rc t(3) u2 by (cases res) (auto simp: writable_def)
      moreover have "uperm (ent s (r, v)) = (True, True)" using F by (auto simp: uperm_def writable_def)
      ultimately show ?thesis using rc u2 False by (cases res) (auto simp: go_def)
    qed
  qed
qed

definition covered :: "upage set \<Rightarrow> nat \<Rightarrow> nat \<Rightarrow> nat \<Rightarrow> bool" where
  "covered D r a n \<longleftrightarrow> (\<forall>i < n. (r, (a + i) div PGSIZE) \<in> D)"

text \<open>Writing part of a page.\<close>

lemma umem_write:
  assumes ok: "space_ok s Rs D" "(r, v) \<in> D" "writable (ent s (r, v))"
    and dst: "dst = v * PGSIZE + off" "off < PGSIZE" "off + length xs \<le> PGSIZE"
    and s': "s' = s\<lparr>vm_page := (vm_page s)(frame_of s (r, v) := patch off xs (page_of s (r, v)))\<rparr>"
  shows "space_ok s' Rs D" "ent s' m = ent s m" "(r', a div PGSIZE) \<in> D \<Longrightarrow>
    umem s' r' a = (if r' = r \<and> dst \<le> a \<and> a < dst + length xs then xs ! (a - dst) else umem s r' a)"
proof -
  have len: "length (page_of s (r, v)) = PGSIZE" using entryD(9) [OF ok(1,2)] by (simp add: page_of_def)
  then have lp: "length (patch off xs (page_of s (r, v))) = PGSIZE" using dst(3) by simp
  note sw = space_write [OF ok lp s']
  show "space_ok s' Rs D" "ent s' m = ent s m" using sw(1,3) by auto
  assume a: "(r', a div PGSIZE) \<in> D"
  obtain w i where wi0: "a div PGSIZE = w" "a mod PGSIZE = i" by blast
  then have wi: "a div PGSIZE = w" "a mod PGSIZE = i" "a = w * PGSIZE + i" "i < PGSIZE"
    using div_mult_mod_eq [of a PGSIZE] mod_less_divisor [of PGSIZE a] by (simp_all add: PGSIZE_def)
  have pos: "0 < PGSIZE" by (simp add: PGSIZE_def)
  show "umem s' r' a = (if r' = r \<and> dst \<le> a \<and> a < dst + length xs then xs ! (a - dst) else umem s r' a)"
  proof (cases "r' = r \<and> w = v")
    case True
    then have "dst \<le> a \<longleftrightarrow> off \<le> i" "a < dst + length xs \<longleftrightarrow> i < off + length xs" "a - dst = i - off" using dst(1) wi(3) by auto
    then show ?thesis using True wi sw(2) [OF a] len dst(3) by (simp add: umem_def nth_patch)
  next
    case False
    have "w = v" if "dst \<le> a" "a < dst + length xs"
    proof -
      have "v * PGSIZE < (w + 1) * PGSIZE" "w * PGSIZE < (v + 1) * PGSIZE" using that dst wi(3,4) by (simp_all add: algebra_simps)
      then have "v < w + 1" "w < v + 1" using pos by (simp_all only: mult_less_cancel2)
      then show ?thesis by simp
    qed
    then have "\<not> (r' = r \<and> dst \<le> a \<and> a < dst + length xs)" using False by blast
    moreover have "page_of s' (r', a div PGSIZE) = page_of s (r', a div PGSIZE)" using False wi(1) sw(2) [OF a] by auto
    ultimately show ?thesis by (auto simp: umem_def)
  qed
qed

lemma copyout_ok:
  assumes "space_ok s Rs D" "covered D r dst (length src)" "copyout r dst src s = (res, s')"
  shows "space_ok s' Rs D \<and> res \<noteq> Panic \<and> (\<forall>m \<in> D. uperm (ent s' m) = uperm (ent s m)) \<and>
    (\<forall>r' a. (r', a div PGSIZE) \<in> D \<longrightarrow> \<not> (r' = r \<and> dst \<le> a \<and> a < dst + length src) \<longrightarrow> umem s' r' a = umem s r' a) \<and>
    (res = Ok () \<longrightarrow> (\<forall>i < length src. umem s' r (dst + i) = src ! i \<and> pte_is_u (ent s (r, (dst + i) div PGSIZE)))) \<and>
    (\<forall>e. res = Err e \<longrightarrow> e = BadVirtAddr \<and> (\<exists>i < length src. uperm (ent s (r, (dst + i) div PGSIZE)) \<noteq> (True, True)) \<or> 
      e = OutOfMemory \<and> length (vm_free s) < npg (dst + length src) - dst div PGSIZE)"
  using assms
proof (induction "length src" arbitrary: src dst s rule: less_induct)
  case less
  show ?case
  proof (cases "src = []")
    case True
    then show ?thesis using less.prems copyout.simps [of r dst src s] by auto
  next
    case False
    obtain v off n where v: "v = dst div PGSIZE" "off = dst mod PGSIZE" "n = min (PGSIZE - off) (length src)" by blast
    have o: "off < PGSIZE" "dst = v * PGSIZE + off" using div_mult_mod_eq [of dst PGSIZE] by (simp_all add: v PGSIZE_def)
    have n: "0 < n" "n \<le> length src" "off + n \<le> PGSIZE" "n < length src \<Longrightarrow> v * PGSIZE + PGSIZE = dst + n" using o False by (auto simp: v(3) min_def)
    have m: "(r, v) \<in> D" using less.prems(2) False by (auto simp: covered_def v(1))
    define w where "w s2 = s2\<lparr>vm_page := (vm_page s2)(frame_of s2 (r, v) := patch off (take n src) (page_of s2 (r, v)))\<rparr>" for s2
    obtain s2 where s2: "space_ok s2 Rs D" "same_pages D s s2" and alt: "(\<exists>e. copyout r dst src s = (Err e, s2) \<and>
          (e = BadVirtAddr \<and> uperm (ent s (r, v)) \<noteq> (True, True) \<or> e = OutOfMemory \<and> vm_free s = [])) \<or>
        length (vm_free s) \<le> length (vm_free s2) + 1 \<and> writable (ent s2 (r, v)) \<and> pte_is_u (ent s2 (r, v)) \<and> copyout r dst src s = copyout r (v * PGSIZE + PGSIZE) (drop n src) (w s2)"
      using copyout_step [OF less.prems(1) m [unfolded v(1)] False, folded v(1,2), folded v(3), folded w_def] by blast
    have um: "umem s2 r' a = umem s r' a" if "(r', a div PGSIZE) \<in> D" for r' a using s2(2) that by (simp add: umem_def same_pages_def)
    show ?thesis
    proof (cases "\<exists>e. copyout r dst src s = (Err e, s2) \<and> (e = BadVirtAddr \<and> uperm (ent s (r, v)) \<noteq> (True, True) \<or> e = OutOfMemory \<and> vm_free s = [])")
      case True
      moreover have "v < npg (dst + length src)" using npg(1) [of v "dst + length src"] o(2) False by (simp add: trans_less_add1)
      ultimately show ?thesis using s2 um less.prems(3) False by (auto simp: same_pages_def v(1) intro!: exI [of _ 0])
    next
      case go: False
      then have g: "writable (ent s2 (r, v))" "pte_is_u (ent s2 (r, v))" "copyout r (v * PGSIZE + PGSIZE) (drop n src) (w s2) = (res, s')"
          "length (vm_free s) \<le> length (vm_free s2) + 1"
        using alt less.prems(3) by auto
      have tl: "off + length (take n src) \<le> PGSIZE" using n(2,3) by simp
      note uw = umem_write [OF s2(1) m g(1) o(2,1) tl w_def [of s2]]
      have cov: "covered D r (v * PGSIZE + PGSIZE) (length (drop n src))"
        using less.prems(2) n(4) by (cases "n < length src") (auto simp: covered_def add.assoc)
      have dec: "length (drop n src) < length src" using n(1) False by simp
      note IH = less.hyps [OF dec uw(1) cov g(3)]
      have ui: "uperm (ent (w s2) m) = uperm (ent s m)" if "m \<in> D" for m using uw(2) s2(2) that by (simp add: same_pages_def)
      have out: "umem s' r' a = umem s r' a" if a: "(r', a div PGSIZE) \<in> D" "\<not> (r' = r \<and> dst \<le> a \<and> a < dst + length src)" for r' a
        using IH uw(3) [OF a(1)] um [OF a(1)] a n(2,4) by (cases "n < length src") auto
      have ins: "umem s' r (dst + i) = src ! i \<and> pte_is_u (ent s (r, (dst + i) div PGSIZE))" if r: "res = Ok ()" and i: "i < length src" for i
      proof (cases "i < n")
        case True
        have c: "(r, (dst + i) div PGSIZE) \<in> D" using less.prems(2) i by (simp add: covered_def)
        have "(dst + i) div PGSIZE = v" using True n(3) o by (simp add: div_nat_eqI)
        moreover have "umem s' r (dst + i) = umem (w s2) r (dst + i)" using IH c True n(4) by (cases "n < length src") auto
        ultimately show ?thesis using uw(3) [OF c] True n(2) g(2) ui [OF m] uw(2) by (simp add: uperm_def)
      next
        case F: False
        then have "v * PGSIZE + PGSIZE + (i - n) = dst + i" "i - n < length (drop n src)" using n(4) i by auto
        moreover from this have "umem s' r (v * PGSIZE + PGSIZE + (i - n)) = drop n src ! (i - n)"
          "pte_is_u (ent (w s2) (r, (v * PGSIZE + PGSIZE + (i - n)) div PGSIZE))" using IH r by blast+
        moreover have "(r, (dst + i) div PGSIZE) \<in> D" using less.prems(2) i by (simp add: covered_def)
        ultimately show ?thesis using ui F i by (simp add: uperm_def)
      qed
      have bad: "\<exists>i < length src. uperm (ent s (r, (dst + i) div PGSIZE)) \<noteq> (True, True)"
        if x: "\<exists>i < length (drop n src). uperm (ent (w s2) (r, (v * PGSIZE + PGSIZE + i) div PGSIZE)) \<noteq> (True, True)"
      proof -
        obtain i where i: "i < length (drop n src)" "uperm (ent (w s2) (r, (v * PGSIZE + PGSIZE + i) div PGSIZE)) \<noteq> (True, True)" using x by blast
        then have eq: "v * PGSIZE + PGSIZE + i = dst + (n + i)" "n + i < length src" using n(4) by auto
        moreover have "(r, (dst + (n + i)) div PGSIZE) \<in> D" using less.prems(2) eq(2) by (simp add: covered_def)
        ultimately show ?thesis using i(2) ui unfolding eq(1) by (intro exI [of _ "n + i"]) auto
      qed
      have oom: "length (vm_free s) < npg (dst + length src) - dst div PGSIZE"
        if x: "length (vm_free (w s2)) < npg (v * PGSIZE + PGSIZE + length (drop n src)) - (v * PGSIZE + PGSIZE) div PGSIZE"
      proof (cases "n < length src")
        case True
        have "(v * PGSIZE + PGSIZE) div PGSIZE = Suc v" by (simp add: PGSIZE_def)
        moreover have "v * PGSIZE + PGSIZE + length (drop n src) = dst + length src" using n(2) n(4) [OF True] by simp
        ultimately show ?thesis using x g(4) unfolding v(1) by (simp add: w_def)
      next
        case F: False
        have "npg (Suc v * PGSIZE) = (v * PGSIZE + PGSIZE) div PGSIZE" unfolding npg(3) by (simp add: PGSIZE_def)
        then show ?thesis using x F by (simp add: add.commute)
      qed
      have "space_ok s' Rs D" "res \<noteq> Panic" "\<forall>m \<in> D. uperm (ent s' m) = uperm (ent s m)" using IH ui by auto
      moreover have "\<forall>e. res = Err e \<longrightarrow> e = BadVirtAddr \<and> (\<exists>i < length src. uperm (ent s (r, (dst + i) div PGSIZE)) \<noteq> (True, True)) \<or>
          e = OutOfMemory \<and> length (vm_free s) < npg (dst + length src) - dst div PGSIZE" using IH bad oom by blast
      ultimately show ?thesis using out ins by blast
    qed
  qed
qed

end
