(* ===== verification/Uvm_Size.thy ===== *)
theory Uvm_Size
  imports Cow
begin

text \<open>
  The size of an address space: mapping and unmapping pages, and growing and shrinking it. Each
  operation keeps the invariant and the contents of the pages that stay; a failed growth gives back what
  it had taken.
\<close>

unbundle bit_operations_syntax

section \<open>Mapping one page\<close>

lemma page_down_last: "v * PGSIZE < MAXVA \<Longrightarrow> page_down ((v * PGSIZE + PGSIZE - 1) mod 2 ^ 64) = v * PGSIZE"
proof -
  assume "v * PGSIZE < MAXVA"
  then have "(v * PGSIZE + PGSIZE - 1) mod 2 ^ 64 = v * PGSIZE + (PGSIZE - 1)" by (simp add: MAXVA_def PGSIZE_def)
  moreover have "(v * PGSIZE + (PGSIZE - 1)) div PGSIZE = v" by (simp add: PGSIZE_def)
  ultimately show ?thesis by (simp add: page_down_def)
qed

lemma map_page:
  assumes ok: "tables_ok s Rs" "r \<in> Rs" and va: "v * PGSIZE < MAXVA" and new: "\<not> pte_is_v (ent s (r, v))"
    and m: "mappages r (v * PGSIZE) pa PGSIZE perm s = (res, s')"
  shows "res = Err OutOfMemory \<and> grown Rs s s' \<and> length (vm_free s) < 2 \<or>
    res = Ok () \<and> (\<exists>s1 t. grown Rs s s1 \<and> table_at s1 r (leaf_at (v * PGSIZE)) = Some t \<and>
      s' = set_pte (t, px 0 (v * PGSIZE)) (pte_set pa (perm OR PTE_V)) s1)"
proof -
  obtain o1 s1 where w: "walk r (v * PGSIZE) True s = (o1, s1)" by fastforce
  note wc = walk_create [OF ok va w]
  have pd: "page_down (v * PGSIZE) = v * PGSIZE" by (simp add: page_down_def PGSIZE_def)
  have M: "map_loop r (v * PGSIZE) (v * PGSIZE) pa perm s = (res, s')"
    using m va page_down_last [OF va] pd by (simp add: mappages_def PGSIZE_def)
  obtain loc where o1: "o1 = Ok loc" using wc(2) by auto
  show ?thesis
  proof (cases loc)
    case None
    then show ?thesis using M w o1 va wc(1,3) by (auto simp: map_loop.simps [of r "v * PGSIZE"])
  next
    case (Some l)
    then obtain t where t: "l = (t, px 0 (v * PGSIZE))" "table_at s1 r (leaf_at (v * PGSIZE)) = Some t" using wc(4) o1 by auto
    then have "get_pte l s1 = ent s (r, v)" using grownD(2) [OF wc(1) ok(2), of "v * PGSIZE"] by (simp add: ent_def xlate_def)
    then have "res = Ok ()" "s' = set_pte l (pte_set pa (perm OR PTE_V)) s1" using M w o1 Some va new by (auto simp: map_loop.simps [of r "v * PGSIZE"] Let_def)
    then show ?thesis using wc(1) t by blast
  qed
qed

section \<open>Unmapping\<close>

lemma unmap_step:
  assumes ok: "space_ok s Rs D" "(r, v) \<in> D"
  shows "\<exists>s'. unmap_loop r (v * PGSIZE) (Suc n) True s = unmap_loop r (Suc v * PGSIZE) n True s' \<and>
    space_ok s' Rs (D - {(r, v)}) \<and> same_pages (D - {(r, v)}) s s' \<and> \<not> pte_is_v (ent s' (r, v)) \<and>
    (\<forall>m. fst m \<in> Rs \<longrightarrow> snd m * PGSIZE < MAXVA \<longrightarrow> m \<noteq> (r, v) \<longrightarrow> ent s' m = ent s m)"
proof -
  note e = entryD [OF ok]
  let ?l = "px 0 (v * PGSIZE)" and ?pa = "frame_of s (r, v)"
  obtain t where t: "walk r (v * PGSIZE) False s = (Ok (Some (t, ?l)), s)" "get_pte (t, ?l) s = ent s (r, v)"
    "table_at s r (leaf_at (v * PGSIZE)) = Some t"
    using walk_entry [OF ok] by auto
  have nz: "ref_count (vm_refs s) ?pa \<noteq> 0" using e(10) owners_pos [OF ok] by simp
  obtain refs where d: "drop_page ?pa s = (Ok (), s\<lparr>vm_refs := refs,
      vm_free := (if ref_count (vm_refs s) ?pa = 1 then [?pa] else []) @ vm_free s\<rparr>)" "length refs = NPAGE"
    "\<And>pb. is_page pb \<Longrightarrow> ref_count refs pb = (if pb = ?pa then ref_count (vm_refs s) ?pa - 1 else ref_count (vm_refs s) pb)"
    using drop_page_ok [OF space_okD(3) [OF ok(1)] e(6) nz] by auto
  obtain s1 where s1: "s1 = s\<lparr>vm_refs := refs, vm_free := (if ref_count (vm_refs s) ?pa = 1 then [?pa] else []) @ vm_free s\<rparr>" by blast
  have pt: "vm_pte s1 = vm_pte s" by (simp add: s1)
  have tok: "tables_ok s1 Rs"
    using e(6,7,8) tables_okD(3) [OF space_okD(1) [OF ok(1)]] is_page_addr
    by (intro tables_ok_cong [OF space_okD(1) [OF ok(1)] pt, of "{?pa}"]) (auto simp: s1)
  have t1: "table_at s1 (fst (r, v)) (leaf_at (snd (r, v) * PGSIZE)) = Some t" using t(3) table_at_cong [OF pt] by simp
  obtain s2 where s2: "s2 = set_pte (t, px 0 (snd (r, v) * PGSIZE)) 0 s1" by blast
  note se = set_entry [OF tok e(1,2) t1 s2]
  have ent: "ent s2 m = (if m = (r, v) then 0 else ent s m)" if "fst m \<in> Rs" "snd m * PGSIZE < MAXVA" for m
    using se(3) [OF that] ent_cong [OF pt] by simp
  have "unmap_loop r (v * PGSIZE) (Suc n) True s = unmap_loop r (Suc v * PGSIZE) n True s2"
    using t e(3,4) d(1) s1 s2 by (simp add: frame_of_def add.commute)
  moreover have rem: "space_ok s2 Rs (D - {(r, v)})" "\<And>m'. m' \<in> D \<Longrightarrow> m' \<noteq> (r, v) \<Longrightarrow> frame_of s2 m' = frame_of s m'"
  proof -
    have a: "\<And>m'. m' \<in> D \<Longrightarrow> m' \<noteq> (r, v) \<Longrightarrow> ent s2 m' = ent s m'" using ent entryD(1,2) [OF ok(1)] by simp
    have b: "vm_free s2 = (if ref_count (vm_refs s) ?pa = 1 then [?pa] else []) @ vm_free s" "vm_page s2 = vm_page s" "tables s2 Rs = tables s Rs"
      using se(2,4,6) tables_cong [OF pt] by (simp_all add: s1)
    have c: "length (vm_refs s2) = NPAGE" "\<And>pb. is_page pb \<Longrightarrow> ref_count (vm_refs s2) pb =
      (if pb = ?pa then ref_count (vm_refs s) pb - 1 else ref_count (vm_refs s) pb)" using se(5) d(2,3) by (simp_all add: s1)
    show "space_ok s2 Rs (D - {(r, v)})" "\<And>m'. m' \<in> D \<Longrightarrow> m' \<noteq> (r, v) \<Longrightarrow> frame_of s2 m' = frame_of s m'"
      using space_remove [OF ok a se(1) b(3) b(1,2) c] by auto
  qed
  moreover have "same_pages (D - {(r, v)}) s s2" using rem(2) ent entryD(1,2) [OF ok(1)] se(4) s1 by (auto simp: same_pages_def page_of_def)
  moreover have "\<not> pte_is_v (ent s2 (r, v))" using ent [OF e(1,2)] by (simp add: pte_is_v_def)
  ultimately show ?thesis using ent by auto
qed

definition pages :: "nat \<Rightarrow> nat \<Rightarrow> nat \<Rightarrow> upage set" where
  "pages r v n = Pair r ` {v..<v + n}"

definition same_ents :: "nat set \<Rightarrow> upage set \<Rightarrow> vmem \<Rightarrow> vmem \<Rightarrow> bool" where
  "same_ents Rs E s s' \<longleftrightarrow> (\<forall>m. fst m \<in> Rs \<longrightarrow> snd m * PGSIZE < MAXVA \<longrightarrow> m \<notin> E \<longrightarrow> ent s' m = ent s m)"

lemma pages_simps [simp]: "pages r v 0 = {}" "pages r v (Suc n) = insert (r, v) (pages r (Suc v) n)" "finite (pages r v n)"
  "(r', i) \<in> pages r v n \<longleftrightarrow> r' = r \<and> v \<le> i \<and> i < v + n" "card (pages r v n) = n"
  by (auto simp: pages_def card_image inj_on_def atLeastLessThanSuc_atLeastAtMost atLeastAtMost_insertL [symmetric] image_iff)

lemma pages_snoc: "pages r v (Suc n) = insert (r, v + n) (pages r v n)"
  by (auto simp: pages_def atLeastLessThanSuc)

lemma same_pages_trans: "same_pages D s s1 \<Longrightarrow> same_pages D s1 s2 \<Longrightarrow> same_pages D s s2"
  by (simp add: same_pages_def)

lemma same_pages_mono: "same_pages D s s1 \<Longrightarrow> D' \<subseteq> D \<Longrightarrow> same_pages D' s s1"
  by (auto simp: same_pages_def)

lemma same_ents_trans: "same_ents Rs E s s1 \<Longrightarrow> same_ents Rs E' s1 s2 \<Longrightarrow> same_ents Rs (E \<union> E') s s2"
  by (simp add: same_ents_def)

lemma same_grown: "grown Rs s s1 \<Longrightarrow> same_ents Rs {} s s1"
  by (simp add: same_ents_def ent_def grownD(2))

lemma unmap_loop_ok:
  assumes "space_ok s Rs D" "pages r v n \<subseteq> D"
  shows "\<exists>s'. unmap_loop r (v * PGSIZE) n True s = (Ok (), s') \<and> space_ok s' Rs (D - pages r v n) \<and>
    same_pages (D - pages r v n) s s' \<and> (\<forall>m \<in> pages r v n. \<not> pte_is_v (ent s' m)) \<and> same_ents Rs (pages r v n) s s'"
  using assms
proof (induction n arbitrary: s v D)
  case 0
  then show ?case by (simp add: same_pages_def same_ents_def)
next
  case (Suc n)
  then have m: "(r, v) \<in> D" by simp
  obtain s1 where s1: "unmap_loop r (v * PGSIZE) (Suc n) True s = unmap_loop r (Suc v * PGSIZE) n True s1"
    "space_ok s1 Rs (D - {(r, v)})" "same_pages (D - {(r, v)}) s s1" "\<not> pte_is_v (ent s1 (r, v))" "same_ents Rs {(r, v)} s s1"
    using unmap_step [OF Suc.prems(1) m, of n] by (auto simp: same_ents_def simp del: unmap_loop.simps)
  have sub: "pages r (Suc v) n \<subseteq> D - {(r, v)}" using Suc.prems(2) by auto
  obtain s2 where s2: "unmap_loop r (Suc v * PGSIZE) n True s1 = (Ok (), s2)" "space_ok s2 Rs (D - {(r, v)} - pages r (Suc v) n)"
    "same_pages (D - {(r, v)} - pages r (Suc v) n) s1 s2" "\<forall>m \<in> pages r (Suc v) n. \<not> pte_is_v (ent s2 m)" "same_ents Rs (pages r (Suc v) n) s1 s2"
    using Suc.IH [OF s1(2) sub] by blast
  have D: "D - pages r v (Suc n) = D - {(r, v)} - pages r (Suc v) n" by auto
  have "same_pages (D - pages r v (Suc n)) s s2"
    unfolding D using same_pages_trans [OF same_pages_mono [OF s1(3)] s2(3)] by blast
  moreover have "ent s2 (r, v) = ent s1 (r, v)" using s2(5) entryD(1,2) [OF Suc.prems(1) m] by (simp add: same_ents_def)
  moreover have "same_ents Rs (pages r v (Suc n)) s s2" using same_ents_trans [OF s1(5) s2(5)] by simp
  ultimately show ?case using s1(1,4) s2(1,2,4) D by auto
qed

section \<open>Growing\<close>

text \<open>A fresh page: zeroed, mapped at a free address, on a frame of its own.\<close>

lemma space_new:
  assumes ok: "space_ok s Rs D" and f: "vm_free s = p # ps"
  defines "s1 \<equiv> s\<lparr>vm_free := ps, vm_page := (vm_page s)(p := replicate PGSIZE 0)\<rparr>"
  shows "space_ok s1 Rs D" "same_pages D s s1" "same_ents Rs {} s s1" "is_page p" "ref_count (vm_refs s) p = 0" "p \<notin> set ps" "p \<notin> tables s1 Rs"
    "m \<in> D \<Longrightarrow> frame_of s1 m \<noteq> p"
proof -
  have pt: "vm_pte s1 = vm_pte s" by (simp add: s1_def)
  have dis: "distinct (vm_free s)" using tables_okD(3) [OF space_okD(1) [OF ok]] .
  show p: "is_page p" "ref_count (vm_refs s) p = 0" "p \<notin> set ps" using space_okD(4,5) [OF ok, of p] f dis by auto
  show "p \<notin> tables s1 Rs" using space_okD(1) [OF ok] f tables_cong [OF pt] by (auto simp: tables_ok_def)
  have fr: "frame_of s1 m = frame_of s m" for m using ent_cong [OF pt] by (simp add: frame_of_def)
  have np: "frame_of s m \<noteq> p" if "m \<in> D" for m using entryD(8) [OF ok that] f by auto
  then show "m \<in> D \<Longrightarrow> frame_of s1 m \<noteq> p" using fr by simp
  show "same_pages D s s1" using np fr ent_cong [OF pt] by (simp add: same_pages_def page_of_def) (simp add: s1_def)
  show "same_ents Rs {} s s1" using ent_cong [OF pt] by (simp add: same_ents_def)
  have "tables_ok s1 Rs" using tables_ok_cong [OF space_okD(1) [OF ok] pt, of "{}"] dis f by (auto simp: s1_def)
  moreover have "owners s1 D pa = owners s D pa" for pa using fr by (simp add: owners_def)
  then have "entry_ok s1 Rs D m" if "m \<in> D" for m
    using entryD [OF ok that] ent_cong [OF pt] fr np [OF that] tables_cong [OF pt] f by (auto simp: entry_ok_def frame_ok_def s1_def)
  ultimately show "space_ok s1 Rs D" using ok f by (simp add: space_ok_def s1_def)
qed

text \<open>A frame that is neither free nor a table nor in use is taken, or given back.\<close>

definition loose :: "vmem \<Rightarrow> nat set \<Rightarrow> upage set \<Rightarrow> nat \<Rightarrow> bool" where
  "loose s Rs D p \<longleftrightarrow> is_page p \<and> ref_count (vm_refs s) p = 0 \<and> p \<notin> set (vm_free s) \<and> p \<notin> tables s Rs \<and> (\<forall>m \<in> D. frame_of s m \<noteq> p)"

lemma loose_grown:
  assumes "loose s Rs D p" "grown Rs s s'" "space_ok s Rs D"
  shows "loose s' Rs D p"
proof -
  have "frame_of s' m = frame_of s m" if "m \<in> D" for m using grownD(2) [OF assms(2) entryD(1) [OF assms(3) that]] by (simp add: frame_of_def ent_def)
  then show ?thesis using assms(1) grownD(4-6) [OF assms(2)] unfolding loose_def by auto
qed

lemma space_free:
  assumes ok: "space_ok s Rs D" and p: "loose s Rs D p"
  shows "space_ok (page_free p s) Rs D" "same_pages D s (page_free p s)" "same_ents Rs {} s (page_free p s)"
proof -
  let ?s = "page_free p s"
  have pt: "vm_pte ?s = vm_pte s" "vm_free ?s = p # vm_free s" "vm_refs ?s = vm_refs s" "vm_page ?s = vm_page s" by (simp_all add: page_free_def)
  have fr: "frame_of ?s m = frame_of s m" for m using ent_cong [OF pt(1)] by (simp add: frame_of_def)
  have "tables_ok ?s Rs" using p is_page_addr tables_okD(3) [OF space_okD(1) [OF ok]]
    by (intro tables_ok_cong [OF space_okD(1) [OF ok] pt(1), of "{p}"]) (auto simp: loose_def pt(2))
  moreover have "owners ?s D pa = owners s D pa" for pa using fr by (simp add: owners_def)
  then have "entry_ok ?s Rs D m" if "m \<in> D" for m
    using entryD [OF ok that] ent_cong [OF pt(1)] fr tables_cong [OF pt(1)] p that by (auto simp: entry_ok_def frame_ok_def loose_def pt(2-4))
  ultimately show "space_ok ?s Rs D" using ok p by (auto simp: space_ok_def pt(2-4) loose_def)
  show "same_pages D s ?s" "same_ents Rs {} s ?s" using fr ent_cong [OF pt(1)] pt(4) by (simp_all add: same_pages_def page_of_def same_ents_def)
qed

lemma space_own:
  assumes ok: "space_ok s Rs D" and p: "loose s Rs D p" and n: "n \<notin> D" "fst n \<in> Rs" "snd n * PGSIZE < MAXVA"
    and ent': "\<And>m. m \<in> D \<Longrightarrow> ent s' m = ent s m" "ent s' n = pte_set p fl"
    and tab: "tables_ok s' Rs" "tables s' Rs = tables s Rs"
    and fl: "flags_ok fl" "pte_is_v (ent s' n)" "readable (ent s' n)"
    and pg: "vm_free s' = vm_free s" "vm_page s' = vm_page s" "length (vm_page s p) = PGSIZE"
    and refs: "length (vm_refs s') = NPAGE" "\<And>pb. is_page pb \<Longrightarrow> ref_count (vm_refs s') pb = (if pb = p then 1 else ref_count (vm_refs s) pb)"
  shows "space_ok s' Rs (insert n D)" "m \<in> D \<Longrightarrow> frame_of s' m = frame_of s m" "frame_of s' n = p"
proof -
  show fr: "frame_of s' m = frame_of s m" if "m \<in> D" for m using ent'(1) [OF that] by (simp add: frame_of_def)
  show fn: "frame_of s' n = p" using ent'(2) fl(1) is_page_addr p by (simp add: frame_of_def loose_def)
  have nf: "frame_of s m \<noteq> p" if "m \<in> D" for m using p that by (simp add: loose_def)
  have ow: "owners s' (insert n D) pa = (if pa = p then {n} else owners s D pa)" for pa
    using fr fn nf by (auto simp: owners_def)
  have "entry_ok s' Rs (insert n D) m" if "m \<in> D" for m
    using entryD [OF ok that] ent'(1) [OF that] fr [OF that] nf [OF that] ow [of "frame_of s m"] refs(2) tab(2) pg
    by (auto simp: entry_ok_def frame_ok_def)
  moreover have "entry_ok s' Rs (insert n D) n"
    using n fn fl ow [of p] refs(2) [of p] p tab(2) pg by (simp add: entry_ok_def frame_ok_def loose_def)
  moreover have "is_page x \<and> ref_count (vm_refs s') x = 0" if "x \<in> set (vm_free s)" for x
    using that space_okD(4,5) [OF ok that] refs(2) [of x] p by (auto simp: loose_def)
  ultimately show "space_ok s' Rs (insert n D)" using tab(1) refs(1) pg(1) space_okD(2) [OF ok] by (simp add: space_ok_def)
qed

text \<open>Shrinking.\<close>

lemma uvm_dealloc_ok:
  assumes ok: "space_ok s Rs D" and p: "pages r (npg new) (npg old - npg new) \<subseteq> D"
  defines "E \<equiv> pages r (npg new) (npg old - npg new)"
  shows "\<exists>s'. uvm_dealloc r old new s = (Ok (min old new), s') \<and> space_ok s' Rs (D - E) \<and> same_pages (D - E) s s' \<and>
    (\<forall>m \<in> E. \<not> pte_is_v (ent s' m)) \<and> same_ents Rs E s s'"
proof (cases "npg new < npg old")
  case True
  then have "new < old" using npg(1) [of "npg new" old] npg(1) [of "npg new" new] by linarith
  moreover have "(page_up old - page_up new) div PGSIZE = npg old - npg new" by (simp add: npg(2) PGSIZE_def flip: diff_mult_distrib)
  moreover have "page_up new < page_up old" using True by (simp add: npg(2) PGSIZE_def)
  ultimately show ?thesis using unmap_loop_ok [OF ok p] by (auto simp: uvm_dealloc_def unmap_def npg(2) E_def)
next
  case False
  then have "uvm_dealloc r old new s = (Ok (min old new), s)" by (auto simp: uvm_dealloc_def npg(2) PGSIZE_def)
  then show ?thesis using ok False by (simp add: E_def same_pages_def same_ents_def)
qed

text \<open>One page of \<^verbatim>\<open>Uvm::alloc\<close>: out of memory, with nothing changed, or a zeroed page more.\<close>

lemma uvm_alloc_step:
  assumes ok: "space_ok s Rs D" "r \<in> Rs" and v: "v * PGSIZE < newsz" "newsz \<le> MAXVA" "(r, v) \<notin> D" "\<not> pte_is_v (ent s (r, v))"
    and x: "flags_ok xperm"
  shows "\<exists>s'. (uvm_alloc_loop r start (v * PGSIZE) newsz xperm s =
        (case uvm_dealloc r (v * PGSIZE) start s' of (Panic, s1) \<Rightarrow> (Panic, s1) | (_, s1) \<Rightarrow> (Err OutOfMemory, s1)) \<and>
        space_ok s' Rs D \<and> same_pages D s s' \<and> same_ents Rs {} s s' \<and> length (vm_free s) < 3) \<or>
    (uvm_alloc_loop r start (v * PGSIZE) newsz xperm s = uvm_alloc_loop r start (Suc v * PGSIZE) newsz xperm s' \<and>
        space_ok s' Rs (insert (r, v) D) \<and> same_pages D s s' \<and> same_ents Rs {(r, v)} s s' \<and>
        page_of s' (r, v) = replicate PGSIZE 0 \<and> pte_flags (ent s' (r, v)) = PTE_R OR PTE_U OR xperm OR PTE_V \<and> length (vm_free s) \<le> length (vm_free s') + 3)"
proof (cases "vm_free s")
  case Nil
  then have "uvm_alloc_loop r start (v * PGSIZE) newsz xperm s =
      (case uvm_dealloc r (v * PGSIZE) start s of (Panic, s1) \<Rightarrow> (Panic, s1) | (_, s1) \<Rightarrow> (Err OutOfMemory, s1))"
    using v(1) by (simp add: uvm_alloc_loop.simps [of r start "v * PGSIZE"] page_new_def)
  then show ?thesis using ok(1) Nil by (intro exI [of _ s]) (simp add: same_pages_def same_ents_def)
next
  case (Cons p ps)
  define s1 where "s1 = s\<lparr>vm_free := ps, vm_page := (vm_page s)(p := replicate PGSIZE 0)\<rparr>"
  note sn = space_new [OF ok(1) Cons, folded s1_def]
  have va: "v * PGSIZE < MAXVA" using v(1,2) by simp
  have e1: "ent s1 (r, v) = ent s (r, v)" using sn(3) ok(2) va by (simp add: same_ents_def)
  have lo: "loose s1 Rs D p" using sn(4-8) by (simp add: loose_def s1_def)
  obtain res s2 where mp: "mappages r (v * PGSIZE) p PGSIZE (PTE_R OR PTE_U OR xperm) s1 = (res, s2)" by fastforce
  have Sv: "Suc v * PGSIZE = v * PGSIZE + PGSIZE" by simp
  have L: "uvm_alloc_loop r start (v * PGSIZE) newsz xperm s =
      (case (res, s2) of
         (Ok _, s2) \<Rightarrow> (case page_ref_init (vm_refs s2) p of
             Ok refs \<Rightarrow> uvm_alloc_loop r start (Suc v * PGSIZE) newsz xperm (s2\<lparr>vm_refs := refs\<rparr>) | _ \<Rightarrow> (Panic, s2))
       | (Err e, s2) \<Rightarrow> (case uvm_dealloc r (v * PGSIZE) start (page_free p s2) of (Panic, s3) \<Rightarrow> (Panic, s3) | (_, s3) \<Rightarrow> (Err e, s3))
       | (Panic, s2) \<Rightarrow> (Panic, s2))"
    unfolding Sv using v(1) mp Cons by (simp add: uvm_alloc_loop.simps [of r start "v * PGSIZE"] page_new_def s1_def [symmetric])
  consider "res = Err OutOfMemory" "grown Rs s1 s2" "length (vm_free s1) < 2"
    | s3 t where "res = Ok ()" "grown Rs s1 s3" "table_at s3 r (leaf_at (v * PGSIZE)) = Some t"
        "s2 = set_pte (t, px 0 (v * PGSIZE)) (pte_set p (PTE_R OR PTE_U OR xperm OR PTE_V)) s3"
    using map_page [OF space_okD(1) [OF sn(1)] ok(2) va _ mp] e1 v(4) by (auto simp: or.assoc)
  then show ?thesis
  proof cases
    case 1
    note g = space_grown [OF sn(1) 1(2)] and sf = space_free [OF space_grown [OF sn(1) 1(2)] loose_grown [OF lo 1(2) sn(1)]]
    have "same_pages D s1 s2" using 1(2) entryD(1) [OF sn(1)] by (auto simp: same_pages_def page_of_def frame_of_def ent_def grownD)
    then have "same_pages D s (page_free p s2)" using same_pages_trans [OF same_pages_trans [OF sn(2)] sf(2)] by simp
    moreover have "same_ents Rs {} s (page_free p s2)" using same_ents_trans [OF same_ents_trans [OF sn(3) same_grown [OF 1(2)]] sf(3)] by simp
    moreover have "length (vm_free s) < 3" using 1(3) Cons by (simp add: s1_def)
    ultimately show ?thesis using L 1(1) sf(1) by (intro exI [of _ "page_free p s2"]) simp
  next
    case 2
    have ok3: "space_ok s3 Rs D" using space_grown [OF sn(1) 2(2)] .
    have lo3: "loose s3 Rs D p" using loose_grown [OF lo 2(2) sn(1)] .
    let ?fl = "PTE_R OR PTE_U OR xperm OR PTE_V"
    obtain refs where refs: "page_ref_init (vm_refs s3) p = Ok refs" "length refs = NPAGE"
      "\<And>pb. is_page pb \<Longrightarrow> ref_count refs pb = (if pb = p then 1 else ref_count (vm_refs s3) pb)"
      using page_ref_init_ok [OF space_okD(3) [OF ok3], of p] lo3 by (auto simp: loose_def)
    have m: "fst (r, v) \<in> Rs" "snd (r, v) * PGSIZE < MAXVA" using ok(2) va by simp_all
    note se = set_entry [OF space_okD(1) [OF ok3] m, simplified, OF 2(3,4)]
    let ?s' = "s2\<lparr>vm_refs := refs\<rparr>"
    have pt: "vm_pte ?s' = vm_pte s2" by simp
    have ents: "ent ?s' m' = (if m' = (r, v) then pte_set p ?fl else ent s3 m')" if "fst m' \<in> Rs" "snd m' * PGSIZE < MAXVA" for m'
      using se(3) that ent_cong [OF pt] by (cases m') simp
    have e3: "same_ents Rs {} s s3" using same_ents_trans [OF sn(3) same_grown [OF 2(2)]] by simp
    have fl: "flags_ok ?fl" "pte_is_v (pte_set p ?fl)" "readable (pte_set p ?fl)"
      using x flag_bits(2) [of PTE_R] by (simp_all add: pte_bit_simps bit_simps) (simp add: PTE_R_def)
    have tab: "tables_ok ?s' Rs" "tables ?s' Rs = tables s3 Rs" using tables_ok_cong [OF se(1) pt, of "{}"] tables_okD(3) [OF se(1)] tables_cong [OF pt] se(2) by simp_all
    have pg3: "vm_page s3 = vm_page s1" using grownD(3) [OF 2(2)] .
    have ea: "ent ?s' m' = ent s3 m'" if "m' \<in> D" for m' using ents [OF entryD(1,2) [OF ok3 that]] that v(3) by auto
    have eb: "ent ?s' (r, v) = pte_set p ?fl" "pte_is_v (ent ?s' (r, v))" "readable (ent ?s' (r, v))" using ents [OF m] fl by simp_all
    have pg: "vm_free ?s' = vm_free s3" "vm_page ?s' = vm_page s3" "length (vm_page s3 p) = PGSIZE" using se(4,6) pg3 by (simp_all add: s1_def)
    have rf: "length (vm_refs ?s') = NPAGE" "\<And>pb. is_page pb \<Longrightarrow> ref_count (vm_refs ?s') pb = (if pb = p then 1 else ref_count (vm_refs s3) pb)"
      using refs(2,3) by simp_all
    note own = space_own [OF ok3 lo3 v(3) m ea eb(1) tab fl(1) eb(2,3) pg rf]
    have "page_of ?s' m = page_of s m" "uperm (ent ?s' m) = uperm (ent s m)" if "m \<in> D" for m
    proof -
      have "ent s1 m = ent s m" "ent s3 m = ent s m" using sn(3) e3 entryD(1,2) [OF ok(1) that] by (cases m; auto simp: same_ents_def)+
      then show "page_of ?s' m = page_of s m" "uperm (ent ?s' m) = uperm (ent s m)"
        using ea [OF that] se(4) pg3 sn(2) that by (auto simp: page_of_def same_pages_def frame_of_def)
    qed
    then have "same_pages D s ?s'" by (simp add: same_pages_def)
    moreover have "same_ents Rs {(r, v)} s ?s'" using ents e3 by (simp add: same_ents_def)
    moreover have "page_of ?s' (r, v) = replicate PGSIZE 0" using own(3) se(4) pg3 by (simp add: page_of_def s1_def)
    moreover have "length (vm_free s) \<le> length (vm_free ?s') + 3" using pg(1) grownD(7) [OF 2(2)] Cons by (simp add: s1_def)
    ultimately show ?thesis using L 2(1) refs(1) own(1) se(5) ents [OF m] fl(1) by (intro exI [of _ ?s']) simp
  qed
qed

lemma uvm_alloc_loop_ok:
  assumes "space_ok s Rs D" "r \<in> Rs" "flags_ok xperm" "newsz \<le> MAXVA" "v0 \<le> v" "v \<le> max v0 (npg newsz)" "pages r v0 (v - v0) \<subseteq> D"
    "\<forall>m \<in> pages r v (npg newsz - v). m \<notin> D \<and> \<not> pte_is_v (ent s m)"
    "uvm_alloc_loop r (v0 * PGSIZE) (v * PGSIZE) newsz xperm s = (res, s')"
  shows "(res = Ok newsz \<and> space_ok s' Rs (D \<union> pages r v (npg newsz - v)) \<and> same_pages D s s' \<and>
      (\<forall>m \<in> pages r v (npg newsz - v). page_of s' m = replicate PGSIZE 0) \<and> same_ents Rs (pages r v (npg newsz - v)) s s' \<and>
      (\<forall>m \<in> pages r v (npg newsz - v). pte_flags (ent s' m) = PTE_R OR PTE_U OR xperm OR PTE_V) \<and>
      length (vm_free s) \<le> length (vm_free s') + 3 * (npg newsz - v)) \<or>
    (res = Err OutOfMemory \<and> space_ok s' Rs (D - pages r v0 (v - v0)) \<and> same_pages (D - pages r v0 (v - v0)) s s' \<and>
      length (vm_free s) < 3 * (npg newsz - v))"
  using assms
proof (induction "npg newsz - v" arbitrary: v s D)
  case 0
  then have "\<not> v * PGSIZE < newsz" by (simp add: npg(1))
  then show ?case using 0 by (simp add: uvm_alloc_loop.simps [of r _ "v * PGSIZE"] same_pages_def same_ents_def)
next
  case (Suc k)
  have lt: "v * PGSIZE < newsz" "v < npg newsz" using Suc.hyps(2) by (simp_all add: npg(1))
  have new: "(r, v) \<notin> D" "\<not> pte_is_v (ent s (r, v))" using Suc.prems(8) lt(2) by simp_all
  from uvm_alloc_step [OF Suc.prems(1,2) lt(1) Suc.prems(4) new Suc.prems(3), of "v0 * PGSIZE"] Suc.prems(9)
  consider s1 where "(case uvm_dealloc r (v * PGSIZE) (v0 * PGSIZE) s1 of (Panic, s1) \<Rightarrow> (Panic, s1) | (_, s1) \<Rightarrow> (Err OutOfMemory, s1)) = (res, s')"
      "space_ok s1 Rs D" "same_pages D s s1" "length (vm_free s) < 3"
    | s1 where "uvm_alloc_loop r (v0 * PGSIZE) (Suc v * PGSIZE) newsz xperm s1 = (res, s')" "space_ok s1 Rs (insert (r, v) D)"
      "same_pages D s s1" "same_ents Rs {(r, v)} s s1" "page_of s1 (r, v) = replicate PGSIZE 0"
      "pte_flags (ent s1 (r, v)) = PTE_R OR PTE_U OR xperm OR PTE_V" "length (vm_free s) \<le> length (vm_free s1) + 3"
    by auto
  then show ?case
  proof cases
    case 1
    have "pages r (npg (v0 * PGSIZE)) (npg (v * PGSIZE) - npg (v0 * PGSIZE)) \<subseteq> D" using Suc.prems(7) by (simp add: npg(3))
    from uvm_dealloc_ok [OF 1(2) this] 1(1) have "res = Err OutOfMemory \<and> space_ok s' Rs (D - pages r v0 (v - v0)) \<and> same_pages (D - pages r v0 (v - v0)) s1 s'"
      by (auto simp: npg(3))
    moreover have "length (vm_free s) < 3 * (npg newsz - v)" using 1(4) lt(2) by simp
    ultimately show ?thesis using same_pages_trans [OF same_pages_mono [OF 1(3)]] by blast
  next
    case 2
    have E: "pages r v (npg newsz - v) = insert (r, v) (pages r (Suc v) (npg newsz - Suc v))" using lt(2) by (auto simp: pages_def)
    have r: "fst m \<in> Rs" "snd m * PGSIZE < MAXVA" if m: "m \<in> pages r (Suc v) (npg newsz - Suc v)" for m
    proof -
      obtain i where i: "m = (r, i)" "i < npg newsz" using m by (auto simp: pages_def)
      then show "fst m \<in> Rs" "snd m * PGSIZE < MAXVA" using Suc.prems(2,4) npg(1) [of i newsz] by simp_all
    qed
    have a: "k = npg newsz - Suc v" "v0 \<le> Suc v" "Suc v \<le> max v0 (npg newsz)" using Suc.hyps(2) Suc.prems(5) lt(2) by auto
    have b: "pages r v0 (Suc v - v0) \<subseteq> insert (r, v) D" using Suc.prems(5,7) pages_snoc [of r v0 "v - v0"] by (auto simp: Suc_diff_le)
    have c: "\<forall>m \<in> pages r (Suc v) (npg newsz - Suc v). m \<notin> insert (r, v) D \<and> \<not> pte_is_v (ent s1 m)"
      using Suc.prems(8) E 2(4) r by (auto simp: same_ents_def)
    from Suc.hyps(1) [OF a(1) 2(2) Suc.prems(2-4) a(2,3) b c 2(1)] show ?thesis
    proof
      assume A: "res = Ok newsz \<and> space_ok s' Rs (insert (r, v) D \<union> pages r (Suc v) (npg newsz - Suc v)) \<and> same_pages (insert (r, v) D) s1 s' \<and>
        (\<forall>m \<in> pages r (Suc v) (npg newsz - Suc v). page_of s' m = replicate PGSIZE 0) \<and> same_ents Rs (pages r (Suc v) (npg newsz - Suc v)) s1 s' \<and>
        (\<forall>m \<in> pages r (Suc v) (npg newsz - Suc v). pte_flags (ent s' m) = PTE_R OR PTE_U OR xperm OR PTE_V) \<and>
        length (vm_free s1) \<le> length (vm_free s') + 3 * (npg newsz - Suc v)"
      then have "page_of s' (r, v) = replicate PGSIZE 0" using 2(5) by (simp add: same_pages_def)
      moreover have "ent s' (r, v) = ent s1 (r, v)" using A Suc.prems(2,4) lt(1) by (simp add: same_ents_def)
      moreover have "length (vm_free s) \<le> length (vm_free s') + 3 * (npg newsz - v)" using A 2(7) lt(2) by linarith
      ultimately show ?thesis using A 2(6) same_pages_trans [OF 2(3) same_pages_mono [of "insert (r, v) D" s1 s' D]] same_ents_trans [OF 2(4)] unfolding E by auto
    next
      assume A: "res = Err OutOfMemory \<and> space_ok s' Rs (insert (r, v) D - pages r v0 (Suc v - v0)) \<and> same_pages (insert (r, v) D - pages r v0 (Suc v - v0)) s1 s' \<and>
        length (vm_free s1) < 3 * (npg newsz - Suc v)"
      have D: "insert (r, v) D - pages r v0 (Suc v - v0) = D - pages r v0 (v - v0)"
        using Suc.prems(5) new(1) pages_snoc [of r v0 "v - v0"] by (auto simp: Suc_diff_le)
      have "length (vm_free s) < 3 * (npg newsz - v)" using A 2(7) lt(2) by linarith
      then show ?thesis using A same_pages_trans [OF same_pages_mono [OF 2(3)]] unfolding D by auto
    qed
  qed
qed

end
