(* ===== verification/Uvm_Fork.thy ===== *)
theory Uvm_Fork
  imports Uvm_Size
begin

text \<open>
  Fork and the isolation of address spaces. \<^verbatim>\<open>Uvm::copy\<close> gives the child the pages of its
  parent; from then on the two and all other address spaces are isolated, since every write goes to a
  frame that one page has for itself.
\<close>

unbundle bit_operations_syntax

section \<open>The copy of an address space\<close>

definition share_flags :: "usize \<Rightarrow> usize" where
  "share_flags f = (if f AND PTE_W \<noteq> 0 then (f AND NOT PTE_W) OR PTE_COW else f)"

lemma bit_share_flags: "n < 8 \<Longrightarrow> bit (share_flags f) n \<longleftrightarrow> bit f n \<and> n \<noteq> 2"
  by (auto simp: share_flags_def flag_bits bit_simps)

lemma bit_share_cow: "bit (share_flags f) 8 \<longleftrightarrow> bit f 2 \<or> bit f 8"
  by (auto simp: share_flags_def flag_bits bit_simps)

lemma flags_ok_share [simp]: "flags_ok f \<Longrightarrow> flags_ok (share_flags f)"
  by (simp add: share_flags_def)

text \<open>The parent's page becomes read-only.\<close>

lemma fork_protect:
  assumes ok: "space_ok s Rs D" "(r, v) \<in> D" and t: "table_at s r (leaf_at (v * PGSIZE)) = Some t"
  defines "f \<equiv> pte_flags (ent s (r, v))"
  defines "s' \<equiv> (if f AND PTE_W \<noteq> 0 then set_pte (t, px 0 (v * PGSIZE)) (pte_set (frame_of s (r, v)) (share_flags f)) s else s)"
  shows "space_ok s' Rs D" "same_pages D s s'" "same_ents Rs {(r, v)} s s'" "\<not> writable (ent s' (r, v))" "frame_of s' (r, v) = frame_of s (r, v)"
    "uperm (ent s' (r, v)) = uperm (ent s (r, v))" "vm_free s' = vm_free s"
proof -
  note e = entryD [OF ok]
  have "space_ok s' Rs D \<and> same_pages D s s' \<and> same_ents Rs {(r, v)} s s' \<and> \<not> writable (ent s' (r, v)) \<and> frame_of s' (r, v) = frame_of s (r, v)"
  proof (cases "f AND PTE_W \<noteq> 0")
    case True
    have fl: "flags_ok (share_flags f)" "pte_is_v (pte_set p (share_flags f))" "readable (pte_set p (share_flags f))"
      "\<not> writable (pte_set p (share_flags f))" "uperm (pte_set p (share_flags f)) = uperm (ent s (r, v))" for p
      using e(3,11) True by (simp_all add: f_def pte_is_bits bit_pte_set bit_share_flags bit_pte_flags uperm_bits bit_share_cow flag_bits)
    have ro: "share_flags f AND PTE_W = 0" by (simp add: flag_bits bit_share_flags)
    have s': "s' = set_pte (t, px 0 (v * PGSIZE)) (pte_set (frame_of s (r, v)) (share_flags f)) s" using True by (simp add: s'_def)
    note rt = space_retag [OF ok, simplified, OF t fl(1-3) _ s'] and se = set_entry [OF space_okD(1) [OF ok(1)] e(1,2), simplified, OF t s']
    have ents: "ent s' m = (if m = (r, v) then pte_set (frame_of s (r, v)) (share_flags f) else ent s m)" if "fst m \<in> Rs" "snd m * PGSIZE < MAXVA" for m
      using se(3) that by (cases m) simp
    have fr: "frame_of s' m = frame_of s m" if "m \<in> D" for m using rt(2) ro that by (cases m) simp
    have "page_of s' m = page_of s m \<and> uperm (ent s' m) = uperm (ent s m)" if "m \<in> D" for m
      using fr [OF that] ents [OF entryD(1,2) [OF ok(1) that]] fl(5) se(4) by (simp add: page_of_def)
    moreover have "same_ents Rs {(r, v)} s s'" using ents by (simp add: same_ents_def)
    moreover have "\<not> writable (ent s' (r, v))" using ents [OF e(1,2)] fl(4) by simp
    ultimately show ?thesis using rt(1) ro fr [OF ok(2)] by (simp add: same_pages_def)
  next
    case False
    then show ?thesis using ok(1) by (simp add: s'_def same_pages_def same_ents_def writable_def f_def)
  qed
  then show "space_ok s' Rs D" "same_pages D s s'" "same_ents Rs {(r, v)} s s'" "\<not> writable (ent s' (r, v))" "frame_of s' (r, v) = frame_of s (r, v)"
    "uperm (ent s' (r, v)) = uperm (ent s (r, v))" using ok(2) by (auto simp: same_pages_def)
  show "vm_free s' = vm_free s" by (simp add: s'_def set_pte_def)
qed

text \<open>A page more for the child, on the frame of a page that is read-only.\<close>

lemma space_share:
  assumes ok: "space_ok s Rs D" "(r, v) \<in> D" and ro: "\<not> writable (ent s (r, v))" and n: "(c, v) \<notin> D" "c \<in> Rs"
    and t: "table_at s c (leaf_at (v * PGSIZE)) = Some t" and fl: "flags_ok fl" "bit fl 0" "bit fl 1" "\<not> bit fl 2"
    and inc: "page_ref_inc (vm_refs s) (frame_of s (r, v)) = Ok refs"
  defines "s' \<equiv> (set_pte (t, px 0 (v * PGSIZE)) (pte_set (frame_of s (r, v)) fl) s)\<lparr>vm_refs := refs\<rparr>"
  shows "space_ok s' Rs (insert (c, v) D)" "same_pages D s s'" "same_ents Rs {(c, v)} s s'" "page_of s' (c, v) = page_of s (r, v)"
    "uperm (ent s' (c, v)) = (bit fl 4, bit fl 8)"
proof -
  note e = entryD [OF ok]
  define s1 where "s1 = set_pte (t, px 0 (v * PGSIZE)) (pte_set (frame_of s (r, v)) fl) s"
  have m: "fst (c, v) \<in> Rs" "snd (c, v) * PGSIZE < MAXVA" using n(2) e(2) by simp_all
  note se = set_entry [OF space_okD(1) [OF ok(1)] m, simplified, OF t s1_def]
  have pt: "vm_pte s' = vm_pte s1" "vm_free s' = vm_free s1" "vm_page s' = vm_page s1" "vm_refs s' = refs" by (simp_all add: s'_def s1_def)
  have ents: "ent s' m = (if m = (c, v) then pte_set (frame_of s (r, v)) fl else ent s m)" if "fst m \<in> Rs" "snd m * PGSIZE < MAXVA" for m
    using se(3) that ent_cong [OF pt(1)] by (cases m) simp
  have ea: "ent s' m = ent s m" if "m \<in> D" for m using ents [OF entryD(1,2) [OF ok(1) that]] that n(1) by auto
  have tab: "tables_ok s' Rs" "tables s' Rs = tables s Rs"
    using tables_ok_cong [OF se(1) pt(1), of "{}"] tables_okD(3) [OF se(1)] tables_cong [OF pt(1)] se(2) pt(2) by simp_all
  have b: "fl AND PTE_W = 0" "pte_is_v (ent s' (c, v))" "readable (ent s' (c, v))" "uperm (ent s' (c, v)) = (bit fl 4, bit fl 8)"
    using ents [OF m] fl by (simp_all add: pte_bit_simps uperm_bits)
  have refs: "length (vm_refs s') = NPAGE" "\<And>pb. is_page pb \<Longrightarrow> ref_count (vm_refs s') pb =
      (if pb = frame_of s (r, v) then ref_count (vm_refs s) pb + 1 else ref_count (vm_refs s) pb)"
    using page_ref_inc_ok [OF space_okD(3) [OF ok(1)] e(6)] inc pt(4) by (auto split: if_splits)
  have pg: "vm_free s' = vm_free s" "vm_page s' = vm_page s" using se(4,6) pt(2,3) by simp_all
  have eb: "ent s' (c, v) = pte_set (frame_of s (r, v)) fl" using ents [OF m] by simp
  note ad = space_add [OF ok n(1) m ro ea eb tab fl(1) b(1-3) pg refs]
  show "space_ok s' Rs (insert (c, v) D)" "uperm (ent s' (c, v)) = (bit fl 4, bit fl 8)" using ad(1) b(4) by simp_all
  show "same_pages D s s'" using ad(2) ea pg(2) by (simp add: same_pages_def page_of_def)
  show "same_ents Rs {(c, v)} s s'" using ents by (simp add: same_ents_def)
  show "page_of s' (c, v) = page_of s (r, v)" using ad(3) pg(2) by (simp add: page_of_def)
qed

lemma same_pages_grown:
  assumes "space_ok s Rs D" "grown Rs s s'"
  shows "same_pages D s s'"
  using entryD(1) [OF assms(1)] assms(2) by (auto simp: same_pages_def page_of_def frame_of_def ent_def grownD)

lemma uvm_copy_step:
  assumes ok: "space_ok s Rs D" "(r, v) \<in> D" and n: "(c, v) \<notin> D" "c \<in> Rs" "\<not> pte_is_v (ent s (c, v))" and lt: "v * PGSIZE < sz"
  shows "(\<exists>s'. uvm_copy_loop r c (v * PGSIZE) sz s = (Panic, s') \<and> 65535 \<le> card D) \<or>
    (\<exists>s'. uvm_copy_loop r c (v * PGSIZE) sz s =
        (case unmap c 0 v True s' of (Panic, s1) \<Rightarrow> (Panic, s1) | (_, s1) \<Rightarrow> (Err OutOfMemory, s1)) \<and> space_ok s' Rs D \<and> same_pages D s s' \<and>
      length (vm_free s) < 2) \<or>
    (\<exists>s'. uvm_copy_loop r c (v * PGSIZE) sz s = uvm_copy_loop r c (Suc v * PGSIZE) sz s' \<and> space_ok s' Rs (insert (c, v) D) \<and>
      same_pages D s s' \<and> same_ents Rs {(r, v), (c, v)} s s' \<and> page_of s' (c, v) = page_of s (r, v) \<and>
      uperm (ent s' (c, v)) = uperm (ent s (r, v)) \<and> length (vm_free s) \<le> length (vm_free s') + 2)"
proof -
  note e = entryD [OF ok]
  let ?f = "pte_flags (ent s (r, v))" and ?pa = "frame_of s (r, v)"
  obtain t where t: "walk r (v * PGSIZE) False s = (Ok (Some (t, px 0 (v * PGSIZE))), s)" "get_pte (t, px 0 (v * PGSIZE)) s = ent s (r, v)"
    "table_at s r (leaf_at (v * PGSIZE)) = Some t"
    using walk_entry [OF ok] by auto
  define s2 where "s2 = (if ?f AND PTE_W \<noteq> 0 then set_pte (t, px 0 (v * PGSIZE)) (pte_set ?pa (share_flags ?f)) s else s)"
  note fp = fork_protect [OF ok t(3), folded s2_def]
  obtain res s3 where mp: "mappages c (v * PGSIZE) ?pa PGSIZE (share_flags ?f) s2 = (res, s3)" by fastforce
  have cv: "fst (c, v) \<in> Rs" "snd (c, v) * PGSIZE < MAXVA" "(c, v) \<noteq> (r, v)" using n(1,2) e(2) ok(2) by auto
  have new: "\<not> pte_is_v (ent s2 (c, v))" using fp(3) cv n(3) by (simp add: same_ents_def)
  have Sv: "Suc v * PGSIZE = v * PGSIZE + PGSIZE" "v * PGSIZE div PGSIZE = v" by (simp_all add: PGSIZE_def)
  have L: "uvm_copy_loop r c (v * PGSIZE) sz s = (case (res, s3) of
      (Err e, s3) \<Rightarrow> (case unmap c 0 v True s3 of (Panic, s4) \<Rightarrow> (Panic, s4) | (_, s4) \<Rightarrow> (Err e, s4))
    | (Panic, s3) \<Rightarrow> (Panic, s3)
    | (Ok _, s3) \<Rightarrow> (case page_ref_inc (vm_refs s3) ?pa of
          Ok refs \<Rightarrow> uvm_copy_loop r c (Suc v * PGSIZE) sz (s3\<lparr>vm_refs := refs\<rparr>) | _ \<Rightarrow> (Panic, s3)))"
    unfolding uvm_copy_loop.simps [of r c "v * PGSIZE"] Sv Let_def t(1) prod.case outcome.case option.case t(2) frame_of_def [symmetric]
      share_flags_def [symmetric] s2_def [symmetric] mp
    using lt e(3) by simp
  consider "res = Err OutOfMemory" "grown Rs s2 s3" "length (vm_free s2) < 2"
    | s4 t' where "res = Ok ()" "grown Rs s2 s4" "table_at s4 c (leaf_at (v * PGSIZE)) = Some t'"
        "s3 = set_pte (t', px 0 (v * PGSIZE)) (pte_set ?pa (share_flags ?f OR PTE_V)) s4"
    using map_page [OF space_okD(1) [OF fp(1)] n(2) _ new mp] cv(2) by auto
  then show ?thesis
  proof cases
    case 1
    then show ?thesis using L fp(7) space_grown [OF fp(1) 1(2)] same_pages_trans [OF fp(2) same_pages_grown [OF fp(1) 1(2)]] by auto
  next
    case 2
    have ok4: "space_ok s4 Rs D" using space_grown [OF fp(1) 2(2)] .
    have sp: "same_pages D s s4" using same_pages_trans [OF fp(2) same_pages_grown [OF fp(1) 2(2)]] .
    have en: "same_ents Rs {(r, v)} s s4" using same_ents_trans [OF fp(3) same_grown [OF 2(2)]] by simp
    have e4: "ent s4 (r, v) = ent s2 (r, v)" using same_grown [OF 2(2)] e(1,2) by (simp add: same_ents_def)
    then have fr: "frame_of s4 (r, v) = ?pa" "\<not> writable (ent s4 (r, v))" using fp(4,5) by (simp_all add: frame_of_def)
    have refs3: "vm_refs s3 = vm_refs s4" using 2(4) by (simp add: set_pte_def)
    have fl: "flags_ok (share_flags ?f OR PTE_V)" "bit (share_flags ?f OR PTE_V) 0" "bit (share_flags ?f OR PTE_V) 1" "\<not> bit (share_flags ?f OR PTE_V) 2"
      "(bit (share_flags ?f OR PTE_V) 4, bit (share_flags ?f OR PTE_V) 8) = uperm (ent s (r, v))"
      using e(11) by (simp_all add: bit_or_iff bit_share_flags bit_share_cow bit_pte_flags pte_is_bits uperm_bits)
    show ?thesis
    proof (cases "page_ref_inc (vm_refs s4) ?pa")
      case (Ok refs)
      note sh = space_share [OF ok4 ok(2) fr(2) n(1,2) 2(3) fl(1-4), unfolded fr(1), OF Ok, folded 2(4)]
      have "page_of s4 (r, v) = page_of s (r, v)" using sp ok(2) by (simp add: same_pages_def)
      moreover have "same_ents Rs {(r, v), (c, v)} s (s3\<lparr>vm_refs := refs\<rparr>)" using same_ents_trans [OF en sh(3)] by (simp add: insert_commute)
      moreover have "length (vm_free s) \<le> length (vm_free (s3\<lparr>vm_refs := refs\<rparr>)) + 2" using grownD(7) [OF 2(2)] fp(7) 2(4) by (simp add: set_pte_def)
      ultimately show ?thesis using L 2(1) Ok refs3 sh fl(5) same_pages_trans [OF sp sh(2)] by auto
    next
      case Panic
      have "card (owners s4 D ?pa) = 65535"
        using page_ref_inc_ok [OF space_okD(3) [OF ok4] e(6)] Panic entryD(10) [OF ok4 ok(2)] fr(1) by (auto split: if_splits)
      moreover have "card (owners s4 D ?pa) \<le> card D" using space_okD(2) [OF ok4] by (intro card_mono) (auto simp: owners_def)
      ultimately show ?thesis using L 2(1) Panic refs3 by auto
    next
      case (Err e)
      then show ?thesis using page_ref_inc_ok [OF space_okD(3) [OF ok4] e(6)] by (auto split: if_splits)
    qed
  qed
qed

lemma uvm_copy_loop_ok:
  assumes "space_ok s Rs (D \<union> pages c 0 v)" "c \<in> Rs" "pages r 0 (npg sz) \<subseteq> D" "\<forall>i < npg sz. (c, i) \<notin> D" "v \<le> npg sz"
    "\<forall>i. v \<le> i \<and> i < npg sz \<longrightarrow> \<not> pte_is_v (ent s (c, i))" "\<forall>i < v. page_of s (c, i) = page_of s (r, i) \<and> uperm (ent s (c, i)) = uperm (ent s (r, i))"
    "uvm_copy_loop r c (v * PGSIZE) sz s = (res, s')"
  shows "(res = Ok () \<and> space_ok s' Rs (D \<union> pages c 0 (npg sz)) \<and> same_pages D s s' \<and>
      (\<forall>i < npg sz. page_of s' (c, i) = page_of s' (r, i) \<and> uperm (ent s' (c, i)) = uperm (ent s' (r, i)))) \<or>
    (res = Err OutOfMemory \<and> space_ok s' Rs D \<and> same_pages D s s' \<and> length (vm_free s) < 2 * (npg sz - v)) \<or>
    (res = Panic \<and> 65535 \<le> card D + npg sz)"
  using assms
proof (induction "npg sz - v" arbitrary: v s)
  case 0
  then have "\<not> v * PGSIZE < sz" "v = npg sz" by (simp_all add: npg(1))
  then have "uvm_copy_loop r c (v * PGSIZE) sz s = (Ok (), s)" by (simp add: uvm_copy_loop.simps)
  then show ?case using 0 \<open>v = npg sz\<close> by (simp add: same_pages_def)
next
  case (Suc k)
  let ?D = "D \<union> pages c 0 v"
  have lt: "v * PGSIZE < sz" "v < npg sz" using Suc.hyps(2) by (simp_all add: npg(1))
  have rv: "(r, v) \<in> ?D" "(c, v) \<notin> ?D" "\<not> pte_is_v (ent s (c, v))" using Suc.prems(3,4,6) lt(2) by auto
  have dis: "D \<inter> pages c 0 v = {}" using Suc.prems(4,5) by (auto simp: pages_def)
  from uvm_copy_step [OF Suc.prems(1) rv(1,2) Suc.prems(2) rv(3) lt(1)] Suc.prems(8)
  consider "res = Panic" "65535 \<le> card ?D"
    | s1 where "(case unmap c 0 v True s1 of (Panic, s1) \<Rightarrow> (Panic, s1) | (_, s1) \<Rightarrow> (Err OutOfMemory, s1)) = (res, s')"
      "space_ok s1 Rs ?D" "same_pages ?D s s1" "length (vm_free s) < 2"
    | s1 where "uvm_copy_loop r c (Suc v * PGSIZE) sz s1 = (res, s')" "space_ok s1 Rs (insert (c, v) ?D)" "same_pages ?D s s1"
      "same_ents Rs {(r, v), (c, v)} s s1" "page_of s1 (c, v) = page_of s (r, v)" "uperm (ent s1 (c, v)) = uperm (ent s (r, v))"
      "length (vm_free s) \<le> length (vm_free s1) + 2"
    by auto
  then show ?case
  proof cases
    case 1
    then show ?thesis using card_Un_le [of D "pages c 0 v"] Suc.prems(5) by simp
  next
    case 2
    have u: "unmap c 0 v True s1 = unmap_loop c (0 * PGSIZE) v True s1" by (simp add: unmap_def)
    have D: "?D - pages c 0 v = D" using dis by auto
    from unmap_loop_ok [OF 2(2), of c 0 v] 2(1) u D
    have "res = Err OutOfMemory \<and> space_ok s' Rs D \<and> same_pages D s1 s'" by auto
    moreover have "same_pages D s s1" using same_pages_mono [OF 2(3)] by simp
    moreover have "length (vm_free s) < 2 * (npg sz - v)" using 2(4) lt(2) by simp
    ultimately show ?thesis using same_pages_trans by blast
  next
    case 3
    have D: "insert (c, v) ?D = D \<union> pages c 0 (Suc v)" using pages_snoc [of c 0 v] by auto
    have rm: "(r, i) \<in> ?D" if "i < npg sz" for i using subsetD [OF Suc.prems(3), of "(r, i)"] that by simp
    have a: "k = npg sz - Suc v" "Suc v \<le> npg sz" using Suc.hyps(2) lt(2) by auto
    have b: "\<forall>i. Suc v \<le> i \<and> i < npg sz \<longrightarrow> \<not> pte_is_v (ent s1 (c, i))"
    proof (intro allI impI)
      fix i assume i: "Suc v \<le> i \<and> i < npg sz"
      then have "i * PGSIZE < MAXVA" using entryD(2) [OF Suc.prems(1) rm] by simp
      then show "\<not> pte_is_v (ent s1 (c, i))" using i 3(4) Suc.prems(2,6) by (simp add: same_ents_def)
    qed
    have c: "\<forall>i < Suc v. page_of s1 (c, i) = page_of s1 (r, i) \<and> uperm (ent s1 (c, i)) = uperm (ent s1 (r, i))"
    proof (intro allI impI)
      fix i assume i: "i < Suc v"
      have s1: "page_of s1 (r, i) = page_of s (r, i)" "uperm (ent s1 (r, i)) = uperm (ent s (r, i))"
        using 3(3) rm [of i] i lt(2) by (auto simp: same_pages_def)
      show "page_of s1 (c, i) = page_of s1 (r, i) \<and> uperm (ent s1 (c, i)) = uperm (ent s1 (r, i))"
      proof (cases "i = v")
        case False
        then have "(c, i) \<in> ?D" "i < v" using i by auto
        then show ?thesis using 3(3) Suc.prems(7) s1 by (simp add: same_pages_def)
      qed (use 3(5,6) s1 in simp)
    qed
    have t: "same_pages D s s1" using same_pages_mono [OF 3(3)] by simp
    from Suc.hyps(1) [OF a(1) 3(2) [unfolded D] Suc.prems(2-4) a(2) b c 3(1)] show ?thesis
      using same_pages_trans [OF t] 3(7) lt(2) by auto
  qed
qed

section \<open>Reading user memory\<close>

lemma copyin_ok:
  assumes "space_ok s Rs D" "covered D r a n" "\<forall>i < n. pte_is_u (ent s (r, (a + i) div PGSIZE))"
  shows "copyin r a n s = Ok (map (\<lambda>i. umem s r (a + i)) [0..<n])"
  using assms(2,3)
proof (induction n arbitrary: a rule: less_induct)
  case (less n)
  show ?case
  proof (cases "n = 0")
    case True
    then show ?thesis by (simp add: copyin.simps)
  next
    case False
    obtain v off k where v: "v = a div PGSIZE" "off = a mod PGSIZE" "k = min (PGSIZE - off) n" by blast
    have o: "off < PGSIZE" "a = v * PGSIZE + off" using div_mult_mod_eq [of a PGSIZE] by (simp_all add: v PGSIZE_def)
    have pd: "page_down a = v * PGSIZE" "a - v * PGSIZE = off" using o(2) by (simp_all add: page_down_def v(1))
    have k: "0 < k" "k \<le> n" "off + k \<le> PGSIZE" "k < n \<Longrightarrow> v * PGSIZE + PGSIZE = a + k" using o False by (auto simp: v(3) min_def)
    have m: "(r, v) \<in> D" "pte_is_u (ent s (r, v))" using less.prems False v(1) by (auto simp: covered_def)
    have len: "length (vm_page s (frame_of s (r, v))) = PGSIZE" using entryD(9) [OF assms(1) m(1)] .
    have here: "slice off k (vm_page s (frame_of s (r, v))) = map (\<lambda>i. umem s r (a + i)) [0..<k]"
    proof (rule nth_equalityI)
      show "length (slice off k (vm_page s (frame_of s (r, v)))) = length (map (\<lambda>i. umem s r (a + i)) [0..<k])" using len k(3) by simp
      fix i assume "i < length (slice off k (vm_page s (frame_of s (r, v))))"
      then have i: "i < k" using len k(3) by simp
      then have "(a + i) div PGSIZE = v" "(a + i) mod PGSIZE = off + i" using o k(3) by (simp_all add: add.assoc div_nat_eqI)
      then show "slice off k (vm_page s (frame_of s (r, v))) ! i = map (\<lambda>i. umem s r (a + i)) [0..<k] ! i"
        using i len k(3) by (simp add: nth_slice umem_def page_of_def)
    qed
    have split: "map (\<lambda>i. umem s r (a + i)) [0..<n] = map (\<lambda>i. umem s r (a + i)) [0..<k] @ map (\<lambda>i. umem s r (a + k + i)) [0..<n - k]"
      using k(2) by (intro nth_equalityI) (auto simp: nth_append add.assoc)
    have rest: "copyin r (v * PGSIZE + PGSIZE) (n - k) s = Ok (map (\<lambda>i. umem s r (a + k + i)) [0..<n - k])"
    proof (cases "k < n")
      case True
      then show ?thesis using less.IH [of "n - k" "a + k"] less.prems k(1) by (simp add: covered_def k(4) add.assoc)
    qed (simp add: copyin.simps)
    show ?thesis using False walkaddr_ok [OF assms(1) m(1)] m(2) rest here split
      by (simp add: copyin.simps [of r a n] pd v(3) [symmetric] Let_def)
  qed
qed

section \<open>Properties\<close>

lemma uvm_alloc_ok:
  assumes "space_ok s Rs D" "r \<in> Rs" "flags_ok xperm" "oldsz \<le> newsz" "newsz < user_mem_top NPROC"
    "\<forall>m \<in> pages r (npg oldsz) (npg newsz - npg oldsz). m \<notin> D \<and> \<not> pte_is_v (ent s m)" "uvm_alloc r oldsz newsz xperm s = (res, s')"
  defines "N \<equiv> pages r (npg oldsz) (npg newsz - npg oldsz)"
  shows "(res = Ok newsz \<and> space_ok s' Rs (D \<union> N) \<and> same_pages D s s' \<and> (\<forall>m \<in> N. page_of s' m = replicate PGSIZE 0) \<and> same_ents Rs N s s' \<and>
      (\<forall>m \<in> N. pte_flags (ent s' m) = PTE_R OR PTE_U OR xperm OR PTE_V) \<and> length (vm_free s) \<le> length (vm_free s') + 3 * (npg newsz - npg oldsz)) \<or>
    (res = Err OutOfMemory \<and> space_ok s' Rs D \<and> same_pages D s s' \<and> length (vm_free s) < 3 * (npg newsz - npg oldsz))"
proof -
  have "newsz \<le> MAXVA" using assms(5) by (simp add: layout_defs)
  moreover have "uvm_alloc_loop r (npg oldsz * PGSIZE) (npg oldsz * PGSIZE) newsz xperm s = (res, s')"
    using assms(4,5,7) by (simp add: uvm_alloc_def npg(2))
  ultimately show ?thesis using uvm_alloc_loop_ok [of s Rs D r xperm newsz "npg oldsz" "npg oldsz" res s'] assms(1-3,6) unfolding N_def by simp
qed

text \<open>An empty address space with room for pages, for the examples below.\<close>

definition demo_vm :: vmem where
  "demo_vm = \<lparr>vm_pte = (\<lambda>_ _. 0), vm_page = (\<lambda>_. []), vm_refs = replicate NPAGE 0, vm_free = map (\<lambda>i. KERNBASE + i * PGSIZE) [2..<16]\<rparr>"

definition demo_roots :: "nat set" where
  "demo_roots = {KERNBASE, KERNBASE + PGSIZE}"

lemma demo_entries: "table_at demo_vm r p = (if p = TRoot then Some r else None)" "ent demo_vm m = 0"
proof -
  have b: "below demo_vm loc = None" for loc by (simp add: below_def get_pte_def demo_vm_def pte_is_v_def)
  then show "table_at demo_vm r p = (if p = TRoot then Some r else None)" by (cases p) simp_all
  show "ent demo_vm m = 0" using b by (simp add: ent_def xlate_def leaf_at_def)
qed

lemma demo_space: "space_ok demo_vm demo_roots {}"
proof -
  have f: "p \<in> set (vm_free demo_vm) \<longleftrightarrow> (\<exists>i. 2 \<le> i \<and> i < 16 \<and> p = KERNBASE + i * PGSIZE)" for p
    by (auto simp: demo_vm_def image_iff simp del: upt_rec_numeral)
  have "tables demo_vm demo_roots = demo_roots" by (auto simp: tables_def demo_entries)
  moreover have "demo_roots \<inter> set (vm_free demo_vm) = {}" unfolding demo_roots_def by (auto simp: f PGSIZE_def)
  moreover have pg: "is_page p" if "p \<in> set (vm_free demo_vm)" for p
    using that unfolding f by (auto simp: is_page_def PHYSTOP_def KERNBASE_def PGSIZE_def)
  moreover have "distinct (vm_free demo_vm)" by (auto simp: demo_vm_def distinct_map inj_on_def PGSIZE_def)
  ultimately have "tables_ok demo_vm demo_roots" using is_page_addr by (auto simp: tables_ok_def demo_entries)
  moreover have "ref_count (vm_refs demo_vm) p = 0" if "p \<in> set (vm_free demo_vm)" for p
    using page_index_less [OF pg [OF that]] by (simp add: ref_count_def demo_vm_def)
  ultimately show ?thesis using pg by (simp add: space_ok_def) (simp add: demo_vm_def)
qed

text \<open>
  Growing an address space is all or nothing. On success the new pages are there, zeroed and with
  the rights asked for, and no other page of any address space has changed. Otherwise memory was short:
  all pages are as they were and what had been allocated on the way is given back. With three free pages
  for every new one (a page and two tables) growing succeeds.
\<close>

lemma uvm_alloc_all_or_nothing:
  assumes "space_ok s Rs D" "r \<in> Rs" "flags_ok xperm" "oldsz \<le> newsz" "newsz < user_mem_top NPROC"
    "\<forall>m \<in> pages r (npg oldsz) (npg newsz - npg oldsz). m \<notin> D \<and> \<not> pte_is_v (ent s m)" "uvm_alloc r oldsz newsz xperm s = (res, s')"
  shows "(res = Ok newsz \<and> space_ok s' Rs (D \<union> pages r (npg oldsz) (npg newsz - npg oldsz)) \<and> same_pages D s s' \<and>
      (\<forall>m \<in> pages r (npg oldsz) (npg newsz - npg oldsz).
        page_of s' m = replicate PGSIZE 0 \<and> pte_flags (ent s' m) = PTE_R OR PTE_U OR xperm OR PTE_V)) \<or>
    (res = Err OutOfMemory \<and> space_ok s' Rs D \<and> same_pages D s s' \<and> length (vm_free s) < 3 * (npg newsz - npg oldsz))"
  using uvm_alloc_ok [OF assms] by blast

lemma demo_size: "npg 0 = 0" "npg 4096 = 1" "pages r 0 1 = {(r, 0)}" "4096 < user_mem_top NPROC"
  by (simp_all add: npg_def page_up_def PGSIZE_def layout_defs pages_def)

text \<open>
  C19. Fork. If \<^verbatim>\<open>Uvm::copy\<close> succeeds, the child has the memory of its parent, byte by byte and
  with the same rights, and the memory of the parent and of every other address space is unchanged; the
  counts of the shared frames are exact and none of them is writable any more. If it fails, memory was
  short, all pages of all address spaces are as they were and the child has none. It panics only when
  the reference count of a page overflows.
\<close>

theorem fork_copies:
  assumes "space_ok s Rs D" "c \<in> Rs" "pages r 0 (npg sz) \<subseteq> D" "\<forall>i < npg sz. (c, i) \<notin> D \<and> \<not> pte_is_v (ent s (c, i))"
    "uvm_copy r c sz s = (res, s')"
  shows "(res = Ok () \<and> space_ok s' Rs (D \<union> pages c 0 (npg sz)) \<and> same_pages D s s' \<and>
      (\<forall>a. a div PGSIZE < npg sz \<longrightarrow> umem s' c a = umem s r a \<and> uperm (ent s' (c, a div PGSIZE)) = uperm (ent s (r, a div PGSIZE)))) \<or>
    (res = Err OutOfMemory \<and> space_ok s' Rs D \<and> same_pages D s s' \<and> length (vm_free s) < 2 * npg sz) \<or>
    (res = Panic \<and> 65535 \<le> card D + npg sz)"
proof -
  have L: "uvm_copy_loop r c (0 * PGSIZE) sz s = (res, s')" using assms(5) by (simp add: uvm_copy_def)
  have rD: "(r, i) \<in> D" if "i < npg sz" for i using subsetD [OF assms(3), of "(r, i)"] that by simp
  have "space_ok s Rs (D \<union> pages c 0 0)" using assms(1) by simp
  from uvm_copy_loop_ok [OF this assms(2,3) _ _ _ _ L] assms(4) show ?thesis
    using rD by (auto simp: umem_def same_pages_def)
qed

lemma demo_alloc:
  "\<exists>s. uvm_alloc KERNBASE 0 4096 PTE_W demo_vm = (Ok 4096, s) \<and> space_ok s demo_roots {(KERNBASE, 0)} \<and> uperm (ent s (KERNBASE, 0)) = (True, True) \<and>
    \<not> pte_is_v (ent s (KERNBASE + PGSIZE, 0)) \<and> 11 \<le> length (vm_free s)"
proof -
  obtain res s where u: "uvm_alloc KERNBASE 0 4096 PTE_W demo_vm = (res, s)" by fastforce
  have new: "\<forall>m \<in> pages KERNBASE (npg 0) (npg 4096 - npg 0). m \<notin> {} \<and> \<not> pte_is_v (ent demo_vm m)"
    by (simp add: demo_entries pte_is_v_def)
  have r: "KERNBASE \<in> demo_roots" "KERNBASE + PGSIZE \<in> demo_roots" "0 < MAXVA" by (simp_all add: demo_roots_def MAXVA_def)
  have len: "length (vm_free demo_vm) = 14" by (simp add: demo_vm_def)
  from uvm_alloc_ok [OF demo_space r(1) _ _ demo_size(4) new u] have "res = Ok 4096" "space_ok s demo_roots {(KERNBASE, 0)}"
    "same_ents demo_roots {(KERNBASE, 0)} demo_vm s" "pte_flags (ent s (KERNBASE, 0)) = PTE_R OR PTE_U OR PTE_W OR PTE_V" "14 \<le> length (vm_free s) + 3"
    unfolding demo_size(1,2) diff_zero demo_size(3) len by auto
  moreover from this(4) have "pte_is_u (ent s (KERNBASE, 0))" "writable (ent s (KERNBASE, 0))"
    by (simp_all add: pte_tests writable_def bit.conj_disj_distrib2 pte_bits)
  moreover have "ent s (KERNBASE + PGSIZE, 0) = 0" using calculation(3) r by (simp add: same_ents_def demo_entries PGSIZE_def)
  ultimately show ?thesis using u by (simp add: uperm_def pte_is_v_def)
qed

theorem fork_copies_witness:
  "\<exists>s s'. uvm_alloc KERNBASE 0 4096 PTE_W demo_vm = (Ok 4096, s) \<and> uvm_copy KERNBASE (KERNBASE + PGSIZE) 4096 s = (Ok (), s') \<and>
    umem s' (KERNBASE + PGSIZE) 100 = umem s KERNBASE 100"
proof -
  obtain s where s: "uvm_alloc KERNBASE 0 4096 PTE_W demo_vm = (Ok 4096, s)" "space_ok s demo_roots {(KERNBASE, 0)}"
    "\<not> pte_is_v (ent s (KERNBASE + PGSIZE, 0))" "11 \<le> length (vm_free s)" using demo_alloc by blast
  obtain res s' where u: "uvm_copy KERNBASE (KERNBASE + PGSIZE) 4096 s = (res, s')" by fastforce
  have c: "KERNBASE + PGSIZE \<in> demo_roots" "100 div PGSIZE = 0" by (simp_all add: demo_roots_def PGSIZE_def)
  have "pages KERNBASE 0 (npg 4096) \<subseteq> {(KERNBASE, 0)}" "\<forall>i < npg 4096. (KERNBASE + PGSIZE, i) \<notin> {(KERNBASE, 0)} \<and> \<not> pte_is_v (ent s (KERNBASE + PGSIZE, i))"
    using s(3) unfolding demo_size(2) demo_size(3) by (simp_all add: PGSIZE_def)
  from fork_copies [OF s(2) c(1) this u] have "res = Ok ()" "umem s' (KERNBASE + PGSIZE) 100 = umem s KERNBASE 100"
    using s(4) c(2) unfolding demo_size(2) by auto
  then show ?thesis using s(1) u by blast
qed

text \<open>
  C18. Isolation. Copying bytes into the memory of one address space changes no byte of any other
  address space, whether or not they share frames copy-on-write, and no byte outside the range; on
  success the bytes are there and \<^verbatim>\<open>copyin\<close> reads them back. It does not panic. It fails only on
  a page the user may not write, or when fewer pages are free than the range has.
\<close>

theorem copyout_isolated:
  assumes "space_ok s Rs D" "covered D r dst (length src)" "copyout r dst src s = (res, s')"
  shows "space_ok s' Rs D \<and> res \<noteq> Panic \<and>
    (\<forall>r' a. (r', a div PGSIZE) \<in> D \<longrightarrow> \<not> (r' = r \<and> dst \<le> a \<and> a < dst + length src) \<longrightarrow> umem s' r' a = umem s r' a) \<and>
    (res = Ok () \<longrightarrow> (\<forall>i < length src. umem s' r (dst + i) = src ! i) \<and> copyin r dst (length src) s' = Ok src) \<and>
    (\<forall>e. res = Err e \<longrightarrow> (e = BadVirtAddr \<and> (\<exists>i < length src. uperm (ent s (r, (dst + i) div PGSIZE)) \<noteq> (True, True))) \<or>
      (e = OutOfMemory \<and> length (vm_free s) < npg (dst + length src) - dst div PGSIZE))"
proof -
  note c = copyout_ok [OF assms]
  have "copyin r dst (length src) s' = Ok src" if ok: "res = Ok ()"
  proof -
    have b: "umem s' r (dst + i) = src ! i" "pte_is_u (ent s (r, (dst + i) div PGSIZE))" if "i < length src" for i using c ok that by auto
    have "pte_is_u (ent s' (r, (dst + i) div PGSIZE))" if i: "i < length src" for i
    proof -
      have "(r, (dst + i) div PGSIZE) \<in> D" using assms(2) i by (simp add: covered_def)
      then show ?thesis using c b(2) [OF i] by (auto simp: uperm_def)
    qed
    moreover have "map (\<lambda>i. umem s' r (dst + i)) [0..<length src] = src" using b(1) by (intro nth_equalityI) simp_all
    ultimately show ?thesis using copyin_ok [of s' Rs D r dst "length src"] c assms(2) by simp
  qed
  then show ?thesis using c by blast
qed

theorem copyout_isolated_witness:
  "\<exists>s s'. uvm_alloc KERNBASE 0 4096 PTE_W demo_vm = (Ok 4096, s) \<and> copyout KERNBASE 100 [1, 2, 3] s = (Ok (), s') \<and>
    umem s' KERNBASE 101 = 2 \<and> copyin KERNBASE 100 3 s' = Ok [1, 2, 3]"
proof -
  obtain s where s: "uvm_alloc KERNBASE 0 4096 PTE_W demo_vm = (Ok 4096, s)" "space_ok s demo_roots {(KERNBASE, 0)}"
    "uperm (ent s (KERNBASE, 0)) = (True, True)" "11 \<le> length (vm_free s)" using demo_alloc by blast
  obtain res s' where u: "copyout KERNBASE 100 [1, 2, 3] s = (res, s')" by fastforce
  have d: "(100 + i) div PGSIZE = 0" if "i < 3" for i using that by (simp add: PGSIZE_def)
  have cov: "covered {(KERNBASE, 0)} KERNBASE 100 (length [1 :: byte, 2, 3])" using d by (simp add: covered_def)
  have l3: "length [1 :: byte, 2, 3] = 3" by simp
  note C = copyout_isolated [OF s(2) cov u, unfolded l3]
  have "\<not> (\<exists>e. res = Err e)"
  proof
    assume "\<exists>e. res = Err e"
    then have "(\<exists>i < 3. uperm (ent s (KERNBASE, (100 + i) div PGSIZE)) \<noteq> (True, True)) \<or> length (vm_free s) < npg (100 + 3) - 100 div PGSIZE"
      using C by blast
    then show False using s(3,4) d by (auto simp: npg_def page_up_def PGSIZE_def)
  qed
  then have "res = Ok ()" using conjunct1 [OF conjunct2 [OF C]] by (cases res) auto
  moreover from this C have "\<forall>i < 3. umem s' KERNBASE (100 + i) = [1, 2, 3] ! i" "copyin KERNBASE 100 3 s' = Ok [1, 2, 3]" by blast+
  moreover from this(1) have "umem s' KERNBASE (100 + 1) = 2" by (auto dest: spec [of _ 1])
  ultimately show ?thesis using s(1) u by auto
qed

end
