(* ===== verification/Signal.thy ===== *)
theory Signal
  imports Errors Bytes Params
begin

text \<open>
  Signals (\<^verbatim>\<open>crates/kernel/src/signal.rs\<close>): numbers, masks and default actions.
\<close>

definition NSIG :: nat where "NSIG = 32"

definition SIG_DFL :: usize where "SIG_DFL = - 1"

definition SIG_IGN :: usize where "SIG_IGN = - 2"

definition SIGINT :: nat where "SIGINT = 2"
definition SIGKILL :: nat where "SIGKILL = 9"
definition SIGUSR1 :: nat where "SIGUSR1 = 10"
definition SIGUSR2 :: nat where "SIGUSR2 = 12"
definition SIGALRM :: nat where "SIGALRM = 14"
definition SIGTERM :: nat where "SIGTERM = 15"
definition SIGCONT :: nat where "SIGCONT = 18"
definition SIGTSTP :: nat where "SIGTSTP = 20"
definition SIGTTIN :: nat where "SIGTTIN = 21"
definition SIGTTOU :: nat where "SIGTTOU = 22"

lemmas sig_numbers = NSIG_def SIGINT_def SIGKILL_def SIGUSR1_def SIGUSR2_def SIGALRM_def SIGTERM_def SIGCONT_def
  SIGTSTP_def SIGTTIN_def SIGTTOU_def

definition WNOHANG :: usize where "WNOHANG = 0x1"
definition WUNTRACED :: usize where "WUNTRACED = 0x2"
definition WCONTINUED :: usize where "WCONTINUED = 0x4"

datatype sig_default_action = SIgnore | STerminate | SStop | SContinue

definition sig_mask :: "nat \<Rightarrow> u32" where
  "sig_mask sig = (if sig = 0 \<or> NSIG < sig then 0 else push_bit (sig - 1) 1)"

definition default_action :: "nat \<Rightarrow> sig_default_action" where
  "default_action sig =
     (if sig \<in> {SIGKILL, SIGTERM, SIGINT, SIGALRM, SIGUSR1, SIGUSR2} then STerminate
      else if sig \<in> {SIGTSTP, SIGTTIN, SIGTTOU} then SStop
      else if sig = SIGCONT then SContinue
      else SIgnore)"

text \<open>\<^verbatim>\<open>trailing_zeros\<close> on a \<^verbatim>\<open>u32\<close>.\<close>

definition trailing_zeros32 :: "u32 \<Rightarrow> nat" where
  "trailing_zeros32 w = (case filter (\<lambda>i. bit w i) [0..<32] of [] \<Rightarrow> 32 | i # _ \<Rightarrow> i)"

lemma bit_sig_mask: "bit (sig_mask sig) n \<longleftrightarrow> 0 < sig \<and> sig \<le> NSIG \<and> n = sig - 1"
  by (auto simp: sig_mask_def push_bit_of_1 bit_exp_iff NSIG_def)

lemma trailing_zeros32_first:
  assumes "w \<noteq> 0"
  shows "trailing_zeros32 w < 32" "bit w (trailing_zeros32 w)" "n < trailing_zeros32 w \<Longrightarrow> \<not> bit w n"
proof -
  obtain m where m: "bit w m" "m < 32" using assms bit_word_eqI [of w 0] by auto
  obtain i ys where f: "filter (\<lambda>i. bit w i) [0..<32] = i # ys"
    using m filter_empty_conv [of "\<lambda>i. bit w i" "[0..<32]"] by (cases "filter (\<lambda>i. bit w i) [0..<32]") auto
  then have t: "trailing_zeros32 w = i" by (simp add: trailing_zeros32_def)
  from f obtain us vs where us: "[0..<32] = us @ i # vs" "\<forall>u \<in> set us. \<not> bit w u" "bit w i"
    by (auto simp: filter_eq_Cons_iff)
  have i: "length us < 32" using arg_cong [OF us(1), of length] by simp
  have "[0..<32] ! length us = i" by (simp add: us(1))
  then have li: "length us = i" using i by simp
  then have "set us = {0..<i}" using us(1) i by (metis append_eq_conv_conj set_upt take_upt add_0 less_imp_le)
  then show "trailing_zeros32 w < 32" "bit w (trailing_zeros32 w)" "n < trailing_zeros32 w \<Longrightarrow> \<not> bit w n"
    using t us(2,3) i li by auto
qed

end
