(* ===== verification/Proc_State.thy ===== *)
theory Proc_State
  imports File_Ops Uvm Runq Signal
begin

text \<open>
  The state of the process table (\<^verbatim>\<open>crates/kernel/src/proc.rs\<close>) and of what it is built on:
  run queues, address spaces, open files, mappings and shared memory segments.

  A process is its index in the table. \<^verbatim>\<open>Arc<AddrSpace>\<close> and \<^verbatim>\<open>Arc<ShmSegment>\<close> are
  handles into stores. The strong count of an address space is the number of processes that refer to it;
  of a segment it is kept explicitly. The structs of saved registers have fields of one type and are
  functions from the field. The current process and CPU are arguments.
\<close>

unbundle bit_operations_syntax

section \<open>Saved registers\<close>

datatype tfreg =
    Kernel_satp | Kernel_sp | Kernel_trap | Epc | Kernel_hartid
  | Ra | Sp | Gp | Tp | T0 | T1 | T2 | S0 | S1 | A0 | A1 | A2 | A3 | A4 | A5 | A6 | A7
  | S2 | S3 | S4 | S5 | S6 | S7 | S8 | S9 | S10 | S11 | T3 | T4 | T5 | T6

type_synonym trapframe = "tfreg \<Rightarrow> usize"

definition trapframe_default :: trapframe where
  "trapframe_default = (\<lambda>_. 0)"

datatype ctxreg =
    CRa | CSp | CS0 | CS1 | CS2 | CS3 | CS4 | CS5 | CS6 | CS7 | CS8 | CS9 | CS10 | CS11

type_synonym pcontext = "ctxreg \<Rightarrow> usize"

definition context_new :: pcontext where
  "context_new = (\<lambda>_. 0)"

section \<open>Processes\<close>

datatype procstate = UNUSED | USED | SLEEPING | STOPPED | RUNNABLE | RUNNING | ZOMBIE

record procinner =
  pi_state :: procstate
  pi_chan :: nat
  pi_killed :: bool
  pi_xstate :: u32
  pi_pid :: usize
  pi_pgid :: usize
  pi_sid :: usize
  pi_last_cpu :: nat
  pi_pending :: u32
  pi_handlers :: "usize list"
  pi_deadline :: usize
  pi_interval :: usize
  pi_stop_sig :: nat
  pi_stop_reported :: bool
  pi_cont_pending :: bool

definition procinner_new :: procinner where
  "procinner_new = \<lparr>pi_state = UNUSED, pi_chan = 0, pi_killed = False, pi_xstate = 0, pi_pid = 0, pi_pgid = 0, pi_sid = 0,
     pi_last_cpu = 0, pi_pending = 0, pi_handlers = replicate NSIG SIG_DFL, pi_deadline = 0, pi_interval = 0,
     pi_stop_sig = 0, pi_stop_reported = False, pi_cont_pending = False\<rparr>"

record vma =
  v_start :: nat
  v_len :: nat
  v_prot :: usize
  v_flags :: usize
  v_file :: "kfile option"
  v_off :: nat
  v_shm :: "nat option"

record procdata =
  pd_kstack :: nat
  pd_aspace :: "nat option"
  pd_tf :: "(nat \<times> trapframe) option"
  pd_tf_va :: nat
  pd_context :: pcontext
  pd_sig_tf :: trapframe
  pd_sig_active :: bool
  pd_sig_restorer :: usize
  pd_name :: rstr
  pd_is_thread :: bool
  pd_ustack :: nat
  pd_ofile :: "kfile option list"
  pd_cwd :: "nat option"
  pd_mmap_base :: nat
  pd_vmas :: "vma list"

definition procdata_new :: procdata where
  "procdata_new = \<lparr>pd_kstack = 0, pd_aspace = None, pd_tf = None, pd_tf_va = 0, pd_context = context_new,
     pd_sig_tf = trapframe_default, pd_sig_active = False, pd_sig_restorer = 0, pd_name = [], pd_is_thread = False,
     pd_ustack = 0, pd_ofile = replicate NOFILE None, pd_cwd = None, pd_mmap_base = user_mem_top NPROC, pd_vmas = []\<rparr>"

text \<open>An address space has a page table until it is torn down.\<close>

record aspace =
  as_root :: "nat option"
  as_sz :: nat

record shm_seg =
  sg_size :: nat
  sg_pages :: "nat list"
  sg_refs :: nat

record pst =
  p_inner :: "procinner list"
  p_data :: "procdata list"
  p_parents :: "nat option list"
  p_nextid :: usize
  p_init :: "nat option"
  p_rq :: run_queues
  p_as :: "nat \<Rightarrow> aspace"
  p_next_as :: nat
  p_vm :: vmem
  p_ft :: ftable
  p_seg :: "nat \<Rightarrow> shm_seg"
  p_next_seg :: nat
  p_shm :: "nat option list"

type_synonym 'a pop = "pst \<Rightarrow> 'a result \<times> pst"

abbreviation pinner :: "pst \<Rightarrow> nat \<Rightarrow> procinner" where "pinner s i \<equiv> p_inner s ! i"

abbreviation pdata :: "pst \<Rightarrow> nat \<Rightarrow> procdata" where "pdata s i \<equiv> p_data s ! i"

abbreviation pstate :: "pst \<Rightarrow> nat \<Rightarrow> procstate" where "pstate s i \<equiv> pi_state (pinner s i)"

definition upd_inner :: "nat \<Rightarrow> (procinner \<Rightarrow> procinner) \<Rightarrow> pst \<Rightarrow> pst" where
  "upd_inner i f s = s\<lparr>p_inner := (p_inner s)[i := f (pinner s i)]\<rparr>"

definition upd_data :: "nat \<Rightarrow> (procdata \<Rightarrow> procdata) \<Rightarrow> pst \<Rightarrow> pst" where
  "upd_data i f s = s\<lparr>p_data := (p_data s)[i := f (pdata s i)]\<rparr>"

definition upd_as :: "nat \<Rightarrow> (aspace \<Rightarrow> aspace) \<Rightarrow> pst \<Rightarrow> pst" where
  "upd_as a f s = s\<lparr>p_as := (p_as s)(a := f (p_as s a))\<rparr>"

definition pmod :: "(pst \<Rightarrow> pst) \<Rightarrow> unit pop" where
  "pmod f s = (Ok (), f s)"

definition on_vm :: "'a vop \<Rightarrow> 'a pop" where
  "on_vm m s = (case m (p_vm s) of (r, v) \<Rightarrow> (r, s\<lparr>p_vm := v\<rparr>))"

definition on_ft :: "(ftable \<Rightarrow> 'a result \<times> ftable) \<Rightarrow> 'a pop" where
  "on_ft m s = (case m (p_ft s) of (r, t) \<Rightarrow> (r, s\<lparr>p_ft := t\<rparr>))"

text \<open>\<^verbatim>\<open>let _ = e\<close>: the result is ignored, a panic is not.\<close>

definition ignore :: "('s \<Rightarrow> 'a result \<times> 's) \<Rightarrow> 's \<Rightarrow> unit result \<times> 's" where
  "ignore m s = (case m s of (Panic, s1) \<Rightarrow> (Panic, s1) | (_, s1) \<Rightarrow> (Ok (), s1))"

text \<open>A loop whose body may fail.\<close>

fun kfold :: "('x \<Rightarrow> 's \<Rightarrow> unit result \<times> 's) \<Rightarrow> 'x list \<Rightarrow> 's \<Rightarrow> unit result \<times> 's" where
  "kfold f [] s = (Ok (), s)"
| "kfold f (x # xs) s = kbind (f x) (\<lambda>_. kfold f xs) s"

text \<open>The strong count of an address space: the processes that refer to it.\<close>

definition as_count :: "nat \<Rightarrow> pst \<Rightarrow> nat" where
  "as_count a s = length (filter (\<lambda>d. pd_aspace d = Some a) (p_data s))"

definition make_runnable :: "nat \<Rightarrow> nat \<Rightarrow> unit pop" where
  "make_runnable this_cpu idx s =
     (let g = pinner s idx in
      if pi_state g \<noteq> RUNNABLE then
        (let cpu = (if pi_last_cpu g < NCPU then pi_last_cpu g else this_cpu) in
         case runq_push_cpu (p_rq s) cpu idx of
           Ok q \<Rightarrow> (Ok (), (upd_inner idx (\<lambda>g. g\<lparr>pi_state := RUNNABLE, pi_last_cpu := cpu\<rparr>) s)\<lparr>p_rq := q\<rparr>)
         | _ \<Rightarrow> (Panic, s))
      else (Ok (), s))"

end
