(* ===== verification/Mmap.thy ===== *)
theory Mmap
  imports Proc_State
begin

text \<open>
  Memory mappings (\<^verbatim>\<open>mmap.rs\<close>, the mapping part of \<^verbatim>\<open>proc.rs\<close>, and \<^verbatim>\<open>ipc.rs\<close> in
  \<^verbatim>\<open>crates/kernel/src\<close>): areas of an address space backed by nothing, a file or a shared
  segment, mapped page by page on the first access, and written back when a shared file mapping goes away.

  A second reference to a file, an inode or a segment that is taken and dropped inside one operation,
  while another one is held, leaves the counts as they were and does not appear here.
\<close>

unbundle bit_operations_syntax

section \<open>Areas\<close>

definition PROT_READ :: usize where "PROT_READ = 0x1"
definition PROT_WRITE :: usize where "PROT_WRITE = 0x2"
definition PROT_EXEC :: usize where "PROT_EXEC = 0x4"
definition MAP_SHARED :: usize where "MAP_SHARED = 0x1"
definition MAP_PRIVATE :: usize where "MAP_PRIVATE = 0x2"
definition MAP_ANON :: usize where "MAP_ANON = 0x4"

definition v_end_req :: "vma \<Rightarrow> nat" where "v_end_req v = v_start v + v_len v"

definition v_len_pg :: "vma \<Rightarrow> nat" where "v_len_pg v = page_up (v_len v)"

definition v_end_pg :: "vma \<Rightarrow> nat" where "v_end_pg v = v_start v + v_len_pg v"

definition v_contains_pg :: "vma \<Rightarrow> nat \<Rightarrow> bool" where
  "v_contains_pg v va \<longleftrightarrow> v_start v \<le> va \<and> va < v_end_pg v"

definition prot_perm :: "usize \<Rightarrow> usize" where
  "prot_perm prot =
     (let p0 = PTE_U;
          p1 = (if prot AND PROT_READ \<noteq> 0 then p0 OR PTE_R else p0);
          p2 = (if prot AND PROT_WRITE \<noteq> 0 then p1 OR PTE_W else p1)
      in if prot AND PROT_EXEC \<noteq> 0 then p2 OR PTE_X else p2)"

definition v_perm :: "vma \<Rightarrow> usize" where "v_perm v = prot_perm (v_prot v)"

definition v_is_shared :: "vma \<Rightarrow> bool" where "v_is_shared v \<longleftrightarrow> v_flags v AND MAP_SHARED \<noteq> 0"

definition v_is_anon :: "vma \<Rightarrow> bool" where "v_is_anon v \<longleftrightarrow> v_flags v AND MAP_ANON \<noteq> 0"

definition v_is_shm :: "vma \<Rightarrow> bool" where "v_is_shm v \<longleftrightarrow> v_shm v \<noteq> None"

section \<open>References\<close>

text \<open>The end of the last reference to a segment drops its pages.\<close>

definition seg_drop :: "nat \<Rightarrow> unit pop" where
  "seg_drop h s =
     (let sg = p_seg s h; s1 = s\<lparr>p_seg := (p_seg s)(h := sg\<lparr>sg_refs := sg_refs sg - 1\<rparr>)\<rparr> in
      if sg_refs sg = 1 then kfold (\<lambda>pa. on_vm (drop_page pa)) (sg_pages sg) s1 else (Ok (), s1))"

definition seg_clone :: "nat \<Rightarrow> pst \<Rightarrow> pst" where
  "seg_clone h s = s\<lparr>p_seg := (p_seg s)(h := (p_seg s h)\<lparr>sg_refs := sg_refs (p_seg s h) + 1\<rparr>)\<rparr>"

definition vma_drop :: "vma \<Rightarrow> unit pop" where
  "vma_drop v =
     kbind (case v_file v of Some f \<Rightarrow> on_ft (file_drop f) | None \<Rightarrow> kret ()) (\<lambda>_.
     case v_shm v of Some h \<Rightarrow> seg_drop h | None \<Rightarrow> kret ())"

definition vma_clone :: "vma \<Rightarrow> pst \<Rightarrow> pst" where
  "vma_clone v s =
     (let s1 = (case v_file v of Some f \<Rightarrow> s\<lparr>p_ft := snd (file_clone f (p_ft s))\<rparr> | None \<Rightarrow> s)
      in case v_shm v of Some h \<Rightarrow> seg_clone h s1 | None \<Rightarrow> s1)"

section \<open>Writing back\<close>

record writeback =
  wb_ip :: nat
  wb_off :: u32
  wb_page :: nat
  wb_doff :: nat
  wb_len :: nat

definition on_kfs :: "'a kop \<Rightarrow> 'a pop" where
  "on_kfs m = on_ft (on_k m)"

definition wb_drop :: "writeback \<Rightarrow> unit pop" where
  "wb_drop wb = kbind (on_kfs (iput (wb_ip wb))) (\<lambda>_. pmod (\<lambda>s. s\<lparr>p_vm := page_free (wb_page wb) (p_vm s)\<rparr>))"

text \<open>\<^verbatim>\<open>Writeback::flush\<close>: the question mark after the write leaves the function, past the end of
  the transaction.\<close>

definition wb_flush :: "writeback \<Rightarrow> unit pop" where
  "wb_flush wb s =
     (let t = p_ft s; page = vm_page (p_vm s) (wb_page wb); io1 = begin_tx (ft_io t) in
      case kbind (ilock_h (wb_ip wb))
             (\<lambda>_. on_inode (wb_ip wb) (inode_write (\<lambda>src n. (slice src n page, Ok ())) (wb_doff wb) (wb_off wb) (wb_len wb))) (io_k io1) of
        (Ok _, k) \<Rightarrow> wb_drop wb (s\<lparr>p_ft := t\<lparr>ft_io := end_tx (io1\<lparr>io_k := k\<rparr>)\<rparr>\<rparr>)
      | (Err e, k) \<Rightarrow> kbind (wb_drop wb) (\<lambda>_. kfail e) (s\<lparr>p_ft := t\<lparr>ft_io := io1\<lparr>io_k := k\<rparr>\<rparr>\<rparr>)
      | (Panic, k) \<Rightarrow> (Panic, s\<lparr>p_ft := t\<lparr>ft_io := io1\<lparr>io_k := k\<rparr>\<rparr>\<rparr>))"

text \<open>The first failure drops the rest unwritten.\<close>

fun flush_all :: "writeback list \<Rightarrow> unit pop" where
  "flush_all [] s = (Ok (), s)"
| "flush_all (wb # wbs) s =
     (case wb_flush wb s of
        (Ok _, s1) \<Rightarrow> flush_all wbs s1
      | (Err e, s1) \<Rightarrow> kbind (kfold wb_drop wbs) (\<lambda>_. kfail e) s1
      | (Panic, s1) \<Rightarrow> (Panic, s1))"

section \<open>Unmapping\<close>

text \<open>One mapped page of an area.\<close>

definition save_page :: "vma \<Rightarrow> nat \<Rightarrow> nat \<Rightarrow> writeback list \<Rightarrow> pst \<Rightarrow> unit result \<times> writeback list \<times> pst" where
  "save_page v a pa wbs s =
     (if \<not> (v_is_shared v \<and> \<not> v_is_anon v) then (Ok (), wbs, s)
      else
        (case v_file v of
           None \<Rightarrow> (Ok (), wbs, s)
         | Some f \<Rightarrow>
             (case vf_inode (ft_vf (p_ft s) (f_h f)) of
                None \<Rightarrow> (Ok (), wbs, s)
              | Some ip \<Rightarrow>
                  (let page_off = a - v_start v;
                       write_start = max a (v_start v);
                       write_end = min (a + PGSIZE) (v_end_req v);
                       n = write_end - write_start;
                       file_off = v_off v + page_off + (write_start - a)
                   in if \<not> write_start < write_end then (Ok (), wbs, s)
                      else if 2 ^ 32 \<le> file_off then (Err InvalidArgument, wbs, s)
                      else
                        (case page_new (p_vm s) of
                           None \<Rightarrow> (Err OutOfMemory, wbs, s)
                         | Some (p, vm) \<Rightarrow>
                             (Ok (),
                              wbs @ [\<lparr>wb_ip = ip, wb_off = of_nat file_off, wb_page = p, wb_doff = write_start - a, wb_len = n\<rparr>],
                              s\<lparr>p_vm := vm\<lparr>vm_page := (vm_page vm)(p := vm_page vm pa)\<rparr>,
                                p_ft := (p_ft s)\<lparr>ft_io := (ft_io (p_ft s))\<lparr>io_k := idup ip (io_k (ft_io (p_ft s)))\<rparr>\<rparr>\<rparr>))))))"

function munmap_vma_range :: "nat \<Rightarrow> vma \<Rightarrow> nat \<Rightarrow> nat \<Rightarrow> writeback list \<Rightarrow> pst \<Rightarrow> unit result \<times> writeback list \<times> pst" where
  "munmap_vma_range root v a end_a wbs s =
     (if a < end_a then
        (case walk root a False (p_vm s) of
           (Panic, vm) \<Rightarrow> (Panic, wbs, s)
         | (Ok (Some loc), vm) \<Rightarrow>
             (let pte = get_pte loc vm in
              if pte_is_v pte \<and> pte_is_leaf pte then
                (case save_page v a (pte_to_pa pte) wbs s of
                   (Ok _, wbs1, s1) \<Rightarrow>
                     (case unmap root a 1 True (p_vm s1) of
                        (Ok _, vm2) \<Rightarrow> munmap_vma_range root v (a + PGSIZE) end_a wbs1 (s1\<lparr>p_vm := vm2\<rparr>)
                      | (Err e, vm2) \<Rightarrow> (Err e, wbs1, s1\<lparr>p_vm := vm2\<rparr>)
                      | (Panic, vm2) \<Rightarrow> (Panic, wbs1, s1\<lparr>p_vm := vm2\<rparr>))
                 | (Err e, wbs1, s1) \<Rightarrow> (Err e, wbs1, s1)
                 | (Panic, wbs1, s1) \<Rightarrow> (Panic, wbs1, s1))
              else munmap_vma_range root v (a + PGSIZE) end_a wbs s)
         | (_, vm) \<Rightarrow> munmap_vma_range root v (a + PGSIZE) end_a wbs s)
      else (Ok (), wbs, s))"
  by pat_completeness auto
termination
  by (relation "measure (\<lambda>(root, v, a, end_a, wbs, s). end_a - a)") (auto simp: PGSIZE_def)

declare munmap_vma_range.simps [simp del]

text \<open>What remains of an area after the part from \<open>a\<close> to \<open>b\<close> is gone. The field \<^verbatim>\<open>len\<close> of the
  area is the requested length, which need not be a multiple of the page size.\<close>

definition vma_cut :: "vma \<Rightarrow> nat \<Rightarrow> nat \<Rightarrow> vma list" where
  "vma_cut v a b =
     (if a = v_start v \<and> b = v_end_pg v then []
      else if a = v_start v then
        [v\<lparr>v_start := b, v_off := v_off v + (b - v_start v), v_len := v_len v - (b - v_start v)\<rparr>]
      else if b = v_end_pg v then [v\<lparr>v_len := v_len v - (v_end_pg v - a)\<rparr>]
      else
        [v\<lparr>v_len := min (v_len v) (a - v_start v)\<rparr>,
         v\<lparr>v_start := b, v_off := v_off v + (b - v_start v), v_len := min (v_len v - (b - v_start v)) (v_end_pg v - b)\<rparr>])"

text \<open>The references of what remains: dropped with the area, doubled by a split.\<close>

definition vma_keep :: "vma \<Rightarrow> vma list \<Rightarrow> unit pop" where
  "vma_keep v vs s = (case vs of [] \<Rightarrow> vma_drop v s | [_] \<Rightarrow> (Ok (), s) | _ \<Rightarrow> (Ok (), vma_clone v s))"

fun munmap_loop :: "nat \<Rightarrow> nat \<Rightarrow> nat \<Rightarrow> vma list \<Rightarrow> writeback list \<Rightarrow> pst \<Rightarrow> unit result \<times> vma list \<times> writeback list \<times> pst" where
  "munmap_loop root start end_a [] wbs s = (Ok (), [], wbs, s)"
| "munmap_loop root start end_a (v # vs) wbs s =
     (let a = max start (v_start v); b = min end_a (v_end_pg v) in
      if b \<le> a then
        (case munmap_loop root start end_a vs wbs s of (r, vs', wbs', s') \<Rightarrow> (r, v # vs', wbs', s'))
      else if v_is_shm v \<and> (a \<noteq> v_start v \<or> b \<noteq> v_end_pg v) then (Err InvalidArgument, v # vs, wbs, s)
      else
        (case munmap_vma_range root v a b wbs s of
           (Err e, wbs1, s1) \<Rightarrow> (Err e, v # vs, wbs1, s1)
         | (Panic, wbs1, s1) \<Rightarrow> (Panic, v # vs, wbs1, s1)
         | (Ok _, wbs1, s1) \<Rightarrow>
             (case vma_keep v (vma_cut v a b) s1 of
                (Ok _, s2) \<Rightarrow>
                  (case munmap_loop root start end_a vs wbs1 s2 of
                     (r, vs', wbs', s') \<Rightarrow> (r, vma_cut v a b @ vs', wbs', s'))
              | (Err e, s2) \<Rightarrow> (Err e, vs, wbs1, s2)
              | (Panic, s2) \<Rightarrow> (Panic, vs, wbs1, s2))))"

text \<open>The page table of a process; \<^verbatim>\<open>unwrap\<close> panics without one.\<close>

definition with_root :: "nat \<Rightarrow> (nat \<Rightarrow> nat \<Rightarrow> 'a pop) \<Rightarrow> 'a pop" where
  "with_root me f s =
     (case pd_aspace (pdata s me) of
        None \<Rightarrow> (Panic, s)
      | Some a \<Rightarrow> (case as_root (p_as s a) of None \<Rightarrow> (Panic, s) | Some root \<Rightarrow> f a root s))"

text \<open>Rounding up wraps around at the width of \<^verbatim>\<open>usize\<close>, and so does the end of the range.\<close>

abbreviation pg_up :: "nat \<Rightarrow> nat" where "pg_up n \<equiv> unat (pgroundup (of_nat n))"

definition munmap :: "nat \<Rightarrow> nat \<Rightarrow> nat \<Rightarrow> unit pop" where
  "munmap me uva len =
     (if \<not> PGSIZE dvd uva \<or> len = 0 then kfail InvalidArgument
      else with_root me (\<lambda>a root s.
        case munmap_loop root uva ((uva + pg_up len) mod 2 ^ 64) (pd_vmas (pdata s me)) [] s of
          (Ok _, vs, wbs, s1) \<Rightarrow> flush_all wbs (upd_data me (\<lambda>d. d\<lparr>pd_vmas := vs\<rparr>) s1)
        | (Err e, vs, wbs, s1) \<Rightarrow> kbind (kfold wb_drop wbs) (\<lambda>_. kfail e) (upd_data me (\<lambda>d. d\<lparr>pd_vmas := vs\<rparr>) s1)
        | (Panic, vs, wbs, s1) \<Rightarrow> (Panic, s1)))"

fun munmap_areas :: "nat \<Rightarrow> vma list \<Rightarrow> writeback list \<Rightarrow> pst \<Rightarrow> unit result \<times> writeback list \<times> pst" where
  "munmap_areas root [] wbs s = (Ok (), wbs, s)"
| "munmap_areas root (v # vs) wbs s =
     (case munmap_vma_range root v (v_start v) (v_start v + v_len_pg v) wbs s of
        (Panic, wbs1, s1) \<Rightarrow> (Panic, wbs1, s1)
      | (_, wbs1, s1) \<Rightarrow>
          (case vma_drop v s1 of
             (Panic, s2) \<Rightarrow> (Panic, wbs1, s2)
           | (_, s2) \<Rightarrow> munmap_areas root vs wbs1 s2))"

definition munmap_all :: "nat \<Rightarrow> nat \<Rightarrow> pst \<Rightarrow> unit result \<times> writeback list \<times> pst" where
  "munmap_all me root s = munmap_areas root (pd_vmas (pdata s me)) [] (upd_data me (\<lambda>d. d\<lparr>pd_vmas := []\<rparr>) s)"

section \<open>Mapping\<close>

definition alloc_mmap_va :: "nat \<Rightarrow> nat \<Rightarrow> nat \<Rightarrow> nat pop" where
  "alloc_mmap_va me sz len s =
     (let len_pg = pg_up len; base0 = pd_mmap_base (pdata s me) in
      if len_pg = 0 then (Err InvalidArgument, s)
      else if base0 < len_pg then (Err NoBufferSpace, s)
      else
        (let base = page_down (base0 - len_pg) in
         if base < page_up sz then (Err NoBufferSpace, s)
         else (Ok base, upd_data me (\<lambda>d. d\<lparr>pd_mmap_base := base\<rparr>) s)))"

text \<open>The file of a mapping and the checks on it.\<close>

definition mmap_file :: "nat \<Rightarrow> usize \<Rightarrow> usize \<Rightarrow> nat \<Rightarrow> pst \<Rightarrow> kfile option result" where
  "mmap_file me prot flags fd s =
     (if flags AND MAP_ANON \<noteq> 0 then Ok None
      else if length (pd_ofile (pdata s me)) \<le> fd then Err FileDescriptorTooLarge
      else
        (case pd_ofile (pdata s me) ! fd of
           None \<Rightarrow> Err BadFileDescriptor
         | Some f \<Rightarrow>
             if prot AND PROT_READ \<noteq> 0 \<and> \<not> f_readable f then Err PermissionDenied
             else if flags AND MAP_SHARED \<noteq> 0 \<and> prot AND PROT_WRITE \<noteq> 0 \<and> \<not> f_writable f then Err PermissionDenied
             else if vf_inode (ft_vf (p_ft s) (f_h f)) = None then Err InvalidArgument
             else Ok (Some f)))"

text \<open>A failed allocation of addresses drops the reference to the file again.\<close>

definition mmap :: "nat \<Rightarrow> nat \<Rightarrow> nat \<Rightarrow> usize \<Rightarrow> usize \<Rightarrow> nat \<Rightarrow> nat \<Rightarrow> nat pop" where
  "mmap me uva len prot flags fd offset s =
     (if uva \<noteq> 0 \<or> len = 0 \<or> \<not> PGSIZE dvd offset then (Err InvalidArgument, s)
      else if (flags AND MAP_SHARED \<noteq> 0) = (flags AND MAP_PRIVATE \<noteq> 0) then (Err InvalidArgument, s)
      else
        (case mmap_file me prot flags fd s of
           Err e \<Rightarrow> (Err e, s)
         | Panic \<Rightarrow> (Panic, s)
         | Ok file \<Rightarrow>
             (case pd_aspace (pdata s me) of
                None \<Rightarrow> (Panic, s)
              | Some a \<Rightarrow>
                  (case alloc_mmap_va me (as_sz (p_as s a)) len s of
                     (Ok start, s1) \<Rightarrow>
                       (let v = \<lparr>v_start = start, v_len = len, v_prot = prot, v_flags = flags, v_file = file, v_off = offset, v_shm = None\<rparr>
                        in (Ok start, upd_data me (\<lambda>d. d\<lparr>pd_vmas := pd_vmas d @ [v]\<rparr>) (vma_clone v s1)))
                   | (Err e, s1) \<Rightarrow> (Err e, s1)
                   | (Panic, s1) \<Rightarrow> (Panic, s1)))))"

section \<open>Page faults\<close>

datatype exception = LoadPageFault | StorePageFault | InstructionPageFault | OtherException

definition fault_allowed :: "exception \<Rightarrow> usize \<Rightarrow> bool" where
  "fault_allowed cause prot \<longleftrightarrow>
     (case cause of
        LoadPageFault \<Rightarrow> prot AND PROT_READ \<noteq> 0
      | StorePageFault \<Rightarrow> prot AND PROT_WRITE \<noteq> 0
      | InstructionPageFault \<Rightarrow> prot AND PROT_EXEC \<noteq> 0
      | OtherException \<Rightarrow> True)"

text \<open>Is there a user page at this address?\<close>

definition user_mapped :: "nat \<Rightarrow> nat \<Rightarrow> vmem \<Rightarrow> bool result" where
  "user_mapped root va vm =
     (case walk root va False vm of
        (Panic, _) \<Rightarrow> Panic
      | (Ok (Some loc), _) \<Rightarrow> (let pte = get_pte loc vm in Ok (pte_is_v pte \<and> pte_is_leaf pte \<and> pte_is_u pte))
      | _ \<Rightarrow> Ok False)"

text \<open>The contents of a new page: the page of the file, or zeros. Reading stores into the page through
  the kernel address of the page.\<close>

definition fault_fill :: "vma \<Rightarrow> nat \<Rightarrow> nat \<Rightarrow> unit pop" where
  "fault_fill v va p s =
     (if v_is_anon v then (Ok (), s)
      else
        (case v_file v of
           None \<Rightarrow> (Ok (), s)
         | Some f \<Rightarrow>
             (case vf_inode (ft_vf (p_ft s) (f_h f)) of
                None \<Rightarrow> (Ok (), s)
              | Some ip \<Rightarrow>
                  (let file_off = v_off v + (va - v_start v) in
                   if 2 ^ 32 \<le> file_off then (Ok (), s)
                   else
                     (case on_kfs (ilock_h ip) s of
                        (Ok _, s1) \<Rightarrow>
                          (let k = io_k (ft_io (p_ft s1)) in
                           case inode_read (\<lambda>dst bs page. (patch dst bs page, Ok ())) 0 (of_nat file_off) PGSIZE
                                  (mi_data (k_node k ip), k_fs k) (vm_page (p_vm s1) p) of
                             (r, page) \<Rightarrow>
                               (case r of Ok _ \<Rightarrow> Ok () | Err e \<Rightarrow> Err e | Panic \<Rightarrow> Panic,
                                s1\<lparr>p_vm := (p_vm s1)\<lparr>vm_page := (vm_page (p_vm s1))(p := page)\<rparr>\<rparr>))
                      | (Err e, s1) \<Rightarrow> (Err e, s1)
                      | (Panic, s1) \<Rightarrow> (Panic, s1))))))"

text \<open>Mapping the page of a segment.\<close>

definition fault_shm :: "nat \<Rightarrow> vma \<Rightarrow> nat \<Rightarrow> nat \<Rightarrow> unit pop" where
  "fault_shm root v h va s =
     (let pages = sg_pages (p_seg s h); i = (va - v_start v) div PGSIZE in
      if length pages \<le> i then (Err InvalidArgument, s)
      else kbind (on_vm (mappages root va (pages ! i) PGSIZE (v_perm v))) (\<lambda>_ s1.
        case page_ref_inc (vm_refs (p_vm s1)) (pages ! i) of
          Ok rc \<Rightarrow> (Ok (), s1\<lparr>p_vm := (p_vm s1)\<lparr>vm_refs := rc\<rparr>\<rparr>)
        | _ \<Rightarrow> (Panic, s1)) s)"

text \<open>The new page is filled without the lock on the address space, and then mapped unless another
  thread has mapped one in the meantime.\<close>

definition fault_map :: "nat \<Rightarrow> vma \<Rightarrow> nat \<Rightarrow> nat \<Rightarrow> unit pop" where
  "fault_map root v va p s =
     (case user_mapped root va (p_vm s) of
        Ok True \<Rightarrow> (Ok (), s\<lparr>p_vm := page_free p (p_vm s)\<rparr>)
      | Ok False \<Rightarrow>
          (case mappages root va p PGSIZE (v_perm v) (p_vm s) of
             (Ok _, vm1) \<Rightarrow>
               (case page_ref_init (vm_refs vm1) p of
                  Ok rc \<Rightarrow> (Ok (), s\<lparr>p_vm := vm1\<lparr>vm_refs := rc\<rparr>\<rparr>)
                | _ \<Rightarrow> (Panic, s\<lparr>p_vm := vm1\<rparr>))
           | (Err e, vm1) \<Rightarrow> (Err e, s\<lparr>p_vm := page_free p vm1\<rparr>)
           | (Panic, vm1) \<Rightarrow> (Panic, s\<lparr>p_vm := vm1\<rparr>))
      | _ \<Rightarrow> (Panic, s))"

definition handle_user_page_fault :: "nat \<Rightarrow> nat \<Rightarrow> exception \<Rightarrow> unit pop" where
  "handle_user_page_fault me fault_addr cause s =
     (let va = page_down fault_addr in
      case find (\<lambda>v. v_contains_pg v va) (pd_vmas (pdata s me)) of
        None \<Rightarrow> (Err BadVirtAddr, s)
      | Some v \<Rightarrow>
          if \<not> fault_allowed cause (v_prot v) then (Err PermissionDenied, s)
          else with_root me (\<lambda>a root s.
            case user_mapped root va (p_vm s) of
              Ok True \<Rightarrow> (Err BadVirtAddr, s)
            | Ok False \<Rightarrow>
                (case v_shm v of
                   Some h \<Rightarrow> fault_shm root v h va s
                 | None \<Rightarrow>
                     (case page_new (p_vm s) of
                        None \<Rightarrow> (Err OutOfMemory, s)
                      | Some (p, vm) \<Rightarrow>
                          (case fault_fill v va p (s\<lparr>p_vm := vm\<rparr>) of
                             (Ok _, s1) \<Rightarrow> fault_map root v va p s1
                           | (Err e, s1) \<Rightarrow> (Err e, s1\<lparr>p_vm := page_free p (p_vm s1)\<rparr>)
                           | (Panic, s1) \<Rightarrow> (Panic, s1))))
            | _ \<Rightarrow> (Panic, s)) s)"

section \<open>Shared memory segments\<close>

definition SHM_MAX_PAGES :: nat where "SHM_MAX_PAGES = 64"

definition prot_to_perm :: "usize \<Rightarrow> usize result" where
  "prot_to_perm prot =
     (let valid = PROT_READ OR PROT_WRITE OR PROT_EXEC in
      if prot AND NOT valid \<noteq> 0 \<or> prot AND valid = 0 then Err InvalidArgument else Ok (prot_perm prot))"

text \<open>The pages of a new segment; without memory the ones already there are dropped.\<close>

fun shm_pages :: "nat \<Rightarrow> nat list \<Rightarrow> pst \<Rightarrow> nat list result \<times> pst" where
  "shm_pages 0 pages s = (Ok pages, s)"
| "shm_pages (Suc n) pages s =
     (case page_new (p_vm s) of
        None \<Rightarrow> kbind (kfold (\<lambda>pa. on_vm (drop_page pa)) pages) (\<lambda>_. kfail OutOfMemory) s
      | Some (p, vm) \<Rightarrow>
          (case page_ref_init (vm_refs vm) p of
             Ok rc \<Rightarrow> shm_pages n (pages @ [p]) (s\<lparr>p_vm := vm\<lparr>vm_refs := rc\<rparr>\<rparr>)
           | _ \<Rightarrow> (Panic, s)))"

definition shm_create :: "nat \<Rightarrow> nat pop" where
  "shm_create n =
     (let npages = pg_up n div PGSIZE in
      if n = 0 \<or> npages = 0 \<or> SHM_MAX_PAGES < npages then kfail InvalidArgument
      else kbind (shm_pages npages []) (\<lambda>pages s.
        let h = p_next_seg s;
            s1 = s\<lparr>p_seg := (p_seg s)(h := \<lparr>sg_size = n, sg_pages = pages, sg_refs = 1\<rparr>), p_next_seg := h + 1\<rparr>
        in case free_slot (p_shm s) 0 of
             Some i \<Rightarrow> (Ok (i + 1), s1\<lparr>p_shm := (p_shm s)[i := Some h]\<rparr>)
           | None \<Rightarrow> kbind (seg_drop h) (\<lambda>_. kfail NoBufferSpace) s1))"

definition shm_get :: "nat \<Rightarrow> pst \<Rightarrow> nat result" where
  "shm_get i s =
     (if i = 0 then Err InvalidArgument
      else if i - 1 < length (p_shm s) then (case p_shm s ! (i - 1) of Some h \<Rightarrow> Ok h | None \<Rightarrow> Err NotFound)
      else Err NotFound)"

fun attach_loop :: "nat \<Rightarrow> nat \<Rightarrow> usize \<Rightarrow> nat list \<Rightarrow> nat \<Rightarrow> unit pop" where
  "attach_loop root start perm [] i s = (Ok (), s)"
| "attach_loop root start perm (pa # pas) i s =
     (case mappages root (start + i * PGSIZE) pa PGSIZE perm (p_vm s) of
        (Ok _, vm1) \<Rightarrow>
          (case page_ref_inc (vm_refs vm1) pa of
             Ok rc \<Rightarrow> attach_loop root start perm pas (i + 1) (s\<lparr>p_vm := vm1\<lparr>vm_refs := rc\<rparr>\<rparr>)
           | _ \<Rightarrow> (Panic, s\<lparr>p_vm := vm1\<rparr>))
      | (Err e, vm1) \<Rightarrow>
          (if 0 < i then kbind (on_vm (unmap root start i True)) (\<lambda>_. kfail e) (s\<lparr>p_vm := vm1\<rparr>)
           else (Err e, s\<lparr>p_vm := vm1\<rparr>))
      | (Panic, vm1) \<Rightarrow> (Panic, s\<lparr>p_vm := vm1\<rparr>))"

definition shm_attach :: "nat \<Rightarrow> nat \<Rightarrow> usize \<Rightarrow> nat pop" where
  "shm_attach me i prot s =
     (case prot_to_perm prot of
        Err e \<Rightarrow> (Err e, s)
      | Panic \<Rightarrow> (Panic, s)
      | Ok perm \<Rightarrow>
          (case shm_get i s of
             Err e \<Rightarrow> (Err e, s)
           | Panic \<Rightarrow> (Panic, s)
           | Ok h \<Rightarrow>
               (let prev_base = pd_mmap_base (pdata s me); sg = p_seg s h in
                with_root me (\<lambda>a root.
                  kbind (alloc_mmap_va me (as_sz (p_as s a)) (sg_size sg)) (\<lambda>start s1.
                  case attach_loop root start perm (sg_pages sg) 0 s1 of
                    (Ok _, s2) \<Rightarrow>
                      (let v = \<lparr>v_start = start, v_len = sg_size sg, v_prot = prot, v_flags = MAP_SHARED OR MAP_ANON,
                                 v_file = None, v_off = 0, v_shm = Some h\<rparr>
                       in (Ok start, upd_data me (\<lambda>d. d\<lparr>pd_vmas := pd_vmas d @ [v]\<rparr>) (vma_clone v s2)))
                  | (Err e, s2) \<Rightarrow> (Err e, upd_data me (\<lambda>d. d\<lparr>pd_mmap_base := prev_base\<rparr>) s2)
                  | (Panic, s2) \<Rightarrow> (Panic, s2))) s)))"

definition shm_detach :: "nat \<Rightarrow> nat \<Rightarrow> unit pop" where
  "shm_detach me uva s =
     (if \<not> PGSIZE dvd uva then (Err InvalidArgument, s)
      else
        (case find (\<lambda>v. v_is_shm v \<and> v_start v = uva) (pd_vmas (pdata s me)) of
           None \<Rightarrow> (Err BadVirtAddr, s)
         | Some v \<Rightarrow> munmap me uva (v_len v) s))"

definition shm_destroy :: "nat \<Rightarrow> unit pop" where
  "shm_destroy i s =
     (if i = 0 \<or> length (p_shm s) \<le> i - 1 then (Err InvalidArgument, s)
      else
        (case p_shm s ! (i - 1) of
           Some h \<Rightarrow> seg_drop h (s\<lparr>p_shm := (p_shm s)[i - 1 := None]\<rparr>)
         | None \<Rightarrow> (Err NotFound, s)))"

end
