(* ===== verification/Proc_Sig.thy ===== *)
theory Proc_Sig
  imports Proc_State
begin

text \<open>
  Sleeping, waking, scheduling and signals (\<^verbatim>\<open>crates/kernel/src/proc.rs\<close>).

  Every operation on the whole table takes the lock of one process after the other. The part inside
  the lock of process \<open>i\<close> is a definition of its own (\<open>wake_one\<close>, \<open>signal_post\<close>, \<open>tick_one\<close>), and the
  operation folds it over the table. Switching contexts is not modelled: an operation that calls
  \<^verbatim>\<open>sched\<close> ends with the state it leaves to the scheduler. \<open>penv\<close> holds what an operation reads
  of its surroundings: the CPU and the process it runs on, and addresses the linker and the allocator chose.
\<close>

unbundle bit_operations_syntax

record penv =
  en_cpu :: nat
  en_me :: nat
  en_trampoline :: nat
  en_fork_ret :: usize
  en_addr :: "nat \<Rightarrow> nat"

definition procs :: "nat list" where "procs = [0..<NPROC]"

section \<open>Sleeping and waking\<close>

definition sleep_on :: "nat \<Rightarrow> nat \<Rightarrow> pst \<Rightarrow> pst" where
  "sleep_on me chan = upd_inner me (\<lambda>g. g\<lparr>pi_chan := chan, pi_state := SLEEPING\<rparr>)"

definition sleep_end :: "nat \<Rightarrow> pst \<Rightarrow> pst" where
  "sleep_end me = upd_inner me (\<lambda>g. g\<lparr>pi_chan := 0\<rparr>)"

definition wake_one :: "nat \<Rightarrow> nat option \<Rightarrow> nat \<Rightarrow> nat \<Rightarrow> unit pop" where
  "wake_one cpu cur chan i s =
     (if cur = Some i then (Ok (), s)
      else if pstate s i = SLEEPING \<and> pi_chan (pinner s i) = chan then make_runnable cpu i s
      else (Ok (), s))"

definition wakeup :: "nat \<Rightarrow> nat option \<Rightarrow> nat \<Rightarrow> unit pop" where
  "wakeup cpu cur chan = kfold (wake_one cpu cur chan) procs"

section \<open>The scheduler\<close>

text \<open>One round of the loop in two parts, with and without the lock of the process it chose.\<close>

definition sched_pop :: "nat \<Rightarrow> nat option pop" where
  "sched_pop cpu s =
     (case runq_pop (p_rq s) cpu of
        Ok (r, q) \<Rightarrow> (Ok r, s\<lparr>p_rq := q\<rparr>)
      | Err e \<Rightarrow> (Err e, s)
      | Panic \<Rightarrow> (Panic, s))"

definition sched_enter :: "nat \<Rightarrow> nat \<Rightarrow> pst \<Rightarrow> bool \<times> pst" where
  "sched_enter cpu i s =
     (if pstate s i \<noteq> RUNNABLE then (False, s)
      else (True, upd_inner i (\<lambda>g. g\<lparr>pi_state := RUNNING, pi_last_cpu := cpu\<rparr>) s))"

text \<open>The assertion of \<^verbatim>\<open>sched\<close> on the state of the process.\<close>

definition sched :: "nat \<Rightarrow> unit pop" where
  "sched i s = (if pstate s i = RUNNING then (Panic, s) else (Ok (), s))"

definition yielding :: "nat \<Rightarrow> nat \<Rightarrow> unit pop" where
  "yielding cpu me = kbind (make_runnable cpu me) (\<lambda>_. sched me)"

section \<open>Posting signals\<close>

definition sig_handler :: "nat \<Rightarrow> procinner \<Rightarrow> usize" where
  "sig_handler sig g = pi_handlers g ! (sig - 1)"

definition sig_kills :: "nat \<Rightarrow> procinner \<Rightarrow> bool" where
  "sig_kills sig g \<longleftrightarrow> sig = SIGKILL \<or> sig_handler sig g = SIG_DFL \<and> default_action sig = STerminate"

text \<open>The effect of a signal on the process it is for; \<^verbatim>\<open>kill\<close> and \<^verbatim>\<open>kill_pgrp\<close> have the same text.\<close>

definition signal_mark :: "nat \<Rightarrow> procinner \<Rightarrow> procinner" where
  "signal_mark sig g =
     (let g1 = (if sig_kills sig g then g\<lparr>pi_killed := True\<rparr> else g) in
      if sig \<noteq> SIGKILL \<and> sig_handler sig g = SIG_IGN then g1
      else
        (let g2 = (if sig = SIGCONT then g1\<lparr>pi_stop_sig := 0, pi_stop_reported := False, pi_cont_pending := True\<rparr> else g1)
         in g2\<lparr>pi_pending := pi_pending g2 OR sig_mask sig\<rparr>))"

definition signal_post :: "nat \<Rightarrow> nat \<Rightarrow> nat \<Rightarrow> unit pop" where
  "signal_post cpu sig i s =
     (let g = pinner s i; s1 = upd_inner i (signal_mark sig) s in
      if sig \<noteq> SIGKILL \<and> sig_handler sig g = SIG_IGN then (Ok (), s1)
      else
        kbind (\<lambda>s1. if pstate s1 i = STOPPED \<and> (sig = SIGCONT \<or> sig_kills sig g) then make_runnable cpu i s1 else (Ok (), s1)) (\<lambda>_ s2.
        if pstate s2 i = SLEEPING then make_runnable cpu i s2 else (Ok (), s2)) s1)"

definition sig_valid :: "nat \<Rightarrow> bool" where
  "sig_valid sig \<longleftrightarrow> 0 < sig \<and> sig \<le> NSIG \<and> sig_mask sig \<noteq> 0"

definition kill :: "nat \<Rightarrow> usize \<Rightarrow> nat \<Rightarrow> unit pop" where
  "kill cpu pid sig s =
     (if \<not> sig_valid sig then (Err InvalidArgument, s)
      else
        (case find (\<lambda>i. pi_pid (pinner s i) = pid) procs of
           None \<Rightarrow> (Err NoSuchProcess, s)
         | Some i \<Rightarrow> signal_post cpu sig i s))"

definition group_post :: "nat \<Rightarrow> nat \<Rightarrow> usize \<Rightarrow> nat \<Rightarrow> unit pop" where
  "group_post cpu sig pgid i s =
     (if pstate s i = UNUSED \<or> pi_pgid (pinner s i) \<noteq> pgid then (Ok (), s) else signal_post cpu sig i s)"

definition kill_pgrp :: "nat \<Rightarrow> usize \<Rightarrow> nat \<Rightarrow> unit pop" where
  "kill_pgrp cpu pgid sig s =
     (if pgid = 0 \<or> \<not> sig_valid sig then (Err InvalidArgument, s)
      else kbind (kfold (group_post cpu sig pgid) procs)
             (\<lambda>_. if \<exists>i\<in>set procs. pstate s i \<noteq> UNUSED \<and> pi_pgid (pinner s i) = pgid then kret () else kfail NoSuchProcess) s)"

text \<open>The alarm clock.\<close>

definition tick_mark :: "usize \<Rightarrow> procinner \<Rightarrow> procinner" where
  "tick_mark now g =
     g\<lparr>pi_pending := pi_pending g OR sig_mask SIGALRM,
       pi_deadline := (if pi_interval g = 0 then 0
                       else if unat now + unat (pi_interval g) < 2 ^ 64 then now + pi_interval g else 0)\<rparr>"

definition tick_one :: "nat \<Rightarrow> usize \<Rightarrow> nat \<Rightarrow> unit pop" where
  "tick_one cpu now i s =
     (let g = pinner s i in
      if pi_deadline g = 0 \<or> pi_state g \<in> {UNUSED, ZOMBIE, STOPPED} \<or> now < pi_deadline g then (Ok (), s)
      else
        (let s1 = upd_inner i (tick_mark now) s in
         if pi_state g = SLEEPING then make_runnable cpu i s1 else (Ok (), s1)))"

definition on_tick :: "nat \<Rightarrow> usize \<Rightarrow> unit pop" where
  "on_tick cpu now = kfold (tick_one cpu now) procs"

definition setitimer :: "nat \<Rightarrow> usize \<Rightarrow> usize \<Rightarrow> usize \<Rightarrow> usize pop" where
  "setitimer me now initial interval s =
     (let g = pinner s me;
          prev = (if pi_deadline g = 0 \<or> pi_deadline g \<le> now then 0 else pi_deadline g - now)
      in if initial = 0 then (Ok prev, upd_inner me (\<lambda>g. g\<lparr>pi_deadline := 0, pi_interval := 0\<rparr>) s)
         else if 2 ^ 64 \<le> unat now + unat initial then (Err InvalidArgument, s)
         else (Ok prev, upd_inner me (\<lambda>g. g\<lparr>pi_deadline := now + initial, pi_interval := interval\<rparr>) s))"

section \<open>Process groups and sessions\<close>

definition getpgrp :: "nat \<Rightarrow> pst \<Rightarrow> usize" where
  "getpgrp me s = pi_pgid (pinner s me)"

definition setpgid :: "nat \<Rightarrow> usize \<Rightarrow> usize \<Rightarrow> unit pop" where
  "setpgid me pid pgid s =
     (let target_pid = (if pid = 0 then pi_pid (pinner s me) else pid);
          new_pgid = (if pgid = 0 then target_pid else pgid)
      in if new_pgid = 0 then (Err InvalidArgument, s)
         else
           (case find (\<lambda>i. pi_pid (pinner s i) = target_pid) procs of
              None \<Rightarrow> (Err NoSuchProcess, s)
            | Some i \<Rightarrow>
                if pi_sid (pinner s i) \<noteq> pi_sid (pinner s me) \<or> pi_pid (pinner s i) = pi_sid (pinner s i)
                   \<or> i \<noteq> me \<and> p_parents s ! i \<noteq> Some me
                then (Err PermissionDenied, s)
                else (Ok (), upd_inner i (\<lambda>g. g\<lparr>pi_pgid := new_pgid\<rparr>) s)))"

definition setsid :: "nat \<Rightarrow> usize pop" where
  "setsid me s =
     (let g = pinner s me in
      if pi_pid g = pi_pgid g then (Err PermissionDenied, s)
      else (Ok (pi_pid g),
            upd_inner me (\<lambda>g. g\<lparr>pi_sid := pi_pid g, pi_pgid := pi_pid g, pi_stop_sig := 0, pi_stop_reported := False,
              pi_cont_pending := False\<rparr>) s))"

definition pgid_in_session :: "usize \<Rightarrow> usize \<Rightarrow> pst \<Rightarrow> bool" where
  "pgid_in_session pgid sid s \<longleftrightarrow>
     pgid \<noteq> 0 \<and> sid \<noteq> 0 \<and>
     (\<exists>i\<in>set procs. pstate s i \<noteq> UNUSED \<and> pi_pgid (pinner s i) = pgid \<and> pi_sid (pinner s i) = sid)"

section \<open>Handling signals\<close>

definition sigaction :: "nat \<Rightarrow> nat \<Rightarrow> usize \<Rightarrow> usize \<Rightarrow> usize pop" where
  "sigaction me sig handler restorer s =
     (if sig = 0 \<or> NSIG < sig then (Err InvalidArgument, s)
      else if sig = SIGKILL then (Err PermissionDenied, s)
      else
        (let prev = sig_handler sig (pinner s me);
             prev_ret = (if prev = SIG_DFL then 0 else if prev = SIG_IGN then 1 else prev);
             user = (handler \<noteq> SIG_DFL \<and> handler \<noteq> SIG_IGN)
         in if user \<and> restorer = 0 then (Err InvalidArgument, s)
            else (Ok prev_ret,
                  upd_inner me (\<lambda>g. g\<lparr>pi_handlers := (pi_handlers g)[sig - 1 := handler]\<rparr>)
                    (if user then upd_data me (\<lambda>d. d\<lparr>pd_sig_restorer := restorer\<rparr>) s else s))))"

definition sigreturn :: "nat \<Rightarrow> unit pop" where
  "sigreturn me s =
     (let d = pdata s me in
      if \<not> pd_sig_active d then (Err InvalidArgument, s)
      else
        (case pd_tf d of
           None \<Rightarrow> (Panic, s)
         | Some (p, _) \<Rightarrow> (Ok (), upd_data me (\<lambda>d. d\<lparr>pd_tf := Some (p, pd_sig_tf d), pd_sig_active := False\<rparr>) s)))"

definition clear_pending :: "nat \<Rightarrow> procinner \<Rightarrow> procinner" where
  "clear_pending sig g = g\<lparr>pi_pending := pi_pending g AND NOT (sig_mask sig)\<rparr>"

definition stop_mark :: "nat \<Rightarrow> procinner \<Rightarrow> procinner" where
  "stop_mark sig g = g\<lparr>pi_stop_sig := sig, pi_stop_reported := False, pi_state := STOPPED\<rparr>"

text \<open>The default action; stopping ends in the scheduler.\<close>

definition deliver_default :: "nat \<Rightarrow> nat \<Rightarrow> (nat \<Rightarrow> nat) \<Rightarrow> nat \<Rightarrow> unit pop" where
  "deliver_default cpu me addr_of sig s =
     (case default_action sig of
        STerminate \<Rightarrow> (Ok (), upd_inner me (\<lambda>g. g\<lparr>pi_killed := True\<rparr>) s)
      | SStop \<Rightarrow>
          (let s1 = upd_inner me (stop_mark sig) s in
           kbind (case p_parents s1 ! me of Some pp \<Rightarrow> wakeup cpu (Some me) (addr_of pp) | None \<Rightarrow> kret ()) (\<lambda>_. sched me) s1)
      | SContinue \<Rightarrow> (Ok (), upd_inner me (\<lambda>g. g\<lparr>pi_cont_pending := False\<rparr>) s)
      | SIgnore \<Rightarrow> (Ok (), s))"

text \<open>A handler of the program: its frame is saved, and the handler runs with the signal's number and
  returns into the restorer.\<close>

definition deliver_handler :: "nat \<Rightarrow> nat \<Rightarrow> usize \<Rightarrow> unit pop" where
  "deliver_handler me sig handler s =
     (if pd_sig_restorer (pdata s me) = 0 then (Ok (), upd_inner me (\<lambda>g. (clear_pending sig g)\<lparr>pi_killed := True\<rparr>) s)
      else
        (case pd_tf (pdata s me) of
           None \<Rightarrow> (Panic, s)
         | Some (p, tf) \<Rightarrow>
             (Ok (), upd_inner me (clear_pending sig)
                (upd_data me (\<lambda>d. d\<lparr>pd_sig_tf := tf, pd_sig_active := True,
                   pd_tf := Some (p, tf(Epc := handler, A0 := of_nat sig, Ra := pd_sig_restorer d))\<rparr>) s))))"

definition deliver_signals :: "nat \<Rightarrow> nat \<Rightarrow> (nat \<Rightarrow> nat) \<Rightarrow> unit pop" where
  "deliver_signals cpu me addr_of s =
     (if pd_sig_active (pdata s me) \<or> pi_pending (pinner s me) = 0 then (Ok (), s)
      else
        (let sig = trailing_zeros32 (pi_pending (pinner s me)) + 1 in
         if sig = SIGKILL then (Ok (), upd_inner me (\<lambda>g. (clear_pending sig g)\<lparr>pi_killed := True\<rparr>) s)
         else
           (let s1 = (if sig = SIGCONT then upd_inner me (\<lambda>g. g\<lparr>pi_cont_pending := False\<rparr>) s else s);
                handler = sig_handler sig (pinner s1 me)
            in if handler = SIG_IGN then (Ok (), upd_inner me (clear_pending sig) s1)
               else if handler = SIG_DFL then deliver_default cpu me addr_of sig (upd_inner me (clear_pending sig) s1)
               else deliver_handler me sig handler s1)))"

end
