(* ===== verification/Proc.thy ===== *)
theory Proc
  imports Mmap Proc_Sig
begin

text \<open>
  The life of a process (\<^verbatim>\<open>crates/kernel/src/proc.rs\<close>): slots of the table, fork and threads,
  exit, and the three ways to wait for a child.

  An operation that may sleep is the part up to the sleep: it gives \<open>None\<close> and the state in which the
  process sleeps. What follows when it wakes is the same scan again.
\<close>

unbundle bit_operations_syntax

type_synonym 'a bop = "pst \<Rightarrow> 'a result option \<times> pst"

section \<open>Address spaces\<close>

text \<open>The end of the last reference (\<^verbatim>\<open>Drop for AddrSpace\<close>).\<close>

definition aspace_drop :: "nat \<Rightarrow> unit pop" where
  "aspace_drop a s =
     (case as_root (p_as s a) of
        None \<Rightarrow> (Ok (), s)
      | Some root \<Rightarrow>
          on_vm (kbind (unmap_frames root (TRAMPOLINE # map trapframe_va procs)) (\<lambda>_. uvm_free root (as_sz (p_as s a))))
            (upd_as a (\<lambda>x. x\<lparr>as_root := None\<rparr>) s))"

text \<open>The field \<^verbatim>\<open>aspace\<close> of a process is assigned, which ends one reference.\<close>

definition as_put :: "nat \<Rightarrow> unit pop" where
  "as_put a s = (if as_count a s = 0 then aspace_drop a s else (Ok (), s))"

definition set_aspace :: "nat \<Rightarrow> nat option \<Rightarrow> unit pop" where
  "set_aspace i v s =
     (let s1 = upd_data i (\<lambda>d. d\<lparr>pd_aspace := v\<rparr>) s in
      case pd_aspace (pdata s i) of
        None \<Rightarrow> (Ok (), s1)
      | Some a \<Rightarrow> as_put a s1)"

definition set_tf :: "nat \<Rightarrow> (nat \<times> trapframe) option \<Rightarrow> unit pop" where
  "set_tf i v s =
     (Ok (), (upd_data i (\<lambda>d. d\<lparr>pd_tf := v\<rparr>) s)
        \<lparr>p_vm := (case pd_tf (pdata s i) of None \<Rightarrow> p_vm s | Some (p, _) \<Rightarrow> page_free p (p_vm s))\<rparr>)"

definition set_vmas :: "nat \<Rightarrow> vma list \<Rightarrow> unit pop" where
  "set_vmas i vs s = kfold vma_drop (pd_vmas (pdata s i)) (upd_data i (\<lambda>d. d\<lparr>pd_vmas := vs\<rparr>) s)"

definition set_cwd :: "nat \<Rightarrow> nat option \<Rightarrow> unit pop" where
  "set_cwd i v s =
     (case pd_cwd (pdata s i) of None \<Rightarrow> kret () | Some ip \<Rightarrow> on_kfs (iput ip)) (upd_data i (\<lambda>d. d\<lparr>pd_cwd := v\<rparr>) s)"

definition set_file :: "nat \<Rightarrow> nat \<Rightarrow> kfile option \<Rightarrow> unit pop" where
  "set_file i fd v s =
     (case pd_ofile (pdata s i) ! fd of None \<Rightarrow> kret () | Some f \<Rightarrow> on_ft (file_drop f))
       (upd_data i (\<lambda>d. d\<lparr>pd_ofile := (pd_ofile d)[fd := v]\<rparr>) s)"

section \<open>Slots\<close>

text \<open>The part of \<^verbatim>\<open>free\<close> that looks at the address space: \<open>locked\<close> are the address spaces whose
  lock the caller holds, and to take such a lock again panics. The local variable is one more reference
  to the address space than the table has.\<close>

definition free_space :: "nat \<Rightarrow> nat list \<Rightarrow> writeback list pop" where
  "free_space i locked s =
     (case pd_aspace (pdata s i) of
        None \<Rightarrow> (Ok [], s)
      | Some a \<Rightarrow>
          if a \<in> set locked then (Panic, s)
          else
            (case as_root (p_as s a) of
               None \<Rightarrow> (Ok [], s)
             | Some root \<Rightarrow>
                 kbind (on_vm (ignore (try_unmap root (pd_tf_va (pdata s i)) 1 False))) (\<lambda>_ s1.
                 if \<not> pd_is_thread (pdata s1 i) \<and> as_count a s1 + 1 = 1 then
                   (case munmap_all i root (upd_as a (\<lambda>x. x\<lparr>as_root := None, as_sz := 0\<rparr>) s1) of
                      (Ok _, wbs, s2) \<Rightarrow>
                        kbind (on_vm (proc_uvmfree root (as_sz (p_as s1 a)))) (\<lambda>_. kret wbs)
                          (upd_data i (\<lambda>d. d\<lparr>pd_mmap_base := user_mem_top NPROC\<rparr>) s2)
                    | (_, wbs, s2) \<Rightarrow> (Panic, s2))
                 else (Ok [], s1)) s))"

definition clear_data :: "procdata \<Rightarrow> procdata" where
  "clear_data d = d\<lparr>pd_mmap_base := user_mem_top NPROC, pd_sig_tf := trapframe_default, pd_sig_active := False,
     pd_sig_restorer := 0, pd_name := [], pd_is_thread := False, pd_ustack := 0\<rparr>"

definition clear_inner :: "procinner \<Rightarrow> procinner" where
  "clear_inner g = g\<lparr>pi_pid := 0, pi_pgid := 0, pi_sid := 0, pi_chan := 0, pi_killed := False, pi_xstate := 0, pi_pending := 0,
     pi_handlers := replicate NSIG SIG_DFL, pi_deadline := 0, pi_interval := 0, pi_stop_sig := 0, pi_stop_reported := False,
     pi_cont_pending := False, pi_state := UNUSED\<rparr>"

definition proc_free :: "nat \<Rightarrow> nat list \<Rightarrow> unit pop" where
  "proc_free i locked =
     kbind (free_space i locked) (\<lambda>wbs.
     kbind (set_tf i None) (\<lambda>_.
     kbind (set_aspace i None) (\<lambda>_.
     kbind (set_vmas i []) (\<lambda>_.
     kbind (pmod (\<lambda>s. upd_inner i clear_inner (upd_data i clear_data s))) (\<lambda>_.
     kfold (\<lambda>wb. ignore (wb_flush wb)) wbs)))))"

definition uvmcreate :: "nat \<Rightarrow> nat \<Rightarrow> nat pop" where
  "uvmcreate tramp i =
     kbind (on_vm uvm_create) (\<lambda>root s.
     case mappages root TRAMPOLINE tramp PGSIZE (PTE_R OR PTE_X) (p_vm s) of
       (Panic, vm1) \<Rightarrow> (Panic, s\<lparr>p_vm := vm1\<rparr>)
     | (Err e, vm1) \<Rightarrow> kbind (on_vm (uvm_free root 0)) (\<lambda>_. kfail e) (s\<lparr>p_vm := vm1\<rparr>)
     | (Ok _, vm1) \<Rightarrow>
         (case pd_tf (pdata s i) of
            None \<Rightarrow> (Panic, s\<lparr>p_vm := vm1\<rparr>)
          | Some (p, _) \<Rightarrow>
              (case mappages root (pd_tf_va (pdata s i)) p PGSIZE (PTE_R OR PTE_W) vm1 of
                 (Panic, vm2) \<Rightarrow> (Panic, s\<lparr>p_vm := vm2\<rparr>)
               | (Err e, vm2) \<Rightarrow>
                   kbind (on_vm (unmap root TRAMPOLINE 1 False)) (\<lambda>_. kbind (on_vm (uvm_free root 0)) (\<lambda>_. kfail e)) (s\<lparr>p_vm := vm2\<rparr>)
               | (Ok _, vm2) \<Rightarrow> (Ok root, s\<lparr>p_vm := vm2\<rparr>))))"

definition used_inner :: "usize \<Rightarrow> procinner \<Rightarrow> procinner" where
  "used_inner pid g = g\<lparr>pi_pid := pid, pi_state := USED, pi_pgid := pid, pi_sid := pid, pi_stop_sig := 0,
     pi_stop_reported := False, pi_cont_pending := False\<rparr>"

definition new_aspace :: "nat \<Rightarrow> pst \<Rightarrow> nat \<times> pst" where
  "new_aspace root s =
     (let a = p_next_as s in (a, s\<lparr>p_as := (p_as s)(a := \<lparr>as_root = Some root, as_sz = 0\<rparr>), p_next_as := a + 1\<rparr>))"

text \<open>The slot is filled once an unused one is found.\<close>

definition alloc_slot :: "penv \<Rightarrow> nat \<Rightarrow> unit pop" where
  "alloc_slot e i s =
     (let s1 = upd_inner i (used_inner (p_nextid s)) (s\<lparr>p_nextid := p_nextid s + 1\<rparr>) in
      case page_new (p_vm s1) of
        None \<Rightarrow> kbind (proc_free i []) (\<lambda>_. kfail OutOfMemory) s1
      | Some (p, vm) \<Rightarrow>
          kbind (set_tf i (Some (p, trapframe_default))) (\<lambda>_ s2.
          let s3 = upd_data i (\<lambda>d. d\<lparr>pd_tf_va := trapframe_va i\<rparr>) s2 in
          case uvmcreate (en_trampoline e) i s3 of
            (Panic, s4) \<Rightarrow> (Panic, s4)
          | (Err er, s4) \<Rightarrow> kbind (proc_free i []) (\<lambda>_. kfail er) s4
          | (Ok root, s4) \<Rightarrow>
              (case new_aspace root s4 of
                 (a, s5) \<Rightarrow>
                   kbind (set_aspace i (Some a)) (\<lambda>_.
                   pmod (upd_data i (\<lambda>d. d\<lparr>pd_context := context_new(CRa := en_fork_ret e,
                     CSp := of_nat (pd_kstack d + PGSIZE * STACK_PAGE_NUM))\<rparr>))) s5)) (s1\<lparr>p_vm := vm\<rparr>))"

definition proc_alloc :: "penv \<Rightarrow> nat pop" where
  "proc_alloc e s =
     (case find (\<lambda>i. pstate s i = UNUSED) procs of
        None \<Rightarrow> (Err WouldBlock, s)
      | Some i \<Rightarrow> kbind (alloc_slot e i) (\<lambda>_. kret i) s)"

section \<open>Fork and threads\<close>

definition inherit_signals :: "procinner \<Rightarrow> procinner \<Rightarrow> procinner" where
  "inherit_signals p c = c\<lparr>pi_handlers := pi_handlers p, pi_pending := 0, pi_deadline := pi_deadline p,
     pi_interval := pi_interval p, pi_pgid := pi_pgid p, pi_sid := pi_sid p, pi_stop_sig := 0, pi_stop_reported := False,
     pi_cont_pending := False\<rparr>"

text \<open>Open files and the working directory: every entry is cloned, then the old value dropped.\<close>

definition clone_file :: "nat \<Rightarrow> nat \<Rightarrow> nat \<Rightarrow> unit pop" where
  "clone_file me c fd s =
     (let v = pd_ofile (pdata s me) ! fd in
      set_file c fd v (case v of None \<Rightarrow> s | Some f \<Rightarrow> s\<lparr>p_ft := snd (file_clone f (p_ft s))\<rparr>))"

definition clone_cwd :: "nat \<Rightarrow> nat \<Rightarrow> unit pop" where
  "clone_cwd me c s =
     (let v = pd_cwd (pdata s me) in
      set_cwd c v (case v of None \<Rightarrow> s | Some ip \<Rightarrow> snd (on_kfs (\<lambda>k. (Ok (), idup ip k)) s)))"

definition inherit_files :: "nat \<Rightarrow> nat \<Rightarrow> unit pop" where
  "inherit_files me c = kbind (kfold (clone_file me c) [0..<NOFILE]) (\<lambda>_. clone_cwd me c)"

definition inherit_rest :: "nat \<Rightarrow> nat \<Rightarrow> pst \<Rightarrow> pst" where
  "inherit_rest me c s =
     upd_inner c (inherit_signals (pinner s me))
       (upd_data c (\<lambda>d. d\<lparr>pd_name := pd_name d @ pd_name (pdata s me), pd_sig_tf := trapframe_default, pd_sig_active := False,
          pd_sig_restorer := pd_sig_restorer (pdata s me)\<rparr>) s)"

text \<open>The saved registers of the parent.\<close>

definition copy_tf :: "nat \<Rightarrow> nat \<Rightarrow> (trapframe \<Rightarrow> trapframe) \<Rightarrow> unit pop" where
  "copy_tf me c f s =
     (case (pd_tf (pdata s me), pd_tf (pdata s c)) of
        (Some (_, tf), Some (p, _)) \<Rightarrow> (Ok (), upd_data c (\<lambda>d. d\<lparr>pd_tf := Some (p, f tf)\<rparr>) s)
      | _ \<Rightarrow> (Panic, s))"

text \<open>The mapped pages of one area: shared for a segment, copied otherwise.\<close>

fun fork_pages :: "nat \<Rightarrow> nat \<Rightarrow> bool \<Rightarrow> nat \<Rightarrow> nat \<Rightarrow> unit vop" where
  "fork_pages proot croot is_shm va 0 vm = (Ok (), vm)"
| "fork_pages proot croot is_shm va (Suc n) vm =
     (case walk proot va False vm of
        (Panic, vm1) \<Rightarrow> (Panic, vm1)
      | (Ok (Some loc), vm1) \<Rightarrow>
          (let pte = get_pte loc vm1; pa = pte_to_pa pte in
           if \<not> (pte_is_v pte \<and> pte_is_leaf pte \<and> pte_is_u pte) then fork_pages proot croot is_shm (va + PGSIZE) n vm1
           else if is_shm then
             kbind (mappages croot va pa PGSIZE (pte_flags pte)) (\<lambda>_ vm2.
             case page_ref_inc (vm_refs vm2) pa of
               Ok rc \<Rightarrow> fork_pages proot croot is_shm (va + PGSIZE) n (vm2\<lparr>vm_refs := rc\<rparr>)
             | _ \<Rightarrow> (Panic, vm2)) vm1
           else
             (case page_new vm1 of
                None \<Rightarrow> (Err OutOfMemory, vm1)
              | Some (p, vm2) \<Rightarrow>
                  (case mappages croot va p PGSIZE (pte_flags pte) (vm2\<lparr>vm_page := (vm_page vm2)(p := vm_page vm2 pa)\<rparr>) of
                     (Panic, vm3) \<Rightarrow> (Panic, vm3)
                   | (Err e, vm3) \<Rightarrow> (Err e, page_free p vm3)
                   | (Ok _, vm3) \<Rightarrow>
                       (case page_ref_init (vm_refs vm3) p of
                          Ok rc \<Rightarrow> fork_pages proot croot is_shm (va + PGSIZE) n (vm3\<lparr>vm_refs := rc\<rparr>)
                        | _ \<Rightarrow> (Panic, vm3)))))
      | (_, vm1) \<Rightarrow> fork_pages proot croot is_shm (va + PGSIZE) n vm1)"

definition fork_vmas :: "nat \<Rightarrow> nat \<Rightarrow> nat \<Rightarrow> nat \<Rightarrow> unit pop" where
  "fork_vmas me c proot croot s =
     (let vs = pd_vmas (pdata s me) in
      kbind (set_vmas c vs) (\<lambda>_.
      kfold (\<lambda>v. on_vm (fork_pages proot croot (v_is_shm v) (v_start v) (v_len_pg v div PGSIZE))) vs)
        (upd_data c (\<lambda>d. d\<lparr>pd_mmap_base := pd_mmap_base (pdata s me)\<rparr>) (fold vma_clone vs s)))"

text \<open>The child becomes runnable last.\<close>

definition start_child :: "penv \<Rightarrow> nat \<Rightarrow> usize pop" where
  "start_child e c s =
     kbind (make_runnable (en_cpu e) c) (\<lambda>_. kret (pi_pid (pinner s c)))
       (s\<lparr>p_parents := (p_parents s)[c := Some (en_me e)]\<rparr>)"

text \<open>The copy of the memory fails while the locks of both address spaces are held.\<close>

definition fork :: "penv \<Rightarrow> usize pop" where
  "fork e =
     (let me = en_me e in
      kbind (proc_alloc e) (\<lambda>c.
      with_root me (\<lambda>pa proot.
      with_root c (\<lambda>ca croot s.
        let sz = as_sz (p_as s pa); s1 = upd_as ca (\<lambda>x. x\<lparr>as_sz := sz\<rparr>) s in
        case uvm_copy proot croot sz (p_vm s1) of
          (Panic, vm1) \<Rightarrow> (Panic, s1\<lparr>p_vm := vm1\<rparr>)
        | (Err er, vm1) \<Rightarrow> kbind (proc_free c [ca, pa]) (\<lambda>_. kfail er) (s1\<lparr>p_vm := vm1\<rparr>)
        | (Ok _, vm1) \<Rightarrow>
            kbind (copy_tf me c (\<lambda>tf. tf(A0 := 0))) (\<lambda>_.
            kbind (inherit_files me c) (\<lambda>_.
            kbind (pmod (inherit_rest me c)) (\<lambda>_.
            kbind (fork_vmas me c proot croot) (\<lambda>_.
            start_child e c)))) (s1\<lparr>p_vm := vm1\<rparr>)))))"

text \<open>A value that lives until the end of the function is dropped on every way out.\<close>

definition finally_do :: "'a pop \<Rightarrow> unit pop \<Rightarrow> 'a pop" where
  "finally_do m fin s =
     (case m s of
        (Panic, s1) \<Rightarrow> (Panic, s1)
      | (r, s1) \<Rightarrow> (case fin s1 of (Ok _, s2) \<Rightarrow> (r, s2) | (_, s2) \<Rightarrow> (Panic, s2)))"

definition thread_body :: "penv \<Rightarrow> nat \<Rightarrow> nat \<Rightarrow> usize \<Rightarrow> usize \<Rightarrow> usize \<Rightarrow> usize \<Rightarrow> usize pop" where
  "thread_body e c proot fcn arg1 arg2 stack s =
     (let me = en_me e in
      case pd_tf (pdata s c) of
        None \<Rightarrow> (Panic, s)
      | Some (p, _) \<Rightarrow>
          kbind (on_vm (mappages proot (pd_tf_va (pdata s c)) p PGSIZE (PTE_R OR PTE_W))) (\<lambda>_.
          kbind (copy_tf me c (\<lambda>tf. tf(Epc := fcn, Sp := stack + of_nat PGSIZE, A0 := arg1, A1 := arg2))) (\<lambda>_.
          kbind (pmod (upd_data c (\<lambda>d. d\<lparr>pd_is_thread := True, pd_ustack := unat stack\<rparr>))) (\<lambda>_.
          kbind (inherit_files me c) (\<lambda>_.
          kbind (pmod (inherit_rest me c)) (\<lambda>_.
          start_child e c))))) s)"

definition clone :: "penv \<Rightarrow> usize \<Rightarrow> usize \<Rightarrow> usize \<Rightarrow> usize \<Rightarrow> usize pop" where
  "clone e fcn arg1 arg2 stack =
     (if stack = 0 \<or> \<not> PGSIZE dvd unat stack then kfail BadVirtAddr
      else with_root (en_me e) (\<lambda>pa proot s0.
        if 2 ^ 64 \<le> unat stack + PGSIZE \<or> as_sz (p_as s0 pa) < unat stack + PGSIZE then (Err BadVirtAddr, s0)
        else
          kbind (proc_alloc e) (\<lambda>c s.
            finally_do (thread_body e c proot fcn arg1 arg2 stack)
              (case pd_aspace (pdata s c) of None \<Rightarrow> kret () | Some a \<Rightarrow> as_put a)
              (upd_data c (\<lambda>d. d\<lparr>pd_aspace := Some pa\<rparr>) s)) s0))"

section \<open>Exit\<close>

definition is_child_thread :: "nat \<Rightarrow> nat \<Rightarrow> pst \<Rightarrow> bool" where
  "is_child_thread me c s \<longleftrightarrow> p_parents s ! c = Some me \<and> pd_is_thread (pdata s c)"

definition reap_kill_one :: "penv \<Rightarrow> nat \<Rightarrow> unit pop" where
  "reap_kill_one e c s =
     (if is_child_thread (en_me e) c s then
        (let s1 = upd_inner c (\<lambda>g. g\<lparr>pi_killed := True\<rparr>) s in
         if pstate s1 c = SLEEPING then make_runnable (en_cpu e) c s1 else (Ok (), s1))
      else (Ok (), s))"

definition reap_child :: "nat \<Rightarrow> nat list \<Rightarrow> unit pop" where
  "reap_child c locked = kbind (proc_free c locked) (\<lambda>_. pmod (\<lambda>s. s\<lparr>p_parents := (p_parents s)[c := None]\<rparr>))"

definition reap_one :: "nat \<Rightarrow> nat \<Rightarrow> unit pop" where
  "reap_one me c s =
     (if is_child_thread me c s \<and> pstate s c = ZOMBIE then reap_child c [] s else (Ok (), s))"

text \<open>One round of the loop; the scan that sees no thread is the last one.\<close>

definition reap_round :: "penv \<Rightarrow> unit bop" where
  "reap_round e s =
     (let me = en_me e; havekids = (\<exists>c\<in>set procs. is_child_thread me c s) in
      case kfold (reap_one me) procs s of
        (Panic, s1) \<Rightarrow> (Some Panic, s1)
      | (Err er, s1) \<Rightarrow> (Some (Err er), s1)
      | (Ok _, s1) \<Rightarrow>
          if \<not> havekids then (Some (Ok ()), s1)
          else if pi_killed (pinner s1 me) then (Some (Err Interrupted), s1)
          else (None, sleep_on me (en_addr e me) s1))"

definition reap_threads :: "penv \<Rightarrow> unit bop" where
  "reap_threads e s =
     (case kfold (reap_kill_one e) procs s of
        (Panic, s1) \<Rightarrow> (Some Panic, s1)
      | (Err er, s1) \<Rightarrow> (Some (Err er), s1)
      | (Ok _, s1) \<Rightarrow> reap_round e s1)"

text \<open>Children are handed to \<^verbatim>\<open>init\<close>, one entry of the table after the other.\<close>

definition reparent_one :: "penv \<Rightarrow> nat \<Rightarrow> unit pop" where
  "reparent_one e c s =
     (if p_parents s ! c = Some (en_me e) then
        (case p_init s of
           None \<Rightarrow> (Panic, s)
         | Some ini \<Rightarrow> wakeup (en_cpu e) (Some (en_me e)) (en_addr e ini) (s\<lparr>p_parents := (p_parents s)[c := Some ini]\<rparr>))
      else (Ok (), s))"

definition begin_op_p :: "pst \<Rightarrow> pst" where
  "begin_op_p s = s\<lparr>p_ft := (p_ft s)\<lparr>ft_io := begin_tx (ft_io (p_ft s))\<rparr>\<rparr>"

definition end_op_p :: "pst \<Rightarrow> pst" where
  "end_op_p s = s\<lparr>p_ft := (p_ft s)\<lparr>ft_io := end_tx (ft_io (p_ft s))\<rparr>\<rparr>"

definition exit_mark :: "u32 \<Rightarrow> procinner \<Rightarrow> procinner" where
  "exit_mark status g = g\<lparr>pi_xstate := status, pi_state := ZOMBIE\<rparr>"

definition exit_finish :: "penv \<Rightarrow> u32 \<Rightarrow> unit pop" where
  "exit_finish e status =
     (let me = en_me e in
      kbind (kfold (\<lambda>fd. set_file me fd None) [0..<NOFILE]) (\<lambda>_.
      kbind (pmod begin_op_p) (\<lambda>_.
      kbind (set_cwd me None) (\<lambda>_.
      kbind (pmod end_op_p) (\<lambda>_.
      kbind (kfold (reparent_one e) procs) (\<lambda>_.
      kbind (\<lambda>s. case p_parents s ! me of
                   None \<Rightarrow> (Panic, s)
                 | Some pp \<Rightarrow> wakeup (en_cpu e) (Some me) (en_addr e pp) s) (\<lambda>_.
      kbind (pmod (upd_inner me (exit_mark status))) (\<lambda>_.
      sched me))))))))"

definition exit :: "penv \<Rightarrow> u32 \<Rightarrow> unit bop" where
  "exit e status s =
     (case p_init s of
        None \<Rightarrow> (Some Panic, s)
      | Some ini \<Rightarrow>
          if en_me e = ini then (Some Panic, s)
          else if pd_is_thread (pdata s (en_me e)) then apfst Some (exit_finish e status s)
          else
            (case reap_threads e s of
               (None, s1) \<Rightarrow> (None, s1)
             | (Some Panic, s1) \<Rightarrow> (Some Panic, s1)
             | (Some _, s1) \<Rightarrow> apfst Some (exit_finish e status s1)))"

section \<open>Waiting\<close>

definition stop_status :: "nat \<Rightarrow> u32" where
  "stop_status sig = push_bit 8 (of_nat sig AND 0xff) OR 0x7f"

definition put_user :: "nat \<Rightarrow> nat \<Rightarrow> byte list \<Rightarrow> unit pop" where
  "put_user me va bs = with_root me (\<lambda>a root. on_vm (copyout root va bs))"

text \<open>One child: a report of it, or \<open>None\<close>. The lock of the caller's address space is held while the
  child is freed.\<close>

definition report_change :: "penv \<Rightarrow> nat \<Rightarrow> u32 \<Rightarrow> (procinner \<Rightarrow> procinner) \<Rightarrow> nat \<Rightarrow> usize pop" where
  "report_change e va status f c s =
     kbind (put_user (en_me e) va (le_bytes 4 status)) (\<lambda>_. kbind (pmod (upd_inner c f)) (\<lambda>_. kret (pi_pid (pinner s c)))) s"

definition report_exit :: "penv \<Rightarrow> nat \<Rightarrow> nat \<Rightarrow> usize pop" where
  "report_exit e va c s =
     kbind (put_user (en_me e) va (le_bytes 4 (pi_xstate (pinner s c)))) (\<lambda>_.
     kbind (reap_child c (case pd_aspace (pdata s (en_me e)) of Some a \<Rightarrow> [a] | None \<Rightarrow> [])) (\<lambda>_.
     kret (pi_pid (pinner s c)))) s"

definition wait_child :: "penv \<Rightarrow> nat \<Rightarrow> usize \<Rightarrow> nat \<Rightarrow> usize bop" where
  "wait_child e va options c s =
     (let g = pinner s c in
      if pi_state g = STOPPED \<and> options AND WUNTRACED \<noteq> 0 \<and> \<not> pi_stop_reported g then
        apfst Some (report_change e va (stop_status (pi_stop_sig g)) (\<lambda>g. g\<lparr>pi_stop_reported := True\<rparr>) c s)
      else if options AND WCONTINUED \<noteq> 0 \<and> pi_cont_pending g then
        apfst Some (report_change e va 0xffff (\<lambda>g. g\<lparr>pi_cont_pending := False\<rparr>) c s)
      else if pi_state g = ZOMBIE then apfst Some (report_exit e va c s)
      else (None, s))"

definition waited_for :: "nat \<Rightarrow> usize option \<Rightarrow> nat \<Rightarrow> pst \<Rightarrow> bool" where
  "waited_for me want c s \<longleftrightarrow>
     p_parents s ! c = Some me \<and> \<not> pd_is_thread (pdata s c) \<and> (want = None \<or> want = Some (pi_pid (pinner s c)))"

fun wait_scan :: "penv \<Rightarrow> usize option \<Rightarrow> nat \<Rightarrow> usize \<Rightarrow> nat list \<Rightarrow> usize bop" where
  "wait_scan e want va options [] s = (None, s)"
| "wait_scan e want va options (c # cs) s =
     (if waited_for (en_me e) want c s then
        (case wait_child e va options c s of
           (None, s1) \<Rightarrow> wait_scan e want va options cs s1
         | (Some r, s1) \<Rightarrow> (Some r, s1))
      else wait_scan e want va options cs s)"

text \<open>Signals the process ignores do not interrupt the wait.\<close>

definition drop_ignored :: "procinner \<Rightarrow> procinner" where
  "drop_ignored g =
     fold (\<lambda>sig g. let h = sig_handler sig g in
       if pi_pending g AND sig_mask sig \<noteq> 0 \<and> (h = SIG_IGN \<or> h = SIG_DFL \<and> default_action sig = SIgnore)
       then clear_pending sig g else g) [1..<NSIG + 1] g"

definition waitpid :: "penv \<Rightarrow> int \<Rightarrow> nat \<Rightarrow> usize \<Rightarrow> usize bop" where
  "waitpid e pid va options s =
     (let me = en_me e; want = (if 0 < pid then Some (of_int pid) else None) in
      if pid < - 1 then (Some (Err InvalidArgument), s)
      else
        (case wait_scan e want va options procs s of
           (Some r, s1) \<Rightarrow> (Some r, s1)
         | (None, s1) \<Rightarrow>
             if options AND WNOHANG \<noteq> 0 then (Some (Ok 0), s1)
             else if \<not> (\<exists>c\<in>set procs. waited_for me want c s) \<or> pi_killed (pinner s1 me) then (Some (Err NoChildProcesses), s1)
             else
               (let s2 = upd_inner me drop_ignored s1 in
                if pi_pending (pinner s2 me) \<noteq> 0 then (Some (Err Interrupted), s2)
                else (None, sleep_on me (en_addr e me) s2))))"

definition wait_any :: "penv \<Rightarrow> nat \<Rightarrow> usize bop" where
  "wait_any e va = waitpid e (- 1) va 0"

fun join_scan :: "penv \<Rightarrow> nat \<Rightarrow> nat list \<Rightarrow> usize bop" where
  "join_scan e va [] s = (None, s)"
| "join_scan e va (c # cs) s =
     (if is_child_thread (en_me e) c s \<and> pstate s c = ZOMBIE then
        apfst Some (kbind (put_user (en_me e) va (le_bytes 8 (of_nat (pd_ustack (pdata s c)) :: usize))) (\<lambda>_.
          kbind (reap_child c []) (\<lambda>_. kret (pi_pid (pinner s c)))) s)
      else join_scan e va cs s)"

definition join :: "penv \<Rightarrow> nat \<Rightarrow> usize bop" where
  "join e va s =
     (let me = en_me e in
      case join_scan e va procs s of
        (Some r, s1) \<Rightarrow> (Some r, s1)
      | (None, s1) \<Rightarrow>
          if \<not> (\<exists>c\<in>set procs. is_child_thread me c s1) \<or> pi_killed (pinner s1 me) then (Some (Err NoChildProcesses), s1)
          else (None, sleep_on me (en_addr e me) s1))"

section \<open>The size of the memory\<close>

text \<open>A size that would become negative wraps around to one above the old size, which \<^verbatim>\<open>dealloc\<close> ignores.\<close>

definition grow :: "nat \<Rightarrow> int \<Rightarrow> unit pop" where
  "grow me n =
     with_root me (\<lambda>a root s.
       let sz = as_sz (p_as s a) in
       if 0 < n then
         (let newsz = sz + nat n in
          if pd_mmap_base (pdata s me) \<le> newsz then (Err NoBufferSpace, s)
          else kbind (on_vm (uvm_alloc root sz newsz PTE_W)) (\<lambda>sz'. pmod (upd_as a (\<lambda>x. x\<lparr>as_sz := sz'\<rparr>))) s)
       else if n < 0 then
         kbind (on_vm (uvm_dealloc root sz (nat ((int sz + n) mod 2 ^ 64)))) (\<lambda>sz'. pmod (upd_as a (\<lambda>x. x\<lparr>as_sz := sz'\<rparr>))) s
       else (Ok (), s))"

end
