(* ===== verification/Proc_Frame.thy ===== *)
theory Proc_Frame
  imports Proc
begin

text \<open>
  What the operations of \<open>Proc\<close> do to the part of the state that scheduling and the family tree depend
  on: the large ones on memory and files do nothing to it, filling and freeing a slot change that slot.
\<close>

section \<open>What an operation leaves alone\<close>

text \<open>The part of the state the scheduler and the family tree depend on.\<close>

definition core :: "pst \<Rightarrow> procinner list \<times> run_queues \<times> nat option list \<times> nat option \<times> nat \<times> bool list" where
  "core s = (p_inner s, p_rq s, p_parents s, p_init s, length (p_data s), map pd_is_thread (p_data s))"

definition keeps_by :: "(pst \<Rightarrow> 'v) \<Rightarrow> 'a pop \<Rightarrow> bool" where
  "keeps_by v m \<longleftrightarrow> (\<forall>s. v (snd (m s)) = v s)"

abbreviation keeps :: "'a pop \<Rightarrow> bool" where
  "keeps \<equiv> keeps_by core"

named_theorems keeps

lemma keepsD: "keeps_by v m \<Longrightarrow> m s = (r, s') \<Longrightarrow> v s' = v s"
  by (metis keeps_by_def snd_conv)

lemma keepsI: "(\<And>s. v (snd (m s)) = v s) \<Longrightarrow> keeps_by v m"
  by (simp add: keeps_by_def)

lemma keeps_kbind [keeps]: "keeps_by v m \<Longrightarrow> (\<And>x. keeps_by v (f x)) \<Longrightarrow> keeps_by v (kbind m f)"
  by (auto simp: keeps_by_def kbind_def split: prod.splits outcome.splits)
    (metis snd_conv)+

lemma keeps_pure [keeps]: "keeps_by v (kret x)" "keeps_by v (kfail e)"
  by (auto simp: keeps_by_def kret_def kfail_def)

lemma keeps_basic [keeps]: "keeps (on_vm m)" "keeps (on_ft t)"
  by (auto simp: keeps_by_def kret_def kfail_def on_vm_def on_ft_def core_def split: prod.splits)

lemma keeps_kfold [keeps]: "(\<And>x. keeps_by v (f x)) \<Longrightarrow> keeps_by v (kfold f xs)"
proof (induction xs)
  case Nil
  then show ?case by (simp add: keeps_by_def)
next
  case (Cons x xs)
  then have "keeps_by v (kbind (f x) (\<lambda>_. kfold f xs))" by (intro keeps_kbind) blast+
  moreover have "kfold f (x # xs) = kbind (f x) (\<lambda>_. kfold f xs)" by (rule ext) simp
  ultimately show ?case by simp
qed

lemma keeps_ignore [keeps]: "keeps_by v m \<Longrightarrow> keeps_by v (ignore m)"
  by (auto simp: keeps_by_def ignore_def split: prod.splits outcome.splits) (metis snd_conv)+

lemma core_upd_data: "(\<And>d. pd_is_thread (f d) = pd_is_thread d) \<Longrightarrow> core (upd_data i f s) = core s"
  by (cases "i < length (p_data s)") (simp_all add: core_def upd_data_def map_update list_update_same_conv list_update_beyond)

lemma core_upd_as [simp]: "core (upd_as a f s) = core s"
  by (simp add: core_def upd_as_def)

lemma core_vm [simp]: "core (p_vm_update f s) = core s" "core (p_ft_update g s) = core s" "core (p_seg_update h s) = core s"
  by (simp_all add: core_def)

lemma keeps_pmod: "(\<And>s. v (f s) = v s) \<Longrightarrow> keeps_by v (pmod f)"
  by (simp add: keeps_by_def pmod_def)

lemma core_more [simp]: "core (p_as_update f s) = core s" "core (p_next_as_update g s) = core s" "core (p_nextid_update h s) = core s"
  by (simp_all add: core_def)

lemma keeps_ite [keeps]: "keeps_by v m \<Longrightarrow> keeps_by v n \<Longrightarrow> keeps_by v (if b then m else n)"
  by simp

lemma keeps_option [keeps]: "keeps_by v m \<Longrightarrow> (\<And>x. keeps_by v (f x)) \<Longrightarrow> keeps_by v (case y of None \<Rightarrow> m | Some x \<Rightarrow> f x)"
  by (cases y) simp_all

text \<open>The operations on memory and files change memory and files only.\<close>

definition above :: "pst \<Rightarrow> procinner list \<times> procdata list \<times> nat option list \<times> nat option \<times> run_queues \<times> (nat \<Rightarrow> aspace) \<times> nat option list \<times> (nat \<Rightarrow> nat)" where
  "above s = (p_inner s, p_data s, p_parents s, p_init s, p_rq s, p_as s, p_shm s, \<lambda>h. sg_size (p_seg s h))"

lemma above_low [simp]: "above (p_vm_update f s) = above s" "above (p_ft_update g s) = above s"
  by (simp_all add: above_def)

lemma above_seg [simp]: "above (s\<lparr>p_seg := (p_seg s)(h := (p_seg s h)\<lparr>sg_refs := n\<rparr>)\<rparr>) = above s"
  by (auto simp: above_def)

lemma above_core: "above s = above t \<Longrightarrow> core s = core t"
  by (simp add: above_def core_def)

lemma low_keeps: "keeps_by above m \<Longrightarrow> keeps m"
  by (auto simp: keeps_by_def intro: above_core)

lemma low_basic [keeps]: "keeps_by above (on_vm m)" "keeps_by above (on_ft t)"
  by (auto simp: keeps_by_def on_vm_def on_ft_def split: prod.splits)

lemma low_seg_drop [keeps]: "keeps_by above (seg_drop h)"
proof (rule keepsI)
  fix s :: pst
  have "keeps_by above (kfold (\<lambda>pa. on_vm (drop_page pa)) (sg_pages (p_seg s h)))" by (intro keeps)
  then show "above (snd (seg_drop h s)) = above s" by (simp add: seg_drop_def Let_def keeps_by_def)
qed

lemma low_vma_drop [keeps]: "keeps_by above (vma_drop v)"
  unfolding vma_drop_def by (intro keeps)

lemma low_wb_drop [keeps]: "keeps_by above (wb_drop wb)"
  unfolding wb_drop_def on_kfs_def by (intro keeps keeps_pmod) simp

lemma low_wb_flush [keeps]: "keeps_by above (wb_flush wb)"
proof (rule keepsI)
  fix s :: pst
  have "above (snd (wb_drop wb t)) = above t" "above (snd (kbind (wb_drop wb) (\<lambda>_. kfail e :: unit pop) t)) = above t" for t e
    using low_wb_drop keeps_kbind [OF low_wb_drop keeps_pure(2), of wb "\<lambda>_. e"] by (auto simp: keeps_by_def)
  then show "above (snd (wb_flush wb s)) = above s"
    by (auto simp: wb_flush_def Let_def split: prod.splits outcome.splits)
qed

lemmas keeps_vma_drop [keeps] = low_keeps [OF low_vma_drop]
lemmas keeps_wb_flush [keeps] = low_keeps [OF low_wb_flush]

lemma above_save_page: "save_page v a pa wbs s = (r, wbs', s') \<Longrightarrow> above s' = above s"
  by (auto simp: save_page_def Let_def split: if_splits option.splits prod.splits)

lemma above_munmap_vma_range: "munmap_vma_range root v a b wbs s = (r, wbs', s') \<Longrightarrow> above s' = above s"
proof (induction root v a b wbs s arbitrary: r wbs' s' rule: munmap_vma_range.induct)
  case (1 root v a b wbs s)
  note res = 1(5) [unfolded munmap_vma_range.simps [of root v a b wbs s]]
  show ?case
    using res by (auto split: if_splits prod.splits outcome.splits option.splits simp: Let_def above_save_page dest: 1(1-4) above_save_page)
qed

lemma core_munmap_vma_range: "munmap_vma_range root v a b wbs s = (r, wbs', s') \<Longrightarrow> core s' = core s"
  using above_munmap_vma_range above_core by blast

lemma core_munmap_areas: "munmap_areas root vs wbs s = (r, wbs', s') \<Longrightarrow> core s' = core s"
proof (induction vs arbitrary: wbs s)
  case (Cons v vs)
  then show ?case
    by (auto split: prod.splits outcome.splits dest!: core_munmap_vma_range keepsD [OF keeps_vma_drop] Cons.IH)
qed simp

lemma core_munmap_all: "munmap_all i root s = (r, wbs', s') \<Longrightarrow> core s' = core s"
  by (auto simp: munmap_all_def core_upd_data dest!: core_munmap_areas)

lemma keeps_as_put [keeps]: "keeps (as_put a)"
  by (rule keepsI) (simp add: as_put_def aspace_drop_def on_vm_def split: option.splits prod.splits)

lemma keeps_set [keeps]: "keeps (set_aspace i v)" "keeps (set_tf i w)" "keeps (set_vmas i vs)"
proof -
  have p: "core (snd (as_put a s)) = core s" for a s using keeps_as_put by (simp add: keeps_by_def)
  show "keeps (set_aspace i v)" by (rule keepsI) (simp add: set_aspace_def Let_def core_upd_data p split: option.splits)
  show "keeps (set_tf i w)" by (rule keepsI) (simp add: set_tf_def core_upd_data)
  have k: "core (snd (kfold vma_drop us s)) = core s" for us s using keeps_kfold [of core vma_drop us, OF keeps_vma_drop] by (simp add: keeps_by_def)
  show "keeps (set_vmas i vs)" by (rule keepsI) (simp add: set_vmas_def core_upd_data k)
qed

lemma keeps_free_space [keeps]: "keeps (free_space i locked)"
proof (rule keepsI)
  fix s :: pst
  have u: "on_vm m t = (r, t') \<Longrightarrow> core t' = core t" for m :: "'b vop" and t t' r using keeps_basic(1) keepsD by blast
  show "core (snd (free_space i locked s)) = core s"
    by (auto simp: free_space_def kbind_def kret_def core_upd_data split: option.splits prod.splits outcome.splits
        dest!: u core_munmap_all)
qed

lemma keeps_uvmcreate [keeps]: "keeps (uvmcreate tramp i)"
proof (rule keepsI)
  fix s :: pst
  have u: "on_vm m t = (r, t') \<Longrightarrow> core t' = core t" for m :: "'b vop" and t t' r using keeps_basic(1) keepsD by blast
  show "core (snd (uvmcreate tramp i s)) = core s"
    by (auto simp: uvmcreate_def kbind_def kfail_def split: option.splits prod.splits outcome.splits dest!: u)
qed

section \<open>Slots\<close>

definition slot_freed :: "nat \<Rightarrow> pst \<Rightarrow> pst" where
  "slot_freed i s = upd_inner i clear_inner (upd_data i clear_data s)"

lemma core_freed: "core s = core t \<Longrightarrow> core (slot_freed i s) = core (slot_freed i t)"
  by (simp add: core_def slot_freed_def upd_inner_def upd_data_def clear_data_def map_update)

lemma core_upd_inner: "core s = core t \<Longrightarrow> core (upd_inner i f s) = core (upd_inner i f t)"
  by (simp add: core_def upd_inner_def)

lemma kbind_OkD: "kbind m f s = (Ok y, s') \<Longrightarrow> \<exists>x t. m s = (Ok x, t) \<and> f x t = (Ok y, s')"
  by (auto simp: kbind_def split: prod.splits outcome.splits)

lemma kbind_cases:
  assumes "kbind m f s = (r, s')"
  obtains x t where "m s = (Ok x, t)" "f x t = (r, s')"
  | e where "m s = (Err e, s')" "r = Err e"
  | "m s = (Panic, s')" "r = Panic"
  using assms by (auto simp: kbind_def split: prod.splits outcome.splits)

text \<open>The end of \<open>proc_free\<close> after the point where the slot becomes free, and before it.\<close>

lemma proc_free_core:
  assumes "proc_free i locked s = (r, s')"
  shows "core s' = core (slot_freed i s) \<or> core s' = core s \<and> (\<forall>x. r \<noteq> Ok x)"
proof -
  note step = keepsD [OF keeps_free_space] keepsD [OF keeps_set(1)] keepsD [OF keeps_set(2)] keepsD [OF keeps_set(3)]
  have fl: "kfold (\<lambda>wb. ignore (wb_flush wb)) wbs t = (q, t') \<Longrightarrow> core t' = core t" for wbs t q t'
    by (rule keepsD [OF keeps_kfold [of core "\<lambda>wb. ignore (wb_flush wb)"]]) (intro keeps)
  from assms show ?thesis unfolding proc_free_def
    by (elim kbind_cases) (auto simp: pmod_def slot_freed_def [symmetric] dest!: step fl dest: core_freed)
qed

lemma proc_free_Ok: "proc_free i locked s = (Ok x, s') \<Longrightarrow> core s' = core (slot_freed i s)"
  using proc_free_core by blast

lemma freed_used: "core (slot_freed i (upd_inner i (used_inner pid) s)) = core (slot_freed i s)"
  by (cases "i < length (p_inner s)")
    (simp_all add: core_def slot_freed_def upd_inner_def upd_data_def clear_inner_def used_inner_def list_update_beyond)

text \<open>A slot that could not be filled is free again.\<close>

lemma alloc_slot_core:
  assumes "alloc_slot e i s = (r, s')"
  shows "core s' = core (upd_inner i (used_inner (p_nextid s)) s) \<or> core s' = core (slot_freed i s) \<and> (\<forall>x. r \<noteq> Ok x)"
proof -
  define s1 where "s1 = upd_inner i (used_inner (p_nextid s)) (s\<lparr>p_nextid := p_nextid s + 1\<rparr>)"
  have s1: "core s1 = core (upd_inner i (used_inner (p_nextid s)) s)" by (simp add: s1_def core_def upd_inner_def)
  have fr: "core s' = core (upd_inner i (used_inner (p_nextid s)) s) \<or> core s' = core (slot_freed i s) \<and> (\<forall>x. r \<noteq> Ok x)"
    if k: "kbind (proc_free i []) (\<lambda>_. kfail er) t = (r, s')" and t: "core t = core s1" for t er
  proof -
    have "core (slot_freed i t) = core (slot_freed i s)" using core_freed [OF t] core_freed [OF s1] freed_used by metis
    with k s1 t show ?thesis by (elim kbind_cases) (auto simp: kfail_def dest!: proc_free_core)
  qed
  note res = assms [unfolded alloc_slot_def Let_def, folded s1_def]
  show ?thesis
  proof (cases "page_new (p_vm s1)")
    case None
    with res have "kbind (proc_free i []) (\<lambda>_. kfail OutOfMemory) s1 = (r, s')" by simp
    then show ?thesis by (rule fr) simp
  next
    case (Some pv)
    obtain p vm where pv: "pv = (p, vm)" by (cases pv)
    obtain t2 where t2: "set_tf i (Some (p, trapframe_default)) (s1\<lparr>p_vm := vm\<rparr>) = (Ok (), t2)" by (simp add: set_tf_def)
    define t3 where "t3 = upd_data i (\<lambda>d. d\<lparr>pd_tf_va := trapframe_va i\<rparr>) t2"
    have c3: "core t3 = core s1" using keepsD [OF keeps_set(2) t2] by (simp add: t3_def core_upd_data)
    obtain q t4 where t4: "uvmcreate (en_trampoline e) i t3 = (q, t4)" by (cases "uvmcreate (en_trampoline e) i t3")
    have c4: "core t4 = core s1" using keepsD [OF keeps_uvmcreate t4] c3 by simp
    note R = res [unfolded Some pv option.case prod.case kbind_def [of "set_tf i (Some (p, trapframe_default))"] t2 outcome.case,
        folded t3_def, unfolded t4 prod.case]
    show ?thesis
    proof (cases q)
      case (Ok root)
      obtain a t5 where t5: "new_aspace root t4 = (a, t5)" by (cases "new_aspace root t4")
      have "core t5 = core t4" using t5 by (auto simp: new_aspace_def Let_def)
      moreover have "keeps (kbind (set_aspace i (Some a)) (\<lambda>_. pmod (upd_data i (\<lambda>d. d\<lparr>pd_context := f d\<rparr>))))" for f
        by (intro keeps keeps_pmod core_upd_data) simp
      then have "core s' = core t5" by (rule keepsD) (rule R [unfolded Ok outcome.case t5 prod.case])
      ultimately have "core s' = core t4" by simp
      then show ?thesis using c4 s1 by simp
    next
      case (Err er)
      with R have "kbind (proc_free i []) (\<lambda>_. kfail er) t4 = (r, s')" by simp
      then show ?thesis using c4 by (rule fr)
    next
      case Panic
      with R c4 s1 show ?thesis by simp
    qed
  qed
qed

lemma proc_alloc_core:
  assumes "proc_alloc e s = (r, s')"
  shows "core s' = core s \<and> (\<forall>i. r \<noteq> Ok i) \<or>
    (\<exists>i<NPROC. pstate s i = UNUSED \<and>
       (core s' = core (upd_inner i (used_inner (p_nextid s)) s) \<and> (\<forall>j. r = Ok j \<longrightarrow> j = i) \<or>
        core s' = core (slot_freed i s) \<and> (\<forall>j. r \<noteq> Ok j)))"
proof (cases "find (\<lambda>i. pstate s i = UNUSED) procs")
  case None
  with assms show ?thesis by (auto simp: proc_alloc_def)
next
  case (Some i)
  then have i: "i < NPROC" "pstate s i = UNUSED" by (auto simp: find_Some_iff procs_def)
  from assms Some have "kbind (alloc_slot e i) (\<lambda>_. kret i) s = (r, s')" by (simp add: proc_alloc_def)
  then show ?thesis
    by (elim kbind_cases) (use i in \<open>auto simp: kret_def dest!: alloc_slot_core\<close>)
qed

section \<open>Inheriting\<close>

lemma core_snd: "keeps m \<Longrightarrow> core (snd (m s)) = core s"
  by (simp add: keeps_by_def)

lemma keeps_on_kfs [keeps]: "keeps (on_kfs m)"
  unfolding on_kfs_def by (intro keeps)

lemma keeps_set_file [keeps]: "keeps (set_file i fd v)" "keeps (set_cwd i w)"
  by (rule keepsI; simp add: set_file_def set_cwd_def core_upd_data core_snd keeps kret_def split: option.splits)+

lemma keeps_clone [keeps]: "keeps (clone_file me c fd)" "keeps (clone_cwd me c)"
  by (rule keepsI; simp add: clone_file_def clone_cwd_def Let_def core_snd keeps split: option.splits)+

lemma keeps_inherit_files [keeps]: "keeps (inherit_files me c)"
  unfolding inherit_files_def by (intro keeps)

lemma keeps_copy_tf [keeps]: "keeps (copy_tf me c f)"
  by (rule keepsI) (simp add: copy_tf_def core_upd_data split: option.splits prod.splits)

lemma keeps_with_root [keeps]: "(\<And>a root. keeps_by v (f a root)) \<Longrightarrow> keeps_by v (with_root me f)"
  by (auto simp: keeps_by_def with_root_def split: option.splits)

lemma keeps_put_user [keeps]: "keeps (put_user me va bs)"
  unfolding put_user_def by (intro keeps)

lemma core_vma_clone: "core (vma_clone v s) = core s"
  by (simp add: vma_clone_def Let_def seg_clone_def split: option.splits)

lemma keeps_fork_vmas [keeps]: "keeps (fork_vmas me c proot croot)"
proof (rule keepsI)
  fix s
  have f: "core (fold vma_clone vs s) = core s" for vs s by (induction vs arbitrary: s) (simp_all add: core_vma_clone)
  have "keeps (kbind (set_vmas c vs) (\<lambda>_. kfold (\<lambda>v. on_vm (g v)) vs))" for vs and g :: "vma \<Rightarrow> unit vop" by (intro keeps)
  then show "core (snd (fork_vmas me c proot croot s)) = core s"
    by (simp add: fork_vmas_def Let_def core_snd core_upd_data f)
qed

section \<open>Operations without errors\<close>

text \<open>Freeing gives up nothing half done: its parts end or panic.\<close>

definition noerr :: "('s \<Rightarrow> 'a result \<times> 's) \<Rightarrow> bool" where
  "noerr m \<longleftrightarrow> (\<forall>s e. fst (m s) \<noteq> Err e)"

named_theorems noerr

lemma noerrD: "noerr m \<Longrightarrow> m s = (Err e, s') \<Longrightarrow> False"
  by (metis noerr_def fst_conv)

lemma noerrI: "(\<And>s e s'. m s = (Err e, s') \<Longrightarrow> False) \<Longrightarrow> noerr m"
  by (auto simp: noerr_def) (metis prod.collapse)

lemma noerr_kbind [noerr]: "noerr m \<Longrightarrow> (\<And>x. noerr (f x)) \<Longrightarrow> noerr (kbind m f)"
  by (rule noerrI) (auto elim!: kbind_cases dest: noerrD)

lemma noerr_kret [noerr]: "noerr (kret x)" "noerr (pmod f)" "noerr (ignore m)"
  by (auto simp: noerr_def kret_def pmod_def ignore_def split: prod.splits outcome.splits)

lemma noerr_option [noerr]: "noerr m \<Longrightarrow> (\<And>x. noerr (f x)) \<Longrightarrow> noerr (case y of None \<Rightarrow> m | Some x \<Rightarrow> f x)"
  by (cases y) simp_all

lemma noerr_on [noerr]: "noerr m \<Longrightarrow> noerr (on_vm m)" "noerr t \<Longrightarrow> noerr (on_ft t)"
  by (auto intro!: noerrI simp: on_vm_def on_ft_def split: prod.splits dest: noerrD)

lemma noerr_kfold [noerr]: "(\<And>x. noerr (f x)) \<Longrightarrow> noerr (kfold f xs)"
proof (induction xs)
  case Nil
  then show ?case by (simp add: noerr_def)
next
  case (Cons x xs)
  then have "noerr (kbind (f x) (\<lambda>_. kfold f xs))" by (intro noerr_kbind) blast+
  moreover have "kfold f (x # xs) = kbind (f x) (\<lambda>_. kfold f xs)" by (rule ext) simp
  ultimately show ?case by simp
qed

lemma noerr_drop_page [noerr]: "noerr (drop_page pa)"
  by (auto simp: noerr_def drop_page_def page_ref_dec_def pa2idx_def Let_def assert_then_def split: prod.splits outcome.splits if_splits)

lemma noerr_unmap [noerr]: "noerr (unmap root va n b)"
proof -
  have "noerr (unmap_loop root a n b)" for a
  proof (induction n arbitrary: a)
    case (Suc n)
    show ?case
    proof (rule noerrI)
      fix s e s' assume "unmap_loop root a (Suc n) b s = (Err e, s')"
      then show False using noerrD [OF Suc] noerrD [OF noerr_drop_page]
        by (auto simp: Let_def split: prod.splits outcome.splits option.splits if_splits)
    qed
  qed (simp add: noerr_def)
  then show ?thesis by (simp add: noerr_def unmap_def)
qed

lemma noerr_freewalk:
  "fst (freewalk d t s) \<noteq> Err e" "fst (free_entries d t xs s) \<noteq> Err e"
proof (induction d t s and d t xs s rule: freewalk_free_entries.induct)
  case (2 depth t s)
  then show ?case by (auto split: prod.splits outcome.splits)
next
  case (4 depth t i xs s)
  then show ?case by (auto simp: Let_def split: prod.splits outcome.splits)
qed simp_all

lemma noerr_uvm_free [noerr]: "noerr (uvm_free root n)"
proof (rule noerrI)
  fix s e s' assume a: "uvm_free root n s = (Err e, s')"
  then show False using noerrD [OF noerr_unmap, of root 0 _ True s e] noerr_freewalk(1) [of 3 root _ e]
    by (auto simp: uvm_free_def split: prod.splits outcome.splits if_splits) (metis fst_conv)+
qed

lemma noerr_frames [noerr]: "noerr (unmap_frames root vas)"
proof -
  have "fst (unmap_frames root vas s) \<noteq> Err e" for s e
    by (induction vas arbitrary: s) (auto split: prod.splits outcome.splits)
  then show ?thesis by (simp add: noerr_def)
qed

lemma noerr_file_drop [noerr]: "noerr (file_drop f)"
  by (auto simp: noerr_def file_drop_def drop_check_def drop_rest_def Let_def split: prod.splits outcome.splits option.splits if_splits)

lemma noerr_seg_drop [noerr]: "noerr (seg_drop h)"
proof (rule noerrI)
  fix s :: pst and e s' assume "seg_drop h s = (Err e, s')"
  moreover have n: "noerr (kfold (\<lambda>pa. on_vm (drop_page pa)) xs)" for xs by (intro noerr)
  ultimately show False by (auto simp: seg_drop_def Let_def split: if_splits dest: noerrD [OF n])
qed

lemma noerr_vma_drop [noerr]: "noerr (vma_drop v)"
  unfolding vma_drop_def by (intro noerr)

lemma noerr_as_put [noerr]: "noerr (as_put a)"
proof (rule noerrI)
  fix s :: pst and e s' assume "as_put a s = (Err e, s')"
  moreover have n: "noerr (on_vm (kbind (unmap_frames root vas) (\<lambda>_. uvm_free root k)))" for root vas k by (intro noerr)
  ultimately show False by (auto simp: as_put_def aspace_drop_def split: if_splits option.splits dest: noerrD [OF n])
qed

lemma noerr_set [noerr]: "noerr (set_aspace i v)" "noerr (set_tf i w)" "noerr (set_vmas i vs)"
proof -
  show "noerr (set_aspace i v)"
    by (rule noerrI) (auto simp: set_aspace_def Let_def split: option.splits dest: noerrD [OF noerr_as_put])
  show "noerr (set_tf i w)" by (simp add: noerr_def set_tf_def)
  have n: "noerr (kfold vma_drop us)" for us by (intro noerr)
  show "noerr (set_vmas i vs)" by (rule noerrI) (auto simp: set_vmas_def dest: noerrD [OF n])
qed

lemma noerr_free_space [noerr]: "noerr (free_space i locked)"
proof (rule noerrI)
  fix s :: pst and e s' assume a: "free_space i locked s = (Err e, s')"
  have u: "noerr (on_vm (proc_uvmfree root n))" for root n unfolding proc_uvmfree_def by (intro noerr)
  have v: "noerr (on_vm (ignore m))" for m :: "'b vop" by (intro noerr)
  from a show False
    by (auto simp: free_space_def kret_def split: option.splits if_splits prod.splits outcome.splits
        elim!: kbind_cases dest: noerrD [OF u] noerrD [OF v])
qed

lemma noerr_proc_free [noerr]: "noerr (proc_free i locked)"
  unfolding proc_free_def by (intro noerr)

end
