(* ===== verification/Proc_Sched.thy ===== *)
theory Proc_Sched
  imports Proc_Frame "HOL-Library.Multiset"
begin

text \<open>
  Scheduling on several CPUs: a step system over the operations of \<open>Proc\<close> and \<open>Proc_Sig\<close>, and the
  invariant that a process runs on one CPU at most and waits for one exactly when it is runnable.
\<close>

section \<open>The steps\<close>

text \<open>Where a CPU is: looking for a process, with a process off the queue whose lock it waits for, running
  a process, or with a process that has called \<^verbatim>\<open>sched\<close> and whose lock it still holds.\<close>

datatype cpu_pc = Idle | Popped nat | Run nat | Switch nat

definition unlocked :: "(nat \<Rightarrow> cpu_pc) \<Rightarrow> nat \<Rightarrow> bool" where
  "unlocked pc i \<longleftrightarrow> (\<forall>c<NCPU. pc c \<noteq> Switch i)"

definition sched_view :: "pst \<Rightarrow> procstate list \<times> run_queues" where
  "sched_view s = (map pi_state (p_inner s), p_rq s)"

text \<open>Every step is atomic under the lock of the process it changes. The operations on the whole table
  are sequences of such steps.\<close>

inductive sstep :: "pst \<times> (nat \<Rightarrow> cpu_pc) \<Rightarrow> pst \<times> (nat \<Rightarrow> cpu_pc) \<Rightarrow> bool" where
  pop: "c < NCPU \<Longrightarrow> pc c = Idle \<Longrightarrow> sched_pop c s = (Ok r, s') \<Longrightarrow>
    sstep (s, pc) (s', pc(c := case r of None \<Rightarrow> Idle | Some i \<Rightarrow> Popped i))"
| enter: "c < NCPU \<Longrightarrow> pc c = Popped i \<Longrightarrow> unlocked pc i \<Longrightarrow> sched_enter c i s = (b, s') \<Longrightarrow>
    sstep (s, pc) (s', pc(c := if b then Run i else Idle))"
| switched: "c < NCPU \<Longrightarrow> pc c = Switch i \<Longrightarrow> sstep (s, pc) (s, pc(c := Idle))"
| yields: "c < NCPU \<Longrightarrow> pc c = Run i \<Longrightarrow> yielding c i s = (Ok (), s') \<Longrightarrow> sstep (s, pc) (s', pc(c := Switch i))"
| sleeps: "c < NCPU \<Longrightarrow> pc c = Run i \<Longrightarrow> sstep (s, pc) (sleep_on i chan s, pc(c := Switch i))"
| stops: "c < NCPU \<Longrightarrow> pc c = Run i \<Longrightarrow> sstep (s, pc) (upd_inner i (stop_mark sig) s, pc(c := Switch i))"
| exits: "c < NCPU \<Longrightarrow> pc c = Run i \<Longrightarrow> sstep (s, pc) (upd_inner i (exit_mark status) s, pc(c := Switch i))"
| wakes: "c < NCPU \<Longrightarrow> i < NPROC \<Longrightarrow> unlocked pc i \<Longrightarrow> wake_one c cur chan i s = (Ok (), s') \<Longrightarrow> sstep (s, pc) (s', pc)"
| posts: "c < NCPU \<Longrightarrow> i < NPROC \<Longrightarrow> unlocked pc i \<Longrightarrow> signal_post c sig i s = (Ok (), s') \<Longrightarrow> sstep (s, pc) (s', pc)"
| ticks: "c < NCPU \<Longrightarrow> i < NPROC \<Longrightarrow> unlocked pc i \<Longrightarrow> tick_one c now i s = (Ok (), s') \<Longrightarrow> sstep (s, pc) (s', pc)"
| kills: "en_cpu e < NCPU \<Longrightarrow> i < NPROC \<Longrightarrow> unlocked pc i \<Longrightarrow> reap_kill_one e i s = (Ok (), s') \<Longrightarrow> sstep (s, pc) (s', pc)"
| allocs: "proc_alloc e s = (r, s') \<Longrightarrow> r \<noteq> Panic \<Longrightarrow> sstep (s, pc) (s', pc)"
| starts: "en_cpu e < NCPU \<Longrightarrow> i < NPROC \<Longrightarrow> unlocked pc i \<Longrightarrow> pstate s i = USED \<Longrightarrow> start_child e i s = (Ok pid, s') \<Longrightarrow>
    sstep (s, pc) (s', pc)"
| frees: "i < NPROC \<Longrightarrow> unlocked pc i \<Longrightarrow> pstate s i = ZOMBIE \<Longrightarrow> proc_free i locked s = (Ok (), s') \<Longrightarrow> sstep (s, pc) (s', pc)"
| others: "sched_view s' = sched_view s \<Longrightarrow> sstep (s, pc) (s', pc)"

section \<open>The invariant\<close>

definition runnables :: "pst \<Rightarrow> nat multiset" where
  "runnables s = mset_set {i. i < NPROC \<and> pstate s i = RUNNABLE}"

definition in_hand :: "(nat \<Rightarrow> cpu_pc) \<Rightarrow> nat multiset" where
  "in_hand pc = (\<Sum>c<NCPU. case pc c of Popped i \<Rightarrow> {#i#} | _ \<Rightarrow> {#})"

definition on_cpu :: "(nat \<Rightarrow> cpu_pc) \<Rightarrow> nat \<Rightarrow> nat \<Rightarrow> bool" where
  "on_cpu pc c i \<longleftrightarrow> pc c = Run i \<or> pc c = Switch i"

definition sched_inv :: "pst \<times> (nat \<Rightarrow> cpu_pc) \<Rightarrow> bool" where
  "sched_inv = (\<lambda>(s, pc).
     length (p_inner s) = NPROC \<and> runqs_inv (p_rq s) \<and>
     queued (p_rq s) + in_hand pc = runnables s \<and>
     (\<forall>i<NPROC. pstate s i = RUNNING \<longleftrightarrow> (\<exists>c<NCPU. pc c = Run i)) \<and>
     (\<forall>c<NCPU. \<forall>i. on_cpu pc c i \<longrightarrow> i < NPROC \<and> (\<forall>c'<NCPU. on_cpu pc c' i \<longrightarrow> c' = c)) \<and>
     (\<forall>c<NCPU. \<forall>i<NPROC. pc c = Switch i \<longrightarrow> pstate s i \<in> {RUNNABLE, SLEEPING, STOPPED, ZOMBIE}))"

lemma sched_inv_view: "sched_inv (s, pc) \<Longrightarrow> sched_view s' = sched_view s \<Longrightarrow> sched_inv (s', pc)"
proof -
  assume i: "sched_inv (s, pc)" and v: "sched_view s' = sched_view s"
  have l: "length (p_inner s') = length (p_inner s)" "p_rq s' = p_rq s"
    using v map_eq_imp_length_eq by (auto simp: sched_view_def)
  have st: "pstate s' i = pstate s i" if "i < NPROC" for i
    using v i that l by (simp add: sched_view_def sched_inv_def) (metis nth_map)
  then have "{i. i < NPROC \<and> pstate s' i = RUNNABLE} = {i. i < NPROC \<and> pstate s i = RUNNABLE}" by auto
  with i l st show ?thesis unfolding sched_inv_def runnables_def prod.case by simp
qed

text \<open>There is always room in a queue for a process that is not in one.\<close>

lemma mset_sum_le: "k < length qs \<Longrightarrow> mset (qs ! k) \<subseteq># (\<Sum>q \<leftarrow> qs. mset q)"
  by (induction qs arbitrary: k) (auto simp: nth_Cons intro: subset_mset.add_increasing split: nat.splits)

lemma queue_room:
  assumes "runqs_inv q" "queued q \<subseteq># mset_set {i. i < NPROC \<and> P i}" "\<not> P i" "i < NPROC" "cpu < NCPU"
  shows "length (runqs_view q ! cpu) < NPROC"
proof -
  have "mset (runqs_view q ! cpu) \<subseteq># mset_set {i. i < NPROC \<and> P i}"
    using mset_sum_le [of cpu "runqs_view q"] assms by (auto simp: queued_def intro: subset_mset.trans)
  then have "length (runqs_view q ! cpu) \<le> card {i. i < NPROC \<and> P i}" using size_mset_mono by fastforce
  also have "\<dots> < card {..<NPROC}" using assms(3,4) by (intro psubset_card_mono) auto
  finally show ?thesis by simp
qed

lemma queued_push:
  assumes "runqs_inv q" "cpu < NCPU" "runqs_view q' = (runqs_view q)[cpu := runqs_view q ! cpu @ [i]]"
  shows "queued q' = add_mset i (queued q)"
proof -
  have "k < length qs \<Longrightarrow> (\<Sum>p \<leftarrow> qs[k := qs ! k @ [i]]. mset p) = add_mset i (\<Sum>p \<leftarrow> qs. mset p)" for k and qs :: "nat list list"
    by (induction qs arbitrary: k) (auto split: nat.splits)
  with assms show ?thesis by (simp add: queued_def)
qed

lemma make_runnable_ok:
  assumes "runqs_inv (p_rq s)" "queued (p_rq s) \<subseteq># runnables s" "i < NPROC" "cpu < NCPU" "pstate s i \<noteq> RUNNABLE"
  shows "\<exists>q cpu'. make_runnable cpu i s = (Ok (), (upd_inner i (\<lambda>g. g\<lparr>pi_state := RUNNABLE, pi_last_cpu := cpu'\<rparr>) s)\<lparr>p_rq := q\<rparr>) \<and>
    runqs_inv q \<and> queued q = add_mset i (queued (p_rq s))"
proof -
  let ?cpu = "if pi_last_cpu (pinner s i) < NCPU then pi_last_cpu (pinner s i) else cpu"
  have c: "?cpu < NCPU" using assms(4) by simp
  have "length (runqs_view (p_rq s) ! ?cpu) < NPROC"
    using queue_room [OF assms(1) assms(2) [unfolded runnables_def] assms(5,3) c] .
  from runq_push_cpu_room [OF assms(1) c assms(3) this] obtain q where
    q: "runq_push_cpu (p_rq s) ?cpu i = Ok q" "runqs_inv q"
       "runqs_view q = (runqs_view (p_rq s))[?cpu := runqs_view (p_rq s) ! ?cpu @ [i]]" by blast
  show ?thesis
    using q assms(5) queued_push [OF assms(1) c q(3)] by (intro exI [of _ q] exI [of _ ?cpu]) (simp add: make_runnable_def Let_def)
qed

lemma pop_queued:
  assumes "runqs_inv q" "cpu < NCPU"
  shows "\<exists>r q'. runq_pop_or_steal q cpu = Ok (r, q') \<and> runqs_inv q' \<and>
    queued q = queued q' + (case r of None \<Rightarrow> {#} | Some i \<Rightarrow> {#i#})"
proof -
  let ?vs = "cpu # victims cpu (unat (STEAL_START q) mod NCPU) 0 NCPU"
  have vs: "set ?vs = {..<NCPU}" using assms(2) by (auto simp: victims_all)
  from pop_or_steal_spec [OF assms] obtain q' where q': "runqs_inv q'"
    "case take_first ?vs (runqs_view q) of
       None \<Rightarrow> runq_pop_or_steal q cpu = Ok (None, q') \<and> runqs_view q' = runqs_view q
     | Some (x, qs) \<Rightarrow> runq_pop_or_steal q cpu = Ok (Some x, q') \<and> runqs_view q' = qs" by blast
  show ?thesis
  proof (cases "take_first ?vs (runqs_view q)")
    case None
    with q' show ?thesis by (auto simp: queued_def)
  next
    case (Some p)
    obtain x qs where p: "p = (x, qs)" by (cases p)
    with Some take_first_Some [of ?vs "runqs_view q" x qs] vs obtain v xs where
      v: "v < NCPU" "runqs_view q ! v = x # xs" "qs = (runqs_view q)[v := xs]" by auto
    have "queued q = add_mset x (queued q')"
      using sum_mset_update [of v "runqs_view q" x xs] v q' Some p assms(1) by (simp add: queued_def)
    with q' Some p show ?thesis by auto
  qed
qed

lemma in_hand_upd:
  assumes "c < NCPU"
  shows "in_hand (pc(c := v)) + (case pc c of Popped i \<Rightarrow> {#i#} | _ \<Rightarrow> {#}) =
    in_hand pc + (case v of Popped i \<Rightarrow> {#i#} | _ \<Rightarrow> {#})"
proof -
  have "in_hand p = (case p c of Popped i \<Rightarrow> {#i#} | _ \<Rightarrow> {#}) + (\<Sum>k\<in>{..<NCPU} - {c}. case p k of Popped i \<Rightarrow> {#i#} | _ \<Rightarrow> {#})" for p
    unfolding in_hand_def using assms by (intro sum.remove) auto
  moreover have "(\<Sum>k\<in>{..<NCPU} - {c}. case (pc(c := v)) k of Popped i \<Rightarrow> {#i#} | _ \<Rightarrow> {#}) =
      (\<Sum>k\<in>{..<NCPU} - {c}. case pc k of Popped i \<Rightarrow> {#i#} | _ \<Rightarrow> {#})" by (rule sum.cong) auto
  ultimately show ?thesis by simp
qed

lemma runnables_upd:
  assumes "length (p_inner s) = NPROC" "i < NPROC"
  shows "runnables (upd_inner i f s) + (if pstate s i = RUNNABLE then {#i#} else {#}) =
    runnables s + (if pi_state (f (pinner s i)) = RUNNABLE then {#i#} else {#})"
proof -
  let ?R = "{k. k < NPROC \<and> pstate s k = RUNNABLE}"
  have e: "{k. k < NPROC \<and> pstate (upd_inner i f s) k = RUNNABLE} =
    (if pi_state (f (pinner s i)) = RUNNABLE then insert i ?R else ?R - {i})"
    using assms by (auto simp: upd_inner_def nth_list_update)
  have "finite ?R" by simp
  with e assms show ?thesis unfolding runnables_def
    by (auto simp: insert_absorb mset_set.remove [of ?R i])
qed

text \<open>One process changes its state and one CPU its place.\<close>

definition pc_ok :: "pst \<Rightarrow> (nat \<Rightarrow> cpu_pc) \<Rightarrow> bool" where
  "pc_ok s pc \<longleftrightarrow>
     (\<forall>i<NPROC. pstate s i = RUNNING \<longleftrightarrow> (\<exists>c<NCPU. pc c = Run i)) \<and>
     (\<forall>c<NCPU. \<forall>i. on_cpu pc c i \<longrightarrow> i < NPROC \<and> (\<forall>c'<NCPU. on_cpu pc c' i \<longrightarrow> c' = c)) \<and>
     (\<forall>c<NCPU. \<forall>i<NPROC. pc c = Switch i \<longrightarrow> pstate s i \<in> {RUNNABLE, SLEEPING, STOPPED, ZOMBIE})"

lemma sched_inv_alt:
  "sched_inv (s, pc) \<longleftrightarrow> length (p_inner s) = NPROC \<and> runqs_inv (p_rq s) \<and> queued (p_rq s) + in_hand pc = runnables s \<and> pc_ok s pc"
  by (simp add: sched_inv_def pc_ok_def)

lemma pc_ok_states: "pc_ok s pc \<Longrightarrow> (\<And>i. i < NPROC \<Longrightarrow> pstate s' i = pstate s i) \<Longrightarrow> pc_ok s' pc"
  by (simp add: pc_ok_def)

lemma pstate_upd: "length (p_inner s) = NPROC \<Longrightarrow> i < NPROC \<Longrightarrow>
    pstate ((upd_inner i f s)\<lparr>p_rq := q\<rparr>) k = (if k = i then pi_state (f (pinner s i)) else pstate s k)"
  by (auto simp: upd_inner_def nth_list_update)

lemma pc_ok_slot:
  assumes "pc_ok s pc" "length (p_inner s) = NPROC" "i < NPROC" "unlocked pc i" "pstate s i \<noteq> RUNNING"
    "pi_state (f (pinner s i)) \<noteq> RUNNING"
  shows "pc_ok ((upd_inner i f s)\<lparr>p_rq := q\<rparr>) pc"
  using assms unfolding pc_ok_def pstate_upd [OF assms(2,3)] unlocked_def by auto

lemma pc_okD:
  assumes "pc_ok s pc"
  shows "i < NPROC \<Longrightarrow> pstate s i = RUNNING \<longleftrightarrow> (\<exists>c<NCPU. pc c = Run i)"
    and "c < NCPU \<Longrightarrow> on_cpu pc c i \<Longrightarrow> i < NPROC"
    and "c < NCPU \<Longrightarrow> on_cpu pc c i \<Longrightarrow> c' < NCPU \<Longrightarrow> on_cpu pc c' i \<Longrightarrow> c' = c"
    and "c < NCPU \<Longrightarrow> i < NPROC \<Longrightarrow> pc c = Switch i \<Longrightarrow> pstate s i \<in> {RUNNABLE, SLEEPING, STOPPED, ZOMBIE}"
  using assms unfolding pc_ok_def by blast+

lemma pc_okI:
  assumes "\<And>i. i < NPROC \<Longrightarrow> pstate s i = RUNNING \<longleftrightarrow> (\<exists>c<NCPU. pc c = Run i)"
    "\<And>c i. c < NCPU \<Longrightarrow> on_cpu pc c i \<Longrightarrow> i < NPROC"
    "\<And>c c' i. c < NCPU \<Longrightarrow> on_cpu pc c i \<Longrightarrow> c' < NCPU \<Longrightarrow> on_cpu pc c' i \<Longrightarrow> c' = c"
    "\<And>c i. c < NCPU \<Longrightarrow> i < NPROC \<Longrightarrow> pc c = Switch i \<Longrightarrow> pstate s i \<in> {RUNNABLE, SLEEPING, STOPPED, ZOMBIE}"
  shows "pc_ok s pc"
  using assms unfolding pc_ok_def by blast

lemma pc_ok_leave:
  assumes "pc_ok s pc" "length (p_inner s) = NPROC" "c < NCPU" "pc c = Run i"
    "pi_state (f (pinner s i)) \<in> {RUNNABLE, SLEEPING, STOPPED, ZOMBIE}"
  shows "pc_ok ((upd_inner i f s)\<lparr>p_rq := q\<rparr>) (pc(c := Switch i))"
proof -
  note D = pc_okD [OF assms(1)]
  have "on_cpu pc c i" using assms(4) by (simp add: on_cpu_def)
  then have i: "i < NPROC" "\<And>c'. c' < NCPU \<Longrightarrow> on_cpu pc c' i \<Longrightarrow> c' = c" using D(2,3) assms(3) by blast+
  have o: "on_cpu (pc(c := Switch i)) c' k \<longleftrightarrow> on_cpu pc c' k" for c' k using assms(4) by (auto simp: on_cpu_def)
  note st = pstate_upd [OF assms(2) i(1)]
  show ?thesis
  proof (rule pc_okI)
    fix k assume k: "k < NPROC"
    show "pstate ((upd_inner i f s)\<lparr>p_rq := q\<rparr>) k = RUNNING \<longleftrightarrow> (\<exists>c'<NCPU. (pc(c := Switch i)) c' = Run k)"
    proof (cases "k = i")
      case True
      have "(pc(c := Switch i)) c' \<noteq> Run k" if "c' < NCPU" for c' using True i(2) [OF that] by (auto simp: on_cpu_def)
      then have "\<not> (\<exists>c'<NCPU. (pc(c := Switch i)) c' = Run k)" by blast
      then show ?thesis unfolding st using True assms(5) by (auto simp del: fun_upd_apply)
    next
      case False
      then have "(pc(c := Switch i)) c' = Run k \<longleftrightarrow> pc c' = Run k" for c' using assms(4) by auto
      then show ?thesis unfolding st using False D(1) [OF k] by simp
    qed
  next
    fix c' k assume "c' < NCPU" "k < NPROC" "(pc(c := Switch i)) c' = Switch k"
    then show "pstate ((upd_inner i f s)\<lparr>p_rq := q\<rparr>) k \<in> {RUNNABLE, SLEEPING, STOPPED, ZOMBIE}"
      unfolding st using D(4) [of c' k] assms(5) by (auto split: if_splits)
  next
    fix c' c'' k assume "c' < NCPU" "on_cpu (pc(c := Switch i)) c' k" "c'' < NCPU" "on_cpu (pc(c := Switch i)) c'' k"
    then show "c'' = c'" unfolding o by (rule D(3))
  qed (unfold o, rule D(2))
qed

lemma pc_ok_enter:
  assumes "pc_ok s pc" "length (p_inner s) = NPROC" "c < NCPU" "pc c = Popped i" "i < NPROC" "unlocked pc i"
    "pstate s i \<noteq> RUNNING" "pi_state (f (pinner s i)) = RUNNING"
  shows "pc_ok ((upd_inner i f s)\<lparr>p_rq := q\<rparr>) (pc(c := Run i))"
proof -
  note D = pc_okD [OF assms(1)]
  note st = pstate_upd [OF assms(2,5)]
  have n: "\<not> on_cpu pc c' i" if "c' < NCPU" for c'
    using that assms(6,7) D(1) [OF assms(5)] by (auto simp: on_cpu_def unlocked_def)
  have o: "on_cpu (pc(c := Run i)) c' k \<longleftrightarrow> (if c' = c then k = i else on_cpu pc c' k)" for c' k by (auto simp: on_cpu_def)
  show ?thesis
  proof (rule pc_okI)
    fix k assume k: "k < NPROC"
    show "pstate ((upd_inner i f s)\<lparr>p_rq := q\<rparr>) k = RUNNING \<longleftrightarrow> (\<exists>c'<NCPU. (pc(c := Run i)) c' = Run k)"
    proof (cases "k = i")
      case True
      then show ?thesis unfolding st using assms(3,8) by auto
    next
      case False
      then have "(pc(c := Run i)) c' = Run k \<longleftrightarrow> pc c' = Run k" for c' using assms(4) by auto
      then show ?thesis unfolding st using False D(1) [OF k] by simp
    qed
  next
    fix c' k assume "c' < NCPU" "on_cpu (pc(c := Run i)) c' k"
    then show "k < NPROC" using D(2) assms(5) by (auto simp: o split: if_splits)
  next
    fix c' c'' k assume "c' < NCPU" "on_cpu (pc(c := Run i)) c' k" "c'' < NCPU" "on_cpu (pc(c := Run i)) c'' k"
    then show "c'' = c'" using D(3) n by (auto simp: o split: if_splits)
  next
    fix c' k assume "c' < NCPU" "k < NPROC" "(pc(c := Run i)) c' = Switch k"
    then show "pstate ((upd_inner i f s)\<lparr>p_rq := q\<rparr>) k \<in> {RUNNABLE, SLEEPING, STOPPED, ZOMBIE}"
      unfolding st using D(4) [of c' k] assms(6) by (auto simp: unlocked_def split: if_splits)
  qed
qed

lemma pc_ok_off:
  assumes "pc_ok s pc" "\<And>i. pc c \<noteq> Run i" "\<And>i. v \<noteq> Run i" "\<And>i. v \<noteq> Switch i"
  shows "pc_ok s (pc(c := v))"
proof -
  note D = pc_okD [OF assms(1)]
  have o: "on_cpu (pc(c := v)) c' k \<Longrightarrow> on_cpu pc c' k" for c' k using assms by (auto simp: on_cpu_def split: if_splits)
  have r: "(pc(c := v)) c' = Run k \<longleftrightarrow> pc c' = Run k" for c' k using assms(2,3) by auto
  show ?thesis
  proof (rule pc_okI)
    fix c' k assume "c' < NCPU" "k < NPROC" "(pc(c := v)) c' = Switch k"
    then show "pstate s k \<in> {RUNNABLE, SLEEPING, STOPPED, ZOMBIE}" using D(4) [of c' k] assms(4) by (auto split: if_splits)
  next
    fix c' c'' k assume "c' < NCPU" "on_cpu (pc(c := v)) c' k" "c'' < NCPU" "on_cpu (pc(c := v)) c'' k"
    then show "c'' = c'" using D(3) o by blast
  qed (use r o D in blast)+
qed

section \<open>The steps keep it\<close>

lemma runnables_rq [simp]: "runnables (s\<lparr>p_rq := q\<rparr>) = runnables s"
  by (simp add: runnables_def)

lemma inv_subset: "sched_inv (s, pc) \<Longrightarrow> queued (p_rq s) \<subseteq># runnables s"
  unfolding sched_inv_alt by (metis mset_subset_eq_add_left)

lemma in_queue_or_hand: "sched_inv (s, pc) \<Longrightarrow> i \<in># queued (p_rq s) + in_hand pc \<longleftrightarrow> i < NPROC \<and> pstate s i = RUNNABLE"
  by (simp add: sched_inv_alt runnables_def)

lemma in_hand_mem: "c < NCPU \<Longrightarrow> pc c = Popped i \<Longrightarrow> i \<in># in_hand pc"
  using in_hand_upd [of c pc Idle] by simp (metis union_single_eq_member)

text \<open>A process that is not running becomes runnable.\<close>

lemma inv_make_runnable:
  assumes inv: "sched_inv (s, pc)" and i: "i < NPROC" "unlocked pc i" "pstate s i \<notin> {RUNNABLE, RUNNING}" and c: "cpu < NCPU"
  shows "\<exists>s'. make_runnable cpu i s = (Ok (), s') \<and> sched_inv (s', pc)"
proof -
  have I: "length (p_inner s) = NPROC" "runqs_inv (p_rq s)" "queued (p_rq s) + in_hand pc = runnables s" "pc_ok s pc"
    using inv by (simp_all add: sched_inv_alt)
  from make_runnable_ok [OF I(2) inv_subset [OF inv] i(1) c] i(3) obtain q cpu' where
    q: "make_runnable cpu i s = (Ok (), (upd_inner i (\<lambda>g. g\<lparr>pi_state := RUNNABLE, pi_last_cpu := cpu'\<rparr>) s)\<lparr>p_rq := q\<rparr>)"
       "runqs_inv q" "queued q = add_mset i (queued (p_rq s))" by auto
  let ?s = "(upd_inner i (\<lambda>g. g\<lparr>pi_state := RUNNABLE, pi_last_cpu := cpu'\<rparr>) s)\<lparr>p_rq := q\<rparr>"
  have "runnables ?s = add_mset i (runnables s)" using runnables_upd [OF I(1) i(1), of "\<lambda>g. g\<lparr>pi_state := RUNNABLE, pi_last_cpu := cpu'\<rparr>"] i(3) by simp
  moreover have "pc_ok ?s pc" by (rule pc_ok_slot [OF I(4,1) i(1,2)]) (use i(3) in simp_all)
  moreover have "length (p_inner ?s) = NPROC" using I(1) by (simp add: upd_inner_def)
  ultimately have "sched_inv (?s, pc)" unfolding sched_inv_alt using q(2,3) I(3) by simp
  with q(1) show ?thesis by blast
qed

lemma inv_yield:
  assumes inv: "sched_inv (s, pc)" and c: "c < NCPU" "pc c = Run i"
  shows "\<exists>s'. yielding c i s = (Ok (), s') \<and> sched_inv (s', pc(c := Switch i))"
proof -
  have I: "length (p_inner s) = NPROC" "runqs_inv (p_rq s)" "queued (p_rq s) + in_hand pc = runnables s" "pc_ok s pc"
    using inv by (simp_all add: sched_inv_alt)
  have o: "on_cpu pc c i" using c(2) by (simp add: on_cpu_def)
  then have i: "i < NPROC" using pc_okD(2) [OF I(4) c(1)] by blast
  have st: "pstate s i = RUNNING" using pc_okD(1) [OF I(4) i] c by blast
  from make_runnable_ok [OF I(2) inv_subset [OF inv] i c(1)] st obtain q cpu' where
    q: "make_runnable c i s = (Ok (), (upd_inner i (\<lambda>g. g\<lparr>pi_state := RUNNABLE, pi_last_cpu := cpu'\<rparr>) s)\<lparr>p_rq := q\<rparr>)"
       "runqs_inv q" "queued q = add_mset i (queued (p_rq s))" by auto
  let ?s = "(upd_inner i (\<lambda>g. g\<lparr>pi_state := RUNNABLE, pi_last_cpu := cpu'\<rparr>) s)\<lparr>p_rq := q\<rparr>"
  have "runnables ?s = add_mset i (runnables s)" using runnables_upd [OF I(1) i, of "\<lambda>g. g\<lparr>pi_state := RUNNABLE, pi_last_cpu := cpu'\<rparr>"] st by simp
  moreover have "in_hand (pc(c := Switch i)) = in_hand pc" using in_hand_upd [OF c(1), of pc "Switch i"] c(2) by simp
  moreover have "pc_ok ?s (pc(c := Switch i))" by (rule pc_ok_leave [OF I(4,1) c]) auto
  moreover have "length (p_inner ?s) = NPROC" using I(1) by (simp add: upd_inner_def)
  ultimately have "sched_inv (?s, pc(c := Switch i))" unfolding sched_inv_alt using q(2,3) I(3) by simp
  moreover have "yielding c i s = (Ok (), ?s)"
    using q(1) I(1) i by (simp add: yielding_def kbind_def sched_def upd_inner_def)
  ultimately show ?thesis by blast
qed

lemma inv_leave:
  assumes inv: "sched_inv (s, pc)" and c: "c < NCPU" "pc c = Run i" and f: "pi_state (f (pinner s i)) \<in> {SLEEPING, STOPPED, ZOMBIE}"
  shows "sched_inv (upd_inner i f s, pc(c := Switch i))"
proof -
  have I: "length (p_inner s) = NPROC" "runqs_inv (p_rq s)" "queued (p_rq s) + in_hand pc = runnables s" "pc_ok s pc"
    using inv by (simp_all add: sched_inv_alt)
  have "on_cpu pc c i" using c(2) by (simp add: on_cpu_def)
  then have i: "i < NPROC" using pc_okD(2) [OF I(4) c(1)] by blast
  have st: "pstate s i = RUNNING" using pc_okD(1) [OF I(4) i] c by blast
  have "runnables (upd_inner i f s) = runnables s" using runnables_upd [OF I(1) i, of f] st f by auto
  moreover have "in_hand (pc(c := Switch i)) = in_hand pc" using in_hand_upd [OF c(1), of pc "Switch i"] c(2) by simp
  moreover have "(upd_inner i f s)\<lparr>p_rq := p_rq s\<rparr> = upd_inner i f s" by (simp add: upd_inner_def)
  then have "pc_ok (upd_inner i f s) (pc(c := Switch i))" using pc_ok_leave [OF I(4,1) c, of f "p_rq s"] f by auto
  ultimately show ?thesis unfolding sched_inv_alt using I by (simp add: upd_inner_def)
qed

lemma inv_slot:
  assumes inv: "sched_inv (s, pc)" and i: "i < NPROC" "unlocked pc i" "pstate s i \<notin> {RUNNABLE, RUNNING}"
    and f: "pi_state (f (pinner s i)) \<notin> {RUNNABLE, RUNNING}"
  shows "sched_inv (upd_inner i f s, pc)"
proof -
  have I: "length (p_inner s) = NPROC" "runqs_inv (p_rq s)" "queued (p_rq s) + in_hand pc = runnables s" "pc_ok s pc"
    using inv by (simp_all add: sched_inv_alt)
  have "runnables (upd_inner i f s) = runnables s" using runnables_upd [OF I(1) i(1), of f] i(3) f by auto
  moreover have "(upd_inner i f s)\<lparr>p_rq := p_rq s\<rparr> = upd_inner i f s" by (simp add: upd_inner_def)
  then have "pc_ok (upd_inner i f s) pc" using pc_ok_slot [OF I(4,1) i(1,2), of f "p_rq s"] i(3) f by auto
  ultimately show ?thesis unfolding sched_inv_alt using I by (simp add: upd_inner_def)
qed

lemma inv_pop:
  assumes inv: "sched_inv (s, pc)" and c: "c < NCPU" "pc c = Idle"
  shows "\<exists>r s'. sched_pop c s = (Ok r, s') \<and> sched_inv (s', pc(c := case r of None \<Rightarrow> Idle | Some i \<Rightarrow> Popped i))"
proof -
  have I: "length (p_inner s) = NPROC" "runqs_inv (p_rq s)" "queued (p_rq s) + in_hand pc = runnables s" "pc_ok s pc"
    using inv by (simp_all add: sched_inv_alt)
  from pop_queued [OF I(2) c(1)] obtain r q where r: "runq_pop_or_steal (p_rq s) c = Ok (r, q)" "runqs_inv q"
    "queued (p_rq s) = queued q + (case r of None \<Rightarrow> {#} | Some i \<Rightarrow> {#i#})" by blast
  let ?pc = "pc(c := case r of None \<Rightarrow> Idle | Some i \<Rightarrow> Popped i)"
  have "in_hand ?pc = in_hand pc + (case r of None \<Rightarrow> {#} | Some i \<Rightarrow> {#i#})"
    using in_hand_upd [OF c(1), of pc "case r of None \<Rightarrow> Idle | Some i \<Rightarrow> Popped i"] c(2) by (auto split: option.splits)
  moreover have "pc_ok s ?pc" by (rule pc_ok_off [OF I(4)]) (use c(2) in \<open>auto split: option.splits\<close>)
  then have "pc_ok (s\<lparr>p_rq := q\<rparr>) ?pc" by (rule pc_ok_states) simp
  ultimately have "sched_inv (s\<lparr>p_rq := q\<rparr>, ?pc)" unfolding sched_inv_alt using r I by (simp add: ac_simps)
  moreover have "sched_pop c s = (Ok r, s\<lparr>p_rq := q\<rparr>)" using r(1) by (simp add: sched_pop_def runq_pop_def)
  ultimately show ?thesis by blast
qed

lemma view_upd_inner: "(\<And>g. pi_state (f g) = pi_state g) \<Longrightarrow> sched_view (upd_inner i f s) = sched_view s"
  by (cases "i < length (p_inner s)") (simp_all add: sched_view_def upd_inner_def map_update list_update_same_conv list_update_beyond)

lemma view_core: "core s' = core s \<Longrightarrow> sched_view s' = sched_view s"
  by (simp add: core_def sched_view_def)

lemma inv_upd: "sched_inv (s, pc) \<Longrightarrow> (\<And>g. pi_state (f g) = pi_state g) \<Longrightarrow> sched_inv (upd_inner i f s, pc)"
  using sched_inv_view view_upd_inner by blast

lemma pstate_upd_same: "(\<And>g. pi_state (f g) = pi_state g) \<Longrightarrow> pstate (upd_inner i f s) k = pstate s k"
  by (cases "i < length (p_inner s)") (auto simp: upd_inner_def nth_list_update list_update_beyond)

lemma signal_mark_state: "pi_state (signal_mark sig g) = pi_state g"
  by (simp add: signal_mark_def Let_def)

lemma tick_mark_state: "pi_state (tick_mark now g) = pi_state g"
  by (simp add: tick_mark_def)

lemma inv_wake_one:
  assumes "sched_inv (s, pc)" "i < NPROC" "unlocked pc i" "c < NCPU"
  shows "\<exists>s'. wake_one c cur chan i s = (Ok (), s') \<and> sched_inv (s', pc)"
  using inv_make_runnable [OF assms(1-3) _ assms(4)] assms(1) by (auto simp: wake_one_def)

lemma inv_signal_post:
  assumes "sched_inv (s, pc)" "i < NPROC" "unlocked pc i" "c < NCPU"
  shows "\<exists>s'. signal_post c sig i s = (Ok (), s') \<and> sched_inv (s', pc)"
proof -
  let ?s = "upd_inner i (signal_mark sig) s"
  have inv: "sched_inv (?s, pc)" using assms(1) by (rule inv_upd) (rule signal_mark_state)
  have st: "pstate ?s i = pstate s i" by (rule pstate_upd_same) (rule signal_mark_state)
  have two: "\<exists>s'. (if pstate t i = SLEEPING then make_runnable c i t else (Ok (), t)) = (Ok (), s') \<and> sched_inv (s', pc)"
    if "sched_inv (t, pc)" for t using inv_make_runnable [OF that assms(2,3) _ assms(4)] that by auto
  let ?b = "sig = SIGCONT \<or> sig_kills sig (pinner s i)"
  obtain t where t: "(if pstate ?s i = STOPPED \<and> ?b then make_runnable c i ?s else (Ok (), ?s)) = (Ok (), t)" "sched_inv (t, pc)"
    using inv_make_runnable [OF inv assms(2,3) _ assms(4)] inv by (cases "pstate ?s i = STOPPED \<and> ?b") auto
  from two [OF t(2)] obtain u where
    u: "(if pstate t i = SLEEPING then make_runnable c i t else (Ok (), t)) = (Ok (), u)" "sched_inv (u, pc)" by blast
  show ?thesis
  proof (cases "sig \<noteq> SIGKILL \<and> sig_handler sig (pinner s i) = SIG_IGN")
    case True
    with inv show ?thesis by (simp add: signal_post_def)
  next
    case False
    have "signal_post c sig i s = (Ok (), u)"
      unfolding signal_post_def Let_def kbind_def if_not_P [OF False] t(1) prod.case outcome.case u(1) by (rule refl)
    with u(2) show ?thesis by blast
  qed
qed

lemma inv_tick_one:
  assumes "sched_inv (s, pc)" "i < NPROC" "unlocked pc i" "c < NCPU"
  shows "\<exists>s'. tick_one c now i s = (Ok (), s') \<and> sched_inv (s', pc)"
proof -
  let ?s = "upd_inner i (tick_mark now) s"
  have inv: "sched_inv (?s, pc)" using assms(1) by (rule inv_upd) (rule tick_mark_state)
  have st: "pstate ?s i = pstate s i" by (rule pstate_upd_same) (rule tick_mark_state)
  show ?thesis using inv_make_runnable [OF inv assms(2,3) _ assms(4)] inv assms(1) st by (auto simp: tick_one_def Let_def)
qed

lemma inv_reap_kill:
  assumes "sched_inv (s, pc)" "i < NPROC" "unlocked pc i" "en_cpu e < NCPU"
  shows "\<exists>s'. reap_kill_one e i s = (Ok (), s') \<and> sched_inv (s', pc)"
proof -
  let ?s = "upd_inner i (\<lambda>g. g\<lparr>pi_killed := True\<rparr>) s"
  have inv: "sched_inv (?s, pc)" using assms(1) by (rule inv_upd) simp
  show ?thesis using inv_make_runnable [OF inv assms(2,3) _ assms(4)] inv assms(1) by (auto simp: reap_kill_one_def Let_def)
qed

lemma inv_start:
  assumes "sched_inv (s, pc)" "i < NPROC" "unlocked pc i" "en_cpu e < NCPU" "pstate s i = USED"
  shows "\<exists>pid s'. start_child e i s = (Ok pid, s') \<and> sched_inv (s', pc)"
proof -
  let ?s = "s\<lparr>p_parents := (p_parents s)[i := Some (en_me e)]\<rparr>"
  have "sched_inv (?s, pc)" using assms(1) by (rule sched_inv_view) (simp add: sched_view_def)
  from inv_make_runnable [OF this assms(2,3) _ assms(4)] assms(5) show ?thesis
    by (auto simp: start_child_def kbind_def kret_def)
qed

lemma slot_freed_view: "sched_view (slot_freed i s) = sched_view (upd_inner i clear_inner s)"
  by (simp add: slot_freed_def sched_view_def upd_inner_def upd_data_def)

lemma inv_unused:
  assumes "sched_inv (s, pc)" "i < NPROC" "pstate s i = UNUSED"
  shows "unlocked pc i"
  using pc_okD(4) [of s pc _ i] assms by (auto simp: sched_inv_alt unlocked_def)

lemma inv_alloc:
  assumes inv: "sched_inv (s, pc)" and r: "proc_alloc e s = (r, s')"
  shows "sched_inv (s', pc)"
proof -
  have "sched_inv (t, pc)" if "core t = core (upd_inner i f s)" "i < NPROC" "pstate s i = UNUSED"
    "pi_state (f (pinner s i)) \<notin> {RUNNABLE, RUNNING}" for t i f
    using inv_slot [where f = f, OF inv that(2) inv_unused [OF inv that(2,3)]] that by (auto intro: sched_inv_view view_core)
  note A = this
  from proc_alloc_core [OF r] show ?thesis
  proof (elim disjE exE conjE)
    assume "core s' = core s" then show ?thesis using inv view_core sched_inv_view by blast
  next
    fix i assume i: "i < NPROC" "pstate s i = UNUSED" "core s' = core (upd_inner i (used_inner (p_nextid s)) s)"
    show ?thesis by (rule A [OF i(3,1,2)]) (simp add: used_inner_def)
  next
    fix i assume i: "i < NPROC" "pstate s i = UNUSED" "core s' = core (slot_freed i s)"
    have "sched_inv (upd_inner i clear_inner s, pc)" by (rule A [OF refl i(1,2)]) (simp add: clear_inner_def)
    then show ?thesis by (rule sched_inv_view) (use view_core [OF i(3)] slot_freed_view in simp)
  qed
qed

lemma inv_free:
  assumes inv: "sched_inv (s, pc)" and i: "i < NPROC" "unlocked pc i" "pstate s i = ZOMBIE" and r: "proc_free i l s = (Ok (), s')"
  shows "sched_inv (s', pc)"
proof -
  have "sched_inv (upd_inner i clear_inner s, pc)" by (rule inv_slot [OF inv i(1,2)]) (use i(3) in \<open>simp_all add: clear_inner_def\<close>)
  then show ?thesis by (rule sched_inv_view) (use view_core [OF proc_free_Ok [OF r]] slot_freed_view in simp)
qed

lemma inv_enter:
  assumes inv: "sched_inv (s, pc)" and c: "c < NCPU" "pc c = Popped i" "unlocked pc i"
  shows "fst (sched_enter c i s) \<and> sched_inv (snd (sched_enter c i s), pc(c := Run i))"
proof -
  have I: "length (p_inner s) = NPROC" "runqs_inv (p_rq s)" "queued (p_rq s) + in_hand pc = runnables s" "pc_ok s pc"
    using inv by (simp_all add: sched_inv_alt)
  have i: "i < NPROC" "pstate s i = RUNNABLE" using in_queue_or_hand [OF inv, of i] in_hand_mem [of c pc i] c by auto
  let ?f = "\<lambda>g. g\<lparr>pi_state := RUNNING, pi_last_cpu := c\<rparr>"
  have "runnables s = add_mset i (runnables (upd_inner i ?f s))" using runnables_upd [OF I(1) i(1), of ?f] i(2) by simp
  moreover have "in_hand pc = add_mset i (in_hand (pc(c := Run i)))" using in_hand_upd [OF c(1), of pc "Run i"] c(2) by simp
  moreover have "(upd_inner i ?f s)\<lparr>p_rq := p_rq s\<rparr> = upd_inner i ?f s" by (simp add: upd_inner_def)
  then have "pc_ok (upd_inner i ?f s) (pc(c := Run i))" using pc_ok_enter [OF I(4,1) c(1,2) i(1) c(3), of ?f "p_rq s"] i(2) by auto
  ultimately have "sched_inv (upd_inner i ?f s, pc(c := Run i))" unfolding sched_inv_alt using I by (simp add: upd_inner_def)
  with i(2) show ?thesis by (simp add: sched_enter_def)
qed

lemma inv_switched: "sched_inv (s, pc) \<Longrightarrow> c < NCPU \<Longrightarrow> pc c = Switch i \<Longrightarrow> sched_inv (s, pc(c := Idle))"
  using in_hand_upd [of c pc Idle] pc_ok_off [of s pc c Idle] by (simp add: sched_inv_alt)

lemma sstep_inv: "sstep x y \<Longrightarrow> sched_inv x \<Longrightarrow> sched_inv y"
proof (induction rule: sstep.induct)
  case (pop c pc s r s')
  then show ?case using inv_pop [of s pc c] by auto
next
  case (enter c pc i s b s')
  then show ?case using inv_enter [of s pc c i] by auto
next
  case (switched c pc i s)
  then show ?case using inv_switched by blast
next
  case (yields c pc i s s')
  then show ?case using inv_yield [of s pc c i] by auto
next
  case (sleeps c pc i s chan)
  then show ?case unfolding sleep_on_def by (intro inv_leave) simp_all
next
  case (stops c pc i s sig)
  then show ?case by (intro inv_leave) (simp_all add: stop_mark_def)
next
  case (exits c pc i s status)
  then show ?case by (intro inv_leave) (simp_all add: exit_mark_def)
next
  case (wakes c i pc cur chan s s')
  then show ?case using inv_wake_one [of s pc i c cur chan] by auto
next
  case (posts c i pc sig s s')
  then show ?case using inv_signal_post [of s pc i c sig] by auto
next
  case (ticks c i pc now s s')
  then show ?case using inv_tick_one [of s pc i c now] by auto
next
  case (kills e i pc s s')
  then show ?case using inv_reap_kill [of s pc i e] by auto
next
  case (allocs e s r s' pc)
  then show ?case using inv_alloc by blast
next
  case (starts e i pc s pid s')
  then show ?case using inv_start [of s pc i e] by auto
next
  case (frees i pc s locked s')
  then show ?case using inv_free by blast
next
  case (others s' s pc)
  then show ?case using sched_inv_view by blast
qed

definition booted :: "pst \<Rightarrow> bool" where
  "booted s \<longleftrightarrow> length (p_inner s) = NPROC \<and> p_rq s = runqs_new \<and> (\<forall>i<NPROC. pstate s i \<in> {UNUSED, USED})"

lemma booted_inv:
  assumes "booted s"
  shows "sched_inv (s, \<lambda>_. Idle)"
proof -
  have "{i. i < NPROC \<and> pstate s i = RUNNABLE} = {}" using assms by (auto simp: booted_def)
  then have "runnables s = {#}" unfolding runnables_def by (simp only: mset_set.empty)
  moreover have "queued runqs_new = {#}" by (simp add: queued_def runqs_new_inv(2) NCPU_def numeral_nat)
  ultimately show ?thesis using assms
    by (auto simp: sched_inv_alt booted_def runqs_new_inv(1) in_hand_def pc_ok_def on_cpu_def)
qed

lemma reach_inv: "sstep\<^sup>*\<^sup>* x y \<Longrightarrow> sched_inv x \<Longrightarrow> sched_inv y"
  by (induction rule: rtranclp_induct) (auto intro: sstep_inv)

section \<open>Properties\<close>

text \<open>
  C21. Scheduling on several CPUs is exclusive and loses nothing. In every state reachable from boot by
  any interleaving of the CPUs' scheduler loops, of sleeping, yielding, stopping and exiting processes,
  of wakeups, signals and timer ticks, and of slots filled, started and freed: a process is on one CPU
  at most (running, or switching away with its lock held); it is in state RUNNING exactly when a CPU
  runs it; it is on the run queues, or in the hand of a CPU that took it off, exactly once if it is
  RUNNABLE and not at all otherwise. No queue overflows and no assertion fails: waking a process,
  yielding and taking the next process never panic.
\<close>

theorem scheduler_exclusive:
  assumes "booted s0" "sstep\<^sup>*\<^sup>* (s0, \<lambda>_. Idle) (s, pc)" "c < NCPU"
  shows "(\<forall>i<NPROC. \<forall>c'<NCPU. on_cpu pc c i \<and> on_cpu pc c' i \<longrightarrow> c' = c) \<and>
    (\<forall>i<NPROC. pstate s i = RUNNING \<longleftrightarrow> (\<exists>c<NCPU. pc c = Run i)) \<and>
    (\<forall>i<NPROC. count (queued (p_rq s) + in_hand pc) i = (if pstate s i = RUNNABLE then 1 else 0)) \<and>
    (\<forall>i<NPROC. unlocked pc i \<and> pstate s i \<noteq> RUNNING \<longrightarrow> fst (make_runnable c i s) = Ok ()) \<and>
    (\<forall>i. pc c = Run i \<longrightarrow> fst (yielding c i s) = Ok ()) \<and>
    (pc c = Idle \<longrightarrow> (\<exists>r. fst (sched_pop c s) = Ok r))"
proof -
  have inv: "sched_inv (s, pc)" using reach_inv [OF assms(2)] booted_inv [OF assms(1)] by blast
  then have ok: "pc_ok s pc" and q: "queued (p_rq s) + in_hand pc = runnables s" by (simp_all add: sched_inv_alt)
  have "fst (make_runnable c i s) = Ok ()" if "i < NPROC" "unlocked pc i" "pstate s i \<noteq> RUNNING" for i
  proof (cases "pstate s i = RUNNABLE")
    case True
    then show ?thesis by (simp add: make_runnable_def)
  next
    case False
    then show ?thesis using inv_make_runnable [OF inv that(1,2) _ assms(3)] that(3) by auto
  qed
  moreover have "count (queued (p_rq s) + in_hand pc) i = (if pstate s i = RUNNABLE then 1 else 0)" if "i < NPROC" for i
    unfolding q runnables_def using that by (auto simp: count_mset_set')
  moreover have "fst (yielding c i s) = Ok ()" if "pc c = Run i" for i using inv_yield [OF inv assms(3) that] by auto
  moreover have "\<exists>r. fst (sched_pop c s) = Ok r" if "pc c = Idle" using inv_pop [OF inv assms(3) that] by auto
  ultimately show ?thesis using pc_okD(1,3) [OF ok] assms(3) by blast
qed

definition demo_procs :: "procstate list \<Rightarrow> pst \<Rightarrow> pst" where
  "demo_procs sts s = s\<lparr>p_inner := map (\<lambda>st. procinner_new\<lparr>pi_state := st\<rparr>) sts, p_rq := runqs_new\<rparr>"

theorem scheduler_exclusive_witness:
  "\<exists>s0 s. booted s0 \<and> sstep\<^sup>*\<^sup>* (s0, \<lambda>_. Idle) (s, \<lambda>_. Idle) \<and> count (queued (p_rq s) + in_hand (\<lambda>_. Idle)) 0 = 1"
proof -
  define s0 where "s0 = demo_procs (USED # replicate 15 UNUSED) undefined"
  have b: "booted s0" by (simp add: booted_def s0_def demo_procs_def NPROC_def nth_Cons procinner_new_def split: nat.splits)
  define e :: penv where "e = \<lparr>en_cpu = 0, en_me = 0, en_trampoline = 0, en_fork_ret = 0, en_addr = id\<rparr>"
  have u: "unlocked (\<lambda>_. Idle) 0" by (simp add: unlocked_def)
  have st: "pstate s0 0 = USED" by (simp add: s0_def demo_procs_def)
  from inv_start [OF booted_inv [OF b], of 0 e] st u obtain pid s where
    s: "start_child e 0 s0 = (Ok pid, s)" by (auto simp: NPROC_def NCPU_def e_def)
  have r: "sstep\<^sup>*\<^sup>* (s0, \<lambda>_. Idle) (s, \<lambda>_. Idle)"
    using starts [of e 0 "\<lambda>_. Idle" s0 pid s] s u st by (simp add: NPROC_def NCPU_def e_def)
  have "pstate s 0 = RUNNABLE"
    using s by (auto simp: start_child_def kbind_def kret_def make_runnable_def Let_def st upd_inner_def s0_def demo_procs_def
        split: outcome.splits if_splits)
  moreover have "(0::nat) < NCPU" "(0::nat) < NPROC" by (simp_all add: NCPU_def NPROC_def)
  ultimately have "count (queued (p_rq s) + in_hand (\<lambda>_. Idle)) 0 = 1" using scheduler_exclusive [OF b r, of 0] by simp
  with b r show ?thesis by blast
qed

end
