(* ===== verification/Proc_Tree.thy ===== *)
theory Proc_Tree
  imports Proc_Frame
begin

text \<open>
  The family tree of the processes: every process that has ended has a living parent to report to, and
  waiting finds it.
\<close>

section \<open>What the tree depends on\<close>

definition gone :: "procstate \<Rightarrow> procstate option" where
  "gone st = (if st \<in> {UNUSED, USED, ZOMBIE} then Some st else None)"

definition tview :: "pst \<Rightarrow> nat option list \<times> nat option \<times> procstate option list \<times> nat" where
  "tview s = (p_parents s, p_init s, map (\<lambda>g. gone (pi_state g)) (p_inner s), length (p_data s))"

lemma tview_core: "core s = core t \<Longrightarrow> tview s = tview t"
  by (simp add: core_def tview_def)

lemma keeps_tview: "keeps m \<Longrightarrow> keeps_by tview m"
  by (auto simp: keeps_by_def intro: tview_core)

lemma tview_upd_inner:
  assumes "gone (pi_state (f (pinner s i))) = gone (pstate s i)"
  shows "tview (upd_inner i f s) = tview s"
proof (cases "i < length (p_inner s)")
  case True
  then show ?thesis using assms by (simp add: tview_def upd_inner_def map_update list_update_same_conv)
next
  case False
  then show ?thesis by (simp add: tview_def upd_inner_def list_update_beyond)
qed

lemma tview_rq [simp]: "tview (p_rq_update f s) = tview s"
  by (simp add: tview_def)

lemma tview_make_runnable:
  assumes "gone (pstate s i) = None"
  shows "tview (snd (make_runnable cpu i s)) = tview s"
proof -
  have "tview (upd_inner i (\<lambda>g. g\<lparr>pi_state := RUNNABLE, pi_last_cpu := c\<rparr>) s) = tview s" for c
    by (rule tview_upd_inner) (use assms in \<open>simp add: gone_def\<close>)
  then show ?thesis unfolding make_runnable_def Let_def
    by (cases "runq_push_cpu (p_rq s) (if pi_last_cpu (pinner s i) < NCPU then pi_last_cpu (pinner s i) else cpu) i") auto
qed

lemma tview_wake_one: "keeps_by tview (wake_one cpu cur chan i)"
  by (rule keepsI) (auto simp: wake_one_def gone_def intro!: tview_make_runnable)

lemma tview_wakeup [keeps]: "keeps_by tview (wakeup cpu cur chan)"
  unfolding wakeup_def by (intro keeps tview_wake_one)

lemma tview_reap_kill [keeps]: "keeps_by tview (reap_kill_one e c)"
proof (rule keepsI)
  fix s
  have u: "tview (upd_inner c (\<lambda>g. g\<lparr>pi_killed := True\<rparr>) s) = tview s" by (rule tview_upd_inner) simp
  then show "tview (snd (reap_kill_one e c s)) = tview s"
    using tview_make_runnable [of "upd_inner c (\<lambda>g. g\<lparr>pi_killed := True\<rparr>) s" c] by (auto simp: reap_kill_one_def Let_def gone_def)
qed

section \<open>The invariant\<close>

definition tree_ok :: "pst \<Rightarrow> bool" where
  "tree_ok s \<longleftrightarrow>
     length (p_inner s) = NPROC \<and> length (p_parents s) = NPROC \<and> length (p_data s) = NPROC \<and>
     (\<exists>ini<NPROC. p_init s = Some ini \<and> gone (pstate s ini) = None \<and>
       (\<forall>c<NPROC. c \<noteq> ini \<and> pstate s c \<notin> {UNUSED, USED} \<longrightarrow> p_parents s ! c \<noteq> None)) \<and>
     (\<forall>c<NPROC. \<forall>p. p_parents s ! c = Some p \<longrightarrow> p < NPROC \<and> gone (pstate s p) = None \<and> pstate s c \<notin> {UNUSED, USED})"

lemma gone_iff: "st = UNUSED \<longleftrightarrow> gone st = Some UNUSED" "st = USED \<longleftrightarrow> gone st = Some USED" "st = ZOMBIE \<longleftrightarrow> gone st = Some ZOMBIE"
  by (auto simp: gone_def)

lemma tree_ok_view: 
  assumes "tree_ok s" "tview t = tview s"
  shows "tree_ok t"
proof -
  have l: "length (p_inner t) = length (p_inner s)" using assms(2) map_eq_imp_length_eq by (auto simp: tview_def)
  have g: "gone (pstate t i) = gone (pstate s i)" if "i < NPROC" for i
    using assms that l by (simp add: tview_def tree_ok_def) (metis nth_map)
  from assms(2) have p: "p_parents t = p_parents s" "p_init t = p_init s" "length (p_data t) = length (p_data s)" by (simp_all add: tview_def)
  have u: "pstate t i \<in> {UNUSED, USED} \<longleftrightarrow> pstate s i \<in> {UNUSED, USED}" if "i < NPROC" for i
    using g [OF that] by (metis gone_iff(1,2) insert_iff singletonD)
  obtain ini where ini: "ini < NPROC" "p_init s = Some ini" "gone (pstate s ini) = None"
    "\<forall>c<NPROC. c \<noteq> ini \<and> pstate s c \<notin> {UNUSED, USED} \<longrightarrow> p_parents s ! c \<noteq> None"
    using assms(1) unfolding tree_ok_def by blast
  have "\<forall>c<NPROC. \<forall>p. p_parents s ! c = Some p \<longrightarrow> p < NPROC \<and> gone (pstate s p) = None \<and> pstate s c \<notin> {UNUSED, USED}"
    using assms(1) unfolding tree_ok_def by blast
  then have "\<forall>c<NPROC. \<forall>p. p_parents t ! c = Some p \<longrightarrow> p < NPROC \<and> gone (pstate t p) = None \<and> pstate t c \<notin> {UNUSED, USED}"
    using g u p(1) by metis
  moreover have "\<exists>ini<NPROC. p_init t = Some ini \<and> gone (pstate t ini) = None \<and>
       (\<forall>c<NPROC. c \<noteq> ini \<and> pstate t c \<notin> {UNUSED, USED} \<longrightarrow> p_parents t ! c \<noteq> None)"
    using ini g u p by metis
  ultimately show ?thesis using assms(1) l p unfolding tree_ok_def by simp
qed

lemma tree_ok_keeps: "tree_ok s \<Longrightarrow> keeps_by tview m \<Longrightarrow> m s = (r, s') \<Longrightarrow> tree_ok s'"
  using tree_ok_view keepsD by metis

lemma tree_okD:
  assumes "tree_ok s"
  shows "length (p_inner s) = NPROC" "length (p_parents s) = NPROC" "length (p_data s) = NPROC"
    "\<And>c p. c < NPROC \<Longrightarrow> p_parents s ! c = Some p \<Longrightarrow> p < NPROC"
    "\<And>c p. c < NPROC \<Longrightarrow> p_parents s ! c = Some p \<Longrightarrow> gone (pstate s p) = None"
    "\<And>c p. c < NPROC \<Longrightarrow> p_parents s ! c = Some p \<Longrightarrow> pstate s c \<notin> {UNUSED, USED}"
  using assms unfolding tree_ok_def by blast+

lemma tree_ok_init:
  assumes "tree_ok s"
  obtains ini where "ini < NPROC" "p_init s = Some ini" "gone (pstate s ini) = None"
    "\<And>c. c < NPROC \<Longrightarrow> c \<noteq> ini \<Longrightarrow> pstate s c \<notin> {UNUSED, USED} \<Longrightarrow> p_parents s ! c \<noteq> None"
  using assms unfolding tree_ok_def by blast

lemma tree_okI:
  assumes "length (p_inner s) = NPROC" "length (p_parents s) = NPROC" "length (p_data s) = NPROC"
    "ini < NPROC" "p_init s = Some ini" "gone (pstate s ini) = None"
    "\<And>c. c < NPROC \<Longrightarrow> c \<noteq> ini \<Longrightarrow> pstate s c \<notin> {UNUSED, USED} \<Longrightarrow> p_parents s ! c \<noteq> None"
    "\<And>c p. c < NPROC \<Longrightarrow> p_parents s ! c = Some p \<Longrightarrow> p < NPROC \<and> gone (pstate s p) = None \<and> pstate s c \<notin> {UNUSED, USED}"
  shows "tree_ok s"
  using assms unfolding tree_ok_def by blast

lemma nth_upd_inner: "c < length (p_inner s) \<Longrightarrow> pinner (upd_inner c f s) k = (if k = c then f (pinner s c) else pinner s k)"
  by (simp add: upd_inner_def)

lemma upd_inner_fields [simp]:
  "p_parents (upd_inner c f s) = p_parents s" "p_init (upd_inner c f s) = p_init s" "p_data (upd_inner c f s) = p_data s"
  "length (p_inner (upd_inner c f s)) = length (p_inner s)"
  by (simp_all add: upd_inner_def)

lemma tree_slot:
  assumes t: "tree_ok s" and c: "c < NPROC" "pstate s c \<in> {UNUSED, USED}" and f: "pi_state (f (pinner s c)) \<in> {UNUSED, USED}"
  shows "tree_ok (upd_inner c f s)"
proof -
  note D = tree_okD [OF t]
  obtain ini where ini: "ini < NPROC" "p_init s = Some ini" "gone (pstate s ini) = None"
    "\<And>c. c < NPROC \<Longrightarrow> c \<noteq> ini \<Longrightarrow> pstate s c \<notin> {UNUSED, USED} \<Longrightarrow> p_parents s ! c \<noteq> None"
    using tree_ok_init [OF t] by blast
  have n: "gone (pstate s c) \<noteq> None" using c(2) by (auto simp: gone_def)
  have st: "pstate (upd_inner c f s) k = (if k = c then pi_state (f (pinner s c)) else pstate s k)" for k
    using c(1) D(1) by (simp add: nth_upd_inner)
  show ?thesis
  proof (rule tree_okI [where ini = ini])
    fix k assume "k < NPROC" "k \<noteq> ini" "pstate (upd_inner c f s) k \<notin> {UNUSED, USED}"
    then show "p_parents (upd_inner c f s) ! k \<noteq> None" using ini(4) f by (auto simp: st split: if_splits)
  next
    fix k p assume k: "k < NPROC" "p_parents (upd_inner c f s) ! k = Some p"
    then have kp: "p_parents s ! k = Some p" by simp
    have "p \<noteq> c" using D(5) [OF k(1) kp] n by auto
    moreover have "k \<noteq> c" using D(6) [OF k(1) kp] c(2) by auto
    ultimately show "p < NPROC \<and> gone (pstate (upd_inner c f s) p) = None \<and> pstate (upd_inner c f s) k \<notin> {UNUSED, USED}"
      using D(4-6) [OF k(1) kp] by (simp add: st)
  qed (use D ini n in \<open>auto simp: st\<close>)
qed

lemma tree_reap:
  assumes t: "tree_ok s" and c: "c < NPROC" "pstate s c = ZOMBIE"
  shows "tree_ok ((slot_freed c s)\<lparr>p_parents := (p_parents s)[c := None]\<rparr>)" (is "tree_ok ?s")
proof -
  note D = tree_okD [OF t]
  obtain ini where ini: "ini < NPROC" "p_init s = Some ini" "gone (pstate s ini) = None"
    "\<And>c. c < NPROC \<Longrightarrow> c \<noteq> ini \<Longrightarrow> pstate s c \<notin> {UNUSED, USED} \<Longrightarrow> p_parents s ! c \<noteq> None"
    using tree_ok_init [OF t] by blast
  have n: "gone (pstate s c) \<noteq> None" using c(2) by (auto simp: gone_def)
  have st: "pstate ?s k = (if k = c then UNUSED else pstate s k)" for k
    using c(1) D(1) by (simp add: slot_freed_def nth_upd_inner clear_inner_def upd_data_def)
  have pa: "p_parents ?s ! k = (if k = c then None else p_parents s ! k)" for k using c(1) D(2) by simp
  show ?thesis
  proof (rule tree_okI [where ini = ini])
    fix k assume "k < NPROC" "k \<noteq> ini" "pstate ?s k \<notin> {UNUSED, USED}"
    then show "p_parents ?s ! k \<noteq> None" unfolding pa st using ini(4) by (auto split: if_splits)
  next
    fix k p assume k: "k < NPROC" "p_parents ?s ! k = Some p"
    then have kp: "p_parents s ! k = Some p" "k \<noteq> c" unfolding pa by (auto split: if_splits)
    have "p \<noteq> c" using D(5) [OF k(1) kp(1)] n by auto
    then show "p < NPROC \<and> gone (pstate ?s p) = None \<and> pstate ?s k \<notin> {UNUSED, USED}"
      unfolding st using D(4-6) [OF k(1) kp(1)] kp(2) by simp
  next
    show "gone (pstate ?s ini) = None" unfolding st using ini(3) n by auto
  qed (use D ini in \<open>simp_all add: slot_freed_def upd_data_def\<close>)
qed

lemma tree_start:
  assumes t: "tree_ok s" and c: "c < NPROC" "pstate s c = USED" and me: "me < NPROC" "gone (pstate s me) = None"
    and f: "gone (pi_state (f (pinner s c))) = None"
  shows "tree_ok ((upd_inner c f s)\<lparr>p_parents := (p_parents s)[c := Some me]\<rparr>)" (is "tree_ok ?s")
proof -
  note D = tree_okD [OF t]
  obtain ini where ini: "ini < NPROC" "p_init s = Some ini" "gone (pstate s ini) = None"
    "\<And>c. c < NPROC \<Longrightarrow> c \<noteq> ini \<Longrightarrow> pstate s c \<notin> {UNUSED, USED} \<Longrightarrow> p_parents s ! c \<noteq> None"
    using tree_ok_init [OF t] by blast
  have st: "pstate ?s k = (if k = c then pi_state (f (pinner s c)) else pstate s k)" for k
    using c(1) D(1) by (simp add: nth_upd_inner)
  have pa: "p_parents ?s ! k = (if k = c then Some me else p_parents s ! k)" for k using c(1) D(2) by simp
  have g: "gone (pstate ?s k) = None" if "gone (pstate s k) = None" for k unfolding st using f that by auto
  show ?thesis
  proof (rule tree_okI [where ini = ini])
    fix k assume "k < NPROC" "k \<noteq> ini" "pstate ?s k \<notin> {UNUSED, USED}"
    then show "p_parents ?s ! k \<noteq> None" unfolding pa st using ini(4) by (auto split: if_splits)
  next
    fix k p assume k: "k < NPROC" "p_parents ?s ! k = Some p"
    show "p < NPROC \<and> gone (pstate ?s p) = None \<and> pstate ?s k \<notin> {UNUSED, USED}"
    proof (cases "k = c")
      case True
      then show ?thesis using k g [of me] me f unfolding pa st by (auto simp: gone_def split: if_splits)
    next
      case False
      then have kp: "p_parents s ! k = Some p" using k unfolding pa by simp
      show ?thesis using D(4,6) [OF k(1) kp] g [OF D(5) [OF k(1) kp]] False unfolding st by simp
    qed
  qed (use D ini g in \<open>simp_all del: One_nat_def\<close>)
qed

lemma tree_zombie:
  assumes t: "tree_ok s" and me: "me < NPROC" "p_init s \<noteq> Some me" "p_parents s ! me \<noteq> None" "\<And>k. k < NPROC \<Longrightarrow> p_parents s ! k \<noteq> Some me"
  shows "tree_ok (upd_inner me (exit_mark status) s)" (is "tree_ok ?s")
proof -
  note D = tree_okD [OF t]
  obtain ini where ini: "ini < NPROC" "p_init s = Some ini" "gone (pstate s ini) = None"
    "\<And>c. c < NPROC \<Longrightarrow> c \<noteq> ini \<Longrightarrow> pstate s c \<notin> {UNUSED, USED} \<Longrightarrow> p_parents s ! c \<noteq> None"
    using tree_ok_init [OF t] by blast
  have st: "pstate ?s k = (if k = me then ZOMBIE else pstate s k)" for k
    using me(1) D(1) by (simp add: nth_upd_inner exit_mark_def)
  show ?thesis
  proof (rule tree_okI [where ini = ini])
    fix k assume "k < NPROC" "k \<noteq> ini" "pstate ?s k \<notin> {UNUSED, USED}"
    then show "p_parents ?s ! k \<noteq> None" unfolding st using ini(4) me(3) by (auto split: if_splits)
  next
    fix k p assume k: "k < NPROC" "p_parents ?s ! k = Some p"
    then have kp: "p_parents s ! k = Some p" by simp
    then have "p \<noteq> me" using me(4) [OF k(1)] by auto
    then show "p < NPROC \<and> gone (pstate ?s p) = None \<and> pstate ?s k \<notin> {UNUSED, USED}"
      unfolding st using D(4-6) [OF k(1) kp] by simp
  next
    show "gone (pstate ?s ini) = None" unfolding st using ini(2,3) me(2) by auto
  qed (use D ini in simp_all)
qed

section \<open>The operations keep it\<close>

definition pres :: "(pst \<Rightarrow> bool) \<Rightarrow> 'a pop \<Rightarrow> bool" where
  "pres P m \<longleftrightarrow> (\<forall>s r s'. P s \<longrightarrow> m s = (r, s') \<longrightarrow> r \<noteq> Panic \<longrightarrow> P s')"

definition by_view :: "(pst \<Rightarrow> bool) \<Rightarrow> bool" where
  "by_view P \<longleftrightarrow> (\<forall>s t. tview s = tview t \<longrightarrow> P s \<longrightarrow> P t)"

named_theorems pres

lemma presD: "pres P m \<Longrightarrow> P s \<Longrightarrow> m s = (r, s') \<Longrightarrow> r \<noteq> Panic \<Longrightarrow> P s'"
  by (simp add: pres_def)

lemma pres_kbind [pres]: "pres P m \<Longrightarrow> (\<And>x. pres P (f x)) \<Longrightarrow> pres P (kbind m f)"
  unfolding pres_def
proof (intro allI impI)
  fix s r s'
  assume m: "\<forall>s r s'. P s \<longrightarrow> m s = (r, s') \<longrightarrow> r \<noteq> Panic \<longrightarrow> P s'"
    and f: "\<And>x. \<forall>s r s'. P s \<longrightarrow> f x s = (r, s') \<longrightarrow> r \<noteq> Panic \<longrightarrow> P s'"
    and s: "P s" "kbind m f s = (r, s')" "r \<noteq> Panic"
  from s(2) show "P s'"
  proof (cases rule: kbind_cases)
    case (1 x t)
    have "P t" using m s(1) 1(1) by blast
    then show ?thesis using f 1(2) s(3) by blast
  next
    case (2 e)
    then show ?thesis using m s(1) by blast
  qed (use s(3) in simp)
qed

lemma pres_kfold [pres]: "(\<And>x. x \<in> set xs \<Longrightarrow> pres P (f x)) \<Longrightarrow> pres P (kfold f xs)"
proof (induction xs)
  case Nil
  then show ?case by (simp add: pres_def)
next
  case (Cons x xs)
  then have "pres P (kbind (f x) (\<lambda>_. kfold f xs))" by (intro pres_kbind) auto
  moreover have "kfold f (x # xs) = kbind (f x) (\<lambda>_. kfold f xs)" by (rule ext) simp
  ultimately show ?case by simp
qed

lemma pres_view: "by_view P \<Longrightarrow> keeps_by tview m \<Longrightarrow> pres P m"
  unfolding pres_def by_view_def using keepsD by metis

definition tree_me :: "nat \<Rightarrow> pst \<Rightarrow> bool" where
  "tree_me me s \<longleftrightarrow> tree_ok s \<and> me < NPROC \<and> gone (pstate s me) = None"

definition tree_child :: "nat \<Rightarrow> nat \<Rightarrow> pst \<Rightarrow> bool" where
  "tree_child me c s \<longleftrightarrow> tree_me me s \<and> c < NPROC \<and> gone (pstate s c) = Some USED"

lemma view_gone: "tview s = tview t \<Longrightarrow> tree_ok s \<Longrightarrow> i < NPROC \<Longrightarrow> gone (pstate t i) = gone (pstate s i)"
  using map_eq_imp_length_eq [of "\<lambda>g. gone (pi_state g)" "p_inner s" "\<lambda>g. gone (pi_state g)" "p_inner t"]
  by (simp add: tview_def tree_ok_def) (metis nth_map)

lemma by_view_tree: "by_view tree_ok" "by_view (tree_me me)" "by_view (tree_child me c)"
  unfolding by_view_def tree_me_def tree_child_def using tree_ok_view view_gone by metis+

lemma slot_freed_tview: "tview (slot_freed i s) = tview (upd_inner i clear_inner s)"
  by (simp add: slot_freed_def tview_def upd_inner_def upd_data_def)

lemma tree_alloc:
  assumes t: "tree_me me s" and r: "proc_alloc e s = (r, s')"
  shows "tree_me me s'" "r = Ok c \<Longrightarrow> tree_child me c s'"
proof -
  have ok: "tree_ok s" and me: "me < NPROC" "gone (pstate s me) = None" using t by (simp_all add: tree_me_def)
  have len: "length (p_inner s) = NPROC" using tree_okD [OF ok] by simp
  have A: "tree_me me (upd_inner i f s)" if i: "i < NPROC" "pstate s i = UNUSED" and f: "pi_state (f (pinner s i)) \<in> {UNUSED, USED}" for i f
  proof -
    have "me \<noteq> i" using i(2) me(2) by (auto simp: gone_def)
    then show ?thesis using tree_slot [where f = f, OF ok i(1)] f i me len by (simp add: tree_me_def nth_upd_inner)
  qed
  have B: "tree_me me t" if "tview t = tview u" "tree_me me u" for t u using that by_view_tree(2) unfolding by_view_def by metis
  have C: "tree_me me s' \<and> (r = Ok c \<longrightarrow> tree_child me c s')"
    using proc_alloc_core [OF r]
  proof (elim disjE exE conjE)
    assume "core s' = core s" "\<forall>i. r \<noteq> Ok i"
    then show ?thesis using B [OF tview_core t] by blast
  next
    fix i assume i: "i < NPROC" "pstate s i = UNUSED" "core s' = core (upd_inner i (used_inner (p_nextid s)) s)" "\<forall>j. r = Ok j \<longrightarrow> j = i"
    let ?u = "upd_inner i (used_inner (p_nextid s)) s"
    have u: "tree_me me ?u" by (rule A [OF i(1,2)]) (simp add: used_inner_def)
    then have "tree_child me i ?u" using i(1) len by (simp add: tree_child_def nth_upd_inner used_inner_def gone_def)
    then have "tree_child me i s'" using by_view_tree(3) tview_core [OF i(3)] unfolding by_view_def by metis
    then show ?thesis using i(4) by (auto simp: tree_child_def)
  next
    fix i assume i: "i < NPROC" "pstate s i = UNUSED" "core s' = core (slot_freed i s)" "\<forall>j. r \<noteq> Ok j"
    have "tree_me me (upd_inner i clear_inner s)" by (rule A [OF i(1,2)]) (simp add: clear_inner_def)
    then show ?thesis using B [of s' "upd_inner i clear_inner s"] tview_core [OF i(3)] slot_freed_tview i(4) by simp
  qed
  show "tree_me me s'" "r = Ok c \<Longrightarrow> tree_child me c s'" using C by blast+
qed

lemma pres_reap_child:
  assumes t: "tree_me me s" and c: "c < NPROC" "pstate s c = ZOMBIE" and r: "reap_child c l s = (r, s')" "r \<noteq> Panic"
  shows "tree_me me s'" "core s' = core ((slot_freed c s)\<lparr>p_parents := (p_parents s)[c := None]\<rparr>)"
proof -
  let ?u = "(slot_freed c s)\<lparr>p_parents := (p_parents s)[c := None]\<rparr>"
  from r obtain s1 where s1: "proc_free c l s = (Ok (), s1)" "s' = s1\<lparr>p_parents := (p_parents s1)[c := None]\<rparr>"
    unfolding reap_child_def by (auto elim!: kbind_cases simp: pmod_def dest: noerrD [OF noerr_proc_free])
  have c1: "core s1 = core (slot_freed c s)" using proc_free_Ok [OF s1(1)] .
  then show k: "core s' = core ?u" unfolding s1(2) by (simp add: core_def slot_freed_def upd_inner_def upd_data_def)
  have ok: "tree_ok s" and me: "me < NPROC" "gone (pstate s me) = None" using t by (simp_all add: tree_me_def)
  have "me \<noteq> c" using c(2) me(2) by (auto simp: gone_def)
  then have "tree_me me ?u" using tree_reap [OF ok c] me tree_okD(1) [OF ok] c(1)
    by (simp add: tree_me_def slot_freed_def nth_upd_inner upd_data_def)
  then show "tree_me me s'" using by_view_tree(2) tview_core [OF k] unfolding by_view_def by metis
qed

lemma pres_reap_one: "c < NPROC \<Longrightarrow> pres (tree_me me) (reap_one who c)"
  unfolding pres_def reap_one_def using pres_reap_child(1) by (auto split: if_splits)

lemma tree_start_child:
  assumes t: "tree_child (en_me e) c s" and r: "start_child e c s = (r, s')" "r \<noteq> Panic"
  shows "tree_me (en_me e) s'"
proof -
  let ?me = "en_me e"
  have ok: "tree_ok s" and me: "?me < NPROC" "gone (pstate s ?me) = None" and c: "c < NPROC" "pstate s c = USED"
    using t gone_iff(2) by (auto simp: tree_child_def tree_me_def)
  have ne: "?me \<noteq> c" using c(2) me(2) by (auto simp: gone_def)
  have len: "length (p_inner s) = NPROC" using tree_okD [OF ok] by simp
  from r obtain cpu q where s': "s' = (upd_inner c (\<lambda>g. g\<lparr>pi_state := RUNNABLE, pi_last_cpu := cpu\<rparr>)
      (s\<lparr>p_parents := (p_parents s)[c := Some ?me]\<rparr>))\<lparr>p_rq := q\<rparr>"
    unfolding start_child_def
    by (auto elim!: kbind_cases simp: make_runnable_def Let_def kret_def c(2) upd_inner_def split: outcome.splits)
  let ?u = "(upd_inner c (\<lambda>g. g\<lparr>pi_state := RUNNABLE, pi_last_cpu := cpu\<rparr>) s)\<lparr>p_parents := (p_parents s)[c := Some ?me]\<rparr>"
  have "tree_ok ?u" by (rule tree_start [OF ok c me]) (simp add: gone_def)
  then have "tree_me ?me ?u" using me ne len c(1) by (simp add: tree_me_def nth_upd_inner)
  moreover have "tview s' = tview ?u" unfolding s' by (simp add: tview_def upd_inner_def)
  ultimately show ?thesis using by_view_tree(2) unfolding by_view_def by metis
qed

definition trip :: "(pst \<Rightarrow> bool) \<Rightarrow> 'a pop \<Rightarrow> (pst \<Rightarrow> bool) \<Rightarrow> bool" where
  "trip P m Q \<longleftrightarrow> (\<forall>s r s'. P s \<longrightarrow> m s = (r, s') \<longrightarrow> r \<noteq> Panic \<longrightarrow> Q s')"

lemma tripD: "trip P m Q \<Longrightarrow> P s \<Longrightarrow> m s = (r, s') \<Longrightarrow> r \<noteq> Panic \<Longrightarrow> Q s'"
  by (simp add: trip_def)

lemma trip_kbind: "pres P m \<Longrightarrow> (\<And>x. trip P (f x) Q) \<Longrightarrow> (\<And>s. P s \<Longrightarrow> Q s) \<Longrightarrow> trip P (kbind m f) Q"
  unfolding trip_def
proof (intro allI impI)
  fix s r s'
  assume m: "pres P m" and f: "\<And>x. \<forall>s r s'. P s \<longrightarrow> f x s = (r, s') \<longrightarrow> r \<noteq> Panic \<longrightarrow> Q s'"
    and q: "\<And>s. P s \<Longrightarrow> Q s" and s: "P s" "kbind m f s = (r, s')" "r \<noteq> Panic"
  from s(2) show "Q s'"
  proof (cases rule: kbind_cases)
    case (1 x t)
    have "P t" using presD [OF m s(1) 1(1)] by simp
    then show ?thesis using f 1(2) s(3) by blast
  next
    case (2 e)
    then show ?thesis using presD [OF m s(1) 2(1)] q by simp
  qed (use s(3) in simp)
qed

lemma tview_inherit_rest: "tview (inherit_rest me c s) = tview s"
proof -
  let ?s = "upd_data c (\<lambda>d. d\<lparr>pd_name := pd_name d @ pd_name (pdata s me), pd_sig_tf := trapframe_default, pd_sig_active := False,
          pd_sig_restorer := pd_sig_restorer (pdata s me)\<rparr>) s"
  have "tview (upd_inner c (inherit_signals (pinner s me)) ?s) = tview ?s"
    by (rule tview_upd_inner) (simp add: inherit_signals_def)
  then show ?thesis by (simp add: inherit_rest_def tview_def upd_data_def)
qed

lemma trip_start: "trip (tree_child (en_me e) c) (start_child e c) (tree_me (en_me e))"
  unfolding trip_def using tree_start_child by blast

lemma tree_child_me: "tree_child me c s \<Longrightarrow> tree_me me s"
  by (simp add: tree_child_def)

lemma child_view: "keeps m \<Longrightarrow> pres (tree_child me c) m"
  by (intro pres_view by_view_tree keeps_tview)

lemma child_rest: "pres (tree_child me c) (pmod (inherit_rest me c))"
  by (intro pres_view by_view_tree keeps_pmod tview_inherit_rest)

lemma child_core: "tree_child me c s \<Longrightarrow> core t = core s \<Longrightarrow> tree_child me c t"
  using by_view_tree(3) tview_core unfolding by_view_def by metis

lemma tree_fork:
  assumes t: "tree_me (en_me e) s" and r: "fork e s = (r, s')" "r \<noteq> Panic"
  shows "tree_me (en_me e) s'"
proof -
  let ?me = "en_me e"
  let ?tail = "\<lambda>c proot croot. kbind (copy_tf ?me c (\<lambda>tf. tf(A0 := 0))) (\<lambda>_.
            kbind (inherit_files ?me c) (\<lambda>_.
            kbind (pmod (inherit_rest ?me c)) (\<lambda>_.
            kbind (fork_vmas ?me c proot croot) (\<lambda>_.
            start_child e c))))"
  have tail: "trip (tree_child ?me c) (?tail c proot croot) (tree_me ?me)" for c proot croot
    by (intro trip_kbind trip_start child_view child_rest keeps tree_child_me)
  from r(1) show ?thesis unfolding fork_def Let_def
  proof (cases rule: kbind_cases)
    case (1 c u)
    note c = tree_alloc(2) [OF t 1(1) refl]
    from 1(2) r(2) obtain pa proot where p: "pd_aspace (pdata u ?me) = Some pa" "as_root (p_as u pa) = Some proot"
      by (auto simp: with_root_def split: option.splits)
    note R = 1(2) [unfolded with_root_def [of ?me] p option.case]
    from R r(2) obtain ca croot where q: "pd_aspace (pdata u c) = Some ca" "as_root (p_as u ca) = Some croot"
      by (auto simp: with_root_def split: option.splits)
    define sz where "sz = as_sz (p_as u pa)"
    define u1 where "u1 = upd_as ca (\<lambda>x. x\<lparr>as_sz := sz\<rparr>) u"
    obtain q2 vm1 where vm: "uvm_copy proot croot sz (p_vm u1) = (q2, vm1)" by (cases "uvm_copy proot croot sz (p_vm u1)")
    have cu: "tree_child ?me c (u1\<lparr>p_vm := vm1\<rparr>)" using child_core [OF c] by (simp add: u1_def)
    note R2 = R [unfolded with_root_def q option.case, folded sz_def, folded u1_def, unfolded vm prod.case]
    show ?thesis
    proof (cases q2)
      case (Ok x)
      show ?thesis using tripD [OF tail cu] R2 [unfolded Ok outcome.case] r(2) by blast
    next
      case (Err er)
      have "free_space c [ca, pa] (u1\<lparr>p_vm := vm1\<rparr>) = (Panic, u1\<lparr>p_vm := vm1\<rparr>)"
        using q(1) by (simp add: free_space_def u1_def upd_as_def)
      then have "r = Panic" using R2 [unfolded Err outcome.case] by (simp add: proc_free_def kbind_def)
      then show ?thesis using r(2) by simp
    next
      case Panic
      then show ?thesis using R2 r(2) by simp
    qed
  next
    case (2 er)
    then show ?thesis using tree_alloc(1) [OF t] by blast
  qed (use r(2) in simp)
qed

lemma tree_clone:
  assumes t: "tree_me (en_me e) s" and r: "clone e fcn arg1 arg2 stack s = (r, s')" "r \<noteq> Panic"
  shows "tree_me (en_me e) s'"
proof -
  let ?me = "en_me e"
  have body: "trip (tree_child ?me c) (thread_body e c proot fcn arg1 arg2 stack) (tree_me ?me)" for c proot
  proof -
    let ?tail = "\<lambda>p va. kbind (on_vm (mappages proot va p PGSIZE (PTE_R OR PTE_W))) (\<lambda>_.
          kbind (copy_tf ?me c (\<lambda>tf. tf(Epc := fcn, Sp := stack + of_nat PGSIZE, A0 := arg1, A1 := arg2))) (\<lambda>_.
          kbind (pmod (upd_data c (\<lambda>d. d\<lparr>pd_is_thread := True, pd_ustack := unat stack\<rparr>))) (\<lambda>_.
          kbind (inherit_files ?me c) (\<lambda>_.
          kbind (pmod (inherit_rest ?me c)) (\<lambda>_.
          start_child e c)))))"
    have v: "tview (upd_data c f s) = tview s" for f s by (simp add: tview_def upd_data_def)
    have pd: "pres (tree_child ?me c) (pmod (upd_data c (\<lambda>d. d\<lparr>pd_is_thread := True, pd_ustack := unat stack\<rparr>)))"
      by (intro pres_view by_view_tree keeps_pmod v)
    have "trip (tree_child ?me c) (?tail p va) (tree_me ?me)" for p va
      by (intro trip_kbind trip_start tree_child_me pd child_rest child_view [OF keeps_basic(1)] child_view [OF keeps_copy_tf]
          child_view [OF keeps_inherit_files])
    then show ?thesis unfolding trip_def thread_body_def Let_def by (auto split: option.splits)
  qed
  have put: "pres (tree_me ?me) (as_put a)" for a by (intro pres_view by_view_tree keeps_tview keeps)
  show ?thesis
  proof (cases "stack = 0 \<or> \<not> PGSIZE dvd unat stack")
    case True
    then show ?thesis using r t by (simp add: clone_def kfail_def)
  next
    case False
    from r False obtain pa proot where p: "pd_aspace (pdata s ?me) = Some pa" "as_root (p_as s pa) = Some proot"
      by (auto simp: clone_def with_root_def split: option.splits)
    note R = r(1) [unfolded clone_def if_not_P [OF False] with_root_def p option.case]
    show ?thesis
    proof (cases "2 ^ 64 \<le> unat stack + PGSIZE \<or> as_sz (p_as s pa) < unat stack + PGSIZE")
      case True
      then show ?thesis using R t by simp
    next
      case False
      from R [unfolded if_not_P [OF False]] show ?thesis
      proof (cases rule: kbind_cases)
        case (1 c u)
        have cu: "tree_child ?me c (upd_data c (\<lambda>d. d\<lparr>pd_aspace := Some pa\<rparr>) u)"
          by (rule child_core [OF tree_alloc(2) [OF t 1(1) refl]]) (simp add: core_upd_data)
        obtain q v where v: "thread_body e c proot fcn arg1 arg2 stack (upd_data c (\<lambda>d. d\<lparr>pd_aspace := Some pa\<rparr>) u) = (q, v)" by fastforce
        note R2 = 1(2) [unfolded finally_do_def v prod.case]
        have q: "q \<noteq> Panic" using R2 r(2) by auto
        then have tv: "tree_me ?me v" using tripD [OF body cu v] by blast
        show ?thesis
        proof (cases "pd_aspace (pdata u c)")
          case None
          then show ?thesis using R2 tv q by (auto simp: kret_def split: outcome.splits)
        next
          case (Some a)
          then show ?thesis using R2 presD [OF put tv] q r(2) by (fastforce split: outcome.splits prod.splits)
        qed
      next
        case (2 er)
        then show ?thesis using tree_alloc(1) [OF t] by blast
      qed (use r(2) in simp)
    qed
  qed
qed

section \<open>Exit and wait\<close>

lemma procs_iff [simp]: "i \<in> set procs \<longleftrightarrow> i < NPROC"
  by (auto simp: procs_def)

text \<open>The children of a process that ends go to \<^verbatim>\<open>init\<close>.\<close>

definition adopt :: "nat \<Rightarrow> nat \<Rightarrow> nat list \<Rightarrow> nat option list \<Rightarrow> nat option list" where
  "adopt me ini cs ps = map (\<lambda>k. if k \<in> set cs \<and> ps ! k = Some me then Some ini else ps ! k) [0..<length ps]"

lemma adopt_Cons:
  assumes "ini \<noteq> me"
  shows "adopt me ini cs (if ps ! c = Some me then ps[c := Some ini] else ps) = adopt me ini (c # cs) ps"
proof (cases "c < length ps")
  case True
  then show ?thesis using assms by (auto simp: adopt_def nth_list_update)
next
  case False
  then show ?thesis by (auto simp: adopt_def list_update_beyond)
qed

lemma reparent_parents:
  assumes "kfold (reparent_one e) cs s = (Ok (), s')" "p_init s = Some ini" "ini \<noteq> en_me e"
  shows "tview s' = tview (s\<lparr>p_parents := adopt (en_me e) ini cs (p_parents s)\<rparr>)"
  using assms
proof (induction cs arbitrary: s)
  case Nil
  have "adopt (en_me e) ini [] (p_parents s) = p_parents s" by (simp add: adopt_def map_nth)
  with Nil show ?case by simp
next
  case (Cons c cs)
  let ?me = "en_me e"
  from Cons.prems(1) obtain s1 where s1: "reparent_one e c s = (Ok (), s1)" "kfold (reparent_one e) cs s1 = (Ok (), s')"
    by (auto dest!: kbind_OkD)
  let ?u = "s\<lparr>p_parents := if p_parents s ! c = Some ?me then (p_parents s)[c := Some ini] else p_parents s\<rparr>"
  have v: "tview s1 = tview ?u"
    using s1(1) Cons.prems(2) keepsD [OF tview_wakeup] by (auto simp: reparent_one_def split: if_splits)
  have p: "p_parents s1 = p_parents ?u" "p_init s1 = Some ini" using v Cons.prems(2) by (simp_all add: tview_def)
  have "adopt ?me ini cs (p_parents s1) = adopt ?me ini (c # cs) (p_parents s)" unfolding p(1) using adopt_Cons [OF Cons.prems(3)] by simp
  with Cons.IH [OF s1(2) p(2) Cons.prems(3)] v show ?case by (simp add: tview_def)
qed

lemma tree_adopt:
  assumes t: "tree_me me s" and ini: "p_init s = Some ini" "ini \<noteq> me"
  shows "tree_me me (s\<lparr>p_parents := adopt me ini procs (p_parents s)\<rparr>)" (is "tree_me me ?s")
    and "k < NPROC \<Longrightarrow> adopt me ini procs (p_parents s) ! k \<noteq> Some me"
    and "k < NPROC \<Longrightarrow> adopt me ini procs (p_parents s) ! k = None \<longleftrightarrow> p_parents s ! k = None"
proof -
  have ok: "tree_ok s" and me: "me < NPROC" "gone (pstate s me) = None" using t by (simp_all add: tree_me_def)
  note D = tree_okD [OF ok]
  have n: "adopt me ini procs (p_parents s) ! k = (if p_parents s ! k = Some me then Some ini else p_parents s ! k)" if "k < NPROC" for k
    using that D(2) by (simp add: adopt_def)
  show "k < NPROC \<Longrightarrow> adopt me ini procs (p_parents s) ! k \<noteq> Some me" using ini(2) by (simp add: n)
  show a: "k < NPROC \<Longrightarrow> adopt me ini procs (p_parents s) ! k = None \<longleftrightarrow> p_parents s ! k = None" for k by (simp add: n)
  obtain i2 where i2: "i2 < NPROC" "p_init s = Some i2" "gone (pstate s i2) = None"
    "\<And>c. c < NPROC \<Longrightarrow> c \<noteq> i2 \<Longrightarrow> pstate s c \<notin> {UNUSED, USED} \<Longrightarrow> p_parents s ! c \<noteq> None"
    using tree_ok_init [OF ok] by blast
  have "tree_ok ?s"
  proof (rule tree_okI [where ini = i2])
    fix k p assume k: "k < NPROC" "p_parents ?s ! k = Some p"
    then show "p < NPROC \<and> gone (pstate ?s p) = None \<and> pstate ?s k \<notin> {UNUSED, USED}"
      using D(4-6) [OF k(1)] i2 ini n [OF k(1)] by (auto split: if_splits)
  next
    fix k assume "k < NPROC" "k \<noteq> i2" "pstate ?s k \<notin> {UNUSED, USED}"
    then show "p_parents ?s ! k \<noteq> None" using i2(4) a by simp
  qed (use D i2 in \<open>simp_all add: adopt_def\<close>)
  then show "tree_me me ?s" using me by (simp add: tree_me_def)
qed

lemma tree_exit_finish:
  assumes t: "tree_me (en_me e) s" and i: "p_init s = Some ini" "ini \<noteq> en_me e" and r: "exit_finish e status s = (Ok (), s')"
  shows "tree_ok s' \<and> pstate s' (en_me e) = ZOMBIE \<and> pi_xstate (pinner s' (en_me e)) = status \<and>
    (\<forall>k<NPROC. p_parents s' ! k = (if p_parents s ! k = Some (en_me e) then Some ini else p_parents s ! k))"
proof -
  let ?me = "en_me e"
  have io: "keeps (pmod begin_op_p)" "keeps (pmod end_op_p)" by (intro keeps_pmod; simp add: begin_op_p_def end_op_p_def)+
  have f: "keeps (kfold (\<lambda>fd. set_file ?me fd None) [0..<NOFILE])" by (intro keeps)
  from r obtain s1 s2 s3 s4 s5 s6 s8 where s:
    "kfold (\<lambda>fd. set_file ?me fd None) [0..<NOFILE] s = (Ok (), s1)" "pmod begin_op_p s1 = (Ok (), s2)" "set_cwd ?me None s2 = (Ok (), s3)"
    "pmod end_op_p s3 = (Ok (), s4)" "kfold (reparent_one e) procs s4 = (Ok (), s5)"
    and s6: "(case p_parents s5 ! ?me of None \<Rightarrow> (Panic, s5) | Some pp \<Rightarrow> wakeup (en_cpu e) (Some ?me) (en_addr e pp) s5) = (Ok (), s6)"
    and s7: "pmod (upd_inner ?me (exit_mark status)) s6 = (Ok (), s8)" "sched ?me s8 = (Ok (), s')"
    unfolding exit_finish_def Let_def by (auto dest!: kbind_OkD)
  have c4: "core s4 = core s" using keepsD [OF f s(1)] keepsD [OF io(1) s(2)] keepsD [OF keeps_set_file(2) s(3)] keepsD [OF io(2) s(4)] by simp
  have t4: "tree_me ?me s4" using t tview_core [OF c4] by_view_tree(2) unfolding by_view_def by metis
  have p4: "p_init s4 = Some ini" "p_parents s4 = p_parents s" using c4 i(1) by (simp_all add: core_def)
  let ?u = "s4\<lparr>p_parents := adopt ?me ini procs (p_parents s4)\<rparr>"
  have v5: "tview s5 = tview ?u" by (rule reparent_parents [OF s(5) p4(1) i(2)])
  have v6: "tview s6 = tview s5" using s6 keepsD [OF tview_wakeup] by (auto split: option.splits)
  have t6: "tree_me ?me s6" using tree_adopt(1) [OF t4 p4(1) i(2)] v5 v6 by_view_tree(2) unfolding by_view_def by metis
  have ok: "tree_ok s6" and me: "?me < NPROC" using t6 by (simp_all add: tree_me_def)
  have p6: "p_parents s6 = adopt ?me ini procs (p_parents s)" "p_init s6 = Some ini" using v5 v6 p4 by (simp_all add: tview_def)
  have s': "s' = upd_inner ?me (exit_mark status) s6" using s7 by (auto simp: pmod_def sched_def split: if_splits)
  have "p_parents s6 ! ?me \<noteq> None" using s6 p6(1) v6 by (auto simp: tview_def split: option.splits)
  moreover have "p_parents s6 ! k \<noteq> Some ?me" if "k < NPROC" for k using tree_adopt(2) [OF t4 p4(1) i(2) that] p6(1) p4(2) by simp
  ultimately have "tree_ok s'" unfolding s' using i(2) p6(2) by (intro tree_zombie [OF ok me]) auto
  moreover have "pstate s' ?me = ZOMBIE \<and> pi_xstate (pinner s' ?me) = status"
    unfolding s' using me tree_okD(1) [OF ok] by (simp add: nth_upd_inner exit_mark_def)
  moreover have "p_parents s' ! k = (if p_parents s ! k = Some ?me then Some ini else p_parents s ! k)" if "k < NPROC" for k
    unfolding s' using that p6(1) tree_okD(2) [of s4] t4 p4(2) by (simp add: adopt_def tree_me_def)
  ultimately show ?thesis by blast
qed

definition tree_in :: "nat \<Rightarrow> nat \<Rightarrow> pst \<Rightarrow> bool" where
  "tree_in me ini s \<longleftrightarrow> tree_me me s \<and> p_init s = Some ini"

lemma by_view_in: "by_view (tree_in me ini)"
  unfolding by_view_def tree_in_def
proof (intro allI impI)
  fix s t assume v: "tview s = tview t" and s: "tree_me me s \<and> p_init s = Some ini"
  have "tree_me me t" using by_view_tree(2) v s unfolding by_view_def by blast
  then show "tree_me me t \<and> p_init t = Some ini" using v s by (simp add: tview_def)
qed

lemma tree_in_core: "tree_in me ini s \<Longrightarrow> core t = core s \<Longrightarrow> tree_in me ini t"
  using by_view_in tview_core unfolding by_view_def by metis

lemma in_reap_child:
  assumes "tree_in me ini s" "c < NPROC" "pstate s c = ZOMBIE" "reap_child c l s = (r, s')" "r \<noteq> Panic"
  shows "tree_in me ini s'"
  using pres_reap_child [of me s c l r s'] assms by (simp add: tree_in_def core_def slot_freed_def upd_data_def)

lemma pres_reap_all: "pres (tree_in me ini) (kfold (reap_one who) procs)"
proof (rule pres_kfold)
  fix c assume "c \<in> set procs"
  then show "pres (tree_in me ini) (reap_one who c)"
    unfolding pres_def reap_one_def using in_reap_child by (auto split: if_splits)
qed

lemma tree_sleep: "tree_in me ini s \<Longrightarrow> tree_in me ini (sleep_on me chan s)"
proof -
  assume t: "tree_in me ini s"
  then have "tview (sleep_on me chan s) = tview s"
    unfolding sleep_on_def by (intro tview_upd_inner) (simp add: tree_in_def tree_me_def gone_def)
  with t show ?thesis using by_view_in unfolding by_view_def by metis
qed

lemma tree_reap_threads:
  assumes t: "tree_in (en_me e) ini s" and r: "reap_threads e s = (r, s')" "r \<noteq> Some Panic"
  shows "tree_in (en_me e) ini s'"
proof -
  have k: "pres (tree_in (en_me e) ini) (kfold (reap_kill_one e) procs)" by (intro pres_view by_view_in keeps)
  obtain q s1 where s1: "kfold (reap_kill_one e) procs s = (q, s1)" by fastforce
  have q: "q \<noteq> Panic" using r s1 by (auto simp: reap_threads_def)
  have t1: "tree_in (en_me e) ini s1" using presD [OF k t s1 q] .
  show ?thesis
  proof (cases q)
    case (Ok x)
    have R: "reap_round e s1 = (r, s')" using r(1) s1 Ok by (simp add: reap_threads_def)
    obtain q2 s2 where s2: "kfold (reap_one (en_me e)) procs s1 = (q2, s2)" by fastforce
    have "q2 \<noteq> Panic" using R s2 r(2) by (auto simp: reap_round_def)
    then have "tree_in (en_me e) ini s2" using presD [OF pres_reap_all t1 s2] by blast
    then show ?thesis using R s2 tree_sleep by (auto simp: reap_round_def Let_def split: outcome.splits if_splits)
  qed (use r s1 t1 in \<open>auto simp: reap_threads_def\<close>)
qed

lemma tree_exit:
  assumes t: "tree_in (en_me e) ini s" and r: "exit e status s = (r, s')" "r \<in> {None, Some (Ok ())}"
  shows "tree_ok s'"
proof -
  have i: "p_init s = Some ini" using t by (simp add: tree_in_def)
  have ne: "ini \<noteq> en_me e" using r i by (auto simp: exit_def)
  have fin: "tree_ok s'" if "tree_in (en_me e) ini s1" "apfst Some (exit_finish e status s1) = (r, s')" for s1
    using tree_exit_finish [of e s1 ini status s'] that ne r(2) by (cases "exit_finish e status s1") (auto simp: tree_in_def)
  show ?thesis
  proof (cases "pd_is_thread (pdata s (en_me e))")
    case True
    then show ?thesis using r(1) i ne t by (intro fin) (auto simp: exit_def)
  next
    case False
    obtain q s1 where s1: "reap_threads e s = (q, s1)" by fastforce
    have R: "(case (q, s1) of (None, s1) \<Rightarrow> (None, s1) | (Some Panic, s1) \<Rightarrow> (Some Panic, s1)
             | (Some _, s1) \<Rightarrow> apfst Some (exit_finish e status s1)) = (r, s')"
      using r(1) i ne False s1 by (auto simp: exit_def)
    have q: "q \<noteq> Some Panic" using R r(2) by auto
    then have t1: "tree_in (en_me e) ini s1" using tree_reap_threads [OF t s1] by blast
    show ?thesis using R q t1 fin [OF t1] by (auto simp: tree_in_def tree_me_def split: option.splits outcome.splits)
  qed
qed

text \<open>What a scan finds.\<close>

lemma wait_child_None: "wait_child e va options c s = (None, s') \<Longrightarrow> s' = s \<and> pstate s c \<noteq> ZOMBIE"
  by (auto simp: wait_child_def Let_def apfst_def map_prod_def split: if_splits prod.splits)

lemma wait_scan_cases:
  assumes "wait_scan e want va options cs s = (r, s')"
  obtains "r = None" "s' = s" "\<forall>c\<in>set cs. waited_for (en_me e) want c s \<longrightarrow> pstate s c \<noteq> ZOMBIE"
  | c q where "c \<in> set cs" "waited_for (en_me e) want c s" "r = Some q" "wait_child e va options c s = (Some q, s')"
  using assms
proof (induction cs arbitrary: thesis)
  case Nil
  then show ?case by simp
next
  case (Cons c cs)
  show ?case
  proof (cases "waited_for (en_me e) want c s")
    case False
    have R: "wait_scan e want va options cs s = (r, s')" using Cons.prems(3) False by simp
    show ?thesis by (rule Cons.IH [OF _ _ R]) (use Cons.prems(1,2) False in auto)
  next
    case True
    obtain q t where q: "wait_child e va options c s = (q, t)" by fastforce
    show ?thesis
    proof (cases q)
      case None
      have n: "t = s" "pstate s c \<noteq> ZOMBIE" using wait_child_None [of e va options c s t] q None by auto
      have R: "wait_scan e want va options cs s = (r, s')" using Cons.prems(3) True q None n(1) by simp
      show ?thesis by (rule Cons.IH [OF _ _ R]) (use Cons.prems(1,2) n in auto)
    next
      case (Some x)
      then show ?thesis using Cons.prems(2) [of c x] Cons.prems(3) True q by auto
    qed
  qed
qed

text \<open>What a report does.\<close>

lemma wait_child_zombie:
  assumes t: "tree_in me ini s" and c: "c < NPROC" "pstate s c = ZOMBIE"
    and r: "kbind (put_user who va bs) (\<lambda>_. kbind (reap_child c l) (\<lambda>_. kret pid)) s = (r, s')" "r \<noteq> Panic"
  shows "tree_in me ini s'"
    and "r = Ok x \<Longrightarrow> x = pid \<and> (\<exists>u. put_user who va bs s = (Ok (), u)) \<and>
      core s' = core ((slot_freed c s)\<lparr>p_parents := (p_parents s)[c := None]\<rparr>)"
proof -
  have "tree_in me ini s' \<and> (r = Ok x \<longrightarrow> x = pid \<and> (\<exists>u. put_user who va bs s = (Ok (), u)) \<and>
      core s' = core ((slot_freed c s)\<lparr>p_parents := (p_parents s)[c := None]\<rparr>))"
    using r(1)
  proof (cases rule: kbind_cases)
    case (1 y u)
    have cu: "core u = core s" using keepsD [OF keeps_put_user 1(1)] .
    have tu: "tree_in me ini u" using tree_in_core [OF t cu] .
    have zu: "pstate u c = ZOMBIE" using c(2) cu by (simp add: core_def)
    from 1(2) show ?thesis
    proof (cases rule: kbind_cases)
      case (1 z v)
      have "core v = core ((slot_freed c u)\<lparr>p_parents := (p_parents u)[c := None]\<rparr>)"
        using pres_reap_child(2) [OF _ c(1) zu 1(1)] tu by (auto simp: tree_in_def)
      also have "\<dots> = core ((slot_freed c s)\<lparr>p_parents := (p_parents s)[c := None]\<rparr>)"
        using core_freed [OF cu, of c] cu by (simp add: core_def)
      finally show ?thesis using in_reap_child [OF tu c(1) zu 1(1)] 1(2) \<open>put_user who va bs s = (Ok y, u)\<close>
        by (auto simp: kret_def)
    next
      case (2 er)
      then show ?thesis using in_reap_child [OF tu c(1) zu 2(1)] by simp
    qed (use r(2) in simp)
  next
    case (2 er)
    then show ?thesis using tree_in_core [OF t keepsD [OF keeps_put_user 2(1)]] by simp
  qed (use r(2) in simp)
  then show "tree_in me ini s'" "r = Ok x \<Longrightarrow> x = pid \<and> (\<exists>u. put_user who va bs s = (Ok (), u)) \<and>
      core s' = core ((slot_freed c s)\<lparr>p_parents := (p_parents s)[c := None]\<rparr>)" by blast+
qed

lemma in_upd: "tree_in me ini s \<Longrightarrow> (\<And>g. pi_state (f g) = pi_state g) \<Longrightarrow> tree_in me ini (upd_inner c f s)"
  using by_view_in tview_upd_inner [of f s c] unfolding by_view_def by metis

lemma in_report:
  assumes t: "tree_in me ini s" and f: "\<And>g. pi_state (f g) = pi_state g"
    and r: "report_change e va status f c s = (r, s')" "r \<noteq> Panic"
  shows "tree_in me ini s'"
proof -
  have "pres (tree_in me ini) (kbind (put_user who va bs) (\<lambda>_. kbind (pmod (upd_inner c f)) (\<lambda>_. kret pid)))" for who bs and pid :: usize
    by (intro pres pres_view [OF by_view_in] keeps_tview keeps_put_user keeps_pure keeps_pmod tview_upd_inner) (simp add: f)
  from presD [OF this t r(1) [unfolded report_change_def] r(2)] show ?thesis .
qed

lemma apfst_Some: "apfst Some x = (Some r, s') \<longleftrightarrow> x = (r, s')"
  by (cases x) auto

lemma wait_child_cases:
  assumes "wait_child e va options c s = (Some r, s')"
  obtains status f where "report_change e va status f c s = (r, s')" "\<And>g. pi_state (f g) = pi_state g"
    "options AND WUNTRACED \<noteq> 0 \<or> options AND WCONTINUED \<noteq> 0"
  | "pstate s c = ZOMBIE" "report_exit e va c s = (r, s')"
proof (cases "pstate s c = STOPPED \<and> options AND WUNTRACED \<noteq> 0 \<and> \<not> pi_stop_reported (pinner s c)")
  case True
  then have "report_change e va (stop_status (pi_stop_sig (pinner s c))) (\<lambda>g. g\<lparr>pi_stop_reported := True\<rparr>) c s = (r, s')"
    using assms by (simp add: wait_child_def apfst_Some)
  then show thesis by (rule that(1)) (use True in simp_all)
next
  case a: False
  show thesis
  proof (cases "options AND WCONTINUED \<noteq> 0 \<and> pi_cont_pending (pinner s c)")
    case True
    then have "report_change e va 0xffff (\<lambda>g. g\<lparr>pi_cont_pending := False\<rparr>) c s = (r, s')"
      using assms a by (simp add: wait_child_def apfst_Some Let_def if_not_P [OF a])
    then show thesis by (rule that(1)) (use True in simp_all)
  next
    case False
    then show thesis using assms that(2) unfolding wait_child_def Let_def if_not_P [OF a] if_not_P [OF False]
      by (auto simp: apfst_Some split: if_splits)
  qed
qed

lemma in_wait_child:
  assumes t: "tree_in (en_me e) ini s" and c: "c < NPROC" and r: "wait_child e va options c s = (Some r, s')" "r \<noteq> Panic"
  shows "tree_in (en_me e) ini s'"
  using r(1)
proof (cases rule: wait_child_cases)
  case (1 status f)
  then show ?thesis using in_report [OF t 1(2,1) r(2)] by blast
next
  case 2
  then show ?thesis using wait_child_zombie(1) [OF t c 2(1)] r(2) by (auto simp: report_exit_def)
qed

lemma clear_pending_state: "pi_state (clear_pending sig g) = pi_state g"
  by (simp add: clear_pending_def)

lemma drop_ignored_state: "pi_state (drop_ignored g) = pi_state g"
proof -
  have "pi_state (fold (\<lambda>sig g. let h = sig_handler sig g in
       if pi_pending g AND sig_mask sig \<noteq> 0 \<and> (h = SIG_IGN \<or> h = SIG_DFL \<and> default_action sig = SIgnore)
       then clear_pending sig g else g) xs g) = pi_state g" for xs g
    by (induction xs arbitrary: g) (simp_all add: Let_def clear_pending_state)
  then show ?thesis by (simp add: drop_ignored_def)
qed

lemma tree_waitpid:
  assumes t: "tree_in (en_me e) ini s" and r: "waitpid e pid va options s = (r, s')" "r \<noteq> Some Panic"
  shows "tree_in (en_me e) ini s'"
proof (cases "pid < - 1")
  case True
  then show ?thesis using r t by (simp add: waitpid_def)
next
  case False
  define want :: "usize option" where "want = (if 0 < pid then Some (of_int pid) else None)"
  obtain q s1 where q: "wait_scan e want va options procs s = (q, s1)" by fastforce
  note R = r(1) [unfolded waitpid_def Let_def if_not_P [OF False], folded want_def, unfolded q prod.case]
  from q show ?thesis
  proof (cases rule: wait_scan_cases)
    case 1
    have d: "tree_in (en_me e) ini (upd_inner (en_me e) drop_ignored s)" by (rule in_upd [OF t drop_ignored_state])
    show ?thesis using R [unfolded 1(1) option.case 1(2)] t d tree_sleep [OF d] by (auto split: if_splits)
  next
    case (2 c x)
    then show ?thesis using in_wait_child [OF t, of c va options x s1] R r(2) by auto
  qed
qed

lemma tree_join:
  assumes t: "tree_in (en_me e) ini s" and r: "join e va s = (r, s')" "r \<noteq> Some Panic"
  shows "tree_in (en_me e) ini s'"
proof -
  have scan: "tree_in (en_me e) ini t'" if "join_scan e va cs s = (q, t')" "q \<noteq> Some Panic" "set cs \<subseteq> set procs" for cs q t'
    using that
  proof (induction cs)
    case Nil
    then show ?case using t by simp
  next
    case (Cons c cs)
    show ?case
    proof (cases "is_child_thread (en_me e) c s \<and> pstate s c = ZOMBIE")
      case True
      obtain x where x: "kbind (put_user (en_me e) va (le_bytes 8 (of_nat (pd_ustack (pdata s c)) :: usize))) (\<lambda>_.
          kbind (reap_child c []) (\<lambda>_. kret (pi_pid (pinner s c)))) s = (x, t')" "q = Some x"
        using Cons.prems(1) True by (auto simp: apfst_def map_prod_def split: prod.splits)
      show ?thesis by (rule wait_child_zombie(1) [OF t _ _ x(1)]) (use True Cons.prems(2,3) x(2) in auto)
    next
      case False
      then show ?thesis using Cons by auto
    qed
  qed
  obtain q s1 where q: "join_scan e va procs s = (q, s1)" by fastforce
  have "q \<noteq> Some Panic" using r q by (auto simp: join_def)
  then have "tree_in (en_me e) ini s1" using scan [OF q] by blast
  then show ?thesis using r(1) q tree_sleep by (auto simp: join_def Let_def split: option.splits if_splits)
qed

end
