(* ===== verification/Proc_Wait.thy ===== *)
theory Proc_Wait
  imports Proc_Tree
begin

text \<open>
  What waiting promises: the family tree stays whole, an exit is reported once and to the right
  process, and nobody sleeps through it.
\<close>

section \<open>Waking\<close>

definition asleep_on :: "nat \<Rightarrow> nat \<Rightarrow> pst \<Rightarrow> bool" where
  "asleep_on i chan s \<longleftrightarrow> pstate s i = SLEEPING \<and> pi_chan (pinner s i) = chan"

lemma make_runnable_other: "make_runnable cpu k s = (r, s') \<Longrightarrow> i \<noteq> k \<Longrightarrow> pinner s' i = pinner s i"
  by (auto simp: make_runnable_def Let_def upd_inner_def split: if_splits outcome.splits)

lemma make_runnable_Ok: "make_runnable cpu k s = (Ok (), s') \<Longrightarrow> k < length (p_inner s) \<Longrightarrow> pstate s' k = RUNNABLE \<and> length (p_inner s') = length (p_inner s)"
  by (auto simp: make_runnable_def Let_def upd_inner_def split: if_splits outcome.splits)

lemma wake_one_Ok:
  assumes "wake_one cpu cur chan k s = (Ok (), s')" "k < length (p_inner s)"
  shows "length (p_inner s') = length (p_inner s)" "cur \<noteq> Some k \<Longrightarrow> \<not> asleep_on k chan s'" "\<not> asleep_on i chan2 s \<Longrightarrow> \<not> asleep_on i chan2 s'"
proof -
  have A: "length (p_inner s') = length (p_inner s) \<and> (cur \<noteq> Some k \<longrightarrow> \<not> asleep_on k chan s') \<and> (\<not> asleep_on i chan2 s \<longrightarrow> \<not> asleep_on i chan2 s')"
  proof (cases "cur \<noteq> Some k \<and> asleep_on k chan s")
    case True
    then have m: "make_runnable cpu k s = (Ok (), s')" using assms(1) by (auto simp: wake_one_def asleep_on_def)
    from make_runnable_Ok [OF m assms(2)] have r: "pstate s' k = RUNNABLE" "length (p_inner s') = length (p_inner s)" by blast+
    then show ?thesis using make_runnable_other [OF m, of i] by (cases "i = k") (simp_all add: asleep_on_def)
  next
    case False
    then have "s' = s" using assms(1) by (auto simp: wake_one_def asleep_on_def split: if_splits)
    then show ?thesis using False by auto
  qed
  then show "length (p_inner s') = length (p_inner s)" "cur \<noteq> Some k \<Longrightarrow> \<not> asleep_on k chan s'"
    "\<not> asleep_on i chan2 s \<Longrightarrow> \<not> asleep_on i chan2 s'" by blast+
qed

lemma wakeup_Ok:
  assumes "wakeup cpu cur chan s = (Ok (), s')" "length (p_inner s) = NPROC" "i < NPROC" "cur \<noteq> Some i"
  shows "\<not> asleep_on i chan s'"
proof -
  have A: "kfold (wake_one cpu cur chan) cs s = (Ok (), s') \<Longrightarrow> set cs \<subseteq> {..<NPROC} \<Longrightarrow> length (p_inner s) = NPROC \<Longrightarrow>
      i \<in> set cs \<or> \<not> asleep_on i chan s \<Longrightarrow> \<not> asleep_on i chan s'" for cs s
  proof (induction cs arbitrary: s)
    case (Cons c cs)
    from Cons.prems(1) obtain u where u: "wake_one cpu cur chan c s = (Ok (), u)" "kfold (wake_one cpu cur chan) cs u = (Ok (), s')"
      by (auto dest!: kbind_OkD)
    have c: "c < length (p_inner s)" using Cons.prems(2,3) by auto
    note W = wake_one_Ok [OF u(1) c]
    show ?case
      by (rule Cons.IH [OF u(2)]) (use Cons.prems W(1) W(2) W(3) [of i chan] assms(4) in auto)
  qed simp
  show ?thesis by (rule A [OF assms(1) [unfolded wakeup_def]]) (use assms(2,3) in \<open>auto simp: procs_def\<close>)
qed

lemma wakeup_mono:
  assumes "wakeup cpu cur chan s = (Ok (), s')" "length (p_inner s) = NPROC" "\<not> asleep_on i chan2 s"
  shows "\<not> asleep_on i chan2 s' \<and> length (p_inner s') = NPROC"
proof -
  have A: "kfold (wake_one cpu cur chan) cs s = (Ok (), s') \<Longrightarrow> set cs \<subseteq> {..<NPROC} \<Longrightarrow> length (p_inner s) = NPROC \<Longrightarrow>
      \<not> asleep_on i chan2 s \<Longrightarrow> \<not> asleep_on i chan2 s' \<and> length (p_inner s') = NPROC" for cs s
  proof (induction cs arbitrary: s)
    case (Cons c cs)
    from Cons.prems(1) obtain u where u: "wake_one cpu cur chan c s = (Ok (), u)" "kfold (wake_one cpu cur chan) cs u = (Ok (), s')"
      by (auto dest!: kbind_OkD)
    have c: "c < length (p_inner s)" using Cons.prems(2,3) by auto
    note W = wake_one_Ok [OF u(1) c]
    show ?case by (rule Cons.IH [OF u(2)]) (use Cons.prems W(1) W(3) [of i chan2] in auto)
  qed simp
  show ?thesis by (rule A [OF assms(1) [unfolded wakeup_def]]) (use assms(2,3) in \<open>auto simp: procs_def\<close>)
qed

text \<open>
  C22. The family tree. As long as \<^verbatim>\<open>init\<close> lives, every process that is neither unused nor being
  built has a parent that has not ended (\<open>tree_ok\<close>), so that no process that has ended is out of reach
  of a wait. Fork, clone, exit, waitpid and join keep it so, on every path that returns or sleeps.
\<close>

theorem family_tree:
  assumes "tree_in (en_me e) ini s"
  shows "(\<forall>r s'. fork e s = (r, s') \<and> r \<noteq> Panic \<longrightarrow> tree_ok s') \<and>
    (\<forall>fcn a b stack r s'. clone e fcn a b stack s = (r, s') \<and> r \<noteq> Panic \<longrightarrow> tree_ok s') \<and>
    (\<forall>status r s'. exit e status s = (r, s') \<and> r \<in> {None, Some (Ok ())} \<longrightarrow> tree_ok s') \<and>
    (\<forall>pid va options r s'. waitpid e pid va options s = (r, s') \<and> r \<noteq> Some Panic \<longrightarrow> tree_ok s') \<and>
    (\<forall>va r s'. join e va s = (r, s') \<and> r \<noteq> Some Panic \<longrightarrow> tree_ok s')"
proof -
  have t: "tree_me (en_me e) s" using assms by (simp add: tree_in_def)
  have "tree_ok s'" if "fork e s = (r, s')" "r \<noteq> Panic" for r s' using tree_fork [OF t that] by (simp add: tree_me_def)
  moreover have "tree_ok s'" if "clone e fcn a b stack s = (r, s')" "r \<noteq> Panic" for fcn a b stack r s'
    using tree_clone [OF t that] by (simp add: tree_me_def)
  moreover have "tree_ok s'" if "exit e status s = (r, s')" "r \<in> {None, Some (Ok ())}" for status r s' using tree_exit [OF assms that] .
  moreover have "tree_ok s'" if "waitpid e pid va options s = (r, s')" "r \<noteq> Some Panic" for pid va options r s'
    using tree_waitpid [OF assms that] by (simp add: tree_in_def tree_me_def)
  moreover have "tree_ok s'" if "join e va s = (r, s')" "r \<noteq> Some Panic" for va r s'
    using tree_join [OF assms that] by (simp add: tree_in_def tree_me_def)
  ultimately show ?thesis by blast
qed

text \<open>A table in which \<^verbatim>\<open>init\<close>, process 0, is the parent of process 1.\<close>

definition demo_inner :: "nat \<Rightarrow> procstate \<Rightarrow> procinner" where
  "demo_inner pid st = procinner_new\<lparr>pi_pid := of_nat pid, pi_state := st, pi_xstate := 7\<rparr>"

definition demo_table :: "procstate \<Rightarrow> bool \<Rightarrow> pst" where
  "demo_table st thread = \<lparr>p_inner = demo_inner 0 RUNNING # demo_inner 1 st # replicate 14 procinner_new,
     p_data = procdata_new # procdata_new\<lparr>pd_is_thread := thread\<rparr> # replicate 14 procdata_new,
     p_parents = None # Some 0 # replicate 14 None, p_nextid = 2, p_init = Some 0, p_rq = runqs_new, p_as = undefined, p_next_as = 0,
     p_vm = undefined, p_ft = undefined, p_seg = undefined, p_next_seg = 0, p_shm = replicate NSHM None\<rparr>"

definition demo_env :: penv where
  "demo_env = \<lparr>en_cpu = 0, en_me = 0, en_trampoline = 0, en_fork_ret = 0, en_addr = (\<lambda>i. 64 * i + 4096)\<rparr>"

lemma demo_nth:
  "pstate (demo_table st thread) i = (if i = 0 then RUNNING else if i = 1 then st else UNUSED)" if "i < NPROC"
  using that by (auto simp: demo_table_def demo_inner_def procinner_new_def nth_Cons NPROC_def split: nat.splits)

lemma demo_pparent: "p_parents (demo_table st thread) ! i = (if i = 1 then Some 0 else None)" if "i < NPROC"
  using that by (auto simp: demo_table_def nth_Cons NPROC_def split: nat.splits)

lemma demo_tree: "st \<notin> {UNUSED, USED} \<Longrightarrow> tree_in 0 0 (demo_table st thread)"
proof -
  assume st: "st \<notin> {UNUSED, USED}"
  have len: "length (p_inner (demo_table st thread)) = NPROC" "length (p_parents (demo_table st thread)) = NPROC"
    "length (p_data (demo_table st thread)) = NPROC" "p_init (demo_table st thread) = Some 0"
    by (simp_all add: demo_table_def NPROC_def)
  have z: "0 < NPROC" by (simp add: NPROC_def)
  have "tree_ok (demo_table st thread)"
    by (rule tree_okI [where ini = 0]) (use st z in \<open>auto simp: len demo_nth demo_pparent gone_def split: if_splits\<close>)
  then show ?thesis using z len(4) by (simp add: tree_in_def tree_me_def demo_nth gone_def)
qed

lemma demo_thread: "pd_is_thread (pdata (demo_table st thread) 1) = thread"
  by (simp add: demo_table_def)

lemma wait_scan_none: "\<forall>c\<in>set cs. \<not> waited_for (en_me e) want c s \<Longrightarrow> wait_scan e want va options cs s = (None, s)"
  by (induction cs) auto

theorem family_tree_witness:
  "tree_in 0 0 (demo_table ZOMBIE True) \<and> waitpid demo_env (- 1) 0 WNOHANG (demo_table ZOMBIE True) = (Some (Ok 0), demo_table ZOMBIE True) \<and>
   tree_ok (demo_table ZOMBIE True)"
proof -
  have t: "tree_in (en_me demo_env) 0 (demo_table ZOMBIE True)" using demo_tree [of ZOMBIE True] by (simp add: demo_env_def)
  have "\<not> waited_for 0 None c (demo_table ZOMBIE True)" if "c < NPROC" for c
    using that demo_pparent [OF that] demo_thread by (auto simp: waited_for_def)
  then have "wait_scan demo_env None 0 WNOHANG procs (demo_table ZOMBIE True) = (None, demo_table ZOMBIE True)"
    by (intro wait_scan_none) (simp add: demo_env_def)
  then have "waitpid demo_env (- 1) 0 WNOHANG (demo_table ZOMBIE True) = (Some (Ok 0), demo_table ZOMBIE True)"
    by (simp add: waitpid_def Let_def WNOHANG_def)
  with family_tree [OF t] t show ?thesis by (simp add: demo_env_def) blast
qed


lemma drop_ignored_none: "pi_pending g = 0 \<Longrightarrow> drop_ignored g = g"
proof -
  assume g: "pi_pending g = 0"
  have "fold (\<lambda>sig g. let h = sig_handler sig g in
       if pi_pending g AND sig_mask sig \<noteq> 0 \<and> (h = SIG_IGN \<or> h = SIG_DFL \<and> default_action sig = SIgnore)
       then clear_pending sig g else g) xs g = g" for xs
    by (induction xs) (simp_all add: Let_def g)
  then show ?thesis by (simp add: drop_ignored_def)
qed


lemma reparent_wakes:
  assumes "kfold (reparent_one e) cs s = (Ok (), s')" "set cs \<subseteq> set procs" "p_init s = Some ini" "ini < NPROC" "ini \<noteq> en_me e"
    "length (p_inner s) = NPROC" "length (p_parents s) = NPROC"
    "(\<exists>c\<in>set cs. p_parents s ! c = Some (en_me e)) \<or> \<not> asleep_on ini (en_addr e ini) s"
  shows "\<not> asleep_on ini (en_addr e ini) s' \<and> length (p_inner s') = NPROC"
  using assms
proof (induction cs arbitrary: s)
  case (Cons c cs)
  from Cons.prems(1) obtain u where u: "reparent_one e c s = (Ok (), u)" "kfold (reparent_one e) cs u = (Ok (), s')"
    by (auto dest!: kbind_OkD)
  show ?case
  proof (cases "p_parents s ! c = Some (en_me e)")
    case True
    let ?s = "s\<lparr>p_parents := (p_parents s)[c := Some ini]\<rparr>"
    have w: "wakeup (en_cpu e) (Some (en_me e)) (en_addr e ini) ?s = (Ok (), u)" using u(1) True Cons.prems(3) by (simp add: reparent_one_def)
    have v: "tview u = tview ?s" by (rule keepsD [OF tview_wakeup w])
    have "\<not> asleep_on ini (en_addr e ini) u" by (rule wakeup_Ok [OF w]) (use Cons.prems in auto)
    moreover have "length (p_inner u) = NPROC" using v Cons.prems(6) map_eq_imp_length_eq by (fastforce simp: tview_def)
    ultimately show ?thesis using v Cons.prems by (intro Cons.IH [OF u(2)]) (auto simp: tview_def)
  next
    case False
    then have "u = s" using u(1) by (simp add: reparent_one_def)
    then show ?thesis using Cons.prems False by (intro Cons.IH [OF u(2)]) auto
  qed
qed auto

text \<open>
  C24. An exit is never slept through. When a process ends it is a zombie with its status, its children
  belong to \<^verbatim>\<open>init\<close>, and its parent is not asleep on the address a wait sleeps on; neither is
  \<^verbatim>\<open>init\<close> if it got a child. Exit and wait both hold the lock on the parents throughout, so a parent
  that found no zombie is asleep before the exit starts or scans again after it.
\<close>

theorem exit_wakes_parent:
  assumes "tree_in (en_me e) ini s" "ini \<noteq> en_me e" "exit_finish e status s = (Ok (), s')"
  shows "pstate s' (en_me e) = ZOMBIE \<and> pi_xstate (pinner s' (en_me e)) = status \<and>
    (\<forall>k<NPROC. p_parents s' ! k = (if p_parents s ! k = Some (en_me e) then Some ini else p_parents s ! k)) \<and>
    (\<exists>pp. p_parents s' ! en_me e = Some pp \<and> \<not> asleep_on pp (en_addr e pp) s') \<and>
    ((\<exists>k<NPROC. p_parents s ! k = Some (en_me e)) \<longrightarrow> \<not> asleep_on ini (en_addr e ini) s')"
proof -
  let ?me = "en_me e"
  have t: "tree_me ?me s" and i: "p_init s = Some ini" using assms(1) by (simp_all add: tree_in_def)
  have ok: "tree_ok s" and me: "?me < NPROC" using t by (simp_all add: tree_me_def)
  note fin = tree_exit_finish [OF t i assms(2,3)]
  have io: "keeps (pmod begin_op_p)" "keeps (pmod end_op_p)" by (intro keeps_pmod; simp add: begin_op_p_def end_op_p_def)+
  have f: "keeps (kfold (\<lambda>fd. set_file ?me fd None) [0..<NOFILE])" by (intro keeps)
  from assms(3) obtain s1 s2 s3 s4 s5 s6 s8 where s:
    "kfold (\<lambda>fd. set_file ?me fd None) [0..<NOFILE] s = (Ok (), s1)" "pmod begin_op_p s1 = (Ok (), s2)" "set_cwd ?me None s2 = (Ok (), s3)"
    "pmod end_op_p s3 = (Ok (), s4)" "kfold (reparent_one e) procs s4 = (Ok (), s5)"
    and s6: "(case p_parents s5 ! ?me of None \<Rightarrow> (Panic, s5) | Some pp \<Rightarrow> wakeup (en_cpu e) (Some ?me) (en_addr e pp) s5) = (Ok (), s6)"
    and s7: "pmod (upd_inner ?me (exit_mark status)) s6 = (Ok (), s8)" "sched ?me s8 = (Ok (), s')"
    unfolding exit_finish_def Let_def by (auto dest!: kbind_OkD)
  have c4: "core s4 = core s" using keepsD [OF f s(1)] keepsD [OF io(1) s(2)] keepsD [OF keeps_set_file(2) s(3)] keepsD [OF io(2) s(4)] by simp
  have s': "s' = upd_inner ?me (exit_mark status) s6" using s7 by (auto simp: pmod_def sched_def split: if_splits)
  from s6 obtain pp where pp: "p_parents s5 ! ?me = Some pp" and w: "wakeup (en_cpu e) (Some ?me) (en_addr e pp) s5 = (Ok (), s6)"
    by (auto split: option.splits)
  have v6: "tview s6 = tview s5" by (rule keepsD [OF tview_wakeup w])
  have pp': "p_parents s' ! ?me = Some pp" using pp v6 by (simp add: s' tview_def)
  have l4: "length (p_inner s4) = NPROC" "length (p_parents s4) = NPROC" "p_init s4 = Some ini" "p_parents s4 = p_parents s"
    using c4 tree_okD(1,2) [OF ok] i by (simp_all add: core_def)
  have ini: "ini < NPROC" using tree_ok_init [OF ok] i by (metis option.inject)
  have v5: "tview s5 = tview (s4\<lparr>p_parents := adopt ?me ini procs (p_parents s4)\<rparr>)" by (rule reparent_parents [OF s(5) l4(3) assms(2)])
  have l5: "length (p_inner s5) = NPROC" using v5 l4(1) map_eq_imp_length_eq by (fastforce simp: tview_def)
  have ne: "pp \<noteq> ?me" using fin pp' assms(2) me by (auto split: if_splits)
  have pn: "pp < NPROC" using tree_okD(4) [of s' ?me pp] fin pp' me by blast
  have "\<not> asleep_on pp (en_addr e pp) s6" by (rule wakeup_Ok [OF w l5 pn]) (use ne in simp)
  moreover have k: "asleep_on j a s' \<longleftrightarrow> asleep_on j a s6" if "j \<noteq> ?me" for j a
    using that by (simp add: s' asleep_on_def upd_inner_def)
  ultimately have A: "\<not> asleep_on pp (en_addr e pp) s'" using ne by simp
  have "\<not> asleep_on ini (en_addr e ini) s'" if "\<exists>k<NPROC. p_parents s ! k = Some ?me"
  proof -
    have "\<exists>c\<in>set procs. p_parents s4 ! c = Some ?me" using that l4(4) by auto
    then have "\<not> asleep_on ini (en_addr e ini) s5" using reparent_wakes [OF s(5) _ l4(3) ini assms(2) l4(1,2)] by blast
    then have "\<not> asleep_on ini (en_addr e ini) s6" using wakeup_mono [OF w l5] by blast
    then show ?thesis using k assms(2) by blast
  qed
  with A fin pp' show ?thesis by blast
qed

lemma kfold_same: "\<forall>x\<in>set xs. f x s = (Ok (), s) \<Longrightarrow> kfold f xs s = (Ok (), s)"
  by (induction xs) (simp_all add: kbind_def)

lemma upd_data_same: "f (pdata s i) = pdata s i \<Longrightarrow> upd_data i f s = s"
  by (simp add: upd_data_def)

theorem exit_wakes_parent_witness:
  "\<exists>s'. exit_finish (demo_env\<lparr>en_me := 1\<rparr>) 7 (demo_table RUNNING False) = (Ok (), s') \<and> pstate s' 1 = ZOMBIE \<and>
     pi_xstate (pinner s' 1) = 7 \<and> p_parents s' ! 1 = Some 0"
proof -
  let ?s = "demo_table RUNNING False" and ?e = "demo_env\<lparr>en_me := 1\<rparr>"
  have t: "tree_in (en_me ?e) 0 ?s" using demo_tree [of RUNNING False] demo_nth [of 1] by (simp add: tree_in_def tree_me_def gone_def NPROC_def)
  have d: "pd_ofile (pdata ?s 1) = replicate NOFILE None" "pd_cwd (pdata ?s 1) = None" by (simp_all add: demo_table_def procdata_new_def)
  have "set_file 1 fd None ?s = (Ok (), ?s)" if "fd < NOFILE" for fd
    using that d upd_data_same [of "\<lambda>d. d\<lparr>pd_ofile := (pd_ofile d)[fd := None]\<rparr>" ?s 1]
    by (simp add: set_file_def kret_def list_update_same_conv)
  then have a: "kfold (\<lambda>fd. set_file 1 fd None) [0..<NOFILE] ?s = (Ok (), ?s)" by (intro kfold_same) simp
  define u where "u = end_op_p (begin_op_p ?s)"
  have u: "p_inner u = p_inner ?s" "p_parents u = p_parents ?s" "p_init u = p_init ?s" "p_data u = p_data ?s"
    by (simp_all add: u_def end_op_p_def begin_op_p_def)
  have b: "set_cwd 1 None (begin_op_p ?s) = (Ok (), begin_op_p ?s)"
    using d(2) upd_data_same [of "\<lambda>d. d\<lparr>pd_cwd := None\<rparr>" "begin_op_p ?s" 1] by (simp add: set_cwd_def kret_def begin_op_p_def)
  have c: "kfold (reparent_one ?e) procs u = (Ok (), u)"
    by (intro kfold_same) (use demo_pparent in \<open>auto simp: reparent_one_def u\<close>)
  have w: "wakeup 0 (Some 1) chan u = (Ok (), u)" for chan
    unfolding wakeup_def by (intro kfold_same) (use demo_nth in \<open>auto simp: wake_one_def u\<close>)
  have p: "p_parents u ! 1 = Some 0" using demo_pparent [of 1] by (simp add: u NPROC_def)
  have l: "1 < length (p_inner u)" by (simp add: u demo_table_def)
  have "exit_finish ?e 7 ?s = (Ok (), upd_inner 1 (exit_mark 7) u)"
    using a b c w p l by (simp add: exit_finish_def kbind_def pmod_def sched_def u_def [symmetric] nth_upd_inner exit_mark_def demo_env_def)
  then obtain s' where s': "exit_finish ?e 7 ?s = (Ok (), s')" by blast
  have "0 \<noteq> en_me ?e" by simp
  from exit_wakes_parent [OF t this s'] s' demo_pparent [of 1] show ?thesis by (auto simp: NPROC_def)
qed

text \<open>
  A thread is never reaped by a wait. Whatever \<^verbatim>\<open>waitpid\<close> returns, a slot of the table that
  holds a thread other than the caller is as it was, whether the thread has ended and whoever its
  parent is. A thread that \<^verbatim>\<open>init\<close> inherits, because the one that created it ended first or because
  the process was killed before it had joined its threads, therefore keeps its slot for ever once it ends:
  \<^verbatim>\<open>init\<close> only waits for processes.
\<close>

lemma thread_never_waited_for:
  assumes "tree_in (en_me e) ini s" "waitpid e pid va options s = (r, s')" "r \<noteq> Some Panic"
    "c < NPROC" "pd_is_thread (pdata s c)" "c \<noteq> en_me e"
  shows "pinner s' c = pinner s c \<and> p_parents s' ! c = p_parents s ! c"
proof (cases "pid < - 1")
  case True
  then show ?thesis using assms(2) by (simp add: waitpid_def)
next
  case False
  have ok: "tree_ok s" using assms(1) by (simp add: tree_in_def tree_me_def)
  define want :: "usize option" where "want = (if 0 < pid then Some (of_int pid) else None)"
  obtain q s1 where q: "wait_scan e want va options procs s = (q, s1)" by fastforce
  note R = assms(2) [unfolded waitpid_def Let_def if_not_P [OF False], folded want_def, unfolded q prod.case]
  from q show ?thesis
  proof (cases rule: wait_scan_cases)
    case 1
    have n: "pinner (upd_inner (en_me e) f t) c = pinner t c" for f t using assms(6) by (simp add: upd_inner_def)
    show ?thesis using R [unfolded 1(1) option.case 1(2)] n by (auto simp: sleep_on_def split: if_splits)
  next
    case (2 d x)
    have d: "d \<noteq> c" "d < NPROC" using 2(1,2) assms(5) by (auto simp: waited_for_def)
    have rx: "r = Some x" "s1 = s'" using R 2(3) by auto
    then have x: "x \<noteq> Panic" using assms(3) by simp
    from 2(4) show ?thesis
    proof (cases rule: wait_child_cases)
      case (1 status f)
      then show ?thesis unfolding rx(2) report_change_def using d(1)
        by (auto elim!: kbind_cases simp: pmod_def kret_def upd_inner_def core_def dest!: keepsD [OF keeps_put_user])
    next
      case z: 2
      from z(2) [unfolded report_exit_def rx(2)] show ?thesis
      proof (cases rule: kbind_cases)
        case (1 y u)
        have cu: "core u = core s" using keepsD [OF keeps_put_user 1(1)] .
        have tu: "tree_me (en_me e) u" using tree_in_core [OF assms(1) cu] by (simp add: tree_in_def)
        have zu: "pstate u d = ZOMBIE" using z(1) cu by (simp add: core_def)
        have A: "pinner v c = pinner s c \<and> p_parents v ! c = p_parents s ! c" if "reap_child d l u = (z, v)" "z \<noteq> Panic" for l z v
          using pres_reap_child(2) [OF tu d(2) zu that] cu d(1) by (simp add: core_def slot_freed_def upd_inner_def upd_data_def)
        from 1(2) show ?thesis
        proof (cases rule: kbind_cases)
          case (1 y v)
          then show ?thesis using A [OF 1(1)] by (simp add: kret_def)
        next
          case (2 er)
          then show ?thesis using A [OF 2(1)] by simp
        qed (use x in simp)
      next
        case (2 er)
        then show ?thesis using keepsD [OF keeps_put_user 2(1)] by (simp add: core_def)
      qed (use x in simp)
    qed
  qed
qed

end
