(* ===== verification/Proc_Signals.thy ===== *)
theory Proc_Signals
  imports Proc_Wait
begin

text \<open>
  What signals do to a process: a handler runs with a saved frame and gives it back, and the signal
  that cannot be caught is not.
\<close>

unbundle bit_operations_syntax

section \<open>Pending signals\<close>

lemma sig_mask_valid: "sig_valid sig \<longleftrightarrow> 0 < sig \<and> sig \<le> 32"
proof -
  have "sig_mask sig \<noteq> 0" if "0 < sig" "sig \<le> 32" using bit_sig_mask [of sig "sig - 1"] that by (auto simp: NSIG_def)
  then show ?thesis by (auto simp: sig_valid_def NSIG_def)
qed

text \<open>The signal delivered next: the lowest pending one.\<close>

definition next_signal :: "u32 \<Rightarrow> nat \<Rightarrow> bool" where
  "next_signal w sig \<longleftrightarrow> 0 < sig \<and> bit w (sig - 1) \<and> (\<forall>n < sig - 1. \<not> bit w n)"

lemma next_signal:
  assumes "next_signal w sig"
  shows "w \<noteq> 0" "trailing_zeros32 w + 1 = sig"
proof -
  show w: "w \<noteq> 0" using assms by (auto simp: next_signal_def)
  have "trailing_zeros32 w = sig - 1"
    using trailing_zeros32_first [OF w] assms by (metis next_signal_def linorder_neqE_nat)
  then show "trailing_zeros32 w + 1 = sig" using assms by (simp add: next_signal_def)
qed

lemma pinner_upd_inner: "me < length (p_inner s) \<Longrightarrow> pinner (upd_inner me f s) me = f (pinner s me)"
  by (simp add: upd_inner_def)

lemma pdata_upd_data: "me < length (p_data s) \<Longrightarrow> pdata (upd_data me f s) me = f (pdata s me)"
  by (simp add: upd_data_def)

lemma upd_cross [simp]: "p_data (upd_inner i f s) = p_data s" "p_inner (upd_data i g s) = p_inner s"
  by (simp_all add: upd_inner_def upd_data_def)


text \<open>A process about to take signal 10, for which the program has a handler.\<close>

definition demo_signal :: pst where
  "demo_signal = (demo_table RUNNING False)
     \<lparr>p_inner := [procinner_new\<lparr>pi_state := RUNNING, pi_pending := 0x200, pi_handlers := (replicate NSIG SIG_DFL)[9 := 0x1000]\<rparr>],
      p_data := [procdata_new\<lparr>pd_tf := Some (0x80001000, \<lambda>_. 5), pd_sig_restorer := 0x2000\<rparr>]\<rparr>"


text \<open>
  Signal 9 cannot be caught, blocked or slept through. Setting a handler for it is refused and
  changes nothing. Sending it to a process marks the process as killed whatever handlers it has, and
  the process is afterwards neither asleep nor stopped; its exit follows when it next leaves the kernel.
\<close>

lemma sigkill_certain:
  assumes "find (\<lambda>i. pi_pid (pinner s i) = pid) procs = Some i" "length (p_inner s) = NPROC" "kill cpu pid SIGKILL s = (Ok (), s')"
  shows "pi_killed (pinner s' i) \<and> pstate s' i \<notin> {SLEEPING, STOPPED} \<and>
    (\<forall>k<NPROC. k \<noteq> i \<longrightarrow> pinner s' k = pinner s k) \<and> sigaction me SIGKILL handler restorer s = (Err PermissionDenied, s)"
proof -
  have i: "i < NPROC" using assms(1) by (auto simp: find_Some_iff procs_def)
  have v: "sig_valid SIGKILL" by (simp add: sig_mask_valid SIGKILL_def)
  define s1 where "s1 = upd_inner i (signal_mark SIGKILL) s"
  have k1: "pi_killed (pinner s1 i)" "pstate s1 i = pstate s i" "length (p_inner s1) = NPROC"
    using i assms(2) by (simp_all add: s1_def nth_upd_inner signal_mark_def Let_def sig_kills_def)
  have o1: "pinner s1 k = pinner s k" if "k \<noteq> i" for k using that by (simp add: s1_def upd_inner_def)
  from assms(1,3) v have "signal_post cpu SIGKILL i s = (Ok (), s')" by (simp add: kill_def)
  then obtain s2 where s2: "(if pstate s1 i = STOPPED then make_runnable cpu i s1 else (Ok (), s1)) = (Ok (), s2)"
    "(if pstate s2 i = SLEEPING then make_runnable cpu i s2 else (Ok (), s2)) = (Ok (), s')"
    by (auto simp: signal_post_def Let_def sig_kills_def s1_def [symmetric] dest!: kbind_OkD)
  have mr: "pi_killed (pinner u i) = pi_killed (pinner t i) \<and> pstate u i = RUNNABLE \<and> length (p_inner u) = NPROC \<and> (\<forall>k. k \<noteq> i \<longrightarrow> pinner u k = pinner t k)"
    if "make_runnable cpu i t = (Ok (), u)" "length (p_inner t) = NPROC" for t u
    using that i by (auto simp: make_runnable_def Let_def upd_inner_def split: if_splits outcome.splits)
  have two: "pi_killed (pinner s2 i) \<and> pstate s2 i \<noteq> STOPPED \<and> length (p_inner s2) = NPROC \<and> (\<forall>k. k \<noteq> i \<longrightarrow> pinner s2 k = pinner s k)"
    using s2(1) mr [of s1 s2] k1 o1 by (auto split: if_splits)
  then have "pi_killed (pinner s' i) \<and> pstate s' i \<notin> {SLEEPING, STOPPED} \<and> (\<forall>k. k \<noteq> i \<longrightarrow> pinner s' k = pinner s k)"
    using s2(2) mr [of s2 s'] by (auto split: if_splits)
  then show ?thesis by (simp add: sigaction_def SIGKILL_def NSIG_def)
qed

text \<open>
  A continued child is not reported. A stopped child is continued by signal 18, which marks it as
  having a report for a wait with \<^verbatim>\<open>WCONTINUED\<close>, makes it runnable and wakes nobody else. When the
  child then runs, the delivery of the signal removes the mark, with or without a handler, and a wait
  for continued children does not find it: it sees only children that have not run since the signal.
\<close>

lemma continued_report_lost:
  assumes "me < NPROC" "length (p_inner s) = NPROC" "length (p_data s) = NPROC"
    "pstate s me = STOPPED" "pi_pending (pinner s me) = 0" "\<not> pd_sig_active (pdata s me)"
    "signal_post cpu SIGCONT me s = (Ok (), s1)" "sig_handler SIGCONT (pinner s me) \<noteq> SIG_IGN"
    "deliver_signals cpu2 me addr_of (upd_inner me (\<lambda>g. g\<lparr>pi_state := RUNNING\<rparr>) s1) = (Ok (), s2)"
  shows "pi_cont_pending (pinner s1 me) \<and> pstate s1 me = RUNNABLE \<and> (\<forall>k. k \<noteq> me \<longrightarrow> pinner s1 k = pinner s k) \<and>
    \<not> pi_cont_pending (pinner s2 me) \<and> wait_child e va WCONTINUED me s2 = (None, s2)"
proof -
  let ?u = "upd_inner me (signal_mark SIGCONT) s"
  have l: "me < length (p_inner s)" "me < length (p_data s)" using assms(1-3) by simp_all
  have sm: "signal_mark SIGCONT (pinner s me) = (pinner s me)\<lparr>pi_stop_sig := 0, pi_stop_reported := False, pi_cont_pending := True,
      pi_pending := sig_mask SIGCONT\<rparr>"
    using assms(5,8) by (simp add: signal_mark_def Let_def sig_kills_def SIGCONT_def SIGKILL_def default_action_def SIGTERM_def SIGINT_def
        SIGALRM_def SIGUSR1_def SIGUSR2_def SIGTSTP_def SIGTTIN_def SIGTTOU_def)
  have u: "pinner ?u me = signal_mark SIGCONT (pinner s me)" "p_data ?u = p_data s" using l(1) by (simp_all add: pinner_upd_inner)
  have stu: "pstate ?u me = STOPPED" using u(1) sm assms(4) by simp
  obtain t where t: "make_runnable cpu me ?u = (Ok (), t)" "(if pstate t me = SLEEPING then make_runnable cpu me t else (Ok (), t)) = (Ok (), s1)"
    using assms(7,8) stu by (auto simp: signal_post_def Let_def SIGCONT_def SIGKILL_def dest!: kbind_OkD)
  obtain c q where tq: "t = (upd_inner me (\<lambda>g. g\<lparr>pi_state := RUNNABLE, pi_last_cpu := c\<rparr>) ?u)\<lparr>p_rq := q\<rparr>"
    using t(1) stu by (auto simp: make_runnable_def Let_def split: outcome.splits)
  have ti: "pinner t me = (signal_mark SIGCONT (pinner s me))\<lparr>pi_state := RUNNABLE, pi_last_cpu := c\<rparr>"
    using l(1) u(1) by (simp add: tq pinner_upd_inner)
  have s1t: "s1 = t" using t(2) ti by simp
  have d1: "p_data s1 = p_data s" "length (p_inner s1) = NPROC" using assms(2) by (simp_all add: s1t tq)
  have other: "pinner s1 k = pinner s k" if "k \<noteq> me" for k using that by (simp add: s1t tq upd_inner_def)
  let ?v = "upd_inner me (\<lambda>g. g\<lparr>pi_state := RUNNING\<rparr>) s1"
  have lv: "me < length (p_inner s1)" "me < length (p_data ?v)" using d1 assms(1,3) by simp_all
  have v: "pinner ?v me = (signal_mark SIGCONT (pinner s me))\<lparr>pi_state := RUNNING, pi_last_cpu := c\<rparr>"
    using pinner_upd_inner [OF lv(1)] ti s1t by simp
  have pend: "pi_pending (pinner ?v me) = sig_mask SIGCONT" using v sm by simp
  have ns: "next_signal (sig_mask SIGCONT) SIGCONT" by (simp add: next_signal_def bit_sig_mask SIGCONT_def NSIG_def)
  note nx = next_signal [OF ns]
  have sk: "SIGCONT \<noteq> SIGKILL" by (simp add: SIGCONT_def SIGKILL_def)
  let ?w = "upd_inner me (\<lambda>g. g\<lparr>pi_cont_pending := False\<rparr>) ?v"
  have w: "pinner ?w me = (pinner ?v me)\<lparr>pi_cont_pending := False\<rparr>" using lv(1) by (simp add: upd_inner_def)
  have hw: "sig_handler SIGCONT (pinner ?w me) = sig_handler SIGCONT (pinner s me)" using w v sm by (simp add: sig_handler_def)
  have lw: "me < length (p_inner ?w)" using lv(1) by simp
  have R: "(if sig_handler SIGCONT (pinner ?w me) = SIG_DFL then deliver_default cpu2 me addr_of SIGCONT (upd_inner me (clear_pending SIGCONT) ?w)
       else deliver_handler me SIGCONT (sig_handler SIGCONT (pinner ?w me)) ?w) = (Ok (), s2)"
    using assms(9) [unfolded deliver_signals_def Let_def pend nx(2) simp_thms(6) if_True] assms(6,8) nx(1) d1(1) hw sk by auto
  have act: "default_action SIGCONT = SContinue"
    by (simp add: default_action_def SIGCONT_def SIGKILL_def SIGTERM_def SIGINT_def SIGALRM_def SIGUSR1_def SIGUSR2_def SIGTSTP_def SIGTTIN_def SIGTTOU_def)
  have fin: "\<not> pi_cont_pending (pinner s2 me) \<and> pstate s2 me = RUNNING"
    using R lw w v sm act
    by (auto simp: deliver_default_def deliver_handler_def clear_pending_def pinner_upd_inner upd_inner_def upd_data_def split: if_splits option.splits)
  then have "wait_child e va WCONTINUED me s2 = (None, s2)" by (simp add: wait_child_def Let_def)
  then show ?thesis using fin ti sm s1t other by simp
qed

end
