(* ===== verification/Proc_Teardown.thy ===== *)
theory Proc_Teardown
  imports Proc_Frame Uvm_Fork
begin

text \<open>
  The end of an address space: the walk that frees the page tables does not accept a mapped page.
\<close>

section \<open>Freeing page tables\<close>

abbreviation valid :: "vmem \<Rightarrow> nat \<times> nat \<Rightarrow> bool" where
  "valid s loc \<equiv> pte_is_v (get_pte loc s)"

abbreviation target :: "vmem \<Rightarrow> nat \<times> nat \<Rightarrow> nat" where
  "target s loc \<equiv> pte_to_pa (get_pte loc s)"

lemma get_page_free [simp]: "get_pte loc (page_free p s) = get_pte loc s"
  by (cases loc) (simp add: get_pte_def page_free_def)

lemma free_level0: "free_entries 0 t xs s = (Ok (), s') \<Longrightarrow> s' = s \<and> (\<forall>k\<in>set xs. \<not> valid s (t, k))"
  by (induction xs) (auto simp: Let_def split: if_splits)

lemma freewalk1: "freewalk (Suc 0) t s = (Ok (), s') \<Longrightarrow> s' = page_free t s \<and> (\<forall>k<512. \<not> valid s (t, k))"
  by (auto split: prod.splits outcome.splits dest!: free_level0)

lemma free_level1:
  assumes "free_entries (Suc 0) t xs s = (Ok (), s')" "distinct xs"
  shows "(\<forall>loc. fst loc \<noteq> t \<longrightarrow> get_pte loc s' = get_pte loc s) \<and>
    (\<forall>j\<in>set xs. valid s (t, j) \<longrightarrow> target s (t, j) \<noteq> t \<longrightarrow> (\<forall>k<512. \<not> valid s (target s (t, j), k)))"
  using assms
proof (induction xs arbitrary: s)
  case (Cons i xs)
  show ?case
  proof (cases "valid s (t, i)")
    case True
    from Cons.prems(1) True obtain s1 where s1: "freewalk (Suc 0) (target s (t, i)) s = (Ok (), s1)"
      "free_entries (Suc 0) t xs (set_pte (t, i) 0 s1) = (Ok (), s')"
      by (auto simp: Let_def simp del: freewalk.simps split: if_splits prod.splits outcome.splits)
    note f = freewalk1 [OF s1(1)]
    let ?u = "set_pte (t, i) 0 s1"
    have g: "get_pte loc ?u = (if loc = (t, i) then 0 else get_pte loc s)" for loc using f by (simp add: get_set_pte)
    note IH = Cons.IH [OF s1(2)]
    have d: "distinct xs" "i \<notin> set xs" using Cons.prems(2) by simp_all
    have "get_pte loc s' = get_pte loc s" if "fst loc \<noteq> t" for loc using IH [OF d(1)] that g by (cases loc) auto
    moreover have "\<not> valid s (target s (t, j), k)" if j: "j \<in> set (i # xs)" "valid s (t, j)" "target s (t, j) \<noteq> t" "k < 512" for j k
    proof (cases "j = i")
      case True
      then show ?thesis using f j(4) by blast
    next
      case False
      then have "get_pte (t, j) ?u = get_pte (t, j) s" by (simp add: g)
      then show ?thesis using IH [OF d(1)] j False g by auto
    qed
    ultimately show ?thesis by blast
  next
    case False
    then have "free_entries (Suc 0) t xs s = (Ok (), s')" using Cons.prems(1) by (simp add: Let_def)
    then show ?thesis using Cons.IH Cons.prems(2) False by auto
  qed
qed simp

lemma freewalk2:
  assumes "freewalk (Suc (Suc 0)) t s = (Ok (), s')"
  shows "(\<forall>loc. fst loc \<noteq> t \<longrightarrow> get_pte loc s' = get_pte loc s) \<and>
    (\<forall>j<512. valid s (t, j) \<longrightarrow> target s (t, j) \<noteq> t \<longrightarrow> (\<forall>k<512. \<not> valid s (target s (t, j), k)))"
proof -
  from assms obtain s1 where "free_entries (Suc 0) t [0..<512] s = (Ok (), s1)" "s' = page_free t s1"
    by (auto simp del: freewalk.simps(1) upt_rec_numeral free_entries.simps simp: freewalk.simps(2) split: prod.splits outcome.splits)
  then show ?thesis using free_level1 [of t "[0..<512]" s s1] by (auto simp del: upt_rec_numeral)
qed

lemma free_level2:
  assumes "free_entries (Suc (Suc 0)) r xs s = (Ok (), s')" "distinct xs" "i \<in> set xs" "valid s (r, i)" "target s (r, i) = t" "t \<noteq> r"
    "\<And>i'. i' \<in> set xs \<Longrightarrow> i' \<noteq> i \<Longrightarrow> valid s (r, i') \<Longrightarrow> target s (r, i') \<notin> {t, u, r}"
    "j < 512" "valid s (t, j)" "target s (t, j) = u" "u \<noteq> t" "u \<noteq> r" "k < 512"
  shows "\<not> valid s (u, k)"
  using assms
proof (induction xs arbitrary: s)
  case (Cons a xs)
  show ?case
  proof (cases "valid s (r, a)")
    case True
    from Cons.prems(1) True obtain s1 where s1: "freewalk (Suc (Suc 0)) (target s (r, a)) s = (Ok (), s1)"
      "free_entries (Suc (Suc 0)) r xs (set_pte (r, a) 0 s1) = (Ok (), s')"
      by (auto simp: Let_def simp del: freewalk.simps split: if_splits prod.splits outcome.splits)
    note f = freewalk2 [OF s1(1)]
    show ?thesis
    proof (cases "a = i")
      case True
      then show ?thesis using f Cons.prems by blast
    next
      case False
      then have i: "i \<in> set xs" using Cons.prems(3) by simp
      let ?w = "set_pte (r, a) 0 s1"
      have ne: "target s (r, a) \<notin> {t, u, r}" using Cons.prems(7) [of a] False True by simp
      have g: "get_pte loc ?w = get_pte loc s" if "fst loc \<noteq> target s (r, a)" "loc \<noteq> (r, a)" for loc
        using f that by (cases loc) (auto simp: get_set_pte)
      have gr: "get_pte (r, x) ?w = get_pte (r, x) s" if "x \<in> set xs" for x using g [of "(r, x)"] that ne Cons.prems(2) by auto
      have gt: "get_pte (t, x) ?w = get_pte (t, x) s" "get_pte (u, x) ?w = get_pte (u, x) s" for x
        using g [of "(t, x)"] g [of "(u, x)"] ne Cons.prems(6,12) by auto
      have "\<not> valid ?w (u, k)"
        by (rule Cons.IH [OF s1(2) _ i]) (use Cons.prems gr gt i in auto)
      then show ?thesis by (simp add: gt)
    qed
  next
    case False
    then have f: "free_entries (Suc (Suc 0)) r xs s = (Ok (), s')" using Cons.prems(1) by (simp add: Let_def)
    have i: "i \<in> set xs" using Cons.prems(3,4) False by auto
    show ?thesis by (rule Cons.IH [OF f _ i]) (use Cons.prems in auto)
  qed
qed simp

text \<open>A walk over the tables of an address space with a mapped page does not succeed.\<close>

lemma px_less: "px l a < 512"
  by (simp add: px_def)

lemma freewalk_mapped:
  assumes ok: "tables_ok s Rs" "r \<in> Rs" and v: "pte_is_v (xlate s r va)"
  shows "fst (freewalk 3 r s) = Panic"
proof -
  let ?i = "px 2 va" and ?j = "px 1 va" and ?k = "px 0 va"
  from v obtain t u where t: "valid s (r, ?i)" "target s (r, ?i) = t" and u: "valid s (t, ?j)" "target s (t, ?j) = u" and k: "valid s (u, ?k)"
    by (auto simp: xlate_def leaf_at_def below_def pte_is_v_def split: option.splits if_splits)
  have T: "table_at s r TRoot = Some r" "table_at s r (T1 ?i) = Some t" "table_at s r (T0 ?i ?j) = Some u"
    using t u by (simp_all add: below_def)
  note inj = tables_okD(1) [OF ok(1,2,2)]
  have ne: "t \<noteq> r" "u \<noteq> t" "u \<noteq> r" using inj [OF T(2), of TRoot] inj [OF T(3), of "T1 ?i"] inj [OF T(3), of TRoot] T by auto
  have oth: "target s (r, i) \<notin> {t, u, r}" if "i \<noteq> ?i" "valid s (r, i)" for i
  proof -
    have "table_at s r (T1 i) = Some (target s (r, i))" using that(2) by (simp add: below_def)
    from inj [OF this, of "T1 ?i"] inj [OF this, of "T0 ?i ?j"] inj [OF this, of TRoot] T that(1) show ?thesis by auto
  qed
  have "freewalk 3 r s \<noteq> (Ok (), s')" for s'
  proof
    assume "freewalk 3 r s = (Ok (), s')"
    then have "freewalk (Suc (Suc (Suc 0))) r s = (Ok (), s')" by (simp add: numeral_3_eq_3 del: freewalk.simps)
    then obtain s1 where "free_entries (Suc (Suc 0)) r [0..<512] s = (Ok (), s1)"
      by (auto simp del: freewalk.simps(1) upt_rec_numeral free_entries.simps simp: freewalk.simps(2) split: prod.splits outcome.splits)
    from free_level2 [OF this _ _ t ne(1) oth px_less u ne(2,3) px_less] k px_less show False by (auto simp del: upt_rec_numeral)
  qed
  moreover have "fst (freewalk 3 r s) \<noteq> Err e" for e by (rule noerr_freewalk(1))
  ultimately show ?thesis by (cases "freewalk 3 r s"; cases "fst (freewalk 3 r s)") auto
qed

section \<open>The end of an address space\<close>

text \<open>Unmapping the pages of the kernel at the top keeps the pages of the user.\<close>

definition user_only :: "upage set \<Rightarrow> bool" where
  "user_only D \<longleftrightarrow> (\<forall>m\<in>D. snd m * PGSIZE < user_mem_top NPROC)"

definition kernel_page :: "nat \<Rightarrow> bool" where
  "kernel_page va \<longleftrightarrow> PGSIZE dvd va \<and> va < MAXVA \<and> user_mem_top NPROC \<le> va"

lemma kernel_pages: "kernel_page TRAMPOLINE" "i < NPROC \<Longrightarrow> kernel_page (trapframe_va i)"
  unfolding kernel_page_def NPROC_def by (auto simp: layout_defs PGSIZE_def)

lemma space_same:
  assumes "space_ok s Rs D" "tables_ok s' Rs" "tables s' Rs = tables s Rs" "\<And>m. m \<in> D \<Longrightarrow> ent s' m = ent s m"
    "vm_page s' = vm_page s" "vm_refs s' = vm_refs s" "vm_free s' = vm_free s"
  shows "space_ok s' Rs D"
proof -
  have ow: "owners s' D pa = owners s D pa" for pa using assms(4) by (auto simp: owners_def frame_of_def)
  have "entry_ok s' Rs D m" if "m \<in> D" for m
    using space_okD(6) [OF assms(1) that] assms(3) assms(4) [OF that] assms(5-) ow by (simp add: entry_ok_def frame_ok_def frame_of_def)
  then show ?thesis using assms(1,2,5-) by (simp add: space_ok_def)
qed

lemma try_unmap_user:
  assumes ok: "space_ok s Rs D" "r \<in> Rs" "user_only D" and va: "kernel_page va"
  shows "\<exists>b s'. try_unmap r va 1 False s = (Ok b, s') \<and> space_ok s' Rs D \<and> vm_free s' = vm_free s \<and> vm_refs s' = vm_refs s \<and>
    tables s' Rs = tables s Rs"
proof -
  have k: "PGSIZE dvd va" "va < MAXVA" "user_mem_top NPROC \<le> va" using va by (simp_all add: kernel_page_def)
  show ?thesis
  proof (cases "table_at s r (leaf_at va)")
    case None
    then show ?thesis using ok(1) k by (intro exI [of _ False] exI [of _ s]) (simp add: try_unmap_def walk_lookup)
  next
    case (Some t)
    define s' where "s' = set_pte (t, px 0 va) 0 s"
    note l = set_leaf [OF space_okD(1) [OF ok(1)] ok(2) k(2) Some s'_def]
    have "ent s' m = ent s m" if "m \<in> D" for m
    proof -
      have "snd m * PGSIZE < va" using ok(3) that k(3) by (force simp: user_only_def)
      then have "snd m * PGSIZE div PGSIZE \<noteq> va div PGSIZE" using k(1) by (auto simp: PGSIZE_def elim!: dvdE)
      then show ?thesis using l(4) [OF entryD(1,2) [OF ok(1) that]] by (simp add: ent_def)
    qed
    then have "space_ok s' Rs D" using l(2,3) by (intro space_same [OF ok(1)]) (simp_all add: s'_def set_pte_def)
    moreover have "vm_free s' = vm_free s" "vm_refs s' = vm_refs s" "tables s' Rs = tables s Rs" using l(3) by (simp_all add: s'_def set_pte_def)
    ultimately show ?thesis using ok(1) k Some
      by (cases "valid s (t, px 0 va) \<and> pte_is_leaf (get_pte (t, px 0 va) s)") (auto simp: try_unmap_def walk_lookup Let_def s'_def [symmetric])
  qed
qed

lemma unmap_frames_user:
  assumes "space_ok s Rs D" "r \<in> Rs" "user_only D" "\<forall>va\<in>set vas. kernel_page va"
  shows "\<exists>s'. unmap_frames r vas s = (Ok (), s') \<and> space_ok s' Rs D"
  using assms
proof (induction vas arbitrary: s)
  case (Cons va vas)
  from try_unmap_user [OF Cons.prems(1-3), of va] Cons.prems(4) obtain b s1 where
    s1: "try_unmap r va 1 False s = (Ok b, s1)" "space_ok s1 Rs D" by auto
  from Cons.IH [OF s1(2) Cons.prems(2,3)] Cons.prems(4) s1(1) show ?case by simp
qed simp

lemma aspace_drop_mapped:
  assumes ok: "space_ok (p_vm s) Rs D" "as_root (p_as s a) = Some r" "r \<in> Rs" "user_only D"
    and sz: "pages r 0 (npg (as_sz (p_as s a))) \<subseteq> D" and v: "(r, v) \<in> D" "npg (as_sz (p_as s a)) \<le> v"
  shows "fst (aspace_drop a s) = Panic"
proof -
  let ?n = "as_sz (p_as s a)" and ?s = "upd_as a (\<lambda>x. x\<lparr>as_root := None\<rparr>) s"
  from unmap_frames_user [OF ok(1,3,4), of "TRAMPOLINE # map trapframe_va procs"] kernel_pages obtain m1 where
    m1: "unmap_frames r (TRAMPOLINE # map trapframe_va procs) (p_vm s) = (Ok (), m1)" "space_ok m1 Rs D" by (auto simp: procs_def)
  have "\<exists>m2. (if 0 < ?n then unmap r 0 (page_up ?n div PGSIZE) True m1 else (Ok (), m1)) = (Ok (), m2) \<and>
      space_ok m2 Rs (D - pages r 0 (npg ?n))"
  proof (cases "0 < ?n")
    case True
    from unmap_loop_ok [OF m1(2) sz] True show ?thesis by (auto simp: unmap_def npg_def)
  next
    case False
    then show ?thesis using m1(2) by (simp add: npg_def page_up_def PGSIZE_def pages_def)
  qed
  then obtain m2 where m2: "(if 0 < ?n then unmap r 0 (page_up ?n div PGSIZE) True m1 else (Ok (), m1)) = (Ok (), m2)"
    "space_ok m2 Rs (D - pages r 0 (npg ?n))" by blast
  have "(r, v) \<in> D - pages r 0 (npg ?n)" using v by (auto simp: pages_def)
  then have "pte_is_v (xlate m2 r (v * PGSIZE))" using entryD(3) [OF m2(2)] by (fastforce simp: ent_def)
  then have "fst (freewalk 3 r m2) = Panic" by (rule freewalk_mapped [OF space_okD(1) [OF m2(2)] ok(3)])
  then have "fst (uvm_free r ?n m1) = Panic" using m2(1) by (simp add: uvm_free_def)
  then obtain m3 where "uvm_free r ?n m1 = (Panic, m3)" by (cases "uvm_free r ?n m1") auto
  then show ?thesis using m1(1) ok(2) by (simp add: aspace_drop_def on_vm_def kbind_def upd_as_def del: unmap_frames.simps)
qed

text \<open>A page that nothing maps goes back to the free list.\<close>

definition spare_page :: "vmem \<Rightarrow> nat set \<Rightarrow> upage set \<Rightarrow> nat \<Rightarrow> bool" where
  "spare_page s Rs D p \<longleftrightarrow> is_page p \<and> p \<notin> tables s Rs \<and> p \<notin> set (vm_free s) \<and> ref_count (vm_refs s) p = 0"

lemma space_page_free:
  assumes ok: "space_ok s Rs D" and p: "spare_page s Rs D p"
  shows "space_ok (page_free p s) Rs D"
proof -
  let ?s = "page_free p s"
  have pt: "vm_pte ?s = vm_pte s" by (simp add: page_free_def)
  have P: "is_page p" "p \<notin> tables s Rs" "p \<notin> set (vm_free s)" "ref_count (vm_refs s) p = 0" using p by (simp_all add: spare_page_def)
  have "tables_ok ?s Rs"
    using P is_page_addr tables_okD(3) [OF space_okD(1) [OF ok]]
    by (intro tables_ok_cong [OF space_okD(1) [OF ok] pt, of "{p}"]) (auto simp: page_free_def)
  moreover have "frame_of s m \<noteq> p" if "m \<in> D" for m using entryD(10) [OF ok that] owners_pos [OF ok that] P(4) by auto
  moreover have ow: "owners ?s D pa = owners s D pa" for pa using ent_cong [OF pt] by (auto simp: owners_def frame_of_def)
  ultimately have "entry_ok ?s Rs D m" if "m \<in> D" for m
    using space_okD(6) [OF ok that] that ent_cong [OF pt] tables_cong [OF pt]
    by (auto simp: entry_ok_def frame_ok_def frame_of_def page_free_def)
  with \<open>tables_ok ?s Rs\<close> P ok show ?thesis by (auto simp: space_ok_def page_free_def)
qed

lemma as_count_drop:
  assumes "i < length (p_data s)" "pd_aspace (pdata s i) = Some a"
  shows "as_count a s = Suc (as_count a (upd_data i (\<lambda>d. d\<lparr>pd_aspace := None\<rparr>) s))"
proof -
  let ?y = "(pdata s i)\<lparr>pd_aspace := None\<rparr>" and ?P = "\<lambda>d. pd_aspace d = Some a"
  have "length (filter ?P (p_data s)) = length (filter ?P (take i (p_data s) @ pdata s i # drop (Suc i) (p_data s)))"
    using id_take_nth_drop [OF assms(1)] by metis
  moreover have "(p_data s)[i := ?y] = take i (p_data s) @ ?y # drop (Suc i) (p_data s)" using assms(1) by (rule upd_conv_take_nth_drop)
  ultimately show ?thesis using assms(2) by (simp add: as_count_def upd_data_def)
qed

lemma as_count_tf: "as_count a (upd_data i (\<lambda>d. d\<lparr>pd_tf := v\<rparr>) s) = as_count a s"
proof (cases "i < length (p_data s)")
  case True
  have "length (filter (\<lambda>d. pd_aspace d = Some a) (p_data s)) =
      length (filter (\<lambda>d. pd_aspace d = Some a) (take i (p_data s) @ pdata s i # drop (Suc i) (p_data s)))"
    using id_take_nth_drop [OF True] by metis
  then show ?thesis by (simp add: as_count_def upd_data_def upd_conv_take_nth_drop [OF True])
next
  case False
  then show ?thesis by (simp add: as_count_def upd_data_def list_update_beyond)
qed

text \<open>
  A process that ends with a mapped page stops the kernel. Freeing a process means to unmap its
  areas if it is the last one in its address space, but it tests for a reference count of one while it
  holds a second reference itself, so it never does (the areas are only forgotten). If any page of an
  area is mapped, that is, was ever touched, the walk over the page tables then finds it and panics.
\<close>

lemma exit_with_mapping_panics:
  assumes i: "i < NPROC" "i < length (p_data s)" "pd_aspace (pdata s i) = Some a" "as_count a s = 1" "a \<notin> set locked"
      "pd_tf_va (pdata s i) = trapframe_va i"
    and as: "as_root (p_as s a) = Some r" "space_ok (p_vm s) Rs D" "r \<in> Rs" "user_only D" "pages r 0 (npg (as_sz (p_as s a))) \<subseteq> D"
    and tf: "pd_tf (pdata s i) = Some (p, frame)" "spare_page (p_vm s) Rs D p"
    and v: "(r, v) \<in> D" "npg (as_sz (p_as s a)) \<le> v"
  shows "fst (proc_free i locked s) = Panic"
proof -
  from try_unmap_user [OF as(2-4) kernel_pages(2) [OF i(1)]] obtain b m1 where
    m1: "try_unmap r (trapframe_va i) 1 False (p_vm s) = (Ok b, m1)" "space_ok m1 Rs D"
    and m1e: "vm_free m1 = vm_free (p_vm s)" "vm_refs m1 = vm_refs (p_vm s)" "tables m1 Rs = tables (p_vm s) Rs" by blast
  define s1 where "s1 = s\<lparr>p_vm := m1\<rparr>"
  have c1: "as_count a s1 = 1" using i(4) by (simp add: as_count_def s1_def)
  have f: "free_space i locked s = (Ok [], s1)"
    using i m1(1) as(1) c1 by (simp add: free_space_def kbind_def on_vm_def ignore_def s1_def)
  define s2 where "s2 = (upd_data i (\<lambda>d. d\<lparr>pd_tf := None\<rparr>) s1)\<lparr>p_vm := page_free p m1\<rparr>"
  have t: "set_tf i None s1 = (Ok (), s2)" using tf(1) by (simp add: set_tf_def s1_def s2_def upd_data_def)
  have ok2: "space_ok (p_vm s2) Rs D" using space_page_free [OF m1(2)] tf(2) m1e by (simp add: s2_def spare_page_def)
  define s3 where "s3 = upd_data i (\<lambda>d. d\<lparr>pd_aspace := None\<rparr>) s2"
  have a2: "pd_aspace (pdata s2 i) = Some a" using i(2,3) by (simp add: s2_def s1_def upd_data_def)
  have c3: "as_count a s3 = 0"
  proof -
    have "as_count a s2 = 1" using c1 as_count_tf [of a i None s1] by (simp add: s2_def as_count_def)
    then show ?thesis using as_count_drop [of i s2 a] a2 i(2) by (simp add: s3_def s2_def s1_def upd_data_def)
  qed
  have "fst (aspace_drop a s3) = Panic"
    by (rule aspace_drop_mapped [where Rs = Rs and D = D and r = r and v = v])
      (use ok2 as v in \<open>simp_all add: s3_def s2_def s1_def upd_data_def\<close>)
  then have "fst (set_aspace i None s2) = Panic" using a2 c3 by (simp add: set_aspace_def Let_def s3_def as_put_def)
  then show ?thesis using f t by (cases "set_aspace i None s2") (simp add: proc_free_def kbind_def)
qed

lemma space_pop:
  assumes ok: "space_ok s Rs D" and f: "vm_free s = q # qs"
  shows "space_ok (s\<lparr>vm_free := qs\<rparr>) Rs D" "spare_page (s\<lparr>vm_free := qs\<rparr>) Rs D q"
proof -
  let ?s = "s\<lparr>vm_free := qs\<rparr>"
  have pt: "vm_pte ?s = vm_pte s" by simp
  have d: "q \<notin> set qs" "distinct qs" using tables_okD(3) [OF space_okD(1) [OF ok]] f by simp_all
  have "tables_ok ?s Rs" by (rule tables_ok_cong [OF space_okD(1) [OF ok] pt, of "{}"]) (use f d in auto)
  moreover have "owners ?s D pa = owners s D pa" for pa using ent_cong [OF pt] by (auto simp: owners_def frame_of_def)
  then have "entry_ok ?s Rs D m" if "m \<in> D" for m
    using space_okD(6) [OF ok that] ent_cong [OF pt] tables_cong [OF pt] f by (auto simp: entry_ok_def frame_ok_def frame_of_def)
  ultimately show "space_ok ?s Rs D" using ok f by (auto simp: space_ok_def)
  have "q \<notin> tables s Rs" using space_okD(1) [OF ok] f by (auto simp: tables_ok_def)
  then show "spare_page ?s Rs D q" using space_okD(4,5) [OF ok, of q] f d tables_cong [OF pt] by (simp add: spare_page_def)
qed

text \<open>A process of size 0 that has touched one page of an area at address 0.\<close>

definition demo_exit :: "vmem \<Rightarrow> nat \<Rightarrow> pst" where
  "demo_exit vm q = \<lparr>p_inner = [procinner_new\<lparr>pi_state := ZOMBIE\<rparr>],
     p_data = [procdata_new\<lparr>pd_aspace := Some 0, pd_tf := Some (q, trapframe_default), pd_tf_va := trapframe_va 0\<rparr>],
     p_parents = [None], p_nextid = 2, p_init = Some 0, p_rq = runqs_new, p_as = (\<lambda>_. \<lparr>as_root = Some KERNBASE, as_sz = 0\<rparr>), p_next_as = 1,
     p_vm = vm, p_ft = undefined, p_seg = undefined, p_next_seg = 0, p_shm = []\<rparr>"

end
