(* ===== verification/Mmap_Areas.thy ===== *)
theory Mmap_Areas
  imports Proc_Frame
begin

text \<open>
  The areas of an address space stay apart from each other and from the memory below them, and
  unmapping removes the range it is given and nothing else.
\<close>

section \<open>Pages\<close>

lemma pg_dvd: "PGSIZE dvd page_up n" "PGSIZE dvd page_down n" "n \<le> page_up n" "page_up n < n + PGSIZE" "page_down n \<le> n"
proof -
  show "PGSIZE dvd page_up n" "PGSIZE dvd page_down n" by (simp_all add: page_up_def page_down_def)
  show "page_down n \<le> n" by (simp add: page_down_def)
  have "n + PGSIZE - 1 = (n + PGSIZE - 1) div PGSIZE * PGSIZE + (n + PGSIZE - 1) mod PGSIZE" by simp
  moreover have "(n + PGSIZE - 1) mod PGSIZE < PGSIZE" by (simp add: PGSIZE_def)
  ultimately show "n \<le> page_up n" "page_up n < n + PGSIZE" unfolding page_up_def PGSIZE_def by linarith+
qed

lemma page_up_least: "n \<le> m \<Longrightarrow> PGSIZE dvd m \<Longrightarrow> page_up n \<le> m"
proof -
  assume n: "n \<le> m" and "PGSIZE dvd m"
  then obtain k where k: "m = PGSIZE * k" by blast
  have "(n + PGSIZE - 1) div PGSIZE \<le> k" using n k by (simp add: PGSIZE_def)
  then show ?thesis by (simp add: page_up_def k)
qed

lemma dvd_less_le: "PGSIZE dvd a \<Longrightarrow> PGSIZE dvd b \<Longrightarrow> a < b \<Longrightarrow> a + PGSIZE \<le> b"
  by (auto simp: PGSIZE_def elim!: dvdE)

lemma page_up_diff: "PGSIZE dvd d \<Longrightarrow> d \<le> page_up n \<Longrightarrow> page_up (n - d) = page_up n - d"
proof (cases "d \<le> n")
  case True
  assume d: "PGSIZE dvd d"
  then obtain k where k: "d = PGSIZE * k" by blast
  obtain m where m: "n = d + m" using True le_Suc_ex by blast
  have "page_up (d + m) = d + page_up m" 
  proof -
    have "(m + 4095 + k * 4096) div 4096 = (m + 4095) div 4096 + k" by simp
    then show ?thesis by (simp add: k page_up_def PGSIZE_def algebra_simps)
  qed
  then show ?thesis using m by simp
next
  case False
  assume d: "PGSIZE dvd d" "d \<le> page_up n"
  have "page_up n \<le> d" using page_up_least [of n d] d(1) False by simp
  then show ?thesis using d(2) False by (simp add: page_up_def PGSIZE_def)
qed

section \<open>Areas\<close>

definition area_ok :: "nat \<Rightarrow> nat \<Rightarrow> vma \<Rightarrow> bool" where
  "area_ok lo hi v \<longleftrightarrow> PGSIZE dvd v_start v \<and> 0 < v_len v \<and> lo \<le> v_start v \<and> v_end_pg v \<le> hi"

definition apart :: "vma \<Rightarrow> vma \<Rightarrow> bool" where
  "apart v w \<longleftrightarrow> v_end_pg v \<le> v_start w \<or> v_end_pg w \<le> v_start v"

definition areas_ok :: "nat \<Rightarrow> nat \<Rightarrow> vma list \<Rightarrow> bool" where
  "areas_ok lo hi vs \<longleftrightarrow> (\<forall>v\<in>set vs. area_ok lo hi v) \<and> sorted_wrt apart vs"

text \<open>What backs an address: the protection, the flags, and the place in the file or the segment.\<close>

definition backing :: "nat \<Rightarrow> vma \<Rightarrow> usize \<times> usize \<times> kfile option \<times> nat \<times> nat option" where
  "backing va v = (v_prot v, v_flags v, v_file v, v_off v + (va - v_start v), v_shm v)"

definition area_at :: "vma list \<Rightarrow> nat \<Rightarrow> (usize \<times> usize \<times> kfile option \<times> nat \<times> nat option) option" where
  "area_at vs va = map_option (backing va) (find (\<lambda>v. v_contains_pg v va) vs)"

lemma area_at_Nil [simp]: "area_at [] va = None"
  by (simp add: area_at_def)

lemma area_at_Cons: "area_at (v # vs) va = (if v_contains_pg v va then Some (backing va v) else area_at vs va)"
  by (simp add: area_at_def)

lemma area_at_append: "area_at (vs @ ws) va = (case area_at vs va of None \<Rightarrow> area_at ws va | Some x \<Rightarrow> Some x)"
  by (induction vs) (simp_all add: area_at_Cons)

lemma page_up_pos: "0 < page_up n \<longleftrightarrow> 0 < n"
proof -
  have "page_up 0 = 0" by (simp add: page_up_def PGSIZE_def)
  then show ?thesis using pg_dvd(3) [of n] by (cases n) auto
qed

text \<open>The two parts an unmapped range can leave of an area, to the left and to the right.\<close>

definition left_part :: "vma \<Rightarrow> nat \<Rightarrow> vma" where
  "left_part v l = v\<lparr>v_len := l\<rparr>"

definition right_part :: "vma \<Rightarrow> nat \<Rightarrow> nat \<Rightarrow> vma" where
  "right_part v b m = v\<lparr>v_start := b, v_off := v_off v + (b - v_start v), v_len := m\<rparr>"

lemma vma_cut_eq:
  assumes v: "PGSIZE dvd v_start v" and ab: "PGSIZE dvd a" "PGSIZE dvd b" "v_start v \<le> a" "a < b" "b \<le> v_end_pg v"
  shows "\<exists>l m. vma_cut v a b = (if a = v_start v then [] else [left_part v l]) @ (if b = v_end_pg v then [] else [right_part v b m]) \<and>
    page_up l = a - v_start v \<and> page_up m = v_end_pg v - b"
proof -
  define e where "e = v_end_pg v"
  have e: "e = v_start v + page_up (v_len v)" by (simp add: e_def v_end_pg_def v_len_pg_def)
  have de: "PGSIZE dvd e" unfolding e using v pg_dvd(1) by simp
  have ab': "a < b" "b \<le> e" using ab by (simp_all add: e_def)
  define l where "l = (if b = e then v_len v - (e - a) else min (v_len v) (a - v_start v))"
  define m where "m = (if a = v_start v then v_len v - (b - v_start v) else min (v_len v - (b - v_start v)) (e - b))"
  have "page_up l = a - v_start v"
  proof (cases "b = e")
    case True
    have "page_up (v_len v - (e - a)) = page_up (v_len v) - (e - a)" by (rule page_up_diff) (use de ab e in auto)
    then show ?thesis using True ab' ab(3) e by (simp add: l_def)
  next
    case False
    have "b + PGSIZE \<le> e" using dvd_less_le [OF ab(2) de] False ab'(2) by simp
    then have "a - v_start v \<le> v_len v" using pg_dvd(4) [of "v_len v"] ab' e by linarith
    then have "l = a - v_start v" using False by (simp add: l_def)
    moreover have "page_up (a - v_start v) = a - v_start v"
      using page_up_least [of "a - v_start v" "a - v_start v"] pg_dvd(3) v ab(1) by (simp add: le_antisym)
    ultimately show ?thesis by simp
  qed
  moreover have m: "page_up (v_len v - (b - v_start v)) = e - b"
    using page_up_diff [of "b - v_start v" "v_len v"] v ab(2,3) ab' e by auto
  then have "v_len v - (b - v_start v) \<le> e - b" using pg_dvd(3) by metis
  then have "page_up m = e - b" using m by (simp add: m_def)
  moreover have "vma_cut v a b = (if a = v_start v then [] else [left_part v l]) @ (if b = e then [] else [right_part v b m])"
    by (simp add: vma_cut_def left_part_def right_part_def l_def m_def e_def)
  ultimately show ?thesis unfolding e_def by blast
qed

lemma part_ends: "page_up l = a - v_start v \<Longrightarrow> v_start v \<le> a \<Longrightarrow> v_end_pg (left_part v l) = a" "v_start (left_part v l) = v_start v"
  "page_up m = e - b \<Longrightarrow> b \<le> e \<Longrightarrow> v_end_pg (right_part v b m) = e" "v_start (right_part v b m) = b"
  by (simp_all add: v_end_pg_def v_len_pg_def left_part_def right_part_def)

lemma part_fields: "v_len (left_part v l) = l" "v_len (right_part v b m) = m" "backing va (left_part v l) = backing va v"
  "v_start v \<le> b \<Longrightarrow> b \<le> va \<Longrightarrow> backing va (right_part v b m) = backing va v"
  by (simp_all add: left_part_def right_part_def backing_def)

lemma vma_cut_parts:
  assumes v: "area_ok lo hi v" and ab: "PGSIZE dvd a" "PGSIZE dvd b" "v_start v \<le> a" "a < b" "b \<le> v_end_pg v"
  shows "\<forall>w\<in>set (vma_cut v a b). area_ok lo hi w \<and> v_start v \<le> v_start w \<and> v_end_pg w \<le> v_end_pg v"
    "sorted_wrt apart (vma_cut v a b)"
    "area_at (vma_cut v a b) va = (if v_contains_pg v va \<and> \<not> (a \<le> va \<and> va < b) then Some (backing va v) else None)"
proof -
  have V: "PGSIZE dvd v_start v" "0 < v_len v" "lo \<le> v_start v" "v_end_pg v \<le> hi" using v by (simp_all add: area_ok_def)
  from vma_cut_eq [OF V(1) ab] obtain l m where
    c: "vma_cut v a b = (if a = v_start v then [] else [left_part v l]) @ (if b = v_end_pg v then [] else [right_part v b m])"
    and lm: "page_up l = a - v_start v" "page_up m = v_end_pg v - b" by blast
  note L = part_ends(1) [OF lm(1) ab(3)] part_ends(2) [of v l] and R = part_ends(3) [OF lm(2) ab(5), of v] part_ends(4) [of v b m]
  have pos: "0 < l" if "a \<noteq> v_start v" using lm(1) that ab(3) page_up_pos [of l] by simp
  have pom: "0 < m" if "b \<noteq> v_end_pg v" using lm(2) that ab(5) page_up_pos [of m] by simp
  show "\<forall>w\<in>set (vma_cut v a b). area_ok lo hi w \<and> v_start v \<le> v_start w \<and> v_end_pg w \<le> v_end_pg v"
    unfolding c using L R V ab pos pom by (auto simp: area_ok_def part_fields)
  show "sorted_wrt apart (vma_cut v a b)" unfolding c using L R ab by (auto simp: apart_def)
  show "area_at (vma_cut v a b) va = (if v_contains_pg v va \<and> \<not> (a \<le> va \<and> va < b) then Some (backing va v) else None)"
    unfolding c using L R ab by (auto simp: area_at_Cons v_contains_pg_def part_fields)
qed

lemma sorted_apart_append:
  "sorted_wrt apart (vs @ ws) \<longleftrightarrow> sorted_wrt apart vs \<and> sorted_wrt apart ws \<and> (\<forall>v\<in>set vs. \<forall>w\<in>set ws. apart v w)"
  by (simp add: sorted_wrt_append)

lemma apart_inside: "apart v w \<Longrightarrow> v_start v \<le> v_start v' \<Longrightarrow> v_end_pg v' \<le> v_end_pg v \<Longrightarrow> apart v' w"
  by (auto simp: apart_def)

text \<open>Unmapping a range.\<close>

lemma munmap_loop_Cons:
  assumes "munmap_loop root a b (v # vs) wbs s = (r, vs', wbs', s')" "r \<noteq> Panic"
  defines "a' \<equiv> max a (v_start v)" and "b' \<equiv> min b (v_end_pg v)"
  obtains (skip) us where "b' \<le> a'" "munmap_loop root a b vs wbs s = (r, us, wbs', s')" "vs' = v # us"
  | (stop) e where "r = Err e" "vs' = v # vs"
  | (cut) us wbs2 s2 where "a' < b'" "munmap_loop root a b vs wbs2 s2 = (r, us, wbs', s')" "vs' = vma_cut v a' b' @ us"
proof (cases "b' \<le> a'")
  case True
  then show thesis using assms(1) skip by (auto simp: Let_def a'_def b'_def split: prod.splits)
next
  case False
  show thesis
  proof (cases "v_is_shm v \<and> (a' \<noteq> v_start v \<or> b' \<noteq> v_end_pg v)")
    case True
    then show thesis using assms(1) False stop by (auto simp: Let_def a'_def b'_def)
  next
    case sh: False
    obtain q wbs1 s1 where q: "munmap_vma_range root v a' b' wbs s = (q, wbs1, s1)" by (rule prod_cases3)
    note R = assms(1) [unfolded munmap_loop.simps Let_def, folded a'_def b'_def, unfolded if_not_P [OF False] if_not_P [OF sh] q prod.case]
    show thesis
    proof (cases q)
      case (Ok x)
      obtain p s2 where p: "vma_keep v (vma_cut v a' b') s1 = (p, s2)" by fastforce
      have "p \<noteq> Err e" for e
        using p noerrD [OF noerr_vma_drop] by (auto simp: vma_keep_def split: list.splits)
      moreover have "p \<noteq> Panic" using R [unfolded Ok outcome.case p prod.case] assms(2) by auto
      ultimately obtain y where y: "p = Ok y" by (cases p) auto
      obtain r2 us wbs2 s3 where u: "munmap_loop root a b vs wbs1 s2 = (r2, us, wbs2, s3)" by (rule prod_cases4)
      show thesis using R [unfolded Ok outcome.case p prod.case y u] u False by (intro cut [of wbs1 s2 us]) auto
    next
      case (Err e)
      then show thesis using R stop by auto
    next
      case Panic
      then show thesis using R assms(2) by auto
    qed
  qed
qed

lemma munmap_loop_areas:
  assumes "areas_ok lo hi vs" "PGSIZE dvd a" "PGSIZE dvd b" "munmap_loop root a b vs wbs s = (r, vs', wbs', s')" "r \<noteq> Panic"
  shows "areas_ok lo hi vs' \<and> (\<forall>w\<in>set vs'. \<exists>v\<in>set vs. v_start v \<le> v_start w \<and> v_end_pg w \<le> v_end_pg v) \<and>
    (r = Ok () \<longrightarrow> (\<forall>va. area_at vs' va = (if a \<le> va \<and> va < b then None else area_at vs va)))"
  using assms
proof (induction vs arbitrary: wbs s vs' s' wbs')
  case Nil
  then show ?case by (simp add: areas_ok_def)
next
  case (Cons v vs)
  have ok: "area_ok lo hi v" "areas_ok lo hi vs" "\<forall>w\<in>set vs. apart v w" using Cons.prems(1) by (simp_all add: areas_ok_def)
  have V: "PGSIZE dvd v_start v" "0 < v_len v" "v_end_pg v \<le> hi" using ok(1) by (simp_all add: area_ok_def)
  define a' b' where ab: "a' = max a (v_start v)" "b' = min b (v_end_pg v)"
  have dv: "PGSIZE dvd a'" "PGSIZE dvd b'" using Cons.prems(2,3) V(1) pg_dvd(1)
    by (auto simp: ab max_def min_def v_end_pg_def v_len_pg_def)
  from Cons.prems(4,5) show ?case
  proof (cases rule: munmap_loop_Cons)
    case us: (skip us)
    note IH = Cons.IH [OF ok(2) Cons.prems(2,3) us(2) Cons.prems(5)]
    have out: "\<not> (a \<le> va \<and> va < b)" if "v_contains_pg v va" for va
      using us(1) that by (auto simp: ab v_contains_pg_def max_def min_def split: if_splits)
    have "apart v w" if "w \<in> set us" for w
    proof -
      from IH that obtain x where x: "x \<in> set vs" "v_start x \<le> v_start w" "v_end_pg w \<le> v_end_pg x" by blast
      then show ?thesis using ok(3) by (force simp: apart_def)
    qed
    then show ?thesis using IH ok(1) out unfolding us(3) by (auto simp: areas_ok_def area_at_Cons)
  next
    case (stop e)
    then show ?thesis using Cons.prems(1) by auto
  next
    case (cut us wbs2 s2)
    note us = cut(3) [folded ab]
    note IH = Cons.IH [OF ok(2) Cons.prems(2,3) cut(2) Cons.prems(5)]
    have r: "v_start v \<le> a'" "a' < b'" "b' \<le> v_end_pg v" using cut(1) by (auto simp: ab)
    note P = vma_cut_parts [OF ok(1) dv r]
    have ap: "apart x w" if "x \<in> set (vma_cut v a' b')" "w \<in> set us" for x w
    proof -
      from IH that(2) obtain y where y: "y \<in> set vs" "v_start y \<le> v_start w" "v_end_pg w \<le> v_end_pg y" by blast
      then have "apart v w" using ok(3) by (force simp: apart_def)
      then show ?thesis using P(1) that(1) apart_inside by blast
    qed
    have at: "area_at vs' va = (if a \<le> va \<and> va < b then None else area_at (v # vs) va)" if rok: "r = Ok ()" for va
    proof (cases "v_contains_pg v va")
      case True
      then have iff: "a' \<le> va \<and> va < b' \<longleftrightarrow> a \<le> va \<and> va < b" by (auto simp: ab v_contains_pg_def)
      have none: "area_at vs va = None"
      proof -
        have "\<not> v_contains_pg w va" if "w \<in> set vs" for w
          using ok(3) that True by (force simp: apart_def v_contains_pg_def)
        then show ?thesis by (simp add: area_at_def find_None_iff)
      qed
      show ?thesis using IH rok P(3) [of va] iff True none unfolding us by (auto simp: area_at_append area_at_Cons)
    next
      case False
      then show ?thesis using IH rok P(3) [of va] unfolding us by (auto simp: area_at_append area_at_Cons)
    qed
    have "areas_ok lo hi vs'" unfolding us areas_ok_def sorted_apart_append using P(1,2) IH ap by (auto simp: areas_ok_def)
    moreover have "\<forall>w\<in>set vs'. \<exists>x\<in>set (v # vs). v_start x \<le> v_start w \<and> v_end_pg w \<le> v_end_pg x" unfolding us using IH P(1) by auto
    ultimately show ?thesis using at by blast
  qed
qed

section \<open>What unmapping leaves alone\<close>

lemma above_vma_clone [simp]: "above (vma_clone v s) = above s"
  by (simp add: vma_clone_def seg_clone_def Let_def split: option.splits)

lemma above_vma_keep: "vma_keep v vs s = (r, s') \<Longrightarrow> above s' = above s"
  by (auto simp: vma_keep_def split: list.splits dest: keepsD [OF low_vma_drop])

lemma above_munmap_loop: "munmap_loop root a b vs wbs s = (r, vs', wbs', s') \<Longrightarrow> above s' = above s"
proof (induction vs arbitrary: wbs s vs' wbs' s' r)
  case (Cons v vs)
  from Cons.prems show ?case
    by (auto simp: Let_def split: if_splits prod.splits outcome.splits dest!: above_munmap_vma_range above_vma_keep Cons.IH)
qed simp

lemma above_flush_all: "flush_all wbs s = (r, s') \<Longrightarrow> above s' = above s"
proof (induction wbs arbitrary: s)
  case (Cons wb wbs)
  have "above t' = above t" if "kbind (kfold wb_drop wbs) (\<lambda>_. kfail e :: unit pop) t = (r', t')" for e r' t t'
    by (rule keepsD [where v = above and m = "kbind (kfold wb_drop wbs) (\<lambda>_. kfail e)", OF _ that]) (intro keeps)
  with Cons show ?case by (fastforce split: prod.splits outcome.splits dest: keepsD [OF low_wb_flush])
qed simp

lemma above_fields: "above s = above t \<Longrightarrow> p_data s = p_data t \<and> p_as s = p_as t \<and> (\<forall>h. sg_size (p_seg s h) = sg_size (p_seg t h))"
  by (simp add: above_def fun_eq_iff)

lemma above_upd_data: "above s = above t \<Longrightarrow> above (upd_data i f s) = above (upd_data i f t)"
  by (simp add: above_def upd_data_def)

text \<open>\<^verbatim>\<open>munmap\<close> stores what remains of the areas and changes memory and files.\<close>

lemma munmap_result:
  assumes "munmap me uva len s = (r, s')" "r \<noteq> Panic"
  obtains (same) e where "r = Err e" "s' = s"
  | (run) root q vs wbs t where "PGSIZE dvd uva" "0 < len"
      "munmap_loop root uva ((uva + pg_up len) mod 2 ^ 64) (pd_vmas (pdata s me)) [] s = (q, vs, wbs, t)" "q \<noteq> Panic"
      "r = Ok () \<Longrightarrow> q = Ok ()" "above s' = above (upd_data me (\<lambda>d. d\<lparr>pd_vmas := vs\<rparr>) s)"
proof (cases "\<not> PGSIZE dvd uva \<or> len = 0")
  case True
  then show thesis using assms(1) same by (auto simp: munmap_def kfail_def)
next
  case False
  then obtain a root where ar: "pd_aspace (pdata s me) = Some a" "as_root (p_as s a) = Some root"
    using assms by (auto simp: munmap_def with_root_def split: option.splits)
  obtain q vs wbs t where l: "munmap_loop root uva ((uva + pg_up len) mod 2 ^ 64) (pd_vmas (pdata s me)) [] s = (q, vs, wbs, t)"
    by (rule prod_cases4)
  let ?t = "upd_data me (\<lambda>d. d\<lparr>pd_vmas := vs\<rparr>) t"
  have t: "above ?t = above (upd_data me (\<lambda>d. d\<lparr>pd_vmas := vs\<rparr>) s)" by (rule above_upd_data [OF above_munmap_loop [OF l]])
  have m: "(case q of Ok _ \<Rightarrow> flush_all wbs ?t | Err e \<Rightarrow> kbind (kfold wb_drop wbs) (\<lambda>_. kfail e) ?t | Panic \<Rightarrow> (Panic, t)) = (r, s')"
    using assms(1) False l ar by (simp add: munmap_def with_root_def split: outcome.splits)
  have "q \<noteq> Panic" using m assms(2) by auto
  moreover have "r = Ok () \<Longrightarrow> q = Ok ()" using m by (auto simp: kbind_def kfail_def split: outcome.splits prod.splits)
  moreover have "above s' = above ?t"
  proof (cases q)
    case (Err e)
    then show ?thesis using m keepsD [where v = above and m = "kbind (kfold wb_drop wbs) (\<lambda>_. kfail e :: unit pop)" and s = ?t]
      by (auto intro!: keeps)
  qed (use m above_flush_all \<open>q \<noteq> Panic\<close> in auto)
  ultimately show thesis using run [OF _ _ l] False t by auto
qed

section \<open>The memory of a process\<close>

text \<open>The areas lie between the base of the mappings and the top of user memory, apart from each other,
  and the memory that \<^verbatim>\<open>sbrk\<close> grows ends below that base.\<close>

definition mem_ok :: "nat \<Rightarrow> pst \<Rightarrow> bool" where
  "mem_ok me s \<longleftrightarrow> me < length (p_data s) \<and> PGSIZE dvd pd_mmap_base (pdata s me) \<and>
     areas_ok (pd_mmap_base (pdata s me)) (user_mem_top NPROC) (pd_vmas (pdata s me)) \<and>
     pd_mmap_base (pdata s me) \<le> user_mem_top NPROC \<and>
     (\<forall>a. pd_aspace (pdata s me) = Some a \<longrightarrow> page_up (as_sz (p_as s a)) \<le> pd_mmap_base (pdata s me)) \<and>
     (\<forall>h. sg_size (p_seg s h) < 2 ^ 64)"

lemma mem_ok_above: "above s = above t \<Longrightarrow> mem_ok me s \<longleftrightarrow> mem_ok me t"
  using above_fields [of s t] by (simp add: mem_ok_def)

lemma areas_lower: "areas_ok lo hi vs \<Longrightarrow> lo' \<le> lo \<Longrightarrow> areas_ok lo' hi vs"
  by (auto simp: areas_ok_def area_ok_def)

lemma pg_up_eq: "n < 2 ^ 64 \<Longrightarrow> pg_up n \<noteq> 0 \<Longrightarrow> pg_up n = page_up n"
proof -
  assume n: "n < 2 ^ 64" "pg_up n \<noteq> 0"
  have "unat (of_nat n :: usize) = n" using n(1) by (simp add: unat_of_nat)
  then show ?thesis using page_rounding [of "of_nat n"] n(2) by (simp add: page_up_def split: if_splits)
qed

lemma pg_up_small: "page_up n < 2 ^ 64 \<Longrightarrow> pg_up n = page_up n"
proof -
  assume n: "page_up n < 2 ^ 64"
  have "PGSIZE dvd (2 ^ 64 :: nat)" by (simp add: PGSIZE_def)
  then have "page_up n + PGSIZE \<le> 2 ^ 64" using dvd_less_le [OF pg_dvd(1) _ n] by blast
  then have "n \<le> 2 ^ 64 - PGSIZE" using pg_dvd(3) [of n] by linarith
  moreover have "unat (of_nat n :: usize) = n" using n pg_dvd(3) [of n] by (simp add: unat_of_nat)
  ultimately show ?thesis using page_rounding [of "of_nat n"] by (simp add: page_up_def)
qed

lemma alloc_mmap_va_result:
  assumes "alloc_mmap_va me sz len s = (r, s1)" "r \<noteq> Panic"
  obtains (fail) e where "r = Err e" "s1 = s"
  | (ok) b where "r = Ok b" "s1 = upd_data me (\<lambda>d. d\<lparr>pd_mmap_base := b\<rparr>) s" "pg_up len \<noteq> 0" "page_up sz \<le> b"
      "b = page_down (pd_mmap_base (pdata s me) - pg_up len)" "pg_up len \<le> pd_mmap_base (pdata s me)"
  using assms by (auto simp: alloc_mmap_va_def Let_def split: if_splits)

lemma page_down_id: "PGSIZE dvd n \<Longrightarrow> page_down n = n"
  by (simp add: page_down_def)

text \<open>An area of the given length at a freshly lowered base.\<close>

lemma mem_ok_new_area:
  assumes ok: "mem_ok me s" and b: "b = page_down (pd_mmap_base (pdata s me) - pg_up len)" "pg_up len \<noteq> 0"
      "pg_up len \<le> pd_mmap_base (pdata s me)" "len < 2 ^ 64"
    and sz: "\<forall>a. pd_aspace (pdata s me) = Some a \<longrightarrow> page_up (as_sz (p_as s a)) \<le> b"
    and v: "v_start v = b" "v_len v = len"
  shows "mem_ok me (upd_data me (\<lambda>d. d\<lparr>pd_mmap_base := b, pd_vmas := pd_vmas d @ [v]\<rparr>) s)"
    "mem_ok me (upd_data me (\<lambda>d. d\<lparr>pd_mmap_base := b\<rparr>) s)"
proof -
  let ?base = "pd_mmap_base (pdata s me)"
  have base: "PGSIZE dvd ?base" "?base \<le> user_mem_top NPROC" "areas_ok ?base (user_mem_top NPROC) (pd_vmas (pdata s me))"
    using ok by (simp_all add: mem_ok_def)
  have pg: "pg_up len = page_up len" using pg_up_eq b(2,4) by blast
  have bb: "b = ?base - page_up len" "page_up len \<le> ?base" "PGSIZE dvd b"
    using b page_down_id [of "?base - page_up len"] base(1) pg_dvd(1) pg by auto
  have e: "v_end_pg v = ?base" using bb v by (simp add: v_end_pg_def v_len_pg_def)
  have a: "area_ok b (user_mem_top NPROC) v" using e base bb v b(2) pg page_up_pos [of len] by (simp add: area_ok_def)
  have lo: "areas_ok b (user_mem_top NPROC) (pd_vmas (pdata s me))" by (rule areas_lower [OF base(3)]) (simp add: bb)
  have "\<forall>w\<in>set (pd_vmas (pdata s me)). apart w v" using base(3) e by (auto simp: areas_ok_def area_ok_def apart_def)
  then have all: "areas_ok b (user_mem_top NPROC) (pd_vmas (pdata s me) @ [v])"
    using lo a by (simp add: areas_ok_def sorted_apart_append)
  have top: "b \<le> user_mem_top NPROC" using bb base(2) by simp
  show "mem_ok me (upd_data me (\<lambda>d. d\<lparr>pd_mmap_base := b, pd_vmas := pd_vmas d @ [v]\<rparr>) s)"
    "mem_ok me (upd_data me (\<lambda>d. d\<lparr>pd_mmap_base := b\<rparr>) s)"
    using ok all lo top bb(3) sz by (auto simp: mem_ok_def upd_data_def)
qed

lemma mem_ok_munmap:
  assumes ok: "mem_ok me s" and m: "munmap me uva len s = (r, s')" "r \<noteq> Panic"
  shows "mem_ok me s'"
  using m
proof (cases rule: munmap_result)
  case (same e)
  then show ?thesis using ok by simp
next
  case (run root q vs wbs t)
  have dv: "PGSIZE dvd (uva + pg_up len) mod 2 ^ 64"
  proof -
    have "PGSIZE dvd pg_up len" using page_rounding [of "of_nat len"] by (auto split: if_splits)
    moreover have "PGSIZE dvd 2 ^ 64" by (simp add: PGSIZE_def)
    ultimately show ?thesis using run(1) by (simp add: dvd_mod)
  qed
  have a: "areas_ok (pd_mmap_base (pdata s me)) (user_mem_top NPROC) (pd_vmas (pdata s me))" using ok by (simp add: mem_ok_def)
  have "mem_ok me (upd_data me (\<lambda>d. d\<lparr>pd_vmas := vs\<rparr>) s)"
    using ok munmap_loop_areas [OF a run(1) dv run(3,4)] by (simp add: mem_ok_def upd_data_def)
  then show ?thesis using mem_ok_above [OF run(6)] by simp
qed

lemma upd_data_twice: "upd_data i f (upd_data i g s) = upd_data i (f \<circ> g) s"
  by (cases "i < length (p_data s)") (simp_all add: upd_data_def list_update_beyond)

lemma above_upd_clone: "above (upd_data i f (vma_clone v s)) = above (upd_data i f s)"
  by (rule above_upd_data) simp

lemma mem_ok_mmap:
  assumes ok: "mem_ok me s" and m: "mmap me uva len prot flags fd off s = (r, s')" "r \<noteq> Panic" and n: "len < 2 ^ 64"
  shows "mem_ok me s'"
proof (cases r)
  case (Ok b)
  then obtain fi a s1 where f: "pd_aspace (pdata s me) = Some a" "alloc_mmap_va me (as_sz (p_as s a)) len s = (Ok b, s1)"
      "s' = upd_data me (\<lambda>d. d\<lparr>pd_vmas := pd_vmas d @ [\<lparr>v_start = b, v_len = len, v_prot = prot, v_flags = flags, v_file = fi, v_off = off, v_shm = None\<rparr>]\<rparr>)
        (vma_clone \<lparr>v_start = b, v_len = len, v_prot = prot, v_flags = flags, v_file = fi, v_off = off, v_shm = None\<rparr> s1)"
    using m(1) by (auto simp: mmap_def Let_def split: if_splits outcome.splits option.splits prod.splits)
  have "Ok b \<noteq> (Panic :: nat result)" by simp
  with f(2) show ?thesis
  proof (cases rule: alloc_mmap_va_result)
    case (ok c)
    then have sz: "\<forall>a. pd_aspace (pdata s me) = Some a \<longrightarrow> page_up (as_sz (p_as s a)) \<le> b" using f(1) by simp
    show ?thesis unfolding f(3) mem_ok_above [OF above_upd_clone]
      using mem_ok_new_area(1) [OF assms(1) _ ok(3,6) n sz, of "\<lparr>v_start = b, v_len = len, v_prot = prot, v_flags = flags, v_file = fi, v_off = off, v_shm = None\<rparr>"] ok
      by (simp add: upd_data_twice comp_def)
  qed simp_all
next
  case (Err e)
  then have "s' = s" using m(1)
    by (auto simp: mmap_def Let_def alloc_mmap_va_def split: if_splits outcome.splits option.splits prod.splits)
  then show ?thesis using ok by simp
qed (use m in simp)

lemma low_attach_loop: "attach_loop root b perm pas i s = (r, s') \<Longrightarrow> above s' = above s"
proof (induction pas arbitrary: i s)
  case (Cons pa pas)
  have k: "above t' = above t" if "kbind (on_vm (unmap root b i True)) (\<lambda>_. kfail e :: unit pop) t = (r', t')" for e r' t t'
    by (rule keepsD [where v = above and m = "kbind (on_vm (unmap root b i True)) (\<lambda>_. kfail e)", OF _ that]) (intro keeps)
  from Cons.prems show ?case
    by (auto split: prod.splits outcome.splits if_splits dest!: Cons.IH k)
qed simp

lemma mem_ok_shm_attach:
  assumes ok: "mem_ok me s" and m: "shm_attach me i prot s = (r, s')" "r \<noteq> Panic"
  shows "mem_ok me s'"
proof -
  consider "s' = s" | perm h a root where "prot_to_perm prot = Ok perm" "shm_get i s = Ok h" "pd_aspace (pdata s me) = Some a" "as_root (p_as s a) = Some root"
    using m by (auto simp: shm_attach_def with_root_def Let_def split: outcome.splits option.splits)
  then show ?thesis
  proof cases
    case (2 perm h a root)
    let ?sg = "p_seg s h"
    obtain q s1 where q: "alloc_mmap_va me (as_sz (p_as s a)) (sg_size ?sg) s = (q, s1)" by fastforce
    note m' = m(1) [unfolded shm_attach_def 2 outcome.case Let_def with_root_def option.case kbind_def q prod.case]
    have "q \<noteq> Panic" using m' m(2) by auto
    with q show ?thesis
    proof (cases rule: alloc_mmap_va_result)
      case (fail e)
      then show ?thesis using m' ok by auto
    next
      case (ok b)
      obtain p s2 where p: "attach_loop root b perm (sg_pages ?sg) 0 s1 = (p, s2)" by fastforce
      let ?v = "\<lparr>v_start = b, v_len = sg_size ?sg, v_prot = prot, v_flags = MAP_SHARED OR MAP_ANON, v_file = None, v_off = 0, v_shm = Some h\<rparr>"
      have sz: "\<forall>a. pd_aspace (pdata s me) = Some a \<longrightarrow> page_up (as_sz (p_as s a)) \<le> b" using ok(4) 2(3) by simp
      have n: "sg_size ?sg < 2 ^ 64" using assms(1) by (simp add: mem_ok_def)
      have s2: "above (upd_data me f s2) = above (upd_data me (f \<circ> (\<lambda>d. d\<lparr>pd_mmap_base := b\<rparr>)) s)" for f
        using above_upd_data [OF low_attach_loop [OF p], of me f] by (simp add: ok(2) upd_data_twice)
      note m'' = m' [unfolded ok(1) outcome.case p prod.case]
      show ?thesis
      proof (cases p)
        case (Ok x)
        then have s': "s' = upd_data me (\<lambda>d. d\<lparr>pd_vmas := pd_vmas d @ [?v]\<rparr>) (vma_clone ?v s2)" using m'' by auto
        show ?thesis unfolding s' mem_ok_above [OF above_upd_clone] mem_ok_above [OF s2]
          using mem_ok_new_area(1) [OF assms(1) ok(5,3,6) n sz, of ?v] by (simp add: comp_def)
      next
        case (Err e)
        then have s': "s' = upd_data me (\<lambda>d. d\<lparr>pd_mmap_base := pd_mmap_base (pdata s me)\<rparr>) s2" using m'' by auto
        have "mem_ok me (upd_data me (\<lambda>d. d\<lparr>pd_mmap_base := pd_mmap_base (pdata s me)\<rparr>) s)" using assms(1) by (simp add: mem_ok_def upd_data_def)
        then show ?thesis unfolding s' mem_ok_above [OF s2] by (simp add: comp_def)
      qed (use m'' m(2) in auto)
    qed
  qed (use ok in simp)
qed

lemma uvm_alloc_loop_size: "uvm_alloc_loop root b a n x m = (Ok z, m') \<Longrightarrow> z = n"
proof (induction root b a n x m arbitrary: m' rule: uvm_alloc_loop.induct)
  case (1 root b a n x m)
  note res = 1(2) [unfolded uvm_alloc_loop.simps [of root b a n x m]]
  show ?case
  proof (cases "a < n \<and> page_new m \<noteq> None")
    case True
    then obtain p m1 where p: "a < n" "page_new m = Some (p, m1)" by auto
    obtain q m2 where q: "mappages root a p PGSIZE (PTE_R OR PTE_U OR x) m1 = (q, m2)" by fastforce
    note res' = res [unfolded if_P [OF p(1)] p(2) option.case prod.case q]
    show ?thesis
    proof (cases q)
      case (Ok y)
      then show ?thesis using res' 1(1) [OF p(1) p(2) refl q [symmetric] Ok] by (auto split: outcome.splits)
    next
      case (Err e)
      then show ?thesis using res' by (simp split: prod.splits outcome.splits)
    qed (use res' in simp)
  next
    case False
    then consider "\<not> a < n" | "a < n" "page_new m = None" by blast
    then show ?thesis using res by cases (simp_all split: prod.splits outcome.splits)
  qed
qed

lemma grow_sizes:
  "uvm_alloc root sz n x m = (Ok z, m') \<Longrightarrow> z = max sz n" "uvm_dealloc root sz n m = (Ok z, m') \<Longrightarrow> z \<le> sz"
proof -
  show "uvm_alloc root sz n x m = (Ok z, m') \<Longrightarrow> z = max sz n"
    by (auto simp: uvm_alloc_def split: if_splits dest: uvm_alloc_loop_size)
  show "uvm_dealloc root sz n m = (Ok z, m') \<Longrightarrow> z \<le> sz"
    by (auto simp: uvm_dealloc_def split: if_splits prod.splits outcome.splits)
qed

lemma page_up_mono: "m \<le> n \<Longrightarrow> page_up m \<le> page_up n"
  using page_up_least [of m "page_up n"] pg_dvd(1,3) le_trans by blast

lemma mem_ok_size:
  assumes "mem_ok me s" "pd_aspace (pdata s me) = Some a" "page_up z \<le> pd_mmap_base (pdata s me)"
  shows "mem_ok me (upd_as a (\<lambda>x. x\<lparr>as_sz := z\<rparr>) s)"
  using assms by (simp add: mem_ok_def upd_as_def)

lemma mem_ok_grow:
  assumes ok: "mem_ok me s" and m: "grow me n s = (r, s')" "r \<noteq> Panic"
  shows "mem_ok me s'"
proof -
  obtain a root where ar: "pd_aspace (pdata s me) = Some a" "as_root (p_as s a) = Some root"
    using m by (auto simp: grow_def with_root_def split: option.splits)
  let ?sz = "as_sz (p_as s a)" and ?base = "pd_mmap_base (pdata s me)"
  have lt: "page_up ?sz \<le> ?base" "PGSIZE dvd ?base" using ok ar by (simp_all add: mem_ok_def)
  have fit: "page_up z \<le> ?base" if "z \<le> ?base" for z using page_up_least [OF that lt(2)] .
  have low: "page_up z \<le> ?base" if "z \<le> ?sz" for z using page_up_mono [OF that] lt(1) by simp
  have vm: "mem_ok me (s\<lparr>p_vm := vm\<rparr>)" for vm using ok mem_ok_above [of "s\<lparr>p_vm := vm\<rparr>" s] by simp
  have sz: "mem_ok me (upd_as a (\<lambda>x. x\<lparr>as_sz := z\<rparr>) (s\<lparr>p_vm := vm\<rparr>))" if "page_up z \<le> ?base" for z vm
    by (rule mem_ok_size [OF vm]) (use ar that in simp_all)
  show ?thesis using m ok ar vm sz fit low
    by (auto simp: grow_def with_root_def Let_def kbind_def on_vm_def pmod_def split: if_splits prod.splits outcome.splits dest!: grow_sizes)
qed

lemma low_shm_pages: "shm_pages n pages s = (r, s') \<Longrightarrow> above s' = above s"
proof (induction n arbitrary: pages s)
  case (Suc n)
  have k: "above t' = above t" if "kbind (kfold (\<lambda>pa. on_vm (drop_page pa)) pages) (\<lambda>_. kfail e :: nat list pop) t = (r', t')" for e r' t t'
    by (rule keepsD [where v = above and m = "kbind (kfold (\<lambda>pa. on_vm (drop_page pa)) pages) (\<lambda>_. kfail e)", OF _ that]) (intro keeps)
  from Suc.prems show ?case by (auto split: option.splits prod.splits outcome.splits dest!: Suc.IH k)
qed simp

lemma mem_ok_shm_create:
  assumes ok: "mem_ok me s" and m: "shm_create n s = (r, s')" "n < 2 ^ 64"
  shows "mem_ok me s'"
proof -
  have new: "mem_ok me (s1\<lparr>p_seg := (p_seg s1)(h := \<lparr>sg_size = n, sg_pages = ps, sg_refs = 1\<rparr>), p_next_seg := k, p_shm := t\<rparr>)"
    if "mem_ok me s1" for s1 h ps k t using that m(2) by (simp add: mem_ok_def)
  have keep: "mem_ok me t' \<longleftrightarrow> mem_ok me t" if "kbind (seg_drop h) (\<lambda>_. kfail e :: nat pop) t = (r', t')" for h e r' t t'
    by (rule mem_ok_above) (rule keepsD [where v = above and m = "kbind (seg_drop h) (\<lambda>_. kfail e :: nat pop)", OF _ that], intro keeps)
  show ?thesis
  proof (cases "n = 0 \<or> pg_up n div PGSIZE = 0 \<or> SHM_MAX_PAGES < pg_up n div PGSIZE")
    case True
    then show ?thesis using ok m(1) by (auto simp: shm_create_def Let_def kfail_def)
  next
    case False
    obtain q s1 where q: "shm_pages (pg_up n div PGSIZE) [] s = (q, s1)" by fastforce
    have s1: "mem_ok me s1" using ok mem_ok_above [OF low_shm_pages [OF q]] by simp
    note m' = m(1) [unfolded shm_create_def Let_def if_not_P [OF False] kbind_def [of "shm_pages (pg_up n div PGSIZE) []"] q prod.case]
    show ?thesis
    proof (cases q)
      case (Ok ps)
      let ?s2 = "s1\<lparr>p_seg := (p_seg s1)(p_next_seg s1 := \<lparr>sg_size = n, sg_pages = ps, sg_refs = 1\<rparr>), p_next_seg := p_next_seg s1 + 1\<rparr>"
      have "mem_ok me ?s2" using new [OF s1, where h = "p_next_seg s1" and ps = ps and k = "p_next_seg s1 + 1" and t = "p_shm s1"] by (simp add: mem_ok_def)
      then show ?thesis using m' [unfolded Ok outcome.case] new [OF s1] keep by (auto split: option.splits)
    qed (use m' s1 in auto)
  qed
qed

lemma mem_ok_shm_detach: "mem_ok me s \<Longrightarrow> shm_detach me uva s = (r, s') \<Longrightarrow> r \<noteq> Panic \<Longrightarrow> mem_ok me s'"
  by (auto simp: shm_detach_def split: if_splits option.splits dest: mem_ok_munmap)

section \<open>The properties\<close>

text \<open>The calls by which a process changes its memory; lengths are machine words.\<close>

inductive mem_step :: "nat \<Rightarrow> pst \<Rightarrow> pst \<Rightarrow> bool" for me where
  Mmap: "mmap me uva len prot flags fd off s = (r, s') \<Longrightarrow> r \<noteq> Panic \<Longrightarrow> len < 2 ^ 64 \<Longrightarrow> mem_step me s s'"
| Munmap: "munmap me uva len s = (r, s') \<Longrightarrow> r \<noteq> Panic \<Longrightarrow> mem_step me s s'"
| Grow: "grow me n s = (r, s') \<Longrightarrow> r \<noteq> Panic \<Longrightarrow> mem_step me s s'"
| Create: "shm_create n s = (r, s') \<Longrightarrow> n < 2 ^ 64 \<Longrightarrow> mem_step me s s'"
| Attach: "shm_attach me i prot s = (r, s') \<Longrightarrow> r \<noteq> Panic \<Longrightarrow> mem_step me s s'"
| Detach: "shm_detach me uva s = (r, s') \<Longrightarrow> r \<noteq> Panic \<Longrightarrow> mem_step me s s'"

lemma mem_ok_step: "mem_step me s s' \<Longrightarrow> mem_ok me s \<Longrightarrow> mem_ok me s'"
  by (induction rule: mem_step.induct)
    (auto dest: mem_ok_mmap mem_ok_munmap mem_ok_grow mem_ok_shm_create mem_ok_shm_attach mem_ok_shm_detach)

text \<open>
  C25. Whatever sequence of \<^verbatim>\<open>mmap\<close>, \<^verbatim>\<open>munmap\<close>, \<^verbatim>\<open>sbrk\<close>, \<^verbatim>\<open>shm_create\<close>, \<^verbatim>\<open>shm_attach\<close> and
  \<^verbatim>\<open>shm_detach\<close> a process performs, successfully or not, its areas remain page aligned, pairwise apart,
  below the trap frames and above the base of the mappings, and the memory below the break never reaches
  that base: no page belongs to two areas, or to an area and the heap.
\<close>

theorem areas_stay_apart:
  assumes "mem_ok me s" "(mem_step me)\<^sup>*\<^sup>* s s'"
  shows "mem_ok me s'"
  using assms(2,1) by (induction rule: rtranclp_induct) (auto intro: mem_ok_step)

text \<open>
  A successful \<^verbatim>\<open>munmap\<close> of a range that ends below the top of the address space removes every area
  from exactly that range, rounded up to pages: an address outside keeps its protection, its flags and
  its place in the file, also when the area around it was cut or split in two.
\<close>

lemma munmap_exact:
  assumes ok: "mem_ok me s" and m: "munmap me uva len s = (Ok (), s')" and n: "uva + page_up len < 2 ^ 64"
  shows "area_at (pd_vmas (pdata s' me)) va =
    (if uva \<le> va \<and> va < uva + page_up len then None else area_at (pd_vmas (pdata s me)) va)"
proof -
  have a: "areas_ok (pd_mmap_base (pdata s me)) (user_mem_top NPROC) (pd_vmas (pdata s me))" "me < length (p_data s)"
    using ok by (simp_all add: mem_ok_def)
  have "Ok () \<noteq> (Panic :: unit result)" by simp
  with m show ?thesis
  proof (cases rule: munmap_result)
    case (run root q vs wbs t)
    have e: "(uva + pg_up len) mod 2 ^ 64 = uva + page_up len" using n pg_up_small [of len] by simp
    have dv: "PGSIZE dvd uva + page_up len" using run(1) pg_dvd(1) by simp
    have "pd_vmas (pdata s' me) = vs" using above_fields [OF run(6)] a(2) by (simp add: upd_data_def)
    then show ?thesis using munmap_loop_areas [OF a(1) run(1) dv run(3) [unfolded e] run(4)] run(5) by simp
  qed simp
qed

text \<open>
  Unmapping the last pages of an area whose length is not a multiple of the page size shortens the
  length by whole pages: the last page that remains was inside the requested length before and is partly
  outside now, so its last bytes are no longer written back to the file.
\<close>

lemma munmap_tail_shrinks:
  assumes "mem_ok me s" "pd_vmas (pdata s me) = [v]" "\<not> PGSIZE dvd v_len v" "v_start v < a" "a < v_end_pg v"
    "munmap me a (v_end_pg v - a) s = (Ok (), s')"
  shows "\<exists>w. pd_vmas (pdata s' me) = [w] \<and> v_start w = v_start v \<and> v_end_pg w = a \<and> a \<le> v_end_req v \<and> v_end_req w < a"
proof -
  have v: "area_ok (pd_mmap_base (pdata s me)) (user_mem_top NPROC) v" "me < length (p_data s)"
    using assms(1,2) by (simp_all add: mem_ok_def areas_ok_def)
  have V: "PGSIZE dvd v_start v" "v_end_pg v \<le> user_mem_top NPROC" using v(1) by (simp_all add: area_ok_def)
  have dv: "PGSIZE dvd v_end_pg v" using V(1) pg_dvd(1) by (simp add: v_end_pg_def v_len_pg_def)
  have "Ok () \<noteq> (Panic :: unit result)" by simp
  with assms(6) show ?thesis
  proof (cases rule: munmap_result)
    case (run root q vs wbs t)
    have up: "page_up (v_end_pg v - a) = v_end_pg v - a"
      by (rule antisym) (use page_up_least [OF le_refl, of "v_end_pg v - a"] dv run(1) pg_dvd(3) in auto)
    have top: "user_mem_top NPROC < 2 ^ 64" by (simp add: layout_defs NPROC_def PGSIZE_def)
    have "page_up (v_end_pg v - a) < 2 ^ 64" unfolding up using top V(2) by linarith
    from pg_up_small [OF this] have e: "(a + pg_up (v_end_pg v - a)) mod 2 ^ 64 = v_end_pg v" using up assms(5) V(2) top by simp
    have w: "pd_vmas (pdata s' me) = vs" using above_fields [OF run(6)] v(2) by (simp add: upd_data_def)
    have l: "v_end_pg v = v_start v + page_up (v_len v)" by (simp add: v_end_pg_def v_len_pg_def)
    have "v_len v < page_up (v_len v)" using pg_dvd(1,3) [of "v_len v"] assms(3) by (metis le_neq_implies_less)
    moreover have "a + PGSIZE \<le> v_end_pg v" by (rule dvd_less_le [OF run(1) dv assms(5)])
    ultimately have len: "v_len v - (v_end_pg v - a) < a - v_start v" "a \<le> v_end_req v"
      using l pg_dvd(4) [of "v_len v"] assms(4) by (auto simp: v_end_req_def)
    from run(3) [unfolded assms(2) e] run(4) have "vs = vma_cut v a (v_end_pg v)"
    proof (cases rule: munmap_loop_Cons)
      case (stop x)
      then show ?thesis using run(5) by simp
    qed (use assms(4,5) in auto)
    then have "vs = [left_part v (v_len v - (v_end_pg v - a))]" using assms(4) by (simp add: vma_cut_def left_part_def)
    moreover have "page_up (v_len v - (v_end_pg v - a)) = a - v_start v"
      using page_up_diff [of "v_end_pg v - a" "v_len v"] dv run(1) l assms(4,5) by simp
    ultimately show ?thesis using w len part_ends(1,2) assms(4) by (auto simp: v_end_req_def part_fields)
  qed simp
qed

text \<open>
  The areas and the base of the mappings belong to a thread, the page table to all threads of the
  process. A thread starts with the base of an empty process, so two threads that map something at the
  same base are given the same addresses.
\<close>

lemma threads_collide:
  assumes i: "me < length (p_data s)" "c < length (p_data s)" "me \<noteq> c"
    and a: "pd_aspace (pdata s me) = Some a" "pd_aspace (pdata s c) = Some a" "pd_mmap_base (pdata s c) = pd_mmap_base (pdata s me)"
    and m: "mmap me 0 len prot flags fd off s = (Ok x, s')" "flags AND MAP_ANON \<noteq> 0"
  shows "fst (mmap c 0 len prot flags fd off s') = Ok x"
proof -
  obtain s1 v where f: "alloc_mmap_va me (as_sz (p_as s a)) len s = (Ok x, s1)" "s' = upd_data me (\<lambda>d. d\<lparr>pd_vmas := pd_vmas d @ [v]\<rparr>) (vma_clone v s1)"
    "\<not> (len = 0 \<or> \<not> PGSIZE dvd off)" "(flags AND MAP_SHARED \<noteq> 0) \<noteq> (flags AND MAP_PRIVATE \<noteq> 0)"
    using m a(1) by (auto simp: mmap_def Let_def split: if_splits outcome.splits option.splits prod.splits)
  have s1: "s1 = upd_data me (\<lambda>d. d\<lparr>pd_mmap_base := x\<rparr>) s" using f(1) by (auto simp: alloc_mmap_va_def Let_def split: if_splits)
  have "above s' = above (upd_data me (\<lambda>d. d\<lparr>pd_mmap_base := x, pd_vmas := pd_vmas d @ [v]\<rparr>) s)"
    unfolding f(2) s1 above_upd_clone upd_data_twice by (simp add: comp_def)
  from above_fields [OF this] have c: "pdata s' c = pdata s c" "p_as s' = p_as s" using i by (simp_all add: upd_data_def)
  have "fst (alloc_mmap_va c (as_sz (p_as s a)) len s') = Ok x"
    using f(1) c(1) a(3) by (auto simp: alloc_mmap_va_def Let_def split: if_splits)
  then show ?thesis using f(3,4) m(2) c a(2)
    by (cases "alloc_mmap_va c (as_sz (p_as s a)) len s'") (auto simp: mmap_def mmap_file_def Let_def)
qed

section \<open>An example\<close>

text \<open>A process of size 0 with nothing mapped, and a private anonymous area of two pages and a half.\<close>

definition demo_mem :: pst where
  "demo_mem = \<lparr>p_inner = [procinner_new], p_data = [procdata_new\<lparr>pd_aspace := Some 0\<rparr>],
     p_parents = [None], p_nextid = 2, p_init = Some 0, p_rq = runqs_new, p_as = (\<lambda>_. \<lparr>as_root = Some 0, as_sz = 0\<rparr>), p_next_as = 1,
     p_vm = \<lparr>vm_pte = (\<lambda>_ _. 0), vm_page = (\<lambda>_. []), vm_refs = [], vm_free = []\<rparr>, p_ft = undefined,
     p_seg = (\<lambda>_. \<lparr>sg_size = 0, sg_pages = [], sg_refs = 0\<rparr>), p_next_seg = 0, p_shm = []\<rparr>"

definition demo_area :: vma where
  "demo_area = \<lparr>v_start = user_mem_top NPROC - 12288, v_len = 10240, v_prot = PROT_READ, v_flags = MAP_PRIVATE OR MAP_ANON,
     v_file = None, v_off = 0, v_shm = None\<rparr>"

definition demo_mapped :: pst where
  "demo_mapped = upd_data 0 (\<lambda>d. d\<lparr>pd_mmap_base := v_start demo_area, pd_vmas := [demo_area]\<rparr>) demo_mem"

lemma demo_mem_ok: "mem_ok 0 demo_mem"
  by (simp add: mem_ok_def demo_mem_def procdata_new_def areas_ok_def user_mem_top_def TRAMPOLINE_def MAXVA_def NPROC_def PGSIZE_def page_up_def)

definition demo_cut :: pst where
  "demo_cut = upd_data 0 (\<lambda>d. d\<lparr>pd_vmas := [demo_area\<lparr>v_len := 6144\<rparr>]\<rparr>) demo_mapped"

lemma demo_pages: "unat (pgroundup 10240) = 12288" "unat (pgroundup 4096) = 4096" "user_mem_top NPROC = 274877837312"
proof -
  show "unat (pgroundup 10240) = 12288" "unat (pgroundup 4096) = 4096"
    using pg_up_small [of 10240] pg_up_small [of 4096] by (simp_all add: page_up_def PGSIZE_def)
  show "user_mem_top NPROC = 274877837312" by (simp add: user_mem_top_def TRAMPOLINE_def MAXVA_def NPROC_def PGSIZE_def)
qed

lemma demo_base: "pd_mmap_base procdata_new = 274877837312"
  using demo_pages(3) by (simp add: procdata_new_def)

lemma demo_mmap: "mmap 0 0 10240 PROT_READ (MAP_PRIVATE OR MAP_ANON) 0 0 demo_mem = (Ok (v_start demo_area), demo_mapped)"
proof -
  have f: "mmap_file 0 PROT_READ (MAP_PRIVATE OR MAP_ANON) 0 demo_mem = Ok None"
    by (simp add: mmap_file_def MAP_PRIVATE_def MAP_ANON_def)
  have a: "alloc_mmap_va 0 0 10240 demo_mem = (Ok 274877825024, upd_data 0 (\<lambda>d. d\<lparr>pd_mmap_base := 274877825024\<rparr>) demo_mem)"
    by (simp add: alloc_mmap_va_def Let_def demo_pages demo_mem_def demo_base page_down_def page_up_def PGSIZE_def)
  have d: "demo_area = \<lparr>v_start = 274877825024, v_len = 10240, v_prot = PROT_READ, v_flags = MAP_PRIVATE OR MAP_ANON,
     v_file = None, v_off = 0, v_shm = None\<rparr>" by (simp add: demo_area_def demo_pages)
  have m: "pd_aspace (pdata demo_mem 0) = Some 0" "as_sz (p_as demo_mem 0) = 0" "pd_vmas (pdata demo_mem 0) = []"
    by (simp_all add: demo_mem_def procdata_new_def)
  show ?thesis
    by (simp add: mmap_def f a d m Let_def demo_mapped_def upd_data_twice comp_def vma_clone_def)
      (simp add: MAP_PRIVATE_def MAP_ANON_def MAP_SHARED_def demo_mem_def upd_data_def procdata_new_def)
qed

lemma demo_munmap: "munmap 0 274877833216 4096 demo_mapped = (Ok (), demo_cut)"
proof -
  have d: "pd_aspace (pdata demo_mapped 0) = Some 0" "as_root (p_as demo_mapped 0) = Some 0" "pd_vmas (pdata demo_mapped 0) = [demo_area]"
    "v_start demo_area = 274877825024" "v_end_pg demo_area = 274877837312" "v_len demo_area = 10240" "v_is_shm demo_area = False"
    by (simp_all add: demo_mapped_def demo_mem_def upd_data_def demo_area_def demo_pages v_end_pg_def v_len_pg_def page_up_def PGSIZE_def v_is_shm_def)
  have vm: "walk 0 274877833216 False (p_vm demo_mapped) = (Ok None, p_vm demo_mapped)"
    by (simp add: demo_mapped_def demo_mem_def upd_data_def walk_def walk_down_def get_pte_def pte_is_v_def MAXVA_def)
  have r: "munmap_vma_range 0 demo_area 274877833216 274877837312 [] demo_mapped = (Ok (), [], demo_mapped)"
    by (simp add: munmap_vma_range.simps vm PGSIZE_def)
  show ?thesis
    by (simp add: munmap_def with_root_def d r demo_pages vma_cut_def vma_keep_def PGSIZE_def demo_cut_def)
qed

lemma demo_step: "mem_step 0 demo_mem demo_mapped"
  using demo_mmap by (rule mem_step.Mmap) simp_all

lemma demo_mapped_ok: "mem_ok 0 demo_mapped"
  by (rule mem_ok_step [OF demo_step demo_mem_ok])

theorem areas_stay_apart_witness: "mem_ok 0 demo_mapped \<and> pd_vmas (pdata demo_mapped 0) = [demo_area]"
  using areas_stay_apart [OF demo_mem_ok r_into_rtranclp [of "mem_step 0", OF demo_step]]
  by (simp add: demo_mapped_def upd_data_def demo_mem_def)

text \<open>The same process with a thread.\<close>

definition demo_pair :: pst where
  "demo_pair = demo_mem\<lparr>p_data := [procdata_new\<lparr>pd_aspace := Some 0\<rparr>, procdata_new\<lparr>pd_aspace := Some 0, pd_is_thread := True\<rparr>]\<rparr>"

end
