(* ===== verification/Ipc.thy ===== *)
theory Ipc
  imports Semaphore
begin

text \<open>
  Semaphores by number (the second half of \<^verbatim>\<open>crates/kernel/src/ipc.rs\<close>): a table of at most
  \<^verbatim>\<open>NSEM\<close> semaphores. A caller that waits holds a reference to the semaphore, so the semaphores
  live in a store and the table holds handles: closing empties the slot and marks the semaphore.
\<close>

section \<open>The table\<close>

definition isize_max :: int where "isize_max = 2 ^ 63 - 1"

record sems =
  st_tab :: "nat option list"
  st_sem :: "nat \<Rightarrow> semaphore"
  st_next :: nat

definition sems_new :: "(nat \<Rightarrow> semaphore) \<Rightarrow> sems" where
  "sems_new store = \<lparr>st_tab = replicate NSEM None, st_sem = store, st_next = 0\<rparr>"

fun sem_slot :: "nat option list \<Rightarrow> nat \<Rightarrow> nat option" where
  "sem_slot [] i = None"
| "sem_slot (None # xs) i = Some i"
| "sem_slot (Some _ # xs) i = sem_slot xs (i + 1)"

definition sem_create :: "nat \<Rightarrow> sems \<Rightarrow> nat result \<times> sems" where
  "sem_create value s =
     (if isize_max < int value then (Err InvalidArgument, s)
      else
        (case sem_new_with_count (int value) isize_max of
           Ok sem \<Rightarrow>
             (case sem_slot (st_tab s) 0 of
                Some i \<Rightarrow> (Ok (i + 1), s\<lparr>st_tab := (st_tab s)[i := Some (st_next s)], st_sem := (st_sem s)(st_next s := sem), st_next := st_next s + 1\<rparr>)
              | None \<Rightarrow> (Err NoBufferSpace, s))
         | Err e \<Rightarrow> (Err e, s)
         | Panic \<Rightarrow> (Panic, s)))"

definition sem_get :: "nat \<Rightarrow> sems \<Rightarrow> nat result" where
  "sem_get i s =
     (if i = 0 then Err InvalidArgument
      else if i - 1 < length (st_tab s) then (case st_tab s ! (i - 1) of Some h \<Rightarrow> Ok h | None \<Rightarrow> Err NotFound)
      else Err NotFound)"

text \<open>Operations on the semaphore with a number. A \<^verbatim>\<open>wait\<close> that sleeps goes on with the handle.\<close>

definition wait_handle :: "bool \<Rightarrow> nat \<Rightarrow> sems \<Rightarrow> unit result option \<times> sems" where
  "wait_handle killed h s = (case sem_wait killed (st_sem s h) of (r, x) \<Rightarrow> (r, s\<lparr>st_sem := (st_sem s)(h := x)\<rparr>))"

definition sem_wait_id :: "bool \<Rightarrow> nat \<Rightarrow> sems \<Rightarrow> unit result option \<times> sems" where
  "sem_wait_id killed i s =
     (case sem_get i s of
        Ok h \<Rightarrow> wait_handle killed h s
      | Err e \<Rightarrow> (Some (Err e), s)
      | Panic \<Rightarrow> (Some Panic, s))"

definition sem_try_wait_id :: "nat \<Rightarrow> sems \<Rightarrow> nat result \<times> sems" where
  "sem_try_wait_id i s =
     (case sem_get i s of
        Ok h \<Rightarrow>
          (case sem_try_wait (st_sem s h) of
             (r, x) \<Rightarrow> (case r of Ok b \<Rightarrow> Ok (of_bool b) | Err e \<Rightarrow> Err e | Panic \<Rightarrow> Panic, s\<lparr>st_sem := (st_sem s)(h := x)\<rparr>))
      | Err e \<Rightarrow> (Err e, s)
      | Panic \<Rightarrow> (Panic, s))"

definition sem_post_id :: "nat \<Rightarrow> sems \<Rightarrow> unit result \<times> sems" where
  "sem_post_id i s =
     (case sem_get i s of
        Ok h \<Rightarrow> (case sem_post (st_sem s h) of (r, x) \<Rightarrow> (r, s\<lparr>st_sem := (st_sem s)(h := x)\<rparr>))
      | Err e \<Rightarrow> (Err e, s)
      | Panic \<Rightarrow> (Panic, s))"

definition sem_close_id :: "nat \<Rightarrow> sems \<Rightarrow> unit result \<times> sems" where
  "sem_close_id i s =
     (if i = 0 \<or> length (st_tab s) \<le> i - 1 then (Err InvalidArgument, s)
      else
        (case st_tab s ! (i - 1) of
           Some h \<Rightarrow> (Ok (), s\<lparr>st_tab := (st_tab s)[i - 1 := None], st_sem := (st_sem s)(h := sem_close (st_sem s h))\<rparr>)
         | None \<Rightarrow> (Err NotFound, s)))"

section \<open>The table stays well formed\<close>

text \<open>Every slot has its own semaphore, which is open; every semaphore ever created counts within its
  bounds; one that is in no slot is closed.\<close>

definition sems_ok :: "sems \<Rightarrow> bool" where
  "sems_ok s \<longleftrightarrow> length (st_tab s) = NSEM \<and>
     (\<forall>i < NSEM. \<forall>h. st_tab s ! i = Some h \<longrightarrow> h < st_next s \<and> \<not> sem_closed (st_sem s h)) \<and>
     (\<forall>i < NSEM. \<forall>j < NSEM. \<forall>h. st_tab s ! i = Some h \<longrightarrow> st_tab s ! j = Some h \<longrightarrow> i = j) \<and>
     (\<forall>h < st_next s. sem_inv (st_sem s h) \<and> sem_max (st_sem s h) = isize_max \<and>
        (sem_closed (st_sem s h) \<or> (\<exists>i < NSEM. st_tab s ! i = Some h)))"

lemma sem_slot_Some: "sem_slot xs n = Some i \<Longrightarrow> n \<le> i \<and> i - n < length xs \<and> xs ! (i - n) = None"
proof (induction xs n rule: sem_slot.induct)
  case (3 h xs n)
  then have "Suc n \<le> i" "i - Suc n < length xs" "xs ! (i - Suc n) = None" by simp_all
  moreover from this have "i - n = Suc (i - Suc n)" by simp
  ultimately show ?case by simp
qed auto

lemma sem_slot_None: "sem_slot xs n = None \<longleftrightarrow> None \<notin> set xs"
  by (induction xs n rule: sem_slot.induct) auto

lemma sem_get_ok: "sem_get i s = Ok h \<longleftrightarrow> 0 < i \<and> i - 1 < length (st_tab s) \<and> st_tab s ! (i - 1) = Some h"
  by (auto simp: sem_get_def split: option.splits)

lemma sem_get_no_panic: "sem_get i s \<noteq> Panic"
  by (simp add: sem_get_def split: option.splits)

text \<open>An operation on one semaphore that keeps its bounds and does not close it.\<close>

lemma sems_ok_set:
  assumes "sems_ok s" "h < st_next s \<Longrightarrow> sem_inv x \<and> sem_max x = isize_max \<and> (sem_closed x \<longleftrightarrow> sem_closed (st_sem s h))"
  shows "sems_ok (s\<lparr>st_sem := (st_sem s)(h := x)\<rparr>)"
  using assms unfolding sems_ok_def by auto

lemma handle_ok: "sems_ok s \<Longrightarrow> sem_get i s = Ok h \<Longrightarrow> h < st_next s \<and> \<not> sem_closed (st_sem s h)"
  by (auto simp: sems_ok_def sem_get_ok)

lemma sem_ops_bounds:
  assumes "sem_inv x"
  shows "sem_inv (snd (sem_wait k x)) \<and> sem_max (snd (sem_wait k x)) = sem_max x \<and> sem_closed (snd (sem_wait k x)) = sem_closed x"
    "sem_inv (snd (sem_try_wait x)) \<and> sem_max (snd (sem_try_wait x)) = sem_max x \<and> sem_closed (snd (sem_try_wait x)) = sem_closed x"
    "sem_inv (snd (sem_post x)) \<and> sem_max (snd (sem_post x)) = sem_max x \<and> sem_closed (snd (sem_post x)) = sem_closed x"
  using assms by (auto simp: sem_op_defs)

lemma sems_ok_wait: "sems_ok s \<Longrightarrow> sems_ok (snd (wait_handle k h s))"
  using sem_ops_bounds(1) [of "st_sem s h" k] by (auto simp: wait_handle_def sems_ok_def split: prod.splits)

lemma sems_ok_ids:
  assumes "sems_ok s"
  shows "sems_ok (snd (sem_wait_id k i s))" "sems_ok (snd (sem_try_wait_id i s))" "sems_ok (snd (sem_post_id i s))"
proof -
  show "sems_ok (snd (sem_wait_id k i s))" using assms sems_ok_wait by (simp add: sem_wait_id_def split: outcome.splits)
  have b: "h < st_next s \<Longrightarrow> sem_inv (st_sem s h) \<and> sem_max (st_sem s h) = isize_max" for h using assms by (simp add: sems_ok_def)
  show "sems_ok (snd (sem_try_wait_id i s))" "sems_ok (snd (sem_post_id i s))"
    using assms b sem_ops_bounds by (auto simp: sem_try_wait_id_def sem_post_id_def intro!: sems_ok_set split: outcome.splits prod.splits)
      (metis snd_conv)+
qed

lemma sems_ok_create: "sems_ok s \<Longrightarrow> sems_ok (snd (sem_create v s))"
proof -
  assume ok: "sems_ok s"
  show ?thesis
  proof (cases "int v \<le> isize_max \<and> sem_slot (st_tab s) 0 \<noteq> None")
    case True
    then obtain i where i: "sem_slot (st_tab s) 0 = Some i" by auto
    from sem_slot_Some [OF this] ok have i': "i < NSEM" "st_tab s ! i = None" by (simp_all add: sems_ok_def)
    define x where "x = \<lparr>sem_count = int v, sem_closed = False, sem_max = isize_max\<rparr>"
    have c: "sem_create v s = (Ok (i + 1), s\<lparr>st_tab := (st_tab s)[i := Some (st_next s)], st_sem := (st_sem s)(st_next s := x), st_next := st_next s + 1\<rparr>)"
      using True i by (simp add: sem_create_def sem_new_with_count_def x_def)
    have x: "sem_inv x" "sem_max x = isize_max" "\<not> sem_closed x" using True by (simp_all add: x_def sem_inv_def)
    have "\<exists>j < NSEM. (st_tab s)[i := Some (st_next s)] ! j = Some h" if "h < st_next s" "\<not> sem_closed (st_sem s h)" for h
    proof -
      from ok that obtain j where "j < NSEM" "st_tab s ! j = Some h" unfolding sems_ok_def by blast
      moreover have "j \<noteq> i" using i'(2) calculation by auto
      ultimately show ?thesis by (intro exI [of _ j]) simp
    qed
    then have *: "sem_closed (st_sem s h) \<or> (\<exists>j < NSEM. (st_tab s)[i := Some (st_next s)] ! j = Some h)" if "h < st_next s" for h
      using that by blast
    have "\<exists>j < NSEM. (st_tab s)[i := Some (st_next s)] ! j = Some (st_next s)" using i' ok by (intro exI [of _ i]) (simp add: sems_ok_def)
    with * ok i' x show ?thesis unfolding c sems_ok_def by (auto simp: nth_list_update less_Suc_eq split: if_splits)
  next
    case False
    then show ?thesis using ok by (auto simp: sem_create_def split: option.splits outcome.splits)
  qed
qed

lemma sems_ok_close: "sems_ok s \<Longrightarrow> sems_ok (snd (sem_close_id i s))"
proof -
  assume ok: "sems_ok s"
  show ?thesis
  proof (cases "0 < i \<and> i - 1 < NSEM \<and> st_tab s ! (i - 1) \<noteq> None")
    case True
    then obtain h where h: "st_tab s ! (i - 1) = Some h" by auto
    let ?i = "i - 1" and ?t = "s\<lparr>st_tab := (st_tab s)[i - 1 := None], st_sem := (st_sem s)(h := sem_close (st_sem s h))\<rparr>"
    have c: "sem_close_id i s = (Ok (), ?t)" using True h ok by (simp add: sem_close_id_def sems_ok_def)
    have uniq: "j = ?i" if "j < NSEM" "st_tab s ! j = Some h" for j using ok that h True unfolding sems_ok_def by blast
    have keep: "\<exists>j < NSEM. st_tab ?t ! j = Some g" if g: "g < st_next s" "g \<noteq> h" "\<not> sem_closed (st_sem s g)" for g
    proof -
      from ok g obtain j where j: "j < NSEM" "st_tab s ! j = Some g" unfolding sems_ok_def by blast
      then have "j \<noteq> ?i" using h g(2) by auto
      then show ?thesis using j by (intro exI [of _ j]) simp
    qed
    have bounds: "sem_inv (sem_close x) = sem_inv x" "sem_max (sem_close x) = sem_max x" "sem_closed (sem_close x)" for x
      by (simp_all add: sem_op_defs)
    have tab: "st_tab ?t ! j = Some g \<Longrightarrow> j < NSEM \<Longrightarrow> j \<noteq> ?i \<and> st_tab s ! j = Some g \<and> g \<noteq> h" for j g
    proof -
      assume a: "st_tab ?t ! j = Some g" "j < NSEM"
      have l: "length (st_tab s) = NSEM" using ok by (simp add: sems_ok_def)
      have ne: "j \<noteq> ?i" using a l by auto
      then have "st_tab s ! j = Some g" using a l by simp
      with uniq [OF a(2)] ne show ?thesis by auto
    qed
    show ?thesis unfolding c snd_conv sems_ok_def
    proof (intro conjI allI impI)
      show "length (st_tab ?t) = NSEM" using ok by (simp add: sems_ok_def)
      fix j k g
      show "j < NSEM \<Longrightarrow> st_tab ?t ! j = Some g \<Longrightarrow> g < st_next ?t" "j < NSEM \<Longrightarrow> st_tab ?t ! j = Some g \<Longrightarrow> \<not> sem_closed (st_sem ?t g)"
        using tab [of j g] ok by (auto simp: sems_ok_def)
      show "j < NSEM \<Longrightarrow> k < NSEM \<Longrightarrow> st_tab ?t ! j = Some g \<Longrightarrow> st_tab ?t ! k = Some g \<Longrightarrow> j = k"
        using tab [of j g] tab [of k g] ok unfolding sems_ok_def by blast
      show "g < st_next ?t \<Longrightarrow> sem_inv (st_sem ?t g)" "g < st_next ?t \<Longrightarrow> sem_max (st_sem ?t g) = isize_max"
        using ok bounds by (auto simp: sems_ok_def)
      show "g < st_next ?t \<Longrightarrow> sem_closed (st_sem ?t g) \<or> (\<exists>i < NSEM. st_tab ?t ! i = Some g)"
        using keep [of g] bounds by auto
    qed
  next
    case False
    then show ?thesis using ok by (auto simp: sem_close_id_def sems_ok_def split: option.splits)
  qed
qed

inductive sems_step :: "sems \<Rightarrow> sems \<Rightarrow> bool" where
  Create: "sem_create v s = (r, s') \<Longrightarrow> sems_step s s'"
| Wait: "sem_wait_id killed i s = (w, s') \<Longrightarrow> sems_step s s'"
| Again: "wait_handle killed h s = (w, s') \<Longrightarrow> h < st_next s \<Longrightarrow> sems_step s s'"
| TryWait: "sem_try_wait_id i s = (r, s') \<Longrightarrow> sems_step s s'"
| Post: "sem_post_id i s = (u, s') \<Longrightarrow> sems_step s s'"
| Close: "sem_close_id i s = (u, s') \<Longrightarrow> sems_step s s'"

lemma sems_ok_step: "sems_step s s' \<Longrightarrow> sems_ok s \<Longrightarrow> sems_ok s'"
  by (induction rule: sems_step.induct) (metis snd_conv sems_ok_ids sems_ok_create sems_ok_close sems_ok_wait)+

lemma sems_new_ok: "sems_ok (sems_new store)"
  by (simp add: sems_ok_def sems_new_def)

text \<open>
  C26. In every state the semaphore calls reach from the empty table, the number of a semaphore names one
  open semaphore, different numbers name different ones, every count is between 0 and the largest
  \<^verbatim>\<open>isize\<close>, and whoever still waits on a semaphore whose number was closed is told so instead of
  sleeping on.
\<close>

theorem sem_numbers_ok:
  assumes "sems_step\<^sup>*\<^sup>* (sems_new store) s"
  shows "sems_ok s \<and> (\<forall>h < st_next s. (\<forall>i. sem_get i s \<noteq> Ok h) \<longrightarrow> fst (wait_handle False h s) = Some (Err InvalidArgument))"
proof
  show ok: "sems_ok s" using assms by (induction rule: rtranclp_induct) (auto intro: sems_new_ok sems_ok_step)
  show "\<forall>h < st_next s. (\<forall>i. sem_get i s \<noteq> Ok h) \<longrightarrow> fst (wait_handle False h s) = Some (Err InvalidArgument)"
  proof (intro allI impI)
    fix h assume h: "h < st_next s" "\<forall>i. sem_get i s \<noteq> Ok h"
    have "st_tab s ! i \<noteq> Some h" if "i < NSEM" for i using h(2) [rule_format, of "Suc i"] that ok by (simp add: sem_get_ok sems_ok_def)
    then have "sem_closed (st_sem s h)" using ok h(1) unfolding sems_ok_def by blast
    then show "fst (wait_handle False h s) = Some (Err InvalidArgument)" by (simp add: wait_handle_def sem_wait_def)
  qed
qed

theorem sem_numbers_ok_witness:
  "\<exists>s. sems_step\<^sup>*\<^sup>* (sems_new undefined) s \<and> st_next s = 1 \<and> (\<forall>i. sem_get i s \<noteq> Ok 0) \<and> fst (wait_handle False 0 s) = Some (Err InvalidArgument)"
proof -
  let ?x = "\<lparr>sem_count = 0, sem_closed = False, sem_max = isize_max\<rparr>"
  define a where "a = \<lparr>st_tab = Some 0 # replicate 63 None, st_sem = undefined(0 := ?x), st_next = 1\<rparr>"
  define b where "b = \<lparr>st_tab = replicate NSEM None, st_sem = undefined(0 := sem_close ?x), st_next = 1\<rparr>"
  have n: "replicate NSEM None = None # replicate 63 (None :: nat option)" by (simp add: NSEM_def numeral_eq_Suc)
  have "sem_create 0 (sems_new undefined) = (Ok 1, a)"
    by (simp add: sem_create_def sems_new_def n sem_new_with_count_def isize_max_def a_def)
  then have 1: "sems_step (sems_new undefined) a" by (rule Create)
  have "sem_close_id 1 a = (Ok (), b)" by (simp add: sem_close_id_def a_def b_def n)
  then have "sems_step a b" by (rule Close)
  with 1 have r: "sems_step\<^sup>*\<^sup>* (sems_new undefined) b" by (meson rtranclp.rtrancl_into_rtrancl rtranclp.rtrancl_refl)
  have g: "\<forall>i. sem_get i b \<noteq> Ok 0" by (simp add: sem_get_ok b_def)
  have "st_next b = 1" by (simp add: b_def)
  with r g sem_numbers_ok [OF r] show ?thesis by (metis zero_less_one)
qed

end
