(* ===== verification/Net_Packet.thy ===== *)
theory Net_Packet
  imports Kalloc Bytes Errors
begin

text \<open>
  The packet formats of \<^verbatim>\<open>crates/kernel/src/net.rs\<close>: Ethernet frames, ARP, the IPv4 header, UDP
  and TCP segments, and the Internet checksum. Reading a part of a packet that is not there would be an
  index error; \<open>need\<close> stands before every group of reads.
\<close>

unbundle bit_operations_syntax

section \<open>Numbers in network order\<close>

definition be_bytes :: "nat \<Rightarrow> 'a::len word \<Rightarrow> byte list" where
  "be_bytes n w = rev (le_bytes n w)"

definition of_be :: "byte list \<Rightarrow> 'a::len word" where
  "of_be bs = of_le (rev bs)"

lemma length_be_bytes [simp]: "length (be_bytes n w) = n"
  by (simp add: be_bytes_def)

lemma of_be_be_bytes [simp]: "LENGTH('a::len) = 8 * n \<Longrightarrow> of_be (be_bytes n w) = (w :: 'a word)"
  by (simp add: be_bytes_def of_be_def)

text \<open>A group of reads that reaches up to byte \<open>n\<close>.\<close>

definition need :: "nat \<Rightarrow> byte list \<Rightarrow> ('s \<Rightarrow> 'a result \<times> 's) \<Rightarrow> 's \<Rightarrow> 'a result \<times> 's" where
  "need n bs k s = (if n \<le> length bs then k s else (Panic, s))"

lemma need_ok [simp]: "n \<le> length bs \<Longrightarrow> need n bs k = k"
  by (rule ext) (simp add: need_def)

section \<open>Addresses\<close>

datatype ipv4 = Ipv4Addr byte byte byte byte

datatype sockaddr = SocketAddrV4 (sa_ip: ipv4) (sa_port: u16)

fun octets :: "ipv4 \<Rightarrow> byte list" where
  "octets (Ipv4Addr a b c d) = [a, b, c, d]"

definition ip_at :: "nat \<Rightarrow> byte list \<Rightarrow> ipv4" where
  "ip_at i bs = Ipv4Addr (bs ! i) (bs ! (i + 1)) (bs ! (i + 2)) (bs ! (i + 3))"

definition ipv4_u32 :: "ipv4 \<Rightarrow> u32" where
  "ipv4_u32 a = of_be (octets a)"

lemma length_octets [simp]: "length (octets a) = 4"
  by (cases a) simp

section \<open>The checksum\<close>

fun checksum_add :: "u32 \<Rightarrow> byte list \<Rightarrow> u32" where
  "checksum_add acc (x # y # xs) = checksum_add (acc + ucast (of_be [x, y] :: u16)) xs"
| "checksum_add acc [x] = acc + push_bit 8 (ucast x)"
| "checksum_add acc [] = acc"

lemma halves_less: "n div 2 ^ 16 \<noteq> 0 \<Longrightarrow> n mod 2 ^ 16 + n div 2 ^ 16 < (n :: nat)"
proof -
  have "r + q < 2 ^ 16 * q + r" if "q \<noteq> 0" for q r :: nat using that by simp
  moreover have "2 ^ 16 * (n div 2 ^ 16) + n mod 2 ^ 16 = n" by (rule mult_div_mod_eq)
  ultimately show "n div 2 ^ 16 \<noteq> 0 \<Longrightarrow> n mod 2 ^ 16 + n div 2 ^ 16 < n" by metis
qed

lemma finalize_decreases: "drop_bit 16 acc \<noteq> (0 :: u32) \<Longrightarrow> unat ((acc AND 0xffff) + drop_bit 16 acc) = unat acc mod 2 ^ 16 + unat acc div 2 ^ 16"
proof -
  have m: "unat (acc AND 0xffff) = unat acc mod 2 ^ 16"
  proof -
    have "acc AND 0xffff = take_bit 16 acc" by (simp add: take_bit_eq_mask mask_eq_exp_minus_1)
    then show ?thesis by (simp add: take_bit_eq_mod unat_mod_distrib)
  qed
  have d: "unat (drop_bit 16 acc) = unat acc div 2 ^ 16" by (simp add: drop_bit_eq_div unat_div_distrib)
  have "unat acc < 2 ^ 32" using unsigned_less [of acc] by simp
  then have "unat acc mod 2 ^ 16 + unat acc div 2 ^ 16 < 2 ^ 32" by simp
  then show ?thesis unfolding m [symmetric] d [symmetric] by (subst unat_add_lem [THEN iffD1]) simp_all
qed

function finalize_checksum :: "u32 \<Rightarrow> u16" where
  "finalize_checksum acc =
     (if drop_bit 16 acc \<noteq> 0 then finalize_checksum ((acc AND 0xffff) + drop_bit 16 acc) else NOT (ucast acc))"
  by pat_completeness auto
termination
proof (relation "measure unat")
  fix acc :: u32 assume a: "drop_bit 16 acc \<noteq> 0"
  have "unat acc div 2 ^ 16 \<noteq> 0"
  proof
    assume "unat acc div 2 ^ 16 = 0"
    then have "unat (drop_bit 16 acc) = 0" by (simp add: drop_bit_eq_div unat_div_distrib)
    then show False using a unsigned_eq_0_iff [where 'a = nat, of "drop_bit 16 acc"] by blast
  qed
  then have "unat acc mod 2 ^ 16 + unat acc div 2 ^ 16 < unat acc" by (rule halves_less)
  then show "((acc AND 0xffff) + drop_bit 16 acc, acc) \<in> measure unat"
    unfolding in_measure finalize_decreases [OF a] .
qed simp

declare finalize_checksum.simps [simp del]

definition checksum_parts :: "byte list list \<Rightarrow> u16" where
  "checksum_parts parts = finalize_checksum (fold (\<lambda>part acc. checksum_add acc part) parts 0)"

section \<open>Building packets\<close>

definition ETHERTYPE_ARP :: u16 where "ETHERTYPE_ARP = 0x0806"
definition ETHERTYPE_IPV4 :: u16 where "ETHERTYPE_IPV4 = 0x0800"
definition IP_PROTO_UDP :: byte where "IP_PROTO_UDP = 17"
definition IP_PROTO_TCP :: byte where "IP_PROTO_TCP = 6"
definition DEFAULT_TTL :: byte where "DEFAULT_TTL = 64"

definition build_eth_frame :: "byte list \<Rightarrow> byte list \<Rightarrow> u16 \<Rightarrow> byte list \<Rightarrow> byte list" where
  "build_eth_frame src_mac dst_mac ethertype payload = dst_mac @ src_mac @ be_bytes 2 ethertype @ payload"

definition build_ipv4_packet :: "byte \<Rightarrow> ipv4 \<Rightarrow> ipv4 \<Rightarrow> byte list \<Rightarrow> byte list" where
  "build_ipv4_packet proto src dst payload =
     (let total_len = 20 + length payload;
          a = [0x45, 0] @ be_bytes 2 (of_nat total_len :: u16) @ be_bytes 2 (0 :: u16) @ be_bytes 2 (0 :: u16) @ [DEFAULT_TTL, proto];
          b = octets src @ octets dst;
          csum = checksum_parts [a @ be_bytes 2 (0 :: u16) @ b]
      in a @ be_bytes 2 csum @ b @ payload)"

definition arp_packet :: "u16 \<Rightarrow> byte list \<Rightarrow> ipv4 \<Rightarrow> byte list \<Rightarrow> ipv4 \<Rightarrow> byte list" where
  "arp_packet opcode src_mac src_ip target_mac target_ip =
     be_bytes 2 (1 :: u16) @ be_bytes 2 ETHERTYPE_IPV4 @ [6, 4] @ be_bytes 2 opcode @ src_mac @ octets src_ip @ target_mac @ octets target_ip"

definition udp_segment :: "sockaddr \<Rightarrow> sockaddr \<Rightarrow> byte list \<Rightarrow> byte list" where
  "udp_segment src dst payload =
     be_bytes 2 (sa_port src) @ be_bytes 2 (sa_port dst) @ be_bytes 2 (of_nat (8 + length payload) :: u16) @ be_bytes 2 (0 :: u16) @ payload"

definition pseudo_header :: "ipv4 \<Rightarrow> ipv4 \<Rightarrow> nat \<Rightarrow> byte list" where
  "pseudo_header src dst tcp_len = octets src @ octets dst @ [0, IP_PROTO_TCP] @ be_bytes 2 (of_nat tcp_len :: u16)"

definition tcp_head :: "sockaddr \<Rightarrow> sockaddr \<Rightarrow> u32 \<Rightarrow> u32 \<Rightarrow> u16 \<Rightarrow> byte list" where
  "tcp_head src dst seq ack flags =
     be_bytes 2 (sa_port src) @ be_bytes 2 (sa_port dst) @ be_bytes 4 seq @ be_bytes 4 ack @
     be_bytes 2 (push_bit 12 5 OR (flags AND 0x01ff)) @ be_bytes 2 (1024 :: u16)"

definition tcp_segment :: "sockaddr \<Rightarrow> sockaddr \<Rightarrow> u32 \<Rightarrow> u32 \<Rightarrow> u16 \<Rightarrow> byte list \<Rightarrow> byte list" where
  "tcp_segment src dst seq ack flags payload =
     (let h = tcp_head src dst seq ack flags;
          csum = checksum_parts [pseudo_header (sa_ip src) (sa_ip dst) (20 + length payload), h @ be_bytes 2 (0 :: u16) @ be_bytes 2 (0 :: u16), payload]
      in h @ be_bytes 2 csum @ be_bytes 2 (0 :: u16) @ payload)"

section \<open>The checksum in numbers\<close>

text \<open>The sum of the 16-bit words of a part, an odd last byte padded.\<close>

fun words_sum :: "byte list \<Rightarrow> nat" where
  "words_sum (x # y # xs) = unat x * 256 + unat y + words_sum xs"
| "words_sum [x] = unat x * 256"
| "words_sum [] = 0"

lemma byte_less: "unat (x :: byte) < 256"
  using unsigned_less [where 'a = nat, of x] by simp

lemma of_be_pair: "unat (of_be [x, y] :: u16) = unat x * 256 + unat y"
proof -
  have "(of_be [x, y] :: u16) = ucast y OR push_bit 8 (ucast x)" by (simp add: of_be_def)
  also have "\<dots> = ucast y + push_bit 8 (ucast x)" by (rule disjunctive_add [symmetric]) (auto simp: bit_simps dest: bit_imp_le_length)
  also have "unat \<dots> = unat y + unat x * 256"
  proof -
    have y: "unat (ucast y :: u16) = unat y" and x: "unat (ucast x :: u16) = unat x"
      using byte_less [of x] byte_less [of y] by (simp_all add: unsigned_ucast_eq take_bit_nat_eq_self_iff)
    have p: "unat (push_bit 8 (ucast x :: u16)) = unat x * 256"
      using byte_less [of x] x by (simp add: unsigned_push_bit_eq push_bit_nat_def take_bit_nat_eq_self_iff)
    show ?thesis using byte_less [of x] byte_less [of y] y p by (subst unat_add_lem [THEN iffD1]) simp_all
  qed
  finally show ?thesis by simp
qed

lemma words_sum_bound: "words_sum bs \<le> 65535 * ((length bs + 1) div 2)"
proof (induction bs rule: words_sum.induct)
  case (1 x y xs)
  then show ?case using byte_less [of x] byte_less [of y] by simp
next
  case (2 x)
  then show ?case using byte_less [of x] by simp
qed simp

lemma unat_checksum_add: "unat acc + words_sum bs < 2 ^ 32 \<Longrightarrow> unat (checksum_add acc bs) = unat acc + words_sum bs"
proof (induction acc bs rule: checksum_add.induct)
  case (1 acc x y xs)
  have w: "unat (ucast (of_be [x, y] :: u16) :: u32) = unat x * 256 + unat y"
    using byte_less [of x] byte_less [of y] by (simp add: unsigned_ucast_eq take_bit_nat_eq_self of_be_pair)
  then have "unat (acc + ucast (of_be [x, y] :: u16)) = unat acc + (unat x * 256 + unat y)"
    using 1(2) by (subst unat_add_lem [THEN iffD1]) simp_all
  then show ?case using 1 by simp
next
  case (2 acc x)
  have "unat (push_bit 8 (ucast x :: u32)) = unat x * 256"
    using byte_less [of x] by (simp add: unsigned_push_bit_eq push_bit_nat_def take_bit_nat_def unsigned_ucast_eq)
  then show ?case using 2 by (subst checksum_add.simps, subst unat_add_lem [THEN iffD1]) simp_all
qed simp

text \<open>Folding the carries of a positive number gives its residue between 1 and 65535.\<close>

definition ones_fold :: "nat \<Rightarrow> nat" where
  "ones_fold n = (if n = 0 then 0 else 1 + (n - 1) mod 65535)"

lemma ones_fold_step: "ones_fold (n mod 2 ^ 16 + n div 2 ^ 16) = ones_fold n"
proof -
  have "ones_fold (r + q) = ones_fold (2 ^ 16 * q + r)" for q r :: nat
  proof (cases "r + q = 0")
    case False
    then have "2 ^ 16 * q + r - 1 = (r + q - 1) + 65535 * q" by simp
    then have "(2 ^ 16 * q + r - 1) mod 65535 = (r + q - 1) mod 65535" by (metis mod_mult_self2)
    then show ?thesis using False by (simp add: ones_fold_def)
  qed (simp add: ones_fold_def)
  moreover have "2 ^ 16 * (n div 2 ^ 16) + n mod 2 ^ 16 = n" by (rule mult_div_mod_eq)
  ultimately show ?thesis by metis
qed

lemma unat_finalize: "unat (finalize_checksum acc) = 65535 - ones_fold (unat acc)"
proof (induction acc rule: finalize_checksum.induct)
  case (1 acc)
  show ?case
  proof (cases "drop_bit 16 acc \<noteq> 0")
    case True
    then show ?thesis using 1 [OF True] finalize_decreases [OF True] ones_fold_step [of "unat acc"]
      by (simp add: finalize_checksum.simps [of acc])
  next
    case False
    have "unat acc div 2 ^ 16 = unat (drop_bit 16 acc)" by (simp add: drop_bit_eq_div unat_div_distrib)
    then have lt: "unat acc < 65536" using False by simp
    then have "unat (ucast acc :: u16) = unat acc" by (simp add: unsigned_ucast_eq take_bit_nat_eq_self_iff)
    moreover have "unat (NOT w) = 65535 - unat w" for w :: u16
    proof -
      have "NOT w = - 1 - w" by (simp add: not_eq_complement)
      moreover have "w \<le> - 1" by simp
      ultimately show ?thesis by (simp add: unat_sub unsigned_minus_1_eq_mask mask_eq_exp_minus_1)
    qed
    moreover have "ones_fold (unat acc) = unat acc" using lt by (cases "unat acc") (simp_all add: ones_fold_def)
    ultimately show ?thesis using False by (simp add: finalize_checksum.simps [of acc])
  qed
qed

lemma words_sum_append: "even (length as) \<Longrightarrow> words_sum (as @ bs) = words_sum as + words_sum bs"
  by (induction as rule: words_sum.induct) simp_all

lemma be_bytes_pair: "be_bytes 2 c = [ucast (drop_bit 8 c), ucast (c :: u16)]"
  by (simp add: be_bytes_def numeral_2_eq_2)

lemma words_sum_be: "words_sum (be_bytes 2 c) = unat (c :: u16)"
proof -
  have "(of_be (be_bytes 2 c) :: u16) = c" by (rule of_be_be_bytes) simp
  then show ?thesis unfolding be_bytes_pair using of_be_pair [of "ucast (drop_bit 8 c)" "ucast c"] by simp
qed

lemma unat_checksum_parts:
  assumes "sum_list (map words_sum parts) < 2 ^ 32"
  shows "unat (checksum_parts parts) = 65535 - ones_fold (sum_list (map words_sum parts))"
proof -
  have "unat acc + sum_list (map words_sum parts) < 2 ^ 32 \<Longrightarrow>
      unat (fold (\<lambda>part acc. checksum_add acc part) parts acc) = unat acc + sum_list (map words_sum parts)" for acc
    by (induction parts arbitrary: acc) (simp_all add: unat_checksum_add)
  from this [of 0] show ?thesis using assms by (simp add: checksum_parts_def unat_finalize)
qed

text \<open>The sum of everything with the checksum in its place is a multiple of 65535, and not 0.\<close>

lemma checksum_completes:
  assumes "0 < n" "n + 65535 < 2 ^ 32"
  shows "65535 - ones_fold (n + (65535 - ones_fold n)) = 0"
proof -
  obtain q r where n: "n = 65535 * q + r + 1" "r < 65535"
    using assms(1) mult_div_mod_eq [of 65535 "n - 1"] mod_less_divisor [of 65535 "n - 1"] by (metis Suc_eq_plus1 Suc_pred' zero_less_numeral)
  have f: "ones_fold n = r + 1" using n by (simp add: ones_fold_def)
  have "n + (65535 - ones_fold n) = 65535 * q + 65535" using n f by simp
  moreover have "(65535 * q + 65534) mod 65535 = (65534 :: nat)" by simp
  ultimately show ?thesis by (simp add: ones_fold_def)
qed

section \<open>What is built\<close>

lemma checksum_field:
  assumes "even (length a)" "0 < sum_list (map words_sum (pre @ [a @ be_bytes 2 (0 :: u16) @ b] @ post))"
    "sum_list (map words_sum (pre @ [a @ be_bytes 2 (0 :: u16) @ b] @ post)) + 65535 < 2 ^ 32"
  shows "checksum_parts (pre @ [a @ be_bytes 2 (checksum_parts (pre @ [a @ be_bytes 2 (0 :: u16) @ b] @ post)) @ b] @ post) = 0"
proof -
  define n where "n = sum_list (map words_sum (pre @ [a @ be_bytes 2 (0 :: u16) @ b] @ post))"
  define c where "c = checksum_parts (pre @ [a @ be_bytes 2 (0 :: u16) @ b] @ post)"
  have c: "unat c = 65535 - ones_fold n" unfolding c_def n_def by (rule unat_checksum_parts) (use assms(3) in simp)
  have "sum_list (map words_sum (pre @ [a @ be_bytes 2 d @ b] @ post)) = sum_list (map words_sum (pre @ [a @ b] @ post)) + unat d" for d :: u16
    using assms(1) by (simp add: words_sum_append words_sum_be)
  from this [of 0] this [of c] have s: "sum_list (map words_sum (pre @ [a @ be_bytes 2 c @ b] @ post)) = n + unat c" by (simp add: n_def)
  have lt: "n + unat c < 2 ^ 32" using assms(3) c by (simp only: n_def)
  have "unat (checksum_parts (pre @ [a @ be_bytes 2 c @ b] @ post)) = 65535 - ones_fold (n + (65535 - ones_fold n))"
    using unat_checksum_parts [of "pre @ [a @ be_bytes 2 c @ b] @ post", unfolded s, OF lt] unfolding c .
  then have "unat (checksum_parts (pre @ [a @ be_bytes 2 c @ b] @ post)) = 0"
    using checksum_completes [of n] assms(2,3) by (simp add: n_def)
  then show ?thesis by (simp add: c_def unsigned_eq_0_iff)
qed

lemma tcp_head_length [simp]: "length (tcp_head src dst seq ack flags) = 16"
  by (simp add: tcp_head_def)

lemma tcp_segment_length [simp]: "length (tcp_segment src dst seq ack flags payload) = 20 + length payload"
  by (simp add: tcp_segment_def Let_def)



end
