(* ===== verification/Virtio_Net.thy ===== *)
theory Virtio_Net
  imports Net_Packet
begin

text \<open>
  The network device (\<^verbatim>\<open>crates/kernel/src/virtio_net.rs\<close>): two rings of eight buffers shared
  with the device. The driver puts the number of a filled buffer into the available ring; the device
  puts numbers it is done with into the used ring. Descriptor \<open>i\<close> always describes buffer \<open>i\<close>. The
  registers of the device and its initialisation through them are not modelled.

  The device is behind a spin lock, which must not be taken again by the processor that holds it:
  \<open>nd_held\<close> says whether this processor does.
\<close>

section \<open>The device\<close>

definition NUM :: nat where "NUM = 8"
definition RX_BUF_SIZE :: nat where "RX_BUF_SIZE = 2048"
definition HDR_SIZE :: nat where "HDR_SIZE = 10"
definition RX_BUF_LEN :: nat where "RX_BUF_LEN = RX_BUF_SIZE + HDR_SIZE"

record vring =
  vr_ring :: "u16 list"
  vr_idx :: u16
  vr_used :: "(u32 \<times> u32) list"
  vr_used_idx :: u16
  vr_seen :: u16

record netdev =
  nd_rx :: vring
  nd_tx :: vring
  nd_rx_bufs :: "byte list list"
  nd_tx_bufs :: "byte list list"
  nd_tx_len :: "u32 list"
  nd_tx_free :: "bool list"
  nd_mac :: "byte list"
  nd_held :: bool

definition vring_new :: vring where
  "vring_new = \<lparr>vr_ring = replicate NUM 0, vr_idx = 0, vr_used = replicate NUM (0, 0), vr_used_idx = 0, vr_seen = 0\<rparr>"

text \<open>The device after \<^verbatim>\<open>init\<close>: all receive buffers are with the device, all send buffers free.\<close>

definition netdev_init :: "byte list \<Rightarrow> netdev" where
  "netdev_init mac =
     \<lparr>nd_rx = vring_new\<lparr>vr_ring := map of_nat [0..<NUM], vr_idx := of_nat NUM\<rparr>, nd_tx = vring_new,
      nd_rx_bufs = replicate NUM (replicate RX_BUF_LEN 0), nd_tx_bufs = replicate NUM (replicate RX_BUF_LEN 0),
      nd_tx_len = replicate NUM 0, nd_tx_free = replicate NUM True, nd_mac = mac, nd_held = False\<rparr>"

fun first_free :: "bool list \<Rightarrow> nat \<Rightarrow> nat option" where
  "first_free [] i = None"
| "first_free (f # fs) i = (if f then Some i else first_free fs (i + 1))"

definition alloc_tx :: "netdev \<Rightarrow> nat option \<times> netdev" where
  "alloc_tx d =
     (case first_free (nd_tx_free d) 0 of
        None \<Rightarrow> (None, d)
      | Some i \<Rightarrow> (Some i, d\<lparr>nd_tx_free := (nd_tx_free d)[i := False]\<rparr>))"

definition free_tx :: "nat \<Rightarrow> netdev \<Rightarrow> netdev" where
  "free_tx i d = (if i < NUM then d\<lparr>nd_tx_free := (nd_tx_free d)[i := True]\<rparr> else d)"

function handle_tx :: "netdev \<Rightarrow> netdev" where
  "handle_tx d =
     (let v = nd_tx d in
      if vr_seen v \<noteq> vr_used_idx v then
        handle_tx ((free_tx (unat (fst (vr_used v ! (unat (vr_seen v) mod NUM)))) d)\<lparr>nd_tx := v\<lparr>vr_seen := vr_seen v + 1\<rparr>\<rparr>)
      else d)"
  by pat_completeness auto
termination
proof (relation "measure (\<lambda>d. unat (vr_used_idx (nd_tx d) - vr_seen (nd_tx d)))", goal_cases)
  case (2 d v)
  have less: "unat (c - 1) < unat c" if "c \<noteq> 0" for c :: u16
    using unat_minus_one [OF that] that unsigned_eq_0_iff [where 'a = nat, of c] by linarith
  have "unat (vr_used_idx v - (vr_seen v + 1)) < unat (vr_used_idx v - vr_seen v)"
    using 2(2) less [of "vr_used_idx v - vr_seen v"] by (simp only: diff_diff_add [symmetric] right_minus_eq)
  then show ?case using 2(1) by simp
qed simp

declare handle_tx.simps [simp del]

text \<open>The buffer, its length, and the entry of the available ring.\<close>

definition tx_put :: "nat \<Rightarrow> byte list \<Rightarrow> netdev \<Rightarrow> netdev" where
  "tx_put i frame d =
     (let v = nd_tx d; buf = replicate HDR_SIZE 0 @ frame @ drop (HDR_SIZE + length frame) (nd_tx_bufs d ! i) in
      d\<lparr>nd_tx_bufs := (nd_tx_bufs d)[i := buf], nd_tx_len := (nd_tx_len d)[i := of_nat (HDR_SIZE + length frame)],
        nd_tx := v\<lparr>vr_ring := (vr_ring v)[unat (vr_idx v) mod NUM := of_nat i], vr_idx := vr_idx v + 1\<rparr>\<rparr>)"

text \<open>
  \<^verbatim>\<open>send_frame_inner\<close>. Without a free buffer the blocking variant sleeps: \<open>None\<close>. After the frame is
  in the ring the blocking variant waits until its buffer is free again, which changes nothing.
\<close>

definition send_frame_inner :: "byte list \<Rightarrow> bool \<Rightarrow> netdev \<Rightarrow> unit result option \<times> netdev" where
  "send_frame_inner frame nonblock d =
     (if RX_BUF_SIZE < length frame then (Some (Err InvalidArgument), d)
      else if nd_held d then (Some Panic, d)
      else
        (case alloc_tx d of
           (None, _) \<Rightarrow> (if nonblock then Some (Err WouldBlock) else None, d)
         | (Some i, d1) \<Rightarrow> (Some (Ok ()), tx_put i frame d1)))"

text \<open>One received frame: its bytes, and the buffer given back to the device.\<close>

definition rx_frame :: "netdev \<Rightarrow> byte list option" where
  "rx_frame d =
     (let v = nd_rx d; (i, n) = vr_used v ! (unat (vr_seen v) mod NUM); len = min (unat n) RX_BUF_LEN in
      if HDR_SIZE \<le> len \<and> unat i < NUM then Some (take (len - HDR_SIZE) (drop HDR_SIZE (nd_rx_bufs d ! unat i))) else None)"

definition rx_recycle :: "netdev \<Rightarrow> netdev" where
  "rx_recycle d =
     (let v = nd_rx d; (i, n) = vr_used v ! (unat (vr_seen v) mod NUM) in
      d\<lparr>nd_rx := v\<lparr>vr_ring := (vr_ring v)[unat (vr_idx v) mod NUM := ucast i], vr_idx := vr_idx v + 1, vr_seen := vr_seen v + 1\<rparr>\<rparr>)"

section \<open>Rings\<close>

text \<open>The numbers in a ring from position \<open>w\<close> on.\<close>

definition ring_has :: "'a::len word list \<Rightarrow> u16 \<Rightarrow> nat list \<Rightarrow> bool" where
  "ring_has xs w ids \<longleftrightarrow> length xs = NUM \<and> length ids \<le> NUM \<and> (\<forall>j < length ids. xs ! ((unat w + j) mod NUM) = of_nat (ids ! j))"

lemma unat_mod_NUM: "unat (w + of_nat n :: u16) mod NUM = (unat w + n) mod NUM"
proof -
  have "unat (w + of_nat n) = (unat w + n) mod 2 ^ 16" by (simp add: unat_word_ariths unat_of_nat mod_simps)
  moreover have "(m mod 2 ^ 16) mod NUM = m mod NUM" for m by (rule mod_mod_cancel) (simp add: NUM_def)
  ultimately show ?thesis by simp
qed

lemma ring_slots: "j < NUM \<Longrightarrow> k < NUM \<Longrightarrow> (a + j) mod NUM = (a + k) mod NUM \<Longrightarrow> j = k"
proof -
  have "(a + j) mod n = (a + k) mod n \<Longrightarrow> j \<le> k \<Longrightarrow> k < n \<Longrightarrow> j = k" for j k n :: nat
  proof -
    assume "(a + j) mod n = (a + k) mod n" "j \<le> k" "k < n"
    then have "n dvd k - j" by (metis add_diff_cancel_left le_add_diff_inverse mod_eq_dvd_iff_nat nat_add_left_cancel_le)
    then show "j = k" using \<open>j \<le> k\<close> \<open>k < n\<close> by (metis diff_is_0_eq dvd_imp_le le_antisym less_imp_diff_less linorder_not_le not_gr_zero)
  qed
  then show "j < NUM \<Longrightarrow> k < NUM \<Longrightarrow> (a + j) mod NUM = (a + k) mod NUM \<Longrightarrow> j = k" by (metis nle_le)
qed

lemma ring_push:
  assumes "ring_has xs w ids" "length ids < NUM"
  shows "ring_has (xs[unat (w + of_nat (length ids)) mod NUM := of_nat i]) w (ids @ [i])"
proof -
  let ?k = "(unat w + length ids) mod NUM"
  have k: "?k < length xs" using assms(1) by (simp add: ring_has_def NUM_def)
  have "xs[?k := of_nat i] ! ((unat w + j) mod NUM) = of_nat ((ids @ [i]) ! j)" if "j < Suc (length ids)" for j
  proof (cases "j = length ids")
    case True
    then show ?thesis using k by simp
  next
    case False
    then have "j < length ids" using that by simp
    moreover have "(unat w + j) mod NUM \<noteq> ?k" using ring_slots [of j "length ids" "unat w"] False that assms(2) by auto
    ultimately show ?thesis using assms(1) by (simp add: ring_has_def nth_append)
  qed
  then show ?thesis using assms by (simp add: ring_has_def unat_mod_NUM)
qed

lemma ring_pop:
  assumes "ring_has xs w (i # ids)"
  shows "xs ! (unat w mod NUM) = of_nat i" "ring_has xs (w + 1) ids"
proof -
  show "xs ! (unat w mod NUM) = of_nat i" using assms by (auto simp: ring_has_def dest: spec [of _ 0])
  have "(unat (w + 1) + j) mod NUM = (unat w + Suc j) mod NUM" for j
    using unat_mod_NUM [of w 1] by (metis One_nat_def add_Suc_right add_Suc_shift mod_add_left_eq of_nat_1 plus_1_eq_Suc Suc_eq_plus1)
  then show "ring_has xs (w + 1) ids" using assms by (fastforce simp: ring_has_def)
qed

lemma ring_nonempty: "ring_has xs w ids \<Longrightarrow> w = w + of_nat (length ids) \<longleftrightarrow> ids = []"
proof -
  assume "ring_has xs w ids"
  then have "length ids \<le> 8" by (simp add: ring_has_def NUM_def)
  moreover have "(of_nat n :: u16) = 0 \<longleftrightarrow> n = 0" if "n \<le> 8" for n
  proof -
    have "unat (of_nat n :: u16) = n" using that by (simp add: unat_of_nat)
    then show ?thesis by auto
  qed
  ultimately show ?thesis by simp
qed

section \<open>Sending\<close>

text \<open>
  The driver and the device. The device takes the entries of the available ring in their order, reads
  the buffer of each, and puts its number into the used ring later, in any order. \<open>ts_pos\<close> is its place
  in the available ring, \<open>ts_hold\<close> what it has taken and not yet returned, \<open>ts_in\<close> what the driver was
  given to send and \<open>ts_out\<close> what the device has read.
\<close>

record txsys =
  ts_dev :: netdev
  ts_pos :: u16
  ts_hold :: "nat list"
  ts_in :: "byte list list"
  ts_out :: "byte list list"

definition frame_in :: "netdev \<Rightarrow> nat \<Rightarrow> byte list" where
  "frame_in d i = take (unat (nd_tx_len d ! i) - HDR_SIZE) (drop HDR_SIZE (nd_tx_bufs d ! i))"

definition used_put :: "nat \<Rightarrow> u32 \<Rightarrow> vring \<Rightarrow> vring" where
  "used_put i n v = v\<lparr>vr_used := (vr_used v)[unat (vr_used_idx v) mod NUM := (of_nat i, n)], vr_used_idx := vr_used_idx v + 1\<rparr>"

inductive tx_step :: "txsys \<Rightarrow> txsys \<Rightarrow> bool" where
  send: "send_frame_inner frame nonblock (ts_dev s) = (Some (Ok ()), d) \<Longrightarrow>
    tx_step s (s\<lparr>ts_dev := d, ts_in := ts_in s @ [frame]\<rparr>)"
| refused: "send_frame_inner frame nonblock (ts_dev s) = (r, d) \<Longrightarrow> r \<noteq> Some (Ok ()) \<Longrightarrow> tx_step s (s\<lparr>ts_dev := d\<rparr>)"
| interrupt: "tx_step s (s\<lparr>ts_dev := handle_tx (ts_dev s)\<rparr>)"
| take: "ts_pos s \<noteq> vr_idx (nd_tx (ts_dev s)) \<Longrightarrow> i = unat (vr_ring (nd_tx (ts_dev s)) ! (unat (ts_pos s) mod NUM)) \<Longrightarrow>
    tx_step s (s\<lparr>ts_pos := ts_pos s + 1, ts_hold := i # ts_hold s, ts_out := ts_out s @ [frame_in (ts_dev s) i]\<rparr>)"
| return: "i \<in> set (ts_hold s) \<Longrightarrow>
    tx_step s (s\<lparr>ts_dev := (ts_dev s)\<lparr>nd_tx := used_put i n (nd_tx (ts_dev s))\<rparr>, ts_hold := remove1 i (ts_hold s)\<rparr>)"

text \<open>\<open>pend\<close> are the entries the device has not seen, \<open>rets\<close> those the driver has not seen.\<close>

definition tx_parts :: "txsys \<Rightarrow> nat list \<Rightarrow> nat list \<Rightarrow> bool" where
  "tx_parts s pend rets \<longleftrightarrow> (let d = ts_dev s; v = nd_tx d in
     length (nd_tx_bufs d) = NUM \<and> length (nd_tx_len d) = NUM \<and> length (nd_tx_free d) = NUM \<and>
     (\<forall>i < NUM. length (nd_tx_bufs d ! i) = RX_BUF_LEN) \<and>
     ring_has (vr_ring v) (ts_pos s) pend \<and> vr_idx v = ts_pos s + of_nat (length pend) \<and>
     ring_has (map fst (vr_used v)) (vr_seen v) rets \<and> vr_used_idx v = vr_seen v + of_nat (length rets) \<and>
     distinct (pend @ ts_hold s @ rets) \<and> (\<forall>i. i \<in> set (pend @ ts_hold s @ rets) \<longleftrightarrow> i < NUM \<and> \<not> nd_tx_free d ! i) \<and>
     ts_in s = ts_out s @ map (frame_in d) pend)"

lemma first_free_Some: "first_free fs n = Some i \<Longrightarrow> n \<le> i \<and> i - n < length fs \<and> fs ! (i - n)"
proof (induction fs arbitrary: n)
  case (Cons f fs)
  show ?case
  proof (cases f)
    case False
    then have "Suc n \<le> i" "i - Suc n < length fs" "fs ! (i - Suc n)" using Cons.IH [of "Suc n"] Cons.prems by simp_all
    moreover from this have "i - n = Suc (i - Suc n)" by simp
    ultimately show ?thesis by simp
  qed (use Cons.prems in auto)
qed simp

text \<open>At most eight numbers are in use, so the rings do not overflow.\<close>

lemma tx_room: "tx_parts s pend rets \<Longrightarrow> i < NUM \<Longrightarrow> nd_tx_free (ts_dev s) ! i \<Longrightarrow> length (pend @ ts_hold s @ rets) < NUM"
proof -
  assume p: "tx_parts s pend rets" and i: "i < NUM" "nd_tx_free (ts_dev s) ! i"
  let ?u = "pend @ ts_hold s @ rets"
  have d: "distinct ?u" using p by (simp add: tx_parts_def Let_def)
  have "set ?u \<subseteq> {..<NUM} - {i}" using p i by (auto simp: tx_parts_def Let_def)
  then have "card (set ?u) \<le> card ({..<NUM} - {i})" by (intro card_mono) simp_all
  then show ?thesis using distinct_card [OF d] i by simp
qed

lemma tx_bound: "tx_parts s pend rets \<Longrightarrow> length (pend @ ts_hold s @ rets) \<le> NUM"
proof -
  assume p: "tx_parts s pend rets"
  have d: "distinct (pend @ ts_hold s @ rets)" using p by (simp add: tx_parts_def Let_def)
  have "set (pend @ ts_hold s @ rets) \<subseteq> {..<NUM}" using p by (auto simp: tx_parts_def Let_def)
  then have "card (set (pend @ ts_hold s @ rets)) \<le> card {..<NUM}" by (intro card_mono) simp_all
  then show ?thesis using distinct_card [OF d] by simp
qed

lemma frame_in_put:
  assumes "i < length (nd_tx_bufs d)" "i < length (nd_tx_len d)" "length frame \<le> RX_BUF_SIZE"
  shows "frame_in (tx_put i frame d) i = frame"
proof -
  have "HDR_SIZE + length frame < 2 ^ 32" using assms(3) by (simp add: RX_BUF_SIZE_def HDR_SIZE_def)
  then have "unat (of_nat (HDR_SIZE + length frame) :: u32) = HDR_SIZE + length frame" by (simp add: unat_of_nat del: of_nat_add)
  then show ?thesis using assms by (simp add: frame_in_def tx_put_def Let_def del: of_nat_add)
qed

lemma tx_send:
  assumes p: "tx_parts s pend rets" and r: "send_frame_inner frame nonblock (ts_dev s) = (Some (Ok ()), d)"
  shows "\<exists>i. tx_parts (s\<lparr>ts_dev := d, ts_in := ts_in s @ [frame]\<rparr>) (pend @ [i]) rets"
proof -
  let ?d = "ts_dev s"
  have len: "length frame \<le> RX_BUF_SIZE" using r by (auto simp: send_frame_inner_def split: if_splits)
  from r obtain i where i: "first_free (nd_tx_free ?d) 0 = Some i" and d: "d = tx_put i frame (?d\<lparr>nd_tx_free := (nd_tx_free ?d)[i := False]\<rparr>)"
    by (auto simp: send_frame_inner_def alloc_tx_def split: if_splits option.splits)
  have f: "i < NUM" "nd_tx_free ?d ! i" using first_free_Some [OF i] p by (simp_all add: tx_parts_def Let_def)
  have room: "length pend < NUM" using tx_room [OF p f] by simp
  note P = p [unfolded tx_parts_def Let_def]
  let ?buf = "replicate HDR_SIZE 0 @ frame @ drop (HDR_SIZE + length frame) (nd_tx_bufs ?d ! i)"
  have fields: "nd_tx_bufs d = (nd_tx_bufs ?d)[i := ?buf]" "nd_tx_len d = (nd_tx_len ?d)[i := of_nat (HDR_SIZE + length frame)]"
    "nd_tx_free d = (nd_tx_free ?d)[i := False]"
    "nd_tx d = (nd_tx ?d)\<lparr>vr_ring := (vr_ring (nd_tx ?d))[unat (vr_idx (nd_tx ?d)) mod NUM := of_nat i], vr_idx := vr_idx (nd_tx ?d) + 1\<rparr>"
    by (simp_all add: d tx_put_def Let_def)
  have new: "frame_in d i = frame" unfolding d by (rule frame_in_put) (use P f len in simp_all)
  have ni: "i \<notin> set (pend @ ts_hold s @ rets)" using P f by blast
  have "frame_in d j = frame_in ?d j" if "j \<noteq> i" for j using that by (simp add: frame_in_def fields)
  then have old: "map (frame_in d) pend = map (frame_in ?d) pend" by (rule map_cong [OF refl]) (metis ni Un_iff set_append)
  have "ring_has (vr_ring (nd_tx d)) (ts_pos s) (pend @ [i])" using ring_push [of "vr_ring (nd_tx ?d)" "ts_pos s" pend i] P room by (simp add: fields)
  then have "tx_parts (s\<lparr>ts_dev := d, ts_in := ts_in s @ [frame]\<rparr>) (pend @ [i]) rets"
    unfolding tx_parts_def Let_def using P f ni len old new
    by (auto simp: fields nth_list_update RX_BUF_LEN_def RX_BUF_SIZE_def HDR_SIZE_def)
  then show ?thesis by blast
qed

lemma tx_interrupt: "tx_parts s pend rets \<Longrightarrow> tx_parts (s\<lparr>ts_dev := handle_tx (ts_dev s)\<rparr>) pend []"
proof (induction rets arbitrary: s)
  case Nil
  then have "vr_seen (nd_tx (ts_dev s)) = vr_used_idx (nd_tx (ts_dev s))" by (simp add: tx_parts_def Let_def)
  then have "handle_tx (ts_dev s) = ts_dev s" by (simp add: handle_tx.simps [of "ts_dev s"] Let_def)
  then show ?case using Nil by simp
next
  case (Cons i rets)
  let ?d = "ts_dev s"
  note P = Cons.prems [unfolded tx_parts_def Let_def]
  have ne: "vr_seen (nd_tx ?d) \<noteq> vr_used_idx (nd_tx ?d)"
    using P ring_nonempty [of "map fst (vr_used (nd_tx ?d))" "vr_seen (nd_tx ?d)" "i # rets"] by auto
  have r: "map fst (vr_used (nd_tx ?d)) ! (unat (vr_seen (nd_tx ?d)) mod NUM) = of_nat i" "ring_has (map fst (vr_used (nd_tx ?d))) (vr_seen (nd_tx ?d) + 1) rets"
    using ring_pop [of "map fst (vr_used (nd_tx ?d))" "vr_seen (nd_tx ?d)" i rets] P by blast+
  have "i \<in> set (pend @ ts_hold s @ i # rets)" by simp
  then have i: "i < NUM" "\<not> nd_tx_free ?d ! i" using P by blast+
  then have i32: "unat (of_nat i :: u32) = i" by (simp add: NUM_def unat_of_nat)
  have "length (vr_used (nd_tx ?d)) = NUM" using P by (simp add: ring_has_def)
  then have u: "unat (fst (vr_used (nd_tx ?d) ! (unat (vr_seen (nd_tx ?d)) mod NUM))) = i" using r(1) i32 by (simp add: NUM_def)
  define e where "e = (free_tx i ?d)\<lparr>nd_tx := (nd_tx ?d)\<lparr>vr_seen := vr_seen (nd_tx ?d) + 1\<rparr>\<rparr>"
  have h: "handle_tx ?d = handle_tx e" using ne u by (simp add: handle_tx.simps [of ?d] Let_def e_def)
  have fields: "nd_tx_bufs e = nd_tx_bufs ?d" "nd_tx_len e = nd_tx_len ?d" "nd_tx_free e = (nd_tx_free ?d)[i := True]"
    "nd_tx e = (nd_tx ?d)\<lparr>vr_seen := vr_seen (nd_tx ?d) + 1\<rparr>" using i(1) by (simp_all add: e_def free_tx_def)
  have fr: "frame_in e = frame_in ?d" by (rule ext) (simp add: frame_in_def fields)
  have "tx_parts (s\<lparr>ts_dev := e\<rparr>) pend rets"
  proof -
    have nd: "i \<notin> set (pend @ ts_hold s @ rets)" using P by auto
    have "j \<in> set (pend @ ts_hold s @ rets) \<longleftrightarrow> j < NUM \<and> \<not> (nd_tx_free ?d)[i := True] ! j" for j
    proof (cases "j = i")
      case True
      then show ?thesis using nd P i(1) by simp
    next
      case False
      then have "j \<in> set (pend @ ts_hold s @ rets) \<longleftrightarrow> j \<in> set (pend @ ts_hold s @ i # rets)" by auto
      also have "\<dots> \<longleftrightarrow> j < NUM \<and> \<not> nd_tx_free ?d ! j" using P by blast
      finally show ?thesis using False by simp
    qed
    then show ?thesis unfolding tx_parts_def Let_def using P r(2) by (simp add: fields fr add.assoc)
  qed
  from Cons.IH [OF this] show ?case by (simp add: h)
qed

lemma tx_take:
  assumes p: "tx_parts s pend rets" and t: "ts_pos s \<noteq> vr_idx (nd_tx (ts_dev s))" "i = unat (vr_ring (nd_tx (ts_dev s)) ! (unat (ts_pos s) mod NUM))"
  shows "\<exists>pend'. tx_parts (s\<lparr>ts_pos := ts_pos s + 1, ts_hold := i # ts_hold s, ts_out := ts_out s @ [frame_in (ts_dev s) i]\<rparr>) pend' rets"
proof -
  note P = p [unfolded tx_parts_def Let_def]
  from t(1) P obtain j pend' where j: "pend = j # pend'" by (cases pend) auto
  note R = ring_pop [of "vr_ring (nd_tx (ts_dev s))" "ts_pos s" j pend']
  have "j < NUM" using P j by auto
  then have "unat (of_nat j :: u16) = j" by (simp add: NUM_def unat_of_nat)
  then have "i = j" using t(2) R(1) P j by auto
  then show ?thesis using P R(2) j by (intro exI [of _ pend']) (auto simp: tx_parts_def Let_def)
qed

lemma tx_return:
  assumes p: "tx_parts s pend rets" and i: "i \<in> set (ts_hold s)"
  shows "tx_parts (s\<lparr>ts_dev := (ts_dev s)\<lparr>nd_tx := used_put i n (nd_tx (ts_dev s))\<rparr>, ts_hold := remove1 i (ts_hold s)\<rparr>) pend (rets @ [i])"
proof -
  note P = p [unfolded tx_parts_def Let_def]
  let ?v = "nd_tx (ts_dev s)"
  have "length (pend @ ts_hold s @ rets) \<le> NUM" by (rule tx_bound [OF p])
  moreover have "0 < length (ts_hold s)" using i by (cases "ts_hold s") simp_all
  ultimately have room: "length rets < NUM" by (simp only: length_append)
  have "ring_has (map fst (vr_used (used_put i n ?v))) (vr_seen ?v) (rets @ [i])"
    using ring_push [of "map fst (vr_used ?v)" "vr_seen ?v" rets i] P room by (simp add: used_put_def map_update)
  moreover have "frame_in ((ts_dev s)\<lparr>nd_tx := used_put i n ?v\<rparr>) = frame_in (ts_dev s)" by (rule ext) (simp add: frame_in_def)
  ultimately show ?thesis unfolding tx_parts_def Let_def using P i by (auto simp: used_put_def)
qed

lemma tx_parts_step: "tx_step s t \<Longrightarrow> \<exists>pend rets. tx_parts s pend rets \<Longrightarrow> \<exists>pend rets. tx_parts t pend rets"
proof (induction rule: tx_step.induct)
  case (send frame nonblock s d)
  then show ?case using tx_send by meson
next
  case (refused frame nonblock s r d)
  then have "d = ts_dev s" by (auto simp: send_frame_inner_def split: if_splits option.splits prod.splits)
  then show ?case using refused(3) by simp
next
  case (interrupt s)
  then show ?case using tx_interrupt by meson
next
  case (take s i)
  then show ?case using tx_take by meson
next
  case (return i s n)
  then show ?case using tx_return by meson
qed

definition tx_start :: "byte list \<Rightarrow> txsys" where
  "tx_start mac = \<lparr>ts_dev = netdev_init mac, ts_pos = 0, ts_hold = [], ts_in = [], ts_out = []\<rparr>"

lemma tx_parts_start: "tx_parts (tx_start mac) [] []"
  by (auto simp: tx_parts_def Let_def tx_start_def netdev_init_def vring_new_def ring_has_def)

text \<open>
  C28. Whatever the order in which the driver sends, the device takes and returns buffers and interrupts
  are handled, the device reads the frames that were given to the driver in their order, each once and
  unchanged: no buffer is filled again before the device has returned it, and the rings never overflow.
\<close>

theorem frames_sent_in_order:
  assumes "tx_step\<^sup>*\<^sup>* (tx_start mac) s"
  shows "\<exists>pend rets. ts_in s = ts_out s @ map (frame_in (ts_dev s)) pend \<and> distinct (pend @ ts_hold s @ rets) \<and>
    (\<forall>i < NUM. nd_tx_free (ts_dev s) ! i \<longleftrightarrow> i \<notin> set (pend @ ts_hold s @ rets))"
proof -
  have "\<exists>pend rets. tx_parts s pend rets" using assms
    by (induction rule: rtranclp_induct) (use tx_parts_start tx_parts_step in meson)+
  then obtain pend rets where "tx_parts s pend rets" by blast
  then show ?thesis by (intro exI [of _ pend] exI [of _ rets]) (auto simp: tx_parts_def Let_def)
qed

theorem frames_sent_in_order_witness:
  "\<exists>s. tx_step\<^sup>*\<^sup>* (tx_start []) s \<and> ts_in s = [[1, 2, 3]] \<and> ts_out s = [[1, 2, 3]] \<and> ts_hold s = [0] \<and> \<not> nd_tx_free (ts_dev s) ! 0"
proof -
  let ?f = "[1, 2, 3] :: byte list"
  define d where "d = tx_put 0 ?f ((netdev_init [])\<lparr>nd_tx_free := (nd_tx_free (netdev_init []))[0 := False]\<rparr>)"
  define a where "a = (tx_start [])\<lparr>ts_dev := d, ts_in := ts_in (tx_start []) @ [?f]\<rparr>"
  define b where "b = a\<lparr>ts_pos := ts_pos a + 1, ts_hold := 0 # ts_hold a, ts_out := ts_out a @ [frame_in (ts_dev a) 0]\<rparr>"
  have n: "replicate NUM x = x # replicate 7 x" for x :: 'b by (simp add: NUM_def numeral_eq_Suc)
  have "send_frame_inner ?f True (ts_dev (tx_start [])) = (Some (Ok ()), d)"
    by (simp add: send_frame_inner_def RX_BUF_SIZE_def alloc_tx_def tx_start_def d_def) (simp add: netdev_init_def n)
  then have 1: "tx_step (tx_start []) a" unfolding a_def by (rule send)
  have dv: "vr_idx (nd_tx d) = 1" "vr_ring (nd_tx d) ! 0 = 0"
    by (simp_all add: d_def tx_put_def Let_def netdev_init_def vring_new_def n)
  have fr: "frame_in d 0 = ?f" unfolding d_def by (rule frame_in_put) (simp_all add: netdev_init_def NUM_def RX_BUF_SIZE_def)
  have "tx_step a b" unfolding b_def by (rule take) (simp_all add: a_def tx_start_def dv)
  with 1 have r: "tx_step\<^sup>*\<^sup>* (tx_start []) b" by (meson rtranclp.rtrancl_into_rtrancl rtranclp.rtrancl_refl)
  have f: "ts_in b = [?f]" "ts_out b = [?f]" "ts_hold b = [0]" by (simp_all add: b_def a_def tx_start_def fr)
  from frames_sent_in_order [OF r] f have "\<not> nd_tx_free (ts_dev b) ! 0" by (auto simp: NUM_def)
  with r f show ?thesis by blast
qed

end
