(* ===== verification/Net.thy ===== *)
theory Net
  imports Virtio_Net Channel
begin

text \<open>
  The network stack (\<^verbatim>\<open>crates/kernel/src/net.rs\<close>): ARP, UDP and TCP over the device, with packets to
  the machine's own address handed back to the input functions. Sockets and listeners are shared
  objects: they live in a store with their reference counts, and the tables of ports and connections
  hold weak references, which can be upgraded as long as a count is positive.

  A packet to the own address is received inside the call that sends it, and receiving may send again:
  \<open>tcp_input\<close> is defined with a bound on this nesting, and sending takes the input function it hands
  local packets to as an argument. Exhausting the bound counts as a panic.

  The result \<open>None\<close> of a blocking operation means that the process goes to sleep.
\<close>

unbundle bit_operations_syntax

section \<open>State\<close>

definition UDP_QUEUE :: int where "UDP_QUEUE = 32"
definition TCP_QUEUE :: int where "TCP_QUEUE = 1024"
definition TCP_BACKLOG_MAX :: nat where "TCP_BACKLOG_MAX = 16"
definition ARP_TABLE_SIZE :: nat where "ARP_TABLE_SIZE = 16"
definition MSS :: nat where "MSS = 512"

record arp_entry =
  ae_ip :: ipv4
  ae_mac :: "byte list"
  ae_valid :: bool

record connkey =
  ck_local :: u16
  ck_remote :: u16
  ck_ip :: "byte list"

record udp_sock =
  us_refs :: nat
  us_port :: "u16 option"
  us_peer :: "sockaddr option"
  us_last :: "sockaddr option"
  us_chan :: "(sockaddr \<times> byte list) channel"

datatype tcp_state = Closed | SynSent | SynReceived | Established

record tcp_sock =
  tk_refs :: nat
  tk_local :: "sockaddr option"
  tk_peer :: "sockaddr option"
  tk_state :: tcp_state
  tk_snd :: u32
  tk_rcv :: u32
  tk_listener :: "nat option"
  tk_chan :: "byte channel"

record tcp_lst =
  tl_refs :: nat
  tl_port :: u16
  tl_chan :: "nat channel"

record netst =
  n_dev :: netdev
  n_mac :: "byte list"
  n_ip :: ipv4
  n_mask :: ipv4
  n_gw :: ipv4
  n_arp :: "arp_entry list"
  n_udp_ports :: "u16 \<rightharpoonup> nat list"
  n_listeners :: "u16 \<rightharpoonup> nat"
  n_conns :: "connkey \<rightharpoonup> nat"
  n_udp :: "nat \<Rightarrow> udp_sock"
  n_tcp :: "nat \<Rightarrow> tcp_sock"
  n_lst :: "nat \<Rightarrow> tcp_lst"
  n_next :: nat
  n_port :: usize
  n_arp_seq :: usize
  n_tcp_seq :: usize

type_synonym 'a nop = "netst \<Rightarrow> 'a result \<times> netst"

text \<open>Receiving a packet of a protocol: source, destination, data.\<close>

type_synonym input = "ipv4 \<Rightarrow> ipv4 \<Rightarrow> byte list \<Rightarrow> unit nop"

definition arp_empty :: arp_entry where
  "arp_empty = \<lparr>ae_ip = Ipv4Addr 0 0 0 0, ae_mac = replicate 6 0, ae_valid = False\<rparr>"

definition net_init :: "netst \<Rightarrow> netst" where
  "net_init s = s\<lparr>n_mac := nd_mac (n_dev s), n_ip := Ipv4Addr 10 0 2 15, n_mask := Ipv4Addr 255 255 255 0, n_gw := Ipv4Addr 10 0 2 2\<rparr>"

text \<open>The tables as they are declared, before and after \<^verbatim>\<open>init\<close>.\<close>

definition net_start :: "byte list \<Rightarrow> netst" where
  "net_start mac =
     \<lparr>n_dev = netdev_init mac, n_mac = replicate 6 0, n_ip = Ipv4Addr 0 0 0 0, n_mask = Ipv4Addr 0 0 0 0, n_gw = Ipv4Addr 0 0 0 0,
      n_arp = replicate ARP_TABLE_SIZE arp_empty, n_udp_ports = Map.empty, n_listeners = Map.empty, n_conns = Map.empty,
      n_udp = (\<lambda>h. \<lparr>us_refs = 0, us_port = None, us_peer = None, us_last = None, us_chan = \<lparr>ch_sem = \<lparr>sem_count = 0, sem_closed = False, sem_max = 0\<rparr>, ch_buf = [], ch_scnt = 0, ch_rcnt = 0\<rparr>\<rparr>),
      n_tcp = (\<lambda>h. \<lparr>tk_refs = 0, tk_local = None, tk_peer = None, tk_state = Closed, tk_snd = 0, tk_rcv = 0, tk_listener = None, tk_chan = \<lparr>ch_sem = \<lparr>sem_count = 0, sem_closed = False, sem_max = 0\<rparr>, ch_buf = [], ch_scnt = 0, ch_rcnt = 0\<rparr>\<rparr>),
      n_lst = (\<lambda>h. \<lparr>tl_refs = 0, tl_port = 0, tl_chan = \<lparr>ch_sem = \<lparr>sem_count = 0, sem_closed = False, sem_max = 0\<rparr>, ch_buf = [], ch_scnt = 0, ch_rcnt = 0\<rparr>\<rparr>),
      n_next = 0, n_port = 49152, n_arp_seq = 0, n_tcp_seq = 0\<rparr>"

definition conn_key :: "u16 \<Rightarrow> sockaddr \<Rightarrow> connkey" where
  "conn_key local_port remote = \<lparr>ck_local = local_port, ck_remote = sa_port remote, ck_ip = octets (sa_ip remote)\<rparr>"

abbreviation nmod :: "(netst \<Rightarrow> netst) \<Rightarrow> unit nop" where
  "nmod f \<equiv> \<lambda>s. (Ok (), f s)"

definition upd_udp :: "nat \<Rightarrow> (udp_sock \<Rightarrow> udp_sock) \<Rightarrow> netst \<Rightarrow> netst" where
  "upd_udp h f s = s\<lparr>n_udp := (n_udp s)(h := f (n_udp s h))\<rparr>"

definition upd_tcp :: "nat \<Rightarrow> (tcp_sock \<Rightarrow> tcp_sock) \<Rightarrow> netst \<Rightarrow> netst" where
  "upd_tcp h f s = s\<lparr>n_tcp := (n_tcp s)(h := f (n_tcp s h))\<rparr>"

definition upd_lst :: "nat \<Rightarrow> (tcp_lst \<Rightarrow> tcp_lst) \<Rightarrow> netst \<Rightarrow> netst" where
  "upd_lst h f s = s\<lparr>n_lst := (n_lst s)(h := f (n_lst s h))\<rparr>"

text \<open>An ignored result; a panic is not a result.\<close>

definition ignoring :: "'a result option \<times> netst \<Rightarrow> unit result \<times> netst" where
  "ignoring x = (case x of (Some Panic, s) \<Rightarrow> (Panic, s) | (_, s) \<Rightarrow> (Ok (), s))"

section \<open>ARP\<close>

fun arp_find :: "(arp_entry \<Rightarrow> bool) \<Rightarrow> arp_entry list \<Rightarrow> nat \<Rightarrow> nat option" where
  "arp_find P [] i = None"
| "arp_find P (e # es) i = (if P e then Some i else arp_find P es (i + 1))"

definition notify_arp :: "netst \<Rightarrow> netst" where
  "notify_arp s = s\<lparr>n_arp_seq := n_arp_seq s + 1\<rparr>"

definition notify_tcp :: "netst \<Rightarrow> netst" where
  "notify_tcp s = s\<lparr>n_tcp_seq := n_tcp_seq s + 1\<rparr>"

definition insert_arp :: "ipv4 \<Rightarrow> byte list \<Rightarrow> netst \<Rightarrow> netst" where
  "insert_arp ip mac s =
     (let new = \<lparr>ae_ip = ip, ae_mac = mac, ae_valid = True\<rparr> in
      case arp_find (\<lambda>e. ae_valid e \<and> ae_ip e = ip) (n_arp s) 0 of
        Some i \<Rightarrow> notify_arp (s\<lparr>n_arp := (n_arp s)[i := (n_arp s ! i)\<lparr>ae_mac := mac\<rparr>]\<rparr>)
      | None \<Rightarrow>
          (case arp_find (\<lambda>e. \<not> ae_valid e) (n_arp s) 0 of
             Some i \<Rightarrow> notify_arp (s\<lparr>n_arp := (n_arp s)[i := new]\<rparr>)
           | None \<Rightarrow> notify_arp (s\<lparr>n_arp := (n_arp s)[0 := new]\<rparr>)))"

definition lookup_arp :: "ipv4 \<Rightarrow> netst \<Rightarrow> byte list option" where
  "lookup_arp ip s = map_option (\<lambda>i. ae_mac (n_arp s ! i)) (arp_find (\<lambda>e. ae_valid e \<and> ae_ip e = ip) (n_arp s) 0)"

definition route_ip :: "ipv4 \<Rightarrow> netst \<Rightarrow> ipv4" where
  "route_ip dst s =
     (let mask = ipv4_u32 (n_mask s)
      in if ipv4_u32 dst AND mask = ipv4_u32 (n_ip s) AND mask then dst else n_gw s)"

definition send_frame :: "byte list \<Rightarrow> bool \<Rightarrow> netst \<Rightarrow> unit result option \<times> netst" where
  "send_frame frame nonblock s = (case send_frame_inner frame nonblock (n_dev s) of (r, d) \<Rightarrow> (r, s\<lparr>n_dev := d\<rparr>))"

definition send_arp_request :: "ipv4 \<Rightarrow> netst \<Rightarrow> unit result option \<times> netst" where
  "send_arp_request target_ip s =
     send_frame (build_eth_frame (n_mac s) (replicate 6 0xff) ETHERTYPE_ARP (arp_packet 1 (n_mac s) (n_ip s) (replicate 6 0) target_ip)) True s"

definition send_arp_reply :: "byte list \<Rightarrow> ipv4 \<Rightarrow> netst \<Rightarrow> unit result option \<times> netst" where
  "send_arp_reply target_mac target_ip s =
     send_frame (build_eth_frame (n_mac s) target_mac ETHERTYPE_ARP (arp_packet 2 (n_mac s) (n_ip s) target_mac target_ip)) True s"

definition handle_arp :: "byte list \<Rightarrow> unit nop" where
  "handle_arp payload =
     (if length payload < 28 then kret ()
      else need 28 payload (\<lambda>s.
        let opcode = of_be [payload ! 6, payload ! 7] :: u16;
            sender_mac = take 6 (drop 8 payload);
            s1 = insert_arp (ip_at 14 payload) sender_mac s
        in if opcode = 1 \<and> ip_at 24 payload = n_ip s1 then ignoring (send_arp_reply sender_mac (ip_at 14 payload) s1) else (Ok (), s1)))"

section \<open>UDP input\<close>

definition udp_alive :: "netst \<Rightarrow> nat \<Rightarrow> bool" where
  "udp_alive s h \<longleftrightarrow> 0 < us_refs (n_udp s h)"

definition udp_enqueue :: "sockaddr \<Rightarrow> byte list \<Rightarrow> nat \<Rightarrow> netst \<Rightarrow> netst" where
  "udp_enqueue src payload h s = upd_udp h (\<lambda>u. u\<lparr>us_chan := snd (chan_try_send (us_chan u) (src, payload))\<rparr>) s"

definition udp_input :: "ipv4 \<Rightarrow> byte list \<Rightarrow> unit nop" where
  "udp_input src_ip data =
     (if length data < 8 then kret ()
      else need 8 data (\<lambda>s.
        let src_port = of_be [data ! 0, data ! 1];
            dst_port = of_be [data ! 2, data ! 3];
            len = unat (of_be [data ! 4, data ! 5] :: u16)
        in if len < 8 \<or> length data < len then (Ok (), s)
           else need len data (\<lambda>s.
             case n_udp_ports s dst_port of
               None \<Rightarrow> (Ok (), s)
             | Some socks \<Rightarrow>
                 (let live = filter (udp_alive s) socks
                  in (Ok (), fold (udp_enqueue (SocketAddrV4 src_ip src_port) (take (len - 8) (drop 8 data))) live
                               (s\<lparr>n_udp_ports := (n_udp_ports s)(dst_port \<mapsto> live)\<rparr>)))) s))"

section \<open>Sending\<close>

definition send_ipv4_packet :: "input \<Rightarrow> byte \<Rightarrow> ipv4 \<Rightarrow> ipv4 \<Rightarrow> byte list \<Rightarrow> bool \<Rightarrow> netst \<Rightarrow> unit result option \<times> netst" where
  "send_ipv4_packet tcp proto src dst payload nonblock s =
     (if dst = n_ip s then
        (case (if proto = IP_PROTO_UDP then udp_input src payload s
               else if proto = IP_PROTO_TCP then tcp src dst payload s
               else (Ok (), s)) of
           (Panic, s1) \<Rightarrow> (Some Panic, s1)
         | (_, s1) \<Rightarrow> (Some (Ok ()), s1))
      else
        (let next_hop = route_ip dst s in
         case lookup_arp next_hop s of
           None \<Rightarrow> (case ignoring (send_arp_request next_hop s) of (Panic, s1) \<Rightarrow> (Some Panic, s1) | (_, s1) \<Rightarrow> (Some (Err WouldBlock), s1))
         | Some mac \<Rightarrow> send_frame (build_eth_frame (n_mac s) mac ETHERTYPE_IPV4 (build_ipv4_packet proto src dst payload)) nonblock s))"

text \<open>A blocking send that would block waits for an ARP reply.\<close>

definition send_ipv4_blocking :: "input \<Rightarrow> byte \<Rightarrow> ipv4 \<Rightarrow> ipv4 \<Rightarrow> byte list \<Rightarrow> bool \<Rightarrow> netst \<Rightarrow> unit result option \<times> netst" where
  "send_ipv4_blocking tcp proto src dst payload nonblock s =
     (case send_ipv4_packet tcp proto src dst payload nonblock s of
        (Some (Err WouldBlock), s1) \<Rightarrow> (if nonblock then Some (Err WouldBlock) else None, s1)
      | (r, s1) \<Rightarrow> (r, s1))"

definition send_udp_segment :: "input \<Rightarrow> sockaddr \<Rightarrow> sockaddr \<Rightarrow> byte list \<Rightarrow> bool \<Rightarrow> netst \<Rightarrow> unit result option \<times> netst" where
  "send_udp_segment tcp src dst payload nonblock =
     send_ipv4_blocking tcp IP_PROTO_UDP (sa_ip src) (sa_ip dst) (udp_segment src dst payload) nonblock"

definition send_tcp_segment :: "input \<Rightarrow> sockaddr \<Rightarrow> sockaddr \<Rightarrow> u32 \<Rightarrow> u32 \<Rightarrow> u16 \<Rightarrow> byte list \<Rightarrow> bool \<Rightarrow> netst \<Rightarrow> unit result option \<times> netst" where
  "send_tcp_segment tcp src dst seq ack flags payload nonblock =
     send_ipv4_blocking tcp IP_PROTO_TCP (sa_ip src) (sa_ip dst) (tcp_segment src dst seq ack flags payload) nonblock"

section \<open>TCP connections\<close>

definition tcp_alive :: "netst \<Rightarrow> nat \<Rightarrow> bool" where
  "tcp_alive s h \<longleftrightarrow> 0 < tk_refs (n_tcp s h)"

definition lst_alive :: "netst \<Rightarrow> nat \<Rightarrow> bool" where
  "lst_alive s h \<longleftrightarrow> 0 < tl_refs (n_lst s h)"

text \<open>Upgrading a weak reference of a table.\<close>

definition upgrade :: "(nat \<Rightarrow> bool) \<Rightarrow> nat option \<Rightarrow> nat option" where
  "upgrade alive r = (case r of Some h \<Rightarrow> if alive h then Some h else None | None \<Rightarrow> None)"

definition tcp_new :: "nat nop" where
  "tcp_new s =
     (case sync_channel TCP_QUEUE of
        Ok c \<Rightarrow>
          (Ok (n_next s),
           s\<lparr>n_tcp := (n_tcp s)(n_next s := \<lparr>tk_refs = 1, tk_local = None, tk_peer = None, tk_state = Closed, tk_snd = 0, tk_rcv = 0, tk_listener = None, tk_chan = c\<rparr>),
             n_next := n_next s + 1\<rparr>)
      | Err e \<Rightarrow> (Err e, s)
      | Panic \<Rightarrow> (Panic, s))"

definition tcp_clone :: "nat \<Rightarrow> netst \<Rightarrow> netst" where
  "tcp_clone h = upd_tcp h (\<lambda>k. k\<lparr>tk_refs := tk_refs k + 1\<rparr>)"

text \<open>The end of the last reference: an upgrade of the own entry fails, since the count is already 0.\<close>

definition tcp_drop :: "nat \<Rightarrow> netst \<Rightarrow> netst" where
  "tcp_drop h s =
     (let s1 = upd_tcp h (\<lambda>k. k\<lparr>tk_refs := tk_refs k - 1\<rparr>) s in
      if tk_refs (n_tcp s h) = 1 then
        (case (tk_peer (n_tcp s h), tk_local (n_tcp s h)) of
           (Some peer, Some local_a) \<Rightarrow>
             (let key = conn_key (sa_port local_a) peer
              in if upgrade (tcp_alive s1) (n_conns s1 key) = Some h then s1\<lparr>n_conns := (n_conns s1)(key := None)\<rparr> else s1)
         | _ \<Rightarrow> s1)
      else s1)"

definition init_passive :: "nat \<Rightarrow> ipv4 \<Rightarrow> u16 \<Rightarrow> sockaddr \<Rightarrow> nat \<Rightarrow> u32 \<Rightarrow> netst \<Rightarrow> netst" where
  "init_passive h local_ip local_port remote listener seq =
     upd_tcp h (\<lambda>k. k\<lparr>tk_local := Some (SocketAddrV4 local_ip local_port), tk_peer := Some remote, tk_state := SynReceived,
       tk_rcv := seq + 1, tk_snd := 1, tk_listener := Some listener\<rparr>)"

text \<open>Handing a connection to a listener: a reference more if there is room.\<close>

definition lst_enqueue :: "nat \<Rightarrow> nat \<Rightarrow> netst \<Rightarrow> netst" where
  "lst_enqueue l h s =
     (case chan_try_send (tl_chan (n_lst s l)) h of
        (Ok _, c) \<Rightarrow> tcp_clone h (upd_lst l (\<lambda>x. x\<lparr>tl_chan := c\<rparr>) s)
      | (_, c) \<Rightarrow> upd_lst l (\<lambda>x. x\<lparr>tl_chan := c\<rparr>) s)"

text \<open>The bytes of a segment, up to the first that finds the queue full.\<close>

fun push_bytes :: "byte list \<Rightarrow> byte channel \<Rightarrow> byte channel" where
  "push_bytes [] c = c"
| "push_bytes (b # bs) c = (case chan_try_send c b of (Ok _, c') \<Rightarrow> push_bytes bs c' | (_, c') \<Rightarrow> c')"

definition on_segment :: "input \<Rightarrow> nat \<Rightarrow> sockaddr \<Rightarrow> u32 \<Rightarrow> u32 \<Rightarrow> u16 \<Rightarrow> byte list \<Rightarrow> unit nop" where
  "on_segment tcp h remote seq ack flags payload s =
     (let k = n_tcp s h in
      case tk_state k of
        SynSent \<Rightarrow>
          (if flags AND 0x12 = 0x12 \<and> ack = tk_snd k then
             (let s1 = upd_tcp h (\<lambda>k. k\<lparr>tk_peer := Some remote, tk_rcv := seq + 1, tk_state := Established\<rparr>) s in
              case tk_local k of
                None \<Rightarrow> (Ok (), s1)
              | Some local_a \<Rightarrow>
                  kbind (\<lambda>s. ignoring (send_tcp_segment tcp local_a remote (tk_snd k) (seq + 1) 0x10 [] True s)) (\<lambda>_. nmod notify_tcp) s1)
           else (Ok (), s))
      | SynReceived \<Rightarrow>
          (if flags AND 0x10 \<noteq> 0 \<and> ack = tk_snd k then
             (let s1 = upd_tcp h (\<lambda>k. k\<lparr>tk_state := Established, tk_listener := None\<rparr>) s
              in (Ok (), notify_tcp (case upgrade (lst_alive s1) (tk_listener k) of Some l \<Rightarrow> lst_enqueue l h s1 | None \<Rightarrow> s1)))
           else (Ok (), s))
      | Established \<Rightarrow>
          (if payload \<noteq> [] \<and> seq = tk_rcv k then
             (let rcv = tk_rcv k + of_nat (length payload);
                  s1 = upd_tcp h (\<lambda>k. k\<lparr>tk_rcv := rcv, tk_chan := push_bytes payload (tk_chan k)\<rparr>) s
              in case (tk_local k, tk_peer k) of
                   (Some local_a, Some peer) \<Rightarrow> ignoring (send_tcp_segment tcp local_a peer (tk_snd k) rcv 0x10 [] True s1)
                 | _ \<Rightarrow> (Panic, s1))
           else (Ok (), s))
      | Closed \<Rightarrow> (Ok (), s))"

text \<open>A connection request for a listening port. The connection is owned by this call, the table has
  only a weak reference to it.\<close>

definition tcp_accept_syn :: "input \<Rightarrow> ipv4 \<Rightarrow> u16 \<Rightarrow> sockaddr \<Rightarrow> nat \<Rightarrow> u32 \<Rightarrow> unit nop" where
  "tcp_accept_syn tcp dst_ip dst_port remote listener seq =
     kbind tcp_new (\<lambda>h s.
       let s1 = init_passive h dst_ip dst_port remote listener seq s;
           s2 = s1\<lparr>n_conns := (n_conns s1)(conn_key dst_port remote \<mapsto> h)\<rparr>;
           syn_seq = tk_snd (n_tcp s2 h);
           s3 = upd_tcp h (\<lambda>k. k\<lparr>tk_snd := tk_snd k + 1\<rparr>) s2
       in kbind (\<lambda>s. ignoring (send_tcp_segment tcp (SocketAddrV4 dst_ip dst_port) remote syn_seq (tk_rcv (n_tcp s3 h)) 0x12 [] True s))
            (\<lambda>_. nmod (tcp_drop h)) s3)"

definition tcp_dispatch :: "input \<Rightarrow> ipv4 \<Rightarrow> u16 \<Rightarrow> sockaddr \<Rightarrow> u32 \<Rightarrow> u32 \<Rightarrow> u16 \<Rightarrow> byte list \<Rightarrow> unit nop" where
  "tcp_dispatch tcp dst_ip dst_port remote seq ack flags payload s =
     (case upgrade (tcp_alive s) (n_conns s (conn_key dst_port remote)) of
        Some h \<Rightarrow> kbind (on_segment tcp h remote seq ack flags payload) (\<lambda>_. nmod (tcp_drop h)) (tcp_clone h s)
      | None \<Rightarrow>
          (if flags AND 0x02 = 0 then (Ok (), s)
           else
             (case upgrade (lst_alive s) (n_listeners s dst_port) of
                None \<Rightarrow> (Ok (), s)
              | Some l \<Rightarrow> tcp_accept_syn tcp dst_ip dst_port remote l seq s)))"

definition tcp_body :: "input \<Rightarrow> input" where
  "tcp_body tcp src_ip dst_ip data =
     (if length data < 20 then kret ()
      else need 20 data (\<lambda>s.
        let src_port = of_be [data ! 0, data ! 1];
            dst_port = of_be [data ! 2, data ! 3];
            seq = of_be [data ! 4, data ! 5, data ! 6, data ! 7];
            ack = of_be [data ! 8, data ! 9, data ! 10, data ! 11];
            hdr_len = unat (drop_bit 4 (data ! 12)) * 4
        in if hdr_len < 20 \<or> length data < hdr_len then (Ok (), s)
           else need hdr_len data (tcp_dispatch tcp dst_ip dst_port (SocketAddrV4 src_ip src_port) seq ack (ucast (data ! 13)) (drop hdr_len data)) s))"

primrec tcp_input :: "nat \<Rightarrow> input" where
  "tcp_input 0 = (\<lambda>src dst data s. (Panic, s))"
| "tcp_input (Suc d) = tcp_body (tcp_input d)"

text \<open>The nesting of local packets is at most three (\<open>tcp_nesting\<close> in \<open>Net_Input\<close>).\<close>

definition tcp_top :: input where
  "tcp_top = tcp_input 3"

section \<open>Frames\<close>

definition handle_ipv4 :: "byte list \<Rightarrow> unit nop" where
  "handle_ipv4 payload =
     (if length payload < 20 then kret ()
      else need 20 payload (\<lambda>s.
        if drop_bit 4 (payload ! 0) \<noteq> 4 then (Ok (), s)
        else
          (let ihl = unat (payload ! 0 AND 0x0f) * 4 in
           if length payload < ihl then (Ok (), s)
           else
             (let total_len = unat (of_be [payload ! 2, payload ! 3] :: u16) in
              if total_len < ihl \<or> length payload < total_len then (Ok (), s)
              else if ip_at 16 payload \<noteq> n_ip s then (Ok (), s)
              else need total_len payload (\<lambda>s.
                let data = take (total_len - ihl) (drop ihl payload) in
                if payload ! 9 = IP_PROTO_UDP then udp_input (ip_at 12 payload) data s
                else if payload ! 9 = IP_PROTO_TCP then tcp_top (ip_at 12 payload) (ip_at 16 payload) data s
                else (Ok (), s)) s))))"

definition handle_frame :: "byte list \<Rightarrow> unit nop" where
  "handle_frame frame =
     (if length frame < 14 then kret ()
      else need 14 frame (
        let ethertype = of_be [frame ! 12, frame ! 13]; payload = drop 14 frame in
        if ethertype = ETHERTYPE_ARP then handle_arp payload
        else if ethertype = ETHERTYPE_IPV4 then handle_ipv4 payload
        else kret ()))"

text \<open>The received frames, as many as the used ring shows, and the interrupt handler, which holds the
  lock of the device all the time.\<close>

fun handle_rx :: "nat \<Rightarrow> unit nop" where
  "handle_rx 0 s = (Ok (), s)"
| "handle_rx (Suc n) s =
     kbind (case rx_frame (n_dev s) of Some f \<Rightarrow> handle_frame f | None \<Rightarrow> kret ())
       (\<lambda>_ s1. handle_rx n (s1\<lparr>n_dev := rx_recycle (n_dev s1)\<rparr>)) s"

definition net_intr :: "unit nop" where
  "net_intr s =
     (if nd_held (n_dev s) then (Panic, s)
      else
        (let d = handle_tx ((n_dev s)\<lparr>nd_held := True\<rparr>) in
         kbind (handle_rx (unat (vr_used_idx (nd_rx d) - vr_seen (nd_rx d))))
           (\<lambda>_. nmod (\<lambda>s. s\<lparr>n_dev := (n_dev s)\<lparr>nd_held := False\<rparr>\<rparr>)) (s\<lparr>n_dev := d\<rparr>)))"

end
