(* ===== verification/Net_Sock.thy ===== *)
theory Net_Sock
  imports Net
begin

text \<open>
  The operations of UDP sockets, TCP sockets and TCP listeners (\<^verbatim>\<open>crates/kernel/src/net.rs\<close>). The
  copies from and to the caller's memory are arguments: \<open>cin a n\<close> are the \<open>n\<close> bytes at \<open>a\<close> and \<open>cout\<close>
  stores bytes; both can fail.
\<close>

type_synonym 'm cout = "nat \<Rightarrow> byte list \<Rightarrow> 'm \<Rightarrow> unit result \<times> 'm"
type_synonym cin = "nat \<Rightarrow> nat \<Rightarrow> byte list result"

section \<open>UDP\<close>

text \<open>Past 65535 the counter leaves the range of ports, and the fallback is always the same port.\<close>

definition alloc_ephemeral_port :: "netst \<Rightarrow> u16 \<times> netst" where
  "alloc_ephemeral_port s =
     (let port = ucast (n_port s) :: u16 in (if port < 49152 then 49152 else port, s\<lparr>n_port := n_port s + 1\<rparr>))"

definition udp_new :: "nat nop" where
  "udp_new s =
     (case sync_channel UDP_QUEUE of
        Ok c \<Rightarrow>
          (Ok (n_next s),
           s\<lparr>n_udp := (n_udp s)(n_next s := \<lparr>us_refs = 1, us_port = None, us_peer = None, us_last = None, us_chan = c\<rparr>), n_next := n_next s + 1\<rparr>)
      | Err e \<Rightarrow> (Err e, s)
      | Panic \<Rightarrow> (Panic, s))"

definition udp_bind :: "nat \<Rightarrow> u16 \<Rightarrow> unit nop" where
  "udp_bind h port s =
     (if port = 0 then (Err InvalidArgument, s)
      else
        (let live = filter (udp_alive s) (case n_udp_ports s port of Some l \<Rightarrow> l | None \<Rightarrow> []) in
         if live \<noteq> [] then (Err ResourceBusy, s\<lparr>n_udp_ports := (n_udp_ports s)(port \<mapsto> live)\<rparr>)
         else (Ok (), upd_udp h (\<lambda>u. u\<lparr>us_port := Some port\<rparr>) (s\<lparr>n_udp_ports := (n_udp_ports s)(port \<mapsto> [h])\<rparr>))))"

definition udp_connect :: "nat \<Rightarrow> sockaddr \<Rightarrow> unit nop" where
  "udp_connect h peer s = (Ok (), upd_udp h (\<lambda>u. u\<lparr>us_peer := Some peer\<rparr>) s)"

definition udp_read :: "'m cout \<Rightarrow> nat \<Rightarrow> nat \<Rightarrow> nat \<Rightarrow> bool \<Rightarrow> netst \<times> 'm \<Rightarrow> nat result option \<times> netst \<times> 'm" where
  "udp_read cout h dst n nonblock st =
     (case st of (s, m) \<Rightarrow>
        (case (if nonblock then (case chan_try_recv (us_chan (n_udp s h)) of (r, c) \<Rightarrow> (Some r, c)) else chan_recv (us_chan (n_udp s h))) of
           (None, c) \<Rightarrow> (None, s, m)
         | (Some (Err e), c) \<Rightarrow> (Some (Err e), upd_udp h (\<lambda>u. u\<lparr>us_chan := c\<rparr>) s, m)
         | (Some Panic, c) \<Rightarrow> (Some Panic, s, m)
         | (Some (Ok (src, data)), c) \<Rightarrow>
             (let s1 = upd_udp h (\<lambda>u. u\<lparr>us_chan := c, us_last := Some src\<rparr>) s; k = min n (length data) in
              case cout dst (take k data) m of
                (Ok _, m1) \<Rightarrow> (Some (Ok k), s1, m1)
              | (Err e, m1) \<Rightarrow> (Some (Err e), s1, m1)
              | (Panic, m1) \<Rightarrow> (Some Panic, s1, m1))))"

text \<open>The port is stored before it is bound: a failing \<^verbatim>\<open>bind\<close> leaves it stored.\<close>

definition udp_local_port :: "nat \<Rightarrow> u16 nop" where
  "udp_local_port h s =
     (case us_port (n_udp s h) of
        Some p \<Rightarrow> (Ok p, s)
      | None \<Rightarrow>
          (case alloc_ephemeral_port s of
             (p, s1) \<Rightarrow> kbind (udp_bind h p) (\<lambda>_. kret p) (upd_udp h (\<lambda>u. u\<lparr>us_port := Some p\<rparr>) s1)))"

definition udp_write :: "cin \<Rightarrow> nat \<Rightarrow> nat \<Rightarrow> nat \<Rightarrow> bool \<Rightarrow> netst \<Rightarrow> nat result option \<times> netst" where
  "udp_write cin h src n nonblock s =
     (if n = 0 then (Some (Ok 0), s)
      else
        (case cin src n of
           Err e \<Rightarrow> (Some (Err e), s)
         | Panic \<Rightarrow> (Some Panic, s)
         | Ok buf \<Rightarrow>
             (case (case us_peer (n_udp s h) of Some p \<Rightarrow> Some p | None \<Rightarrow> us_last (n_udp s h)) of
                None \<Rightarrow> (Some (Err NotConnected), s)
              | Some peer \<Rightarrow>
                  (case udp_local_port h s of
                     (Err e, s1) \<Rightarrow> (Some (Err e), s1)
                   | (Panic, s1) \<Rightarrow> (Some Panic, s1)
                   | (Ok port, s1) \<Rightarrow>
                       (case send_udp_segment tcp_top (SocketAddrV4 (n_ip s1) port) peer buf nonblock s1 of
                          (Some (Ok _), s2) \<Rightarrow> (Some (Ok n), s2)
                        | (Some (Err e), s2) \<Rightarrow> (Some (Err e), s2)
                        | (Some Panic, s2) \<Rightarrow> (Some Panic, s2)
                        | (None, s2) \<Rightarrow> (None, s2))))))"

definition udp_poll_readable :: "nat \<Rightarrow> netst \<Rightarrow> bool" where
  "udp_poll_readable h s \<longleftrightarrow> has_data (us_chan (n_udp s h))"

definition udp_poll_writable :: "nat \<Rightarrow> netst \<Rightarrow> bool" where
  "udp_poll_writable h s \<longleftrightarrow> us_peer (n_udp s h) \<noteq> None \<or> us_last (n_udp s h) \<noteq> None"

text \<open>The end of the last reference removes the dead entries of the port; the own one is dead.\<close>

definition udp_drop :: "nat \<Rightarrow> netst \<Rightarrow> netst" where
  "udp_drop h s =
     (let s1 = upd_udp h (\<lambda>u. u\<lparr>us_refs := us_refs u - 1\<rparr>) s in
      if us_refs (n_udp s h) = 1 then
        (case us_port (n_udp s h) of
           None \<Rightarrow> s1
         | Some port \<Rightarrow>
             (case n_udp_ports s1 port of
                None \<Rightarrow> s1
              | Some l \<Rightarrow>
                  (let live = filter (\<lambda>g. g \<noteq> h) (filter (udp_alive s1) l)
                   in s1\<lparr>n_udp_ports := (n_udp_ports s1)(port := if live = [] then None else Some live)\<rparr>)))
      else s1)"

section \<open>TCP\<close>

definition tcp_bind :: "nat \<Rightarrow> u16 \<Rightarrow> unit nop" where
  "tcp_bind h port s =
     (if port = 0 then (Err InvalidArgument, s)
      else (Ok (), upd_tcp h (\<lambda>k. k\<lparr>tk_local := Some (SocketAddrV4 (n_ip s) port)\<rparr>) s))"

text \<open>\<^verbatim>\<open>connect\<close>: entering the connection and asking for it, and then one look at its state.\<close>

definition connect_enter :: "nat \<Rightarrow> sockaddr \<Rightarrow> netst \<Rightarrow> sockaddr \<times> netst" where
  "connect_enter h peer s =
     (let (local_a, s1) =
            (case tk_local (n_tcp s h) of
               Some a \<Rightarrow> (a, s)
             | None \<Rightarrow> (case alloc_ephemeral_port s of (p, s1) \<Rightarrow> (SocketAddrV4 (n_ip s1) p, s1)));
          s2 = upd_tcp h (\<lambda>k. k\<lparr>tk_local := Some local_a, tk_peer := Some peer, tk_state := SynSent, tk_snd := 1, tk_rcv := 0\<rparr>) s1
      in (SocketAddrV4 (n_ip s2) (sa_port local_a), s2\<lparr>n_conns := (n_conns s2)(conn_key (sa_port local_a) peer \<mapsto> h)\<rparr>))"

definition connect_wait :: "bool \<Rightarrow> nat \<Rightarrow> netst \<Rightarrow> unit result option" where
  "connect_wait killed h s =
     (case tk_state (n_tcp s h) of
        Established \<Rightarrow> Some (Ok ())
      | Closed \<Rightarrow> Some (Err NotConnected)
      | _ \<Rightarrow> if killed then Some (Err Interrupted) else None)"

definition tcp_connect :: "bool \<Rightarrow> nat \<Rightarrow> sockaddr \<Rightarrow> bool \<Rightarrow> netst \<Rightarrow> unit result option \<times> netst" where
  "tcp_connect killed h peer nonblock s =
     (if tk_state (n_tcp s h) = Established then (Some (Ok ()), s)
      else
        (case connect_enter h peer s of
           (local_a, s1) \<Rightarrow>
             (case send_tcp_segment tcp_top local_a peer 0 0 0x02 [] nonblock s1 of
                (Some Panic, s2) \<Rightarrow> (Some Panic, s2)
              | (None, s2) \<Rightarrow> (None, s2)
              | (_, s2) \<Rightarrow> (if nonblock then Some (Err WouldBlock) else connect_wait killed h s2, s2))))"

fun tcp_read_rest :: "'m cout \<Rightarrow> nat \<Rightarrow> nat \<Rightarrow> nat \<Rightarrow> byte channel \<Rightarrow> 'm \<Rightarrow> nat result \<times> byte channel \<times> 'm" where
  "tcp_read_rest cout 0 dst got c m = (Ok got, c, m)"
| "tcp_read_rest cout (Suc n) dst got c m =
     (case chan_try_recv c of
        (Ok b, c1) \<Rightarrow>
          (case cout dst [b] m of
             (Ok _, m1) \<Rightarrow> tcp_read_rest cout n (dst + 1) (got + 1) c1 m1
           | (Err e, m1) \<Rightarrow> (Err e, c1, m1)
           | (Panic, m1) \<Rightarrow> (Panic, c1, m1))
      | (Err e, c1) \<Rightarrow> (Ok got, c1, m)
      | (Panic, c1) \<Rightarrow> (Panic, c1, m))"

definition tcp_read :: "'m cout \<Rightarrow> nat \<Rightarrow> nat \<Rightarrow> nat \<Rightarrow> bool \<Rightarrow> netst \<times> 'm \<Rightarrow> nat result option \<times> netst \<times> 'm" where
  "tcp_read cout h dst n nonblock st =
     (case st of (s, m) \<Rightarrow>
        (if n = 0 then (Some (Ok 0), s, m)
         else
           (case (if nonblock then (case chan_try_recv (tk_chan (n_tcp s h)) of (r, c) \<Rightarrow> (Some r, c)) else chan_recv (tk_chan (n_tcp s h))) of
              (None, c) \<Rightarrow> (None, s, m)
            | (Some (Err e), c) \<Rightarrow> (Some (Err e), upd_tcp h (\<lambda>k. k\<lparr>tk_chan := c\<rparr>) s, m)
            | (Some Panic, c) \<Rightarrow> (Some Panic, s, m)
            | (Some (Ok b), c) \<Rightarrow>
                (case cout dst [b] m of
                   (Err e, m1) \<Rightarrow> (Some (Err e), upd_tcp h (\<lambda>k. k\<lparr>tk_chan := c\<rparr>) s, m1)
                 | (Panic, m1) \<Rightarrow> (Some Panic, s, m1)
                 | (Ok _, m1) \<Rightarrow>
                     (case tcp_read_rest cout (n - 1) (dst + 1) 1 c m1 of
                        (r, c2, m2) \<Rightarrow> (Some r, upd_tcp h (\<lambda>k. k\<lparr>tk_chan := c2\<rparr>) s, m2))))))"

text \<open>
  The chunks of a write. A write that sleeps, waiting for an ARP reply or a free buffer, stops here with
  the number of bytes sent so far and goes on later with the same sequence number.
\<close>

datatype wprog = WRet "nat result" | WSleep nat u32

function tcp_write_loop :: "cin \<Rightarrow> sockaddr \<Rightarrow> sockaddr \<Rightarrow> u32 \<Rightarrow> bool \<Rightarrow> nat \<Rightarrow> nat \<Rightarrow> nat \<Rightarrow> u32 \<Rightarrow> netst \<Rightarrow> wprog \<times> u32 \<times> netst" where
  "tcp_write_loop cin local_a peer ack nonblock src n sent seq s =
     (if 0 < n then
        (let chunk = min n MSS in
         case cin src chunk of
           Err e \<Rightarrow> (WRet (Err e), seq, s)
         | Panic \<Rightarrow> (WRet Panic, seq, s)
         | Ok buf \<Rightarrow>
             (case send_tcp_segment tcp_top local_a peer seq ack 0x18 buf nonblock s of
                (Some (Ok _), s1) \<Rightarrow> tcp_write_loop cin local_a peer ack nonblock (src + chunk) (n - chunk) (sent + chunk) (seq + of_nat chunk) s1
              | (Some (Err e), s1) \<Rightarrow> (WRet (Err e), seq, s1)
              | (Some Panic, s1) \<Rightarrow> (WRet Panic, seq, s1)
              | (None, s1) \<Rightarrow> (WSleep sent seq, seq, s1)))
      else (WRet (Ok sent), seq, s))"
  by pat_completeness auto
termination
  by (relation "measure (\<lambda>(cin, local_a, peer, ack, nonblock, src, n, sent, seq, s). n)") (auto simp: MSS_def)

declare tcp_write_loop.simps [simp del]

text \<open>Only a write that ends well stores the next sequence number.\<close>

definition tcp_write :: "cin \<Rightarrow> nat \<Rightarrow> nat \<Rightarrow> nat \<Rightarrow> bool \<Rightarrow> netst \<Rightarrow> wprog \<times> netst" where
  "tcp_write cin h src n nonblock s =
     (let k = n_tcp s h in
      if tk_state k \<noteq> Established then (WRet (Err NotConnected), s)
      else
        (case (tk_local k, tk_peer k) of
           (Some local_a, Some peer) \<Rightarrow>
             (case tcp_write_loop cin local_a peer (tk_rcv k) nonblock src n 0 (tk_snd k) s of
                (WRet (Ok sent), seq, s1) \<Rightarrow> (WRet (Ok sent), upd_tcp h (\<lambda>k. k\<lparr>tk_snd := seq\<rparr>) s1)
              | (w, seq, s1) \<Rightarrow> (w, s1))
         | _ \<Rightarrow> (WRet (Err NotConnected), s)))"

definition tcp_poll_readable :: "nat \<Rightarrow> netst \<Rightarrow> bool" where
  "tcp_poll_readable h s \<longleftrightarrow> has_data (tk_chan (n_tcp s h))"

definition tcp_poll_writable :: "nat \<Rightarrow> netst \<Rightarrow> bool" where
  "tcp_poll_writable h s \<longleftrightarrow> tk_state (n_tcp s h) = Established"

section \<open>Listeners\<close>

definition lst_new :: "nat \<Rightarrow> u16 \<Rightarrow> nat nop" where
  "lst_new backlog port s =
     (case sync_channel (int (min (max backlog 1) TCP_BACKLOG_MAX)) of
        Ok c \<Rightarrow> (Ok (n_next s), s\<lparr>n_lst := (n_lst s)(n_next s := \<lparr>tl_refs = 1, tl_port = port, tl_chan = c\<rparr>), n_next := n_next s + 1\<rparr>)
      | Err e \<Rightarrow> (Err e, s)
      | Panic \<Rightarrow> (Panic, s))"

definition lst_register :: "nat \<Rightarrow> unit nop" where
  "lst_register l s =
     (let port = tl_port (n_lst s l) in
      if upgrade (lst_alive s) (n_listeners s port) \<noteq> None then (Err ResourceBusy, s)
      else (Ok (), s\<lparr>n_listeners := (n_listeners s)(port \<mapsto> l)\<rparr>))"

definition lst_accept :: "nat \<Rightarrow> bool \<Rightarrow> netst \<Rightarrow> nat result option \<times> netst" where
  "lst_accept l nonblock s =
     (case (if nonblock then (case chan_try_recv (tl_chan (n_lst s l)) of (r, c) \<Rightarrow> (Some r, c)) else chan_recv (tl_chan (n_lst s l))) of
        (r, c) \<Rightarrow> (r, upd_lst l (\<lambda>x. x\<lparr>tl_chan := c\<rparr>) s))"

definition lst_drop :: "nat \<Rightarrow> netst \<Rightarrow> netst" where
  "lst_drop l s =
     (let s1 = upd_lst l (\<lambda>x. x\<lparr>tl_refs := tl_refs x - 1\<rparr>) s; port = tl_port (n_lst s l) in
      if tl_refs (n_lst s l) = 1 then
        (let s2 = fold tcp_drop (ch_buf (tl_chan (n_lst s l))) s1
         in if upgrade (lst_alive s1) (n_listeners s1 port) = Some l then s2\<lparr>n_listeners := (n_listeners s2)(port := None)\<rparr> else s2)
      else s1)"

end
