(* ===== verification/Net_Input.thy ===== *)
theory Net_Input
  imports Net_Sock
begin

text \<open>
  Receiving packets: segments built by the stack are read back as they were written, packets to the own
  address nest at most three deep, and no frame makes the stack panic as long as the lock of the device
  is free. In the interrupt handler it is not free, and whatever has to be answered there panics.
\<close>

unbundle bit_operations_syntax

section \<open>Reading segments back\<close>

lemma be_bytes_2E:
  obtains a b where "be_bytes 2 (w :: u16) = [a, b]" "of_be [a, b] = w"
proof -
  obtain a b where ab: "be_bytes 2 w = [a, b]"
    using length_be_bytes [of 2 w] by (metis (no_types) One_nat_def Suc_1 length_0_conv length_Suc_conv)
  then have "of_be [a, b] = w" using of_be_be_bytes [of 2 w] by simp
  with ab that show thesis by blast
qed

lemma be_bytes_4E:
  obtains a b c d where "be_bytes 4 (w :: u32) = [a, b, c, d]" "of_be [a, b, c, d] = w"
proof -
  have "length (be_bytes 4 w) = Suc (Suc (Suc (Suc 0)))" by simp
  then have "\<exists>a b c d. be_bytes 4 w = [a, b, c, d]" by (auto simp only: length_Suc_conv length_0_conv)
  then obtain a b c d where ab: "be_bytes 4 w = [a, b, c, d]" by blast
  then have "of_be [a, b, c, d] = w" using of_be_be_bytes [of 4 w] by simp
  with ab that show thesis by blast
qed

text \<open>The flags the stack sends: SYN, ACK, SYN and ACK, PSH and ACK.\<close>

definition sent_flags :: "u16 \<Rightarrow> bool" where
  "sent_flags f \<longleftrightarrow> f = 0x02 \<or> f = 0x10 \<or> f = 0x12 \<or> f = 0x18"

lemma flag_bytes:
  assumes "sent_flags f"
  obtains x y where "be_bytes 2 (push_bit 12 5 OR (f AND 0x01ff)) = [x, y]" "unat (drop_bit 4 x) = 5" "ucast y = f"
proof -
  have "unat (drop_bit 4 (ucast (drop_bit 8 (push_bit 12 5 OR (f AND 0x01ff))) :: byte)) = 5"
    "ucast (ucast (push_bit 12 5 OR (f AND 0x01ff)) :: byte) = f"
    using assms by (auto simp: sent_flags_def)
  with that [OF be_bytes_pair] show thesis by blast
qed

lemma tcp_body_segment:
  assumes "sent_flags f"
  shows "tcp_body t (sa_ip src) dip (tcp_segment src dst seq ack f payload) =
    tcp_dispatch t dip (sa_port dst) src seq ack f payload"
proof -
  obtain a b where p: "be_bytes 2 (sa_port src) = [a, b]" "of_be [a, b] = sa_port src" by (rule be_bytes_2E)
  obtain c d where q: "be_bytes 2 (sa_port dst) = [c, d]" "of_be [c, d] = sa_port dst" by (rule be_bytes_2E)
  obtain e0 e1 e2 e3 where e: "be_bytes 4 seq = [e0, e1, e2, e3]" "of_be [e0, e1, e2, e3] = seq" by (rule be_bytes_4E)
  obtain g0 g1 g2 g3 where g: "be_bytes 4 ack = [g0, g1, g2, g3]" "of_be [g0, g1, g2, g3] = ack" by (rule be_bytes_4E)
  obtain x y where f: "be_bytes 2 (push_bit 12 5 OR (f AND 0x01ff)) = [x, y]" "unat (drop_bit 4 x) = 5" "ucast y = f"
    by (rule flag_bytes [OF assms])
  obtain w0 w1 where w: "be_bytes 2 (1024 :: u16) = [w0, w1]" by (rule be_bytes_2E)
  obtain z0 z1 where z: "be_bytes 2 (0 :: u16) = [z0, z1]" by (rule be_bytes_2E)
  have h: "tcp_head src dst seq ack f = [a, b, c, d, e0, e1, e2, e3, g0, g1, g2, g3, x, y, w0, w1]"
    unfolding tcp_head_def p(1) q(1) e(1) g(1) f(1) w by simp
  define csum where "csum = checksum_parts [pseudo_header (sa_ip src) (sa_ip dst) (20 + length payload), tcp_head src dst seq ack f @ be_bytes 2 (0 :: u16) @ be_bytes 2 (0 :: u16), payload]"
  obtain k0 k1 where k: "be_bytes 2 csum = [k0, k1]" by (rule be_bytes_2E)
  have "tcp_segment src dst seq ack f payload =
      [a, b, c, d, e0, e1, e2, e3, g0, g1, g2, g3, x, y, w0, w1, k0, k1, z0, z1] @ payload"
    unfolding tcp_segment_def Let_def csum_def [symmetric] unfolding h z k by simp
  then show ?thesis by (rule ssubst) (rule ext, simp add: tcp_body_def p q e g f)
qed

lemma udp_input_segment:
  assumes "length payload < 65528"
  shows "udp_input sip (udp_segment src dst payload) s =
    (case n_udp_ports s (sa_port dst) of
       None \<Rightarrow> (Ok (), s)
     | Some socks \<Rightarrow>
         (Ok (), fold (udp_enqueue (SocketAddrV4 sip (sa_port src)) payload) (filter (udp_alive s) socks)
                   (s\<lparr>n_udp_ports := (n_udp_ports s)(sa_port dst \<mapsto> filter (udp_alive s) socks)\<rparr>)))"
proof -
  obtain a b where p: "be_bytes 2 (sa_port src) = [a, b]" "of_be [a, b] = sa_port src" by (rule be_bytes_2E)
  obtain c d where q: "be_bytes 2 (sa_port dst) = [c, d]" "of_be [c, d] = sa_port dst" by (rule be_bytes_2E)
  obtain e g where e: "be_bytes 2 (of_nat (8 + length payload) :: u16) = [e, g]" "of_be [e, g] = (of_nat (8 + length payload) :: u16)"
    by (rule be_bytes_2E)
  obtain x y where z: "be_bytes 2 (0 :: u16) = [x, y]" by (rule be_bytes_2E)
  have n: "unat (of_be [e, g] :: u16) = 8 + length payload" using assms by (simp only: e(2) unat_of_nat) simp
  have "udp_segment src dst payload = [a, b, c, d, e, g, x, y] @ payload" unfolding udp_segment_def p(1) q(1) e(1) z(1) by simp
  then show ?thesis by (rule ssubst) (simp add: udp_input_def n p q Let_def fun_upd_def split: option.split)
qed

section \<open>Nesting\<close>

lemma send_segment_cong:
  assumes "sa_ip b = n_ip s \<Longrightarrow> t (sa_ip a) (sa_ip b) (tcp_segment a b seq ack f payload) s = u (sa_ip a) (sa_ip b) (tcp_segment a b seq ack f payload) s"
  shows "send_tcp_segment t a b seq ack f payload nb s = send_tcp_segment u a b seq ack f payload nb s"
  using assms by (simp add: send_tcp_segment_def send_ipv4_blocking_def send_ipv4_packet_def IP_PROTO_TCP_def IP_PROTO_UDP_def)

text \<open>An acknowledgement without data is never answered.\<close>

lemma ack_unanswered: "tcp_dispatch t dip dp remote seq ack 0x10 [] s = tcp_dispatch u dip dp remote seq ack 0x10 [] s"
proof -
  have "on_segment t h remote seq ack 0x10 [] = on_segment u h remote seq ack 0x10 []" for h
    by (rule ext) (simp add: on_segment_def Let_def split: tcp_state.split)
  then show ?thesis by (simp add: tcp_dispatch_def split: option.split)
qed

lemma sent_ack_unanswered:
  "send_tcp_segment (tcp_body t) a b seq ack 0x10 [] nb = send_tcp_segment (tcp_body u) a b seq ack 0x10 [] nb"
  by (rule ext, rule send_segment_cong) (simp add: tcp_body_segment sent_flags_def ack_unanswered [of t _ _ _ _ _ _ u])

text \<open>A connection answers with an acknowledgement at most.\<close>

lemma on_segment_nesting:
  "on_segment (tcp_body t) h remote seq ack f payload = on_segment (tcp_body u) h remote seq ack f payload"
  unfolding on_segment_def sent_ack_unanswered [of t _ _ _ _ _ u] ..

lemma known_nesting:
  assumes "upgrade (tcp_alive s) (n_conns s (conn_key dp remote)) = Some h"
  shows "tcp_dispatch (tcp_body t) dip dp remote seq ack f payload s = tcp_dispatch (tcp_body u) dip dp remote seq ack f payload s"
  using assms by (simp add: tcp_dispatch_def on_segment_nesting [of t _ _ _ _ _ _ u])

text \<open>A connection that waits for the last acknowledgement answers nothing.\<close>

lemma waiting_silent:
  assumes "upgrade (tcp_alive s) (n_conns s (conn_key dp remote)) = Some h" "tk_state (n_tcp s h) = SynReceived"
  shows "tcp_dispatch t dip dp remote seq ack f payload s = tcp_dispatch u dip dp remote seq ack f payload s"
  using assms by (simp add: tcp_dispatch_def on_segment_def kbind_def tcp_clone_def upd_tcp_def)

text \<open>The state in which a new connection sends its answer.\<close>

definition fresh_chan :: "int \<Rightarrow> 'a channel" where
  "fresh_chan n = \<lparr>ch_sem = \<lparr>sem_count = n, sem_closed = False, sem_max = n\<rparr>, ch_buf = [], ch_scnt = 1, ch_rcnt = 1\<rparr>"

lemma fresh_tcp_chan: "sync_channel TCP_QUEUE = Ok (fresh_chan TCP_QUEUE)"
  by (simp add: sync_channel_def sem_new_def TCP_QUEUE_def fresh_chan_def)

definition entered :: "ipv4 \<Rightarrow> u16 \<Rightarrow> sockaddr \<Rightarrow> nat \<Rightarrow> u32 \<Rightarrow> netst \<Rightarrow> netst" where
  "entered dip dp remote l seq s =
     s\<lparr>n_next := n_next s + 1, n_conns := (n_conns s)(conn_key dp remote \<mapsto> n_next s),
       n_tcp := (n_tcp s)(n_next s := \<lparr>tk_refs = 1, tk_local = Some (SocketAddrV4 dip dp), tk_peer = Some remote, tk_state = SynReceived,
         tk_snd = 2, tk_rcv = seq + 1, tk_listener = Some l, tk_chan = fresh_chan TCP_QUEUE\<rparr>)\<rparr>"

lemma accept_syn_entered:
  "tcp_accept_syn t dip dp remote l seq s =
     kbind (\<lambda>s. ignoring (send_tcp_segment t (SocketAddrV4 dip dp) remote 1 (seq + 1) 0x12 [] True s)) (\<lambda>_. nmod (tcp_drop (n_next s)))
       (entered dip dp remote l seq s)"
  by (simp add: tcp_accept_syn_def tcp_new_def kbind_def init_passive_def upd_tcp_def entered_def fresh_tcp_chan)

lemma entered_conn:
  "n_conns (entered dip dp remote l seq s) = (n_conns s)(conn_key dp remote \<mapsto> n_next s)"
  "tk_state (n_tcp (entered dip dp remote l seq s) (n_next s)) = SynReceived"
  "tcp_alive (entered dip dp remote l seq s) (n_next s)"
  "h \<noteq> n_next s \<Longrightarrow> n_tcp (entered dip dp remote l seq s) h = n_tcp s h"
  "n_next (entered dip dp remote l seq s) = n_next s + 1"
  "n_ip (entered dip dp remote l seq s) = n_ip s"
  by (simp_all add: entered_def Let_def tcp_alive_def)

lemma sockaddr_pair [simp]: "SocketAddrV4 (sa_ip a) (sa_port a) = a"
  by (cases a) simp

text \<open>The answer to the first of two connections entered from opposite ends finds the first one.\<close>

lemma second_silent:
  assumes "entered dip dp remote l seq s = s1"
    and "upgrade (tcp_alive s1) (n_conns s1 (conn_key (sa_port remote) (SocketAddrV4 dip dp))) = None"
  shows "tcp_dispatch (tcp_body t) (sa_ip remote) (sa_port remote) (SocketAddrV4 dip dp) seq' ack' 0x12 [] s1 =
    tcp_dispatch (tcp_body u) (sa_ip remote) (sa_port remote) (SocketAddrV4 dip dp) seq' ack' 0x12 [] s1"
proof -
  let ?k1 = "conn_key dp remote" and ?k2 = "conn_key (sa_port remote) (SocketAddrV4 dip dp)"
  have k: "?k1 \<noteq> ?k2" using assms by (auto simp: upgrade_def entered_conn)
  have "send_tcp_segment (tcp_body t) (SocketAddrV4 (sa_ip remote) (sa_port remote)) (SocketAddrV4 dip dp) 1 (seq' + 1) 0x12 [] True
          (entered (sa_ip remote) (sa_port remote) (SocketAddrV4 dip dp) l' seq' s1) =
        send_tcp_segment (tcp_body u) (SocketAddrV4 (sa_ip remote) (sa_port remote)) (SocketAddrV4 dip dp) 1 (seq' + 1) 0x12 [] True
          (entered (sa_ip remote) (sa_port remote) (SocketAddrV4 dip dp) l' seq' s1)" for l'
  proof (rule send_segment_cong)
    let ?s2 = "entered (sa_ip remote) (sa_port remote) (SocketAddrV4 dip dp) l' seq' s1"
    have n: "n_next s1 = n_next s + 1" unfolding assms(1) [symmetric] by (rule entered_conn)
    then have "n_tcp ?s2 (n_next s) = n_tcp s1 (n_next s)" by (intro entered_conn) simp
    then have a: "tcp_alive ?s2 (n_next s)" "tk_state (n_tcp ?s2 (n_next s)) = SynReceived"
      using entered_conn(2,3) [of dip dp remote l seq s] unfolding assms(1) by (simp_all add: tcp_alive_def)
    then have "upgrade (tcp_alive ?s2) (n_conns ?s2 ?k1) = Some (n_next s)"
      using k assms(1) by (auto simp: upgrade_def entered_conn)
    from waiting_silent [OF this a(2), of t _ _ _ _ _ u]
    show "tcp_body t (sa_ip (SocketAddrV4 (sa_ip remote) (sa_port remote))) (sa_ip (SocketAddrV4 dip dp))
            (tcp_segment (SocketAddrV4 (sa_ip remote) (sa_port remote)) (SocketAddrV4 dip dp) 1 (seq' + 1) 0x12 []) ?s2 =
          tcp_body u (sa_ip (SocketAddrV4 (sa_ip remote) (sa_port remote))) (sa_ip (SocketAddrV4 dip dp))
            (tcp_segment (SocketAddrV4 (sa_ip remote) (sa_port remote)) (SocketAddrV4 dip dp) 1 (seq' + 1) 0x12 []) ?s2"
      by (simp only: sockaddr_pair tcp_body_segment sent_flags_def sockaddr.sel simp_thms)
  qed
  then show ?thesis using assms(2)
    by (simp only: tcp_dispatch_def accept_syn_entered kbind_def) (simp split: option.split)
qed

lemma unknown_nesting:
  assumes "upgrade (tcp_alive s) (n_conns s (conn_key dp remote)) = None"
  shows "tcp_dispatch (tcp_body (tcp_body t)) dip dp remote seq ack f payload s = tcp_dispatch (tcp_body (tcp_body u)) dip dp remote seq ack f payload s"
proof -
  have "send_tcp_segment (tcp_body (tcp_body t)) (SocketAddrV4 dip dp) remote 1 (seq + 1) 0x12 [] True (entered dip dp remote l seq s) =
      send_tcp_segment (tcp_body (tcp_body u)) (SocketAddrV4 dip dp) remote 1 (seq + 1) 0x12 [] True (entered dip dp remote l seq s)" for l
  proof (rule send_segment_cong)
    let ?s1 = "entered dip dp remote l seq s"
    have "tcp_dispatch (tcp_body t) (sa_ip remote) (sa_port remote) (SocketAddrV4 dip dp) 1 (seq + 1) 0x12 [] ?s1 =
        tcp_dispatch (tcp_body u) (sa_ip remote) (sa_port remote) (SocketAddrV4 dip dp) 1 (seq + 1) 0x12 [] ?s1"
    proof (cases "upgrade (tcp_alive ?s1) (n_conns ?s1 (conn_key (sa_port remote) (SocketAddrV4 dip dp)))")
      case None
      then show ?thesis by (rule second_silent [OF refl])
    next
      case (Some h)
      then show ?thesis by (rule known_nesting)
    qed
    then show "tcp_body (tcp_body t) (sa_ip (SocketAddrV4 dip dp)) (sa_ip remote) (tcp_segment (SocketAddrV4 dip dp) remote 1 (seq + 1) 0x12 []) ?s1 =
        tcp_body (tcp_body u) (sa_ip (SocketAddrV4 dip dp)) (sa_ip remote) (tcp_segment (SocketAddrV4 dip dp) remote 1 (seq + 1) 0x12 []) ?s1"
      by (simp only: tcp_body_segment sent_flags_def simp_thms)
  qed
  then show ?thesis using assms by (simp only: tcp_dispatch_def accept_syn_entered kbind_def) simp
qed

lemma dispatch_nesting: "tcp_dispatch (tcp_body (tcp_body t)) = tcp_dispatch (tcp_body (tcp_body u))"
proof (intro ext)
  fix dip dp remote seq ack f payload s
  show "tcp_dispatch (tcp_body (tcp_body t)) dip dp remote seq ack f payload s = tcp_dispatch (tcp_body (tcp_body u)) dip dp remote seq ack f payload s"
    by (cases "upgrade (tcp_alive s) (n_conns s (conn_key dp remote))") (rule unknown_nesting known_nesting, assumption)+
qed

lemma body_nesting: "tcp_body (tcp_body (tcp_body t)) = tcp_body (tcp_body (tcp_body u))"
proof -
  have "tcp_body v = tcp_body w" if "tcp_dispatch v = tcp_dispatch w" for v w by (intro ext) (simp only: tcp_body_def that)
  then show ?thesis using dispatch_nesting by blast
qed

text \<open>
  C29. Loopback ends: a received TCP segment whose answers go to the machine's own address is processed
  within three nested calls of \<^verbatim>\<open>tcp_input\<close>, whatever the tables and the segment are: with a larger
  bound on the nesting the result is the same.
\<close>

theorem tcp_nesting: "3 \<le> d \<Longrightarrow> tcp_input d = tcp_top"
proof -
  assume "3 \<le> d"
  then obtain k where "d = 3 + k" using le_Suc_ex by blast
  then show ?thesis
    by (simp add: tcp_top_def numeral_3_eq_3 body_nesting [of "tcp_input k" "tcp_input 0"])
qed

theorem tcp_nesting_witness: "tcp_input 5 = tcp_top"
  by (rule tcp_nesting) simp

section \<open>No panic\<close>

text \<open>The lock of the device is free, and connections that are not closed have both addresses.\<close>

definition net_ok :: "netst \<Rightarrow> bool" where
  "net_ok s \<longleftrightarrow> \<not> nd_held (n_dev s) \<and> (\<forall>h. tk_state (n_tcp s h) \<noteq> Closed \<longrightarrow> tk_local (n_tcp s h) \<noteq> None \<and> tk_peer (n_tcp s h) \<noteq> None)"

definition good :: "input \<Rightarrow> bool" where
  "good t \<longleftrightarrow> (\<forall>src dst data s. net_ok s \<longrightarrow> fst (t src dst data s) = Ok () \<and> net_ok (snd (t src dst data s)))"

definition calm :: "('a result option \<times> netst) \<Rightarrow> bool" where
  "calm x \<longleftrightarrow> fst x \<noteq> Some Panic \<and> net_ok (snd x)"

definition fine :: "(unit result \<times> netst) \<Rightarrow> bool" where
  "fine x \<longleftrightarrow> fst x = Ok () \<and> net_ok (snd x)"

lemma fineE: "fine x \<Longrightarrow> (\<And>s1. x = (Ok (), s1) \<Longrightarrow> net_ok s1 \<Longrightarrow> thesis) \<Longrightarrow> thesis"
  by (cases x) (simp add: fine_def)

lemma fine_ignoring: "calm x \<Longrightarrow> fine (ignoring x)"
  by (auto simp: calm_def fine_def ignoring_def split: prod.splits option.splits outcome.splits)

lemma fine_bind: "fine (m s) \<Longrightarrow> (\<And>s. net_ok s \<Longrightarrow> fine (f () s)) \<Longrightarrow> fine (kbind m f s)"
  by (cases "m s") (simp add: fine_def kbind_def)

lemma fine_ret: "net_ok s \<Longrightarrow> fine (Ok (), s)"
  by (simp add: fine_def)

lemma net_ok_tables [simp]:
  "net_ok (s\<lparr>n_udp_ports := p\<rparr>) = net_ok s" "net_ok (s\<lparr>n_conns := c\<rparr>) = net_ok s" "net_ok (s\<lparr>n_port := q\<rparr>) = net_ok s"
  by (simp_all add: net_ok_def)

lemma net_ok_upd_tcp:
  "net_ok s \<Longrightarrow> (\<And>k. k = n_tcp s h \<Longrightarrow> tk_state (f k) \<noteq> Closed \<Longrightarrow> tk_local (f k) \<noteq> None \<and> tk_peer (f k) \<noteq> None) \<Longrightarrow> net_ok (upd_tcp h f s)"
  by (simp add: net_ok_def upd_tcp_def)

lemma net_ok_tcp: "net_ok s \<Longrightarrow> tk_state (n_tcp s h) \<noteq> Closed \<Longrightarrow> tk_local (n_tcp s h) \<noteq> None \<and> tk_peer (n_tcp s h) \<noteq> None"
  by (simp add: net_ok_def)

lemma net_ok_clone [intro]: "net_ok s \<Longrightarrow> net_ok (tcp_clone h s)"
  unfolding tcp_clone_def by (rule net_ok_upd_tcp) (auto dest: net_ok_tcp)

lemma net_ok_drop [intro]: "net_ok s \<Longrightarrow> net_ok (tcp_drop h s)"
proof -
  assume "net_ok s"
  then have "net_ok (upd_tcp h (\<lambda>k. k\<lparr>tk_refs := tk_refs k - 1\<rparr>) s)"
    by (rule net_ok_upd_tcp) (use \<open>net_ok s\<close> in \<open>auto dest: net_ok_tcp\<close>)
  then show ?thesis
    by (auto simp: tcp_drop_def Let_def net_ok_def split: option.splits)
qed

lemma net_ok_notify [simp]: "net_ok (notify_tcp s) = net_ok s" "net_ok (notify_arp s) = net_ok s"
  by (simp_all add: notify_tcp_def notify_arp_def net_ok_def)

lemma net_ok_arp [simp]: "net_ok (insert_arp ip mac s) = net_ok s"
  by (auto simp: insert_arp_def Let_def net_ok_def notify_arp_def split: option.split)

lemma net_ok_lst [simp]: "net_ok (upd_lst l f s) = net_ok s"
  by (simp add: upd_lst_def net_ok_def)

lemma net_ok_udp [simp]: "net_ok (upd_udp h f s) = net_ok s"
  by (simp add: upd_udp_def net_ok_def)

lemma net_ok_enqueue [intro]: "net_ok s \<Longrightarrow> net_ok (lst_enqueue l h s)"
  by (auto simp: lst_enqueue_def split: prod.splits outcome.splits)

lemma tx_put_held [simp]: "nd_held (tx_put i f d) = nd_held d"
  by (simp add: tx_put_def Let_def)

lemma calm_send_frame: "net_ok s \<Longrightarrow> calm (send_frame f nb s)"
  by (auto simp: calm_def net_ok_def send_frame_def send_frame_inner_def alloc_tx_def split: prod.splits option.splits if_splits)

lemma fine_udp_input: "net_ok s \<Longrightarrow> fine (udp_input sip data s)"
proof -
  assume "net_ok s"
  moreover have "net_ok (fold (udp_enqueue src p) hs s) = net_ok s" for src p hs s
    by (induction hs arbitrary: s) (simp_all add: udp_enqueue_def)
  ultimately show ?thesis
    by (simp add: fine_def udp_input_def Let_def kret_def not_less split: option.split)
qed

lemma result_optE:
  obtains "r = None" | x where "r = Some (Ok x)" | "r = Some Panic" | e where "r = Some (Err e)"
proof (cases r)
  case (Some a)
  with that show thesis by (cases a) auto
qed auto

lemma calm_send:
  assumes "good t" "net_ok s"
  shows "calm (send_ipv4_blocking t proto src dst payload nb s)"
proof -
  have "calm (send_ipv4_packet t proto src dst payload nb s)"
  proof (cases "dst = n_ip s")
    case True
    have "fine (if proto = IP_PROTO_UDP then udp_input src payload s else if proto = IP_PROTO_TCP then t src dst payload s else (Ok (), s))"
      using assms fine_udp_input by (simp add: good_def fine_def)
    then obtain s1 where "(if proto = IP_PROTO_UDP then udp_input src payload s else if proto = IP_PROTO_TCP then t src dst payload s else (Ok (), s)) = (Ok (), s1)" "net_ok s1"
      by (rule fineE)
    with True show ?thesis unfolding send_ipv4_packet_def calm_def by simp
  next
    case False
    have "fine (ignoring (send_arp_request (route_ip dst s) s))"
      unfolding send_arp_request_def using assms(2) by (intro fine_ignoring calm_send_frame)
    then obtain s1 where "ignoring (send_arp_request (route_ip dst s) s) = (Ok (), s1)" "net_ok s1"
      by (rule fineE)
    with False show ?thesis using calm_send_frame [OF assms(2)]
      by (simp add: send_ipv4_packet_def calm_def Let_def split: option.split)
  qed
  moreover obtain r s1 where e: "send_ipv4_packet t proto src dst payload nb s = (r, s1)" by (rule prod.exhaust)
  moreover have "calm (case (r, s1) of (Some (Err WouldBlock), s1) \<Rightarrow> (if nb then Some (Err WouldBlock) else None, s1) | (r, s1) \<Rightarrow> (r, s1))"
    if "calm (r, s1)"
    using that by (cases r rule: result_optE; (simp; fail)?; rename_tac e; case_tac e; simp add: calm_def)
  ultimately show ?thesis by (simp only: send_ipv4_blocking_def)
qed

lemma fine_send: "good t \<Longrightarrow> net_ok s \<Longrightarrow> fine (ignoring (send_tcp_segment t a b seq ack f payload nb s))"
  unfolding send_tcp_segment_def by (intro fine_ignoring calm_send)

lemma fine_on_segment:
  assumes "good t" "net_ok s"
  shows "fine (on_segment t h remote seq ack f payload s)"
proof (cases "tk_state (n_tcp s h)")
  case Closed
  then show ?thesis using assms by (simp add: on_segment_def fine_ret)
next
  case SynSent
  have "net_ok (upd_tcp h (\<lambda>k. k\<lparr>tk_peer := Some remote, tk_rcv := seq + 1, tk_state := Established\<rparr>) s)"
    by (rule net_ok_upd_tcp [OF assms(2)]) (use net_ok_tcp [OF assms(2), of h] SynSent in auto)
  with SynSent show ?thesis using fine_send [OF assms(1)] assms(2)
    by (auto simp: on_segment_def Let_def split: option.split intro!: fine_ret fine_bind)
next
  case SynReceived
  let ?s = "upd_tcp h (\<lambda>k. k\<lparr>tk_state := Established, tk_listener := None\<rparr>) s"
  have "net_ok ?s"
    by (rule net_ok_upd_tcp [OF assms(2)]) (use net_ok_tcp [OF assms(2), of h] SynReceived in auto)
  then have "net_ok (case upgrade (lst_alive ?s) l of Some l \<Rightarrow> lst_enqueue l h ?s | None \<Rightarrow> ?s)" for l
    by (auto split: option.split)
  with SynReceived assms(2) show ?thesis by (simp add: on_segment_def Let_def fine_ret)
next
  case Established
  have "net_ok (upd_tcp h (\<lambda>k. k\<lparr>tk_rcv := rcv, tk_chan := push_bytes payload (tk_chan k)\<rparr>) s)" for rcv
    by (rule net_ok_upd_tcp [OF assms(2)]) (use net_ok_tcp [OF assms(2), of h] Established in auto)
  with Established show ?thesis using fine_send [OF assms(1)] assms(2) net_ok_tcp [OF assms(2), of h]
    by (auto simp: on_segment_def Let_def intro!: fine_ret)
qed

lemma net_ok_entered: "net_ok s \<Longrightarrow> net_ok (entered dip dp remote l seq s)"
  by (simp add: net_ok_def entered_def)

lemma fine_dispatch:
  assumes "good t" "net_ok s"
  shows "fine (tcp_dispatch t dip dp remote seq ack f payload s)"
proof -
  have "fine (kbind (on_segment t h remote seq ack f payload) (\<lambda>_. nmod (tcp_drop h)) (tcp_clone h s))" for h
    using assms by (intro fine_bind fine_on_segment fine_ret) auto
  moreover have "fine (tcp_accept_syn t dip dp remote l seq s)" for l
    unfolding accept_syn_entered using assms by (intro fine_bind fine_send fine_ret net_ok_entered) auto
  ultimately show ?thesis using assms(2) by (simp add: tcp_dispatch_def fine_ret split: option.split)
qed

lemma good_body: "good t \<Longrightarrow> good (tcp_body t)"
  unfolding good_def [of "tcp_body t"] fine_def [symmetric]
  by (auto simp: tcp_body_def Let_def not_less kret_def intro!: fine_ret fine_dispatch)

text \<open>The bound on the nesting is never exhausted: it may be replaced by anything.\<close>

lemma good_top: "good tcp_top"
proof -
  have "good (\<lambda>src dst data s. (Ok (), s))" by (simp add: good_def)
  then have "good (tcp_body (tcp_body (tcp_body (\<lambda>src dst data s. (Ok (), s)))))" by (intro good_body)
  then show ?thesis
    by (simp add: tcp_top_def numeral_3_eq_3 body_nesting [of "\<lambda>src dst data s. (Panic, s)" "\<lambda>src dst data s. (Ok (), s)"])
qed

lemma fine_arp: "net_ok s \<Longrightarrow> fine (handle_arp payload s)"
  by (auto simp: handle_arp_def Let_def kret_def not_less send_arp_reply_def intro!: fine_ret fine_ignoring calm_send_frame)

lemma fine_ipv4: "net_ok s \<Longrightarrow> fine (handle_ipv4 payload s)"
  using good_top unfolding good_def fine_def [symmetric]
  by (auto simp: handle_ipv4_def Let_def kret_def not_less intro!: fine_ret fine_udp_input)

lemma calm_connect: "net_ok s \<Longrightarrow> calm (tcp_connect killed h peer nb s)"
proof -
  assume n: "net_ok s"
  have e: "net_ok (snd (connect_enter h peer s))"
    using n by (auto simp: connect_enter_def alloc_ephemeral_port_def Let_def intro!: net_ok_upd_tcp split: option.split)
  obtain a s1 where c: "connect_enter h peer s = (a, s1)" by (rule prod.exhaust)
  have "calm (send_tcp_segment tcp_top a peer 0 0 0x02 [] nb s1)"
    unfolding send_tcp_segment_def using e c by (intro calm_send good_top) simp
  moreover have "connect_wait killed h s \<noteq> Some Panic" for s by (simp add: connect_wait_def split: tcp_state.split)
  ultimately show ?thesis using n c
    by (cases "send_tcp_segment tcp_top a peer 0 0 0x02 [] nb s1")
       (auto simp: tcp_connect_def calm_def split: option.splits outcome.splits)
qed

lemma write_loop_fine:
  assumes "\<And>a n. cin a n \<noteq> Panic" "net_ok s"
  shows "fst (tcp_write_loop cin a b ack nb src n sent seq s) \<noteq> WRet Panic \<and> net_ok (snd (snd (tcp_write_loop cin a b ack nb src n sent seq s)))"
  using assms
proof (induction cin a b ack nb src n sent seq s rule: tcp_write_loop.induct)
  case (1 cin a b ack nb src n sent seq s)
  show ?case
  proof (cases "0 < n")
    case True
    have c: "calm (send_tcp_segment tcp_top a b seq ack 0x18 buf nb s)" for buf
      unfolding send_tcp_segment_def using 1(3) by (intro calm_send good_top)
    show ?thesis
    proof (cases "cin src (min n MSS)")
      case (Ok buf)
      show ?thesis
        using 1(1) [OF True refl Ok, OF _ refl refl] 1(2,3) c [of buf] True Ok
        by (subst (1 2) tcp_write_loop.simps) (auto simp: Let_def calm_def split: prod.splits option.splits outcome.splits)
    qed (use 1 True in \<open>simp_all add: tcp_write_loop.simps Let_def\<close>)
  qed (use 1 in \<open>simp add: tcp_write_loop.simps\<close>)
qed

lemma write_fine:
  assumes "\<And>a n. cin a n \<noteq> Panic" "net_ok s"
  shows "fst (tcp_write cin h src n nb s) \<noteq> WRet Panic \<and> net_ok (snd (tcp_write cin h src n nb s))"
proof -
  have "net_ok (upd_tcp h (\<lambda>k. k\<lparr>tk_snd := seq\<rparr>) s)" if "net_ok s" for seq s
    by (rule net_ok_upd_tcp [OF that]) (use net_ok_tcp [OF that, of h] in auto)
  with assms(2) show ?thesis
    using write_loop_fine [of cin s "the (tk_local (n_tcp s h))" "the (tk_peer (n_tcp s h))" "tk_rcv (n_tcp s h)" nb src n 0 "tk_snd (n_tcp s h)", OF assms]
    by (auto simp: tcp_write_def Let_def split: option.split prod.splits wprog.splits outcome.splits)
qed

lemma udp_port_fine: "net_ok s \<Longrightarrow> fst (udp_local_port h s) \<noteq> Panic \<and> net_ok (snd (udp_local_port h s))"
  by (simp add: udp_local_port_def alloc_ephemeral_port_def udp_bind_def kbind_def kret_def Let_def split: option.split)

lemma udp_write_calm:
  assumes "\<And>a n. cin a n \<noteq> Panic" "net_ok s"
  shows "calm (udp_write cin h src n nb s)"
proof -
  obtain r s1 where p: "udp_local_port h s = (r, s1)" by (rule prod.exhaust)
  with udp_port_fine [OF assms(2), of h] have r: "r \<noteq> Panic" "net_ok s1" by simp_all
  have "calm (send_udp_segment tcp_top a b buf nb s1)" for a b buf
    unfolding send_udp_segment_def using r(2) by (intro calm_send good_top)
  then show ?thesis using assms r p
    by (auto simp: udp_write_def calm_def split: outcome.splits option.splits prod.splits) (metis fst_conv snd_conv)+
qed



section \<open>Answers in the interrupt handler\<close>

lemma handle_tx_rx: "nd_rx (handle_tx d) = nd_rx d \<and> nd_rx_bufs (handle_tx d) = nd_rx_bufs d \<and> nd_held (handle_tx d) = nd_held d"
proof (induction d rule: handle_tx.induct)
  case (1 d)
  show ?case
  proof (cases "vr_seen (nd_tx d) = vr_used_idx (nd_tx d)")
    case True
    then show ?thesis by (simp add: handle_tx.simps)
  next
    case False
    from 1 [OF refl False] show ?thesis
      by (subst (1 2 3) handle_tx.simps) (simp add: Let_def False free_tx_def)
  qed
qed

lemma macE:
  assumes "length mac = 6"
  obtains a b c d e f where "mac = [a, b, c, d, e, f]"
proof -
  have "length mac = Suc (Suc (Suc (Suc (Suc (Suc 0)))))" using assms by simp
  then have "\<exists>a b c d e f. mac = [a, b, c, d, e, f]"
    by (simp only: length_Suc_conv length_0_conv) (elim exE conjE, hypsubst, intro exI, rule refl)
  with that show thesis by blast
qed

lemma arp_request_read:
  assumes "length smac = 6" "length tmac = 6"
  shows "handle_arp (arp_packet 1 smac sip tmac tip) s =
    (if tip = n_ip (insert_arp sip smac s) then ignoring (send_arp_reply smac sip (insert_arp sip smac s)) else (Ok (), insert_arp sip smac s))"
proof -
  obtain a b where h: "be_bytes 2 (1 :: u16) = [a, b]" "of_be [a, b] = (1 :: u16)" by (rule be_bytes_2E)
  obtain c d where p: "be_bytes 2 ETHERTYPE_IPV4 = [c, d]" by (rule be_bytes_2E)
  obtain s0 s1 s2 s3 s4 s5 where sm: "smac = [s0, s1, s2, s3, s4, s5]" using assms(1) by (rule macE)
  obtain t0 t1 t2 t3 t4 t5 where tm: "tmac = [t0, t1, t2, t3, t4, t5]" using assms(2) by (rule macE)
  obtain i0 i1 i2 i3 where si: "sip = Ipv4Addr i0 i1 i2 i3" by (rule ipv4.exhaust)
  obtain j0 j1 j2 j3 where ti: "tip = Ipv4Addr j0 j1 j2 j3" by (rule ipv4.exhaust)
  have "arp_packet 1 smac sip tmac tip = [a, b, c, d, 6, 4, a, b, s0, s1, s2, s3, s4, s5, i0, i1, i2, i3, t0, t1, t2, t3, t4, t5, j0, j1, j2, j3]"
    unfolding arp_packet_def h(1) p sm tm si ti by simp
  then show ?thesis by (rule ssubst) (simp add: handle_arp_def ip_at_def h sm si ti Let_def)
qed

lemma arp_answer_panics:
  assumes "nd_held (n_dev s)" "length smac = 6" "length dmac = 6" "length tmac = 6" "length (n_mac s) = 6"
  shows "fst (handle_frame (build_eth_frame smac dmac ETHERTYPE_ARP (arp_packet 1 smac sip tmac (n_ip s))) s) = Panic"
proof -
  obtain t0 t1 where t: "be_bytes 2 ETHERTYPE_ARP = [t0, t1]" "of_be [t0, t1] = ETHERTYPE_ARP" by (rule be_bytes_2E)
  have frame: "handle_frame (build_eth_frame smac dmac ETHERTYPE_ARP p) = handle_arp p" for p
    using assms(2,3) by (simp add: handle_frame_def build_eth_frame_def t nth_append)
  have i: "n_ip (insert_arp sip smac s) = n_ip s" "n_dev (insert_arp sip smac s) = n_dev s" "n_mac (insert_arp sip smac s) = n_mac s"
    by (auto simp: insert_arp_def Let_def notify_arp_def split: option.split)
  have "fst (send_arp_reply smac sip (insert_arp sip smac s)) = Some Panic"
    using assms(1,2,5) i
    by (simp add: send_arp_reply_def send_frame_def send_frame_inner_def RX_BUF_SIZE_def build_eth_frame_def arp_packet_def)
  then show ?thesis unfolding frame arp_request_read [OF assms(2,4)]
    by (auto simp: i ignoring_def split: prod.splits option.splits)
qed

text \<open>
  C31. The interrupt handler of the network device keeps the lock of the device while it hands the
  received frames to the stack, and the stack takes the same lock to answer: the first ARP request for
  the machine's own address that arrives at a machine whose network is initialised makes the kernel panic.
\<close>

theorem arp_request_panics:
  assumes "\<not> nd_held (n_dev s)" "vr_used_idx (nd_rx (n_dev s)) \<noteq> vr_seen (nd_rx (n_dev s))" "length (n_mac s) = 6"
    and "rx_frame (n_dev s) = Some (build_eth_frame smac dmac ETHERTYPE_ARP (arp_packet 1 smac sip tmac (n_ip s)))"
    and "length smac = 6" "length dmac = 6" "length tmac = 6"
  shows "fst (net_intr s) = Panic"
proof -
  define s1 where "s1 = s\<lparr>n_dev := handle_tx ((n_dev s)\<lparr>nd_held := True\<rparr>)\<rparr>"
  have d: "nd_rx (n_dev s1) = nd_rx (n_dev s)" "nd_rx_bufs (n_dev s1) = nd_rx_bufs (n_dev s)" "nd_held (n_dev s1)"
    by (simp_all add: s1_def handle_tx_rx)
  have "unat (vr_used_idx (nd_rx (n_dev s)) - vr_seen (nd_rx (n_dev s))) \<noteq> 0"
    using assms(2) by (simp only: unsigned_eq_0_iff right_minus_eq) simp
  then obtain k where k: "unat (vr_used_idx (nd_rx (n_dev s)) - vr_seen (nd_rx (n_dev s))) = Suc k" using not0_implies_Suc by blast
  have "rx_frame (n_dev s1) = rx_frame (n_dev s)" by (simp only: rx_frame_def d)
  moreover have "fst (handle_frame (build_eth_frame smac dmac ETHERTYPE_ARP (arp_packet 1 smac sip tmac (n_ip s))) s1) = Panic"
    using arp_answer_panics [of s1 smac dmac tmac sip] d assms by (simp add: s1_def)
  ultimately have "fst (handle_rx (Suc k) s1) = Panic"
    using assms(4) by (auto simp: kbind_def split: prod.splits outcome.splits)
  then show ?thesis using assms(1) d k
    by (auto simp: net_intr_def kbind_def s1_def Let_def handle_tx_rx split: prod.splits outcome.splits)
qed

text \<open>A device on which one such request of 42 bytes has arrived in the first buffer.\<close>

definition one_request :: netst where
  "one_request =
     (let s = net_init (net_start (replicate 6 2));
          f = build_eth_frame (replicate 6 7) (replicate 6 0xff) ETHERTYPE_ARP (arp_packet 1 (replicate 6 7) (Ipv4Addr 10 0 2 2) (replicate 6 0) (n_ip s));
          d = n_dev s
      in s\<lparr>n_dev := d\<lparr>nd_rx_bufs := (nd_rx_bufs d)[0 := replicate HDR_SIZE 0 @ f @ replicate 2006 0],
           nd_rx := (nd_rx d)\<lparr>vr_used := (vr_used (nd_rx d))[0 := (0, of_nat (HDR_SIZE + length f))], vr_used_idx := 1\<rparr>\<rparr>\<rparr>)"

theorem arp_request_panics_witness: "fst (net_intr one_request) = Panic"
proof (rule arp_request_panics [where smac = "replicate 6 7" and dmac = "replicate 6 0xff" and sip = "Ipv4Addr 10 0 2 2" and tmac = "replicate 6 0"])
  show "rx_frame (n_dev one_request) = Some (build_eth_frame (replicate 6 7) (replicate 6 0xff) ETHERTYPE_ARP
      (arp_packet 1 (replicate 6 7) (Ipv4Addr 10 0 2 2) (replicate 6 0) (n_ip one_request)))"
    by (simp add: one_request_def Let_def rx_frame_def net_init_def net_start_def netdev_init_def vring_new_def NUM_def HDR_SIZE_def
        RX_BUF_LEN_def RX_BUF_SIZE_def build_eth_frame_def arp_packet_def)
qed (simp_all add: one_request_def Let_def net_init_def net_start_def netdev_init_def vring_new_def)

end
