(* ===== verification/Net_Loop.thy ===== *)
theory Net_Loop
  imports Net_Input
begin

text \<open>
  Connections within the machine: a datagram sent to a bound socket is read there as it was written, a
  connection request to a listener leaves two established ends with matching addresses and sequence
  numbers, and a stream arrives in order, up to what the receiver's queue has room for.
\<close>

unbundle bit_operations_syntax

section \<open>Datagrams\<close>

lemma send_udp_local:
  assumes "sa_ip dst = n_ip s" "length payload < 65528"
  shows "send_udp_segment t src dst payload nb s = (Some (Ok ()), snd (udp_input (sa_ip src) (udp_segment src dst payload) s))"
  using assms
  by (simp add: send_udp_segment_def send_ipv4_blocking_def send_ipv4_packet_def udp_input_segment split: option.split)

text \<open>
  A datagram written by a bound and connected socket to a port of the own machine is delivered to
  the socket bound there, whose queue is empty, and its next read returns the bytes of the datagram, cut
  to the size of the reader's buffer, and their number, and remembers the sender's address.
\<close>

lemma udp_roundtrip:
  assumes "us_peer (n_udp s h) = Some (SocketAddrV4 (n_ip s) p)" "us_port (n_udp s h) = Some q"
    and "n_udp_ports s p = Some [g]" "udp_alive s g" "chan_quiet (us_chan (n_udp s g))"
    and "ch_buf (us_chan (n_udp s g)) = []" "0 < sem_max (ch_sem (us_chan (n_udp s g)))"
    and "cin src n = Ok data" "length data = n" "0 < n" "n < 65528"
    and "cout dst (take k data) m = (Ok (), m1)"
  shows "fst (udp_write cin h src n nb s) = Some (Ok n) \<and>
    (\<exists>s'. udp_read cout g dst k nb' (snd (udp_write cin h src n nb s), m) = (Some (Ok (min k n)), s', m1) \<and>
       us_last (n_udp s' g) = Some (SocketAddrV4 (n_ip s) q) \<and> ch_buf (us_chan (n_udp s' g)) = [])"
proof -
  let ?c = "us_chan (n_udp s g)" and ?x = "(SocketAddrV4 (n_ip s) q, data)"
  let ?c' = "push_back (?c\<lparr>ch_sem := (ch_sem ?c)\<lparr>sem_count := sem_count (ch_sem ?c) - 1\<rparr>\<rparr>) ?x"
  define s1 where "s1 = s\<lparr>n_udp_ports := (n_udp_ports s)(p \<mapsto> [g]), n_udp := (n_udp s)(g := (n_udp s g)\<lparr>us_chan := ?c'\<rparr>)\<rparr>"
  have "chan_try_send ?c ?x = (Ok (), ?c')" using assms(5-7) by (simp add: try_send_quiet)
  then have w: "udp_write cin h src n nb s = (Some (Ok n), s1)"
    using assms by (simp add: udp_write_def udp_local_port_def send_udp_local udp_input_segment udp_enqueue_def upd_udp_def s1_def)
  have q: "chan_quiet ?c'" using assms(5-7) by (simp add: chan_quiet_def push_back_def)
  have b: "ch_buf ?c' = [?x]" using assms(6) by (simp add: push_back_def)
  let ?c2 = "?c'\<lparr>ch_sem := (ch_sem ?c')\<lparr>sem_count := sem_count (ch_sem ?c') + 1\<rparr>, ch_buf := []\<rparr>"
  have t: "chan_try_recv ?c' = (Ok ?x, ?c2)" using try_recv_quiet [OF q] b by simp
  then have "chan_recv ?c' = (Some (Ok ?x), ?c2)" using b by (simp add: chan_try_recv_def chan_recv_def)
  with t have "udp_read cout g dst k nb' (s1, m) = (Some (Ok (min k n)), upd_udp g (\<lambda>u. u\<lparr>us_chan := ?c2, us_last := Some (SocketAddrV4 (n_ip s) q)\<rparr>) s1, m1)"
    using assms(9,12) by (cases "k \<le> n") (simp_all add: udp_read_def s1_def Let_def min_def)
  then show ?thesis unfolding w by (simp add: upd_udp_def)
qed

text \<open>Two sockets: socket 3 is bound to port 7, socket 2 to port 5000 and connected to port 7.\<close>

definition two_sockets :: netst where
  "two_sockets =
     (let sock = \<lambda>port peer. \<lparr>us_refs = 1, us_port = Some port, us_peer = peer, us_last = None, us_chan = fresh_chan UDP_QUEUE\<rparr>;
          s = net_init (net_start (replicate 6 2))
      in s\<lparr>n_udp := (n_udp s)(2 := sock 5000 (Some (SocketAddrV4 (Ipv4Addr 10 0 2 15) 7)), 3 := sock 7 None),
           n_udp_ports := [5000 \<mapsto> [2], 7 \<mapsto> [3]], n_next := 4\<rparr>)"

section \<open>References\<close>

lemma upd_tcp_twice [simp]: "upd_tcp h f (upd_tcp h g s) = upd_tcp h (\<lambda>k. f (g k)) s"
  by (simp add: upd_tcp_def)

lemma upd_tcp_sel [simp]:
  "n_tcp (upd_tcp h f s) = (n_tcp s)(h := f (n_tcp s h))" "n_conns (upd_tcp h f s) = n_conns s" "n_ip (upd_tcp h f s) = n_ip s"
  "n_listeners (upd_tcp h f s) = n_listeners s" "n_lst (upd_tcp h f s) = n_lst s" "n_next (upd_tcp h f s) = n_next s"
  by (simp_all add: upd_tcp_def)

lemma upd_tcp_swap: "g \<noteq> h \<Longrightarrow> upd_tcp g a (upd_tcp h b s) = upd_tcp h b (upd_tcp g a s)"
  by (simp add: upd_tcp_def fun_upd_twist)

text \<open>A reference that is not the last one.\<close>

lemma drop_shared: "1 < tk_refs (n_tcp s h) \<Longrightarrow> tcp_drop h s = upd_tcp h (\<lambda>k. k\<lparr>tk_refs := tk_refs k - 1\<rparr>) s"
  by (simp add: tcp_drop_def)

lemma borrow:
  assumes "tcp_alive s h" "\<And>k r. tk_refs (f k) = tk_refs k \<and> f (k\<lparr>tk_refs := r\<rparr>) = (f k)\<lparr>tk_refs := r\<rparr>"
  shows "tcp_drop h (upd_tcp h f (tcp_clone h s)) = upd_tcp h f s"
proof -
  have "tcp_drop h (upd_tcp h f (tcp_clone h s)) = upd_tcp h (\<lambda>k. f k\<lparr>tk_refs := tk_refs (f k)\<rparr>) s"
    using assms by (simp add: drop_shared tcp_clone_def tcp_alive_def)
  then show ?thesis by simp
qed

lemma borrow_only: "tcp_alive s h \<Longrightarrow> tcp_drop h (tcp_clone h s) = s"
  by (simp add: drop_shared tcp_clone_def tcp_alive_def upd_tcp_def)

lemma send_tcp_local:
  assumes "sa_ip dst = n_ip s" "sent_flags f" "fst (tcp_dispatch t (sa_ip dst) (sa_port dst) src seq ack f payload s) = Ok ()"
  shows "send_tcp_segment (tcp_body t) src dst seq ack f payload nb s =
    (Some (Ok ()), snd (tcp_dispatch t (sa_ip dst) (sa_port dst) src seq ack f payload s))"
  using assms
  by (cases "tcp_dispatch t (sa_ip dst) (sa_port dst) src seq ack f payload s")
     (simp add: send_tcp_segment_def send_ipv4_blocking_def send_ipv4_packet_def IP_PROTO_TCP_def IP_PROTO_UDP_def tcp_body_segment)

section \<open>Established connections\<close>

text \<open>The table leads from the addresses of a segment to the socket, which is alive and established.\<close>

definition conn_at :: "sockaddr \<Rightarrow> sockaddr \<Rightarrow> nat \<Rightarrow> netst \<Rightarrow> bool" where
  "conn_at la peer h s \<longleftrightarrow> n_conns s (conn_key (sa_port la) peer) = Some h \<and> tcp_alive s h \<and> tk_state (n_tcp s h) = Established \<and>
     tk_local (n_tcp s h) = Some la \<and> tk_peer (n_tcp s h) = Some peer"

text \<open>The two ends of a connection within the machine.\<close>

definition joined :: "nat \<Rightarrow> nat \<Rightarrow> netst \<Rightarrow> bool" where
  "joined h c s \<longleftrightarrow> h \<noteq> c \<and>
     (\<exists>p q. conn_at (SocketAddrV4 (n_ip s) q) (SocketAddrV4 (n_ip s) p) h s \<and> conn_at (SocketAddrV4 (n_ip s) p) (SocketAddrV4 (n_ip s) q) c s) \<and>
     tk_snd (n_tcp s h) = tk_rcv (n_tcp s c) \<and> tk_snd (n_tcp s c) = tk_rcv (n_tcp s h)"

lemma ack_ignored:
  assumes "conn_at la peer h s"
  shows "tcp_dispatch t (sa_ip la) (sa_port la) peer seq ack 0x10 [] s = (Ok (), s)"
proof -
  have "on_segment t h peer seq ack 0x10 [] (tcp_clone h s) = (Ok (), tcp_clone h s)"
    using assms by (simp add: on_segment_def conn_at_def tcp_clone_def)
  then show ?thesis using assms by (simp add: conn_at_def tcp_dispatch_def upgrade_def kbind_def borrow_only)
qed

definition received :: "byte list \<Rightarrow> tcp_sock \<Rightarrow> tcp_sock" where
  "received data k = k\<lparr>tk_rcv := tk_rcv k + of_nat (length data), tk_chan := push_bytes data (tk_chan k)\<rparr>"

lemma segment_received:
  assumes "conn_at la peer c s" "conn_at peer la h s" "h \<noteq> c" "sa_ip la = n_ip s" "sa_ip peer = n_ip s"
    and "seq = tk_rcv (n_tcp s c)" "data \<noteq> []"
  shows "tcp_dispatch (tcp_body t) (sa_ip la) (sa_port la) peer seq ack 0x18 data s = (Ok (), upd_tcp c (received data) s)"
proof -
  let ?s = "upd_tcp c (received data) (tcp_clone c s)"
  have h: "conn_at peer la h ?s" using assms(2,3) by (simp add: conn_at_def tcp_alive_def tcp_clone_def)
  have "tcp_dispatch t (sa_ip peer) (sa_port peer) la x y 0x10 [] ?s = (Ok (), ?s)" for x y by (rule ack_ignored [OF h])
  then have "send_tcp_segment (tcp_body t) la peer x y 0x10 [] True ?s = (Some (Ok ()), ?s)" for x y
    using assms(5) by (subst send_tcp_local) (simp_all add: sent_flags_def tcp_clone_def)
  moreover have "?s = upd_tcp c (\<lambda>k. k\<lparr>tk_rcv := seq + of_nat (length data), tk_chan := push_bytes data (tk_chan k)\<rparr>) (tcp_clone c s)"
    using assms(6) by (simp add: upd_tcp_def tcp_clone_def received_def)
  ultimately have "on_segment (tcp_body t) c peer seq ack 0x18 data (tcp_clone c s) = (Ok (), ?s)"
    using assms(1,6,7) by (simp add: on_segment_def conn_at_def tcp_clone_def ignoring_def Let_def)
  moreover have "tcp_drop c ?s = upd_tcp c (received data) s"
    using assms(1) by (intro borrow) (simp_all add: conn_at_def received_def)
  ultimately show ?thesis using assms(1) by (simp add: conn_at_def tcp_dispatch_def upgrade_def kbind_def)
qed

section \<open>Streams\<close>

definition room :: "'a channel \<Rightarrow> nat" where
  "room c = nat (sem_max (ch_sem c)) - length (ch_buf c)"

lemma push_bytes_buf:
  "chan_quiet c \<Longrightarrow> chan_quiet (push_bytes bs c) \<and> ch_buf (push_bytes bs c) = ch_buf c @ take (room c) bs \<and>
     sem_max (ch_sem (push_bytes bs c)) = sem_max (ch_sem c)"
proof (induction bs arbitrary: c)
  case (Cons b bs)
  note q = try_send_quiet [OF Cons.prems, of b]
  show ?case
  proof (cases "int (length (ch_buf c)) = sem_max (ch_sem c)")
    case True
    then have "room c = 0" by (simp add: room_def flip: True)
    with True q Cons.prems show ?thesis by simp
  next
    case False
    let ?c = "push_back (c\<lparr>ch_sem := (ch_sem c)\<lparr>sem_count := sem_count (ch_sem c) - 1\<rparr>\<rparr>) b"
    have "chan_quiet ?c" using False Cons.prems by (auto simp: chan_quiet_def push_back_def)
    moreover have "room c = Suc (room ?c)"
      using False chan_quiet_max [OF Cons.prems] by (simp add: room_def push_back_def)
    ultimately show ?thesis using False q Cons.IH [of ?c] by (simp add: push_back_def)
  qed
qed simp

text \<open>What sending from one end of a connection does to the other, and what it leaves alone.\<close>

definition fed :: "nat \<Rightarrow> byte list \<Rightarrow> netst \<Rightarrow> netst \<Rightarrow> bool" where
  "fed c data s t \<longleftrightarrow> n_ip t = n_ip s \<and> n_conns t = n_conns s \<and> (\<forall>g. g \<noteq> c \<longrightarrow> n_tcp t g = n_tcp s g) \<and>
     tk_refs (n_tcp t c) = tk_refs (n_tcp s c) \<and> tk_state (n_tcp t c) = tk_state (n_tcp s c) \<and>
     tk_local (n_tcp t c) = tk_local (n_tcp s c) \<and> tk_peer (n_tcp t c) = tk_peer (n_tcp s c) \<and> tk_snd (n_tcp t c) = tk_snd (n_tcp s c) \<and>
     tk_rcv (n_tcp t c) = tk_rcv (n_tcp s c) + of_nat (length data) \<and>
     chan_quiet (tk_chan (n_tcp t c)) \<and> sem_max (ch_sem (tk_chan (n_tcp t c))) = sem_max (ch_sem (tk_chan (n_tcp s c))) \<and>
     ch_buf (tk_chan (n_tcp t c)) = ch_buf (tk_chan (n_tcp s c)) @ take (room (tk_chan (n_tcp s c))) data"

lemma fed_received: "chan_quiet (tk_chan (n_tcp s c)) \<Longrightarrow> fed c data s (upd_tcp c (received data) s)"
  using push_bytes_buf by (simp add: fed_def received_def)

lemma fed_nil: "chan_quiet (tk_chan (n_tcp s c)) \<Longrightarrow> fed c [] s s"
  by (simp add: fed_def)

lemma fed_trans: "fed c as s t \<Longrightarrow> fed c bs t u \<Longrightarrow> fed c (as @ bs) s u"
proof -
  assume a: "fed c as s t" and b: "fed c bs t u"
  have "room (tk_chan (n_tcp t c)) = room (tk_chan (n_tcp s c)) - length as"
    using a by (simp add: fed_def room_def)
  with a b show ?thesis by (simp add: fed_def)
qed

lemma fed_conn: "fed c data s t \<Longrightarrow> conn_at la peer g t = conn_at la peer g s"
  by (cases "g = c") (simp_all add: fed_def conn_at_def tcp_alive_def)

lemma slice_split: "slice a (i + j) xs = slice a i xs @ slice (a + i) j xs"
  by (simp add: slice_def take_add add.commute)

lemma write_loop_local:
  assumes "conn_at la peer h s" "conn_at peer la c s" "h \<noteq> c" "sa_ip la = n_ip s" "sa_ip peer = n_ip s"
    and "chan_quiet (tk_chan (n_tcp s c))" "seq = tk_rcv (n_tcp s c)" "src + n \<le> length mem"
    and "\<And>a k. a + k \<le> length mem \<Longrightarrow> cin a k = Ok (slice a k mem)"
  shows "\<exists>t. tcp_write_loop cin la peer ack nb src n sent seq s = (WRet (Ok (sent + n)), seq + of_nat n, t) \<and> fed c (slice src n mem) s t"
  using assms
proof (induction cin la peer ack nb src n sent seq s rule: tcp_write_loop.induct)
  case (1 cin la peer ack nb src n sent seq s)
  show ?case
  proof (cases "0 < n")
    case False
    with 1(7) show ?thesis by (subst tcp_write_loop.simps) (simp add: fed_nil slice_def)
  next
    case True
    let ?n = "min n MSS" and ?s = "upd_tcp c (received (slice src (min n MSS) mem)) s"
    have cin: "cin src ?n = Ok (slice src ?n mem)" using 1(9,10) by simp
    have len: "length (slice src ?n mem) = ?n" using 1(9) by simp
    have ne: "slice src ?n mem \<noteq> []"
    proof
      assume "slice src ?n mem = []"
      with len True show False by (simp add: MSS_def)
    qed
    have "tcp_dispatch (tcp_input 2) (sa_ip peer) (sa_port peer) la seq ack 0x18 (slice src ?n mem) s = (Ok (), ?s)"
      unfolding numeral_2_eq_2 tcp_input.simps(2)
      by (rule segment_received [OF 1(3) 1(2)]) (use 1(4-8) ne in simp_all)
    then have snd: "send_tcp_segment tcp_top la peer seq ack 0x18 (slice src ?n mem) nb s = (Some (Ok ()), ?s)"
      using 1(6) unfolding tcp_top_def numeral_3_eq_3 tcp_input.simps(2)
      by (subst send_tcp_local) (simp_all add: sent_flags_def numeral_2_eq_2)
    have g: "fed c (slice src ?n mem) s ?s" using 1(7) by (rule fed_received)
    have "\<exists>t. tcp_write_loop cin la peer ack nb (src + ?n) (n - ?n) (sent + ?n) (seq + of_nat ?n) ?s =
        (WRet (Ok (sent + ?n + (n - ?n))), seq + of_nat ?n + of_nat (n - ?n), t) \<and> fed c (slice (src + ?n) (n - ?n) mem) ?s t"
      by (rule 1(1) [OF True refl cin snd [symmetric] refl refl]) (use 1(2-10) g len in \<open>auto simp: fed_conn [OF g] received_def push_bytes_buf\<close>)
    then obtain t where t: "tcp_write_loop cin la peer ack nb (src + ?n) (n - ?n) (sent + ?n) (seq + of_nat ?n) ?s =
        (WRet (Ok (sent + ?n + (n - ?n))), seq + of_nat ?n + of_nat (n - ?n), t)" "fed c (slice (src + ?n) (n - ?n) mem) ?s t" by blast
    have "slice src ?n mem @ slice (src + ?n) (n - ?n) mem = slice src n mem"
      using slice_split [of src ?n "n - ?n" mem] by simp
    then have "fed c (slice src n mem) s t" using fed_trans [OF g t(2)] by simp
    then show ?thesis using t(1) True cin snd
      by (subst tcp_write_loop.simps) (simp add: Let_def flip: of_nat_add add.assoc)
  qed
qed

text \<open>
  C32. A write to a connection within the machine always reports that all its bytes were sent. The other
  end receives them in order and after what it had, but only as many as its queue has room for: the rest
  is acknowledged and lost, since the sequence number of the receiver moves on over all of them. Both
  ends stay connected with matching sequence numbers.
\<close>

theorem tcp_stream:
  assumes "joined h c s" "chan_quiet (tk_chan (n_tcp s c))" "src + n \<le> length mem"
    and "\<forall>a k. a + k \<le> length mem \<longrightarrow> cin a k = Ok (slice a k mem)"
  shows "\<exists>t. tcp_write cin h src n nb s = (WRet (Ok n), t) \<and> joined h c t \<and> chan_quiet (tk_chan (n_tcp t c)) \<and>
    ch_buf (tk_chan (n_tcp t c)) = ch_buf (tk_chan (n_tcp s c)) @ take (room (tk_chan (n_tcp s c))) (slice src n mem)"
proof -
  obtain p q where j: "h \<noteq> c" "conn_at (SocketAddrV4 (n_ip s) q) (SocketAddrV4 (n_ip s) p) h s"
      "conn_at (SocketAddrV4 (n_ip s) p) (SocketAddrV4 (n_ip s) q) c s"
      "tk_snd (n_tcp s h) = tk_rcv (n_tcp s c)" "tk_snd (n_tcp s c) = tk_rcv (n_tcp s h)"
    using assms(1) unfolding joined_def by blast
  obtain u where u: "tcp_write_loop cin (SocketAddrV4 (n_ip s) q) (SocketAddrV4 (n_ip s) p) (tk_rcv (n_tcp s h)) nb src n 0 (tk_snd (n_tcp s h)) s =
      (WRet (Ok (0 + n)), tk_snd (n_tcp s h) + of_nat n, u)" and g: "fed c (slice src n mem) s u"
    using write_loop_local [OF j(2,3,1) _ _ assms(2) j(4) assms(3), of cin "tk_rcv (n_tcp s h)" nb 0] assms(4) by auto
  let ?t = "upd_tcp h (\<lambda>k. k\<lparr>tk_snd := tk_snd (n_tcp s h) + of_nat n\<rparr>) u"
  have w: "tcp_write cin h src n nb s = (WRet (Ok n), ?t)" using u j(2) by (simp add: tcp_write_def conn_at_def)
  have "conn_at la peer x ?t = conn_at la peer x s" for la peer x
    using fed_conn [OF g, of la peer x] by (auto simp: conn_at_def tcp_alive_def)
  then have "joined h c ?t"
    using g j assms(3) unfolding joined_def by (auto simp: fed_def)
  then show ?thesis using w g j(1) by (simp add: fed_def)
qed

text \<open>The two ends, sockets 2 and 3, of a connection between the ports 5000 and 7.\<close>

definition two_ends :: netst where
  "two_ends =
     (let la = SocketAddrV4 (Ipv4Addr 10 0 2 15) 5000; pa = SocketAddrV4 (Ipv4Addr 10 0 2 15) 7; s = net_init (net_start (replicate 6 2));
          sock = \<lambda>a b m n. \<lparr>tk_refs = 1, tk_local = Some a, tk_peer = Some b, tk_state = Established, tk_snd = m, tk_rcv = n, tk_listener = None,
            tk_chan = fresh_chan TCP_QUEUE\<rparr>
      in s\<lparr>n_tcp := (n_tcp s)(2 := sock la pa 1 2, 3 := sock pa la 2 1), n_conns := [conn_key 5000 pa \<mapsto> 2, conn_key 7 la \<mapsto> 3], n_next := 4\<rparr>)"

theorem tcp_stream_witness:
  "\<exists>t. tcp_write (\<lambda>a n. Ok (slice a n (replicate 2000 65))) 2 0 1500 True two_ends = (WRet (Ok 1500), t) \<and> joined 2 3 t \<and>
     chan_quiet (tk_chan (n_tcp t 3)) \<and>
     ch_buf (tk_chan (n_tcp t 3)) = ch_buf (tk_chan (n_tcp two_ends 3)) @ take (room (tk_chan (n_tcp two_ends 3))) (slice 0 1500 (replicate 2000 65))"
  by (rule tcp_stream)
     (auto simp: two_ends_def Let_def joined_def conn_at_def conn_key_def tcp_alive_def net_init_def chan_quiet_def fresh_chan_def TCP_QUEUE_def)

section \<open>Opening a connection\<close>

definition pushed :: "nat \<Rightarrow> nat channel \<Rightarrow> nat channel" where
  "pushed c ch = push_back (ch\<lparr>ch_sem := (ch_sem ch)\<lparr>sem_count := sem_count (ch_sem ch) - 1\<rparr>\<rparr>) c"

definition accepted :: "nat \<Rightarrow> nat \<Rightarrow> netst \<Rightarrow> netst" where
  "accepted l c s = notify_tcp (upd_lst l (\<lambda>x. x\<lparr>tl_chan := pushed c (tl_chan x)\<rparr>)
     (upd_tcp c (\<lambda>k. k\<lparr>tk_state := Established, tk_listener := None, tk_refs := tk_refs k + 1\<rparr>) s))"

text \<open>The last acknowledgement hands the connection to its listener.\<close>

lemma last_ack:
  assumes "n_conns s (conn_key p la) = Some c" "tcp_alive s c" "tk_state (n_tcp s c) = SynReceived" "tk_snd (n_tcp s c) = ack"
    and "tk_listener (n_tcp s c) = Some l" "lst_alive s l" "chan_quiet (tl_chan (n_lst s l))" "room (tl_chan (n_lst s l)) \<noteq> 0"
  shows "tcp_dispatch t dip p la seq ack 0x10 [] s = (Ok (), accepted l c s)"
proof -
  have "int (length (ch_buf (tl_chan (n_lst s l)))) \<noteq> sem_max (ch_sem (tl_chan (n_lst s l)))" using assms(8) by (auto simp: room_def)
  then have "chan_try_send (tl_chan (n_lst s l)) c = (Ok (), pushed c (tl_chan (n_lst s l)))"
    using try_send_quiet [OF assms(7)] by (simp add: pushed_def)
  then have "on_segment t c la seq ack 0x10 [] (tcp_clone c s) =
      (Ok (), notify_tcp (tcp_clone c (upd_lst l (\<lambda>x. x\<lparr>tl_chan := pushed c (tl_chan x)\<rparr>)
        (upd_tcp c (\<lambda>k. k\<lparr>tk_state := Established, tk_listener := None\<rparr>) (tcp_clone c s)))))"
    using assms by (simp add: on_segment_def upgrade_def lst_alive_def lst_enqueue_def upd_lst_def tcp_clone_def)
  moreover have "tcp_drop c (notify_tcp (tcp_clone c (upd_lst l f (upd_tcp c (\<lambda>k. k\<lparr>tk_state := Established, tk_listener := None\<rparr>) (tcp_clone c s))))) =
      notify_tcp (upd_lst l f (upd_tcp c (\<lambda>k. k\<lparr>tk_state := Established, tk_listener := None, tk_refs := tk_refs k + 1\<rparr>) s))" for f
    by (simp add: drop_shared notify_tcp_def tcp_clone_def upd_lst_def upd_tcp_def)
  ultimately show ?thesis using assms(1,2) by (simp add: tcp_dispatch_def upgrade_def kbind_def accepted_def)
qed

text \<open>The answer to the request establishes the asking end and, nested in it, the other one.\<close>

definition answered :: "nat \<Rightarrow> sockaddr \<Rightarrow> u32 \<Rightarrow> netst \<Rightarrow> netst" where
  "answered h peer seq = upd_tcp h (\<lambda>k. k\<lparr>tk_peer := Some peer, tk_rcv := seq + 1, tk_state := Established\<rparr>)"

lemma syn_ack:
  assumes "n_conns s (conn_key q peer) = Some h" "tcp_alive s h" "tk_state (n_tcp s h) = SynSent" "tk_snd (n_tcp s h) = ack"
    and "tk_local (n_tcp s h) = Some la" "h \<noteq> c" "sa_ip peer = n_ip s"
    and "n_conns s (conn_key (sa_port peer) la) = Some c" "tcp_alive s c" "tk_state (n_tcp s c) = SynReceived" "tk_snd (n_tcp s c) = seq + 1"
    and "tk_listener (n_tcp s c) = Some l" "lst_alive s l" "chan_quiet (tl_chan (n_lst s l))" "room (tl_chan (n_lst s l)) \<noteq> 0"
  shows "tcp_dispatch (tcp_body t) dip q peer seq ack 0x12 [] s = (Ok (), notify_tcp (accepted l c (answered h peer seq s)))"
proof -
  let ?s = "answered h peer seq (tcp_clone h s)"
  have "tcp_dispatch t (sa_ip peer) (sa_port peer) la ack (seq + 1) 0x10 [] ?s = (Ok (), accepted l c ?s)"
    by (rule last_ack) (use assms in \<open>simp_all add: answered_def tcp_clone_def tcp_alive_def lst_alive_def\<close>)
  then have "send_tcp_segment (tcp_body t) la peer ack (seq + 1) 0x10 [] True ?s = (Some (Ok ()), accepted l c ?s)"
    using assms(7) by (subst send_tcp_local) (simp_all add: sent_flags_def answered_def tcp_clone_def)
  then have "on_segment (tcp_body t) h peer seq ack 0x12 [] (tcp_clone h s) = (Ok (), notify_tcp (accepted l c ?s))"
    using assms(3-5) by (simp add: on_segment_def answered_def tcp_clone_def ignoring_def kbind_def Let_def)
  moreover have "tcp_drop h (notify_tcp (accepted l c ?s)) = notify_tcp (accepted l c (answered h peer seq s))"
    using assms(2,6)
    by (simp add: drop_shared tcp_alive_def accepted_def answered_def notify_tcp_def tcp_clone_def upd_lst_def upd_tcp_def fun_upd_twist)
  ultimately show ?thesis using assms(1,2) by (simp add: tcp_dispatch_def upgrade_def kbind_def)
qed

lemma syn_local:
  assumes "n_conns s (conn_key q (SocketAddrV4 (n_ip s) p)) = Some h" "tcp_alive s h" "tk_state (n_tcp s h) = SynSent" "tk_snd (n_tcp s h) = 1"
    and "tk_local (n_tcp s h) = Some (SocketAddrV4 (n_ip s) q)" "h \<noteq> n_next s" "p \<noteq> q"
    and "upgrade (tcp_alive s) (n_conns s (conn_key p (SocketAddrV4 (n_ip s) q))) = None"
    and "upgrade (lst_alive s) (n_listeners s p) = Some l" "chan_quiet (tl_chan (n_lst s l))" "room (tl_chan (n_lst s l)) \<noteq> 0"
  shows "tcp_dispatch (tcp_body (tcp_body t)) (n_ip s) p (SocketAddrV4 (n_ip s) q) 0 0 0x02 [] s =
    (Ok (), tcp_drop (n_next s) (notify_tcp (accepted l (n_next s) (answered h (SocketAddrV4 (n_ip s) p) 1 (entered (n_ip s) p (SocketAddrV4 (n_ip s) q) l 0 s)))))"
proof -
  let ?la = "SocketAddrV4 (n_ip s) q" and ?peer = "SocketAddrV4 (n_ip s) p"
  let ?s = "entered (n_ip s) p ?la l 0 s"
  have k: "conn_key q ?peer \<noteq> conn_key p ?la" using assms(7) by (simp add: conn_key_def)
  have l: "lst_alive s l" using assms(9) by (auto simp: upgrade_def split: option.splits if_splits)
  have "tcp_dispatch (tcp_body t) (n_ip s) q ?peer 1 1 0x12 [] ?s = (Ok (), notify_tcp (accepted l (n_next s) (answered h ?peer 1 ?s)))"
    by (rule syn_ack [where la = ?la]) (use assms k l in \<open>simp_all add: entered_def tcp_alive_def lst_alive_def\<close>)
  then have "send_tcp_segment (tcp_body (tcp_body t)) ?peer ?la 1 1 0x12 [] True ?s = (Some (Ok ()), notify_tcp (accepted l (n_next s) (answered h ?peer 1 ?s)))"
    by (subst send_tcp_local) (simp_all add: sent_flags_def entered_def)
  then show ?thesis using assms(8,9) by (simp add: tcp_dispatch_def accept_syn_entered ignoring_def kbind_def)
qed

text \<open>
  C33. \<^verbatim>\<open>connect\<close> to a listening port of the own machine succeeds at once: the whole handshake runs nested
  in it. Afterwards a new socket with an empty queue waits in the listener's queue, and it and the asking
  socket are the two ends of one connection, with mirrored addresses and sequence numbers.
\<close>

theorem tcp_connect_local:
  assumes "tcp_alive s h" "tk_state (n_tcp s h) \<noteq> Established" "h \<noteq> n_next s"
    and "tk_local (n_tcp s h) = Some (SocketAddrV4 (n_ip s) q) \<or> tk_local (n_tcp s h) = None \<and> fst (alloc_ephemeral_port s) = q"
    and "p \<noteq> q" "upgrade (tcp_alive s) (n_conns s (conn_key p (SocketAddrV4 (n_ip s) q))) = None"
    and "upgrade (lst_alive s) (n_listeners s p) = Some l" "chan_quiet (tl_chan (n_lst s l))" "room (tl_chan (n_lst s l)) \<noteq> 0"
  shows "\<exists>t. tcp_connect killed h (SocketAddrV4 (n_ip s) p) False s = (Some (Ok ()), t) \<and> joined h (n_next s) t \<and>
    ch_buf (tl_chan (n_lst t l)) = ch_buf (tl_chan (n_lst s l)) @ [n_next s] \<and>
    chan_quiet (tk_chan (n_tcp t (n_next s))) \<and> ch_buf (tk_chan (n_tcp t (n_next s))) = []"
proof -
  let ?la = "SocketAddrV4 (n_ip s) q" and ?peer = "SocketAddrV4 (n_ip s) p"
  obtain u where u: "connect_enter h ?peer s = (?la, u)" and f: "n_ip u = n_ip s" "n_next u = n_next s" "n_listeners u = n_listeners s" "n_lst u = n_lst s"
    and c: "n_conns u = (n_conns s)(conn_key q ?peer \<mapsto> h)"
    and k: "n_tcp u = (n_tcp s)(h := (n_tcp s h)\<lparr>tk_local := Some ?la, tk_peer := Some ?peer, tk_state := SynSent, tk_snd := 1, tk_rcv := 0\<rparr>)"
    using assms(4) by (auto simp: connect_enter_def Let_def alloc_ephemeral_port_def split: option.splits)
  have "conn_key p ?la \<noteq> conn_key q ?peer" using assms(5) by (simp add: conn_key_def)
  then have n: "upgrade (tcp_alive u) (n_conns u (conn_key p ?la)) = None"
    using assms(1,6) c k by (auto simp: upgrade_def tcp_alive_def split: option.splits if_splits)
  have la: "lst_alive u = lst_alive s" by (rule ext) (simp add: lst_alive_def f)
  define t where "t = tcp_drop (n_next s) (notify_tcp (accepted l (n_next s) (answered h ?peer 1 (entered (n_ip s) p ?la l 0 u))))"
  have "tcp_dispatch (tcp_input 2) (n_ip u) p (SocketAddrV4 (n_ip u) q) 0 0 0x02 [] u =
    (Ok (), tcp_drop (n_next u) (notify_tcp (accepted l (n_next u) (answered h (SocketAddrV4 (n_ip u) p) 1 (entered (n_ip u) p (SocketAddrV4 (n_ip u) q) l 0 u)))))"
    unfolding numeral_2_eq_2 tcp_input.simps(2)
    by (rule syn_local) (use assms f c k n la in \<open>simp_all add: tcp_alive_def [of _ h]\<close>)
  then have d: "tcp_dispatch (tcp_input 2) (n_ip s) p ?la 0 0 0x02 [] u = (Ok (), t)" by (simp add: f t_def)
  have "send_tcp_segment tcp_top ?la ?peer 0 0 0x02 [] False u = (Some (Ok ()), t)"
    using d unfolding tcp_top_def numeral_3_eq_3 tcp_input.simps(2)
    by (subst send_tcp_local) (simp_all add: sent_flags_def f numeral_2_eq_2)
  moreover have t: "t = upd_tcp (n_next s) (\<lambda>k. k\<lparr>tk_refs := tk_refs k - 1\<rparr>) (notify_tcp (accepted l (n_next s) (answered h ?peer 1 (entered (n_ip s) p ?la l 0 u))))"
    unfolding t_def using assms(3) f by (intro drop_shared) (simp add: notify_tcp_def accepted_def upd_lst_def answered_def entered_def)
  moreover have "tk_state (n_tcp t h) = Established"
    using assms(3) f unfolding t by (simp add: notify_tcp_def accepted_def upd_lst_def answered_def entered_def)
  ultimately have w: "tcp_connect killed h ?peer False s = (Some (Ok ()), t)" using assms(2) u by (simp add: tcp_connect_def connect_wait_def)
  have "joined h (n_next s) t"
    using assms(1,3,5) f c k unfolding joined_def conn_at_def t
    by (auto simp: notify_tcp_def accepted_def upd_lst_def answered_def entered_def tcp_alive_def conn_key_def)
  moreover have "n_lst t l = (n_lst s l)\<lparr>tl_chan := pushed (n_next s) (tl_chan (n_lst s l))\<rparr>" "tk_chan (n_tcp t (n_next s)) = fresh_chan TCP_QUEUE"
    using assms(3) f unfolding t by (simp_all add: notify_tcp_def accepted_def upd_lst_def answered_def entered_def)
  ultimately show ?thesis using w by (simp add: pushed_def push_back_def fresh_chan_def chan_quiet_def TCP_QUEUE_def)
qed

text \<open>A listener, number 5, on port 7, and a new socket, number 2.\<close>

definition one_listener :: netst where
  "one_listener =
     (let s = net_init (net_start (replicate 6 2));
          k = \<lparr>tk_refs = 1, tk_local = None, tk_peer = None, tk_state = Closed, tk_snd = 0, tk_rcv = 0, tk_listener = None, tk_chan = fresh_chan TCP_QUEUE\<rparr>
      in s\<lparr>n_tcp := (n_tcp s)(2 := k), n_lst := (n_lst s)(5 := \<lparr>tl_refs = 1, tl_port = 7, tl_chan = fresh_chan 4\<rparr>), n_listeners := [7 \<mapsto> 5], n_next := 6\<rparr>)"

lemma one_listener_eval:
  "n_next one_listener = 6" "n_ip one_listener = Ipv4Addr 10 0 2 15" "n_conns one_listener = Map.empty" "tcp_alive one_listener 2"
  "upgrade (lst_alive one_listener) (n_listeners one_listener 7) = Some 5" "tl_chan (n_lst one_listener 5) = fresh_chan 4"
  "tk_state (n_tcp one_listener 2) = Closed" "tk_local (n_tcp one_listener 2) = None" "n_port one_listener = 49152"
  by (simp_all add: one_listener_def Let_def net_init_def net_start_def tcp_alive_def lst_alive_def upgrade_def)

theorem tcp_connect_local_witness:
  "\<exists>t. tcp_connect False 2 (SocketAddrV4 (n_ip one_listener) 7) False one_listener = (Some (Ok ()), t) \<and> joined 2 (n_next one_listener) t \<and>
     ch_buf (tl_chan (n_lst t 5)) = ch_buf (tl_chan (n_lst one_listener 5)) @ [n_next one_listener] \<and>
     chan_quiet (tk_chan (n_tcp t (n_next one_listener))) \<and> ch_buf (tk_chan (n_tcp t (n_next one_listener))) = []"
  by (rule tcp_connect_local [where q = 49152])
     (simp_all add: one_listener_eval alloc_ephemeral_port_def Let_def upgrade_def [of _ None] chan_quiet_def fresh_chan_def room_def)

lemma snd_ignoring [simp]: "snd (ignoring x) = snd x"
  by (auto simp: ignoring_def split: prod.split option.split outcome.split)

lemma snd_blocking: "snd (send_ipv4_blocking t proto src dst payload nb s) = snd (send_ipv4_packet t proto src dst payload nb s)"
proof -
  obtain r s1 where e: "send_ipv4_packet t proto src dst payload nb s = (r, s1)" by (rule prod.exhaust)
  have "snd (case (r, s1) of (Some (Err WouldBlock), s1) \<Rightarrow> (if nb then Some (Err WouldBlock) else None, s1) | (r, s1) \<Rightarrow> (r, s1)) = s1"
    by (cases r rule: result_optE; (simp; fail)?; rename_tac e; case_tac e; simp)
  then show ?thesis by (simp only: send_ipv4_blocking_def e snd_conv)
qed

text \<open>Sending to another machine changes the device only.\<close>

lemma send_away:
  assumes "sa_ip b \<noteq> n_ip s"
  shows "\<exists>d. snd (send_tcp_segment t a b seq ack f payload nb s) = s\<lparr>n_dev := d\<rparr>"
proof -
  have f: "\<exists>d. snd (send_frame x nb s) = s\<lparr>n_dev := d\<rparr>" for x nb
    by (cases "send_frame_inner x nb (n_dev s)") (auto simp: send_frame_def)
  have "\<exists>d. snd (ignoring (send_arp_request ip s)) = s\<lparr>n_dev := d\<rparr>" for ip
    using f by (simp add: send_arp_request_def)
  moreover have "snd (case x of (Panic, s1) \<Rightarrow> (Some Panic :: unit result option, s1) | (_, s1) \<Rightarrow> (Some (Err WouldBlock), s1)) = snd x" for x :: "unit result \<times> netst"
    by (simp split: prod.split outcome.split)
  ultimately show ?thesis using assms f
    by (simp add: send_tcp_segment_def snd_blocking send_ipv4_packet_def Let_def split: option.split)
qed

text \<open>
  A connection request that comes from another machine to a listening port is lost: the socket made
  for it is owned by the call that handles the request only, and the table of connections keeps a weak
  reference. Once the answer is sent the socket is gone, so the last acknowledgement of the other machine
  finds no connection, and the listener never gets one.
\<close>

lemma remote_connect_lost:
  assumes "sa_ip remote \<noteq> n_ip s" "net_ok s" "upgrade (tcp_alive s) (n_conns s (conn_key p remote)) = None"
    and "upgrade (lst_alive s) (n_listeners s p) = Some l"
  shows "let t = snd (tcp_dispatch tcp_top (n_ip s) p remote seq ack 0x02 [] s) in
    \<not> tcp_alive t (n_next s) \<and> n_lst t = n_lst s \<and> tcp_dispatch tcp_top (n_ip s) p remote (seq + 1) 2 0x10 [] t = (Ok (), t)"
proof -
  let ?s = "entered (n_ip s) p remote l seq s" and ?c = "n_next s"
  have "sa_ip remote \<noteq> n_ip ?s" using assms(1) by (simp add: entered_def)
  from send_away [OF this, where t = tcp_top and a = "SocketAddrV4 (n_ip s) p" and seq = 1 and ack = "seq + 1" and f = "0x12" and payload = "[]" and nb = True]
  obtain r d where r: "send_tcp_segment tcp_top (SocketAddrV4 (n_ip s) p) remote 1 (seq + 1) 0x12 [] True ?s = (r, ?s\<lparr>n_dev := d\<rparr>)"
    by (metis surjective_pairing)
  have "fine (ignoring (send_tcp_segment tcp_top (SocketAddrV4 (n_ip s) p) remote 1 (seq + 1) 0x12 [] True ?s))"
    using assms(2) by (intro fine_send good_top net_ok_entered)
  with r have "ignoring (send_tcp_segment tcp_top (SocketAddrV4 (n_ip s) p) remote 1 (seq + 1) 0x12 [] True ?s) = (Ok (), ?s\<lparr>n_dev := d\<rparr>)"
    by (auto simp: fine_def ignoring_def split: option.splits outcome.splits)
  then have t: "tcp_dispatch tcp_top (n_ip s) p remote seq ack 0x02 [] s = (Ok (), tcp_drop ?c (?s\<lparr>n_dev := d\<rparr>))"
    using assms(3,4) by (simp add: tcp_dispatch_def accept_syn_entered kbind_def)
  have "tcp_drop ?c (?s\<lparr>n_dev := d\<rparr>) = upd_tcp ?c (\<lambda>k. k\<lparr>tk_refs := 0\<rparr>) (?s\<lparr>n_dev := d\<rparr>)"
    by (simp add: tcp_drop_def entered_def upgrade_def tcp_alive_def upd_tcp_def)
  then show ?thesis unfolding t Let_def
    by (simp add: tcp_alive_def tcp_dispatch_def upgrade_def) (simp add: entered_def tcp_alive_def)
qed

end
