(* ===== verification/Framebuffer.thy ===== *)
theory Framebuffer
  imports Bytes "HOL-Library.Monad_Syntax"
begin

text \<open>
  The text console on the graphics device (\<^verbatim>\<open>crates/kernel/src/framebuffer.rs\<close>, with the frame buffer
  and \<^verbatim>\<open>flush_rect\<close> of \<^verbatim>\<open>virtio_gpu.rs\<close>): a terminal with scrollback, cursor movement, a part of the
  ANSI escape sequences and UTF-8, drawing into a frame buffer whose changed part is transferred to the host.

  \<open>None\<close> is a panic: an index or a slice out of range, or a subtraction below zero. Numbers of the type
  \<^verbatim>\<open>usize\<close> are natural numbers; only the parameter of an escape sequence can grow without bound, and it
  saturates as in the source. Code points are natural numbers. The glyphs and the host's side of a transfer
  are arguments, collected in \<open>'h host\<close>.
\<close>

unbundle bit_operations_syntax

section \<open>State\<close>

definition BORDER_PADDING :: nat where "BORDER_PADDING = 2"
definition LINE_SPACING :: nat where "LINE_SPACING = 2"
definition LETTER_SPACING :: nat where "LETTER_SPACING = 0"
definition SCALE :: nat where "SCALE = 2"
definition SCROLLBACK_LINES :: nat where "SCROLLBACK_LINES = 200"
definition CHAR_W :: nat where "CHAR_W = 8 * SCALE"
definition CHAR_H :: nat where "CHAR_H = 8 * SCALE"
definition EARLY_BUF_SIZE :: nat where "EARLY_BUF_SIZE = 8192"

datatype pixel_format = Bgrx8888 | Rgbx8888 | Bgra8888

fun pack_rgba :: "pixel_format \<Rightarrow> byte \<Rightarrow> byte \<Rightarrow> byte \<Rightarrow> byte \<Rightarrow> u32" where
  "pack_rgba Bgrx8888 r g b a = push_bit 24 (ucast a) OR push_bit 16 (ucast r) OR push_bit 8 (ucast g) OR ucast b"
| "pack_rgba Rgbx8888 r g b a = push_bit 24 (ucast a) OR push_bit 16 (ucast b) OR push_bit 8 (ucast g) OR ucast r"
| "pack_rgba Bgra8888 r g b a = push_bit 24 (ucast a) OR push_bit 16 (ucast r) OR push_bit 8 (ucast g) OR ucast b"

record rect =
  r_x :: nat
  r_y :: nat
  r_w :: nat
  r_h :: nat

text \<open>The glyph tables, and what a transfer of a rectangle, starting at an offset in bytes of the backing
  memory, does to the picture of the host.\<close>

record 'h host =
  h_font :: "byte list list"
  h_latin :: "byte list list"
  h_box :: "byte list list"
  h_transfer :: "rect \<Rightarrow> nat \<Rightarrow> u32 list \<Rightarrow> 'h \<Rightarrow> 'h"

record 'h gpu =
  g_inited :: bool
  g_width :: nat
  g_height :: nat
  g_stride :: nat
  g_fmt :: pixel_format
  g_fb :: "u32 list"
  g_shown :: 'h

record fbcon =
  inited :: bool
  cx :: nat
  cy :: nat
  width :: nat
  height :: nat
  stride :: nat
  fmt :: pixel_format
  cols :: nat
  rows :: nat
  max_lines :: nat
  line_base :: nat
  line_count :: nat
  cursor_line :: nat
  cursor_col :: nat
  view_offset :: nat
  lines :: "byte list list"
  dirty :: bool
  dirty_minx :: nat
  dirty_miny :: nat
  dirty_maxx :: nat
  dirty_maxy :: nat
  esc :: bool
  csi :: bool
  csi_num :: nat
  csi_have_num :: bool
  utf8_codepoint :: nat
  utf8_needed :: nat
  utf8_min :: nat

record earlybuf =
  eb_buf :: "byte list"
  eb_r :: nat
  eb_w :: nat
  eb_full :: bool

type_synonym 'h scr = "fbcon \<times> 'h gpu"

definition SPACE :: byte where "SPACE = 32"

definition usat :: "nat \<Rightarrow> nat" where
  "usat n = min n (2 ^ 64 - 1)"

section \<open>The buffer for early output\<close>

definition early_new :: earlybuf where
  "early_new = \<lparr>eb_buf = replicate EARLY_BUF_SIZE 0, eb_r = 0, eb_w = 0, eb_full = False\<rparr>"

definition early_push :: "byte \<Rightarrow> earlybuf \<Rightarrow> earlybuf option" where
  "early_push b e =
     (if eb_w e < length (eb_buf e) then
        (let w = (eb_w e + 1) mod EARLY_BUF_SIZE;
             r = (if eb_full e then (eb_r e + 1) mod EARLY_BUF_SIZE else eb_r e)
         in Some (e\<lparr>eb_buf := (eb_buf e)[eb_w e := b], eb_w := w, eb_r := r, eb_full := (w = r)\<rparr>))
      else None)"

definition early_pop :: "earlybuf \<Rightarrow> (byte option \<times> earlybuf) option" where
  "early_pop e =
     (if \<not> eb_full e \<and> eb_r e = eb_w e then Some (None, e)
      else if eb_r e < length (eb_buf e) then
        Some (Some (eb_buf e ! eb_r e), e\<lparr>eb_r := (eb_r e + 1) mod EARLY_BUF_SIZE, eb_full := False\<rparr>)
      else None)"

section \<open>Slices\<close>

definition fill_range :: "nat \<Rightarrow> nat \<Rightarrow> 'a \<Rightarrow> 'a list \<Rightarrow> 'a list option" where
  "fill_range a b v xs = (if a \<le> b \<and> b \<le> length xs then Some (take a xs @ replicate (b - a) v @ drop b xs) else None)"

definition copy_within :: "nat \<Rightarrow> nat \<Rightarrow> nat \<Rightarrow> 'a list \<Rightarrow> 'a list option" where
  "copy_within a b d xs = (if a \<le> b \<and> b \<le> length xs \<and> d + (b - a) \<le> length xs then Some (patch d (slice a (b - a) xs) xs) else None)"

definition put_at :: "nat \<Rightarrow> 'a \<Rightarrow> 'a list \<Rightarrow> 'a list option" where
  "put_at i v xs = (if i < length xs then Some (xs[i := v]) else None)"

text \<open>A loop over a list whose body can panic.\<close>

fun each :: "('a \<Rightarrow> 's \<Rightarrow> 's option) \<Rightarrow> 'a list \<Rightarrow> 's \<Rightarrow> 's option" where
  "each f [] s = Some s"
| "each f (x # xs) s = Option.bind (f x s) (each f xs)"

definition fb_fill :: "nat \<Rightarrow> nat \<Rightarrow> u32 \<Rightarrow> 'h gpu \<Rightarrow> 'h gpu option" where
  "fb_fill a b v g = map_option (\<lambda>fb. g\<lparr>g_fb := fb\<rparr>) (fill_range a b v (g_fb g))"

section \<open>The dirty rectangle\<close>

definition fbcon_new :: fbcon where
  "fbcon_new =
     \<lparr>inited = False, cx = BORDER_PADDING, cy = BORDER_PADDING, width = 0, height = 0, stride = 0, fmt = Bgrx8888, cols = 0, rows = 0,
      max_lines = 0, line_base = 0, line_count = 0, cursor_line = 0, cursor_col = 0, view_offset = 0, lines = [], dirty = False,
      dirty_minx = 0, dirty_miny = 0, dirty_maxx = 0, dirty_maxy = 0, esc = False, csi = False, csi_num = 0, csi_have_num = False,
      utf8_codepoint = 0, utf8_needed = 0, utf8_min = 0\<rparr>"

definition mark_dirty_rect :: "nat \<Rightarrow> nat \<Rightarrow> nat \<Rightarrow> nat \<Rightarrow> fbcon \<Rightarrow> fbcon" where
  "mark_dirty_rect x y w h c =
     (if \<not> inited c \<or> width c = 0 \<or> height c = 0 then c
      else if w = 0 \<or> h = 0 then c
      else
        (let x0 = min x (width c - 1); y0 = min y (height c - 1);
             x1 = min (usat (x + w) - 1) (width c - 1); y1 = min (usat (y + h) - 1) (height c - 1)
         in if x1 < x0 \<or> y1 < y0 then c
            else if \<not> dirty c then
              c\<lparr>dirty := True, dirty_minx := x0, dirty_miny := y0, dirty_maxx := x1, dirty_maxy := y1\<rparr>
            else
              c\<lparr>dirty_minx := min (dirty_minx c) x0, dirty_miny := min (dirty_miny c) y0,
                dirty_maxx := max (dirty_maxx c) x1, dirty_maxy := max (dirty_maxy c) y1\<rparr>))"

text \<open>\<^verbatim>\<open>flush_rect\<close> of the driver; its commands always get through.\<close>

definition flush_rect :: "'h host \<Rightarrow> nat \<Rightarrow> nat \<Rightarrow> nat \<Rightarrow> nat \<Rightarrow> 'h gpu \<Rightarrow> 'h gpu" where
  "flush_rect H x y w h g =
     (if g_fb g = [] then g
      else
        (let x = min x (g_width g); y = min y (g_height g); w = min w (g_width g - x); h = min h (g_height g - y)
         in if w = 0 \<or> h = 0 then g
            else g\<lparr>g_shown := h_transfer H \<lparr>r_x = x, r_y = y, r_w = w, r_h = h\<rparr> ((y * g_stride g + x) * 4) (g_fb g) (g_shown g)\<rparr>))"

definition flush_dirty_locked :: "'h host \<Rightarrow> 'h scr \<Rightarrow> 'h scr option" where
  "flush_dirty_locked H s =
     (case s of (c, g) \<Rightarrow>
        if \<not> dirty c then Some (c, g)
        else if dirty_maxx c < dirty_minx c \<or> dirty_maxy c < dirty_miny c then None
        else
          Some (c\<lparr>dirty := False, dirty_minx := 0, dirty_miny := 0, dirty_maxx := 0, dirty_maxy := 0\<rparr>,
                flush_rect H (dirty_minx c) (dirty_miny c) (dirty_maxx c - dirty_minx c + 1) (dirty_maxy c - dirty_miny c + 1) g))"

section \<open>The lines\<close>

definition line_index :: "nat \<Rightarrow> fbcon \<Rightarrow> nat option" where
  "line_index abs_line c = (if max_lines c = 0 then None else Some (abs_line mod max_lines c))"

definition clear_line_buf :: "nat \<Rightarrow> fbcon \<Rightarrow> fbcon option" where
  "clear_line_buf abs_line c =
     do {
       idx \<leftarrow> line_index abs_line c;
       if idx < length (lines c) then Some (c\<lparr>lines := (lines c)[idx := replicate (length (lines c ! idx)) SPACE]\<rparr>) else None
     }"

definition visible_start_line :: "fbcon \<Rightarrow> nat option" where
  "visible_start_line c =
     (if line_base c + line_count c = 0 then None
      else
        (let end_line = line_base c + line_count c - 1;
             start = (if rows c < end_line + 1 then end_line + 1 - rows c else line_base c);
             max_offset = start - line_base c
         in Some (start - min (view_offset c) max_offset)))"

definition update_cursor_xy :: "fbcon \<Rightarrow> fbcon option" where
  "update_cursor_xy c =
     do {
       start \<leftarrow> visible_start_line c;
       let row = min (cursor_line c - start) (rows c - 1);
       let col = min (cursor_col c) (cols c - 1);
       Some (c\<lparr>cx := BORDER_PADDING + col * (CHAR_W + LETTER_SPACING), cy := BORDER_PADDING + row * (CHAR_H + LINE_SPACING)\<rparr>)
     }"

definition black :: "fbcon \<Rightarrow> u32" where
  "black c = pack_rgba (fmt c) 0 0 0 0xff"

section \<open>Drawing\<close>

definition glyph_for_char :: "'h host \<Rightarrow> nat \<Rightarrow> byte list" where
  "glyph_for_char H cp =
     (if cp < 0x80 then h_font H ! cp
      else if 0xA0 \<le> cp \<and> cp \<le> 0xFF then h_latin H ! (cp - 0xA0)
      else if 0x2500 \<le> cp \<and> cp \<le> 0x257F then h_box H ! (cp - 0x2500)
      else h_font H ! 63)"

definition glyph_color :: "fbcon \<Rightarrow> byte list \<Rightarrow> nat \<Rightarrow> nat \<Rightarrow> u32" where
  "glyph_color c glyph row col = (if bit (glyph ! row) (7 - col) then pack_rgba (fmt c) 0 255 64 0xff else black c)"

text \<open>The four pixels of a dot of a glyph that is fully visible.\<close>

definition draw_dot :: "fbcon \<Rightarrow> byte list \<Rightarrow> nat \<Rightarrow> nat \<Rightarrow> nat \<times> nat \<Rightarrow> u32 list \<Rightarrow> u32 list option" where
  "draw_dot c glyph px py rc fb =
     (case rc of (row, col) \<Rightarrow>
        let y = py + row * SCALE; x = col * SCALE;
            i0 = y * stride c + px + x; i1 = (y + 1) * stride c + px + x;
            color = glyph_color c glyph row col
        in do {
             fb \<leftarrow> put_at i0 color fb;
             fb \<leftarrow> put_at (i0 + 1) color fb;
             fb \<leftarrow> put_at i1 color fb;
             put_at (i1 + 1) color fb
           })"

text \<open>One pixel of a glyph at the edge of the screen, with the bounds of what was drawn.\<close>

definition draw_edge :: "fbcon \<Rightarrow> byte list \<Rightarrow> nat \<Rightarrow> nat \<Rightarrow> nat \<times> nat \<times> nat \<times> nat \<Rightarrow>
    u32 list \<times> nat \<times> nat \<times> nat \<times> nat \<Rightarrow> (u32 list \<times> nat \<times> nat \<times> nat \<times> nat) option" where
  "draw_edge c glyph px py d s =
     (case (d, s) of ((row, col, sy, sx), (fb, minx, miny, maxx, maxy)) \<Rightarrow>
        let x = px + col * SCALE + sx; y = py + row * SCALE + sy
        in if width c \<le> x \<or> height c \<le> y then Some (fb, minx, miny, maxx, maxy)
           else map_option (\<lambda>fb. (fb, min minx x, min miny y, max maxx x, max maxy y)) (put_at (y * stride c + x) (glyph_color c glyph row col) fb))"

definition dots :: "(nat \<times> nat) list" where
  "dots = concat (map (\<lambda>row. map (Pair row) [0..<8]) [0..<8])"

definition subdots :: "(nat \<times> nat \<times> nat \<times> nat) list" where
  "subdots = concat (map (\<lambda>(row, col). concat (map (\<lambda>sy. map (\<lambda>sx. (row, col, sy, sx)) [0..<SCALE]) [0..<SCALE])) dots)"

definition draw_char_at :: "'h host \<Rightarrow> nat \<Rightarrow> nat \<Rightarrow> nat \<Rightarrow> 'h scr \<Rightarrow> 'h scr option" where
  "draw_char_at H cp px py s =
     (case s of (c, g) \<Rightarrow>
        let glyph = glyph_for_char H cp in
        if \<not> g_inited g then Some (c, g)
        else if SCALE = 2 \<and> px + CHAR_W \<le> width c \<and> py + CHAR_H \<le> height c then
          do {
            fb \<leftarrow> each (draw_dot c glyph px py) dots (g_fb g);
            Some (mark_dirty_rect px py CHAR_W CHAR_H c, g\<lparr>g_fb := fb\<rparr>)
          }
        else
          do {
            (fb, minx, miny, maxx, maxy) \<leftarrow> each (draw_edge c glyph px py) subdots (g_fb g, px, py, px, py);
            Some (mark_dirty_rect minx miny (maxx - minx + 1) (maxy - miny + 1) c, g\<lparr>g_fb := fb\<rparr>)
          })"

text \<open>The cells of a line of the buffer, drawn in a row of the screen; spaces are not drawn.\<close>

definition draw_cells :: "'h host \<Rightarrow> nat \<Rightarrow> nat \<Rightarrow> 'h scr \<Rightarrow> 'h scr option" where
  "draw_cells H row idx s =
     each (\<lambda>col (c, g).
       if idx < length (lines c) \<and> col < length (lines c ! idx) then
         (let ch = lines c ! idx ! col in
          if ch = SPACE then Some (c, g)
          else draw_char_at H (unat ch) (BORDER_PADDING + col * (CHAR_W + LETTER_SPACING)) (BORDER_PADDING + row * (CHAR_H + LINE_SPACING)) (c, g))
       else None) [0..<cols (fst s)] s"

definition fill_screen :: "'h scr \<Rightarrow> 'h scr" where
  "fill_screen s =
     (case s of (c, g) \<Rightarrow>
        if g_inited g then (mark_dirty_rect 0 0 (width c) (height c) c, g\<lparr>g_fb := replicate (length (g_fb g)) (black c)\<rparr>) else (c, g))"

definition redraw_from_buffer :: "'h host \<Rightarrow> 'h scr \<Rightarrow> 'h scr option" where
  "redraw_from_buffer H s =
     do {
       let s = fill_screen s;
       start_line \<leftarrow> visible_start_line (fst s);
       let end_line = line_base (fst s) + line_count (fst s);
       s \<leftarrow> each (\<lambda>row s.
              if end_line \<le> start_line + row then Some s
              else do { idx \<leftarrow> line_index (start_line + row) (fst s); draw_cells H row idx s }) [0..<rows (fst s)] s;
       c \<leftarrow> update_cursor_xy (fst s);
       Some (c, snd s)
     }"

definition clear_row_area :: "nat \<Rightarrow> 'h scr \<Rightarrow> 'h scr option" where
  "clear_row_area row s =
     (case s of (c, g) \<Rightarrow>
        if \<not> g_inited g then Some (c, g)
        else
          (let y0 = BORDER_PADDING + row * (CHAR_H + LINE_SPACING); y1 = min (y0 + (CHAR_H + LINE_SPACING)) (height c)
           in do {
                g \<leftarrow> each (\<lambda>y g. fb_fill (y * stride c) (y * stride c + width c) (black c) g) [y0..<y1] g;
                if y1 < y0 then None else Some (mark_dirty_rect 0 y0 (width c) (y1 - y0) c, g)
              }))"

definition draw_line_row :: "'h host \<Rightarrow> nat \<Rightarrow> nat \<Rightarrow> 'h scr \<Rightarrow> 'h scr option" where
  "draw_line_row H row abs_line s =
     do {
       s \<leftarrow> clear_row_area row s;
       if line_base (fst s) + line_count (fst s) \<le> abs_line then Some s
       else do { idx \<leftarrow> line_index abs_line (fst s); draw_cells H row idx s }
     }"

text \<open>Moving all pixel rows by a number of pixel rows; the rest becomes black.\<close>

definition fb_scroll_up :: "nat \<Rightarrow> 'h scr \<Rightarrow> 'h scr option" where
  "fb_scroll_up px s =
     (case s of (c, g) \<Rightarrow>
        let total = height c * stride c; scroll = px * stride c
        in do {
             fb \<leftarrow> copy_within scroll total 0 (g_fb g);
             if total < scroll then None
             else do { g \<leftarrow> fb_fill (total - scroll) total (black c) (g\<lparr>g_fb := fb\<rparr>); Some (mark_dirty_rect 0 0 (width c) (height c) c, g) }
           })"

definition fb_scroll_down :: "nat \<Rightarrow> 'h scr \<Rightarrow> 'h scr option" where
  "fb_scroll_down px s =
     (case s of (c, g) \<Rightarrow>
        let total = height c * stride c; scroll = px * stride c
        in if total < scroll then None
           else do {
             fb \<leftarrow> copy_within 0 (total - scroll) scroll (g_fb g);
             g \<leftarrow> fb_fill 0 scroll (black c) (g\<lparr>g_fb := fb\<rparr>);
             Some (mark_dirty_rect 0 0 (width c) (height c) c, g)
           })"

definition scroll_view :: "'h host \<Rightarrow> int \<Rightarrow> 'h scr \<Rightarrow> 'h scr option" where
  "scroll_view H delta_lines s =
     (let n = nat \<bar>delta_lines\<bar>; shift_px = n * (CHAR_H + LINE_SPACING) in
      if height (fst s) \<le> shift_px then redraw_from_buffer H s
      else if \<not> g_inited (snd s) then Some s
      else
        do {
          s \<leftarrow> (if 0 < delta_lines then fb_scroll_up shift_px s else fb_scroll_down shift_px s);
          start_line \<leftarrow> visible_start_line (fst s);
          if 0 < delta_lines then
            (if n = 0 \<or> n \<le> rows (fst s) then each (\<lambda>i s. draw_line_row H (rows (fst s) - n + i) (start_line + (rows (fst s) - n + i)) s) [0..<n] s else None)
          else each (\<lambda>i s. draw_line_row H i (start_line + i) s) [0..<n] s
        })"

definition ensure_bottom :: "'h host \<Rightarrow> 'h scr \<Rightarrow> 'h scr option" where
  "ensure_bottom H s =
     (case s of (c, g) \<Rightarrow> if view_offset c \<noteq> 0 then redraw_from_buffer H (c\<lparr>view_offset := 0\<rparr>, g) else Some (c, g))"

definition adjust_scrollback :: "'h host \<Rightarrow> int \<Rightarrow> 'h scr \<Rightarrow> 'h scr option" where
  "adjust_scrollback H delta s =
     (case s of (c, g) \<Rightarrow>
        let max_offset = line_count c - rows c;
            nxt = nat (min (max (int (view_offset c) + delta) 0) (int max_offset))
        in if nxt = view_offset c then Some (c, g)
           else do {
             old_start \<leftarrow> visible_start_line c;
             let c = c\<lparr>view_offset := nxt\<rparr>;
             new_start \<leftarrow> visible_start_line c;
             let diff = int new_start - int old_start;
             if int (rows c) \<le> \<bar>diff\<bar> then redraw_from_buffer H (c, g)
             else if diff \<noteq> 0 then do { s \<leftarrow> scroll_view H diff (c, g); c \<leftarrow> update_cursor_xy (fst s); Some (c, snd s) }
             else do { c \<leftarrow> update_cursor_xy c; Some (c, g) }
           })"

section \<open>The cursor\<close>

definition reset_utf8_state :: "fbcon \<Rightarrow> fbcon" where
  "reset_utf8_state c = c\<lparr>utf8_codepoint := 0, utf8_needed := 0, utf8_min := 0\<rparr>"

definition reset_csi :: "fbcon \<Rightarrow> fbcon" where
  "reset_csi c = c\<lparr>csi := False, csi_num := 0, csi_have_num := False\<rparr>"

definition clear_locked :: "'h scr \<Rightarrow> 'h scr" where
  "clear_locked s =
     (case fill_screen s of (c, g) \<Rightarrow>
        (reset_utf8_state (c\<lparr>cx := BORDER_PADDING, cy := BORDER_PADDING, line_base := 0, line_count := 1, cursor_line := 0, cursor_col := 0,
           view_offset := 0, lines := map (\<lambda>l. replicate (length l) SPACE) (lines c), esc := False, csi := False, csi_num := 0, csi_have_num := False\<rparr>), g))"

definition scroll_locked :: "nat \<Rightarrow> 'h scr \<Rightarrow> 'h scr option" where
  "scroll_locked n s =
     (if \<not> g_inited (snd s) then Some s
      else if n = 0 \<or> height (fst s) \<le> n then Some (clear_locked s)
      else fb_scroll_up n s)"

definition newline :: "'h scr \<Rightarrow> 'h scr option" where
  "newline s =
     (case s of (c, g) \<Rightarrow>
        let line_px = CHAR_H + LINE_SPACING;
            c1 = c\<lparr>cursor_line := cursor_line c + 1, cursor_col := 0\<rparr>;
            c2 = (if line_base c1 + line_count c1 \<le> cursor_line c1 then
                    (if line_count c1 < max_lines c1 then c1\<lparr>line_count := line_count c1 + 1\<rparr> else c1\<lparr>line_base := line_base c1 + 1\<rparr>)
                  else c1)
        in do {
             c3 \<leftarrow> clear_line_buf (cursor_line c2) c2;
             let c4 = c3\<lparr>cy := cy c3 + line_px, cx := BORDER_PADDING\<rparr>;
             if height c4 \<le> cy c4 + CHAR_H + BORDER_PADDING then
               do { (c5, g) \<leftarrow> scroll_locked line_px (c4, g); Some (c5\<lparr>cy := cy c5 - line_px\<rparr>, g) }
             else Some (c4, g)
           })"

definition cursor_left :: "fbcon \<Rightarrow> fbcon" where
  "cursor_left c = (if cursor_col c = 0 then c else c\<lparr>cursor_col := cursor_col c - 1, cx := BORDER_PADDING + (cursor_col c - 1) * (CHAR_W + LETTER_SPACING)\<rparr>)"

definition cursor_left_n :: "nat \<Rightarrow> fbcon \<Rightarrow> fbcon" where
  "cursor_left_n n c = (if n = 0 then c else c\<lparr>cursor_col := cursor_col c - n, cx := BORDER_PADDING + (cursor_col c - n) * (CHAR_W + LETTER_SPACING)\<rparr>)"

definition cursor_right_n :: "nat \<Rightarrow> fbcon \<Rightarrow> fbcon" where
  "cursor_right_n n c =
     (if n = 0 then c
      else
        (let col = min (usat (cursor_col c + n)) (cols c - 1)
         in c\<lparr>cursor_col := col, cx := BORDER_PADDING + col * (CHAR_W + LETTER_SPACING)\<rparr>))"

definition erase_to_eol :: "'h scr \<Rightarrow> 'h scr option" where
  "erase_to_eol s =
     (case s of (c, g) \<Rightarrow>
        if \<not> g_inited g then Some (c, g)
        else
          (let x0 = min (cx c) (width c); x1 = min (width c - BORDER_PADDING) (width c);
               y0 = min (cy c) (height c); y1 = min (cy c + CHAR_H + LINE_SPACING) (height c)
           in if x1 \<le> x0 \<or> y1 \<le> y0 then Some (c, g)
              else do {
                g \<leftarrow> each (\<lambda>y g. fb_fill (y * stride c + x0) (y * stride c + x1) (black c) g) [y0..<y1] g;
                let c = mark_dirty_rect x0 y0 (x1 - x0) (y1 - y0) c;
                idx \<leftarrow> line_index (cursor_line c) c;
                let start = min (cursor_col c) (cols c);
                if idx < length (lines c) then
                  do { l \<leftarrow> fill_range start (length (lines c ! idx)) SPACE (lines c ! idx); Some (c\<lparr>lines := (lines c)[idx := l]\<rparr>, g) }
                else None
              }))"

section \<open>Characters\<close>

definition is_ascii_graphic :: "nat \<Rightarrow> bool" where
  "is_ascii_graphic cp \<longleftrightarrow> 33 \<le> cp \<and> cp \<le> 126"

definition REPLACEMENT :: nat where "REPLACEMENT = 0xFFFD"

definition render_char_locked :: "'h host \<Rightarrow> nat \<Rightarrow> 'h scr \<Rightarrow> 'h scr option" where
  "render_char_locked H ch s =
     do {
       s \<leftarrow> (if cols (fst s) \<le> cursor_col (fst s) then newline s else Some s);
       s \<leftarrow> (if width (fst s) \<le> cx (fst s) + CHAR_W + BORDER_PADDING then newline s else Some s);
       s \<leftarrow> (if height (fst s) \<le> cy (fst s) + CHAR_H + BORDER_PADDING then newline s else Some s);
       let c = fst s;
       let buf_ch = (if is_ascii_graphic ch \<or> ch = 32 then of_nat ch else 63);
       idx \<leftarrow> line_index (cursor_line c) c;
       let col = min (cursor_col c) (cols c - 1);
       l \<leftarrow> (if idx < length (lines c) then put_at col buf_ch (lines c ! idx) else None);
       (c, g) \<leftarrow> draw_char_at H ch (cx c) (cy c) (c\<lparr>lines := (lines c)[idx := l]\<rparr>, snd s);
       Some (c\<lparr>cursor_col := cursor_col c + 1, cx := BORDER_PADDING + (cursor_col c + 1) * (CHAR_W + LETTER_SPACING)\<rparr>, g)
     }"

text \<open>The parameter of an escape sequence, or its default.\<close>

definition csi_arg :: "nat \<Rightarrow> fbcon \<Rightarrow> nat" where
  "csi_arg dflt c = (if csi_have_num c then csi_num c else dflt)"

text \<open>The final byte of an escape sequence: C, D, K, J or another one, which is ignored.\<close>

definition csi_final :: "byte \<Rightarrow> 'h scr \<Rightarrow> 'h scr option" where
  "csi_final b s =
     (case s of (c, g) \<Rightarrow>
        if b = 67 then Some (cursor_right_n (csi_arg 1 c) c, g)
        else if b = 68 then Some (cursor_left_n (csi_arg 1 c) c, g)
        else if b = 75 then
          (if csi_arg 0 c = 0 then erase_to_eol (c, g)
           else if csi_arg 0 c = 2 then erase_to_eol (c\<lparr>cx := BORDER_PADDING, cursor_col := 0\<rparr>, g)
           else Some (c, g))
        else if b = 74 then Some (if csi_arg 0 c = 2 then clear_locked (c, g) else (c, g))
        else Some (c, g))"

definition handle_ansi_locked :: "byte \<Rightarrow> 'h scr \<Rightarrow> (bool \<times> 'h scr) option" where
  "handle_ansi_locked b s =
     (case s of (c, g) \<Rightarrow>
        if esc c then
          Some (True, if b = 91 then c\<lparr>esc := False, csi := True, csi_num := 0, csi_have_num := False\<rparr> else c\<lparr>esc := False\<rparr>, g)
        else if csi c then
          (if b = 63 \<or> b = 59 then Some (True, c, g)
           else if 48 \<le> b \<and> b \<le> 57 then
             Some (True, c\<lparr>csi_have_num := True, csi_num := usat (usat (csi_num c * 10) + unat (b - 48))\<rparr>, g)
           else do { (c, g) \<leftarrow> csi_final b (c, g); Some (True, reset_csi c, g) })
        else if b = 0x1b then Some (True, c\<lparr>esc := True\<rparr>, g)
        else Some (False, c, g))"

text \<open>A tab writes spaces through \<^verbatim>\<open>putc_locked\<close>, the first argument.\<close>

definition handle_ascii_byte_locked :: "(byte \<Rightarrow> 'h scr \<Rightarrow> 'h scr option) \<Rightarrow> 'h host \<Rightarrow> byte \<Rightarrow> 'h scr \<Rightarrow> 'h scr option" where
  "handle_ascii_byte_locked put H b s =
     do {
       (handled, c, g) \<leftarrow> handle_ansi_locked b s;
       if handled then Some (c, g)
       else if b = 10 then newline (c, g)
       else if b = 13 then Some (c\<lparr>cursor_col := 0, cx := BORDER_PADDING\<rparr>, g)
       else if b = 0x08 \<or> b = 0x7f then Some (cursor_left c, g)
       else if b = 9 then each (\<lambda>_. put SPACE) [0..<max ((cursor_col c div 4 + 1) * 4 - cursor_col c) 1] (c, g)
       else if is_ascii_graphic (unat b) \<or> b = SPACE then render_char_locked H (unat b) (c, g)
       else Some (c, g)
     }"

text \<open>The first byte of a character.\<close>

definition utf8_lead :: "'h host \<Rightarrow> byte \<Rightarrow> 'h scr \<Rightarrow> 'h scr option" where
  "utf8_lead H b s =
     (case s of (c, g) \<Rightarrow>
        if 0xC2 \<le> b \<and> b \<le> 0xDF then Some (c\<lparr>utf8_needed := 1, utf8_codepoint := unat b mod 32, utf8_min := 0x80\<rparr>, g)
        else if 0xE0 \<le> b \<and> b \<le> 0xEF then Some (c\<lparr>utf8_needed := 2, utf8_codepoint := unat b mod 16, utf8_min := 0x800\<rparr>, g)
        else if 0xF0 \<le> b \<and> b \<le> 0xF4 then Some (c\<lparr>utf8_needed := 3, utf8_codepoint := unat b mod 8, utf8_min := 0x10000\<rparr>, g)
        else render_char_locked H REPLACEMENT (c, g))"

text \<open>A byte that does not continue a character ends it and starts another one: the second round of the
  source's loop, in which no continuation byte is awaited.\<close>

definition handle_utf8_byte_locked :: "'h host \<Rightarrow> byte \<Rightarrow> 'h scr \<Rightarrow> 'h scr option" where
  "handle_utf8_byte_locked H b s =
     (case s of (c, g) \<Rightarrow>
        if utf8_needed c = 0 then utf8_lead H b (c, g)
        else if 0x80 \<le> b \<and> b \<le> 0xBF then
          (let cp = (utf8_codepoint c * 64) mod 2 ^ 32 + unat b mod 64; n = utf8_needed c - 1 in
           if n = 0 then
             render_char_locked H (if cp < utf8_min c \<or> 0x10FFFF < cp \<or> 0xD800 \<le> cp \<and> cp \<le> 0xDFFF then REPLACEMENT else cp) (reset_utf8_state c, g)
           else Some (c\<lparr>utf8_codepoint := cp, utf8_needed := n\<rparr>, g))
        else do { s \<leftarrow> render_char_locked H REPLACEMENT (reset_utf8_state c, g); utf8_lead H b s })"

definition putc_body :: "(byte \<Rightarrow> 'h scr \<Rightarrow> 'h scr option) \<Rightarrow> 'h host \<Rightarrow> byte \<Rightarrow> 'h scr \<Rightarrow> 'h scr option" where
  "putc_body put H b s =
     do {
       (c, g) \<leftarrow> ensure_bottom H s;
       if b < 0x80 then
         do {
           s \<leftarrow> (if utf8_needed c \<noteq> 0 then render_char_locked H REPLACEMENT (reset_utf8_state c, g) else Some (c, g));
           handle_ascii_byte_locked put H b s
         }
       else handle_utf8_byte_locked H b (if esc c \<or> csi c then reset_csi (c\<lparr>esc := False\<rparr>) else c, g)
     }"

text \<open>Only a tab calls \<^verbatim>\<open>putc_locked\<close> again, with a space: two levels are enough. More would be a panic.\<close>

definition putc_locked :: "'h host \<Rightarrow> byte \<Rightarrow> 'h scr \<Rightarrow> 'h scr option" where
  "putc_locked H = putc_body (putc_body (\<lambda>_ _. None) H) H"

section \<open>The console\<close>

text \<open>The console, the buffer for early output and the device.\<close>

type_synonym 'h con = "fbcon \<times> earlybuf \<times> 'h gpu"

definition fb_putc :: "'h host \<Rightarrow> byte \<Rightarrow> 'h con \<Rightarrow> 'h con option" where
  "fb_putc H b s =
     (case s of (c, e, g) \<Rightarrow>
        if \<not> inited c then map_option (\<lambda>e. (c, e, g)) (early_push b e)
        else if \<not> g_inited g then Some (c, e, g)
        else do { s \<leftarrow> putc_locked H b (c, g); (c, g) \<leftarrow> flush_dirty_locked H s; Some (c, e, g) })"

definition fb_write :: "'h host \<Rightarrow> byte list \<Rightarrow> 'h con \<Rightarrow> 'h con option" where
  "fb_write H bs s =
     (case s of (c, e, g) \<Rightarrow>
        if bs = [] then Some (c, e, g)
        else if \<not> inited c then map_option (\<lambda>e. (c, e, g)) (each early_push bs e)
        else if \<not> g_inited g then Some (c, e, g)
        else do { s \<leftarrow> each (putc_locked H) bs (c, g); (c, g) \<leftarrow> flush_dirty_locked H s; Some (c, e, g) })"

definition fb_scrollback :: "'h host \<Rightarrow> int \<Rightarrow> 'h con \<Rightarrow> 'h con option" where
  "fb_scrollback H delta s =
     (case s of (c, e, g) \<Rightarrow>
        if \<not> inited c \<or> \<not> g_inited g then Some (c, e, g)
        else do { s \<leftarrow> adjust_scrollback H delta (c, g); (c, g) \<leftarrow> flush_dirty_locked H s; Some (c, e, g) })"

text \<open>The bytes written before the device was there, at most as many as the buffer holds.\<close>

primrec replay :: "nat \<Rightarrow> 'h host \<Rightarrow> 'h con \<Rightarrow> 'h con option" where
  "replay 0 H s = None"
| "replay (Suc n) H s =
     (case s of (c, e, g) \<Rightarrow>
        do {
          (b, e) \<leftarrow> early_pop e;
          case b of None \<Rightarrow> Some (c, e, g) | Some b \<Rightarrow> do { s \<leftarrow> fb_putc H b (c, e, g); replay n H s }
        })"

text \<open>\<^verbatim>\<open>init\<close>; the argument \<open>up\<close> is the result of \<^verbatim>\<open>try_init\<close> of the device.\<close>

definition fb_init :: "'h host \<Rightarrow> bool \<Rightarrow> 'h con \<Rightarrow> 'h con option" where
  "fb_init H up s =
     (case s of (c, e, g) \<Rightarrow>
        if inited c then Some (c, e, g)
        else if \<not> up \<or> \<not> g_inited g then Some (c, e, g)
        else
          (let w = g_width g; h = g_height g;
               ncols = max ((w - 2 * BORDER_PADDING) div (CHAR_W + LETTER_SPACING)) 1;
               nrows = max ((h - 2 * BORDER_PADDING) div (CHAR_H + LINE_SPACING)) 1;
               nlines = max (nrows + SCROLLBACK_LINES) 1;
               c1 = c\<lparr>width := w, height := h, stride := g_stride g, fmt := g_fmt g, cx := BORDER_PADDING, cy := BORDER_PADDING, inited := True,
                 cols := ncols, rows := nrows, max_lines := nlines, lines := replicate nlines (replicate ncols SPACE),
                 line_base := 0, line_count := 1, cursor_line := 0, cursor_col := 0, view_offset := 0\<rparr>
           in do {
                (c2, g2) \<leftarrow> flush_dirty_locked H (clear_locked (c1, g));
                replay (EARLY_BUF_SIZE + 1) H (c2, e, g2)
              }))"

end
