(* ===== verification/Fb_Sync.thy ===== *)
theory Fb_Sync
  imports Framebuffer
begin

text \<open>
  The console never panics, and what the host shows is the frame buffer: every operation marks what it
  draws, so that outside the dirty rectangle the picture of the host and the frame buffer agree, and the
  flush at the end of each call transfers the rectangle.
\<close>

section \<open>Loops\<close>

lemma each_inv:
  assumes "\<And>x s. x \<in> set xs \<Longrightarrow> I s \<Longrightarrow> \<exists>s'. f x s = Some s' \<and> I s'" "I s"
  shows "\<exists>s'. each f xs s = Some s' \<and> I s'"
  using assms
proof (induction xs arbitrary: s)
  case (Cons x xs)
  obtain s1 where "f x s = Some s1" "I s1" using Cons.prems(1) [of x s] Cons.prems(2) by auto
  with Cons.IH [of s1] Cons.prems(1) show ?case by auto
qed simp

section \<open>Pixels\<close>

text \<open>The frame buffer is changed inside a region only.\<close>

definition only_in :: "nat \<Rightarrow> nat \<Rightarrow> (nat \<Rightarrow> nat \<Rightarrow> bool) \<Rightarrow> 'a list \<Rightarrow> 'a list \<Rightarrow> bool" where
  "only_in w h P fb fb' \<longleftrightarrow> length fb' = length fb \<and> (\<forall>x < w. \<forall>y < h. \<not> P x y \<longrightarrow> fb' ! (y * w + x) = fb ! (y * w + x))"

abbreviation box :: "nat \<Rightarrow> nat \<Rightarrow> nat \<Rightarrow> nat \<Rightarrow> nat \<Rightarrow> nat \<Rightarrow> bool" where
  "box x0 y0 x1 y1 x y \<equiv> x0 \<le> x \<and> x < x1 \<and> y0 \<le> y \<and> y < y1"

lemma only_in_refl [simp]: "only_in w h P fb fb"
  by (simp add: only_in_def)

lemma only_in_trans: "only_in w h P a b \<Longrightarrow> only_in w h P b c \<Longrightarrow> only_in w h P a c"
  by (simp add: only_in_def)

lemma only_in_mono: "only_in w h P a b \<Longrightarrow> (\<And>x y. P x y \<Longrightarrow> Q x y) \<Longrightarrow> only_in w h Q a b"
  by (auto simp: only_in_def)

lemma pixel_eq:
  assumes "x < w" "x' < w" "y * w + x = y' * w + (x' :: nat)"
  shows "y = y' \<and> x = x'"
proof -
  have "(y * w + x) div w = y" "(y' * w + x') div w = y'" "(y * w + x) mod w = x" "(y' * w + x') mod w = x'" using assms(1,2) by simp_all
  with assms(3) show ?thesis by metis
qed

lemma pixel_bound: "x < w \<Longrightarrow> y < h \<Longrightarrow> y * w + x < w * (h :: nat)"
proof -
  assume "x < w" "y < h"
  then have "y * w + x < Suc y * w" by simp
  also have "Suc y * w \<le> h * w" using \<open>y < h\<close> by (intro mult_le_mono1) simp
  finally show ?thesis by (simp add: mult.commute)
qed

lemma only_in_put:
  assumes "length fb = w * h" "x < w" "y < h" "P x y"
  shows "\<exists>fb'. put_at (y * w + x) v fb = Some fb' \<and> only_in w h P fb fb'"
proof -
  have "y' = y \<and> x' = x" if "x' < w" "y' * w + x' = y * w + x" for x' y' using pixel_eq [OF that(1) assms(2)] that(2) by blast
  then show ?thesis using assms pixel_bound [OF assms(2,3)]
    by (auto simp: put_at_def only_in_def nth_list_update)
qed

lemma nth_fill: "a \<le> b \<Longrightarrow> b \<le> length xs \<Longrightarrow> i < length xs \<Longrightarrow>
  (take a xs @ replicate (b - a) v @ drop b xs) ! i = (if a \<le> i \<and> i < b then v else xs ! i)"
  by (auto simp: nth_append min_def)

text \<open>Filling a piece of one pixel row.\<close>

lemma only_in_fill:
  assumes "length fb = w * h" "y < h" "x0 \<le> x1" "x1 \<le> w" "\<And>x. x0 \<le> x \<Longrightarrow> x < x1 \<Longrightarrow> P x y"
  shows "\<exists>fb'. fill_range (y * w + x0) (y * w + x1) v fb = Some fb' \<and> only_in w h P fb fb'"
proof -
  have "Suc y * w \<le> h * w" using assms(2) by (intro mult_le_mono1) simp
  then have le: "y * w + x1 \<le> length fb" using assms(1,4) by (simp add: mult.commute)
  have "\<not> (y * w + x0 \<le> y' * w + x' \<and> y' * w + x' < y * w + x1)" if "x' < w" "y' < h" "\<not> P x' y'" for x' y'
  proof
    assume a: "y * w + x0 \<le> y' * w + x' \<and> y' * w + x' < y * w + x1"
    define k where "k = y' * w + x' - y * w"
    have k: "y * w + k = y' * w + x'" "k < w" "x0 \<le> k" "k < x1" using a assms(4) by (simp_all add: k_def) linarith+
    then have "y = y'" "k = x'" using pixel_eq [of k w x' y y'] that(1) by simp_all
    with k assms(5) that(3) show False by simp
  qed
  moreover define fb' where "fb' = take (y * w + x0) fb @ replicate (y * w + x1 - (y * w + x0)) v @ drop (y * w + x1) fb"
  ultimately have "fb' ! (y' * w + x') = fb ! (y' * w + x')" if "x' < w" "y' < h" "\<not> P x' y'" for x' y'
    unfolding fb'_def using that le assms(1,3) pixel_bound [OF that(1,2)] by (subst nth_fill) auto
  moreover have "length fb' = length fb" unfolding fb'_def using le assms(3) by simp
  moreover have "fill_range (y * w + x0) (y * w + x1) v fb = Some fb'" unfolding fb'_def fill_range_def using le assms(3) by simp
  ultimately show ?thesis by (simp add: only_in_def)
qed

section \<open>The invariant\<close>

definition con_ok :: "'h scr \<Rightarrow> bool" where
  "con_ok s \<longleftrightarrow> (case s of (c, g) \<Rightarrow>
     inited c \<and> g_inited g \<and> width c = g_width g \<and> height c = g_height g \<and> stride c = width c \<and> g_stride g = width c \<and>
     length (g_fb g) = width c * height c \<and> 0 < width c \<and> width c < 2 ^ 64 \<and> 18 * rows c + 4 \<le> height c \<and> height c < 2 ^ 64 \<and>
     0 < rows c \<and> 0 < cols c \<and> 0 < max_lines c \<and> length (lines c) = max_lines c \<and> (\<forall>l \<in> set (lines c). length l = cols c) \<and>
     0 < line_count c \<and> (dirty c \<longrightarrow> dirty_minx c \<le> dirty_maxx c \<and> dirty_maxx c < width c \<and> dirty_miny c \<le> dirty_maxy c \<and> dirty_maxy c < height c))"

definition in_dirty :: "fbcon \<Rightarrow> nat \<Rightarrow> nat \<Rightarrow> bool" where
  "in_dirty c x y \<longleftrightarrow> dirty c \<and> dirty_minx c \<le> x \<and> x \<le> dirty_maxx c \<and> dirty_miny c \<le> y \<and> y \<le> dirty_maxy c"

text \<open>What an operation may do: draw inside the dirty rectangle it leaves, which contains the one it found.\<close>

definition grows :: "'h scr \<Rightarrow> 'h scr \<Rightarrow> bool" where
  "grows s t \<longleftrightarrow> con_ok t \<and> width (fst t) = width (fst s) \<and> height (fst t) = height (fst s) \<and> rows (fst t) = rows (fst s) \<and> cols (fst t) = cols (fst s) \<and> max_lines (fst t) = max_lines (fst s) \<and>
     g_shown (snd t) = g_shown (snd s) \<and> (\<forall>x y. in_dirty (fst s) x y \<longrightarrow> in_dirty (fst t) x y) \<and>
     only_in (width (fst s)) (height (fst s)) (in_dirty (fst t)) (g_fb (snd s)) (g_fb (snd t))"

text \<open>An operation that returns and does no more than that.\<close>

definition draws :: "'h scr \<Rightarrow> 'h scr option \<Rightarrow> bool" where
  "draws s r \<longleftrightarrow> (\<exists>t. r = Some t \<and> grows s t)"

lemma grows_refl: "con_ok s \<Longrightarrow> grows s s"
  by (simp add: grows_def)

lemma grows_trans: "grows s t \<Longrightarrow> grows t u \<Longrightarrow> grows s u"
proof -
  assume s: "grows s t" and t: "grows t u"
  have "only_in (width (fst s)) (height (fst s)) (in_dirty (fst u)) (g_fb (snd s)) (g_fb (snd t))"
    by (rule only_in_mono [where P = "in_dirty (fst t)"]) (use s t in \<open>simp_all add: grows_def\<close>)
  moreover have "only_in (width (fst s)) (height (fst s)) (in_dirty (fst u)) (g_fb (snd t)) (g_fb (snd u))"
    using s t by (simp add: grows_def)
  ultimately show ?thesis using s t only_in_trans unfolding grows_def by metis
qed

lemma draws_ret: "grows s t \<Longrightarrow> draws s (Some t)"
  by (simp add: draws_def)

lemma draws_bind: "draws s m \<Longrightarrow> (\<And>t. grows s t \<Longrightarrow> draws t (f t)) \<Longrightarrow> draws s (Option.bind m f)"
  unfolding draws_def by (metis Option.bind.bind_lunit grows_trans)

lemma draws_each:
  assumes "\<And>x t. x \<in> set xs \<Longrightarrow> grows s t \<Longrightarrow> draws t (f x t)" "con_ok s"
  shows "draws s (each f xs s)"
proof -
  have "\<exists>t. each f xs s = Some t \<and> grows s t"
  proof (rule each_inv)
    fix x t assume "x \<in> set xs" "grows s t"
    with assms(1) [OF this] show "\<exists>t'. f x t = Some t' \<and> grows s t'" unfolding draws_def by (metis grows_trans)
  qed (simp add: grows_refl assms(2))
  then show ?thesis by (simp add: draws_def)
qed

lemma con_okD [dest]: "grows s t \<Longrightarrow> con_ok t"
  by (simp add: grows_def)

text \<open>Marking a rectangle that is visible in part.\<close>

lemma usat_min: "w < 2 ^ 64 \<Longrightarrow> min (usat n - 1) (w - 1) = min (n - 1) (w - 1)"
  by (simp add: usat_def min_def) arith

lemma drawn:
  assumes "con_ok (c, g)" "only_in (width c) (height c) (box x y (x + w) (y + h)) (g_fb g) fb" "length fb = length (g_fb g)"
  shows "grows (c, g) (mark_dirty_rect x y w h c, g\<lparr>g_fb := fb\<rparr>)"
proof (cases "w = 0 \<or> h = 0")
  case True
  then have "only_in (width c) (height c) (in_dirty c) (g_fb g) fb" using assms(2) by (auto simp: only_in_def)
  moreover have "mark_dirty_rect x y w h c = c" using True by (auto simp: mark_dirty_rect_def)
  moreover have "con_ok (c, g\<lparr>g_fb := fb\<rparr>)" using assms(1,3) by (auto simp: con_ok_def)
  ultimately show ?thesis by (simp add: grows_def)
next
  case False
  define x0 y0 x1 y1 where "x0 = min x (width c - 1)" and "y0 = min y (height c - 1)"
    and "x1 = min (x + w - 1) (width c - 1)" and "y1 = min (y + h - 1) (height c - 1)"
  note defs = this
  define c' where "c' = (if dirty c then c\<lparr>dirty_minx := min (dirty_minx c) x0, dirty_miny := min (dirty_miny c) y0, dirty_maxx := max (dirty_maxx c) x1, dirty_maxy := max (dirty_maxy c) y1\<rparr>
    else c\<lparr>dirty := True, dirty_minx := x0, dirty_miny := y0, dirty_maxx := x1, dirty_maxy := y1\<rparr>)"
  have pos: "inited c" "0 < width c" "0 < height c" "width c < 2 ^ 64" "height c < 2 ^ 64" using assms(1) by (auto simp: con_ok_def)
  have le: "x0 \<le> x1" "y0 \<le> y1" "x1 < width c" "y1 < height c" using False pos by (auto simp: defs)
  then have m: "mark_dirty_rect x y w h c = c'"
    unfolding mark_dirty_rect_def Let_def usat_min [OF pos(4)] usat_min [OF pos(5)] defs [symmetric] c'_def using False pos by simp
  have r: "in_dirty c' i j" if "x0 \<le> i" "i \<le> x1" "y0 \<le> j" "j \<le> y1" for i j using that by (simp add: in_dirty_def c'_def le_max_iff_disj min_le_iff_disj)
  have "in_dirty c' i j" if "box x y (x + w) (y + h) i j" "i < width c" "j < height c" for i j
    by (rule r) (use that in \<open>auto simp: defs min_le_iff_disj\<close>)
  then have "only_in (width c) (height c) (in_dirty c') (g_fb g) fb" using assms(2) unfolding only_in_def by blast
  moreover have "in_dirty c' i j" if "in_dirty c i j" for i j using that by (simp add: in_dirty_def c'_def le_max_iff_disj min_le_iff_disj)
  moreover have "con_ok (c', g\<lparr>g_fb := fb\<rparr>)" using assms(1,3) le unfolding con_ok_def c'_def by (cases "dirty c") (simp_all add: le_max_iff_disj min_le_iff_disj)
  moreover have "width c' = width c" "height c' = height c" "rows c' = rows c" "cols c' = cols c" "max_lines c' = max_lines c" by (simp_all add: c'_def)
  ultimately show ?thesis unfolding m by (simp add: grows_def)
qed

text \<open>Updates of the console that keep its geometry and the rectangle.\<close>

definition same_frame :: "fbcon \<Rightarrow> fbcon \<Rightarrow> bool" where
  "same_frame c d \<longleftrightarrow> inited d = inited c \<and> width d = width c \<and> height d = height c \<and> stride d = stride c \<and> rows d = rows c \<and> cols d = cols c \<and>
     max_lines d = max_lines c \<and> dirty d = dirty c \<and> dirty_minx d = dirty_minx c \<and> dirty_miny d = dirty_miny c \<and> dirty_maxx d = dirty_maxx c \<and>
     dirty_maxy d = dirty_maxy c \<and> map length (lines d) = map length (lines c) \<and> (0 < line_count c \<longrightarrow> 0 < line_count d)"

lemma map_length_all: "map length xs = map length ys \<Longrightarrow> (\<forall>l \<in> set xs. P (length l)) = (\<forall>l \<in> set ys. P (length l))"
proof -
  assume a: "map length xs = map length ys"
  have "(\<forall>l \<in> set xs. P (length l)) = list_all P (map length xs)" "(\<forall>l \<in> set ys. P (length l)) = list_all P (map length ys)"
    by (simp_all add: list_all_iff)
  then show ?thesis unfolding a by simp
qed

lemma kept:
  assumes "con_ok (c, g)" "same_frame c d"
  shows "grows (c, g) (d, g)"
proof -
  have "length (lines d) = length (lines c)" using assms(2) unfolding same_frame_def by (metis length_map)
  moreover have "(\<forall>l \<in> set (lines d). length l = cols c) = (\<forall>l \<in> set (lines c). length l = cols c)"
    using assms(2) unfolding same_frame_def by (intro map_length_all) simp
  ultimately have "con_ok (d, g)" using assms unfolding con_ok_def same_frame_def by auto
  with assms(2) show ?thesis by (simp add: grows_def same_frame_def in_dirty_def)
qed

lemma draws_kept: "con_ok (c, g) \<Longrightarrow> same_frame c d \<Longrightarrow> draws (c, g) (Some (d, g))"
  by (intro draws_ret kept)

section \<open>Drawing\<close>

lemma dots_bounds: "(row, col) \<in> set dots \<Longrightarrow> row < 8 \<and> col < 8"
  by (auto simp: dots_def)

lemma subdots_bounds: "(row, col, sy, sx) \<in> set subdots \<Longrightarrow> row < 8 \<and> col < 8 \<and> sy < 2 \<and> sx < 2"
  by (auto simp: subdots_def SCALE_def dest: dots_bounds)

lemma draw_dot_inside:
  assumes "length fb = width c * height c" "stride c = width c" "px + 16 \<le> width c" "py + 16 \<le> height c" "row < 8" "col < 8"
  shows "\<exists>fb'. draw_dot c glyph px py (row, col) fb = Some fb' \<and> only_in (width c) (height c) (box px py (px + 16) (py + 16)) fb fb'"
proof -
  let ?w = "width c" and ?h = "height c" and ?P = "box px py (px + 16) (py + 16)"
  let ?x = "px + col * 2" and ?y = "py + row * 2" and ?v = "glyph_color c glyph row col"
  have b: "?x + 1 < px + 16" "?y + 1 < py + 16" using assms(5,6) by simp_all
  have put: "\<exists>f'. put_at (y * ?w + x) ?v f = Some f' \<and> only_in ?w ?h ?P f f'" if "length f = ?w * ?h" "?P x y" for f x y
    using that assms(3,4) by (intro only_in_put) simp_all
  obtain f1 where f1: "put_at (?y * ?w + ?x) ?v fb = Some f1" "only_in ?w ?h ?P fb f1" using put [OF assms(1), of ?x ?y] b by auto
  then have l1: "length f1 = ?w * ?h" using assms(1) by (simp add: only_in_def)
  obtain f2 where f2: "put_at (?y * ?w + (?x + 1)) ?v f1 = Some f2" "only_in ?w ?h ?P f1 f2" using put [OF l1, of "?x + 1" ?y] b by auto
  then have l2: "length f2 = ?w * ?h" using l1 by (simp add: only_in_def)
  obtain f3 where f3: "put_at ((?y + 1) * ?w + ?x) ?v f2 = Some f3" "only_in ?w ?h ?P f2 f3" using put [OF l2, of ?x "?y + 1"] b by auto
  then have l3: "length f3 = ?w * ?h" using l2 by (simp add: only_in_def)
  obtain f4 where f4: "put_at ((?y + 1) * ?w + (?x + 1)) ?v f3 = Some f4" "only_in ?w ?h ?P f3 f4" using put [OF l3, of "?x + 1" "?y + 1"] b by auto
  have "only_in ?w ?h ?P fb f4" using f1(2) f2(2) f3(2) f4(2) by (meson only_in_trans)
  moreover have "draw_dot c glyph px py (row, col) fb = Some f4"
    using f1(1) f2(1) f3(1) f4(1) by (simp add: draw_dot_def SCALE_def assms(2) Let_def add.assoc)
  ultimately show ?thesis by blast
qed

lemma draw_edge_inside:
  assumes "length fb = width c * height c" "stride c = width c" "minx \<le> maxx" "miny \<le> maxy"
  shows "\<exists>fb' a b m n. draw_edge c glyph px py d (fb, minx, miny, maxx, maxy) = Some (fb', a, b, m, n) \<and>
    a \<le> minx \<and> b \<le> miny \<and> maxx \<le> m \<and> maxy \<le> n \<and> only_in (width c) (height c) (box a b (m + 1) (n + 1)) fb fb'"
proof -
  obtain row col sy sx where d: "d = (row, col, sy, sx)" by (cases d) auto
  let ?x = "px + col * SCALE + sx" and ?y = "py + row * SCALE + sy"
  show ?thesis
  proof (cases "width c \<le> ?x \<or> height c \<le> ?y")
    case True
    then show ?thesis by (auto simp: draw_edge_def d)
  next
    case False
    have "\<exists>fb'. put_at (?y * width c + ?x) (glyph_color c glyph row col) fb = Some fb' \<and>
        only_in (width c) (height c) (box (min minx ?x) (min miny ?y) (max maxx ?x + 1) (max maxy ?y + 1)) fb fb'"
      using False by (intro only_in_put assms(1)) (auto simp: less_Suc_eq_le)
    with False show ?thesis by (auto simp: draw_edge_def d assms(2) Let_def)
  qed
qed

lemma draws_char:
  assumes "con_ok (c, g)"
  shows "draws (c, g) (draw_char_at H cp px py (c, g))"
proof -
  let ?w = "width c" and ?h = "height c"
  have ok: "g_inited g" "length (g_fb g) = ?w * ?h" "stride c = ?w" using assms by (auto simp: con_ok_def)
  show ?thesis
  proof (cases "px + 16 \<le> ?w \<and> py + 16 \<le> ?h")
    case True
    have "\<exists>fb. each (draw_dot c (glyph_for_char H cp) px py) dots (g_fb g) = Some fb \<and> only_in ?w ?h (box px py (px + 16) (py + 16)) (g_fb g) fb"
    proof (rule each_inv)
      fix d fb assume d: "d \<in> set dots" "only_in ?w ?h (box px py (px + 16) (py + 16)) (g_fb g) fb"
      then have "length fb = ?w * ?h" using ok(2) by (simp add: only_in_def)
      then obtain fb' where "draw_dot c (glyph_for_char H cp) px py d fb = Some fb'" "only_in ?w ?h (box px py (px + 16) (py + 16)) fb fb'"
        using draw_dot_inside [of fb c px py "fst d" "snd d"] ok(3) True d(1) dots_bounds [of "fst d" "snd d"] by auto
      with d(2) show "\<exists>fb'. draw_dot c (glyph_for_char H cp) px py d fb = Some fb' \<and> only_in ?w ?h (box px py (px + 16) (py + 16)) (g_fb g) fb'"
        by (blast intro: only_in_trans)
    qed simp
    then obtain fb where fb: "each (draw_dot c (glyph_for_char H cp) px py) dots (g_fb g) = Some fb" "only_in ?w ?h (box px py (px + 16) (py + 16)) (g_fb g) fb" by blast
    have "grows (c, g) (mark_dirty_rect px py 16 16 c, g\<lparr>g_fb := fb\<rparr>)" using assms fb(2) by (intro drawn) (simp_all add: only_in_def)
    then show ?thesis using True ok(1) fb(1) by (simp add: draws_def draw_char_at_def CHAR_W_def CHAR_H_def SCALE_def)
  next
    case False
    let ?I = "\<lambda>(fb, a, b, m, n). a \<le> px \<and> b \<le> py \<and> px \<le> m \<and> py \<le> n \<and> only_in ?w ?h (box a b (m + 1) (n + 1)) (g_fb g) fb"
    have "\<exists>s. each (draw_edge c (glyph_for_char H cp) px py) subdots (g_fb g, px, py, px, py) = Some s \<and> ?I s"
    proof (rule each_inv)
      fix d s assume "?I s"
      then obtain fb a b m n where s: "s = (fb, a, b, m, n)" "a \<le> px" "b \<le> py" "px \<le> m" "py \<le> n" "only_in ?w ?h (box a b (m + 1) (n + 1)) (g_fb g) fb"
        by (cases s) auto
      then have "length fb = ?w * ?h" "a \<le> m" "b \<le> n" using ok(2) by (simp_all add: only_in_def)
      from draw_edge_inside [OF this(1) ok(3) this(2,3)]
      obtain fb' a' b' m' n' where d: "draw_edge c (glyph_for_char H cp) px py d (fb, a, b, m, n) = Some (fb', a', b', m', n')"
        "a' \<le> a" "b' \<le> b" "m \<le> m'" "n \<le> n'" "only_in ?w ?h (box a' b' (m' + 1) (n' + 1)) fb fb'" by blast
      have "only_in ?w ?h (box a' b' (m' + 1) (n' + 1)) (g_fb g) fb" using s(6) by (rule only_in_mono) (use d in auto)
      then have "only_in ?w ?h (box a' b' (m' + 1) (n' + 1)) (g_fb g) fb'" using d(6) by (rule only_in_trans)
      with d s show "\<exists>t. draw_edge c (glyph_for_char H cp) px py d s = Some t \<and> ?I t" by auto
    qed simp
    then obtain fb a b m n where fb: "each (draw_edge c (glyph_for_char H cp) px py) subdots (g_fb g, px, py, px, py) = Some (fb, a, b, m, n)"
      "a \<le> m" "b \<le> n" "only_in ?w ?h (box a b (m + 1) (n + 1)) (g_fb g) fb" by auto
    then have "grows (c, g) (mark_dirty_rect a b (m - a + 1) (n - b + 1) c, g\<lparr>g_fb := fb\<rparr>)"
      using assms by (intro drawn) (simp_all add: only_in_def)
    then show ?thesis using False ok(1) fb(1) by (auto simp: draws_def draw_char_at_def CHAR_W_def CHAR_H_def SCALE_def Let_def)
  qed
qed

lemma draws_cells:
  assumes "con_ok s" "idx < max_lines (fst s)"
  shows "draws s (draw_cells H row idx s)"
  unfolding draw_cells_def
proof (rule draws_each [OF _ assms(1)])
  fix col t assume t: "col \<in> set [0..<cols (fst s)]" "grows s t"
  obtain c g where cg: "t = (c, g)" by (rule prod.exhaust)
  then have ok: "con_ok (c, g)" using t(2) by auto
  have "idx < length (lines c)" using ok assms(2) t(2) by (simp add: con_ok_def grows_def cg)
  moreover from this have "length (lines c ! idx) = cols c" using ok by (simp add: con_ok_def)
  moreover have "col < cols c" using t by (simp add: grows_def cg)
  ultimately show "draws t ((\<lambda>(c, g). if idx < length (lines c) \<and> col < length (lines c ! idx) then let ch = lines c ! idx ! col in
      if ch = SPACE then Some (c, g) else draw_char_at H (unat ch) (BORDER_PADDING + col * (CHAR_W + LETTER_SPACING)) (BORDER_PADDING + row * (CHAR_H + LINE_SPACING)) (c, g) else None) t)"
    using ok draws_char [OF ok] by (simp add: cg draws_ret grows_refl Let_def)
qed

lemma grows_fill: "con_ok s \<Longrightarrow> grows s (fill_screen s)"
proof -
  assume a: "con_ok s"
  obtain c g where s: "s = (c, g)" by (rule prod.exhaust)
  have "grows (c, g) (mark_dirty_rect 0 0 (width c) (height c) c, g\<lparr>g_fb := replicate (length (g_fb g)) (black c)\<rparr>)"
    by (rule drawn) (use a s in \<open>auto simp: only_in_def\<close>)
  with a show ?thesis by (simp add: s fill_screen_def con_ok_def)
qed

lemma visible_some: "con_ok s \<Longrightarrow> \<exists>n. visible_start_line (fst s) = Some n"
  by (cases s) (simp add: con_ok_def visible_start_line_def)

lemma index_some: "con_ok s \<Longrightarrow> \<exists>i < max_lines (fst s). line_index n (fst s) = Some i"
  by (cases s) (simp add: con_ok_def line_index_def)

lemma draws_cursor: "con_ok s \<Longrightarrow> draws s (Option.bind (update_cursor_xy (fst s)) (\<lambda>c. Some (c, snd s)))"
proof -
  assume a: "con_ok s"
  obtain c g where s: "s = (c, g)" by (rule prod.exhaust)
  obtain n where "visible_start_line c = Some n" using visible_some [OF a] s by auto
  with a show ?thesis by (simp add: s update_cursor_xy_def) (rule draws_kept, simp_all add: same_frame_def)
qed

lemma draws_redraw:
  assumes "con_ok s"
  shows "draws s (redraw_from_buffer H s)"
proof -
  have f: "grows s (fill_screen s)" using assms by (rule grows_fill)
  obtain n where n: "visible_start_line (fst (fill_screen s)) = Some n" using visible_some f by blast
  have "draws (fill_screen s) (each (\<lambda>row t. if e \<le> n + row then Some t
      else do { idx \<leftarrow> line_index (n + row) (fst t); draw_cells H row idx t }) xs (fill_screen s))" for e xs
  proof (rule draws_each)
    fix row t assume "grows (fill_screen s) t"
    then have "con_ok t" by auto
    then show "draws t (if e \<le> n + row then Some t else do { idx \<leftarrow> line_index (n + row) (fst t); draw_cells H row idx t })"
      using index_some [of t "n + row"] draws_cells [of t] by (auto simp: draws_ret grows_refl)
  qed (use f in auto)
  then have "draws (fill_screen s) (Option.bind (each (\<lambda>row t. if e \<le> n + row then Some t
      else do { idx \<leftarrow> line_index (n + row) (fst t); draw_cells H row idx t }) xs (fill_screen s)) (\<lambda>t. do { c \<leftarrow> update_cursor_xy (fst t); Some (c, snd t) }))" for e xs
    by (rule draws_bind) (use draws_cursor in auto)
  then show ?thesis using f n unfolding redraw_from_buffer_def draws_def by (simp add: Let_def) (meson grows_trans)
qed

lemma draws_clear_row:
  assumes "con_ok s" "row < rows (fst s)"
  shows "draws s (clear_row_area row s)"
proof -
  obtain c g where s: "s = (c, g)" by (rule prod.exhaust)
  let ?w = "width c" and ?h = "height c" and ?y0 = "2 + row * 18" and ?y1 = "min (2 + row * 18 + 18) (height c)"
  have ok: "g_inited g" "length (g_fb g) = ?w * ?h" "stride c = ?w" "18 * rows c + 4 \<le> ?h" using assms by (auto simp: con_ok_def s)
  have le: "?y0 \<le> ?y1" using ok(4) assms(2) by (simp add: s)
  let ?I = "\<lambda>g'. \<exists>fb. g' = g\<lparr>g_fb := fb\<rparr> \<and> only_in ?w ?h (box 0 ?y0 ?w ?y1) (g_fb g) fb"
  have "\<exists>g'. each (\<lambda>y g. fb_fill (y * stride c) (y * stride c + ?w) (black c) g) [?y0..<?y1] g = Some g' \<and> ?I g'"
  proof (rule each_inv)
    fix y g' assume y: "y \<in> set [?y0..<?y1]" "?I g'"
    then obtain fb where fb: "g' = g\<lparr>g_fb := fb\<rparr>" "only_in ?w ?h (box 0 ?y0 ?w ?y1) (g_fb g) fb" by blast
    then have "length fb = ?w * ?h" using ok(2) by (simp add: only_in_def)
    then obtain fb' where "fill_range (y * ?w + 0) (y * ?w + ?w) (black c) fb = Some fb'" "only_in ?w ?h (box 0 ?y0 ?w ?y1) fb fb'"
      using only_in_fill [of fb ?w ?h y 0 ?w "box 0 ?y0 ?w ?y1" "black c"] y(1) by auto
    with fb show "\<exists>t. fb_fill (y * stride c) (y * stride c + ?w) (black c) g' = Some t \<and> ?I t"
      by (auto simp: fb_fill_def ok(3) intro: only_in_trans)
  qed (rule exI [of _ "g_fb g"], simp)
  then obtain fb where fb: "each (\<lambda>y g. fb_fill (y * stride c) (y * stride c + ?w) (black c) g) [?y0..<?y1] g = Some (g\<lparr>g_fb := fb\<rparr>)"
    "only_in ?w ?h (box 0 ?y0 ?w ?y1) (g_fb g) fb" by blast
  have "grows (c, g) (mark_dirty_rect 0 ?y0 ?w (?y1 - ?y0) c, g\<lparr>g_fb := fb\<rparr>)"
  proof (rule drawn)
    show "only_in ?w ?h (box 0 ?y0 (0 + ?w) (?y0 + (?y1 - ?y0))) (g_fb g) fb" unfolding le_add_diff_inverse [OF le] add_0 by (rule fb(2))
    then show "length fb = length (g_fb g)" by (simp add: only_in_def)
  qed (use assms s in simp)
  then show ?thesis using fb(1) le ok(1)
    by (simp add: s draws_def clear_row_area_def BORDER_PADDING_def CHAR_H_def SCALE_def LINE_SPACING_def Let_def)
qed

lemma draws_line_row:
  assumes "con_ok s" "row < rows (fst s)"
  shows "draws s (draw_line_row H row abs_line s)"
  unfolding draw_line_row_def
proof (rule draws_bind [OF draws_clear_row [OF assms]])
  fix t assume "grows s t"
  then have ok: "con_ok t" by auto
  show "draws t (if line_base (fst t) + line_count (fst t) \<le> abs_line then Some t else do { idx \<leftarrow> line_index abs_line (fst t); draw_cells H row idx t })"
    using index_some [OF ok, of abs_line] draws_cells [OF ok] by (auto simp: draws_ret grows_refl ok)
qed

lemma copy_within_length: "copy_within a b d xs = Some ys \<Longrightarrow> length ys = length xs"
  by (auto simp: copy_within_def split: if_splits)

lemma whole_screen: "con_ok (c, g) \<Longrightarrow> length fb = length (g_fb g) \<Longrightarrow> grows (c, g) (mark_dirty_rect 0 0 (width c) (height c) c, g\<lparr>g_fb := fb\<rparr>)"
  by (rule drawn) (auto simp: only_in_def)

lemma draws_scroll_fb:
  assumes "con_ok s" "px \<le> height (fst s)"
  shows "draws s (fb_scroll_up px s)" "draws s (fb_scroll_down px s)"
proof -
  obtain c g where s: "s = (c, g)" by (rule prod.exhaust)
  have ok: "length (g_fb g) = height c * width c" "stride c = width c" using assms by (auto simp: con_ok_def s)
  have le: "px * width c \<le> height c * width c" using assms(2) by (simp add: s)
  have g: "grows (c, g) (mark_dirty_rect 0 0 (width c) (height c) c, g\<lparr>g_fb := fb\<rparr>)" if "length fb = length (g_fb g)" for fb
    using whole_screen assms(1) that by (simp add: s)
  obtain fb where fb: "copy_within (px * width c) (height c * width c) 0 (g_fb g) = Some fb" using ok le by (simp add: copy_within_def)
  note l = copy_within_length [OF this]
  show "draws s (fb_scroll_up px s)"
    using le fb l ok g by (simp add: s fb_scroll_up_def fb_fill_def fill_range_def draws_def Let_def) (use assms(2) s in auto)
  obtain fb where fb: "copy_within 0 (height c * width c - px * width c) (px * width c) (g_fb g) = Some fb" using ok le by (simp add: copy_within_def)
  note l = copy_within_length [OF this]
  show "draws s (fb_scroll_down px s)"
    using le fb l ok g by (simp add: s fb_scroll_down_def fb_fill_def fill_range_def draws_def Let_def) (use assms(2) s in auto)
qed

lemma draws_scroll_view:
  assumes "con_ok s" "nat \<bar>d\<bar> < rows (fst s)"
  shows "draws s (scroll_view H d s)"
proof -
  let ?n = "nat \<bar>d\<bar>"
  have "g_inited (snd s)" using assms(1) by (cases s) (simp add: con_ok_def)
  moreover have "18 * rows (fst s) + 4 \<le> height (fst s)" using assms(1) by (cases s) (simp add: con_ok_def)
  ultimately have px: "?n * (CHAR_H + LINE_SPACING) < height (fst s)" using assms(2) by (simp add: CHAR_H_def SCALE_def LINE_SPACING_def)
  have rows: "draws t (each (\<lambda>i s. draw_line_row H (f i s) (g i s) s) [0..<?n] t)" if "grows s t" "\<And>i u. i < ?n \<Longrightarrow> grows t u \<Longrightarrow> f i u < rows (fst s)" for t f g
    using that by (intro draws_each draws_line_row) (auto simp: grows_def)
  show ?thesis
  proof (cases "0 < d")
    case True
    have "draws s (do { t \<leftarrow> fb_scroll_up (?n * (CHAR_H + LINE_SPACING)) s; start_line \<leftarrow> visible_start_line (fst t);
      if ?n = 0 \<or> ?n \<le> rows (fst t) then each (\<lambda>i s. draw_line_row H (rows (fst s) - ?n + i) (start_line + (rows (fst s) - ?n + i)) s) [0..<?n] t else None })"
    proof (rule draws_bind [OF draws_scroll_fb(1)])
      fix t assume t: "grows s t"
      then obtain m where m: "visible_start_line (fst t) = Some m" using visible_some by blast
      have "rows (fst t) = rows (fst s)" using t by (simp add: grows_def)
      moreover have "draws t (each (\<lambda>i s. draw_line_row H (rows (fst s) - ?n + i) (m + (rows (fst s) - ?n + i)) s) [0..<?n] t)"
        by (rule rows [OF t]) (use assms(2) t in \<open>auto simp: grows_def\<close>)
      ultimately show "draws t (do { start_line \<leftarrow> visible_start_line (fst t);
          if ?n = 0 \<or> ?n \<le> rows (fst t) then each (\<lambda>i s. draw_line_row H (rows (fst s) - ?n + i) (start_line + (rows (fst s) - ?n + i)) s) [0..<?n] t else None })"
        using m assms(2) by simp
    qed (use assms px in auto)
    then show ?thesis using True px \<open>g_inited (snd s)\<close> by (simp add: scroll_view_def Let_def cong: if_cong)
  next
    case False
    have "draws s (do { t \<leftarrow> fb_scroll_down (?n * (CHAR_H + LINE_SPACING)) s; start_line \<leftarrow> visible_start_line (fst t);
      each (\<lambda>i s. draw_line_row H i (start_line + i) s) [0..<?n] t })"
    proof (rule draws_bind [OF draws_scroll_fb(2)])
      fix t assume t: "grows s t"
      then obtain m where m: "visible_start_line (fst t) = Some m" using visible_some by blast
      have "draws t (each (\<lambda>i s. draw_line_row H i (m + i) s) [0..<?n] t)" by (rule rows [OF t]) (use assms(2) in auto)
      with m show "draws t (do { start_line \<leftarrow> visible_start_line (fst t); each (\<lambda>i s. draw_line_row H i (start_line + i) s) [0..<?n] t })" by simp
    qed (use assms px in auto)
    then show ?thesis using False px \<open>g_inited (snd s)\<close> by (simp add: scroll_view_def Let_def)
  qed
qed

lemma draws_bottom: "con_ok s \<Longrightarrow> draws s (ensure_bottom H s)"
proof -
  assume a: "con_ok s"
  obtain c g where s: "s = (c, g)" by (rule prod.exhaust)
  have k: "grows (c, g) (c\<lparr>view_offset := 0\<rparr>, g)" by (rule kept) (use a s in \<open>simp_all add: same_frame_def\<close>)
  then have "draws (c\<lparr>view_offset := 0\<rparr>, g) (redraw_from_buffer H (c\<lparr>view_offset := 0\<rparr>, g))" by (intro draws_redraw) auto
  with k a show ?thesis unfolding s ensure_bottom_def draws_def by (auto simp: grows_refl intro: grows_trans)
qed

lemma draws_via: "grows s t \<Longrightarrow> draws t r \<Longrightarrow> draws s r"
  unfolding draws_def using grows_trans by blast

lemma draws_scrollback:
  assumes "con_ok s"
  shows "draws s (adjust_scrollback H delta s)"
proof -
  obtain c g where s: "s = (c, g)" by (rule prod.exhaust)
  let ?n = "nat (min (max (int (view_offset c) + delta) 0) (int (line_count c - rows c)))"
  let ?c = "c\<lparr>view_offset := ?n\<rparr>"
  have k: "grows (c, g) (?c, g)" by (rule kept) (use assms s in \<open>simp_all add: same_frame_def\<close>)
  then have ok: "con_ok (?c, g)" by auto
  obtain old new where v: "visible_start_line c = Some old" "visible_start_line ?c = Some new"
    using visible_some [OF assms] visible_some [OF ok] s by auto
  let ?d = "int new - int old"
  have "draws (?c, g) (redraw_from_buffer H (?c, g))" using ok by (rule draws_redraw)
  moreover have "draws (?c, g) (do { t \<leftarrow> scroll_view H ?d (?c, g); c \<leftarrow> update_cursor_xy (fst t); Some (c, snd t) })" if "\<bar>?d\<bar> < int (rows c)"
    by (rule draws_bind [OF draws_scroll_view [OF ok]]) (use that draws_cursor in auto)
  moreover have "draws (?c, g) (do { c \<leftarrow> update_cursor_xy ?c; Some (c, g) })" using draws_cursor [OF ok] by simp
  ultimately have "draws (?c, g) (if int (rows c) \<le> \<bar>?d\<bar> then redraw_from_buffer H (?c, g)
      else if ?d \<noteq> 0 then do { s \<leftarrow> scroll_view H ?d (?c, g); c \<leftarrow> update_cursor_xy (fst s); Some (c, snd s) }
      else do { c \<leftarrow> update_cursor_xy ?c; Some (c, g) })" by simp
  note r = draws_via [OF k this]
  show ?thesis
  proof (cases "?n = view_offset c")
    case True
    then show ?thesis using assms by (simp add: s adjust_scrollback_def Let_def draws_ret grows_refl)
  next
    case False
    then have "adjust_scrollback H delta s = (if int (rows c) \<le> \<bar>?d\<bar> then redraw_from_buffer H (?c, g)
      else if ?d \<noteq> 0 then do { s \<leftarrow> scroll_view H ?d (?c, g); c \<leftarrow> update_cursor_xy (fst s); Some (c, snd s) }
      else do { c \<leftarrow> update_cursor_xy ?c; Some (c, g) })"
      unfolding s adjust_scrollback_def Let_def using v by simp
    with r show ?thesis by (simp only: s)
  qed
qed

section \<open>The cursor\<close>

lemma grows_clear: "con_ok s \<Longrightarrow> grows s (clear_locked s)"
proof -
  assume a: "con_ok s"
  obtain c g where f: "fill_screen s = (c, g)" by (rule prod.exhaust)
  with grows_fill [OF a] have g: "grows s (c, g)" by simp
  have "grows (c, g) (clear_locked s)" unfolding clear_locked_def f prod.case
    by (rule kept) (use g in \<open>auto simp: same_frame_def reset_utf8_state_def comp_def\<close>)
  with g show ?thesis by (rule grows_trans)
qed

lemma draws_scroll_locked: "con_ok s \<Longrightarrow> draws s (scroll_locked n s)"
  using draws_scroll_fb [of s n] grows_clear [of s] by (simp add: scroll_locked_def draws_ret grows_refl)

lemma same_frame_refl [simp]: "same_frame c c"
  by (simp add: same_frame_def)

lemma map_length_update: "i < length ls \<Longrightarrow> length l = length (ls ! i) \<Longrightarrow> map length (ls[i := l]) = map length ls"
  by (metis list_update_id map_update nth_map)

lemma draws_newline:
  assumes "con_ok s"
  shows "draws s (newline s)"
proof -
  obtain c g where s: "s = (c, g)" by (rule prod.exhaust)
  define c1 where "c1 = c\<lparr>cursor_line := cursor_line c + 1, cursor_col := 0\<rparr>"
  define c2 where "c2 = (if line_base c1 + line_count c1 \<le> cursor_line c1 then
      (if line_count c1 < max_lines c1 then c1\<lparr>line_count := line_count c1 + 1\<rparr> else c1\<lparr>line_base := line_base c1 + 1\<rparr>) else c1)"
  have k: "grows (c, g) (c2, g)" by (rule kept) (use assms s in \<open>auto simp: same_frame_def c1_def c2_def\<close>)
  then have ok2: "con_ok (c2, g)" by auto
  obtain i where i: "line_index (cursor_line c2) c2 = Some i" "i < max_lines c2" using index_some [OF ok2] by auto
  define c4 where "c4 = c2\<lparr>lines := (lines c2)[i := replicate (length (lines c2 ! i)) SPACE], cy := cy c2 + (CHAR_H + LINE_SPACING), cx := BORDER_PADDING\<rparr>"
  have len: "i < length (lines c2)" using i(2) ok2 by (simp add: con_ok_def)
  have "map length ((lines c2)[i := replicate (length (lines c2 ! i)) SPACE]) = map length (lines c2)"
    using len by (intro map_length_update) simp_all
  then have k4: "grows (c2, g) (c4, g)" by (intro kept ok2) (simp add: same_frame_def c4_def)
  then have ok4: "con_ok (c4, g)" by auto
  have "draws (c4, g) (do { (c5, g) \<leftarrow> scroll_locked n (c4, g); Some (c5\<lparr>cy := cy c5 - m\<rparr>, g) })" for n m
  proof (rule draws_bind [OF draws_scroll_locked [OF ok4]])
    fix t assume t: "grows (c4, g) t"
    show "draws t (case t of (c5, g) \<Rightarrow> Some (c5\<lparr>cy := cy c5 - m\<rparr>, g))"
      using t by (cases t) (auto intro!: draws_kept simp: same_frame_def)
  qed
  then have "draws (c4, g) (if height c4 \<le> cy c4 + CHAR_H + BORDER_PADDING then do { (c5, g) \<leftarrow> scroll_locked (CHAR_H + LINE_SPACING) (c4, g); Some (c5\<lparr>cy := cy c5 - (CHAR_H + LINE_SPACING)\<rparr>, g) } else Some (c4, g))"
    using ok4 by (simp add: draws_ret grows_refl)
  note r = draws_via [OF k draws_via [OF k4 this]]
  have "newline s = (if height c4 \<le> cy c4 + CHAR_H + BORDER_PADDING then do { (c5, g) \<leftarrow> scroll_locked (CHAR_H + LINE_SPACING) (c4, g); Some (c5\<lparr>cy := cy c5 - (CHAR_H + LINE_SPACING)\<rparr>, g) } else Some (c4, g))"
    unfolding s newline_def Let_def prod.case c1_def [symmetric] c2_def [symmetric] using i(1) len by (simp add: clear_line_buf_def c4_def)
  with r show ?thesis by (simp only: s)
qed

lemma draws_erase:
  assumes "con_ok s"
  shows "draws s (erase_to_eol s)"
proof -
  obtain c g where s: "s = (c, g)" by (rule prod.exhaust)
  let ?w = "width c" and ?h = "height c"
  define x0 x1 y0 y1 where x: "x0 = min (cx c) (width c)" "x1 = min (width c - BORDER_PADDING) (width c)"
    "y0 = min (cy c) (height c)" "y1 = min (cy c + CHAR_H + LINE_SPACING) (height c)"
  have bound: "x1 \<le> ?w" "y1 \<le> ?h" by (simp_all add: x)
  note e = erase_to_eol_def Let_def prod.case x [symmetric]
  have ok: "g_inited g" "length (g_fb g) = ?w * ?h" "stride c = ?w" using assms by (auto simp: con_ok_def s)
  show ?thesis
  proof (cases "x1 \<le> x0 \<or> y1 \<le> y0")
    case True
    then show ?thesis using assms ok(1) unfolding s e by (simp add: draws_ret grows_refl)
  next
    case False
    then have le: "x0 \<le> x1" "y0 \<le> y1" by simp_all
    let ?P = "box x0 y0 x1 y1"
    let ?I = "\<lambda>g'. \<exists>fb. g' = g\<lparr>g_fb := fb\<rparr> \<and> only_in ?w ?h ?P (g_fb g) fb"
    have "\<exists>g'. each (\<lambda>y g. fb_fill (y * stride c + x0) (y * stride c + x1) (black c) g) [y0..<y1] g = Some g' \<and> ?I g'"
    proof (rule each_inv)
      fix y g' assume y: "y \<in> set [y0..<y1]" "?I g'"
      then obtain fb where fb: "g' = g\<lparr>g_fb := fb\<rparr>" "only_in ?w ?h ?P (g_fb g) fb" by blast
      then have "length fb = ?w * ?h" using ok(2) by (simp add: only_in_def)
      then have "\<exists>fb'. fill_range (y * ?w + x0) (y * ?w + x1) (black c) fb = Some fb' \<and> only_in ?w ?h ?P fb fb'"
        by (rule only_in_fill) (use y(1) le bound in auto)
      then obtain fb' where "fill_range (y * ?w + x0) (y * ?w + x1) (black c) fb = Some fb'" "only_in ?w ?h ?P fb fb'" by blast
      with fb show "\<exists>t. fb_fill (y * stride c + x0) (y * stride c + x1) (black c) g' = Some t \<and> ?I t"
        by (auto simp: fb_fill_def ok(3) intro: only_in_trans)
    qed (rule exI [of _ "g_fb g"], simp)
    then obtain fb where fb: "each (\<lambda>y g. fb_fill (y * stride c + x0) (y * stride c + x1) (black c) g) [y0..<y1] g = Some (g\<lparr>g_fb := fb\<rparr>)"
      "only_in ?w ?h ?P (g_fb g) fb" by blast
    define d where "d = mark_dirty_rect x0 y0 (x1 - x0) (y1 - y0) c"
    have d: "grows (c, g) (d, g\<lparr>g_fb := fb\<rparr>)" unfolding d_def
    proof (rule drawn)
      show "only_in ?w ?h (box x0 y0 (x0 + (x1 - x0)) (y0 + (y1 - y0))) (g_fb g) fb"
        unfolding le_add_diff_inverse [OF le(1)] le_add_diff_inverse [OF le(2)] by (rule fb(2))
      then show "length fb = length (g_fb g)" by (simp add: only_in_def)
    qed (use assms s in simp)
    then have okd: "con_ok (d, g\<lparr>g_fb := fb\<rparr>)" by auto
    obtain i where i: "line_index (cursor_line d) d = Some i" "i < max_lines d" using index_some [OF okd] by auto
    have len: "i < length (lines d)" "length (lines d ! i) = cols d" using i(2) okd by (auto simp: con_ok_def)
    obtain l where l: "fill_range (min (cursor_col d) (cols d)) (length (lines d ! i)) SPACE (lines d ! i) = Some l" "length l = length (lines d ! i)"
      using len(2) by (simp add: fill_range_def)
    have "draws (d, g\<lparr>g_fb := fb\<rparr>) (Some (d\<lparr>lines := (lines d)[i := l]\<rparr>, g\<lparr>g_fb := fb\<rparr>))"
      by (rule draws_kept [OF okd]) (simp add: same_frame_def map_length_update len l(2))
    note r = draws_via [OF d this]
    have "erase_to_eol s = Some (d\<lparr>lines := (lines d)[i := l]\<rparr>, g\<lparr>g_fb := fb\<rparr>)"
      unfolding s e using False ok(1) fb(1) i(1) len(1) l(1) by (simp flip: d_def)
    with r show ?thesis by (simp only: s)
  qed
qed

section \<open>Characters\<close>

lemma draws_if: "(b \<Longrightarrow> draws s m) \<Longrightarrow> con_ok s \<Longrightarrow> draws s (if b then m else Some s)"
  by (simp add: draws_ret grows_refl)

lemma draws_render:
  assumes "con_ok s"
  shows "draws s (render_char_locked H ch s)"
  unfolding render_char_locked_def
proof (intro draws_bind draws_if)
  fix t u v assume "grows s t" "grows t u" "grows u v"
  then have okv: "con_ok v" by auto
  obtain c g where v: "v = (c, g)" by (rule prod.exhaust)
  obtain i where i: "line_index (cursor_line c) c = Some i" "i < max_lines c" using index_some [OF okv] v by auto
  have len: "i < length (lines c)" "length (lines c ! i) = cols c" "0 < cols c" using i(2) okv v by (auto simp: con_ok_def)
  have "min (cursor_col c) (cols c - 1) < cols c" using len(3) by (simp add: min_less_iff_disj)
  with len obtain l where l: "put_at (min (cursor_col c) (cols c - 1)) (if is_ascii_graphic ch \<or> ch = 32 then of_nat ch else 63) (lines c ! i) = Some l" "length l = length (lines c ! i)"
    by (simp add: put_at_def)
  have k: "grows (c, g) (c\<lparr>lines := (lines c)[i := l]\<rparr>, g)" by (rule kept) (use okv v in \<open>simp_all add: same_frame_def map_length_update len l(2)\<close>)
  have "draws (c\<lparr>lines := (lines c)[i := l]\<rparr>, g) (do { (c, g) \<leftarrow> draw_char_at H ch x y (c\<lparr>lines := (lines c)[i := l]\<rparr>, g);
      Some (c\<lparr>cursor_col := cursor_col c + 1, cx := BORDER_PADDING + (cursor_col c + 1) * (CHAR_W + LETTER_SPACING)\<rparr>, g) })" for x y
  proof (rule draws_bind [OF draws_char])
    fix t assume t: "grows (c\<lparr>lines := (lines c)[i := l]\<rparr>, g) t"
    then show "draws t (case t of (c, g) \<Rightarrow> Some (c\<lparr>cursor_col := cursor_col c + 1, cx := BORDER_PADDING + (cursor_col c + 1) * (CHAR_W + LETTER_SPACING)\<rparr>, g))"
      by (cases t) (auto intro!: draws_kept simp: same_frame_def)
  qed (use k in auto)
  note r = draws_via [OF k this]
  show "draws v (let c = fst v; buf_ch = if is_ascii_graphic ch \<or> ch = 32 then of_nat ch else 63
      in do { idx \<leftarrow> line_index (cursor_line c) c;
              let col = min (cursor_col c) (cols c - 1) in
              do { l \<leftarrow> (if idx < length (lines c) then put_at col buf_ch (lines c ! idx) else None);
                   (c, g) \<leftarrow> draw_char_at H ch (cx c) (cy c) (c\<lparr>lines := (lines c)[idx := l]\<rparr>, snd v);
                   Some (c\<lparr>cursor_col := cursor_col c + 1, cx := BORDER_PADDING + (cursor_col c + 1) * (CHAR_W + LETTER_SPACING)\<rparr>, g) } })"
    using r i(1) len l(1) by (simp add: v Let_def)
qed (use assms in \<open>auto intro: draws_newline\<close>)

lemma draws_csi: "con_ok s \<Longrightarrow> draws s (csi_final b s)"
proof -
  assume a: "con_ok s"
  obtain c g where s: "s = (c, g)" by (rule prod.exhaust)
  have "draws (c, g) (Some (cursor_right_n n c, g))" "draws (c, g) (Some (cursor_left_n n c, g))" for n
    using a s by (auto intro!: draws_kept simp: same_frame_def cursor_right_n_def cursor_left_n_def Let_def)
  moreover have "grows (c, g) (c\<lparr>cx := BORDER_PADDING, cursor_col := 0\<rparr>, g)" by (rule kept) (use a s in \<open>simp_all add: same_frame_def\<close>)
  then have "draws (c, g) (erase_to_eol (c\<lparr>cx := BORDER_PADDING, cursor_col := 0\<rparr>, g))" by (rule draws_via) (use a s in \<open>auto intro!: draws_erase simp: con_ok_def\<close>)
  moreover have "draws (c, g) (erase_to_eol (c, g))" "grows (c, g) (clear_locked (c, g))" "grows (c, g) (c, g)"
    using a s draws_erase grows_clear grows_refl by auto
  ultimately show ?thesis by (simp add: s csi_final_def draws_ret)
qed

lemma draws_ansi:
  assumes "con_ok s"
  shows "\<exists>h t. handle_ansi_locked b s = Some (h, t) \<and> grows s t"
proof -
  obtain c g where s: "s = (c, g)" by (rule prod.exhaust)
  have k: "grows (c, g) (d, g)" if "same_frame c d" for d using kept assms s that by blast
  obtain c' g' where f: "csi_final b (c, g) = Some (c', g')" "grows (c, g) (c', g')" using draws_csi [OF assms, of b] s by (auto simp: draws_def)
  have "grows (c', g') (reset_csi c', g')" by (rule kept) (use f(2) in \<open>auto simp: same_frame_def reset_csi_def\<close>)
  then have "grows (c, g) (reset_csi c', g')" using f(2) grows_trans by blast
  then show ?thesis using f(1) by (auto simp: s handle_ansi_locked_def Let_def intro!: k simp: same_frame_def)
qed

lemma draws_ascii:
  assumes "con_ok s" "\<And>t. con_ok t \<Longrightarrow> b = 9 \<Longrightarrow> draws t (put SPACE t)"
  shows "draws s (handle_ascii_byte_locked put H b s)"
proof -
  obtain h c g where a: "handle_ansi_locked b s = Some (h, c, g)" and g: "grows s (c, g)" using draws_ansi [OF assms(1), of b] by auto
  then have ok: "con_ok (c, g)" by auto
  have "draws (c, g) (if h then Some (c, g) else if b = 10 then newline (c, g) else if b = 13 then Some (c\<lparr>cursor_col := 0, cx := BORDER_PADDING\<rparr>, g)
      else if b = 0x08 \<or> b = 0x7f then Some (cursor_left c, g)
      else if b = 9 then each (\<lambda>_. put SPACE) [0..<max ((cursor_col c div 4 + 1) * 4 - cursor_col c) 1] (c, g)
      else if is_ascii_graphic (unat b) \<or> b = SPACE then render_char_locked H (unat b) (c, g) else Some (c, g))"
    using ok by (auto intro!: draws_ret [OF grows_refl] draws_newline draws_kept draws_each draws_render assms(2) simp: same_frame_def cursor_left_def)
  with g show ?thesis unfolding handle_ascii_byte_locked_def a by (simp add: draws_via)
qed

lemma draws_utf8_lead: "con_ok s \<Longrightarrow> draws s (utf8_lead H b s)"
  by (cases s) (auto simp: utf8_lead_def same_frame_def intro!: draws_kept draws_render)

lemma draws_utf8: "con_ok s \<Longrightarrow> draws s (handle_utf8_byte_locked H b s)"
proof -
  assume a: "con_ok s"
  obtain c g where s: "s = (c, g)" by (rule prod.exhaust)
  have k: "grows (c, g) (reset_utf8_state c, g)" by (rule kept) (use a s in \<open>simp_all add: same_frame_def reset_utf8_state_def\<close>)
  have r: "draws (c, g) (render_char_locked H ch (reset_utf8_state c, g))" for ch by (rule draws_via [OF k]) (use k in \<open>auto intro: draws_render\<close>)
  moreover have "draws (c, g) (do { s \<leftarrow> render_char_locked H REPLACEMENT (reset_utf8_state c, g); utf8_lead H b s })"
    by (rule draws_bind [OF r]) (auto intro: draws_utf8_lead)
  moreover have "draws (c, g) (Some (c\<lparr>utf8_codepoint := x, utf8_needed := y\<rparr>, g))" for x y
    using a s by (auto intro!: draws_kept simp: same_frame_def)
  moreover have "draws (c, g) (utf8_lead H b (c, g))" using a s by (simp add: draws_utf8_lead)
  ultimately show ?thesis by (simp add: s handle_utf8_byte_locked_def Let_def)
qed

lemma draws_putc_body:
  assumes "con_ok s" "\<And>t. con_ok t \<Longrightarrow> b = 9 \<Longrightarrow> draws t (put SPACE t)"
  shows "draws s (putc_body put H b s)"
  unfolding putc_body_def
proof (rule draws_bind [OF draws_bottom [OF assms(1)]])
  fix t assume t: "grows s t"
  obtain c g where cg: "t = (c, g)" by (rule prod.exhaust)
  have ok: "con_ok (c, g)" using t cg by auto
  have k: "grows (c, g) (reset_utf8_state c, g)" by (rule kept) (use ok in \<open>simp_all add: same_frame_def reset_utf8_state_def\<close>)
  have r: "draws (c, g) (render_char_locked H ch (reset_utf8_state c, g))" for ch by (rule draws_via [OF k]) (use k in \<open>auto intro: draws_render\<close>)
  have "draws (c, g) (do { s \<leftarrow> (if utf8_needed c \<noteq> 0 then render_char_locked H REPLACEMENT (reset_utf8_state c, g) else Some (c, g)); handle_ascii_byte_locked put H b s })"
  proof (rule draws_bind)
    show "draws (c, g) (if utf8_needed c \<noteq> 0 then render_char_locked H REPLACEMENT (reset_utf8_state c, g) else Some (c, g))"
      using r ok by (simp add: draws_ret grows_refl)
  qed (use assms(2) in \<open>auto intro: draws_ascii\<close>)
  moreover have k': "grows (c, g) (if esc c \<or> csi c then reset_csi (c\<lparr>esc := False\<rparr>) else c, g)"
    by (rule kept) (use ok in \<open>simp_all add: same_frame_def reset_csi_def\<close>)
  have "draws (c, g) (handle_utf8_byte_locked H b (if esc c \<or> csi c then reset_csi (c\<lparr>esc := False\<rparr>) else c, g))"
    by (rule draws_via [OF k' draws_utf8 [OF con_okD [OF k']]])
  ultimately show "draws t (case t of (c, g) \<Rightarrow> if b < 0x80 then do { s \<leftarrow> (if utf8_needed c \<noteq> 0 then render_char_locked H REPLACEMENT (reset_utf8_state c, g) else Some (c, g));
      handle_ascii_byte_locked put H b s } else handle_utf8_byte_locked H b (if esc c \<or> csi c then reset_csi (c\<lparr>esc := False\<rparr>) else c, g))"
    by (simp add: cg)
qed

lemma draws_putc: "con_ok s \<Longrightarrow> draws s (putc_locked H b s)"
  unfolding putc_locked_def by (intro draws_putc_body) (simp_all add: SPACE_def)

section \<open>The picture of the host\<close>

text \<open>What a transfer does, as the device is documented: the rectangle is copied from the backing memory,
  whose rows are as long as the resource is wide.\<close>

definition host_spec :: "'h host \<Rightarrow> ('h \<Rightarrow> nat \<Rightarrow> nat \<Rightarrow> u32) \<Rightarrow> nat \<Rightarrow> bool" where
  "host_spec H pix w \<longleftrightarrow> (\<forall>r off fb h x y. pix (h_transfer H r off fb h) x y =
     (if r_x r \<le> x \<and> x < r_x r + r_w r \<and> r_y r \<le> y \<and> y < r_y r + r_h r then fb ! (off div 4 + (y - r_y r) * w + (x - r_x r)) else pix h x y))"

definition synced :: "('h \<Rightarrow> nat \<Rightarrow> nat \<Rightarrow> u32) \<Rightarrow> 'h scr \<Rightarrow> bool" where
  "synced pix s \<longleftrightarrow> (\<forall>x < width (fst s). \<forall>y < height (fst s). \<not> in_dirty (fst s) x y \<longrightarrow> pix (g_shown (snd s)) x y = g_fb (snd s) ! (y * width (fst s) + x))"

lemma synced_grows: "synced pix s \<Longrightarrow> grows s t \<Longrightarrow> synced pix t"
  by (auto simp: synced_def grows_def only_in_def)

lemma flush_synced:
  assumes "host_spec H pix (width (fst s))" "con_ok s" "synced pix s"
  shows "\<exists>t. flush_dirty_locked H s = Some t \<and> con_ok t \<and> width (fst t) = width (fst s) \<and> \<not> dirty (fst t) \<and> synced pix t"
proof -
  obtain c g where s: "s = (c, g)" by (rule prod.exhaust)
  show ?thesis
  proof (cases "dirty c")
    case False
    then show ?thesis using assms by (simp add: s flush_dirty_locked_def)
  next
    case True
    let ?x = "dirty_minx c" and ?y = "dirty_miny c" and ?w = "dirty_maxx c - dirty_minx c + 1" and ?h = "dirty_maxy c - dirty_miny c + 1"
    have ok: "?x \<le> dirty_maxx c" "dirty_maxx c < width c" "?y \<le> dirty_maxy c" "dirty_maxy c < height c" "g_width g = width c" "g_height g = height c"
        "g_stride g = width c" "length (g_fb g) = width c * height c" "0 < width c" "0 < height c" using assms(2) True by (auto simp: s con_ok_def)
    define c' where "c' = c\<lparr>dirty := False, dirty_minx := 0, dirty_miny := 0, dirty_maxx := 0, dirty_maxy := 0\<rparr>"
    let ?sh = "h_transfer H \<lparr>r_x = ?x, r_y = ?y, r_w = ?w, r_h = ?h\<rparr> ((?y * width c + ?x) * 4) (g_fb g) (g_shown g)"
    have "g_fb g \<noteq> []" using ok(8-10) by auto
    moreover have "min ?x (g_width g) = ?x" "min ?y (g_height g) = ?y" "min ?w (g_width g - ?x) = ?w" "min ?h (g_height g - ?y) = ?h" using ok by simp_all
    ultimately have "flush_rect H ?x ?y ?w ?h g = g\<lparr>g_shown := ?sh\<rparr>" by (simp add: flush_rect_def Let_def ok(7))
    then have f: "flush_dirty_locked H s = Some (c', g\<lparr>g_shown := ?sh\<rparr>)" using True ok by (simp add: s flush_dirty_locked_def c'_def)
    have p: "pix ?sh x y = (if ?x \<le> x \<and> x < ?x + ?w \<and> ?y \<le> y \<and> y < ?y + ?h then g_fb g ! (?y * width c + ?x + (y - ?y) * width c + (x - ?x)) else pix (g_shown g) x y)" for x y
      using assms(1) unfolding host_spec_def s by simp
    have "pix ?sh x y = g_fb g ! (y * width c + x)" if "x < width c" "y < height c" for x y
    proof (cases "?x \<le> x \<and> x < ?x + ?w \<and> ?y \<le> y \<and> y < ?y + ?h")
      case True
      then have "?y * width c + (y - ?y) * width c = y * width c" by (metis add_mult_distrib le_add_diff_inverse)
      then have "?y * width c + ?x + (y - ?y) * width c + (x - ?x) = y * width c + x" using True by linarith
      with True show ?thesis unfolding p by (simp only: if_P)
    next
      case False
      then have "\<not> in_dirty c x y" using ok by (auto simp: in_dirty_def)
      then have "pix (g_shown g) x y = g_fb g ! (y * width c + x)" using assms(3) that unfolding synced_def s by simp
      with False show ?thesis unfolding p by (simp only: if_False)
    qed
    moreover have "con_ok (c', g\<lparr>g_shown := ?sh\<rparr>)" using assms(2) by (auto simp: s con_ok_def c'_def)
    ultimately show ?thesis using f by (simp add: synced_def c'_def s)
  qed
qed

section \<open>Early output\<close>

definition early_ok :: "earlybuf \<Rightarrow> bool" where
  "early_ok e \<longleftrightarrow> length (eb_buf e) = EARLY_BUF_SIZE \<and> eb_r e < EARLY_BUF_SIZE \<and> eb_w e < EARLY_BUF_SIZE \<and> (eb_full e \<longrightarrow> eb_r e = eb_w e)"

definition early_count :: "earlybuf \<Rightarrow> nat" where
  "early_count e = (if eb_full e then EARLY_BUF_SIZE else (eb_w e + EARLY_BUF_SIZE - eb_r e) mod EARLY_BUF_SIZE)"

lemma early_pos [simp]: "0 < EARLY_BUF_SIZE"
  by (simp add: EARLY_BUF_SIZE_def)

lemma push_early: "early_ok e \<Longrightarrow> \<exists>e'. early_push b e = Some e' \<and> early_ok e'"
  by (simp add: early_ok_def early_push_def Let_def)

lemma pop_early:
  assumes "early_ok e"
  shows "\<exists>b e'. early_pop e = Some (b, e') \<and> early_ok e' \<and> (b \<noteq> None \<longrightarrow> early_count e = Suc (early_count e'))"
proof (cases "\<not> eb_full e \<and> eb_r e = eb_w e")
  case True
  then show ?thesis using assms by (simp add: early_pop_def)
next
  case False
  let ?n = EARLY_BUF_SIZE and ?r = "(eb_r e + 1) mod EARLY_BUF_SIZE"
  have b: "eb_r e < ?n" "eb_w e < ?n" using assms by (simp_all add: early_ok_def)
  have "early_count e = Suc ((eb_w e + ?n - ?r) mod ?n)"
  proof (cases "eb_full e")
    case True
    then have w: "eb_w e = eb_r e" using assms by (simp add: early_ok_def)
    show ?thesis
    proof (cases "eb_r e + 1 = ?n")
      case True
      then show ?thesis using w \<open>eb_full e\<close> by (simp add: early_count_def EARLY_BUF_SIZE_def)
    next
      case False
      then show ?thesis using w b \<open>eb_full e\<close> by (simp add: early_count_def EARLY_BUF_SIZE_def)
    qed
  next
    case full: False
    then have ne: "eb_r e \<noteq> eb_w e" using False by simp
    show ?thesis
    proof (cases "eb_r e + 1 = ?n")
      case True
      then show ?thesis using ne b full by (simp add: early_count_def EARLY_BUF_SIZE_def mod_if)
    next
      case False
      then show ?thesis using ne b full by (cases "eb_r e < eb_w e") (auto simp: early_count_def EARLY_BUF_SIZE_def mod_if)
    qed
  qed
  then show ?thesis using False b assms by (simp add: early_pop_def early_ok_def early_count_def)
qed

section \<open>Any use of the console\<close>

datatype con_op = CPut byte | CWrite "byte list" | CScroll int | CInit bool

fun con_step :: "'h host \<Rightarrow> con_op \<Rightarrow> 'h con \<Rightarrow> 'h con option" where
  "con_step H (CPut b) s = fb_putc H b s"
| "con_step H (CWrite bs) s = fb_write H bs s"
| "con_step H (CScroll d) s = fb_scrollback H d s"
| "con_step H (CInit up) s = fb_init H up s"

definition gpu_ok :: "'h gpu \<Rightarrow> bool" where
  "gpu_ok g \<longleftrightarrow> g_inited g \<and> 0 < g_width g \<and> g_width g < 2 ^ 64 \<and> 22 \<le> g_height g \<and> g_height g < 2 ^ 64 \<and> g_stride g = g_width g \<and> length (g_fb g) = g_width g * g_height g"

definition live :: "('h \<Rightarrow> nat \<Rightarrow> nat \<Rightarrow> u32) \<Rightarrow> nat \<Rightarrow> 'h con \<Rightarrow> bool" where
  "live pix w s \<longleftrightarrow> (case s of (c, e, g) \<Rightarrow> con_ok (c, g) \<and> \<not> dirty c \<and> synced pix (c, g) \<and> width c = w \<and> early_ok e)"

definition con_inv :: "('h \<Rightarrow> nat \<Rightarrow> nat \<Rightarrow> u32) \<Rightarrow> nat \<Rightarrow> 'h con \<Rightarrow> bool" where
  "con_inv pix w s \<longleftrightarrow> live pix w s \<or> (case s of (c, e, g) \<Rightarrow> c = fbcon_new \<and> gpu_ok g \<and> g_width g = w \<and> early_ok e)"

lemma draw_and_flush:
  assumes "host_spec H pix w" "live pix w (c, e, g)" "draws (c, g) r"
  shows "\<exists>t. do { s \<leftarrow> r; (c, g) \<leftarrow> flush_dirty_locked H s; Some (c, e, g) } = Some t \<and> live pix w t"
proof -
  obtain t where t: "r = Some t" "grows (c, g) t" using assms(3) by (auto simp: draws_def)
  have w: "width (fst t) = w" using t(2) assms(2) by (simp add: live_def grows_def)
  have sy: "synced pix t" using synced_grows [OF _ t(2)] assms(2) by (simp add: live_def)
  have "host_spec H pix (width (fst t))" using assms(1) w by simp
  from flush_synced [OF this con_okD [OF t(2)] sy]
  obtain u where "flush_dirty_locked H t = Some u" "con_ok u" "width (fst u) = w" "\<not> dirty (fst u)" "synced pix u" unfolding w by blast
  then show ?thesis using t(1) assms(2) by (cases u) (simp add: live_def)
qed

lemma live_inited: "live pix w (c, e, g) \<Longrightarrow> inited c \<and> g_inited g \<and> con_ok (c, g)"
  by (simp add: live_def con_ok_def)

lemma live_putc:
  assumes "host_spec H pix w" "live pix w (c, e, g)"
  shows "\<exists>t. fb_putc H b (c, e, g) = Some t \<and> live pix w t"
  using draw_and_flush [OF assms draws_putc] live_inited [OF assms(2)] by (simp add: fb_putc_def)

lemma live_write:
  assumes "host_spec H pix w" "live pix w (c, e, g)"
  shows "\<exists>t. fb_write H bs (c, e, g) = Some t \<and> live pix w t"
proof -
  have ok: "con_ok (c, g)" using live_inited [OF assms(2)] by simp
  have "draws (c, g) (each (putc_locked H) bs (c, g))" by (rule draws_each [OF _ ok]) (auto intro: draws_putc)
  with draw_and_flush [OF assms this] live_inited [OF assms(2)] assms(2) show ?thesis by (simp add: fb_write_def)
qed

lemma live_scrollback:
  assumes "host_spec H pix w" "live pix w (c, e, g)"
  shows "\<exists>t. fb_scrollback H d (c, e, g) = Some t \<and> live pix w t"
  using draw_and_flush [OF assms draws_scrollback] live_inited [OF assms(2)] by (simp add: fb_scrollback_def)

lemma putc_early_same: "fb_putc H b (c, e, g) = Some (c', e', g') \<Longrightarrow> inited c \<Longrightarrow> e' = e"
  by (auto simp: fb_putc_def split: if_splits Option.bind_splits)

lemma live_replay:
  "host_spec H pix w \<Longrightarrow> live pix w (c, e, g) \<Longrightarrow> early_count e < n \<Longrightarrow> \<exists>t. replay n H (c, e, g) = Some t \<and> live pix w t"
proof (induction n arbitrary: c e g)
  case (Suc n)
  have "early_ok e" using Suc.prems(2) by (simp add: live_def)
  then obtain b e' where p: "early_pop e = Some (b, e')" "early_ok e'" "b \<noteq> None \<longrightarrow> early_count e = Suc (early_count e')" using pop_early by blast
  have l: "live pix w (c, e', g)" using Suc.prems(2) p(2) by (simp add: live_def)
  show ?case
  proof (cases b)
    case None
    then show ?thesis using p l by simp
  next
    case (Some x)
    obtain c1 e1 g1 where t: "fb_putc H x (c, e', g) = Some (c1, e1, g1)" "live pix w (c1, e1, g1)"
      using live_putc [OF Suc.prems(1) l] by fastforce
    have "e1 = e'" using putc_early_same t(1) live_inited [OF l] by blast
    then have "\<exists>t. replay n H (c1, e1, g1) = Some t \<and> live pix w t" using Suc.IH [OF Suc.prems(1) t(2)] Suc.prems(3) p(3) Some by simp
    then show ?thesis using p(1) Some t(1) by simp
  qed
qed simp

lemma init_live:
  assumes "host_spec H pix w" "gpu_ok g" "g_width g = w" "early_ok e"
  shows "\<exists>t. fb_init H True (fbcon_new, e, g) = Some t \<and> live pix w t"
proof -
  let ?h = "g_height g"
  define C R where "C = max ((g_width g - 2 * BORDER_PADDING) div (CHAR_W + LETTER_SPACING)) 1"
    and "R = max ((g_height g - 2 * BORDER_PADDING) div (CHAR_H + LINE_SPACING)) 1"
  note CR = this
  define n where "n = max (R + SCROLLBACK_LINES) 1"
  define c1 where "c1 = fbcon_new\<lparr>width := g_width g, height := g_height g, stride := g_stride g, fmt := g_fmt g, cx := BORDER_PADDING, cy := BORDER_PADDING, inited := True,
    cols := C, rows := R, max_lines := n, lines := replicate n (replicate C SPACE),
    line_base := 0, line_count := 1, cursor_line := 0, cursor_col := 0, view_offset := 0\<rparr>"
  have g: "g_inited g" "0 < g_width g" "g_width g < 2 ^ 64" "22 \<le> ?h" "?h < 2 ^ 64" "g_stride g = g_width g" "length (g_fb g) = g_width g * ?h"
    using assms(2) by (simp_all add: gpu_ok_def)
  have "18 * ((?h - 4) div 18) + 4 \<le> ?h" using mult_div_mod_eq [of 18 "?h - 4"] g(4) by linarith
  then have r: "18 * R + 4 \<le> ?h" using g(4) by (simp add: CR BORDER_PADDING_def CHAR_H_def SCALE_def LINE_SPACING_def max_def)
  have "0 < R" "0 < C" "0 < n" by (simp_all add: n_def CR less_max_iff_disj)
  then have ok: "con_ok (c1, g)" using g r unfolding con_ok_def c1_def fbcon_new_def by simp
  obtain c2 g2 where cl: "clear_locked (c1, g) = (c2, g2)" by (rule prod.exhaust)
  have gr: "grows (c1, g) (c2, g2)" using grows_clear [OF ok] cl by simp
  have "in_dirty c2 x y" if "x < width c2" "y < height c2" for x y
  proof -
    have "c2 = reset_utf8_state (mark_dirty_rect 0 0 (width c1) (height c1) c1
        \<lparr>cx := BORDER_PADDING, cy := BORDER_PADDING, line_base := 0, line_count := 1, cursor_line := 0, cursor_col := 0, view_offset := 0,
          lines := map (\<lambda>l. replicate (length l) SPACE) (lines (mark_dirty_rect 0 0 (width c1) (height c1) c1)), esc := False, csi := False, csi_num := 0, csi_have_num := False\<rparr>)"
      using cl g(1) by (simp add: clear_locked_def fill_screen_def)
    moreover have "width c2 = width c1" "height c2 = height c1" using gr by (simp_all add: grows_def)
    ultimately show ?thesis using that g
      by (auto simp: in_dirty_def reset_utf8_state_def mark_dirty_rect_def c1_def fbcon_new_def Let_def usat_def min_def)
  qed
  then have sy: "synced pix (c2, g2)" by (simp add: synced_def)
  have w: "width c2 = w" using gr assms(3) by (simp add: grows_def c1_def)
  obtain c3 g3 where f: "flush_dirty_locked H (c2, g2) = Some (c3, g3)" "con_ok (c3, g3)" "width c3 = w" "\<not> dirty c3" "synced pix (c3, g3)"
    using flush_synced [of H pix "(c2, g2)"] assms(1) w con_okD [OF gr] sy by fastforce
  then have "live pix w (c3, e, g3)" using assms(4) by (simp add: live_def)
  moreover have "early_count e < EARLY_BUF_SIZE + 1" by (simp add: early_count_def less_Suc_eq_le)
  ultimately obtain t where "replay (EARLY_BUF_SIZE + 1) H (c3, e, g3) = Some t" "live pix w t" using live_replay [OF assms(1)] by blast
  moreover have "fb_init H True (fbcon_new, e, g) = do { (c2, g2) \<leftarrow> flush_dirty_locked H (clear_locked (c1, g)); replay (EARLY_BUF_SIZE + 1) H (c2, e, g2) }"
    using g(1) by (simp add: fb_init_def c1_def n_def CR Let_def) (simp add: fbcon_new_def)
  ultimately show ?thesis using cl f(1) by simp
qed

lemma inv_of_live: "live pix w s \<Longrightarrow> con_inv pix w s"
  by (simp add: con_inv_def)

lemma con_step_inv:
  assumes "host_spec H pix w" "con_inv pix w s"
  shows "\<exists>t. con_step H op s = Some t \<and> con_inv pix w t"
proof -
  obtain c e g where s: "s = (c, e, g)" by (rule prod_cases3)
  show ?thesis
  proof (cases "live pix w s")
    case True
    then have l: "live pix w (c, e, g)" by (simp add: s)
    have "\<exists>t. con_step H op (c, e, g) = Some t \<and> live pix w t"
    proof (cases op)
      case (CPut b)
      then show ?thesis using live_putc [OF assms(1) l, of b] by simp
    next
      case (CWrite bs)
      then show ?thesis using live_write [OF assms(1) l, of bs] by simp
    next
      case (CScroll d)
      then show ?thesis using live_scrollback [OF assms(1) l, of d] by simp
    next
      case (CInit up)
      then show ?thesis using l live_inited [OF l] by (simp add: fb_init_def)
    qed
    then show ?thesis unfolding s using inv_of_live by blast
  next
    case False
    then have n: "c = fbcon_new" "gpu_ok g" "g_width g = w" "early_ok e" "\<not> inited c" using assms(2) by (auto simp: s con_inv_def fbcon_new_def)
    show ?thesis
    proof (cases op)
      case (CPut b)
      then show ?thesis using n push_early [OF n(4), of b] by (auto simp: s fb_putc_def con_inv_def)
    next
      case (CWrite bs)
      have "\<exists>e'. each early_push bs e = Some e' \<and> early_ok e'" by (rule each_inv) (use push_early n(4) in auto)
      then show ?thesis using n CWrite by (auto simp: s fb_write_def con_inv_def)
    next
      case (CScroll d)
      then show ?thesis using n by (simp add: s fb_scrollback_def con_inv_def)
    next
      case (CInit up)
      show ?thesis
      proof (cases up)
        case True
        then have up: "up = True" by simp
        obtain t where "fb_init H True (fbcon_new, e, g) = Some t" "live pix w t" using init_live [OF assms(1) n(2,3,4)] by blast
        then show ?thesis unfolding s CInit con_step.simps n(1) up using inv_of_live by blast
      next
        case False
        then show ?thesis using n CInit by (simp add: s con_inv_def fb_init_def)
      qed
    qed
  qed
qed

text \<open>
  C34. Whatever is written to the console, in whatever order and before or after its initialisation,
  including escape sequences, malformed UTF-8 and scrolling in the history, it never panics, and as soon
  as it is initialised the picture of the host agrees with the frame buffer in every pixel after every
  call.
\<close>

theorem console_in_sync:
  assumes "host_spec H pix (g_width g)" "gpu_ok g"
  shows "\<exists>c e g'. each (con_step H) ops (fbcon_new, early_new, g) = Some (c, e, g') \<and>
    (inited c \<longrightarrow> (\<forall>x < g_width g. \<forall>y < g_height g'. pix (g_shown g') x y = g_fb g' ! (y * g_width g + x)))"
proof -
  have "con_inv pix (g_width g) (fbcon_new, early_new, g)"
    using assms(2) by (simp add: con_inv_def early_ok_def early_new_def)
  with con_step_inv [OF assms(1)] have "\<exists>t. each (con_step H) ops (fbcon_new, early_new, g) = Some t \<and> con_inv pix (g_width g) t"
    by (intro each_inv)
  then obtain c e g' where t: "each (con_step H) ops (fbcon_new, early_new, g) = Some (c, e, g')" "con_inv pix (g_width g) (c, e, g')" by fastforce
  have "pix (g_shown g') x y = g_fb g' ! (y * g_width g + x)" if "inited c" "x < g_width g" "y < g_height g'" for x y
    using t(2) that by (auto simp: con_inv_def live_def synced_def in_dirty_def con_ok_def fbcon_new_def)
  with t(1) show ?thesis by blast
qed

text \<open>A host that keeps its picture as a function, and a small screen.\<close>

definition plain_host :: "(nat \<Rightarrow> nat \<Rightarrow> u32) host" where
  "plain_host =
     \<lparr>h_font = replicate 128 (replicate 8 0x3c), h_latin = replicate 96 (replicate 8 0), h_box = replicate 128 (replicate 8 0xff),
      h_transfer = (\<lambda>r off fb h x y. if r_x r \<le> x \<and> x < r_x r + r_w r \<and> r_y r \<le> y \<and> y < r_y r + r_h r
        then fb ! (off div 4 + (y - r_y r) * 40 + (x - r_x r)) else h x y)\<rparr>"

definition small_screen :: "(nat \<Rightarrow> nat \<Rightarrow> u32) gpu" where
  "small_screen = \<lparr>g_inited = True, g_width = 40, g_height = 30, g_stride = 40, g_fmt = Bgrx8888, g_fb = replicate 1200 7, g_shown = (\<lambda>_ _. 9)\<rparr>"

theorem console_in_sync_witness:
  "\<exists>c e g'. each (con_step plain_host) [CPut 65, CInit True, CWrite [72, 105, 10, 0xc3, 0xa4], CScroll 1] (fbcon_new, early_new, small_screen) = Some (c, e, g') \<and>
    (inited c \<longrightarrow> (\<forall>x < g_width small_screen. \<forall>y < g_height g'. g_shown g' x y = g_fb g' ! (y * g_width small_screen + x)))"
  by (rule console_in_sync [where pix = "\<lambda>h. h"]) (simp_all add: host_spec_def plain_host_def small_screen_def gpu_ok_def)

end
