(* ===== verification/Fb_Text.thy ===== *)
theory Fb_Text
  imports Fb_Sync
begin

text \<open>
  Characters on the console: the bytes of a character in UTF-8 are read back as the character.
\<close>

section \<open>Bytes as numbers\<close>

lemma byte_of_nat:
  assumes "n < 256"
  shows "unat (of_nat n :: byte) = n" "(0x80 \<le> (of_nat n :: byte)) = (0x80 \<le> n)" "((of_nat n :: byte) \<le> 0xBF) = (n \<le> 0xBF)"
    "(0xC2 \<le> (of_nat n :: byte)) = (0xC2 \<le> n)" "((of_nat n :: byte) \<le> 0xDF) = (n \<le> 0xDF)" "(0xE0 \<le> (of_nat n :: byte)) = (0xE0 \<le> n)"
    "((of_nat n :: byte) \<le> 0xEF) = (n \<le> 0xEF)" "(0xF0 \<le> (of_nat n :: byte)) = (0xF0 \<le> n)" "((of_nat n :: byte) \<le> 0xF4) = (n \<le> 0xF4)"
    "((of_nat n :: byte) < 0x80) = (n < 0x80)"
proof -
  have u: "unat (of_nat n :: byte) = n" using assms by (simp add: unat_of_nat)
  then show "unat (of_nat n :: byte) = n" .
  show "(0x80 \<le> (of_nat n :: byte)) = (0x80 \<le> n)" "((of_nat n :: byte) \<le> 0xBF) = (n \<le> 0xBF)"
    "(0xC2 \<le> (of_nat n :: byte)) = (0xC2 \<le> n)" "((of_nat n :: byte) \<le> 0xDF) = (n \<le> 0xDF)" "(0xE0 \<le> (of_nat n :: byte)) = (0xE0 \<le> n)"
    "((of_nat n :: byte) \<le> 0xEF) = (n \<le> 0xEF)" "(0xF0 \<le> (of_nat n :: byte)) = (0xF0 \<le> n)" "((of_nat n :: byte) \<le> 0xF4) = (n \<le> 0xF4)"
    "((of_nat n :: byte) < 0x80) = (n < 0x80)"
    by (simp_all add: word_le_nat_alt word_less_nat_alt u)
qed

section \<open>UTF-8\<close>

definition utf8_encode :: "nat \<Rightarrow> byte list" where
  "utf8_encode cp = map of_nat
     (if cp < 0x800 then [0xC0 + cp div 64, 0x80 + cp mod 64]
      else if cp < 0x10000 then [0xE0 + cp div 4096, 0x80 + cp div 64 mod 64, 0x80 + cp mod 64]
      else [0xF0 + cp div 262144, 0x80 + cp div 4096 mod 64, 0x80 + cp div 64 mod 64, 0x80 + cp mod 64])"

text \<open>The console at the bottom of its history, between two characters.\<close>

definition between :: "fbcon \<Rightarrow> bool" where
  "between c \<longleftrightarrow> view_offset c = 0 \<and> utf8_needed c = 0 \<and> \<not> esc c \<and> \<not> csi c"

lemma put_high:
  assumes "view_offset c = 0" "\<not> esc c" "\<not> csi c" "0x80 \<le> n" "n < 256"
  shows "putc_locked H (of_nat n) (c, g) = handle_utf8_byte_locked H (of_nat n) (c, g)"
  using assms by (simp add: putc_locked_def putc_body_def ensure_bottom_def byte_of_nat)

lemma put_cont:
  assumes "view_offset c = 0" "\<not> esc c" "\<not> csi c" "0x80 \<le> m" "m < 0xC0" "utf8_needed c = Suc (Suc k)" "utf8_codepoint c < 2 ^ 15"
  shows "putc_locked H (of_nat m) (c, g) = Some (c\<lparr>utf8_codepoint := utf8_codepoint c * 64 + m mod 64, utf8_needed := Suc k\<rparr>, g)"
proof -
  have m: "m < 256" using assms(5) by simp
  show ?thesis unfolding put_high [OF assms(1-4) m]
    using assms by (simp add: handle_utf8_byte_locked_def byte_of_nat [OF m] Let_def)
qed

text \<open>The last byte.\<close>

lemma put_last:
  assumes "view_offset c = 0" "\<not> esc c" "\<not> csi c" "0x80 \<le> m" "m < 0xC0" "utf8_needed c = 1" "utf8_codepoint c < 2 ^ 15"
    and "cp = utf8_codepoint c * 64 + m mod 64" "utf8_min c \<le> cp" "cp \<le> 0x10FFFF" "\<not> (0xD800 \<le> cp \<and> cp \<le> 0xDFFF)"
  shows "putc_locked H (of_nat m) (c, g) = render_char_locked H cp (reset_utf8_state c, g)"
proof -
  have m: "m < 256" using assms(5) by simp
  have c: "(utf8_codepoint c * 64) mod 2 ^ 32 = utf8_codepoint c * 64" using assms(7) by simp
  show ?thesis unfolding put_high [OF assms(1-4) m] handle_utf8_byte_locked_def prod.case c assms(8) [symmetric] byte_of_nat [OF m]
    using assms(4-6,9-11) by (auto simp: Let_def)
qed

lemma put_lead:
  assumes "between c" "0xC2 \<le> m" "m \<le> 0xF4"
  shows "putc_locked H (of_nat m) (c, g) = Some
    (if m \<le> 0xDF then c\<lparr>utf8_needed := 1, utf8_codepoint := m mod 32, utf8_min := 0x80\<rparr>
     else if m \<le> 0xEF then c\<lparr>utf8_needed := 2, utf8_codepoint := m mod 16, utf8_min := 0x800\<rparr>
     else c\<lparr>utf8_needed := 3, utf8_codepoint := m mod 8, utf8_min := 0x10000\<rparr>, g)"
proof -
  have m: "0x80 \<le> m" "m < 256" using assms(2,3) by simp_all
  have b: "view_offset c = 0" "\<not> esc c" "\<not> csi c" "utf8_needed c = 0" using assms(1) by (simp_all add: between_def)
  show ?thesis unfolding put_high [OF b(1-3) m] using assms(2,3) b(4) by (simp add: handle_utf8_byte_locked_def utf8_lead_def byte_of_nat [OF m(2)])
qed

lemma marker_mod [simp]:
  "q < 32 \<Longrightarrow> (0xC0 + q) mod 32 = (q :: nat)" "q < 16 \<Longrightarrow> (0xE0 + q) mod 16 = q" "q < 8 \<Longrightarrow> (0xF0 + q) mod 8 = q" "q < 64 \<Longrightarrow> (0x80 + q) mod 64 = q"
  using mod_mult_self3 [of 6 32 q] mod_mult_self3 [of 14 16 q] mod_mult_self3 [of 30 8 q] mod_mult_self3 [of 2 64 q] by simp_all

lemma digits64: "cp div 4096 = cp div 64 div 64" "cp div 262144 = (cp :: nat) div 64 div 64 div 64"
  by (simp_all flip: div_mult2_eq)

lemma each_last: "Option.bind r (each f []) = r"
  by (cases r) simp_all

text \<open>
  C35. The decoder of the console inverts UTF-8: writing the encoding of a character outside ASCII (any
  code point up to 10FFFF but the surrogates) to a console that is between two characters is exactly
  rendering the character once, with the decoder back in its initial state.
\<close>

theorem utf8_roundtrip:
  assumes "0x80 \<le> cp" "cp \<le> 0x10FFFF" "\<not> (0xD800 \<le> cp \<and> cp \<le> 0xDFFF)" "between c"
  shows "each (putc_locked H) (utf8_encode cp) (c, g) = render_char_locked H cp (reset_utf8_state c, g)"
proof -
  have b: "view_offset c = 0" "\<not> esc c" "\<not> csi c" using assms(4) by (simp_all add: between_def)
  consider "cp < 0x800" | "0x800 \<le> cp" "cp < 0x10000" | "0x10000 \<le> cp" by linarith
  then show ?thesis
  proof cases
    case 1
    define q m1 where "q = cp div 64" and "m1 = 0x80 + cp mod 64"
    note d = this
    have q: "2 \<le> q" "q < 32" "cp = q * 64 + cp mod 64" using div_le_mono [OF assms(1), of 64] 1 by (simp_all add: d less_mult_imp_div_less)
    have m1: "0x80 \<le> m1" "m1 < 0xC0" "m1 mod 64 = cp mod 64" by (simp_all add: d)
    have e: "utf8_encode cp = [of_nat (0xC0 + q), of_nat m1]" using 1 by (simp add: utf8_encode_def d)
    let ?c = "c\<lparr>utf8_needed := 1, utf8_codepoint := q, utf8_min := 0x80\<rparr>"
    have "putc_locked H (of_nat (0xC0 + q)) (c, g) = Some (?c, g)"
      using put_lead [OF assms(4), of "0xC0 + q"] q(1,2) by (simp del: of_nat_add of_nat_numeral)
    moreover have "putc_locked H (of_nat m1) (?c, g) = render_char_locked H cp (reset_utf8_state ?c, g)"
      by (rule put_last) (use b m1 q assms in simp_all)
    ultimately show ?thesis unfolding e by (simp add: each_last reset_utf8_state_def del: of_nat_add of_nat_numeral each.simps(1))
  next
    case 2
    define p q m1 m2 where "p = cp div 64 div 64" and "q = cp div 64" and "m1 = 0x80 + cp div 64 mod 64" and "m2 = 0x80 + cp mod 64"
    note d = this
    have "cp div 64 < 1024" using 2 by (simp add: less_mult_imp_div_less)
    then have q: "p < 16" "q < 1024" "q = p * 64 + q mod 64" "cp = q * 64 + cp mod 64" by (simp_all add: d less_mult_imp_div_less)
    have m: "0x80 \<le> m1" "m1 < 0xC0" "m1 mod 64 = q mod 64" "0x80 \<le> m2" "m2 < 0xC0" "m2 mod 64 = cp mod 64" by (simp_all add: d)
    have e: "utf8_encode cp = [of_nat (0xE0 + p), of_nat m1, of_nat m2]" using 2 by (simp add: utf8_encode_def d digits64)
    let ?c = "c\<lparr>utf8_needed := 2, utf8_codepoint := p, utf8_min := 0x800\<rparr>" and ?c1 = "c\<lparr>utf8_needed := 1, utf8_codepoint := q, utf8_min := 0x800\<rparr>"
    have "putc_locked H (of_nat (0xE0 + p)) (c, g) = Some (?c, g)"
      using put_lead [OF assms(4), of "0xE0 + p"] q(1) by (simp del: of_nat_add of_nat_numeral)
    moreover have "putc_locked H (of_nat m1) (?c, g) = Some (?c1, g)"
      by (subst put_cont [where k = 0]) (use b m q in simp_all)
    moreover have "putc_locked H (of_nat m2) (?c1, g) = render_char_locked H cp (reset_utf8_state ?c1, g)"
      by (rule put_last) (use b m q assms 2 in simp_all)
    ultimately show ?thesis unfolding e by (simp add: each_last reset_utf8_state_def del: of_nat_add of_nat_numeral each.simps(1))
  next
    case 3
    define n p q m1 m2 m3 where "n = cp div 64 div 64 div 64" and "p = cp div 64 div 64" and "q = cp div 64"
      and "m1 = 0x80 + cp div 64 div 64 mod 64" and "m2 = 0x80 + cp div 64 mod 64" and "m3 = 0x80 + cp mod 64"
    note d = this
    have "cp div 64 < 17408" using assms(2) by (simp add: less_mult_imp_div_less)
    moreover from this have "cp div 64 div 64 < 272" by (simp add: less_mult_imp_div_less)
    ultimately have q: "n < 5" "p < 272" "q < 17408" "p = n * 64 + p mod 64" "q = p * 64 + q mod 64" "cp = q * 64 + cp mod 64"
      by (simp_all add: d less_mult_imp_div_less)
    have m: "0x80 \<le> m1" "m1 < 0xC0" "m1 mod 64 = p mod 64" "0x80 \<le> m2" "m2 < 0xC0" "m2 mod 64 = q mod 64" "0x80 \<le> m3" "m3 < 0xC0" "m3 mod 64 = cp mod 64"
      by (simp_all add: d)
    have e: "utf8_encode cp = [of_nat (0xF0 + n), of_nat m1, of_nat m2, of_nat m3]" using 3 by (simp add: utf8_encode_def d digits64)
    let ?c = "c\<lparr>utf8_needed := 3, utf8_codepoint := n, utf8_min := 0x10000\<rparr>" and ?c1 = "c\<lparr>utf8_needed := 2, utf8_codepoint := p, utf8_min := 0x10000\<rparr>"
      and ?c2 = "c\<lparr>utf8_needed := 1, utf8_codepoint := q, utf8_min := 0x10000\<rparr>"
    have "putc_locked H (of_nat (0xF0 + n)) (c, g) = Some (?c, g)"
      using put_lead [OF assms(4), of "0xF0 + n"] q(1) by (simp del: of_nat_add of_nat_numeral)
    moreover have "putc_locked H (of_nat m1) (?c, g) = Some (?c1, g)"
      by (subst put_cont [where k = 1]) (use b m q in simp_all)
    moreover have "putc_locked H (of_nat m2) (?c1, g) = Some (?c2, g)"
      by (subst put_cont [where k = 0]) (use b m q in simp_all)
    moreover have "putc_locked H (of_nat m3) (?c2, g) = render_char_locked H cp (reset_utf8_state ?c2, g)"
      by (rule put_last) (use b m q assms 3 in simp_all)
    ultimately show ?thesis unfolding e by (simp add: each_last reset_utf8_state_def del: of_nat_add of_nat_numeral each.simps(1))
  qed
qed

theorem utf8_roundtrip_witness:
  "each (putc_locked plain_host) (utf8_encode 0x20AC) (fbcon_new, small_screen) = render_char_locked plain_host 0x20AC (reset_utf8_state fbcon_new, small_screen)"
  by (rule utf8_roundtrip) (simp_all add: between_def fbcon_new_def)

end
