(* ===== verification/Console.thy ===== *)
theory Console
  imports Errors Bytes Signal
begin

text \<open>
  The console (\<^verbatim>\<open>crates/kernel/src/console.rs\<close>): the interrupt handler that edits the input line, with a
  history, and the operations of the device file. The indices into the ring buffer of 128 bytes are
  64-bit numbers that wrap around: \<open>r\<close> where readers go on, \<open>w\<close> up to where they may read, \<open>e\<close> where
  input is stored, and the start of the line that can still be edited.

  What the handler does outside the console is a list of events in the order of the source.
\<close>

section \<open>State\<close>

definition INPUT_BUF_SIZE :: nat where "INPUT_BUF_SIZE = 128"
definition HISTORY_LEN :: nat where "HISTORY_LEN = 16"

text \<open>Control-x.\<close>

definition ctrl :: "byte \<Rightarrow> byte" where
  "ctrl x = x - 0x40"

datatype cevent = Echo byte | Signal nat nat | Dump | Wakeup

record cons =
  c_buf :: "byte list"
  c_r :: u64
  c_w :: u64
  c_e :: u64
  c_line :: u64
  c_session :: nat
  c_fg :: nat
  c_hist :: "byte list list"
  c_hlen :: "nat list"
  c_hcount :: nat
  c_hnext :: nat
  c_hcur :: "nat option"
  c_saved :: "byte list"
  c_saved_len :: nat
  c_esc :: nat
  c_out :: "cevent list"

definition cons_new :: cons where
  "cons_new =
     \<lparr>c_buf = replicate INPUT_BUF_SIZE 0, c_r = 0, c_w = 0, c_e = 0, c_line = 0, c_session = 0, c_fg = 0,
      c_hist = replicate HISTORY_LEN (replicate INPUT_BUF_SIZE 0), c_hlen = replicate HISTORY_LEN 0, c_hcount = 0, c_hnext = 0,
      c_hcur = None, c_saved = replicate INPUT_BUF_SIZE 0, c_saved_len = 0, c_esc = 0, c_out = []\<rparr>"

definition emit :: "cevent \<Rightarrow> cons \<Rightarrow> cons" where
  "emit v c = c\<lparr>c_out := c_out c @ [v]\<rparr>"

text \<open>The byte at an index.\<close>

definition at :: "cons \<Rightarrow> u64 \<Rightarrow> byte" where
  "at c i = c_buf c ! (unat i mod INPUT_BUF_SIZE)"

section \<open>The line and the history\<close>

definition history_ring_index :: "nat \<Rightarrow> cons \<Rightarrow> nat" where
  "history_ring_index idx c = (if c_hcount c < HISTORY_LEN then idx else (c_hnext c + idx) mod HISTORY_LEN)"

text \<open>The bytes of the line, at most \<open>n\<close> of them.\<close>

primrec capture_from :: "nat \<Rightarrow> u64 \<Rightarrow> cons \<Rightarrow> byte list" where
  "capture_from 0 i c = []"
| "capture_from (Suc n) i c = (if i = c_e c \<or> at c i = 10 then [] else at c i # capture_from n (i + 1) c)"

definition capture_line :: "cons \<Rightarrow> byte list" where
  "capture_line c = capture_from INPUT_BUF_SIZE (c_line c) c"

definition push_history :: "cons \<Rightarrow> cons" where
  "push_history c =
     (let tmp = capture_line c; c1 = c\<lparr>c_hcur := None, c_saved_len := 0\<rparr> in
      if tmp = [] then c1
      else
        (let idx = c_hnext c1 in
         c1\<lparr>c_hist := (c_hist c1)[idx := patch 0 tmp (c_hist c1 ! idx)], c_hlen := (c_hlen c1)[idx := length tmp],
            c_hnext := (c_hnext c1 + 1) mod HISTORY_LEN, c_hcount := (if c_hcount c1 < HISTORY_LEN then c_hcount c1 + 1 else c_hcount c1)\<rparr>))"

definition erase_one :: "cons \<Rightarrow> cons" where
  "erase_one c = emit (Echo (ctrl 72)) (c\<lparr>c_e := c_e c - 1\<rparr>)"

function clear_line :: "cons \<Rightarrow> cons" where
  "clear_line c = (if c_e c \<noteq> c_line c then clear_line (erase_one c) else c)"
  by pat_completeness auto
termination
proof (relation "measure (\<lambda>c. unat (c_e c - c_line c))", goal_cases)
  case (2 c)
  have "c_e c - c_line c \<noteq> 0" using 2 by simp
  then have "unat (c_e c - c_line c - 1) < unat (c_e c - c_line c)"
    using unat_minus_one [of "c_e c - c_line c"] unsigned_eq_0_iff [where 'a = nat, of "c_e c - c_line c"] by linarith
  moreover have "c_e c - 1 - c_line c = c_e c - c_line c - 1" by (simp add: algebra_simps)
  moreover have "c_e (erase_one c) = c_e c - 1" "c_line (erase_one c) = c_line c" by (simp_all add: erase_one_def emit_def)
  ultimately show ?case unfolding in_measure by (simp only:)
qed simp

declare clear_line.simps [simp del]

definition store_byte :: "byte \<Rightarrow> cons \<Rightarrow> cons" where
  "store_byte b c = (emit (Echo b) c)\<lparr>c_buf := (c_buf c)[unat (c_e c) mod INPUT_BUF_SIZE := b], c_e := c_e c + 1\<rparr>"

definition insert_byte :: "byte \<Rightarrow> cons \<Rightarrow> cons" where
  "insert_byte b c = (if b = 0 \<or> INPUT_BUF_SIZE \<le> unat (c_e c - c_r c) then c else store_byte b c)"

definition load_history :: "nat \<Rightarrow> cons \<Rightarrow> cons" where
  "load_history idx c =
     (let ring_idx = history_ring_index idx c; len = c_hlen c ! ring_idx
      in fold (\<lambda>i c. insert_byte (c_hist c ! ring_idx ! i) c) [0..<len] (clear_line c))"

definition history_up :: "cons \<Rightarrow> cons" where
  "history_up c =
     (if c_hcount c = 0 then c
      else
        (let (cursor, c1) =
           (case c_hcur c of
              None \<Rightarrow> (c_hcount c - 1, c\<lparr>c_saved := patch 0 (capture_line c) (c_saved c), c_saved_len := length (capture_line c)\<rparr>)
            | Some k \<Rightarrow> (k - 1, c))
         in load_history cursor (c1\<lparr>c_hcur := Some cursor\<rparr>)))"

definition history_down :: "cons \<Rightarrow> cons" where
  "history_down c =
     (case c_hcur c of
        None \<Rightarrow> c
      | Some cur \<Rightarrow>
          if cur + 1 < c_hcount c then load_history (cur + 1) (c\<lparr>c_hcur := Some (cur + 1)\<rparr>)
          else fold (\<lambda>i c. insert_byte (c_saved c ! i) c) [0..<c_saved_len c] (clear_line (c\<lparr>c_hcur := None\<rparr>)))"

definition handle_escape :: "byte \<Rightarrow> cons \<Rightarrow> bool \<times> cons" where
  "handle_escape b c =
     (if c_esc c = 0 then (if b = 0x1b then (True, c\<lparr>c_esc := 1\<rparr>) else (False, c))
      else if c_esc c = 1 then (True, c\<lparr>c_esc := if b = 91 then 2 else 0\<rparr>)
      else if c_esc c = 2 then
        (let c1 = c\<lparr>c_esc := 0\<rparr> in
         (True, if b = 65 \<or> b = 68 then history_up c1 else if b = 66 \<or> b = 67 then history_down c1 else c1))
      else (True, c\<lparr>c_esc := 0\<rparr>))"

section \<open>The interrupt handler\<close>

text \<open>A signal for the foreground group, or, without one, for the group of the interrupted process.\<close>

definition signal_fg :: "nat option \<Rightarrow> nat \<Rightarrow> cons \<Rightarrow> cons" where
  "signal_fg cur sig c =
     (let target = (if c_fg c = 0 then (case cur of Some pgid \<Rightarrow> pgid | None \<Rightarrow> 0) else c_fg c)
      in if target \<noteq> 0 then emit (Signal target sig) c else c)"

definition input_byte :: "byte \<Rightarrow> cons \<Rightarrow> cons" where
  "input_byte b c =
     (if b \<noteq> 0 \<and> unat (c_e c - c_r c) < INPUT_BUF_SIZE then
        (let b = (if b = 13 then 10 else b);
             c1 = (store_byte b c)\<lparr>c_hcur := None\<rparr>
         in if b = 10 \<or> b = ctrl 68 \<or> unat (c_e c1 - c_r c1) = INPUT_BUF_SIZE then
              (let c2 = (if b = 10 then (push_history c1)\<lparr>c_line := c_e c1\<rparr> else c1)
               in emit Wakeup (c2\<lparr>c_w := c_e c2\<rparr>))
            else c1)
      else c)"

text \<open>The pattern for backspace is a bitwise or in the source, so that only 7f erases.\<close>

definition cons_intr :: "nat option \<Rightarrow> byte \<Rightarrow> cons \<Rightarrow> cons" where
  "cons_intr cur b c =
     (case handle_escape b c of
        (True, c1) \<Rightarrow> c1
      | (False, c1) \<Rightarrow>
          if b = ctrl 67 then signal_fg cur SIGINT c1
          else if b = ctrl 90 then signal_fg cur SIGTSTP c1
          else if b = ctrl 80 then emit Dump c1
          else if b = ctrl 85 then (clear_line c1)\<lparr>c_hcur := None\<rparr>
          else if b = or (ctrl 72) 0x7f then (if c_e c1 \<noteq> c_line c1 then erase_one c1 else c1)\<lparr>c_hcur := None\<rparr>
          else input_byte b c1)"

section \<open>The device file\<close>

text \<open>
  \<^verbatim>\<open>read\<close>, with the copy to the caller as an argument. A read that finds no input sleeps: \<open>RSleep\<close> says
  where it goes on and how many bytes it still wants.
\<close>

datatype rprog = RRet "nat result" | RSleep nat nat

fun cons_read :: "(nat \<Rightarrow> byte \<Rightarrow> 'm \<Rightarrow> unit result \<times> 'm) \<Rightarrow> bool \<Rightarrow> nat \<Rightarrow> nat \<Rightarrow> nat \<Rightarrow> cons \<times> 'm \<Rightarrow> rprog \<times> cons \<times> 'm" where
  "cons_read cout killed target dst 0 s = (RRet (Ok target), s)"
| "cons_read cout killed target dst (Suc n) (c, m) =
     (if c_r c = c_w c then (if killed then RRet (Err Interrupted) else RSleep dst (Suc n), c, m)
      else
        (let b = at c (c_r c); c1 = c\<lparr>c_r := c_r c + 1\<rparr> in
         if b = ctrl 68 then (RRet (Ok (target - Suc n)), if Suc n < target then c1\<lparr>c_r := c_r c1 - 1\<rparr> else c1, m)
         else
           (case cout dst b m of
              (Ok _, m1) \<Rightarrow> (if b = 10 then (RRet (Ok (target - n)), c1, m1) else cons_read cout killed target (dst + 1) n (c1, m1))
            | (Err e, m1) \<Rightarrow> (RRet (Err e), c1, m1)
            | (Panic, m1) \<Rightarrow> (RRet Panic, c1, m1))))"

text \<open>\<^verbatim>\<open>write\<close>: the bytes go to the serial line and the screen in pieces of 512.\<close>

function cons_write :: "(nat \<Rightarrow> nat \<Rightarrow> byte list result) \<Rightarrow> nat \<Rightarrow> nat \<Rightarrow> nat \<Rightarrow> byte list list \<Rightarrow> nat result \<times> byte list list" where
  "cons_write cin src n written out =
     (if written < n then
        (let k = min 512 (n - written) in
         case cin src k of
           Ok bs \<Rightarrow> cons_write cin (src + k) n (written + k) (out @ [bs])
         | Err e \<Rightarrow> (Err e, out)
         | Panic \<Rightarrow> (Panic, out))
      else (Ok written, out))"
  by pat_completeness auto
termination
  by (relation "measure (\<lambda>(cin, src, n, written, out). n - written)") auto

declare cons_write.simps [simp del]

definition cons_readable :: "cons \<Rightarrow> bool" where
  "cons_readable c \<longleftrightarrow> c_r c \<noteq> c_w c"

definition is_foreground :: "nat \<Rightarrow> cons \<Rightarrow> bool" where
  "is_foreground pgid c \<longleftrightarrow> c_fg c = 0 \<or> c_fg c = pgid"

definition set_session :: "nat \<Rightarrow> cons \<Rightarrow> unit result \<times> cons" where
  "set_session sid c =
     (if c_session c \<noteq> 0 \<and> c_session c \<noteq> sid then (Err PermissionDenied, c)
      else (Ok (), if c_session c = 0 then c\<lparr>c_session := sid\<rparr> else c))"

definition set_fg_pgrp :: "nat \<Rightarrow> nat \<Rightarrow> cons \<Rightarrow> unit result \<times> cons" where
  "set_fg_pgrp sid pgid c =
     (if c_session c \<noteq> 0 \<and> c_session c \<noteq> sid then (Err PermissionDenied, c)
      else (Ok (), (if c_session c = 0 then c\<lparr>c_session := sid\<rparr> else c)\<lparr>c_fg := pgid\<rparr>))"

text \<open>The bytes an echoed byte puts on the serial line and the screen: control-h wipes out a character.\<close>

definition echo_bytes :: "byte \<Rightarrow> byte list" where
  "echo_bytes b = (if b = ctrl 72 then [8, 32, 8] else [b])"

end
