(* ===== verification/Console_Edit.thy ===== *)
theory Console_Edit
  imports Console
begin

text \<open>
  What is typed is what is read: the ring buffer of the console stands for the bytes that wait for a reader
  and the line that is being edited. Control-d and a full buffer hand bytes to readers without ending the
  line; erasing them afterwards leaves the console without any further input.
\<close>

section \<open>The ring buffer\<close>

definition holds :: "cons \<Rightarrow> byte list \<Rightarrow> byte list \<Rightarrow> bool" where
  "holds c ready line \<longleftrightarrow> length (c_buf c) = INPUT_BUF_SIZE \<and> length ready + length line \<le> INPUT_BUF_SIZE \<and> c_line c = c_w c \<and>
     c_w c = c_r c + of_nat (length ready) \<and> c_e c = c_w c + of_nat (length line) \<and>
     (\<forall>i < length (ready @ line). at c (c_r c + of_nat i) = (ready @ line) ! i)"

lemma slot_mod: "unat (x + of_nat n :: u64) mod INPUT_BUF_SIZE = (unat x + n) mod INPUT_BUF_SIZE"
proof -
  have "unat (x + of_nat n) = (unat x + n) mod 2 ^ 64" by (simp add: unat_word_ariths unat_of_nat mod_simps)
  moreover have "(m mod 2 ^ 64) mod INPUT_BUF_SIZE = m mod INPUT_BUF_SIZE" for m by (rule mod_mod_cancel) (simp add: INPUT_BUF_SIZE_def)
  ultimately show ?thesis by simp
qed

lemma slot_inj: "i < INPUT_BUF_SIZE \<Longrightarrow> j < INPUT_BUF_SIZE \<Longrightarrow> (a + i) mod INPUT_BUF_SIZE = (a + j) mod INPUT_BUF_SIZE \<Longrightarrow> i = j"
proof -
  have "i = j" if "i \<le> j" "j < n" "(a + i) mod n = (a + j) mod n" for i j n :: nat
  proof -
    have "n dvd j - i" using that by (metis add_diff_cancel_left le_add_diff_inverse mod_eq_dvd_iff_nat nat_add_left_cancel_le)
    then show ?thesis using that by (metis diff_is_0_eq dual_order.strict_trans2 le_antisym le_eq_less_or_eq less_imp_diff_less nat_dvd_not_less not_gr_zero)
  qed
  then show "i < INPUT_BUF_SIZE \<Longrightarrow> j < INPUT_BUF_SIZE \<Longrightarrow> (a + i) mod INPUT_BUF_SIZE = (a + j) mod INPUT_BUF_SIZE \<Longrightarrow> i = j"
    by (metis nat_le_linear)
qed

lemma holds_used: "holds c ready line \<Longrightarrow> unat (c_e c - c_r c) = length ready + length line"
proof -
  assume h: "holds c ready line"
  then have "c_e c - c_r c = of_nat (length ready + length line)" by (simp add: holds_def)
  moreover have "length ready + length line < 2 ^ 64" using h by (simp add: holds_def INPUT_BUF_SIZE_def)
  ultimately show ?thesis by (simp add: unat_of_nat del: of_nat_add)
qed

lemma holds_cong:
  "holds c ready line \<Longrightarrow> c_buf d = c_buf c \<Longrightarrow> c_r d = c_r c \<Longrightarrow> c_w d = c_w c \<Longrightarrow> c_e d = c_e c \<Longrightarrow> c_line d = c_line c \<Longrightarrow> holds d ready line"
  by (simp add: holds_def at_def)

text \<open>A byte more in the line.\<close>

lemma holds_store:
  assumes "holds c ready line" "length ready + length line < INPUT_BUF_SIZE"
  shows "holds (store_byte b c) ready (line @ [b])"
proof -
  let ?k = "unat (c_e c) mod INPUT_BUF_SIZE" and ?n = "length ready + length line"
  have e: "c_e c = c_r c + of_nat ?n" using assms(1) by (simp add: holds_def)
  have len: "length (c_buf c) = INPUT_BUF_SIZE" using assms(1) by (simp add: holds_def)
  have "at (store_byte b c) (c_r c + of_nat i) = (ready @ line @ [b]) ! i" if "i < Suc ?n" for i
  proof (cases "i = ?n")
    case True
    have "?k < INPUT_BUF_SIZE" by (simp add: INPUT_BUF_SIZE_def)
    moreover have "c_r c + of_nat i = c_e c" using e True by simp
    ultimately show ?thesis using True len by (simp add: at_def store_byte_def emit_def nth_append)
  next
    case False
    then have i: "i < ?n" using that by simp
    have "unat (c_r c + of_nat i) mod INPUT_BUF_SIZE \<noteq> ?k"
      unfolding e slot_mod using slot_inj [of i ?n "unat (c_r c)"] i assms(2) by auto
    then have "at (store_byte b c) (c_r c + of_nat i) = at c (c_r c + of_nat i)" by (simp add: at_def store_byte_def emit_def)
    also have "\<dots> = (ready @ line) ! i" using assms(1) i by (simp add: holds_def)
    finally show ?thesis using i by (auto simp: nth_append)
  qed
  then show ?thesis using assms by (simp add: holds_def store_byte_def emit_def)
qed

lemma holds_erase:
  assumes "holds c ready (line @ [b])"
  shows "holds (erase_one c) ready line"
proof -
  have "at c (c_r c + of_nat i) = (ready @ line) ! i" if "i < length ready + length line" for i
  proof -
    have "at c (c_r c + of_nat i) = (ready @ line @ [b]) ! i" using assms that by (simp add: holds_def)
    then show ?thesis using that by (auto simp: nth_append)
  qed
  then show ?thesis using assms by (simp add: holds_def erase_one_def emit_def at_def)
qed

lemma holds_line_end: "holds c ready line \<Longrightarrow> (c_e c = c_line c) = (line = [])"
proof -
  assume h: "holds c ready line"
  have "length line < 2 ^ 64" using h by (simp add: holds_def INPUT_BUF_SIZE_def)
  then have "(of_nat (length line) = (0 :: u64)) = (line = [])" by (auto simp: word_of_nat_eq_0_iff dest: dvd_imp_le)
  with h show ?thesis by (simp add: holds_def)
qed

lemma holds_clear: "holds c ready line \<Longrightarrow> holds (clear_line c) ready []"
proof (induction line arbitrary: c rule: rev_induct)
  case Nil
  then have "clear_line c = c" using holds_line_end [OF Nil] by (simp add: clear_line.simps)
  with Nil show ?case by simp
next
  case (snoc b line)
  then have "clear_line c = clear_line (erase_one c)" using holds_line_end [OF snoc.prems] by (subst clear_line.simps) simp
  with snoc.IH [OF holds_erase [OF snoc.prems]] show ?case by simp
qed

section \<open>Editing\<close>

text \<open>Bytes that belong to a line or edit it.\<close>

definition plain :: "byte \<Rightarrow> bool" where
  "plain b \<longleftrightarrow> b \<noteq> 0 \<and> b \<noteq> 3 \<and> b \<noteq> 4 \<and> b \<noteq> 10 \<and> b \<noteq> 13 \<and> b \<noteq> 16 \<and> b \<noteq> 26 \<and> b \<noteq> 27"

definition edit_line :: "byte \<Rightarrow> byte list \<Rightarrow> byte list" where
  "edit_line b line = (if b = 21 then [] else if b = 0x7f then butlast line else line @ [b])"

lemma history_frame:
  "c_buf (push_history c) = c_buf c" "c_r (push_history c) = c_r c" "c_w (push_history c) = c_w c" "c_e (push_history c) = c_e c"
  "c_line (push_history c) = c_line c" "c_esc (push_history c) = c_esc c"
  by (simp_all add: push_history_def Let_def)

lemma erase_esc [simp]: "c_esc (erase_one c) = c_esc c"
  by (simp add: erase_one_def emit_def)

lemma clear_esc [simp]: "c_esc (clear_line c) = c_esc c"
proof (induction c rule: clear_line.induct)
  case (1 c)
  then show ?case by (subst clear_line.simps) simp
qed

lemma ctrl_values: "ctrl 67 = 3" "ctrl 90 = 26" "ctrl 80 = 16" "ctrl 85 = 21" "ctrl 68 = 4" "ctrl 72 = 8" "or (ctrl 72) 0x7f = 0x7f"
  by (simp_all add: ctrl_def)

lemma edit_step:
  assumes "holds c ready line" "c_esc c = 0" "plain b" "length ready + length line < 127"
  shows "holds (cons_intr cur b c) ready (edit_line b line) \<and> c_esc (cons_intr cur b c) = 0"
proof -
  have esc: "handle_escape b c = (False, c)" using assms(2,3) by (simp add: handle_escape_def plain_def)
  consider "b = 21" | "b = 0x7f" | "b \<noteq> 21" "b \<noteq> 0x7f" by blast
  then show ?thesis
  proof cases
    case 1
    have "holds ((clear_line c)\<lparr>c_hcur := None\<rparr>) ready []" by (rule holds_cong [OF holds_clear [OF assms(1)]]) simp_all
    with assms(2) show ?thesis unfolding cons_intr_def esc by (simp add: 1 ctrl_values edit_line_def)
  next
    case 2
    have "holds (if c_e c \<noteq> c_line c then erase_one c else c) ready (butlast line)"
      using holds_line_end [OF assms(1)] holds_erase assms(1) by (cases line rule: rev_cases) auto
    then have "holds ((if c_e c \<noteq> c_line c then erase_one c else c)\<lparr>c_hcur := None\<rparr>) ready (butlast line)" by (rule holds_cong) simp_all
    with assms(2) show ?thesis unfolding cons_intr_def esc by (simp add: 2 ctrl_values edit_line_def)
  next
    case 3
    let ?c = "(store_byte b c)\<lparr>c_hcur := None\<rparr>"
    have "holds (store_byte b c) ready (line @ [b])" using assms by (intro holds_store) (simp_all add: INPUT_BUF_SIZE_def)
    then have h: "holds ?c ready (line @ [b])" by (rule holds_cong) simp_all
    have "unat (c_e ?c - c_r ?c) \<noteq> INPUT_BUF_SIZE" using holds_used [OF h] assms(4) by (simp add: INPUT_BUF_SIZE_def)
    moreover have "unat (c_e c - c_r c) < INPUT_BUF_SIZE" using holds_used [OF assms(1)] assms(4) by (simp add: INPUT_BUF_SIZE_def)
    ultimately have "input_byte b c = ?c" using assms(3) by (simp add: input_byte_def plain_def ctrl_values Let_def)
    then have "cons_intr cur b c = ?c" using 3 assms(3) by (simp add: cons_intr_def esc ctrl_values plain_def)
    moreover have "c_esc ?c = 0" using assms(2) by (simp add: store_byte_def emit_def)
    ultimately show ?thesis using h 3 by (simp add: edit_line_def)
  qed
qed

lemma edit_run:
  assumes "holds c ready line" "c_esc c = 0" "\<forall>b \<in> set bs. plain b" "length ready + length line + length bs < 128"
  shows "holds (fold (cons_intr cur) bs c) ready (fold edit_line bs line) \<and> c_esc (fold (cons_intr cur) bs c) = 0"
  using assms
proof (induction bs arbitrary: c line)
  case (Cons b bs)
  have "length (edit_line b line) \<le> length line + 1" by (auto simp: edit_line_def)
  then show ?case using Cons.IH [of "cons_intr cur b c" "edit_line b line"] edit_step [of c ready line b cur] Cons.prems by simp
qed simp

text \<open>The end of the line hands it to the readers.\<close>

lemma enter_step:
  assumes "holds c ready line" "c_esc c = 0" "length ready + length line < 128"
  shows "holds (cons_intr cur 13 c) (ready @ line @ [10]) [] \<and> c_esc (cons_intr cur 13 c) = 0"
proof -
  let ?c1 = "(store_byte 10 c)\<lparr>c_hcur := None\<rparr>" 
  let ?c2 = "(push_history ?c1)\<lparr>c_line := c_e ?c1\<rparr>"
  have esc: "handle_escape 13 c = (False, c)" using assms(2) by (simp add: handle_escape_def)
  have h: "holds (store_byte 10 c) ready (line @ [10])" using assms by (intro holds_store) (simp_all add: INPUT_BUF_SIZE_def)
  have "unat (c_e c - c_r c) < INPUT_BUF_SIZE" using holds_used [OF assms(1)] assms(3) by (simp add: INPUT_BUF_SIZE_def)
  then have i: "input_byte 13 c = emit Wakeup (?c2\<lparr>c_w := c_e ?c2\<rparr>)" by (simp add: input_byte_def Let_def)
  have "cons_intr cur 13 c = emit Wakeup (?c2\<lparr>c_w := c_e ?c2\<rparr>)" unfolding cons_intr_def esc by (simp add: ctrl_values i)
  moreover have "holds (emit Wakeup (?c2\<lparr>c_w := c_e ?c2\<rparr>)) (ready @ line @ [10]) []"
    using h by (simp add: holds_def emit_def history_frame at_def)
  moreover have "c_esc (emit Wakeup (?c2\<lparr>c_w := c_e ?c2\<rparr>)) = 0" using assms(2) by (simp add: emit_def history_frame store_byte_def)
  ultimately show ?thesis by simp
qed

section \<open>Reading\<close>

abbreviation collect :: "nat \<Rightarrow> byte \<Rightarrow> byte list \<Rightarrow> unit result \<times> byte list" where
  "collect dst b m \<equiv> (Ok (), m @ [b])"

lemma holds_pop:
  assumes "holds c (b # ready) line"
  shows "at c (c_r c) = b" "c_r c \<noteq> c_w c" "holds (c\<lparr>c_r := c_r c + 1\<rparr>) ready line"
proof -
  have at: "at c (c_r c + of_nat i) = (b # ready @ line) ! i" if "i < Suc (length ready + length line)" for i
    using assms that by (simp add: holds_def)
  show "at c (c_r c) = b" using at [of 0] by simp
  have "Suc (length ready) < 2 ^ 64" using assms by (simp add: holds_def INPUT_BUF_SIZE_def)
  then have "of_nat (Suc (length ready)) \<noteq> (0 :: u64)" unfolding word_of_nat_eq_0_iff by (auto dest: dvd_imp_le)
  then show "c_r c \<noteq> c_w c" using assms by (simp add: holds_def del: of_nat_Suc)
  have "at c (c_r c + 1 + of_nat i) = (ready @ line) ! i" if "i < length ready + length line" for i
    using at [of "Suc i"] that by (simp add: add.assoc)
  then show "holds (c\<lparr>c_r := c_r c + 1\<rparr>) ready line" using assms by (simp add: holds_def at_def add.assoc)
qed

lemma read_line:
  assumes "holds c (ts @ 10 # ready) line" "10 \<notin> set ts" "4 \<notin> set ts" "length ts < n" "n \<le> target"
  shows "\<exists>c'. cons_read collect killed target dst n (c, m) = (RRet (Ok (target - n + length ts + 1)), c', m @ ts @ [10]) \<and> holds c' ready line \<and> c_esc c' = c_esc c"
  using assms
proof (induction ts arbitrary: c dst n m)
  case Nil
  obtain k where n: "n = Suc k" using Nil.prems(4) by (cases n) auto
  have h: "holds c (10 # ready) line" using Nil.prems(1) by simp
  have "target - k = Suc (target - Suc k)" using Nil.prems(5) n by simp
  with holds_pop [OF h] show ?case by (simp add: n Let_def ctrl_values)
next
  case (Cons b ts)
  obtain k where n: "n = Suc k" using Cons.prems(4) by (cases n) auto
  have h: "holds c (b # ts @ 10 # ready) line" using Cons.prems(1) by simp
  note p = holds_pop [OF h]
  have "\<exists>c'. cons_read collect killed target (dst + 1) k (c\<lparr>c_r := c_r c + 1\<rparr>, m @ [b]) = (RRet (Ok (target - k + length ts + 1)), c', (m @ [b]) @ ts @ [10]) \<and> holds c' ready line \<and>
      c_esc c' = c_esc (c\<lparr>c_r := c_r c + 1\<rparr>)"
    using Cons.prems n by (intro Cons.IH p(3)) simp_all
  moreover have "target - k = Suc (target - Suc k)" using Cons.prems(5) n by simp
  ultimately show ?case using p(1,2) Cons.prems(2,3) by (auto simp: n Let_def ctrl_values)
qed



section \<open>Erasing what has been read\<close>

text \<open>Readers have everything, and the place for input is behind them, so far that no erasing reaches it.\<close>

definition stuck :: "cons \<Rightarrow> bool" where
  "stuck c \<longleftrightarrow> c_w c = c_r c \<and> INPUT_BUF_SIZE + unat (c_e c - c_line c) \<le> unat (c_e c - c_r c)"

lemma stuck_cong: "stuck c \<Longrightarrow> c_r d = c_r c \<Longrightarrow> c_w d = c_w c \<Longrightarrow> c_e d = c_e c \<Longrightarrow> c_line d = c_line c \<Longrightarrow> stuck d"
  by (simp add: stuck_def)

lemma unat_less_one: "x \<noteq> (0 :: u64) \<Longrightarrow> unat (x - 1) = unat x - 1"
  by (rule unat_minus_one)

lemma stuck_erase: "stuck c \<Longrightarrow> c_e c \<noteq> c_line c \<Longrightarrow> stuck (erase_one c)"
proof -
  assume s: "stuck c" and e: "c_e c \<noteq> c_line c"
  have a: "c_e c - 1 - c_line c = c_e c - c_line c - 1" "c_e c - 1 - c_r c = c_e c - c_r c - 1" by (simp_all add: algebra_simps)
  have "c_e c - c_line c \<noteq> 0" using e by simp
  then have u1: "unat (c_e c - c_line c - 1) = unat (c_e c - c_line c) - 1" "0 < unat (c_e c - c_line c)"
    using unat_less_one unsigned_eq_0_iff [where 'a = nat, of "c_e c - c_line c"] by auto
  have "c_e c - c_r c \<noteq> 0" using s by (auto simp: stuck_def INPUT_BUF_SIZE_def)
  then have u2: "unat (c_e c - c_r c - 1) = unat (c_e c - c_r c) - 1" by (rule unat_less_one)
  have f: "c_r (erase_one c) = c_r c" "c_w (erase_one c) = c_w c" "c_e (erase_one c) = c_e c - 1" "c_line (erase_one c) = c_line c" by (simp_all add: erase_one_def emit_def)
  show ?thesis using s u1 u2 unfolding stuck_def f a by linarith
qed

lemma stuck_clear: "stuck c \<Longrightarrow> stuck (clear_line c)"
proof (induction c rule: clear_line.induct)
  case (1 c)
  then show ?case by (subst clear_line.simps) (simp add: stuck_erase)
qed

lemma stuck_insert: "stuck c \<Longrightarrow> insert_byte b c = c"
  by (simp add: stuck_def insert_byte_def)

lemma stuck_inserts: "stuck c \<Longrightarrow> fold (\<lambda>i c. insert_byte (f i c) c) xs c = c"
  by (induction xs arbitrary: c) (simp_all add: stuck_insert)

lemma stuck_load: "stuck c \<Longrightarrow> stuck (load_history k c)"
  using stuck_clear [of c] stuck_inserts [where f = "\<lambda>i c. c_hist c ! r ! i" for r] by (simp add: load_history_def Let_def)

lemma stuck_up: "stuck c \<Longrightarrow> stuck (history_up c)"
  by (auto simp: history_up_def Let_def intro!: stuck_load intro: stuck_cong split: option.split)

lemma stuck_down: "stuck c \<Longrightarrow> stuck (history_down c)"
proof -
  assume s: "stuck c"
  have "stuck (clear_line (c\<lparr>c_hcur := None\<rparr>))" by (rule stuck_clear) (rule stuck_cong [OF s], simp_all)
  moreover have "stuck (load_history k (c\<lparr>c_hcur := x\<rparr>))" for k x by (rule stuck_load) (rule stuck_cong [OF s], simp_all)
  ultimately show ?thesis using s stuck_inserts [where f = "\<lambda>i c. c_saved c ! i"] by (simp add: history_down_def split: option.split)
qed

lemma stuck_intr: "stuck c \<Longrightarrow> stuck (cons_intr cur b c)"
proof -
  assume s: "stuck c"
  have e: "stuck (c\<lparr>c_esc := n\<rparr>)" for n by (rule stuck_cong [OF s]) simp_all
  have h: "stuck (snd (handle_escape b c))" using s e stuck_up [OF e] stuck_down [OF e] by (simp add: handle_escape_def Let_def)
  obtain y c1 where hc: "handle_escape b c = (y, c1)" by (rule prod.exhaust)
  with h have s1: "stuck c1" by simp
  have "input_byte b c1 = c1" using s1 by (simp add: input_byte_def stuck_def)
  moreover have "stuck (emit v c1)" for v by (rule stuck_cong [OF s1]) (simp_all add: emit_def)
  moreover have "stuck ((clear_line c1)\<lparr>c_hcur := None\<rparr>)" by (rule stuck_cong [OF stuck_clear [OF s1]]) simp_all
  moreover have "stuck ((if c_e c1 \<noteq> c_line c1 then erase_one c1 else c1)\<lparr>c_hcur := None\<rparr>)"
    by (rule stuck_cong [where c = "if c_e c1 \<noteq> c_line c1 then erase_one c1 else c1"]) (use s1 stuck_erase in simp_all)
  ultimately show ?thesis using s1 by (auto simp: cons_intr_def hc signal_fg_def Let_def split: bool.split)
qed

lemma stuck_run: "stuck c \<Longrightarrow> stuck (fold (cons_intr cur) bs c)"
  by (induction bs arbitrary: c) (simp_all add: stuck_intr)

text \<open>
  A console can be left without input for ever: when readers have taken everything but the last bytes
  were handed over by control-d or a full buffer, so that the line has not ended, one press of the erase
  key moves the place for input behind the readers, and after it no sequence of typed bytes, not even the
  enter key, gives a reader anything.
\<close>

lemma erase_disables_console:
  assumes "c_r c = c_w c" "c_e c = c_w c" "c_line c \<noteq> c_e c" "unat (c_e c - c_line c) \<le> INPUT_BUF_SIZE" "c_esc c = 0"
  shows "\<not> cons_readable (fold (cons_intr cur) bs (cons_intr cur 0x7f c))"
proof -
  have f: "c_r (erase_one c) = c_r c" "c_w (erase_one c) = c_w c" "c_e (erase_one c) = c_e c - 1" "c_line (erase_one c) = c_line c" by (simp_all add: erase_one_def emit_def)
  have a: "c_e c - 1 - c_line c = c_e c - c_line c - 1" "c_e c - 1 - c_r c = -1" using assms(1,2) by (simp_all add: algebra_simps)
  have "c_e c - c_line c \<noteq> 0" using assms(3) by simp
  then have "unat (c_e c - c_line c - 1) = unat (c_e c - c_line c) - 1" by (rule unat_less_one)
  moreover have "unat (-1 :: u64) = 2 ^ 64 - 1" by (simp add: unsigned_minus_1_eq_mask mask_eq_exp_minus_1)
  ultimately have "stuck (erase_one c)" using assms(1,4) unfolding stuck_def f a by (simp add: INPUT_BUF_SIZE_def)
  then have "stuck ((erase_one c)\<lparr>c_hcur := None\<rparr>)" by (rule stuck_cong) simp_all
  moreover have "cons_intr cur 0x7f c = (erase_one c)\<lparr>c_hcur := None\<rparr>"
    using assms(3,5) by (simp add: cons_intr_def handle_escape_def ctrl_values)
  ultimately have "stuck (cons_intr cur 0x7f c)" by simp
  then have "stuck (fold (cons_intr cur) bs (cons_intr cur 0x7f c))" by (rule stuck_run)
  then show ?thesis by (simp add: stuck_def cons_readable_def)
qed

text \<open>Two bytes and control-d, typed and read: the second read returns nothing, which is the end of the file.\<close>

definition after_eof :: cons where
  "after_eof =
     (let read = \<lambda>c. fst (snd (cons_read collect False 3 0 3 (c, [])))
      in read (read (fold (cons_intr None) [97, 98, 4] cons_new)))"

lemma eof_typed:
  "fold (cons_intr None) [97, 98, 4] cons_new =
     cons_new\<lparr>c_buf := (replicate 128 0)[0 := 97, 1 := 98, 2 := 4], c_w := 3, c_e := 3, c_out := [Echo 97, Echo 98, Echo 4, Wakeup]\<rparr>"
  by (simp add: cons_intr_def handle_escape_def input_byte_def store_byte_def emit_def ctrl_values INPUT_BUF_SIZE_def cons_new_def)

lemma after_eof_eval:
  "after_eof = cons_new\<lparr>c_buf := (replicate 128 0)[0 := 97, 1 := 98, 2 := 4], c_r := 3, c_w := 3, c_e := 3, c_out := [Echo 97, Echo 98, Echo 4, Wakeup]\<rparr>"
  unfolding after_eof_def eof_typed Let_def numeral_3_eq_3
  by (simp add: at_def ctrl_values INPUT_BUF_SIZE_def cons_new_def)

lemma erase_disables_console_example: "\<not> cons_readable (fold (cons_intr None) [104, 105, 13] (cons_intr None 0x7f after_eof))"
  by (rule erase_disables_console) (simp_all add: after_eof_eval cons_new_def INPUT_BUF_SIZE_def)

end
