(* ===== verification/Sh.thy ===== *)
theory Sh
  imports Main
begin

text \<open>
  The shell (\<^verbatim>\<open>crates/user/src/bin/sh.rs\<close>): the tokenizer, the parser of command lines and of the
  \<^verbatim>\<open>for\<close> loop, and the execution of a line. Characters are code points. Where the source moves an index
  over the tokens, the functions here return the remaining tokens. An error is named after its message.
\<close>

section \<open>Characters\<close>

type_synonym rchar = nat
type_synonym rstring = "rchar list"

definition lit :: "string \<Rightarrow> rstring" where
  "lit s = map of_char s"

text \<open>The characters with the property White\_Space.\<close>

definition is_whitespace :: "rchar \<Rightarrow> bool" where
  "is_whitespace c \<longleftrightarrow> 9 \<le> c \<and> c \<le> 13 \<or> c = 32 \<or> c = 0x85 \<or> c = 0xA0 \<or> c = 0x1680 \<or> 0x2000 \<le> c \<and> c \<le> 0x200A \<or>
     c = 0x2028 \<or> c = 0x2029 \<or> c = 0x202F \<or> c = 0x205F \<or> c = 0x3000"

abbreviation SQ :: rchar where "SQ \<equiv> 39"
abbreviation DQ :: rchar where "DQ \<equiv> 34"
abbreviation BSLASH :: rchar where "BSLASH \<equiv> 92"
abbreviation SEMI :: rchar where "SEMI \<equiv> 59"
abbreviation BAR :: rchar where "BAR \<equiv> 124"
abbreviation AMP :: rchar where "AMP \<equiv> 38"
abbreviation GT :: rchar where "GT \<equiv> 62"
abbreviation LT :: rchar where "LT \<equiv> 60"

section \<open>Tokens\<close>

datatype op = Semi | Pipe | AndAnd | OrOr | Amp | RedirOut | RedirOutAppend | RedirIn

datatype token = Word rstring | Op op

datatype sh_error = UnterminatedSingleQuote | UnterminatedDoubleQuote | ExpectedInputFile | MultipleInputRedirections
  | ExpectedOutputFile | MultipleOutputRedirections | EmptyCommand | UnexpectedOperator | MissingOperator
  | ForMissingDo | ForMissingDone | ForBadOrder | ForEmptyBody | ForMissingVar | ForMissingIn | ForExpectedIn
  | ForMissingItems

datatype mode = Normal | Single | Double

definition apply_escape :: "rchar \<Rightarrow> rchar" where
  "apply_escape c = (if c = 110 then 10 else if c = 116 then 9 else if c = 114 then 13 else c)"

text \<open>The word collected so far, if there is one.\<close>

definition flush_word :: "rstring \<Rightarrow> token list \<Rightarrow> token list" where
  "flush_word buf tokens = (if buf \<noteq> [] then tokens @ [Word buf] else tokens)"

fun tokenize_loop :: "mode \<Rightarrow> rstring \<Rightarrow> token list \<Rightarrow> rstring \<Rightarrow> sh_error + token list" where
  "tokenize_loop Normal buf tokens [] = Inr (flush_word buf tokens)"
| "tokenize_loop Single buf tokens [] = Inl UnterminatedSingleQuote"
| "tokenize_loop Double buf tokens [] = Inl UnterminatedDoubleQuote"
| "tokenize_loop Normal buf tokens (ch # cs) =
     (if is_whitespace ch then tokenize_loop Normal [] (flush_word buf tokens) cs
      else if ch = SQ then tokenize_loop Single buf tokens cs
      else if ch = DQ then tokenize_loop Double buf tokens cs
      else if ch = BSLASH then
        (case cs of
           next # cs' \<Rightarrow> tokenize_loop Normal (buf @ [apply_escape next]) tokens cs'
         | [] \<Rightarrow> tokenize_loop Normal (buf @ [BSLASH]) tokens [])
      else if ch = SEMI then tokenize_loop Normal [] (flush_word buf tokens @ [Op Semi]) cs
      else if ch = BAR then
        (case cs of
           next # cs' \<Rightarrow>
             (if next = BAR then tokenize_loop Normal [] (flush_word buf tokens @ [Op OrOr]) cs'
              else tokenize_loop Normal [] (flush_word buf tokens @ [Op Pipe]) cs)
         | [] \<Rightarrow> tokenize_loop Normal [] (flush_word buf tokens @ [Op Pipe]) [])
      else if ch = AMP then
        (case cs of
           next # cs' \<Rightarrow>
             (if next = AMP then tokenize_loop Normal [] (flush_word buf tokens @ [Op AndAnd]) cs'
              else tokenize_loop Normal [] (flush_word buf tokens @ [Op Amp]) cs)
         | [] \<Rightarrow> tokenize_loop Normal [] (flush_word buf tokens @ [Op Amp]) [])
      else if ch = GT then
        (case cs of
           next # cs' \<Rightarrow>
             (if next = GT then tokenize_loop Normal [] (flush_word buf tokens @ [Op RedirOutAppend]) cs'
              else tokenize_loop Normal [] (flush_word buf tokens @ [Op RedirOut]) cs)
         | [] \<Rightarrow> tokenize_loop Normal [] (flush_word buf tokens @ [Op RedirOut]) [])
      else if ch = LT then tokenize_loop Normal [] (flush_word buf tokens @ [Op RedirIn]) cs
      else tokenize_loop Normal (buf @ [ch]) tokens cs)"
| "tokenize_loop Single buf tokens (ch # cs) =
     (if ch = SQ then tokenize_loop Normal buf tokens cs else tokenize_loop Single (buf @ [ch]) tokens cs)"
| "tokenize_loop Double buf tokens (ch # cs) =
     (if ch = DQ then tokenize_loop Normal buf tokens cs
      else if ch = BSLASH then
        (case cs of
           next # cs' \<Rightarrow> tokenize_loop Double (buf @ [apply_escape next]) tokens cs'
         | [] \<Rightarrow> tokenize_loop Double (buf @ [BSLASH]) tokens [])
      else tokenize_loop Double (buf @ [ch]) tokens cs)"

definition tokenize :: "rstring \<Rightarrow> sh_error + token list" where
  "tokenize input = tokenize_loop Normal [] [] input"

section \<open>Commands\<close>

record output_redir =
  or_path :: rstring
  or_append :: bool

record redir =
  rd_input :: "rstring option"
  rd_output :: "output_redir option"

record simple_cmd =
  argv :: "rstring list"
  redir :: redir

record pipeline =
  cmds :: "simple_cmd list"
  background :: bool

datatype cond_op = And | Or

record cond_item =
  ci_op :: "cond_op option"
  ci_pipeline :: pipeline

record for_loop =
  fl_var :: rstring
  fl_items :: "rstring list"
  fl_body :: rstring

definition redir_default :: redir where
  "redir_default = \<lparr>rd_input = None, rd_output = None\<rparr>"

definition finish_simple :: "rstring list \<Rightarrow> redir \<Rightarrow> token list \<Rightarrow> sh_error + simple_cmd \<times> token list" where
  "finish_simple av rd ts = (if av = [] then Inl EmptyCommand else Inr (\<lparr>argv = av, redir = rd\<rparr>, ts))"

fun parse_simple_loop :: "rstring list \<Rightarrow> redir \<Rightarrow> token list \<Rightarrow> sh_error + simple_cmd \<times> token list" where
  "parse_simple_loop av rd [] = finish_simple av rd []"
| "parse_simple_loop av rd (Word w # ts) = parse_simple_loop (av @ [w]) rd ts"
| "parse_simple_loop av rd (Op o' # ts) =
     (if o' = RedirIn then
        (case ts of
           Word path # ts' \<Rightarrow>
             (if rd_input rd \<noteq> None then Inl MultipleInputRedirections
              else parse_simple_loop av (rd\<lparr>rd_input := Some path\<rparr>) ts')
         | _ \<Rightarrow> Inl ExpectedInputFile)
      else if o' = RedirOut \<or> o' = RedirOutAppend then
        (case ts of
           Word path # ts' \<Rightarrow>
             (if rd_output rd \<noteq> None then Inl MultipleOutputRedirections
              else parse_simple_loop av (rd\<lparr>rd_output := Some \<lparr>or_path = path, or_append = (o' = RedirOutAppend)\<rparr>\<rparr>) ts')
         | _ \<Rightarrow> Inl ExpectedOutputFile)
      else finish_simple av rd (Op o' # ts))"

definition parse_simple :: "token list \<Rightarrow> sh_error + simple_cmd \<times> token list" where
  "parse_simple ts = parse_simple_loop [] redir_default ts"

lemma parse_simple_loop_shorter:
  "parse_simple_loop av rd ts = Inr (c, rest) \<Longrightarrow> length rest \<le> length ts \<and> (av = [] \<longrightarrow> length rest < length ts)"
proof (induction av rd ts rule: parse_simple_loop.induct)
  case (1 av rd)
  then show ?case by (auto simp: finish_simple_def split: if_splits)
next
  case (2 av rd w ts)
  then show ?case by fastforce
next
  case (3 av rd o' ts)
  then show ?case
    by (cases ts rule: list.exhaust; auto simp: finish_simple_def split: if_splits token.splits; fastforce)
qed

lemma parse_simple_shorter: "parse_simple ts = Inr (c, rest) \<Longrightarrow> length rest < length ts"
  using parse_simple_loop_shorter by (simp add: parse_simple_def)

function parse_pipeline :: "simple_cmd list \<Rightarrow> token list \<Rightarrow> sh_error + pipeline \<times> token list" where
  "parse_pipeline cs ts =
     (case parse_simple ts of
        Inl e \<Rightarrow> Inl e
      | Inr (cmd, rest) \<Rightarrow>
          (if rest \<noteq> [] \<and> hd rest = Op Pipe then parse_pipeline (cs @ [cmd]) (tl rest)
           else Inr (\<lparr>cmds = cs @ [cmd], background = False\<rparr>, rest)))"
  by pat_completeness auto
termination
  by (relation "measure (\<lambda>(cs, ts). length ts)") (auto dest!: parse_simple_shorter)

declare parse_pipeline.simps [simp del]

lemma parse_pipeline_shorter: "parse_pipeline cs ts = Inr (p, rest) \<Longrightarrow> length rest < length ts"
proof (induction cs ts rule: parse_pipeline.induct)
  case (1 cs ts)
  from 1(2) obtain cmd r where r: "parse_simple ts = Inr (cmd, r)"
    by (auto simp: parse_pipeline.simps [of cs ts] split: sum.splits)
  have less: "length r < length ts" using r by (rule parse_simple_shorter)
  show ?case
  proof (cases "r \<noteq> [] \<and> hd r = Op Pipe")
    case True
    then have "parse_pipeline (cs @ [cmd]) (tl r) = Inr (p, rest)" using 1(2) r by (simp add: parse_pipeline.simps [of cs ts])
    with 1(1) [OF r refl True] less show ?thesis by simp
  next
    case False
    with 1(2) r less show ?thesis by (auto simp: parse_pipeline.simps [of cs ts])
  qed
qed

function parse_line_loop ::
  "cond_item list list \<Rightarrow> cond_item list \<Rightarrow> cond_op option \<Rightarrow> token list \<Rightarrow> sh_error + cond_item list list"
where
  "parse_line_loop sequences chain pending ts =
     (if ts = [] then Inr (if chain \<noteq> [] then sequences @ [chain] else sequences)
      else
        (case parse_pipeline [] ts of
           Inl e \<Rightarrow> Inl e
         | Inr (p, rest) \<Rightarrow>
             (let bg = (rest \<noteq> [] \<and> hd rest = Op Amp);
                  chain' = chain @ [\<lparr>ci_op = pending, ci_pipeline = p\<lparr>background := bg\<rparr>\<rparr>]
              in if bg then parse_line_loop (sequences @ [chain']) [] None (tl rest)
                 else if rest = [] then Inr (sequences @ [chain'])
                 else
                   (case hd rest of
                      Op o' \<Rightarrow>
                        (if o' = Semi then parse_line_loop (sequences @ [chain']) [] None (tl rest)
                         else if o' = AndAnd then parse_line_loop sequences chain' (Some And) (tl rest)
                         else if o' = OrOr then parse_line_loop sequences chain' (Some Or) (tl rest)
                         else Inl UnexpectedOperator)
                    | Word _ \<Rightarrow> Inl MissingOperator))))"
  by pat_completeness auto
termination
  by (relation "measure (\<lambda>(_, _, _, ts). length ts)") (auto dest!: parse_pipeline_shorter)

declare parse_line_loop.simps [simp del]

definition parse_line :: "token list \<Rightarrow> sh_error + cond_item list list" where
  "parse_line tokens = parse_line_loop [] [] None tokens"

fun join_with :: "rstring \<Rightarrow> rstring list \<Rightarrow> rstring" where
  "join_with sep [] = []"
| "join_with sep [x] = x"
| "join_with sep (x # y # zs) = x @ sep @ join_with sep (y # zs)"

definition pipeline_display :: "pipeline \<Rightarrow> rstring" where
  "pipeline_display p =
     join_with [32, BAR, 32] (map (\<lambda>cmd. join_with [32] (argv cmd)) (cmds p)) @ (if background p then [32, AMP] else [])"

section \<open>The for loop\<close>

definition trim :: "rstring \<Rightarrow> rstring" where
  "trim s = rev (dropWhile is_whitespace (rev (dropWhile is_whitespace s)))"

definition starts_with :: "rstring \<Rightarrow> rstring \<Rightarrow> bool" where
  "starts_with pat s \<longleftrightarrow> take (length pat) s = pat"

fun find_str :: "rstring \<Rightarrow> rstring \<Rightarrow> nat option" where
  "find_str pat [] = (if pat = [] then Some 0 else None)"
| "find_str pat (c # cs) = (if starts_with pat (c # cs) then Some 0 else map_option Suc (find_str pat cs))"

fun rfind_str :: "rstring \<Rightarrow> rstring \<Rightarrow> nat option" where
  "rfind_str pat [] = (if pat = [] then Some 0 else None)"
| "rfind_str pat (c # cs) =
     (case rfind_str pat cs of
        Some i \<Rightarrow> Some (Suc i)
      | None \<Rightarrow> if starts_with pat (c # cs) then Some 0 else None)"

text \<open>The slice \<^verbatim>\<open>s[a..b]\<close>: a panic unless \<^verbatim>\<open>a <= b <= s.len()\<close>.\<close>

definition slice :: "nat \<Rightarrow> nat \<Rightarrow> rstring \<Rightarrow> rstring option" where
  "slice a b s = (if a \<le> b \<and> b \<le> length s then Some (take (b - a) (drop a s)) else None)"

lemma dropWhile_shorter: "dropWhile P s = c # cs \<Longrightarrow> length cs < length s"
  by (metis length_Cons length_dropWhile_le less_eq_Suc_le)

function split_whitespace :: "rstring \<Rightarrow> rstring list" where
  "split_whitespace s =
     (let s' = dropWhile is_whitespace s
      in if s' = [] then [] else
           takeWhile (\<lambda>c. \<not> is_whitespace c) s' # split_whitespace (dropWhile (\<lambda>c. \<not> is_whitespace c) s'))"
  by pat_completeness auto
termination
proof (relation "measure length", goal_cases)
  case 1
  then show ?case by simp
next
  case (2 s s')
  then obtain c cs where s': "s' = c # cs" by (metis neq_Nil_conv)
  have "\<not> is_whitespace c" using 2(1) s' dropWhile_eq_Cons_conv [of is_whitespace s c cs] by simp
  moreover have "length (dropWhile (\<lambda>c. \<not> is_whitespace c) cs) \<le> length cs" by (rule length_dropWhile_le)
  moreover have "length cs < length s" using 2(1) s' dropWhile_shorter by metis
  ultimately show ?case by (simp add: s')
qed

declare split_whitespace.simps [simp del]

definition do_marker :: rstring where "do_marker = lit ''; do ''"
definition done_marker :: rstring where "done_marker = lit ''; done''"

text \<open>The outer option is the panic of a slice, the inner one is the answer that the line is no loop.\<close>

definition parse_for_header :: "rstring \<Rightarrow> rstring \<Rightarrow> sh_error + for_loop option" where
  "parse_for_header header body =
     (case split_whitespace header of
        [] \<Rightarrow> Inl ForMissingVar
      | [_] \<Rightarrow> Inl ForMissingIn
      | var # in_kw # items \<Rightarrow>
          (if in_kw \<noteq> lit ''in'' then Inl ForExpectedIn
           else if items = [] then Inl ForMissingItems
           else Inr (Some \<lparr>fl_var = var, fl_items = items, fl_body = body\<rparr>)))"

definition parse_for_loop :: "rstring \<Rightarrow> (sh_error + for_loop option) option" where
  "parse_for_loop line =
     (let trimmed = trim line
      in if \<not> starts_with (lit ''for '') trimmed then Some (Inr None)
         else
           (case find_str do_marker trimmed of
              None \<Rightarrow> Some (Inl ForMissingDo)
            | Some do_pos \<Rightarrow>
                (case rfind_str done_marker trimmed of
                   None \<Rightarrow> Some (Inl ForMissingDone)
                 | Some done_pos \<Rightarrow>
                     (if done_pos < do_pos then Some (Inl ForBadOrder)
                      else
                        (case slice 4 do_pos trimmed of
                           None \<Rightarrow> None
                         | Some header \<Rightarrow>
                             (case slice (do_pos + length do_marker) done_pos trimmed of
                                None \<Rightarrow> None
                              | Some b \<Rightarrow>
                                  (let body = trim b
                                   in if body = [] then Some (Inl ForEmptyBody)
                                      else Some (parse_for_header header body))))))))"

definition normalize_input :: "rstring \<Rightarrow> rstring" where
  "normalize_input input =
     foldl (\<lambda>out ch. if ch = 8 \<or> ch = 127 then butlast out else if ch < 32 then out else out @ [ch]) [] input"

end
