(* ===== verification/Sh_Parse.thy ===== *)
theory Sh_Parse
  imports Sh
begin

text \<open>
  The grammar of the command lines: printing functions for words, tokens and parsed lines, and that the tokenizer
  and the parser invert them.
\<close>

section \<open>Tokens\<close>

definition quote_char :: "rchar \<Rightarrow> rstring" where
  "quote_char c = (if c = DQ \<or> c = BSLASH then [BSLASH, c] else [c])"

definition quote :: "rstring \<Rightarrow> rstring" where
  "quote w = DQ # concat (map quote_char w) @ [DQ]"

fun op_text :: "op \<Rightarrow> rstring" where
  "op_text Semi = [SEMI]"
| "op_text Pipe = [BAR]"
| "op_text AndAnd = [AMP, AMP]"
| "op_text OrOr = [BAR, BAR]"
| "op_text Amp = [AMP]"
| "op_text RedirOut = [GT]"
| "op_text RedirOutAppend = [GT, GT]"
| "op_text RedirIn = [LT]"

fun token_text :: "token \<Rightarrow> rstring" where
  "token_text (Word w) = quote w"
| "token_text (Op o') = op_text o'"

definition render :: "token list \<Rightarrow> rstring" where
  "render ts = concat (map (\<lambda>t. token_text t @ [32]) ts)"

fun token_ok :: "token \<Rightarrow> bool" where
  "token_ok (Word w) \<longleftrightarrow> w \<noteq> []"
| "token_ok (Op o') \<longleftrightarrow> True"

lemma tokenize_quoted:
  "tokenize_loop Double buf tokens (concat (map quote_char w) @ DQ # cs) = tokenize_loop Normal (buf @ w) tokens cs"
  by (induction w arbitrary: buf) (auto simp: quote_char_def apply_escape_def)

lemma whitespace_marks [simp]:
  "is_whitespace 32" "\<not> is_whitespace DQ" "\<not> is_whitespace SEMI" "\<not> is_whitespace BAR" "\<not> is_whitespace AMP"
  "\<not> is_whitespace GT" "\<not> is_whitespace LT"
  by (simp_all add: is_whitespace_def)

lemma tokenize_token:
  assumes "token_ok t"
  shows "tokenize_loop Normal [] tokens (token_text t @ 32 # cs) = tokenize_loop Normal [] (tokens @ [t]) cs"
proof (cases t)
  case (Word w)
  with assms show ?thesis by (simp add: quote_def tokenize_quoted flush_word_def)
next
  case (Op o')
  then show ?thesis by (cases o') (simp_all add: flush_word_def)
qed

lemma tokenize_render_loop:
  "list_all token_ok ts \<Longrightarrow> tokenize_loop Normal [] tokens (render ts) = Inr (tokens @ ts)"
  by (induction ts arbitrary: tokens) (simp_all add: render_def flush_word_def tokenize_token)

lemma tokenize_render: "list_all token_ok ts \<Longrightarrow> tokenize (render ts) = Inr ts"
  by (simp add: tokenize_def tokenize_render_loop)

section \<open>Lines\<close>

definition simple_tokens :: "simple_cmd \<Rightarrow> token list" where
  "simple_tokens c =
     map Word (argv c) @
     (case rd_input (redir c) of None \<Rightarrow> [] | Some p \<Rightarrow> [Op RedirIn, Word p]) @
     (case rd_output (redir c) of
        None \<Rightarrow> []
      | Some r \<Rightarrow> [Op (if or_append r then RedirOutAppend else RedirOut), Word (or_path r)])"

fun pipe_tokens :: "simple_cmd list \<Rightarrow> token list" where
  "pipe_tokens [] = []"
| "pipe_tokens [c] = simple_tokens c"
| "pipe_tokens (c # d # cs) = simple_tokens c @ Op Pipe # pipe_tokens (d # cs)"

fun cond_tokens :: "cond_op option \<Rightarrow> token list" where
  "cond_tokens None = []"
| "cond_tokens (Some And) = [Op AndAnd]"
| "cond_tokens (Some Or) = [Op OrOr]"

definition item_tokens :: "cond_item \<Rightarrow> token list" where
  "item_tokens i = cond_tokens (ci_op i) @ pipe_tokens (cmds (ci_pipeline i))"

definition chain_tokens :: "cond_item list \<Rightarrow> token list" where
  "chain_tokens ch = concat (map item_tokens ch) @ [Op (if background (ci_pipeline (last ch)) then Amp else Semi)]"

definition line_tokens :: "cond_item list list \<Rightarrow> token list" where
  "line_tokens seqs = concat (map chain_tokens seqs)"

text \<open>The parsed lines: no empty command, pipeline or chain; every item but the first has its operator; only the
  last item of a chain runs in the background.\<close>

definition simple_ok :: "simple_cmd \<Rightarrow> bool" where
  "simple_ok c \<longleftrightarrow> argv c \<noteq> []"

definition item_ok :: "cond_item \<Rightarrow> bool" where
  "item_ok i \<longleftrightarrow> cmds (ci_pipeline i) \<noteq> [] \<and> list_all simple_ok (cmds (ci_pipeline i))"

definition chain_ok :: "cond_item list \<Rightarrow> bool" where
  "chain_ok ch \<longleftrightarrow> ch \<noteq> [] \<and> list_all item_ok ch \<and> ci_op (hd ch) = None \<and> list_all (\<lambda>i. ci_op i \<noteq> None) (tl ch) \<and>
     list_all (\<lambda>i. \<not> background (ci_pipeline i)) (butlast ch)"

definition stops :: "token list \<Rightarrow> bool" where
  "stops ts \<longleftrightarrow> ts = [] \<or> hd ts \<in> Op ` {Semi, Pipe, AndAnd, OrOr, Amp}"

lemma parse_simple_stop: "stops ts \<Longrightarrow> parse_simple_loop av rd ts = finish_simple av rd ts"
  by (cases ts) (auto simp: stops_def)

lemma parse_simple_words: "parse_simple_loop av rd (map Word ws @ ts) = parse_simple_loop (av @ ws) rd ts"
  by (induction ws arbitrary: av) simp_all

lemma parse_simple_tokens:
  assumes "simple_ok c" "stops ts"
  shows "parse_simple (simple_tokens c @ ts) = Inr (c, ts)"
proof -
  obtain av i ou where c: "c = \<lparr>argv = av, redir = \<lparr>rd_input = i, rd_output = ou\<rparr>\<rparr>"
    by (metis (full_types) simple_cmd.surjective redir.surjective old.unit.exhaust)
  have av: "av \<noteq> []" using assms(1) by (simp add: simple_ok_def c)
  show ?thesis
  proof (cases ou)
    case None
    with av assms(2) show ?thesis
      by (cases i) (simp_all add: c parse_simple_def simple_tokens_def parse_simple_words redir_default_def parse_simple_stop finish_simple_def)
  next
    case (Some r)
    with av assms(2) show ?thesis
      by (cases i; cases r)
        (simp_all add: c parse_simple_def simple_tokens_def parse_simple_words redir_default_def parse_simple_stop finish_simple_def)
  qed
qed

lemma parse_pipe_tokens:
  assumes "cs \<noteq> []" "list_all simple_ok cs" "stops ts" "ts = [] \<or> hd ts \<noteq> Op Pipe"
  shows "parse_pipeline ds (pipe_tokens cs @ ts) = Inr (\<lparr>cmds = ds @ cs, background = False\<rparr>, ts)"
  using assms
proof (induction cs arbitrary: ds rule: pipe_tokens.induct)
  case (2 c)
  then show ?case by (auto simp: parse_pipeline.simps [of ds] parse_simple_tokens)
next
  case (3 c d cs)
  have "stops (Op Pipe # pipe_tokens (d # cs) @ ts)" by (simp add: stops_def)
  with 3 show ?case by (simp add: parse_pipeline.simps [of ds] parse_simple_tokens)
qed simp

lemma simple_tokens_start: "simple_ok c \<Longrightarrow> \<exists>w ts. simple_tokens c = Word w # ts"
  by (cases "argv c") (auto simp: simple_tokens_def simple_ok_def)

lemma pipe_tokens_nonempty: "cs \<noteq> [] \<Longrightarrow> list_all simple_ok cs \<Longrightarrow> pipe_tokens cs \<noteq> []"
  by (cases cs rule: pipe_tokens.cases) (auto dest: simple_tokens_start)

text \<open>Reading one item and what follows it.\<close>

lemma parse_item:
  assumes "item_ok i" "stops ts" "ts \<noteq> []" "hd ts \<noteq> Op Pipe"
  shows "parse_line_loop sequences chain pending (pipe_tokens (cmds (ci_pipeline i)) @ ts) =
    (let chain' = chain @ [\<lparr>ci_op = pending, ci_pipeline = \<lparr>cmds = cmds (ci_pipeline i), background = (hd ts = Op Amp)\<rparr>\<rparr>]
     in if hd ts = Op Amp then parse_line_loop (sequences @ [chain']) [] None (tl ts)
        else if hd ts = Op Semi then parse_line_loop (sequences @ [chain']) [] None (tl ts)
        else if hd ts = Op AndAnd then parse_line_loop sequences chain' (Some And) (tl ts)
        else parse_line_loop sequences chain' (Some Or) (tl ts))"
proof -
  have "cmds (ci_pipeline i) \<noteq> []" "list_all simple_ok (cmds (ci_pipeline i))" using assms(1) by (simp_all add: item_ok_def)
  then have "parse_pipeline [] (pipe_tokens (cmds (ci_pipeline i)) @ ts) =
      Inr (\<lparr>cmds = cmds (ci_pipeline i), background = False\<rparr>, ts)" "pipe_tokens (cmds (ci_pipeline i)) \<noteq> []"
    using assms by (simp_all add: parse_pipe_tokens pipe_tokens_nonempty)
  with assms show ?thesis
    by (subst parse_line_loop.simps) (auto simp: Let_def stops_def)
qed

lemma item_parts:
  "b = background (ci_pipeline i) \<Longrightarrow>
   \<lparr>ci_op = ci_op i, ci_pipeline = \<lparr>cmds = cmds (ci_pipeline i), background = b\<rparr>\<rparr> = i"
  by (cases i; cases "ci_pipeline i") simp

lemma parse_chain:
  assumes "list_all item_ok (i # is)" "list_all (\<lambda>j. ci_op j \<noteq> None) is"
    "list_all (\<lambda>j. \<not> background (ci_pipeline j)) (butlast (i # is))"
  shows "parse_line_loop sequences chain (ci_op i)
      (pipe_tokens (cmds (ci_pipeline i)) @ concat (map item_tokens is) @
       Op (if background (ci_pipeline (last (i # is))) then Amp else Semi) # ts) =
    parse_line_loop (sequences @ [chain @ i # is]) [] None ts"
  using assms
proof (induction "is" arbitrary: i chain)
  case Nil
  then show ?case
    using parse_item [of i "Op (if background (ci_pipeline i) then Amp else Semi) # ts" sequences chain "ci_op i"]
    by (cases "background (ci_pipeline i)") (simp_all add: stops_def item_parts)
next
  case (Cons j "is")
  let ?stop = "Op (if background (ci_pipeline (last (j # is))) then Amp else Semi) # ts"
  from Cons.prems(2) obtain c where c: "ci_op j = Some c" by auto
  let ?t = "if c = And then AndAnd else OrOr"
  have j: "item_tokens j = Op ?t # pipe_tokens (cmds (ci_pipeline j))" by (cases c) (simp_all add: item_tokens_def c)
  have i: "\<not> background (ci_pipeline i)" using Cons.prems(3) by simp
  have "parse_line_loop sequences chain (ci_op i)
      (pipe_tokens (cmds (ci_pipeline i)) @ Op ?t # pipe_tokens (cmds (ci_pipeline j)) @ concat (map item_tokens is) @ ?stop) =
    parse_line_loop sequences (chain @ [i]) (ci_op j)
      (pipe_tokens (cmds (ci_pipeline j)) @ concat (map item_tokens is) @ ?stop)"
    using parse_item [of i "Op ?t # pipe_tokens (cmds (ci_pipeline j)) @ concat (map item_tokens is) @ ?stop"
        sequences chain "ci_op i"] Cons.prems(1) i c
    by (cases c) (simp_all add: stops_def item_parts)
  also have "\<dots> = parse_line_loop (sequences @ [chain @ i # j # is]) [] None ts"
    using Cons.IH [of j "chain @ [i]"] Cons.prems by simp
  finally show ?case by (simp add: j)
qed

lemma parse_line_tokens:
  "list_all chain_ok seqs \<Longrightarrow> parse_line_loop sequences [] None (line_tokens seqs) = Inr (sequences @ seqs)"
proof (induction seqs arbitrary: sequences)
  case Nil
  then show ?case by (simp add: line_tokens_def parse_line_loop.simps)
next
  case (Cons ch seqs)
  then obtain i "is" where ch: "ch = i # is" "ci_op i = None" by (cases ch) (auto simp: chain_ok_def)
  have "parse_line_loop sequences [] None (line_tokens (ch # seqs)) = parse_line_loop (sequences @ [ch]) [] None (line_tokens seqs)"
    using parse_chain [of i "is" sequences "[]" "line_tokens seqs"] Cons.prems ch
    by (simp add: line_tokens_def chain_tokens_def item_tokens_def [of i] chain_ok_def)
  with Cons show ?case by simp
qed

section \<open>What the tokenizer and the parser return\<close>

lemma flush_word_ok: "list_all token_ok tokens \<Longrightarrow> list_all token_ok (flush_word buf tokens)"
  by (simp add: flush_word_def)

lemma tokenize_loop_ok:
  "tokenize_loop m buf tokens cs = Inr ts \<Longrightarrow> list_all token_ok tokens \<Longrightarrow> list_all token_ok ts"
proof (induction "length cs" arbitrary: m buf tokens cs rule: less_induct)
  case less
  note IH = less.hyps and flush = flush_word_ok [OF less.prems(2)]
  show ?case
  proof (cases cs)
    case Nil
    with less.prems(1) flush show ?thesis by (cases m) auto
  next
    case (Cons ch cs')
    have step: "tokenize_loop m' buf' tokens' cs' = Inr ts \<Longrightarrow> list_all token_ok tokens' \<Longrightarrow> list_all token_ok ts"
      for m' buf' tokens' using IH [of cs'] Cons by simp
    have step2: "tokenize_loop m' buf' tokens' (tl cs') = Inr ts \<Longrightarrow> list_all token_ok tokens' \<Longrightarrow> list_all token_ok ts"
      for m' buf' tokens' using IH [of "tl cs'"] Cons by simp
    note eq = less.prems(1) [unfolded Cons]
    show ?thesis
    proof (cases "cs' = []")
      case True
      show ?thesis
        using eq less.prems(2) unfolding True
        by (cases m) (auto simp: flush_word_ok split: if_split_asm)
    next
      case False
      then have cs': "cs' = hd cs' # tl cs'" by simp
      have list: "(case cs' of [] \<Rightarrow> a | x # xs \<Rightarrow> f x xs) = f (hd cs') (tl cs')" for a :: "sh_error + token list" and f
        by (subst cs') simp
      show ?thesis
      proof (cases m)
        case Normal
        show ?thesis using eq [unfolded Normal tokenize_loop.simps(4) list] flush less.prems(2)
          by (auto split: if_split_asm elim: step step2)
      next
        case Single
        show ?thesis using eq [unfolded Single tokenize_loop.simps(5)] less.prems(2)
          by (auto split: if_split_asm elim: step)
      next
        case Double
        show ?thesis using eq [unfolded Double tokenize_loop.simps(6) list] less.prems(2)
          by (auto split: if_split_asm elim: step step2)
      qed
    qed
  qed
qed

lemma parse_simple_loop_ok:
  assumes "parse_simple_loop av rd ts = Inr (c, rest)" "list_all token_ok ts"
    "list_all token_ok (simple_tokens \<lparr>argv = av, redir = rd\<rparr>)"
  shows "simple_ok c \<and> list_all token_ok (simple_tokens c) \<and> list_all token_ok rest"
  using assms
proof (induction av rd ts rule: parse_simple_loop.induct)
  case (1 av rd)
  then show ?case by (auto simp: finish_simple_def simple_ok_def split: if_splits)
next
  case (2 av rd w ts)
  then show ?case by (simp add: simple_tokens_def)
next
  case (3 av rd o' ts)
  then show ?case
    by (cases ts) (auto simp: finish_simple_def simple_ok_def simple_tokens_def split: if_splits token.splits option.splits)
qed

lemma parse_simple_ok:
  "parse_simple ts = Inr (c, rest) \<Longrightarrow> list_all token_ok ts \<Longrightarrow>
   simple_ok c \<and> list_all token_ok (simple_tokens c) \<and> list_all token_ok rest"
  using parse_simple_loop_ok by (simp add: parse_simple_def redir_default_def simple_tokens_def)

lemma pipe_tokens_ok: "list_all token_ok (pipe_tokens cs) \<longleftrightarrow> list_all (\<lambda>c. list_all token_ok (simple_tokens c)) cs"
  by (induction cs rule: pipe_tokens.induct) auto

lemma parse_pipeline_ok:
  assumes "parse_pipeline cs ts = Inr (p, rest)" "list_all token_ok ts" "list_all simple_ok cs"
    "list_all (\<lambda>c. list_all token_ok (simple_tokens c)) cs"
  shows "cmds p \<noteq> [] \<and> list_all simple_ok (cmds p) \<and> list_all token_ok (pipe_tokens (cmds p)) \<and> list_all token_ok rest"
  using assms
proof (induction cs ts rule: parse_pipeline.induct)
  case (1 cs ts)
  from 1(2) obtain cmd r where r: "parse_simple ts = Inr (cmd, r)"
    by (auto simp: parse_pipeline.simps [of cs ts] split: sum.splits)
  note ok = parse_simple_ok [OF r 1(3)]
  show ?case
  proof (cases "r \<noteq> [] \<and> hd r = Op Pipe")
    case True
    then have "parse_pipeline (cs @ [cmd]) (tl r) = Inr (p, rest)" using 1(2) r by (simp add: parse_pipeline.simps [of cs ts])
    moreover have "list_all token_ok (tl r)" using ok by (cases r) auto
    ultimately show ?thesis using 1(1) [OF r refl True] ok 1(4,5) by simp
  next
    case False
    with 1(2,4,5) r ok show ?thesis by (auto simp: parse_pipeline.simps [of cs ts] pipe_tokens_ok)
  qed
qed

text \<open>A chain under construction: it may be empty, nothing in it runs in the background, and an operator is
  pending exactly when there is an item before it.\<close>

definition open_chain :: "cond_item list \<Rightarrow> cond_op option \<Rightarrow> bool" where
  "open_chain ch pending \<longleftrightarrow> list_all item_ok ch \<and> list_all (\<lambda>i. \<not> background (ci_pipeline i)) ch \<and>
     (ch = [] \<longleftrightarrow> pending = None) \<and> (ch \<noteq> [] \<longrightarrow> ci_op (hd ch) = None) \<and> list_all (\<lambda>i. ci_op i \<noteq> None) (tl ch) \<and>
     list_all token_ok (concat (map item_tokens ch))"

definition closed_chain :: "cond_item list \<Rightarrow> bool" where
  "closed_chain ch \<longleftrightarrow> chain_ok ch \<and> list_all token_ok (chain_tokens ch)"

lemma cond_tokens_ok [simp]: "list_all token_ok (cond_tokens c)"
  by (cases c rule: cond_tokens.cases) auto

lemma chain_tokens_ok: "list_all token_ok (chain_tokens ch) \<longleftrightarrow> list_all token_ok (concat (map item_tokens ch))"
  by (simp add: chain_tokens_def)

lemma open_chain_closes: "open_chain ch pending \<Longrightarrow> ch \<noteq> [] \<Longrightarrow> closed_chain ch"
  by (simp add: open_chain_def closed_chain_def chain_tokens_ok, auto simp: chain_ok_def list_all_iff dest: in_set_butlastD)

lemma open_chain_item:
  assumes "open_chain ch pending" "cmds p \<noteq> []" "list_all simple_ok (cmds p)" "list_all token_ok (pipe_tokens (cmds p))"
  shows "closed_chain (ch @ [\<lparr>ci_op = pending, ci_pipeline = p\<lparr>background := bg\<rparr>\<rparr>])"
    and "\<not> bg \<Longrightarrow> open_chain (ch @ [\<lparr>ci_op = pending, ci_pipeline = p\<lparr>background := bg\<rparr>\<rparr>]) (Some c)"
  using assms
  by (cases ch; auto simp: open_chain_def closed_chain_def chain_ok_def chain_tokens_ok item_ok_def item_tokens_def)+

lemma parse_line_loop_ok:
  assumes "parse_line_loop sequences chain pending ts = Inr seqs" "list_all token_ok ts"
    "list_all closed_chain sequences" "open_chain chain pending"
  shows "list_all closed_chain seqs"
  using assms
proof (induction "length ts" arbitrary: sequences chain pending ts rule: less_induct)
  case less
  show ?case
  proof (cases "ts = []")
    case True
    with less.prems show ?thesis by (auto simp: parse_line_loop.simps open_chain_closes split: if_splits)
  next
    case False
    then obtain p rest where p: "parse_pipeline [] ts = Inr (p, rest)"
      using less.prems(1) by (auto simp: parse_line_loop.simps [of _ _ _ ts] split: sum.splits)
    have ok: "cmds p \<noteq> []" "list_all simple_ok (cmds p)" "list_all token_ok (pipe_tokens (cmds p))" "list_all token_ok rest"
      using parse_pipeline_ok [OF p less.prems(2)] by simp_all
    then have rest: "list_all token_ok (tl rest)" by (cases rest) auto
    have shorter: "length (tl rest) < length ts" using parse_pipeline_shorter [OF p] by simp
    define bg where "bg = (rest \<noteq> [] \<and> hd rest = Op Amp)"
    define chain' where "chain' = chain @ [\<lparr>ci_op = pending, ci_pipeline = p\<lparr>background := bg\<rparr>\<rparr>]"
    note item = open_chain_item [OF less.prems(4) ok(1-3), of bg, folded chain'_def]
    have none: "open_chain [] None" by (simp add: open_chain_def)
    note IH = less.hyps [OF shorter _ rest]
    have closes: "list_all closed_chain (sequences @ [chain'])" using item(1) less.prems(3) by simp
    consider "parse_line_loop (sequences @ [chain']) [] None (tl rest) = Inr seqs" | "seqs = sequences @ [chain']"
      | c where "\<not> bg" "parse_line_loop sequences chain' (Some c) (tl rest) = Inr seqs"
      using less.prems(1) p False
      by (auto simp: parse_line_loop.simps [of _ _ _ ts] bg_def chain'_def Let_def split: if_splits token.splits)
    then show ?thesis
    proof cases
      case 1
      then show ?thesis using IH closes none by blast
    next
      case 2
      with closes show ?thesis by simp
    next
      case 3
      then show ?thesis using IH item(2) less.prems(3) by blast
    qed
  qed
qed

lemma parse_line_ok: "parse_line ts = Inr seqs \<Longrightarrow> list_all token_ok ts \<Longrightarrow> list_all closed_chain seqs"
  using parse_line_loop_ok [of "[]" "[]" None ts seqs] by (simp add: parse_line_def open_chain_def)

lemma closed_chains_print:
  "list_all closed_chain seqs \<Longrightarrow> list_all token_ok (line_tokens seqs) \<and> parse_line (line_tokens seqs) = Inr seqs"
  using parse_line_tokens [of seqs "[]"]
  by (auto simp: closed_chain_def parse_line_def line_tokens_def list_all_iff)

section \<open>The round trip\<close>

definition words_ok :: "cond_item list list \<Rightarrow> bool" where
  "words_ok seqs \<longleftrightarrow> list_all token_ok (line_tokens seqs)"

lemma line_readable:
  "tokenize s = Inr ts \<Longrightarrow> parse_line ts = Inr seqs \<Longrightarrow> list_all chain_ok seqs \<and> words_ok seqs"
  using tokenize_loop_ok [of Normal "[]" "[]" s ts] parse_line_ok [of ts seqs]
  by (auto simp: tokenize_def words_ok_def closed_chain_def line_tokens_def list_all_iff)

lemma line_printed:
  assumes "list_all chain_ok seqs" "words_ok seqs"
  shows "tokenize (render (line_tokens seqs)) = Inr (line_tokens seqs) \<and> parse_line (line_tokens seqs) = Inr seqs"
proof -
  have "list_all closed_chain seqs" using assms by (auto simp: words_ok_def closed_chain_def line_tokens_def list_all_iff)
  with closed_chains_print [of seqs] show ?thesis by (simp add: tokenize_render)
qed

text \<open>
  C37. Every line the shell can read prints to a text that reads back as the same line. The lines that the tokenizer
  and the parser return for some text are exactly the well-formed ones: chains of pipelines joined by and/or, only
  the last item of a chain in the background, no empty command and no empty word. For each of them, quoting its
  words and writing it out gives a text that is tokenized and parsed to that line again, with every argument,
  redirection and operator in its place, whatever characters the words are made of.
\<close>

theorem line_roundtrip:
  "((\<exists>s ts. tokenize s = Inr ts \<and> parse_line ts = Inr seqs) \<longleftrightarrow> list_all chain_ok seqs \<and> words_ok seqs) \<and>
   (list_all chain_ok seqs \<and> words_ok seqs \<longleftrightarrow>
    tokenize (render (line_tokens seqs)) = Inr (line_tokens seqs) \<and> parse_line (line_tokens seqs) = Inr seqs)"
  using line_readable line_printed by blast

section \<open>The for loop\<close>

lemma find_str_at: "find_str pat s = Some i \<Longrightarrow> pat \<noteq> [] \<Longrightarrow> starts_with pat (drop i s)"
  by (induction pat s arbitrary: i rule: find_str.induct) (auto split: if_splits)

lemma rfind_str_at: "rfind_str pat s = Some i \<Longrightarrow> pat \<noteq> [] \<Longrightarrow> starts_with pat (drop i s)"
  by (induction pat s arbitrary: i rule: rfind_str.induct) (auto split: if_splits option.splits)

lemma starts_with_nth: "starts_with pat (drop i s) \<Longrightarrow> k < length pat \<Longrightarrow> i + k < length s \<and> s ! (i + k) = pat ! k"
  unfolding starts_with_def by (metis length_drop length_take less_diff_conv add.commute min_less_iff_conj nth_drop nth_take less_imp_le_nat
      linorder_not_less drop_eq_Nil2 take_Nil length_0_conv list.size(3) not_less_zero)

text \<open>
  Reading a \<^verbatim>\<open>for\<close> loop slices the line only at positions that exist, in order: the two markers cannot overlap.
\<close>

lemma marker_text:
  "do_marker = [59, 32, 100, 111, 32]" "done_marker = [59, 32, 100, 111, 110, 101]" "lit ''for '' = [102, 111, 114, 32]"
  by (simp_all add: do_marker_def done_marker_def lit_def)

lemma markers_apart:
  assumes "starts_with (lit ''for '') t" "starts_with do_marker (drop d t)" "starts_with done_marker (drop e t)" "d \<le> e"
  shows "4 \<le> d \<and> d + 5 \<le> e \<and> e \<le> length t"
proof -
  have f: "t ! 0 = 102" "t ! 1 = 111" "t ! 2 = 114" "t ! 3 = 32"
    using starts_with_nth [of "lit ''for ''" 0 t] assms(1) by (auto simp: marker_text dest: meta_spec [of _ 0] meta_spec [of _ 3])
  have d: "t ! d = 59" "t ! (d + 1) = 32" "t ! (d + 2) = 100" "t ! (d + 3) = 111" "t ! (d + 4) = 32"
    using starts_with_nth [OF assms(2), of 0] starts_with_nth [OF assms(2), of 1] starts_with_nth [OF assms(2), of 2]
      starts_with_nth [OF assms(2), of 3] starts_with_nth [OF assms(2), of 4] by (simp_all add: marker_text)
  have e: "t ! e = 59" "t ! (e + 4) = 110" "e < length t"
    using starts_with_nth [OF assms(3), of 0] starts_with_nth [OF assms(3), of 4] by (simp_all add: marker_text)
  have "d \<noteq> 0" "d \<noteq> 1" "d \<noteq> 2" "d \<noteq> 3" using d(1) f by (metis numeral_eq_iff semiring_norm(85,87-90))+
  moreover have "e \<noteq> d" "e \<noteq> d + 1" "e \<noteq> d + 2" "e \<noteq> d + 3" "e \<noteq> d + 4" using d e by auto
  ultimately show ?thesis using assms(4) e(3) by linarith
qed

lemma for_loop_total: "parse_for_loop line \<noteq> None"
proof -
  define t where "t = trim line"
  have "4 \<le> d \<and> d + length do_marker \<le> e \<and> d \<le> length t \<and> e \<le> length t"
    if "starts_with (lit ''for '') t" "find_str do_marker t = Some d" "rfind_str done_marker t = Some e" "\<not> e < d" for d e
    using that markers_apart find_str_at [of do_marker t d] rfind_str_at [of done_marker t e] by (force simp: marker_text)
  then show ?thesis
    unfolding parse_for_loop_def Let_def t_def [symmetric]
    by (fastforce simp: slice_def split: option.split)
qed

end
