(* ===== verification/Sh_Exec.thy ===== *)
theory Sh_Exec
  imports Sh_Parse "HOL-Library.Word" "HOL-Library.Monad_Syntax"
begin

text \<open>
  The shell (\<^verbatim>\<open>crates/user/src/bin/sh.rs\<close>): jobs, builtins, pipelines and the execution of a line. The kernel
  answers the shell's calls: an answer is an arbitrary function of the calls made so far, the last of which is the
  one answered. Waiting for a foreground job does not return while its processes run on; the functions below then
  have the value None.
\<close>

unbundle bit_operations_syntax

section \<open>Jobs\<close>

record job =
  j_id :: nat
  j_pgid :: nat
  j_pids :: "nat list"
  j_last_pid :: nat
  j_cmd :: rstring
  j_stopped :: bool

datatype stdio = Inherit | MakePipe | Fd nat

record spawn_req =
  sp_argv :: "rstring list"
  sp_pgrp :: nat
  sp_foreground :: bool
  sp_stdin :: stdio
  sp_stdout :: stdio

datatype sys_error = Interrupted | OtherError nat

datatype notice = Stopped nat rstring | Finished nat rstring | Running nat rstring | Started nat nat | Complaint

datatype request = Waitpid nat bool | Sleep | KillCont nat | Tcsetpgrp nat | Setpgid nat nat | Spawn spawn_req
  | OpenIn rstring | OpenOut rstring bool | Chdir rstring | SetVar rstring rstring | RemoveVar rstring | Vars
  | Notice notice

record os =
  os_waitpid :: "request list \<Rightarrow> sys_error + nat \<times> 32 word"
  os_spawn :: "request list \<Rightarrow> sys_error + nat \<times> nat option"
  os_open :: "request list \<Rightarrow> sys_error + nat"
  os_done :: "request list \<Rightarrow> bool"
  os_var :: "request list \<Rightarrow> rstring \<Rightarrow> rstring option"

record shell =
  jobs :: "job list"
  next_job_id :: nat
  shell_pgid :: nat
  calls :: "request list"

definition call :: "request \<Rightarrow> shell \<Rightarrow> shell" where
  "call c sh = sh\<lparr>calls := calls sh @ [c]\<rparr>"

definition status_stopped :: "32 word \<Rightarrow> nat option" where
  "status_stopped status =
     (if status AND 0xff = 0x7f then Some (unat (signed_drop_bit 8 status AND 0xff)) else None)"

definition exit_status_code :: "32 word \<Rightarrow> 32 word" where
  "exit_status_code status =
     (if status_stopped status \<noteq> None then 1
      else if status AND 0xff = 0 then signed_drop_bit 8 status AND 0xff
      else 1)"

text \<open>\<^verbatim>\<open>str::parse::<usize>\<close>: an optional plus sign, then one or more digits, below \<^verbatim>\<open>2^64\<close>.\<close>

definition is_digit :: "rchar \<Rightarrow> bool" where
  "is_digit c \<longleftrightarrow> 48 \<le> c \<and> c \<le> 57"

definition parse_usize :: "rstring \<Rightarrow> nat option" where
  "parse_usize s =
     (let ds = (if s \<noteq> [] \<and> hd s = 43 then tl s else s);
          v = foldl (\<lambda>n c. 10 * n + (c - 48)) 0 ds
      in if ds \<noteq> [] \<and> list_all is_digit ds \<and> v < 2 ^ 64 then Some v else None)"

definition parse_job_id :: "rstring option \<Rightarrow> job list \<Rightarrow> nat option" where
  "parse_job_id arg js =
     (case arg of
        Some raw \<Rightarrow> parse_usize (dropWhile (\<lambda>c. c = 37) raw)
      | None \<Rightarrow> if js = [] then None else Some (j_id (last js)))"

text \<open>The inner loop of \<^verbatim>\<open>reap_jobs\<close>: the processes still there, and whether one has stopped.\<close>

fun reap_pids :: "os \<Rightarrow> nat list \<Rightarrow> shell \<Rightarrow> nat list \<times> bool \<times> shell" where
  "reap_pids os [] sh = ([], False, sh)"
| "reap_pids os (pid # pids) sh =
     (let sh' = call (Waitpid pid True) sh;
          (rest, stopped, sh'') = reap_pids os pids sh'
      in case os_waitpid os (calls sh') of
           Inr (got, status) \<Rightarrow>
             (if got = 0 then (pid # rest, stopped, sh'')
              else if status_stopped status \<noteq> None then (pid # rest, True, sh'')
              else (rest, stopped, sh''))
         | Inl _ \<Rightarrow> (pid # rest, stopped, sh''))"

fun reap_loop :: "os \<Rightarrow> job list \<Rightarrow> shell \<Rightarrow> job list \<times> shell" where
  "reap_loop os [] sh = ([], sh)"
| "reap_loop os (j # js) sh =
     (let (pids, stopped, sh) = reap_pids os (j_pids j) sh;
          j = j\<lparr>j_pids := pids, j_stopped := j_stopped j \<or> stopped\<rparr>;
          sh = (if stopped then call (Notice (Stopped (j_id j) (j_cmd j))) sh else sh);
          sh = (if pids = [] then call (Notice (Finished (j_id j) (j_cmd j))) sh else sh);
          (js, sh) = reap_loop os js sh
      in (if pids = [] then js else j # js, sh))"

definition reap_jobs :: "os \<Rightarrow> shell \<Rightarrow> shell" where
  "reap_jobs os sh = (let (js, sh) = reap_loop os (jobs sh) sh in sh\<lparr>jobs := js\<rparr>)"

text \<open>The result is an error or whether the job has stopped and its status.\<close>

partial_function (option) wait_foreground ::
  "os \<Rightarrow> 32 word \<Rightarrow> job \<Rightarrow> shell \<Rightarrow> ((sys_error + bool \<times> 32 word) \<times> job \<times> shell) option"
where
  "wait_foreground os last_status job sh =
     (case j_pids job of
        [] \<Rightarrow> Some (Inr (False, last_status), job, sh)
      | pid # pids \<Rightarrow>
          (let sh' = call (Waitpid pid False) sh
           in case os_waitpid os (calls sh') of
                Inr (_, status) \<Rightarrow>
                  (if status_stopped status \<noteq> None then Some (Inr (True, 1), job\<lparr>j_stopped := True\<rparr>, sh')
                   else wait_foreground os (if pid = j_last_pid job then exit_status_code status else last_status)
                          (job\<lparr>j_pids := pids\<rparr>) sh')
              | Inl e \<Rightarrow>
                  (if e = Interrupted then wait_foreground os last_status job (call Sleep sh')
                   else Some (Inl e, job, sh'))))"

section \<open>Builtins\<close>

datatype builtin_result = Status "32 word" | Exit

definition kill_cont :: "job \<Rightarrow> shell \<Rightarrow> shell" where
  "kill_cont job sh = (if j_stopped job then fold (\<lambda>pid. call (KillCont pid)) (j_pids job) sh else sh)"

definition complain :: "'a \<Rightarrow> shell \<Rightarrow> ('a \<times> shell) option" where
  "complain r sh = Some (r, call (Notice Complaint) sh)"

definition split_once :: "rchar \<Rightarrow> rstring \<Rightarrow> (rstring \<times> rstring) option" where
  "split_once c s =
     (if c \<in> set s then Some (takeWhile (\<lambda>d. d \<noteq> c) s, tl (dropWhile (\<lambda>d. d \<noteq> c) s)) else None)"

fun export_args :: "os \<Rightarrow> rstring list \<Rightarrow> 32 word \<Rightarrow> shell \<Rightarrow> 32 word \<times> shell" where
  "export_args os [] status sh = (status, sh)"
| "export_args os (arg # args) status sh =
     (case split_once 61 arg of
        Some (key, v) \<Rightarrow>
          (let sh' = call (SetVar key v) sh
           in if os_done os (calls sh') then export_args os args status sh'
              else export_args os args 1 (call (Notice Complaint) sh'))
      | None \<Rightarrow> export_args os args 1 (call (Notice Complaint) sh))"

definition builtin_fg :: "os \<Rightarrow> rstring option \<Rightarrow> shell \<Rightarrow> (builtin_result option \<times> shell) option" where
  "builtin_fg os arg sh =
     (case parse_job_id arg (jobs sh) of
        None \<Rightarrow> complain (Some (Status 1)) sh
      | Some job_id \<Rightarrow>
          (case find (\<lambda>j. j_id j = job_id) (jobs sh) of
             None \<Rightarrow> complain (Some (Status 1)) sh
           | Some job \<Rightarrow>
               do {
                 let pos = length (takeWhile (\<lambda>j. j_id j \<noteq> job_id) (jobs sh));
                 let sh = sh\<lparr>jobs := take pos (jobs sh) @ drop (Suc pos) (jobs sh)\<rparr>;
                 let sh = kill_cont job sh;
                 let sh = call (Tcsetpgrp (j_pgid job)) sh;
                 (res, job, sh) \<leftarrow> wait_foreground os 1 (job\<lparr>j_stopped := False\<rparr>) sh;
                 let sh = call (Tcsetpgrp (shell_pgid sh)) sh;
                 (case res of
                    Inr (stopped, status) \<Rightarrow>
                      (if stopped then
                         (let sh = call (Notice (Stopped (j_id job) (j_cmd job))) sh
                          in Some (Some (Status 1), sh\<lparr>jobs := jobs sh @ [job]\<rparr>))
                       else Some (Some (Status status), sh))
                  | Inl _ \<Rightarrow> complain (Some (Status 1)) sh)
               }))"

fun continue_job :: "nat \<Rightarrow> job list \<Rightarrow> job list" where
  "continue_job i [] = []"
| "continue_job i (j # js) = (if j_id j = i then j\<lparr>j_stopped := False\<rparr> # js else j # continue_job i js)"

definition builtin_bg :: "rstring option \<Rightarrow> shell \<Rightarrow> (builtin_result option \<times> shell) option" where
  "builtin_bg arg sh =
     (case parse_job_id arg (jobs sh) of
        None \<Rightarrow> complain (Some (Status 1)) sh
      | Some job_id \<Rightarrow>
          (case find (\<lambda>j. j_id j = job_id) (jobs sh) of
             None \<Rightarrow> complain (Some (Status 1)) sh
           | Some job \<Rightarrow>
               (let sh = kill_cont job sh;
                    sh = sh\<lparr>jobs := continue_job job_id (jobs sh)\<rparr>
                in Some (Some (Status 0), call (Notice (Running (j_id job) (j_cmd job))) sh))))"

definition arg_at :: "nat \<Rightarrow> simple_cmd \<Rightarrow> rstring option" where
  "arg_at i cmd = (if i < length (argv cmd) then Some (argv cmd ! i) else None)"

definition run_builtin :: "os \<Rightarrow> simple_cmd \<Rightarrow> shell \<Rightarrow> (builtin_result option \<times> shell) option" where
  "run_builtin os cmd sh =
     (case arg_at 0 cmd of
        None \<Rightarrow> Some (None, sh)
      | Some command \<Rightarrow>
          (if command = lit ''true'' then Some (Some (Status 0), sh)
           else if command = lit ''false'' then Some (Some (Status 1), sh)
           else if command = lit ''cd'' then
             (let sh = call (Chdir (case arg_at 1 cmd of Some d \<Rightarrow> d | None \<Rightarrow> lit ''/'')) sh
              in if os_done os (calls sh) then Some (Some (Status 0), sh) else complain (Some (Status 1)) sh)
           else if command = lit ''export'' then
             (if arg_at 1 cmd = None \<or> arg_at 1 cmd = Some (lit ''-p'') then Some (Some (Status 0), call Vars sh)
              else (let (status, sh) = export_args os (drop 1 (argv cmd)) 0 sh in Some (Some (Status status), sh)))
           else if command = lit ''jobs'' then
             Some (Some (Status 0),
               fold (\<lambda>j. call (Notice ((if j_stopped j then Stopped else Running) (j_id j) (j_cmd j)))) (jobs sh) sh)
           else if command = lit ''fg'' then builtin_fg os (arg_at 1 cmd) sh
           else if command = lit ''bg'' then builtin_bg (arg_at 1 cmd) sh
           else if command = lit ''exit'' then Some (Some Exit, sh)
           else Some (None, sh)))"

section \<open>Pipelines\<close>

record started =
  st_pgid :: "nat option"
  st_pids :: "nat list"
  st_last :: nat
  st_prev :: "stdio option"

text \<open>How starting the commands ends: all started, an early return with a status, or an error passed on.\<close>

datatype start_end = AllStarted started | Return "32 word" | Fail sys_error

definition or_inherit :: "stdio option \<Rightarrow> stdio" where
  "or_inherit s = (case s of Some x \<Rightarrow> x | None \<Rightarrow> Inherit)"

definition open_stdin :: "os \<Rightarrow> bool \<Rightarrow> simple_cmd \<Rightarrow> stdio option \<Rightarrow> shell \<Rightarrow> (sys_error + stdio) \<times> shell" where
  "open_stdin os first cmd prev sh =
     (case rd_input (redir cmd) of
        Some path \<Rightarrow>
          (if first then
             (let sh = call (OpenIn path) sh
              in case os_open os (calls sh) of Inr fd \<Rightarrow> (Inr (Fd fd), sh) | Inl e \<Rightarrow> (Inl e, sh))
           else (Inr (or_inherit prev), sh))
      | None \<Rightarrow> (Inr (or_inherit prev), sh))"

definition open_stdout :: "os \<Rightarrow> bool \<Rightarrow> simple_cmd \<Rightarrow> shell \<Rightarrow> (sys_error + stdio) \<times> shell" where
  "open_stdout os is_last cmd sh =
     (if is_last then
        (case rd_output (redir cmd) of
           Some out \<Rightarrow>
             (let sh = call (OpenOut (or_path out) (or_append out)) sh
              in case os_open os (calls sh) of Inr fd \<Rightarrow> (Inr (Fd fd), sh) | Inl e \<Rightarrow> (Inl e, sh))
         | None \<Rightarrow> (Inr Inherit, sh))
      else (Inr MakePipe, sh))"

definition start_one ::
  "os \<Rightarrow> bool \<Rightarrow> bool \<Rightarrow> bool \<Rightarrow> simple_cmd \<Rightarrow> started \<Rightarrow> shell \<Rightarrow> start_end \<times> shell"
where
  "start_one os bg first is_last cmd st sh =
     (if argv cmd = [] then (Return 1, sh)
      else
        (case open_stdin os first cmd (st_prev st) sh of
           (Inl e, sh) \<Rightarrow> (Fail e, sh)
         | (Inr stdin, sh) \<Rightarrow>
             (case open_stdout os is_last cmd sh of
                (Inl e, sh) \<Rightarrow> (Fail e, sh)
              | (Inr stdout, sh) \<Rightarrow>
                  (let is_first = (st_pgid st = None);
                       sh = call (Spawn \<lparr>sp_argv = argv cmd, sp_pgrp = (case st_pgid st of Some g \<Rightarrow> g | None \<Rightarrow> 0),
                              sp_foreground = (is_first \<and> \<not> bg), sp_stdin = stdin, sp_stdout = stdout\<rparr>) sh
                   in case os_spawn os (calls sh) of
                        Inl e \<Rightarrow> (Return 1, call (Notice Complaint) sh)
                      | Inr (pid, child_stdout) \<Rightarrow>
                          (let job_pgid = (case st_pgid st of Some g \<Rightarrow> g | None \<Rightarrow> pid);
                               sh = call (Setpgid pid job_pgid) sh;
                               sh = (if is_first \<and> \<not> bg then call (Tcsetpgrp job_pgid) sh else sh)
                           in (AllStarted \<lparr>st_pgid = Some job_pgid, st_pids = st_pids st @ [pid],
                                 st_last = (if is_last then pid else st_last st),
                                 st_prev = (if is_last then None else map_option Fd child_stdout)\<rparr>, sh))))))"

fun start_loop :: "os \<Rightarrow> bool \<Rightarrow> bool \<Rightarrow> simple_cmd list \<Rightarrow> started \<Rightarrow> shell \<Rightarrow> start_end \<times> shell" where
  "start_loop os bg first [] st sh = (AllStarted st, sh)"
| "start_loop os bg first (cmd # cs) st sh =
     (case start_one os bg first (cs = []) cmd st sh of
        (AllStarted st', sh') \<Rightarrow> start_loop os bg False cs st' sh'
      | (Return s, sh') \<Rightarrow> (Return s, sh')
      | (Fail e, sh') \<Rightarrow> (Fail e, sh'))"

definition redirs_misplaced :: "simple_cmd list \<Rightarrow> bool" where
  "redirs_misplaced cs \<longleftrightarrow>
     list_ex (\<lambda>c. rd_input (redir c) \<noteq> None) (tl cs) \<or> list_ex (\<lambda>c. rd_output (redir c) \<noteq> None) (butlast cs)"

definition run_pipeline :: "os \<Rightarrow> pipeline \<Rightarrow> shell \<Rightarrow> ((sys_error + 32 word) \<times> shell) option" where
  "run_pipeline os p sh =
     (if redirs_misplaced (cmds p) then complain (Inr 1) sh
      else
        (case start_loop os (background p) True (cmds p) \<lparr>st_pgid = None, st_pids = [], st_last = 0, st_prev = None\<rparr> sh of
           (Fail e, sh) \<Rightarrow> Some (Inl e, sh)
         | (Return s, sh) \<Rightarrow> Some (Inr s, sh)
         | (AllStarted st, sh) \<Rightarrow>
             (if st_pids st = [] then Some (Inr 1, sh)
              else
                (let pgid = (case st_pgid st of Some g \<Rightarrow> g | None \<Rightarrow> 0);
                     job = \<lparr>j_id = 0, j_pgid = pgid, j_pids = st_pids st, j_last_pid = st_last st,
                            j_cmd = pipeline_display p, j_stopped = False\<rparr>
                 in if background p then
                      (let sh = sh\<lparr>jobs := jobs sh @ [job\<lparr>j_id := next_job_id sh\<rparr>], next_job_id := next_job_id sh + 1\<rparr>
                       in Some (Inr 0, call (Notice (Started (next_job_id sh - 1) pgid)) sh))
                    else
                      do {
                        let sh = call (Tcsetpgrp pgid) sh;
                        (res, job, sh) \<leftarrow> wait_foreground os 1 job sh;
                        let sh = call (Tcsetpgrp (shell_pgid sh)) sh;
                        (case res of
                           Inr (stopped, status) \<Rightarrow>
                             (if stopped then
                                (let job = job\<lparr>j_id := next_job_id sh\<rparr>;
                                     sh = call (Notice (Stopped (j_id job) (j_cmd job))) (sh\<lparr>next_job_id := next_job_id sh + 1\<rparr>)
                                 in Some (Inr 1, sh\<lparr>jobs := jobs sh @ [job]\<rparr>))
                              else Some (Inr status, sh))
                         | Inl _ \<Rightarrow> complain (Inr 1) sh)
                      }))))"

section \<open>Lines\<close>

text \<open>One item of a chain: whether the shell ends, and the status.\<close>

definition run_item :: "os \<Rightarrow> cond_item \<Rightarrow> shell \<Rightarrow> ((bool \<times> 32 word) \<times> shell) option" where
  "run_item os item sh =
     (let p = ci_pipeline item;
          pipe = (\<lambda>sh. do {
            (res, sh) \<leftarrow> run_pipeline os p sh;
            (case res of
               Inr status \<Rightarrow> Some ((False, status), sh)
             | Inl _ \<Rightarrow> complain (False, 1) sh)
          })
      in if cmds p = [] then pipe sh
         else do {
           (res, sh) \<leftarrow> run_builtin os (hd (cmds p)) sh;
           (case res of
              None \<Rightarrow> pipe sh
            | Some r \<Rightarrow>
                (if length (cmds p) = 1 \<and> \<not> background p then
                   (case r of Exit \<Rightarrow> Some ((True, 0), sh) | Status status \<Rightarrow> Some ((False, status), sh))
                 else complain (False, 1) sh))
         })"

definition skips :: "cond_op option \<Rightarrow> 32 word \<Rightarrow> bool" where
  "skips op' last_status \<longleftrightarrow> op' = Some And \<and> last_status \<noteq> 0 \<or> op' = Some Or \<and> last_status = 0"

fun run_chain :: "os \<Rightarrow> 32 word \<Rightarrow> cond_item list \<Rightarrow> shell \<Rightarrow> ((bool \<times> 32 word) \<times> shell) option" where
  "run_chain os last_status [] sh = Some ((False, last_status), sh)"
| "run_chain os last_status (item # items) sh =
     (if skips (ci_op item) last_status then run_chain os last_status items sh
      else do {
        ((ends, status), sh) \<leftarrow> run_item os item sh;
        (if ends then Some ((True, status), sh) else run_chain os status items sh)
      })"

fun run_sequences :: "os \<Rightarrow> cond_item list list \<Rightarrow> shell \<Rightarrow> (bool \<times> shell) option" where
  "run_sequences os [] sh = Some (False, sh)"
| "run_sequences os (ch # chs) sh =
     do {
       ((ends, _), sh) \<leftarrow> run_chain os 0 ch sh;
       (if ends then Some (True, sh) else run_sequences os chs sh)
     }"

definition execute_line :: "os \<Rightarrow> rstring \<Rightarrow> shell \<Rightarrow> (bool \<times> shell) option" where
  "execute_line os line sh =
     (case tokenize line of
        Inl _ \<Rightarrow> complain False sh
      | Inr tokens \<Rightarrow>
          (case parse_line tokens of
             Inl _ \<Rightarrow> complain False sh
           | Inr sequences \<Rightarrow> run_sequences os sequences sh))"

text \<open>\<^verbatim>\<open>str::replace\<close> for a pattern that is not empty.\<close>

function replace_str :: "rstring \<Rightarrow> rstring \<Rightarrow> rstring \<Rightarrow> rstring" where
  "replace_str pat to s =
     (if s = [] then []
      else if pat \<noteq> [] \<and> starts_with pat s then to @ replace_str pat to (drop (length pat) s)
      else hd s # replace_str pat to (tl s))"
  by pat_completeness auto
termination by (relation "measure (\<lambda>(_, _, s). length s)") auto

declare replace_str.simps [simp del]

fun run_for_items :: "os \<Rightarrow> rstring \<Rightarrow> rstring \<Rightarrow> rstring list \<Rightarrow> shell \<Rightarrow> (bool \<times> shell) option" where
  "run_for_items os var body [] sh = Some (False, sh)"
| "run_for_items os var body (item # items) sh =
     do {
       let sh = call (SetVar var item) sh;
       let line = replace_str (36 # 123 # var @ [125]) item body;
       let line = replace_str (36 # var) item line;
       (ends, sh) \<leftarrow> execute_line os line sh;
       (if ends then Some (True, sh) else run_for_items os var body items sh)
     }"

text \<open>One round of the main loop on a line that was read: whether the shell ends. A panic of the reader would be the
  value None as well; there is none, as for_loop_total shows.\<close>

definition main_round :: "os \<Rightarrow> rstring \<Rightarrow> shell \<Rightarrow> (bool \<times> shell) option" where
  "main_round os input sh =
     (let line = trim (normalize_input input)
      in if line = [] then Some (False, sh)
         else do {
           spec \<leftarrow> parse_for_loop line;
           (case spec of
              Inl _ \<Rightarrow> complain False sh
            | Inr None \<Rightarrow> execute_line os line sh
            | Inr (Some l) \<Rightarrow>
                do {
                  let prev = os_var os (calls sh) (fl_var l);
                  (ends, sh) \<leftarrow> run_for_items os (fl_var l) (fl_body l) (fl_items l) sh;
                  Some (if ends then (True, sh)
                        else (False, call (case prev of Some v \<Rightarrow> SetVar (fl_var l) v | None \<Rightarrow> RemoveVar (fl_var l)) sh))
                })
         })"

text \<open>The shell on a sequence of lines, until one of them ends it or the input does.\<close>

fun session :: "os \<Rightarrow> rstring list \<Rightarrow> shell \<Rightarrow> (bool \<times> shell) option" where
  "session os [] sh = Some (True, reap_jobs os sh)"
| "session os (input # inputs) sh =
     do {
       (ends, sh) \<leftarrow> main_round os input (reap_jobs os sh);
       (if ends then Some (True, sh) else session os inputs sh)
     }"

definition shell_new :: "nat \<Rightarrow> shell" where
  "shell_new pgid = \<lparr>jobs = [], next_job_id = 1, shell_pgid = pgid, calls = [Setpgid 0 0, Tcsetpgrp pgid]\<rparr>"

end
