(* ===== verification/Sh_Laws.thy ===== *)
theory Sh_Laws
  imports Sh_Exec
begin

text \<open>
  What the shell's execution keeps and loses: job numbers, the terminal's foreground group, and the meaning of
  and/or lists.
\<close>

section \<open>Invariants\<close>

definition jobs_ok :: "shell \<Rightarrow> bool" where
  "jobs_ok sh \<longleftrightarrow> distinct (map j_id (jobs sh)) \<and> list_all (\<lambda>j. j_id j < next_job_id sh) (jobs sh)"

fun groups :: "request list \<Rightarrow> nat list" where
  "groups [] = []"
| "groups (Tcsetpgrp g # cs) = g # groups cs"
| "groups (_ # cs) = groups cs"

text \<open>The terminal is the shell's: the last group put in the foreground, if any, was its own.\<close>

definition home :: "shell \<Rightarrow> bool" where
  "home sh \<longleftrightarrow> groups (calls sh) = [] \<or> last (groups (calls sh)) = shell_pgid sh"

definition starts_all :: "os \<Rightarrow> bool" where
  "starts_all os \<longleftrightarrow> (\<forall>h. \<exists>x. os_spawn os h = Inr x) \<and> (\<forall>h. \<exists>fd. os_open os h = Inr fd)"

definition keeps :: "os \<Rightarrow> shell \<Rightarrow> shell \<Rightarrow> bool" where
  "keeps os sh sh' \<longleftrightarrow> shell_pgid sh' = shell_pgid sh \<and> (jobs_ok sh \<longrightarrow> jobs_ok sh') \<and>
     (starts_all os \<longrightarrow> home sh \<longrightarrow> home sh')"

lemma keeps_refl [simp]: "keeps os sh sh"
  by (simp add: keeps_def)

lemma keeps_trans: "keeps os a b \<Longrightarrow> keeps os b c \<Longrightarrow> keeps os a c"
  by (simp add: keeps_def)

lemma groups_append [simp]: "groups (xs @ ys) = groups xs @ groups ys"
  by (induction xs rule: groups.induct) auto

lemma call_fields [simp]:
  "jobs (call c sh) = jobs sh" "next_job_id (call c sh) = next_job_id sh" "shell_pgid (call c sh) = shell_pgid sh"
  "calls (call c sh) = calls sh @ [c]"
  by (simp_all add: call_def)

text \<open>A step that only makes calls, none of which moves the terminal.\<close>

definition quiet :: "shell \<Rightarrow> shell \<Rightarrow> bool" where
  "quiet sh sh' \<longleftrightarrow> jobs sh' = jobs sh \<and> next_job_id sh' = next_job_id sh \<and> shell_pgid sh' = shell_pgid sh \<and>
     groups (calls sh') = groups (calls sh)"

lemma quiet_refl [simp]: "quiet sh sh"
  by (simp add: quiet_def)

lemma quiet_trans: "quiet a b \<Longrightarrow> quiet b c \<Longrightarrow> quiet a c"
  by (simp add: quiet_def)

lemma quiet_call: "quiet a b \<Longrightarrow> groups [c] = [] \<Longrightarrow> quiet a (call c b)"
  by (simp add: quiet_def)

lemma quiet_keeps: "quiet sh sh' \<Longrightarrow> keeps os sh sh'"
  by (simp add: quiet_def keeps_def jobs_ok_def home_def)

lemma quiet_fold:
  assumes "\<And>x. groups [f x] = []"
  shows "quiet a b \<Longrightarrow> quiet a (fold (\<lambda>x. call (f x)) xs b)"
  by (induction xs arbitrary: b) (simp_all add: quiet_call assms)

lemma complain_quiet: "complain r sh = Some (r', sh') \<Longrightarrow> r' = r \<and> quiet sh sh'"
  by (auto simp: complain_def quiet_def)

lemma kill_cont_quiet: "quiet sh (kill_cont job sh)"
  by (simp add: kill_cont_def quiet_fold)

lemma export_quiet: "export_args os args status sh = (s, sh') \<Longrightarrow> quiet sh sh'"
  by (induction os args status sh rule: export_args.induct)
    (auto simp: Let_def quiet_def split: option.splits if_splits)

lemma wait_quiet:
  assumes "wait_foreground os last_status job sh = Some (res, job', sh')"
  shows "quiet sh sh' \<and> j_id job' = j_id job"
proof -
  have "quiet sh (snd (snd y)) \<and> j_id (fst (snd y)) = j_id job" if "wait_foreground os last_status job sh = Some y" for y
    using that
  proof (rule wait_foreground.raw_induct
      [where P = "\<lambda>_ _ job sh y. quiet sh (snd (snd y)) \<and> j_id (fst (snd y)) = j_id job", rotated])
    fix f os last_status job sh y
    assume IH: "\<And>os last_status job sh y. f os last_status job sh = Some y \<Longrightarrow>
        quiet sh (snd (snd y)) \<and> j_id (fst (snd y)) = j_id job"
      and eq: "(case j_pids job of
        [] \<Rightarrow> Some (Inr (False, last_status), job, sh)
      | pid # pids \<Rightarrow>
          (let sh' = call (Waitpid pid False) sh
           in case os_waitpid os (calls sh') of
                Inr (_, status) \<Rightarrow>
                  (if status_stopped status \<noteq> None then Some (Inr (True, 1), job\<lparr>j_stopped := True\<rparr>, sh')
                   else f os (if pid = j_last_pid job then exit_status_code status else last_status)
                          (job\<lparr>j_pids := pids\<rparr>) sh')
              | Inl e \<Rightarrow>
                  (if e = Interrupted then f os last_status job (call Sleep sh')
                   else Some (Inl e, job, sh')))) = Some y"
    have q: "quiet sh (call (Waitpid pid False) sh)" "quiet sh (call Sleep (call (Waitpid pid False) sh))" for pid
      by (simp_all add: quiet_call)
    show "quiet sh (snd (snd y)) \<and> j_id (fst (snd y)) = j_id job"
      using eq q
      by (auto simp: Let_def split: list.splits sum.splits if_splits prod.splits dest!: IH intro: quiet_trans)
  qed
  from this [OF assms] show ?thesis by simp
qed

section \<open>Builtins\<close>

lemma find_splits:
  "find P xs = Some x \<Longrightarrow> \<exists>pre post. xs = pre @ x # post \<and>
     take (length (takeWhile (\<lambda>y. \<not> P y) xs)) xs @ drop (Suc (length (takeWhile (\<lambda>y. \<not> P y) xs))) xs = pre @ post"
proof (induction xs)
  case (Cons a xs)
  show ?case
  proof (cases "P a")
    case True
    with Cons.prems show ?thesis by (intro exI [of _ "[]"] exI [of _ xs]) simp
  next
    case False
    with Cons obtain pre post where *: "xs = pre @ x # post"
        "take (length (takeWhile (\<lambda>y. \<not> P y) xs)) xs @ drop (Suc (length (takeWhile (\<lambda>y. \<not> P y) xs))) xs = pre @ post"
      by auto
    show ?thesis
    proof (intro exI conjI)
      show "a # xs = (a # pre) @ x # post" by (simp add: *(1))
      show "take (length (takeWhile (\<lambda>y. \<not> P y) (a # xs))) (a # xs) @
          drop (Suc (length (takeWhile (\<lambda>y. \<not> P y) (a # xs)))) (a # xs) = (a # pre) @ post"
        using *(2) False by simp
    qed
  qed
qed simp

lemma builtin_fg_keeps:
  assumes "builtin_fg os arg sh = Some (r, sh')"
  shows "keeps os sh sh'"
proof (cases "\<exists>i job. parse_job_id arg (jobs sh) = Some i \<and> find (\<lambda>j. j_id j = i) (jobs sh) = Some job")
  case False
  with assms show ?thesis
    by (auto simp: builtin_fg_def dest!: complain_quiet split: option.splits intro: quiet_keeps)
next
  case True
  then obtain i job where i: "parse_job_id arg (jobs sh) = Some i" "find (\<lambda>j. j_id j = i) (jobs sh) = Some job" by blast
  define pos where "pos = length (takeWhile (\<lambda>j. j_id j \<noteq> i) (jobs sh))"
  define rest where "rest = take pos (jobs sh) @ drop (Suc pos) (jobs sh)"
  define sh1 where "sh1 = call (Tcsetpgrp (j_pgid job)) (kill_cont job (sh\<lparr>jobs := rest\<rparr>))"
  from assms obtain res job' sh2 where w: "wait_foreground os 1 (job\<lparr>j_stopped := False\<rparr>) sh1 = Some (res, job', sh2)"
    and sh': "sh' = call (Tcsetpgrp (shell_pgid sh2)) sh2 \<or> sh' = call (Notice Complaint) (call (Tcsetpgrp (shell_pgid sh2)) sh2)
        \<or> sh' = (call (Notice (Stopped (j_id job') (j_cmd job'))) (call (Tcsetpgrp (shell_pgid sh2)) sh2))
            \<lparr>jobs := jobs sh2 @ [job']\<rparr>"
    by (auto simp: builtin_fg_def i pos_def [symmetric] rest_def [symmetric] sh1_def [symmetric] Let_def complain_def
        split: bind_splits sum.splits if_splits)
  have sh2: "jobs sh2 = rest" "next_job_id sh2 = next_job_id sh" "shell_pgid sh2 = shell_pgid sh" "j_id job' = j_id job"
    using wait_quiet [OF w] kill_cont_quiet [of "sh\<lparr>jobs := rest\<rparr>" job] by (simp_all add: sh1_def quiet_def)
  have split: "\<exists>pre post. jobs sh = pre @ job # post \<and> rest = pre @ post"
    using find_splits [OF i(2)] unfolding rest_def pos_def by blast
  then have jobs: "jobs_ok sh \<Longrightarrow> jobs_ok sh'" using sh' sh2 by (auto simp: jobs_ok_def)
  have "home sh'" using sh' by (auto simp: home_def)
  moreover have "shell_pgid sh' = shell_pgid sh" using sh' sh2 by auto
  ultimately show ?thesis using jobs by (simp add: keeps_def)
qed

lemma continue_job_ids: "map j_id (continue_job i js) = map j_id js"
  by (induction js) auto

lemma jobs_ok_ids: "jobs_ok sh \<longleftrightarrow> distinct (map j_id (jobs sh)) \<and> list_all (\<lambda>n. n < next_job_id sh) (map j_id (jobs sh))"
  by (simp add: jobs_ok_def list.pred_map comp_def)

lemma builtin_bg_keeps:
  assumes "builtin_bg arg sh = Some (r, sh')"
  shows "keeps os sh sh'"
proof -
  have q: "quiet sh (kill_cont job sh)" for job by (rule kill_cont_quiet)
  show ?thesis
    using assms q
    by (auto simp: builtin_bg_def Let_def keeps_def jobs_ok_ids continue_job_ids home_def quiet_def dest!: complain_quiet
        split: option.splits)
qed

lemma quiet_after: "quiet (call c sh) sh' \<Longrightarrow> groups [c] = [] \<Longrightarrow> quiet sh sh'"
  by (simp add: quiet_def)

lemma keeps_call: "groups [c] = [] \<Longrightarrow> keeps os sh (call c sh)"
  by (rule quiet_keeps [OF quiet_call]) simp_all

lemma run_builtin_keeps: "run_builtin os cmd sh = Some (r, sh') \<Longrightarrow> keeps os sh sh'"
  by (auto simp: run_builtin_def Let_def split: option.splits if_splits prod.splits
      dest!: complain_quiet export_quiet builtin_fg_keeps builtin_bg_keeps [where os = os]
      intro: quiet_keeps keeps_call quiet_keeps [OF quiet_after] quiet_keeps [OF quiet_fold])

section \<open>Pipelines\<close>

definition still :: "shell \<Rightarrow> shell \<Rightarrow> bool" where
  "still sh sh' \<longleftrightarrow> jobs sh' = jobs sh \<and> next_job_id sh' = next_job_id sh \<and> shell_pgid sh' = shell_pgid sh"

lemma open_quiet:
  "open_stdin os first cmd prev sh = (r, sh') \<Longrightarrow> quiet sh sh'"
  "open_stdout os is_last cmd sh = (r, sh') \<Longrightarrow> quiet sh sh'"
  by (auto simp: open_stdin_def open_stdout_def Let_def intro: quiet_call split: option.splits if_splits sum.splits)

lemma starts_allD: "starts_all os \<Longrightarrow> os_spawn os h \<noteq> Inl e" "starts_all os \<Longrightarrow> os_open os h \<noteq> Inl e"
  unfolding starts_all_def by (metis Inl_Inr_False)+

lemma open_starts:
  "starts_all os \<Longrightarrow> open_stdin os first cmd prev sh = (r, sh') \<Longrightarrow> \<exists>x. r = Inr x"
  "starts_all os \<Longrightarrow> open_stdout os is_last cmd sh = (r, sh') \<Longrightarrow> \<exists>x. r = Inr x"
  by (auto simp: starts_allD open_stdin_def open_stdout_def Let_def split: option.splits if_splits sum.splits)

lemma start_one_effect:
  assumes "start_one os bg first is_last cmd st sh = (r, sh')"
  shows "still sh sh' \<and> (bg \<or> st_pgid st \<noteq> None \<longrightarrow> quiet sh sh') \<and>
    (\<forall>st'. r = AllStarted st' \<longrightarrow> st_pgid st' \<noteq> None \<and> st_pids st' \<noteq> [])"
proof -
  obtain a sh1 where a: "open_stdin os first cmd (st_prev st) sh = (a, sh1)" by (rule prod.exhaust)
  obtain b sh2 where b: "open_stdout os is_last cmd sh1 = (b, sh2)" by (rule prod.exhaust)
  note q = open_quiet(1) [OF a] open_quiet(2) [OF b]
  show ?thesis
    using assms q
    by (auto simp: start_one_def a b Let_def still_def quiet_def split: if_splits sum.splits option.splits)
qed

lemma start_one_starts:
  assumes "starts_all os" "simple_ok cmd"
  shows "\<exists>st' sh'. start_one os bg first is_last cmd st sh = (AllStarted st', sh')"
proof -
  obtain a sh1 where a: "open_stdin os first cmd (st_prev st) sh = (a, sh1)" by (rule prod.exhaust)
  obtain b sh2 where b: "open_stdout os is_last cmd sh1 = (b, sh2)" by (rule prod.exhaust)
  obtain x y where "a = Inr x" "b = Inr y" using open_starts(1) [OF assms(1) a] open_starts(2) [OF assms(1) b] by blast
  then show ?thesis using assms by (auto simp: start_one_def a b Let_def simple_ok_def starts_allD split: sum.split)
qed

lemma start_loop_effect:
  assumes "start_loop os bg first cs st sh = (r, sh')"
  shows "still sh sh' \<and> (bg \<or> st_pgid st \<noteq> None \<longrightarrow> quiet sh sh') \<and>
    (\<forall>st'. r = AllStarted st' \<longrightarrow> cs = [] \<and> st' = st \<and> sh' = sh \<or> st_pids st' \<noteq> [])"
  using assms
proof (induction cs arbitrary: first st sh)
  case (Cons cmd cs)
  obtain r1 sh1 where one: "start_one os bg first (cs = []) cmd st sh = (r1, sh1)" by (rule prod.exhaust)
  note e = start_one_effect [OF one]
  show ?case
  proof (cases r1)
    case (AllStarted st1)
    with Cons.prems one have "start_loop os bg False cs st1 sh1 = (r, sh')" by simp
    from Cons.IH [OF this] e AllStarted show ?thesis by (auto simp: still_def intro: quiet_trans)
  qed (use Cons.prems one e in \<open>auto simp: still_def\<close>)
qed (auto simp: still_def)

lemma start_loop_starts:
  assumes "starts_all os" "list_all simple_ok cs"
  shows "\<exists>st' sh'. start_loop os bg first cs st sh = (AllStarted st', sh')"
  using assms(2)
proof (induction cs arbitrary: first st sh)
  case (Cons cmd cs)
  obtain st1 sh1 where "start_one os bg first (cs = []) cmd st sh = (AllStarted st1, sh1)"
    using start_one_starts [OF assms(1), of cmd bg first "cs = []" st sh] Cons.prems by auto
  with Cons show ?case by simp
qed simp

lemma still_quiet: "quiet sh sh' \<longleftrightarrow> still sh sh' \<and> groups (calls sh') = groups (calls sh)"
  by (auto simp: quiet_def still_def)

lemma jobs_ok_push:
  "jobs_ok sh \<Longrightarrow> jobs sh' = jobs sh @ [j] \<Longrightarrow> j_id j = next_job_id sh \<Longrightarrow> next_job_id sh' = Suc (next_job_id sh) \<Longrightarrow> jobs_ok sh'"
  by (fastforce simp: jobs_ok_def list_all_iff)

lemma jobs_ok_same: "jobs sh' = jobs sh \<Longrightarrow> next_job_id sh' = next_job_id sh \<Longrightarrow> jobs_ok sh' = jobs_ok sh"
  by (simp add: jobs_ok_def)

lemma run_pipeline_keeps:
  assumes "run_pipeline os p sh = Some (r, sh')" "list_all simple_ok (cmds p)"
  shows "keeps os sh sh'"
proof (cases "redirs_misplaced (cmds p)")
  case True
  with assms show ?thesis by (auto simp: run_pipeline_def dest!: complain_quiet intro: quiet_keeps)
next
  case False
  define st0 where "st0 = \<lparr>st_pgid = None, st_pids = [], st_last = 0, st_prev = None\<rparr>"
  obtain res sh1 where start: "start_loop os (background p) True (cmds p) st0 sh = (res, sh1)" by (rule prod.exhaust)
  note e = start_loop_effect [OF start]
  have st: "still sh sh1" using e by simp
  show ?thesis
  proof (cases "\<exists>st. res = AllStarted st \<and> st_pids st \<noteq> [] \<and> \<not> background p")
    case True
    then obtain st where r: "res = AllStarted st" "st_pids st \<noteq> []" "\<not> background p" by blast
    define pgid where "pgid = (case st_pgid st of Some g \<Rightarrow> g | None \<Rightarrow> 0)"
    define job where "job = \<lparr>j_id = 0, j_pgid = pgid, j_pids = st_pids st, j_last_pid = st_last st,
      j_cmd = pipeline_display p, j_stopped = False\<rparr>"
    from assms(1) obtain w job' sh2 where w: "wait_foreground os 1 job (call (Tcsetpgrp pgid) sh1) = Some (w, job', sh2)"
      and sh': "sh' = call (Tcsetpgrp (shell_pgid sh2)) sh2 \<or> sh' = call (Notice Complaint) (call (Tcsetpgrp (shell_pgid sh2)) sh2)
        \<or> sh' = (call (Notice (Stopped (next_job_id sh2) (j_cmd job')))
              ((call (Tcsetpgrp (shell_pgid sh2)) sh2)\<lparr>next_job_id := next_job_id sh2 + 1\<rparr>))
            \<lparr>jobs := jobs sh2 @ [job'\<lparr>j_id := next_job_id sh2\<rparr>]\<rparr>"
      using False r start [unfolded st0_def]
      by (auto simp: run_pipeline_def pgid_def [symmetric] job_def [symmetric] Let_def complain_def
          split: bind_splits sum.splits if_splits)
    have sh2: "still sh sh2" using wait_quiet [OF w] st by (simp add: still_def quiet_def)
    then have "jobs sh' = jobs sh \<and> next_job_id sh' = next_job_id sh \<or>
        (\<exists>j. jobs sh' = jobs sh @ [j] \<and> j_id j = next_job_id sh \<and> next_job_id sh' = Suc (next_job_id sh))"
      using sh' by (auto simp: still_def)
    then have "jobs_ok sh \<Longrightarrow> jobs_ok sh'" using jobs_ok_push jobs_ok_same by blast
    moreover have "home sh'" using sh' by (auto simp: home_def)
    moreover have "shell_pgid sh' = shell_pgid sh" using sh' sh2 by (auto simp: still_def)
    ultimately show ?thesis by (simp add: keeps_def)
  next
    case fg: False
    have all: "starts_all os \<Longrightarrow> \<exists>st. res = AllStarted st"
      using start_loop_starts [OF _ assms(2), of os "background p" True st0 sh] start by auto
    show ?thesis
    proof (cases res)
      case (AllStarted started)
      show ?thesis
      proof (cases "st_pids started = []")
        case True
        with e AllStarted have "sh1 = sh" by auto
        with assms(1) False AllStarted True show ?thesis by (auto simp: run_pipeline_def start [unfolded st0_def])
      next
        case pids: False
        with fg AllStarted have bg: "background p" by simp
        with e have q: "quiet sh sh1" by simp
        show ?thesis using assms(1) False AllStarted pids bg q start [unfolded st0_def]
          by (auto simp: run_pipeline_def Let_def keeps_def quiet_def home_def intro: jobs_ok_push)
      qed
    next
      case (Return s)
      with assms(1) False all st show ?thesis
        by (auto simp: run_pipeline_def start [unfolded st0_def] keeps_def still_def jobs_ok_def)
    next
      case (Fail s)
      with assms(1) False all st show ?thesis
        by (auto simp: run_pipeline_def start [unfolded st0_def] keeps_def still_def jobs_ok_def)
    qed
  qed
qed

section \<open>Lines\<close>

lemma run_item_keeps:
  assumes "run_item os item sh = Some (r, sh')" "item_ok item"
  shows "keeps os sh sh'"
proof -
  let ?p = "ci_pipeline item"
  have ok: "cmds ?p \<noteq> []" "list_all simple_ok (cmds ?p)" using assms(2) by (simp_all add: item_ok_def)
  from assms(1) ok(1) obtain b sh1 where b: "run_builtin os (hd (cmds ?p)) sh = Some (b, sh1)"
    by (auto simp: run_item_def Let_def split: bind_splits)
  note k = run_builtin_keeps [OF b]
  have "keeps os sh1 sh'"
    using assms(1) ok b
    by (auto simp: run_item_def Let_def split: bind_splits option.splits if_splits sum.splits builtin_result.splits
        dest!: complain_quiet run_pipeline_keeps quiet_keeps [where os = os] intro: keeps_trans)
  with k show ?thesis by (rule keeps_trans)
qed

lemma run_chain_keeps:
  "run_chain os last_status items sh = Some (r, sh') \<Longrightarrow> list_all item_ok items \<Longrightarrow> keeps os sh sh'"
  by (induction os last_status items sh rule: run_chain.induct)
    (auto split: if_splits bind_splits dest!: run_item_keeps intro: keeps_trans)

lemma run_sequences_keeps:
  "run_sequences os chs sh = Some (r, sh') \<Longrightarrow> list_all chain_ok chs \<Longrightarrow> keeps os sh sh'"
  by (induction os chs sh rule: run_sequences.induct)
    (auto split: if_splits bind_splits dest!: run_chain_keeps simp: chain_ok_def intro: keeps_trans)

lemma execute_line_keeps: "execute_line os line sh = Some (r, sh') \<Longrightarrow> keeps os sh sh'"
  by (auto simp: execute_line_def split: sum.splits dest!: complain_quiet
      intro: quiet_keeps run_sequences_keeps dest: line_readable)

lemma keeps_setvar: "keeps os (call (SetVar k v) sh) sh' \<Longrightarrow> keeps os sh sh'"
  by (rule keeps_trans [OF keeps_call]) simp_all

lemma run_for_keeps: "run_for_items os var body items sh = Some (r, sh') \<Longrightarrow> keeps os sh sh'"
  by (induction os var body items sh rule: run_for_items.induct)
    (auto simp: Let_def split: if_splits bind_splits dest!: execute_line_keeps keeps_setvar
      intro: keeps_trans)

lemma keeps_then_var:
  "keeps os sh b \<Longrightarrow> keeps os sh (call (SetVar k v) b)" "keeps os sh b \<Longrightarrow> keeps os sh (call (RemoveVar k) b)"
  by (auto intro: keeps_trans [OF _ keeps_call])

lemma main_round_keeps: "main_round os input sh = Some (r, sh') \<Longrightarrow> keeps os sh sh'"
  by (auto simp: main_round_def Let_def split: if_splits bind_splits sum.splits option.splits
      dest!: complain_quiet execute_line_keeps run_for_keeps intro: quiet_keeps keeps_then_var)

lemma reap_pids_quiet: "reap_pids os pids sh = (rest, stopped, sh') \<Longrightarrow> quiet sh sh'"
proof (induction os pids sh arbitrary: rest stopped sh' rule: reap_pids.induct)
  case (2 os pid pids sh)
  obtain r s sh1 where r: "reap_pids os pids (call (Waitpid pid True) sh) = (r, s, sh1)" by (metis prod_cases3)
  have "quiet (call (Waitpid pid True) sh) sh1" using 2(1) r by auto
  then have "quiet sh sh1" by (rule quiet_after) simp
  with 2(2) r show ?case by (auto simp: Let_def split: sum.splits if_splits prod.splits)
qed simp

lemma reap_loop_effect:
  "reap_loop os js sh = (js', sh') \<Longrightarrow> quiet sh sh' \<and> set (map j_id js') \<subseteq> set (map j_id js) \<and>
     (distinct (map j_id js) \<longrightarrow> distinct (map j_id js'))"
proof (induction js arbitrary: sh js' sh')
  case (Cons j js)
  obtain pids stopped sh1 where p: "reap_pids os (j_pids j) sh = (pids, stopped, sh1)" by (metis prod_cases3)
  define sh2 where "sh2 = (if stopped then call (Notice (Stopped (j_id j) (j_cmd j))) sh1 else sh1)"
  define sh3 where "sh3 = (if pids = [] then call (Notice (Finished (j_id j) (j_cmd j))) sh2 else sh2)"
  obtain rest sh4 where r: "reap_loop os js sh3 = (rest, sh4)" by (rule prod.exhaust)
  have "quiet sh sh3" using reap_pids_quiet [OF p] by (simp add: sh2_def sh3_def quiet_call)
  moreover have "js' = (if pids = [] then rest else j\<lparr>j_pids := pids, j_stopped := j_stopped j \<or> stopped\<rparr> # rest)" "sh' = sh4"
    using Cons.prems p r [unfolded sh3_def sh2_def]
    by (cases "pids = []"; cases stopped; simp add: Let_def)+
  ultimately show ?case using Cons.IH [OF r] by (auto intro: quiet_trans)
qed simp

lemma reap_jobs_keeps: "keeps os sh (reap_jobs os sh)"
proof -
  obtain js sh' where r: "reap_loop os (jobs sh) sh = (js, sh')" by (rule prod.exhaust)
  note e = reap_loop_effect [OF r]
  then have "jobs_ok sh \<Longrightarrow> jobs_ok (sh'\<lparr>jobs := js\<rparr>)"
    by (auto simp: jobs_ok_def quiet_def list_all_iff)
  with e show ?thesis by (simp add: reap_jobs_def r keeps_def quiet_def home_def)
qed

lemma session_keeps: "session os inputs sh = Some (r, sh') \<Longrightarrow> keeps os sh sh'"
  by (induction os inputs sh rule: session.induct)
    (auto split: if_splits bind_splits dest!: main_round_keeps keeps_trans [OF reap_jobs_keeps] intro: reap_jobs_keeps keeps_trans)

text \<open>
  C38. The state of the shell over a whole session, for every sequence of input lines and every behaviour of the
  system it calls: whenever it has worked through its lines, the numbers of the jobs in its table are distinct and
  below the next number to give out, so that fg and bg name one job each. And if every command it tried could be
  started and every redirection opened, the terminal is the shell's own again, whatever was run, stopped, continued
  or left in the background.
\<close>

theorem shell_session:
  assumes "session os inputs (shell_new pgid) = Some (ends, sh)"
  shows "jobs_ok sh \<and> (starts_all os \<longrightarrow> home sh)"
  using session_keeps [OF assms] by (auto simp: keeps_def shell_new_def jobs_ok_def home_def)

text \<open>One background job and a builtin.\<close>

definition os_plain :: os where
  "os_plain = \<lparr>os_waitpid = \<lambda>_. Inr (0, 0), os_spawn = \<lambda>_. Inr (7, None), os_open = \<lambda>_. Inr 3, os_done = \<lambda>_. True,
     os_var = \<lambda>_ _. None\<rparr>"

lemma sample_lines:
  "tokenize [97, 38] = Inr [Word [97], Op Amp]"
  "parse_line [Word [97], Op Amp] =
     Inr [[\<lparr>ci_op = None, ci_pipeline = \<lparr>cmds = [\<lparr>argv = [[97]], redir = redir_default\<rparr>], background = True\<rparr>\<rparr>]]"
  by (simp_all add: tokenize_def flush_word_def is_whitespace_def parse_line_def parse_line_loop.simps parse_pipeline.simps
      parse_simple_def finish_simple_def Let_def)

lemma sample_session:
  "session os_plain [[97, 38]] (shell_new 5) = Some (True, \<lparr>jobs = [\<lparr>j_id = 1, j_pgid = 7, j_pids = [7], j_last_pid = 7,
     j_cmd = [97, 32, 38], j_stopped = False\<rparr>], next_job_id = 2, shell_pgid = 5,
     calls = [Setpgid 0 0, Tcsetpgrp 5, Spawn \<lparr>sp_argv = [[97]], sp_pgrp = 0, sp_foreground = False, sp_stdin = Inherit,
       sp_stdout = Inherit\<rparr>, Setpgid 7 7, Notice (Started 1 7), Waitpid 7 True]\<rparr>)"
  by (simp add: shell_new_def reap_jobs_def main_round_def normalize_input_def trim_def is_whitespace_def
      parse_for_loop_def starts_with_def lit_def execute_line_def sample_lines run_item_def skips_def run_builtin_def
      arg_at_def run_pipeline_def redirs_misplaced_def redir_default_def start_one_def open_stdin_def open_stdout_def
      or_inherit_def call_def os_plain_def pipeline_display_def Let_def)

theorem shell_session_witness: "\<exists>sh. session os_plain [[97, 38]] (shell_new 5) = Some (True, sh) \<and> length (jobs sh) = 1 \<and>
    starts_all os_plain \<and> jobs_ok sh \<and> home sh"
proof -
  have "starts_all os_plain" by (simp add: starts_all_def os_plain_def)
  with shell_session [OF sample_session] show ?thesis using sample_session by simp
qed

section \<open>And/or lists\<close>

text \<open>The usual reading of \<^verbatim>\<open>a && b || c\<close>: the operators have the same strength and group to the left.\<close>

datatype and_or = One cond_item | AndThen and_or cond_item | OrElse and_or cond_item

fun tree_from :: "and_or \<Rightarrow> cond_item list \<Rightarrow> and_or" where
  "tree_from t [] = t"
| "tree_from t (i # is) = tree_from ((if ci_op i = Some And then AndThen else OrElse) t i) is"

fun eval :: "os \<Rightarrow> and_or \<Rightarrow> shell \<Rightarrow> ((bool \<times> 32 word) \<times> shell) option" where
  "eval os (One i) sh = run_item os i sh"
| "eval os (AndThen t i) sh =
     do {
       ((ends, status), sh) \<leftarrow> eval os t sh;
       (if \<not> ends \<and> status = 0 then run_item os i sh else Some ((ends, status), sh))
     }"
| "eval os (OrElse t i) sh =
     do {
       ((ends, status), sh) \<leftarrow> eval os t sh;
       (if \<not> ends \<and> status \<noteq> 0 then run_item os i sh else Some ((ends, status), sh))
     }"

lemma eval_tree:
  "list_all (\<lambda>i. ci_op i \<noteq> None) is \<Longrightarrow>
   eval os (tree_from t is) sh =
     do {
       ((ends, status), sh) \<leftarrow> eval os t sh;
       (if ends then Some ((True, status), sh) else run_chain os status is sh)
     }"
proof (induction "is" arbitrary: t)
  case Nil
  then show ?case by (cases "eval os t sh") auto
next
  case (Cons i "is")
  then obtain c where c: "ci_op i = Some c" by auto
  show ?case
    using Cons
    by (cases c; cases "eval os t sh") (auto simp: c skips_def split: prod.splits bind_splits)
qed

text \<open>
  Running a chain of pipelines is evaluating the and/or expression it stands for, the operators grouping to the
  left: a pipeline after \<^verbatim>\<open>&&\<close> runs exactly when what precedes it ended with status 0, one after \<^verbatim>\<open>||\<close>
  exactly when it ended with another status, a pipeline that is skipped leaves the status as it is, and nothing runs
  after exit. It holds for the chains of every line the parser returns, with every behaviour of the system.
\<close>

lemma chain_and_or:
  "tokenize s = Inr ts \<Longrightarrow> parse_line ts = Inr seqs \<Longrightarrow> ch \<in> set seqs \<Longrightarrow>
   run_chain os 0 ch sh = eval os (tree_from (One (hd ch)) (tl ch)) sh"
proof -
  assume "tokenize s = Inr ts" "parse_line ts = Inr seqs" "ch \<in> set seqs"
  then have "chain_ok ch" using line_readable by (auto simp: list_all_iff)
  then obtain i "is" where ch: "ch = i # is" "ci_op i = None" "list_all (\<lambda>i. ci_op i \<noteq> None) is"
    by (cases ch) (auto simp: chain_ok_def)
  then show ?thesis by (simp add: eval_tree skips_def)
qed

section \<open>A command that does not start\<close>

text \<open>
  A foreground pipeline whose second command cannot be started: the shell reports status 1, but by then it has
  given the terminal to the group of the first command, and it neither takes it back nor waits for that command nor
  lists it as a job. The terminal stays with the first command's group, which ends unnoticed.
\<close>

lemma failed_stage_keeps_terminal:
  fixes sh :: shell and c d :: simple_cmd and pid fd :: nat
  assumes "argv c \<noteq> []" "argv d \<noteq> []" "list_all (\<lambda>x. redir x = redir_default) (c # d # ds)"
  defines "first \<equiv> Spawn \<lparr>sp_argv = argv c, sp_pgrp = 0, sp_foreground = True, sp_stdin = Inherit, sp_stdout = MakePipe\<rparr>"
  defines "second \<equiv> Spawn \<lparr>sp_argv = argv d, sp_pgrp = pid, sp_foreground = False, sp_stdin = Fd fd,
    sp_stdout = (if ds = [] then Inherit else MakePipe)\<rparr>"
  defines "before \<equiv> calls sh @ [first, Setpgid pid pid, Tcsetpgrp pid]"
  assumes "os_spawn os (calls sh @ [first]) = Inr (pid, Some fd)" "os_spawn os (before @ [second]) = Inl e"
  shows "run_pipeline os \<lparr>cmds = c # d # ds, background = False\<rparr> sh =
    Some (Inr 1, sh\<lparr>calls := before @ [second, Notice Complaint]\<rparr>)"
proof -
  have r: "rd_input (redir x) = None" "rd_output (redir x) = None" if "x \<in> set (c # d # ds)" for x
    using that assms(3) by (auto simp: list_all_iff redir_default_def)
  then have "\<not> redirs_misplaced (c # d # ds)"
    by (auto simp: redirs_misplaced_def list_ex_iff dest: in_set_butlastD split: if_splits)
  then show ?thesis
    using assms(1,2,7,8) r [of c] r [of d]
    by (cases "ds = []")
      (simp_all add: run_pipeline_def start_one_def open_stdin_def open_stdout_def or_inherit_def Let_def
        first_def second_def before_def call_def)
qed

definition os_full :: os where
  "os_full = os_plain\<lparr>os_spawn := \<lambda>h. if length h = 3 then Inr (7, Some 4) else Inl (OtherError 2)\<rparr>"

lemma failed_stage_keeps_terminal_example:
  "\<exists>sh. run_pipeline os_full \<lparr>cmds = [\<lparr>argv = [[97]], redir = redir_default\<rparr>, \<lparr>argv = [[98]], redir = redir_default\<rparr>],
     background = False\<rparr> (shell_new 5) = Some (Inr 1, sh) \<and> \<not> home sh \<and> jobs sh = []"
  using failed_stage_keeps_terminal [of "\<lparr>argv = [[97]], redir = redir_default\<rparr>" "\<lparr>argv = [[98]], redir = redir_default\<rparr>" "[]"
      os_full "shell_new 5" 7 4 "OtherError 2"]
  by (simp add: os_full_def os_plain_def shell_new_def home_def)

end
