(* ===== verification/Umalloc.thy ===== *)
theory Umalloc
  imports Main "HOL-Library.Monad_Syntax"
begin

text \<open>
  The memory allocator of user programs (\<^verbatim>\<open>crates/user/src/lib/umalloc.rs\<close>): a circular list of free blocks in
  the order of their addresses, searched from where the last search ended. A block starts with its header, a link
  and a size in units of the header, 16 bytes. The headers are kept by address. An absent pointer is the address 0,
  as \<^verbatim>\<open>Option<NonNull<Header>>\<close> represents it. None is a panic or a loop that does not end.
\<close>

section \<open>Model\<close>

record umem =
  u_base :: nat
  u_freep :: nat
  u_ptr :: "nat \<Rightarrow> nat"
  u_size :: "nat \<Rightarrow> nat"
  u_brk :: nat

definition HDR :: nat where "HDR = 16"

definition padd :: "nat \<Rightarrow> nat \<Rightarrow> nat" where
  "padd p n = p + n * HDR"

definition unwrap :: "nat \<Rightarrow> nat option" where
  "unwrap p = (if p = 0 then None else Some p)"

definition set_ptr :: "nat \<Rightarrow> nat \<Rightarrow> umem \<Rightarrow> umem" where
  "set_ptr p q u = u\<lparr>u_ptr := (u_ptr u)(p := q)\<rparr>"

definition set_size :: "nat \<Rightarrow> nat \<Rightarrow> umem \<Rightarrow> umem" where
  "set_size p n u = u\<lparr>u_size := (u_size u)(p := n)\<rparr>"

definition umem_new :: "nat \<Rightarrow> nat \<Rightarrow> umem" where
  "umem_new b brk = \<lparr>u_base = b, u_freep = 0, u_ptr = \<lambda>_. 0, u_size = \<lambda>_. 0, u_brk = brk\<rparr>"

text \<open>The search in \<^verbatim>\<open>free\<close> for the block after which the freed one belongs.\<close>

partial_function (option) find_place :: "nat \<Rightarrow> umem \<Rightarrow> nat \<Rightarrow> nat option" where
  "find_place bp u p =
     (let q = u_ptr u p
      in if p = 0 then None
         else if p < bp \<and> bp < q then Some p
         else if q \<le> p \<and> (p < bp \<or> bp < q) then Some p
         else find_place bp u q)"

definition ufree :: "nat \<Rightarrow> umem \<Rightarrow> umem option" where
  "ufree ap u =
     do {
       bp \<leftarrow> unwrap (ap - HDR);
       p \<leftarrow> find_place bp u (u_freep u);
       u \<leftarrow> (if padd bp (u_size u bp) = u_ptr u p then
               do {
                 q \<leftarrow> unwrap (u_ptr u p);
                 Some (set_ptr bp (u_ptr u q) (set_size bp (u_size u bp + u_size u q) u))
               }
             else Some (set_ptr bp (u_ptr u p) u));
       u \<leftarrow> Some (if padd p (u_size u p) = bp then set_ptr p (u_ptr u bp) (set_size p (u_size u p + u_size u bp) u)
             else set_ptr p bp u);
       Some (u\<lparr>u_freep := p\<rparr>)
     }"

text \<open>\<^verbatim>\<open>sbrk\<close> extends the memory of the process by a number of bytes; it gets the end of the memory it handed out
  before and returns the start of the new part, if there is room.\<close>

definition morecore :: "(nat \<Rightarrow> nat \<Rightarrow> nat option) \<Rightarrow> nat \<Rightarrow> umem \<Rightarrow> (nat \<times> umem) option" where
  "morecore sbrk nu u =
     (let nu = max nu 4096
      in case sbrk (u_brk u) (nu * HDR) of
           None \<Rightarrow> Some (0, u)
         | Some a \<Rightarrow>
             do {
               p \<leftarrow> unwrap a;
               u \<leftarrow> ufree (padd p 1) (set_size p nu (u\<lparr>u_brk := a + nu * HDR\<rparr>));
               Some (u_freep u, u)
             })"

text \<open>The block is taken whole or from its end.\<close>

definition take_block :: "nat \<Rightarrow> nat \<Rightarrow> nat \<Rightarrow> umem \<Rightarrow> nat \<times> umem" where
  "take_block nunits prevp p u =
     (if u_size u p = nunits then (padd p 1, (set_ptr prevp (u_ptr u p) u)\<lparr>u_freep := prevp\<rparr>)
      else
        (let u = set_size p (u_size u p - nunits) u;
             p' = padd p (u_size u p)
         in (padd p' 1, (set_size p' nunits u)\<lparr>u_freep := prevp\<rparr>)))"

partial_function (option) alloc_loop ::
  "(nat \<Rightarrow> nat \<Rightarrow> nat option) \<Rightarrow> nat \<Rightarrow> nat \<Rightarrow> nat \<Rightarrow> umem \<Rightarrow> (nat \<times> umem) option"
where
  "alloc_loop sbrk nunits prevp p u =
     (if p = 0 then None
      else if nunits \<le> u_size u p then Some (take_block nunits prevp p u)
      else if p = u_freep u then
        do {
          (np, u) \<leftarrow> morecore sbrk nunits u;
          (if np = 0 then Some (0, u) else alloc_loop sbrk nunits np (u_ptr u np) u)
        }
      else alloc_loop sbrk nunits p (u_ptr u p) u)"

definition ualloc :: "(nat \<Rightarrow> nat \<Rightarrow> nat option) \<Rightarrow> nat \<Rightarrow> umem \<Rightarrow> (nat \<times> umem) option" where
  "ualloc sbrk nbytes u =
     (let nunits = (nbytes + HDR - 1) div HDR + 1;
          u = (if u_freep u = 0 then set_size (u_base u) 0 (set_ptr (u_base u) (u_base u) (u\<lparr>u_freep := u_base u\<rparr>)) else u)
      in alloc_loop sbrk nunits (u_freep u) (u_ptr u (u_freep u)) u)"

end
