(* ===== verification/Umalloc_Laws.thy ===== *)
theory Umalloc_Laws
  imports Umalloc
begin

text \<open>
  The allocator of user programs: its list of free blocks stays a ring in the order of the addresses, its blocks
  stay apart from each other, its loops end, and so the allocations of a program never overlap.
\<close>

section \<open>Rings\<close>

fun linked :: "(nat \<Rightarrow> nat) \<Rightarrow> nat list \<Rightarrow> nat \<Rightarrow> bool" where
  "linked h [] e = True"
| "linked h [x] e = (h x = e)"
| "linked h (x # y # ys) e = (h x = y \<and> linked h (y # ys) e)"

lemma linked_cong: "(\<And>x. x \<in> set xs \<Longrightarrow> h x = h' x) \<Longrightarrow> linked h xs e = linked h' xs e"
  by (induction h xs e rule: linked.induct) auto

lemma linked_upd: "y \<notin> set xs \<Longrightarrow> linked (h(y := z)) xs e = linked h xs e"
  by (rule linked_cong) auto

lemma linked_append: "xs \<noteq> [] \<Longrightarrow> ys \<noteq> [] \<Longrightarrow> linked h (xs @ ys) e \<longleftrightarrow> linked h xs (hd ys) \<and> linked h ys e"
proof (induction h xs e rule: linked.induct)
  case (2 h x e)
  then show ?case by (cases ys) auto
qed auto

lemma linked_nth: "linked h xs e \<Longrightarrow> i < length xs \<Longrightarrow> h (xs ! i) = (xs @ [e]) ! Suc i"
proof (induction h xs e arbitrary: i rule: linked.induct)
  case (3 h x y ys e)
  then show ?case by (cases i) auto
qed auto

definition ring :: "umem \<Rightarrow> nat list \<Rightarrow> bool" where
  "ring u xs \<longleftrightarrow> xs \<noteq> [] \<and> distinct xs \<and> 0 \<notin> set xs \<and> linked (u_ptr u) xs (hd xs)"

definition at :: "nat list \<Rightarrow> nat \<Rightarrow> nat \<Rightarrow> nat" where
  "at xs i k = xs ! ((i + k) mod length xs)"

lemma at_in: "xs \<noteq> [] \<Longrightarrow> at xs i k \<in> set xs"
  by (simp add: at_def)

lemma ring_next:
  assumes "ring u xs"
  shows "u_ptr u (at xs i k) = at xs i (Suc k)"
proof -
  let ?n = "length xs" let ?j = "(i + k) mod ?n"
  have n: "0 < ?n" using assms by (simp add: ring_def)
  then have "u_ptr u (xs ! ?j) = (xs @ [hd xs]) ! Suc ?j" using assms linked_nth by (simp add: ring_def)
  moreover have "(xs @ [hd xs]) ! Suc ?j = xs ! (Suc ?j mod ?n)"
  proof (cases "Suc ?j < ?n")
    case True
    then show ?thesis by (simp add: nth_append)
  next
    case False
    then have "Suc ?j = ?n" using n by (metis Suc_lessI mod_less_divisor)
    with n show ?thesis by (simp add: nth_append hd_conv_nth)
  qed
  ultimately show ?thesis by (simp add: at_def mod_Suc_eq)
qed

lemma at_reaches:
  assumes "x \<in> set xs"
  shows "\<exists>k < length xs. at xs i k = x"
proof -
  let ?n = "length xs"
  obtain j where j: "j < ?n" "xs ! j = x" using assms by (metis in_set_conv_nth)
  let ?k = "(j + ?n - i mod ?n) mod ?n"
  have i: "i mod ?n < ?n" using j by (intro mod_less_divisor) linarith
  have "(i + ?k) mod ?n = (i mod ?n + (j + ?n - i mod ?n)) mod ?n" by (simp add: mod_add_eq mod_simps)
  also have "\<dots> = j" using i j by simp
  finally have "at xs i ?k = x" using j by (simp add: at_def)
  moreover have "?k < ?n" using j by (intro mod_less_divisor) linarith
  ultimately show ?thesis by blast
qed

lemma at_period: "at xs i (length xs) = at xs i 0"
  by (simp add: at_def)

lemma at_once:
  assumes "distinct xs" "0 < k" "k < length xs"
  shows "at xs i k \<noteq> at xs i 0"
proof
  let ?n = "length xs"
  assume "at xs i k = at xs i 0"
  moreover have "0 < ?n" using assms(2,3) by linarith
  ultimately have "(i + k) mod ?n = i mod ?n" using assms(1) by (simp add: at_def nth_eq_iff_index_eq)
  then have "?n dvd (i + k) - i" by (metis mod_eq_dvd_iff_nat le_add1)
  then show False using assms by (simp add: nat_dvd_not_less)
qed

lemma at_start: "x \<in> set xs \<Longrightarrow> \<exists>i. x = at xs i 0"
  by (metis at_def add_0_right in_set_conv_nth mod_less)

text \<open>The search of \<^verbatim>\<open>free\<close> ends at the block before which no other free block below the freed one follows.\<close>

definition before :: "nat list \<Rightarrow> nat \<Rightarrow> nat \<Rightarrow> bool" where
  "before xs bp p \<longleftrightarrow> (\<exists>as bs. xs = as @ p # bs \<and> p < bp \<and> (\<forall>b \<in> set bs. bp < b))"

lemma before_exists:
  assumes "sorted_wrt (<) xs" "xs \<noteq> []" "hd xs < bp" "bp \<notin> set xs"
  shows "\<exists>p. before xs bp p"
  using assms
proof (induction xs)
  case (Cons x xs)
  show ?case
  proof (cases "xs \<noteq> [] \<and> hd xs < bp")
    case True
    with Cons obtain p where "before xs bp p" by auto
    then show ?thesis unfolding before_def by (metis append_Cons)
  next
    case False
    have "\<forall>b \<in> set xs. bp < b"
    proof
      fix b assume b: "b \<in> set xs"
      then have "hd xs \<le> b" using Cons.prems(1) by (cases xs) auto
      moreover have "hd xs \<noteq> bp" using b Cons.prems(4) by (cases xs) auto
      ultimately show "bp < b" using False b by (cases xs) auto
    qed
    with Cons.prems(3) show ?thesis unfolding before_def by (intro exI [of _ x] exI [of _ "[]"] exI [of _ xs]) simp
  qed
qed simp

lemma find_place_stops:
  assumes r: "ring u xs" and s: "sorted_wrt (<) xs" and p: "before xs bp p"
  shows "find_place bp u p = Some p"
proof -
  obtain as bs where xs: "xs = as @ p # bs" and less: "p < bp" and above: "\<forall>b \<in> set bs. bp < b"
    using p by (auto simp: before_def)
  have l: "linked (u_ptr u) (as @ p # bs) (hd xs)" and nz: "p \<noteq> 0" using r by (auto simp: ring_def xs)
  have next': "u_ptr u p = (case bs of [] \<Rightarrow> hd xs | b # _ \<Rightarrow> b)"
    using l linked_append [of as "p # bs"] by (cases as; cases bs) auto
  show ?thesis
  proof (cases bs)
    case Nil
    then have "hd xs \<le> p" using s xs by (cases as) auto
    with next' Nil less nz show ?thesis by (simp add: find_place.simps [of bp u p])
  next
    case (Cons b bs')
    with next' less above nz show ?thesis by (simp add: find_place.simps [of bp u p])
  qed
qed

lemma find_place_goes_on:
  assumes r: "ring u xs" and s: "sorted_wrt (<) xs" and p: "before xs bp p" and x: "x \<in> set xs" "x \<noteq> p"
    and low: "hd xs < bp" "bp \<notin> set xs"
  shows "find_place bp u x = find_place bp u (u_ptr u x)"
proof -
  obtain as bs where xs: "xs = as @ p # bs" and less: "p < bp" and above: "\<forall>b \<in> set bs. bp < b"
    using p by (auto simp: before_def)
  obtain cs ds where xc: "xs = cs @ x # ds" using x(1) by (meson split_list)
  have nz: "x \<noteq> 0" using r x(1) unfolding ring_def by metis
  have "linked (u_ptr u) (cs @ x # ds) (hd xs)" using r xc by (simp add: ring_def)
  then have next': "u_ptr u x = (case ds of [] \<Rightarrow> hd xs | d # _ \<Rightarrow> d)"
    using linked_append [of cs "x # ds"] by (cases cs; cases ds) auto
  have srt: "\<forall>c \<in> set cs. c < x" "\<forall>d \<in> set ds. x < d" using s by (auto simp: xc sorted_wrt_append)
  have ps: "\<forall>a \<in> set as. a < p" using s by (auto simp: xs sorted_wrt_append)
  have inset: "x \<in> set as \<or> x \<in> set bs" using x xs by auto
  show ?thesis
  proof (cases "x \<in> set as")
    case True
    then have "x < p" using ps by blast
    then have "p \<in> set ds" using xs xc srt(1) by (metis Un_iff append_Cons in_set_conv_decomp less_irrefl less_trans list.set_intros(1) set_ConsD set_append)
    then obtain d ds' where ds: "ds = d # ds'" by (cases ds) auto
    have "d \<le> p" using \<open>p \<in> set ds\<close> s by (auto simp: ds xc sorted_wrt_append)
    with next' ds less \<open>x < p\<close> srt(2) nz show ?thesis by (simp add: find_place.simps [of bp u x])
  next
    case False
    then have "bp < x" using inset above by blast
    moreover have "u_ptr u x = hd xs \<or> x < u_ptr u x"
      using next' srt(2) by (cases ds) auto
    ultimately show ?thesis using low nz by (auto simp: find_place.simps [of bp u x] Let_def)
  qed
qed

lemma find_place_finds:
  assumes r: "ring u xs" and s: "sorted_wrt (<) xs" and x: "x \<in> set xs" and low: "hd xs < bp" "bp \<notin> set xs"
  shows "\<exists>p. find_place bp u x = Some p \<and> before xs bp p"
proof -
  have ne: "xs \<noteq> []" using x by auto
  obtain p where p: "before xs bp p" using before_exists [OF s ne low] by blast
  then have pin: "p \<in> set xs" by (auto simp: before_def)
  obtain i where i: "x = at xs i 0" using at_start [OF x] by blast
  obtain k where k: "at xs i k = p" using at_reaches [OF pin] by blast
  have "find_place bp u (at xs i (k - j)) = Some p" if "j \<le> k" for j
    using that
  proof (induction j)
    case 0
    then show ?case using find_place_stops [OF r s p] k by simp
  next
    case (Suc j)
    let ?y = "at xs i (k - Suc j)"
    show ?case
    proof (cases "?y = p")
      case True
      then show ?thesis using find_place_stops [OF r s p] by simp
    next
      case False
      have "u_ptr u ?y = at xs i (k - j)" using ring_next [OF r, of i "k - Suc j"] Suc.prems by (simp add: Suc_diff_Suc)
      then show ?thesis using find_place_goes_on [OF r s p at_in [OF ne] False low] Suc by simp
    qed
  qed
  from this [of k] show ?thesis using i p by auto
qed

section \<open>Blocks\<close>

definition apart :: "umem \<Rightarrow> nat \<Rightarrow> nat \<Rightarrow> bool" where
  "apart u a b \<longleftrightarrow> padd a (u_size u a) \<le> b \<or> padd b (u_size u b) \<le> a"

definition placed :: "umem \<Rightarrow> nat \<Rightarrow> bool" where
  "placed u a \<longleftrightarrow> u_base u + HDR \<le> a \<and> 0 < u_size u a \<and> HDR dvd a \<and> padd a (u_size u a) \<le> u_brk u"

text \<open>The state with the free blocks \<^term>\<open>tl xs\<close> and the outstanding blocks \<^term>\<open>A\<close>.\<close>

definition core :: "umem \<Rightarrow> nat list \<Rightarrow> nat set \<Rightarrow> bool" where
  "core u xs A \<longleftrightarrow> ring u xs \<and> hd xs = u_base u \<and> sorted_wrt (<) xs \<and> u_freep u \<in> set xs \<and> u_size u (u_base u) = 0 \<and>
     A \<inter> set xs = {} \<and> (\<forall>a \<in> set (tl xs) \<union> A. placed u a) \<and> u_base u + HDR \<le> u_brk u \<and> pairwise (apart u) (set xs \<union> A)"

lemma merge_apart:
  assumes "pairwise (apart u) B" "b \<in> B" "c \<in> B" "c = padd b (u_size u b)" "b \<noteq> c"
  shows "pairwise (apart (set_size b (u_size u b + u_size u c) u)) (B - {c})"
proof (rule pairwiseI)
  fix x y
  assume xy: "x \<in> B - {c}" "y \<in> B - {c}" "x \<noteq> y"
  have other: "apart (set_size b (u_size u b + u_size u c) u) b x" if "x \<in> B" "x \<noteq> c" "x \<noteq> b" for x
  proof -
    have "apart u b x" "apart u c x" using assms that by (auto simp: pairwise_def)
    moreover have "x \<noteq> c" by (rule that)
    ultimately show ?thesis using assms(4) that by (auto simp: apart_def set_size_def padd_def algebra_simps)
  qed
  have sym: "apart v x y = apart v y x" for v by (auto simp: apart_def)
  show "apart (set_size b (u_size u b + u_size u c) u) x y"
  proof (cases "x = b \<or> y = b")
    case True
    then show ?thesis using other [of x] other [of y] xy sym by auto
  next
    case False
    then have "apart u x y" using assms(1) xy by (auto simp: pairwise_def)
    with False show ?thesis by (simp add: apart_def set_size_def)
  qed
qed

lemma linked_replace:
  assumes "linked h (as @ p # bs) e" "linked h' cs e" "\<And>a. a \<in> set as \<Longrightarrow> h' a = h a" "h' p = hd (cs @ [e])"
  shows "linked h' (as @ p # cs) e"
proof -
  have p: "linked h' (p # cs) e" using assms(2,4) by (cases cs) auto
  show ?thesis
  proof (cases "as = []")
    case False
    then have "linked h as p" using assms(1) linked_append [of as "p # bs"] by simp
    then have "linked h' as p" using linked_cong [of as h' h] assms(3) by blast
    with p False show ?thesis using linked_append [of as "p # cs"] by simp
  qed (use p in simp)
qed

lemma linked_tail: "linked h (as @ p # bs) e \<Longrightarrow> h p = hd (bs @ [e]) \<and> linked h bs e"
  using linked_append [of as "p # bs" h e] by (cases as; cases bs) auto

section \<open>Freeing\<close>

text \<open>Between the two halves of \<^verbatim>\<open>free\<close>: the freed block leads on to the rest of the list, but is not linked in.\<close>

definition half :: "umem \<Rightarrow> nat list \<Rightarrow> nat \<Rightarrow> nat \<Rightarrow> nat list \<Rightarrow> nat set \<Rightarrow> bool" where
  "half u as p bp bs A \<longleftrightarrow> (as \<noteq> [] \<longrightarrow> linked (u_ptr u) as p) \<and> linked (u_ptr u) (bp # bs) (u_base u) \<and>
     hd (as @ [p]) = u_base u \<and> 0 < u_base u \<and> sorted_wrt (<) (as @ p # bp # bs) \<and> u_size u (u_base u) = 0 \<and>
     A \<inter> set (as @ p # bp # bs) = {} \<and> (\<forall>a \<in> set (tl (as @ p # bp # bs)) \<union> A. placed u a) \<and>
     u_base u + HDR \<le> u_brk u \<and> pairwise (apart u) (set (as @ p # bp # bs) \<union> A)"

definition free_up :: "nat \<Rightarrow> nat \<Rightarrow> umem \<Rightarrow> umem" where
  "free_up bp p u =
     (if padd bp (u_size u bp) = u_ptr u p
      then set_ptr bp (u_ptr u (u_ptr u p)) (set_size bp (u_size u bp + u_size u (u_ptr u p)) u)
      else set_ptr bp (u_ptr u p) u)"

definition free_down :: "nat \<Rightarrow> nat \<Rightarrow> umem \<Rightarrow> umem" where
  "free_down bp p u =
     (if padd p (u_size u p) = bp then set_ptr p (u_ptr u bp) (set_size p (u_size u p + u_size u bp) u)
      else set_ptr p bp u)"

lemma update_fields [simp]:
  "u_base (set_ptr p q u) = u_base u" "u_brk (set_ptr p q u) = u_brk u" "u_freep (set_ptr p q u) = u_freep u"
  "u_size (set_ptr p q u) = u_size u" "u_ptr (set_ptr p q u) = (u_ptr u)(p := q)"
  "u_base (set_size p n u) = u_base u" "u_brk (set_size p n u) = u_brk u" "u_freep (set_size p n u) = u_freep u"
  "u_size (set_size p n u) = (u_size u)(p := n)" "u_ptr (set_size p n u) = u_ptr u"
  by (simp_all add: set_ptr_def set_size_def)

lemma apart_same [simp]: "apart (set_ptr p q u) = apart u" "apart (u\<lparr>u_freep := f\<rparr>) = apart u"
  by (simp_all add: apart_def fun_eq_iff)

lemma placed_same [simp]: "placed (set_ptr p q u) = placed u" "placed (u\<lparr>u_freep := f\<rparr>) = placed u"
  by (simp_all add: placed_def fun_eq_iff)

lemma placed_other: "a \<noteq> b \<Longrightarrow> placed (set_size b n u) a = placed u a"
  by (simp add: placed_def)

lemma placed_resized: "\<forall>a \<in> S. a = b \<or> placed u a \<Longrightarrow> placed (set_size b n u) b \<Longrightarrow> \<forall>a \<in> S. placed (set_size b n u) a"
  by (metis placed_other)

lemma core_base: "core u xs A \<Longrightarrow> 0 < u_base u \<and> u_base u \<in> set xs"
  unfolding core_def ring_def by (metis gr0I hd_in_set)

lemma free_up_half:
  assumes c: "core u xs (insert bp A)" and bp: "bp \<notin> A" and xs: "xs = as @ p # bs" and p: "p < bp" "\<forall>b \<in> set bs. bp < b"
  shows "\<exists>bs'. half (free_up bp p u) as p bp bs' A \<and> u_size u bp \<le> u_size (free_up bp p u) bp"
proof -
  have l: "linked (u_ptr u) (as @ p # bs) (u_base u)" and base: "hd (as @ [p]) = u_base u" and s: "sorted_wrt (<) (as @ p # bs)"
    and z: "u_size u (u_base u) = 0" and dis: "insert bp A \<inter> set xs = {}"
    and pl: "\<forall>a \<in> set (tl xs) \<union> insert bp A. placed u a" and brk: "u_base u + HDR \<le> u_brk u"
    and pw: "pairwise (apart u) (set xs \<union> insert bp A)"
    using c by (cases as; auto simp: core_def ring_def xs)+
  have b0: "0 < u_base u" using core_base [OF c] by simp
  have asl: "as \<noteq> [] \<longrightarrow> linked (u_ptr u) as p" using l linked_append [of as "p # bs" "u_ptr u" "u_base u"] by auto
  note tail = linked_tail [OF l]
  have bpas: "bp \<notin> set (as @ p # bs)" using dis by (simp add: xs)
  have srt: "sorted_wrt (<) (as @ p # bp # bs)" using s p by (auto simp: sorted_wrt_append)
  show ?thesis
  proof (cases "padd bp (u_size u bp) = u_ptr u p")
    case False
    have "linked ((u_ptr u)(bp := u_ptr u p)) (bp # bs) (u_base u)"
      using tail bpas by (cases bs) (auto simp: linked_upd)
    moreover have "as \<noteq> [] \<longrightarrow> linked ((u_ptr u)(bp := u_ptr u p)) as p" using asl bpas by (simp add: linked_upd)
    moreover have "set (as @ p # bp # bs) \<union> A = set xs \<union> insert bp A" by (auto simp: xs)
    moreover have "\<forall>a \<in> set (tl (as @ p # bp # bs)) \<union> A. placed u a" using pl by (cases as) (auto simp: xs)
    ultimately have "half (set_ptr bp (u_ptr u p) u) as p bp bs A"
      using base b0 srt z dis brk pw bp
      by (auto simp: half_def xs)
    then show ?thesis using False by (auto simp: free_up_def)
  next
    case True
    have n: "0 < u_size u bp" "u_base u + HDR \<le> bp" using pl by (auto simp: placed_def)
    then have "bp < u_ptr u p" using True [symmetric] by (simp add: padd_def HDR_def)
    then obtain q bs' where bs: "bs = q # bs'" using tail n(2) by (cases bs) auto
    have q: "u_ptr u p = q" "u_ptr u q = hd (bs' @ [u_base u])" "linked (u_ptr u) bs' (u_base u)"
      using tail linked_tail [of "u_ptr u" "[]" q bs' "u_base u"] by (simp_all add: bs)
    define u1 where "u1 = set_size bp (u_size u bp + u_size u q) u"
    have "pairwise (apart u1) (set xs \<union> insert bp A - {q})"
      unfolding u1_def
    proof (rule merge_apart [OF pw])
      show "bp \<in> set xs \<union> insert bp A" "q \<in> set xs \<union> insert bp A" "bp \<noteq> q" using bpas by (auto simp: xs bs)
      show "q = padd bp (u_size u bp)" using True q(1) by simp
    qed
    moreover have "set (as @ p # bp # bs') \<union> A \<subseteq> set xs \<union> insert bp A - {q}"
      using s dis bpas by (auto simp: xs bs sorted_wrt_append)
    ultimately have pw1: "pairwise (apart u1) (set (as @ p # bp # bs') \<union> A)" by (rule pairwise_subset)
    have "placed u q" using pl by (cases as) (auto simp: xs bs)
    then have "placed u1 bp" using n True q(1) pl by (auto simp: placed_def u1_def padd_def algebra_simps)
    moreover have "\<forall>a \<in> set (tl (as @ p # bp # bs')) \<union> A. a = bp \<or> placed u a"
      using pl by (cases as) (auto simp: xs bs)
    ultimately have pl1: "\<forall>a \<in> set (tl (as @ p # bp # bs')) \<union> A. placed u1 a"
      unfolding u1_def by (intro placed_resized)
    have "linked ((u_ptr u)(bp := u_ptr u q)) (bp # bs') (u_base u)"
      using q bpas by (cases bs') (auto simp: bs linked_upd)
    moreover have "as \<noteq> [] \<longrightarrow> linked ((u_ptr u)(bp := u_ptr u q)) as p" using asl bpas by (simp add: linked_upd)
    moreover have "sorted_wrt (<) (as @ p # bp # bs')" using srt by (auto simp: bs sorted_wrt_append)
    moreover have "u_base u \<noteq> bp" using n(2) by (simp add: HDR_def)
    ultimately have "half (set_ptr bp (u_ptr u q) u1) as p bp bs' A"
      using base b0 z dis brk pw1 pl1 bp unfolding half_def apart_same placed_same
      by (simp add: xs bs u1_def)
    then show ?thesis using True q(1) by (auto simp: free_up_def u1_def)
  qed
qed

lemma sorted_distinct: "sorted_wrt (<) xs \<Longrightarrow> distinct (xs :: nat list)"
  by (induction xs) auto

lemma ring_join:
  assumes "as \<noteq> [] \<longrightarrow> linked h as p" "linked h cs b" "hd (as @ [p]) = b" "0 < b" "sorted_wrt (<) (as @ p # cs)"
    "u_ptr u = h(p := hd (cs @ [b]))"
  shows "ring u (as @ p # cs)"
proof -
  have d: "distinct (as @ p # cs)" by (rule sorted_distinct) (rule assms(5))
  have "linked (u_ptr u) (p # cs) b" using assms(2,6) d by (cases cs) (auto simp: linked_upd)
  moreover have "as \<noteq> [] \<longrightarrow> linked (u_ptr u) as p" using assms(1,6) d by (simp add: linked_upd)
  ultimately have "linked (u_ptr u) (as @ p # cs) b"
    using linked_append [of as "p # cs" "u_ptr u" b] by (cases as) auto
  moreover have "hd (as @ p # cs) = b" using assms(3) by (cases as) auto
  moreover have "0 \<notin> set (as @ p # cs)" using assms(3-5) by (cases as) auto
  ultimately show ?thesis using d by (simp add: ring_def)
qed

lemma free_down_core:
  assumes h: "half u as p bp bs A"
  shows "\<exists>xs. core ((free_down bp p u)\<lparr>u_freep := p\<rparr>) xs A \<and> (\<exists>f \<in> set xs. u_size u bp \<le> u_size (free_down bp p u) f)"
proof -
  have l: "as \<noteq> [] \<longrightarrow> linked (u_ptr u) as p" "linked (u_ptr u) (bp # bs) (u_base u)"
    and base: "hd (as @ [p]) = u_base u" "0 < u_base u" and s: "sorted_wrt (<) (as @ p # bp # bs)"
    and z: "u_size u (u_base u) = 0" and dis: "A \<inter> set (as @ p # bp # bs) = {}"
    and pl: "\<forall>a \<in> set (tl (as @ p # bp # bs)) \<union> A. placed u a"
    and brk: "u_base u + HDR \<le> u_brk u" and pw: "pairwise (apart u) (set (as @ p # bp # bs) \<union> A)"
    using h by (simp_all add: half_def)
  have hd: "hd (as @ p # cs) = u_base u" for cs using base(1) by (cases as) auto
  show ?thesis
  proof (cases "padd p (u_size u p) = bp")
    case False
    have "ring ((set_ptr p bp u)\<lparr>u_freep := p\<rparr>) (as @ p # bp # bs)"
      by (rule ring_join [OF l base s]) simp
    then have "core ((set_ptr p bp u)\<lparr>u_freep := p\<rparr>) (as @ p # bp # bs) A"
      using hd s z dis pl brk pw by (simp add: core_def)
    then show ?thesis
      using False by (intro exI [of _ "as @ p # bp # bs"] conjI bexI [of _ bp]) (simp_all add: free_down_def)
  next
    case True
    have "p \<noteq> u_base u" using True z s by (auto simp: padd_def sorted_wrt_append)
    then have as: "as \<noteq> []" using base(1) by auto
    define u1 where "u1 = set_size p (u_size u p + u_size u bp) u"
    have pb: "p < bp" "\<forall>b \<in> set bs. p < b" and s': "sorted_wrt (<) (as @ p # bs)" using s by (auto simp: sorted_wrt_append)
    have "pairwise (apart u1) (set (as @ p # bp # bs) \<union> A - {bp})"
      unfolding u1_def by (rule merge_apart [OF pw]) (use True pb in auto)
    moreover have "set (as @ p # bs) \<union> A \<subseteq> set (as @ p # bp # bs) \<union> A - {bp}"
      using sorted_distinct [OF s] dis by auto
    ultimately have pw1: "pairwise (apart u1) (set (as @ p # bs) \<union> A)" by (rule pairwise_subset)
    have "placed u p" "placed u bp" using pl as by (cases as; auto)+
    then have "placed u1 p" using True by (auto simp: placed_def u1_def padd_def algebra_simps)
    moreover have "\<forall>a \<in> set (tl (as @ p # bs)) \<union> A. a = p \<or> placed u a" using pl as by (cases as) auto
    ultimately have pl1: "\<forall>a \<in> set (tl (as @ p # bs)) \<union> A. placed u1 a" unfolding u1_def by (intro placed_resized)
    have bp: "u_ptr u bp = hd (bs @ [u_base u])" "linked (u_ptr u) bs (u_base u)"
      using l(2) linked_tail [of "u_ptr u" "[]" bp bs] by simp_all
    have "ring ((set_ptr p (u_ptr u bp) u1)\<lparr>u_freep := p\<rparr>) (as @ p # bs)"
      by (rule ring_join [OF l(1) bp(2) base s']) (simp add: u1_def bp(1))
    then have "core ((set_ptr p (u_ptr u bp) u1)\<lparr>u_freep := p\<rparr>) (as @ p # bs) A"
      using hd s' z dis pl1 brk pw1 \<open>p \<noteq> u_base u\<close> by (auto simp: core_def u1_def)
    then show ?thesis
      using True by (intro exI [of _ "as @ p # bs"] conjI bexI [of _ p]) (simp_all add: free_down_def u1_def)
  qed
qed

lemma ufree_core:
  assumes c: "core u xs (insert bp A)" and bp: "bp \<notin> A"
  shows "\<exists>u' xs'. ufree (padd bp 1) u = Some u' \<and> core u' xs' A \<and> u_base u' = u_base u \<and> u_brk u' = u_brk u \<and>
    (\<forall>a \<in> A. u_size u' a = u_size u a) \<and> (\<exists>f \<in> set xs'. u_size u bp \<le> u_size u' f)"
proof -
  have low: "hd xs < bp" and nin: "bp \<notin> set xs" and r: "ring u xs" "sorted_wrt (<) xs" "u_freep u \<in> set xs"
    using c by (auto simp: core_def placed_def HDR_def)
  obtain p where p: "find_place bp u (u_freep u) = Some p" "before xs bp p" using find_place_finds [OF r low nin] by blast
  obtain as bs where xs: "xs = as @ p # bs" "p < bp" "\<forall>b \<in> set bs. bp < b" using p(2) by (auto simp: before_def)
  define u1 where "u1 = free_up bp p u"
  define u2 where "u2 = (free_down bp p u1)\<lparr>u_freep := p\<rparr>"
  obtain bs' where h: "half u1 as p bp bs' A" "u_size u bp \<le> u_size u1 bp"
    using free_up_half [OF c bp xs] unfolding u1_def by blast
  obtain xs' where c': "core u2 xs' A" "\<exists>f \<in> set xs'. u_size u1 bp \<le> u_size u2 f"
    using free_down_core [OF h(1)] by (auto simp: u2_def)
  obtain i where "p = at xs i 0" using at_start [of p xs] xs(1) by auto
  then have "u_ptr u p = at xs i (Suc 0)" using ring_next [OF r(1), of i 0] by simp
  then have "u_ptr u p \<in> set xs" using at_in [of xs] r(1) by (simp add: ring_def)
  then have nz: "u_ptr u p \<noteq> 0" "bp \<noteq> 0" using r(1) low unfolding ring_def by (metis, simp)
  have "ufree (padd bp 1) u = Some u2"
    using p(1) nz
    by (simp add: ufree_def padd_def HDR_def unwrap_def u2_def u1_def free_up_def free_down_def Let_def)
  moreover have "p \<notin> A" using c xs(1) by (auto simp: core_def)
  then have "\<forall>a \<in> A. u_size u2 a = u_size u a" using bp by (auto simp: u2_def u1_def free_up_def free_down_def)
  moreover have "u_base u2 = u_base u" "u_brk u2 = u_brk u" by (auto simp: u2_def u1_def free_up_def free_down_def)
  ultimately show ?thesis using c' h(2) by (meson order_trans)
qed

section \<open>Allocating\<close>

lemma split_apart:
  assumes "pairwise (apart u) B" "p \<in> B" "k < u_size u p"
  defines "p' \<equiv> padd p (u_size u p - k)"
  defines "u' \<equiv> set_size p' k (set_size p (u_size u p - k) u)"
  assumes "p' \<notin> B"
  shows "pairwise (apart u') (insert p' B)"
proof (rule pairwiseI)
  fix x y
  assume xy: "x \<in> insert p' B" "y \<in> insert p' B" "x \<noteq> y"
  have ne: "p \<noteq> p'" using assms(2,6) by auto
  have size: "u_size u' p = u_size u p - k" "u_size u' p' = k" "\<And>x. x \<noteq> p \<Longrightarrow> x \<noteq> p' \<Longrightarrow> u_size u' x = u_size u x"
    using ne by (auto simp: u'_def)
  have end': "padd p' k = padd p (u_size u p)" using assms(3) by (simp add: p'_def padd_def HDR_def)
  have mid: "p \<le> p'" by (simp add: p'_def padd_def)
  have sym: "apart v x y = apart v y x" for v x y by (auto simp: apart_def)
  have pp: "apart u' p p'" by (simp add: apart_def size p'_def)
  have one: "apart u' p x \<and> apart u' p' x" if "x \<in> B" "x \<noteq> p" for x
  proof -
    have "apart u p x" using assms(1,2) that by (auto simp: pairwise_def)
    moreover have "x \<noteq> p'" using that(1) assms(6) by auto
    ultimately show ?thesis using that end' mid size assms(3)
      by (auto simp: apart_def p'_def padd_def algebra_simps intro: order_trans)
  qed
  show "apart u' x y"
  proof (cases "x \<in> {p, p'} \<or> y \<in> {p, p'}")
    case True
    then show ?thesis using xy one pp sym by blast
  next
    case False
    then have "apart u x y" using assms(1) xy by (auto simp: pairwise_def)
    with False show ?thesis by (simp add: apart_def size)
  qed
qed

lemma split_fresh:
  assumes "pairwise (apart u) B" "p \<in> B" "k < u_size u p" "0 < k"
  shows "padd p (u_size u p - k) \<notin> B"
proof
  assume in': "padd p (u_size u p - k) \<in> B"
  have ne: "padd p (u_size u p - k) \<noteq> p" using assms(3) by (simp add: padd_def HDR_def)
  then have "apart u p (padd p (u_size u p - k))" using assms(1,2) in' by (auto simp: pairwise_def)
  then show False using assms(3,4) by (auto simp: apart_def padd_def HDR_def)
qed

lemma take_core:
  assumes c: "core u xs A" and x: "prevp \<in> set xs" "u_ptr u prevp = p" and k: "0 < k" "k \<le> u_size u p"
  shows "\<exists>a u' xs'. take_block k prevp p u = (padd a 1, u') \<and> core u' xs' (insert a A) \<and> a \<notin> A \<and> u_size u' a = k \<and>
    u_base u' = u_base u \<and> u_brk u' = u_brk u \<and> (\<forall>b \<in> A. u_size u' b = u_size u b)"
proof -
  have r: "ring u xs" and hd: "hd xs = u_base u" and s: "sorted_wrt (<) xs" and z: "u_size u (u_base u) = 0"
    and dis: "A \<inter> set xs = {}" and pl: "\<forall>a \<in> set (tl xs) \<union> A. placed u a" and brk: "u_base u + HDR \<le> u_brk u"
    and pw: "pairwise (apart u) (set xs \<union> A)"
    using c by (simp_all add: core_def)
  obtain as bs where xs: "xs = as @ prevp # bs" using x(1) by (meson split_list)
  have l: "linked (u_ptr u) (as @ prevp # bs) (u_base u)" using r hd by (simp add: ring_def xs)
  have "p \<noteq> u_base u" using k z by auto
  then obtain bs' where bs: "bs = p # bs'" using linked_tail [OF l] x(2) by (cases bs) auto
  have pt: "p \<in> set (tl xs)" by (cases as) (auto simp: xs bs)
  show ?thesis
  proof (cases "u_size u p = k")
    case True
    define u1 where "u1 = (set_ptr prevp (u_ptr u p) u)\<lparr>u_freep := prevp\<rparr>"
    have l': "as \<noteq> [] \<longrightarrow> linked (u_ptr u) as prevp" using l linked_append [of as "prevp # bs" "u_ptr u" "u_base u"] by auto
    have b: "u_ptr u p = hd (bs' @ [u_base u])" "linked (u_ptr u) bs' (u_base u)"
      using linked_tail [OF l] linked_tail [of "u_ptr u" "[]" p bs' "u_base u"] by (simp_all add: bs)
    have "sorted_wrt (<) (as @ prevp # bs')" using s by (auto simp: xs bs sorted_wrt_append)
    moreover have "0 < u_base u" using core_base [OF c] by simp
    moreover have h: "hd (as @ [prevp]) = u_base u" using hd by (cases as) (auto simp: xs)
    ultimately have "ring u1 (as @ prevp # bs')" using ring_join [OF l' b(2)] by (simp add: u1_def b(1))
    moreover have "set (as @ prevp # bs') \<union> insert p A = set xs \<union> A" by (auto simp: xs bs)
    moreover have "insert p A \<inter> set (as @ prevp # bs') = {}" using dis sorted_distinct [OF s] by (auto simp: xs bs)
    moreover have "\<forall>a \<in> set (tl (as @ prevp # bs')) \<union> insert p A. placed u a" using pl pt by (cases as) (auto simp: xs bs)
    moreover have "hd (as @ prevp # bs') = u_base u" using h by (cases as) auto
    ultimately have "core u1 (as @ prevp # bs') (insert p A)"
      using \<open>sorted_wrt (<) (as @ prevp # bs')\<close> z brk pw by (auto simp: core_def u1_def)
    moreover have "p \<notin> A" using dis by (auto simp: xs bs)
    ultimately show ?thesis using True by (intro exI [of _ p] exI [of _ u1]) (auto simp: take_block_def u1_def)
  next
    case False
    then have less: "k < u_size u p" using k(2) by simp
    define p' where "p' = padd p (u_size u p - k)"
    define u1 where "u1 = set_size p' k (set_size p (u_size u p - k) u)"
    have pin: "p \<in> set xs \<union> A" using pt by (cases xs) auto
    have fresh: "p' \<notin> set xs \<union> A" unfolding p'_def by (rule split_fresh [OF pw pin less k(1)])
    have pw1: "pairwise (apart u1) (insert p' (set xs \<union> A))"
      unfolding u1_def p'_def by (rule split_apart [OF pw pin less]) (use fresh in \<open>simp add: p'_def\<close>)
    have p: "placed u p" "p \<noteq> p'" using pl pt fresh pin by auto
    have "placed u1 p" "placed u1 p'"
      using p less k(1) by (auto simp: placed_def u1_def p'_def padd_def HDR_def)
    moreover have "placed u1 a = placed u a" if "a \<noteq> p" "a \<noteq> p'" for a using that by (simp add: placed_def u1_def)
    ultimately have pl1: "\<forall>a \<in> set (tl xs) \<union> insert p' A. placed u1 a" using pl by (metis UnE UnI1 UnI2 insertE)
    have base: "u_base u \<noteq> p'" "u_base u \<in> set xs" using core_base [OF c] fresh by auto
    have "ring (u1\<lparr>u_freep := prevp\<rparr>) xs" using r by (simp add: ring_def u1_def)
    then have "core (u1\<lparr>u_freep := prevp\<rparr>) xs (insert p' A)"
      using hd s z dis fresh pl1 brk pw1 x(1) base \<open>p \<noteq> u_base u\<close> by (auto simp: core_def u1_def)
    moreover have "p \<notin> A" using dis by (auto simp: xs bs)
    then have "\<forall>b \<in> A. u_size u1 b = u_size u b" using fresh by (auto simp: u1_def)
    moreover have "take_block k prevp p u = (padd p' 1, u1\<lparr>u_freep := prevp\<rparr>)"
      using False by (simp add: take_block_def u1_def p'_def Let_def)
    ultimately show ?thesis using fresh by (intro exI [of _ p'] exI [of _ "u1\<lparr>u_freep := prevp\<rparr>"] exI [of _ xs]) (auto simp: u1_def)
  qed
qed

text \<open>The search: it ends at the first block that is large enough, or where it started.\<close>

lemma alloc_walk:
  assumes r: "ring u xs" and f: "u_freep u = at xs i 0" and k: "k < length xs"
    and small: "\<And>j. 0 < j \<Longrightarrow> j \<le> k \<Longrightarrow> u_size u (at xs i j) < n"
  shows "alloc_loop sbrk n (at xs i 0) (at xs i 1) u = alloc_loop sbrk n (at xs i k) (at xs i (Suc k)) u"
  using k small
proof (induction k)
  case (Suc k)
  have "at xs i (Suc k) \<noteq> u_freep u" using at_once [of xs "Suc k" i] Suc.prems(1) r f by (simp add: ring_def)
  moreover have "at xs i (Suc k) \<noteq> 0" using at_in [of xs i "Suc k"] r unfolding ring_def by metis
  moreover have "\<not> n \<le> u_size u (at xs i (Suc k))" using Suc.prems(2) [of "Suc k"] by simp
  ultimately have "alloc_loop sbrk n (at xs i k) (at xs i (Suc k)) u = alloc_loop sbrk n (at xs i (Suc k)) (at xs i (Suc (Suc k))) u"
    using ring_next [OF r] by (simp add: alloc_loop.simps [of sbrk n "at xs i k"])
  with Suc show ?case by simp
qed simp

lemma alloc_found:
  assumes c: "core u xs A" and n: "0 < n" and big: "x \<in> set xs" "n \<le> u_size u x"
  shows "\<exists>prevp p. alloc_loop sbrk n (u_freep u) (u_ptr u (u_freep u)) u = Some (take_block n prevp p u) \<and>
    prevp \<in> set xs \<and> u_ptr u prevp = p \<and> n \<le> u_size u p"
proof -
  have r: "ring u xs" and f: "u_freep u \<in> set xs" using c by (simp_all add: core_def)
  obtain i where i: "u_freep u = at xs i 0" using at_start [OF f] by blast
  let ?P = "\<lambda>k. 0 < k \<and> n \<le> u_size u (at xs i k)"
  obtain k0 where k0: "k0 < length xs" "at xs i k0 = x" using at_reaches [OF big(1)] by blast
  have "?P (if k0 = 0 then length xs else k0)" using k0 big(2) at_period [of xs i] by auto
  note some = this
  define k where "k = (LEAST k. ?P k)"
  have k: "?P k" "\<And>j. j < k \<Longrightarrow> \<not> ?P j" "k \<le> (if k0 = 0 then length xs else k0)"
    unfolding k_def using LeastI [of ?P, OF some] not_less_Least [of _ ?P] Least_le [of ?P, OF some] by simp_all
  then obtain m where m: "k = Suc m" by (cases k) auto
  have "m < length xs" using k(3) m k0(1) by (auto split: if_splits)
  then have "alloc_loop sbrk n (at xs i 0) (at xs i 1) u = alloc_loop sbrk n (at xs i m) (at xs i (Suc m)) u"
    using alloc_walk [OF r i] k(2) m by (metis not_le le_imp_less_Suc)
  moreover have "at xs i (Suc m) \<noteq> 0" using at_in [of xs i "Suc m"] r unfolding ring_def by metis
  ultimately have "alloc_loop sbrk n (at xs i 0) (at xs i 1) u = Some (take_block n (at xs i m) (at xs i (Suc m)) u)"
    using k(1) m by (simp add: alloc_loop.simps [of sbrk n "at xs i m"])
  moreover have "u_ptr u (u_freep u) = at xs i 1" using i ring_next [OF r, of i 0] by simp
  moreover have "xs \<noteq> []" using k0(1) by auto
  then have "u_ptr u (at xs i m) = at xs i (Suc m)" "at xs i m \<in> set xs" using ring_next [OF r] at_in [of xs i m] by auto
  ultimately show ?thesis using i k(1) m by (intro exI [of _ "at xs i m"] exI [of _ "at xs i (Suc m)"]) auto
qed

text \<open>What the allocator relies on: memory grows upwards, in multiples of 16 bytes.\<close>

definition sbrk_ok :: "(nat \<Rightarrow> nat \<Rightarrow> nat option) \<Rightarrow> bool" where
  "sbrk_ok sbrk \<longleftrightarrow> (\<forall>b n a. sbrk b n = Some a \<longrightarrow> b \<le> a \<and> HDR dvd a)"

lemma core_grow:
  assumes c: "core u xs A" and a: "u_brk u \<le> a" "HDR dvd a" and n: "0 < n"
  shows "core (set_size a n (u\<lparr>u_brk := a + n * HDR\<rparr>)) xs (insert a A) \<and> a \<notin> A"
proof -
  define u1 where "u1 = set_size a n (u\<lparr>u_brk := a + n * HDR\<rparr>)"
  have pl: "\<forall>b \<in> set (tl xs) \<union> A. placed u b" and brk: "u_base u + HDR \<le> u_brk u" and pw: "pairwise (apart u) (set xs \<union> A)"
    and base: "hd xs = u_base u" "u_size u (u_base u) = 0" and ne: "xs \<noteq> []"
    using c by (simp_all add: core_def ring_def)
  have below: "padd b (u_size u b) \<le> u_brk u \<and> b < a" if "b \<in> set xs \<union> A" for b
  proof (cases "b = u_base u")
    case True
    then show ?thesis using base brk a(1) by (simp add: padd_def HDR_def)
  next
    case False
    then have "placed u b" using that pl base ne by (cases xs) auto
    then show ?thesis using a(1) by (auto simp: placed_def padd_def HDR_def)
  qed
  have fresh: "a \<notin> set xs \<union> A" using below by blast
  have size: "u_size u1 b = u_size u b" if "b \<in> set xs \<union> A" for b using that fresh by (auto simp: u1_def)
  have "apart u1 a b" "apart u1 b a" if "b \<in> set xs \<union> A" for b
    using below [OF that] size [OF that] a(1) by (auto simp: apart_def)
  moreover have "pairwise (apart u1) (set xs \<union> A)" using pw size by (auto simp: pairwise_def apart_def)
  ultimately have "pairwise (apart u1) (insert a (set xs \<union> A))" by (simp add: pairwise_insert)
  moreover have "placed u1 a" using a n brk by (simp add: placed_def u1_def padd_def)
  moreover have "placed u1 b" if b: "b \<in> set (tl xs) \<union> A" for b
  proof -
    have "b \<in> set xs \<union> A" using b ne by (cases xs) auto
    moreover have "placed u b" using b pl by blast
    ultimately show ?thesis using size [of b] below [of b] a(1) by (simp add: placed_def u1_def)
  qed
  moreover have "ring u1 xs" using c by (auto simp: core_def ring_def u1_def)
  moreover have "u_base u \<noteq> a" using a(1) brk by (simp add: HDR_def)
  ultimately show ?thesis using c fresh brk a(1) unfolding u1_def [symmetric] by (auto simp: core_def u1_def)
qed

definition units :: "nat \<Rightarrow> nat" where
  "units nbytes = (nbytes + HDR - 1) div HDR + 1"

text \<open>A search ends: with a block, or with the null pointer if there is no block that is large enough and
  \<^verbatim>\<open>sbrk\<close> does not give more memory.\<close>

lemma alloc_loop_core:
  assumes c: "core u xs A" and n: "0 < n" and sb: "sbrk_ok sbrk"
  shows "(sbrk (u_brk u) (max n 4096 * HDR) = None \<and> alloc_loop sbrk n (u_freep u) (u_ptr u (u_freep u)) u = Some (0, u)) \<or>
    (\<exists>a u' xs'. alloc_loop sbrk n (u_freep u) (u_ptr u (u_freep u)) u = Some (padd a 1, u') \<and> core u' xs' (insert a A) \<and>
      a \<notin> A \<and> u_size u' a = n \<and> u_base u' = u_base u \<and> (\<forall>b \<in> A. u_size u' b = u_size u b))"
proof (cases "\<exists>x \<in> set xs. n \<le> u_size u x")
  case True
  then obtain prevp p where "alloc_loop sbrk n (u_freep u) (u_ptr u (u_freep u)) u = Some (take_block n prevp p u)"
      "prevp \<in> set xs" "u_ptr u prevp = p" "n \<le> u_size u p"
    using alloc_found [OF c n] by blast
  with take_core [OF c _ _ n] show ?thesis by metis
next
  case False
  have r: "ring u xs" and f: "u_freep u \<in> set xs" using c by (simp_all add: core_def)
  obtain i where i: "u_freep u = at xs i 0" using at_start [OF f] by blast
  obtain m where m: "length xs = Suc m" using f by (cases xs) auto
  have ne: "xs \<noteq> []" using f by auto
  have small: "u_size u (at xs i j) < n" for j using False at_in [OF ne] by (meson not_le)
  have nz: "u_freep u \<noteq> 0" using f r unfolding ring_def by metis
  have "alloc_loop sbrk n (at xs i 0) (at xs i 1) u = alloc_loop sbrk n (at xs i m) (at xs i (Suc m)) u"
    using alloc_walk [OF r i, of m] m small by simp
  also have "at xs i (Suc m) = u_freep u" using at_period [of xs i] m i by simp
  finally have walk: "alloc_loop sbrk n (u_freep u) (u_ptr u (u_freep u)) u =
      do {
        (np, u) \<leftarrow> morecore sbrk n u;
        (if np = 0 then Some (0, u) else alloc_loop sbrk n np (u_ptr u np) u)
      }"
    using small [of 0] nz i ring_next [OF r, of i 0] by (simp add: alloc_loop.simps [of sbrk n "at xs i m"])
  show ?thesis
  proof (cases "sbrk (u_brk u) (max n 4096 * HDR)")
    case None
    then show ?thesis using walk by (simp add: morecore_def)
  next
    case (Some a)
    then have a: "u_brk u \<le> a" "HDR dvd a" using sb by (auto simp: sbrk_ok_def)
    have "a \<noteq> 0" using a c by (auto simp: core_def HDR_def)
    define nu where "nu = max n 4096"
    define u1 where "u1 = set_size a nu (u\<lparr>u_brk := a + nu * HDR\<rparr>)"
    have g: "core u1 xs (insert a A)" "a \<notin> A" using core_grow [OF c a, of nu] by (simp_all add: u1_def nu_def)
    obtain u2 xs2 where u2: "ufree (padd a 1) u1 = Some u2" "core u2 xs2 A" "u_base u2 = u_base u1"
        "\<forall>b \<in> A. u_size u2 b = u_size u1 b" "\<exists>x \<in> set xs2. u_size u1 a \<le> u_size u2 x"
      using ufree_core [OF g] by blast
    have "morecore sbrk n u = Some (u_freep u2, u2)"
      using Some \<open>a \<noteq> 0\<close> u2(1) by (simp add: morecore_def unwrap_def u1_def nu_def)
    moreover have "u_freep u2 \<noteq> 0" using u2(2) unfolding core_def ring_def by metis
    ultimately have eq: "alloc_loop sbrk n (u_freep u) (u_ptr u (u_freep u)) u = alloc_loop sbrk n (u_freep u2) (u_ptr u2 (u_freep u2)) u2"
      using walk by simp
    obtain x where "x \<in> set xs2" "n \<le> u_size u2 x" using u2(5) by (auto simp: u1_def nu_def)
    then obtain prevp p where "alloc_loop sbrk n (u_freep u2) (u_ptr u2 (u_freep u2)) u2 = Some (take_block n prevp p u2)"
        "prevp \<in> set xs2" "u_ptr u2 prevp = p" "n \<le> u_size u2 p"
      using alloc_found [OF u2(2) n] by blast
    moreover have "\<forall>b \<in> A. u_size u1 b = u_size u b" "u_base u1 = u_base u" using g(2) by (auto simp: u1_def)
    ultimately show ?thesis using take_core [OF u2(2) _ _ n, of prevp p] eq u2(3,4) by (metis (no_types, lifting))
  qed
qed

section \<open>Runs\<close>

text \<open>The allocator in use: the outstanding allocations are pointers with the number of bytes asked for. A program
  may overwrite all bytes of its allocations, and so anything that is read there as a header.\<close>

inductive uruns :: "(nat \<Rightarrow> nat \<Rightarrow> nat option) \<Rightarrow> umem \<Rightarrow> (nat \<times> nat) set \<Rightarrow> bool" for sbrk where
  start: "0 < b \<Longrightarrow> b + HDR \<le> brk \<Longrightarrow> uruns sbrk (umem_new b brk) {}"
| alloc: "uruns sbrk u L \<Longrightarrow> ualloc sbrk n u = Some (a, u') \<Longrightarrow> uruns sbrk u' (if a = 0 then L else insert (a, n) L)"
| free: "uruns sbrk u L \<Longrightarrow> (a, n) \<in> L \<Longrightarrow> ufree a u = Some u' \<Longrightarrow> uruns sbrk u' (L - {(a, n)})"
| fill: "uruns sbrk u L \<Longrightarrow> (a, n) \<in> L \<Longrightarrow> (\<And>x. x < a \<or> a + n \<le> x \<Longrightarrow> f x = u_ptr u x \<and> g x = u_size u x) \<Longrightarrow>
    uruns sbrk (u\<lparr>u_ptr := f, u_size := g\<rparr>) L"

definition headers :: "(nat \<times> nat) set \<Rightarrow> nat set" where
  "headers L = (\<lambda>(a, n). a - HDR) ` L"

definition uinv :: "umem \<Rightarrow> (nat \<times> nat) set \<Rightarrow> bool" where
  "uinv u L \<longleftrightarrow> (u_freep u = 0 \<and> L = {} \<and> 0 < u_base u \<and> u_base u + HDR \<le> u_brk u \<or> (\<exists>xs. core u xs (headers L))) \<and>
     inj_on fst L \<and> (\<forall>(a, n) \<in> L. HDR \<le> a \<and> u_size u (a - HDR) = units n)"

lemma units_hold: "n + HDR \<le> units n * HDR"
  unfolding units_def HDR_def by simp

lemma uinv_alloc:
  assumes inv: "uinv u L" and sb: "sbrk_ok sbrk"
  shows "\<exists>a u'. ualloc sbrk n u = Some (a, u') \<and> uinv u' (if a = 0 then L else insert (a, n) L) \<and>
    (a = 0 \<longrightarrow> sbrk (u_brk u) (max (units n) 4096 * HDR) = None) \<and> (a \<noteq> 0 \<longrightarrow> (\<forall>m. (a, m) \<notin> L))"
proof -
  define u0 where "u0 = (if u_freep u = 0 then set_size (u_base u) 0 (set_ptr (u_base u) (u_base u) (u\<lparr>u_freep := u_base u\<rparr>)) else u)"
  have "\<exists>xs. core u0 xs (headers L)"
  proof (cases "u_freep u = 0")
    case True
    have "\<not> core u xs B" for xs B using True unfolding core_def ring_def by metis
    then have b: "L = {}" "0 < u_base u" "u_base u + HDR \<le> u_brk u" using inv by (auto simp: uinv_def)
    have "core u0 [u_base u] {}" using True b by (simp add: core_def ring_def u0_def)
    then show ?thesis using b by (auto simp: headers_def)
  next
    case False
    then show ?thesis using inv by (auto simp: uinv_def u0_def)
  qed
  then obtain xs where c: "core u0 xs (headers L)" by blast
  have u0: "u_brk u0 = u_brk u" "u_base u0 = u_base u" by (simp_all add: u0_def)
  have sz: "\<forall>(a, n) \<in> L. HDR \<le> a \<and> u_size u0 (a - HDR) = units n" "inj_on fst L"
  proof -
    show "\<forall>(a, n) \<in> L. HDR \<le> a \<and> u_size u0 (a - HDR) = units n"
    proof (cases "L = {}")
      case False
      then have "u_freep u \<noteq> 0" using inv unfolding uinv_def core_def ring_def by metis
      then show ?thesis using inv by (simp add: uinv_def u0_def)
    qed simp
    show "inj_on fst L" using inv by (simp add: uinv_def)
  qed
  have eq: "ualloc sbrk n u = alloc_loop sbrk (units n) (u_freep u0) (u_ptr u0 (u_freep u0)) u0"
    by (simp add: ualloc_def u0_def units_def Let_def)
  have "0 < units n" by (simp add: units_def)
  from alloc_loop_core [OF c this sb] show ?thesis
  proof (elim disjE exE conjE)
    assume "sbrk (u_brk u0) (max (units n) 4096 * HDR) = None"
      "alloc_loop sbrk (units n) (u_freep u0) (u_ptr u0 (u_freep u0)) u0 = Some (0, u0)"
    then show ?thesis using eq c sz u0 by (auto simp: uinv_def)
  next
    fix a u' xs'
    assume r: "alloc_loop sbrk (units n) (u_freep u0) (u_ptr u0 (u_freep u0)) u0 = Some (padd a 1, u')"
      and c': "core u' xs' (insert a (headers L))" and a: "a \<notin> headers L" "u_size u' a = units n"
      and same: "\<forall>b \<in> headers L. u_size u' b = u_size u0 b"
    have p: "padd a 1 = a + HDR" "a + HDR \<noteq> 0" by (simp_all add: padd_def HDR_def)
    have new: "(a + HDR, m) \<notin> L" for m using a(1) by (force simp: headers_def)
    have "headers (insert (a + HDR, n) L) = insert a (headers L)" by (simp add: headers_def)
    moreover have "\<forall>(b, m) \<in> L. u_size u' (b - HDR) = units m" using same sz(1) by (force simp: headers_def)
    moreover have "inj_on fst (insert (a + HDR, n) L)" using sz(2) new by (force simp: inj_on_def)
    ultimately have "uinv u' (insert (a + HDR, n) L)" using c' a(2) sz(1) by (auto simp: uinv_def)
    then show ?thesis using eq r p new by auto
  qed
qed

lemma uinv_free:
  assumes inv: "uinv u L" and a: "(a, n) \<in> L"
  shows "\<exists>u'. ufree a u = Some u' \<and> uinv u' (L - {(a, n)})"
proof -
  obtain xs where c: "core u xs (headers L)" using inv a by (auto simp: uinv_def)
  have inj: "inj_on fst L" and ge: "\<forall>(b, m) \<in> L. HDR \<le> b \<and> u_size u (b - HDR) = units m" using inv by (simp_all add: uinv_def)
  have h: "headers L = insert (a - HDR) (headers (L - {(a, n)}))" using a by (force simp: headers_def)
  have nin: "a - HDR \<notin> headers (L - {(a, n)})"
  proof
    assume "a - HDR \<in> headers (L - {(a, n)})"
    then obtain b m where b: "(b, m) \<in> L" "(b, m) \<noteq> (a, n)" "a - HDR = b - HDR" by (auto simp: headers_def)
    moreover have "HDR \<le> a" "HDR \<le> b" using ge a b(1) by auto
    ultimately have "a = b" by linarith
    then show False using b(1,2) inj a by (force simp: inj_on_def)
  qed
  obtain u' xs' where u': "ufree (padd (a - HDR) 1) u = Some u'" "core u' xs' (headers (L - {(a, n)}))"
      "\<forall>b \<in> headers (L - {(a, n)}). u_size u' b = u_size u b"
    using ufree_core [OF c [unfolded h] nin] by blast
  have "padd (a - HDR) 1 = a" using ge a by (auto simp: padd_def)
  moreover have "\<forall>(b, m) \<in> L - {(a, n)}. HDR \<le> b \<and> u_size u' (b - HDR) = units m" using u'(3) ge by (force simp: headers_def)
  ultimately show ?thesis using u' inj by (auto simp: uinv_def intro: inj_on_subset)
qed

lemma core_header:
  assumes c: "core u xs A" and x: "x \<in> A" and y: "y \<in> set xs \<union> A"
  shows "y < padd x 1 \<or> padd x (u_size u x) \<le> y"
proof (cases "y = u_base u \<or> y = x")
  case True
  have "placed u x" using c x by (simp add: core_def)
  then have "u_base u \<le> x" by (simp add: placed_def)
  then show ?thesis using True by (auto simp: padd_def HDR_def)
next
  case False
  have "apart u x y" using c x y False by (auto simp: core_def pairwise_def)
  moreover have "0 < u_size u y" using c y False by (cases xs) (auto simp: core_def placed_def)
  ultimately show ?thesis by (auto simp: apart_def padd_def HDR_def)
qed

lemma uinv_fill:
  assumes inv: "uinv u L" and a: "(a, n) \<in> L" and fg: "\<And>x. x < a \<or> a + n \<le> x \<Longrightarrow> f x = u_ptr u x \<and> g x = u_size u x"
  shows "uinv (u\<lparr>u_ptr := f, u_size := g\<rparr>) L"
proof -
  obtain xs where c: "core u xs (headers L)" using inv a by (auto simp: uinv_def)
  have ge: "\<forall>(b, m) \<in> L. HDR \<le> b \<and> u_size u (b - HDR) = units m" using inv by (simp add: uinv_def)
  have ha: "a - HDR \<in> headers L" using a by (force simp: headers_def)
  have "padd (a - HDR) 1 = a" "a + n \<le> padd (a - HDR) (u_size u (a - HDR))"
    using ge a units_hold [of n] by (auto simp: padd_def)
  then have "y < a \<or> a + n \<le> y" if "y \<in> set xs \<union> headers L" for y using core_header [OF c ha that] by auto
  then have same: "f y = u_ptr u y" "g y = u_size u y" if "y \<in> set xs \<union> headers L" for y using that fg by blast+
  have base: "u_base u \<in> set xs" using core_base [OF c] by simp
  have "linked f xs (hd xs)" using c same(1) linked_cong [of xs f "u_ptr u"] by (auto simp: core_def ring_def)
  moreover have "apart (u\<lparr>u_ptr := f, u_size := g\<rparr>) x y = apart u x y" if "x \<in> set xs \<union> headers L" "y \<in> set xs \<union> headers L" for x y
    using same that by (simp add: apart_def)
  then have "pairwise (apart (u\<lparr>u_ptr := f, u_size := g\<rparr>)) (set xs \<union> headers L)" using c by (auto simp: core_def pairwise_def)
  moreover have "placed (u\<lparr>u_ptr := f, u_size := g\<rparr>) x" if "x \<in> set (tl xs) \<union> headers L" for x
  proof -
    have "x \<in> set xs \<union> headers L" using that by (cases xs) auto
    moreover have "placed u x" using c that by (auto simp: core_def)
    ultimately show ?thesis using same by (simp add: placed_def)
  qed
  ultimately have "core (u\<lparr>u_ptr := f, u_size := g\<rparr>) xs (headers L)"
    using c same(2) [of "u_base u"] base by (simp add: core_def ring_def)
  moreover have "\<forall>(b, m) \<in> L. g (b - HDR) = units m" using ge same(2) by (force simp: headers_def)
  ultimately show ?thesis using inv by (auto simp: uinv_def)
qed

lemma uruns_inv: "uruns sbrk u L \<Longrightarrow> sbrk_ok sbrk \<Longrightarrow> uinv u L"
proof (induction rule: uruns.induct)
  case (start b brk)
  then show ?case by (simp add: uinv_def umem_new_def)
next
  case (alloc u L n a u')
  then show ?case using uinv_alloc [of u L sbrk n] by auto
next
  case (free u L a n u')
  then show ?case using uinv_free [of u L a n] by auto
next
  case (fill u L a n f g)
  then show ?case using uinv_fill by blast
qed

lemma uinv_bounds:
  assumes inv: "uinv u L" and a: "(a, n) \<in> L"
  shows "u_base u + HDR \<le> a \<and> HDR dvd a \<and> a + n \<le> u_brk u"
proof -
  obtain xs where c: "core u xs (headers L)" using inv a by (auto simp: uinv_def)
  have ge: "HDR \<le> a" "u_size u (a - HDR) = units n" using inv a by (auto simp: uinv_def)
  have "placed u (a - HDR)" using c a by (force simp: core_def headers_def)
  moreover have "HDR dvd a - HDR \<longleftrightarrow> HDR dvd a" using ge(1) by (simp add: dvd_minus_self)
  ultimately show ?thesis using ge units_hold [of n] by (auto simp: placed_def padd_def)
qed

lemma uinv_disjoint:
  assumes inv: "uinv u L" and a: "(a, n) \<in> L" "(b, m) \<in> L" "(a, n) \<noteq> (b, m)"
  shows "a + n < b \<or> b + m < a"
proof -
  obtain xs where c: "core u xs (headers L)" using inv a by (auto simp: uinv_def)
  have ge: "HDR \<le> a" "u_size u (a - HDR) = units n" "HDR \<le> b" "u_size u (b - HDR) = units m" using inv a by (auto simp: uinv_def)
  have "inj_on fst L" using inv by (simp add: uinv_def)
  then have "a \<noteq> b" using inj_onD [of fst L "(a, n)" "(b, m)"] a by auto
  then have "a - HDR \<noteq> b - HDR" using ge(1,3) by linarith
  moreover have "a - HDR \<in> headers L" "b - HDR \<in> headers L" using a by (force simp: headers_def)+
  ultimately have "apart u (a - HDR) (b - HDR)" using c by (auto simp: core_def pairwise_def)
  then show ?thesis using ge units_hold [of n] units_hold [of m] by (auto simp: apart_def padd_def HDR_def)
qed

text \<open>
  C39. The memory allocator of user programs. In every state reached by allocations, frees of what was allocated and
  arbitrary writes into allocations, over any \<^verbatim>\<open>sbrk\<close> that grows memory upwards in multiples of 16 bytes: every
  outstanding allocation lies in the memory obtained from \<^verbatim>\<open>sbrk\<close>, starts at a multiple of 16, and does not
  share a byte with another one, with the bytes between them kept for headers; the next allocation of any size ends,
  gives a pointer that is not in use, and gives the null pointer only if \<^verbatim>\<open>sbrk\<close> refuses; and freeing any
  outstanding allocation ends.
\<close>

theorem umalloc_safe:
  assumes "uruns sbrk u L" "sbrk_ok sbrk"
  shows "(\<forall>(a, n) \<in> L. u_base u + HDR \<le> a \<and> HDR dvd a \<and> a + n \<le> u_brk u) \<and>
    (\<forall>(a, n) \<in> L. \<forall>(b, m) \<in> L. (a, n) \<noteq> (b, m) \<longrightarrow> a + n < b \<or> b + m < a) \<and>
    (\<forall>n. \<exists>a u'. ualloc sbrk n u = Some (a, u') \<and> (a \<noteq> 0 \<longrightarrow> (\<forall>m. (a, m) \<notin> L)) \<and>
       (a = 0 \<longrightarrow> sbrk (u_brk u) (max (units n) 4096 * HDR) = None)) \<and>
    (\<forall>(a, n) \<in> L. \<exists>u'. ufree a u = Some u')"
proof -
  note inv = uruns_inv [OF assms]
  have "\<forall>(a, n) \<in> L. u_base u + HDR \<le> a \<and> HDR dvd a \<and> a + n \<le> u_brk u" using uinv_bounds [OF inv] by blast
  moreover have "\<forall>(a, n) \<in> L. \<forall>(b, m) \<in> L. (a, n) \<noteq> (b, m) \<longrightarrow> a + n < b \<or> b + m < a"
    using uinv_disjoint [OF inv] by blast
  moreover have "\<forall>n. \<exists>a u'. ualloc sbrk n u = Some (a, u') \<and> (a \<noteq> 0 \<longrightarrow> (\<forall>m. (a, m) \<notin> L)) \<and>
       (a = 0 \<longrightarrow> sbrk (u_brk u) (max (units n) 4096 * HDR) = None)" using uinv_alloc [OF inv assms(2)] by metis
  moreover have "\<forall>(a, n) \<in> L. \<exists>u'. ufree a u = Some u'" using uinv_free [OF inv] by blast
  ultimately show ?thesis by blast
qed

definition sbrk_plain :: "nat \<Rightarrow> nat \<Rightarrow> nat option" where
  "sbrk_plain b n = Some (HDR * ((b + HDR - 1) div HDR))"

lemma sbrk_plain_ok: "sbrk_ok sbrk_plain"
  unfolding sbrk_ok_def sbrk_plain_def HDR_def by (auto intro: dvd_triv_left)

theorem umalloc_safe_witness:
  "\<exists>u a. uruns sbrk_plain u {(a, 100)} \<and> u_base u + HDR \<le> a \<and> HDR dvd a \<and> a + 100 \<le> u_brk u"
proof -
  have start: "uruns sbrk_plain (umem_new 64 96) {}" by (rule uruns.start) (simp_all add: HDR_def)
  obtain a u where a: "ualloc sbrk_plain 100 (umem_new 64 96) = Some (a, u)" "a \<noteq> 0"
    using umalloc_safe [OF start sbrk_plain_ok] by (metis sbrk_plain_def option.distinct(1))
  have "uruns sbrk_plain u {(a, 100)}" using uruns.alloc [OF start a(1)] a(2) by simp
  with umalloc_safe [OF this sbrk_plain_ok] show ?thesis by blast
qed

end
