(* ===== verification/Socket.thy ===== *)
theory Socket
  imports Net_Sock File_Ops Str
begin

text \<open>
  Sockets as files use them (\<^verbatim>\<open>crates/kernel/src/socket.rs\<close>): Unix sockets, which are pairs of byte
  channels found through a registry of names, and Internet sockets, which wrap the objects of the network stack.
  Channels, listeners and sockets live in stores; the registry has weak references, which can be upgraded while the
  socket lives. The result \<open>None\<close> of a blocking operation means that the process goes to sleep.
\<close>

section \<open>Streams\<close>

definition STREAM_BUF :: int where "STREAM_BUF = 512"
definition BACKLOG_MAX :: nat where "BACKLOG_MAX = 16"

record ustream =
  st_rx :: nat
  st_tx :: nat

datatype sstate = SUnbound | SListening nat | SConnected ustream

record usock =
  uk_live :: bool
  uk_name :: "rstr option"
  uk_state :: sstate

record unixst =
  ux_chans :: "nat \<Rightarrow> byte channel"
  ux_lsts :: "nat \<Rightarrow> ustream channel"
  ux_socks :: "nat \<Rightarrow> usock"
  ux_reg :: "rstr \<rightharpoonup> nat"
  ux_next :: nat

definition upd_chan :: "nat \<Rightarrow> byte channel \<Rightarrow> unixst \<Rightarrow> unixst" where
  "upd_chan i c s = s\<lparr>ux_chans := (ux_chans s)(i := c)\<rparr>"

definition upd_sock :: "nat \<Rightarrow> (usock \<Rightarrow> usock) \<Rightarrow> unixst \<Rightarrow> unixst" where
  "upd_sock k f s = s\<lparr>ux_socks := (ux_socks s)(k := f (ux_socks s k))\<rparr>"

definition stream_pair :: "unixst \<Rightarrow> (ustream \<times> ustream) result \<times> unixst" where
  "stream_pair s =
     (case sync_channel STREAM_BUF of
        Ok c \<Rightarrow>
          (let a = ux_next s; b = ux_next s + 1
           in (Ok (\<lparr>st_rx = a, st_tx = b\<rparr>, \<lparr>st_rx = b, st_tx = a\<rparr>), (upd_chan b c (upd_chan a c s))\<lparr>ux_next := ux_next s + 2\<rparr>))
      | Err e \<Rightarrow> (Err e, s)
      | Panic \<Rightarrow> (Panic, s))"

text \<open>After the first byte, \<^verbatim>\<open>read\<close> takes what is there.\<close>

fun stream_read_rest ::
  "('m \<Rightarrow> nat \<Rightarrow> byte \<Rightarrow> 'm result) \<Rightarrow> nat \<Rightarrow> nat \<Rightarrow> nat \<Rightarrow> 'm \<Rightarrow> byte channel \<Rightarrow> nat result \<times> 'm \<times> byte channel" where
  "stream_read_rest copyout 0 i dst m c = (Ok i, m, c)"
| "stream_read_rest copyout (Suc n) i dst m c =
     (case chan_try_recv c of
        (Ok ch, c') \<Rightarrow>
          (case copyout m dst ch of
             Err e \<Rightarrow> (Err e, m, c')
           | Panic \<Rightarrow> (Panic, m, c')
           | Ok m' \<Rightarrow> stream_read_rest copyout n (i + 1) (dst + 1) m' c')
      | (Err _, c') \<Rightarrow> (Ok i, m, c')
      | (Panic, c') \<Rightarrow> (Panic, m, c'))"

definition stream_read ::
  "('m \<Rightarrow> nat \<Rightarrow> byte \<Rightarrow> 'm result) \<Rightarrow> nat \<Rightarrow> nat \<Rightarrow> 'm \<Rightarrow> byte channel \<Rightarrow> nat result option \<times> 'm \<times> byte channel" where
  "stream_read copyout dst n m c =
     (if n = 0 then (Some (Ok 0), m, c)
      else
        (case chan_recv c of
           (None, c') \<Rightarrow> (None, m, c')
         | (Some (Err _), c') \<Rightarrow> (Some (Ok 0), m, c')
         | (Some Panic, c') \<Rightarrow> (Some Panic, m, c')
         | (Some (Ok ch), c') \<Rightarrow>
             (case copyout m dst ch of
                Err e \<Rightarrow> (Some (Err e), m, c')
              | Panic \<Rightarrow> (Some Panic, m, c')
              | Ok m' \<Rightarrow> (case stream_read_rest copyout (n - 1) 1 (dst + 1) m' c' of (r, m'', c'') \<Rightarrow> (Some r, m'', c'')))))"

definition stream_poll_readable :: "byte channel \<Rightarrow> bool" where
  "stream_poll_readable c \<longleftrightarrow> has_data c \<or> receiver_is_closed c"

definition stream_poll_writable :: "byte channel \<Rightarrow> bool result" where
  "stream_poll_writable c = (if sender_is_closed c then Ok False else can_send c)"

section \<open>Listeners\<close>

definition ulst_new :: "nat \<Rightarrow> unixst \<Rightarrow> nat result \<times> unixst" where
  "ulst_new backlog s =
     (case sync_channel (int (min (max backlog 1) BACKLOG_MAX)) of
        Ok c \<Rightarrow> (Ok (ux_next s), s\<lparr>ux_lsts := (ux_lsts s)(ux_next s := c), ux_next := ux_next s + 1\<rparr>)
      | Err e \<Rightarrow> (Err e, s)
      | Panic \<Rightarrow> (Panic, s))"

definition ulst_enqueue :: "bool \<Rightarrow> nat \<Rightarrow> ustream \<Rightarrow> bool \<Rightarrow> unixst \<Rightarrow> unit result option \<times> unixst" where
  "ulst_enqueue killed l st nonblock s =
     (case (if nonblock then (case chan_try_send (ux_lsts s l) st of (r, c) \<Rightarrow> (Some r, c)) else chan_send killed (ux_lsts s l) st) of
        (r, c) \<Rightarrow> (r, s\<lparr>ux_lsts := (ux_lsts s)(l := c)\<rparr>))"

definition ulst_accept :: "nat \<Rightarrow> bool \<Rightarrow> unixst \<Rightarrow> ustream result option \<times> unixst" where
  "ulst_accept l nonblock s =
     (case (if nonblock then (case chan_try_recv (ux_lsts s l) of (r, c) \<Rightarrow> (Some r, c)) else chan_recv (ux_lsts s l)) of
        (r, c) \<Rightarrow> (r, s\<lparr>ux_lsts := (ux_lsts s)(l := c)\<rparr>))"

section \<open>Unix sockets\<close>

definition usock_make :: "sstate \<Rightarrow> unixst \<Rightarrow> nat \<times> unixst" where
  "usock_make st s =
     (ux_next s, s\<lparr>ux_socks := (ux_socks s)(ux_next s := \<lparr>uk_live = True, uk_name = None, uk_state = st\<rparr>), ux_next := ux_next s + 1\<rparr>)"

definition usock_new :: "unixst \<Rightarrow> nat \<times> unixst" where
  "usock_new s = usock_make SUnbound s"

definition usock_from_stream :: "ustream \<Rightarrow> unixst \<Rightarrow> nat \<times> unixst" where
  "usock_from_stream st s = usock_make (SConnected st) s"

definition reg_upgrade :: "rstr \<Rightarrow> unixst \<Rightarrow> nat option" where
  "reg_upgrade path s = (case ux_reg s path of Some k \<Rightarrow> if uk_live (ux_socks s k) then Some k else None | None \<Rightarrow> None)"

definition usock_bind :: "nat \<Rightarrow> rstr \<Rightarrow> unixst \<Rightarrow> unit result \<times> unixst" where
  "usock_bind k path s =
     (if path = [] then (Err InvalidArgument, s)
      else if uk_name (ux_socks s k) \<noteq> None then (Err InvalidArgument, s)
      else if uk_state (ux_socks s k) \<noteq> SUnbound then (Err InvalidArgument, s)
      else if reg_upgrade path s \<noteq> None then (Err AlreadyExists, s)
      else (Ok (), upd_sock k (\<lambda>u. u\<lparr>uk_name := Some path\<rparr>) (s\<lparr>ux_reg := (ux_reg s)(path \<mapsto> k)\<rparr>)))"

definition usock_listen :: "nat \<Rightarrow> nat \<Rightarrow> unixst \<Rightarrow> unit result \<times> unixst" where
  "usock_listen k backlog s =
     (if uk_name (ux_socks s k) = None then (Err InvalidArgument, s)
      else if uk_state (ux_socks s k) \<noteq> SUnbound then (Err InvalidArgument, s)
      else if backlog = 0 then (Err InvalidArgument, s)
      else
        (case ulst_new backlog s of
           (Ok l, s') \<Rightarrow> (Ok (), upd_sock k (\<lambda>u. u\<lparr>uk_state := SListening l\<rparr>) s')
         | (Err e, s') \<Rightarrow> (Err e, s')
         | (Panic, s') \<Rightarrow> (Panic, s')))"

definition usock_accept :: "nat \<Rightarrow> bool \<Rightarrow> unixst \<Rightarrow> ustream result option \<times> unixst" where
  "usock_accept k nonblock s =
     (case uk_state (ux_socks s k) of
        SListening l \<Rightarrow> ulst_accept l nonblock s
      | _ \<Rightarrow> (Some (Err InvalidArgument), s))"

definition lookup_listener :: "rstr \<Rightarrow> unixst \<Rightarrow> nat result \<times> unixst" where
  "lookup_listener path s =
     (case ux_reg s path of
        None \<Rightarrow> (Err NotFound, s)
      | Some k \<Rightarrow>
          (if uk_live (ux_socks s k) then
             (case uk_state (ux_socks s k) of
                SListening l \<Rightarrow> (Ok l, s)
              | _ \<Rightarrow> (Err NotConnected, s))
           else (Err NotFound, s\<lparr>ux_reg := (ux_reg s)(path := None)\<rparr>)))"

definition usock_connect :: "bool \<Rightarrow> nat \<Rightarrow> rstr \<Rightarrow> bool \<Rightarrow> unixst \<Rightarrow> unit result option \<times> unixst" where
  "usock_connect killed k path nonblock s =
     (if path = [] then (Some (Err InvalidArgument), s)
      else if uk_state (ux_socks s k) \<noteq> SUnbound then (Some (Err InvalidArgument), s)
      else
        (case lookup_listener path s of
           (Err e, s1) \<Rightarrow> (Some (Err e), s1)
         | (Panic, s1) \<Rightarrow> (Some Panic, s1)
         | (Ok l, s1) \<Rightarrow>
             (case stream_pair s1 of
                (Err e, s2) \<Rightarrow> (Some (Err e), s2)
              | (Panic, s2) \<Rightarrow> (Some Panic, s2)
              | (Ok (client, server), s2) \<Rightarrow>
                  (case ulst_enqueue killed l server nonblock s2 of
                     (Some (Ok _), s3) \<Rightarrow> (Some (Ok ()), upd_sock k (\<lambda>u. u\<lparr>uk_state := SConnected client\<rparr>) s3)
                   | (r, s3) \<Rightarrow> (r, s3)))))"

definition usock_stream :: "nat \<Rightarrow> unixst \<Rightarrow> ustream result" where
  "usock_stream k s =
     (case uk_state (ux_socks s k) of
        SConnected st \<Rightarrow> Ok st
      | SListening _ \<Rightarrow> Err InvalidArgument
      | SUnbound \<Rightarrow> Err NotConnected)"

definition usock_read ::
  "('m \<Rightarrow> nat \<Rightarrow> byte \<Rightarrow> 'm result) \<Rightarrow> nat \<Rightarrow> nat \<Rightarrow> nat \<Rightarrow> bool \<Rightarrow> unixst \<times> 'm \<Rightarrow> nat result option \<times> unixst \<times> 'm" where
  "usock_read copyout k dst n nonblock st =
     (case st of (s, m) \<Rightarrow>
        (case usock_stream k s of
           Err e \<Rightarrow> (Some (Err e), s, m)
         | Panic \<Rightarrow> (Some Panic, s, m)
         | Ok u \<Rightarrow>
             (if nonblock then
                (case read_nonblock_loop copyout n 0 dst m (ux_chans s (st_rx u)) of (r, m', c) \<Rightarrow> (Some r, upd_chan (st_rx u) c s, m'))
              else
                (case stream_read copyout dst n m (ux_chans s (st_rx u)) of (r, m', c) \<Rightarrow> (r, upd_chan (st_rx u) c s, m')))))"

definition usock_write ::
  "(nat \<Rightarrow> byte result) \<Rightarrow> bool \<Rightarrow> nat \<Rightarrow> nat \<Rightarrow> nat \<Rightarrow> bool \<Rightarrow> unixst \<Rightarrow> progress \<times> unixst" where
  "usock_write copyin killed k src n nonblock s =
     (case usock_stream k s of
        Err e \<Rightarrow> (Returned (Err e), s)
      | Panic \<Rightarrow> (Returned Panic, s)
      | Ok u \<Rightarrow>
          (if nonblock then
             (case write_nonblock_loop copyin n 0 src (ux_chans s (st_tx u)) of (r, c) \<Rightarrow> (Returned r, upd_chan (st_tx u) c s))
           else
             (case pipe_write_loop copyin killed n 0 src (ux_chans s (st_tx u)) of (r, c) \<Rightarrow> (r, upd_chan (st_tx u) c s))))"

definition usock_poll :: "nat \<Rightarrow> usize \<Rightarrow> bool \<Rightarrow> bool \<Rightarrow> unixst \<Rightarrow> usize" where
  "usock_poll k events rd wr s =
     (case uk_state (ux_socks s k) of
        SConnected u \<Rightarrow>
          (let rx = ux_chans s (st_rx u); tx = ux_chans s (st_tx u)
           in flag (rd \<and> events AND POLL_IN \<noteq> 0 \<and> stream_poll_readable rx) POLL_IN OR
              flag (wr \<and> events AND POLL_OUT \<noteq> 0 \<and> ok_true (stream_poll_writable tx)) POLL_OUT OR
              flag (rd \<and> receiver_is_closed rx) POLL_HUP OR
              flag (wr \<and> sender_is_closed tx) POLL_HUP)
      | SListening l \<Rightarrow> flag (rd \<and> events AND POLL_IN \<noteq> 0 \<and> has_data (ux_lsts s l)) POLL_IN
      | SUnbound \<Rightarrow> 0)"

text \<open>Dropping the last reference to a socket drops its stream, or its listener with the streams waiting in it.\<close>

definition stream_drop :: "ustream \<Rightarrow> unixst \<Rightarrow> unixst" where
  "stream_drop u s =
     (let s = upd_chan (st_rx u) (drop_receiver (ux_chans s (st_rx u))) s
      in upd_chan (st_tx u) (drop_sender (ux_chans s (st_tx u))) s)"

definition usock_drop :: "nat \<Rightarrow> unixst \<Rightarrow> unixst" where
  "usock_drop k s =
     (let u = ux_socks s k;
          s = upd_sock k (\<lambda>u. u\<lparr>uk_live := False, uk_name := None\<rparr>) s;
          s = (case uk_name u of Some name \<Rightarrow> s\<lparr>ux_reg := (ux_reg s)(name := None)\<rparr> | None \<Rightarrow> s)
      in case uk_state u of
           SConnected st \<Rightarrow> stream_drop st s
         | SListening l \<Rightarrow> fold stream_drop (ch_buf (ux_lsts s l)) s
         | SUnbound \<Rightarrow> s)"

section \<open>Addresses\<close>

text \<open>The pieces of a string between the occurrences of a separator.\<close>

fun split_str :: "byte \<Rightarrow> rstr \<Rightarrow> rstr list" where
  "split_str c [] = [[]]"
| "split_str c (x # xs) =
     (if x = c then [] # split_str c xs
      else (case split_str c xs of p # ps \<Rightarrow> (x # p) # ps | [] \<Rightarrow> [[x]]))"

text \<open>\<^verbatim>\<open>str::parse\<close> for the unsigned types: an optional plus sign and digits, within the bound of the type.\<close>

definition digit :: "byte \<Rightarrow> bool" where
  "digit b \<longleftrightarrow> 48 \<le> b \<and> b \<le> 57"

definition parse_uint :: "nat \<Rightarrow> rstr \<Rightarrow> nat result" where
  "parse_uint bound s =
     (let ds = (if s \<noteq> [] \<and> hd s = 43 then tl s else s);
          v = foldl (\<lambda>n b. 10 * n + unat (b - 48)) 0 ds
      in if ds \<noteq> [] \<and> list_all digit ds \<and> v \<le> bound then Ok v else Err InvalidArgument)"

fun parse_octets :: "nat \<Rightarrow> rstr list \<Rightarrow> byte list result" where
  "parse_octets idx [] = (if idx \<noteq> 4 then Err InvalidArgument else Ok [])"
| "parse_octets idx (part # parts) =
     (if 4 \<le> idx then Err InvalidArgument
      else obind (parse_uint 255 part) (\<lambda>v. obind (parse_octets (idx + 1) parts) (\<lambda>vs. Ok (of_nat v # vs))))"

definition parse_ipv4 :: "rstr \<Rightarrow> ipv4 result" where
  "parse_ipv4 s =
     obind (parse_octets 0 (split_str DOT s))
       (\<lambda>os. case os of [a, b, c, d] \<Rightarrow> Ok (Ipv4Addr a b c d) | _ \<Rightarrow> Panic)"

definition parse_socket_addr :: "rstr \<Rightarrow> sockaddr result" where
  "parse_socket_addr path =
     (case split_str 0x3A path of
        [ip_str, port_str] \<Rightarrow>
          obind (parse_uint 65535 port_str) (\<lambda>port.
          obind (if ip_str = [] then Ok (Ipv4Addr 0 0 0 0) else parse_ipv4 ip_str) (\<lambda>ip.
          Ok (SocketAddrV4 ip (of_nat port))))
      | _ \<Rightarrow> Err InvalidArgument)"

definition AF_UNIX :: nat where "AF_UNIX = 1"
definition AF_INET :: nat where "AF_INET = 2"
definition SOCK_STREAM :: nat where "SOCK_STREAM = 1"
definition SOCK_DGRAM :: nat where "SOCK_DGRAM = 2"

definition validate :: "nat \<Rightarrow> nat \<Rightarrow> nat \<Rightarrow> unit result" where
  "validate domain stype protocol =
     (if domain = AF_UNIX then (if stype \<noteq> SOCK_STREAM then Err InvalidArgument else Ok ())
      else if domain = AF_INET then (if stype \<noteq> SOCK_STREAM \<and> stype \<noteq> SOCK_DGRAM then Err InvalidArgument else Ok ())
      else Err InvalidArgument)"

section \<open>Internet sockets\<close>

datatype inet_state = IUnbound | IDatagram nat | IStream nat | IListening nat

record inet_sock =
  in_stype :: nat
  in_state :: inet_state

definition inet_new :: "nat \<Rightarrow> inet_sock" where
  "inet_new stype = \<lparr>in_stype = stype, in_state = IUnbound\<rparr>"

text \<open>The object of the network stack behind a socket, made at the first use.\<close>

definition inet_datagram :: "inet_sock \<Rightarrow> netst \<Rightarrow> nat result \<times> inet_sock \<times> netst" where
  "inet_datagram i s =
     (case in_state i of
        IDatagram h \<Rightarrow> (Ok h, i, s)
      | IUnbound \<Rightarrow>
          (case udp_new s of
             (Ok h, s') \<Rightarrow> (Ok h, i\<lparr>in_state := IDatagram h\<rparr>, s')
           | (Err e, s') \<Rightarrow> (Err e, i, s')
           | (Panic, s') \<Rightarrow> (Panic, i, s'))
      | _ \<Rightarrow> (Err InvalidArgument, i, s))"

definition inet_stream :: "inet_sock \<Rightarrow> netst \<Rightarrow> nat result \<times> inet_sock \<times> netst" where
  "inet_stream i s =
     (case in_state i of
        IStream h \<Rightarrow> (Ok h, i, s)
      | IUnbound \<Rightarrow>
          (case tcp_new s of
             (Ok h, s') \<Rightarrow> (Ok h, i\<lparr>in_state := IStream h\<rparr>, s')
           | (Err e, s') \<Rightarrow> (Err e, i, s')
           | (Panic, s') \<Rightarrow> (Panic, i, s'))
      | _ \<Rightarrow> (Err InvalidArgument, i, s))"

definition inet_bind :: "rstr \<Rightarrow> inet_sock \<Rightarrow> netst \<Rightarrow> unit result \<times> inet_sock \<times> netst" where
  "inet_bind path i s =
     (case parse_socket_addr path of
        Err e \<Rightarrow> (Err e, i, s)
      | Panic \<Rightarrow> (Panic, i, s)
      | Ok a \<Rightarrow>
          (if sa_ip a \<noteq> Ipv4Addr 0 0 0 0 \<and> sa_ip a \<noteq> n_ip s then (Err InvalidArgument, i, s)
           else if in_stype i = SOCK_DGRAM then
             (case inet_datagram i s of
                (Ok h, i', s') \<Rightarrow> (case udp_bind h (sa_port a) s' of (r, s'') \<Rightarrow> (r, i', s''))
              | (Err e, i', s') \<Rightarrow> (Err e, i', s')
              | (Panic, i', s') \<Rightarrow> (Panic, i', s'))
           else if in_stype i = SOCK_STREAM then
             (case inet_stream i s of
                (Ok h, i', s') \<Rightarrow> (case tcp_bind h (sa_port a) s' of (r, s'') \<Rightarrow> (r, i', s''))
              | (Err e, i', s') \<Rightarrow> (Err e, i', s')
              | (Panic, i', s') \<Rightarrow> (Panic, i', s'))
           else (Err InvalidArgument, i, s)))"

text \<open>A socket that starts to listen gives up its stream; a listener that cannot be registered is dropped.\<close>

definition inet_listen :: "nat \<Rightarrow> inet_sock \<Rightarrow> netst \<Rightarrow> unit result \<times> inet_sock \<times> netst" where
  "inet_listen backlog i s =
     (if in_stype i \<noteq> SOCK_STREAM then (Err InvalidArgument, i, s)
      else
        (case in_state i of
           IStream h \<Rightarrow>
             (case tk_local (n_tcp s h) of
                None \<Rightarrow> (Err InvalidArgument, i, s)
              | Some a \<Rightarrow>
                  (case lst_new backlog (sa_port a) s of
                     (Ok l, s1) \<Rightarrow>
                       (case lst_register l s1 of
                          (Ok _, s2) \<Rightarrow> (Ok (), i\<lparr>in_state := IListening l\<rparr>, tcp_drop h s2)
                        | (Err e, s2) \<Rightarrow> (Err e, i, lst_drop l s2)
                        | (Panic, s2) \<Rightarrow> (Panic, i, s2))
                   | (Err e, s1) \<Rightarrow> (Err e, i, s1)
                   | (Panic, s1) \<Rightarrow> (Panic, i, s1)))
         | _ \<Rightarrow> (Err InvalidArgument, i, s)))"

definition inet_accept :: "bool \<Rightarrow> inet_sock \<Rightarrow> netst \<Rightarrow> inet_sock result option \<times> netst" where
  "inet_accept nonblock i s =
     (case in_state i of
        IListening l \<Rightarrow>
          (case lst_accept l nonblock s of
             (Some (Ok h), s') \<Rightarrow> (Some (Ok \<lparr>in_stype = SOCK_STREAM, in_state = IStream h\<rparr>), s')
           | (Some (Err e), s') \<Rightarrow> (Some (Err e), s')
           | (Some Panic, s') \<Rightarrow> (Some Panic, s')
           | (None, s') \<Rightarrow> (None, s'))
      | _ \<Rightarrow> (Some (Err InvalidArgument), s))"

definition inet_connect :: "bool \<Rightarrow> rstr \<Rightarrow> bool \<Rightarrow> inet_sock \<Rightarrow> netst \<Rightarrow> unit result option \<times> inet_sock \<times> netst" where
  "inet_connect killed path nonblock i s =
     (case parse_socket_addr path of
        Err e \<Rightarrow> (Some (Err e), i, s)
      | Panic \<Rightarrow> (Some Panic, i, s)
      | Ok a \<Rightarrow>
          (if sa_ip a = Ipv4Addr 0 0 0 0 then (Some (Err InvalidArgument), i, s)
           else if in_stype i = SOCK_DGRAM then
             (case inet_datagram i s of
                (Ok h, i', s') \<Rightarrow> (case udp_connect h a s' of (r, s'') \<Rightarrow> (Some r, i', s''))
              | (Err e, i', s') \<Rightarrow> (Some (Err e), i', s')
              | (Panic, i', s') \<Rightarrow> (Some Panic, i', s'))
           else if in_stype i = SOCK_STREAM then
             (case inet_stream i s of
                (Ok h, i', s') \<Rightarrow> (case tcp_connect killed h a nonblock s' of (r, s'') \<Rightarrow> (r, i', s''))
              | (Err e, i', s') \<Rightarrow> (Some (Err e), i', s')
              | (Panic, i', s') \<Rightarrow> (Some Panic, i', s'))
           else (Some (Err InvalidArgument), i, s)))"

definition inet_read :: "'m cout \<Rightarrow> nat \<Rightarrow> nat \<Rightarrow> bool \<Rightarrow> inet_sock \<Rightarrow> netst \<times> 'm \<Rightarrow> nat result option \<times> netst \<times> 'm" where
  "inet_read cout dst n nonblock i st =
     (case in_state i of
        IDatagram h \<Rightarrow> udp_read cout h dst n nonblock st
      | IStream h \<Rightarrow> tcp_read cout h dst n nonblock st
      | _ \<Rightarrow> (Some (Err InvalidArgument), st))"

definition inet_write :: "cin \<Rightarrow> nat \<Rightarrow> nat \<Rightarrow> bool \<Rightarrow> inet_sock \<Rightarrow> netst \<Rightarrow> wprog \<times> netst" where
  "inet_write cin src n nonblock i s =
     (case in_state i of
        IDatagram h \<Rightarrow>
          (case udp_write cin h src n nonblock s of
             (Some r, s') \<Rightarrow> (WRet r, s')
           | (None, s') \<Rightarrow> (WSleep 0 0, s'))
      | IStream h \<Rightarrow> tcp_write cin h src n nonblock s
      | _ \<Rightarrow> (WRet (Err InvalidArgument), s))"

definition inet_poll :: "usize \<Rightarrow> bool \<Rightarrow> bool \<Rightarrow> inet_sock \<Rightarrow> netst \<Rightarrow> usize" where
  "inet_poll events rd wr i s =
     (case in_state i of
        IDatagram h \<Rightarrow>
          flag (rd \<and> events AND POLL_IN \<noteq> 0 \<and> udp_poll_readable h s) POLL_IN OR
          flag (wr \<and> events AND POLL_OUT \<noteq> 0 \<and> udp_poll_writable h s) POLL_OUT
      | IStream h \<Rightarrow>
          flag (rd \<and> events AND POLL_IN \<noteq> 0 \<and> tcp_poll_readable h s) POLL_IN OR
          flag (wr \<and> events AND POLL_OUT \<noteq> 0 \<and> tcp_poll_writable h s) POLL_OUT OR
          flag (rd \<and> tk_state (n_tcp s h) = Closed) POLL_HUP
      | _ \<Rightarrow> 0)"

end
