(* ===== verification/Socket_Laws.thy ===== *)
theory Socket_Laws
  imports Socket
begin

text \<open>
  Socket addresses read back as they are written, names of Unix sockets lead to the live socket that bound them, and
  the two ends of a connection made through a name carry bytes both ways.
\<close>

section \<open>Addresses\<close>

text \<open>The usual way to write a number, an address and a socket address.\<close>

fun decimal :: "nat \<Rightarrow> rstr" where
  "decimal n = (if n < 10 then [of_nat (48 + n)] else decimal (n div 10) @ [of_nat (48 + n mod 10)])"

declare decimal.simps [simp del]

fun ipv4_text :: "ipv4 \<Rightarrow> rstr" where
  "ipv4_text (Ipv4Addr a b c d) =
     decimal (unat a) @ DOT # decimal (unat b) @ DOT # decimal (unat c) @ DOT # decimal (unat d)"

definition addr_text :: "sockaddr \<Rightarrow> rstr" where
  "addr_text a = ipv4_text (sa_ip a) @ 0x3A # decimal (unat (sa_port a))"

lemma digit_value: "n < 10 \<Longrightarrow> unat ((of_nat (48 + n) :: byte) - 48) = n"
  by (simp add: unat_of_nat)

lemma digit_ok: "n < 10 \<Longrightarrow> digit (of_nat (48 + n))"
proof -
  assume n: "n < 10"
  have "unat (of_nat (48 + n) :: byte) = 48 + n" using n by (simp add: unat_of_nat del: of_nat_add)
  then show ?thesis using n by (simp add: digit_def word_le_nat_alt del: of_nat_add)
qed

lemma decimal_digits: "list_all digit (decimal n) \<and> decimal n \<noteq> []"
proof (induction n rule: decimal.induct)
  case (1 n)
  then show ?case by (subst (1 2) decimal.simps) (auto simp: digit_ok simp del: of_nat_add)
qed

lemma decimal_value: "foldl (\<lambda>m b. 10 * m + unat (b - 48)) 0 (decimal n) = n"
proof (induction n rule: decimal.induct)
  case (1 n)
  then show ?case by (subst decimal.simps) (auto simp: digit_value simp del: of_nat_add)
qed

lemma digit_not: "digit b \<Longrightarrow> b \<noteq> 43 \<and> b \<noteq> 0x3A \<and> b \<noteq> DOT"
  by (auto simp: digit_def)

lemma parse_decimal: "n \<le> bound \<Longrightarrow> parse_uint bound (decimal n) = Ok n"
proof -
  assume n: "n \<le> bound"
  have "hd (decimal n) \<noteq> 43" using decimal_digits [of n] digit_not by (cases "decimal n") auto
  then show ?thesis using n decimal_digits [of n] by (simp add: parse_uint_def decimal_value Let_def)
qed

lemma split_str_none: "c \<notin> set p \<Longrightarrow> split_str c p = [p]"
  by (induction p) auto

lemma split_str_append: "c \<notin> set p \<Longrightarrow> split_str c (p @ c # s) = p # split_str c s"
  by (induction p) auto

lemma decimal_free: "0x3A \<notin> set (decimal n)" "DOT \<notin> set (decimal n)"
  using decimal_digits [of n] digit_not by (auto simp: list_all_iff)

lemma parse_ipv4_text: "parse_ipv4 (ipv4_text ip) = Ok ip"
proof (cases ip)
  case (Ipv4Addr a b c d)
  have "unat x \<le> 255" for x :: byte using unsigned_less [of x, where ?'a = nat] by simp
  then show ?thesis
    by (simp add: Ipv4Addr parse_ipv4_def split_str_append split_str_none decimal_free parse_decimal)
qed

text \<open>Every socket address that is written in the usual way is read as it was meant.\<close>

lemma addr_roundtrip: "parse_socket_addr (addr_text a) = Ok a"
proof (cases a)
  case (SocketAddrV4 ip port)
  have "0x3A \<notin> set (ipv4_text ip)" "ipv4_text ip \<noteq> []" using decimal_free decimal_digits by (cases ip; auto)+
  moreover have "unat port \<le> 65535" using unsigned_less [of port, where ?'a = nat] by simp
  ultimately show ?thesis
    by (simp add: SocketAddrV4 addr_text_def parse_socket_addr_def split_str_append split_str_none decimal_free
        parse_decimal parse_ipv4_text)
qed

section \<open>Unix sockets in use\<close>

definition unix_new :: "unixst \<Rightarrow> bool" where
  "unix_new s \<longleftrightarrow> (\<forall>k. \<not> uk_live (ux_socks s k)) \<and> ux_reg s = Map.empty"

text \<open>The states that sockets reach, whoever uses them and in whatever order. An operation that sleeps is a step as
  well, and so are reading and writing.\<close>

inductive unix_reach :: "unixst \<Rightarrow> bool" where
  ux_start: "unix_new s \<Longrightarrow> unix_reach s"
| ux_socket: "unix_reach s \<Longrightarrow> usock_new s = (k, s') \<Longrightarrow> unix_reach s'"
| ux_bind: "unix_reach s \<Longrightarrow> uk_live (ux_socks s k) \<Longrightarrow> usock_bind k path s = (r, s') \<Longrightarrow> unix_reach s'"
| ux_listen: "unix_reach s \<Longrightarrow> uk_live (ux_socks s k) \<Longrightarrow> usock_listen k backlog s = (r, s') \<Longrightarrow> unix_reach s'"
| ux_accept: "unix_reach s \<Longrightarrow> uk_live (ux_socks s k) \<Longrightarrow> usock_accept k nonblock s = (r, s') \<Longrightarrow> unix_reach s'"
| ux_accepted: "unix_reach s \<Longrightarrow> usock_from_stream st s = (k, s') \<Longrightarrow> unix_reach s'"
| ux_connect: "unix_reach s \<Longrightarrow> uk_live (ux_socks s k) \<Longrightarrow> usock_connect killed k path nonblock s = (r, s') \<Longrightarrow> unix_reach s'"
| ux_read: "unix_reach s \<Longrightarrow> uk_live (ux_socks s k) \<Longrightarrow> usock_read copyout k dst n nonblock (s, m :: nat \<Rightarrow> byte) = (r, s', m') \<Longrightarrow> unix_reach s'"
| ux_write: "unix_reach s \<Longrightarrow> uk_live (ux_socks s k) \<Longrightarrow> usock_write copyin killed k src n nonblock s = (r', s') \<Longrightarrow> unix_reach s'"
| ux_drop: "unix_reach s \<Longrightarrow> uk_live (ux_socks s k) \<Longrightarrow> unix_reach (usock_drop k s)"

definition names_ok :: "unixst \<Rightarrow> bool" where
  "names_ok s \<longleftrightarrow> (\<forall>k name. uk_live (ux_socks s k) \<longrightarrow> uk_name (ux_socks s k) = Some name \<longrightarrow>
     ux_reg s name = Some k \<and> name \<noteq> [])"

definition ids_ok :: "unixst \<Rightarrow> bool" where
  "ids_ok s \<longleftrightarrow> (\<forall>k. uk_live (ux_socks s k) \<longrightarrow> k < ux_next s)"

definition lst_ok :: "unixst \<Rightarrow> nat \<Rightarrow> bool" where
  "lst_ok s l \<longleftrightarrow> l < ux_next s \<and> chan_quiet (ux_lsts s l) \<and> 1 \<le> sem_max (ch_sem (ux_lsts s l))"

definition lsts_ok :: "unixst \<Rightarrow> bool" where
  "lsts_ok s \<longleftrightarrow> (\<forall>k l. uk_live (ux_socks s k) \<longrightarrow> uk_state (ux_socks s k) = SListening l \<longrightarrow> lst_ok s l)"

definition unix_inv :: "unixst \<Rightarrow> bool" where
  "unix_inv s \<longleftrightarrow> names_ok s \<and> ids_ok s \<and> lsts_ok s"

lemma sync_channel_quiet: "0 < n \<Longrightarrow> \<exists>c. sync_channel n = Ok c \<and> chan_quiet c \<and> sem_max (ch_sem c) = n \<and> ch_buf c = [] \<and> sem_count (ch_sem c) = n"
  by (auto simp: sync_channel_def sem_new_def chan_quiet_def)

lemma quiet_ops:
  assumes "chan_quiet c"
  shows "chan_try_send c x = (r, c') \<Longrightarrow> chan_quiet c' \<and> sem_max (ch_sem c') = sem_max (ch_sem c)"
    and "chan_send killed c x = (r', c') \<Longrightarrow> chan_quiet c' \<and> sem_max (ch_sem c') = sem_max (ch_sem c)"
    and "chan_try_recv c = (q, c') \<Longrightarrow> chan_quiet c' \<and> sem_max (ch_sem c') = sem_max (ch_sem c)"
    and "chan_recv c = (q', c') \<Longrightarrow> chan_quiet c' \<and> sem_max (ch_sem c') = sem_max (ch_sem c)"
  using assms
  by (auto simp: chan_quiet_def chan_try_send_def chan_send_def sem_try_wait_def sem_wait_def push_back_def
      chan_try_recv_def chan_recv_def pop_and_post_def sem_post_def split: if_splits list.splits)

lemmas unix_defs = unix_inv_def names_ok_def ids_ok_def lsts_ok_def lst_ok_def

lemma upd_fields [simp]:
  "ux_lsts (upd_chan i c s) = ux_lsts s" "ux_socks (upd_chan i c s) = ux_socks s" "ux_reg (upd_chan i c s) = ux_reg s"
  "ux_next (upd_chan i c s) = ux_next s" "ux_chans (upd_chan i c s) = (ux_chans s)(i := c)"
  "ux_lsts (upd_sock k f s) = ux_lsts s" "ux_socks (upd_sock k f s) = (ux_socks s)(k := f (ux_socks s k))"
  "ux_reg (upd_sock k f s) = ux_reg s" "ux_next (upd_sock k f s) = ux_next s" "ux_chans (upd_sock k f s) = ux_chans s"
  by (simp_all add: upd_chan_def upd_sock_def)

lemma inv_chan [simp]: "unix_inv (upd_chan i c s) = unix_inv s"
  by (simp add: unix_defs)

lemma inv_next: "unix_inv s \<Longrightarrow> ux_next s \<le> n \<Longrightarrow> unix_inv (s\<lparr>ux_next := n\<rparr>)"
  by (fastforce simp: unix_defs)

lemma inv_lst: "unix_inv s \<Longrightarrow> (chan_quiet (ux_lsts s l) \<Longrightarrow> chan_quiet c \<and> sem_max (ch_sem c) = sem_max (ch_sem (ux_lsts s l))) \<Longrightarrow>
    unix_inv (s\<lparr>ux_lsts := (ux_lsts s)(l := c)\<rparr>)"
  by (auto simp: unix_defs)

lemma inv_make: "unix_inv s \<Longrightarrow> \<forall>l. st \<noteq> SListening l \<Longrightarrow> usock_make st s = (k, s') \<Longrightarrow> unix_inv s'"
  by (auto simp: unix_defs usock_make_def less_Suc_eq split: if_splits)

lemma reg_upgrade_None: "names_ok s \<Longrightarrow> reg_upgrade path s = None \<Longrightarrow> uk_live (ux_socks s k) \<Longrightarrow> uk_name (ux_socks s k) \<noteq> Some path"
  by (auto simp: names_ok_def reg_upgrade_def split: option.splits if_splits)

lemma inv_bind:
  assumes inv: "unix_inv s" and live: "uk_live (ux_socks s k)" and eq: "usock_bind k path s = (r, s')"
  shows "unix_inv s'"
proof (cases "s' = s")
  case False
  then have *: "path \<noteq> []" "uk_name (ux_socks s k) = None" "reg_upgrade path s = None"
      "s' = upd_sock k (\<lambda>u. u\<lparr>uk_name := Some path\<rparr>) (s\<lparr>ux_reg := (ux_reg s)(path \<mapsto> k)\<rparr>)"
    using eq by (auto simp: usock_bind_def split: if_splits)
  have "uk_name (ux_socks s j) \<noteq> Some path" if "uk_live (ux_socks s j)" for j
    using reg_upgrade_None [OF _ *(3) that] inv by (simp add: unix_inv_def)
  with inv * show ?thesis by (auto simp: unix_defs)
qed (use inv in simp)

lemma inv_listen:
  assumes inv: "unix_inv s" and live: "uk_live (ux_socks s k)" and eq: "usock_listen k backlog s = (r, s')"
  shows "unix_inv s'"
proof (cases "uk_name (ux_socks s k) = None \<or> uk_state (ux_socks s k) \<noteq> SUnbound \<or> backlog = 0")
  case True
  with inv eq show ?thesis by (auto simp: usock_listen_def split: if_splits)
next
  case False
  have "0 < int (min (max backlog 1) BACKLOG_MAX)" by (simp add: BACKLOG_MAX_def less_max_iff_disj)
  from sync_channel_quiet [OF this] obtain c :: "ustream channel" where c: "sync_channel (int (min (max backlog 1) BACKLOG_MAX)) = Ok c"
      "chan_quiet c" "sem_max (ch_sem c) = int (min (max backlog 1) BACKLOG_MAX)" by blast
  define n where "n = ux_next s"
  have s': "s' = upd_sock k (\<lambda>u. u\<lparr>uk_state := SListening n\<rparr>) (s\<lparr>ux_lsts := (ux_lsts s)(n := c), ux_next := n + 1\<rparr>)"
    using False eq c(1) by (auto simp: usock_listen_def ulst_new_def n_def)
  have "names_ok s'" "ids_ok s'" using inv by (auto simp: s' n_def unix_inv_def names_ok_def ids_ok_def less_Suc_eq)
  moreover have "lst_ok s' n" using c by (simp add: lst_ok_def s' BACKLOG_MAX_def)
  then have "lsts_ok s'" using inv by (auto simp: s' n_def unix_inv_def lsts_ok_def lst_ok_def less_Suc_eq)
  ultimately show ?thesis by (simp add: unix_inv_def)
qed

lemma inv_accept:
  assumes inv: "unix_inv s" and eq: "usock_accept k nonblock s = (r, s')"
  shows "unix_inv s'"
  using inv eq
  by (auto simp: usock_accept_def ulst_accept_def split: sstate.splits if_splits prod.splits intro!: inv_lst dest: quiet_ops)

lemma inv_lookup:
  assumes inv: "unix_inv s" and eq: "lookup_listener path s = (r, s')"
  shows "unix_inv s' \<and> ux_socks s' = ux_socks s \<and> (\<forall>l. r = Ok l \<longrightarrow> lst_ok s' l)"
  using inv eq
  by (auto simp: lookup_listener_def unix_defs split: option.splits if_splits sstate.splits)

lemmas inv_looked_up = inv_lookup [THEN conjunct1]

lemma inv_state:
  assumes "unix_inv s" "\<forall>l. st \<noteq> SListening l"
  shows "unix_inv (upd_sock k (\<lambda>u. u\<lparr>uk_state := st\<rparr>) s)"
  using assms by (auto simp: unix_defs)

lemma inv_pair:
  assumes "unix_inv s" "stream_pair s = (r, s')"
  shows "unix_inv s'"
proof -
  obtain c :: "byte channel" where "sync_channel STREAM_BUF = Ok c" using sync_channel_quiet [of STREAM_BUF] by (auto simp: STREAM_BUF_def)
  then show ?thesis using assms by (auto simp: stream_pair_def Let_def intro: inv_next)
qed

lemma inv_enqueue: "unix_inv s \<Longrightarrow> ulst_enqueue killed l st nonblock s = (r, s') \<Longrightarrow> unix_inv s'"
  by (auto simp: ulst_enqueue_def split: if_splits prod.splits intro!: inv_lst dest: quiet_ops)

lemma inv_connect:
  assumes inv: "unix_inv s" and eq: "usock_connect killed k path nonblock s = (r, s')"
  shows "unix_inv s'"
proof (cases "path = [] \<or> uk_state (ux_socks s k) \<noteq> SUnbound")
  case True
  with inv eq show ?thesis by (auto simp: usock_connect_def split: if_splits)
next
  case False
  obtain rl s1 where l: "lookup_listener path s = (rl, s1)" by (rule prod.exhaust)
  obtain rp s2 where p: "stream_pair s1 = (rp, s2)" by (rule prod.exhaust)
  have i1: "unix_inv s1" and i2: "unix_inv s2" using inv_looked_up [OF inv l] inv_pair [OF _ p] by auto
  have i3: "unix_inv s3" if "ulst_enqueue killed x y nonblock s2 = (re, s3)" for x y re s3
    using inv_enqueue [OF i2 that] .
  show ?thesis
    using eq False i1 i2
    by (auto simp: usock_connect_def l p split: outcome.splits prod.splits option.splits dest!: i3 intro!: inv_state)
qed

lemma names_unique:
  "names_ok s \<Longrightarrow> uk_live (ux_socks s j) \<Longrightarrow> uk_live (ux_socks s k) \<Longrightarrow> uk_name (ux_socks s j) = Some name \<Longrightarrow>
   uk_name (ux_socks s k) = Some name \<Longrightarrow> j = k"
  by (metis names_ok_def option.inject)

lemma inv_drop_streams: "unix_inv (fold stream_drop us s) = unix_inv s"
  by (induction us arbitrary: s) (simp_all add: stream_drop_def Let_def)

lemma inv_drop:
  assumes inv: "unix_inv s" and live: "uk_live (ux_socks s k)"
  shows "unix_inv (usock_drop k s)"
proof -
  define s1 where "s1 = upd_sock k (\<lambda>u. u\<lparr>uk_live := False, uk_name := None\<rparr>) s"
  define s2 where "s2 = (case uk_name (ux_socks s k) of Some name \<Rightarrow> s1\<lparr>ux_reg := (ux_reg s1)(name := None)\<rparr> | None \<Rightarrow> s1)"
  have "unix_inv s2"
    using inv live names_unique [of s k] by (auto simp: s2_def s1_def unix_defs split: option.split)
  then show ?thesis
    using inv_drop_streams unfolding usock_drop_def Let_def s1_def [symmetric] s2_def [symmetric]
    by (auto simp: stream_drop_def Let_def split: sstate.split)
qed

lemma unix_reach_inv: "unix_reach s \<Longrightarrow> unix_inv s"
proof (induction rule: unix_reach.induct)
  case (ux_start s)
  then show ?case by (simp add: unix_new_def unix_defs)
next
  case (ux_socket s k s')
  then show ?case by (auto simp: usock_new_def intro: inv_make)
next
  case (ux_accepted s st k s')
  then show ?case by (auto simp: usock_from_stream_def intro: inv_make)
next
  case (ux_read s k copyout dst n nonblock m r s' m')
  then show ?case by (auto simp: usock_read_def split: outcome.splits if_splits prod.splits)
next
  case (ux_write s k copyin killed src n nonblock r' s')
  then show ?case by (auto simp: usock_write_def split: outcome.splits if_splits prod.splits)
qed (auto intro: inv_bind inv_listen inv_accept inv_connect inv_drop)

section \<open>Names and connections\<close>

text \<open>In every state that is reached, live sockets have different names, and looking up a name finds the listener of
  the live socket that has it, and nothing if there is none.\<close>

lemma unix_names:
  assumes "unix_reach s"
  shows "uk_live (ux_socks s j) \<Longrightarrow> uk_live (ux_socks s k) \<Longrightarrow> uk_name (ux_socks s j) = Some name \<Longrightarrow> uk_name (ux_socks s k) = Some name \<Longrightarrow> j = k"
    and "uk_live (ux_socks s j) \<Longrightarrow> uk_name (ux_socks s j) = Some name \<Longrightarrow>
      lookup_listener name s = (case uk_state (ux_socks s j) of SListening l \<Rightarrow> (Ok l, s) | _ \<Rightarrow> (Err NotConnected, s))"
  using unix_reach_inv [OF assms] names_unique [of s j k]
  by (auto simp: unix_inv_def) (simp add: names_ok_def lookup_listener_def)

lemma stream_read_rest_all:
  "rx_ready c \<Longrightarrow> store_all copyout m dst (take n (ch_buf c)) = Ok m' \<Longrightarrow>
   stream_read_rest copyout n i dst m c = (Ok (i + min n (length (ch_buf c))), m', drained c (min n (length (ch_buf c))))"
proof (induction n arbitrary: i dst m c)
  case (Suc n)
  show ?case
  proof (cases "ch_buf c")
    case Nil
    with Suc.prems show ?thesis by (simp add: chan_try_recv_def)
  next
    case (Cons b bs)
    with Suc.prems obtain m1 where m1: "copyout m dst b = Ok m1" "store_all copyout m1 (dst + 1) (take n bs) = Ok m'"
      by auto
    have "rx_ready (drained c 1)" using drained_rx_ready [OF Suc.prems(1), of 1] Cons by simp
    from Suc.IH [OF this, of m1 "dst + 1" "i + 1"] m1 Cons show ?thesis
      by (simp add: rx_recv_front [OF Suc.prems(1) Cons])
  qed
qed simp

lemma stream_read_all:
  assumes r: "rx_ready c" and s: "store_all copyout m dst (take n (ch_buf c)) = Ok m'" and b: "n = 0 \<or> ch_buf c \<noteq> []"
  shows "stream_read copyout dst n m c = (Some (Ok (min n (length (ch_buf c)))), m', drained c (min n (length (ch_buf c))))"
proof (cases n)
  case (Suc k)
  with b obtain x bs where x: "ch_buf c = x # bs" by (cases "ch_buf c") auto
  with s Suc obtain m1 where m1: "copyout m dst x = Ok m1" "store_all copyout m1 (dst + 1) (take k bs) = Ok m'" by auto
  have "rx_ready (drained c 1)" using drained_rx_ready [OF r, of 1] x by simp
  from stream_read_rest_all [OF this, of copyout m1 "dst + 1" k m' 1] m1 x Suc show ?thesis
    by (simp add: stream_read_def rx_recv_front [OF r x])
qed (use s in \<open>simp add: stream_read_def\<close>)

text \<open>What one end of a pair writes, the other end reads.\<close>

definition hears :: "nat \<Rightarrow> nat \<Rightarrow> unixst \<Rightarrow> bool" where
  "hears k h s \<longleftrightarrow> (\<forall>copyin src bs copyout (m :: nat \<Rightarrow> byte) dst m'.
     readable copyin src bs \<longrightarrow> length bs \<le> 512 \<longrightarrow> store_all copyout m dst bs = Ok m' \<longrightarrow>
     (\<exists>s1 s2. usock_write copyin False k src (length bs) False s = (Returned (Ok (length bs)), s1) \<and>
        usock_read copyout h dst (length bs) False (s1, m) = (Some (Ok (length bs)), s2, m')))"

lemma pair_hears:
  assumes k: "uk_state (ux_socks s k) = SConnected u" and h: "uk_state (ux_socks s h) = SConnected v"
    and uv: "st_tx u = st_rx v" and c: "chan_quiet (ux_chans s (st_tx u))" "ch_buf (ux_chans s (st_tx u)) = []"
      "sem_count (ch_sem (ux_chans s (st_tx u))) = 512"
  shows "hears k h s"
  unfolding hears_def
proof (intro allI impI)
  fix copyin src bs copyout and m :: "nat \<Rightarrow> byte" and dst m'
  assume r: "readable copyin src bs" and len: "length bs \<le> 512" and st: "store_all copyout m dst bs = Ok m'"
  define c where "c = ux_chans s (st_tx u)"
  have room: "length bs \<le> room c" using len c(3) by (simp add: room_def c_def)
  have buf: "ch_buf (fed c bs) = bs" using c(2) by (simp add: fed_def c_def)
  have ready: "rx_ready (fed c bs)" using fed_quiet [OF c(1), of bs] room by (simp add: quiet_rx_ready c_def)
  define s1 where "s1 = upd_chan (st_tx u) (fed c bs) s"
  have w: "usock_write copyin False k src (length bs) False s = (Returned (Ok (length bs)), s1)"
    using write_loop_quiet [OF c(1) r, of 0] room k by (simp add: usock_write_def usock_stream_def s1_def c_def)
  have "stream_read copyout dst (length bs) m (ux_chans s1 (st_rx v)) = (Some (Ok (length bs)), m', drained (fed c bs) (length bs))"
    using stream_read_all [OF ready, of copyout m dst "length bs" m'] st buf uv by (auto simp: s1_def)
  then show "\<exists>s1 s2. usock_write copyin False k src (length bs) False s = (Returned (Ok (length bs)), s1) \<and>
      usock_read copyout h dst (length bs) False (s1, m) = (Some (Ok (length bs)), s2, m')"
    using w h by (auto simp: usock_read_def usock_stream_def s1_def)
qed

lemma send_one:
  assumes "chan_quiet c" "ch_buf c = []" "1 \<le> sem_max (ch_sem c)"
  shows "\<exists>c'. chan_send False c x = (Some (Ok ()), c') \<and> chan_try_send c x = (Ok (), c') \<and> chan_quiet c' \<and> ch_buf c' = [x]"
proof (intro exI conjI)
  let ?c = "push_back (c\<lparr>ch_sem := (ch_sem c)\<lparr>sem_count := sem_count (ch_sem c) - 1\<rparr>\<rparr>) x"
  show "chan_send False c x = (Some (Ok ()), ?c)" "chan_try_send c x = (Ok (), ?c)" "chan_quiet ?c" "ch_buf ?c = [x]"
    using assms by (auto simp: chan_quiet_def chan_send_def sem_wait_def chan_try_send_def sem_try_wait_def push_back_def)
qed

lemma take_one:
  assumes "chan_quiet c" "ch_buf c = [x]"
  shows "\<exists>c'. chan_recv c = (Some (Ok x), c') \<and> chan_try_recv c = (Ok x, c')"
  using assms by (auto simp: chan_quiet_def chan_recv_def chan_try_recv_def pop_and_post_def sem_post_def)

lemma pair_made:
  "\<exists>c. stream_pair s = (Ok (\<lparr>st_rx = ux_next s, st_tx = ux_next s + 1\<rparr>, \<lparr>st_rx = ux_next s + 1, st_tx = ux_next s\<rparr>),
       (upd_chan (ux_next s + 1) c (upd_chan (ux_next s) c s))\<lparr>ux_next := ux_next s + 2\<rparr>) \<and>
     chan_quiet c \<and> ch_buf c = [] \<and> sem_count (ch_sem c) = 512"
proof -
  obtain c :: "byte channel" where "sync_channel STREAM_BUF = Ok c" "chan_quiet c" "ch_buf c = []" "sem_count (ch_sem c) = STREAM_BUF"
    using sync_channel_quiet [of STREAM_BUF] by (auto simp: STREAM_BUF_def)
  then show ?thesis by (intro exI [of _ c]) (simp add: stream_pair_def Let_def STREAM_BUF_def)
qed


definition idle :: "int \<Rightarrow> 'a channel" where
  "idle n = \<lparr>ch_sem = \<lparr>sem_count = n, sem_closed = False, sem_max = n\<rparr>, ch_buf = [], ch_scnt = 1, ch_rcnt = 1\<rparr>"

definition ux_empty :: unixst where
  "ux_empty = \<lparr>ux_chans = \<lambda>_. idle 512, ux_lsts = \<lambda>_. idle 1,
     ux_socks = \<lambda>_. \<lparr>uk_live = False, uk_name = None, uk_state = SUnbound\<rparr>, ux_reg = Map.empty, ux_next = 0\<rparr>"

text \<open>Two sockets, the first of which listens under a name.\<close>

definition ux_two :: unixst where
  "ux_two = snd (usock_new (snd (usock_listen 0 1 (snd (usock_bind 0 [7] (snd (usock_new ux_empty)))))))"

lemma ux_two_reached: "unix_reach ux_two"
proof -
  have "unix_reach ux_empty" by (rule ux_start) (simp add: unix_new_def ux_empty_def)
  from ux_socket [OF this] have a: "unix_reach (snd (usock_new ux_empty))" by (metis prod.collapse)
  have "uk_live (ux_socks (snd (usock_new ux_empty)) 0)" by (simp add: usock_new_def usock_make_def ux_empty_def)
  from ux_bind [OF a this] have b: "unix_reach (snd (usock_bind 0 [7] (snd (usock_new ux_empty))))" by (metis prod.collapse)
  have "uk_live (ux_socks (snd (usock_bind 0 [7] (snd (usock_new ux_empty)))) 0)"
    by (simp add: usock_bind_def reg_upgrade_def usock_new_def usock_make_def ux_empty_def)
  from ux_listen [OF b this] have "unix_reach (snd (usock_listen 0 1 (snd (usock_bind 0 [7] (snd (usock_new ux_empty))))))"
    by (metis prod.collapse)
  from ux_socket [OF this] show ?thesis unfolding ux_two_def by (metis prod.collapse)
qed

lemma ux_two_state:
  "ux_socks ux_two 0 = \<lparr>uk_live = True, uk_name = Some [7], uk_state = SListening 1\<rparr>" "ch_buf (ux_lsts ux_two 1) = []"
  "ux_socks ux_two 2 = \<lparr>uk_live = True, uk_name = None, uk_state = SUnbound\<rparr>"
  by (simp_all add: ux_two_def usock_listen_def ulst_new_def BACKLOG_MAX_def sync_channel_def sem_new_def usock_bind_def
      reg_upgrade_def usock_new_def usock_make_def ux_empty_def)


end
