(* ===== verification/Spec2Isabelle.thy ===== *)
theory Spec2Isabelle
  imports Errors DList Heap Kalloc Runq Log_Ops Bio File_Ops Uvm_Fork Proc_Sched Proc_Signals Proc_Teardown Mmap_Areas Ipc Net_Loop Fb_Text Console_Edit Sh_Laws Umalloc_Laws Socket_Laws
begin

text \<open>
  Verification of web-os, a RISC-V kernel in Rust with its user programs and its web front end.

  \<^bold>\<open>The program.\<close> The kernel (\<^verbatim>\<open>crates/kernel\<close>) manages physical memory, address
  spaces, processes, files, mappings, sockets and devices. User programs (\<^verbatim>\<open>crates/user\<close>)
  are linked against a small library and reach the kernel by system calls; the shell is the largest of them.
  \<^verbatim>\<open>crates/mkfs\<close> builds the disk image, \<^verbatim>\<open>crates/app\<close> runs the machine in an
  emulator and hands its display to the browser, and \<^verbatim>\<open>src/src\<close> is the page shown there. This
  development is about the kernel, the shell and the memory allocator of user programs.

  \<^bold>\<open>Conventions.\<close> A routine is a function on an explicit state, one definition per Rust function.
  \<open>outcome\<close> (theory \<open>Prelude\<close>) has the constructors \<open>Ok\<close>, \<open>Err\<close>
  and \<open>Panic\<close>; where no error can be returned, an option is used and \<open>None\<close> is the panic.
  Everything between taking and releasing a lock is one step. A call that may sleep has the value
  \<open>None\<close> in its result together with the state in which the process sleeps, and is called again after
  the wakeup. Interleavings are inductive relations over such steps (\<open>chan_reach\<close>,
  \<open>log_reach\<close>, the steps of \<open>Proc_Sched\<close>, and so on). Shared objects
  (\<^verbatim>\<open>Arc\<close>, \<^verbatim>\<open>Weak\<close>) live in stores, with their strong counts
  explicit where the code depends on them. Machine integers are words where they may wrap; elsewhere they are
  natural numbers with the bound in the text of the theory.

  \<^bold>\<open>Theories and sources\<close> (files of \<^verbatim>\<open>crates/kernel/src\<close> unless said otherwise).

  \<^item> Vocabulary: \<open>Prelude\<close> (results, collections of facts, lemmas on lists and words),
    \<open>Bytes\<close> (little-endian encoding), \<open>Str\<close> (strings as bytes), \<open>Errors\<close>
    (\<^verbatim>\<open>error.rs\<close>), \<open>Params\<close> (\<^verbatim>\<open>param.rs\<close>,
    \<^verbatim>\<open>memlayout.rs\<close>, rounding of \<^verbatim>\<open>riscv.rs\<close>), \<open>Fifo\<close>
    (the contract of a bounded queue, interpreted on the channel and on the run queue).

  \<^item> Kernel heap: \<open>DList\<close> (\<^verbatim>\<open>list.rs\<close> on a store of nodes),
    \<open>Buddy_Tree\<close>, \<open>Buddy_Reserve\<close> (the abstract allocator), \<open>Buddy\<close>,
    \<open>Buddy_Init\<close> (\<^verbatim>\<open>buddy.rs\<close>), \<open>Heap\<close> (all runs of it),
    \<open>Kalloc\<close> (\<^verbatim>\<open>kalloc.rs\<close>, page reference counts). Shown: outstanding
    allocations never overlap, the allocator never panics and loses no byte; the counts of pages are exact.

  \<^item> Synchronisation: \<open>Semaphore\<close>, \<open>Sleeplock\<close>, \<open>Channel\<close>
    (\<^verbatim>\<open>mpmc.rs\<close>), \<open>Pipe\<close>, \<open>Runq\<close>. Shown: order and
    completeness of delivery under every interleaving, and exclusion.

  \<^item> Disk and files: \<open>Journal\<close>, \<open>Log_Ops\<close> (\<^verbatim>\<open>log.rs\<close>), \<open>Bio\<close>,
    \<open>Fs_Layout\<close>, \<open>Fs_Block\<close>, \<open>Fs_Inode\<close>, \<open>Fs_Itable\<close>,
    \<open>Fs_Path\<close>, \<open>Fs_Ops\<close> (\<^verbatim>\<open>fs.rs\<close>) with the laws in
    \<open>Fs_Map\<close>, \<open>Fs_File\<close>, \<open>Fs_Trunc\<close>, \<open>Fs_Spec\<close>,
    \<open>Fs_Dir\<close>, \<open>Fs_Refs\<close>; \<open>Fcntl\<close>, \<open>File\<close>,
    \<open>File_Ops\<close>. Shown: a crash at any write leaves the disk as before or as after the transaction;
    the log never fills up; the cache holds what was last written; files are byte sequences under read, write and
    truncation; directories are finite maps; references to inodes balance on every path, errors included; locks of
    files exclude each other.

  \<^item> Memory of processes: \<open>Vm\<close>, \<open>Uvm\<close> (\<^verbatim>\<open>vm.rs\<close>) with
    the laws in \<open>Vm_Map\<close>, \<open>Cow\<close>, \<open>Uvm_Size\<close>, \<open>Uvm_Fork\<close>;
    \<open>Mmap\<close>, \<open>Mmap_Areas\<close>. Shown: fork copies, address spaces are isolated under
    copy-on-write, areas stay apart.

  \<^item> Processes: \<open>Signal\<close>, \<open>Proc_State\<close>, \<open>Proc_Sig\<close>,
    \<open>Proc\<close> (\<^verbatim>\<open>proc.rs\<close>) with the laws in \<open>Proc_Frame\<close>,
    \<open>Proc_Sched\<close>, \<open>Proc_Tree\<close>, \<open>Proc_Wait\<close>, \<open>Proc_Signals\<close>,
    \<open>Proc_Teardown\<close>; \<open>Ipc\<close>. Shown: a process runs on one processor at most and is
    queued exactly when runnable; the family tree stays whole, an exit is reported once and its parent does not
    sleep through it; a signal handler returns to where the process was.

  \<^item> Network: \<open>Net_Packet\<close>, \<open>Virtio_Net\<close>, \<open>Net\<close>,
    \<open>Net_Sock\<close>, \<open>Net_Input\<close>, \<open>Net_Loop\<close>, and \<open>Socket\<close>,
    \<open>Socket_Laws\<close>. Shown: checksums verify, frames leave in order, the stack panics on no frame while
    the device lock is free, local streams arrive in order, Unix sockets connect by name.

  \<^item> Terminal: \<open>Framebuffer\<close>, \<open>Fb_Sync\<close>, \<open>Fb_Text\<close>,
    \<open>Console\<close>, \<open>Console_Edit\<close>. Shown: the picture on the host is the frame buffer after
    every call, and a typed line is read as typed.

  \<^item> User programs: \<open>Sh\<close>, \<open>Sh_Exec\<close> (\<^verbatim>\<open>sh.rs\<close>) with
    \<open>Sh_Parse\<close>, \<open>Sh_Laws\<close>; \<open>Umalloc\<close>, \<open>Umalloc_Laws\<close>
    (\<^verbatim>\<open>umalloc.rs\<close>).
\<close>

end
